(* ===== verification/Go_Prelude.thy ===== *)
theory Go_Prelude
  imports Complex_Main "HOL-Library.Multiset" "HOL-Library.Sublist"
begin

text \<open>
  Vocabulary shared by every component of the development: Go's 64-bit \<open>int\<close> with its
  wrap-around, byte strings and \<open>strings.TrimSpace\<close>, \<open>sort.Slice\<close>, the iteration over a
  Go map, and the collections of rewrite rules the component theories feed.

  A Go \<open>string\<close> is a sequence of bytes, so it is an Isabelle \<open>string\<close> (a list of 8-bit
  \<open>char\<close>s).  A Go map is a partial function.  \<open>time.Time\<close> and \<open>time.Duration\<close> are
  counts of nanoseconds.
\<close>

section \<open>Rule collections\<close>

named_theorems inv_intros \<open>introduction rules for the invariants of the components\<close>
named_theorems op_defs \<open>definitions of store operations, unfolded together\<close>

section \<open>Machine integers\<close>

text \<open>Go's \<open>int\<close> and \<open>int64\<close> have 64 bits in two's complement; arithmetic wraps around.\<close>

definition wrap64 :: "int \<Rightarrow> int" where
  "wrap64 x = (x + 2 ^ 63) mod 2 ^ 64 - 2 ^ 63"

definition in_int64 :: "int \<Rightarrow> bool" where
  "in_int64 x \<longleftrightarrow> - (2 ^ 63) \<le> x \<and> x < 2 ^ 63"

lemma wrap64_id: "in_int64 x \<Longrightarrow> wrap64 x = x"
  by (simp add: wrap64_def in_int64_def)

lemma wrap64_in_int64: "in_int64 (wrap64 x)"
proof -
  have "0 \<le> (x + 2 ^ 63) mod (2 ^ 64 :: int)" "(x + 2 ^ 63) mod (2 ^ 64 :: int) < 2 ^ 64"
    by simp_all
  then show ?thesis unfolding wrap64_def in_int64_def by simp
qed

section \<open>Time\<close>

type_synonym gotime = int
type_synonym duration = int

text \<open>The zero \<open>time.Time\<close> (year 1) as nanoseconds relative to the Unix epoch.\<close>

definition zero_time :: gotime where
  "zero_time = - 62135596800 * 1000000000"

definition time_IsZero :: "gotime \<Rightarrow> bool" where
  "time_IsZero t \<longleftrightarrow> t = zero_time"

text \<open>\<open>Time.Sub\<close> saturates at the largest and smallest duration.\<close>

definition time_Sub :: "gotime \<Rightarrow> gotime \<Rightarrow> duration" where
  "time_Sub t u = max (- (2 ^ 63)) (min (2 ^ 63 - 1) (t - u))"

section \<open>Strings\<close>

text \<open>
  The UTF-8 encodings of the code points for which \<open>unicode.IsSpace\<close> holds.  The byte
  strings are given by their numeric values.
\<close>

definition bytes :: "nat list \<Rightarrow> string" where
  "bytes ns = map char_of ns"

definition space_runes :: "string list" where
  "space_runes = map bytes
     ([[9], [10], [11], [12], [13], [32], [194, 133], [194, 160], [225, 154, 128]]
      @ map (\<lambda>b. [226, 128, b]) [128, 129, 130, 131, 132, 133, 134, 135, 136, 137, 138, 168, 169, 175]
      @ [[226, 129, 159], [227, 128, 128]])"

text \<open>Removes one leading space rune, if there is one.\<close>

definition drop_space :: "string list \<Rightarrow> string \<Rightarrow> string option" where
  "drop_space runes s =
     (case find (\<lambda>r. prefix r s) runes of
        None \<Rightarrow> None
      | Some r \<Rightarrow> if r = [] then None else Some (drop (length r) s))"

lemma drop_space_length: "drop_space rs s = Some t \<Longrightarrow> length t < length s"
proof -
  assume "drop_space rs s = Some t"
  then obtain r where "prefix r s" "r \<noteq> []" "t = drop (length r) s"
    by (auto simp: drop_space_def find_Some_iff split: option.splits if_splits)
  then show ?thesis by (cases r) (auto dest: prefix_length_le)
qed

function trim_left :: "string list \<Rightarrow> string \<Rightarrow> string" where
  "trim_left rs s = (case drop_space rs s of None \<Rightarrow> s | Some t \<Rightarrow> trim_left rs t)"
  by pat_completeness auto
termination
  by (relation "measure (\<lambda>(_, s). length s)") (auto dest: drop_space_length)

declare trim_left.simps [simp del]

text \<open>\<open>strings.TrimSpace\<close>: leading, then trailing white space.\<close>

definition TrimSpace :: "string \<Rightarrow> string" where
  "TrimSpace s = rev (trim_left (map rev space_runes) (rev (trim_left space_runes s)))"

lemma trim_left_suffix: "\<exists>p. s = p @ trim_left rs s"
proof (induction rs s rule: trim_left.induct)
  case (1 rs s)
  show ?case
  proof (cases "drop_space rs s")
    case None
    then show ?thesis by (subst trim_left.simps) simp
  next
    case (Some t)
    then obtain p where "t = p @ trim_left rs t" using 1 by blast
    moreover from Some obtain q where "s = q @ t"
      by (auto simp: drop_space_def split: option.splits if_splits)
        (metis append_take_drop_id)
    moreover from Some have "trim_left rs s = trim_left rs t"
      by (subst trim_left.simps) simp
    ultimately have "s = (q @ p) @ trim_left rs s" by simp
    then show ?thesis ..
  qed
qed

lemma trim_left_Nil [simp]: "trim_left rs [] = []"
  using trim_left_suffix [of "[]" rs] by simp

lemma TrimSpace_Nil [simp]: "TrimSpace [] = []"
  by (simp add: TrimSpace_def)

text \<open>A string that starts and ends with a printable ASCII character is left alone.\<close>

definition ascii_ink :: "char \<Rightarrow> bool" where
  "ascii_ink c \<longleftrightarrow> 33 \<le> (of_char c :: nat) \<and> (of_char c :: nat) < 127"

lemma space_runes_bytes:
  "r \<in> set space_runes \<Longrightarrow> r \<noteq> [] \<and> \<not> ascii_ink (hd r) \<and> \<not> ascii_ink (last r)"
  by (auto simp: space_runes_def bytes_def ascii_ink_def)

lemma trim_left_ink: "\<forall>r\<in>set rs. r \<noteq> [] \<and> \<not> ascii_ink (hd r) \<Longrightarrow> ascii_ink (hd s) \<Longrightarrow> s \<noteq> [] \<Longrightarrow> trim_left rs s = s"
proof -
  assume a: "\<forall>r\<in>set rs. r \<noteq> [] \<and> \<not> ascii_ink (hd r)" "ascii_ink (hd s)" "s \<noteq> []"
  have "\<not> prefix r s" if "r \<in> set rs" for r
    using a that by (cases s; cases r) fastforce+
  then have "find (\<lambda>r. prefix r s) rs = None" by (simp add: find_None_iff)
  then have "drop_space rs s = None" by (simp add: drop_space_def)
  then show ?thesis by (subst trim_left.simps) simp
qed

lemma TrimSpace_id: "s \<noteq> [] \<Longrightarrow> ascii_ink (hd s) \<Longrightarrow> ascii_ink (last s) \<Longrightarrow> TrimSpace s = s"
  using space_runes_bytes by (simp add: TrimSpace_def trim_left_ink hd_rev)

lemma TrimSpace_not_Nil: "TrimSpace s \<noteq> [] \<Longrightarrow> s \<noteq> []"
  by auto

lemma TrimSpace_infix: "\<exists>p q. s = p @ TrimSpace s @ q"
proof -
  obtain p where p: "s = p @ trim_left space_runes s" using trim_left_suffix by blast
  let ?t = "trim_left space_runes s"
  obtain q where "rev ?t = q @ trim_left (map rev space_runes) (rev ?t)"
    using trim_left_suffix by blast
  then have "rev (rev ?t) = TrimSpace s @ rev q"
    by (metis TrimSpace_def rev_append)
  then have "?t = TrimSpace s @ rev q" by simp
  with p show ?thesis by metis
qed

section \<open>Sorting\<close>

text \<open>
  \<open>sort.Slice\<close> and \<open>sort.Ints\<close>.  The library sorts short slices (up to twelve elements)
  by insertion; longer ones may come out with equivalent elements in another order.  The
  lemmas used by the components are only that the result is a permutation of the input in
  which no later element is less than an earlier one.
\<close>

fun insert_by :: "('a \<Rightarrow> 'a \<Rightarrow> bool) \<Rightarrow> 'a \<Rightarrow> 'a list \<Rightarrow> 'a list" where
  "insert_by lt x [] = [x]"
| "insert_by lt x (y # ys) = (if lt y x then y # insert_by lt x ys else x # y # ys)"

fun sort_slice :: "('a \<Rightarrow> 'a \<Rightarrow> bool) \<Rightarrow> 'a list \<Rightarrow> 'a list" where
  "sort_slice lt [] = []"
| "sort_slice lt (x # xs) = insert_by lt x (sort_slice lt xs)"

lemma mset_insert_by [simp]: "mset (insert_by lt x xs) = add_mset x (mset xs)"
  by (induction xs) auto

lemma mset_sort_slice [simp]: "mset (sort_slice lt xs) = mset xs"
  by (induction xs) auto

lemma set_sort_slice [simp]: "set (sort_slice lt xs) = set xs"
  using mset_sort_slice by (metis set_mset_mset)

lemma length_sort_slice [simp]: "length (sort_slice lt xs) = length xs"
  using mset_sort_slice by (metis size_mset)

lemma distinct_sort_slice [simp]: "distinct (sort_slice lt xs) = distinct xs"
  by (simp add: distinct_count_atmost_1)

text \<open>
  The contract of a Go comparison function: a strict weak order on the elements it is
  applied to.  Every sort and every heap of the program relies on it.
\<close>

locale strict_weak_order =
  fixes lt :: "'a \<Rightarrow> 'a \<Rightarrow> bool" and dom_lt :: "'a \<Rightarrow> bool"
  assumes less_asym: "dom_lt x \<Longrightarrow> dom_lt y \<Longrightarrow> lt x y \<Longrightarrow> \<not> lt y x"
    and not_less_trans:
      "dom_lt x \<Longrightarrow> dom_lt y \<Longrightarrow> dom_lt z \<Longrightarrow> \<not> lt x y \<Longrightarrow> \<not> lt y z \<Longrightarrow> \<not> lt x z"
begin

lemma less_irrefl: "dom_lt x \<Longrightarrow> \<not> lt x x"
  using less_asym by blast

lemma lt_trans: "dom_lt x \<Longrightarrow> dom_lt y \<Longrightarrow> dom_lt z \<Longrightarrow> lt x y \<Longrightarrow> lt y z \<Longrightarrow> lt x z"
  using less_asym not_less_trans by meson

lemma sorted_insert_by:
  "dom_lt x \<Longrightarrow> \<forall>y\<in>set ys. dom_lt y \<Longrightarrow> sorted_wrt (\<lambda>a b. \<not> lt b a) ys
    \<Longrightarrow> sorted_wrt (\<lambda>a b. \<not> lt b a) (insert_by lt x ys)"
proof (induction ys)
  case Nil
  then show ?case by simp
next
  case (Cons y ys)
  have set_ins: "set (insert_by lt x ys) = insert x (set ys)"
    by (metis mset_insert_by set_mset_add_mset_insert set_mset_mset)
  show ?case
  proof (cases "lt y x")
    case True
    with Cons have "\<not> lt x y" using less_asym by simp
    with Cons True set_ins show ?thesis by auto
  next
    case False
    moreover have "\<forall>z\<in>set ys. \<not> lt z x"
      using Cons.prems False not_less_trans by (metis list.set_intros sorted_wrt.simps(2))
    ultimately show ?thesis using Cons.prems by auto
  qed
qed

lemma sorted_sort_slice:
  "\<forall>y\<in>set ys. dom_lt y \<Longrightarrow> sorted_wrt (\<lambda>a b. \<not> lt b a) (sort_slice lt ys)"
  by (induction ys) (auto intro: sorted_insert_by)

text \<open>Comparing by a key, and in the opposite direction.\<close>

lemma on_key: "strict_weak_order (\<lambda>x y. lt (f x) (f y)) (\<lambda>x. dom_lt (f x))"
  by unfold_locales (blast dest: less_asym, blast dest: not_less_trans)

lemma flipped: "strict_weak_order (\<lambda>x y. lt y x) dom_lt"
  by unfold_locales (blast dest: less_asym, blast dest: not_less_trans)

end

interpretation linorder_lt: strict_weak_order "(<) :: 'a::linorder \<Rightarrow> 'a \<Rightarrow> bool" "\<lambda>_. True"
  by unfold_locales auto

section \<open>Maps\<close>

text \<open>
  Go leaves the order in which \<open>range\<close> visits the keys of a map open: it is one of the
  enumerations of the domain.  Code that ranges over a map takes the enumeration as an
  argument.
\<close>

definition iterates :: "'k list \<Rightarrow> ('k \<rightharpoonup> 'v) \<Rightarrow> bool" where
  "iterates ks m \<longleftrightarrow> distinct ks \<and> set ks = dom m"

lemma iterates_mem: "iterates ks m \<Longrightarrow> k \<in> set ks \<longleftrightarrow> (\<exists>v. m k = Some v)"
  by (auto simp: iterates_def)

lemma iterates_finite: "iterates ks m \<Longrightarrow> finite (dom m)"
  by (metis iterates_def finite_set)

lemma iterates_length: "iterates ks m \<Longrightarrow> length ks = card (dom m)"
  by (metis iterates_def distinct_card)

text \<open>The values a \<open>range\<close> loop visits, in order.\<close>

definition range_values :: "'k list \<Rightarrow> ('k \<rightharpoonup> 'v) \<Rightarrow> 'v list" where
  "range_values ks m = List.map_filter m ks"

lemma set_range_values: "iterates ks m \<Longrightarrow> set (range_values ks m) = ran m"
  by (force simp: range_values_def iterates_def List.map_filter_def ran_def)

lemma length_map_filter_Some: "\<forall>x\<in>set xs. f x \<noteq> None \<Longrightarrow> length (List.map_filter f xs) = length xs"
  by (induction xs) (auto simp: List.map_filter_simps split: option.splits)

lemma length_range_values: "iterates ks m \<Longrightarrow> length (range_values ks m) = card (dom m)"
  unfolding range_values_def iterates_length [symmetric]
  by (rule length_map_filter_Some) (auto simp: iterates_def)

section \<open>Lists\<close>

lemma sorted_wrt_filter_mono: "sorted_wrt P xs \<Longrightarrow> sorted_wrt P (filter Q xs)"
  by (induction xs) auto

lemma takeWhile_dropWhile_nth:
  "i = length (takeWhile P xs) \<Longrightarrow> i < length xs \<Longrightarrow> \<not> P (xs ! i)"
  using nth_length_takeWhile by blast

end
