(* ===== verification/Go_Float.thy ===== *)
theory Go_Float
  imports Go_Prelude
begin

text \<open>
  Go's \<open>float64\<close>: IEEE 754 binary64 with round-to-nearest, ties-to-even.  A value is NaN,
  an infinity or a rational number.  An operation computes the exact rational result and
  rounds it (\<open>round64\<close>).  The two zeros are one value: they compare equal, and the program
  never divides by a zero whose sign it could observe.  Comparison is the IEEE comparison, so
  every comparison with NaN is false.

  The lemmas show that rounding is monotone and idempotent, so that addition is monotone
  and adding a non-negative number never makes a value smaller; the shortest-path
  component relies on exactly these laws.
\<close>

section \<open>Powers of two and the exponent of a rational\<close>

definition pow2 :: "int \<Rightarrow> rat" where
  "pow2 e = (if 0 \<le> e then 2 ^ nat e else 1 / 2 ^ nat (- e))"

lemma pow2_powi: "pow2 e = 2 powi e"
  by (simp add: pow2_def power_int_def field_simps)

lemma pow2_pos [simp]: "0 < pow2 e"
  by (simp add: pow2_powi)

lemma pow2_nonneg [simp]: "0 \<le> pow2 e"
  by (simp add: pow2_powi)

lemma pow2_nonzero [simp]: "pow2 e \<noteq> 0"
  using pow2_pos [of e] by linarith

lemma pow2_add: "pow2 (a + b) = pow2 a * pow2 b"
  by (simp add: pow2_powi power_int_add)

lemma pow2_0 [simp]: "pow2 0 = 1"
  by (simp add: pow2_def)

lemma pow2_1 [simp]: "pow2 1 = 2"
  by (simp add: pow2_def)

lemma pow2_mono: "a \<le> b \<Longrightarrow> pow2 a \<le> pow2 b"
  by (simp add: pow2_powi power_int_increasing)

lemma pow2_less_iff: "pow2 a < pow2 b \<longleftrightarrow> a < b"
  proof
  show "a < b" if "pow2 a < pow2 b"
    using that pow2_mono [of b a] by (cases "a < b") auto
next
  assume "a < b"
  then have "pow2 (a + 1) \<le> pow2 b" by (intro pow2_mono) simp
  moreover have "pow2 (a + 1) = pow2 a + pow2 a" by (simp add: pow2_add)
  ultimately show "pow2 a < pow2 b" using pow2_pos [of a] by linarith
qed
 
lemma pow2_int: "0 \<le> e \<Longrightarrow> \<exists>k. pow2 e = of_int k"
  by (rule exI [of _ "2 ^ nat e"]) (simp add: pow2_def)

text \<open>The number of binary digits of a positive integer.\<close>

fun bit_len :: "int \<Rightarrow> int" where
  "bit_len n = (if n \<le> 0 then 0 else 1 + bit_len (n div 2))"

declare bit_len.simps [simp del]

lemma bit_len_nonneg: "0 \<le> bit_len n"
proof (induction n rule: bit_len.induct)
  case (1 n)
  then show ?case by (subst bit_len.simps) auto
qed

lemma bit_len_bounds:
  "0 < n \<Longrightarrow> 1 \<le> bit_len n \<and> pow2 (bit_len n - 1) \<le> of_int n \<and> of_int n < pow2 (bit_len n)"
proof (induction n rule: bit_len.induct)
  case (1 n)
  show ?case
  proof (cases "n = 1")
    case True
    have "bit_len 1 = 1" by (simp add: bit_len.simps)
    with True show ?thesis by simp
  next
    case False
    let ?h = "n div 2"
    have h: "0 < ?h" using 1(2) False by linarith
    have IH: "1 \<le> bit_len ?h" "pow2 (bit_len ?h - 1) \<le> of_int ?h" "of_int ?h < pow2 (bit_len ?h)"
      using 1 h by auto
    have len: "bit_len n = 1 + bit_len ?h" using 1(2) by (subst bit_len.simps) simp
    have lo: "2 * (of_int ?h :: rat) \<le> of_int n" and hi: "of_int n \<le> 2 * (of_int ?h :: rat) + 1"
      by linarith+
    obtain k where k: "pow2 (bit_len ?h) = of_int k" using pow2_int [OF bit_len_nonneg] by blast
    have "?h + 1 \<le> k" using IH(3) k by linarith
    then have "of_int n + 1 \<le> 2 * pow2 (bit_len ?h)" using hi k by linarith
    moreover have "pow2 (1 + bit_len ?h) = 2 * pow2 (bit_len ?h)" by (simp add: pow2_add)
    moreover have "pow2 (bit_len ?h) = 2 * pow2 (bit_len ?h - 1)"
      using pow2_add [of 1 "bit_len ?h - 1"] by simp
    ultimately show ?thesis using IH lo len by simp
  qed
qed

text \<open>The exponent \<open>e\<close> with \<open>2 ^ e \<le> x < 2 ^ (e + 1)\<close>, for positive \<open>x\<close>.\<close>

definition ilog2 :: "rat \<Rightarrow> int" where
  "ilog2 x = (let (p, q) = quotient_of x; e = bit_len p - bit_len q
              in if pow2 e \<le> x then e else e - 1)"

lemma ilog2_bounds:
  assumes "0 < x"
  shows "pow2 (ilog2 x) \<le> x" "x < pow2 (ilog2 x + 1)"
proof -
  obtain p q where pq: "quotient_of x = (p, q)" by fastforce
  have q: "0 < q" using quotient_of_denom_pos [OF pq] .
  have x: "x = of_int p / of_int q" using quotient_of_div [OF pq] .
  have p: "0 < p" using assms q x by (simp add: zero_less_divide_iff)
  let ?e = "bit_len p - bit_len q"
  have "x \<le> of_int p / pow2 (bit_len q - 1)"
    unfolding x using p q bit_len_bounds [OF q] by (intro divide_left_mono) auto
  also have "\<dots> < pow2 (bit_len p) / pow2 (bit_len q - 1)"
    using bit_len_bounds [OF p] by (intro divide_strict_right_mono) auto
  also have "\<dots> = pow2 (?e + 1)"
    using pow2_add [of "?e + 1" "bit_len q - 1"] by (simp add: field_simps)
  finally have hi: "x < pow2 (?e + 1)" .
  have "pow2 (?e - 1) = pow2 (bit_len p - 1) / pow2 (bit_len q)"
    using pow2_add [of "?e - 1" "bit_len q"] by (simp add: field_simps)
  also have "\<dots> \<le> of_int p / pow2 (bit_len q)"
    using bit_len_bounds [OF p] by (intro divide_right_mono) auto
  also have "\<dots> \<le> x"
    unfolding x using p q bit_len_bounds [OF q] by (intro divide_left_mono) auto
  finally have lo: "pow2 (?e - 1) \<le> x" .
  show "pow2 (ilog2 x) \<le> x" "x < pow2 (ilog2 x + 1)"
    using hi lo pq by (auto simp: ilog2_def Let_def)
qed

lemma ilog2_unique:
  assumes "pow2 e \<le> x" "x < pow2 (e + 1)" shows "ilog2 x = e"
proof -
  have x: "0 < x" using assms(1) pow2_pos [of e] by linarith
  have "pow2 e < pow2 (ilog2 x + 1)" "pow2 (ilog2 x) < pow2 (e + 1)"
    using ilog2_bounds [OF x] assms by linarith+
  then show ?thesis by (simp add: pow2_less_iff)
qed

lemma ilog2_mono: assumes "0 < x" "x \<le> y" shows "ilog2 x \<le> ilog2 y"
proof -
  have "pow2 (ilog2 x) < pow2 (ilog2 y + 1)"
    using assms ilog2_bounds [of x] ilog2_bounds [of y] by linarith
  then show ?thesis by (simp add: pow2_less_iff)
qed

section \<open>Rounding\<close>

text \<open>Round half to even, on the rationals.\<close>

definition round_half_even :: "rat \<Rightarrow> int" where
  "round_half_even x =
     (let f = \<lfloor>x\<rfloor>; r = x - of_int f
      in if r < 1 / 2 then f else if 1 / 2 < r then f + 1 else if even f then f else f + 1)"

lemma rhe_of_int [simp]: "round_half_even (of_int n) = n"
  by (simp add: round_half_even_def)

lemma rhe_between: "\<lfloor>x\<rfloor> \<le> round_half_even x" "round_half_even x \<le> \<lfloor>x\<rfloor> + 1"
  by (auto simp: round_half_even_def Let_def)

lemma rhe_mono: assumes "x \<le> y" shows "round_half_even x \<le> round_half_even y"
proof (cases "\<lfloor>x\<rfloor> = \<lfloor>y\<rfloor>")
  case True
  then show ?thesis using assms by (auto simp: round_half_even_def Let_def)
next
  case False
  then have "\<lfloor>x\<rfloor> + 1 \<le> \<lfloor>y\<rfloor>" using floor_mono [OF assms] by linarith
  then show ?thesis using rhe_between [of x] rhe_between [of y] by linarith
qed

lemma rhe_minus: "round_half_even (- x) = - round_half_even x"
proof (cases "x \<in> \<int>")
  case True
  then obtain n where x: "x = of_int n" by (auto elim: Ints_cases)
  have "round_half_even (of_int (- n)) = - n" by (rule rhe_of_int)
  with x show ?thesis by simp
next
  case False
  then have "\<lfloor>- x\<rfloor> = - \<lfloor>x\<rfloor> - 1" by (simp add: floor_minus ceiling_altdef Ints_def image_iff)
  then show ?thesis by (auto simp: round_half_even_def Let_def)
qed

text \<open>Rounding to a multiple of \<open>2 ^ e\<close>.\<close>

definition round_at :: "int \<Rightarrow> rat \<Rightarrow> rat" where
  "round_at e x = of_int (round_half_even (x / pow2 e)) * pow2 e"

lemma round_at_mono: "x \<le> y \<Longrightarrow> round_at e x \<le> round_at e y"
  unfolding round_at_def
  by (intro mult_right_mono) (auto intro!: rhe_mono divide_right_mono)

lemma round_at_minus: "round_at e (- x) = - round_at e x"
  by (simp add: round_at_def rhe_minus)

lemma round_at_multiple [simp]: "round_at e (of_int n * pow2 e) = of_int n * pow2 e"
  by (simp add: round_at_def)

lemma round_at_pow2: "e \<le> k \<Longrightarrow> round_at e (pow2 k) = pow2 k"
proof -
  assume "e \<le> k"
  then obtain n where "pow2 (k - e) = of_int n" using pow2_int [of "k - e"] by auto
  then have "pow2 k = of_int n * pow2 e" using pow2_add [of "k - e" e] by simp
  then show ?thesis by simp
qed

text \<open>The exponent of the last place of the binary64 format at magnitude \<open>x\<close>.\<close>

definition ulp_exp :: "rat \<Rightarrow> int" where
  "ulp_exp x = max (ilog2 \<bar>x\<bar> - 52) (- 1074)"

definition round_rat :: "rat \<Rightarrow> rat" where
  "round_rat x = (if x = 0 then 0 else round_at (ulp_exp x) x)"

lemma round_rat_0 [simp]: "round_rat 0 = 0"
  by (simp add: round_rat_def)

lemma round_rat_minus: "round_rat (- x) = - round_rat x"
  by (simp add: round_rat_def round_at_minus ulp_exp_def)

lemma round_rat_mono_pos: assumes "0 < x" "x \<le> y" shows "round_rat x \<le> round_rat y"
proof -
  have y: "0 < y" using assms by linarith
  have rx: "round_rat x = round_at (ulp_exp x) x" and ry: "round_rat y = round_at (ulp_exp y) y"
    using assms y by (auto simp: round_rat_def)
  have le: "ulp_exp x \<le> ulp_exp y"
    using ilog2_mono [OF assms] assms y by (auto simp: ulp_exp_def)
  show ?thesis
  proof (cases "ulp_exp x = ulp_exp y")
    case True
    then show ?thesis using rx ry round_at_mono [OF assms(2)] by simp
  next
    case False
    let ?k = "ulp_exp y + 52"
    have k: "ilog2 y = ?k" "ilog2 x + 1 \<le> ?k"
      using le False assms y by (auto simp: ulp_exp_def split: if_splits)
    have "x \<le> pow2 ?k"
      using ilog2_bounds(2) [OF assms(1)] pow2_mono [OF k(2)] by linarith
    then have "round_at (ulp_exp x) x \<le> pow2 ?k"
      using round_at_mono [of x "pow2 ?k" "ulp_exp x"] round_at_pow2 [of "ulp_exp x" ?k] le by simp
    also have "pow2 ?k \<le> round_at (ulp_exp y) y"
      using round_at_mono [of "pow2 ?k" y "ulp_exp y"] round_at_pow2 [of "ulp_exp y" ?k]
        ilog2_bounds(1) [OF y] k(1) by simp
    finally show ?thesis by (simp add: rx ry)
  qed
qed

lemma round_rat_nonneg: "0 \<le> x \<Longrightarrow> 0 \<le> round_rat x"
  using round_at_mono [of 0 x "ulp_exp x"] round_at_multiple [of "ulp_exp x" 0]
  by (simp add: round_rat_def)

lemma round_rat_mono: assumes "x \<le> y" shows "round_rat x \<le> round_rat y"
proof -
  consider "0 < x" | "x \<le> 0" "0 \<le> y" | "y < 0" by linarith
  then show ?thesis
  proof cases
    case 1
    then show ?thesis using round_rat_mono_pos assms by blast
  next
    case 2
    then have "0 \<le> round_rat (- x)" "0 \<le> round_rat y" by (auto intro: round_rat_nonneg)
    then show ?thesis by (simp add: round_rat_minus)
  next
    case 3
    then have "round_rat (- y) \<le> round_rat (- x)" using round_rat_mono_pos [of "- y" "- x"] assms by simp
    then show ?thesis by (simp add: round_rat_minus)
  qed
qed

text \<open>Every multiple of the last place below the next binade is a fixed point of rounding.\<close>

lemma round_rat_fix:
  assumes y: "y = of_int m * pow2 e" "\<bar>y\<bar> \<le> pow2 (e + 53)" "- 1074 \<le> e"
  shows "round_rat y = y"
proof (cases "y = 0")
  case False
  define u where "u = ulp_exp y"
  have pos: "0 < \<bar>y\<bar>" using False by simp
  have "\<exists>n. y = of_int n * pow2 u"
  proof (cases "\<bar>y\<bar> < pow2 (e + 53)")
    case True
    then have "pow2 (ilog2 \<bar>y\<bar>) < pow2 (e + 53)" using ilog2_bounds(1) [OF pos] by linarith
    then have "u \<le> e" using y(3) by (simp add: u_def ulp_exp_def pow2_less_iff)
    then obtain k where "pow2 (e - u) = of_int k" using pow2_int [of "e - u"] by auto
    then have "pow2 e = of_int k * pow2 u" using pow2_add [of "e - u" u] by simp
    then have "y = of_int (m * k) * pow2 u" using y(1) by (simp add: mult.assoc)
    then show ?thesis by blast
  next
    case False
    then have eq: "\<bar>y\<bar> = pow2 (e + 53)" using y(2) by linarith
    then have "ilog2 \<bar>y\<bar> = e + 53"
      by (intro ilog2_unique) (auto simp: pow2_less_iff)
    then have "u = e + 1" using y(3) by (simp add: u_def ulp_exp_def)
    moreover obtain k where "pow2 52 = of_int k" using pow2_int [of 52] by auto
    ultimately have "\<bar>y\<bar> = of_int k * pow2 u"
      using eq pow2_add [of 52 "e + 1"] by (simp add: algebra_simps)
    then have "y = of_int k * pow2 u \<or> y = of_int (- k) * pow2 u" by (auto simp: abs_if split: if_splits)
    then show ?thesis by blast
  qed
  then obtain n where "y = of_int n * pow2 u" by blast
  then show ?thesis using False round_at_multiple [of u n] by (simp add: round_rat_def u_def)
qed simp

lemma round_rat_idem [simp]: "round_rat (round_rat x) = round_rat x"
proof (cases "x = 0")
  case False
  let ?e = "ulp_exp x"
  have e: "- 1074 \<le> ?e" "ilog2 \<bar>x\<bar> + 1 \<le> ?e + 53" by (auto simp: ulp_exp_def)
  have ax: "\<bar>round_rat x\<bar> = round_at ?e \<bar>x\<bar>"
    using round_rat_nonneg [of "\<bar>x\<bar>"] False
    by (auto simp: round_rat_def round_at_minus ulp_exp_def abs_if split: if_splits)
  have "\<bar>x\<bar> \<le> pow2 (?e + 53)"
    using ilog2_bounds(2) [of "\<bar>x\<bar>"] pow2_mono [OF e(2)] False by linarith
  then have "\<bar>round_rat x\<bar> \<le> pow2 (?e + 53)"
    using round_at_mono [of "\<bar>x\<bar>" "pow2 (?e + 53)" ?e] round_at_pow2 [of ?e "?e + 53"] ax by simp
  moreover have "round_rat x = of_int (round_half_even (x / pow2 ?e)) * pow2 ?e"
    using False by (simp add: round_rat_def round_at_def)
  ultimately show ?thesis using round_rat_fix e(1) by blast
qed simp

lemma round_rat_of_int: "\<bar>n\<bar> \<le> 2 ^ 53 \<Longrightarrow> round_rat (of_int n) = of_int n"
proof -
  assume "\<bar>n\<bar> \<le> 2 ^ 53"
  then have "of_int \<bar>n\<bar> \<le> (of_int (2 ^ 53) :: rat)" by (rule of_int_le_iff [THEN iffD2])
  then have "\<bar>of_int n\<bar> \<le> pow2 (0 + 53)" by (simp add: pow2_def)
  then show ?thesis using round_rat_fix [of "of_int n" n 0] by simp
qed

section \<open>The type of binary64 values\<close>

datatype f64 = NaN | NegInf | Fin rat | PosInf

definition round64 :: "rat \<Rightarrow> f64" where
  "round64 x =
     (let y = round_rat x
      in if pow2 1024 \<le> y then PosInf else if y \<le> - pow2 1024 then NegInf else Fin y)"

text \<open>The values the format can represent; every operation returns one.\<close>

definition rep64 :: "f64 \<Rightarrow> bool" where
  "rep64 a \<longleftrightarrow> (case a of Fin q \<Rightarrow> round_rat q = q \<and> \<bar>q\<bar> < pow2 1024 | _ \<Rightarrow> True)"

lemma rep64_simps [simp]: "rep64 NaN" "rep64 NegInf" "rep64 PosInf"
  "rep64 (Fin q) \<longleftrightarrow> round_rat q = q \<and> \<bar>q\<bar> < pow2 1024"
  by (auto simp: rep64_def)

lemma rep64_round64 [simp]: "rep64 (round64 x)"
  by (auto simp: round64_def Let_def)

lemma round64_Fin: "rep64 (Fin q) \<Longrightarrow> round64 q = Fin q"
  by (auto simp: round64_def Let_def)

text \<open>Go's conversions and \<open>math.IsNaN\<close>, \<open>math.IsInf\<close>, \<open>math.Ceil\<close>, \<open>math.Round\<close>.\<close>

definition f64_of_int :: "int \<Rightarrow> f64" where
  "f64_of_int n = round64 (of_int n)"

lemma f64_of_int_small: "\<bar>n\<bar> \<le> 2 ^ 53 \<Longrightarrow> f64_of_int n = Fin (of_int n)"
proof -
  assume n: "\<bar>n\<bar> \<le> 2 ^ 53"
  then have "\<bar>of_int n :: rat\<bar> \<le> of_int (2 ^ 53)" by (metis of_int_abs of_int_le_iff)
  also have "\<dots> < pow2 1024" by (simp add: pow2_def)
  finally show ?thesis using n round64_Fin [of "of_int n"] by (simp add: f64_of_int_def round_rat_of_int)
qed

definition math_IsNaN :: "f64 \<Rightarrow> bool" where
  "math_IsNaN a \<longleftrightarrow> a = NaN"

definition math_IsInf :: "f64 \<Rightarrow> bool" where
  "math_IsInf a \<longleftrightarrow> a = PosInf \<or> a = NegInf"

definition math_Ceil :: "f64 \<Rightarrow> f64" where
  "math_Ceil a = (case a of Fin q \<Rightarrow> Fin (of_int \<lceil>q\<rceil>) | _ \<Rightarrow> a)"

definition math_Floor :: "f64 \<Rightarrow> f64" where
  "math_Floor a = (case a of Fin q \<Rightarrow> Fin (of_int \<lfloor>q\<rfloor>) | _ \<Rightarrow> a)"

text \<open>\<open>math.Round\<close>: half away from zero.\<close>

definition math_Round :: "f64 \<Rightarrow> f64" where
  "math_Round a =
     (case a of
        Fin q \<Rightarrow> Fin (if 0 \<le> q then of_int \<lfloor>q + 1 / 2\<rfloor> else - of_int \<lfloor>- q + 1 / 2\<rfloor>)
      | _ \<Rightarrow> a)"

text \<open>
  Conversion to \<open>int\<close> truncates towards zero.  For NaN and for values outside the range of
  the type Go leaves the result to the implementation; this is what amd64 returns.
\<close>

definition f64_to_int :: "f64 \<Rightarrow> int" where
  "f64_to_int a =
     (case a of
        Fin q \<Rightarrow> (let n = (if 0 \<le> q then \<lfloor>q\<rfloor> else - \<lfloor>- q\<rfloor>)
                  in if in_int64 n then n else - (2 ^ 63))
      | _ \<Rightarrow> - (2 ^ 63))"

section \<open>Comparison and arithmetic\<close>

instantiation f64 :: ord
begin

fun less_eq_f64 :: "f64 \<Rightarrow> f64 \<Rightarrow> bool" where
  "less_eq_f64 NaN _ \<longleftrightarrow> False"
| "less_eq_f64 _ NaN \<longleftrightarrow> False"
| "less_eq_f64 NegInf _ \<longleftrightarrow> True"
| "less_eq_f64 _ PosInf \<longleftrightarrow> True"
| "less_eq_f64 (Fin p) (Fin q) \<longleftrightarrow> p \<le> q"
| "less_eq_f64 _ _ \<longleftrightarrow> False"

definition less_f64 :: "f64 \<Rightarrow> f64 \<Rightarrow> bool" where
  "less_f64 a b \<longleftrightarrow> a \<le> b \<and> \<not> b \<le> a"

instance ..

end

instantiation f64 :: "{plus, uminus, minus, times, zero, one, inverse}"
begin

definition zero_f64 :: f64 where "zero_f64 = Fin 0"

definition one_f64 :: f64 where "one_f64 = Fin 1"

fun plus_f64 :: "f64 \<Rightarrow> f64 \<Rightarrow> f64" where
  "plus_f64 (Fin p) (Fin q) = round64 (p + q)"
| "plus_f64 NaN _ = NaN"
| "plus_f64 _ NaN = NaN"
| "plus_f64 PosInf NegInf = NaN"
| "plus_f64 NegInf PosInf = NaN"
| "plus_f64 PosInf _ = PosInf"
| "plus_f64 _ PosInf = PosInf"
| "plus_f64 _ _ = NegInf"

fun uminus_f64 :: "f64 \<Rightarrow> f64" where
  "uminus_f64 NaN = NaN"
| "uminus_f64 NegInf = PosInf"
| "uminus_f64 PosInf = NegInf"
| "uminus_f64 (Fin q) = Fin (- q)"

definition minus_f64 :: "f64 \<Rightarrow> f64 \<Rightarrow> f64" where
  "minus_f64 a b = a + (- b)"

text \<open>The sign of a value, for products and quotients with an infinity or a zero.\<close>

fun f64_sgn :: "f64 \<Rightarrow> rat" where
  "f64_sgn NaN = 0"
| "f64_sgn NegInf = - 1"
| "f64_sgn PosInf = 1"
| "f64_sgn (Fin q) = sgn q"

definition signed_inf :: "rat \<Rightarrow> f64" where
  "signed_inf s = (if 0 < s then PosInf else if s < 0 then NegInf else NaN)"

fun times_f64 :: "f64 \<Rightarrow> f64 \<Rightarrow> f64" where
  "times_f64 (Fin p) (Fin q) = round64 (p * q)"
| "times_f64 NaN _ = NaN"
| "times_f64 _ NaN = NaN"
| "times_f64 a b = signed_inf (f64_sgn a * f64_sgn b)"

fun divide_f64 :: "f64 \<Rightarrow> f64 \<Rightarrow> f64" where
  "divide_f64 (Fin p) (Fin q) = (if q = 0 then signed_inf p else round64 (p / q))"
| "divide_f64 NaN _ = NaN"
| "divide_f64 _ NaN = NaN"
| "divide_f64 (Fin p) _ = Fin 0"
| "divide_f64 a (Fin q) = signed_inf (f64_sgn a * (if q = 0 then 1 else sgn q))"
| "divide_f64 _ _ = NaN"

definition inverse_f64 :: "f64 \<Rightarrow> f64" where
  "inverse_f64 a = divide 1 a"

instance ..

end

lemma less_f64_simps [simp]:
  "\<not> NaN < a" "\<not> a < NaN" "Fin p < Fin q \<longleftrightarrow> p < q" "Fin p < PosInf" "NegInf < Fin p" "NegInf < PosInf"
  "\<not> PosInf < a" "\<not> a < NegInf"
  by (cases a; auto simp: less_f64_def)+

lemma le_f64_NaN [simp]: "\<not> NaN \<le> a" "\<not> a \<le> NaN" for a :: f64
  by (cases a; simp)+

lemma le_f64_Inf [simp]: "a \<le> PosInf \<longleftrightarrow> a \<noteq> NaN" "NegInf \<le> a \<longleftrightarrow> a \<noteq> NaN"
  by (cases a; simp)+

lemma le_f64_iff: "a \<le> b \<longleftrightarrow> a < b \<or> (a = b \<and> a \<noteq> NaN)" for a b :: f64
  by (cases a; cases b) auto

lemma f64_not_less: "a \<noteq> NaN \<Longrightarrow> b \<noteq> NaN \<Longrightarrow> \<not> a < b \<longleftrightarrow> b \<le> a" for a b :: f64
  by (cases a; cases b) auto

lemma f64_trans: "a \<le> b \<Longrightarrow> b \<le> c \<Longrightarrow> a \<le> c" for a b c :: f64
  by (cases a; cases b; cases c) auto

lemma f64_antisym: "a \<le> b \<Longrightarrow> b \<le> a \<Longrightarrow> a = b" for a b :: f64
  by (cases a; cases b) auto

lemma f64_refl [simp]: "a \<le> a \<longleftrightarrow> a \<noteq> NaN" for a :: f64
  by (cases a) auto

lemma f64_le_not_NaN: "a \<le> b \<Longrightarrow> a \<noteq> NaN \<and> b \<noteq> NaN" for a b :: f64
  by auto

interpretation f64_lt: strict_weak_order "(<) :: f64 \<Rightarrow> f64 \<Rightarrow> bool" "\<lambda>a. a \<noteq> NaN"
proof unfold_locales
  show "x \<noteq> NaN \<Longrightarrow> y \<noteq> NaN \<Longrightarrow> x < y \<Longrightarrow> \<not> y < x" for x y :: f64
    by (simp add: less_f64_def)
  show "x \<noteq> NaN \<Longrightarrow> y \<noteq> NaN \<Longrightarrow> z \<noteq> NaN \<Longrightarrow> \<not> x < y \<Longrightarrow> \<not> y < z \<Longrightarrow> \<not> x < z" for x y z :: f64
    by (auto simp: f64_not_less intro: f64_trans)
qed

section \<open>Laws of addition\<close>

lemma round64_le: "x \<le> y \<Longrightarrow> round64 x \<le> round64 y"
proof -
  assume "x \<le> y"
  then have le: "round_rat x \<le> round_rat y" by (rule round_rat_mono)
  have "- pow2 1024 < pow2 1024" by (simp add: pow2_def)
  with le show ?thesis unfolding round64_def Let_def by (auto; linarith)
qed

lemma round64_not_NaN [simp]: "round64 x \<noteq> NaN"
  by (auto simp: round64_def Let_def)

lemma f64_zero_le_round64: "0 \<le> x \<Longrightarrow> 0 \<le> round64 x"
  using round64_le [of 0 x] round64_Fin [of 0] by (simp add: zero_f64_def)

lemma rep64_plus [simp]: "rep64 (a + b)" for a b :: f64
  by (cases a; cases b) auto

lemma f64_nonneg_cases: assumes "0 \<le> (a :: f64)"
  obtains "a = PosInf" | q where "a = Fin q" "0 \<le> q"
  using assms by (cases a) (auto simp: zero_f64_def)

lemma f64_plus_nonneg: "0 \<le> a \<Longrightarrow> 0 \<le> b \<Longrightarrow> 0 \<le> a + b" for a b :: f64
  by (elim f64_nonneg_cases) (auto simp: f64_zero_le_round64, simp_all add: zero_f64_def)

lemma f64_plus_mono: "0 \<le> a \<Longrightarrow> a \<le> b \<Longrightarrow> 0 \<le> w \<Longrightarrow> a + w \<le> b + w" for a b w :: f64
proof -
  assume a: "0 \<le> a" "a \<le> b" "0 \<le> w"
  then have "0 \<le> b" by (blast intro: f64_trans)
  with a show ?thesis by (elim f64_nonneg_cases) (auto intro: round64_le)
qed

lemma f64_le_plus: "rep64 a \<Longrightarrow> 0 \<le> a \<Longrightarrow> 0 \<le> w \<Longrightarrow> a \<le> a + w" for a w :: f64
proof -
  assume a: "rep64 a" "0 \<le> a" "0 \<le> w"
  then show ?thesis
  proof (elim f64_nonneg_cases)
    fix p q assume pq: "a = Fin p" "0 \<le> p" "w = Fin q" "0 \<le> q"
    then have "round64 p \<le> round64 (p + q)" by (intro round64_le) simp
    then show ?thesis using pq a(1) round64_Fin [of p] by simp
  qed auto
qed

text \<open>Small integers are represented exactly.\<close>

lemma round64_int: "0 \<le> n \<Longrightarrow> n \<le> 2 ^ 53 \<Longrightarrow> round64 (of_int n) = Fin (of_int n) \<and> round64 (- of_int n) = Fin (- of_int n)"
proof -
  assume n: "0 \<le> n" "n \<le> 2 ^ 53"
  have "of_int n \<le> (of_int (2 ^ 53) :: rat)" using n(2) by (simp only: of_int_le_iff)
  also have "\<dots> < pow2 1024" by (simp add: pow2_def)
  finally have lt: "of_int n < pow2 1024" .
  have "round_rat (of_int n) = of_int n" "round_rat (- of_int n) = - of_int n"
    using round_rat_of_int [of n] n by (simp_all add: round_rat_minus)
  then show ?thesis using lt n by (simp add: round64_Fin)
qed

lemma round64_int_bounds:
  assumes "of_int a \<le> x" "x \<le> of_int b" "0 \<le> a" "b \<le> 2 ^ 53"
  shows "\<exists>q. round64 x = Fin q \<and> of_int a \<le> q \<and> q \<le> of_int b"
proof -
  have "(of_int a :: rat) \<le> of_int b" using assms(1,2) by linarith
  then have "0 \<le> b" "a \<le> 2 ^ 53" using assms by auto
  then have "Fin (of_int a) \<le> round64 x" "round64 x \<le> Fin (of_int b)"
    using round64_le [OF assms(1)] round64_le [OF assms(2)] round64_int [of a] round64_int [of b] assms by auto
  then show ?thesis by (cases "round64 x") auto
qed

text \<open>And so are dyadic fractions.\<close>

lemma round64_dyadic:
  assumes "\<bar>m\<bar> \<le> 2 ^ 53" "- 1074 \<le> e" "e \<le> 900"
  shows "round64 (of_int m * pow2 e) = Fin (of_int m * pow2 e)"
proof -
  have "of_int \<bar>m\<bar> \<le> (of_int (2 ^ 53) :: rat)" using assms(1) by (simp only: of_int_le_iff)
  also have "\<dots> = pow2 53" by (simp add: pow2_def)
  finally have m: "of_int \<bar>m\<bar> * pow2 e \<le> pow2 (e + 53)" using pow2_add [of e 53] by (simp add: mult.commute)
  then have "round_rat (of_int m * pow2 e) = of_int m * pow2 e"
    by (intro round_rat_fix [OF refl _ assms(2)]) (simp add: abs_mult)
  moreover have "pow2 (e + 53) < pow2 1024" using assms(3) by (simp add: pow2_less_iff)
  then have "\<bar>of_int m * pow2 e\<bar> < pow2 1024" using m by (simp add: abs_mult)
  ultimately show ?thesis by (intro round64_Fin) (simp add: rep64_def)
qed

section \<open>Durations\<close>

text \<open>Division of durations goes towards zero.\<close>

definition dur_div :: "int \<Rightarrow> int \<Rightarrow> int" where
  "dur_div a b = (if 0 \<le> a then a div b else - (- a div b))"

text \<open>\<open>Duration.Seconds\<close>.\<close>

definition dur_Seconds :: "duration \<Rightarrow> f64" where
  "dur_Seconds d =
     (let sec = dur_div d 1000000000; nsec = d - sec * 1000000000
      in f64_of_int sec + f64_of_int nsec / f64_of_int 1000000000)"

end
