(* ===== verification/Heap_Order.thy ===== *)
theory Heap_Order
  imports Go_Prelude
begin

text \<open>
  The theory of array-backed binary heaps that the four heap implementations of the
  repository share: the heap order on a list, the two invariants with a single defect (one
  repaired by moving an element up, one by moving it down), and the steps that move the
  defect.  The contract of a priority queue is the locale \<open>prio_queue\<close>; its clients are
  proved once against it.
\<close>

section \<open>Positions\<close>

definition parent_ix :: "nat \<Rightarrow> nat" where
  "parent_ix i = (i - 1) div 2"

definition list_swap :: "'a list \<Rightarrow> nat \<Rightarrow> nat \<Rightarrow> 'a list" where
  "list_swap xs i j = xs[i := xs ! j, j := xs ! i]"

lemma length_list_swap [simp]: "length (list_swap xs i j) = length xs"
  by (simp add: list_swap_def)

lemma nth_list_swap: "i < length xs \<Longrightarrow> j < length xs \<Longrightarrow> k < length xs \<Longrightarrow>
    list_swap xs i j ! k = (if k = j then xs ! i else if k = i then xs ! j else xs ! k)"
  by (simp add: list_swap_def nth_list_update)

lemma mset_list_swap [simp]: "i < length xs \<Longrightarrow> j < length xs \<Longrightarrow> mset (list_swap xs i j) = mset xs"
  by (cases "i = j") (auto simp: list_swap_def mset_swap)

lemma set_list_swap [simp]: "i < length xs \<Longrightarrow> j < length xs \<Longrightarrow> set (list_swap xs i j) = set xs"
  by (metis mset_list_swap set_mset_mset)

lemma parent_less: "0 < i \<Longrightarrow> parent_ix i < i"
  by (simp add: parent_ix_def)

lemma parent_ix_iff: "0 < j \<Longrightarrow> parent_ix j = i \<longleftrightarrow> j = 2 * i + 1 \<or> j = 2 * i + 2"
  by (auto simp: parent_ix_def)

section \<open>The heap order\<close>

context strict_weak_order
begin

definition heap_ordered :: "'a list \<Rightarrow> bool" where
  "heap_ordered xs \<longleftrightarrow> (\<forall>j<length xs. 0 < j \<longrightarrow> \<not> lt (xs ! j) (xs ! parent_ix j))"

text \<open>Only the element at \<open>i\<close> may be smaller than its parent.\<close>

definition up_defect :: "'a list \<Rightarrow> nat \<Rightarrow> bool" where
  "up_defect xs i \<longleftrightarrow> i < length xs \<and> (\<forall>x\<in>set xs. dom_lt x)
     \<and> (\<forall>j<length xs. 0 < j \<longrightarrow> j \<noteq> i \<longrightarrow> \<not> lt (xs ! j) (xs ! parent_ix j))
     \<and> (\<forall>j<length xs. 0 < j \<longrightarrow> parent_ix j = i \<longrightarrow> 0 < i \<longrightarrow> \<not> lt (xs ! j) (xs ! parent_ix i))"

text \<open>Only the children of \<open>i\<close> may be smaller than their parent.\<close>

definition down_defect :: "'a list \<Rightarrow> nat \<Rightarrow> bool" where
  "down_defect xs i \<longleftrightarrow> (\<forall>x\<in>set xs. dom_lt x)
     \<and> (\<forall>j<length xs. 0 < j \<longrightarrow> parent_ix j \<noteq> i \<longrightarrow> \<not> lt (xs ! j) (xs ! parent_ix j))
     \<and> (\<forall>j<length xs. 0 < j \<longrightarrow> parent_ix j = i \<longrightarrow> 0 < i \<longrightarrow> \<not> lt (xs ! j) (xs ! parent_ix i))"

lemma heap_ordered_Nil [simp]: "heap_ordered []"
  by (simp add: heap_ordered_def)

lemma up_defect_append:
  assumes "heap_ordered xs" "\<forall>y\<in>set xs. dom_lt y" "dom_lt x"
  shows "up_defect (xs @ [x]) (length xs)"
proof -
  have p: "parent_ix j < length xs" if "0 < j" "j \<le> length xs" for j
    using that parent_less [of j] by linarith
  have "\<not> lt ((xs @ [x]) ! j) ((xs @ [x]) ! parent_ix j)"
    if "j < length xs" "0 < j" for j
    using assms(1) that p [of j] by (simp add: heap_ordered_def nth_append)
  moreover have "parent_ix j \<noteq> length xs" if "0 < j" "j \<le> length xs" for j
    using p [OF that] by simp
  ultimately show ?thesis
    using assms(2,3) unfolding up_defect_def by (auto simp: less_Suc_eq)
qed

lemma up_defect_stop:
  assumes "up_defect xs i" "i = 0 \<or> \<not> lt (xs ! i) (xs ! parent_ix i)"
  shows "heap_ordered xs"
  using assms unfolding up_defect_def heap_ordered_def by blast

lemma up_defect_step:
  assumes inv: "up_defect xs i" and i: "0 < i" and lt: "lt (xs ! i) (xs ! parent_ix i)"
  shows "up_defect (list_swap xs i (parent_ix i)) (parent_ix i)"
proof -
  let ?p = "parent_ix i" and ?ys = "list_swap xs i (parent_ix i)"
  have len: "i < length xs" and d: "\<And>k. k < length xs \<Longrightarrow> dom_lt (xs ! k)"
    and ok: "\<And>j. j < length xs \<Longrightarrow> 0 < j \<Longrightarrow> j \<noteq> i \<Longrightarrow> \<not> lt (xs ! j) (xs ! parent_ix j)"
    and gp: "\<And>j. j < length xs \<Longrightarrow> 0 < j \<Longrightarrow> parent_ix j = i \<Longrightarrow> \<not> lt (xs ! j) (xs ! ?p)"
    using inv i by (auto simp: up_defect_def)
  have pil: "?p < i" and p: "?p < length xs" using parent_less [OF i] len by auto
  have nth: "?ys ! k = (if k = ?p then xs ! i else if k = i then xs ! ?p else xs ! k)"
    if "k < length xs" for k using that len p by (simp add: nth_list_swap)
  have nlt: "\<not> lt (xs ! ?p) (xs ! i)" using lt less_asym d len p by blast
  have ord: "\<not> lt (?ys ! j) (?ys ! parent_ix j)" if j: "j < length xs" "0 < j" "j \<noteq> ?p" for j
  proof -
    have pj: "parent_ix j < length xs" "parent_ix j < j" using parent_less [OF j(2)] j(1) by auto
    consider "j = i" | "j \<noteq> i" "parent_ix j = i" | "j \<noteq> i" "parent_ix j = ?p"
      | "j \<noteq> i" "parent_ix j \<noteq> i" "parent_ix j \<noteq> ?p" by blast
    then show ?thesis
    proof cases
      case 3
      then have "\<not> lt (xs ! j) (xs ! ?p)" using ok j by metis
      then have "\<not> lt (xs ! j) (xs ! i)" using nlt not_less_trans d j len p by blast
      then show ?thesis using 3 j pj nth by simp
    qed (use nth j pj pil nlt gp ok p in auto)
  qed
  have up: "\<not> lt (?ys ! j) (?ys ! parent_ix ?p)"
    if j: "j < length xs" "0 < j" "parent_ix j = ?p" "0 < ?p" for j
  proof -
    have pp: "parent_ix ?p < ?p" using parent_less [OF j(4)] .
    have okp: "\<not> lt (xs ! ?p) (xs ! parent_ix ?p)" using ok p pil j(4) by simp
    have "?ys ! parent_ix ?p = xs ! parent_ix ?p" using nth pp p pil by simp
    moreover have "\<not> lt (xs ! j) (xs ! parent_ix ?p)" if "j \<noteq> i"
      using okp ok [OF j(1,2) that] j not_less_trans d p pp by (metis less_trans)
    moreover have "j \<noteq> ?p" using parent_less [OF j(2)] j(3) by simp
    ultimately show ?thesis using nth [OF j(1)] okp by auto
  qed
  show ?thesis using ord up inv len p unfolding up_defect_def by auto
qed

lemma down_defect_stop:
  assumes "down_defect xs i"
    and "\<And>c. c < length xs \<Longrightarrow> c = 2 * i + 1 \<or> c = 2 * i + 2 \<Longrightarrow> \<not> lt (xs ! c) (xs ! i)"
  shows "heap_ordered xs"
  using assms unfolding down_defect_def heap_ordered_def by (metis parent_ix_iff)

lemma down_defect_step:
  assumes inv: "down_defect xs i" and i: "i < length xs"
    and c: "c < length xs" "c = 2 * i + 1 \<or> c = 2 * i + 2" "lt (xs ! c) (xs ! i)"
    and least: "\<And>d. d < length xs \<Longrightarrow> d = 2 * i + 1 \<or> d = 2 * i + 2 \<Longrightarrow> \<not> lt (xs ! d) (xs ! c)"
  shows "down_defect (list_swap xs i c) c"
proof -
  let ?ys = "list_swap xs i c"
  have d: "\<And>k. k < length xs \<Longrightarrow> dom_lt (xs ! k)"
    and ok: "\<And>j. j < length xs \<Longrightarrow> 0 < j \<Longrightarrow> parent_ix j \<noteq> i \<Longrightarrow> \<not> lt (xs ! j) (xs ! parent_ix j)"
    and gp: "\<And>j. j < length xs \<Longrightarrow> 0 < j \<Longrightarrow> parent_ix j = i \<Longrightarrow> 0 < i \<Longrightarrow> \<not> lt (xs ! j) (xs ! parent_ix i)"
    using inv by (auto simp: down_defect_def)
  have pc: "parent_ix c = i" "0 < c" "i < c" using c(2) by (auto simp: parent_ix_def)
  have nth: "?ys ! k = (if k = c then xs ! i else if k = i then xs ! c else xs ! k)"
    if "k < length xs" for k using that i c by (simp add: nth_list_swap)
  have nlt: "\<not> lt (xs ! i) (xs ! c)" using c less_asym d i by blast
  have ord: "\<not> lt (?ys ! j) (?ys ! parent_ix j)" if j: "j < length xs" "0 < j" "parent_ix j \<noteq> c" for j
  proof -
    have pj: "parent_ix j < length xs" "parent_ix j < j" using parent_less [OF j(2)] j(1) by auto
    consider "j = c" | "j = i" | "j \<noteq> c" "j \<noteq> i" "parent_ix j = i" | "j \<noteq> c" "j \<noteq> i" "parent_ix j \<noteq> i"
      by blast
    then show ?thesis
    proof cases
      case 2
      then have "\<not> lt (xs ! c) (xs ! parent_ix i)" using gp c pc j by simp
      then show ?thesis using 2 nth pj pc j by simp
    next
      case 3
      then have "\<not> lt (xs ! j) (xs ! c)" using least parent_ix_iff j by simp
      then show ?thesis using 3 nth pj j by simp
    qed (use nth j pj pc nlt ok i in auto)
  qed
  have down: "\<not> lt (?ys ! j) (?ys ! parent_ix c)" if j: "j < length xs" "0 < j" "parent_ix j = c" for j
  proof -
    have "j \<noteq> c" "j \<noteq> i" using parent_less [OF j(2)] j(3) pc by auto
    moreover have "\<not> lt (xs ! j) (xs ! c)" using ok [OF j(1,2)] j(3) pc by simp
    ultimately show ?thesis using nth j i pc by simp
  qed
  show ?thesis using ord down inv i c unfolding down_defect_def by auto
qed

lemma heap_root_least: "heap_ordered xs \<Longrightarrow> \<forall>x\<in>set xs. dom_lt x \<Longrightarrow> j < length xs \<Longrightarrow> \<not> lt (xs ! j) (xs ! 0)"
proof (induction j rule: less_induct)
  case (less j)
  show ?case
  proof (cases "j = 0")
    case True
    then show ?thesis using less.prems less_irrefl by simp
  next
    case False
    then have p: "parent_ix j < j" by (simp add: parent_less)
    then have "\<not> lt (xs ! parent_ix j) (xs ! 0)" using less by simp
    moreover have "\<not> lt (xs ! j) (xs ! parent_ix j)" using less.prems False by (simp add: heap_ordered_def)
    ultimately show ?thesis
      using not_less_trans less.prems p by (metis nth_mem length_pos_if_in_set less_trans)
  qed
qed

lemma heap_hd_least: "heap_ordered xs \<Longrightarrow> \<forall>x\<in>set xs. dom_lt x \<Longrightarrow> x \<in> set xs \<Longrightarrow> \<not> lt x (hd xs)"
  using heap_root_least by (metis hd_conv_nth in_set_conv_nth length_pos_if_in_set length_greater_0_conv)

lemma heap_ordered_butlast: "heap_ordered xs \<Longrightarrow> heap_ordered (butlast xs)"
proof -
  assume "heap_ordered xs"
  moreover have "parent_ix j < length xs - 1" if "0 < j" "j < length xs - 1" for j
    using that parent_less [of j] by linarith
  ultimately show ?thesis by (simp add: heap_ordered_def nth_butlast)
qed

text \<open>Replacing the root of a heap leaves a defect below the root only.\<close>

lemma down_defect_root:
  assumes "heap_ordered xs" "\<forall>y\<in>set xs. dom_lt y" "dom_lt x"
  shows "down_defect (xs[0 := x]) 0"
proof -
  have "\<not> lt (xs[0 := x] ! j) (xs[0 := x] ! parent_ix j)"
    if "j < length xs" "0 < j" "parent_ix j \<noteq> 0" for j
    using assms(1) that by (simp add: heap_ordered_def)
  moreover have "\<forall>y\<in>set (xs[0 := x]). dom_lt y"
    using assms(2,3) set_update_subset_insert by fastforce
  ultimately show ?thesis by (simp add: down_defect_def)
qed

end

section \<open>The contract of a priority queue\<close>

text \<open>
  What a client of a heap relies on: pushing adds one element, popping removes and returns
  a least one (no element left is less), and an empty queue reports it.
\<close>

datatype 'a heap_op = HPush 'a | HPop

text \<open>A script of operations on a queue, with the result of every pop; and what a bag allows.\<close>

fun heap_run :: "('a list \<Rightarrow> 'a \<Rightarrow> 'a list) \<Rightarrow> ('a list \<Rightarrow> ('a \<times> 'a list) option) \<Rightarrow> 'a heap_op list \<Rightarrow> 'a list
    \<Rightarrow> 'a option list" where
  "heap_run push pop [] q = []"
| "heap_run push pop (HPush x # ops) q = heap_run push pop ops (push q x)"
| "heap_run push pop (HPop # ops) q =
     (case pop q of
        None \<Rightarrow> None # heap_run push pop ops q
      | Some (x, q') \<Rightarrow> Some x # heap_run push pop ops q')"

fun bag_run :: "('a \<Rightarrow> 'a \<Rightarrow> bool) \<Rightarrow> 'a heap_op list \<Rightarrow> 'a multiset \<Rightarrow> 'a option list \<Rightarrow> bool" where
  "bag_run lt [] M outs \<longleftrightarrow> outs = []"
| "bag_run lt (HPush x # ops) M outs \<longleftrightarrow> bag_run lt ops (add_mset x M) outs"
| "bag_run lt (HPop # ops) M outs \<longleftrightarrow>
     (case outs of
        [] \<Rightarrow> False
      | None # os \<Rightarrow> M = {#} \<and> bag_run lt ops M os
      | Some x # os \<Rightarrow> x \<in># M \<and> (\<forall>y\<in>#M. \<not> lt y x) \<and> bag_run lt ops (M - {#x#}) os)"

fun pushed :: "'a heap_op list \<Rightarrow> 'a set" where
  "pushed [] = {}"
| "pushed (HPush x # ops) = insert x (pushed ops)"
| "pushed (HPop # ops) = pushed ops"

locale prio_queue = strict_weak_order lt dom_lt
  for lt :: "'a \<Rightarrow> 'a \<Rightarrow> bool" and dom_lt :: "'a \<Rightarrow> bool" +
  fixes push :: "'a list \<Rightarrow> 'a \<Rightarrow> 'a list"
    and pop :: "'a list \<Rightarrow> ('a \<times> 'a list) option"
    and invar :: "'a list \<Rightarrow> bool"
  assumes invar_Nil: "invar []"
    and invar_dom: "invar q \<Longrightarrow> x \<in> set q \<Longrightarrow> dom_lt x"
    and push_invar: "invar q \<Longrightarrow> dom_lt x \<Longrightarrow> invar (push q x)"
    and push_mset: "mset (push q x) = add_mset x (mset q)"
    and pop_None: "pop q = None \<longleftrightarrow> q = []"
    and pop_invar: "invar q \<Longrightarrow> pop q = Some (x, q') \<Longrightarrow> invar q'"
    and pop_mset: "pop q = Some (x, q') \<Longrightarrow> mset q = add_mset x (mset q')"
    and pop_least: "invar q \<Longrightarrow> pop q = Some (x, q') \<Longrightarrow> y \<in> set q' \<Longrightarrow> \<not> lt y x"
begin

lemma pop_length: "pop q = Some (x, q') \<Longrightarrow> length q = Suc (length q')"
  using pop_mset by (metis size_add_mset size_mset)

lemma pop_set: "pop q = Some (x, q') \<Longrightarrow> set q = insert x (set q')"
  using pop_mset by (metis set_mset_add_mset_insert set_mset_mset)

lemma push_set: "set (push q x) = insert x (set q)"
  using push_mset by (metis set_mset_add_mset_insert set_mset_mset)

fun push_all :: "'a list \<Rightarrow> 'a list \<Rightarrow> 'a list" where
  "push_all q [] = q"
| "push_all q (x # xs) = push_all (push q x) xs"

lemma push_all_mset: "mset (push_all q xs) = mset q + mset xs"
  by (induction xs arbitrary: q) (auto simp: push_mset)

lemma push_all_invar: "invar q \<Longrightarrow> \<forall>x\<in>set xs. dom_lt x \<Longrightarrow> invar (push_all q xs)"
  by (induction xs arbitrary: q) (auto intro: push_invar)

text \<open>Popping until the queue is empty returns its elements in order.\<close>

fun drain :: "nat \<Rightarrow> 'a list \<Rightarrow> 'a list" where
  "drain 0 q = []"
| "drain (Suc n) q = (case pop q of None \<Rightarrow> [] | Some (x, q') \<Rightarrow> x # drain n q')"

lemma drain_mset: "length q \<le> n \<Longrightarrow> mset (drain n q) = mset q"
proof (induction n arbitrary: q)
  case (Suc n)
  show ?case
  proof (cases "pop q")
    case (Some p)
    then obtain x q' where p: "pop q = Some (x, q')" by (cases p) auto
    then have "length q' \<le> n" using pop_length Suc.prems by fastforce
    then show ?thesis using p Suc.IH pop_mset by simp
  next
    case None
    then have "q = []" by (simp only: pop_None)
    then show ?thesis using None by simp
  qed
qed simp

lemma drain_sorted: "invar q \<Longrightarrow> length q \<le> n \<Longrightarrow> sorted_wrt (\<lambda>a b. \<not> lt b a) (drain n q)"
proof (induction n arbitrary: q)
  case (Suc n)
  show ?case
  proof (cases "pop q")
    case (Some p)
    then obtain x q' where p: "pop q = Some (x, q')" by (cases p) auto
    then have n: "length q' \<le> n" using pop_length Suc.prems by fastforce
    have "set (drain n q') = set q'" using drain_mset [OF n] by (metis set_mset_mset)
    then have "\<forall>y\<in>set (drain n q'). \<not> lt y x" using p pop_least Suc.prems(1) by auto
    then show ?thesis using p Suc.IH [OF pop_invar [OF Suc.prems(1) p] n] by simp
  qed simp
qed simp

text \<open>A queue that keeps the contract is a bag that gives back a least element.\<close>

lemma heap_run_bag:
  "invar q \<Longrightarrow> \<forall>x\<in>pushed ops. dom_lt x \<Longrightarrow> bag_run lt ops (mset q) (heap_run push pop ops q)"
proof (induction ops arbitrary: q)
  case (Cons op ops)
  show ?case
  proof (cases op)
    case (HPush x)
    then show ?thesis using Cons.IH [OF push_invar [OF Cons.prems(1), of x]] Cons.prems by (simp add: push_mset)
  next
    case HPop
    show ?thesis
    proof (cases "pop q")
      case None
      then have "q = []" by (simp only: pop_None)
      then show ?thesis using Cons.IH [of "[]"] Cons.prems HPop None by simp
    next
      case (Some p)
      then obtain x q' where p: "pop q = Some (x, q')" by (cases p) auto
      have "dom_lt x" using invar_dom [OF Cons.prems(1), of x] pop_set [OF p] by simp
      then have "\<forall>y\<in>#mset q. \<not> lt y x"
        using pop_least [OF Cons.prems(1) p] pop_set [OF p] less_irrefl [of x] by auto
      then show ?thesis using Cons.IH [OF pop_invar [OF Cons.prems(1) p]] Cons.prems HPop p pop_mset [OF p]
        by simp
    qed
  qed
qed simp

end

end
