(* ===== verification/Heaps.thy ===== *)
theory Heaps
  imports Heap_Order
begin

text \<open>
  The heaps of the repository, each translated from its own source.

  \<^item> \<open>mh_\<close>: \<open>MinHeap\<close> of the ride-sharing service, 06,07-day/project/internal/ds/heap.
  \<^item> \<open>xh_\<close>: \<open>MaxHeap\<close> of the auction service, 13,14-day/internal/ds/heap.
  \<^item> \<open>th_\<close>: \<open>MinHeap\<close> of the CPU scheduler, 10-day/cpu-scheduler/heap, with \<open>Verify\<close>.

  A heap is the list of its \<open>items\<close>; the comparison function, fixed when the heap is made,
  is the first argument.  \<open>None\<close> stands for the empty-heap error (\<open>ErrEmptyQueue\<close>,
  \<open>ErrEmptyHeap\<close>, or \<open>ok = false\<close>).  Indices are natural numbers: the code computes no
  negative index, as each use of \<open>(i - 1) / 2\<close> is guarded by \<open>0 < i\<close>.
\<close>

section \<open>MinHeap of the ride-sharing service\<close>

definition mh_getParentIndex :: "nat \<Rightarrow> nat" where
  "mh_getParentIndex childIndex = (childIndex - 1) div 2"

definition mh_getLeftChildIndex :: "nat \<Rightarrow> nat" where
  "mh_getLeftChildIndex parentIndex = parentIndex * 2 + 1"

definition mh_getRightChildIndex :: "nat \<Rightarrow> nat" where
  "mh_getRightChildIndex parentIndex = parentIndex * 2 + 2"

definition mh_swap :: "'a list \<Rightarrow> nat \<Rightarrow> nat \<Rightarrow> 'a list" where
  "mh_swap items firstIndex secondIndex =
     items[firstIndex := items ! secondIndex, secondIndex := items ! firstIndex]"

function mh_heapifyUp :: "('a \<Rightarrow> 'a \<Rightarrow> bool) \<Rightarrow> 'a list \<Rightarrow> nat \<Rightarrow> 'a list" where
  "mh_heapifyUp lt items index =
     (if 0 < index then
        let parentIndex = mh_getParentIndex index
        in if \<not> lt (items ! index) (items ! parentIndex) then items
           else mh_heapifyUp lt (mh_swap items index parentIndex) parentIndex
      else items)"
  by pat_completeness auto
termination
  by (relation "measure (\<lambda>(_, _, i). i)") (auto simp: mh_getParentIndex_def)

definition mh_Push :: "('a \<Rightarrow> 'a \<Rightarrow> bool) \<Rightarrow> 'a list \<Rightarrow> 'a \<Rightarrow> 'a list" where
  "mh_Push lt items item = (let items = items @ [item] in mh_heapifyUp lt items (length items - 1))"

text \<open>The index of the smallest of a node and its children, as the loop body computes it.\<close>

definition mh_highestPriority :: "('a \<Rightarrow> 'a \<Rightarrow> bool) \<Rightarrow> 'a list \<Rightarrow> nat \<Rightarrow> nat" where
  "mh_highestPriority lt items index =
     (let leftIndex = mh_getLeftChildIndex index;
          rightIndex = mh_getRightChildIndex index;
          hp = index;
          hp = (if leftIndex < length items \<and> lt (items ! leftIndex) (items ! hp) then leftIndex else hp);
          hp = (if rightIndex < length items \<and> lt (items ! rightIndex) (items ! hp) then rightIndex else hp)
      in hp)"

lemma mh_highestPriority_cases:
  "mh_highestPriority lt xs i = i
   \<or> (mh_highestPriority lt xs i < length xs \<and> i < mh_highestPriority lt xs i)"
  by (auto simp: mh_highestPriority_def Let_def mh_getLeftChildIndex_def mh_getRightChildIndex_def)

lemma mh_highestPriority_child:
  "mh_highestPriority lt xs i = i \<or> mh_highestPriority lt xs i = 2 * i + 1
   \<or> mh_highestPriority lt xs i = 2 * i + 2"
  by (simp add: mh_highestPriority_def Let_def mh_getLeftChildIndex_def mh_getRightChildIndex_def)

function mh_heapifyDown :: "('a \<Rightarrow> 'a \<Rightarrow> bool) \<Rightarrow> 'a list \<Rightarrow> nat \<Rightarrow> 'a list" where
  "mh_heapifyDown lt items index =
     (let highestPriorityIndex = mh_highestPriority lt items index
      in if highestPriorityIndex = index then items
         else mh_heapifyDown lt (mh_swap items index highestPriorityIndex) highestPriorityIndex)"
  by pat_completeness auto
termination
proof (relation "measure (\<lambda>(_, xs, i). length xs - i)", goal_cases)
  case (2 lt items index hp)
  then show ?case using mh_highestPriority_cases [of lt items index] by (auto simp: mh_swap_def)
qed simp

declare mh_heapifyUp.simps [simp del] mh_heapifyDown.simps [simp del]

definition mh_Pop :: "('a \<Rightarrow> 'a \<Rightarrow> bool) \<Rightarrow> 'a list \<Rightarrow> ('a \<times> 'a list) option" where
  "mh_Pop lt items =
     (if length items = 0 then None
      else
        let rootItem = items ! 0;
            lastIndex = length items - 1;
            items = items[0 := items ! lastIndex];
            items = take lastIndex items
        in Some (rootItem, if 0 < length items then mh_heapifyDown lt items 0 else items))"

definition mh_Peek :: "'a list \<Rightarrow> 'a option" where
  "mh_Peek items = (if length items = 0 then None else Some (items ! 0))"

definition mh_Len :: "'a list \<Rightarrow> nat" where
  "mh_Len items = length items"

definition mh_IsEmpty :: "'a list \<Rightarrow> bool" where
  "mh_IsEmpty items \<longleftrightarrow> length items = 0"

definition mh_Items :: "'a list \<Rightarrow> 'a list" where
  "mh_Items items = items"

subsection \<open>Correctness\<close>

lemma mh_index_simps: "mh_getParentIndex = parent_ix" "mh_swap = list_swap"
  by (auto simp: fun_eq_iff mh_getParentIndex_def parent_ix_def mh_swap_def list_swap_def)

lemma mh_heapifyUp_unfold:
  "mh_heapifyUp lt xs i =
     (if 0 < i \<and> lt (xs ! i) (xs ! parent_ix i)
      then mh_heapifyUp lt (list_swap xs i (parent_ix i)) (parent_ix i) else xs)"
  by (subst mh_heapifyUp.simps) (simp add: mh_index_simps Let_def)

lemma mh_heapifyDown_unfold:
  "mh_heapifyDown lt xs i =
     (if mh_highestPriority lt xs i = i then xs
      else mh_heapifyDown lt (list_swap xs i (mh_highestPriority lt xs i)) (mh_highestPriority lt xs i))"
  by (subst mh_heapifyDown.simps) (simp add: mh_index_simps Let_def)

lemma mh_heapifyUp_mset: "i < length xs \<Longrightarrow> mset (mh_heapifyUp lt xs i) = mset xs"
proof (induction lt xs i rule: mh_heapifyUp.induct)
  case (1 lt xs i)
  show ?case
  proof (cases "0 < i \<and> lt (xs ! i) (xs ! parent_ix i)")
    case True
    have p: "parent_ix i < length xs" using 1 True parent_less [of i] by simp
    then have "mset (mh_heapifyUp lt (list_swap xs i (parent_ix i)) (parent_ix i))
        = mset (list_swap xs i (parent_ix i))"
      using 1 True by (simp add: mh_index_simps)
    also have "\<dots> = mset xs" using p 1 by simp
    finally show ?thesis using True by (subst mh_heapifyUp_unfold) simp
  qed (subst mh_heapifyUp_unfold, auto)
qed

lemma mh_heapifyDown_mset: "i < length xs \<Longrightarrow> mset (mh_heapifyDown lt xs i) = mset xs"
proof (induction lt xs i rule: mh_heapifyDown.induct)
  case (1 lt xs i)
  let ?h = "mh_highestPriority lt xs i"
  show ?case
  proof (cases "?h = i")
    case False
    then have h: "?h < length xs" using mh_highestPriority_cases [of lt xs i] by simp
    then have "mset (mh_heapifyDown lt (list_swap xs i ?h) ?h) = mset (list_swap xs i ?h)"
      using 1 False by (simp add: mh_index_simps)
    also have "\<dots> = mset xs" using h 1 by simp
    finally show ?thesis using False by (subst mh_heapifyDown_unfold) simp
  qed (subst mh_heapifyDown_unfold, simp)
qed

lemma mh_Pop_None [simp]: "mh_Pop lt xs = None \<longleftrightarrow> xs = []"
  by (simp add: mh_Pop_def Let_def)

lemma root_replaced:
  assumes "length ys = Suc n" "0 < n"
  shows "take n (ys[0 := ys ! n]) = (butlast ys)[0 := last ys]"
  using assms by (cases ys rule: rev_cases) (auto simp: nth_append list_update_append)

lemma mset_root_replaced: "ys \<noteq> [] \<Longrightarrow> mset ((x # ys)[0 := last (x # ys)]) = mset ys + {#last ys#}"
  by simp

lemma mh_Pop_eq:
  "xs = [x] \<Longrightarrow> mh_Pop lt xs = Some (x, [])"
  "xs = x # ys @ [z] \<Longrightarrow> mh_Pop lt xs = Some (x, mh_heapifyDown lt (z # ys) 0)"
  by (auto simp: mh_Pop_def Let_def)

lemma list_shapes: obtains "xs = []" | x where "xs = [x]" | x ys z where "xs = x # ys @ [z]"
  by (cases xs; metis rev_exhaust)

lemma mh_Pop_mset: "mh_Pop lt xs = Some (x, ys) \<Longrightarrow> mset xs = add_mset x (mset ys)"
  by (cases xs rule: list_shapes) (auto simp: mh_Pop_eq mh_heapifyDown_mset, simp add: mh_Pop_def)

context strict_weak_order
begin

lemma mh_heapifyUp_ordered: "up_defect xs i \<Longrightarrow> heap_ordered (mh_heapifyUp lt xs i)"
proof (induction i arbitrary: xs rule: less_induct)
  case (less i)
  show ?case
  proof (cases "0 < i \<and> lt (xs ! i) (xs ! parent_ix i)")
    case True
    then have "up_defect (list_swap xs i (parent_ix i)) (parent_ix i)"
      using less.prems up_defect_step by blast
    then have "heap_ordered (mh_heapifyUp lt (list_swap xs i (parent_ix i)) (parent_ix i))"
      using less.IH True parent_less by blast
    then show ?thesis using True by (subst mh_heapifyUp_unfold) simp
  next
    case False
    then have "mh_heapifyUp lt xs i = xs" by (subst mh_heapifyUp_unfold) auto
    then show ?thesis using False less.prems up_defect_stop by auto
  qed
qed

lemma mh_highestPriority_least:
  assumes "\<forall>x\<in>set xs. dom_lt x" "i < length xs" "h = mh_highestPriority lt xs i"
    and d: "d < length xs" "d = 2 * i + 1 \<or> d = 2 * i + 2"
  shows "\<not> lt (xs ! d) (xs ! h)"
proof -
  let ?l = "2 * i + 1" and ?r = "2 * i + 2"
  let ?s = "if ?l < length xs \<and> lt (xs ! ?l) (xs ! i) then ?l else i"
  have h: "h = (if ?r < length xs \<and> lt (xs ! ?r) (xs ! ?s) then ?r else ?s)"
    by (simp add: assms mh_highestPriority_def Let_def mh_getLeftChildIndex_def
        mh_getRightChildIndex_def mult.commute)
  have dom: "\<And>k. k < length xs \<Longrightarrow> dom_lt (xs ! k)" using assms by simp
  have s: "?s < length xs" using assms by simp
  have ls: "?l < length xs \<Longrightarrow> \<not> lt (xs ! ?l) (xs ! ?s)" using less_irrefl dom by simp
  show ?thesis
  proof (cases "?r < length xs \<and> lt (xs ! ?r) (xs ! ?s)")
    case True
    then have "\<not> lt (xs ! ?s) (xs ! ?r)" using less_asym dom s by blast
    then have "?l < length xs \<Longrightarrow> \<not> lt (xs ! ?l) (xs ! ?r)"
      using ls not_less_trans dom s True by blast
    then show ?thesis using True h d less_irrefl dom by auto
  next
    case False
    then show ?thesis using h d ls by auto
  qed
qed

lemma mh_highestPriority_lt:
  assumes "\<forall>x\<in>set xs. dom_lt x" "i < length xs" "h = mh_highestPriority lt xs i" "h \<noteq> i"
  shows "lt (xs ! h) (xs ! i)"
proof -
  define l r where "l = 2 * i + 1" and "r = 2 * i + 2"
  define s where "s = (if l < length xs \<and> lt (xs ! l) (xs ! i) then l else i)"
  have h: "h = (if r < length xs \<and> lt (xs ! r) (xs ! s) then r else s)"
    by (simp add: assms mh_highestPriority_def Let_def mh_getLeftChildIndex_def
        mh_getRightChildIndex_def mult.commute l_def r_def s_def)
  have dom: "\<And>k. k < length xs \<Longrightarrow> dom_lt (xs ! k)" using assms by simp
  have s: "s = i \<or> (s = l \<and> l < length xs \<and> lt (xs ! l) (xs ! i))" by (simp add: s_def)
  show ?thesis
  proof (cases "r < length xs \<and> lt (xs ! r) (xs ! s)")
    case True
    then have "lt (xs ! r) (xs ! i)" using s lt_trans [of "xs ! r" "xs ! l" "xs ! i"] dom assms(2) by auto
    then show ?thesis using h True by simp
  next
    case False
    then have "h = s" using h by (simp only: if_False)
    then show ?thesis using s assms(4) by auto
  qed
qed

lemma mh_heapifyDown_ordered: "down_defect xs i \<Longrightarrow> i < length xs \<Longrightarrow> heap_ordered (mh_heapifyDown lt xs i)"
proof (induction "length xs - i" arbitrary: xs i rule: less_induct)
  case less
  let ?h = "mh_highestPriority lt xs i"
  have dom: "\<forall>x\<in>set xs. dom_lt x" using less.prems by (simp add: down_defect_def)
  note least = mh_highestPriority_least [OF dom less.prems(2) refl]
  show ?case
  proof (cases "?h = i")
    case True
    then have "heap_ordered xs" using down_defect_stop least less.prems by metis
    then show ?thesis using True by (subst mh_heapifyDown_unfold) simp
  next
    case False
    then have h: "?h < length xs" "i < ?h" using mh_highestPriority_cases [of lt xs i] by auto
    have c: "?h = 2 * i + 1 \<or> ?h = 2 * i + 2" "lt (xs ! ?h) (xs ! i)"
    proof -
      show "?h = 2 * i + 1 \<or> ?h = 2 * i + 2"
        using False mh_highestPriority_child [of lt xs i] by blast
      show "lt (xs ! ?h) (xs ! i)"
        using mh_highestPriority_lt [OF dom less.prems(2) refl False] .
    qed
    have "down_defect (list_swap xs i ?h) ?h"
      using down_defect_step [OF less.prems h(1) c] least by blast
    then have "heap_ordered (mh_heapifyDown lt (list_swap xs i ?h) ?h)"
      using less.hyps h by simp
    then show ?thesis using False by (subst mh_heapifyDown_unfold) simp
  qed
qed

definition heap_inv :: "'a list \<Rightarrow> bool" where
  "heap_inv xs \<longleftrightarrow> heap_ordered xs \<and> (\<forall>x\<in>set xs. dom_lt x)"

lemma mh_Push_inv: "heap_inv xs \<Longrightarrow> dom_lt x \<Longrightarrow> heap_inv (mh_Push lt xs x)"
proof -
  assume inv: "heap_inv xs" "dom_lt x"
  have "set (mh_heapifyUp lt (xs @ [x]) (length xs)) = set (xs @ [x])"
    by (rule mset_eq_setD) (simp add: mh_heapifyUp_mset)
  then show ?thesis using mh_heapifyUp_ordered [OF up_defect_append] inv
    by (simp add: heap_inv_def mh_Push_def)
qed

lemma mh_Pop_inv: "heap_inv xs \<Longrightarrow> mh_Pop lt xs = Some (x, ys) \<Longrightarrow> heap_inv ys"
proof (cases xs rule: list_shapes)
  case (3 a zs z)
  assume inv: "heap_inv xs" and pop: "mh_Pop lt xs = Some (x, ys)"
  have ys: "ys = mh_heapifyDown lt (z # zs) 0" using pop 3 by (simp add: mh_Pop_eq)
  have "heap_ordered (a # zs)"
    using heap_ordered_butlast [of xs] inv 3 by (simp add: heap_inv_def butlast_append)
  then have "down_defect (z # zs) 0"
    using down_defect_root [of "a # zs" z] inv 3 by (simp add: heap_inv_def)
  then have "heap_ordered ys" using mh_heapifyDown_ordered ys by simp
  moreover have "set ys \<subseteq> set xs" using mh_Pop_mset [OF pop] by (metis set_mset_add_mset_insert set_mset_mset subset_insertI)
  ultimately show ?thesis using inv by (auto simp: heap_inv_def)
qed (auto simp: mh_Pop_eq heap_inv_def mh_Pop_None [THEN iffD2])

lemma mh_Pop_hd: "mh_Pop lt xs = Some (x, ys) \<Longrightarrow> xs \<noteq> [] \<and> x = hd xs"
  by (auto simp: mh_Pop_def Let_def hd_conv_nth split: if_splits)

lemma mh_Pop_least: "heap_inv xs \<Longrightarrow> mh_Pop lt xs = Some (x, ys) \<Longrightarrow> y \<in> set ys \<Longrightarrow> \<not> lt y x"
  using mh_Pop_hd mh_Pop_mset heap_hd_least
  by (metis heap_inv_def insert_iff set_mset_add_mset_insert set_mset_mset)

end

sublocale strict_weak_order \<subseteq> min_heap: prio_queue lt dom_lt "mh_Push lt" "mh_Pop lt" heap_inv
proof
  show "mset (mh_Push lt q x) = add_mset x (mset q)" for q x
    by (simp add: mh_Push_def mh_heapifyUp_mset)
qed (auto simp: heap_inv_def [of "[]"] mh_Pop_mset mh_Push_inv intro: mh_Pop_inv dest: mh_Pop_least,
    simp add: heap_inv_def)

section \<open>MaxHeap of the auction service\<close>

definition xh_parent :: "nat \<Rightarrow> nat" where
  "xh_parent i = (i - 1) div 2"

definition xh_left :: "nat \<Rightarrow> nat" where
  "xh_left i = 2 * i + 1"

definition xh_right :: "nat \<Rightarrow> nat" where
  "xh_right i = 2 * i + 2"

function xh_heapifyUp :: "('a \<Rightarrow> 'a \<Rightarrow> bool) \<Rightarrow> 'a list \<Rightarrow> nat \<Rightarrow> 'a list" where
  "xh_heapifyUp lt items i =
     (if 0 < i then
        let parent = xh_parent i
        in if lt (items ! parent) (items ! i)
           then xh_heapifyUp lt (items[i := items ! parent, parent := items ! i]) parent
           else items
      else items)"
  by pat_completeness auto
termination
  by (relation "measure (\<lambda>(_, _, i). i)") (auto simp: xh_parent_def)

definition xh_Push :: "('a \<Rightarrow> 'a \<Rightarrow> bool) \<Rightarrow> 'a list \<Rightarrow> 'a \<Rightarrow> 'a list" where
  "xh_Push lt items item = (let items = items @ [item] in xh_heapifyUp lt items (length items - 1))"

text \<open>The index \<open>toCompare\<close> the loop body of \<open>heapifyDown\<close> ends with.\<close>

definition xh_toCompare :: "('a \<Rightarrow> 'a \<Rightarrow> bool) \<Rightarrow> 'a list \<Rightarrow> nat \<Rightarrow> nat" where
  "xh_toCompare lt items i =
     (let left = xh_left i;
          right = xh_right i;
          tc = i;
          tc = (if left < length items \<and> lt (items ! tc) (items ! left) then left else tc);
          tc = (if right < length items \<and> lt (items ! tc) (items ! right) then right else tc)
      in tc)"

lemma xh_toCompare_cases:
  "xh_toCompare lt xs i = i \<or> (xh_toCompare lt xs i < length xs \<and> i < xh_toCompare lt xs i)"
  by (auto simp: xh_toCompare_def Let_def xh_left_def xh_right_def)

function xh_heapifyDown :: "('a \<Rightarrow> 'a \<Rightarrow> bool) \<Rightarrow> 'a list \<Rightarrow> nat \<Rightarrow> 'a list" where
  "xh_heapifyDown lt items i =
     (if i < length items then
        let toCompare = xh_toCompare lt items i
        in if toCompare = i then items
           else xh_heapifyDown lt (items[i := items ! toCompare, toCompare := items ! i]) toCompare
      else items)"
  by pat_completeness auto
termination
proof (relation "measure (\<lambda>(_, xs, i). length xs - i)", goal_cases)
  case (2 lt items i tc)
  then show ?case using xh_toCompare_cases [of lt items i] by auto
qed simp

declare xh_heapifyUp.simps [simp del] xh_heapifyDown.simps [simp del]

definition xh_Pop :: "('a \<Rightarrow> 'a \<Rightarrow> bool) \<Rightarrow> 'a list \<Rightarrow> ('a \<times> 'a list) option" where
  "xh_Pop lt items =
     (if length items = 0 then None
      else
        let root = items ! 0;
            items = items[0 := items ! (length items - 1)];
            items = take (length items - 1) items
        in Some (root, if 0 < length items then xh_heapifyDown lt items 0 else items))"

definition xh_Peek :: "'a list \<Rightarrow> 'a option" where
  "xh_Peek items = (if length items = 0 then None else Some (items ! 0))"

definition xh_Size :: "'a list \<Rightarrow> nat" where
  "xh_Size items = length items"

definition xh_IsEmpty :: "'a list \<Rightarrow> bool" where
  "xh_IsEmpty items \<longleftrightarrow> length items = 0"

text \<open>A max-heap for \<open>less\<close> is a min-heap for the converse order.\<close>

lemma xh_heapifyUp_flip: "xh_heapifyUp lt xs i = mh_heapifyUp (\<lambda>a b. lt b a) xs i"
proof (induction lt xs i rule: xh_heapifyUp.induct)
  case (1 lt xs i)
  then show ?case
    by (subst xh_heapifyUp.simps, subst mh_heapifyUp.simps)
      (auto simp: Let_def xh_parent_def mh_getParentIndex_def mh_swap_def)
qed

lemma xh_toCompare_flip: "xh_toCompare lt xs i = mh_highestPriority (\<lambda>a b. lt b a) xs i"
  by (simp add: xh_toCompare_def mh_highestPriority_def Let_def xh_left_def xh_right_def
      mh_getLeftChildIndex_def mh_getRightChildIndex_def mult.commute)

lemma xh_heapifyDown_flip: "i < length xs \<Longrightarrow> xh_heapifyDown lt xs i = mh_heapifyDown (\<lambda>a b. lt b a) xs i"
proof (induction lt xs i rule: xh_heapifyDown.induct)
  case (1 lt xs i)
  show ?case
  proof (cases "xh_toCompare lt xs i = i")
    case True
    then show ?thesis using 1
      by (subst xh_heapifyDown.simps, subst mh_heapifyDown.simps) (simp add: xh_toCompare_flip)
  next
    case False
    then have "xh_toCompare lt xs i < length xs" using xh_toCompare_cases [of lt xs i] by simp
    then show ?thesis using 1 False
      by (subst xh_heapifyDown.simps, subst mh_heapifyDown.simps)
        (simp add: xh_toCompare_flip mh_swap_def Let_def)
  qed
qed

lemma xh_Push_flip: "xh_Push lt = mh_Push (\<lambda>a b. lt b a)"
  by (simp add: fun_eq_iff xh_Push_def mh_Push_def xh_heapifyUp_flip)

lemma xh_Pop_flip: "xh_Pop lt = mh_Pop (\<lambda>a b. lt b a)"
  by (auto simp: fun_eq_iff xh_Pop_def mh_Pop_def Let_def xh_heapifyDown_flip)

lemmas xh_flip = xh_Push_flip xh_Pop_flip

section \<open>MinHeap of the CPU scheduler\<close>

definition th_getParentIndex :: "nat \<Rightarrow> nat" where
  "th_getParentIndex childIndex = (childIndex - 1) div 2"

definition th_getLeftChildIndex :: "nat \<Rightarrow> nat" where
  "th_getLeftChildIndex parentIndex = parentIndex * 2 + 1"

definition th_getRightChildIndex :: "nat \<Rightarrow> nat" where
  "th_getRightChildIndex parentIndex = parentIndex * 2 + 2"

definition th_swap :: "'a list \<Rightarrow> nat \<Rightarrow> nat \<Rightarrow> 'a list" where
  "th_swap items firstIndex secondIndex =
     items[firstIndex := items ! secondIndex, secondIndex := items ! firstIndex]"

function th_heapifyUp :: "('a \<Rightarrow> 'a \<Rightarrow> bool) \<Rightarrow> 'a list \<Rightarrow> nat \<Rightarrow> 'a list" where
  "th_heapifyUp lt items index =
     (if 0 < index then
        let parentIndex = th_getParentIndex index
        in if \<not> lt (items ! index) (items ! parentIndex) then items
           else th_heapifyUp lt (th_swap items index parentIndex) parentIndex
      else items)"
  by pat_completeness auto
termination
  by (relation "measure (\<lambda>(_, _, i). i)") (auto simp: th_getParentIndex_def)

definition th_Push :: "('a \<Rightarrow> 'a \<Rightarrow> bool) \<Rightarrow> 'a list \<Rightarrow> 'a \<Rightarrow> 'a list" where
  "th_Push lt items item = (let items = items @ [item] in th_heapifyUp lt items (length items - 1))"

definition th_smallestIndex :: "('a \<Rightarrow> 'a \<Rightarrow> bool) \<Rightarrow> 'a list \<Rightarrow> nat \<Rightarrow> nat" where
  "th_smallestIndex lt items index =
     (let leftIndex = th_getLeftChildIndex index;
          rightIndex = th_getRightChildIndex index;
          sm = index;
          sm = (if leftIndex < length items \<and> lt (items ! leftIndex) (items ! sm) then leftIndex else sm);
          sm = (if rightIndex < length items \<and> lt (items ! rightIndex) (items ! sm) then rightIndex else sm)
      in sm)"

lemma th_smallestIndex_mh: "th_smallestIndex = mh_highestPriority"
  by (simp add: fun_eq_iff th_smallestIndex_def mh_highestPriority_def th_getLeftChildIndex_def
      th_getRightChildIndex_def mh_getLeftChildIndex_def mh_getRightChildIndex_def)

function th_heapifyDown :: "('a \<Rightarrow> 'a \<Rightarrow> bool) \<Rightarrow> 'a list \<Rightarrow> nat \<Rightarrow> 'a list" where
  "th_heapifyDown lt items index =
     (let smallestIndex = th_smallestIndex lt items index
      in if smallestIndex = index then items
         else th_heapifyDown lt (th_swap items index smallestIndex) smallestIndex)"
  by pat_completeness auto
termination
proof (relation "measure (\<lambda>(_, xs, i). length xs - i)", goal_cases)
  case (2 lt items index sm)
  then show ?case using mh_highestPriority_cases [of lt items index]
    by (auto simp: th_swap_def th_smallestIndex_mh)
qed simp

declare th_heapifyUp.simps [simp del] th_heapifyDown.simps [simp del]

definition th_Pop :: "('a \<Rightarrow> 'a \<Rightarrow> bool) \<Rightarrow> 'a list \<Rightarrow> ('a \<times> 'a list) option" where
  "th_Pop lt items =
     (if length items = 0 then None
      else
        let rootItem = items ! 0;
            lastIndex = length items - 1;
            items = items[0 := items ! lastIndex];
            items = take lastIndex items
        in Some (rootItem, if 0 < length items then th_heapifyDown lt items 0 else items))"

definition th_Peek :: "'a list \<Rightarrow> 'a option" where
  "th_Peek items = (if length items = 0 then None else Some (items ! 0))"

definition th_IsEmpty :: "'a list \<Rightarrow> bool" where
  "th_IsEmpty items \<longleftrightarrow> length items = 0"

text \<open>\<open>Verify\<close>: a linear scan for a child that is less than its parent.\<close>

definition th_Verify :: "('a \<Rightarrow> 'a \<Rightarrow> bool) \<Rightarrow> 'a list \<Rightarrow> bool" where
  "th_Verify lt items =
     list_all (\<lambda>parentIndex.
       let leftIndex = th_getLeftChildIndex parentIndex;
           rightIndex = th_getRightChildIndex parentIndex
       in if leftIndex < length items \<and> lt (items ! leftIndex) (items ! parentIndex) then False
          else if rightIndex < length items \<and> lt (items ! rightIndex) (items ! parentIndex) then False
          else True) [0..<length items]"

lemma th_heapifyUp_mh: "th_heapifyUp lt xs i = mh_heapifyUp lt xs i"
proof (induction lt xs i rule: th_heapifyUp.induct)
  case (1 lt xs i)
  then show ?case
    by (subst th_heapifyUp.simps, subst mh_heapifyUp.simps)
      (auto simp: Let_def th_getParentIndex_def mh_getParentIndex_def mh_swap_def th_swap_def)
qed

lemma th_heapifyDown_mh: "th_heapifyDown lt xs i = mh_heapifyDown lt xs i"
proof (induction lt xs i rule: th_heapifyDown.induct)
  case (1 lt xs i)
  then show ?case
    by (subst th_heapifyDown.simps, subst mh_heapifyDown.simps)
      (auto simp: Let_def th_smallestIndex_mh mh_swap_def th_swap_def)
qed

lemma th_Push_mh: "th_Push = mh_Push"
  by (simp add: fun_eq_iff th_Push_def mh_Push_def th_heapifyUp_mh)

lemma th_Pop_mh: "th_Pop = mh_Pop"
  by (simp add: fun_eq_iff th_Pop_def mh_Pop_def th_heapifyDown_mh Let_def)

lemmas th_mh = th_Push_mh th_Pop_mh

text \<open>\<open>Verify\<close> decides the heap order.\<close>

lemma th_Verify_iff:
  "th_Verify lt xs \<longleftrightarrow> (\<forall>j<length xs. 0 < j \<longrightarrow> \<not> lt (xs ! j) (xs ! parent_ix j))"
proof
  assume v: "th_Verify lt xs"
  show "\<forall>j<length xs. 0 < j \<longrightarrow> \<not> lt (xs ! j) (xs ! parent_ix j)"
  proof (intro allI impI)
    fix j assume j: "j < length xs" "0 < j"
    then have "parent_ix j < length xs" using parent_less [of j] by simp
    with v have "\<not> (2 * parent_ix j + 1 < length xs \<and> lt (xs ! (2 * parent_ix j + 1)) (xs ! parent_ix j))"
      "\<not> (2 * parent_ix j + 2 < length xs \<and> lt (xs ! (2 * parent_ix j + 2)) (xs ! parent_ix j))"
      by (auto simp: th_Verify_def list_all_iff Let_def th_getLeftChildIndex_def
          th_getRightChildIndex_def mult.commute split: if_splits)
    then show "\<not> lt (xs ! j) (xs ! parent_ix j)"
      using parent_ix_iff [OF j(2), of "parent_ix j"] j(1) by metis
  qed
next
  assume h: "\<forall>j<length xs. 0 < j \<longrightarrow> \<not> lt (xs ! j) (xs ! parent_ix j)"
  have "parent_ix (Suc (i * 2)) = i" "parent_ix (Suc (Suc (i * 2))) = i" for i
    by (auto simp: parent_ix_def)
  then show "th_Verify lt xs"
    using h by (auto simp: th_Verify_def list_all_iff Let_def th_getLeftChildIndex_def
        th_getRightChildIndex_def split: if_splits)
qed

section \<open>Properties\<close>

context strict_weak_order
begin

lemma mh_bag: "\<forall>x\<in>pushed ops. dom_lt x \<Longrightarrow> bag_run lt ops {#} (heap_run (mh_Push lt) (mh_Pop lt) ops [])"
  using min_heap.heap_run_bag [of "[]" ops] min_heap.invar_Nil by simp

end

text \<open>
  The min-heap of the ride-sharing service is a priority queue: for a comparison that is
  a strict weak order on the pushed items, every result of a script of \<open>Push\<close> and \<open>Pop\<close> on an
  empty heap is one a bag allows: a pop reports an empty heap exactly when the bag is empty,
  and otherwise removes an item to which no item in the heap is preferred.
\<close>

theorem min_heap_is_priority_queue:
  assumes "strict_weak_order lt dom_lt" "\<forall>x\<in>pushed ops. dom_lt x"
  shows "bag_run lt ops {#} (heap_run (mh_Push lt) (mh_Pop lt) ops [])"
  by (rule strict_weak_order.mh_bag [OF assms])

theorem min_heap_is_priority_queue_witness:
  "bag_run (<) [HPush (3 :: nat), HPush 1, HPop, HPop, HPop] {#}
     (heap_run (mh_Push (<)) (mh_Pop (<)) [HPush 3, HPush 1, HPop, HPop, HPop] [])"
  by (rule min_heap_is_priority_queue [OF linorder_lt.strict_weak_order_axioms]) simp

text \<open>
  The max-heap of the auction service, which is given the comparison "less", is a priority
  queue for the converse order: a pop removes an item that is less than none in the heap.
\<close>

theorem max_heap_is_priority_queue:
  assumes "strict_weak_order lt dom_lt" "\<forall>x\<in>pushed ops. dom_lt x"
  shows "bag_run (\<lambda>a b. lt b a) ops {#} (heap_run (xh_Push lt) (xh_Pop lt) ops [])"
  unfolding xh_flip
  by (rule strict_weak_order.mh_bag [OF strict_weak_order.flipped [OF assms(1)] assms(2)])

theorem max_heap_is_priority_queue_witness:
  "bag_run (\<lambda>a b. b < a) [HPush (3 :: nat), HPush 7, HPop, HPop] {#}
     (heap_run (xh_Push (<)) (xh_Pop (<)) [HPush 3, HPush 7, HPop, HPop] [])"
  by (rule max_heap_is_priority_queue [OF linorder_lt.strict_weak_order_axioms]) simp

context strict_weak_order
begin

lemma th_run_verified:
  assumes "\<forall>x\<in>set xs. dom_lt x" shows "th_Verify lt (foldl (th_Push lt) [] xs)"
proof -
  have "heap_inv (foldl (mh_Push lt) q xs)" if "heap_inv q" for q
    using that assms by (induction xs arbitrary: q) (auto intro: mh_Push_inv)
  then have "heap_inv (foldl (mh_Push lt) [] xs)" using min_heap.invar_Nil by blast
  then show ?thesis unfolding th_Verify_iff th_mh heap_inv_def heap_ordered_def by blast
qed

lemma th_pop_verified:
  assumes "\<forall>x\<in>set xs. dom_lt x" "th_Verify lt xs" "th_Pop lt xs = Some (x, ys)"
  shows "th_Verify lt ys \<and> (\<forall>y\<in>set ys. \<not> lt y x) \<and> mset xs = add_mset x (mset ys)"
proof -
  have inv: "heap_inv xs" using assms(1,2) by (simp add: th_Verify_iff heap_inv_def heap_ordered_def)
  have pop: "mh_Pop lt xs = Some (x, ys)" using assms(3) by (simp add: th_mh)
  have "heap_inv ys" using mh_Pop_inv [OF inv pop] .
  then show ?thesis using mh_Pop_least [OF inv pop] mh_Pop_mset [OF pop]
    unfolding th_Verify_iff heap_inv_def heap_ordered_def by blast
qed

end

text \<open>
  The self-check of the scheduler's heap is sound and complete for its operations:
  \<open>Verify\<close> accepts every heap built by \<open>Push\<close>; on any heap it accepts, \<open>Pop\<close> returns a least
  item and leaves the others in a heap that it accepts again.
\<close>

theorem scheduler_heap_verified:
  assumes "strict_weak_order lt dom_lt" "\<forall>x\<in>set xs. dom_lt x" "\<forall>x\<in>set h. dom_lt x" "th_Verify lt h"
  shows "th_Verify lt (foldl (th_Push lt) [] xs)
    \<and> (case th_Pop lt h of
         None \<Rightarrow> h = []
       | Some (x, h') \<Rightarrow> th_Verify lt h' \<and> (\<forall>y\<in>set h'. \<not> lt y x) \<and> mset h = add_mset x (mset h'))"
  using strict_weak_order.th_run_verified [OF assms(1,2)] strict_weak_order.th_pop_verified [OF assms(1,3,4)]
  by (auto simp: th_mh split: option.splits)

theorem scheduler_heap_verified_witness:
  "th_Verify (<) (foldl (th_Push (<)) [] [5, 2, 9 :: nat])
    \<and> (\<exists>x h'. th_Pop (<) [1, 4, 2 :: nat] = Some (x, h') \<and> th_Verify (<) h')"
proof -
  have "th_Verify (<) [1, 4, 2 :: nat]"
    by (simp add: th_Verify_def th_getLeftChildIndex_def th_getRightChildIndex_def upt_rec)
  then show ?thesis
    using scheduler_heap_verified [OF linorder_lt.strict_weak_order_axioms, of "[5, 2, 9 :: nat]" "[1, 4, 2]"]
    by (auto split: option.splits)
qed

end
