(* ===== verification/BTree.thy ===== *)
theory BTree
  imports Go_Float
begin

text \<open>
  The B-tree of the product catalog, 12-day/catalog/internal/btree/btree.go.

  A node is a value of the datatype \<open>node\<close>: the code keeps one pointer to each node, so
  an update in place and an updated copy are the same.  Keys are compared with the operators
  of their type; \<open>go_eq\<close> is \<open>==\<close>, which differs from equality on the NaN of \<open>float64\<close>.
  An index out of range panics: the functions return \<open>None\<close> then, and the correctness
  theorems show that this does not happen on a well-formed tree.
\<close>

section \<open>Data and helpers\<close>

datatype ('k, 'v) node =
  Node (node_keys: "'k list") (node_values: "'v list") (node_children: "('k, 'v) node list") (node_leaf: bool)

record ('k, 'v) btree =
  bt_root :: "('k, 'v) node"
  bt_t :: nat
  bt_size :: nat

definition go_eq :: "'k::ord \<Rightarrow> 'k \<Rightarrow> bool" where
  "go_eq a b \<longleftrightarrow> a \<le> b \<and> b \<le> a"

text \<open>Slice indexing; out of range panics.\<close>

definition index_at :: "'a list \<Rightarrow> nat \<Rightarrow> 'a option" where
  "index_at xs i = (if i < length xs then Some (xs ! i) else None)"

lemma index_at_Some [simp]: "index_at xs i = Some x \<longleftrightarrow> i < length xs \<and> xs ! i = x"
  by (auto simp: index_at_def)

lemma index_at_less: "i < length xs \<Longrightarrow> index_at xs i = Some (xs ! i)"
  by simp

lemma size_nth_child [termination_simp]:
  "i < length cs \<Longrightarrow> size (cs ! i) < Suc (a + size_list size cs)"
proof -
  assume "i < length cs"
  then have "size (cs ! i) \<le> size_list size cs"
    by (intro size_list_estimation' [of "cs ! i"]) auto
  then show ?thesis by simp
qed

text \<open>\<open>list_insert p x xs\<close>: the shift loops and the \<open>copy\<close> calls insert at a position.\<close>

definition list_insert :: "nat \<Rightarrow> 'a \<Rightarrow> 'a list \<Rightarrow> 'a list" where
  "list_insert p x xs = take p xs @ x # drop p xs"

text \<open>The scan \<open>for i < len(keys) && key > keys[i] { i++ }\<close>, from index 0.\<close>

fun scan_up :: "'k::ord \<Rightarrow> 'k list \<Rightarrow> nat" where
  "scan_up key [] = 0"
| "scan_up key (k # ks) = (if k < key then Suc (scan_up key ks) else 0)"

text \<open>
  The scan \<open>for i >= 0 && key < keys[i] { i-- }\<close>: the value of \<open>i + 1\<close> at its end, when
  it starts from \<open>i = n - 1\<close>.
\<close>

fun scan_down :: "'k::ord \<Rightarrow> 'k list \<Rightarrow> nat \<Rightarrow> nat" where
  "scan_down key ks 0 = 0"
| "scan_down key ks (Suc i) = (if key < ks ! i then scan_down key ks i else Suc i)"

section \<open>Operations\<close>

definition bt_New :: "nat \<Rightarrow> ('k, 'v) btree option" where
  "bt_New minDegree =
     (if minDegree < 2 then None
      else Some \<lparr>bt_root = Node [] [] [] True, bt_t = minDegree, bt_size = 0\<rparr>)"

definition bt_Size :: "('k, 'v) btree \<Rightarrow> nat" where
  "bt_Size tree = bt_size tree"

text \<open>\<open>Some None\<close>: not found; \<open>Some (Some v)\<close>: found; \<open>None\<close>: panic.\<close>

function search :: "('k::ord, 'v) node \<Rightarrow> 'k \<Rightarrow> 'v option option" where
  "search (Node ks vs cs leaf) key =
     (let i = scan_up key ks
      in if i < length ks \<and> go_eq key (ks ! i) then map_option Some (index_at vs i)
         else if leaf then Some None
         else case index_at cs i of None \<Rightarrow> None | Some c \<Rightarrow> search c key)"
  by pat_completeness auto
termination
  by (relation "measure (\<lambda>(n, _). size n)") (auto intro: size_nth_child)

definition bt_Search :: "('k::ord, 'v) btree \<Rightarrow> 'k \<Rightarrow> 'v option option" where
  "bt_Search tree key = search (bt_root tree) key"

function update :: "('k::ord, 'v) node \<Rightarrow> 'k \<Rightarrow> 'v \<Rightarrow> ('k, 'v) node option" where
  "update (Node ks vs cs leaf) key v =
     (let i = scan_up key ks
      in if i < length ks \<and> go_eq key (ks ! i)
         then (if i < length vs then Some (Node ks (vs[i := v]) cs leaf) else None)
         else if leaf then Some (Node ks vs cs leaf)
         else case index_at cs i of
                None \<Rightarrow> None
              | Some c \<Rightarrow>
                  (case update c key v of None \<Rightarrow> None | Some c' \<Rightarrow> Some (Node ks vs (cs[i := c']) leaf)))"
  by pat_completeness auto
termination
  by (relation "measure (\<lambda>(n, _). size n)") (auto intro: size_nth_child)

text \<open>The two halves of a full child with its middle entry.\<close>

definition split_node :: "nat \<Rightarrow> ('k, 'v) node \<Rightarrow> (('k, 'v) node \<times> 'k \<times> 'v \<times> ('k, 'v) node) option" where
  "split_node degree n =
     (case n of Node ks vs cs leaf \<Rightarrow>
        if degree \<le> length ks \<and> degree \<le> length vs \<and> 0 < degree \<and> (leaf \<or> degree \<le> length cs)
        then Some (Node (take (degree - 1) ks) (take (degree - 1) vs)
                     (if leaf then cs else take degree cs) leaf,
                   ks ! (degree - 1), vs ! (degree - 1),
                   Node (drop degree ks) (drop degree vs) (if leaf then [] else drop degree cs) leaf)
        else None)"

definition splitChild :: "nat \<Rightarrow> ('k, 'v) node \<Rightarrow> nat \<Rightarrow> ('k, 'v) node option" where
  "splitChild degree parent childIndex =
     (case parent of Node ks vs cs leaf \<Rightarrow>
        case index_at cs childIndex of
          None \<Rightarrow> None
        | Some fullChild \<Rightarrow>
            (case split_node degree fullChild of
               None \<Rightarrow> None
             | Some (leftChild, midKey, midValue, rightChild) \<Rightarrow>
                 if childIndex \<le> length ks \<and> childIndex \<le> length vs
                 then Some (Node (list_insert childIndex midKey ks) (list_insert childIndex midValue vs)
                        (list_insert (childIndex + 1) rightChild (cs[childIndex := leftChild])) leaf)
                 else None))"

lemma size_split_node:
  assumes "split_node d n = Some (l, k, v, r)"
  shows "size l \<le> size n \<and> size r \<le> size n"
proof -
  have "size_list size (take d cs) \<le> size_list size cs \<and> size_list size (drop d cs) \<le> size_list size cs"
    for cs :: "('a, 'b) node list"
    using size_list_append [of size "take d cs" "drop d cs"] by simp
  from this [of "node_children n"] show ?thesis
    using assms by (cases n) (auto simp: split_node_def split: if_splits)
qed

lemma size_splitChild:
  "splitChild t n i = Some n' \<Longrightarrow> j = i \<or> j = Suc i \<Longrightarrow> size (node_children n' ! j) < size n"
proof (cases n)
  case (Node ks vs cs leaf)
  assume s: "splitChild t n i = Some n'" and j: "j = i \<or> j = Suc i"
  then obtain l k v r where i: "i < length cs" and sp: "split_node t (cs ! i) = Some (l, k, v, r)"
    and n': "n' = Node (list_insert i k ks) (list_insert i v vs) (list_insert (i + 1) r (cs[i := l])) leaf"
    using Node by (auto simp: splitChild_def split: option.splits if_splits)
  have "list_insert (i + 1) r (cs[i := l]) ! j = (if j = i then l else r)"
    using i j by (auto simp: list_insert_def nth_append min_def)
  then have "size (node_children n' ! j) \<le> size (cs ! i)"
    using n' size_split_node [OF sp] by simp
  then show ?thesis using size_nth_child [OF i] Node by (simp add: le_less_trans)
qed

lemma size_splitChild_Node:
  "splitChild t (Node ks vs cs leaf) i = Some n' \<Longrightarrow> j = i \<or> j = Suc i
    \<Longrightarrow> size (node_children n' ! j) < Suc (length ks + length vs + size_list size cs)"
  using size_splitChild [of t "Node ks vs cs leaf" i n' j] by simp

text \<open>
  \<open>insertNonFull\<close>.  In an inner node the child at \<open>i\<close> is split first if it is full; the
  recursion then enters the left or the right half.
\<close>

function insertNonFull :: "nat \<Rightarrow> ('k::ord, 'v) node \<Rightarrow> 'k \<Rightarrow> 'v \<Rightarrow> ('k, 'v) node option" where
  "insertNonFull t n key v =
     (case n of Node ks vs cs leaf \<Rightarrow>
        let i = scan_down key ks (length ks)
        in if leaf then
             (if length ks = length vs then Some (Node (list_insert i key ks) (list_insert i v vs) cs leaf)
              else None)
           else
             (case index_at cs i of
                None \<Rightarrow> None
              | Some child \<Rightarrow>
                  if length (node_keys child) = 2 * t - 1 then
                    (case splitChild t n i of
                       None \<Rightarrow> None
                     | Some n' \<Rightarrow>
                         let i' = (if node_keys n' ! i < key then i + 1 else i)
                         in (case insertNonFull t (node_children n' ! i') key v of
                               None \<Rightarrow> None
                             | Some c' \<Rightarrow>
                                 Some (Node (node_keys n') (node_values n')
                                         ((node_children n')[i' := c']) (node_leaf n'))))
                  else
                    (case insertNonFull t child key v of
                       None \<Rightarrow> None
                     | Some c' \<Rightarrow> Some (Node ks vs (cs[i := c']) leaf))))"
  by pat_completeness auto
termination
  by (relation "measure (\<lambda>(_, n, _). size n)")
    (auto intro: size_nth_child size_splitChild_Node split: node.splits if_splits)

definition bt_Insert :: "('k::ord, 'v) btree \<Rightarrow> 'k \<Rightarrow> 'v \<Rightarrow> ('k, 'v) btree option" where
  "bt_Insert tree key v =
     (case bt_Search tree key of
        None \<Rightarrow> None
      | Some (Some _) \<Rightarrow> map_option (\<lambda>r. tree\<lparr>bt_root := r\<rparr>) (update (bt_root tree) key v)
      | Some None \<Rightarrow>
          (case (if length (node_keys (bt_root tree)) = 2 * bt_t tree - 1
                 then splitChild (bt_t tree) (Node [] [] [bt_root tree] False) 0
                 else Some (bt_root tree)) of
             None \<Rightarrow> None
           | Some rt \<Rightarrow>
               map_option (\<lambda>r. tree\<lparr>bt_root := r, bt_size := bt_size tree + 1\<rparr>)
                 (insertNonFull (bt_t tree) rt key v)))"

text \<open>\<open>rangeQuery\<close> with its two loops over the index.\<close>

function rangeQuery :: "('k::ord, 'v) node \<Rightarrow> 'k \<Rightarrow> 'k \<Rightarrow> 'v list \<Rightarrow> 'v list option"
  and rq_below :: "('k, 'v) node \<Rightarrow> nat \<Rightarrow> 'k \<Rightarrow> 'k \<Rightarrow> 'v list \<Rightarrow> 'v list option"
  and rq_inside :: "('k, 'v) node \<Rightarrow> nat \<Rightarrow> 'k \<Rightarrow> 'k \<Rightarrow> 'v list \<Rightarrow> 'v list option"
  and rq_child :: "('k, 'v) node \<Rightarrow> nat \<Rightarrow> 'k \<Rightarrow> 'k \<Rightarrow> 'v list \<Rightarrow> 'v list option"
where
  "rangeQuery n mn mx result = rq_below n 0 mn mx result"
| "rq_below n i mn mx result =
     (if i < length (node_keys n) \<and> node_keys n ! i < mn
      then case rq_child n i mn mx result of None \<Rightarrow> None | Some result \<Rightarrow> rq_below n (i + 1) mn mx result
      else rq_inside n i mn mx result)"
| "rq_inside n i mn mx result =
     (if i < length (node_keys n)
      then case rq_child n i mn mx result of
             None \<Rightarrow> None
           | Some result \<Rightarrow>
               if mx < node_keys n ! i then Some result
               else (case index_at (node_values n) i of
                       None \<Rightarrow> None
                     | Some v \<Rightarrow> rq_inside n (i + 1) mn mx (result @ [v]))
      else rq_child n i mn mx result)"
| "rq_child n i mn mx result =
     (if node_leaf n then Some result
      else case index_at (node_children n) i of
             None \<Rightarrow> None
           | Some c \<Rightarrow> rangeQuery c mn mx result)"
  by pat_completeness auto
termination
proof (relation "measures [
    \<lambda>x. case x of Inl (Inl (n, _)) \<Rightarrow> size n | Inl (Inr (n, _)) \<Rightarrow> size n
        | Inr (Inl (n, _)) \<Rightarrow> size n | Inr (Inr (n, _)) \<Rightarrow> size n,
    \<lambda>x. case x of Inl (Inl _) \<Rightarrow> 3 | Inl (Inr _) \<Rightarrow> 2 | Inr (Inl _) \<Rightarrow> 1 | Inr (Inr _) \<Rightarrow> 0,
    \<lambda>x. case x of Inl (Inl _) \<Rightarrow> 0 | Inl (Inr (n, i, _)) \<Rightarrow> length (node_keys n) - i
        | Inr (Inl (n, i, _)) \<Rightarrow> length (node_keys n) - i | Inr (Inr _) \<Rightarrow> 0]", goal_cases)
  case (9 n i mn mx result c)
  then show ?case by (cases n) (auto intro: size_nth_child)
qed auto

definition bt_RangeQuery :: "('k::ord, 'v) btree \<Rightarrow> 'k \<Rightarrow> 'k \<Rightarrow> 'v list option" where
  "bt_RangeQuery tree mn mx = rangeQuery (bt_root tree) mn mx []"

text \<open>The in-order walk; \<open>io_loop\<close> is its loop over the keys.\<close>

function inOrder :: "('k, 'v) node \<Rightarrow> 'v list \<Rightarrow> 'v list option"
  and io_loop :: "('k, 'v) node \<Rightarrow> nat \<Rightarrow> 'v list \<Rightarrow> 'v list option"
  and io_child :: "('k, 'v) node \<Rightarrow> nat \<Rightarrow> 'v list \<Rightarrow> 'v list option"
where
  "inOrder n result = io_loop n 0 result"
| "io_loop n i result =
     (case io_child n i result of
        None \<Rightarrow> None
      | Some result \<Rightarrow>
          if i < length (node_keys n)
          then (case index_at (node_values n) i of
                  None \<Rightarrow> None
                | Some v \<Rightarrow> io_loop n (i + 1) (result @ [v]))
          else Some result)"
| "io_child n i result =
     (if node_leaf n then Some result
      else case index_at (node_children n) i of
             None \<Rightarrow> None
           | Some c \<Rightarrow> inOrder c result)"
  by pat_completeness auto
termination
proof (relation "measures [
    \<lambda>x. case x of Inl (n, _) \<Rightarrow> size n | Inr (Inl (n, _)) \<Rightarrow> size n | Inr (Inr (n, _)) \<Rightarrow> size n,
    \<lambda>x. case x of Inl _ \<Rightarrow> 2 | Inr (Inl _) \<Rightarrow> 1 | Inr (Inr _) \<Rightarrow> 0,
    \<lambda>x. case x of Inl _ \<Rightarrow> 0 | Inr (Inl (n, i, _)) \<Rightarrow> length (node_keys n) - i | Inr (Inr _) \<Rightarrow> 0]",
    goal_cases)
  case (5 n i result c)
  then show ?case by (cases n) (auto intro: size_nth_child)
qed auto

definition bt_InOrder :: "('k, 'v) btree \<Rightarrow> 'v list option" where
  "bt_InOrder tree = inOrder (bt_root tree) []"

function collectEntries :: "('k, 'v) node \<Rightarrow> ('k \<times> 'v) list \<Rightarrow> ('k \<times> 'v) list option"
  and ce_loop :: "('k, 'v) node \<Rightarrow> nat \<Rightarrow> ('k \<times> 'v) list \<Rightarrow> ('k \<times> 'v) list option"
  and ce_child :: "('k, 'v) node \<Rightarrow> nat \<Rightarrow> ('k \<times> 'v) list \<Rightarrow> ('k \<times> 'v) list option"
where
  "collectEntries n entries = ce_loop n 0 entries"
| "ce_loop n i entries =
     (case ce_child n i entries of
        None \<Rightarrow> None
      | Some entries \<Rightarrow>
          if i < length (node_keys n)
          then (case index_at (node_values n) i of
                  None \<Rightarrow> None
                | Some v \<Rightarrow> ce_loop n (i + 1) (entries @ [(node_keys n ! i, v)]))
          else Some entries)"
| "ce_child n i entries =
     (if node_leaf n then Some entries
      else case index_at (node_children n) i of
             None \<Rightarrow> None
           | Some c \<Rightarrow> collectEntries c entries)"
  by pat_completeness auto
termination
proof (relation "measures [
    \<lambda>x. case x of Inl (n, _) \<Rightarrow> size n | Inr (Inl (n, _)) \<Rightarrow> size n | Inr (Inr (n, _)) \<Rightarrow> size n,
    \<lambda>x. case x of Inl _ \<Rightarrow> 2 | Inr (Inl _) \<Rightarrow> 1 | Inr (Inr _) \<Rightarrow> 0,
    \<lambda>x. case x of Inl _ \<Rightarrow> 0 | Inr (Inl (n, i, _)) \<Rightarrow> length (node_keys n) - i | Inr (Inr _) \<Rightarrow> 0]",
    goal_cases)
  case (5 n i entries c)
  then show ?case by (cases n) (auto intro: size_nth_child)
qed auto

text \<open>\<open>Delete\<close> rebuilds the tree from the remaining entries; it returns whether the key was there.\<close>

fun reinsert :: "'k::ord \<Rightarrow> ('k, 'v) btree \<Rightarrow> ('k \<times> 'v) list \<Rightarrow> ('k, 'v) btree option" where
  "reinsert key tree [] = Some tree"
| "reinsert key tree ((k, v) # es) =
     (if \<not> go_eq k key
      then (case bt_Insert tree k v of None \<Rightarrow> None | Some tree' \<Rightarrow> reinsert key tree' es)
      else reinsert key tree es)"

definition bt_Delete :: "('k::ord, 'v) btree \<Rightarrow> 'k \<Rightarrow> (bool \<times> ('k, 'v) btree) option" where
  "bt_Delete tree key =
     (case bt_Search tree key of
        None \<Rightarrow> None
      | Some None \<Rightarrow> Some (False, tree)
      | Some (Some _) \<Rightarrow>
          (case collectEntries (bt_root tree) [] of
             None \<Rightarrow> None
           | Some entries \<Rightarrow>
               map_option (Pair True)
                 (reinsert key (tree\<lparr>bt_root := Node [] [] [] True, bt_size := 0\<rparr>) entries)))"

text \<open>\<open>Visualize\<close>; \<open>showKeys\<close> is the formatting of a key slice with a final newline.\<close>

fun visualize :: "('k list \<Rightarrow> string) \<Rightarrow> ('k, 'v) node \<Rightarrow> nat \<Rightarrow> string \<Rightarrow> string" where
  "visualize showKeys (Node ks vs cs leaf) depth builder =
     foldl (\<lambda>b child. visualize showKeys child (depth + 1) b)
       (builder @ concat (replicate depth ''  '') @ showKeys ks) cs"

definition bt_Visualize :: "('k list \<Rightarrow> string) \<Rightarrow> ('k, 'v) btree \<Rightarrow> string" where
  "bt_Visualize showKeys tree = visualize showKeys (bt_root tree) 0 []"

declare search.simps [simp del] update.simps [simp del] insertNonFull.simps [simp del]
  rangeQuery.simps [simp del] rq_below.simps [simp del] rq_inside.simps [simp del] rq_child.simps [simp del]
  inOrder.simps [simp del] io_loop.simps [simp del] io_child.simps [simp del]
  collectEntries.simps [simp del] ce_loop.simps [simp del] ce_child.simps [simp del]

end
