(* ===== verification/BTree_Correct.thy ===== *)
theory BTree_Correct
  imports BTree
begin

text \<open>
  Correctness of the B-tree.  The abstraction \<open>inorder\<close> lists the entries of a node in key
  order; \<open>wf_node\<close> is the shape invariant (all leaves on one level, between \<open>t - 1\<close> and
  \<open>2 t - 1\<close> keys per node, one child more than keys).  On well-formed nodes whose entries are
  strictly sorted, every operation is described by the corresponding list operation, and no
  index is out of range.
\<close>

section \<open>Keys\<close>

text \<open>
  The keys for which Go's comparison operators form a total order; for \<open>float64\<close> these are
  the values other than NaN.
\<close>

locale ordered_keys = strict_weak_order "(<)" ok for ok :: "'k::ord \<Rightarrow> bool" +
  assumes key_total: "ok x \<Longrightarrow> ok y \<Longrightarrow> \<not> x < y \<Longrightarrow> \<not> y < x \<Longrightarrow> x = y"
    and key_le: "ok x \<Longrightarrow> ok y \<Longrightarrow> x \<le> y \<longleftrightarrow> \<not> y < x"
begin

lemma go_eq_iff: "ok x \<Longrightarrow> ok y \<Longrightarrow> go_eq x y \<longleftrightarrow> x = y"
  using key_total key_le less_irrefl by (auto simp: go_eq_def)

end

interpretation f64_keys: ordered_keys "\<lambda>a :: f64. a \<noteq> NaN"
  by unfold_locales (auto simp: f64_not_less intro: f64_antisym)

interpretation int_keys: ordered_keys "\<lambda>_ :: int. True"
  by unfold_locales auto

section \<open>Abstraction and shape\<close>

fun interleave :: "'a list list \<Rightarrow> 'a list \<Rightarrow> 'a list" where
  "interleave (c # cs) (e # es) = c @ e # interleave cs es"
| "interleave (c # cs) [] = c"
| "interleave [] es = es"

fun inorder :: "('k, 'v) node \<Rightarrow> ('k \<times> 'v) list" where
  "inorder (Node ks vs cs leaf) = interleave (map inorder cs) (zip ks vs)"

fun wf_node :: "nat \<Rightarrow> nat \<Rightarrow> nat \<Rightarrow> ('k, 'v) node \<Rightarrow> bool" where
  "wf_node t lo 0 (Node ks vs cs leaf) \<longleftrightarrow>
     leaf \<and> cs = [] \<and> length vs = length ks \<and> lo \<le> length ks \<and> length ks \<le> 2 * t - 1"
| "wf_node t lo (Suc h) (Node ks vs cs leaf) \<longleftrightarrow>
     \<not> leaf \<and> length cs = Suc (length ks) \<and> length vs = length ks \<and> lo \<le> length ks
     \<and> length ks \<le> 2 * t - 1 \<and> (\<forall>c\<in>set cs. wf_node t (t - 1) h c)"

lemma wf_node_keys: "wf_node t lo h n \<Longrightarrow> length (node_keys n) \<le> 2 * t - 1"
  by (cases h; cases n) auto

lemma wf_node_lower: "wf_node t lo h n \<Longrightarrow> lo' \<le> length (node_keys n) \<Longrightarrow> wf_node t lo' h n"
  by (cases h; cases n) auto

abbreviation "keys_of es \<equiv> map fst es"

definition sorted_e :: "('k::ord \<times> 'v) list \<Rightarrow> bool" where
  "sorted_e es \<longleftrightarrow> sorted_wrt (<) (keys_of es)"

lemma sorted_e_simps [simp]:
  "sorted_e []" "sorted_e (e # es) \<longleftrightarrow> (\<forall>x\<in>set es. fst e < fst x) \<and> sorted_e es"
  "sorted_e (xs @ ys) \<longleftrightarrow> sorted_e xs \<and> sorted_e ys \<and> (\<forall>x\<in>set xs. \<forall>y\<in>set ys. fst x < fst y)"
  by (auto simp: sorted_e_def sorted_wrt_append)

definition pre :: "('k, 'v) node list \<Rightarrow> ('k \<times> 'v) list \<Rightarrow> ('k \<times> 'v) list" where
  "pre A E = concat (map2 (\<lambda>c e. inorder c @ [e]) A E)"

definition post :: "('k \<times> 'v) list \<Rightarrow> ('k, 'v) node list \<Rightarrow> ('k \<times> 'v) list" where
  "post F B = concat (map2 (\<lambda>e c. e # inorder c) F B)"

lemma pre_Nil [simp]: "pre A [] = []" "pre [] E = []"
  by (auto simp: pre_def)

lemma post_Nil [simp]: "post [] B = []" "post F [] = []"
  by (auto simp: post_def)

lemma pre_snoc [simp]: "length A = length E \<Longrightarrow> pre (A @ [a]) (E @ [e]) = pre A E @ inorder a @ [e]"
  by (simp add: pre_def)

lemma post_Cons [simp]: "post (e # F) (b # B) = e # inorder b @ post F B"
  by (simp add: post_def)

lemma interleave_post: "length B = length F \<Longrightarrow> interleave (c # map inorder B) F = c @ post F B"
  by (induction B F arbitrary: c rule: list_induct2) auto

lemma interleave_split: "length A = length E \<Longrightarrow> length B = length F
    \<Longrightarrow> interleave (map inorder (A @ c # B)) (E @ F) = pre A E @ inorder c @ post F B"
  by (induction A E rule: list_induct2) (auto simp: interleave_post pre_def)

lemma interleave_Nil [simp]: "interleave [] es = es"
  by (cases es) auto

text \<open>An inner node seen from the child at \<open>i\<close>.\<close>

lemma child_split:
  assumes "wf_node t lo (Suc h) (Node ks vs cs leaf)" "i \<le> length ks"
  obtains A B E F where "cs = A @ cs ! i # B" "zip ks vs = E @ F" "length A = i" "length E = i"
    "length B = length F" "ks = keys_of E @ keys_of F" "vs = map snd E @ map snd F"
    "inorder (Node ks vs cs leaf) = pre A E @ inorder (cs ! i) @ post F B"
    "wf_node t (t - 1) h (cs ! i)"
proof -
  let ?es = "zip ks vs"
  have i: "i < length cs" "length ?es = length ks" "length cs = Suc (length ks)" using assms by auto
  have cs: "cs = take i cs @ cs ! i # drop (Suc i) cs" using i by (simp add: id_take_nth_drop)
  have es: "?es = take i ?es @ drop i ?es" by simp
  have ks: "ks = map fst ?es" "vs = map snd ?es" using assms by auto
  have "inorder (Node ks vs cs leaf) = interleave (map inorder (take i cs @ cs ! i # drop (Suc i) cs))
      (take i ?es @ drop i ?es)" using cs es by simp
  also have "\<dots> = pre (take i cs) (take i ?es) @ inorder (cs ! i) @ post (drop i ?es) (drop (Suc i) cs)"
    by (rule interleave_split) (use i assms(2) in auto)
  finally have inord: "inorder (Node ks vs cs leaf) = \<dots>" .
  show ?thesis
  proof (rule that [OF cs es _ _ _ _ _ inord])
    show "ks = keys_of (take i ?es) @ keys_of (drop i ?es)" "vs = map snd (take i ?es) @ map snd (drop i ?es)"
      using ks by (metis append_take_drop_id map_append)+
  qed (use i assms in auto)
qed

lemma inorder_leaf: "wf_node t lo 0 (Node ks vs cs leaf) \<Longrightarrow> inorder (Node ks vs cs leaf) = zip ks vs"
  by simp

section \<open>The scans\<close>

lemma scan_up_le: "scan_up key ks \<le> length ks"
  by (induction ks) auto

lemma scan_up_below: "j < scan_up key ks \<Longrightarrow> ks ! j < key"
  by (induction ks arbitrary: j) (auto simp: nth_Cons split: if_splits nat.splits)

lemma scan_up_stop: "scan_up key ks < length ks \<Longrightarrow> \<not> ks ! scan_up key ks < key"
  by (induction ks) auto

lemma scan_down_le: "scan_down key ks n \<le> n"
  by (induction n) auto

lemma scan_down_above: "scan_down key ks n \<le> j \<Longrightarrow> j < n \<Longrightarrow> key < ks ! j"
  by (induction n) (auto simp: less_Suc_eq split: if_splits)

lemma scan_down_stop: "0 < scan_down key ks n \<Longrightarrow> \<not> key < ks ! (scan_down key ks n - 1)"
  by (induction n) auto

context ordered_keys
begin

definition ok_entries :: "('k \<times> 'v) list \<Rightarrow> bool" where
  "ok_entries es \<longleftrightarrow> (\<forall>e\<in>set es. ok (fst e)) \<and> sorted_e es"

lemma ok_entries_append [simp]: "ok_entries (xs @ ys) \<longleftrightarrow>
    ok_entries xs \<and> ok_entries ys \<and> (\<forall>x\<in>set xs. \<forall>y\<in>set ys. fst x < fst y)"
  by (auto simp: ok_entries_def)

lemma ok_entries_Cons [simp]: "ok_entries (x # xs) \<longleftrightarrow>
    ok (fst x) \<and> ok_entries xs \<and> (\<forall>y\<in>set xs. fst x < fst y)"
  by (auto simp: ok_entries_def)

lemma ok_entries_Nil [simp]: "ok_entries []"
  by (simp add: ok_entries_def)

lemma ok_entries_ok: "ok_entries xs \<Longrightarrow> e \<in> set xs \<Longrightarrow> ok (fst e)"
  by (simp add: ok_entries_def)

lemma pre_less:
  assumes "ok_entries (pre A E)" "length A = length E" "ok key" "E \<noteq> [] \<Longrightarrow> fst (last E) < key"
    and "e \<in> set (pre A E)"
  shows "fst e < key"
proof (cases "E = []")
  case False
  then obtain E' l A' a where E: "E = E' @ [l]" "A = A' @ [a]" "length A' = length E'"
    using assms(2) by (metis append_butlast_last_id length_butlast length_0_conv)
  then have "e = l \<or> fst e < fst l" "ok (fst e)" "ok (fst l)"
    using assms(1,5) ok_entries_ok [OF assms(1,5)] by auto
  then show ?thesis using assms(3,4) E lt_trans by (metis False last_snoc)
qed (use assms in simp)

lemma post_greater:
  assumes "ok_entries (post F B)" "length B = length F" "ok key" "F \<noteq> [] \<Longrightarrow> key < fst (hd F)"
    and "e \<in> set (post F B)"
  shows "key < fst e"
proof (cases F)
  case (Cons f F')
  then obtain b B' where B: "B = b # B'" using assms(2) by (cases B) auto
  then have "e = f \<or> fst f < fst e" "ok (fst e)" "ok (fst f)"
    using assms(1,5) Cons ok_entries_ok [OF assms(1,5)] by auto
  then show ?thesis using assms(3,4) Cons lt_trans by (metis list.distinct(1) list.sel(1))
qed (use assms in simp)

lemma lt_not_eq: "ok x \<Longrightarrow> x < y \<Longrightarrow> x \<noteq> y"
  using less_irrefl [of x] by auto

lemma map_of_outside:
  "\<forall>e\<in>set P. fst e < key \<Longrightarrow> \<forall>e\<in>set R. key < fst e \<Longrightarrow> ok key
    \<Longrightarrow> map_of (P @ c @ R) key = map_of c key"
proof -
  assume a: "\<forall>e\<in>set P. fst e < key" "\<forall>e\<in>set R. key < fst e" "ok key"
  have "map_of P key = None" "map_of R key = None"
    using a less_irrefl by (auto simp: map_of_eq_None_iff)
  then show ?thesis by (simp add: map_add_def split: option.split)
qed

section \<open>Search\<close>

text \<open>What the upward scan says about the split of a node at its result.\<close>

lemma scan_up_split:
  assumes "i = scan_up key ks" "ks = keys_of E @ keys_of F" "length E = i" "ok key"
    and "\<forall>k\<in>set ks. ok k"
  shows "E \<noteq> [] \<Longrightarrow> fst (last E) < key"
    and "F \<noteq> [] \<Longrightarrow> \<not> go_eq key (ks ! i) \<Longrightarrow> key < fst (hd F)"
    and "F \<noteq> [] \<Longrightarrow> fst (hd F) = ks ! i \<and> i < length ks"
    and "F = [] \<Longrightarrow> \<not> i < length ks"
proof -
  show "fst (last E) < key" if E: "E \<noteq> []"
  proof -
    have "i - 1 < scan_up key ks" using E assms(1,3) by (cases E) auto
    then have "ks ! (i - 1) < key" by (rule scan_up_below)
    moreover have "ks ! (i - 1) = fst (last E)"
      using E assms(2,3) by (cases E) (auto simp: nth_append last_conv_nth)
    ultimately show ?thesis by simp
  qed
  show hd: "F \<noteq> [] \<Longrightarrow> fst (hd F) = ks ! i \<and> i < length ks"
    using assms by (auto simp: nth_append hd_conv_nth)
  then show "F \<noteq> [] \<Longrightarrow> \<not> go_eq key (ks ! i) \<Longrightarrow> key < fst (hd F)"
    using scan_up_stop [of key ks] assms(1,4,5) go_eq_iff key_total by (metis nth_mem)
  show "F = [] \<Longrightarrow> \<not> i < length ks" using assms by simp
qed

lemma leaf_search:
  assumes "ok_entries (zip ks vs)" "length vs = length ks" "ok key" "i = scan_up key ks"
  shows "map_of (zip ks vs) key = (if i < length ks \<and> go_eq key (ks ! i) then Some (vs ! i) else None)"
proof -
  have ks: "ks = keys_of (zip ks vs)" using assms(2) by simp
  have oks: "\<forall>k\<in>set ks. ok k" using assms(1) ks by (metis (no_types, lifting) in_set_conv_nth length_map nth_map nth_mem ok_entries_ok)
  have srt: "sorted_wrt (<) ks" using assms(1) ks by (simp add: ok_entries_def sorted_e_def)
  have "i \<le> length ks" using assms(4) scan_up_le by blast
  have below: "key \<noteq> ks ! j" if "j < i" for j
    using scan_up_below [of j key ks] that assms(4) less_irrefl [OF assms(3)] by auto
  have above: "key \<noteq> ks ! j" if "i < j" "j < length ks" for j
  proof -
    have "\<not> ks ! i < key" using scan_up_stop [of key ks] that assms(4) by simp
    moreover have "ks ! i < ks ! j" using srt that by (simp add: sorted_wrt_iff_nth_less)
    ultimately show ?thesis by blast
  qed
  show ?thesis
  proof (cases "i < length ks \<and> key = ks ! i")
    case True
    have "distinct ks" using srt oks less_irrefl by (auto simp: distinct_conv_nth sorted_wrt_iff_nth_less)
      (metis linorder_neqE_nat nth_mem)
    then show ?thesis using True assms(2,3) go_eq_iff by (simp add: map_of_zip_nth)
  next
    case False
    then have "key \<noteq> ks ! j" if "j < length ks" for j
      using above below that by (metis linorder_neqE_nat)
    then have "key \<notin> set ks" by (metis in_set_conv_nth)
    moreover have "\<not> (i < length ks \<and> go_eq key (ks ! i))" using False go_eq_iff oks assms(3) by auto
    ultimately show ?thesis using assms(2) by (auto simp: map_of_eq_None_iff dest: set_zip_leftD)
  qed
qed

lemma set_pre: "length A = length E \<Longrightarrow> set E \<subseteq> set (pre A E)"
  by (induction A E rule: list_induct2) (auto simp: pre_def)

lemma set_post: "length B = length F \<Longrightarrow> set F \<subseteq> set (post F B)"
  by (induction B F rule: list_induct2) auto

lemma pre_post_ok:
  assumes "ok_entries (pre A E @ c @ post F B)" "length A = length E" "length B = length F"
  shows "\<forall>k\<in>set (keys_of E @ keys_of F). ok k"
proof
  fix k assume "k \<in> set (keys_of E @ keys_of F)"
  then obtain e where "k = fst e" "e \<in> set E \<or> e \<in> set F" by auto
  then have "e \<in> set (pre A E @ c @ post F B)"
    using set_pre [OF assms(2)] set_post [OF assms(3)] by auto
  then show "ok k" using ok_entries_ok [OF assms(1)] \<open>k = fst e\<close> by simp
qed

lemma search_correct:
  "wf_node t lo h n \<Longrightarrow> ok_entries (inorder n) \<Longrightarrow> ok key \<Longrightarrow> search n key = Some (map_of (inorder n) key)"
proof (induction h arbitrary: n lo)
  case 0
  obtain ks vs cs leaf where n: "n = Node ks vs cs leaf" by (cases n)
  show ?case using 0 leaf_search [of ks vs key "scan_up key ks"] unfolding n
    by (simp add: search.simps Let_def)
next
  case (Suc h)
  obtain ks vs cs leaf where n: "n = Node ks vs cs leaf" by (cases n)
  let ?i = "scan_up key ks"
  obtain A B E F where s: "cs = A @ cs ! ?i # B" "length A = ?i" "length E = ?i" "length B = length F"
    "ks = keys_of E @ keys_of F" "vs = map snd E @ map snd F"
    "inorder n = pre A E @ inorder (cs ! ?i) @ post F B" "wf_node t (t - 1) h (cs ! ?i)"
    using child_split [OF Suc.prems(1) [unfolded n] scan_up_le [of key ks]] n by metis
  have shape: "\<not> leaf" "?i < length cs" "length vs = length ks"
    using Suc.prems(1) s(2) scan_up_le [of key ks] by (auto simp: n)
  have oke: "ok_entries (pre A E @ inorder (cs ! ?i) @ post F B)" using Suc.prems(2) s(7) by simp
  have len: "length A = length E" using s(2,3) by simp
  note sc = scan_up_split [OF refl s(5,3) Suc.prems(3)
      pre_post_ok [OF oke len s(4), folded s(5)]]
  have P: "\<forall>e\<in>set (pre A E). fst e < key"
    using pre_less [OF _ len Suc.prems(3)] oke sc(1) by auto
  show ?case
  proof (cases "?i < length ks \<and> go_eq key (ks ! ?i)")
    case True
    then obtain f F' where F: "F = f # F'" using sc(4) by (cases F) auto
    then obtain b B' where B: "B = b # B'" using s(4) by (cases B) auto
    have key: "fst f = key" using F sc(3) True go_eq_iff Suc.prems(3) pre_post_ok [OF oke len s(4)] s(5)
      by (metis list.distinct(1) list.sel(1) nth_mem)
    have vi: "vs ! ?i = snd f" "?i < length vs" using s(3,6) F True shape by (simp_all add: nth_append)
    have "\<forall>e\<in>set (inorder (cs ! ?i)). fst e < key" using oke F B key by auto
    then have "map_of (pre A E) key = None" "map_of (inorder (cs ! ?i)) key = None"
      using P less_irrefl Suc.prems(3) by (auto simp: map_of_eq_None_iff)
    then have "map_of (inorder n) key = Some (snd f)"
      using s(7) F B key by (simp add: map_add_def)
    then show ?thesis using True vi by (simp add: n search.simps Let_def index_at_less)
  next
    case False
    have R: "\<forall>e\<in>set (post F B). key < fst e"
      using post_greater [OF _ s(4) Suc.prems(3)] oke sc(2,3) False by auto
    have "search n key = search (cs ! ?i) key"
      using False shape by (auto simp: n search.simps Let_def index_at_less)
    also have "\<dots> = Some (map_of (inorder (cs ! ?i)) key)"
      using Suc.IH [OF s(8)] oke Suc.prems(3) by simp
    also have "\<dots> = Some (map_of (inorder n) key)"
      using map_of_outside [OF P R Suc.prems(3)] s(7) by simp
    finally show ?thesis .
  qed
qed

section \<open>Insertion\<close>

fun ins_entry :: "'k \<Rightarrow> 'v \<Rightarrow> ('k \<times> 'v) list \<Rightarrow> ('k \<times> 'v) list" where
  "ins_entry key v [] = [(key, v)]"
| "ins_entry key v (e # es) = (if fst e < key then e # ins_entry key v es else (key, v) # e # es)"

lemma ins_entry_pre: "\<forall>e\<in>set P. fst e < key \<Longrightarrow> ins_entry key v (P @ xs) = P @ ins_entry key v xs"
  by (induction P) auto

lemma ins_entry_post: "\<forall>e\<in>set R. key < fst e \<Longrightarrow> ok key \<Longrightarrow> \<forall>e\<in>set R. ok (fst e)
    \<Longrightarrow> ins_entry key v (xs @ R) = ins_entry key v xs @ R"
  by (induction xs; cases R) (auto dest: less_asym)

lemma set_ins_entry: "set (ins_entry key v xs) = insert (key, v) (set xs)"
  by (induction xs) auto

lemma all_less:
  assumes "ok_entries xs" "ok key" "xs \<noteq> [] \<Longrightarrow> fst (last xs) < key"
  shows "\<forall>e\<in>set xs. fst e < key"
proof (cases xs rule: rev_cases)
  case (snoc ys y)
  have y: "ok (fst y)" "fst y < key" using assms(1,3) snoc by auto
  have "fst e < key" if "e \<in> set ys" for e
    using that assms(1) snoc y assms(2) ok_entries_ok [OF assms(1), of e]
      lt_trans [of "fst e" "fst y" key] by auto
  then show ?thesis using snoc y by auto
qed simp

lemma all_greater:
  assumes "ok_entries xs" "ok key" "xs \<noteq> [] \<Longrightarrow> key < fst (hd xs)"
  shows "\<forall>e\<in>set xs. key < fst e"
proof (cases xs)
  case (Cons y ys)
  have y: "ok (fst y)" "key < fst y" using assms(1,3) Cons by auto
  have "key < fst e" if "e \<in> set ys" for e
    using that assms(1) Cons y assms(2) ok_entries_ok [OF assms(1), of e]
      lt_trans [of key "fst y" "fst e"] by auto
  then show ?thesis using Cons y by auto
qed simp

lemma all_less_trans: "\<forall>e\<in>set xs. fst e < k \<Longrightarrow> ok_entries xs \<Longrightarrow> ok k \<Longrightarrow> ok key \<Longrightarrow> k < key
    \<Longrightarrow> \<forall>e\<in>set xs. fst e < key"
  using lt_trans [of _ k key] ok_entries_ok by blast

lemma all_greater_trans: "\<forall>e\<in>set xs. k < fst e \<Longrightarrow> ok_entries xs \<Longrightarrow> ok k \<Longrightarrow> ok key \<Longrightarrow> key < k
    \<Longrightarrow> \<forall>e\<in>set xs. key < fst e"
  using lt_trans [of key k] ok_entries_ok by blast

lemma ok_ins_entry: "ok_entries xs \<Longrightarrow> ok key \<Longrightarrow> key \<notin> fst ` set xs \<Longrightarrow> ok_entries (ins_entry key v xs)"
proof (induction xs)
  case (Cons e xs)
  show ?case
  proof (cases "fst e < key")
    case True
    then show ?thesis using Cons by (auto simp: set_ins_entry)
  next
    case False
    then have e: "key < fst e" using Cons.prems key_total [of key "fst e"] by auto
    then have "\<forall>x\<in>set (e # xs). key < fst x" using all_greater [of "e # xs" key] Cons.prems by simp
    then show ?thesis using False e Cons.prems by simp
  qed
qed simp

lemma map_of_ins_entry: "key \<notin> fst ` set xs \<Longrightarrow> map_of (ins_entry key v xs) = (map_of xs)(key \<mapsto> v)"
  by (induction xs) (auto simp: fun_eq_iff)

lemma length_ins_entry [simp]: "length (ins_entry key v xs) = Suc (length xs)"
  by (induction xs) auto

lemma scan_down_split:
  assumes "i = scan_down key ks (length ks)" "ks = keys_of E @ keys_of F" "length E = i"
    and "ok key" "\<forall>k\<in>set ks. ok k" "key \<notin> set ks"
  shows "E \<noteq> [] \<Longrightarrow> fst (last E) < key" "F \<noteq> [] \<Longrightarrow> key < fst (hd F)"
proof -
  show "fst (last E) < key" if E: "E \<noteq> []"
  proof -
    have l: "ks ! (i - 1) = fst (last E)" "i - 1 < length ks"
      using E assms(2,3) by (cases E; auto simp: nth_append last_conv_nth)+
    have "0 < i" using E assms(3) by (cases E) auto
    then have "\<not> key < ks ! (i - 1)" using assms(1) scan_down_stop by blast
    then show ?thesis using l key_total assms(4,5,6) by (metis nth_mem)
  qed
  show "key < fst (hd F)" if F: "F \<noteq> []"
  proof -
    have "i < length ks" "ks ! i = fst (hd F)"
      using F assms(2,3) by (cases F; auto simp: nth_append)+
    then show ?thesis using scan_down_above [of key ks "length ks" i] assms(1) by simp
  qed
qed

lemma zip_list_insert: "length ks = length vs \<Longrightarrow>
    zip (list_insert p key ks) (list_insert p v vs) = list_insert p (key, v) (zip ks vs)"
  by (simp add: list_insert_def take_zip drop_zip)

lemma length_list_insert [simp]: "length (list_insert p x xs) = Suc (length xs)"
  by (simp add: list_insert_def)

lemma insert_leaf:
  assumes "ok_entries (zip ks vs)" "length vs = length ks" "ok key" "key \<notin> set ks"
  shows "zip (list_insert (scan_down key ks (length ks)) key ks)
      (list_insert (scan_down key ks (length ks)) v vs) = ins_entry key v (zip ks vs)"
proof -
  let ?i = "scan_down key ks (length ks)" and ?es = "zip ks vs"
  let ?E = "take ?i ?es" and ?F = "drop ?i ?es"
  have es: "?es = ?E @ ?F" by simp
  have kes: "keys_of ?es = ks" using assms(2) by simp
  have ks: "ks = keys_of ?E @ keys_of ?F" using kes es by (metis map_append)
  have i: "length ?E = ?i" using scan_down_le [of key ks "length ks"] assms(2) by simp
  have oks: "\<forall>k\<in>set ks. ok k"
    using assms(1) kes ok_entries_ok by (metis (no_types, lifting) imageE list.set_map)
  have ok: "ok_entries ?E" "ok_entries ?F" using assms(1) es ok_entries_append by metis+
  note sd = scan_down_split [OF refl ks i assms(3) oks assms(4)]
  have E: "\<forall>e\<in>set ?E. fst e < key" by (rule all_less [OF ok(1) assms(3) sd(1)])
  have F: "\<forall>e\<in>set ?F. key < fst e" by (rule all_greater [OF ok(2) assms(3) sd(2)])
  have "ins_entry key v ([] @ ?F) = ins_entry key v [] @ ?F"
    by (rule ins_entry_post [OF F assms(3)]) (use ok(2) ok_entries_ok in blast)
  then have "ins_entry key v ?es = ?E @ (key, v) # ?F"
    using ins_entry_pre [OF E, of v ?F] by simp
  then show ?thesis using zip_list_insert [of ks vs] assms(2) by (simp add: list_insert_def)
qed

lemma split_node_correct:
  assumes "wf_node t lo h n" "length (node_keys n) = 2 * t - 1" "2 \<le> t"
  obtains l k v r where "split_node t n = Some (l, k, v, r)" "wf_node t (t - 1) h l" "wf_node t (t - 1) h r"
    "inorder n = inorder l @ (k, v) # inorder r" "length (node_keys l) = t - 1" "length (node_keys r) = t - 1"
proof -
  obtain ks vs cs leaf where n: "n = Node ks vs cs leaf" by (cases n)
  let ?es = "zip ks vs"
  have len: "length ks = 2 * t - 1" "length vs = length ks" using assms by (cases h; simp add: n)+
  have mid: "t - 1 < length ?es" using len assms(3) by simp
  have Suct: "Suc (t - 1) = t" using assms(3) by simp
  have es: "?es = take (t - 1) ?es @ (ks ! (t - 1), vs ! (t - 1)) # drop t ?es"
    using id_take_nth_drop [OF mid] mid len Suct by simp
  have tz: "zip (take m ks) (take m vs) = take m ?es" "zip (drop m ks) (drop m vs) = drop m ?es" for m
    by (simp_all add: take_zip drop_zip)
  show ?thesis
  proof (cases h)
    case 0
    then have "leaf" "cs = []" using assms by (auto simp: n)
    then show ?thesis using len assms(3) es 0
      by (intro that) (auto simp: n split_node_def tz)
  next
    case (Suc h')
    then have inner: "\<not> leaf" "length cs = 2 * t" "\<forall>c\<in>set cs. wf_node t (t - 1) h' c"
      using assms len by (auto simp: n)
    let ?A = "take (t - 1) cs" and ?c = "cs ! (t - 1)" and ?b = "cs ! t" and ?B = "drop (Suc t) cs"
    have tk: "take t cs = ?A @ [?c]" using take_Suc_conv_app_nth [of "t - 1" cs] Suct inner assms(3) by simp
    have dr: "drop t cs = ?b # ?B" using Cons_nth_drop_Suc [of t cs] inner assms(3) by simp
    have cs: "cs = ?A @ ?c # ?b # ?B" by (metis append_take_drop_id tk dr append_Cons append_Nil append_assoc)
    have lA: "length ?A = length (take (t - 1) ?es)" "length ?B = length (drop t ?es)"
      using inner len assms(3) by auto
    have "inorder n = pre ?A (take (t - 1) ?es) @ inorder ?c
        @ post ((ks ! (t - 1), vs ! (t - 1)) # drop t ?es) (?b # ?B)"
    proof -
      have "inorder n = interleave (map inorder (?A @ ?c # ?b # ?B))
          (take (t - 1) ?es @ (ks ! (t - 1), vs ! (t - 1)) # drop t ?es)"
        by (simp only: n inorder.simps cs [symmetric] es [symmetric])
      also have "\<dots> = pre ?A (take (t - 1) ?es) @ inorder ?c
          @ post ((ks ! (t - 1), vs ! (t - 1)) # drop t ?es) (?b # ?B)"
        by (rule interleave_split [OF lA(1)]) (simp only: length_Cons lA(2))
      finally show ?thesis .
    qed
    moreover have "interleave (map inorder (take t cs)) (take (t - 1) ?es) = pre ?A (take (t - 1) ?es) @ inorder ?c"
      using interleave_split [OF lA(1), of "[]" "[]" ?c] tk by simp
    moreover have "interleave (map inorder (drop t cs)) (drop t ?es) = inorder ?b @ post (drop t ?es) ?B"
      using interleave_post [OF lA(2)] dr by simp
    ultimately have "inorder n = interleave (map inorder (take t cs)) (take (t - 1) ?es)
        @ (ks ! (t - 1), vs ! (t - 1)) # interleave (map inorder (drop t cs)) (drop t ?es)" by simp
    moreover have "\<forall>c\<in>set (take t cs). wf_node t (t - 1) h' c"
      "\<forall>c\<in>set (drop t cs). wf_node t (t - 1) h' c"
      using inner(3) by (auto dest: in_set_takeD in_set_dropD)
    moreover have "t - 1 \<le> 2 * t - 1" by simp
    ultimately show ?thesis using inner len assms(3) Suc
      by (intro that) (auto simp: n split_node_def tz)
  qed
qed

text \<open>Splitting the full child at the end of \<open>A\<close> makes room for one more entry there.\<close>

lemma splitChild_at:
  assumes sp: "split_node t c = Some (l, k, v, r)" and "length A = length E" "length B = length F"
  shows "splitChild t (Node (keys_of E @ keys_of F) (map snd E @ map snd F) (A @ c # B) leaf) (length A)
    = Some (Node (keys_of E @ k # keys_of F) (map snd E @ v # map snd F) (A @ l # r # B) leaf)"
  using assms by (simp add: splitChild_def index_at_less nth_append list_insert_def list_update_append)

lemma inorder_at:
  "length A = length E \<Longrightarrow> length B = length F
   \<Longrightarrow> inorder (Node (keys_of E @ keys_of F) (map snd E @ map snd F) (A @ c # B) leaf)
     = pre A E @ inorder c @ post F B"
  using interleave_split [of A E B F c] by (simp add: zip_append zip_map_fst_snd)

lemma insertNonFull_correct:
  "wf_node t lo h n \<Longrightarrow> 2 \<le> t \<Longrightarrow> length (node_keys n) < 2 * t - 1 \<Longrightarrow> ok_entries (inorder n) \<Longrightarrow> ok key
    \<Longrightarrow> key \<notin> fst ` set (inorder n)
    \<Longrightarrow> \<exists>n'. insertNonFull t n key v = Some n' \<and> wf_node t lo h n' \<and> inorder n' = ins_entry key v (inorder n)"
proof (induction h arbitrary: n lo)
  case 0
  obtain ks vs cs leaf where n: "n = Node ks vs cs leaf" by (cases n)
  have l: "leaf" "cs = []" "length vs = length ks" using 0 by (auto simp: n)
  have "key \<notin> set ks" using 0(6) l by (simp add: n del: set_zip) (metis list.set_map map_fst_zip)
  then have "zip (list_insert (scan_down key ks (length ks)) key ks)
      (list_insert (scan_down key ks (length ks)) v vs) = ins_entry key v (zip ks vs)"
    using insert_leaf 0 l by (simp add: n)
  then show ?case using 0 l by (subst insertNonFull.simps) (auto simp: n Let_def)
next
  case (Suc h)
  obtain ks vs cs leaf where n: "n = Node ks vs cs leaf" by (cases n)
  let ?i = "scan_down key ks (length ks)"
  obtain A B E F where s: "cs = A @ cs ! ?i # B" "length A = ?i" "length E = ?i" "length B = length F"
    "ks = keys_of E @ keys_of F" "vs = map snd E @ map snd F"
    "inorder n = pre A E @ inorder (cs ! ?i) @ post F B" "wf_node t (t - 1) h (cs ! ?i)"
    using child_split [OF Suc.prems(1) [unfolded n] scan_down_le [of key ks]] n by metis
  define c where "c = cs ! ?i"
  have shape: "\<not> leaf" "?i < length cs" using Suc.prems(1) s(1,2) scan_down_le [of key ks "length ks"]
    by (auto simp: n)
  have oke: "ok_entries (pre A E @ inorder c @ post F B)" using Suc.prems(4) s(7) c_def by simp
  have len: "length A = length E" using s(2,3) by simp
  have notin: "key \<notin> set ks" "key \<notin> fst ` set (inorder c)"
    using set_pre [OF len] set_post [OF s(4)] Suc.prems(6) s(5,7) c_def by auto
  note sd = scan_down_split [OF refl s(5,3) Suc.prems(5) pre_post_ok [OF oke len s(4), folded s(5)] notin(1)]
  have P: "\<forall>e\<in>set (pre A E). fst e < key"
    using pre_less [OF _ len Suc.prems(5)] oke sd(1) by auto
  have R: "\<forall>e\<in>set (post F B). key < fst e"
    using post_greater [OF _ s(4) Suc.prems(5)] oke sd(2) by auto
  have okR: "\<forall>e\<in>set (post F B). ok (fst e)" using oke ok_entries_ok by auto
  have ins: "ins_entry key v (inorder n) = pre A E @ ins_entry key v (inorder c) @ post F B"
    using ins_entry_pre [OF P] ins_entry_post [OF R Suc.prems(5) okR] s(7) c_def by simp
  have AB: "\<forall>x\<in>set A \<union> set B. wf_node t (t - 1) h x"
    using Suc.prems(1) s(1) by (auto simp: n) (metis in_set_conv_decomp UnCI set_append set_ConsD list.set_intros(2))+
  have lks: "lo \<le> length ks" "length ks < 2 * t - 1" using Suc.prems(1,3) by (auto simp: n)
  show ?case
  proof (cases "length (node_keys c) = 2 * t - 1")
    case False
    then have less: "length (node_keys c) < 2 * t - 1" using wf_node_keys [OF s(8)] c_def by simp
    obtain c' where c': "insertNonFull t c key v = Some c'" "wf_node t (t - 1) h c'"
        "inorder c' = ins_entry key v (inorder c)"
      using Suc.IH [OF s(8) [folded c_def] Suc.prems(2) less _ Suc.prems(5) notin(2)] oke by auto
    let ?n' = "Node ks vs (cs[?i := c']) leaf"
    have cs': "cs[?i := c'] = A @ c' # B" using s(1,2) by (metis list_update_length)
    have "insertNonFull t n key v = Some ?n'"
      using False c'(1) shape by (subst insertNonFull.simps) (simp add: n Let_def index_at_less c_def)
    moreover have "wf_node t lo (Suc h) ?n'"
      using Suc.prems(1) c'(2) set_update_subset_insert [of cs ?i c'] by (auto simp: n)
    moreover have "inorder ?n' = ins_entry key v (inorder n)"
      using inorder_at [OF len s(4), of c' leaf, folded s(5,6)] c'(3) cs' ins by simp
    ultimately show ?thesis by blast
  next
    case True
    obtain l k w r where sp: "split_node t c = Some (l, k, w, r)" "wf_node t (t - 1) h l" "wf_node t (t - 1) h r"
        "inorder c = inorder l @ (k, w) # inorder r" "length (node_keys l) = t - 1" "length (node_keys r) = t - 1"
      using split_node_correct [OF s(8) [folded c_def] True Suc.prems(2)] .
    let ?ks = "keys_of E @ k # keys_of F" and ?vs = "map snd E @ w # map snd F"
    have split: "splitChild t n ?i = Some (Node ?ks ?vs (A @ l # r # B) leaf)"
      using splitChild_at [OF sp(1) len s(4)] s(1,2,5,6) c_def by (metis n)
    have small: "t - 1 < 2 * t - 1" using Suc.prems(2) by linarith
    have okc: "ok_entries (inorder l @ (k, w) # inorder r)" using oke sp(4) by simp
    have oklr: "ok_entries (inorder l)" "ok_entries (inorder r)" "ok k"
      "\<forall>e\<in>set (inorder l). fst e < k" "\<forall>e\<in>set (inorder r). k < fst e" using okc by auto
    have nk: "key \<noteq> k" "key \<notin> fst ` set (inorder l)" "key \<notin> fst ` set (inorder r)"
      using notin(2) sp(4) by auto
    have ki: "?ks ! ?i = k" using s(3) by (simp add: nth_append)
    have lenks: "length ?ks = Suc (length ks)" "length ?vs = length ?ks" using s(5) by simp_all
    show ?thesis
    proof (cases "k < key")
      case kless: True
      obtain c' where c': "insertNonFull t r key v = Some c'" "wf_node t (t - 1) h c'"
          "inorder c' = ins_entry key v (inorder r)"
        using Suc.IH [OF sp(3) Suc.prems(2) _ oklr(2) Suc.prems(5) nk(3)] sp(6) small by auto
      have "\<forall>e\<in>set (inorder l @ [(k, w)]). fst e < key"
        using all_less_trans [OF oklr(4,1,3) Suc.prems(5) kless] kless by simp
      then have insc: "ins_entry key v (inorder c) = inorder l @ (k, w) # ins_entry key v (inorder r)"
        using ins_entry_pre [of "inorder l @ [(k, w)]" key v "inorder r"] sp(4) by simp
      let ?n' = "Node ?ks ?vs (A @ l # c' # B) leaf"
      have upd: "(A @ l # r # B)[Suc ?i := c'] = A @ l # c' # B" "(A @ l # r # B) ! Suc ?i = r"
        unfolding s(2) [symmetric] by (simp_all add: list_update_append nth_append)
      then have "insertNonFull t n key v = Some ?n'"
        using True c'(1) shape split ki kless
        by (subst insertNonFull.simps) (simp add: n Let_def index_at_less c_def)
      moreover have "wf_node t lo (Suc h) ?n'"
        using Suc.prems(1) AB c'(2) sp(2) lks lenks s(2,3,4) by (auto simp: n)
      moreover have "inorder ?n' = ins_entry key v (inorder n)"
        using inorder_at [of "A @ [l]" "E @ [(k, w)]" B F c' leaf] len s(4) c'(3) ins insc by simp
      ultimately show ?thesis by blast
    next
      case kge: False
      then have kk: "key < k" using nk(1) key_total oklr(3) Suc.prems(5) by blast
      obtain c' where c': "insertNonFull t l key v = Some c'" "wf_node t (t - 1) h c'"
          "inorder c' = ins_entry key v (inorder l)"
        using Suc.IH [OF sp(2) Suc.prems(2) _ oklr(1) Suc.prems(5) nk(2)] sp(5) small by auto
      have "\<forall>e\<in>set ((k, w) # inorder r). key < fst e"
        using all_greater_trans [OF oklr(5,2,3) Suc.prems(5) kk] kk by simp
      moreover have "\<forall>e\<in>set ((k, w) # inorder r). ok (fst e)"
        using oklr(3) ok_entries_ok [OF oklr(2)] by auto
      ultimately have insc: "ins_entry key v (inorder c) = ins_entry key v (inorder l) @ (k, w) # inorder r"
        using ins_entry_post [of "(k, w) # inorder r" key v "inorder l"] sp(4) Suc.prems(5) by simp
      let ?n' = "Node ?ks ?vs (A @ c' # r # B) leaf"
      have "(A @ l # r # B)[?i := c'] = A @ c' # r # B" "(A @ l # r # B) ! ?i = l"
        using s(2) by (metis list_update_length, metis nth_append_length)
      then have "insertNonFull t n key v = Some ?n'"
        using True c'(1) shape split ki kge
        by (subst insertNonFull.simps) (simp add: n Let_def index_at_less c_def)
      moreover have "wf_node t lo (Suc h) ?n'"
        using Suc.prems(1) AB c'(2) sp(3) lks lenks s(2,3,4) by (auto simp: n)
      moreover have "inorder ?n' = ins_entry key v (inorder n)"
        using inorder_at [of A E "r # B" "(k, w) # F" c' leaf] len s(4) c'(3) ins insc by simp
      ultimately show ?thesis by blast
    qed
  qed
qed

section \<open>Update in place\<close>

definition upd_entry :: "'k \<Rightarrow> 'v \<Rightarrow> ('k \<times> 'v) list \<Rightarrow> ('k \<times> 'v) list" where
  "upd_entry key v es = map (\<lambda>e. if fst e = key then (fst e, v) else e) es"

lemma upd_entry_append [simp]: "upd_entry key v (xs @ ys) = upd_entry key v xs @ upd_entry key v ys"
  by (simp add: upd_entry_def)

lemma keys_upd_entry [simp]: "keys_of (upd_entry key v es) = keys_of es"
  by (induction es) (auto simp: upd_entry_def)

lemma length_upd_entry [simp]: "length (upd_entry key v es) = length es"
  by (simp add: upd_entry_def)

lemma upd_entry_id: "key \<notin> fst ` set es \<Longrightarrow> upd_entry key v es = es"
  by (induction es) (auto simp: upd_entry_def)

lemma ok_upd_entry [simp]: "ok_entries (upd_entry key v es) \<longleftrightarrow> ok_entries es"
proof -
  have "(\<forall>e\<in>set es. ok (fst e)) \<longleftrightarrow> (\<forall>k\<in>set (keys_of es). ok k)" for es :: "('k \<times> 'v) list" by simp
  then show ?thesis unfolding ok_entries_def sorted_e_def by (metis keys_upd_entry)
qed

lemma map_of_upd_entry: "key \<in> fst ` set es \<Longrightarrow> map_of (upd_entry key v es) = (map_of es)(key \<mapsto> v)"
proof (induction es)
  case (Cons e es)
  then show ?case
    by (cases "key \<in> fst ` set es") (auto simp: fun_eq_iff upd_entry_def upd_entry_id [unfolded upd_entry_def])
qed simp

lemma not_mem_less: "\<forall>e\<in>set xs. fst e < key \<Longrightarrow> ok key \<Longrightarrow> key \<notin> fst ` set xs"
  using less_irrefl by auto

lemma not_mem_greater: "\<forall>e\<in>set xs. key < fst e \<Longrightarrow> ok key \<Longrightarrow> key \<notin> fst ` set xs"
  using less_irrefl by auto

lemma update_leaf:
  assumes "ok_entries (zip ks vs)" "length vs = length ks" "ok key" "i = scan_up key ks"
  shows "upd_entry key v (zip ks vs)
    = (if i < length ks \<and> go_eq key (ks ! i) then zip ks (vs[i := v]) else zip ks vs)"
proof (cases "i < length ks \<and> go_eq key (ks ! i)")
  case True
  let ?es = "zip ks vs"
  have kes: "keys_of ?es = ks" using assms(2) by simp
  have "ok (ks ! i)" using True assms(1) kes ok_entries_ok by (metis length_map nth_map nth_mem)
  then have key: "key = ks ! i" using go_eq_iff True assms(3) by blast
  have "ks ! j = key \<longleftrightarrow> j = i" if "j < length ks" for j
  proof -
    have "sorted_wrt (<) ks" using assms(1) kes by (simp add: ok_entries_def sorted_e_def)
    then show ?thesis using key that True less_irrefl assms(3)
      by (metis linorder_neqE_nat sorted_wrt_iff_nth_less)
  qed
  then have "upd_entry key v ?es = zip ks (vs[i := v])"
    by (intro nth_equalityI) (auto simp: upd_entry_def assms(2) nth_list_update)
  then show ?thesis using True by simp
next
  case False
  then have "map_of (zip ks vs) key = None" using leaf_search [OF assms] by simp
  then have "key \<notin> fst ` set (zip ks vs)" by (rule map_of_eq_None_iff [THEN iffD1])
  then have "upd_entry key v (zip ks vs) = zip ks vs" by (rule upd_entry_id)
  then show ?thesis using False by auto
qed

lemma update_correct:
  "wf_node t lo h n \<Longrightarrow> ok_entries (inorder n) \<Longrightarrow> ok key
    \<Longrightarrow> \<exists>n'. update n key v = Some n' \<and> wf_node t lo h n' \<and> inorder n' = upd_entry key v (inorder n)"
proof (induction h arbitrary: n lo)
  case 0
  obtain ks vs cs leaf where n: "n = Node ks vs cs leaf" by (cases n)
  show ?case using 0 update_leaf [of ks vs key "scan_up key ks" v] unfolding n
    by (auto simp: update.simps Let_def)
next
  case (Suc h)
  obtain ks vs cs leaf where n: "n = Node ks vs cs leaf" by (cases n)
  let ?i = "scan_up key ks"
  obtain A B E F where s: "cs = A @ cs ! ?i # B" "length A = ?i" "length E = ?i" "length B = length F"
    "ks = keys_of E @ keys_of F" "vs = map snd E @ map snd F"
    "inorder n = pre A E @ inorder (cs ! ?i) @ post F B" "wf_node t (t - 1) h (cs ! ?i)"
    using child_split [OF Suc.prems(1) [unfolded n] scan_up_le [of key ks]] n by metis
  define c where "c = cs ! ?i"
  have shape: "\<not> leaf" "?i < length cs" "length vs = length ks"
    using Suc.prems(1) s(2) scan_up_le [of key ks] by (auto simp: n)
  have oke: "ok_entries (pre A E @ inorder c @ post F B)" using Suc.prems(2) s(7) c_def by simp
  have len: "length A = length E" using s(2,3) by simp
  note oks = pre_post_ok [OF oke len s(4), folded s(5)]
  note sc = scan_up_split [OF refl s(5,3) Suc.prems(3) oks]
  have P: "\<forall>e\<in>set (pre A E). fst e < key" using pre_less [OF _ len Suc.prems(3)] oke sc(1) by auto
  note uP = upd_entry_id [OF not_mem_less [OF P Suc.prems(3)]]
  show ?case
  proof (cases "?i < length ks \<and> go_eq key (ks ! ?i)")
    case True
    then obtain f F' where F: "F = f # F'" using sc(4) by (cases F) auto
    then obtain b B' where B: "B = b # B'" using s(4) by (cases B) auto
    have key: "fst f = key" using F sc(3) True go_eq_iff Suc.prems(3) oks
      by (metis list.distinct(1) list.sel(1) nth_mem)
    have cmp: "\<forall>e\<in>set (inorder c). fst e < key" "\<forall>e\<in>set (inorder b @ post F' B'). key < fst e"
      using oke F B key by auto
    note mem = not_mem_less [OF cmp(1) Suc.prems(3)] not_mem_greater [OF cmp(2) Suc.prems(3)]
    let ?n' = "Node ks (vs[?i := v]) cs leaf"
    have "update n key v = Some ?n'" using True shape(3) by (simp add: n update.simps Let_def)
    moreover have "wf_node t lo (Suc h) ?n'" using Suc.prems(1) by (simp add: n)
    moreover have "inorder ?n' = upd_entry key v (inorder n)"
    proof -
      have vs': "map snd E @ map snd ((key, v) # F') = vs[?i := v]"
        unfolding s(3) [symmetric] by (subst s(6)) (simp add: list_update_append F)
      have ks': "keys_of E @ keys_of ((key, v) # F') = ks" using s(5) F key by simp
      have "length B = length ((key, v) # F')" using s(4) F by simp
      then have "inorder ?n' = pre A E @ inorder c @ post ((key, v) # F') B"
        using inorder_at [OF len, of B "(key, v) # F'" c leaf]
        by (simp only: s(1) [folded c_def, symmetric] vs' ks')
      then show ?thesis using s(7) c_def uP upd_entry_id [OF mem(1)] upd_entry_id [OF mem(2)] F B key
        by (simp add: upd_entry_def)
    qed
    ultimately show ?thesis by blast
  next
    case False
    have R: "\<forall>e\<in>set (post F B). key < fst e"
      using post_greater [OF _ s(4) Suc.prems(3)] oke sc(2,3) False by auto
    obtain c' where c': "update c key v = Some c'" "wf_node t (t - 1) h c'" "inorder c' = upd_entry key v (inorder c)"
      using Suc.IH [OF s(8) [folded c_def] _ Suc.prems(3)] oke by auto
    let ?n' = "Node ks vs (cs[?i := c']) leaf"
    have cs': "cs[?i := c'] = A @ c' # B" using s(1,2) by (metis list_update_length)
    have "update n key v = Some ?n'"
      using False c'(1) shape by (auto simp: n update.simps Let_def index_at_less c_def)
    moreover have "wf_node t lo (Suc h) ?n'"
      using Suc.prems(1) c'(2) set_update_subset_insert [of cs ?i c'] by (auto simp: n)
    moreover have "inorder ?n' = upd_entry key v (inorder n)"
      using inorder_at [OF len s(4), of c' leaf, folded s(5,6)] c'(3) cs' uP c_def s(7)
        upd_entry_id [OF not_mem_greater [OF R Suc.prems(3)]] by simp
    ultimately show ?thesis by blast
  qed
qed

section \<open>The tree\<close>

definition bt_inv :: "('k, 'v) btree \<Rightarrow> bool" where
  "bt_inv tree \<longleftrightarrow> 2 \<le> bt_t tree \<and> ok_entries (inorder (bt_root tree))
     \<and> bt_size tree = length (inorder (bt_root tree))
     \<and> (\<exists>h. wf_node (bt_t tree) (if h = 0 then 0 else 1) h (bt_root tree))"

abbreviation bt_entries :: "('k, 'v) btree \<Rightarrow> ('k \<times> 'v) list" where
  "bt_entries tree \<equiv> inorder (bt_root tree)"

lemma bt_invI: "2 \<le> t \<Longrightarrow> ok_entries (inorder r) \<Longrightarrow> wf_node t (if h = 0 then 0 else 1) h r
    \<Longrightarrow> m = length (inorder r) \<Longrightarrow> bt_inv \<lparr>bt_root = r, bt_t = t, bt_size = m\<rparr>"
  unfolding bt_inv_def by (intro conjI exI [of _ h]) simp_all

lemma bt_inv_ok: "bt_inv tree \<Longrightarrow> ok_entries (bt_entries tree)"
  by (simp add: bt_inv_def)

lemma bt_New_inv: "2 \<le> m \<Longrightarrow> \<exists>tree. bt_New m = Some tree \<and> bt_inv tree \<and> bt_entries tree = [] \<and> bt_t tree = m"
  by (auto simp: bt_New_def bt_inv_def intro: exI [of _ 0])

lemma bt_Search_correct: "bt_inv tree \<Longrightarrow> ok key \<Longrightarrow> bt_Search tree key = Some (map_of (bt_entries tree) key)"
  using search_correct by (auto simp: bt_inv_def bt_Search_def)

lemma bt_Insert_correct:
  assumes inv: "bt_inv tree" and ok: "ok key"
  shows "\<exists>tree'. bt_Insert tree key v = Some tree' \<and> bt_inv tree' \<and> bt_t tree' = bt_t tree
    \<and> bt_entries tree' = (if key \<in> fst ` set (bt_entries tree) then upd_entry key v (bt_entries tree)
                          else ins_entry key v (bt_entries tree))"
proof -
  obtain h where h: "wf_node (bt_t tree) (if h = 0 then 0 else 1) h (bt_root tree)" and t: "2 \<le> bt_t tree"
    and oke: "ok_entries (bt_entries tree)" using inv by (auto simp: bt_inv_def)
  show ?thesis
  proof (cases "key \<in> fst ` set (bt_entries tree)")
    case True
    then obtain w where w: "map_of (bt_entries tree) key = Some w"
      by (metis map_of_eq_None_iff not_None_eq)
    obtain r where r: "update (bt_root tree) key v = Some r"
        "wf_node (bt_t tree) (if h = 0 then 0 else 1) h r" "inorder r = upd_entry key v (bt_entries tree)"
      using update_correct [OF h oke ok] by blast
    have "bt_inv \<lparr>bt_root = r, bt_t = bt_t tree, bt_size = bt_size tree\<rparr>"
      by (rule bt_invI [OF t _ r(2)]) (use r(3) oke inv in \<open>auto simp: bt_inv_def\<close>)
    moreover have "bt_Insert tree key v = Some \<lparr>bt_root = r, bt_t = bt_t tree, bt_size = bt_size tree\<rparr>"
      using w bt_Search_correct [OF inv ok] r(1) by (simp add: bt_Insert_def)
    ultimately show ?thesis using True r(3) by simp
  next
    case False
    then have none: "bt_Search tree key = Some None"
      using bt_Search_correct [OF inv ok] by (simp add: map_of_eq_None_iff)
    have "\<exists>rt h'. (if length (node_keys (bt_root tree)) = 2 * bt_t tree - 1
          then splitChild (bt_t tree) (Node [] [] [bt_root tree] False) 0 else Some (bt_root tree)) = Some rt
        \<and> wf_node (bt_t tree) (if h' = 0 then 0 else 1) h' rt \<and> inorder rt = bt_entries tree
        \<and> length (node_keys rt) < 2 * bt_t tree - 1"
    proof (cases "length (node_keys (bt_root tree)) = 2 * bt_t tree - 1")
      case full: True
      obtain l k w r where sp: "split_node (bt_t tree) (bt_root tree) = Some (l, k, w, r)"
        "wf_node (bt_t tree) (bt_t tree - 1) h l" "wf_node (bt_t tree) (bt_t tree - 1) h r"
        "bt_entries tree = inorder l @ (k, w) # inorder r" using split_node_correct [OF h full t] .
      have "splitChild (bt_t tree) (Node [] [] [bt_root tree] False) 0 = Some (Node [k] [w] [l, r] False)"
        using splitChild_at [OF sp(1), of "[]" "[]" "[]" "[]" False] by simp
      then show ?thesis using full sp t
        by (intro exI [of _ "Node [k] [w] [l, r] False"] exI [of _ "Suc h"]) auto
    next
      case False
      then show ?thesis using h wf_node_keys [OF h] by (intro exI [of _ "bt_root tree"] exI [of _ h]) auto
    qed
    then obtain rt h' where rt: "(if length (node_keys (bt_root tree)) = 2 * bt_t tree - 1
          then splitChild (bt_t tree) (Node [] [] [bt_root tree] False) 0 else Some (bt_root tree)) = Some rt"
        "wf_node (bt_t tree) (if h' = 0 then 0 else 1) h' rt" "inorder rt = bt_entries tree"
        "length (node_keys rt) < 2 * bt_t tree - 1" by blast
    obtain n' where n': "insertNonFull (bt_t tree) rt key v = Some n'"
        "wf_node (bt_t tree) (if h' = 0 then 0 else 1) h' n'" "inorder n' = ins_entry key v (bt_entries tree)"
      using insertNonFull_correct [OF rt(2) t rt(4) _ ok] rt(3) oke False by auto
    have "bt_inv \<lparr>bt_root = n', bt_t = bt_t tree, bt_size = bt_size tree + 1\<rparr>"
      by (rule bt_invI [OF t _ n'(2)]) (use n'(3) ok_ins_entry [OF oke ok False] inv in \<open>auto simp: bt_inv_def\<close>)
    moreover have "bt_Insert tree key v = Some \<lparr>bt_root = n', bt_t = bt_t tree, bt_size = bt_size tree + 1\<rparr>"
      using none rt(1) n'(1) by (simp add: bt_Insert_def)
    ultimately show ?thesis using False n'(3) by simp
  qed
qed

lemma bt_Insert_map:
  assumes "bt_inv tree" "ok key"
  obtains tree' where "bt_Insert tree key v = Some tree'" "bt_inv tree'"
    "map_of (bt_entries tree') = (map_of (bt_entries tree))(key \<mapsto> v)"
  using bt_Insert_correct [OF assms, of v] map_of_upd_entry [of key "bt_entries tree" v]
    map_of_ins_entry [of key "bt_entries tree" v] by (metis (full_types))

end

section \<open>Walks\<close>

text \<open>What a walk of a node still has to visit from the child at \<open>i\<close> on.\<close>

definition walk_rest :: "('k, 'v) node \<Rightarrow> nat \<Rightarrow> ('k \<times> 'v) list" where
  "walk_rest n i = interleave (map inorder (drop i (node_children n)))
     (drop i (zip (node_keys n) (node_values n)))"

definition walk_child :: "('k, 'v) node \<Rightarrow> nat \<Rightarrow> ('k \<times> 'v) list" where
  "walk_child n i = (if node_leaf n then [] else inorder (node_children n ! i))"

lemma walk_rest_0: "walk_rest n 0 = inorder n"
  by (cases n) (simp add: walk_rest_def)

lemma walk_rest_step:
  assumes "wf_node t lo h n" "i < length (node_keys n)"
  shows "walk_rest n i = walk_child n i @ (node_keys n ! i, node_values n ! i) # walk_rest n (Suc i)"
    "i < length (node_values n)"
proof -
  obtain ks vs cs leaf where n: "n = Node ks vs cs leaf" by (cases n)
  have len: "length vs = length ks" using assms(1) by (cases h) (auto simp: n)
  then have es: "drop i (zip ks vs) = (ks ! i, vs ! i) # drop (Suc i) (zip ks vs)"
    using assms(2) Cons_nth_drop_Suc [of i "zip ks vs"] by (simp add: n)
  show "walk_rest n i = walk_child n i @ (node_keys n ! i, node_values n ! i) # walk_rest n (Suc i)"
  proof (cases h)
    case 0
    then show ?thesis using assms es by (simp add: n walk_rest_def walk_child_def)
  next
    case (Suc h')
    then have "drop i cs = cs ! i # drop (Suc i) cs" "\<not> leaf"
      using assms Cons_nth_drop_Suc [of i cs] by (auto simp: n)
    then show ?thesis using es by (simp add: n walk_rest_def walk_child_def)
  qed
  show "i < length (node_values n)" using len assms(2) by (simp add: n)
qed

lemma walk_rest_last:
  assumes "wf_node t lo h n" shows "walk_rest n (length (node_keys n)) = walk_child n (length (node_keys n))"
proof -
  obtain ks vs cs leaf where n: "n = Node ks vs cs leaf" by (cases n)
  show ?thesis
  proof (cases h)
    case 0
    then show ?thesis using assms by (simp add: n walk_rest_def walk_child_def)
  next
    case (Suc h')
    then have "drop (length ks) cs = [cs ! length ks]" "\<not> leaf" "length vs = length ks"
      using assms Cons_nth_drop_Suc [of "length ks" cs] by (auto simp: n)
    then show ?thesis by (simp add: n walk_rest_def walk_child_def)
  qed
qed

lemma walk_children:
  assumes "wf_node t lo h n" "\<not> node_leaf n" "i \<le> length (node_keys n)"
  obtains h' where "h = Suc h'" "i < length (node_children n)" "wf_node t (t - 1) h' (node_children n ! i)"
  using assms by (cases h; cases n) auto

text \<open>Each walk appends what it visits to its accumulator.\<close>

lemma collectEntries_correct: "wf_node t lo h n \<Longrightarrow> collectEntries n acc = Some (acc @ inorder n)"
proof (induction h arbitrary: n lo acc rule: less_induct)
  case (less h)
  have child: "ce_child n i acc = Some (acc @ walk_child n i)" if ile: "i \<le> length (node_keys n)" for i acc
  proof (cases "node_leaf n")
    case False
    obtain h' where h': "h = Suc h'" "i < length (node_children n)" "wf_node t (t - 1) h' (node_children n ! i)"
      using walk_children [OF less.prems False ile] .
    then show ?thesis using less.IH [OF _ h'(3), of acc] False
      by (simp add: ce_child.simps walk_child_def index_at_less)
  qed (simp add: ce_child.simps walk_child_def)
  have "i \<le> length (node_keys n) \<Longrightarrow> ce_loop n i acc = Some (acc @ walk_rest n i)" for i acc
  proof (induction "length (node_keys n) - i" arbitrary: i acc)
    case 0
    then show ?case using child walk_rest_last [OF less.prems] by (subst ce_loop.simps) simp
  next
    case (Suc d)
    then have i: "i < length (node_keys n)" by simp
    have "ce_loop n (Suc i) acc' = Some (acc' @ walk_rest n (Suc i))" for acc' using Suc i by simp
    then show ?case using child i walk_rest_step [OF less.prems i]
      by (subst ce_loop.simps) (simp add: index_at_less)
  qed
  then show ?case by (simp add: collectEntries.simps walk_rest_0)
qed

lemma inOrder_correct: "wf_node t lo h n \<Longrightarrow> inOrder n acc = Some (acc @ map snd (inorder n))"
proof (induction h arbitrary: n lo acc rule: less_induct)
  case (less h)
  have child: "io_child n i acc = Some (acc @ map snd (walk_child n i))" if ile: "i \<le> length (node_keys n)" for i acc
  proof (cases "node_leaf n")
    case False
    obtain h' where h': "h = Suc h'" "i < length (node_children n)" "wf_node t (t - 1) h' (node_children n ! i)"
      using walk_children [OF less.prems False ile] .
    then show ?thesis using less.IH [OF _ h'(3), of acc] False
      by (simp add: io_child.simps walk_child_def index_at_less)
  qed (simp add: io_child.simps walk_child_def)
  have "i \<le> length (node_keys n) \<Longrightarrow> io_loop n i acc = Some (acc @ map snd (walk_rest n i))" for i acc
  proof (induction "length (node_keys n) - i" arbitrary: i acc)
    case 0
    then show ?case using child walk_rest_last [OF less.prems] by (subst io_loop.simps) simp
  next
    case (Suc d)
    then have i: "i < length (node_keys n)" by simp
    have "io_loop n (Suc i) acc' = Some (acc' @ map snd (walk_rest n (Suc i)))" for acc' using Suc i by simp
    then show ?case using child i walk_rest_step [OF less.prems i]
      by (subst io_loop.simps) (simp add: index_at_less)
  qed
  then show ?case by (simp add: inOrder.simps walk_rest_0)
qed

context ordered_keys
begin

text \<open>
  Range queries.  The bounds need not be ordered keys: with NaN as a bound no key is outside
  it.  All that is used is that the keys below the lower bound, and those above the upper
  bound, are closed under the key order.
\<close>

definition range_bounds :: "'k \<Rightarrow> 'k \<Rightarrow> bool" where
  "range_bounds mn mx \<longleftrightarrow>
     (\<forall>x y. ok x \<longrightarrow> ok y \<longrightarrow> x < y \<longrightarrow> y < mn \<longrightarrow> x < mn) \<and> (\<forall>x y. ok x \<longrightarrow> ok y \<longrightarrow> x < y \<longrightarrow> mx < x \<longrightarrow> mx < y)"

definition in_range :: "'k \<Rightarrow> 'k \<Rightarrow> 'k \<times> 'v \<Rightarrow> bool" where
  "in_range mn mx e \<longleftrightarrow> \<not> fst e < mn \<and> \<not> mx < fst e"

lemma ok_walk_rest: "wf_node t lo h n \<Longrightarrow> ok_entries (inorder n) \<Longrightarrow> i \<le> length (node_keys n)
    \<Longrightarrow> ok_entries (walk_rest n i)"
proof (induction i)
  case (Suc i)
  then show ?case using walk_rest_step(1) [OF Suc.prems(1), of i] by simp
qed (simp add: walk_rest_0)

lemma rangeQuery_correct:
  "wf_node t lo h n \<Longrightarrow> ok_entries (inorder n) \<Longrightarrow> range_bounds mn mx
    \<Longrightarrow> rangeQuery n mn mx acc = Some (acc @ map snd (filter (in_range mn mx) (inorder n)))"
proof (induction h arbitrary: n lo acc rule: less_induct)
  case (less h)
  let ?k = "node_keys n" and ?out = "\<lambda>es. map snd (filter (in_range mn mx) es)"
  have okr: "ok_entries (walk_rest n i)" if "i \<le> length ?k" for i
    using ok_walk_rest [OF less.prems(1,2) that] .
  have okc: "ok_entries (walk_child n i)" if "i \<le> length ?k" for i
    using okr [OF that] walk_rest_step(1) [OF less.prems(1), of i] walk_rest_last [OF less.prems(1)] that
    by (cases "i = length ?k") auto
  have child: "rq_child n i mn mx acc = Some (acc @ ?out (walk_child n i))" if ile: "i \<le> length ?k" for i acc
  proof (cases "node_leaf n")
    case False
    obtain h' where h': "h = Suc h'" "i < length (node_children n)" "wf_node t (t - 1) h' (node_children n ! i)"
      using walk_children [OF less.prems(1) False ile] .
    then show ?thesis
      using less.IH [OF _ h'(3) _ less.prems(3), of acc] okc [OF ile] False
      by (simp add: rq_child.simps walk_child_def index_at_less)
  qed (simp add: rq_child.simps walk_child_def)
  have keys: "\<forall>e\<in>set (walk_rest n (Suc i)). ok (fst e) \<and> ok (?k ! i) \<and> ?k ! i < fst e" if "i < length ?k" for i
    using okr [of i] walk_rest_step(1) [OF less.prems(1) that] that ok_entries_ok by auto
  have inside: "i \<le> length ?k \<Longrightarrow> (i < length ?k \<Longrightarrow> \<not> ?k ! i < mn)
      \<Longrightarrow> rq_inside n i mn mx acc = Some (acc @ ?out (walk_rest n i))" for i acc
  proof (induction "length ?k - i" arbitrary: i acc)
    case 0
    then show ?case using child walk_rest_last [OF less.prems(1)] by (subst rq_inside.simps) simp
  next
    case (Suc d)
    then have i: "i < length ?k" "\<not> ?k ! i < mn" by simp_all
    note step = walk_rest_step [OF less.prems(1) i(1)]
    show ?case
    proof (cases "mx < ?k ! i")
      case True
      then have "?out (walk_rest n (Suc i)) = []"
        using keys [OF i(1)] less.prems(3) by (auto simp: in_range_def range_bounds_def filter_empty_conv)
      then show ?thesis using True step child i by (subst rq_inside.simps) (simp add: in_range_def)
    next
      case False
      have "\<not> ?k ! Suc i < mn" if s: "Suc i < length ?k"
      proof -
        have "(?k ! Suc i, node_values n ! Suc i) \<in> set (walk_rest n (Suc i))"
          using walk_rest_step(1) [OF less.prems(1) s] by simp
        then show ?thesis using keys [OF i(1)] i(2) less.prems(3) by (fastforce simp: range_bounds_def)
      qed
      then have "rq_inside n (Suc i) mn mx acc' = Some (acc' @ ?out (walk_rest n (Suc i)))" for acc'
        using Suc i by simp
      then show ?thesis using False step child i by (subst rq_inside.simps) (simp add: in_range_def index_at_less)
    qed
  qed
  have "i \<le> length ?k \<Longrightarrow> rq_below n i mn mx acc = Some (acc @ ?out (walk_rest n i))" for i acc
  proof (induction "length ?k - i" arbitrary: i acc)
    case 0
    then show ?case using inside by (subst rq_below.simps) simp
  next
    case (Suc d)
    then have i: "i < length ?k" by simp
    show ?case
    proof (cases "?k ! i < mn")
      case True
      have "rq_below n (Suc i) mn mx acc' = Some (acc' @ ?out (walk_rest n (Suc i)))" for acc'
        using Suc i by simp
      then show ?thesis using True child i walk_rest_step(1) [OF less.prems(1) i]
        by (subst rq_below.simps) (simp add: in_range_def)
    next
      case False
      then show ?thesis using inside i by (subst rq_below.simps) simp
    qed
  qed
  then show ?case by (simp add: rangeQuery.simps walk_rest_0)
qed

lemma bt_RangeQuery_correct: "bt_inv tree \<Longrightarrow> range_bounds mn mx
    \<Longrightarrow> bt_RangeQuery tree mn mx = Some (map snd (filter (in_range mn mx) (bt_entries tree)))"
  using rangeQuery_correct by (fastforce simp: bt_inv_def bt_RangeQuery_def)

lemma bt_InOrder_correct: "bt_inv tree \<Longrightarrow> bt_InOrder tree = Some (map snd (bt_entries tree))"
  using inOrder_correct by (fastforce simp: bt_inv_def bt_InOrder_def)

section \<open>Deletion\<close>

lemma bt_Insert_snoc:
  assumes "bt_inv tree" "ok key" "\<forall>e\<in>set (bt_entries tree). fst e < key"
  obtains tree' where "bt_Insert tree key v = Some tree'" "bt_inv tree'" "bt_t tree' = bt_t tree"
    "bt_entries tree' = bt_entries tree @ [(key, v)]"
proof -
  have "key \<notin> fst ` set (bt_entries tree)" using not_mem_less assms by blast
  then show ?thesis
    using bt_Insert_correct [OF assms(1,2), of v] that ins_entry_pre [OF assms(3), of v "[]"] by auto
qed

lemma reinsert_correct:
  "bt_inv tree \<Longrightarrow> ok_entries (bt_entries tree @ es) \<Longrightarrow> ok key
    \<Longrightarrow> \<exists>tree'. reinsert key tree es = Some tree' \<and> bt_inv tree' \<and> bt_t tree' = bt_t tree
       \<and> bt_entries tree' = bt_entries tree @ filter (\<lambda>e. fst e \<noteq> key) es"
proof (induction es arbitrary: tree)
  case (Cons e es)
  obtain k v where e: "e = (k, v)" by (cases e)
  have k: "ok k" "go_eq k key \<longleftrightarrow> k = key" using Cons.prems go_eq_iff by (auto simp: e)
  show ?case
  proof (cases "k = key")
    case True
    then show ?thesis using Cons k by (simp add: e)
  next
    case False
    obtain tree1 where t: "bt_Insert tree k v = Some tree1" "bt_inv tree1" "bt_t tree1 = bt_t tree"
        "bt_entries tree1 = bt_entries tree @ [(k, v)]"
      using bt_Insert_snoc [OF Cons.prems(1) k(1)] Cons.prems(2) by (auto simp: e)
    then show ?thesis using Cons.IH [OF t(2)] Cons.prems False k by (auto simp: e)
  qed
qed simp

lemma bt_Delete_correct:
  assumes inv: "bt_inv tree" and ok: "ok key"
  shows "\<exists>tree'. bt_Delete tree key = Some (key \<in> fst ` set (bt_entries tree), tree') \<and> bt_inv tree'
    \<and> bt_t tree' = bt_t tree \<and> bt_entries tree' = filter (\<lambda>e. fst e \<noteq> key) (bt_entries tree)"
proof (cases "key \<in> fst ` set (bt_entries tree)")
  case True
  then obtain w where w: "bt_Search tree key = Some (Some w)"
    using bt_Search_correct [OF inv ok] by (metis map_of_eq_None_iff not_None_eq)
  let ?e = "tree\<lparr>bt_root := Node [] [] [] True, bt_size := 0\<rparr>"
  have "bt_inv ?e" using bt_invI [of "bt_t tree" "Node [] [] [] True" 0 0] inv by (simp add: bt_inv_def)
  then obtain tree' where "reinsert key ?e (bt_entries tree) = Some tree'" "bt_inv tree'" "bt_t tree' = bt_t tree"
      "bt_entries tree' = filter (\<lambda>e. fst e \<noteq> key) (bt_entries tree)"
    using reinsert_correct [of ?e "bt_entries tree" key] bt_inv_ok [OF inv] ok by auto
  moreover have "collectEntries (bt_root tree) [] = Some (bt_entries tree)"
    using inv collectEntries_correct by (fastforce simp: bt_inv_def)
  ultimately show ?thesis using w True by (auto simp: bt_Delete_def)
next
  case False
  then have "bt_Search tree key = Some None" using bt_Search_correct [OF inv ok] by (simp add: map_of_eq_None_iff)
  moreover have "filter (\<lambda>e. fst e \<noteq> key) (bt_entries tree) = bt_entries tree"
    using False by (force simp: filter_id_conv)
  ultimately show ?thesis using False inv by (simp add: bt_Delete_def)
qed

end

end
