(* ===== verification/BTree_Map.thy ===== *)
theory BTree_Map
  imports BTree_Correct
begin

text \<open>
  The contract of the price index.  A script of insertions and deletions, run on a tree that
  \<open>New\<close> made, never panics and behaves as the same script run on a map: \<open>Search\<close> is its
  lookup, \<open>Size\<close> its cardinality, \<open>InOrder\<close> its values in key order and \<open>RangeQuery\<close> the values
  of the keys inside the bounds.  The keys are \<open>float64\<close> values other than NaN, as in the
  catalog.
\<close>

datatype ('k, 'v) index_op = OpInsert 'k 'v | OpDelete 'k

fun op_key :: "('k, 'v) index_op \<Rightarrow> 'k" where
  "op_key (OpInsert k v) = k"
| "op_key (OpDelete k) = k"

fun bt_run :: "('k::ord, 'v) index_op list \<Rightarrow> ('k, 'v) btree \<Rightarrow> ('k, 'v) btree option" where
  "bt_run [] tree = Some tree"
| "bt_run (OpInsert k v # ops) tree = Option.bind (bt_Insert tree k v) (bt_run ops)"
| "bt_run (OpDelete k # ops) tree = Option.bind (bt_Delete tree k) (\<lambda>(_, tree'). bt_run ops tree')"

fun map_run :: "('k, 'v) index_op list \<Rightarrow> ('k \<rightharpoonup> 'v) \<Rightarrow> ('k \<rightharpoonup> 'v)" where
  "map_run [] m = m"
| "map_run (OpInsert k v # ops) m = map_run ops (m(k \<mapsto> v))"
| "map_run (OpDelete k # ops) m = map_run ops (m(k := None))"

lemma map_of_filter_ne: "map_of (filter (\<lambda>e. fst e \<noteq> k) es) = (map_of es)(k := None)"
  by (induction es) auto

context ordered_keys
begin

definition bt_map :: "('k, 'v) btree \<Rightarrow> 'k \<rightharpoonup> 'v" where
  "bt_map tree = map_of (bt_entries tree)"

lemma bt_New_map: "2 \<le> m \<Longrightarrow> \<exists>tree. bt_New m = Some tree \<and> bt_inv tree \<and> bt_t tree = m \<and> bt_map tree = Map.empty"
  using bt_New_inv [of m] by (auto simp: bt_map_def)

lemma bt_Search_map: "bt_inv tree \<Longrightarrow> ok key \<Longrightarrow> bt_Search tree key = Some (bt_map tree key)"
  by (simp add: bt_Search_correct bt_map_def)

lemma bt_Insert_mapE:
  assumes "bt_inv tree" "ok key"
  obtains tree' where "bt_Insert tree key v = Some tree'" "bt_inv tree'" "bt_t tree' = bt_t tree"
    "bt_map tree' = (bt_map tree)(key \<mapsto> v)"
  using bt_Insert_correct [OF assms, of v] map_of_upd_entry [of key "bt_entries tree" v]
    map_of_ins_entry [of key "bt_entries tree" v] that unfolding bt_map_def by (metis (full_types))

lemma bt_Delete_mapE:
  assumes "bt_inv tree" "ok key"
  obtains tree' where "bt_Delete tree key = Some (bt_map tree key \<noteq> None, tree')" "bt_inv tree'" "bt_t tree' = bt_t tree"
    "bt_map tree' = (bt_map tree)(key := None)"
  using bt_Delete_correct [OF assms] that by (auto simp: bt_map_def map_of_filter_ne map_of_eq_None_iff)

lemma bt_map_ok: "bt_inv tree \<Longrightarrow> bt_map tree k = Some v \<Longrightarrow> ok k"
  using bt_inv_ok ok_entries_ok by (fastforce simp: bt_map_def dest: map_of_SomeD)

lemma bt_run_map:
  "bt_inv tree \<Longrightarrow> \<forall>p\<in>set ops. ok (op_key p)
    \<Longrightarrow> \<exists>tree'. bt_run ops tree = Some tree' \<and> bt_inv tree' \<and> bt_t tree' = bt_t tree
      \<and> bt_map tree' = map_run ops (bt_map tree)"
proof (induction ops arbitrary: tree)
  case (Cons p ops)
  show ?case
  proof (cases p)
    case (OpInsert k v)
    then obtain tree1 where "bt_Insert tree k v = Some tree1" "bt_inv tree1" "bt_t tree1 = bt_t tree"
        "bt_map tree1 = (bt_map tree)(k \<mapsto> v)"
      using bt_Insert_mapE [OF Cons.prems(1), of k v] Cons.prems(2) by auto
    then show ?thesis using Cons.IH [of tree1] Cons.prems OpInsert by (simp del: fun_upd_apply)
  next
    case (OpDelete k)
    then obtain tree1 where "bt_Delete tree k = Some (bt_map tree k \<noteq> None, tree1)" "bt_inv tree1" "bt_t tree1 = bt_t tree"
        "bt_map tree1 = (bt_map tree)(k := None)"
      using bt_Delete_mapE [OF Cons.prems(1), of k] Cons.prems(2) by auto
    then show ?thesis using Cons.IH [of tree1] Cons.prems OpDelete by (simp del: fun_upd_apply)
  qed
qed simp

lemma bt_run_New:
  assumes "2 \<le> m" "\<forall>p\<in>set ops. ok (op_key p)"
  obtains tree where "Option.bind (bt_New m) (bt_run ops) = Some tree" "bt_inv tree" "bt_t tree = m"
    "bt_map tree = map_run ops Map.empty"
  using bt_New_map [OF assms(1)] bt_run_map [OF _ assms(2)] by fastforce

lemma distinct_keys: "ok_entries es \<Longrightarrow> distinct (map fst es)"
proof (induction es)
  case (Cons e es)
  then have "ok (fst e)" "\<forall>y\<in>set es. fst e < fst y" "ok_entries es"
    by (auto simp: ok_entries_def sorted_e_def)
  moreover from this have "fst e \<notin> fst ` set es" using less_irrefl [of "fst e"] by fastforce
  ultimately show ?case using Cons.IH by simp
qed simp

lemma bt_Size_map: assumes "bt_inv tree" shows "bt_Size tree = card (dom (bt_map tree))"
proof -
  have "card (set (map fst (bt_entries tree))) = length (bt_entries tree)"
    using distinct_card [OF distinct_keys [OF bt_inv_ok [OF assms]]] by simp
  then show ?thesis using assms unfolding bt_Size_def bt_map_def dom_map_of_conv_image_fst bt_inv_def by simp
qed

text \<open>The keys of a walk, in order, and the values it visits.\<close>

lemma sorted_filter_keys: "ok_entries es \<Longrightarrow> sorted_wrt (<) (map fst (filter P es))"
  by (simp add: ok_entries_def sorted_e_def sorted_wrt_map sorted_wrt_filter_mono)

lemma map_of_filter_values:
  assumes "ok_entries es" shows "map snd (filter P es) = map (the \<circ> map_of es) (map fst (filter P es))"
proof -
  have "the (map_of es (fst e)) = snd e" if "e \<in> set es" for e
    using map_of_is_SomeI [OF distinct_keys [OF assms], of "fst e" "snd e"] that by simp
  then show ?thesis by simp
qed

lemma bt_RangeQuery_map:
  assumes inv: "bt_inv tree" and b: "range_bounds mn mx"
  obtains ks where "sorted_wrt (<) ks" "set ks = {k \<in> dom (bt_map tree). \<not> k < mn \<and> \<not> mx < k}"
    "bt_RangeQuery tree mn mx = Some (map (the \<circ> bt_map tree) ks)"
proof -
  let ?es = "bt_entries tree"
  have ok: "ok_entries ?es" using bt_inv_ok [OF inv] .
  show ?thesis
  proof (rule that)
    show "sorted_wrt (<) (map fst (filter (in_range mn mx) ?es))" using sorted_filter_keys [OF ok] .
    show "set (map fst (filter (in_range mn mx) ?es)) = {k \<in> dom (bt_map tree). \<not> k < mn \<and> \<not> mx < k}"
      by (force simp: bt_map_def dom_map_of_conv_image_fst in_range_def)
    show "bt_RangeQuery tree mn mx = Some (map (the \<circ> bt_map tree) (map fst (filter (in_range mn mx) ?es)))"
      unfolding bt_map_def bt_RangeQuery_correct [OF inv b] map_of_filter_values [OF ok] ..
  qed
qed

lemma bt_InOrder_map:
  assumes inv: "bt_inv tree"
  obtains ks where "sorted_wrt (<) ks" "set ks = dom (bt_map tree)"
    "bt_InOrder tree = Some (map (the \<circ> bt_map tree) ks)"
proof -
  have ok: "ok_entries (bt_entries tree)" using bt_inv_ok [OF inv] .
  show ?thesis
    using that [of "map fst (bt_entries tree)"] sorted_filter_keys [OF ok, of "\<lambda>_. True"]
      map_of_filter_values [OF ok, of "\<lambda>_. True"] bt_InOrder_correct [OF inv]
    by (simp add: bt_map_def dom_map_of_conv_image_fst)
qed

end

section \<open>Balance\<close>

lemma length_interleave:
  "length cs = Suc (length es) \<Longrightarrow> Suc (length (interleave cs es)) = (\<Sum>c\<leftarrow>cs. Suc (length c))"
proof (induction cs es rule: interleave.induct)
  case (1 c cs e es)
  then show ?case by (cases cs) auto
qed auto

lemma sum_list_lower: "\<forall>x\<in>set xs. b \<le> f x \<Longrightarrow> length xs * b \<le> (\<Sum>x\<leftarrow>xs. f x :: nat)"
  by (induction xs) auto

lemma wf_node_children_size:
  assumes "wf_node t lo (Suc h) n" "\<forall>c\<in>set (node_children n). b \<le> Suc (length (inorder c))"
  shows "Suc lo * b \<le> Suc (length (inorder n))"
proof -
  obtain ks vs cs leaf where n: "n = Node ks vs cs leaf" by (cases n)
  have len: "length (map inorder cs) = Suc (length (zip ks vs))" using assms(1) by (simp add: n)
  have "Suc lo * b \<le> length cs * b" using assms(1) by (intro mult_right_mono) (simp_all add: n)
  also have "\<dots> \<le> (\<Sum>c\<leftarrow>cs. Suc (length (inorder c)))" using assms(2) by (intro sum_list_lower) (simp add: n)
  finally show ?thesis using length_interleave [OF len] by (simp add: n comp_def)
qed

lemma wf_node_size: "wf_node t (t - 1) h n \<Longrightarrow> 2 \<le> t \<Longrightarrow> t ^ Suc h \<le> Suc (length (inorder n))"
proof (induction h arbitrary: n)
  case 0
  then show ?case by (cases n) auto
next
  case (Suc h)
  have "\<forall>c\<in>set (node_children n). t ^ Suc h \<le> Suc (length (inorder c))"
    using Suc by (cases n) auto
  then show ?case using wf_node_children_size [OF Suc.prems(1)] Suc.prems(2) by fastforce
qed

lemma wf_root_size:
  assumes "wf_node t 1 (Suc h) n" "2 \<le> t" shows "2 * t ^ Suc h \<le> Suc (length (inorder n))"
proof -
  have "\<forall>c\<in>set (node_children n). t ^ Suc h \<le> Suc (length (inorder c))"
    using assms wf_node_size by (cases n) auto
  then show ?thesis using wf_node_children_size [OF assms(1)] by fastforce
qed

section \<open>The price index\<close>

lemma f64_range_bounds: "f64_keys.range_bounds mn mx"
  unfolding f64_keys.range_bounds_def using f64_lt.lt_trans
  by (metis less_f64_simps(1,2))

section \<open>Properties\<close>

text \<open>
  C3. A B-tree made by \<open>New\<close> is a map: after any script of insertions and deletions with
  keys other than NaN, none of which panics, \<open>Search\<close> returns for each such key what the map
  has for it, and \<open>Size\<close> is the number of keys.
\<close>

theorem btree_implements_map:
  assumes "2 \<le> m" "\<forall>p\<in>set ops. op_key p \<noteq> NaN" "key \<noteq> NaN"
  shows "\<exists>tree. Option.bind (bt_New m) (bt_run ops) = Some tree
    \<and> bt_Search tree key = Some (map_run ops Map.empty key)
    \<and> bt_Size tree = card (dom (map_run ops Map.empty))"
proof -
  obtain tree where t: "Option.bind (bt_New m) (bt_run ops) = Some tree" "f64_keys.bt_inv tree"
      "f64_keys.bt_map tree = map_run ops Map.empty"
    using f64_keys.bt_run_New [OF assms(1,2)] .
  then show ?thesis
    using f64_keys.bt_Search_map [OF t(2) assms(3)] f64_keys.bt_Size_map [OF t(2)] by simp
qed

theorem btree_implements_map_witness:
  "\<exists>tree. Option.bind (bt_New 2) (bt_run [OpInsert (Fin 1) ''a'', OpInsert (Fin 2) ''b'', OpDelete (Fin 1)]) = Some tree
    \<and> bt_Search tree (Fin 1) = Some None \<and> bt_Size tree = 1"
proof -
  let ?ops = "[OpInsert (Fin 1) ''a'', OpInsert (Fin 2) ''b'', OpDelete (Fin 1)]"
  have m: "map_run ?ops Map.empty = [Fin 2 \<mapsto> ''b'']" by (simp add: fun_eq_iff)
  show ?thesis using btree_implements_map [of 2 ?ops "Fin 1"] unfolding m by simp
qed

text \<open>
  C29. \<open>RangeQuery\<close> returns exactly the values of the keys that are neither below the lower
  nor above the upper bound, in increasing key order, whatever the bounds are (NaN excludes
  nothing, as in the code); \<open>InOrder\<close> returns all the values in increasing key order.
\<close>

theorem btree_range_query:
  assumes "2 \<le> m" "\<forall>p\<in>set ops. op_key p \<noteq> NaN"
  shows "\<exists>tree ks all. Option.bind (bt_New m) (bt_run ops) = Some tree
    \<and> sorted_wrt (<) ks \<and> set ks = {k \<in> dom (map_run ops Map.empty). \<not> k < mn \<and> \<not> mx < k}
    \<and> bt_RangeQuery tree mn mx = Some (map (the \<circ> map_run ops Map.empty) ks)
    \<and> sorted_wrt (<) all \<and> set all = dom (map_run ops Map.empty)
    \<and> bt_InOrder tree = Some (map (the \<circ> map_run ops Map.empty) all)"
proof -
  obtain tree where t: "Option.bind (bt_New m) (bt_run ops) = Some tree" "f64_keys.bt_inv tree"
      "f64_keys.bt_map tree = map_run ops Map.empty"
    using f64_keys.bt_run_New [OF assms] .
  obtain ks where "sorted_wrt (<) ks" "set ks = {k \<in> dom (map_run ops Map.empty). \<not> k < mn \<and> \<not> mx < k}"
      "bt_RangeQuery tree mn mx = Some (map (the \<circ> map_run ops Map.empty) ks)"
    using f64_keys.bt_RangeQuery_map [OF t(2) f64_range_bounds [of mn mx]] unfolding t(3) .
  moreover obtain all where "sorted_wrt (<) all" "set all = dom (map_run ops Map.empty)"
      "bt_InOrder tree = Some (map (the \<circ> map_run ops Map.empty) all)"
    using f64_keys.bt_InOrder_map [OF t(2)] unfolding t(3) .
  ultimately show ?thesis using t(1) by (intro exI conjI)
qed

theorem btree_range_query_witness:
  "\<exists>tree ks all. Option.bind (bt_New 2) (bt_run [OpInsert (Fin 3) ''c'', OpInsert (Fin 1) ''a'']) = Some tree
    \<and> sorted_wrt (<) ks \<and> set ks = {Fin 3}
    \<and> bt_RangeQuery tree (Fin 2) PosInf = Some (map (the \<circ> [Fin 3 \<mapsto> ''c'', Fin 1 \<mapsto> ''a'']) ks)
    \<and> sorted_wrt (<) all \<and> set all = {Fin 1, Fin 3}
    \<and> bt_InOrder tree = Some (map (the \<circ> [Fin 3 \<mapsto> ''c'', Fin 1 \<mapsto> ''a'']) all)"
proof -
  let ?ops = "[OpInsert (Fin 3) ''c'', OpInsert (Fin 1) ''a'']"
  have m: "map_run ?ops Map.empty = [Fin 3 \<mapsto> ''c'', Fin 1 \<mapsto> ''a'']" by simp
  have d: "dom [Fin 3 \<mapsto> ''c'', Fin 1 \<mapsto> ''a''] = {Fin 1, Fin 3}" by simp
  have r: "{k \<in> {Fin 1, Fin 3}. \<not> k < Fin 2 \<and> \<not> PosInf < k} = {Fin 3}" by auto
  show ?thesis by (rule btree_range_query [of 2 ?ops "Fin 2" PosInf, unfolded m d r]) simp_all
qed

text \<open>
  C36. The tree stays balanced: after any such script the root has a height \<open>h\<close> at which all
  leaves stand, every node other than the root has at least \<open>m - 1\<close> and at most \<open>2 m - 1\<close> keys
  (\<open>wf_node\<close>), and a tree of height \<open>h > 0\<close> holds at least \<open>2 m ^ h - 1\<close> keys, so the height
  is logarithmic in \<open>Size\<close>.
\<close>

theorem btree_balanced:
  assumes "2 \<le> m" "\<forall>p\<in>set ops. op_key p \<noteq> NaN"
  shows "\<exists>tree h. Option.bind (bt_New m) (bt_run ops) = Some tree
    \<and> wf_node m (if h = 0 then 0 else 1) h (bt_root tree)
    \<and> (h = 0 \<or> 2 * m ^ h \<le> bt_Size tree + 1)"
proof -
  obtain tree where t: "Option.bind (bt_New m) (bt_run ops) = Some tree" "f64_keys.bt_inv tree" "bt_t tree = m"
    using f64_keys.bt_run_New [OF assms] .
  then obtain h where h: "wf_node m (if h = 0 then 0 else 1) h (bt_root tree)"
    and size: "bt_Size tree = length (inorder (bt_root tree))"
    by (auto simp: f64_keys.bt_inv_def bt_Size_def)
  have "h = 0 \<or> 2 * m ^ h \<le> bt_Size tree + 1"
    using wf_root_size [of m "h - 1" "bt_root tree"] h assms(1) by (cases h) (simp_all add: size)
  then show ?thesis using t(1) h by (intro exI conjI)
qed

theorem btree_balanced_witness:
  "\<exists>tree h. Option.bind (bt_New 2) (bt_run [OpInsert (Fin 1) (), OpInsert (Fin 2) (), OpInsert (Fin 3) (), OpInsert (Fin 4) ()]) = Some tree
    \<and> wf_node 2 (if h = 0 then 0 else 1) h (bt_root tree) \<and> (h = 0 \<or> 2 * 2 ^ h \<le> bt_Size tree + 1)"
  by (rule btree_balanced) simp_all

end
