(* ===== verification/Catalog_Store.thy ===== *)
theory Catalog_Store
  imports BTree_Map "HOL-Library.List_Lexorder" "HOL-Library.Char_ord"
begin

text \<open>
  The product store of the catalog (\<open>12-day/catalog/internal/store/store.go\<close>): a map by id
  and the B-tree of price groups.  The code stores pointers to copies that are never written
  again, so products are values here.  A result \<open>None\<close> is a run-time panic (an index or slice
  out of range); the code's own errors are values.

  The store's contract is the map by id alone: every operation returns what the map says, the
  price index always groups exactly the stored products, and a \<open>List\<close> through the index
  returns the same products as a scan of the map.
\<close>

section \<open>Model\<close>

record product =
  p_ID :: string
  p_Name :: string
  p_Category :: string
  p_Price :: f64
  p_Rating :: f64
  p_Stock :: int
  p_Tags :: "string list"
  p_CreatedAt :: gotime

datatype store_error = ErrNotFound | ErrDuplicate | ErrNilProduct

record list_query =
  q_MinPrice :: "f64 option"
  q_MaxPrice :: "f64 option"
  q_Category :: string
  q_Sort :: string
  q_Order :: string
  q_Page :: int
  q_Size :: int

record stats =
  s_TotalProducts :: int
  s_CategoryCounts :: "string \<rightharpoonup> int"
  s_PriceMin :: f64
  s_PriceMax :: f64
  s_AvgRating :: f64

record catalog =
  byID :: "string \<rightharpoonup> product"
  byPrice :: "(f64, product list) btree"

definition store_New :: "catalog option" where
  "store_New = map_option (\<lambda>t. \<lparr>byID = Map.empty, byPrice = t\<rparr>) (bt_New 32)"

definition addToPriceIndex :: "product \<Rightarrow> catalog \<Rightarrow> catalog option" where
  "addToPriceIndex p st =
     (case bt_Search (byPrice st) (p_Price p) of
        None \<Rightarrow> None
      | Some None \<Rightarrow> map_option (\<lambda>t. st\<lparr>byPrice := t\<rparr>) (bt_Insert (byPrice st) (p_Price p) [p])
      | Some (Some grp) \<Rightarrow>
          map_option (\<lambda>t. st\<lparr>byPrice := t\<rparr>) (bt_Insert (byPrice st) (p_Price p) (grp @ [p])))"

definition removeFromPriceIndex :: "product \<Rightarrow> catalog \<Rightarrow> catalog option" where
  "removeFromPriceIndex p st =
     (case bt_Search (byPrice st) (p_Price p) of
        None \<Rightarrow> None
      | Some None \<Rightarrow> Some st
      | Some (Some grp) \<Rightarrow>
          (let nextGroup = filter (\<lambda>item. p_ID item \<noteq> p_ID p) grp
           in if nextGroup = []
              then map_option (\<lambda>(_, t). st\<lparr>byPrice := t\<rparr>) (bt_Delete (byPrice st) (p_Price p))
              else map_option (\<lambda>t. st\<lparr>byPrice := t\<rparr>) (bt_Insert (byPrice st) (p_Price p) nextGroup)))"

text \<open>A \<open>nil\<close> product pointer is \<open>None\<close>.\<close>

definition store_Create :: "product option \<Rightarrow> catalog \<Rightarrow> (store_error option \<times> catalog) option" where
  "store_Create pp st =
     (case pp of
        None \<Rightarrow> Some (Some ErrNilProduct, st)
      | Some p \<Rightarrow>
          (case byID st (p_ID p) of
             Some _ \<Rightarrow> Some (Some ErrDuplicate, st)
           | None \<Rightarrow>
               map_option (Pair None) (addToPriceIndex p (st\<lparr>byID := (byID st)(p_ID p \<mapsto> p)\<rparr>))))"

definition store_Get :: "string \<Rightarrow> catalog \<Rightarrow> store_error + product" where
  "store_Get i st = (case byID st i of None \<Rightarrow> Inl ErrNotFound | Some p \<Rightarrow> Inr p)"

definition store_Update ::
  "string \<Rightarrow> product option \<Rightarrow> catalog \<Rightarrow> (store_error option \<times> catalog) option" where
  "store_Update i pp st =
     (case pp of
        None \<Rightarrow> Some (Some ErrNilProduct, st)
      | Some p \<Rightarrow>
          (case byID st i of
             None \<Rightarrow> Some (Some ErrNotFound, st)
           | Some existing \<Rightarrow>
               (case removeFromPriceIndex existing st of
                  None \<Rightarrow> None
                | Some st1 \<Rightarrow>
                    (let p' = p\<lparr>p_ID := i\<rparr>
                     in map_option (Pair None)
                          (addToPriceIndex p' (st1\<lparr>byID := (byID st1)(i \<mapsto> p')\<rparr>))))))"

definition store_Delete :: "string \<Rightarrow> catalog \<Rightarrow> (store_error option \<times> catalog) option" where
  "store_Delete i st =
     (case byID st i of
        None \<Rightarrow> Some (Some ErrNotFound, st)
      | Some p \<Rightarrow>
          map_option (\<lambda>st1. (None, st1\<lparr>byID := (byID st1)(i := None)\<rparr>)) (removeFromPriceIndex p st))"

text \<open>Listing.  \<open>ks\<close> is the order in which the \<open>range\<close> over \<open>byID\<close> visits the ids.\<close>

definition getCandidatesFromPriceIndex :: "list_query \<Rightarrow> catalog \<Rightarrow> product list option" where
  "getCandidatesFromPriceIndex q st =
     (let minPrice = (case q_MinPrice q of None \<Rightarrow> 0 | Some v \<Rightarrow> v);
          maxPrice = (case q_MaxPrice q of None \<Rightarrow> Fin (10 ^ 18) | Some v \<Rightarrow> v)
      in map_option concat (bt_RangeQuery (byPrice st) minPrice maxPrice))"

definition getCandidatesFromMap :: "string list \<Rightarrow> catalog \<Rightarrow> product list" where
  "getCandidatesFromMap ks st = range_values ks (byID st)"

definition getListCandidates :: "string list \<Rightarrow> list_query \<Rightarrow> catalog \<Rightarrow> product list option" where
  "getListCandidates ks q st =
     (if q_MinPrice q \<noteq> None \<or> q_MaxPrice q \<noteq> None
      then getCandidatesFromPriceIndex q st
      else Some (getCandidatesFromMap ks st))"

definition filterProducts :: "product list \<Rightarrow> list_query \<Rightarrow> product list" where
  "filterProducts ps q = filter (\<lambda>p. \<not> (q_Category q \<noteq> '''' \<and> p_Category p \<noteq> q_Category q)) ps"

definition product_less :: "string \<Rightarrow> string \<Rightarrow> product \<Rightarrow> product \<Rightarrow> bool" where
  "product_less sortBy order a b =
     (let (x, y) = (if order = ''desc'' then (b, a) else (a, b))
      in if sortBy = ''price'' then p_Price x < p_Price y
         else if sortBy = ''rating'' then p_Rating x < p_Rating y
         else if sortBy = ''name'' then p_Name x < p_Name y
         else if sortBy = ''created_at'' then p_CreatedAt x < p_CreatedAt y
         else p_Price x < p_Price y)"

definition sortProducts :: "product list \<Rightarrow> string \<Rightarrow> string \<Rightarrow> product list" where
  "sortProducts ps sortBy order =
     sort_slice (product_less (if sortBy = '''' then ''price'' else sortBy) order) ps"

text \<open>A slice expression \<open>xs[lo:hi]\<close> on a slice whose capacity is at least its length.\<close>

definition go_slice :: "'a list \<Rightarrow> int \<Rightarrow> int \<Rightarrow> 'a list option" where
  "go_slice xs lo hi =
     (if 0 \<le> lo \<and> lo \<le> hi \<and> hi \<le> int (length xs)
      then Some (take (nat (hi - lo)) (drop (nat lo) xs)) else None)"

definition paginateProducts :: "'a list \<Rightarrow> int \<Rightarrow> int \<Rightarrow> 'a list option" where
  "paginateProducts ps pg sz =
     (let pg = (if pg \<le> 0 then 1 else pg);
          sz = (if sz \<le> 0 then 20 else sz);
          offset = wrap64 (wrap64 (pg - 1) * sz)
      in if offset \<ge> int (length ps) then Some []
         else (let end1 = wrap64 (offset + sz);
                   end2 = (if end1 > int (length ps) then int (length ps) else end1)
               in go_slice ps offset end2))"

definition store_List :: "string list \<Rightarrow> list_query \<Rightarrow> catalog \<Rightarrow> product list option" where
  "store_List ks q st =
     (case getListCandidates ks q st of
        None \<Rightarrow> None
      | Some candidates \<Rightarrow>
          paginateProducts (sortProducts (filterProducts candidates q) (q_Sort q) (q_Order q))
            (q_Page q) (q_Size q))"

text \<open>\<open>Stats\<close>: the loop's state is the statistics, the sum of ratings and \<open>firstProduct\<close>.\<close>

definition count_category :: "string \<Rightarrow> (string \<rightharpoonup> int) \<Rightarrow> (string \<rightharpoonup> int)" where
  "count_category c m = m(c \<mapsto> (case m c of None \<Rightarrow> 0 | Some n \<Rightarrow> n) + 1)"

definition stats_step :: "product \<Rightarrow> stats \<times> f64 \<times> bool \<Rightarrow> stats \<times> f64 \<times> bool" where
  "stats_step p = (\<lambda>(s, totalRating, firstProduct).
     (let s1 = s\<lparr>s_CategoryCounts := count_category (p_Category p) (s_CategoryCounts s)\<rparr>;
          total = totalRating + p_Rating p
      in if firstProduct then (s1\<lparr>s_PriceMin := p_Price p, s_PriceMax := p_Price p\<rparr>, total, False)
         else (let s2 = (if p_Price p < s_PriceMin s1 then s1\<lparr>s_PriceMin := p_Price p\<rparr> else s1);
                   s3 = (if s_PriceMax s2 < p_Price p then s2\<lparr>s_PriceMax := p_Price p\<rparr> else s2)
               in (s3, total, False))))"

definition store_Stats :: "string list \<Rightarrow> catalog \<Rightarrow> stats" where
  "store_Stats ks st =
     (let n = int (length ks);
          s0 = \<lparr>s_TotalProducts = n, s_CategoryCounts = Map.empty, s_PriceMin = 0, s_PriceMax = 0, s_AvgRating = 0\<rparr>
      in if n = 0 then s0
         else (let (s, total, _) = fold stats_step (range_values ks (byID st)) (s0, 0, True)
               in s\<lparr>s_AvgRating := total / f64_of_int n\<rparr>))"

section \<open>The price index groups the stored products\<close>

definition group_ok :: "(string \<rightharpoonup> product) \<Rightarrow> f64 \<Rightarrow> product list option \<Rightarrow> bool" where
  "group_ok m p g \<longleftrightarrow>
     (case g of
        None \<Rightarrow> \<forall>x\<in>ran m. p_Price x \<noteq> p
      | Some xs \<Rightarrow> xs \<noteq> [] \<and> distinct (map p_ID xs) \<and> set xs = {x \<in> ran m. p_Price x = p})"

definition ids_ok :: "(string \<rightharpoonup> product) \<Rightarrow> bool" where
  "ids_ok m \<longleftrightarrow> finite (dom m) \<and> (\<forall>i x. m i = Some x \<longrightarrow> p_ID x = i \<and> p_Price x \<noteq> NaN)"

definition index_ok :: "(string \<rightharpoonup> product) \<Rightarrow> (f64, product list) btree \<Rightarrow> bool" where
  "index_ok m t \<longleftrightarrow> f64_keys.bt_inv t \<and> (\<forall>p. p \<noteq> NaN \<longrightarrow> group_ok m p (f64_keys.bt_map t p))"

definition store_inv :: "catalog \<Rightarrow> bool" where
  "store_inv st \<longleftrightarrow> ids_ok (byID st) \<and> index_ok (byID st) (byPrice st)"

lemma store_invI [inv_intros]: "ids_ok (byID st) \<Longrightarrow> index_ok (byID st) (byPrice st) \<Longrightarrow> store_inv st"
  by (simp add: store_inv_def)

lemma ids_ok_upd: "ids_ok m \<Longrightarrow> p_Price x \<noteq> NaN \<Longrightarrow> ids_ok (m(p_ID x \<mapsto> x))"
  by (auto simp: ids_ok_def)

lemma ids_ok_del: "ids_ok m \<Longrightarrow> ids_ok (m(i := None))"
  by (auto simp: ids_ok_def)

lemma ran_del: "ids_ok m \<Longrightarrow> ran (m(i := None)) = {x \<in> ran m. p_ID x \<noteq> i}"
  by (auto simp: ids_ok_def ran_def)

lemma ran_ids: "ids_ok m \<Longrightarrow> x \<in> ran m \<longleftrightarrow> m (p_ID x) = Some x"
  by (auto simp: ids_ok_def ran_def)

lemma ids_ok_ran: "ids_ok m \<Longrightarrow> x \<in> ran m \<Longrightarrow> p_Price x \<noteq> NaN"
  by (auto simp: ids_ok_def ran_def)

lemma addToPriceIndex_ok:
  assumes ix: "index_ok m (byPrice st)" and ids: "ids_ok m" and new: "m (p_ID x) = None"
    and price: "p_Price x \<noteq> NaN"
  obtains t where "addToPriceIndex x st = Some (st\<lparr>byPrice := t\<rparr>)" "index_ok (m(p_ID x \<mapsto> x)) t"
proof -
  let ?p = "p_Price x" and ?M = "f64_keys.bt_map (byPrice st)"
  let ?g = "case ?M ?p of None \<Rightarrow> [x] | Some g \<Rightarrow> g @ [x]"
  have inv: "f64_keys.bt_inv (byPrice st)" and grp: "p \<noteq> NaN \<Longrightarrow> group_ok m p (?M p)" for p
    using ix by (auto simp: index_ok_def)
  obtain t where t: "bt_Insert (byPrice st) ?p ?g = Some t" "f64_keys.bt_inv t"
      "f64_keys.bt_map t = ?M(?p \<mapsto> ?g)"
    using f64_keys.bt_Insert_mapE [OF inv price] .
  have notin: "\<forall>x'\<in>ran m. p_ID x' \<noteq> p_ID x" using new ran_ids [OF ids] by fastforce
  have "group_ok (m(p_ID x \<mapsto> x)) p (f64_keys.bt_map t p)" if p: "p \<noteq> NaN" for p
    using grp [OF p] notin new by (auto simp: t(3) group_ok_def split: option.splits)
  then have "index_ok (m(p_ID x \<mapsto> x)) t" using t(2) by (simp add: index_ok_def)
  moreover have "addToPriceIndex x st = Some (st\<lparr>byPrice := t\<rparr>)"
    using t(1) f64_keys.bt_Search_map [OF inv price] by (simp add: addToPriceIndex_def split: option.splits)
  ultimately show ?thesis using that by blast
qed

lemma removeFromPriceIndex_ok:
  assumes ix: "index_ok m (byPrice st)" and ids: "ids_ok m" and old: "m (p_ID x) = Some x"
  obtains t where "removeFromPriceIndex x st = Some (st\<lparr>byPrice := t\<rparr>)" "index_ok (m(p_ID x := None)) t"
proof -
  let ?p = "p_Price x" and ?M = "f64_keys.bt_map (byPrice st)"
  have price: "?p \<noteq> NaN" and x: "x \<in> ran m" using ids old by (auto simp: ids_ok_def ran_def)
  have inv: "f64_keys.bt_inv (byPrice st)" and grp: "p \<noteq> NaN \<Longrightarrow> group_ok m p (?M p)" for p
    using ix by (auto simp: index_ok_def)
  obtain g where g: "?M ?p = Some g" "distinct (map p_ID g)" "set g = {y \<in> ran m. p_Price y = ?p}"
    using grp [OF price] x by (auto simp: group_ok_def split: option.splits)
  let ?g = "filter (\<lambda>item. p_ID item \<noteq> p_ID x) g"
  have set: "set ?g = {y \<in> ran (m(p_ID x := None)). p_Price y = ?p}"
    unfolding ran_del [OF ids] set_filter g(3) by (intro set_eqI iffI) simp_all
  have dist: "distinct (map p_ID ?g)" using g(2) by (rule distinct_map_filter)
  have other: "group_ok (m(p_ID x := None)) p (?M p)" if "p \<noteq> NaN" "p \<noteq> ?p" for p
  proof -
    have "p_ID y \<noteq> p_ID x" if y: "y \<in> ran m" "p_Price y = p" for y
    proof
      assume id: "p_ID y = p_ID x"
      have "m (p_ID y) = Some y" using y(1) ran_ids [OF ids] by blast
      then have "y = x" unfolding id old by (rule option.inject [THEN iffD1, symmetric])
      then show False using y(2) \<open>p \<noteq> ?p\<close> by simp
    qed
    then show ?thesis using grp [OF that(1)]
      unfolding group_ok_def ran_del [OF ids] by (cases "?M p") auto
  qed
  show ?thesis
  proof (cases "?g = []")
    case True
    obtain t where t: "bt_Delete (byPrice st) ?p = Some (?M ?p \<noteq> None, t)" "f64_keys.bt_inv t"
        "f64_keys.bt_map t = ?M(?p := None)"
      using f64_keys.bt_Delete_mapE [OF inv price] .
    have "index_ok (m(p_ID x := None)) t"
      using t(2,3) other set True unfolding index_ok_def by (auto simp: group_ok_def)
    moreover have "removeFromPriceIndex x st = Some (st\<lparr>byPrice := t\<rparr>)"
      using True g(1) t(1) f64_keys.bt_Search_map [OF inv price] by (simp add: removeFromPriceIndex_def Let_def)
    ultimately show ?thesis using that by blast
  next
    case False
    obtain t where t: "bt_Insert (byPrice st) ?p ?g = Some t" "f64_keys.bt_inv t"
        "f64_keys.bt_map t = ?M(?p \<mapsto> ?g)"
      using f64_keys.bt_Insert_mapE [OF inv price] .
    have "group_ok (m(p_ID x := None)) ?p (Some ?g)"
      unfolding group_ok_def option.case using set dist False by blast
    then have "index_ok (m(p_ID x := None)) t" using t(2,3) other unfolding index_ok_def by simp
    moreover have "removeFromPriceIndex x st = Some (st\<lparr>byPrice := t\<rparr>)"
      using False g(1) t(1) f64_keys.bt_Search_map [OF inv price] by (simp add: removeFromPriceIndex_def Let_def)
    ultimately show ?thesis using that by blast
  qed
qed

section \<open>The store refines a map by id\<close>

lemma store_New_correct: "\<exists>st. store_New = Some st \<and> store_inv st \<and> byID st = Map.empty"
  using f64_keys.bt_New_map [of 32]
  by (auto simp: store_New_def store_inv_def ids_ok_def index_ok_def group_ok_def)

lemma store_Create_correct:
  assumes inv: "store_inv st" and p: "byID st (p_ID p) = None" "p_Price p \<noteq> NaN"
  obtains st' where "store_Create (Some p) st = Some (None, st')" "store_inv st'"
    "byID st' = (byID st)(p_ID p \<mapsto> p)"
proof -
  let ?st = "st\<lparr>byID := (byID st)(p_ID p \<mapsto> p)\<rparr>"
  have ok: "ids_ok (byID st)" "index_ok (byID st) (byPrice ?st)" using inv by (simp_all add: store_inv_def)
  obtain t where "addToPriceIndex p ?st = Some (?st\<lparr>byPrice := t\<rparr>)" "index_ok ((byID st)(p_ID p \<mapsto> p)) t"
    using addToPriceIndex_ok [OF ok(2,1) p] .
  then show ?thesis using that [of "?st\<lparr>byPrice := t\<rparr>"] p ids_ok_upd [OF ok(1) p(2)]
    by (simp add: store_Create_def store_inv_def del: fun_upd_apply)
qed

lemma store_Delete_correct:
  assumes inv: "store_inv st" and p: "byID st i = Some p"
  obtains st' where "store_Delete i st = Some (None, st')" "store_inv st'" "byID st' = (byID st)(i := None)"
proof -
  have ok: "ids_ok (byID st)" "index_ok (byID st) (byPrice st)" and i: "p_ID p = i"
    using inv p by (auto simp: store_inv_def ids_ok_def)
  obtain t where "removeFromPriceIndex p st = Some (st\<lparr>byPrice := t\<rparr>)" "index_ok ((byID st)(i := None)) t"
    using removeFromPriceIndex_ok [OF ok(2,1), of p] p i by auto
  then show ?thesis using that [of "st\<lparr>byPrice := t, byID := (byID st)(i := None)\<rparr>"] p ids_ok_del [OF ok(1)]
    by (simp add: store_Delete_def store_inv_def del: fun_upd_apply)
qed

lemma store_Update_correct:
  assumes inv: "store_inv st" and old: "byID st i = Some old" and price: "p_Price p \<noteq> NaN"
  obtains st' where "store_Update i (Some p) st = Some (None, st')" "store_inv st'"
    "byID st' = (byID st)(i \<mapsto> p\<lparr>p_ID := i\<rparr>)"
proof -
  let ?p = "p\<lparr>p_ID := i\<rparr>" and ?m = "(byID st)(i := None)"
  have ok: "ids_ok (byID st)" "index_ok (byID st) (byPrice st)" and i: "p_ID old = i"
    using inv old by (auto simp: store_inv_def ids_ok_def)
  obtain t where t: "removeFromPriceIndex old st = Some (st\<lparr>byPrice := t\<rparr>)" "index_ok ?m t"
    using removeFromPriceIndex_ok [OF ok(2,1), of old] old i by auto
  let ?st = "st\<lparr>byPrice := t, byID := (byID st)(i \<mapsto> ?p)\<rparr>"
  have ix: "index_ok ?m (byPrice ?st)" using t(2) by simp
  obtain t' where "addToPriceIndex ?p ?st = Some (?st\<lparr>byPrice := t'\<rparr>)" "index_ok (?m(i \<mapsto> ?p)) t'"
    using addToPriceIndex_ok [OF ix ids_ok_del [OF ok(1)], of ?p] price by auto
  then show ?thesis
    using that [of "?st\<lparr>byPrice := t'\<rparr>"] t old i ids_ok_upd [OF ok(1), of ?p] price
    by (simp add: store_Update_def store_inv_def Let_def del: fun_upd_apply)
qed

section \<open>Listing\<close>

text \<open>
  What a query asks for: the price is not below the least nor above the greatest price, if these
  are given, and the category is the given one, if there is one.
\<close>

definition asked_for :: "list_query \<Rightarrow> product \<Rightarrow> bool" where
  "asked_for q x \<longleftrightarrow>
     (case q_MinPrice q of None \<Rightarrow> True | Some v \<Rightarrow> \<not> p_Price x < v)
     \<and> (case q_MaxPrice q of None \<Rightarrow> True | Some v \<Rightarrow> \<not> v < p_Price x)
     \<and> (q_Category q = '''' \<or> p_Category x = q_Category q)"

text \<open>What the listing leaves out of it: when one bound is given, the other one is 0 or 1e18.\<close>

definition left_out :: "list_query \<Rightarrow> product \<Rightarrow> bool" where
  "left_out q x \<longleftrightarrow>
     q_MinPrice q = None \<and> q_MaxPrice q \<noteq> None \<and> p_Price x < 0
     \<or> q_MinPrice q \<noteq> None \<and> q_MaxPrice q = None \<and> Fin (10 ^ 18) < p_Price x"

definition price_listed :: "list_query \<Rightarrow> product \<Rightarrow> bool" where
  "price_listed q x \<longleftrightarrow>
     (q_MinPrice q = None \<and> q_MaxPrice q = None)
     \<or> (\<not> p_Price x < (case q_MinPrice q of None \<Rightarrow> 0 | Some v \<Rightarrow> v)
         \<and> \<not> (case q_MaxPrice q of None \<Rightarrow> Fin (10 ^ 18) | Some v \<Rightarrow> v) < p_Price x)"

lemma listed_asked_for:
  "price_listed q x \<and> (q_Category q = '''' \<or> p_Category x = q_Category q) \<longleftrightarrow> asked_for q x \<and> \<not> left_out q x"
  by (auto simp: price_listed_def asked_for_def left_out_def split: option.splits)

text \<open>The sort keys of the products that are compared are not NaN.\<close>

definition comparable :: "string \<Rightarrow> product \<Rightarrow> bool" where
  "comparable sortBy x \<longleftrightarrow> p_Price x \<noteq> NaN \<and> (sortBy = ''rating'' \<longrightarrow> p_Rating x \<noteq> NaN)"

lemma f64_key_order:
  "(\<And>x. D x \<Longrightarrow> f x \<noteq> NaN) \<Longrightarrow> strict_weak_order (\<lambda>a b. f a < (f b :: f64)) D"
  using f64_lt.on_key [of f] unfolding strict_weak_order_def by meson

lemma linorder_key_order: "strict_weak_order (\<lambda>a b. f a < (f b :: 'b::linorder)) D"
  by unfold_locales auto

lemma product_less_order: "strict_weak_order (product_less s d) (comparable s)"
proof -
  have up: "strict_weak_order (product_less s ''asc'') (comparable s)"
    unfolding product_less_def
    by (cases "s = ''price''"; cases "s = ''rating''"; cases "s = ''name''"; cases "s = ''created_at''")
      (auto intro!: f64_key_order linorder_key_order simp: comparable_def)
  have "product_less s d = (if d = ''desc'' then (\<lambda>a b. product_less s ''asc'' b a) else product_less s ''asc'')"
    by (auto simp: product_less_def fun_eq_iff)
  then show ?thesis using up strict_weak_order.flipped [OF up] by simp
qed

lemma distinct_concat_groups:
  "distinct ks \<Longrightarrow> \<forall>k\<in>set ks. distinct (f k) \<and> (\<forall>x\<in>set (f k). g x = k) \<Longrightarrow> distinct (concat (map f ks))"
  by (induction ks) fastforce+

lemma f64_sorted_distinct: "sorted_wrt (<) (ks :: f64 list) \<Longrightarrow> distinct ks"
  by (induction ks) (auto simp: less_f64_def)

lemma bt_range_prices:
  assumes ix: "index_ok m t" and ids: "ids_ok m"
  obtains gs where "bt_RangeQuery t mn mx = Some gs" "distinct (concat gs)"
    "set (concat gs) = {x \<in> ran m. \<not> p_Price x < mn \<and> \<not> mx < p_Price x}"
proof -
  let ?M = "f64_keys.bt_map t"
  have inv: "f64_keys.bt_inv t" and grp: "\<And>p. p \<noteq> NaN \<Longrightarrow> group_ok m p (?M p)"
    using ix by (auto simp: index_ok_def)
  obtain ks where ks: "sorted_wrt (<) ks" "set ks = {k \<in> dom ?M. \<not> k < mn \<and> \<not> mx < k}"
      "bt_RangeQuery t mn mx = Some (map (the \<circ> ?M) ks)"
    using f64_keys.bt_RangeQuery_map [OF inv f64_range_bounds] .
  have nan: "k \<noteq> NaN" if "k \<in> dom ?M" for k using f64_keys.bt_map_ok [OF inv] that by blast
  have g: "distinct (the (?M k)) \<and> set (the (?M k)) = {x \<in> ran m. p_Price x = k}" if "k \<in> dom ?M" for k
    using grp [OF nan [OF that]] that by (auto simp: group_ok_def distinct_map)
  have "distinct ks" using ks(1) by (rule f64_sorted_distinct)
  then have "distinct (concat (map (the \<circ> ?M) ks))"
    using g ks(2) by (intro distinct_concat_groups [where g = p_Price]) auto
  moreover have "p_Price x \<in> dom ?M" if "x \<in> ran m" for x
    using grp [OF ids_ok_ran [OF ids that]] that by (auto simp: group_ok_def split: option.splits)
  then have "set (concat (map (the \<circ> ?M) ks)) = {x \<in> ran m. \<not> p_Price x < mn \<and> \<not> mx < p_Price x}"
    using g ks(2) by fastforce
  ultimately show ?thesis using that ks(3) by blast
qed

lemma distinct_range_values:
  assumes "ids_ok m" "iterates ks m" shows "distinct (range_values ks m)"
proof -
  have "map p_ID (List.map_filter m js) = js" if "set js \<subseteq> dom m" for js
    using that assms(1) by (induction js) (auto simp: List.map_filter_simps ids_ok_def)
  then have "distinct (map p_ID (range_values ks m))" using assms(2) by (simp add: iterates_def range_values_def)
  then show ?thesis by (simp add: distinct_map)
qed

lemma getListCandidates_correct:
  assumes inv: "store_inv st" and ks: "iterates ks (byID st)"
  obtains c where "getListCandidates ks q st = Some c" "distinct c"
    "set c = {x \<in> ran (byID st). price_listed q x}"
proof (cases "q_MinPrice q = None \<and> q_MaxPrice q = None")
  case True
  then show ?thesis
    using that [of "range_values ks (byID st)"] set_range_values [OF ks] distinct_range_values [OF _ ks] inv
    by (simp add: getListCandidates_def getCandidatesFromMap_def price_listed_def store_inv_def)
next
  case False
  have ok: "index_ok (byID st) (byPrice st)" "ids_ok (byID st)" using inv by (simp_all add: store_inv_def)
  obtain gs where "bt_RangeQuery (byPrice st) (case q_MinPrice q of None \<Rightarrow> 0 | Some v \<Rightarrow> v)
      (case q_MaxPrice q of None \<Rightarrow> Fin (10 ^ 18) | Some v \<Rightarrow> v) = Some gs" "distinct (concat gs)"
    "set (concat gs) = {x \<in> ran (byID st). \<not> p_Price x < (case q_MinPrice q of None \<Rightarrow> 0 | Some v \<Rightarrow> v)
        \<and> \<not> (case q_MaxPrice q of None \<Rightarrow> Fin (10 ^ 18) | Some v \<Rightarrow> v) < p_Price x}"
    using bt_range_prices [OF ok] .
  then show ?thesis using that [of "concat gs"] False
    by (auto simp: getListCandidates_def getCandidatesFromPriceIndex_def price_listed_def)
qed

lemma paginate_in_range:
  assumes "1 \<le> page" "1 \<le> n" "page * n < 2 ^ 63"
  shows "paginateProducts xs page n = Some (take (nat n) (drop (nat ((page - 1) * n)) xs))"
proof -
  let ?o = "(page - 1) * n"
  have o: "0 \<le> ?o" "?o + n = page * n" using assms by (simp_all add: algebra_simps)
  have "page * 1 \<le> page * n" using assms by (intro mult_left_mono) auto
  then have "in_int64 (page - 1)" "in_int64 ?o" "in_int64 (?o + n)"
    using assms o unfolding in_int64_def by linarith+
  then have w: "wrap64 (page - 1) = page - 1" "wrap64 ?o = ?o" "wrap64 (?o + n) = ?o + n"
    by (simp_all only: wrap64_id)
  show ?thesis
  proof (cases "?o < int (length xs)")
    case True
    have "take (nat (int (length xs) - ?o)) (drop (nat ?o) xs) = take (nat n) (drop (nat ?o) xs)"
      if "int (length xs) < ?o + n" using that o True by (simp add: nat_le_eq_zle nat_diff_distrib)
    moreover have e: "page * n - ?o = n" using o by linarith
    ultimately show ?thesis using True o w assms(1,2) by (auto simp: paginateProducts_def go_slice_def Let_def e)
  next
    case False
    then have "length xs \<le> nat ?o" by linarith
    then show ?thesis using False w assms(1,2) by (simp add: paginateProducts_def Let_def)
  qed
qed

lemma concat_pages: "concat (map (\<lambda>i. take n (drop (i * n) xs)) [0..<k]) = take (k * n) xs"
proof (induction k)
  case (Suc k)
  then show ?case using take_add [of "k * n" n xs] by (simp add: add.commute)
qed simp

lemma store_List_correct:
  assumes inv: "store_inv st" and ks: "iterates ks (byID st)"
    and page: "1 \<le> q_Page q" "1 \<le> q_Size q" "q_Page q * q_Size q < 2 ^ 63"
    and cmp: "\<forall>x\<in>ran (byID st). comparable (q_Sort q) x"
  obtains xs where "distinct xs" "set xs = {x \<in> ran (byID st). asked_for q x \<and> \<not> left_out q x}"
    "sorted_wrt (\<lambda>a b. \<not> product_less (if q_Sort q = '''' then ''price'' else q_Sort q) (q_Order q) b a) xs"
    "store_List ks q st = Some (take (nat (q_Size q)) (drop (nat ((q_Page q - 1) * q_Size q)) xs))"
proof -
  let ?s = "if q_Sort q = '''' then ''price'' else q_Sort q"
  obtain c where c: "getListCandidates ks q st = Some c" "distinct c"
      "set c = {x \<in> ran (byID st). price_listed q x}"
    using getListCandidates_correct [OF inv ks] .
  let ?f = "filterProducts c q"
  have "\<forall>x\<in>set ?f. comparable ?s x" using cmp c(3) by (auto simp: filterProducts_def comparable_def)
  then have "sorted_wrt (\<lambda>a b. \<not> product_less ?s (q_Order q) b a) (sortProducts ?f (q_Sort q) (q_Order q))"
    unfolding sortProducts_def by (rule strict_weak_order.sorted_sort_slice [OF product_less_order])
  moreover have "set (sortProducts ?f (q_Sort q) (q_Order q)) = {x \<in> ran (byID st). asked_for q x \<and> \<not> left_out q x}"
    unfolding listed_asked_for [symmetric] using c(3) by (auto simp: sortProducts_def filterProducts_def)
  moreover have "distinct (sortProducts ?f (q_Sort q) (q_Order q))"
    using c(2) by (simp add: sortProducts_def filterProducts_def)
  ultimately show ?thesis
    using that [of "sortProducts ?f (q_Sort q) (q_Order q)"] c(1)
    by (simp add: store_List_def paginate_in_range [OF page])
qed

section \<open>Statistics\<close>

lemma stats_counts:
  "s_CategoryCounts (fst (fold stats_step xs acc)) c =
     (let n = int (length (filter (\<lambda>x. p_Category x = c) xs))
      in case s_CategoryCounts (fst acc) c of None \<Rightarrow> if n = 0 then None else Some n | Some k \<Rightarrow> Some (k + n))"
proof (induction xs arbitrary: acc)
  case (Cons x xs)
  have "s_CategoryCounts (fst (stats_step x acc)) = count_category (p_Category x) (s_CategoryCounts (fst acc))"
    by (auto simp: stats_step_def Let_def split: prod.splits)
  then show ?case using Cons.IH [of "stats_step x acc"]
    by (auto simp: count_category_def Let_def split: option.splits)
qed (simp split: option.splits)

lemma stats_keeps:
  "s_TotalProducts (fst (fold stats_step xs acc)) = s_TotalProducts (fst acc)"
  by (induction xs arbitrary: acc) (auto simp: stats_step_def Let_def split: prod.splits)

definition price_span :: "product list \<Rightarrow> stats \<Rightarrow> bool" where
  "price_span xs s \<longleftrightarrow>
     s_PriceMin s \<in> p_Price ` set xs \<and> s_PriceMax s \<in> p_Price ` set xs
     \<and> (\<forall>x\<in>set xs. s_PriceMin s \<le> p_Price x \<and> p_Price x \<le> s_PriceMax s)"

lemma stats_step_span:
  assumes "price_span xs s" "\<forall>y\<in>set (x # xs). p_Price y \<noteq> NaN"
  shows "\<exists>s' t'. stats_step x (s, t, False) = (s', t', False) \<and> price_span (x # xs) s'"
proof -
  have mn: "s_PriceMin s \<noteq> NaN" and mx: "s_PriceMax s \<noteq> NaN" using assms by (auto simp: price_span_def)
  have le: "\<not> a < b \<Longrightarrow> a \<noteq> NaN \<Longrightarrow> b \<noteq> NaN \<Longrightarrow> b \<le> a" for a b :: f64 using f64_not_less by blast
  have lt: "a < b \<Longrightarrow> a \<le> b" for a b :: f64 by (simp add: less_f64_def)
  show ?thesis
    using assms mn mx
    by (auto simp: stats_step_def Let_def price_span_def intro: f64_trans dest: lt le)
qed

lemma stats_fold_span:
  "price_span ys s \<Longrightarrow> \<forall>y\<in>set (xs @ ys). p_Price y \<noteq> NaN
    \<Longrightarrow> price_span (rev xs @ ys) (fst (fold stats_step xs (s, t, False)))"
proof (induction xs arbitrary: ys s t)
  case (Cons x xs)
  obtain s' t' where s': "stats_step x (s, t, False) = (s', t', False)" "price_span (x # ys) s'"
    using stats_step_span [OF Cons.prems(1)] Cons.prems(2) by fastforce
  then show ?case using Cons.IH [OF s'(2), of t'] Cons.prems by simp
qed simp

lemma stats_span:
  assumes "xs \<noteq> []" "\<forall>y\<in>set xs. p_Price y \<noteq> NaN"
  shows "price_span xs (fst (fold stats_step xs (s, t, True)))"
proof -
  obtain x ys where xs: "xs = x # ys" using assms(1) by (cases xs) auto
  obtain s' t' where s': "stats_step x (s, t, True) = (s', t', False)" "price_span [x] s'"
    using assms(2) by (auto simp: stats_step_def Let_def price_span_def xs)
  then show ?thesis using stats_fold_span [OF s'(2), of ys t'] assms(2) by (auto simp: xs price_span_def)
qed

section \<open>Scripts of operations\<close>

datatype store_op = CreateOp "product option" | UpdateOp string "product option" | DeleteOp string

fun store_step :: "store_op \<Rightarrow> catalog \<Rightarrow> (store_error option \<times> catalog) option" where
  "store_step (CreateOp p) st = store_Create p st"
| "store_step (UpdateOp i p) st = store_Update i p st"
| "store_step (DeleteOp i) st = store_Delete i st"

fun store_run :: "store_op list \<Rightarrow> catalog \<Rightarrow> (store_error option list \<times> catalog) option" where
  "store_run [] st = Some ([], st)"
| "store_run (x # xs) st =
     Option.bind (store_step x st) (\<lambda>(r, st'). map_option (map_prod ((#) r) id) (store_run xs st'))"

text \<open>The specification: the same operations on the map by id alone.\<close>

fun spec_op :: "store_op \<Rightarrow> (string \<rightharpoonup> product) \<Rightarrow> store_error option \<times> (string \<rightharpoonup> product)" where
  "spec_op (CreateOp None) m = (Some ErrNilProduct, m)"
| "spec_op (CreateOp (Some p)) m =
     (if p_ID p \<in> dom m then (Some ErrDuplicate, m) else (None, m(p_ID p \<mapsto> p)))"
| "spec_op (UpdateOp i None) m = (Some ErrNilProduct, m)"
| "spec_op (UpdateOp i (Some p)) m =
     (if i \<in> dom m then (None, m(i \<mapsto> p\<lparr>p_ID := i\<rparr>)) else (Some ErrNotFound, m))"
| "spec_op (DeleteOp i) m = (if i \<in> dom m then (None, m(i := None)) else (Some ErrNotFound, m))"

fun spec_run :: "store_op list \<Rightarrow> (string \<rightharpoonup> product) \<Rightarrow> store_error option list \<times> (string \<rightharpoonup> product)" where
  "spec_run [] m = ([], m)"
| "spec_run (x # xs) m = (let (r, m') = spec_op x m in map_prod ((#) r) id (spec_run xs m'))"

fun op_priced :: "store_op \<Rightarrow> bool" where
  "op_priced (CreateOp (Some p)) \<longleftrightarrow> p_Price p \<noteq> NaN"
| "op_priced (UpdateOp _ (Some p)) \<longleftrightarrow> p_Price p \<noteq> NaN"
| "op_priced _ \<longleftrightarrow> True"

lemma store_op_refines:
  assumes inv: "store_inv st" and p: "op_priced x"
  shows "\<exists>st'. store_step x st = Some (fst (spec_op x (byID st)), st') \<and> store_inv st'
    \<and> byID st' = snd (spec_op x (byID st))"
proof (cases x)
  case (CreateOp pp)
  show ?thesis
  proof (cases pp)
    case (Some p)
    show ?thesis
    proof (cases "byID st (p_ID p)")
      case None
      show ?thesis
        by (rule store_Create_correct [OF inv None]) (use assms None in \<open>auto simp: CreateOp Some\<close>)
    qed (use inv in \<open>auto simp: CreateOp Some store_Create_def\<close>)
  qed (use inv in \<open>auto simp: CreateOp store_Create_def\<close>)
next
  case (UpdateOp i pp)
  show ?thesis
  proof (cases pp)
    case (Some p)
    show ?thesis
    proof (cases "byID st i")
      case old: (Some old)
      show ?thesis
        by (rule store_Update_correct [OF inv old, of p]) (use assms old in \<open>auto simp: UpdateOp Some\<close>)
    qed (use inv in \<open>auto simp: UpdateOp Some store_Update_def\<close>)
  qed (use inv in \<open>auto simp: UpdateOp store_Update_def\<close>)
next
  case (DeleteOp i)
  show ?thesis
  proof (cases "byID st i")
    case (Some old)
    show ?thesis by (rule store_Delete_correct [OF inv Some]) (use Some in \<open>auto simp: DeleteOp\<close>)
  qed (use inv in \<open>auto simp: DeleteOp store_Delete_def\<close>)
qed

lemma store_run_refines:
  "store_inv st \<Longrightarrow> \<forall>x\<in>set xs. op_priced x
    \<Longrightarrow> \<exists>st'. store_run xs st = Some (fst (spec_run xs (byID st)), st') \<and> store_inv st'
       \<and> byID st' = snd (spec_run xs (byID st))"
proof (induction xs arbitrary: st)
  case (Cons x xs)
  obtain st1 where st1: "store_step x st = Some (fst (spec_op x (byID st)), st1)" "store_inv st1"
      "byID st1 = snd (spec_op x (byID st))"
    using store_op_refines [OF Cons.prems(1), of x] Cons.prems(2) by auto
  then show ?case using Cons.IH [OF st1(2)] Cons.prems(2)
    by (auto simp: split_beta)
qed simp

lemma store_run_New:
  assumes "\<forall>x\<in>set xs. op_priced x"
  obtains st where "Option.bind store_New (store_run xs) = Some (fst (spec_run xs Map.empty), st)"
    "store_inv st" "byID st = snd (spec_run xs Map.empty)"
proof -
  obtain st0 where st0: "store_New = Some st0" "store_inv st0" "byID st0 = Map.empty"
    using store_New_correct by blast
  obtain st' where st': "store_run xs st0 = Some (fst (spec_run xs Map.empty), st')"
      "store_inv st'" "byID st' = snd (spec_run xs Map.empty)"
    using store_run_refines [OF st0(2) assms] unfolding st0(3) by blast
  have "Option.bind store_New (store_run xs) = Some (fst (spec_run xs Map.empty), st')"
    unfolding st0(1) using st'(1) by simp
  then show ?thesis using that st'(2,3) by blast
qed

text \<open>
  C27. The store refines a map by id: on a new store, any script of \<open>Create\<close>, \<open>Update\<close> and
  \<open>Delete\<close> calls (nil products and unknown or duplicate ids included; prices not NaN) never
  panics, each call returns exactly the error the map dictates, a failing call changes
  nothing, and afterwards \<open>Get\<close> is the lookup in the map.
\<close>

theorem store_refines_map:
  assumes "\<forall>x\<in>set xs. op_priced x"
  shows "\<exists>st. Option.bind store_New (store_run xs) = Some (fst (spec_run xs Map.empty), st)
    \<and> byID st = snd (spec_run xs Map.empty)
    \<and> (\<forall>i. store_Get i st = (case snd (spec_run xs Map.empty) i of None \<Rightarrow> Inl ErrNotFound | Some p \<Rightarrow> Inr p))"
  using store_run_New [OF assms] unfolding store_Get_def by metis

definition sample_product :: "string \<Rightarrow> f64 \<Rightarrow> product" where
  "sample_product i price =
     \<lparr>p_ID = i, p_Name = i, p_Category = ''c'', p_Price = price, p_Rating = 0, p_Stock = 1, p_Tags = [], p_CreatedAt = 0\<rparr>"

theorem store_refines_map_witness:
  "\<exists>st. Option.bind store_New (store_run [CreateOp (Some (sample_product ''a'' 1)),
      CreateOp (Some (sample_product ''a'' 0)), DeleteOp ''b'']) = Some ([None, Some ErrDuplicate, Some ErrNotFound], st)"
proof -
  let ?ops = "[CreateOp (Some (sample_product ''a'' 1)), CreateOp (Some (sample_product ''a'' 0)), DeleteOp ''b'']"
  have "\<forall>x\<in>set ?ops. op_priced x" by (simp add: sample_product_def zero_f64_def one_f64_def)
  moreover have "fst (spec_run ?ops Map.empty) = [None, Some ErrDuplicate, Some ErrNotFound]"
    by (simp add: sample_product_def)
  ultimately show ?thesis using store_refines_map [of ?ops] by auto
qed

text \<open>
  C31. \<open>List\<close> is correct whichever index answers it: after any script, for a page and size whose
  product fits into an \<open>int\<close>, it returns the requested page of one list, ordered by the requested
  key and direction, that contains exactly once every stored product the query asks for (price bounds
  and category), except that products dearer than 1e18 are left out when only the lower bound is
  given, and those with a negative price when only the upper one is; in particular it holds all of
  them if the stored prices are from 0 to 1e18.
\<close>

theorem store_list_page:
  assumes "\<forall>x\<in>set ops. op_priced x" "Option.bind store_New (store_run ops) = Some (rs, st)"
    and "iterates ks (byID st)" "1 \<le> q_Page q" "1 \<le> q_Size q" "q_Page q * q_Size q < 2 ^ 63"
    and "\<forall>x\<in>ran (byID st). comparable (q_Sort q) x"
  shows "\<exists>xs. distinct xs \<and> set xs = {x \<in> ran (byID st). asked_for q x \<and> \<not> left_out q x}
    \<and> ((\<forall>x\<in>ran (byID st). \<not> p_Price x < 0 \<and> \<not> Fin (10 ^ 18) < p_Price x) \<longrightarrow> set xs = {x \<in> ran (byID st). asked_for q x})
    \<and> sorted_wrt (\<lambda>a b. \<not> product_less (if q_Sort q = '''' then ''price'' else q_Sort q) (q_Order q) b a) xs
    \<and> store_List ks q st = Some (take (nat (q_Size q)) (drop (nat ((q_Page q - 1) * q_Size q)) xs))"
proof -
  have inv: "store_inv st" using store_run_New [OF assms(1)] assms(2) by auto
  obtain xs where "distinct xs" "set xs = {x \<in> ran (byID st). asked_for q x \<and> \<not> left_out q x}"
    "sorted_wrt (\<lambda>a b. \<not> product_less (if q_Sort q = '''' then ''price'' else q_Sort q) (q_Order q) b a) xs"
    "store_List ks q st = Some (take (nat (q_Size q)) (drop (nat ((q_Page q - 1) * q_Size q)) xs))"
    using store_List_correct [OF inv assms(3-7)] .
  then show ?thesis by (intro exI [of _ xs]) (auto simp: left_out_def)
qed

theorem store_list_page_witness:
  "\<exists>st xs. Option.bind store_New (store_run [CreateOp (Some (sample_product ''a'' 1))]) = Some ([None], st)
    \<and> set xs = {sample_product ''a'' 1}
    \<and> store_List [''a''] \<lparr>q_MinPrice = Some 0, q_MaxPrice = None, q_Category = '''', q_Sort = ''price'',
         q_Order = ''asc'', q_Page = 1, q_Size = 20\<rparr> st = Some (take 20 xs)"
proof -
  let ?p = "sample_product ''a'' 1"
  let ?ops = "[CreateOp (Some ?p)]"
  let ?q = "\<lparr>q_MinPrice = Some 0, q_MaxPrice = None, q_Category = '''', q_Sort = ''price'',
         q_Order = ''asc'', q_Page = 1, q_Size = 20\<rparr>"
  have ok: "\<forall>x\<in>set ?ops. op_priced x" by (simp add: sample_product_def one_f64_def)
  obtain st where st: "Option.bind store_New (store_run ?ops) = Some ([None], st)" "byID st = [''a'' \<mapsto> ?p]"
    using store_run_New [OF ok] by (auto simp: sample_product_def)
  have wp: "asked_for ?q ?p" "\<not> left_out ?q ?p" and cmp: "comparable ''price'' ?p"
    by (simp_all add: asked_for_def left_out_def comparable_def sample_product_def zero_f64_def one_f64_def)
  have r: "ran (byID st) = {?p}" by (simp add: st(2))
  have w: "{x \<in> ran (byID st). asked_for ?q x \<and> \<not> left_out ?q x} = {?p}" unfolding r using wp by blast
  have "iterates [''a''] (byID st)" by (simp add: st(2) iterates_def)
  then obtain xs where "set xs = {?p}" "store_List [''a''] ?q st = Some (take 20 xs)"
    using store_list_page [OF ok st(1), of "[''a'']" ?q, unfolded w] cmp r by auto
  then show ?thesis using st(1) by blast
qed

text \<open>
  The pages of a listing partition it: reading the pages \<open>1 .. k\<close> of \<open>n\<close> entries one
  after the other gives the first \<open>k * n\<close> entries, each once and in order (the products stay
  inside \<open>int\<close>).
\<close>

theorem pages_partition:
  assumes "1 \<le> n" "int k * n < 2 ^ 63"
  shows "map (\<lambda>i. the (paginateProducts xs (int i + 1) n)) [0..<k] = map (\<lambda>i. take (nat n) (drop (i * nat n) xs)) [0..<k]
    \<and> concat (map (\<lambda>i. the (paginateProducts xs (int i + 1) n)) [0..<k]) = take (k * nat n) xs"
proof -
  have "paginateProducts xs (int i + 1) n = Some (take (nat n) (drop (i * nat n) xs))" if "i < k" for i
  proof -
    have "(int i + 1) * n \<le> int k * n" using that assms(1) by (intro mult_right_mono) auto
    then have "(int i + 1) * n < 2 ^ 63" using assms(2) by linarith
    moreover have "nat (int i * n) = i * nat n" by (simp add: nat_mult_distrib)
    ultimately show ?thesis using paginate_in_range [of "int i + 1" n xs] assms(1) by simp
  qed
  then have e: "map (\<lambda>i. the (paginateProducts xs (int i + 1) n)) [0..<k]
      = map (\<lambda>i. take (nat n) (drop (i * nat n) xs)) [0..<k]" by simp
  show ?thesis unfolding e concat_pages by (intro conjI refl)
qed

theorem pages_partition_witness:
  "concat (map (\<lambda>i. the (paginateProducts [1, 2, 3 :: nat] (int i + 1) 2)) [0..<2]) = [1, 2, 3]"
  using pages_partition [of 2 2 "[1, 2, 3 :: nat]"] by simp

text \<open>
  Beyond that bound the offset wraps around: for the page 9223372036854775807 of size 20 it is
  -40, the test against the length passes and the slice expression gets a negative bound.
\<close>

lemma pagination_overflow_panics:
  "paginateProducts xs 9223372036854775807 20 = None"
  by (simp add: paginateProducts_def go_slice_def wrap64_def)

text \<open>
  \<open>Stats\<close> on a store reached by any script reports the number of products, for each
  category the number of its products (and no other category), and the least and the greatest
  price, in whatever order the map is ranged over.
\<close>

theorem store_stats_correct:
  assumes "\<forall>x\<in>set ops. op_priced x" "Option.bind store_New (store_run ops) = Some (rs, st)"
    and ks: "iterates ks (byID st)"
  shows "s_TotalProducts (store_Stats ks st) = int (card (dom (byID st)))
    \<and> (\<forall>c. s_CategoryCounts (store_Stats ks st) c =
         (let n = card {x \<in> ran (byID st). p_Category x = c} in if n = 0 then None else Some (int n)))
    \<and> (ks \<noteq> [] \<longrightarrow> price_span (range_values ks (byID st)) (store_Stats ks st))"
proof -
  let ?xs = "range_values ks (byID st)"
  let ?s0 = "\<lparr>s_TotalProducts = int (length ks), s_CategoryCounts = Map.empty, s_PriceMin = 0, s_PriceMax = 0, s_AvgRating = 0\<rparr>"
  let ?r = "fold stats_step ?xs (?s0, 0, True)"
  have inv: "store_inv st" using store_run_New [OF assms(1)] assms(2) by auto
  then have ids: "ids_ok (byID st)" by (simp add: store_inv_def)
  have len: "length ks = card (dom (byID st))" "length ?xs = length ks"
    using iterates_length [OF ks] length_range_values [OF ks] by simp_all
  have st: "store_Stats ks st = (if ks = [] then ?s0 else fst ?r\<lparr>s_AvgRating := fst (snd ?r) / f64_of_int (int (length ks))\<rparr>)"
    by (simp add: store_Stats_def Let_def split_beta)
  have cnt: "length (filter (\<lambda>x. p_Category x = c) ?xs) = card {x \<in> ran (byID st). p_Category x = c}" for c
    using distinct_range_values [OF ids ks] set_range_values [OF ks]
    by (simp flip: distinct_card add: set_filter)
  have counts: "s_CategoryCounts (store_Stats ks st) c = s_CategoryCounts (fst ?r) c" for c
    using len by (simp add: st range_values_def)
  show ?thesis
  proof (intro conjI allI impI)
    show "s_TotalProducts (store_Stats ks st) = int (card (dom (byID st)))"
      by (simp add: st stats_keeps flip: len(1))
    show "s_CategoryCounts (store_Stats ks st) c =
        (let n = card {x \<in> ran (byID st). p_Category x = c} in if n = 0 then None else Some (int n))" for c
      unfolding counts stats_counts cnt by (simp add: Let_def)
    show "price_span ?xs (store_Stats ks st)" if "ks \<noteq> []"
    proof -
      have "\<forall>y\<in>set ?xs. p_Price y \<noteq> NaN" using set_range_values [OF ks] ids_ok_ran [OF ids] by blast
      moreover have "?xs \<noteq> []" using that len(2) by auto
      ultimately show ?thesis using stats_span [of ?xs ?s0 0] that by (simp add: st price_span_def)
    qed
  qed
qed

theorem store_stats_correct_witness:
  "\<exists>st. Option.bind store_New (store_run [CreateOp (Some (sample_product ''a'' 1))]) = Some ([None], st)
    \<and> s_TotalProducts (store_Stats [''a''] st) = 1 \<and> s_CategoryCounts (store_Stats [''a''] st) ''c'' = Some 1"
proof -
  let ?p = "sample_product ''a'' 1"
  let ?ops = "[CreateOp (Some ?p)]"
  have ok: "\<forall>x\<in>set ?ops. op_priced x" by (simp add: sample_product_def one_f64_def)
  obtain st where st: "Option.bind store_New (store_run ?ops) = Some ([None], st)" "byID st = [''a'' \<mapsto> ?p]"
    using store_run_New [OF ok] by (auto simp: sample_product_def)
  have "{x. x = ?p \<and> p_Category x = ''c''} = {?p}" by (auto simp: sample_product_def)
  then show ?thesis using store_stats_correct [OF ok st(1), of "[''a'']"] st by (auto simp: iterates_def)
qed

end
