(* ===== verification/Go_Strconv.thy ===== *)
theory Go_Strconv
  imports Go_Prelude Go_Float
begin

text \<open>
  The parsers of Go's \<open>strconv\<close> package that the program calls: \<open>Atoi\<close> and \<open>ParseFloat\<close> with
  64 bits.  \<open>None\<close> is an error (a syntax error or a value out of range); the program never looks
  at which.
\<close>

section \<open>Integers\<close>

definition byte :: "char \<Rightarrow> nat" where "byte c = of_char c"

definition is_digit :: "char \<Rightarrow> bool" where
  "is_digit c \<longleftrightarrow> 48 \<le> byte c \<and> byte c \<le> 57"

definition digit_value :: "char \<Rightarrow> int" where
  "digit_value c = int (byte c) - 48"

definition digits_value :: "string \<Rightarrow> int" where
  "digits_value s = fold (\<lambda>c n. 10 * n + digit_value c) s 0"

text \<open>An optional sign and the rest.\<close>

definition take_sign :: "string \<Rightarrow> int \<times> string" where
  "take_sign s =
     (case s of
        [] \<Rightarrow> (1, [])
      | c # cs \<Rightarrow> if c = CHR ''-'' then (-1, cs) else if c = CHR ''+'' then (1, cs) else (1, s))"

definition Atoi :: "string \<Rightarrow> int option" where
  "Atoi s =
     (let (sgn, ds) = take_sign s; n = sgn * digits_value ds
      in if ds = [] \<or> \<not> list_all is_digit ds then None
         else if in_int64 n then Some n else None)"

lemma Atoi_in_int64: "Atoi s = Some n \<Longrightarrow> in_int64 n"
  by (auto simp: Atoi_def Let_def split: prod.splits if_splits)

section \<open>Floating point numbers\<close>

definition to_lower :: "char \<Rightarrow> char" where
  "to_lower c = (if 65 \<le> byte c \<and> byte c \<le> 90 then char_of (byte c + 32) else c)"

definition hex_value :: "char \<Rightarrow> int option" where
  "hex_value c =
     (let b = byte (to_lower c)
      in if is_digit c then Some (digit_value c) else if 97 \<le> b \<and> b \<le> 102 then Some (int b - 87) else None)"

definition mantissa_digit :: "int \<Rightarrow> char \<Rightarrow> int option" where
  "mantissa_digit b c = (if b = 16 then hex_value c else if is_digit c then Some (digit_value c) else None)"

text \<open>
  The mantissa: its value without the point, the digits after the point, whether digits and
  underscores were seen, and what follows.
\<close>

fun mantissa :: "int \<Rightarrow> string \<Rightarrow> bool \<Rightarrow> int \<Rightarrow> int \<Rightarrow> bool \<Rightarrow> bool \<Rightarrow> int \<times> int \<times> bool \<times> bool \<times> string" where
  "mantissa b [] sawdot m fr digits unders = (m, fr, digits, unders, [])"
| "mantissa b (c # cs) sawdot m fr digits unders =
     (if c = CHR ''_'' then mantissa b cs sawdot m fr digits True
      else if c = CHR ''.'' \<and> \<not> sawdot then mantissa b cs True m fr digits unders
      else (case mantissa_digit b c of
              Some d \<Rightarrow> mantissa b cs sawdot (b * m + d) (if sawdot then fr + 1 else fr) True unders
            | None \<Rightarrow> (m, fr, digits, unders, c # cs)))"

text \<open>The digits of an exponent; the library stops accumulating at 10000.\<close>

fun exp_digits :: "string \<Rightarrow> int \<Rightarrow> bool \<Rightarrow> int \<times> bool \<times> string" where
  "exp_digits [] e unders = (e, unders, [])"
| "exp_digits (c # cs) e unders =
     (if c = CHR ''_'' then exp_digits cs e True
      else if is_digit c then exp_digits cs (if e < 10000 then 10 * e + digit_value c else e) unders
      else (e, unders, c # cs))"

text \<open>\<open>underscoreOK\<close>: underscores only between digits or between a base prefix and a digit.\<close>

fun underscores_ok :: "bool \<Rightarrow> char \<Rightarrow> string \<Rightarrow> bool" where
  "underscores_ok hex prev [] \<longleftrightarrow> prev \<noteq> CHR ''_''"
| "underscores_ok hex prev (c # cs) \<longleftrightarrow>
     (if is_digit c \<or> (hex \<and> hex_value c \<noteq> None) then underscores_ok hex (CHR ''0'') cs
      else if c = CHR ''_'' then prev = CHR ''0'' \<and> underscores_ok hex (CHR ''_'') cs
      else prev \<noteq> CHR ''_'' \<and> underscores_ok hex (CHR ''!'') cs)"

definition has_hex_prefix :: "string \<Rightarrow> bool" where
  "has_hex_prefix s \<longleftrightarrow> 2 < length s \<and> s ! 0 = CHR ''0'' \<and> to_lower (s ! 1) = CHR ''x''"

definition scale :: "int \<Rightarrow> int \<Rightarrow> rat" where
  "scale b e = (if 0 \<le> e then of_int b ^ nat e else 1 / of_int b ^ nat (- e))"

definition special_float :: "string \<Rightarrow> f64 option" where
  "special_float s =
     (let (sgn, r) = take_sign s; w = map to_lower r
      in if w = ''inf'' \<or> w = ''infinity'' then Some (if sgn = 1 then PosInf else NegInf)
         else if map to_lower s = ''nan'' then Some NaN else None)"

definition read_float :: "string \<Rightarrow> rat option" where
  "read_float s =
     (let (sgn, r) = take_sign s;
          hex = has_hex_prefix r;
          b = (if hex then 16 else 10);
          body = (if hex then drop 2 r else r);
          (m, fr, digits, unders, rest) = mantissa b body False 0 0 False False;
          uok = underscores_ok hex (if hex then CHR ''0'' else CHR ''^'') body
      in if \<not> digits then None
         else if rest = [] then
           (if hex \<or> (unders \<and> \<not> uok) then None else Some (of_int (sgn * m) * scale 10 (- fr)))
         else if to_lower (hd rest) \<noteq> (if hex then CHR ''p'' else CHR ''e'') then None
         else (let (esgn, ds) = take_sign (tl rest)
               in if ds = [] \<or> \<not> is_digit (hd ds) then None
                  else (let (e, unders', rest') = exp_digits ds 0 unders
                        in if rest' \<noteq> [] \<or> (unders' \<and> \<not> uok) then None
                           else Some (of_int (sgn * m) *
                                  (if hex then scale 2 (esgn * e - 4 * fr) else scale 10 (esgn * e - fr))))))"

definition ParseFloat :: "string \<Rightarrow> f64 option" where
  "ParseFloat s =
     (case special_float s of
        Some v \<Rightarrow> Some v
      | None \<Rightarrow>
          (case read_float s of
             None \<Rightarrow> None
           | Some q \<Rightarrow> (case round64 q of Fin v \<Rightarrow> Some (Fin v) | _ \<Rightarrow> None)))"

lemma ParseFloat_rep64: "ParseFloat s = Some v \<Longrightarrow> rep64 v"
proof -
  have "rep64 (Fin u)" if "round64 q = Fin u" for q u using that rep64_round64 [of q] by metis
  then show "ParseFloat s = Some v \<Longrightarrow> rep64 v"
    by (auto simp: ParseFloat_def special_float_def Let_def split: option.splits prod.splits if_splits f64.splits)
qed

end
