(* ===== verification/Catalog_Handlers.thy ===== *)
theory Catalog_Handlers
  imports Catalog_Store Go_Strconv
begin

text \<open>
  The HTTP interface of the catalog (\<open>12-day/catalog/internal/handlers\<close>, \<open>middleware\<close>): request
  validation, the status and body of every outcome, and the middleware that refuses a wrong
  content type and turns a panic into a 500.  A request arrives parsed by \<open>net/http\<close>: the path
  value, the first value of each query key (\<open>''''\<close> when absent) and the outcome of the JSON
  decoder (its error text or the product).
\<close>

section \<open>Model\<close>

datatype body = JProduct product | JProducts "product list" | JStats stats | JError string | NoBody

record response =
  r_status :: nat
  r_body :: body

definition respondJSON :: "nat \<Rightarrow> body \<Rightarrow> response" where
  "respondJSON status b = \<lparr>r_status = status, r_body = b\<rparr>"

definition respondError :: "nat \<Rightarrow> string \<Rightarrow> response" where
  "respondError status message = respondJSON status (JError message)"

type_synonym decoded = "string + product"

fun error_text :: "store_error \<Rightarrow> string" where
  "error_text ErrNotFound = ''product not found''"
| "error_text ErrDuplicate = ''product already exists''"
| "error_text ErrNilProduct = ''product cannot be nil''"

definition handle_Get :: "string \<Rightarrow> catalog \<Rightarrow> response" where
  "handle_Get i st =
     (if i = '''' then respondError 400 ''invalid product id provided''
      else (case store_Get i st of
              Inl e \<Rightarrow> if e = ErrNotFound then respondError 404 ''product doesn't exists''
                      else respondError 500 (error_text e)
            | Inr p \<Rightarrow> respondJSON 200 (JProduct p)))"

definition handle_Create :: "decoded \<Rightarrow> catalog \<Rightarrow> (response \<times> catalog) option" where
  "handle_Create d st =
     (case d of
        Inl e \<Rightarrow> Some (respondError 400 (''invalid json '' @ e), st)
      | Inr p \<Rightarrow>
          if p_ID p = '''' \<or> p_Name p = '''' \<or> p_Price p < 0
          then Some (respondError 400 ''id and name are required; price must be >= 0'', st)
          else map_option (\<lambda>(err, st').
                 (case err of
                    Some e \<Rightarrow> if e = ErrDuplicate then respondError 409 ''product already exists''
                              else respondError 500 (error_text e)
                  | None \<Rightarrow> respondJSON 201 (JProduct p), st')) (store_Create (Some p) st))"

definition handle_Update :: "string \<Rightarrow> decoded \<Rightarrow> catalog \<Rightarrow> (response \<times> catalog) option" where
  "handle_Update i d st =
     (if i = '''' then Some (respondError 400 ''invalid product id provided'', st)
      else (case d of
              Inl e \<Rightarrow> Some (respondError 400 (''invalid json '' @ e), st)
            | Inr p \<Rightarrow>
                if p_Name p = '''' \<or> p_Price p < 0
                then Some (respondError 400 ''id and name are required; price must be >= 0'', st)
                else map_option (\<lambda>(err, st').
                       (case err of
                          Some e \<Rightarrow> if e = ErrNotFound then respondError 404 ''product doesn't exists''
                                    else respondError 500 (error_text e)
                        | None \<Rightarrow> respondJSON 204 NoBody, st')) (store_Update i (Some p) st)))"

definition handle_Delete :: "string \<Rightarrow> catalog \<Rightarrow> (response \<times> catalog) option" where
  "handle_Delete i st =
     (if i = '''' then Some (respondError 400 ''invalid product id provided'', st)
      else map_option (\<lambda>(err, st').
             (case err of
                Some e \<Rightarrow> if e = ErrNotFound then respondError 404 ''product doesn't exists''
                          else respondError 400 (error_text e)
              | None \<Rightarrow> respondJSON 204 NoBody, st')) (store_Delete i st))"

text \<open>The optional price and integer parameters of a query, each with its checks.\<close>

definition parse_price :: "string \<Rightarrow> string \<Rightarrow> string + f64 option" where
  "parse_price name raw =
     (if raw = '''' then Inr None
      else (case ParseFloat raw of
              None \<Rightarrow> Inl (name @ '' must be a valid number'')
            | Some v \<Rightarrow> if v < 0 then Inl (name @ '' must be >= 0'') else Inr (Some v)))"

definition parse_count :: "string \<Rightarrow> string \<Rightarrow> int \<Rightarrow> int option \<Rightarrow> string + int" where
  "parse_count name raw dflt bound =
     (if raw = '''' then Inr dflt
      else (case Atoi raw of
              None \<Rightarrow> Inl (name @ '' must be a valid integer'')
            | Some n \<Rightarrow>
                if n \<le> 0 then Inl (name @ '' must be greater than 0'')
                else (case bound of
                        None \<Rightarrow> Inr n
                      | Some m \<Rightarrow> if n > m then Inl (name @ '' cannot be greater than 100'') else Inr n)))"

definition and_then :: "'e + 'a \<Rightarrow> ('a \<Rightarrow> 'e + 'b) \<Rightarrow> 'e + 'b" where
  "and_then r f = (case r of Inl e \<Rightarrow> Inl e | Inr a \<Rightarrow> f a)"

definition parseProductListQuery :: "(string \<Rightarrow> string) \<Rightarrow> string + list_query" where
  "parseProductListQuery values =
     (let sortBy = (if values ''sort'' = '''' then ''price'' else values ''sort'');
          order = (if values ''order'' = '''' then ''asc'' else values ''order'')
      in if order \<noteq> ''asc'' \<and> order \<noteq> ''desc'' then Inl ''order must be either asc or desc''
         else if sortBy \<notin> {''price'', ''rating'', ''name'', ''created_at''}
         then Inl ''sort must be one of: price, rating, name, created_at''
         else and_then (parse_price ''min_price'' (values ''min_price'')) (\<lambda>mn.
              and_then (parse_price ''max_price'' (values ''max_price'')) (\<lambda>mx.
              if (case (mn, mx) of (Some a, Some b) \<Rightarrow> b < a | _ \<Rightarrow> False)
              then Inl ''min_price cannot be greater than max_price''
              else and_then (parse_count ''page'' (values ''page'') 1 None) (\<lambda>page.
                   and_then (parse_count ''size'' (values ''size'') 20 (Some 100)) (\<lambda>n.
                   Inr \<lparr>q_MinPrice = mn, q_MaxPrice = mx, q_Category = values ''category'', q_Sort = sortBy,
                         q_Order = order, q_Page = page, q_Size = n\<rparr>)))))"

definition handle_List :: "string list \<Rightarrow> (string \<Rightarrow> string) \<Rightarrow> catalog \<Rightarrow> response option" where
  "handle_List ks values st =
     (case parseProductListQuery values of
        Inl e \<Rightarrow> Some (respondError 400 e)
      | Inr q \<Rightarrow> map_option (\<lambda>ps. respondJSON 200 (JProducts ps)) (store_List ks q st))"

definition handle_Stats :: "string list \<Rightarrow> catalog \<Rightarrow> response" where
  "handle_Stats ks st = respondJSON 200 (JStats (store_Stats ks st))"

text \<open>The routes, with the content type of the requests that have a body.\<close>

datatype request =
    ReqCreate string decoded
  | ReqList "string list" "string \<Rightarrow> string"
  | ReqStats "string list"
  | ReqGet string
  | ReqUpdate string string decoded
  | ReqDelete string

definition JSONOnly :: "string \<Rightarrow> bool" where
  "JSONOnly contentType \<longleftrightarrow>
     \<not> (contentType \<noteq> '''' \<and> contentType \<noteq> ''application/json'' \<and> \<not> prefix ''application/json;'' contentType)"

definition unsupported :: response where
  "unsupported = respondError 415 ''Content-Type must be application/json''"

fun mux_route :: "request \<Rightarrow> catalog \<Rightarrow> (response \<times> catalog) option" where
  "mux_route (ReqCreate ct d) st = (if JSONOnly ct then handle_Create d st else Some (unsupported, st))"
| "mux_route (ReqList ks values) st = map_option (\<lambda>r. (r, st)) (handle_List ks values st)"
| "mux_route (ReqStats ks) st = Some (handle_Stats ks st, st)"
| "mux_route (ReqGet i) st = Some (handle_Get i st, st)"
| "mux_route (ReqUpdate ct i d) st = (if JSONOnly ct then handle_Update i d st else Some (unsupported, st))"
| "mux_route (ReqDelete i) st = handle_Delete i st"

text \<open>
  \<open>Recovery\<close>.  A handler that panics leaves the store as it is: the writing handlers never do
  (below), and \<open>List\<close> only reads.
\<close>

definition serve :: "request \<Rightarrow> catalog \<Rightarrow> response \<times> catalog" where
  "serve r st = (case mux_route r st of None \<Rightarrow> (respondError 500 ''internal server error'', st) | Some x \<Rightarrow> x)"

fun serve_all :: "request list \<Rightarrow> catalog \<Rightarrow> response list \<times> catalog" where
  "serve_all [] st = ([], st)"
| "serve_all (r # rs) st = (let (x, st') = serve r st in map_prod ((#) x) id (serve_all rs st'))"

section \<open>Correctness\<close>

lemma and_then_Inr [simp]: "and_then r f = Inr b \<longleftrightarrow> (\<exists>a. r = Inr a \<and> f a = Inr b)"
  by (auto simp: and_then_def split: sum.splits)

lemma parse_count_bounds:
  "parse_count name raw dflt bound = Inr n \<Longrightarrow> 1 \<le> dflt \<Longrightarrow> in_int64 dflt
    \<Longrightarrow> 1 \<le> n \<and> in_int64 n \<and> (\<forall>m. bound = Some m \<longrightarrow> dflt \<le> m \<longrightarrow> n \<le> m)"
  by (auto simp: parse_count_def dest: Atoi_in_int64 split: if_splits option.splits)

lemma parse_query_bounds:
  assumes "parseProductListQuery values = Inr q"
  shows "1 \<le> q_Page q \<and> 1 \<le> q_Size q \<and> q_Size q \<le> 100 \<and> q_Order q \<in> {''asc'', ''desc''}
    \<and> q_Sort q \<in> {''price'', ''rating'', ''name'', ''created_at''}
    \<and> (\<forall>a b. q_MinPrice q = Some a \<longrightarrow> q_MaxPrice q = Some b \<longrightarrow> \<not> b < a)"
proof -
  obtain page n where p: "parse_count ''page'' (values ''page'') 1 None = Inr page"
      "parse_count ''size'' (values ''size'') 20 (Some 100) = Inr n" "q_Page q = page" "q_Size q = n"
    using assms by (auto simp: parseProductListQuery_def Let_def split: if_splits)
  have "1 \<le> page" using parse_count_bounds [OF p(1)] by (simp add: in_int64_def)
  moreover have "1 \<le> n \<and> n \<le> 100" using parse_count_bounds [OF p(2)] by (simp add: in_int64_def)
  moreover have "q_Order q \<in> {''asc'', ''desc''} \<and> q_Sort q \<in> {''price'', ''rating'', ''name'', ''created_at''}"
    "\<forall>a b. q_MinPrice q = Some a \<longrightarrow> q_MaxPrice q = Some b \<longrightarrow> \<not> b < a"
    using assms by (auto simp: parseProductListQuery_def Let_def split: if_splits)
  ultimately show ?thesis using p(3,4) by simp
qed

text \<open>Every stored product was validated.\<close>

definition valid_product :: "product \<Rightarrow> bool" where
  "valid_product p \<longleftrightarrow> p_ID p \<noteq> '''' \<and> p_Name p \<noteq> '''' \<and> 0 \<le> p_Price p"

definition served_inv :: "catalog \<Rightarrow> bool" where
  "served_inv st \<longleftrightarrow> store_inv st \<and> (\<forall>p\<in>ran (byID st). valid_product p)"

fun req_decoded :: "request \<Rightarrow> product option" where
  "req_decoded (ReqCreate _ (Inr p)) = Some p"
| "req_decoded (ReqUpdate _ _ (Inr p)) = Some p"
| "req_decoded _ = None"

definition json_price :: "request \<Rightarrow> bool" where
  "json_price r \<longleftrightarrow> (\<forall>p. req_decoded r = Some p \<longrightarrow> p_Price p \<noteq> NaN)"

lemma f64_not_negative: "a \<noteq> NaN \<Longrightarrow> \<not> a < 0 \<longleftrightarrow> 0 \<le> (a :: f64)"
  by (simp add: f64_not_less zero_f64_def)

lemma served_invI:
  "store_inv st' \<Longrightarrow> \<forall>p\<in>ran (byID st'). p \<in> ran (byID st) \<or> valid_product p \<Longrightarrow> served_inv st \<Longrightarrow> served_inv st'"
  by (auto simp: served_inv_def)

lemma store_step_served:
  assumes inv: "served_inv st" and x: "op_priced x"
    and v: "\<And>p. x = CreateOp (Some p) \<Longrightarrow> valid_product p" "\<And>i p. x = UpdateOp i (Some p) \<Longrightarrow> valid_product (p\<lparr>p_ID := i\<rparr>)"
  shows "\<exists>e st'. store_step x st = Some (e, st') \<and> served_inv st'"
proof -
  obtain st' where st': "store_step x st = Some (fst (spec_op x (byID st)), st')" "store_inv st'"
      "byID st' = snd (spec_op x (byID st))"
    using store_op_refines [OF _ x, of st] inv by (auto simp: served_inv_def)
  have "\<forall>p\<in>ran (byID st'). p \<in> ran (byID st) \<or> valid_product p"
    using v unfolding st'(3)
    by (cases "(x, byID st)" rule: spec_op.cases) (auto simp: ran_def split: if_splits)
  then show ?thesis using served_invI [OF st'(2) _ inv] st'(1) by blast
qed

lemma handle_Create_served:
  assumes "served_inv st" "\<forall>p. d = Inr p \<longrightarrow> p_Price p \<noteq> NaN"
  shows "\<exists>r st'. handle_Create d st = Some (r, st') \<and> served_inv st' \<and> r_status r \<in> {201, 400, 409}"
proof (cases d)
  case (Inr p)
  show ?thesis
  proof (cases "p_ID p = '''' \<or> p_Name p = '''' \<or> p_Price p < 0")
    case False
    then have "valid_product p" using assms(2) Inr f64_not_negative by (simp add: valid_product_def)
    then obtain e st' where "store_Create (Some p) st = Some (e, st')" "served_inv st'"
      using store_step_served [OF assms(1), of "CreateOp (Some p)"] assms(2) Inr by auto
    moreover have "e = None \<or> e = Some ErrDuplicate"
      using calculation(1) by (auto simp: store_Create_def split: option.splits)
    ultimately show ?thesis using False Inr by (auto simp: handle_Create_def respondError_def respondJSON_def)
  qed (use assms(1) Inr in \<open>simp add: handle_Create_def respondError_def respondJSON_def\<close>)
qed (use assms(1) in \<open>simp add: handle_Create_def respondError_def respondJSON_def\<close>)

lemma handle_Update_served:
  assumes "served_inv st" "\<forall>p. d = Inr p \<longrightarrow> p_Price p \<noteq> NaN"
  shows "\<exists>r st'. handle_Update i d st = Some (r, st') \<and> served_inv st' \<and> r_status r \<in> {204, 400, 404}"
proof (cases "i = '''' \<or> (\<exists>e. d = Inl e)")
  case False
  then obtain p where d: "d = Inr p" "i \<noteq> ''''" by (cases d) auto
  show ?thesis
  proof (cases "p_Name p = '''' \<or> p_Price p < 0")
    case False
    then have "valid_product (p\<lparr>p_ID := i\<rparr>)" using assms(2) d f64_not_negative by (simp add: valid_product_def)
    then obtain e st' where "store_Update i (Some p) st = Some (e, st')" "served_inv st'"
      using store_step_served [OF assms(1), of "UpdateOp i (Some p)"] assms(2) d by auto
    moreover have "e = None \<or> e = Some ErrNotFound"
      using calculation(1) by (auto simp: store_Update_def Let_def split: option.splits)
    ultimately show ?thesis using False d by (auto simp: handle_Update_def respondError_def respondJSON_def)
  qed (use assms(1) d in \<open>simp add: handle_Update_def respondError_def respondJSON_def\<close>)
qed (use assms(1) in \<open>auto simp: handle_Update_def respondError_def respondJSON_def\<close>)

lemma handle_Delete_served:
  assumes "served_inv st"
  shows "\<exists>r st'. handle_Delete i st = Some (r, st') \<and> served_inv st' \<and> r_status r \<in> {204, 400, 404}"
proof -
  obtain e st' where "store_Delete i st = Some (e, st')" "served_inv st'"
    using store_step_served [OF assms, of "DeleteOp i"] by auto
  moreover have "e = None \<or> e = Some ErrNotFound"
    using calculation(1) by (auto simp: store_Delete_def split: option.splits)
  ultimately show ?thesis using assms by (auto simp: handle_Delete_def respondError_def respondJSON_def)
qed

lemma getListCandidates_total: assumes "store_inv st" shows "\<exists>c. getListCandidates ks q st = Some c"
proof -
  have "\<exists>gs. bt_RangeQuery (byPrice st) a b = Some gs" for a b
    using bt_range_prices [of "byID st" "byPrice st" a b] assms unfolding store_inv_def by blast
  then show ?thesis by (simp add: getListCandidates_def getCandidatesFromPriceIndex_def Let_def)
qed

lemma handle_List_total:
  assumes "served_inv st"
    "\<forall>q. parseProductListQuery values = Inr q \<longrightarrow> q_Page q * q_Size q < 2 ^ 63"
  shows "\<exists>r. handle_List ks values st = Some r \<and> r_status r \<in> {200, 400}"
proof (cases "parseProductListQuery values")
  case (Inr q)
  obtain c where "getListCandidates ks q st = Some c"
    using getListCandidates_total [of st ks q] assms(1) by (auto simp: served_inv_def)
  moreover have "1 \<le> q_Page q" "1 \<le> q_Size q" using parse_query_bounds [OF Inr] by auto
  ultimately show ?thesis using assms(2) Inr
    by (simp add: handle_List_def store_List_def respondJSON_def paginate_in_range)
qed (simp add: handle_List_def respondError_def respondJSON_def)

text \<open>The only requests answered with 500.\<close>

definition page_overflows :: "request \<Rightarrow> bool" where
  "page_overflows r \<longleftrightarrow>
     (case r of
        ReqList ks values \<Rightarrow>
          (case parseProductListQuery values of Inl _ \<Rightarrow> False | Inr q \<Rightarrow> 2 ^ 63 \<le> q_Page q * q_Size q)
      | _ \<Rightarrow> False)"

lemma serve_served:
  assumes inv: "served_inv st" and price: "json_price r"
  shows "\<exists>x st'. serve r st = (x, st') \<and> served_inv st' \<and> (r_status x = 500 \<longrightarrow> page_overflows r)"
proof (cases r)
  case (ReqCreate ct d)
  have "\<forall>p. d = Inr p \<longrightarrow> p_Price p \<noteq> NaN" using price by (auto simp: json_price_def ReqCreate)
  then show ?thesis using handle_Create_served [OF inv, of d] inv
    by (auto simp: serve_def ReqCreate unsupported_def respondError_def respondJSON_def)
next
  case (ReqUpdate ct i d)
  have "\<forall>p. d = Inr p \<longrightarrow> p_Price p \<noteq> NaN" using price by (auto simp: json_price_def ReqUpdate)
  then show ?thesis using handle_Update_served [OF inv, of d i] inv
    by (auto simp: serve_def ReqUpdate unsupported_def respondError_def respondJSON_def)
next
  case (ReqDelete i)
  then show ?thesis using handle_Delete_served [OF inv, of i] by (auto simp: serve_def)
next
  case (ReqList ks vals)
  then show ?thesis using handle_List_total [OF inv, of vals ks] inv
    by (auto simp: serve_def page_overflows_def split: option.splits sum.splits) (fastforce+)
next
  case (ReqGet i)
  then show ?thesis using inv
    by (auto simp: serve_def handle_Get_def store_Get_def respondError_def respondJSON_def split: option.splits)
next
  case (ReqStats ks)
  then show ?thesis using inv by (auto simp: serve_def handle_Stats_def respondJSON_def)
qed

lemma serve_all_served:
  "served_inv st \<Longrightarrow> \<forall>r\<in>set rs. json_price r
    \<Longrightarrow> \<exists>xs st'. serve_all rs st = (xs, st') \<and> served_inv st'
      \<and> list_all2 (\<lambda>x r. r_status x = 500 \<longrightarrow> page_overflows r) xs rs"
proof (induction rs arbitrary: st)
  case (Cons r rs)
  obtain x st1 where x: "serve r st = (x, st1)" "served_inv st1" "r_status x = 500 \<longrightarrow> page_overflows r"
    using serve_served [OF Cons.prems(1), of r] Cons.prems(2) by auto
  then show ?case using Cons.IH [OF x(2)] Cons.prems(2) by auto
qed simp

text \<open>
  C32. The service validates: whatever requests a new store is sent (JSON numbers are never
  NaN), every stored product has a non-empty id and name, a price that is not negative, and
  stands under its own id; and no request is answered with 500 except a listing whose page
  times size does not fit into an \<open>int\<close>.
\<close>

theorem catalog_service_safe:
  assumes "\<forall>r\<in>set rs. json_price r"
  shows "\<exists>st0 xs st. store_New = Some st0 \<and> serve_all rs st0 = (xs, st)
    \<and> (\<forall>i p. byID st i = Some p \<longrightarrow> valid_product p \<and> p_ID p = i)
    \<and> list_all2 (\<lambda>x r. r_status x = 500 \<longrightarrow> page_overflows r) xs rs"
proof -
  obtain st0 where st0: "store_New = Some st0" "store_inv st0" "byID st0 = Map.empty"
    using store_New_correct by blast
  have "served_inv st0" using st0 by (simp add: served_inv_def)
  then obtain xs st where "serve_all rs st0 = (xs, st)" "served_inv st"
      "list_all2 (\<lambda>x r. r_status x = 500 \<longrightarrow> page_overflows r) xs rs"
    using serve_all_served assms by blast
  moreover from this have "byID st i = Some p \<Longrightarrow> valid_product p \<and> p_ID p = i" for i p
    by (auto simp: served_inv_def store_inv_def ids_ok_def ran_def)
  ultimately show ?thesis using st0(1) by blast
qed

theorem catalog_service_safe_witness:
  "\<exists>st0 xs st. store_New = Some st0
    \<and> serve_all [ReqCreate '''' (Inr (sample_product ''a'' 1)), ReqDelete ''b''] st0 = (xs, st)
    \<and> r_status (xs ! 0) \<noteq> 500 \<and> r_status (xs ! 1) \<noteq> 500"
proof -
  let ?rs = "[ReqCreate '''' (Inr (sample_product ''a'' 1)), ReqDelete ''b'']"
  have "\<forall>r\<in>set ?rs. json_price r" by (simp add: json_price_def sample_product_def one_f64_def)
  then obtain st0 xs st where "store_New = Some st0" "serve_all ?rs st0 = (xs, st)"
      and l: "list_all2 (\<lambda>x r. r_status x = 500 \<longrightarrow> page_overflows r) xs ?rs"
    using catalog_service_safe [of ?rs] by blast
  moreover have "r_status (xs ! 0) \<noteq> 500" "r_status (xs ! 1) \<noteq> 500"
    using l by (auto simp: list_all2_Cons2 page_overflows_def)
  ultimately show ?thesis by blast
qed

end
