(* ===== verification/Category_Tree.thy ===== *)
theory Category_Tree
  imports Go_Prelude
begin

text \<open>
  The category tree of the auction service (\<open>13,14-day/internal/ds/tree/tree.go\<close>): a tree of
  unique values with an index from a value to its node, and the breadth-first enumeration of a
  subtree.  Every node the code makes is in the index under its value, so a pointer to a node
  is that value.
\<close>

section \<open>Model\<close>

datatype tree_error = ErrParentNotFound | ErrChildExists | ErrNodeNotFound

record 'a tnode =
  n_Value :: 'a
  n_Parent :: "'a option"
  n_Children :: "'a \<rightharpoonup> 'a"
  n_order :: "'a list"

record 'a ctree =
  t_Root :: 'a
  t_index :: "'a \<rightharpoonup> 'a tnode"

definition NewTree :: "'a \<Rightarrow> 'a ctree" where
  "NewTree r =
     \<lparr>t_Root = r,
      t_index = [r \<mapsto> \<lparr>n_Value = r, n_Parent = None, n_Children = Map.empty, n_order = []\<rparr>]\<rparr>"

definition tree_Add :: "'a \<Rightarrow> 'a \<Rightarrow> 'a ctree \<Rightarrow> tree_error option \<times> 'a ctree" where
  "tree_Add parent child t =
     (case t_index t parent of
        None \<Rightarrow> (Some ErrParentNotFound, t)
      | Some parentNode \<Rightarrow>
          (case t_index t child of
             Some _ \<Rightarrow> (Some ErrChildExists, t)
           | None \<Rightarrow>
               (let childNode = \<lparr>n_Value = child, n_Parent = Some parent, n_Children = Map.empty, n_order = []\<rparr>;
                    parentNode' = parentNode\<lparr>n_Children := (n_Children parentNode)(child \<mapsto> child),
                                             n_order := n_order parentNode @ [child]\<rparr>
                in (None, t\<lparr>t_index := (t_index t)(parent \<mapsto> parentNode', child \<mapsto> childNode)\<rparr>))))"

definition tree_Get :: "'a \<Rightarrow> 'a ctree \<Rightarrow> 'a tnode option" where
  "tree_Get v t = t_index t v"

text \<open>
  The loop of \<open>SubtreeValues\<close>.  A queue entry is a node pointer, \<open>None\<close> for nil.  The result is
  undefined where the code dereferences nil or does not stop.
\<close>

partial_function (option) subtree_loop ::
  "('a \<rightharpoonup> 'a tnode) \<Rightarrow> 'a option list \<Rightarrow> 'a list \<Rightarrow> 'a list option" where
  "subtree_loop index queue vals =
     (case queue of
        [] \<Rightarrow> Some vals
      | None # _ \<Rightarrow> None
      | Some v # rest \<Rightarrow>
          (case index v of
             None \<Rightarrow> None
           | Some current \<Rightarrow>
               subtree_loop index (rest @ map (n_Children current) (n_order current)) (vals @ [n_Value current])))"

declare subtree_loop.simps [code]

definition SubtreeValues :: "'a \<Rightarrow> 'a ctree \<Rightarrow> (tree_error + 'a list) option" where
  "SubtreeValues v t =
     (case t_index t v of
        None \<Rightarrow> Some (Inl ErrNodeNotFound)
      | Some _ \<Rightarrow> map_option Inr (subtree_loop (t_index t) [Some v] []))"

section \<open>The tree invariant\<close>

definition child_rel :: "'a ctree \<Rightarrow> ('a \<times> 'a) set" where
  "child_rel t = {(p, c). \<exists>n. t_index t p = Some n \<and> c \<in> set (n_order n)}"

definition node_ok :: "('a \<rightharpoonup> 'a tnode) \<Rightarrow> 'a \<Rightarrow> 'a \<Rightarrow> 'a tnode \<Rightarrow> bool" where
  "node_ok ix r v n \<longleftrightarrow>
     n_Value n = v \<and> distinct (n_order n) \<and> (\<forall>c\<in>set (n_order n). n_Children n c = Some c)
     \<and> (n_Parent n = None \<longleftrightarrow> v = r) \<and> (\<forall>p. n_Parent n = Some p \<longrightarrow> p \<in> dom ix)
     \<and> (\<forall>c. c \<in> set (n_order n) \<longleftrightarrow> (\<exists>m. ix c = Some m \<and> n_Parent m = Some v))"

definition tree_inv :: "'a ctree \<Rightarrow> bool" where
  "tree_inv t \<longleftrightarrow>
     finite (dom (t_index t)) \<and> t_Root t \<in> dom (t_index t)
     \<and> (\<forall>v n. t_index t v = Some n \<longrightarrow> node_ok (t_index t) (t_Root t) v n)
     \<and> acyclic (child_rel t)"

lemma tree_invD:
  assumes "tree_inv t" "t_index t v = Some n"
  shows "n_Value n = v" "distinct (n_order n)" "c \<in> set (n_order n) \<Longrightarrow> n_Children n c = Some c"
    "c \<in> set (n_order n) \<longleftrightarrow> (\<exists>m. t_index t c = Some m \<and> n_Parent m = Some v)"
    "n_Parent n = None \<longleftrightarrow> v = t_Root t" "n_Parent n = Some p \<Longrightarrow> p \<in> dom (t_index t)"
  using assms unfolding tree_inv_def node_ok_def by blast+

lemma NewTree_inv: "tree_inv (NewTree r)"
proof -
  have "child_rel (NewTree r) = {}" by (auto simp: child_rel_def NewTree_def split: if_splits)
  then show ?thesis by (auto simp: tree_inv_def node_ok_def NewTree_def acyclic_def split: if_splits)
qed

lemma child_rel_parent: "tree_inv t \<Longrightarrow> (p, c) \<in> child_rel t \<Longrightarrow> \<exists>m. t_index t c = Some m \<and> n_Parent m = Some p"
  unfolding child_rel_def using tree_invD(4) by fastforce

lemma child_rel_unique: "tree_inv t \<Longrightarrow> (p, c) \<in> child_rel t \<Longrightarrow> (q, c) \<in> child_rel t \<Longrightarrow> p = q"
  using child_rel_parent [of t p c] child_rel_parent [of t q c] by auto

lemma child_rel_Add:
  assumes "tree_inv t" "t_index t p = Some n" "t_index t c = None"
  shows "child_rel (snd (tree_Add p c t)) = insert (p, c) (child_rel t)"
  using assms by (auto simp: tree_Add_def child_rel_def Let_def split: if_splits)

lemma tree_Add_inv:
  assumes inv: "tree_inv t" shows "tree_inv (snd (tree_Add p c t))"
proof (cases "t_index t p")
  case (Some n)
  show ?thesis
  proof (cases "t_index t c")
    case None
    let ?t = "snd (tree_Add p c t)"
    have pc: "p \<noteq> c" using Some None by auto
    have "c \<notin> Domain (child_rel t)" using None by (auto simp: child_rel_def)
    then have "(c, p) \<notin> (child_rel t)\<^sup>*" using pc by (auto elim: converse_rtranclE)
    moreover have "acyclic (child_rel t)" using inv by (simp add: tree_inv_def)
    ultimately have acyc: "acyclic (child_rel ?t)"
      by (simp add: child_rel_Add [OF inv Some None] acyclic_insert)
    have root: "t_Root t \<noteq> c" "t_Root ?t = t_Root t" "t_Root t \<in> dom (t_index t)" "finite (dom (t_index t))"
      using inv None Some by (auto simp: tree_inv_def tree_Add_def Let_def)
    have ix: "t_index ?t = (t_index t)(p \<mapsto> n\<lparr>n_Children := (n_Children n)(c \<mapsto> c), n_order := n_order n @ [c]\<rparr>,
        c \<mapsto> \<lparr>n_Value = c, n_Parent = Some p, n_Children = Map.empty, n_order = []\<rparr>)"
      using None Some by (simp add: tree_Add_def Let_def)
    have notin: "c \<notin> set (n_order m)" "n_Parent m \<noteq> Some c" if "t_index t v = Some m" for v m
      using tree_invD(4) [OF inv that, of c] tree_invD(6) [OF inv that, of c] None by auto
    have "node_ok (t_index ?t) (t_Root t) v m" if vm: "t_index ?t v = Some m" for v m
    proof (cases "v = c")
      case True
      then show ?thesis using vm root pc notin notin(2) [OF Some] unfolding ix node_ok_def
        by (auto split: if_splits)
    next
      case False
      obtain m' where m': "t_index t v = Some m'" using vm False Some unfolding ix by (auto split: if_splits)
      have children: "x \<in> set (n_order m) \<longleftrightarrow> (\<exists>y. t_index ?t x = Some y \<and> n_Parent y = Some v)" for x
        using vm False m' Some pc tree_invD(4) [OF inv m', of x] notin(1) [OF m']
        unfolding ix by (cases "x = c"; cases "x = p"; cases "v = p") (auto split: if_splits)
      have "n_Value m = v" "distinct (n_order m)" "n_Parent m = None \<longleftrightarrow> v = t_Root t"
        "\<forall>q. n_Parent m = Some q \<longrightarrow> q \<in> dom (t_index ?t)"
        using vm False m' Some tree_invD(1,2,5,6) [OF inv m'] notin(1) [OF m']
        unfolding ix by (auto split: if_splits)
      moreover have "\<forall>x\<in>set (n_order m). n_Children m x = Some x"
        using vm False m' Some tree_invD(3) [OF inv m'] unfolding ix by (auto split: if_splits)
      ultimately show ?thesis using children unfolding node_ok_def by blast
    qed
    then show ?thesis using acyc root unfolding tree_inv_def by (simp add: ix)
  qed (use inv Some in \<open>simp add: tree_Add_def\<close>)
qed (use inv in \<open>simp add: tree_Add_def\<close>)

section \<open>Breadth-first enumeration\<close>

definition descendants :: "'a ctree \<Rightarrow> 'a \<Rightarrow> 'a set" where
  "descendants t v = {w. (v, w) \<in> (child_rel t)\<^sup>*}"

lemma child_rel_dom: "tree_inv t \<Longrightarrow> (p, c) \<in> child_rel t \<Longrightarrow> c \<in> dom (t_index t)"
  using child_rel_parent by fast

lemma descendants_dom: "tree_inv t \<Longrightarrow> v \<in> dom (t_index t) \<Longrightarrow> descendants t v \<subseteq> dom (t_index t)"
proof
  fix w assume t: "tree_inv t" "v \<in> dom (t_index t)" and "w \<in> descendants t v"
  then have "(v, w) \<in> (child_rel t)\<^sup>*" by (simp add: descendants_def)
  then show "w \<in> dom (t_index t)" by (cases rule: rtranclE) (use t child_rel_dom [OF t(1)] in blast)+
qed

lemma descendants_finite: "tree_inv t \<Longrightarrow> v \<in> dom (t_index t) \<Longrightarrow> finite (descendants t v)"
  using descendants_dom finite_subset unfolding tree_inv_def by metis

lemma descendants_step:
  assumes "t_index t v = Some n"
  shows "descendants t v = insert v (\<Union>c\<in>set (n_order n). descendants t c)"
proof (intro equalityI subsetI)
  fix w assume "w \<in> descendants t v"
  then have "(v, w) \<in> (child_rel t)\<^sup>*" by (simp add: descendants_def)
  then show "w \<in> insert v (\<Union>c\<in>set (n_order n). descendants t c)"
    by (cases rule: converse_rtranclE) (use assms in \<open>auto simp: child_rel_def descendants_def\<close>)
next
  fix w assume "w \<in> insert v (\<Union>c\<in>set (n_order n). descendants t c)"
  moreover have "c \<in> set (n_order n) \<Longrightarrow> (v, c) \<in> child_rel t" for c using assms by (auto simp: child_rel_def)
  ultimately show "w \<in> descendants t v" by (auto simp: descendants_def intro: converse_rtrancl_into_rtrancl)
qed

lemma ancestors_linear:
  assumes inv: "tree_inv t" and "(a, w) \<in> (child_rel t)\<^sup>*" "(b, w) \<in> (child_rel t)\<^sup>*"
  shows "(a, b) \<in> (child_rel t)\<^sup>* \<or> (b, a) \<in> (child_rel t)\<^sup>*"
  using assms(2,3)
proof (induction rule: rtrancl_induct)
  case (step y z)
  from step.prems show ?case
  proof (cases rule: rtranclE)
    case base
    then show ?thesis using step.hyps by auto
  next
    case (step y')
    then have "y' = y" using child_rel_unique [OF inv] \<open>(y, z) \<in> child_rel t\<close> by blast
    then show ?thesis using step \<open>(b, y) \<in> (child_rel t)\<^sup>* \<Longrightarrow> _\<close> by blast
  qed
qed auto

lemma sibling_not_ancestor:
  assumes inv: "tree_inv t" and "(v, c) \<in> child_rel t" "(v, d) \<in> child_rel t" "c \<noteq> d"
  shows "(c, d) \<notin> (child_rel t)\<^sup>*"
proof
  assume "(c, d) \<in> (child_rel t)\<^sup>*"
  then obtain y where "(c, y) \<in> (child_rel t)\<^sup>*" "(y, d) \<in> child_rel t"
    using \<open>c \<noteq> d\<close> by (auto elim: rtranclE)
  moreover from this have "y = v" using child_rel_unique [OF inv] assms(3) by blast
  ultimately have "(v, v) \<in> (child_rel t)\<^sup>+" using assms(2) by (meson rtrancl_into_trancl2)
  then show False using inv unfolding tree_inv_def acyclic_def by blast
qed

lemma siblings_disjoint:
  assumes inv: "tree_inv t" and "(v, c) \<in> child_rel t" "(v, d) \<in> child_rel t" "c \<noteq> d"
  shows "descendants t c \<inter> descendants t d = {}"
  using ancestors_linear [OF inv, of c _ d] sibling_not_ancestor [OF assms]
    sibling_not_ancestor [OF inv assms(3,2)] assms(4) unfolding descendants_def by blast

lemma mset_set_UN_list:
  "distinct cs \<Longrightarrow> \<forall>c\<in>set cs. finite (D c) \<Longrightarrow> \<forall>c\<in>set cs. \<forall>d\<in>set cs. c \<noteq> d \<longrightarrow> D c \<inter> D d = {}
    \<Longrightarrow> mset_set (\<Union>c\<in>set cs. D c) = (\<Sum>c\<leftarrow>cs. mset_set (D c))"
proof (induction cs)
  case (Cons c cs)
  then have "D c \<inter> (\<Union>c\<in>set cs. D c) = {}" by auto
  then show ?case using Cons by (simp add: mset_set_Union)
qed simp

lemma mset_descendants:
  assumes inv: "tree_inv t" and v: "t_index t v = Some n"
  shows "mset_set (descendants t v) = add_mset v (\<Sum>c\<leftarrow>n_order n. mset_set (descendants t c))"
proof -
  let ?U = "\<Union>c\<in>set (n_order n). descendants t c"
  have edge: "(v, c) \<in> child_rel t" if "c \<in> set (n_order n)" for c using v that by (auto simp: child_rel_def)
  have fin: "finite (descendants t c)" if "c \<in> set (n_order n)" for c
    using descendants_finite [OF inv child_rel_dom [OF inv edge [OF that]]] .
  have "(v, v) \<notin> (child_rel t)\<^sup>+" using inv unfolding tree_inv_def acyclic_def by blast
  then have "v \<notin> ?U" using edge by (auto simp: descendants_def intro: rtrancl_into_trancl2)
  moreover have "mset_set ?U = (\<Sum>c\<leftarrow>n_order n. mset_set (descendants t c))"
    using fin siblings_disjoint [OF inv edge edge] by (intro mset_set_UN_list tree_invD(2) [OF inv v]) blast+
  ultimately show ?thesis using fin by (simp add: descendants_step [OF v])
qed

text \<open>The loop visits the descendants of the queued nodes, each once; it always ends.\<close>

lemma subtree_loop_total:
  assumes inv: "tree_inv t"
  shows "set vs \<subseteq> dom (t_index t)
    \<Longrightarrow> \<exists>out. subtree_loop (t_index t) (map Some vs) acc = Some (acc @ out)
          \<and> mset out = (\<Sum>v\<leftarrow>vs. mset_set (descendants t v))"
proof (induction "size (\<Sum>v\<leftarrow>vs. mset_set (descendants t v))" arbitrary: vs acc rule: less_induct)
  case less
  show ?case
  proof (cases vs)
    case Nil
    then show ?thesis by (simp add: subtree_loop.simps)
  next
    case (Cons v rest)
    then obtain n where n: "t_index t v = Some n" using less.prems by auto
    let ?vs = "rest @ n_order n"
    have m: "(\<Sum>v\<leftarrow>vs. mset_set (descendants t v)) = add_mset v (\<Sum>v\<leftarrow>?vs. mset_set (descendants t v))"
      by (simp add: Cons mset_descendants [OF inv n])
    have "set ?vs \<subseteq> dom (t_index t)"
      using less.prems child_rel_dom [OF inv] n by (auto simp: Cons child_rel_def)
    then obtain out where out: "subtree_loop (t_index t) (map Some ?vs) (acc @ [v]) = Some ((acc @ [v]) @ out)"
        "mset out = (\<Sum>v\<leftarrow>?vs. mset_set (descendants t v))"
      using less.hyps [of ?vs "acc @ [v]"] m by auto
    have ch: "map (n_Children n) (n_order n) = map Some (n_order n)" using tree_invD(3) [OF inv n] by simp
    have "subtree_loop (t_index t) (map Some vs) acc = Some (acc @ v # out)"
      using out(1) by (subst subtree_loop.simps) (simp add: Cons n ch tree_invD(1) [OF inv n])
    then show ?thesis using m out(2) by (intro exI [of _ "v # out"]) simp
  qed
qed

lemma SubtreeValues_correct:
  assumes inv: "tree_inv t" and v: "v \<in> dom (t_index t)"
  obtains vs where "SubtreeValues v t = Some (Inr vs)" "distinct vs" "set vs = descendants t v"
proof -
  obtain out where "subtree_loop (t_index t) [Some v] [] = Some out" "mset out = mset_set (descendants t v)"
    using subtree_loop_total [OF inv, of "[v]" "[]"] v by auto
  moreover from this have set: "set out = descendants t v"
    using descendants_finite [OF inv v] by (metis finite_set_mset_mset_set set_mset_mset)
  moreover have "distinct out"
    using calculation descendants_finite [OF inv v] by (simp add: distinct_count_atmost_1 count_mset_set')
  ultimately show ?thesis using that v by (auto simp: SubtreeValues_def)
qed

end
