(* ===== verification/Auction.thy ===== *)
theory Auction
  imports Category_Tree Heaps Go_Float
begin

text \<open>
  The auction service (\<open>13,14-day/internal/auction\<close>): users, items, bids, the bid heap of each
  item, the stacks of each user's bids, the category sets and the watchers.

  A pointer to a bid is its id: the code enters every bid into \<open>bidsByID\<close> under its id before it
  stores a pointer anywhere and never removes one.  Users and items are found by id likewise.
  A channel is its number; \<open>channels\<close> holds what is buffered in each.  Every operation runs under the
  lock of its item and the store's lock, so it is one step; the time is an argument.
\<close>

section \<open>Stack\<close>

definition stk_Push :: "'a list \<Rightarrow> 'a \<Rightarrow> 'a list" where
  "stk_Push items item = items @ [item]"

definition stk_Pop :: "'a list \<Rightarrow> ('a \<times> 'a list) option" where
  "stk_Pop items = (if length items = 0 then None else Some (items ! (length items - 1), take (length items - 1) items))"

section \<open>Data\<close>

datatype item_status = ItemStatusActive | ItemStatusEnded | ItemStatusCancelled

record bid =
  b_ID :: int
  b_ItemID :: int
  b_UserID :: int
  b_Amount :: f64
  b_IsRetracted :: bool
  b_Timestamp :: gotime

record user =
  u_ID :: int
  u_Name :: string
  u_Balance :: f64
  u_ActiveBids :: "int list"

record item =
  i_ID :: int
  i_Name :: string
  i_Category :: string
  i_Description :: string
  i_SellerID :: int
  i_StartPrice :: f64
  i_CurrentBid :: "int option"
  i_BidHistory :: "int list"
  i_StartTime :: gotime
  i_EndTime :: gotime
  i_Status :: item_status

datatype auction_error =
    ErrUserNotFound | ErrItemNotFound | ErrBidNotFound | ErrCategoryNotFound | ErrInvalidBidAmount
  | ErrInvalidUserInput | ErrInvalidItemInput | ErrAuctionNotActive | ErrSellerCannotBid
  | ErrInsufficientBalance | ErrBidOwnershipMismatch | ErrBidItemMismatch | ErrBidAlreadyRetracted
  | ErrNoBidToRetract | ErrTree tree_error

datatype bid_action = BidEventPlaced | BidEventRetracted | BidEventEnded

record bid_event =
  e_ItemID :: int
  e_BidID :: int
  e_Action :: bid_action
  e_Timestamp :: gotime

record auction =
  categoryTree :: "string ctree"
  itemIDsByCategory :: "string \<rightharpoonup> int set"
  usersByID :: "int \<rightharpoonup> user"
  itemsByID :: "int \<rightharpoonup> item"
  bidsByID :: "int \<rightharpoonup> bid"
  itemBidHeaps :: "int \<rightharpoonup> int list"
  itemBidHistory :: "int \<rightharpoonup> int list"
  watchersByItemID :: "int \<rightharpoonup> nat list"
  userBidStacks :: "int \<rightharpoonup> (int \<rightharpoonup> int list)"
  nextUserID :: int
  nextItemID :: int
  nextBidID :: int
  channels :: "nat \<rightharpoonup> bid_event list"

type_synonym 'a result = "auction_error + 'a"

definition root_category :: string where "root_category = ''ALL''"

definition NewAuctionStore :: auction where
  "NewAuctionStore =
     \<lparr>categoryTree = NewTree root_category, itemIDsByCategory = [root_category \<mapsto> {}],
      usersByID = Map.empty, itemsByID = Map.empty, bidsByID = Map.empty, itemBidHeaps = Map.empty,
      itemBidHistory = Map.empty, watchersByItemID = Map.empty, userBidStacks = Map.empty,
      nextUserID = 0, nextItemID = 0, nextBidID = 0, channels = Map.empty\<rparr>"

section \<open>Store\<close>

definition generateUserID :: "auction \<Rightarrow> int \<times> auction" where
  "generateUserID st = (let n = wrap64 (nextUserID st + 1) in (n, st\<lparr>nextUserID := n\<rparr>))"

definition generateItemID :: "auction \<Rightarrow> int \<times> auction" where
  "generateItemID st = (let n = wrap64 (nextItemID st + 1) in (n, st\<lparr>nextItemID := n\<rparr>))"

definition generateBidID :: "auction \<Rightarrow> int \<times> auction" where
  "generateBidID st = (let n = wrap64 (nextBidID st + 1) in (n, st\<lparr>nextBidID := n\<rparr>))"

text \<open>
  The \<open>getOrCreate\<close> helpers return the stored container, an empty one when there is none; the
  callers below write the container they change back under the same key.
\<close>

definition getOrCreateItemHeap :: "int \<Rightarrow> auction \<Rightarrow> int list" where
  "getOrCreateItemHeap i st = (case itemBidHeaps st i of Some h \<Rightarrow> h | None \<Rightarrow> [])"

definition getOrCreateItemBidHistory :: "int \<Rightarrow> auction \<Rightarrow> int list" where
  "getOrCreateItemBidHistory i st = (case itemBidHistory st i of Some h \<Rightarrow> h | None \<Rightarrow> [])"

definition getOrCreateUserItemBidStack :: "int \<Rightarrow> int \<Rightarrow> auction \<Rightarrow> int list" where
  "getOrCreateUserItemBidStack u i st =
     (case userBidStacks st u of
        None \<Rightarrow> []
      | Some itemStacks \<Rightarrow> (case itemStacks i of Some s \<Rightarrow> s | None \<Rightarrow> []))"

definition set_stack :: "int \<Rightarrow> int \<Rightarrow> int list \<Rightarrow> auction \<Rightarrow> auction" where
  "set_stack u i s st =
     (let itemStacks = (case userBidStacks st u of None \<Rightarrow> Map.empty | Some m \<Rightarrow> m)
      in st\<lparr>userBidStacks := (userBidStacks st)(u \<mapsto> itemStacks(i \<mapsto> s))\<rparr>)"

fun ensure_path :: "string \<Rightarrow> string list \<Rightarrow> string ctree \<Rightarrow> tree_error option \<times> string ctree" where
  "ensure_path parent [] t = (None, t)"
| "ensure_path parent (category # path) t =
     (if category = '''' then ensure_path parent path t
      else (case tree_Get category t of
              Some _ \<Rightarrow> ensure_path category path t
            | None \<Rightarrow>
                (let (err, t') = tree_Add parent category t
                 in if err \<noteq> None \<and> err \<noteq> Some ErrChildExists then (err, t')
                    else ensure_path category path t')))"

definition ensureCategoryPath :: "string list \<Rightarrow> auction \<Rightarrow> tree_error option \<times> auction" where
  "ensureCategoryPath path st =
     (if length path = 0 then (None, st)
      else (let (err, t) = ensure_path root_category path (categoryTree st) in (err, st\<lparr>categoryTree := t\<rparr>)))"

definition addItemToCategory :: "int \<Rightarrow> string \<Rightarrow> auction \<Rightarrow> auction" where
  "addItemToCategory i category st =
     (let ids = (case itemIDsByCategory st category of None \<Rightarrow> {} | Some s \<Rightarrow> s)
      in st\<lparr>itemIDsByCategory := (itemIDsByCategory st)(category \<mapsto> insert i ids)\<rparr>)"

text \<open>Watchers.  The list of an item's watchers is in the order a \<open>range\<close> over the set visits it.\<close>

definition defaultWatcherChannelSize :: nat where "defaultWatcherChannelSize = 64"

definition addWatcher :: "int \<Rightarrow> nat \<Rightarrow> auction \<Rightarrow> auction" where
  "addWatcher i ch st =
     (let ws = (case watchersByItemID st i of None \<Rightarrow> [] | Some ws \<Rightarrow> ws)
      in st\<lparr>watchersByItemID := (watchersByItemID st)(i \<mapsto> if ch \<in> set ws then ws else ws @ [ch])\<rparr>)"

definition removeWatcher :: "int \<Rightarrow> nat \<Rightarrow> auction \<Rightarrow> auction" where
  "removeWatcher i ch st =
     (case watchersByItemID st i of
        None \<Rightarrow> st
      | Some ws \<Rightarrow>
          (let ws' = filter (\<lambda>c. c \<noteq> ch) ws
           in st\<lparr>watchersByItemID :=
                   (if length ws' = 0 then (watchersByItemID st)(i := None)
                    else (watchersByItemID st)(i \<mapsto> ws'))\<rparr>))"

definition watcherSnapshot :: "int \<Rightarrow> auction \<Rightarrow> nat list" where
  "watcherSnapshot i st = (case watchersByItemID st i of None \<Rightarrow> [] | Some ws \<Rightarrow> ws)"

text \<open>A send that does not block: a full channel drops the event.\<close>

definition offer :: "bid_event \<Rightarrow> nat \<Rightarrow> (nat \<rightharpoonup> bid_event list) \<Rightarrow> (nat \<rightharpoonup> bid_event list)" where
  "offer e ch cs =
     (case cs ch of
        None \<Rightarrow> cs
      | Some buf \<Rightarrow> if length buf < defaultWatcherChannelSize then cs(ch \<mapsto> buf @ [e]) else cs)"

definition publishToWatchers :: "int \<Rightarrow> bid_event \<Rightarrow> auction \<Rightarrow> auction" where
  "publishToWatchers i e st = st\<lparr>channels := fold (offer e) (watcherSnapshot i st) (channels st)\<rparr>"

section \<open>Service\<close>

definition CreateUser :: "string \<Rightarrow> f64 \<Rightarrow> auction \<Rightarrow> int result \<times> auction" where
  "CreateUser name balance st =
     (if TrimSpace name = '''' \<or> balance < 0 then (Inl ErrInvalidUserInput, st)
      else (let (userID, st1) = generateUserID st;
                usr = \<lparr>u_ID = userID, u_Name = name, u_Balance = balance, u_ActiveBids = []\<rparr>
            in (Inr userID, st1\<lparr>usersByID := (usersByID st1)(userID \<mapsto> usr)\<rparr>)))"

definition normalizeCategoryPath :: "string list \<Rightarrow> string list" where
  "normalizeCategoryPath path = filter (\<lambda>c. c \<noteq> '''') (map TrimSpace path)"

definition CreateItem ::
  "string \<Rightarrow> string list \<Rightarrow> string \<Rightarrow> int \<Rightarrow> f64 \<Rightarrow> gotime \<Rightarrow> gotime \<Rightarrow> auction \<Rightarrow> int result \<times> auction" where
  "CreateItem name categoryPath description sellerID startPrice startTime endTime st =
     (if TrimSpace name = '''' \<or> startPrice \<le> 0 \<or> \<not> startTime < endTime then (Inl ErrInvalidItemInput, st)
      else (let path = normalizeCategoryPath categoryPath
            in if length path = 0 then (Inl ErrCategoryNotFound, st)
               else if usersByID st sellerID = None then (Inl ErrUserNotFound, st)
               else (let (err, st1) = ensureCategoryPath path st
                     in case err of
                          Some e \<Rightarrow> (Inl (ErrTree e), st1)
                        | None \<Rightarrow>
                            (let (itemID, st2) = generateItemID st1;
                                 leaf = path ! (length path - 1);
                                 itm = \<lparr>i_ID = itemID, i_Name = name, i_Category = leaf, i_Description = description,
                                        i_SellerID = sellerID, i_StartPrice = startPrice, i_CurrentBid = None,
                                        i_BidHistory = [], i_StartTime = startTime, i_EndTime = endTime,
                                        i_Status = ItemStatusActive\<rparr>;
                                 st3 = st2\<lparr>itemsByID := (itemsByID st2)(itemID \<mapsto> itm)\<rparr>
                             in (Inr itemID, addItemToCategory itemID leaf st3)))))"

text \<open>
  \<open>BrowseCategory\<close>.  \<open>order\<close> gives the order in which the range over a category's set of item
  ids visits them.  The result is undefined where \<open>SubtreeValues\<close> is.
\<close>

fun browse_ids :: "auction \<Rightarrow> int list \<Rightarrow> int list \<times> item list \<Rightarrow> int list \<times> item list" where
  "browse_ids st [] acc = acc"
| "browse_ids st (itemID # ids) (seen, items) =
     (if itemID \<in> set seen then browse_ids st ids (seen, items)
      else (case itemsByID st itemID of
              None \<Rightarrow> browse_ids st ids (seen, items)
            | Some itm \<Rightarrow> browse_ids st ids (itemID # seen, items @ [itm])))"

fun browse_cats :: "auction \<Rightarrow> (string \<Rightarrow> int list) \<Rightarrow> string list \<Rightarrow> int list \<times> item list \<Rightarrow> int list \<times> item list" where
  "browse_cats st order [] acc = acc"
| "browse_cats st order (cat # cats) acc =
     (case itemIDsByCategory st cat of
        None \<Rightarrow> browse_cats st order cats acc
      | Some _ \<Rightarrow> browse_cats st order cats (browse_ids st (order cat) acc))"

definition BrowseCategory :: "(string \<Rightarrow> int list) \<Rightarrow> string \<Rightarrow> auction \<Rightarrow> item list result option" where
  "BrowseCategory order category st =
     (let category = TrimSpace category
      in if category = '''' then Some (Inl ErrCategoryNotFound)
         else (case SubtreeValues category (categoryTree st) of
                 None \<Rightarrow> None
               | Some (Inl _) \<Rightarrow> Some (Inl ErrCategoryNotFound)
               | Some (Inr categories) \<Rightarrow> Some (Inr (snd (browse_cats st order categories ([], []))))))"

text \<open>The order of the bid heap: the comparison follows the pointers.\<close>

definition bid_amount :: "(int \<rightharpoonup> bid) \<Rightarrow> int \<Rightarrow> f64" where
  "bid_amount bids b = (case bids b of Some x \<Rightarrow> b_Amount x | None \<Rightarrow> NaN)"

definition bid_less :: "(int \<rightharpoonup> bid) \<Rightarrow> int \<Rightarrow> int \<Rightarrow> bool" where
  "bid_less bids a b \<longleftrightarrow> bid_amount bids a < bid_amount bids b"

definition is_retracted :: "(int \<rightharpoonup> bid) \<Rightarrow> int \<Rightarrow> bool" where
  "is_retracted bids b \<longleftrightarrow> (case bids b of Some x \<Rightarrow> b_IsRetracted x | None \<Rightarrow> False)"

text \<open>The validation of \<open>PlaceBid\<close>, under the read lock.\<close>

definition place_check :: "int \<Rightarrow> int \<Rightarrow> f64 \<Rightarrow> gotime \<Rightarrow> auction \<Rightarrow> auction_error option" where
  "place_check userID itemID amount now st =
     (case usersByID st userID of
        None \<Rightarrow> Some ErrUserNotFound
      | Some usr \<Rightarrow>
          (case itemsByID st itemID of
             None \<Rightarrow> Some ErrItemNotFound
           | Some itm \<Rightarrow>
               if math_IsNaN amount \<or> math_IsInf amount \<or> amount \<le> 0 then Some ErrInvalidBidAmount
               else if i_Status itm \<noteq> ItemStatusActive then Some ErrAuctionNotActive
               else if now < i_StartTime itm \<or> i_EndTime itm < now then Some ErrAuctionNotActive
               else if i_SellerID itm = userID then Some ErrSellerCannotBid
               else if u_Balance usr < amount then Some ErrInsufficientBalance
               else (let current = (case i_CurrentBid itm of
                                      None \<Rightarrow> i_StartPrice itm | Some b \<Rightarrow> bid_amount (bidsByID st) b)
                     in if amount \<le> current then Some ErrInvalidBidAmount else None)))"

text \<open>Its mutations, under the write lock.\<close>

definition place_commit :: "int \<Rightarrow> int \<Rightarrow> f64 \<Rightarrow> gotime \<Rightarrow> auction \<Rightarrow> int \<times> auction" where
  "place_commit userID itemID amount now st =
     (let (bidID, st1) = generateBidID st;
          bd = \<lparr>b_ID = bidID, b_ItemID = itemID, b_UserID = userID, b_Amount = amount,
                 b_IsRetracted = False, b_Timestamp = now\<rparr>;
          st2 = st1\<lparr>bidsByID := (bidsByID st1)(bidID \<mapsto> bd)\<rparr>;
          h = xh_Push (bid_less (bidsByID st2)) (getOrCreateItemHeap itemID st2) bidID;
          st3 = st2\<lparr>itemBidHeaps := (itemBidHeaps st2)(itemID \<mapsto> h)\<rparr>;
          st4 = st3\<lparr>itemBidHistory := (itemBidHistory st3)(itemID \<mapsto> getOrCreateItemBidHistory itemID st3 @ [bidID])\<rparr>;
          st5 = set_stack userID itemID (stk_Push (getOrCreateUserItemBidStack userID itemID st4) bidID) st4;
          st6 = st5\<lparr>usersByID := (usersByID st5)(userID := map_option
                  (\<lambda>u. u\<lparr>u_ActiveBids := u_ActiveBids u @ [bidID]\<rparr>) (usersByID st5 userID))\<rparr>;
          st7 = st6\<lparr>itemsByID := (itemsByID st6)(itemID := map_option
                  (\<lambda>it. it\<lparr>i_BidHistory := i_BidHistory it @ [bidID], i_CurrentBid := Some bidID\<rparr>)
                  (itemsByID st6 itemID))\<rparr>
      in (bidID, publishToWatchers itemID
            \<lparr>e_ItemID = itemID, e_BidID = bidID, e_Action = BidEventPlaced, e_Timestamp = now\<rparr> st7))"

definition PlaceBid :: "int \<Rightarrow> int \<Rightarrow> f64 \<Rightarrow> gotime \<Rightarrow> auction \<Rightarrow> int result \<times> auction" where
  "PlaceBid userID itemID amount now st =
     (case place_check userID itemID amount now st of
        Some e \<Rightarrow> (Inl e, st)
      | None \<Rightarrow> map_prod Inr id (place_commit userID itemID amount now st))"

text \<open>\<open>removeBidID\<close> removes the last occurrence.\<close>

fun removeBidID :: "int list \<Rightarrow> int \<Rightarrow> int list" where
  "removeBidID [] target = []"
| "removeBidID (b # bs) target = (if target \<in> set bs then b # removeBidID bs target else if b = target then bs else b # bs)"

text \<open>The loop that drops retracted bids from the top of the heap.\<close>

function drop_retracted :: "(int \<rightharpoonup> bid) \<Rightarrow> int list \<Rightarrow> int option \<times> int list" where
  "drop_retracted bids h =
     (case xh_Peek h of
        None \<Rightarrow> (None, h)
      | Some best \<Rightarrow>
          if is_retracted bids best
          then (case xh_Pop (bid_less bids) h of None \<Rightarrow> (None, h) | Some (_, h') \<Rightarrow> drop_retracted bids h')
          else (Some best, h))"
  by pat_completeness auto
termination
proof (relation "measure (\<lambda>(_, h). length h)", goal_cases)
  case (2 bids h best p x h')
  then have "mset h = add_mset x (mset h')" using mh_Pop_mset [of _ h x h'] by (simp add: xh_Pop_flip)
  then have "size (mset h) = Suc (size (mset h'))" by simp
  then show ?case by simp
qed simp

declare drop_retracted.simps [simp del]

definition RetractLastBid :: "int \<Rightarrow> int \<Rightarrow> gotime \<Rightarrow> auction \<Rightarrow> int result \<times> auction" where
  "RetractLastBid userID itemID now st =
     (if usersByID st userID = None then (Inl ErrUserNotFound, st)
      else (case itemsByID st itemID of
        None \<Rightarrow> (Inl ErrItemNotFound, st)
      | Some itm \<Rightarrow>
          if i_Status itm \<noteq> ItemStatusActive then (Inl ErrAuctionNotActive, st)
          else (case stk_Pop (getOrCreateUserItemBidStack userID itemID st) of
            None \<Rightarrow> (Inl ErrNoBidToRetract, set_stack userID itemID [] st)
          | Some (lastBidID, rest) \<Rightarrow>
              (let st1 = set_stack userID itemID rest st
               in case bidsByID st1 lastBidID of
                    None \<Rightarrow> (Inl ErrBidNotFound, st1)
                  | Some lastBid \<Rightarrow>
                      if b_UserID lastBid \<noteq> userID then (Inl ErrBidOwnershipMismatch, st1)
                      else if b_ItemID lastBid \<noteq> itemID then (Inl ErrBidItemMismatch, st1)
                      else if b_IsRetracted lastBid then (Inl ErrBidAlreadyRetracted, st1)
                      else
                        (let st2 = st1\<lparr>bidsByID := (bidsByID st1)(lastBidID \<mapsto> lastBid\<lparr>b_IsRetracted := True\<rparr>)\<rparr>;
                             st3 = st2\<lparr>usersByID := (usersByID st2)(userID := map_option
                                     (\<lambda>u. u\<lparr>u_ActiveBids := removeBidID (u_ActiveBids u) lastBidID\<rparr>)
                                     (usersByID st2 userID))\<rparr>;
                             (best, h) = drop_retracted (bidsByID st3) (getOrCreateItemHeap itemID st3);
                             st4 = st3\<lparr>itemBidHeaps := (itemBidHeaps st3)(itemID \<mapsto> h),
                                       itemsByID := (itemsByID st3)(itemID := map_option
                                         (\<lambda>it. it\<lparr>i_CurrentBid := best\<rparr>) (itemsByID st3 itemID))\<rparr>
                         in (Inr lastBidID, publishToWatchers itemID
                               \<lparr>e_ItemID = itemID, e_BidID = lastBidID, e_Action = BidEventRetracted,
                                e_Timestamp = now\<rparr> st4))))))"

definition EndAuction :: "int \<Rightarrow> gotime \<Rightarrow> auction \<Rightarrow> int option result \<times> auction" where
  "EndAuction itemID now st =
     (case itemsByID st itemID of
        None \<Rightarrow> (Inl ErrItemNotFound, st)
      | Some itm \<Rightarrow>
          if i_Status itm \<noteq> ItemStatusActive then (Inl ErrAuctionNotActive, st)
          else (let (winner, h) = drop_retracted (bidsByID st) (getOrCreateItemHeap itemID st);
                    st1 = st\<lparr>itemBidHeaps := (itemBidHeaps st)(itemID \<mapsto> h),
                             itemsByID := (itemsByID st)(itemID \<mapsto>
                               itm\<lparr>i_CurrentBid := winner, i_Status := ItemStatusEnded\<rparr>)\<rparr>;
                    winnerBidID = (case winner of None \<Rightarrow> 0 | Some b \<Rightarrow> b)
                in (Inr winner, publishToWatchers itemID
                      \<lparr>e_ItemID = itemID, e_BidID = winnerBidID, e_Action = BidEventEnded, e_Timestamp = now\<rparr> st1)))"

definition GetItem :: "int \<Rightarrow> auction \<Rightarrow> (item \<times> bid option) result" where
  "GetItem itemID st =
     (case itemsByID st itemID of
        None \<Rightarrow> Inl ErrItemNotFound
      | Some itm \<Rightarrow> Inr (itm, case i_CurrentBid itm of None \<Rightarrow> None | Some b \<Rightarrow> bidsByID st b))"

definition GetItemBids :: "int \<Rightarrow> auction \<Rightarrow> bid list result" where
  "GetItemBids itemID st =
     (case itemsByID st itemID of
        None \<Rightarrow> Inl ErrItemNotFound
      | Some itm \<Rightarrow> Inr (List.map_filter (bidsByID st) (i_BidHistory itm)))"

definition SubscribeItem :: "int \<Rightarrow> nat \<Rightarrow> auction \<Rightarrow> nat result \<times> auction" where
  "SubscribeItem itemID fresh st =
     (if itemsByID st itemID = None then (Inl ErrItemNotFound, st)
      else (Inr fresh, addWatcher itemID fresh (st\<lparr>channels := (channels st)(fresh \<mapsto> [])\<rparr>)))"

definition UnsubscribeItem :: "int \<Rightarrow> nat \<Rightarrow> auction \<Rightarrow> auction" where
  "UnsubscribeItem itemID ch st = removeWatcher itemID ch st"

section \<open>Statistics\<close>

record auction_stats =
  a_TotalUsers :: int
  a_TotalItems :: int
  a_ActiveItems :: int
  a_EndedItems :: int
  a_CancelledItems :: int
  a_TotalBids :: int
  a_AverageTopBid :: f64
  a_RetractedBids :: int
  a_ActiveWatchers :: int

definition stats_item :: "auction \<Rightarrow> item \<Rightarrow> auction_stats \<times> f64 \<times> int \<Rightarrow> auction_stats \<times> f64 \<times> int" where
  "stats_item st itm = (\<lambda>(s, topBidSum, topBidCount).
     (let s = (case i_Status itm of
                 ItemStatusActive \<Rightarrow> s\<lparr>a_ActiveItems := a_ActiveItems s + 1\<rparr>
               | ItemStatusEnded \<Rightarrow> s\<lparr>a_EndedItems := a_EndedItems s + 1\<rparr>
               | ItemStatusCancelled \<Rightarrow> s\<lparr>a_CancelledItems := a_CancelledItems s + 1\<rparr>)
      in case i_CurrentBid itm of
           None \<Rightarrow> (s, topBidSum, topBidCount)
         | Some b \<Rightarrow> if is_retracted (bidsByID st) b then (s, topBidSum, topBidCount)
                     else (s, topBidSum + bid_amount (bidsByID st) b, topBidCount + 1)))"

text \<open>\<open>users\<close>, \<open>items\<close>, \<open>bids\<close> and \<open>watched\<close> enumerate the maps.\<close>

definition GetStats :: "int list \<Rightarrow> int list \<Rightarrow> int list \<Rightarrow> int list \<Rightarrow> auction \<Rightarrow> auction_stats" where
  "GetStats users items bids watched st =
     (let s0 = \<lparr>a_TotalUsers = int (length users), a_TotalItems = int (length items), a_ActiveItems = 0,
                a_EndedItems = 0, a_CancelledItems = 0, a_TotalBids = int (length bids),
                a_AverageTopBid = 0, a_RetractedBids = 0, a_ActiveWatchers = 0\<rparr>;
          (s1, topBidSum, topBidCount) = fold (stats_item st) (range_values items (itemsByID st)) (s0, 0, 0);
          s2 = s1\<lparr>a_RetractedBids := int (length (filter b_IsRetracted (range_values bids (bidsByID st)))),
                  a_ActiveWatchers := sum_list (map (int \<circ> length) (range_values watched (watchersByItemID st)))\<rparr>
      in if topBidCount > 0 then s2\<lparr>a_AverageTopBid := topBidSum / f64_of_int topBidCount\<rparr> else s2)"

end
