(* ===== verification/Auction_Correct.thy ===== *)
theory Auction_Correct
  imports Auction
begin

text \<open>
  Correctness of the auction service.  The specification of an item is the list of its live
  bids (those not retracted) in the order they were placed: placing a bid appends one that
  beats the last, retracting removes the user's last one, and the current bid and the winner
  are the last one.  The heap with its lazily dropped retracted bids, the stacks and the
  histories implement it.
\<close>

section \<open>The order of bids\<close>

interpretation bid_order: strict_weak_order "\<lambda>a b. bid_less bids b a" "\<lambda>a. bid_amount bids a \<noteq> NaN" for bids
  using strict_weak_order.flipped [OF f64_lt.on_key, of "bid_amount bids"] by (simp add: bid_less_def)

definition bid_heap :: "(int \<rightharpoonup> bid) \<Rightarrow> int list \<Rightarrow> bool" where
  "bid_heap bids h \<longleftrightarrow>
     (\<forall>j<length h. 0 < j \<longrightarrow> \<not> bid_less bids (h ! parent_ix j) (h ! j)) \<and> (\<forall>b\<in>set h. bid_amount bids b \<noteq> NaN)"

lemma bid_heap_inv: "bid_heap bids h \<longleftrightarrow> bid_order.heap_inv bids h"
  by (simp add: bid_heap_def bid_order.heap_inv_def bid_order.heap_ordered_def)

lemma bid_heap_cong: "\<forall>b\<in>set h. bid_amount bids' b = bid_amount bids b \<Longrightarrow> bid_heap bids' h = bid_heap bids h"
proof -
  assume a: "\<forall>b\<in>set h. bid_amount bids' b = bid_amount bids b"
  have "bid_less bids' (h ! parent_ix j) (h ! j) = bid_less bids (h ! parent_ix j) (h ! j)" if "j < length h" for j
    using a that by (simp add: bid_less_def parent_ix_def less_imp_diff_less div_le_dividend [THEN le_less_trans])
  then show ?thesis using a by (simp add: bid_heap_def)
qed

lemma bid_heap_push:
  assumes "bid_heap bids h" "bid_amount bids b \<noteq> NaN"
  shows "bid_heap bids (xh_Push (bid_less bids) h b)" "set (xh_Push (bid_less bids) h b) = insert b (set h)"
proof -
  show "bid_heap bids (xh_Push (bid_less bids) h b)"
    using assms bid_order.mh_Push_inv [of bids h b] by (simp add: bid_heap_inv xh_Push_flip)
  have "mset (xh_Push (bid_less bids) h b) = add_mset b (mset h)"
    by (simp add: xh_Push_flip mh_Push_def mh_heapifyUp_mset)
  then show "set (xh_Push (bid_less bids) h b) = insert b (set h)" by (metis set_mset_mset set_mset_add_mset_insert)
qed

text \<open>
  The loop keeps a heap that still holds every live bid, and ends with a live bid none of the
  live ones exceeds.
\<close>

lemma drop_retracted_correct:
  "bid_heap bids h \<Longrightarrow> drop_retracted bids h = (t, h') \<Longrightarrow>
     bid_heap bids h' \<and> set h' \<subseteq> set h \<and> {b \<in> set h. \<not> is_retracted bids b} \<subseteq> set h'
     \<and> (case t of
          None \<Rightarrow> {b \<in> set h. \<not> is_retracted bids b} = {}
        | Some b \<Rightarrow> b \<in> set h \<and> \<not> is_retracted bids b \<and> (\<forall>c\<in>set h'. \<not> bid_less bids b c))"
proof (induction bids h rule: drop_retracted.induct)
  case (1 bids h)
  show ?case
  proof (cases h)
    case Nil
    then have "drop_retracted bids h = (None, [])" by (simp add: drop_retracted.simps xh_Peek_def)
    then show ?thesis using 1(2,3) Nil by simp
  next
    case (Cons a hs)
    then have peek: "xh_Peek h = Some a" by (simp add: xh_Peek_def)
    show ?thesis
    proof (cases "is_retracted bids a")
      case True
      obtain x h1 where pop: "xh_Pop (bid_less bids) h = Some (x, h1)"
        using mh_Pop_None [of _ h] Cons by (cases "xh_Pop (bid_less bids) h") (auto simp: xh_Pop_flip)
      then have x: "x = a" "mset h = add_mset x (mset h1)" "bid_heap bids h1"
        using bid_order.mh_Pop_hd [of bids h] mh_Pop_mset [of _ h] bid_order.mh_Pop_inv [of bids h] 1(2) Cons
        by (auto simp: xh_Pop_flip bid_heap_inv)
      then have set: "set h = insert a (set h1)" by (metis set_mset_mset set_mset_add_mset_insert)
      have "drop_retracted bids h1 = (t, h')"
        using 1(3) True pop by (simp add: drop_retracted.simps [of bids h] peek)
      then show ?thesis using 1(1) [OF peek True pop [unfolded x(1)]] x(3) set True
        by (auto split: option.splits)
    next
      case False
      then have "t = Some a" "h' = h" using 1(3) by (simp_all add: drop_retracted.simps [of bids h] peek)
      moreover have "\<not> bid_less bids a c" if "c \<in> set h" for c
        using bid_order.heap_hd_least [of bids h c] 1(2) that Cons
        by (simp add: bid_heap_inv bid_order.heap_inv_def)
      ultimately show ?thesis using 1(2) False Cons by auto
    qed
  qed
qed

section \<open>One item\<close>

definition live :: "auction \<Rightarrow> item \<Rightarrow> int list" where
  "live st it = filter (\<lambda>b. \<not> is_retracted (bidsByID st) b) (i_BidHistory it)"

definition last_bid :: "int list \<Rightarrow> int option" where
  "last_bid bs = (if bs = [] then None else Some (last bs))"

definition bidder :: "auction \<Rightarrow> int \<Rightarrow> int" where
  "bidder st b = (case bidsByID st b of Some x \<Rightarrow> b_UserID x | None \<Rightarrow> 0)"

definition bid_ok :: "auction \<Rightarrow> item \<Rightarrow> int \<Rightarrow> bid \<Rightarrow> bool" where
  "bid_ok st it b x \<longleftrightarrow>
     b_ID x = b \<and> b_ItemID x = i_ID it \<and> b_Amount x \<noteq> NaN \<and> b_UserID x \<in> dom (usersByID st)
     \<and> b_UserID x \<noteq> i_SellerID it \<and> \<not> b_Amount x \<le> i_StartPrice it
     \<and> (\<forall>u. usersByID st (b_UserID x) = Some u \<longrightarrow> \<not> u_Balance u < b_Amount x)"

definition item_ok :: "auction \<Rightarrow> int \<Rightarrow> item \<Rightarrow> bool" where
  "item_ok st i it \<longleftrightarrow>
     i_ID it = i \<and> distinct (i_BidHistory it)
     \<and> (\<forall>b\<in>set (i_BidHistory it). \<exists>x. bidsByID st b = Some x \<and> bid_ok st it b x)
     \<and> getOrCreateItemBidHistory i st = i_BidHistory it
     \<and> bid_heap (bidsByID st) (getOrCreateItemHeap i st)
     \<and> set (live st it) \<subseteq> set (getOrCreateItemHeap i st)
     \<and> set (getOrCreateItemHeap i st) \<subseteq> set (i_BidHistory it)
     \<and> sorted_wrt (bid_less (bidsByID st)) (live st it)
     \<and> i_CurrentBid it = last_bid (live st it)
     \<and> (\<forall>u. getOrCreateUserItemBidStack u i st = filter (\<lambda>b. bidder st b = u) (live st it))"

lemma item_okD:
  assumes "item_ok st i it"
  shows "i_ID it = i" "distinct (i_BidHistory it)"
    "b \<in> set (i_BidHistory it) \<Longrightarrow> \<exists>x. bidsByID st b = Some x \<and> bid_ok st it b x"
    "getOrCreateItemBidHistory i st = i_BidHistory it"
    "bid_heap (bidsByID st) (getOrCreateItemHeap i st)"
    "set (live st it) \<subseteq> set (getOrCreateItemHeap i st)"
    "set (getOrCreateItemHeap i st) \<subseteq> set (i_BidHistory it)"
    "sorted_wrt (bid_less (bidsByID st)) (live st it)"
    "i_CurrentBid it = last_bid (live st it)"
    "getOrCreateUserItemBidStack u i st = filter (\<lambda>b. bidder st b = u) (live st it)"
  using assms by (auto simp: item_ok_def)

text \<open>An item is untouched by a step that leaves its bids, its containers and its users alone.\<close>

lemma item_ok_frame:
  assumes ok: "item_ok st i it"
    and bids: "\<forall>b\<in>set (i_BidHistory it). bidsByID st' b = bidsByID st b"
    and cont: "getOrCreateItemBidHistory i st' = getOrCreateItemBidHistory i st"
      "getOrCreateItemHeap i st' = getOrCreateItemHeap i st"
      "\<And>u. getOrCreateUserItemBidStack u i st' = getOrCreateUserItemBidStack u i st"
    and users: "\<And>u us. usersByID st u = Some us \<Longrightarrow> \<exists>us'. usersByID st' u = Some us' \<and> u_Balance us' = u_Balance us"
  shows "item_ok st' i it" "live st' it = live st it"
proof -
  have sub: "set (live st it) \<subseteq> set (i_BidHistory it)" by (auto simp: live_def)
  have amt: "bid_amount (bidsByID st') b = bid_amount (bidsByID st) b"
    "is_retracted (bidsByID st') b = is_retracted (bidsByID st) b" "bidder st' b = bidder st b"
    if "b \<in> set (i_BidHistory it)" for b
    using bids that by (simp_all add: bid_amount_def is_retracted_def bidder_def)
  show live: "live st' it = live st it" unfolding live_def using amt by (intro filter_cong) auto
  have s: "sorted_wrt (bid_less (bidsByID st')) (live st it)"
    by (rule sorted_wrt_mono_rel [OF _ item_okD(8) [OF ok]]) (use sub in \<open>simp add: bid_less_def amt(1) subset_iff\<close>)
  have h: "bid_heap (bidsByID st') (getOrCreateItemHeap i st)"
    using bid_heap_cong [of "getOrCreateItemHeap i st"] item_okD(5,7) [OF ok] amt(1) by blast
  have f: "filter (\<lambda>b. bidder st' b = u) (live st it) = filter (\<lambda>b. bidder st b = u) (live st it)" for u
    using sub amt(3) by (intro filter_cong) auto
  have x: "\<exists>x. bidsByID st' b = Some x \<and> bid_ok st' it b x" if b: "b \<in> set (i_BidHistory it)" for b
  proof -
    obtain x where x: "bidsByID st b = Some x" "bid_ok st it b x" using item_okD(3) [OF ok b] by blast
    then obtain us where us: "usersByID st (b_UserID x) = Some us" by (auto simp: bid_ok_def)
    then show ?thesis using x bids b users [OF us] by (auto simp: bid_ok_def)
  qed
  show "item_ok st' i it"
  proof -
    have st: "getOrCreateUserItemBidStack u i st' = filter (\<lambda>b. bidder st' b = u) (live st' it)" for u
      unfolding f live cont(3) by (rule item_okD(10) [OF ok])
    show ?thesis
      unfolding item_ok_def cont(1,2)
      using item_okD(1,2,4) [OF ok] x h item_okD(6,7,9) [OF ok, folded live] s [folded live] st
      by blast
  qed
qed

section \<open>What a placed bid changes\<close>

lemma stack_set_stack:
  "getOrCreateUserItemBidStack u j (set_stack v i s st) = (if u = v \<and> j = i then s else getOrCreateUserItemBidStack u j st)"
  by (simp add: getOrCreateUserItemBidStack_def set_stack_def Let_def split: option.splits)

lemma set_stack_simps [simp]:
  "usersByID (set_stack u i s st) = usersByID st" "itemsByID (set_stack u i s st) = itemsByID st"
  "bidsByID (set_stack u i s st) = bidsByID st" "itemBidHeaps (set_stack u i s st) = itemBidHeaps st"
  "itemBidHistory (set_stack u i s st) = itemBidHistory st" "nextBidID (set_stack u i s st) = nextBidID st"
  "nextUserID (set_stack u i s st) = nextUserID st" "nextItemID (set_stack u i s st) = nextItemID st"
  "categoryTree (set_stack u i s st) = categoryTree st" "itemIDsByCategory (set_stack u i s st) = itemIDsByCategory st"
  "watchersByItemID (set_stack u i s st) = watchersByItemID st" "channels (set_stack u i s st) = channels st"
  by (simp_all add: set_stack_def Let_def)

lemma set_stack_containers [simp]:
  "getOrCreateItemHeap j (set_stack u i s st) = getOrCreateItemHeap j st"
  "getOrCreateItemBidHistory j (set_stack u i s st) = getOrCreateItemBidHistory j st"
  by (simp_all add: getOrCreateItemHeap_def getOrCreateItemBidHistory_def)

lemma publish_simps [simp]:
  "usersByID (publishToWatchers i e st) = usersByID st" "itemsByID (publishToWatchers i e st) = itemsByID st"
  "bidsByID (publishToWatchers i e st) = bidsByID st" "itemBidHeaps (publishToWatchers i e st) = itemBidHeaps st"
  "itemBidHistory (publishToWatchers i e st) = itemBidHistory st" "nextBidID (publishToWatchers i e st) = nextBidID st"
  "nextUserID (publishToWatchers i e st) = nextUserID st" "nextItemID (publishToWatchers i e st) = nextItemID st"
  "categoryTree (publishToWatchers i e st) = categoryTree st"
  "itemIDsByCategory (publishToWatchers i e st) = itemIDsByCategory st"
  "userBidStacks (publishToWatchers i e st) = userBidStacks st"
  "watchersByItemID (publishToWatchers i e st) = watchersByItemID st"
  by (simp_all add: publishToWatchers_def)

text \<open>The containers an item owns, read through the store.\<close>

lemma containers_cong:
  "itemBidHeaps st' i = itemBidHeaps st i \<Longrightarrow> getOrCreateItemHeap i st' = getOrCreateItemHeap i st"
  "itemBidHistory st' i = itemBidHistory st i \<Longrightarrow> getOrCreateItemBidHistory i st' = getOrCreateItemBidHistory i st"
  "userBidStacks st' = userBidStacks st \<Longrightarrow> getOrCreateUserItemBidStack u i st' = getOrCreateUserItemBidStack u i st"
  by (simp_all add: getOrCreateItemHeap_def getOrCreateItemBidHistory_def getOrCreateUserItemBidStack_def)

definition fresh_bid :: "auction \<Rightarrow> int" where
  "fresh_bid st = wrap64 (nextBidID st + 1)"

definition new_bid :: "int \<Rightarrow> int \<Rightarrow> f64 \<Rightarrow> gotime \<Rightarrow> auction \<Rightarrow> bid" where
  "new_bid u i a now st = \<lparr>b_ID = fresh_bid st, b_ItemID = i, b_UserID = u, b_Amount = a,
     b_IsRetracted = False, b_Timestamp = now\<rparr>"

lemma place_commit_fields:
  fixes u i a now st defines "st' \<equiv> snd (place_commit u i a now st)"
  shows "fst (place_commit u i a now st) = fresh_bid st"
    "bidsByID st' = (bidsByID st)(fresh_bid st \<mapsto> new_bid u i a now st)"
    "itemsByID st' = (itemsByID st)(i := map_option
       (\<lambda>it. it\<lparr>i_BidHistory := i_BidHistory it @ [fresh_bid st], i_CurrentBid := Some (fresh_bid st)\<rparr>) (itemsByID st i))"
    "usersByID st' = (usersByID st)(u := map_option
       (\<lambda>us. us\<lparr>u_ActiveBids := u_ActiveBids us @ [fresh_bid st]\<rparr>) (usersByID st u))"
    "getOrCreateItemHeap j st' = (if j = i then xh_Push (bid_less (bidsByID st')) (getOrCreateItemHeap i st) (fresh_bid st)
       else getOrCreateItemHeap j st)"
    "getOrCreateItemBidHistory j st' = (if j = i then getOrCreateItemBidHistory i st @ [fresh_bid st]
       else getOrCreateItemBidHistory j st)"
    "getOrCreateUserItemBidStack v j st' = (if v = u \<and> j = i then getOrCreateUserItemBidStack u i st @ [fresh_bid st]
       else getOrCreateUserItemBidStack v j st)"
    "nextBidID st' = fresh_bid st" "nextUserID st' = nextUserID st" "nextItemID st' = nextItemID st"
    "categoryTree st' = categoryTree st" "itemIDsByCategory st' = itemIDsByCategory st"
    "watchersByItemID st' = watchersByItemID st"
  unfolding st'_def place_commit_def generateBidID_def Let_def split_beta fst_conv snd_conv
  by (simp_all add: fresh_bid_def new_bid_def getOrCreateItemHeap_def getOrCreateItemBidHistory_def stk_Push_def
      getOrCreateUserItemBidStack_def set_stack_def Let_def publishToWatchers_def split: option.splits)

lemma place_checkD:
  assumes "place_check u i a now st = None"
  obtains us it where "usersByID st u = Some us" "itemsByID st i = Some it" "a \<noteq> NaN" "\<not> a \<le> 0"
    "i_Status it = ItemStatusActive" "\<not> now < i_StartTime it" "\<not> i_EndTime it < now" "i_SellerID it \<noteq> u"
    "\<not> u_Balance us < a"
    "\<not> a \<le> (case i_CurrentBid it of None \<Rightarrow> i_StartPrice it | Some b \<Rightarrow> bid_amount (bidsByID st) b)"
  using assms that unfolding place_check_def
  by (auto simp: Let_def math_IsNaN_def split: option.splits if_splits)

lemma sorted_last: "sorted_wrt R xs \<Longrightarrow> x \<in> set xs \<Longrightarrow> x = last xs \<or> R x (last xs)"
  by (cases xs rule: rev_cases) (auto simp: sorted_wrt_append)

lemma f64_beats: "\<not> a \<le> c \<Longrightarrow> a \<noteq> NaN \<Longrightarrow> c \<noteq> NaN \<Longrightarrow> b = c \<or> b < c \<Longrightarrow> b < (a :: f64)"
  by (cases a; cases b; cases c) (auto simp: less_f64_def)

lemma item_amount_not_NaN: "item_ok st i it \<Longrightarrow> b \<in> set (i_BidHistory it) \<Longrightarrow> bid_amount (bidsByID st) b \<noteq> NaN"
  using item_okD(3) [of st i it b] by (auto simp: bid_ok_def bid_amount_def)

lemma live_history: "set (live st it) \<subseteq> set (i_BidHistory it)"
  by (auto simp: live_def)

text \<open>An accepted bid beats every live bid of its item.\<close>

lemma place_check_beats:
  assumes ok: "item_ok st i it" and it: "itemsByID st i = Some it" and chk: "place_check u i a now st = None"
    and b: "b \<in> set (live st it)"
  shows "bid_amount (bidsByID st) b < a"
proof -
  have ne: "live st it \<noteq> []" using b by auto
  then have cur: "i_CurrentBid it = Some (last (live st it))" using item_okD(9) [OF ok] by (simp add: last_bid_def)
  have "\<not> a \<le> bid_amount (bidsByID st) (last (live st it)) \<and> a \<noteq> NaN"
    by (rule place_checkD [OF chk]) (use it cur in auto)
  moreover have "b = last (live st it) \<or> bid_less (bidsByID st) b (last (live st it))"
    using sorted_last [OF item_okD(8) [OF ok] b] .
  moreover have "last (live st it) \<in> set (i_BidHistory it)" using last_in_set [OF ne] live_history by blast
  ultimately show ?thesis
    using f64_beats [of a "bid_amount (bidsByID st) (last (live st it))" "bid_amount (bidsByID st) b"]
      item_amount_not_NaN [OF ok, of "last (live st it)"] by (auto simp: bid_less_def)
qed

lemma place_item_ok:
  assumes ok: "item_ok st i it" and it: "itemsByID st i = Some it" and chk: "place_check u i a now st = None"
    and fresh: "bidsByID st (fresh_bid st) = None"
  defines "st' \<equiv> snd (place_commit u i a now st)"
    and "it' \<equiv> it\<lparr>i_BidHistory := i_BidHistory it @ [fresh_bid st], i_CurrentBid := Some (fresh_bid st)\<rparr>"
  shows "item_ok st' i it' \<and> live st' it' = live st it @ [fresh_bid st] \<and> itemsByID st' i = Some it'"
proof -
  let ?n = "fresh_bid st" and ?b = "new_bid u i a now st"
  note f = place_commit_fields [where u = u and i = i and a = a and now = now and st = st, folded st'_def]
  have new: "?n \<notin> set (i_BidHistory it)" using item_okD(3) [OF ok, of ?n] fresh by auto
  have old: "bidsByID st' b = bidsByID st b" if "b \<in> set (i_BidHistory it)" for b
    using that new by (auto simp: f(2))
  have n: "bidsByID st' ?n = Some ?b" by (simp add: f(2))
  have live_old: "filter (\<lambda>b. \<not> is_retracted (bidsByID st') b) (i_BidHistory it) = live st it"
    unfolding live_def using old by (intro filter_cong) (auto simp: is_retracted_def)
  have live': "live st' it' = live st it @ [?n]"
    using live_old n by (simp add: live_def it'_def is_retracted_def new_bid_def)
  have amt: "bid_amount (bidsByID st') b = bid_amount (bidsByID st) b" if "b \<in> set (i_BidHistory it)" for b
    using old [OF that] by (simp add: bid_amount_def)
  have amt_n: "bid_amount (bidsByID st') ?n = a" using n by (simp add: bid_amount_def new_bid_def)
  have a: "a \<noteq> NaN" by (rule place_checkD [OF chk])
  have beats: "bid_amount (bidsByID st) b < a" if "b \<in> set (live st it)" for b
    using place_check_beats [OF ok it chk that] .
  have heap: "bid_heap (bidsByID st') (getOrCreateItemHeap i st)"
    using bid_heap_cong [of "getOrCreateItemHeap i st" "bidsByID st'" "bidsByID st"] item_okD(5,7) [OF ok] amt by blast
  have push: "bid_heap (bidsByID st') (getOrCreateItemHeap i st')"
    "set (getOrCreateItemHeap i st') = insert ?n (set (getOrCreateItemHeap i st))"
    using bid_heap_push [OF heap, of ?n] a amt_n by (simp_all add: f(5))
  have bids_ok: "\<exists>x. bidsByID st' b = Some x \<and> bid_ok st' it' b x" if b: "b \<in> set (i_BidHistory it')" for b
  proof (cases "b = ?n")
    case True
    have "b_UserID ?b \<in> dom (usersByID st') \<and> u \<noteq> i_SellerID it"
      by (rule place_checkD [OF chk]) (use it in \<open>auto simp: f(4) new_bid_def\<close>)
    moreover have "\<not> u_Balance us < a" if "usersByID st' u = Some us" for us
      by (rule place_checkD [OF chk]) (use that it in \<open>auto simp: f(4)\<close>)
    moreover have "\<not> a \<le> i_StartPrice it"
    proof (cases "live st it = []")
      case True
      then have "i_CurrentBid it = None" using item_okD(9) [OF ok] by (simp add: last_bid_def)
      then show ?thesis by - (rule place_checkD [OF chk], use it in auto)
    next
      case False
      then have l: "last (live st it) \<in> set (live st it)" by simp
      then obtain x where "bidsByID st (last (live st it)) = Some x" "bid_ok st it (last (live st it)) x"
        using item_okD(3) [OF ok] live_history by blast
      then have "\<not> bid_amount (bidsByID st) (last (live st it)) \<le> i_StartPrice it"
        by (simp add: bid_ok_def bid_amount_def)
      then show ?thesis using beats [OF l] f64_trans by (auto simp: less_f64_def)
    qed
    ultimately show ?thesis
      using True n a item_okD(1) [OF ok] by (simp add: bid_ok_def it'_def new_bid_def)
  next
    case False
    then have b': "b \<in> set (i_BidHistory it)" using b by (simp add: it'_def)
    obtain x where x: "bidsByID st b = Some x" "bid_ok st it b x" using item_okD(3) [OF ok b'] by blast
    then show ?thesis using old [OF b'] by (auto simp: bid_ok_def it'_def f(4))
  qed
  have stacks: "getOrCreateUserItemBidStack v i st' = filter (\<lambda>b. bidder st' b = v) (live st' it')" for v
  proof -
    have "filter (\<lambda>b. bidder st' b = v) (live st it) = filter (\<lambda>b. bidder st b = v) (live st it)"
      using live_history [of st it] by (intro filter_cong refl) (simp add: bidder_def old subset_iff)
    then show ?thesis using item_okD(10) [OF ok] n by (simp add: f(7) live' bidder_def new_bid_def)
  qed
  have sorted: "sorted_wrt (bid_less (bidsByID st')) (live st' it')"
  proof -
    have "sorted_wrt (bid_less (bidsByID st')) (live st it)"
      by (rule sorted_wrt_mono_rel [OF _ item_okD(8) [OF ok]])
        (use live_history [of st it] in \<open>simp add: bid_less_def amt subset_iff\<close>)
    moreover have "bid_less (bidsByID st') b ?n" if "b \<in> set (live st it)" for b
      using beats [OF that] amt [of b] amt_n that live_history [of st it] by (auto simp: bid_less_def)
    ultimately show ?thesis by (simp add: live' sorted_wrt_append)
  qed
  have "item_ok st' i it'"
    unfolding item_ok_def
  proof (intro conjI allI ballI)
    show "i_ID it' = i" using item_okD(1) [OF ok] by (simp add: it'_def)
    show "distinct (i_BidHistory it')" using item_okD(2) [OF ok] new by (simp add: it'_def)
    show "getOrCreateItemBidHistory i st' = i_BidHistory it'" using item_okD(4) [OF ok] by (simp add: f(6) it'_def)
    show "set (live st' it') \<subseteq> set (getOrCreateItemHeap i st')"
      using item_okD(6) [OF ok] unfolding live' push(2) by auto
    show "set (getOrCreateItemHeap i st') \<subseteq> set (i_BidHistory it')"
      using item_okD(7) [OF ok] unfolding push(2) it'_def by auto
    show "i_CurrentBid it' = last_bid (live st' it')" unfolding live' last_bid_def by (simp add: it'_def)
  qed (use push(1) bids_ok sorted stacks in blast)+
  then show ?thesis using live' it by (simp add: f(3) it'_def)
qed

section \<open>What a retraction changes\<close>

lemma best_is_last:
  assumes heap: "bid_heap bids h" and drop: "drop_retracted bids h = (t, h')"
    and L: "L = filter (\<lambda>b. \<not> is_retracted bids b) hist" "set L \<subseteq> set h" "set h \<subseteq> set hist"
      "sorted_wrt (bid_less bids) L"
  shows "t = last_bid L" "bid_heap bids h'" "set L \<subseteq> set h'" "set h' \<subseteq> set hist"
proof -
  note d = drop_retracted_correct [OF heap drop]
  have live: "{b \<in> set h. \<not> is_retracted bids b} = set L" using L(2,3) unfolding L(1) set_filter by blast
  show "bid_heap bids h'" "set L \<subseteq> set h'" "set h' \<subseteq> set hist" using d live L(3) by auto
  show "t = last_bid L"
  proof (cases t)
    case None
    then show ?thesis using d live by (simp add: last_bid_def)
  next
    case (Some b)
    then have b: "b \<in> set L" "\<forall>c\<in>set h'. \<not> bid_less bids b c" using d live by auto
    then have "L \<noteq> []" "set L \<subseteq> set h'" using d unfolding live by auto
    then have "last L \<in> set h'" using last_in_set by blast
    then have "b = last L" using sorted_last [OF L(4) b(1)] b(2) by blast
    then show ?thesis using Some b(1) by (auto simp: last_bid_def)
  qed
qed

definition user_live :: "auction \<Rightarrow> int \<Rightarrow> item \<Rightarrow> int list" where
  "user_live st u it = filter (\<lambda>b. bidder st b = u) (live st it)"

lemma stk_Pop_eq: "stk_Pop s = (if s = [] then None else Some (last s, butlast s))"
  by (auto simp: stk_Pop_def last_conv_nth butlast_conv_take)

lemma retract_inactive:
  "usersByID st u \<noteq> None \<Longrightarrow> itemsByID st i = Some it \<Longrightarrow> i_Status it \<noteq> ItemStatusActive
    \<Longrightarrow> RetractLastBid u i now st = (Inl ErrAuctionNotActive, st)"
  by (simp add: RetractLastBid_def)

lemma retract_none:
  "usersByID st u \<noteq> None \<Longrightarrow> itemsByID st i = Some it \<Longrightarrow> i_Status it = ItemStatusActive
    \<Longrightarrow> item_ok st i it \<Longrightarrow> user_live st u it = []
    \<Longrightarrow> RetractLastBid u i now st = (Inl ErrNoBidToRetract, set_stack u i [] st)"
  by (simp add: RetractLastBid_def item_okD(10) user_live_def stk_Pop_def)

text \<open>None of the four errors about the popped bid can occur.\<close>

lemma retract_popped:
  assumes ok: "item_ok st i it" and ne: "user_live st u it \<noteq> []"
  obtains x where "bidsByID st (last (user_live st u it)) = Some x" "bid_ok st it (last (user_live st u it)) x"
    "b_UserID x = u" "b_ItemID x = i" "\<not> b_IsRetracted x" "last (user_live st u it) \<in> set (live st it)"
proof -
  let ?l = "last (user_live st u it)"
  have l: "?l \<in> set (live st it)" "bidder st ?l = u" using last_in_set [OF ne] by (auto simp: user_live_def)
  then obtain x where x: "bidsByID st ?l = Some x" "bid_ok st it ?l x" using item_okD(3) [OF ok] live_history by blast
  moreover have "\<not> b_IsRetracted x" using l(1) x(1) by (simp add: live_def is_retracted_def)
  moreover have "b_ItemID x = i" using x(2) item_okD(1) [OF ok] by (simp add: bid_ok_def)
  ultimately show ?thesis using that l by (auto simp: bidder_def)
qed

lemma retract_fields:
  assumes ok: "item_ok st i it" and it: "itemsByID st i = Some it" and u: "usersByID st u \<noteq> None"
    and act: "i_Status it = ItemStatusActive" and ne: "user_live st u it \<noteq> []"
    and x: "bidsByID st (last (user_live st u it)) = Some x"
    and drop: "drop_retracted ((bidsByID st)(last (user_live st u it) \<mapsto> x\<lparr>b_IsRetracted := True\<rparr>))
        (getOrCreateItemHeap i st) = (t, h)"
  obtains st' where "RetractLastBid u i now st = (Inr (last (user_live st u it)), st')"
    "bidsByID st' = (bidsByID st)(last (user_live st u it) \<mapsto> x\<lparr>b_IsRetracted := True\<rparr>)"
    "itemsByID st' = (itemsByID st)(i \<mapsto> it\<lparr>i_CurrentBid := t\<rparr>)"
    "usersByID st' = (usersByID st)(u := map_option
       (\<lambda>us. us\<lparr>u_ActiveBids := removeBidID (u_ActiveBids us) (last (user_live st u it))\<rparr>) (usersByID st u))"
    "\<And>j. getOrCreateItemHeap j st' = (if j = i then h else getOrCreateItemHeap j st)"
    "\<And>j. getOrCreateItemBidHistory j st' = getOrCreateItemBidHistory j st"
    "\<And>v j. getOrCreateUserItemBidStack v j st' = (if v = u \<and> j = i then butlast (user_live st u it)
       else getOrCreateUserItemBidStack v j st)"
    "nextBidID st' = nextBidID st" "nextUserID st' = nextUserID st" "nextItemID st' = nextItemID st"
    "categoryTree st' = categoryTree st" "itemIDsByCategory st' = itemIDsByCategory st"
    "watchersByItemID st' = watchersByItemID st"
proof -
  let ?l = "last (user_live st u it)"
  obtain y where y: "bidsByID st ?l = Some y" "b_UserID y = u" "b_ItemID y = i" "\<not> b_IsRetracted y"
    using retract_popped [OF ok ne] by metis
  then have xy: "b_UserID x = u" "b_ItemID x = i" "\<not> b_IsRetracted x" using x by auto
  let ?st2 = "(set_stack u i (butlast (user_live st u it)) st)\<lparr>
      bidsByID := (bidsByID st)(?l \<mapsto> x\<lparr>b_IsRetracted := True\<rparr>),
      usersByID := (usersByID st)(u := map_option
       (\<lambda>us. us\<lparr>u_ActiveBids := removeBidID (u_ActiveBids us) ?l\<rparr>) (usersByID st u)),
      itemBidHeaps := (itemBidHeaps st)(i \<mapsto> h), itemsByID := (itemsByID st)(i \<mapsto> it\<lparr>i_CurrentBid := t\<rparr>)\<rparr>"
  let ?st' = "publishToWatchers i \<lparr>e_ItemID = i, e_BidID = ?l, e_Action = BidEventRetracted, e_Timestamp = now\<rparr> ?st2"
  have stk: "getOrCreateUserItemBidStack u i st = user_live st u it" using item_okD(10) [OF ok] by (simp add: user_live_def)
  have heap: "getOrCreateItemHeap i (s\<lparr>bidsByID := b, usersByID := us\<rparr>) = getOrCreateItemHeap i s" for s b us
    by (simp add: getOrCreateItemHeap_def)
  have heap2: "getOrCreateItemHeap i (set_stack u i r s) = getOrCreateItemHeap i s" for r s
    by (simp add: getOrCreateItemHeap_def)
  have "RetractLastBid u i now st = (Inr ?l, ?st')"
    using u act ne xy drop
    by (auto simp: RetractLastBid_def it stk stk_Pop_eq x Let_def heap heap2 split: prod.splits)
  then show ?thesis
    by (rule that)
      (simp_all add: getOrCreateItemHeap_def getOrCreateItemBidHistory_def stack_set_stack
        containers_cong(3) [of ?st' "set_stack u i (butlast (user_live st u it)) st"])
qed

lemma filter_drop_last: "distinct xs \<Longrightarrow> xs \<noteq> [] \<Longrightarrow> filter (\<lambda>b. b \<noteq> last xs) xs = butlast xs"
  by (induction xs rule: rev_induct) (auto simp: filter_id_conv)

text \<open>Retraction removes the user's last live bid and makes the last remaining one current.\<close>

lemma retract_item_ok:
  assumes ok: "item_ok st i it" and it: "itemsByID st i = Some it" and u: "usersByID st u \<noteq> None"
    and act: "i_Status it = ItemStatusActive" and ne: "user_live st u it \<noteq> []"
  obtains st' it' where "RetractLastBid u i now st = (Inr (last (user_live st u it)), st')"
    "itemsByID st' = (itemsByID st)(i \<mapsto> it')" "item_ok st' i it'"
    "it' = it\<lparr>i_CurrentBid := last_bid (live st' it')\<rparr>"
    "live st' it' = filter (\<lambda>b. b \<noteq> last (user_live st u it)) (live st it)"
    "\<And>j jt. j \<noteq> i \<Longrightarrow> item_ok st j jt \<Longrightarrow> item_ok st' j jt \<and> live st' jt = live st jt"
    "\<And>j. j \<noteq> i \<Longrightarrow> getOrCreateItemHeap j st' = getOrCreateItemHeap j st
      \<and> getOrCreateItemBidHistory j st' = getOrCreateItemBidHistory j st
      \<and> (\<forall>v. getOrCreateUserItemBidStack v j st' = getOrCreateUserItemBidStack v j st)"
    "\<exists>x. bidsByID st (last (user_live st u it)) = Some x \<and>
      bidsByID st' = (bidsByID st)(last (user_live st u it) \<mapsto> x\<lparr>b_IsRetracted := True\<rparr>)"
    "usersByID st' = (usersByID st)(u := map_option
       (\<lambda>us. us\<lparr>u_ActiveBids := removeBidID (u_ActiveBids us) (last (user_live st u it))\<rparr>) (usersByID st u))"
    "nextBidID st' = nextBidID st" "nextUserID st' = nextUserID st" "nextItemID st' = nextItemID st"
    "categoryTree st' = categoryTree st" "itemIDsByCategory st' = itemIDsByCategory st"
proof -
  let ?l = "last (user_live st u it)"
  obtain x where x: "bidsByID st ?l = Some x" "b_UserID x = u" "b_ItemID x = i" "?l \<in> set (live st it)"
    using retract_popped [OF ok ne] by metis
  let ?bids = "(bidsByID st)(?l \<mapsto> x\<lparr>b_IsRetracted := True\<rparr>)"
  obtain t h where drop: "drop_retracted ?bids (getOrCreateItemHeap i st) = (t, h)" by fastforce
  obtain st' where st': "RetractLastBid u i now st = (Inr ?l, st')"
    and f: "bidsByID st' = ?bids" "itemsByID st' = (itemsByID st)(i \<mapsto> it\<lparr>i_CurrentBid := t\<rparr>)"
    "usersByID st' = (usersByID st)(u := map_option
       (\<lambda>us. us\<lparr>u_ActiveBids := removeBidID (u_ActiveBids us) ?l\<rparr>) (usersByID st u))"
    "\<And>j. getOrCreateItemHeap j st' = (if j = i then h else getOrCreateItemHeap j st)"
    "\<And>j. getOrCreateItemBidHistory j st' = getOrCreateItemBidHistory j st"
    "\<And>v j. getOrCreateUserItemBidStack v j st' = (if v = u \<and> j = i then butlast (user_live st u it)
       else getOrCreateUserItemBidStack v j st)"
    and rest: "nextBidID st' = nextBidID st" "nextUserID st' = nextUserID st" "nextItemID st' = nextItemID st"
    "categoryTree st' = categoryTree st" "itemIDsByCategory st' = itemIDsByCategory st"
    and "watchersByItemID st' = watchersByItemID st"
    by (rule retract_fields [OF ok it u act ne x(1) drop, where now = now]) (rule that)
  let ?it = "it\<lparr>i_CurrentBid := t\<rparr>" and ?L = "filter (\<lambda>b. b \<noteq> ?l) (live st it)"
  have amt: "bid_amount ?bids b = bid_amount (bidsByID st) b" for b using x(1) by (simp add: bid_amount_def)
  have retr: "is_retracted ?bids b \<longleftrightarrow> b = ?l \<or> is_retracted (bidsByID st) b" for b
    by (simp add: is_retracted_def)
  have L: "?L = filter (\<lambda>b. \<not> is_retracted ?bids b) (i_BidHistory it)"
    by (simp add: live_def retr conj_commute)
  have less: "bid_less ?bids = bid_less (bidsByID st)" by (intro ext) (simp add: bid_less_def amt)
  have heap: "bid_heap ?bids (getOrCreateItemHeap i st)"
    using bid_heap_cong [of "getOrCreateItemHeap i st" ?bids] item_okD(5) [OF ok] amt by blast
  have sorted: "sorted_wrt (bid_less ?bids) ?L"
    using item_okD(8) [OF ok] unfolding less by (rule sorted_wrt_filter_mono)
  have LH: "set ?L \<subseteq> set (getOrCreateItemHeap i st)" using item_okD(6) [OF ok] by auto
  note best = best_is_last [OF heap drop L LH item_okD(7) [OF ok] sorted]
  have live': "live st' ?it = ?L" unfolding L by (simp add: live_def f(1))
  have bdr: "bidder st' b = bidder st b" for b using x(1) by (simp add: bidder_def f(1))
  have bal: "\<exists>us'. usersByID st' v = Some us' \<and> u_Balance us' = u_Balance us" if "usersByID st v = Some us" for v us
    using that by (cases "v = u") (simp_all add: f(3))
  have domu: "dom (usersByID st) \<subseteq> dom (usersByID st')" using bal by blast
  have bok: "bid_ok st' ?it b y'" if y: "bid_ok st it b y" "y' = y \<or> y' = y\<lparr>b_IsRetracted := True\<rparr>" for b y y'
    using y domu by (auto simp: bid_ok_def f(3) split: if_splits)
  have ok': "item_ok st' i ?it"
    unfolding item_ok_def live'
  proof (intro conjI allI ballI)
    show "\<exists>y. bidsByID st' b = Some y \<and> bid_ok st' ?it b y" if "b \<in> set (i_BidHistory ?it)" for b
    proof -
      obtain y where "bidsByID st b = Some y" "bid_ok st it b y" using item_okD(3) [OF ok, of b] \<open>b \<in> _\<close> by auto
      then show ?thesis using bok [of b y] x(1) by (auto simp: f(1))
    qed
    show "getOrCreateUserItemBidStack v i st' = filter (\<lambda>b. bidder st' b = v) ?L" for v
    proof (cases "v = u")
      case True
      have "distinct (user_live st u it)" using item_okD(2) [OF ok] by (simp add: user_live_def live_def)
      then have "butlast (user_live st u it) = filter (\<lambda>b. b \<noteq> ?l) (user_live st u it)"
        using filter_drop_last ne by metis
      then show ?thesis using True by (simp add: f(6) bdr user_live_def conj_commute)
    next
      case False
      have "bidder st ?l = u" using x(1,2) by (simp add: bidder_def)
      then have "filter (\<lambda>b. bidder st b = v) ?L = filter (\<lambda>b. bidder st b = v) (live st it)"
        using False by (auto intro!: filter_cong)
      then show ?thesis using False item_okD(10) [OF ok] by (simp add: f(6) bdr)
    qed
  qed (use item_okD(1,2,4) [OF ok] best sorted in \<open>simp_all add: f(1,4,5)\<close>)
  have frame: "item_ok st' j jt \<and> live st' jt = live st jt" if jn: "j \<noteq> i" and jt: "item_ok st j jt" for j jt
  proof -
    have "\<forall>b\<in>set (i_BidHistory jt). bidsByID st' b = bidsByID st b"
    proof
      fix b assume "b \<in> set (i_BidHistory jt)"
      then obtain y where "bidsByID st b = Some y" "bid_ok st jt b y" using item_okD(3) [OF jt] by blast
      then have "b \<noteq> ?l" using x(1,3) jn item_okD(1) [OF jt] by (auto simp: bid_ok_def)
      then show "bidsByID st' b = bidsByID st b" by (simp add: f(1))
    qed
    then show ?thesis using item_ok_frame [OF jt, of st'] bal jn by (simp add: f(4,5,6))
  qed
  show ?thesis
  proof (rule that [OF st' f(2) ok' _ live' frame _ _ f(3) rest])
    show "?it = it\<lparr>i_CurrentBid := last_bid (live st' ?it)\<rparr>" unfolding live' using best(1) by simp
    show "\<exists>x. bidsByID st ?l = Some x \<and> bidsByID st' = (bidsByID st)(?l \<mapsto> x\<lparr>b_IsRetracted := True\<rparr>)"
      using x(1) f(1) by blast
  qed (simp_all add: f(4,5,6))
qed

section \<open>Ending an auction\<close>

lemma end_item_ok:
  assumes ok: "item_ok st i it" and it: "itemsByID st i = Some it" and act: "i_Status it = ItemStatusActive"
  obtains st' it' where "EndAuction i now st = (Inr (last_bid (live st it)), st')"
    "it' = it\<lparr>i_CurrentBid := last_bid (live st it), i_Status := ItemStatusEnded\<rparr>"
    "itemsByID st' = (itemsByID st)(i \<mapsto> it')" "item_ok st' i it'" "live st' it' = live st it"
    "\<And>j jt. j \<noteq> i \<Longrightarrow> item_ok st j jt \<Longrightarrow> item_ok st' j jt \<and> live st' jt = live st jt"
    "\<And>j. j \<noteq> i \<Longrightarrow> getOrCreateItemHeap j st' = getOrCreateItemHeap j st
      \<and> getOrCreateItemBidHistory j st' = getOrCreateItemBidHistory j st
      \<and> (\<forall>v. getOrCreateUserItemBidStack v j st' = getOrCreateUserItemBidStack v j st)"
    "bidsByID st' = bidsByID st" "usersByID st' = usersByID st"
    "nextBidID st' = nextBidID st" "nextUserID st' = nextUserID st" "nextItemID st' = nextItemID st"
    "categoryTree st' = categoryTree st" "itemIDsByCategory st' = itemIDsByCategory st"
proof -
  obtain t h where drop: "drop_retracted (bidsByID st) (getOrCreateItemHeap i st) = (t, h)" by fastforce
  note best = best_is_last [OF item_okD(5) [OF ok] drop live_def item_okD(6,7,8) [OF ok]]
  let ?it = "it\<lparr>i_CurrentBid := last_bid (live st it), i_Status := ItemStatusEnded\<rparr>"
  obtain st' where st': "EndAuction i now st = (Inr (last_bid (live st it)), st')"
    and f: "itemsByID st' = (itemsByID st)(i \<mapsto> ?it)" "itemBidHeaps st' = (itemBidHeaps st)(i \<mapsto> h)"
      "bidsByID st' = bidsByID st" "usersByID st' = usersByID st" "itemBidHistory st' = itemBidHistory st"
      "userBidStacks st' = userBidStacks st"
    and rest: "nextBidID st' = nextBidID st" "nextUserID st' = nextUserID st" "nextItemID st' = nextItemID st"
      "categoryTree st' = categoryTree st" "itemIDsByCategory st' = itemIDsByCategory st"
    using it act drop best(1) by (simp add: EndAuction_def Let_def)
  have cont: "getOrCreateItemHeap j st' = (if j = i then h else getOrCreateItemHeap j st)"
    "getOrCreateItemBidHistory j st' = getOrCreateItemBidHistory j st"
    "getOrCreateUserItemBidStack v j st' = getOrCreateUserItemBidStack v j st" for j v
    by (simp_all add: getOrCreateItemHeap_def getOrCreateItemBidHistory_def getOrCreateUserItemBidStack_def f)
  have live': "live st' ?it = live st it" by (simp add: live_def f)
  have bok: "bid_ok st' ?it b x = bid_ok st it b x" for b x by (simp add: bid_ok_def f)
  have bdr: "bidder st' = bidder st" by (simp add: bidder_def f fun_eq_iff)
  have ok': "item_ok st' i ?it"
    unfolding item_ok_def live' bok bdr cont f(3)
    using item_okD [OF ok] best by (intro conjI allI ballI) simp_all
  have frame: "item_ok st' j jt \<and> live st' jt = live st jt" if jn: "j \<noteq> i" and jt: "item_ok st j jt" for j jt
    using item_ok_frame [OF jt, of st'] jn by (simp add: cont f)
  show ?thesis by (rule that [OF st' refl f(1) ok' live' frame _ f(3,4) rest]) (simp_all add: cont)
qed

section \<open>The store invariant\<close>

definition bids_inv :: "auction \<Rightarrow> bool" where
  "bids_inv st \<longleftrightarrow>
     (\<forall>i it. itemsByID st i = Some it \<longrightarrow> item_ok st i it)
     \<and> (\<forall>b x. bidsByID st b = Some x \<longrightarrow> (\<exists>it. itemsByID st (b_ItemID x) = Some it \<and> b \<in> set (i_BidHistory it)))
     \<and> (\<forall>i. itemsByID st i = None \<longrightarrow> getOrCreateItemHeap i st = [] \<and> getOrCreateItemBidHistory i st = []
          \<and> (\<forall>u. getOrCreateUserItemBidStack u i st = []))"

definition user_bids :: "auction \<Rightarrow> int \<Rightarrow> int set" where
  "user_bids st u = {b. \<exists>x. bidsByID st b = Some x \<and> b_UserID x = u \<and> \<not> b_IsRetracted x}"

definition users_inv :: "auction \<Rightarrow> bool" where
  "users_inv st \<longleftrightarrow>
     (\<forall>u us. usersByID st u = Some us \<longrightarrow>
        u_ID us = u \<and> distinct (u_ActiveBids us) \<and> set (u_ActiveBids us) = user_bids st u \<and> \<not> u_Balance us < 0)"

definition category_inv :: "auction \<Rightarrow> bool" where
  "category_inv st \<longleftrightarrow>
     tree_inv (categoryTree st) \<and> t_Root (categoryTree st) = root_category
     \<and> (\<forall>i it. itemsByID st i = Some it \<longrightarrow> i_Category it \<in> dom (t_index (categoryTree st))
          \<and> (\<exists>ids. itemIDsByCategory st (i_Category it) = Some ids \<and> i \<in> ids))
     \<and> (\<forall>c ids. itemIDsByCategory st c = Some ids \<longrightarrow> finite ids
          \<and> (\<forall>i\<in>ids. \<exists>it. itemsByID st i = Some it \<and> i_Category it = c))"

definition ids_inv :: "nat \<Rightarrow> auction \<Rightarrow> bool" where
  "ids_inv n st \<longleftrightarrow>
     dom (bidsByID st) \<subseteq> {1..nextBidID st} \<and> dom (itemsByID st) \<subseteq> {1..nextItemID st}
     \<and> dom (usersByID st) \<subseteq> {1..nextUserID st}
     \<and> nextBidID st \<in> {0..int n} \<and> nextItemID st \<in> {0..int n} \<and> nextUserID st \<in> {0..int n}"

definition auction_inv :: "nat \<Rightarrow> auction \<Rightarrow> bool" where
  "auction_inv n st \<longleftrightarrow> bids_inv st \<and> users_inv st \<and> category_inv st \<and> ids_inv n st"

lemma auction_invI [inv_intros]:
  "bids_inv st \<Longrightarrow> users_inv st \<Longrightarrow> category_inv st \<Longrightarrow> ids_inv n st \<Longrightarrow> auction_inv n st"
  by (simp add: auction_inv_def)

lemma auction_inv_item: "auction_inv n st \<Longrightarrow> itemsByID st i = Some it \<Longrightarrow> item_ok st i it"
  by (simp add: auction_inv_def bids_inv_def)

lemma auction_inv_Suc: "auction_inv n st \<Longrightarrow> auction_inv (Suc n) st"
  by (auto simp: auction_inv_def ids_inv_def)

lemma NewAuctionStore_inv: "auction_inv 0 NewAuctionStore"
  by (auto simp: NewAuctionStore_def auction_inv_def bids_inv_def users_inv_def category_inv_def ids_inv_def
      getOrCreateItemHeap_def getOrCreateItemBidHistory_def getOrCreateUserItemBidStack_def NewTree_inv
      NewTree_def [THEN arg_cong [of _ _ t_Root]])

lemma wrap64_next: "0 \<le> k \<Longrightarrow> k \<le> int n \<Longrightarrow> int n < 2 ^ 63 - 1 \<Longrightarrow> wrap64 (k + 1) = k + 1"
  by (rule wrap64_id) (simp add: in_int64_def)

lemma fresh_bid_eq: "ids_inv n st \<Longrightarrow> int n < 2 ^ 63 - 1 \<Longrightarrow> fresh_bid st = nextBidID st + 1"
  using wrap64_next [of "nextBidID st" n] by (simp add: fresh_bid_def ids_inv_def)

lemma fresh_bid_new: "ids_inv n st \<Longrightarrow> int n < 2 ^ 63 - 1 \<Longrightarrow> bidsByID st (fresh_bid st) = None"
  using fresh_bid_eq [of n st] by (fastforce simp: ids_inv_def)

text \<open>A step on one item keeps the invariant of the bids if it keeps that item's.\<close>

lemma bids_inv_step:
  assumes inv: "bids_inv st" and items: "itemsByID st' = (itemsByID st)(i \<mapsto> it')"
    and i: "itemsByID st i \<noteq> None" and ok: "item_ok st' i it'"
    and frame: "\<And>j jt. j \<noteq> i \<Longrightarrow> itemsByID st j = Some jt \<Longrightarrow> item_ok st' j jt"
    and cont: "\<And>j. j \<noteq> i \<Longrightarrow> getOrCreateItemHeap j st' = getOrCreateItemHeap j st
      \<and> getOrCreateItemBidHistory j st' = getOrCreateItemBidHistory j st
      \<and> (\<forall>v. getOrCreateUserItemBidStack v j st' = getOrCreateUserItemBidStack v j st)"
    and bids: "\<And>b x. bidsByID st' b = Some x \<Longrightarrow>
      (b_ItemID x = i \<and> b \<in> set (i_BidHistory it'))
      \<or> (\<exists>y. bidsByID st b = Some y \<and> b_ItemID y = b_ItemID x \<and> b_ItemID x \<noteq> i)"
  shows "bids_inv st'"
  unfolding bids_inv_def
proof (intro conjI allI impI)
  show "item_ok st' j jt" if "itemsByID st' j = Some jt" for j jt
    using that ok frame by (cases "j = i") (auto simp: items)
  show "\<exists>jt. itemsByID st' (b_ItemID x) = Some jt \<and> b \<in> set (i_BidHistory jt)" if "bidsByID st' b = Some x" for b x
    using bids [OF that]
  proof
    assume "\<exists>y. bidsByID st b = Some y \<and> b_ItemID y = b_ItemID x \<and> b_ItemID x \<noteq> i"
    then obtain y where y: "bidsByID st b = Some y" "b_ItemID y = b_ItemID x" "b_ItemID x \<noteq> i" by blast
    then obtain jt where "itemsByID st (b_ItemID y) = Some jt" "b \<in> set (i_BidHistory jt)"
      using inv unfolding bids_inv_def by blast
    then show ?thesis using y by (simp add: items)
  qed (simp add: items)
  show "getOrCreateItemHeap j st' = []" "getOrCreateItemBidHistory j st' = []" "getOrCreateUserItemBidStack u j st' = []"
    if "itemsByID st' j = None" for j u
    using that cont [of j] inv i by (auto simp: items bids_inv_def split: if_splits)
qed

lemma category_inv_step:
  assumes "category_inv st" "categoryTree st' = categoryTree st" "itemIDsByCategory st' = itemIDsByCategory st"
    "itemsByID st' = (itemsByID st)(i \<mapsto> it')" "itemsByID st i = Some it" "i_Category it' = i_Category it"
  shows "category_inv st'"
proof -
  have ex: "(\<exists>jt. itemsByID st' j = Some jt \<and> i_Category jt = c) \<longleftrightarrow> (\<exists>jt. itemsByID st j = Some jt \<and> i_Category jt = c)"
    for j c using assms(4-6) by auto
  have 1: "i_Category kt \<in> dom (t_index (categoryTree st)) \<and> (\<exists>ids. itemIDsByCategory st (i_Category kt) = Some ids \<and> j \<in> ids)"
    if kt: "itemsByID st' j = Some kt" for j kt
  proof -
    obtain jt where "itemsByID st j = Some jt" "i_Category jt = i_Category kt" using ex [of j "i_Category kt"] kt by blast
    then show ?thesis using assms(1) unfolding category_inv_def by metis
  qed
  have 2: "finite ids \<and> (\<forall>j\<in>ids. \<exists>jt. itemsByID st' j = Some jt \<and> i_Category jt = c)"
    if "itemIDsByCategory st c = Some ids" for c ids
    unfolding ex using assms(1) that unfolding category_inv_def by blast
  show ?thesis
    using 1 2 assms(1) unfolding category_inv_def [of st'] assms(2,3) by (simp add: category_inv_def)
qed

section \<open>Every operation keeps the invariant\<close>

lemma PlaceBid_inv:
  assumes inv: "auction_inv n st" and n: "int n < 2 ^ 63 - 1"
  shows "auction_inv (Suc n) (snd (PlaceBid u i a now st))"
proof (cases "place_check u i a now st")
  case (Some e)
  then show ?thesis using auction_inv_Suc [OF inv] by (simp add: PlaceBid_def)
next
  case chk: None
  obtain us it where us: "usersByID st u = Some us" and it: "itemsByID st i = Some it"
    by (rule place_checkD [OF chk])
  let ?b = "fresh_bid st" and ?st = "snd (place_commit u i a now st)"
  note f = place_commit_fields [where u = u and i = i and a = a and now = now and st = st]
  have ids: "ids_inv n st" and b: "bids_inv st" and usr: "users_inv st" and cat: "category_inv st"
    using inv by (simp_all add: auction_inv_def)
  have fresh: "bidsByID st ?b = None" and eq: "?b = nextBidID st + 1"
    using fresh_bid_new [OF ids n] fresh_bid_eq [OF ids n] by auto
  have ok: "item_ok st i it" using auction_inv_item [OF inv it] .
  let ?it = "it\<lparr>i_BidHistory := i_BidHistory it @ [?b], i_CurrentBid := Some ?b\<rparr>"
  have ok': "item_ok ?st i ?it" using place_item_ok [OF ok it chk fresh] by blast
  have items: "itemsByID ?st = (itemsByID st)(i \<mapsto> ?it)" by (simp add: f(3) it)
  have frame: "item_ok ?st j jt" if j: "j \<noteq> i" and jt: "itemsByID st j = Some jt" for j jt
  proof (rule item_ok_frame(1) [OF auction_inv_item [OF inv jt]])
    show "\<forall>c\<in>set (i_BidHistory jt). bidsByID ?st c = bidsByID st c"
      using item_okD(3) [OF auction_inv_item [OF inv jt]] fresh by (fastforce simp: f(2))
    show "\<exists>vs'. usersByID ?st v = Some vs' \<and> u_Balance vs' = u_Balance vs" if "usersByID st v = Some vs" for v vs
      using that by (cases "v = u") (simp_all add: f(4))
  qed (use j in \<open>simp_all add: f(5,6,7)\<close>)
  have "bids_inv ?st"
  proof (rule bids_inv_step [OF b items _ ok' frame])
    show "(b_ItemID x = i \<and> c \<in> set (i_BidHistory ?it))
      \<or> (\<exists>y. bidsByID st c = Some y \<and> b_ItemID y = b_ItemID x \<and> b_ItemID x \<noteq> i)" if "bidsByID ?st c = Some x" for c x
    proof (cases "c = ?b")
      case True
      then show ?thesis using that by (auto simp: f(2) new_bid_def)
    next
      case False
      then have "bidsByID st c = Some x" using that by (simp add: f(2))
      then show ?thesis using b it unfolding bids_inv_def by fastforce
    qed
  qed (use it in \<open>simp_all add: f(5,6,7)\<close>)
  moreover have "category_inv ?st" by (rule category_inv_step [OF cat f(11,12) items it]) simp
  moreover have "users_inv ?st"
  proof -
    have ub: "user_bids ?st v = (if v = u then insert ?b (user_bids st v) else user_bids st v)" for v
      using fresh by (auto simp: user_bids_def f(2) new_bid_def)
    have "?b \<notin> user_bids st v" for v using fresh by (simp add: user_bids_def)
    then show ?thesis using usr us unfolding users_inv_def ub f(4) by auto
  qed
  moreover have "ids_inv (Suc n) ?st"
    using ids it us by (auto simp: ids_inv_def f eq)
  ultimately show ?thesis using chk by (simp add: PlaceBid_def auction_inv_def)
qed

lemma removeBidID_set: "distinct bs \<Longrightarrow> set (removeBidID bs x) = set bs - {x} \<and> distinct (removeBidID bs x)"
  by (induction bs) auto

lemma set_stack_same:
  assumes "getOrCreateUserItemBidStack u i st = []"
  shows "getOrCreateUserItemBidStack v j (set_stack u i [] st) = getOrCreateUserItemBidStack v j st"
  using assms by (simp add: stack_set_stack)

lemma auction_inv_set_stack:
  assumes inv: "auction_inv n st" and e: "getOrCreateUserItemBidStack u i st = []"
  shows "auction_inv n (set_stack u i [] st)"
proof -
  let ?st = "set_stack u i [] st"
  have "item_ok ?st j jt" if "itemsByID st j = Some jt" for j jt
    by (rule item_ok_frame(1) [OF auction_inv_item [OF inv that]])
      (simp_all add: set_stack_same [OF e])
  then have "bids_inv ?st"
    using inv by (simp add: auction_inv_def bids_inv_def set_stack_same [OF e])
  then show ?thesis using inv by (simp add: auction_inv_def users_inv_def user_bids_def category_inv_def ids_inv_def)
qed

lemma RetractLastBid_inv:
  assumes inv: "auction_inv n st" shows "auction_inv n (snd (RetractLastBid u i now st))"
proof (cases "usersByID st u = None \<or> itemsByID st i = None")
  case True
  then show ?thesis using inv by (auto simp: RetractLastBid_def)
next
  case False
  then obtain it where it: "itemsByID st i = Some it" and u: "usersByID st u \<noteq> None" by auto
  have ok: "item_ok st i it" using auction_inv_item [OF inv it] .
  show ?thesis
  proof (cases "i_Status it = ItemStatusActive")
    case act: True
    show ?thesis
    proof (cases "user_live st u it = []")
      case True
      then have "getOrCreateUserItemBidStack u i st = []" using item_okD(10) [OF ok] by (simp add: user_live_def)
      then show ?thesis using retract_none [OF u it act ok True] auction_inv_set_stack [OF inv] by simp
    next
      case ne: False
      let ?l = "last (user_live st u it)"
      have ids: "ids_inv n st" and b: "bids_inv st" and usr: "users_inv st" and cat: "category_inv st"
        using inv by (simp_all add: auction_inv_def)
      obtain st' it' where r: "RetractLastBid u i now st = (Inr ?l, st')"
        and items: "itemsByID st' = (itemsByID st)(i \<mapsto> it')" and ok': "item_ok st' i it'"
        and it': "it' = it\<lparr>i_CurrentBid := last_bid (live st' it')\<rparr>"
        and "live st' it' = filter (\<lambda>b. b \<noteq> ?l) (live st it)"
        and frame: "\<And>j jt. j \<noteq> i \<Longrightarrow> item_ok st j jt \<Longrightarrow> item_ok st' j jt \<and> live st' jt = live st jt"
        and cont: "\<And>j. j \<noteq> i \<Longrightarrow> getOrCreateItemHeap j st' = getOrCreateItemHeap j st
            \<and> getOrCreateItemBidHistory j st' = getOrCreateItemBidHistory j st
            \<and> (\<forall>v. getOrCreateUserItemBidStack v j st' = getOrCreateUserItemBidStack v j st)"
        and bx: "\<exists>x. bidsByID st ?l = Some x \<and> bidsByID st' = (bidsByID st)(?l \<mapsto> x\<lparr>b_IsRetracted := True\<rparr>)"
        and us': "usersByID st' = (usersByID st)(u := map_option
           (\<lambda>us. us\<lparr>u_ActiveBids := removeBidID (u_ActiveBids us) ?l\<rparr>) (usersByID st u))"
        and rest: "nextBidID st' = nextBidID st" "nextUserID st' = nextUserID st" "nextItemID st' = nextItemID st"
          "categoryTree st' = categoryTree st" "itemIDsByCategory st' = itemIDsByCategory st"
        by (rule retract_item_ok [OF ok it u act ne, where now = now]) (rule that)
      obtain x where x: "bidsByID st ?l = Some x" "bidsByID st' = (bidsByID st)(?l \<mapsto> x\<lparr>b_IsRetracted := True\<rparr>)"
        using bx by blast
      have hist: "i_BidHistory it' = i_BidHistory it" "i_Category it' = i_Category it" by (subst it', simp)+
      have bu: "b_UserID x = u" using retract_popped [OF ok ne] x(1) by fastforce
      have "bids_inv st'"
      proof (rule bids_inv_step [OF b items _ ok' _ cont])
        show "item_ok st' j jt" if "j \<noteq> i" "itemsByID st j = Some jt" for j jt
          using frame that auction_inv_item [OF inv] by blast
        show "(b_ItemID y = i \<and> c \<in> set (i_BidHistory it'))
          \<or> (\<exists>z. bidsByID st c = Some z \<and> b_ItemID z = b_ItemID y \<and> b_ItemID y \<noteq> i)" if cy: "bidsByID st' c = Some y" for c y
        proof -
          obtain z where z: "bidsByID st c = Some z" "b_ItemID z = b_ItemID y"
            using cy x by (cases "c = ?l") auto
          then have "\<exists>jt. itemsByID st (b_ItemID z) = Some jt \<and> c \<in> set (i_BidHistory jt)"
            using b unfolding bids_inv_def by blast
          then show ?thesis using z it hist by auto
        qed
      qed (use it in simp)
      moreover have "category_inv st'" by (rule category_inv_step [OF cat rest(4,5) items it hist(2)])
      moreover have "users_inv st'"
      proof -
        have ub: "user_bids st' v = (if v = u then user_bids st v - {?l} else user_bids st v)" for v
          using x bu by (auto simp: user_bids_def)
        then show ?thesis using usr removeBidID_set unfolding users_inv_def us' by (auto split: if_splits)
      qed
      moreover have "ids_inv n st'"
        using ids x it u by (auto simp: ids_inv_def items us' rest)
      ultimately show ?thesis using r by (simp add: auction_inv_def)
    qed
  qed (use retract_inactive [OF u it] inv in simp)
qed

lemma EndAuction_inv:
  assumes inv: "auction_inv n st" shows "auction_inv n (snd (EndAuction i now st))"
proof (cases "itemsByID st i")
  case (Some it)
  have ok: "item_ok st i it" using auction_inv_item [OF inv Some] .
  show ?thesis
  proof (cases "i_Status it = ItemStatusActive")
    case act: True
    have ids: "ids_inv n st" and b: "bids_inv st" and usr: "users_inv st" and cat: "category_inv st"
      using inv by (simp_all add: auction_inv_def)
    obtain st' it' where r: "EndAuction i now st = (Inr (last_bid (live st it)), st')"
      and it': "it' = it\<lparr>i_CurrentBid := last_bid (live st it), i_Status := ItemStatusEnded\<rparr>"
      and items: "itemsByID st' = (itemsByID st)(i \<mapsto> it')" and ok': "item_ok st' i it'" and "live st' it' = live st it"
      and frame: "\<And>j jt. j \<noteq> i \<Longrightarrow> item_ok st j jt \<Longrightarrow> item_ok st' j jt \<and> live st' jt = live st jt"
      and cont: "\<And>j. j \<noteq> i \<Longrightarrow> getOrCreateItemHeap j st' = getOrCreateItemHeap j st
        \<and> getOrCreateItemBidHistory j st' = getOrCreateItemBidHistory j st
        \<and> (\<forall>v. getOrCreateUserItemBidStack v j st' = getOrCreateUserItemBidStack v j st)"
      and same: "bidsByID st' = bidsByID st" "usersByID st' = usersByID st"
      and rest: "nextBidID st' = nextBidID st" "nextUserID st' = nextUserID st" "nextItemID st' = nextItemID st"
        "categoryTree st' = categoryTree st" "itemIDsByCategory st' = itemIDsByCategory st"
      by (rule end_item_ok [OF ok Some act, where now = now]) (rule that)
    have hist: "i_BidHistory it' = i_BidHistory it" "i_Category it' = i_Category it" by (simp_all add: it')
    have "bids_inv st'"
    proof (rule bids_inv_step [OF b items _ ok' _ cont])
      show "item_ok st' j jt" if "j \<noteq> i" "itemsByID st j = Some jt" for j jt
        using frame that auction_inv_item [OF inv] by blast
      show "(b_ItemID y = i \<and> c \<in> set (i_BidHistory it'))
        \<or> (\<exists>z. bidsByID st c = Some z \<and> b_ItemID z = b_ItemID y \<and> b_ItemID y \<noteq> i)" if "bidsByID st' c = Some y" for c y
      proof -
        have "\<exists>jt. itemsByID st (b_ItemID y) = Some jt \<and> c \<in> set (i_BidHistory jt)"
          using b that unfolding bids_inv_def same by blast
        then show ?thesis using that Some hist same by auto
      qed
    qed (use Some in simp)
    moreover have "category_inv st'" by (rule category_inv_step [OF cat rest(4,5) items Some hist(2)])
    moreover have "users_inv st'" using usr by (simp add: users_inv_def user_bids_def same)
    moreover have "ids_inv n st'" using ids Some by (auto simp: ids_inv_def items same rest)
    ultimately show ?thesis using r by (simp add: auction_inv_def)
  qed (use Some inv in \<open>simp add: EndAuction_def\<close>)
qed (use inv in \<open>simp add: EndAuction_def\<close>)

lemma CreateUser_inv:
  assumes inv: "auction_inv n st" and n: "int n < 2 ^ 63 - 1"
  shows "auction_inv (Suc n) (snd (CreateUser name bal st))"
proof (cases "TrimSpace name = '''' \<or> bal < 0")
  case True
  then show ?thesis using auction_inv_Suc [OF inv] by (simp add: CreateUser_def)
next
  case False
  let ?n = "nextUserID st + 1" and ?st = "snd (CreateUser name bal st)"
  have ids: "ids_inv n st" and usr: "users_inv st" using inv by (simp_all add: auction_inv_def)
  have w: "wrap64 ?n = ?n" using ids n wrap64_next [of "nextUserID st" n] by (simp add: ids_inv_def)
  have st: "?st = st\<lparr>nextUserID := ?n, usersByID := (usersByID st)(?n \<mapsto>
      \<lparr>u_ID = ?n, u_Name = name, u_Balance = bal, u_ActiveBids = []\<rparr>)\<rparr>"
    using False w by (simp add: CreateUser_def generateUserID_def Let_def)
  have fresh: "usersByID st ?n = None" using ids by (fastforce simp: ids_inv_def)
  have item: "item_ok ?st j jt" if "itemsByID st j = Some jt" for j jt
    by (rule item_ok_frame(1) [OF auction_inv_item [OF inv that]]) (use fresh in \<open>auto simp: st
       getOrCreateItemHeap_def getOrCreateItemBidHistory_def getOrCreateUserItemBidStack_def\<close>)
  have bids: "bids_inv ?st"
    using inv item unfolding auction_inv_def bids_inv_def
    by (simp add: st getOrCreateItemHeap_def getOrCreateItemBidHistory_def getOrCreateUserItemBidStack_def)
  have "b_UserID x \<noteq> ?n" if x: "bidsByID st b = Some x" for b x
  proof -
    obtain it where it: "itemsByID st (b_ItemID x) = Some it" "b \<in> set (i_BidHistory it)"
      using inv x unfolding auction_inv_def bids_inv_def by blast
    then have "b_UserID x \<in> dom (usersByID st)"
      using item_okD(3) [OF auction_inv_item [OF inv it(1)] it(2)] x by (auto simp: bid_ok_def)
    then show ?thesis using fresh by auto
  qed
  then have "user_bids st ?n = {}" by (auto simp: user_bids_def)
  then have "users_inv ?st" using usr False by (auto simp: users_inv_def user_bids_def st)
  moreover have "category_inv ?st" using inv by (simp add: auction_inv_def category_inv_def st)
  moreover have "ids_inv (Suc n) ?st" using ids by (auto simp: ids_inv_def st)
  ultimately show ?thesis using bids by (simp add: auction_inv_def)
qed

lemma ensure_path_ok:
  "tree_inv t \<Longrightarrow> parent \<in> dom (t_index t) \<Longrightarrow> \<forall>c\<in>set path. c \<noteq> ''''
    \<Longrightarrow> \<exists>t'. ensure_path parent path t = (None, t') \<and> tree_inv t' \<and> t_Root t' = t_Root t
      \<and> dom (t_index t') = dom (t_index t) \<union> set path"
proof (induction path arbitrary: parent t)
  case (Cons c path)
  show ?case
  proof (cases "t_index t c")
    case None
    obtain pn where pn: "t_index t parent = Some pn" using Cons.prems by auto
    then obtain t1 where t: "tree_Add parent c t = (None, t1)" "t_Root t1 = t_Root t"
        "dom (t_index t1) = insert c (dom (t_index t))"
      using None by (auto simp: tree_Add_def Let_def)
    have "tree_inv t1" using tree_Add_inv [OF Cons.prems(1), of parent c] t(1) by simp
    moreover have "c \<in> dom (t_index t1)" "\<forall>c\<in>set path. c \<noteq> ''''" using Cons.prems(3) by (simp_all add: t(3))
    ultimately obtain t' where "ensure_path c path t1 = (None, t')" "tree_inv t'" "t_Root t' = t_Root t1"
        "dom (t_index t') = dom (t_index t1) \<union> set path"
      using Cons.IH by blast
    then show ?thesis using Cons.prems(3) None t by (intro exI [of _ t']) (simp add: tree_Get_def)
  next
    case (Some cn)
    then have c: "c \<in> dom (t_index t)" by blast
    moreover have "\<forall>c\<in>set path. c \<noteq> ''''" using Cons.prems(3) by simp
    ultimately obtain t' where "ensure_path c path t = (None, t')" "tree_inv t'" "t_Root t' = t_Root t"
        "dom (t_index t') = dom (t_index t) \<union> set path"
      using Cons.IH [OF Cons.prems(1)] by blast
    then show ?thesis using Cons.prems(3) Some c by (intro exI [of _ t']) (simp add: tree_Get_def insert_absorb)
  qed
qed auto

lemma item_ok_new:
  assumes "getOrCreateItemHeap i st = []" "getOrCreateItemBidHistory i st = []"
    "\<And>u. getOrCreateUserItemBidStack u i st = []" "i_ID it = i" "i_BidHistory it = []" "i_CurrentBid it = None"
  shows "item_ok st i it"
  using assms by (simp add: item_ok_def live_def last_bid_def bid_heap_def)

lemma CreateItem_cases:
  assumes inv: "auction_inv n st" and n: "int n < 2 ^ 63 - 1"
  obtains (err) e where "CreateItem name path desc seller price t0 t1 st = (Inl e, st)"
    "e \<in> {ErrInvalidItemInput, ErrCategoryNotFound, ErrUserNotFound}"
  | (ok) t it st' where "CreateItem name path desc seller price t0 t1 st = (Inr (nextItemID st + 1), st')"
    "i_Category it = last (normalizeCategoryPath path)" "i_ID it = nextItemID st + 1" "i_BidHistory it = []"
    "i_CurrentBid it = None" "i_Status it = ItemStatusActive" "i_SellerID it = seller" "i_StartPrice it = price"
    "i_StartTime it = t0" "i_EndTime it = t1"
    "tree_inv t" "t_Root t = root_category"
    "dom (t_index t) = dom (t_index (categoryTree st)) \<union> set (normalizeCategoryPath path)"
    "normalizeCategoryPath path \<noteq> []" "usersByID st seller \<noteq> None"
    "st' = addItemToCategory (nextItemID st + 1) (last (normalizeCategoryPath path))
       (st\<lparr>categoryTree := t, nextItemID := nextItemID st + 1, itemsByID := (itemsByID st)(nextItemID st + 1 \<mapsto> it)\<rparr>)"
proof -
  let ?p = "normalizeCategoryPath path"
  have cat: "tree_inv (categoryTree st)" "t_Root (categoryTree st) = root_category" and ids: "ids_inv n st"
    using inv by (simp_all add: auction_inv_def category_inv_def)
  have w: "wrap64 (nextItemID st + 1) = nextItemID st + 1"
    using ids n wrap64_next [of "nextItemID st" n] by (simp add: ids_inv_def)
  have root: "root_category \<in> dom (t_index (categoryTree st))" using cat by (auto simp: tree_inv_def)
  have ne: "\<forall>c\<in>set ?p. c \<noteq> ''''" by (simp add: normalizeCategoryPath_def)
  obtain t where t: "ensure_path root_category ?p (categoryTree st) = (None, t)" "tree_inv t"
      "t_Root t = root_category" "dom (t_index t) = dom (t_index (categoryTree st)) \<union> set ?p"
    using ensure_path_ok [OF cat(1) root ne] cat(2) by auto
  show ?thesis
  proof (cases "TrimSpace name = '''' \<or> price \<le> 0 \<or> \<not> t0 < t1 \<or> ?p = [] \<or> usersByID st seller = None")
    case True
    then have "\<exists>e\<in>{ErrInvalidItemInput, ErrCategoryNotFound, ErrUserNotFound}.
        CreateItem name path desc seller price t0 t1 st = (Inl e, st)"
      by (auto simp: CreateItem_def Let_def)
    then show ?thesis using err by blast
  next
    case False
    then show ?thesis
      using t w
      by (intro ok [of _ "\<lparr>i_ID = nextItemID st + 1, i_Name = name, i_Category = last ?p, i_Description = desc,
          i_SellerID = seller, i_StartPrice = price, i_CurrentBid = None, i_BidHistory = [], i_StartTime = t0,
          i_EndTime = t1, i_Status = ItemStatusActive\<rparr>" t])
        (simp_all add: CreateItem_def Let_def ensureCategoryPath_def generateItemID_def last_conv_nth)
  qed
qed

lemma CreateItem_inv:
  assumes inv: "auction_inv n st" and n: "int n < 2 ^ 63 - 1"
  shows "auction_inv (Suc n) (snd (CreateItem name path desc seller price t0 t1 st))"
proof (cases rule: CreateItem_cases [OF inv n, of name path desc seller price t0 t1])
  case (1 e)
  then show ?thesis using auction_inv_Suc [OF inv] by simp
next
  case ok: (2 t it st')
  let ?n = "nextItemID st + 1" and ?c = "last (normalizeCategoryPath path)"
  let ?ids = "case itemIDsByCategory st ?c of None \<Rightarrow> {} | Some s \<Rightarrow> s"
  have st': "st' = st\<lparr>categoryTree := t, nextItemID := ?n, itemsByID := (itemsByID st)(?n \<mapsto> it),
      itemIDsByCategory := (itemIDsByCategory st)(?c \<mapsto> insert ?n ?ids)\<rparr>"
    using ok(16) by (simp add: addItemToCategory_def Let_def)
  have ids: "ids_inv n st" and b: "bids_inv st" and cat: "category_inv st"
    using inv by (simp_all add: auction_inv_def)
  have fresh: "itemsByID st ?n = None" using ids by (fastforce simp: ids_inv_def)
  have cont: "getOrCreateItemHeap j st' = getOrCreateItemHeap j st"
    "getOrCreateItemBidHistory j st' = getOrCreateItemBidHistory j st"
    "getOrCreateUserItemBidStack v j st' = getOrCreateUserItemBidStack v j st" for j v
    by (simp_all add: st' getOrCreateItemHeap_def getOrCreateItemBidHistory_def getOrCreateUserItemBidStack_def)
  have same: "bidsByID st' = bidsByID st" "usersByID st' = usersByID st" by (simp_all add: st')
  have empty: "getOrCreateItemHeap ?n st = []" "getOrCreateItemBidHistory ?n st = []" "getOrCreateUserItemBidStack u ?n st = []" for u
    using b fresh by (simp_all add: bids_inv_def)
  have new: "item_ok st' ?n it" by (rule item_ok_new) (use ok(3,4,5) empty in \<open>simp_all add: cont\<close>)
  have old: "item_ok st' j jt" if "itemsByID st j = Some jt" for j jt
    by (rule item_ok_frame(1) [OF auction_inv_item [OF inv that]]) (simp_all add: cont same)
  have items: "itemsByID st' = (itemsByID st)(?n \<mapsto> it)" by (simp add: st')
  have "bids_inv st'"
    unfolding bids_inv_def cont
  proof (intro conjI allI impI)
    show "item_ok st' j jt" if "itemsByID st' j = Some jt" for j jt
      using that new old by (cases "j = ?n") (auto simp: items)
    show "\<exists>jt. itemsByID st' (b_ItemID x) = Some jt \<and> c \<in> set (i_BidHistory jt)" if "bidsByID st' c = Some x" for c x
    proof -
      have "bidsByID st c = Some x" using that by (simp add: st')
      then obtain jt where "itemsByID st (b_ItemID x) = Some jt" "c \<in> set (i_BidHistory jt)"
        using b unfolding bids_inv_def by blast
      then show ?thesis using fresh by (auto simp: items)
    qed
  qed (use b in \<open>auto simp: items bids_inv_def split: if_splits\<close>)
  moreover have "users_inv st'" using inv by (simp add: auction_inv_def users_inv_def user_bids_def st')
  moreover have "category_inv st'"
    unfolding category_inv_def
  proof (intro conjI allI impI)
    show "tree_inv (categoryTree st')" "t_Root (categoryTree st') = root_category" using ok(11,12) by (simp_all add: st')
    fix j jt assume j: "itemsByID st' j = Some jt"
    show "i_Category jt \<in> dom (t_index (categoryTree st'))"
      using j ok(2,13,14) cat last_in_set [OF ok(14)] by (cases "j = ?n") (auto simp: st' category_inv_def)
    show "\<exists>ids. itemIDsByCategory st' (i_Category jt) = Some ids \<and> j \<in> ids"
    proof (cases "j = ?n")
      case False
      then have "itemsByID st j = Some jt" using j by (simp add: items)
      then obtain ids where "itemIDsByCategory st (i_Category jt) = Some ids" "j \<in> ids"
        using cat unfolding category_inv_def by blast
      then show ?thesis by (cases "i_Category jt = ?c") (simp_all add: st')
    qed (use j ok(2) in \<open>simp add: st'\<close>)
  next
    fix c ids assume c: "itemIDsByCategory st' c = Some ids"
    have old: "finite ids' \<and> (\<forall>j\<in>ids'. \<exists>jt. itemsByID st' j = Some jt \<and> i_Category jt = c)"
      if "itemIDsByCategory st c = Some ids'" for ids'
      using cat that fresh unfolding category_inv_def items by (metis fun_upd_other option.distinct(1))
    show "finite ids" "\<forall>j\<in>ids. \<exists>jt. itemsByID st' j = Some jt \<and> i_Category jt = c"
      using c old ok(2) by (cases "c = ?c"; auto simp: st' split: option.splits)+
  qed
  moreover have "ids_inv (Suc n) st'" using ids by (auto simp: ids_inv_def st')
  ultimately show ?thesis using ok(1) by (simp add: auction_inv_def)
qed

lemma auction_inv_cong:
  assumes "auction_inv n st" and e: "usersByID st' = usersByID st" "itemsByID st' = itemsByID st" "bidsByID st' = bidsByID st"
    "itemBidHeaps st' = itemBidHeaps st" "itemBidHistory st' = itemBidHistory st" "userBidStacks st' = userBidStacks st"
    "nextBidID st' = nextBidID st" "nextUserID st' = nextUserID st" "nextItemID st' = nextItemID st"
    "categoryTree st' = categoryTree st" "itemIDsByCategory st' = itemIDsByCategory st"
  shows "auction_inv n st'"
proof -
  have cont: "getOrCreateItemHeap j st' = getOrCreateItemHeap j st"
    "getOrCreateItemBidHistory j st' = getOrCreateItemBidHistory j st"
    "getOrCreateUserItemBidStack v j st' = getOrCreateUserItemBidStack v j st" for j v
    by (simp_all add: e getOrCreateItemHeap_def getOrCreateItemBidHistory_def getOrCreateUserItemBidStack_def)
  have "item_ok st' j jt" if "itemsByID st j = Some jt" for j jt
    by (rule item_ok_frame(1) [OF auction_inv_item [OF assms(1) that]]) (simp_all add: cont e)
  then show ?thesis using assms(1)
    by (simp add: auction_inv_def bids_inv_def users_inv_def user_bids_def category_inv_def ids_inv_def cont e)
qed

end
