(* ===== verification/Auction_Props.thy ===== *)
theory Auction_Props
  imports Auction_Correct
begin

text \<open>
  The auction house as a state machine: the states that calls of the service, in any order and
  by any clients, can reach, and what holds in all of them.  The number of calls so far bounds
  the ids, so that with fewer than 2^63 - 1 calls no id counter wraps around.
\<close>

section \<open>The state machine\<close>

datatype auction_op =
    DoCreateUser string f64
  | DoCreateItem string "string list" string int f64 gotime gotime
  | DoPlaceBid int int f64 gotime
  | DoRetractLastBid int int gotime
  | DoEndAuction int gotime
  | DoSubscribe int nat
  | DoUnsubscribe int nat
  | DoReceive nat

text \<open>\<open>DoReceive\<close> is a client taking the oldest event from its channel.\<close>

fun auction_step :: "auction_op \<Rightarrow> auction \<Rightarrow> auction" where
  "auction_step (DoCreateUser name balance) st = snd (CreateUser name balance st)"
| "auction_step (DoCreateItem name path desc seller price t0 t1) st = snd (CreateItem name path desc seller price t0 t1 st)"
| "auction_step (DoPlaceBid u i a now) st = snd (PlaceBid u i a now st)"
| "auction_step (DoRetractLastBid u i now) st = snd (RetractLastBid u i now st)"
| "auction_step (DoEndAuction i now) st = snd (EndAuction i now st)"
| "auction_step (DoSubscribe i ch) st = snd (SubscribeItem i ch st)"
| "auction_step (DoUnsubscribe i ch) st = UnsubscribeItem i ch st"
| "auction_step (DoReceive ch) st = st\<lparr>channels := (channels st)(ch := map_option tl (channels st ch))\<rparr>"

inductive auction_reach :: "nat \<Rightarrow> auction \<Rightarrow> bool" where
  reach_new: "auction_reach 0 NewAuctionStore"
| reach_step: "auction_reach n st \<Longrightarrow> auction_reach (Suc n) (auction_step op st)"

inductive_cases auction_reach_SucE: "auction_reach (Suc n) st"

lemma auction_step_inv:
  assumes inv: "auction_inv n st" and n: "int n < 2 ^ 63 - 1"
  shows "auction_inv (Suc n) (auction_step op st)"
proof (cases op)
  case (DoSubscribe i ch)
  have "auction_inv n (auction_step op st)"
    by (rule auction_inv_cong [OF inv]) (simp_all add: DoSubscribe SubscribeItem_def addWatcher_def Let_def)
  then show ?thesis by (rule auction_inv_Suc)
next
  case (DoUnsubscribe i ch)
  have "auction_inv n (auction_step op st)"
    by (rule auction_inv_cong [OF inv])
      (simp_all add: DoUnsubscribe UnsubscribeItem_def removeWatcher_def Let_def split: option.splits)
  then show ?thesis by (rule auction_inv_Suc)
next
  case (DoReceive ch)
  have "auction_inv n (auction_step op st)" by (rule auction_inv_cong [OF inv]) (simp_all add: DoReceive)
  then show ?thesis by (rule auction_inv_Suc)
qed (simp_all add: CreateUser_inv [OF inv n] CreateItem_inv [OF inv n] PlaceBid_inv [OF inv n]
      auction_inv_Suc RetractLastBid_inv [OF inv] EndAuction_inv [OF inv])

lemma auction_reach_inv: "auction_reach n st \<Longrightarrow> int n < 2 ^ 63 \<Longrightarrow> auction_inv n st"
proof (induction rule: auction_reach.induct)
  case reach_new
  show ?case by (rule NewAuctionStore_inv)
next
  case (reach_step n st op)
  then show ?case using auction_step_inv by simp
qed

fun auction_run :: "auction_op list \<Rightarrow> auction \<Rightarrow> auction" where
  "auction_run [] st = st"
| "auction_run (op # ops) st = auction_run ops (auction_step op st)"

lemma auction_run_reach: "auction_reach n st \<Longrightarrow> auction_reach (n + length ops) (auction_run ops st)"
  by (induction ops arbitrary: n st) (auto dest: reach_step, metis add_Suc reach_step)

text \<open>A sample session for the concrete instances below: two users, an item and a bid.\<close>

definition sample_start :: auction where
  "sample_start = auction_run
     [DoCreateUser ''ann'' 0, DoCreateUser ''bob'' (Fin 50), DoCreateItem ''vase'' [''art''] '''' 1 (Fin 10) 0 100]
     NewAuctionStore"

definition sample_bid :: auction where
  "sample_bid = auction_step (DoPlaceBid 2 1 (Fin 20) 5) sample_start"

definition vase :: item where
  "vase = \<lparr>i_ID = 1, i_Name = ''vase'', i_Category = ''art'', i_Description = '''', i_SellerID = 1,
     i_StartPrice = Fin 10, i_CurrentBid = None, i_BidHistory = [], i_StartTime = 0, i_EndTime = 100,
     i_Status = ItemStatusActive\<rparr>"

lemma sample_strings: "TrimSpace ''ann'' = ''ann''" "TrimSpace ''bob'' = ''bob''" "TrimSpace ''vase'' = ''vase''"
  "TrimSpace ''art'' = ''art''"
  by (simp_all add: TrimSpace_id ascii_ink_def)

lemma sample_start_fields:
  "usersByID sample_start = [1 \<mapsto> \<lparr>u_ID = 1, u_Name = ''ann'', u_Balance = 0, u_ActiveBids = []\<rparr>,
     2 \<mapsto> \<lparr>u_ID = 2, u_Name = ''bob'', u_Balance = Fin 50, u_ActiveBids = []\<rparr>]"
  "itemsByID sample_start = [1 \<mapsto> vase]" "bidsByID sample_start = Map.empty" "nextBidID sample_start = 0"
  by (simp_all add: sample_start_def CreateUser_def CreateItem_def generateUserID_def generateItemID_def wrap64_def
      NewAuctionStore_def sample_strings normalizeCategoryPath_def ensureCategoryPath_def tree_Get_def NewTree_def
      tree_Add_def root_category_def addItemToCategory_def zero_f64_def vase_def Let_def)

lemma sample_reach: "auction_reach 3 sample_start" "auction_reach 4 sample_bid"
proof -
  show "auction_reach 3 sample_start"
    using auction_run_reach [OF reach_new, of
      "[DoCreateUser ''ann'' 0, DoCreateUser ''bob'' (Fin 50), DoCreateItem ''vase'' [''art''] '''' 1 (Fin 10) 0 100]"]
    unfolding sample_start_def by (simp add: numeral_3_eq_3)
  then show "auction_reach 4 sample_bid"
    unfolding sample_bid_def using reach_step [of 3 sample_start "DoPlaceBid 2 1 (Fin 20) 5"] by simp
qed

lemma sample_check: "place_check 2 1 (Fin 20) 5 sample_start = None"
  by (simp add: place_check_def sample_start_fields vase_def math_IsNaN_def math_IsInf_def zero_f64_def Let_def)

lemma sample_bid_fields:
  "itemsByID sample_bid = [1 \<mapsto> vase\<lparr>i_BidHistory := [1], i_CurrentBid := Some 1\<rparr>]"
  "bidsByID sample_bid = [1 \<mapsto> \<lparr>b_ID = 1, b_ItemID = 1, b_UserID = 2, b_Amount = Fin 20, b_IsRetracted = False, b_Timestamp = 5\<rparr>]"
  "usersByID sample_bid 2 = Some \<lparr>u_ID = 2, u_Name = ''bob'', u_Balance = Fin 50, u_ActiveBids = [1]\<rparr>"
  by (simp_all add: sample_bid_def PlaceBid_def sample_check place_commit_fields sample_start_fields fresh_bid_def
      new_bid_def wrap64_def vase_def)

section \<open>Properties\<close>

lemma reach_item_ok:
  assumes "auction_reach n st" "int n < 2 ^ 63" "itemsByID st i = Some it" shows "item_ok st i it"
  using auction_inv_item [OF auction_reach_inv [OF assms(1,2)] assms(3)] .

lemma live_last_max:
  assumes ok: "item_ok st i it" and b: "b \<in> set (live st it)"
  shows "bid_amount (bidsByID st) b \<le> bid_amount (bidsByID st) (last (live st it))"
proof -
  have "last (live st it) \<in> set (i_BidHistory it)" using b live_history by (metis empty_iff empty_set last_in_set subsetD)
  then have "bid_amount (bidsByID st) (last (live st it)) \<noteq> NaN" using item_amount_not_NaN [OF ok] by blast
  then show ?thesis
    using sorted_last [OF item_okD(8) [OF ok] b] by (auto simp: bid_less_def less_f64_def)
qed

text \<open>
  C2. The current bid is always right: in every reachable state an item's current bid is the
  bid placed last among those not retracted, it is not retracted, no live bid of the item is
  higher, and there is none exactly when the item has no live bid.
\<close>

theorem current_bid_correct:
  assumes "auction_reach n st" "int n < 2 ^ 63" "itemsByID st i = Some it"
  shows "case i_CurrentBid it of
      None \<Rightarrow> live st it = []
    | Some c \<Rightarrow> live st it \<noteq> [] \<and> c = last (live st it) \<and> \<not> is_retracted (bidsByID st) c
        \<and> (\<forall>b\<in>set (live st it). bid_amount (bidsByID st) b \<le> bid_amount (bidsByID st) c)"
proof -
  have ok: "item_ok st i it" using reach_item_ok [OF assms] .
  have "\<not> is_retracted (bidsByID st) (last (live st it))" if "live st it \<noteq> []"
    using last_in_set [OF that] by (simp add: live_def)
  then show ?thesis using item_okD(9) [OF ok] live_last_max [OF ok] by (auto simp: last_bid_def)
qed

theorem current_bid_correct_witness:
  "auction_reach 4 sample_bid \<and> i_CurrentBid (the (itemsByID sample_bid 1)) = Some 1
    \<and> last (live sample_bid (the (itemsByID sample_bid 1))) = 1"
  using current_bid_correct [OF sample_reach(2), of 1] sample_reach(2) by (simp add: sample_bid_fields)

text \<open>
  C1. \<open>PlaceBid\<close> accepts exactly the bids it should: for an existing user and item, the bid is
  accepted if and only if the amount is a positive finite number, the auction is active and
  within its time, the bidder is not the seller and can pay, and the amount exceeds the start
  price and every live bid.  An accepted bid gets a new id, is appended to the live bids and
  becomes the current bid; a refused one changes nothing.
\<close>

theorem place_bid_correct:
  assumes reach: "auction_reach n st" "int n < 2 ^ 63 - 1" and it: "itemsByID st i = Some it"
    and us: "usersByID st u = Some us"
  shows "((\<exists>b. fst (PlaceBid u i a now st) = Inr b) \<longleftrightarrow>
        0 < a \<and> a \<noteq> PosInf \<and> i_Status it = ItemStatusActive \<and> i_StartTime it \<le> now \<and> now \<le> i_EndTime it
        \<and> i_SellerID it \<noteq> u \<and> \<not> u_Balance us < a \<and> \<not> a \<le> i_StartPrice it
        \<and> (\<forall>b\<in>set (live st it). bid_amount (bidsByID st) b < a))
    \<and> (case PlaceBid u i a now st of
         (Inl e, st') \<Rightarrow> st' = st
       | (Inr b, st') \<Rightarrow> bidsByID st b = None
           \<and> (\<exists>it'. itemsByID st' i = Some it' \<and> live st' it' = live st it @ [b] \<and> i_CurrentBid it' = Some b
               \<and> bid_amount (bidsByID st') b = a \<and> bidder st' b = u))"
proof -
  have n: "int n < 2 ^ 63" using reach(2) by simp
  have inv: "auction_inv n st" using auction_reach_inv [OF reach(1) n] .
  have ok: "item_ok st i it" using auction_inv_item [OF inv it] .
  have fresh: "bidsByID st (fresh_bid st) = None"
    using inv reach(2) by (auto simp: auction_inv_def intro: fresh_bid_new)
  let ?good = "0 < a \<and> a \<noteq> PosInf \<and> i_Status it = ItemStatusActive \<and> i_StartTime it \<le> now \<and> now \<le> i_EndTime it
        \<and> i_SellerID it \<noteq> u \<and> \<not> u_Balance us < a \<and> \<not> a \<le> i_StartPrice it
        \<and> (\<forall>b\<in>set (live st it). bid_amount (bidsByID st) b < a)"
  have acc: "place_check u i a now st = None \<longleftrightarrow> ?good"
  proof
    assume chk: "place_check u i a now st = None"
    have "\<not> a \<le> i_StartPrice it"
    proof -
      obtain x where "bid_ok (snd (place_commit u i a now st)) (it\<lparr>i_BidHistory := i_BidHistory it @ [fresh_bid st],
          i_CurrentBid := Some (fresh_bid st)\<rparr>) (fresh_bid st) x" "b_Amount x = a"
        using item_okD(3) [OF place_item_ok [OF ok it chk fresh, THEN conjunct1], of "fresh_bid st"]
        by (auto simp: place_commit_fields new_bid_def)
      then show ?thesis by (simp add: bid_ok_def)
    qed
    moreover have "0 < a \<and> a \<noteq> PosInf"
      using chk us it by (cases a) (auto simp: place_check_def math_IsNaN_def math_IsInf_def zero_f64_def Let_def split: if_splits)
    ultimately show ?good
      using place_check_beats [OF ok it chk] chk us it
      by (auto simp: place_check_def Let_def split: if_splits)
  next
    assume good: ?good
    have "\<not> a \<le> (case i_CurrentBid it of None \<Rightarrow> i_StartPrice it | Some b \<Rightarrow> bid_amount (bidsByID st) b)"
      using good item_okD(9) [OF ok] by (auto simp: last_bid_def less_f64_def)
    then show "place_check u i a now st = None"
      using good us it
      by (cases a) (auto simp: place_check_def math_IsNaN_def math_IsInf_def zero_f64_def Let_def less_f64_def)
  qed
  show ?thesis
  proof (cases "place_check u i a now st")
    case None
    let ?st = "snd (place_commit u i a now st)"
    have p: "PlaceBid u i a now st = (Inr (fresh_bid st), ?st)"
      using None place_commit_fields(1) by (simp add: PlaceBid_def prod_eq_iff)
    have "bid_amount (bidsByID ?st) (fresh_bid st) = a" "bidder ?st (fresh_bid st) = u"
      by (simp_all add: bid_amount_def bidder_def place_commit_fields new_bid_def)
    then show ?thesis using acc None fresh place_item_ok [OF ok it None fresh] unfolding p by auto
  next
    case (Some e)
    then show ?thesis using acc by (simp add: PlaceBid_def)
  qed
qed

theorem place_bid_correct_witness:
  "(\<exists>b. fst (PlaceBid 2 1 (Fin 30) 6 sample_bid) = Inr b) \<and> \<not> (\<exists>b. fst (PlaceBid 2 1 (Fin 20) 6 sample_bid) = Inr b)"
proof -
  have l: "live sample_bid (vase\<lparr>i_BidHistory := [1], i_CurrentBid := Some 1\<rparr>) = [1]"
    by (simp add: live_def is_retracted_def sample_bid_fields)
  show ?thesis
    using place_bid_correct [OF sample_reach(2), of 1 _ 2 _ "Fin 30" 6]
      place_bid_correct [OF sample_reach(2), of 1 _ 2 _ "Fin 20" 6]
    by (simp add: sample_bid_fields l zero_f64_def bid_amount_def) (simp add: vase_def)
qed

text \<open>
  C25. \<open>RetractLastBid\<close>: on an active item it retracts the bid the user placed last among the
  user's live bids, the remaining live bids keep their order and the last of them becomes the
  current bid; a user without a live bid gets \<open>ErrNoBidToRetract\<close>.  The four errors about
  an inconsistent bid never occur.
\<close>

theorem retract_correct:
  assumes reach: "auction_reach n st" "int n < 2 ^ 63" and it: "itemsByID st i = Some it"
    and u: "usersByID st u \<noteq> None"
  shows "case RetractLastBid u i now st of
      (Inl e, st') \<Rightarrow>
        (e = ErrAuctionNotActive \<and> i_Status it \<noteq> ItemStatusActive \<or> e = ErrNoBidToRetract \<and> user_live st u it = [])
        \<and> itemsByID st' = itemsByID st \<and> bidsByID st' = bidsByID st
    | (Inr b, st') \<Rightarrow>
        i_Status it = ItemStatusActive \<and> user_live st u it \<noteq> [] \<and> b = last (user_live st u it)
        \<and> is_retracted (bidsByID st') b
        \<and> (\<exists>it'. itemsByID st' i = Some it' \<and> live st' it' = filter (\<lambda>c. c \<noteq> b) (live st it)
             \<and> i_CurrentBid it' = last_bid (live st' it'))"
proof -
  have ok: "item_ok st i it" using reach_item_ok [OF reach it] .
  show ?thesis
  proof (cases "i_Status it = ItemStatusActive")
    case act: True
    show ?thesis
    proof (cases "user_live st u it = []")
      case True
      then show ?thesis using retract_none [OF u it act ok True] by simp
    next
      case False
      obtain st' it' where "RetractLastBid u i now st = (Inr (last (user_live st u it)), st')"
        "itemsByID st' i = Some it'" "it' = it\<lparr>i_CurrentBid := last_bid (live st' it')\<rparr>"
        "live st' it' = filter (\<lambda>b. b \<noteq> last (user_live st u it)) (live st it)"
        "is_retracted (bidsByID st') (last (user_live st u it))"
        by (rule retract_item_ok [OF ok it u act False, where now = now])
          (rule that, auto simp: is_retracted_def)
      moreover from this(3) have "i_CurrentBid it' = last_bid (live st' it')"
        by (rule trans [OF arg_cong [of it' _ i_CurrentBid]]) simp
      ultimately show ?thesis using act False by auto
    qed
  qed (use retract_inactive [OF u it] in simp)
qed

theorem retract_correct_witness:
  "fst (RetractLastBid 2 1 7 sample_bid) = Inr 1"
proof -
  have l: "user_live sample_bid 2 (vase\<lparr>i_BidHistory := [1], i_CurrentBid := Some 1\<rparr>) = [1]"
    by (simp add: user_live_def live_def is_retracted_def bidder_def sample_bid_fields)
  have "i_Status vase = ItemStatusActive" by (simp add: vase_def)
  then show ?thesis using retract_correct [OF sample_reach(2), of 1 _ 2 7]
    by (auto simp: sample_bid_fields l split: prod.splits sum.splits)
qed

section \<open>Steps on other items\<close>

fun op_item :: "auction_op \<Rightarrow> int option" where
  "op_item (DoPlaceBid u i a now) = Some i"
| "op_item (DoRetractLastBid u i now) = Some i"
| "op_item (DoEndAuction i now) = Some i"
| "op_item _ = None"

definition keeps :: "int \<Rightarrow> item \<Rightarrow> auction \<Rightarrow> auction \<Rightarrow> bool" where
  "keeps i it st st' \<longleftrightarrow>
     itemsByID st' i = Some it \<and> live st' it = live st it
     \<and> (\<forall>b\<in>set (i_BidHistory it). bid_amount (bidsByID st') b = bid_amount (bidsByID st) b)
     \<and> (\<forall>u us. usersByID st u = Some us \<longrightarrow> (\<exists>us'. usersByID st' u = Some us' \<and> u_Balance us' = u_Balance us))"

lemma keeps_same:
  "itemsByID st i = Some it \<Longrightarrow> itemsByID st' = itemsByID st \<Longrightarrow> bidsByID st' = bidsByID st
    \<Longrightarrow> usersByID st' = usersByID st \<Longrightarrow> keeps i it st st'"
  by (simp add: keeps_def live_def)

lemma keeps_refl: "itemsByID st i = Some it \<Longrightarrow> keeps i it st st"
  by (rule keeps_same) simp_all

lemma PlaceBid_keeps:
  assumes inv: "auction_inv n st" and n: "int n < 2 ^ 63 - 1" and it: "itemsByID st i = Some it" and j: "j \<noteq> i"
  shows "keeps i it st (snd (PlaceBid u j a now st))"
proof (cases "place_check u j a now st")
  case None
  have fresh: "fresh_bid st \<notin> set (i_BidHistory it)"
    using item_okD(3) [OF auction_inv_item [OF inv it], of "fresh_bid st"] fresh_bid_new [of n st] inv n
    by (auto simp: auction_inv_def)
  have bids: "bidsByID (snd (place_commit u j a now st)) b = bidsByID st b" if "b \<in> set (i_BidHistory it)" for b
    using that fresh by (auto simp: place_commit_fields)
  have "live (snd (place_commit u j a now st)) it = live st it"
    unfolding live_def by (rule filter_cong) (simp_all add: is_retracted_def bids)
  moreover have "\<exists>vs'. usersByID (snd (place_commit u j a now st)) v = Some vs' \<and> u_Balance vs' = u_Balance vs"
    if "usersByID st v = Some vs" for v vs
    using that by (cases "v = u") (simp_all add: place_commit_fields)
  ultimately show ?thesis
    using None it j bids by (simp add: PlaceBid_def keeps_def bid_amount_def place_commit_fields(3))
qed (use keeps_refl [OF it] in \<open>simp add: PlaceBid_def\<close>)

lemma Retract_keeps:
  assumes inv: "auction_inv n st" and it: "itemsByID st i = Some it" and j: "j \<noteq> i"
  shows "keeps i it st (snd (RetractLastBid u j now st))"
proof (cases "usersByID st u = None \<or> itemsByID st j = None")
  case True
  then show ?thesis using keeps_refl [OF it] by (auto simp: RetractLastBid_def)
next
  case False
  then obtain jt where jt: "itemsByID st j = Some jt" and u: "usersByID st u \<noteq> None" by auto
  have ok: "item_ok st j jt" using auction_inv_item [OF inv jt] .
  show ?thesis
  proof (cases "i_Status jt = ItemStatusActive \<and> user_live st u jt \<noteq> []")
    case True
    obtain st' it' where r: "RetractLastBid u j now st = (Inr (last (user_live st u jt)), st')"
      and items: "itemsByID st' = (itemsByID st)(j \<mapsto> it')"
      and frame: "\<And>k kt. k \<noteq> j \<Longrightarrow> item_ok st k kt \<Longrightarrow> item_ok st' k kt \<and> live st' kt = live st kt"
      and bids: "\<exists>x. bidsByID st (last (user_live st u jt)) = Some x \<and>
        bidsByID st' = (bidsByID st)(last (user_live st u jt) \<mapsto> x\<lparr>b_IsRetracted := True\<rparr>)"
      and us: "usersByID st' = (usersByID st)(u := map_option
        (\<lambda>us. us\<lparr>u_ActiveBids := removeBidID (u_ActiveBids us) (last (user_live st u jt))\<rparr>) (usersByID st u))"
      by (rule retract_item_ok [OF ok jt u conjunct1 [OF True] conjunct2 [OF True], where now = now]) (rule that)
    have "bid_amount (bidsByID st') b = bid_amount (bidsByID st) b" for b
      using bids by (auto simp: bid_amount_def)
    moreover have "\<exists>vs'. usersByID st' v = Some vs' \<and> u_Balance vs' = u_Balance vs"
      if "usersByID st v = Some vs" for v vs
      using that by (cases "v = u") (simp_all add: us)
    ultimately show ?thesis
      using r items it j frame [OF _ auction_inv_item [OF inv it]] by (simp add: keeps_def)
  next
    case False
    then show ?thesis
      using retract_inactive [OF u jt] retract_none [OF u jt _ ok] keeps_same [OF it]
      by (cases "i_Status jt = ItemStatusActive") simp_all
  qed
qed

lemma End_keeps:
  assumes "itemsByID st i = Some it" "j \<noteq> i" shows "keeps i it st (snd (EndAuction j now st))"
  using assms by (auto simp: EndAuction_def keeps_def live_def Let_def split_beta split: option.splits)

lemma CreateUser_keeps:
  assumes inv: "auction_inv n st" and n: "int n < 2 ^ 63 - 1" and it: "itemsByID st i = Some it"
  shows "keeps i it st (snd (CreateUser name bal st))"
proof -
  have "usersByID st (wrap64 (nextUserID st + 1)) = None"
    using inv n wrap64_next [of "nextUserID st" n] by (fastforce simp: auction_inv_def ids_inv_def)
  then show ?thesis using it by (auto simp: CreateUser_def generateUserID_def keeps_def live_def Let_def)
qed

lemma CreateItem_keeps:
  assumes inv: "auction_inv n st" and n: "int n < 2 ^ 63 - 1" and it: "itemsByID st i = Some it"
  shows "keeps i it st (snd (CreateItem name path desc seller price t0 t1 st))"
proof (cases rule: CreateItem_cases [OF inv n, of name path desc seller price t0 t1])
  case (1 e)
  then show ?thesis using keeps_refl [OF it] by simp
next
  case ok: (2 t jt st')
  have "i \<noteq> nextItemID st + 1" using inv it by (fastforce simp: auction_inv_def ids_inv_def)
  then show ?thesis using ok(1,16) it by (simp add: keeps_def live_def addItemToCategory_def Let_def)
qed

lemma step_keeps:
  assumes inv: "auction_inv n st" and n: "int n < 2 ^ 63 - 1" and it: "itemsByID st i = Some it"
    and op: "op_item op \<noteq> Some i"
  shows "keeps i it st (auction_step op st)"
proof (cases op)
  case (DoSubscribe j ch)
  show ?thesis by (rule keeps_same [OF it]) (simp_all add: DoSubscribe SubscribeItem_def addWatcher_def Let_def)
next
  case (DoUnsubscribe j ch)
  show ?thesis
    by (rule keeps_same [OF it])
      (simp_all add: DoUnsubscribe UnsubscribeItem_def removeWatcher_def Let_def split: option.splits)
next
  case (DoReceive ch)
  show ?thesis by (rule keeps_same [OF it]) (simp_all add: DoReceive)
qed (use op in \<open>simp_all add: PlaceBid_keeps [OF inv n it] Retract_keeps [OF inv it] End_keeps [OF it]
      CreateUser_keeps [OF inv n it] CreateItem_keeps [OF inv n it]\<close>)

lemma ended_step:
  assumes inv: "auction_inv n st" and n: "int n < 2 ^ 63 - 1" and it: "itemsByID st i = Some it"
    and ended: "i_Status it \<noteq> ItemStatusActive"
  shows "keeps i it st (auction_step op st)"
proof (cases "op_item op = Some i")
  case True
  show ?thesis
  proof (cases op)
    case (DoPlaceBid u j a now)
    then have "place_check u i a now st \<noteq> None" using True it ended by (simp add: place_check_def split: option.splits)
    then show ?thesis using keeps_refl [OF it] True DoPlaceBid by (auto simp: PlaceBid_def)
  next
    case (DoRetractLastBid u j now)
    then show ?thesis using keeps_refl [OF it] True it ended by (simp add: RetractLastBid_def)
  next
    case (DoEndAuction j now)
    then show ?thesis using keeps_refl [OF it] True it ended by (simp add: EndAuction_def)
  qed (use True in simp_all)
qed (rule step_keeps [OF inv n it])

lemma ended_run:
  assumes "auction_inv n st" "int (n + length ops) < 2 ^ 63" "itemsByID st i = Some it" "i_Status it \<noteq> ItemStatusActive"
  shows "itemsByID (auction_run ops st) i = Some it \<and> live (auction_run ops st) it = live st it"
  using assms
proof (induction ops arbitrary: n st)
  case (Cons op ops)
  have n: "int n < 2 ^ 63 - 1" "int (Suc n + length ops) < 2 ^ 63" using Cons.prems(2) by simp_all
  have k: "keeps i it st (auction_step op st)" using ended_step [OF Cons.prems(1) n(1) Cons.prems(3,4)] .
  then show ?case
    using Cons.IH [OF auction_step_inv [OF Cons.prems(1) n(1), of op] n(2) _ Cons.prems(4)] by (simp add: keeps_def)
qed simp

text \<open>
  C26. \<open>EndAuction\<close> on an active item returns the last live bid, which none exceeds, as the
  winner (nil without live bids) and ends the auction; on an ended item it fails.  Whatever
  is called after that, the item, its current bid and its live bids stay as they are: the
  winner is final.
\<close>

theorem end_auction_final:
  assumes reach: "auction_reach n st" "int (n + length ops) < 2 ^ 63 - 1" and it: "itemsByID st i = Some it"
  shows "if i_Status it = ItemStatusActive
     then \<exists>st' it'. EndAuction i now st = (Inr (last_bid (live st it)), st') \<and> i_Status it' = ItemStatusEnded
        \<and> i_CurrentBid it' = last_bid (live st it) \<and> itemsByID (auction_run ops st') i = Some it'
        \<and> live (auction_run ops st') it' = live st it
        \<and> (\<forall>b\<in>set (live st it). bid_amount (bidsByID st) b \<le> bid_amount (bidsByID st) (last (live st it)))
     else EndAuction i now st = (Inl ErrAuctionNotActive, st)"
proof (cases "i_Status it = ItemStatusActive")
  case act: True
  have n: "int n < 2 ^ 63" "int n < 2 ^ 63 - 1" using reach(2) by simp_all
  have inv: "auction_inv n st" using auction_reach_inv [OF reach(1) n(1)] .
  have ok: "item_ok st i it" using auction_inv_item [OF inv it] .
  obtain st' it' where e: "EndAuction i now st = (Inr (last_bid (live st it)), st')"
    "it' = it\<lparr>i_CurrentBid := last_bid (live st it), i_Status := ItemStatusEnded\<rparr>"
    "itemsByID st' = (itemsByID st)(i \<mapsto> it')" "live st' it' = live st it"
    by (rule end_item_ok [OF ok it act, where now = now]) (rule that)
  have "auction_inv (Suc n) st'"
    using auction_step_inv [OF inv n(2), of "DoEndAuction i now"] e(1) by simp
  then have "itemsByID (auction_run ops st') i = Some it' \<and> live (auction_run ops st') it' = live st' it'"
    by (rule ended_run) (use reach(2) e in simp_all)
  then show ?thesis using act e live_last_max [OF ok] by auto
qed (use it in \<open>simp add: EndAuction_def\<close>)

theorem end_auction_final_witness:
  "\<exists>st'. EndAuction 1 9 sample_bid = (Inr (Some 1), st')"
proof -
  have "live sample_bid (vase\<lparr>i_BidHistory := [1], i_CurrentBid := Some 1\<rparr>) = [1]" "i_Status vase = ItemStatusActive"
    by (simp_all add: live_def is_retracted_def sample_bid_fields vase_def)
  then show ?thesis using end_auction_final [OF sample_reach(2), of "[]" 1 _ 9]
    by (auto simp: sample_bid_fields last_bid_def)
qed

section \<open>Users and categories\<close>

text \<open>
  C33. A user's \<open>ActiveBids\<close> are exactly the user's bids that are not retracted, each once, in
  every reachable state; and every bid was placed by a user on an existing item of another
  seller, for more than the start price and no more than the user's balance.
\<close>

theorem active_bids_correct:
  assumes "auction_reach n st" "int n < 2 ^ 63"
  shows "(\<forall>u us. usersByID st u = Some us \<longrightarrow> distinct (u_ActiveBids us) \<and> set (u_ActiveBids us) = user_bids st u)
    \<and> (\<forall>b x. bidsByID st b = Some x \<longrightarrow>
         (\<exists>us it. usersByID st (b_UserID x) = Some us \<and> itemsByID st (b_ItemID x) = Some it
            \<and> b \<in> set (i_BidHistory it) \<and> i_SellerID it \<noteq> b_UserID x
            \<and> \<not> b_Amount x \<le> i_StartPrice it \<and> \<not> u_Balance us < b_Amount x))"
proof (intro conjI allI impI)
  have inv: "auction_inv n st" using auction_reach_inv [OF assms] .
  show "distinct (u_ActiveBids us)" "set (u_ActiveBids us) = user_bids st u" if "usersByID st u = Some us" for u us
    using inv that unfolding auction_inv_def users_inv_def by blast+
  fix b x assume x: "bidsByID st b = Some x"
  obtain it where it: "itemsByID st (b_ItemID x) = Some it" "b \<in> set (i_BidHistory it)"
    using inv x unfolding auction_inv_def bids_inv_def by blast
  then have ok: "bid_ok st it b x" using item_okD(3) [OF auction_inv_item [OF inv it(1)] it(2)] x by auto
  then obtain us where "usersByID st (b_UserID x) = Some us" by (auto simp: bid_ok_def)
  then show "\<exists>us it. usersByID st (b_UserID x) = Some us \<and> itemsByID st (b_ItemID x) = Some it
      \<and> b \<in> set (i_BidHistory it) \<and> i_SellerID it \<noteq> b_UserID x
      \<and> \<not> b_Amount x \<le> i_StartPrice it \<and> \<not> u_Balance us < b_Amount x"
    using ok it by (auto simp: bid_ok_def)
qed

theorem active_bids_correct_witness:
  "user_bids sample_bid 2 = {1}"
  using active_bids_correct [OF sample_reach(2)] sample_bid_fields(3) by fastforce

text \<open>The loops of \<open>BrowseCategory\<close> collect each item of the categories once.\<close>

definition browse_inv :: "auction \<Rightarrow> int set \<Rightarrow> int list \<times> item list \<Rightarrow> bool" where
  "browse_inv st ids acc \<longleftrightarrow>
     distinct (map i_ID (snd acc)) \<and> set (fst acc) = i_ID ` set (snd acc)
     \<and> set (snd acc) = {it. \<exists>i\<in>ids. itemsByID st i = Some it}"

lemma browse_ids_inv:
  assumes items: "\<And>i it. itemsByID st i = Some it \<Longrightarrow> i_ID it = i"
  shows "browse_inv st I acc \<Longrightarrow> browse_inv st (I \<union> set ids) (browse_ids st ids acc)"
proof (induction ids arbitrary: I acc)
  case (Cons itemID ids)
  obtain seen its where acc: "acc = (seen, its)" by (cases acc)
  have in_seen: "itemID \<in> set seen \<longleftrightarrow> itemID \<in> I \<and> itemsByID st itemID \<noteq> None"
  proof -
    have "itemID \<in> set seen \<longleftrightarrow> (\<exists>it. (\<exists>i\<in>I. itemsByID st i = Some it) \<and> i_ID it = itemID)"
      using Cons.prems by (auto simp: browse_inv_def acc)
    then show ?thesis using items by blast
  qed
  let ?acc = "if itemID \<in> set seen then acc else case itemsByID st itemID of None \<Rightarrow> acc | Some it \<Rightarrow> (itemID # seen, its @ [it])"
  have "browse_inv st (insert itemID I) ?acc"
  proof (cases "itemID \<in> set seen \<or> itemsByID st itemID = None")
    case True
    then have "(\<exists>i\<in>insert itemID I. itemsByID st i = Some it) \<longleftrightarrow> (\<exists>i\<in>I. itemsByID st i = Some it)" for it
      using in_seen by auto
    then show ?thesis using Cons.prems True by (auto simp: browse_inv_def)
  next
    case False
    then obtain it where "itemsByID st itemID = Some it" "i_ID it = itemID" using items by auto
    then show ?thesis using Cons.prems False by (auto simp: browse_inv_def acc)
  qed
  then have "browse_inv st (insert itemID I \<union> set ids) (browse_ids st ids ?acc)" by (rule Cons.IH)
  moreover have "browse_ids st (itemID # ids) acc = browse_ids st ids ?acc" by (simp add: acc split: option.splits)
  ultimately show ?case by simp
qed simp

lemma browse_cats_inv:
  assumes items: "\<And>i it. itemsByID st i = Some it \<Longrightarrow> i_ID it = i"
    and order: "\<And>c ids. itemIDsByCategory st c = Some ids \<Longrightarrow> set (order c) = ids"
  shows "browse_inv st I acc \<Longrightarrow>
    browse_inv st (I \<union> {i. \<exists>c\<in>set cats. \<exists>ids. itemIDsByCategory st c = Some ids \<and> i \<in> ids}) (browse_cats st order cats acc)"
proof (induction cats arbitrary: I acc)
  case (Cons c cats)
  show ?case
  proof (cases "itemIDsByCategory st c")
    case None
    then show ?thesis using Cons.IH [OF Cons.prems] by simp
  next
    case (Some ids)
    have "I \<union> set (order c) \<union> {i. \<exists>c\<in>set cats. \<exists>ids. itemIDsByCategory st c = Some ids \<and> i \<in> ids}
        = I \<union> {i. \<exists>c\<in>set (c # cats). \<exists>ids. itemIDsByCategory st c = Some ids \<and> i \<in> ids}"
      using order [OF Some] Some by auto
    then show ?thesis using Cons.IH [OF browse_ids_inv [OF items Cons.prems, of "order c"]] Some by simp
  qed
qed simp

lemma BrowseCategory_known:
  assumes inv: "auction_inv n st" and order: "\<And>c ids. itemIDsByCategory st c = Some ids \<Longrightarrow> set (order c) = ids"
    and c: "TrimSpace category \<in> dom (t_index (categoryTree st))" "TrimSpace category \<noteq> ''''"
  obtains its where "BrowseCategory order category st = Some (Inr its)" "distinct (map i_ID its)"
    "set its = {it. \<exists>i. itemsByID st i = Some it \<and> i_Category it \<in> descendants (categoryTree st) (TrimSpace category)}"
proof -
  let ?D = "descendants (categoryTree st) (TrimSpace category)"
  have tree: "tree_inv (categoryTree st)" using inv by (simp add: auction_inv_def category_inv_def)
  obtain vs where vs: "SubtreeValues (TrimSpace category) (categoryTree st) = Some (Inr vs)" "set vs = ?D"
    using SubtreeValues_correct [OF tree c(1)] .
  have items: "itemsByID st i = Some it \<Longrightarrow> i_ID it = i" for i it using item_okD(1) auction_inv_item [OF inv] by blast
  let ?r = "browse_cats st order vs ([], [])"
  have r: "browse_inv st {i. \<exists>c\<in>?D. \<exists>ids. itemIDsByCategory st c = Some ids \<and> i \<in> ids} ?r"
    using browse_cats_inv [OF items order, where I = "{}" and acc = "([], [])" and cats = vs] vs(2) by (simp add: browse_inv_def)
  have cat: "category_inv st" using inv by (simp add: auction_inv_def)
  have mem: "(\<exists>c\<in>?D. \<exists>ids. itemIDsByCategory st c = Some ids \<and> i \<in> ids) \<longleftrightarrow> i_Category it \<in> ?D"
    if it: "itemsByID st i = Some it" for i it
  proof -
    have "i_Category it = c" if "itemIDsByCategory st c = Some ids" "i \<in> ids" for c ids
      using cat that it unfolding category_inv_def by fastforce
    moreover obtain ids where "itemIDsByCategory st (i_Category it) = Some ids" "i \<in> ids"
      using cat it unfolding category_inv_def by blast
    ultimately show ?thesis by blast
  qed
  have "set (snd ?r) = {it. \<exists>i\<in>{i. \<exists>c\<in>?D. \<exists>ids. itemIDsByCategory st c = Some ids \<and> i \<in> ids}. itemsByID st i = Some it}"
    using r by (simp only: browse_inv_def)
  also have "\<dots> = {it. \<exists>i. itemsByID st i = Some it \<and> i_Category it \<in> ?D}"
    using mem unfolding Bex_def mem_Collect_eq by blast
  finally show ?thesis using that [of "snd ?r"] r vs(1) c(2) by (simp add: BrowseCategory_def Let_def browse_inv_def)
qed

text \<open>
  C34. \<open>BrowseCategory\<close> terminates and is complete: in every reachable state, for a category of
  the tree, it returns each item filed under that category or one below it exactly once, and
  no other, whatever the order in which the sets are ranged over; for any other name it
  returns \<open>ErrCategoryNotFound\<close>.
\<close>

theorem browse_category_correct:
  assumes reach: "auction_reach n st" "int n < 2 ^ 63"
    and order: "\<forall>c ids. itemIDsByCategory st c = Some ids \<longrightarrow> set (order c) = ids"
  shows "if TrimSpace category \<noteq> '''' \<and> TrimSpace category \<in> dom (t_index (categoryTree st))
    then \<exists>its. BrowseCategory order category st = Some (Inr its) \<and> distinct (map i_ID its)
      \<and> set its = {it. \<exists>i. itemsByID st i = Some it \<and> i_Category it \<in> descendants (categoryTree st) (TrimSpace category)}
    else BrowseCategory order category st = Some (Inl ErrCategoryNotFound)"
proof (cases "TrimSpace category \<noteq> '''' \<and> TrimSpace category \<in> dom (t_index (categoryTree st))")
  case True
  have inv: "auction_inv n st" using auction_reach_inv [OF reach] .
  show ?thesis
    by (rule BrowseCategory_known [OF inv, of order category]) (use True order in auto)
next
  case False
  then show ?thesis by (auto simp: BrowseCategory_def SubtreeValues_def Let_def split: option.splits)
qed

theorem browse_category_correct_witness:
  "BrowseCategory (\<lambda>_. []) ''nothing'' NewAuctionStore = Some (Inl ErrCategoryNotFound)"
proof -
  have t: "TrimSpace ''nothing'' = ''nothing''" by (simp add: TrimSpace_id ascii_ink_def)
  show ?thesis
    using browse_category_correct [OF reach_new, of "\<lambda>_. []" "''nothing''"]
    by (simp add: t NewAuctionStore_def NewTree_def root_category_def split: if_splits)
qed

end
