(* ===== verification/Traffic_DS.thy ===== *)
theory Traffic_DS
  imports Heaps Go_Float
begin

text \<open>
  The data structures of the traffic simulation (\<open>capstone/internal/ds\<close>): the ring buffer
  that keeps the congestion history of a road, and the priority queue of Dijkstra's
  algorithm, with the operations of Go's \<open>container/heap\<close> it is built on.
\<close>

section \<open>The ring buffer\<close>

record 'a ring =
  rb_buf :: "'a list"
  rb_start :: nat
  rb_size :: nat
  rb_cap :: nat

text \<open>A capacity that is not positive makes the constructor panic.  \<open>zero\<close> is Go's zero value.\<close>

definition NewRingBuffer :: "'a \<Rightarrow> int \<Rightarrow> 'a ring option" where
  "NewRingBuffer zero capacity =
     (if capacity \<le> 0 then None
      else Some \<lparr>rb_buf = replicate (nat capacity) zero, rb_start = 0, rb_size = 0, rb_cap = nat capacity\<rparr>)"

definition rb_Append :: "'a ring \<Rightarrow> 'a \<Rightarrow> 'a ring" where
  "rb_Append r v =
     (if rb_size r < rb_cap r
      then r\<lparr>rb_buf := (rb_buf r)[(rb_start r + rb_size r) mod rb_cap r := v], rb_size := rb_size r + 1\<rparr>
      else r\<lparr>rb_buf := (rb_buf r)[rb_start r := v], rb_start := (rb_start r + 1) mod rb_cap r\<rparr>)"

definition rb_Items :: "'a ring \<Rightarrow> 'a list" where
  "rb_Items r = map (\<lambda>i. rb_buf r ! ((rb_start r + i) mod rb_cap r)) [0..<rb_size r]"

definition rb_Len :: "'a ring \<Rightarrow> nat" where
  "rb_Len r = rb_size r"

definition rb_Capacity :: "'a ring \<Rightarrow> nat" where
  "rb_Capacity r = rb_cap r"

definition rb_inv :: "'a ring \<Rightarrow> bool" where
  "rb_inv r \<longleftrightarrow> 0 < rb_cap r \<and> length (rb_buf r) = rb_cap r \<and> rb_start r < rb_cap r \<and> rb_size r \<le> rb_cap r"

lemma NewRingBuffer_inv: "NewRingBuffer z k = Some r \<Longrightarrow> rb_inv r \<and> rb_Items r = [] \<and> rb_cap r = nat k"
  by (auto simp: NewRingBuffer_def rb_inv_def rb_Items_def split: if_splits)

lemma rb_Append_inv: "rb_inv r \<Longrightarrow> rb_inv (rb_Append r v)"
  by (auto simp: rb_inv_def rb_Append_def)

lemma rb_Append_cap [simp]: "rb_cap (rb_Append r v) = rb_cap r"
  by (simp add: rb_Append_def)

lemma rb_Items_length: "length (rb_Items r) = rb_size r"
  by (simp add: rb_Items_def)

lemma mod_offset_inj:
  assumes "(s + i) mod k = (s + j) mod k" "i < k" "j < k" shows "i = (j :: nat)"
proof -
  have "i = j" if "(s + i) mod k = (s + j) mod k" "j < k" "i \<le> j" for i j
    using that mod_eq_dvd_iff_nat [of "s + i" "s + j" k] by (auto dest: dvd_imp_le)
  then show ?thesis using assms by (metis nat_le_linear)
qed

lemma rb_Items_Append:
  assumes "rb_inv r"
  shows "rb_Items (rb_Append r v) = (if rb_size r < rb_cap r then rb_Items r else tl (rb_Items r)) @ [v]"
proof (cases "rb_size r < rb_cap r")
  case True
  have "(rb_start r + rb_size r) mod rb_cap r \<noteq> (rb_start r + i) mod rb_cap r" if "i < rb_size r" for i
    using mod_offset_inj [of "rb_start r" i "rb_cap r" "rb_size r"] that True by auto
  then have "map (\<lambda>i. (rb_buf r)[(rb_start r + rb_size r) mod rb_cap r := v] ! ((rb_start r + i) mod rb_cap r)) [0..<rb_size r]
      = rb_Items r"
    unfolding rb_Items_def by (intro map_cong refl) auto
  then show ?thesis using True assms by (simp add: rb_Items_def rb_Append_def rb_inv_def)
next
  case False
  let ?k = "rb_cap r" and ?s = "rb_start r"
  have k: "rb_size r = ?k" "0 < ?k" "?s < ?k" "length (rb_buf r) = ?k" using assms False by (auto simp: rb_inv_def)
  show ?thesis
  proof (rule nth_equalityI)
    show "length (rb_Items (rb_Append r v)) = length ((if rb_size r < rb_cap r then rb_Items r else tl (rb_Items r)) @ [v])"
      using k by (simp add: rb_Items_def rb_Append_def)
    fix i assume i: "i < length (rb_Items (rb_Append r v))"
    then have ik: "i < ?k" using k by (simp add: rb_Items_def rb_Append_def)
    have at: "((?s + 1) mod ?k + i) mod ?k = (?s + Suc i) mod ?k" by (simp add: mod_simps)
    have "(?s + Suc i) mod ?k = ?s \<longleftrightarrow> Suc i = ?k"
      using mod_offset_inj [of ?s "Suc i" ?k 0] ik k by (cases "Suc i = ?k") auto
    then show "rb_Items (rb_Append r v) ! i = ((if rb_size r < rb_cap r then rb_Items r else tl (rb_Items r)) @ [v]) ! i"
      using k ik at by (cases "Suc i = ?k") (auto simp: rb_Items_def rb_Append_def nth_append nth_tl nth_list_update)
  qed
qed

text \<open>The contents after a sequence of appends: the last \<open>cap\<close> values, oldest first.\<close>

definition last_n :: "nat \<Rightarrow> 'a list \<Rightarrow> 'a list" where
  "last_n k xs = drop (length xs - k) xs"

lemma last_n_snoc:
  assumes "0 < k"
  shows "last_n k (ys @ [x]) = (if length ys < k then ys else tl (last_n k ys)) @ [x]"
proof (cases "length ys < k")
  case False
  then have "drop (Suc (length ys) - k) ys = tl (drop (length ys - k) ys)"
    by (simp add: Suc_diff_le drop_Suc tl_drop)
  then show ?thesis using False assms by (simp add: last_n_def)
qed (simp add: last_n_def)

lemma rb_appends:
  "rb_inv r \<Longrightarrow> rb_inv (foldl rb_Append r xs) \<and> rb_cap (foldl rb_Append r xs) = rb_cap r
     \<and> rb_Items (foldl rb_Append r xs) = last_n (rb_cap r) (rb_Items r @ xs)"
proof (induction xs rule: rev_induct)
  case Nil
  then show ?case by (simp add: last_n_def rb_Items_length rb_inv_def)
next
  case (snoc x xs)
  let ?r = "foldl rb_Append r xs"
  have IH: "rb_inv ?r" "rb_cap ?r = rb_cap r" "rb_Items ?r = last_n (rb_cap r) (rb_Items r @ xs)"
    using snoc by auto
  have sz: "rb_size ?r = min (rb_cap r) (length (rb_Items r @ xs))"
    using rb_Items_length [of ?r] IH(3) by (simp add: last_n_def)
  have "last_n (rb_cap r) (rb_Items r @ xs) = rb_Items r @ xs" if "length (rb_Items r @ xs) < rb_cap r"
    using that by (simp add: last_n_def)
  moreover have "0 < rb_cap r" using snoc.prems by (simp add: rb_inv_def)
  ultimately have "(if rb_size ?r < rb_cap ?r then rb_Items ?r else tl (rb_Items ?r)) @ [x] = last_n (rb_cap r) ((rb_Items r @ xs) @ [x])"
    unfolding sz IH using last_n_snoc [of "rb_cap r" "rb_Items r @ xs" x] by (simp add: min_def split: if_splits)
  then show ?case using IH rb_Append_inv rb_Items_Append [OF IH(1)] by simp
qed

section \<open>The ring buffer keeps the last values\<close>

text \<open>
  The ring buffer is a bounded queue: whatever is appended to a new buffer of capacity
  \<open>k\<close>, \<open>Items\<close> returns the last \<open>k\<close> of the values, oldest first, and \<open>Len\<close> how many there
  are; a capacity that is not positive panics.
\<close>

theorem ring_buffer_last_values:
  "if capacity \<le> 0 then NewRingBuffer zero capacity = None
   else \<exists>r. NewRingBuffer zero capacity = Some r
     \<and> rb_Items (foldl rb_Append r xs) = last_n (nat capacity) xs
     \<and> rb_Len (foldl rb_Append r xs) = min (nat capacity) (length xs)
     \<and> rb_Capacity (foldl rb_Append r xs) = nat capacity"
proof (cases "capacity \<le> 0")
  case False
  then obtain r where r: "NewRingBuffer zero capacity = Some r" by (simp add: NewRingBuffer_def)
  note new = NewRingBuffer_inv [OF r]
  have "rb_Items (foldl rb_Append r xs) = last_n (nat capacity) xs" "rb_cap (foldl rb_Append r xs) = nat capacity"
    using rb_appends [of r xs] new by simp_all
  moreover from this have "rb_Len (foldl rb_Append r xs) = min (nat capacity) (length xs)"
    unfolding rb_Len_def rb_Items_length [symmetric] by (simp add: last_n_def)
  ultimately show ?thesis using False r by (simp add: rb_Capacity_def)
qed (simp add: NewRingBuffer_def)

section \<open>container/heap\<close>

text \<open>
  \<open>up\<close> and \<open>down\<close> of \<open>container/heap\<close>, and \<open>Push\<close>, \<open>Pop\<close>, \<open>Fix\<close> and \<open>Init\<close> built on them,
  on the slice of a queue whose \<open>Less\<close> compares the elements by \<open>lt\<close>.  \<open>down\<close> works on the
  first \<open>n\<close> elements and returns where the element ended up.
\<close>

function go_up :: "('a \<Rightarrow> 'a \<Rightarrow> bool) \<Rightarrow> 'a list \<Rightarrow> nat \<Rightarrow> 'a list" where
  "go_up lt q j =
     (let i = parent_ix j
      in if i = j \<or> \<not> lt (q ! j) (q ! i) then q else go_up lt (list_swap q i j) i)"
  by pat_completeness auto
termination
  by (relation "measure (\<lambda>(_, _, j). j)") (auto simp: parent_ix_def)

text \<open>The smaller of the children of \<open>i\<close> below \<open>n\<close>, when there is one.\<close>

definition go_child :: "('a \<Rightarrow> 'a \<Rightarrow> bool) \<Rightarrow> 'a list \<Rightarrow> nat \<Rightarrow> nat \<Rightarrow> nat" where
  "go_child lt q i n =
     (let j1 = 2 * i + 1; j2 = j1 + 1 in if j2 < n \<and> lt (q ! j2) (q ! j1) then j2 else j1)"

lemma go_child_cases: "go_child lt q i n = 2 * i + 1 \<or> (go_child lt q i n = 2 * i + 2 \<and> 2 * i + 2 < n)"
  by (simp add: go_child_def Let_def)

function go_down :: "('a \<Rightarrow> 'a \<Rightarrow> bool) \<Rightarrow> 'a list \<Rightarrow> nat \<Rightarrow> nat \<Rightarrow> 'a list \<times> nat" where
  "go_down lt q i n =
     (if n \<le> 2 * i + 1 then (q, i)
      else let j = go_child lt q i n
           in if \<not> lt (q ! j) (q ! i) then (q, i) else go_down lt (list_swap q i j) j n)"
  by pat_completeness auto
termination
proof (relation "measure (\<lambda>(_, _, i, n). n - i)", goal_cases)
  case (2 lt q i n j)
  then show ?case using go_child_cases [of lt q i n] by auto
qed simp

declare go_up.simps [simp del] go_down.simps [simp del]

definition go_Push :: "('a \<Rightarrow> 'a \<Rightarrow> bool) \<Rightarrow> 'a list \<Rightarrow> 'a \<Rightarrow> 'a list" where
  "go_Push lt q x = go_up lt (q @ [x]) (length q)"

definition go_Pop :: "('a \<Rightarrow> 'a \<Rightarrow> bool) \<Rightarrow> 'a list \<Rightarrow> 'a \<times> 'a list" where
  "go_Pop lt q =
     (let n = length q - 1;
          (q, _) = go_down lt (list_swap q 0 n) 0 n
      in (q ! n, take n q))"

definition go_Fix :: "('a \<Rightarrow> 'a \<Rightarrow> bool) \<Rightarrow> 'a list \<Rightarrow> nat \<Rightarrow> 'a list" where
  "go_Fix lt q i = (let (q', i') = go_down lt q i (length q) in if i < i' then q' else go_up lt q' i)"

fun go_heapify :: "('a \<Rightarrow> 'a \<Rightarrow> bool) \<Rightarrow> 'a list \<Rightarrow> nat \<Rightarrow> 'a list" where
  "go_heapify lt q 0 = q"
| "go_heapify lt q (Suc i) = go_heapify lt (fst (go_down lt q i (length q))) i"

definition go_Init :: "('a \<Rightarrow> 'a \<Rightarrow> bool) \<Rightarrow> 'a list \<Rightarrow> 'a list" where
  "go_Init lt q = go_heapify lt q (length q div 2)"

lemma list_swap_commute: "list_swap q i j = list_swap q j i"
  by (cases "i = j") (simp_all add: list_swap_def list_update_swap)

lemma go_up_mset: "j < length q \<Longrightarrow> mset (go_up lt q j) = mset q"
proof (induction lt q j rule: go_up.induct)
  case (1 lt q j)
  have "parent_ix j < length q" using 1(2) by (simp add: parent_ix_def)
  then show ?case using 1 by (subst go_up.simps) (simp add: Let_def)
qed

lemma go_child_bound: "2 * i + 1 < n \<Longrightarrow> i < go_child lt q i n \<and> go_child lt q i n < n"
  using go_child_cases [of lt q i n] by auto

lemma go_down_mset: "n \<le> length q \<Longrightarrow> i < n \<Longrightarrow> mset (fst (go_down lt q i n)) = mset q"
proof (induction lt q i n rule: go_down.induct)
  case (1 lt q i n)
  then show ?case using go_child_bound [of i n lt q] by (subst go_down.simps) (auto simp: Let_def)
qed

lemma go_down_index: "i \<le> snd (go_down lt q i n)"
proof (induction lt q i n rule: go_down.induct)
  case (1 lt q i n)
  then show ?case using go_child_bound [of i n lt q] by (subst go_down.simps) (force simp: Let_def)
qed

lemma go_down_stop: "n \<le> 2 * i + 1 \<Longrightarrow> go_down lt q i n = (q, i)"
  by (subst go_down.simps) simp

text \<open>Elements past the first \<open>n\<close> are left alone.\<close>

lemma go_down_append:
  "go_down lt q i (length q) = (q', k) \<Longrightarrow> go_down lt (q @ r) i (length q) = (q' @ r, k)"
proof (induction "length q - i" arbitrary: q i rule: less_induct)
  case less
  let ?n = "length q" and ?l = "2 * i + 1"
  show ?case
  proof (cases "?n \<le> ?l")
    case True
    then show ?thesis using less.prems by (simp add: go_down_stop)
  next
    case False
    define j where "j = go_child lt q i ?n"
    have j: "j < ?n" "i < j" "i < ?n" using False go_child_bound [of i ?n lt q] by (auto simp: j_def)
    have j': "go_child lt (q @ r) i ?n = j" using False by (auto simp: j_def go_child_def Let_def nth_append)
    have sw: "list_swap (q @ r) i j = list_swap q i j @ r"
      using j by (simp add: list_swap_def nth_append list_update_append)
    have "go_down lt (q @ r) i ?n = (if \<not> lt (q ! j) (q ! i) then (q @ r, i) else go_down lt (list_swap q i j @ r) j ?n)"
      using False j by (subst go_down.simps) (simp add: Let_def j' sw nth_append)
    moreover have "go_down lt q i ?n = (if \<not> lt (q ! j) (q ! i) then (q, i) else go_down lt (list_swap q i j) j ?n)"
      using False by (subst go_down.simps) (simp add: Let_def j_def)
    ultimately show ?thesis using less.hyps [of "list_swap q i j" j] less.prems j by (auto split: if_splits)
  qed
qed

lemma last_list_swap_0: "q \<noteq> [] \<Longrightarrow> list_swap q 0 (length q - 1) = take (length q - 1) (q[0 := last q]) @ [hd q]"
proof (cases q rule: rev_cases)
  case (snoc ys y)
  then show ?thesis by (cases ys) (simp_all add: list_swap_def nth_append list_update_append)
qed simp

lemma go_Pop_eq:
  "go_Pop lt [x] = (x, [])"
  "go_Pop lt (x # ys @ [z]) = (x, fst (go_down lt (z # ys) 0 (length (z # ys))))"
proof -
  show "go_Pop lt [x] = (x, [])" by (simp add: go_Pop_def list_swap_def go_down_stop)
  let ?q = "x # ys @ [z]"
  have sw: "list_swap ?q 0 (length ?q - 1) = (z # ys) @ [x]"
    by (simp add: list_swap_def nth_append list_update_append)
  obtain q' k where d: "go_down lt (z # ys) 0 (length (z # ys)) = (q', k)" by fastforce
  have "mset q' = mset (z # ys)" using go_down_mset [of "length (z # ys)" "z # ys" 0 lt] d by simp
  then have len: "length q' = length (z # ys)" by (rule mset_eq_length)
  have "go_down lt (list_swap ?q 0 (length ?q - 1)) 0 (length ?q - 1) = (q' @ [x], k)"
    using go_down_append [OF d, of "[x]"] unfolding sw by simp
  then show "go_Pop lt ?q = (x, fst (go_down lt (z # ys) 0 (length (z # ys))))"
    using d len by (simp add: go_Pop_def nth_append)
qed

context strict_weak_order
begin

lemma go_up_ordered: "up_defect q j \<Longrightarrow> heap_ordered (go_up lt q j)"
proof (induction j arbitrary: q rule: less_induct)
  case (less j)
  show ?case
  proof (cases "0 < j \<and> lt (q ! j) (q ! parent_ix j)")
    case True
    then have "up_defect (list_swap q j (parent_ix j)) (parent_ix j)" using up_defect_step less.prems by blast
    then have "heap_ordered (go_up lt (list_swap q (parent_ix j) j) (parent_ix j))"
      using less.IH parent_less True by (simp add: list_swap_commute)
    then show ?thesis using True parent_less [of j] by (subst go_up.simps) (simp add: Let_def)
  next
    case False
    then have "heap_ordered q" using up_defect_stop [OF less.prems] by auto
    then show ?thesis using False parent_less [of j] by (subst go_up.simps) (auto simp: Let_def parent_ix_def)
  qed
qed

lemma go_down_ordered: "down_defect q i \<Longrightarrow> i < length q \<Longrightarrow> heap_ordered (fst (go_down lt q i (length q)))"
proof (induction "length q - i" arbitrary: q i rule: less_induct)
  case less
  let ?n = "length q" and ?l = "2 * i + 1"
  have dom: "\<And>k. k < ?n \<Longrightarrow> dom_lt (q ! k)" using less.prems by (simp add: down_defect_def)
  show ?case
  proof (cases "?n \<le> ?l")
    case True
    then have "heap_ordered q" using down_defect_stop [OF less.prems(1)] by auto
    then show ?thesis using True by (simp add: go_down_stop)
  next
    case False
    define j where "j = go_child lt q i ?n"
    have j: "j < ?n" "i < j" "j = 2 * i + 1 \<or> j = 2 * i + 2"
      using False go_child_bound [of i ?n lt q] go_child_cases [of lt q i ?n] by (auto simp: j_def)
    have least: "\<not> lt (q ! d) (q ! j)" if "d < ?n" "d = 2 * i + 1 \<or> d = 2 * i + 2" for d
    proof -
      have "\<not> lt (q ! d) (q ! d)" "dom_lt (q ! d)" "dom_lt (q ! (2 * i + 1))" using dom that less_irrefl False by auto
      then show ?thesis using that less_asym [of "q ! (2 * i + 2)" "q ! (2 * i + 1)"] dom [of "2 * i + 2"]
        by (auto simp: j_def go_child_def Let_def)
    qed
    have unf: "go_down lt q i ?n = (if \<not> lt (q ! j) (q ! i) then (q, i) else go_down lt (list_swap q i j) j ?n)"
      using False by (subst go_down.simps) (simp add: Let_def j_def)
    show ?thesis
    proof (cases "lt (q ! j) (q ! i)")
      case True
      then have "down_defect (list_swap q i j) j"
        using down_defect_step [OF less.prems j(1,3)] least by blast
      then show ?thesis using less.hyps [of "list_swap q i j" j] j True unf by simp
    next
      case False
      have "\<not> lt (q ! c) (q ! i)" if "c < ?n" "c = 2 * i + 1 \<or> c = 2 * i + 2" for c
        using not_less_trans [of "q ! c" "q ! j" "q ! i"] least [OF that] False dom that(1) j less.prems(2) by blast
      then show ?thesis using False unf down_defect_stop [OF less.prems(1)] by simp
    qed
  qed
qed

lemma go_Push_inv: "heap_inv q \<Longrightarrow> dom_lt x \<Longrightarrow> heap_inv (go_Push lt q x)"
proof -
  assume inv: "heap_inv q" "dom_lt x"
  have "set (go_up lt (q @ [x]) (length q)) = set (q @ [x])"
    by (rule mset_eq_setD) (simp add: go_up_mset)
  then show ?thesis using go_up_ordered [OF up_defect_append] inv by (simp add: heap_inv_def go_Push_def)
qed

lemma go_Pop_correct:
  assumes "heap_inv q" "q \<noteq> []"
  shows "heap_inv (snd (go_Pop lt q)) \<and> mset q = add_mset (fst (go_Pop lt q)) (mset (snd (go_Pop lt q)))
    \<and> fst (go_Pop lt q) = hd q"
proof (cases q rule: list_shapes)
  case (3 x ys z)
  let ?d = "fst (go_down lt (z # ys) 0 (length (z # ys)))"
  have m: "mset ?d = mset (z # ys)" by (rule go_down_mset) simp_all
  have "heap_ordered (x # ys)" using heap_ordered_butlast [of q] assms 3 by (simp add: heap_inv_def butlast_append)
  then have "down_defect (z # ys) 0" using down_defect_root [of "x # ys" z] assms 3 by (simp add: heap_inv_def)
  then have "heap_ordered ?d" using go_down_ordered [of "z # ys" 0] by simp
  then show ?thesis using assms 3 m mset_eq_setD [OF m] by (auto simp: heap_inv_def go_Pop_eq)
qed (use assms in \<open>simp_all add: go_Pop_eq heap_inv_def\<close>)

text \<open>After the element at \<open>i\<close> has been replaced, \<open>Fix\<close> restores the order.\<close>

lemma go_Fix_inv:
  assumes inv: "heap_inv q" and i: "i < length q" and x: "dom_lt x"
  shows "heap_inv (go_Fix lt (q[i := x]) i) \<and> mset (go_Fix lt (q[i := x]) i) = mset (q[i := x])"
proof -
  let ?q = "q[i := x]"
  have dq: "\<And>k. k < length q \<Longrightarrow> dom_lt (q ! k)" and ho: "heap_ordered q" using inv by (auto simp: heap_inv_def)
  have dom: "\<forall>y\<in>set ?q. dom_lt y" using inv x set_update_subset_insert [of q i x] by (auto simp: heap_inv_def)
  have old: "\<not> lt (q ! j) (q ! parent_ix j)" if "j < length q" "0 < j" for j
    using ho that by (simp add: heap_ordered_def)
  have p: "parent_ix j < length q" if "j < length q" for j using that by (simp add: parent_ix_def)
  have grand: "\<not> lt (q ! j) (q ! parent_ix i)" if "j < length q" "0 < j" "parent_ix j = i" "0 < i" for j
    using not_less_trans [of "q ! j" "q ! i" "q ! parent_ix i"] old [of j] old [of i] that dq i p by metis
  obtain q' k where d: "go_down lt ?q i (length ?q) = (q', k)" by fastforce
  have m': "mset q' = mset ?q" using go_down_mset [of "length ?q" ?q i lt] d i by simp
  have q': "set q' = set ?q" "length q' = length q" using mset_eq_setD [OF m'] mset_eq_length [OF m'] by simp_all
  have fix_eq: "go_Fix lt ?q i = (if i < k then q' else go_up lt q' i)" using d by (simp add: go_Fix_def)
  have m: "mset (go_Fix lt ?q i) = mset ?q" using m' q' i by (simp add: fix_eq go_up_mset)
  have "heap_ordered (go_Fix lt ?q i)"
  proof (cases "0 < i \<and> lt x (q ! parent_ix i)")
    case up: True
    have "parent_ix i \<noteq> i" using up parent_less [of i] by simp
    have childs: "\<not> lt (q ! j) x" if "j < length q" "0 < j" "parent_ix j = i" for j
      using not_less_trans [of "q ! j" "q ! parent_ix i" x] less_asym [of x "q ! parent_ix i"] grand [OF that] up dq x p i that(1)
      by blast
    have le: "\<not> lt (?q ! j) (?q ! i)" if "j < length q" "j = 2 * i + 1 \<or> j = 2 * i + 2" for j
      using childs [of j] that parent_ix_iff [of j i] i by auto
    have "go_down lt ?q i (length ?q) = (?q, i)"
      using le [of "go_child lt ?q i (length ?q)"] go_child_bound [of i "length ?q" lt ?q] go_child_cases [of lt ?q i "length ?q"]
      by (subst go_down.simps) (auto simp: Let_def)
    moreover have "up_defect ?q i"
      unfolding up_defect_def
    proof (intro conjI allI impI)
      show "\<not> lt (?q ! j) (?q ! parent_ix j)" if "j < length ?q" "0 < j" "j \<noteq> i" for j
        using old [of j] childs [of j] that i by (cases "parent_ix j = i") auto
      show "\<not> lt (?q ! j) (?q ! parent_ix i)" if "j < length ?q" "0 < j" "parent_ix j = i" "0 < i" for j
        using grand [of j] that \<open>parent_ix i \<noteq> i\<close> parent_less [of j] by auto
    qed (use i dom in auto)
    ultimately have "q' = ?q" "k = i" "heap_ordered (go_up lt ?q i)" using d go_up_ordered [of ?q i] by auto
    then show ?thesis unfolding fix_eq by simp
  next
    case no_up: False
    have "down_defect ?q i"
      unfolding down_defect_def
    proof (intro conjI allI impI)
      show "\<not> lt (?q ! j) (?q ! parent_ix j)" if "j < length ?q" "0 < j" "parent_ix j \<noteq> i" for j
        using old [of j] no_up that i by (cases "j = i") auto
      show "\<not> lt (?q ! j) (?q ! parent_ix i)" if "j < length ?q" "0 < j" "parent_ix j = i" "0 < i" for j
        using grand [of j] that parent_less [of i] parent_less [of j] by auto
    qed (use dom in auto)
    then have h: "heap_ordered q'" using go_down_ordered [of ?q i] i d by simp
    moreover have "go_up lt q' i = q'"
      using h q' i by (subst go_up.simps) (auto simp: Let_def heap_ordered_def parent_ix_def)
    ultimately show ?thesis by (simp add: fix_eq)
  qed
  moreover have "\<forall>y\<in>set (go_Fix lt ?q i). dom_lt y" using dom mset_eq_setD [OF m] by simp
  ultimately show ?thesis using m by (simp add: heap_inv_def)
qed

end

section \<open>The priority queue\<close>

text \<open>
  An \<open>Item\<close> holds a value and its priority; its \<open>index\<close> field is its position in \<open>items\<close>, which
  \<open>Push\<close> and \<open>Swap\<close> keep, so a handle to a queued item is that position.
\<close>

record 'a pq_item =
  it_Value :: 'a
  it_Priority :: f64

type_synonym 'a pqueue = "'a pq_item list"

definition NewPriorityQueue :: "'a pqueue" where
  "NewPriorityQueue = []"

definition pq_Len :: "'a pqueue \<Rightarrow> nat" where
  "pq_Len pq = length pq"

definition pq_Less :: "'a pq_item \<Rightarrow> 'a pq_item \<Rightarrow> bool" where
  "pq_Less a b \<longleftrightarrow> it_Priority a < it_Priority b"

definition PushItem :: "'a pqueue \<Rightarrow> 'a \<Rightarrow> f64 \<Rightarrow> 'a pqueue" where
  "PushItem pq value priority = go_Push pq_Less pq \<lparr>it_Value = value, it_Priority = priority\<rparr>"

text \<open>\<open>None\<close> is the result with \<open>ok\<close> false.\<close>

definition PopItem :: "'a pqueue \<Rightarrow> ('a \<times> f64 \<times> 'a pqueue) option" where
  "PopItem pq =
     (if pq_Len pq = 0 then None
      else let (item, pq) = go_Pop pq_Less pq in Some (it_Value item, it_Priority item, pq))"

definition pq_Peek :: "'a pqueue \<Rightarrow> ('a \<times> f64) option" where
  "pq_Peek pq = (if pq_Len pq = 0 then None else Some (it_Value (pq ! 0), it_Priority (pq ! 0)))"

definition pq_Update :: "'a pqueue \<Rightarrow> nat \<Rightarrow> f64 \<Rightarrow> 'a pqueue" where
  "pq_Update pq index priority = go_Fix pq_Less (pq[index := (pq ! index)\<lparr>it_Priority := priority\<rparr>]) index"

definition pq_Init :: "'a pqueue \<Rightarrow> 'a pqueue" where
  "pq_Init pq = go_Init pq_Less pq"

text \<open>The operations as a client sees them, with whole items.\<close>

definition pq_push :: "'a pqueue \<Rightarrow> 'a pq_item \<Rightarrow> 'a pqueue" where
  "pq_push pq x = PushItem pq (it_Value x) (it_Priority x)"

definition pq_pop :: "'a pqueue \<Rightarrow> ('a pq_item \<times> 'a pqueue) option" where
  "pq_pop pq = map_option (\<lambda>(v, p, q). (\<lparr>it_Value = v, it_Priority = p\<rparr>, q)) (PopItem pq)"

interpretation pq_order: strict_weak_order pq_Less "\<lambda>x. it_Priority x \<noteq> NaN"
  unfolding pq_Less_def by (rule f64_lt.on_key)

lemma pq_push_eq: "pq_push pq x = go_Push pq_Less pq x"
  by (cases x) (simp add: pq_push_def PushItem_def)

lemma pq_pop_eq: "pq_pop pq = (if pq = [] then None else Some (go_Pop pq_Less pq))"
  by (simp add: pq_pop_def PopItem_def pq_Len_def split: prod.splits)

lemma go_Push_mset: "mset (go_Push lt q x) = add_mset x (mset q)"
  by (simp add: go_Push_def go_up_mset)

lemma go_Pop_mset: "q \<noteq> [] \<Longrightarrow> mset q = add_mset (fst (go_Pop lt q)) (mset (snd (go_Pop lt q)))"
proof (cases q rule: list_shapes)
  case (3 x ys z)
  have "mset (fst (go_down lt (z # ys) 0 (length (z # ys)))) = mset (z # ys)" by (rule go_down_mset) simp_all
  then show ?thesis using 3 by (simp add: go_Pop_eq)
qed (simp_all add: go_Pop_eq)

interpretation pq: prio_queue pq_Less "\<lambda>x. it_Priority x \<noteq> NaN" pq_push pq_pop pq_order.heap_inv
proof unfold_locales
  fix q q' :: "'a pqueue" and x y :: "'a pq_item"
  show "pq_order.heap_inv q \<Longrightarrow> it_Priority x \<noteq> NaN \<Longrightarrow> pq_order.heap_inv (pq_push q x)"
    by (simp add: pq_push_eq pq_order.go_Push_inv)
  show "mset (pq_push q x) = add_mset x (mset q)" by (simp add: pq_push_eq go_Push_mset)
  show "pq_pop q = None \<longleftrightarrow> q = []" by (simp add: pq_pop_eq)
  show "pq_pop q = Some (x, q') \<Longrightarrow> mset q = add_mset x (mset q')"
    using go_Pop_mset [of q pq_Less] by (auto simp: pq_pop_eq split: if_splits)
  show "pq_order.heap_inv q \<Longrightarrow> pq_pop q = Some (x, q') \<Longrightarrow> pq_order.heap_inv q'"
    using pq_order.go_Pop_correct [of q] by (auto simp: pq_pop_eq split: if_splits)
  show "\<not> pq_Less y x" if inv: "pq_order.heap_inv q" and pop: "pq_pop q = Some (x, q')" and y: "y \<in> set q'"
  proof -
    have q: "q \<noteq> []" "go_Pop pq_Less q = (x, q')" using pop by (auto simp: pq_pop_eq split: if_splits)
    have "y \<in> set q" using go_Pop_mset [OF q(1), of pq_Less] q(2) y
      by (metis fst_conv insertI2 set_mset_add_mset_insert set_mset_mset snd_conv)
    then show ?thesis using pq_order.heap_hd_least [of q y] pq_order.go_Pop_correct [OF inv q(1)] inv q(2)
      by (simp add: pq_order.heap_inv_def)
  qed
qed (auto simp: pq_order.heap_inv_def)

text \<open>
  The queue is a priority queue with decrease and increase: a script of \<open>PushItem\<close> and
  \<open>PopItem\<close> gives results a bag allows, every pop taking an item of least priority, and
  \<open>Update\<close> at any position of a queue so built replaces the priority of that item alone and
  keeps the queue fit for further scripts.
\<close>

theorem priority_queue_correct:
  assumes "\<forall>x\<in>pushed ops. it_Priority x \<noteq> NaN"
  shows "bag_run pq_Less ops {#} (heap_run pq_push pq_pop ops NewPriorityQueue)
    \<and> (\<forall>pq i p. pq_order.heap_inv pq \<longrightarrow> i < pq_Len pq \<longrightarrow> p \<noteq> NaN \<longrightarrow>
         mset (pq_Update pq i p) = mset (pq[i := (pq ! i)\<lparr>it_Priority := p\<rparr>])
         \<and> bag_run pq_Less ops (mset (pq_Update pq i p)) (heap_run pq_push pq_pop ops (pq_Update pq i p)))"
proof (intro conjI allI impI)
  show "bag_run pq_Less ops {#} (heap_run pq_push pq_pop ops NewPriorityQueue)"
    using pq.heap_run_bag [OF pq.invar_Nil assms] by (simp add: NewPriorityQueue_def)
  fix pq :: "'a pqueue" and i p
  assume inv: "pq_order.heap_inv pq" "i < pq_Len pq" "p \<noteq> NaN"
  let ?q = "pq_Update pq i p"
  have fixed: "pq_order.heap_inv ?q \<and> mset ?q = mset (pq[i := (pq ! i)\<lparr>it_Priority := p\<rparr>])"
    using pq_order.go_Fix_inv [OF inv(1), of i "(pq ! i)\<lparr>it_Priority := p\<rparr>"] inv by (simp add: pq_Update_def pq_Len_def)
  then show "mset ?q = mset (pq[i := (pq ! i)\<lparr>it_Priority := p\<rparr>])" by blast
  show "bag_run pq_Less ops (mset ?q) (heap_run pq_push pq_pop ops ?q)"
    using pq.heap_run_bag [OF _ assms] fixed by blast
qed

theorem priority_queue_correct_witness:
  "bag_run pq_Less [HPush \<lparr>it_Value = 7 :: nat, it_Priority = Fin 2\<rparr>, HPop] {#}
     (heap_run pq_push pq_pop [HPush \<lparr>it_Value = 7, it_Priority = Fin 2\<rparr>, HPop] NewPriorityQueue)"
  using priority_queue_correct [of "[HPush \<lparr>it_Value = 7 :: nat, it_Priority = Fin 2\<rparr>, HPop]"] by simp

end
