(* ===== verification/Dijkstra_Correct.thy ===== *)
theory Dijkstra_Correct
  imports Traffic_Graph
begin

text \<open>
  Correctness of \<open>ShortestPath\<close> over any \<open>GraphReader\<close> whose edges stay inside the graph and
  have a travel time that is not negative.  The argument is the one for exact weights,
  carried out for the rounded additions of \<open>float64\<close>, which are monotone and never decrease
  a sum.
\<close>

section \<open>The contract of a graph reader\<close>

definition edge_ok :: "int \<Rightarrow> edge \<Rightarrow> bool" where
  "edge_ok n e \<longleftrightarrow> 0 \<le> e_To e \<and> e_To e < n \<and> e_Road e \<noteq> None \<and> 0 \<le> edge_weight e"

locale graph_reader =
  fixes Nodes :: "'g \<Rightarrow> int" and Neighbors :: "'g \<Rightarrow> int \<Rightarrow> edge list" and reader_ok :: "'g \<Rightarrow> bool"
  assumes nodes_nonneg: "reader_ok g \<Longrightarrow> 0 \<le> Nodes g"
    and edges_ok: "reader_ok g \<Longrightarrow> 0 \<le> u \<Longrightarrow> u < Nodes g \<Longrightarrow> e \<in> set (Neighbors g u) \<Longrightarrow> edge_ok (Nodes g) e"

section \<open>The invariant of the search\<close>

definition dist_at :: "dijkstra \<Rightarrow> int \<Rightarrow> f64" where
  "dist_at s v = d_dist s ! nat v"

text \<open>A reversed list of nodes linked by \<open>prev\<close> down to the source.\<close>

fun linked :: "int list \<Rightarrow> int list \<Rightarrow> bool" where
  "linked prev [] \<longleftrightarrow> False"
| "linked prev [x] \<longleftrightarrow> prev ! nat x = - 1"
| "linked prev (x # y # r) \<longleftrightarrow> prev ! nat x = y \<and> linked prev (y # r)"

definition tree_path :: "(int \<Rightarrow> edge list) \<Rightarrow> int \<Rightarrow> int set \<Rightarrow> dijkstra \<Rightarrow> edge list \<Rightarrow> int \<Rightarrow> bool" where
  "tree_path nbrs src S s es v \<longleftrightarrow>
     walk nbrs src es v \<and> distinct (walk_nodes src es) \<and> set (butlast (walk_nodes src es)) \<subseteq> S
     \<and> walk_cost es = dist_at s v \<and> linked (d_prev s) (rev (walk_nodes src es))"

text \<open>
  \<open>S\<close> is the set of the nodes whose neighbours have been relaxed, except along the edges in
  \<open>T\<close>.
\<close>

definition search_inv :: "int \<Rightarrow> (int \<Rightarrow> edge list) \<Rightarrow> int \<Rightarrow> int set \<Rightarrow> (int \<times> edge) set \<Rightarrow> dijkstra \<Rightarrow> bool" where
  "search_inv n nbrs src S T s \<longleftrightarrow>
     (length (d_dist s) = nat n \<and> length (d_prev s) = nat n \<and> 0 \<le> src \<and> src < n \<and> S \<subseteq> {0..<n})
     \<and> (\<forall>v\<in>{0..<n}. rep64 (dist_at s v) \<and> 0 \<le> dist_at s v)
     \<and> dist_at s src = 0
     \<and> pq_order.heap_inv (d_pq s)
     \<and> (\<forall>x\<in>set (d_pq s). it_Value x \<in> {0..<n} \<and> dist_at s (it_Value x) \<le> it_Priority x
          \<and> (\<forall>v\<in>S. dist_at s v \<le> it_Priority x))
     \<and> (\<forall>v\<in>{0..<n} - S. dist_at s v \<noteq> PosInf \<longrightarrow> \<lparr>it_Value = v, it_Priority = dist_at s v\<rparr> \<in> set (d_pq s))
     \<and> (\<forall>u\<in>S. \<forall>e\<in>set (nbrs u). (u, e) \<notin> T \<longrightarrow> dist_at s (e_To e) \<le> dist_at s u + edge_weight e)
     \<and> (\<forall>v\<in>{0..<n}. dist_at s v \<noteq> PosInf \<longrightarrow> (\<exists>es. tree_path nbrs src S s es v))"

lemma search_invD:
  assumes "search_inv n nbrs src S T s"
  shows "length (d_dist s) = nat n" "length (d_prev s) = nat n" "0 \<le> src" "src < n" "S \<subseteq> {0..<n}"
    "v \<in> {0..<n} \<Longrightarrow> rep64 (dist_at s v)" "v \<in> {0..<n} \<Longrightarrow> 0 \<le> dist_at s v" "dist_at s src = 0"
    "pq_order.heap_inv (d_pq s)"
    "x \<in> set (d_pq s) \<Longrightarrow> it_Value x \<in> {0..<n}" "x \<in> set (d_pq s) \<Longrightarrow> dist_at s (it_Value x) \<le> it_Priority x"
    "x \<in> set (d_pq s) \<Longrightarrow> v \<in> S \<Longrightarrow> dist_at s v \<le> it_Priority x"
    "v \<in> {0..<n} \<Longrightarrow> v \<notin> S \<Longrightarrow> dist_at s v \<noteq> PosInf \<Longrightarrow> \<lparr>it_Value = v, it_Priority = dist_at s v\<rparr> \<in> set (d_pq s)"
    "u \<in> S \<Longrightarrow> e \<in> set (nbrs u) \<Longrightarrow> (u, e) \<notin> T \<Longrightarrow> dist_at s (e_To e) \<le> dist_at s u + edge_weight e"
    "v \<in> {0..<n} \<Longrightarrow> dist_at s v \<noteq> PosInf \<Longrightarrow> \<exists>es. tree_path nbrs src S s es v"
  using assms unfolding search_inv_def by blast+

lemma search_invI:
  assumes "length (d_dist s) = nat n \<and> length (d_prev s) = nat n \<and> 0 \<le> src \<and> src < n \<and> S \<subseteq> {0..<n}"
    "\<And>v. v \<in> {0..<n} \<Longrightarrow> rep64 (dist_at s v) \<and> 0 \<le> dist_at s v"
    "dist_at s src = 0" "pq_order.heap_inv (d_pq s)"
    "\<And>x. x \<in> set (d_pq s) \<Longrightarrow> it_Value x \<in> {0..<n} \<and> dist_at s (it_Value x) \<le> it_Priority x"
    "\<And>x v. x \<in> set (d_pq s) \<Longrightarrow> v \<in> S \<Longrightarrow> dist_at s v \<le> it_Priority x"
    "\<And>v. v \<in> {0..<n} \<Longrightarrow> v \<notin> S \<Longrightarrow> dist_at s v \<noteq> PosInf \<Longrightarrow> \<lparr>it_Value = v, it_Priority = dist_at s v\<rparr> \<in> set (d_pq s)"
    "\<And>u e. u \<in> S \<Longrightarrow> e \<in> set (nbrs u) \<Longrightarrow> (u, e) \<notin> T \<Longrightarrow> dist_at s (e_To e) \<le> dist_at s u + edge_weight e"
    "\<And>v. v \<in> {0..<n} \<Longrightarrow> dist_at s v \<noteq> PosInf \<Longrightarrow> \<exists>es. tree_path nbrs src S s es v"
  shows "search_inv n nbrs src S T s"
  unfolding search_inv_def using assms by blast

lemma tree_path_mono: "tree_path nbrs src S s es v \<Longrightarrow> S \<subseteq> S' \<Longrightarrow> tree_path nbrs src S' s es v"
  by (auto simp: tree_path_def)

lemma linked_cong: "\<forall>x\<in>set p. prev ! nat x = prev' ! nat x \<Longrightarrow> linked prev p \<Longrightarrow> linked prev' p"
  by (induction prev p rule: linked.induct) auto

text \<open>The walk back along \<open>prev\<close> recovers a linked list of nodes.\<close>

lemma sp_path_linked:
  "linked prev p \<Longrightarrow> \<forall>x\<in>set p. 0 \<le> x \<and> x < int (length prev) \<Longrightarrow> sp_path prev (hd p) acc = Some (Inr (rev p @ acc))"
proof (induction prev p arbitrary: acc rule: linked.induct)
  case (2 prev x)
  then show ?case by (subst sp_path.simps, subst sp_path.simps) (simp add: at_ix_def)
next
  case (3 prev x y r)
  then show ?case by (subst sp_path.simps) (simp add: at_ix_def)
qed simp

section \<open>One relaxation\<close>

definition relaxed :: "dijkstra \<Rightarrow> int \<Rightarrow> int \<Rightarrow> f64 \<Rightarrow> dijkstra" where
  "relaxed s u v alt =
     s\<lparr>d_dist := (d_dist s)[nat v := alt], d_prev := (d_prev s)[nat v := u], d_pq := PushItem (d_pq s) v alt\<rparr>"

lemma relax_step:
  assumes inv: "search_inv n nbrs src S T s" and u: "u \<in> S" and e: "edge_ok n e" "e_Road e = Some r"
  shows "relax u (e # es) s =
    (let alt = dist_at s u + edge_weight e
     in relax u es (if alt < dist_at s (e_To e) then relaxed s u (e_To e) alt else s))"
proof -
  have "u \<in> {0..<n}" using search_invD(5) [OF inv] u by blast
  then show ?thesis using e search_invD(1) [OF inv]
    by (simp add: edge_ok_def at_ix_def dist_at_def relaxed_def edge_weight_def Let_def)
qed

lemma relaxed_inv:
  assumes inv: "search_inv n nbrs src S ({u} \<times> set (e # es)) s"
    and u: "u \<in> S" "\<forall>x\<in>S. dist_at s x \<le> dist_at s u" and e: "edge_ok n e" "e \<in> set (nbrs u)"
    and alt: "alt = dist_at s u + edge_weight e" "alt < dist_at s (e_To e)"
  shows "search_inv n nbrs src S ({u} \<times> set es) (relaxed s u (e_To e) alt)"
    "y \<in> S \<Longrightarrow> dist_at (relaxed s u (e_To e) alt) y = dist_at s y"
proof -
  let ?v = "e_To e" and ?s = "relaxed s u (e_To e) alt"
  note D = search_invD [OF inv]
  have v: "?v \<in> {0..<n}" "0 \<le> edge_weight e" using e(1) by (auto simp: edge_ok_def)
  have un: "u \<in> {0..<n}" using D(5) u(1) by blast
  have du: "dist_at ?s x = (if x = ?v then alt else dist_at s x)" if "x \<in> {0..<n}" for x
    using that v D(1) by (auto simp: relaxed_def dist_at_def nth_list_update)
  have ge: "dist_at s u \<le> alt" using f64_le_plus D(6,7) [OF un] v(2) alt(1) by simp
  then have nn: "0 \<le> alt" "alt \<noteq> NaN" "alt \<noteq> PosInf"
    using D(7) [OF un] f64_trans alt(2) by (blast, auto)
  have lt: "dist_at ?s x \<le> dist_at s x" if "x \<in> {0..<n}" for x
    using du [OF that] alt(2) D(7) [OF that] by (auto simp: less_f64_def zero_f64_def f64_le_not_NaN)
  have vS: "?v \<notin> S"
  proof
    assume "?v \<in> S"
    then have "dist_at s ?v \<le> alt" using u(2) ge f64_trans by blast
    then show False using alt(2) by (simp add: less_f64_def)
  qed
  then have eqS: "dist_at ?s x = dist_at s x" if "x \<in> S" for x using that du D(5) by (auto simp: subset_iff)
  then show "dist_at ?s y = dist_at s y" if "y \<in> S" using that .
  have pqs: "set (d_pq ?s) = insert \<lparr>it_Value = ?v, it_Priority = alt\<rparr> (set (d_pq s))"
    by (simp add: relaxed_def PushItem_props)
  have src: "dist_at ?s src = 0"
  proof -
    have "src \<noteq> ?v" using alt(2) nn(1) D(8) by (auto simp: less_f64_def)
    then show ?thesis using du D(3,4,8) by simp
  qed
  have prev: "d_prev ?s ! nat x = d_prev s ! nat x" if "x \<in> {0..<n}" "x \<noteq> ?v" for x
    using that v D(2) by (auto simp: relaxed_def nth_list_update)
  have tree: "tree_path nbrs src S ?s es' x" if t: "tree_path nbrs src S s es' x" and x: "x \<in> {0..<n}" "x \<noteq> ?v" for es' x
  proof -
    have w: "walk nbrs src es' x" "set (butlast (walk_nodes src es')) \<subseteq> S" using t by (auto simp: tree_path_def)
    have "set (walk_nodes src es') \<subseteq> insert x S" using walk_nodes_butlast [OF w(1)] w(2) by (metis Un_insert_right insert_mono list.simps(15) set_append sup_bot.right_neutral empty_set)
    then have "y \<in> {0..<n} \<and> y \<noteq> ?v" if "y \<in> set (walk_nodes src es')" for y
      using that x vS D(5) by (metis insertE subsetD)
    then have "d_prev s ! nat y = d_prev ?s ! nat y" if "y \<in> set (walk_nodes src es')" for y
      using that prev [of y] by simp
    then have "\<forall>y\<in>set (rev (walk_nodes src es')). d_prev s ! nat y = d_prev ?s ! nat y" by simp
    then show ?thesis using t linked_cong du x by (auto simp: tree_path_def)
  qed
  have tree_v: "\<exists>es'. tree_path nbrs src S ?s es' ?v"
  proof -
    have "dist_at s u \<noteq> PosInf" using ge nn by (cases "dist_at s u"; cases alt) auto
    then obtain p where p: "tree_path nbrs src S s p u" using D(15) un by blast
    then have w: "walk nbrs src p u" by (simp add: tree_path_def)
    have sub: "set (walk_nodes src p) \<subseteq> S" using walk_nodes_butlast [OF w] p u(1)
      by (metis (no_types, lifting) Un_insert_right empty_set insert_subset list.simps(15) set_append sup_bot.right_neutral tree_path_def)
    have p': "tree_path nbrs src S ?s p u" using tree [OF p un] u(1) vS by blast
    obtain rest where rest: "rev (walk_nodes src p) = u # rest"
      using walk_nodes_butlast [OF w] by (metis rev_eq_Cons_iff rev_rev_ident)
    moreover have "d_prev ?s ! nat ?v = u" using v D(2) by (simp add: relaxed_def)
    moreover have "linked (d_prev ?s) (rev (walk_nodes src p))" using p' by (simp add: tree_path_def)
    ultimately have "linked (d_prev ?s) (rev (walk_nodes src (p @ [e])))" by simp
    then have "tree_path nbrs src S ?s (p @ [e]) ?v"
      using p p' w sub vS e(2) du [OF v(1)] alt(1) by (auto simp: tree_path_def walk_snoc)
    then show ?thesis ..
  qed
  show "search_inv n nbrs src S ({u} \<times> set es) ?s"
  proof (rule search_invI)
    show "length (d_dist ?s) = nat n \<and> length (d_prev ?s) = nat n \<and> 0 \<le> src \<and> src < n \<and> S \<subseteq> {0..<n}"
      using D(1-5) by (simp add: relaxed_def)
    show "rep64 (dist_at ?s x) \<and> 0 \<le> dist_at ?s x" if "x \<in> {0..<n}" for x
      using du [OF that] D(6,7) [OF that] nn alt(1) by simp
    show "dist_at ?s src = 0" by (rule src)
    show "pq_order.heap_inv (d_pq ?s)" using PushItem_props(1) D(9) nn by (simp add: relaxed_def)
    show "it_Value x \<in> {0..<n} \<and> dist_at ?s (it_Value x) \<le> it_Priority x" if "x \<in> set (d_pq ?s)" for x
      using that D(10,11) [of x] lt [of "it_Value x"] f64_trans v(1) du nn unfolding pqs by auto
    show "dist_at ?s x \<le> it_Priority y" if "y \<in> set (d_pq ?s)" "x \<in> S" for x y
      using that D(12) [of y x] eqS [of x] f64_trans [OF bspec [OF u(2)] ge, of x] unfolding pqs by auto
    show "\<lparr>it_Value = x, it_Priority = dist_at ?s x\<rparr> \<in> set (d_pq ?s)"
      if "x \<in> {0..<n}" "x \<notin> S" "dist_at ?s x \<noteq> PosInf" for x
      using that D(13) du unfolding pqs by (cases "x = ?v") auto
    show "dist_at ?s (e_To e') \<le> dist_at ?s x + edge_weight e'"
      if x: "x \<in> S" "e' \<in> set (nbrs x)" "(x, e') \<notin> {u} \<times> set es" for x e'
    proof (cases "x = u \<and> e' = e")
      case True
      then show ?thesis using du [OF v(1)] eqS [OF u(1)] alt(1) nn by simp
    next
      case False
      then have *: "dist_at s (e_To e') \<le> dist_at s x + edge_weight e'" using D(14) x by auto
      have "dist_at ?s (e_To e') \<le> dist_at s (e_To e')" using * v D(1) alt(2)
        by (auto simp: relaxed_def dist_at_def nth_list_update less_f64_def)
      then show ?thesis using * eqS [OF x(1)] f64_trans by simp
    qed
    show "\<exists>es'. tree_path nbrs src S ?s es' x" if x: "x \<in> {0..<n}" "dist_at ?s x \<noteq> PosInf" for x
    proof (cases "x = ?v")
      case False
      then obtain es' where "tree_path nbrs src S s es' x" using D(15) [OF x(1)] x(2) du [OF x(1)] by auto
      then show ?thesis using tree x(1) False by blast
    qed (use tree_v in simp)
  qed
qed

lemma relaxed_nochange:
  assumes inv: "search_inv n nbrs src S ({u} \<times> set (e # es)) s" and u: "u \<in> S"
    and e: "edge_ok n e" and le: "\<not> dist_at s u + edge_weight e < dist_at s (e_To e)"
  shows "search_inv n nbrs src S ({u} \<times> set es) s"
proof (rule search_invI)
  note D = search_invD [OF inv]
  have un: "u \<in> {0..<n}" and v: "e_To e \<in> {0..<n}" using D(5) u e by (auto simp: edge_ok_def)
  have "0 \<le> dist_at s u + edge_weight e" using f64_plus_nonneg D(7) [OF un] e by (simp add: edge_ok_def)
  then have *: "dist_at s (e_To e) \<le> dist_at s u + edge_weight e"
    using le f64_not_less f64_le_not_NaN D(7) [OF v] by blast
  show "dist_at s (e_To e') \<le> dist_at s x + edge_weight e'"
    if "x \<in> S" "e' \<in> set (nbrs x)" "(x, e') \<notin> {u} \<times> set es" for x e'
    using that D(14) [of x e'] * by (cases "x = u \<and> e' = e") auto
qed (use search_invD [OF inv] in auto)

lemma relax_inv:
  assumes "search_inv n nbrs src S ({u} \<times> set es) s" "u \<in> S" "\<forall>x\<in>S. dist_at s x \<le> dist_at s u"
    "\<forall>e\<in>set es. edge_ok n e \<and> e \<in> set (nbrs u)"
  shows "\<exists>s'. relax u es s = Inr s' \<and> search_inv n nbrs src S {} s'"
  using assms
proof (induction es arbitrary: s)
  case (Cons e es)
  obtain r where e: "edge_ok n e" "e \<in> set (nbrs u)" "e_Road e = Some r" using Cons.prems(4) by (auto simp: edge_ok_def)
  define alt where "alt = dist_at s u + edge_weight e"
  have step: "relax u (e # es) s = relax u es (if alt < dist_at s (e_To e) then relaxed s u (e_To e) alt else s)"
    using relax_step [OF Cons.prems(1,2) e(1,3)] by (simp add: alt_def Let_def)
  show ?case
  proof (cases "alt < dist_at s (e_To e)")
    case True
    note R = relaxed_inv [OF Cons.prems(1,2,3) e(1,2) alt_def True]
    have "\<forall>x\<in>S. dist_at (relaxed s u (e_To e) alt) x \<le> dist_at (relaxed s u (e_To e) alt) u"
      using R(2) R(2) [OF Cons.prems(2)] Cons.prems(3) by simp
    then show ?thesis using Cons.IH [OF R(1) Cons.prems(2)] Cons.prems(4) True step by simp
  next
    case False
    have "search_inv n nbrs src S ({u} \<times> set es) s"
      using relaxed_nochange [OF Cons.prems(1,2) e(1)] False by (simp add: alt_def)
    then show ?thesis using Cons.IH Cons.prems step False by simp
  qed
qed simp

text \<open>Relaxing the edges of a node that was relaxed before changes nothing.\<close>

lemma relax_again:
  assumes inv: "search_inv n nbrs src S {} s" and u: "u \<in> S"
  shows "\<forall>e\<in>set es. edge_ok n e \<and> e \<in> set (nbrs u) \<Longrightarrow> relax u es s = Inr s"
proof (induction es)
  case (Cons e es)
  then obtain r where e: "edge_ok n e" "e \<in> set (nbrs u)" "e_Road e = Some r" by (auto simp: edge_ok_def)
  have "dist_at s (e_To e) \<le> dist_at s u + edge_weight e" using search_invD(14) [OF inv u e(2)] by simp
  then have "\<not> dist_at s u + edge_weight e < dist_at s (e_To e)" by (simp add: less_f64_def)
  then show ?case using relax_step [OF inv u e(1,3)] Cons by (simp add: Let_def)
qed simp

section \<open>The main loop\<close>

text \<open>
  What holds when the loop ends: a set of relaxed nodes outside of which no node is nearer
  than the destination.
\<close>

definition search_done :: "int \<Rightarrow> (int \<Rightarrow> edge list) \<Rightarrow> int \<Rightarrow> int \<Rightarrow> dijkstra \<Rightarrow> bool" where
  "search_done n nbrs src dst s \<longleftrightarrow>
     (\<exists>S. length (d_dist s) = nat n \<and> length (d_prev s) = nat n \<and> S \<subseteq> {0..<n} \<and> dist_at s src = 0
        \<and> (\<forall>v\<in>{0..<n}. 0 \<le> dist_at s v)
        \<and> (\<forall>u\<in>S. \<forall>e\<in>set (nbrs u). dist_at s (e_To e) \<le> dist_at s u + edge_weight e)
        \<and> (\<forall>v\<in>{0..<n} - S. dist_at s dst \<le> dist_at s v)
        \<and> (dist_at s dst \<noteq> PosInf \<longrightarrow> (\<exists>es. tree_path nbrs src S s es dst)))"

lemma set_pq_simps [simp]:
  "dist_at (s\<lparr>d_pq := q\<rparr>) v = dist_at s v" "tree_path nbrs src S (s\<lparr>d_pq := q\<rparr>) es v = tree_path nbrs src S s es v"
  by (simp_all add: dist_at_def tree_path_def)

lemma pop_inv:
  assumes inv: "search_inv n nbrs src S {} s" and pop: "PopItem (d_pq s) = Some (u, d, q)"
  shows "u \<in> {0..<n}" "dist_at s u \<le> d"
    "dist_at s u < d \<or> u \<in> S \<Longrightarrow> search_inv n nbrs src S {} (s\<lparr>d_pq := q\<rparr>)"
    "\<not> dist_at s u < d \<Longrightarrow> u \<notin> S \<Longrightarrow> search_inv n nbrs src (insert u S) ({u} \<times> set (nbrs u)) (s\<lparr>d_pq := q\<rparr>)"
    "\<not> dist_at s u < d \<Longrightarrow> x \<in> S \<Longrightarrow> dist_at s x \<le> dist_at s u"
    "\<not> dist_at s u < d \<Longrightarrow> v \<in> {0..<n} \<Longrightarrow> v \<notin> S \<Longrightarrow> dist_at s u \<le> dist_at s v"
proof -
  note D = search_invD [OF inv] and P = PopItem_Some [OF pop D(9)]
  have here: "\<lparr>it_Value = u, it_Priority = d\<rparr> \<in> set (d_pq s)" using P(4) by simp
  show u: "u \<in> {0..<n}" and ud: "dist_at s u \<le> d" using D(10,11) [OF here] by simp_all
  have eq: "dist_at s u = d" if "\<not> dist_at s u < d" using that ud by (simp add: le_f64_iff)
  have q: "x \<in> set q \<Longrightarrow> x \<in> set (d_pq s)" for x using P(4) by simp
  show "dist_at s x \<le> dist_at s u" if "\<not> dist_at s u < d" "x \<in> S" for x
    using D(12) [OF here that(2)] eq [OF that(1)] by simp
  show far: "dist_at s u \<le> dist_at s v" if "\<not> dist_at s u < d" "v \<in> {0..<n}" "v \<notin> S" for v
  proof (cases "dist_at s v = PosInf")
    case True
    then show ?thesis using D(7) [OF u] f64_le_not_NaN by simp
  next
    case False
    show ?thesis using P(5) [OF D(13) [OF that(2,3) False]] eq [OF that(1)] by simp
  qed
  show "search_inv n nbrs src S {} (s\<lparr>d_pq := q\<rparr>)" if "dist_at s u < d \<or> u \<in> S"
  proof (rule search_invI)
    show "\<lparr>it_Value = v, it_Priority = dist_at (s\<lparr>d_pq := q\<rparr>) v\<rparr> \<in> set (d_pq (s\<lparr>d_pq := q\<rparr>))"
      if v: "v \<in> {0..<n}" "v \<notin> S" "dist_at (s\<lparr>d_pq := q\<rparr>) v \<noteq> PosInf" for v
    proof -
      have "\<lparr>it_Value = v, it_Priority = dist_at s v\<rparr> \<noteq> \<lparr>it_Value = u, it_Priority = d\<rparr>"
        using \<open>dist_at s u < d \<or> u \<in> S\<close> v(2) by (auto simp: less_f64_def)
      moreover have "\<lparr>it_Value = v, it_Priority = dist_at s v\<rparr> \<in> insert \<lparr>it_Value = u, it_Priority = d\<rparr> (set q)"
        using D(13) [OF v(1,2)] v(3) unfolding P(4) [symmetric] by simp
      ultimately have "\<lparr>it_Value = v, it_Priority = dist_at s v\<rparr> \<in> set q" by blast
      then show ?thesis by simp
    qed
  qed (use D P(1) q in auto)
  show "search_inv n nbrs src (insert u S) ({u} \<times> set (nbrs u)) (s\<lparr>d_pq := q\<rparr>)" if du: "\<not> dist_at s u < d" and uS: "u \<notin> S"
  proof (rule search_invI)
    show "\<lparr>it_Value = v, it_Priority = dist_at (s\<lparr>d_pq := q\<rparr>) v\<rparr> \<in> set (d_pq (s\<lparr>d_pq := q\<rparr>))"
      if "v \<in> {0..<n}" "v \<notin> insert u S" "dist_at (s\<lparr>d_pq := q\<rparr>) v \<noteq> PosInf" for v
      using D(13) [of v] that P(4) by auto
    show "dist_at (s\<lparr>d_pq := q\<rparr>) v \<le> it_Priority x" if "x \<in> set (d_pq (s\<lparr>d_pq := q\<rparr>))" "v \<in> insert u S" for x v
      using that D(12) [of x v] P(5) [of x] q [of x] eq [OF du] by auto
    show "\<exists>es. tree_path nbrs src (insert u S) (s\<lparr>d_pq := q\<rparr>) es v"
      if v: "v \<in> {0..<n}" "dist_at (s\<lparr>d_pq := q\<rparr>) v \<noteq> PosInf" for v
    proof -
      obtain es where "tree_path nbrs src S s es v" using D(15) [OF v(1)] v(2) by auto
      then have "tree_path nbrs src (insert u S) s es v" by (rule tree_path_mono) blast
      then show ?thesis by auto
    qed
    show "dist_at (s\<lparr>d_pq := q\<rparr>) (e_To e) \<le> dist_at (s\<lparr>d_pq := q\<rparr>) x + edge_weight e"
      if "x \<in> insert u S" "e \<in> set (nbrs x)" "(x, e) \<notin> {u} \<times> set (nbrs u)" for x e
      using that D(14) [of x e] by auto
  qed (use D P(1) q u in auto)
qed

lemma at_ix_dist: "search_inv n nbrs src S T s \<Longrightarrow> u \<in> {0..<n} \<Longrightarrow> at_ix (d_dist s) u = Inr (dist_at s u)"
  using search_invD(1) [of n nbrs src S T s] by (simp add: at_ix_def dist_at_def)

context graph_reader
begin

text \<open>The search ends whatever \<open>dst\<close> is; for a node of the graph it is done.\<close>

lemma sp_loop_halts:
  assumes ok: "reader_ok g"
  shows "search_inv (Nodes g) (Neighbors g) src S {} s
    \<Longrightarrow> \<exists>s'. sp_loop (Neighbors g) dst s = Some (Inr s') \<and> length (d_dist s') = nat (Nodes g)
       \<and> (dst \<in> {0..<Nodes g} \<longrightarrow> search_done (Nodes g) (Neighbors g) src dst s')"
proof (induction "nat (Nodes g) - card S" arbitrary: S s rule: less_induct)
  case outer: less
  show ?case using outer.prems
  proof (induction "length (d_pq s)" arbitrary: s rule: less_induct)
    case inner: less
    note D = search_invD [OF inner.prems]
    show ?case
    proof (cases "PopItem (d_pq s)")
      case None
      have "dist_at s v = PosInf" if "v \<in> {0..<Nodes g}" "v \<notin> S" for v
        using D(13) [OF that] None by (auto simp: PopItem_None)
      moreover have "dist_at s dst \<noteq> NaN" if "dst \<in> {0..<Nodes g}" using D(7) [OF that] f64_le_not_NaN by auto
      ultimately have "search_done (Nodes g) (Neighbors g) src dst s" if "dst \<in> {0..<Nodes g}"
        unfolding search_done_def using D(1,2,5,7,8,14,15) that by (intro exI [of _ S]) auto
      then show ?thesis using None D(1) by (subst sp_loop.simps) simp
    next
      case (Some p)
      obtain u d q where pop: "PopItem (d_pq s) = Some (u, d, q)" using Some by (cases p) auto
      let ?s = "s\<lparr>d_pq := q\<rparr>"
      note P = pop_inv [OF inner.prems pop]
      have len: "length q < length (d_pq s)" using PopItem_Some(3) [OF pop D(9)] by simp
      have at_u: "at_ix (d_dist s) u = Inr (dist_at s u)" using at_ix_dist [OF inner.prems P(1)] .
      have es: "\<forall>e\<in>set (Neighbors g u). edge_ok (Nodes g) e \<and> e \<in> set (Neighbors g u)"
        using edges_ok [OF ok] P(1) by auto
      have unf: "sp_loop (Neighbors g) dst s =
          (if dist_at s u < d then sp_loop (Neighbors g) dst ?s
           else if u = dst then Some (Inr ?s)
           else case relax u (Neighbors g u) ?s of Inl e \<Rightarrow> Some (Inl e) | Inr s \<Rightarrow> sp_loop (Neighbors g) dst s)"
        by (subst sp_loop.simps) (simp add: pop at_u Let_def)
      consider (stale) "dist_at s u < d" | (stop) "\<not> dist_at s u < d" "u = dst"
        | (again) "\<not> dist_at s u < d" "u \<noteq> dst" "u \<in> S" | (settle) "\<not> dist_at s u < d" "u \<noteq> dst" "u \<notin> S" by blast
      then show ?thesis
      proof cases
        case stale
        then show ?thesis using inner.hyps [of ?s] P(3) len unf by simp
      next
        case stop
        then have "\<forall>v\<in>{0..<Nodes g} - S. dist_at s dst \<le> dist_at s v" using P(6) by blast
        then have "search_done (Nodes g) (Neighbors g) src dst ?s"
          unfolding search_done_def using D(1,2,5,7,8,14,15) stop(2) P(1) by (intro exI [of _ S]) auto
        then show ?thesis using stop unf D(1) by simp
      next
        case again
        then have inv: "search_inv (Nodes g) (Neighbors g) src S {} ?s" using P(3) by blast
        then show ?thesis using inner.hyps [of ?s] relax_again [OF inv again(3) es] again len unf by simp
      next
        case settle
        have "\<forall>x\<in>insert u S. dist_at ?s x \<le> dist_at ?s u"
          using P(5) [OF settle(1)] D(7) [OF P(1)] f64_le_not_NaN by auto
        then obtain s' where s': "relax u (Neighbors g u) ?s = Inr s'"
          "search_inv (Nodes g) (Neighbors g) src (insert u S) {} s'"
          using relax_inv [OF P(4) [OF settle(1,3)] _ _ es] by blast
        have "finite S" using D(5) finite_subset by blast
        moreover have "card (insert u S) \<le> nat (Nodes g)"
          using card_mono [of "{0..<Nodes g}" "insert u S"] D(5) P(1) by simp
        ultimately have "nat (Nodes g) - card (insert u S) < nat (Nodes g) - card S" using settle(3) by simp
        then show ?thesis using outer.hyps s' settle unf by simp
      qed
    qed
  qed
qed

lemma sp_loop_done:
  assumes "reader_ok g" "0 \<le> dst" "dst < Nodes g" "search_inv (Nodes g) (Neighbors g) src S {} s"
  shows "\<exists>s'. sp_loop (Neighbors g) dst s = Some (Inr s') \<and> search_done (Nodes g) (Neighbors g) src dst s'"
  using sp_loop_halts [OF assms(1,4), of dst] assms(2,3) by auto

text \<open>A walk from a node of the graph stays in the graph and its cost is a proper sum.\<close>

lemma walk_ok:
  assumes ok: "reader_ok g" and src: "0 \<le> src" "src < Nodes g"
  shows "walk (Neighbors g) src es v \<Longrightarrow> v \<in> {0..<Nodes g} \<and> rep64 (walk_cost es) \<and> 0 \<le> walk_cost es"
proof (induction es arbitrary: v rule: rev_induct)
  case Nil
  then show ?case using src by (simp add: zero_f64_def)
next
  case (snoc e es)
  then obtain x where x: "walk (Neighbors g) src es x" "e \<in> set (Neighbors g x)" "v = e_To e" by (auto simp: walk_snoc)
  note IH = snoc.IH [OF x(1)]
  then have "edge_ok (Nodes g) e" using edges_ok [OF ok _ _ x(2)] by simp
  then show ?case using IH x(3) by (simp add: edge_ok_def f64_plus_nonneg)
qed

lemma search_done_least:
  assumes ok: "reader_ok g" and dn: "search_done (Nodes g) (Neighbors g) src dst s"
    and src: "0 \<le> src" "src < Nodes g"
  shows "walk (Neighbors g) src es v \<Longrightarrow> dist_at s v \<le> walk_cost es \<or> dist_at s dst \<le> walk_cost es"
proof (induction es arbitrary: v rule: rev_induct)
  case Nil
  then show ?case using dn by (auto simp: search_done_def zero_f64_def)
next
  case (snoc e es)
  obtain S where S: "\<forall>v\<in>{0..<Nodes g}. 0 \<le> dist_at s v" "\<forall>v\<in>{0..<Nodes g} - S. dist_at s dst \<le> dist_at s v"
    "\<forall>u\<in>S. \<forall>e\<in>set (Neighbors g u). dist_at s (e_To e) \<le> dist_at s u + edge_weight e"
    using dn by (auto simp: search_done_def)
  obtain x where x: "walk (Neighbors g) src es x" "e \<in> set (Neighbors g x)" "v = e_To e"
    using snoc.prems by (auto simp: walk_snoc)
  note W = walk_ok [OF ok src x(1)]
  then have e: "0 \<le> edge_weight e" using edges_ok [OF ok _ _ x(2)] by (simp add: edge_ok_def)
  then have grow: "walk_cost es \<le> walk_cost (es @ [e])" using W f64_le_plus by simp
  consider "dist_at s dst \<le> walk_cost es" | "dist_at s x \<le> walk_cost es" "x \<in> S" | "dist_at s x \<le> walk_cost es" "x \<notin> S"
    using snoc.IH [OF x(1)] by blast
  then show ?case
  proof cases
    case 1
    then show ?thesis using grow f64_trans by blast
  next
    case 2
    have "dist_at s v \<le> dist_at s x + edge_weight e" using S(3) 2(2) x(2,3) by blast
    moreover have "dist_at s x + edge_weight e \<le> walk_cost (es @ [e])"
      using f64_plus_mono S(1) W 2(1) e by simp
    ultimately show ?thesis using f64_trans by blast
  next
    case 3
    then have "dist_at s dst \<le> dist_at s x" using S(2) W by blast
    then show ?thesis using 3(1) grow f64_trans by blast
  qed
qed

lemma search_start:
  assumes src: "0 \<le> src" "src < n"
  shows "search_inv n nbrs src {} {} \<lparr>d_dist = (replicate (nat n) PosInf)[nat src := 0],
    d_prev = replicate (nat n) (- 1), d_pq = PushItem NewPriorityQueue src 0\<rparr>" (is "search_inv _ _ _ _ _ ?s")
proof (rule search_invI)
  have d: "dist_at ?s v = (if v = src then 0 else PosInf)" if "v \<in> {0..<n}" for v
    using that src by (auto simp: dist_at_def nth_list_update)
  have pq: "set (d_pq ?s) = {\<lparr>it_Value = src, it_Priority = 0\<rparr>}"
    by (simp add: PushItem_props NewPriorityQueue_def)
  show "rep64 (dist_at ?s v) \<and> 0 \<le> dist_at ?s v" if "v \<in> {0..<n}" for v
    using d [OF that] by (auto simp: zero_f64_def)
  show "dist_at ?s src = 0" using d src by simp
  show "pq_order.heap_inv (d_pq ?s)"
    using PushItem_props(1) [of "[]" 0 src] by (simp add: NewPriorityQueue_def pq_order.heap_inv_def zero_f64_def)
  show "it_Value x \<in> {0..<n} \<and> dist_at ?s (it_Value x) \<le> it_Priority x" if "x \<in> set (d_pq ?s)" for x
    using that d src unfolding pq by (simp add: zero_f64_def)
  show "\<lparr>it_Value = v, it_Priority = dist_at ?s v\<rparr> \<in> set (d_pq ?s)" if "v \<in> {0..<n}" "dist_at ?s v \<noteq> PosInf" for v
    using that(2) d [OF that(1)] unfolding pq by (simp split: if_splits)
  show "\<exists>es. tree_path nbrs src {} ?s es v" if "v \<in> {0..<n}" "dist_at ?s v \<noteq> PosInf" for v
  proof -
    have "v = src" using that d by (simp split: if_splits)
    then have "tree_path nbrs src {} ?s [] v" using d that src by (simp add: tree_path_def walk_nodes_def)
    then show ?thesis ..
  qed
qed (use src in auto)

lemma walk_nodes_in:
  assumes ok: "reader_ok g"
  shows "walk (Neighbors g) u es v \<Longrightarrow> 0 \<le> u \<Longrightarrow> u < Nodes g \<Longrightarrow> x \<in> set (walk_nodes u es) \<Longrightarrow> x \<in> {0..<Nodes g}"
proof (induction es arbitrary: u)
  case (Cons e es)
  then have "0 \<le> e_To e \<and> e_To e < Nodes g" using edges_ok [OF ok, of u e] by (simp add: edge_ok_def)
  then show ?case using Cons by (auto simp: walk_nodes_def)
qed (simp add: walk_nodes_def)

lemma ShortestPath_correct:
  assumes ok: "reader_ok g" and src: "0 \<le> src" "src < Nodes g" and dst: "0 \<le> dst" "dst < Nodes g"
  shows "\<exists>res d. ShortestPath (Nodes g) (Neighbors g) src dst = Some (Inr (res, d))
    \<and> (\<forall>es. walk (Neighbors g) src es dst \<longrightarrow> d \<le> walk_cost es)
    \<and> (case res of None \<Rightarrow> d = PosInf
       | Some path \<Rightarrow> d \<noteq> PosInf
           \<and> (\<exists>es. walk (Neighbors g) src es dst \<and> path = walk_nodes src es \<and> distinct path \<and> walk_cost es = d))"
proof -
  let ?n = "Nodes g" and ?N = "Neighbors g"
  define s0 where "s0 = \<lparr>d_dist = (replicate (nat ?n) PosInf)[nat src := 0],
    d_prev = replicate (nat ?n) (- 1), d_pq = PushItem NewPriorityQueue src 0\<rparr>"
  have start: "search_inv ?n ?N src {} {} s0" unfolding s0_def by (rule search_start [OF src])
  obtain s where s: "sp_loop ?N dst s0 = Some (Inr s)" and dn: "search_done ?n ?N src dst s"
    using sp_loop_done [OF ok dst start] by blast
  let ?d = "dist_at s dst"
  have len: "length (d_dist s) = nat ?n" "length (d_prev s) = nat ?n" using dn by (auto simp: search_done_def)
  have at_dst: "at_ix (d_dist s) dst = Inr ?d" using len dst by (simp add: at_ix_def dist_at_def)
  have least: "walk ?N src es dst \<longrightarrow> ?d \<le> walk_cost es" for es
    using search_done_least [OF ok dn src, of es dst] by blast
  have unf: "ShortestPath ?n ?N src dst = (if ?d = PosInf then Some (Inr (None, PosInf))
      else case sp_path (d_prev s) dst [] of None \<Rightarrow> None | Some (Inl e) \<Rightarrow> Some (Inl e)
        | Some (Inr path) \<Rightarrow> Some (Inr (Some path, ?d)))"
    using src s at_dst by (simp add: ShortestPath_def s0_def Let_def)
  show ?thesis
  proof (cases "?d = PosInf")
    case True
    then show ?thesis using unf least by auto
  next
    case False
    then obtain es S where es: "tree_path ?N src S s es dst" using dn by (auto simp: search_done_def)
    then have w: "walk ?N src es dst" by (simp add: tree_path_def)
    have hd: "hd (rev (walk_nodes src es)) = dst" using walk_nodes_last [OF w] by (simp add: hd_rev)
    have "x \<in> {0..<?n}" if "x \<in> set (walk_nodes src es)" for x
      using walk_nodes_in [OF ok w src that] .
    then have "\<forall>x\<in>set (rev (walk_nodes src es)). 0 \<le> x \<and> x < int (length (d_prev s))" using len src by simp
    moreover have "linked (d_prev s) (rev (walk_nodes src es))" using es by (simp add: tree_path_def)
    ultimately have "sp_path (d_prev s) dst [] = Some (Inr (walk_nodes src es))"
      using sp_path_linked [of "d_prev s" "rev (walk_nodes src es)" "[]"] hd by simp
    then have "ShortestPath ?n ?N src dst = Some (Inr (Some (walk_nodes src es), ?d))" using unf False by simp
    then show ?thesis using least False w es by (auto simp: tree_path_def)
  qed
qed

text \<open>
  Outside of the graph the search panics: before it starts for the source, when it looks up the
  result for the destination.
\<close>

lemma ShortestPath_panics:
  assumes ok: "reader_ok g" and n: "0 \<le> Nodes g" and "\<not> (0 \<le> src \<and> src < Nodes g \<and> 0 \<le> dst \<and> dst < Nodes g)"
  shows "ShortestPath (Nodes g) (Neighbors g) src dst = Some (Inl IndexOutOfRange)"
proof (cases "0 \<le> src \<and> src < Nodes g")
  case False
  then show ?thesis using n by (simp add: ShortestPath_def)
next
  case True
  define s0 where "s0 = \<lparr>d_dist = (replicate (nat (Nodes g)) PosInf)[nat src := 0],
    d_prev = replicate (nat (Nodes g)) (- 1), d_pq = PushItem NewPriorityQueue src 0\<rparr>"
  have "search_inv (Nodes g) (Neighbors g) src {} {} s0" unfolding s0_def using True by (intro search_start) auto
  from sp_loop_halts [OF ok this, of dst]
  obtain s where s: "sp_loop (Neighbors g) dst s0 = Some (Inr s)" "length (d_dist s) = nat (Nodes g)" by blast
  then have "at_ix (d_dist s) dst = Inl IndexOutOfRange" using True assms(3) by (auto simp: at_ix_def)
  then show ?thesis using s(1) True by (simp add: ShortestPath_def s0_def Let_def)
qed

end

section \<open>Travel times are not negative\<close>

lemma f64_times_pos: "0 \<le> a \<Longrightarrow> 0 < q \<Longrightarrow> 0 \<le> a * Fin q" for a :: f64
  by (elim f64_nonneg_cases) (simp_all add: signed_inf_def f64_zero_le_round64, simp add: zero_f64_def)

lemma f64_divide_pos: "0 \<le> a \<Longrightarrow> 0 < q \<Longrightarrow> 0 \<le> a / Fin q" for a :: f64
  by (elim f64_nonneg_cases) (simp_all add: signed_inf_def f64_zero_le_round64, simp add: zero_f64_def)

definition road_ok :: "road \<Rightarrow> bool" where
  "road_ok r \<longleftrightarrow> 0 \<le> r_Distance r \<and> (\<exists>q. r_SpeedLimit r = Fin q) \<and> 1 \<le> r_Congestion r \<and> r_Congestion r \<le> 10"

lemma congestion_factor:
  assumes "1 \<le> c" "c \<le> 10"
  shows "\<exists>m. 1 + f64_of_int (c - 1) / Fin 10 = Fin m \<and> 1 \<le> m"
proof -
  have ten: "f64_of_int (c - 1) / Fin 10 = round64 (of_int (c - 1) / 10)"
    using assms f64_of_int_small [of "c - 1"] by simp
  let ?x = "round64 (of_int (c - 1) / 10)"
  have r1: "round64 1 = Fin 1" "round64 2 = Fin 2"
    using f64_of_int_small [of 1] f64_of_int_small [of 2] by (simp_all add: f64_of_int_def)
  have x: "0 \<le> ?x" "?x \<le> Fin 1"
    using assms round64_le [of "of_int (c - 1) / 10" 1] r1 by (simp_all add: f64_zero_le_round64)
  then obtain q where q: "?x = Fin q" "0 \<le> q" "q \<le> 1" by (cases ?x) (auto simp: zero_f64_def)
  have "round64 1 \<le> round64 (1 + q)" "round64 (1 + q) \<le> round64 2" using q by (auto intro!: round64_le)
  then obtain m where m: "round64 (1 + q) = Fin m" "1 \<le> m" using r1 by (cases "round64 (1 + q)") auto
  have "1 + Fin q = round64 (1 + q)" by (simp add: one_f64_def)
  then show ?thesis using m q(1) ten by auto
qed

lemma WeightMinutes_nonneg:
  assumes "road_ok r" shows "0 \<le> WeightMinutes r"
proof (cases "r_SpeedLimit r \<le> 0")
  case False
  obtain q where q: "r_SpeedLimit r = Fin q" using assms by (auto simp: road_ok_def)
  then have "0 < q" using False by (simp add: zero_f64_def)
  moreover obtain m where "1 + f64_of_int (r_Congestion r - 1) / Fin 10 = Fin m" "1 \<le> m"
    using congestion_factor assms unfolding road_ok_def by blast
  ultimately show ?thesis using False q assms
    by (simp add: WeightMinutes_def Let_def road_ok_def f64_times_pos f64_divide_pos)
qed (use assms in \<open>simp add: WeightMinutes_def road_ok_def\<close>)

end
