(* ===== verification/Traffic_Engine.thy ===== *)
theory Traffic_Engine
  imports Dijkstra_Correct
begin

text \<open>
  The traffic simulation engine (\<open>capstone/internal/engine\<close>) with the clock that drives it
  (\<open>capstone/internal/sim/clock.go\<close>): signal controllers, vehicles, road congestion, the
  emergency corridor, the public operations, and the goroutines that \<open>Start\<close> and
  \<open>RegisterVehicle\<close> launch, which run once per tick.

  Counters of vehicles are integers without wrap-around: the invariant of the engine bounds
  them by the number of registered vehicles.  Each operation, and each turn of a goroutine's
  loop, is one step.
\<close>

section \<open>Configuration and enumerations\<close>

type_synonym vehicle_type = string

definition VehicleTypeNormal :: vehicle_type where
  "VehicleTypeNormal = ''normal''"

definition VehicleTypeEmergency :: vehicle_type where
  "VehicleTypeEmergency = ''emergency''"

text \<open>The zero value of a phase and of a queue group is the empty string.\<close>

datatype phase = NoPhase | PhaseGreenNS | PhaseYellowNS | PhaseGreenEW | PhaseYellowEW

datatype vehicle_state = AtIntersection | WaitingSignal | OnRoad | VehicleArrived

datatype direction = NoDir | NS | EW

record config =
  NumIntersections :: int
  MinGreenTicks :: int
  MaxGreenTicks :: int
  YellowTicks :: int
  HistoryWindow :: int
  PreemptionTicks :: int
  TickDuration :: duration

definition DefaultConfig :: config where
  "DefaultConfig =
     \<lparr>NumIntersections = 20, MinGreenTicks = 10, MaxGreenTicks = 30, YellowTicks = 3,
      HistoryWindow = 600, PreemptionTicks = 60, TickDuration = 1000000000\<rparr>"

datatype engine_error =
    BadNumIntersections | NilGraph | NilClock | BadHistoryWindow
  | ContextDone | PlateRequired | FromOutOfRange | ToOutOfRange | InvalidVehicleType
  | NoRoute | VehicleExists | VehicleNotFound | IdOutOfRange | IntersectionNotFound

text \<open>What a call does: return, return an error, panic, or not end.\<close>

datatype 'a outcome = Return 'a | Error engine_error | Panic go_panic | Diverges

definition movementDirection :: "int \<Rightarrow> int \<Rightarrow> direction" where
  "movementDirection from to = (if to - from = 1 \<or> from - to = 1 then NS else EW)"

section \<open>Signal controllers\<close>

record signal =
  sg_id :: int
  sg_phase :: phase
  sg_remaining :: int
  sg_queueNS :: int
  sg_queueEW :: int
  sg_preempt :: bool
  sg_preemptPhase :: phase
  sg_preemptRemain :: int
  sg_cfg :: config

definition newIntersection :: "int \<Rightarrow> config \<Rightarrow> signal" where
  "newIntersection n cfg =
     \<lparr>sg_id = n, sg_phase = PhaseGreenNS, sg_remaining = MinGreenTicks cfg, sg_queueNS = 0, sg_queueEW = 0,
      sg_preempt = False, sg_preemptPhase = NoPhase, sg_preemptRemain = 0, sg_cfg = cfg\<rparr>"

definition adaptiveGreenTicks :: "signal \<Rightarrow> direction \<Rightarrow> int" where
  "adaptiveGreenTicks i dir =
     (let ns = sg_queueNS i; ew = sg_queueEW i; total = ns + ew
      in if total \<le> 0 then MinGreenTicks (sg_cfg i)
         else
           let ratio = (if dir = NS then f64_of_int ns / f64_of_int total else f64_of_int ew / f64_of_int total);
               green = f64_of_int (MinGreenTicks (sg_cfg i))
                         + ratio * f64_of_int (MaxGreenTicks (sg_cfg i) - MinGreenTicks (sg_cfg i));
               out = f64_to_int (math_Round green);
               out = (if out < MinGreenTicks (sg_cfg i) then MinGreenTicks (sg_cfg i) else out)
           in if MaxGreenTicks (sg_cfg i) < out then MaxGreenTicks (sg_cfg i) else out)"

definition signal_step :: "signal \<Rightarrow> signal" where
  "signal_step i =
     (if sg_preempt i
      then let i = i\<lparr>sg_phase := sg_preemptPhase i, sg_preemptRemain := sg_preemptRemain i - 1\<rparr>
           in if sg_preemptRemain i \<le> 0 then i\<lparr>sg_preempt := False\<rparr> else i
      else
        let i = i\<lparr>sg_remaining := sg_remaining i - 1\<rparr>
        in if 0 < sg_remaining i then i
           else case sg_phase i of
                  PhaseGreenNS \<Rightarrow> i\<lparr>sg_phase := PhaseYellowNS, sg_remaining := YellowTicks (sg_cfg i)\<rparr>
                | PhaseYellowNS \<Rightarrow> i\<lparr>sg_phase := PhaseGreenEW, sg_remaining := adaptiveGreenTicks i EW\<rparr>
                | PhaseGreenEW \<Rightarrow> i\<lparr>sg_phase := PhaseYellowEW, sg_remaining := YellowTicks (sg_cfg i)\<rparr>
                | PhaseYellowEW \<Rightarrow> i\<lparr>sg_phase := PhaseGreenNS, sg_remaining := adaptiveGreenTicks i NS\<rparr>
                | NoPhase \<Rightarrow> i\<lparr>sg_phase := PhaseGreenNS, sg_remaining := MinGreenTicks (sg_cfg i)\<rparr>)"

definition enqueue :: "signal \<Rightarrow> direction \<Rightarrow> signal" where
  "enqueue i dir =
     (if dir = NS then i\<lparr>sg_queueNS := sg_queueNS i + 1\<rparr> else i\<lparr>sg_queueEW := sg_queueEW i + 1\<rparr>)"

definition dequeue :: "signal \<Rightarrow> direction \<Rightarrow> signal" where
  "dequeue i dir =
     (if dir = NS
      then if 0 < sg_queueNS i then i\<lparr>sg_queueNS := sg_queueNS i - 1\<rparr> else i
      else if 0 < sg_queueEW i then i\<lparr>sg_queueEW := sg_queueEW i - 1\<rparr> else i)"

definition setPreempt :: "signal \<Rightarrow> phase \<Rightarrow> int \<Rightarrow> signal" where
  "setPreempt i phase ticks = i\<lparr>sg_preempt := True, sg_preemptPhase := phase, sg_preemptRemain := ticks\<rparr>"

definition phaseAllows :: "phase \<Rightarrow> direction \<Rightarrow> bool" where
  "phaseAllows p dir \<longleftrightarrow> (case p of PhaseGreenNS \<Rightarrow> dir = NS | PhaseGreenEW \<Rightarrow> dir = EW | _ \<Rightarrow> False)"

record signal_status =
  ss_IntersectionID :: int
  ss_Phase :: phase
  ss_RemainingTicks :: int
  ss_QueueNS :: int
  ss_QueueEW :: int
  ss_Preempt :: bool

definition signal_status :: "signal \<Rightarrow> signal_status" where
  "signal_status i =
     \<lparr>ss_IntersectionID = 0, ss_Phase = sg_phase i, ss_RemainingTicks = sg_remaining i,
      ss_QueueNS = sg_queueNS i, ss_QueueEW = sg_queueEW i, ss_Preempt = sg_preempt i\<rparr>"

section \<open>The state of the engine\<close>

record road_state =
  rs_road :: road
  rs_congestion :: int
  rs_occupancy :: int
  rs_history :: "int ring"

record vehicle =
  v_plate :: string
  v_kind :: vehicle_type
  v_to :: int
  v_state :: vehicle_state
  v_at :: int
  v_path :: "int list"
  v_idx :: nat
  v_onRoadID :: int
  v_remainingRoad :: int
  v_queued :: bool
  v_queuedGroup :: direction
  v_processedTick :: int

record engine =
  e_cfg :: config
  e_graph :: graph
  e_signals :: "int \<rightharpoonup> signal"
  e_vehicles :: "string \<rightharpoonup> vehicle"
  e_roadByID :: "int \<rightharpoonup> road_state"
  e_roadOnCorr :: "int set"
  e_emergencyUntilTick :: int
  e_tickN :: int
  e_tickClosed :: bool

definition clampCongestion :: "int \<Rightarrow> int" where
  "clampCongestion v = (if v < 1 then 1 else if 10 < v then 10 else v)"

text \<open>The loops of \<open>New\<close> that index the roads; \<open>ring\<close> is a new history buffer.\<close>

definition index_road :: "int ring \<Rightarrow> edge \<Rightarrow> (int \<rightharpoonup> road_state) \<Rightarrow> (int \<rightharpoonup> road_state)" where
  "index_road ring edge m =
     (case e_Road edge of
        None \<Rightarrow> m
      | Some r \<Rightarrow>
          if m (r_ID r) \<noteq> None then m
          else m(r_ID r \<mapsto> \<lparr>rs_road = r, rs_congestion = clampCongestion (r_Congestion r), rs_occupancy = 0,
                           rs_history = ring\<rparr>))"

text \<open>\<open>order\<close> is the order in which \<open>range\<close> visits the adjacency map.\<close>

definition New :: "int list \<Rightarrow> config \<Rightarrow> graph option \<Rightarrow> bool \<Rightarrow> engine outcome" where
  "New order cfg graph has_clock =
     (if NumIntersections cfg \<le> 0 then Error BadNumIntersections
      else case graph of
        None \<Rightarrow> Error NilGraph
      | Some g \<Rightarrow>
          if \<not> has_clock then Error NilClock
          else if HistoryWindow cfg \<le> 0 then Error BadHistoryWindow
          else case NewRingBuffer 0 (HistoryWindow cfg) of
                 None \<Rightarrow> Panic NegativeLength
               | Some ring \<Rightarrow>
                   Return \<lparr>e_cfg = cfg, e_graph = g,
                     e_signals = (\<lambda>i. if 0 \<le> i \<and> i < NumIntersections cfg then Some (newIntersection i cfg) else None),
                     e_vehicles = Map.empty,
                     e_roadByID = fold (index_road ring) (concat (map (adj g) order)) Map.empty,
                     e_roadOnCorr = {}, e_emergencyUntilTick = 0, e_tickN = 0, e_tickClosed = False\<rparr>)"

section \<open>Congestion\<close>

definition update_road :: "road_state \<Rightarrow> road_state" where
  "update_road rs =
     (let baseline = 2;
          occImpact = rs_occupancy rs div 5;
          v = clampCongestion (baseline + occImpact)
      in rs\<lparr>rs_congestion := v, rs_history := rb_Append (rs_history rs) v\<rparr>)"

definition updateCongestion :: "int \<Rightarrow> engine \<Rightarrow> engine" where
  "updateCongestion n e =
     (let e = (if 0 < e_emergencyUntilTick e \<and> e_emergencyUntilTick e < n
               then e\<lparr>e_roadOnCorr := {}, e_emergencyUntilTick := 0\<rparr> else e)
      in e\<lparr>e_roadByID := (\<lambda>k. map_option update_road (e_roadByID e k))\<rparr>)"

definition meanInts :: "int list \<Rightarrow> f64" where
  "meanInts v = (if v = [] then 0 else f64_of_int (sum_list v) / f64_of_int (int (length v)))"

record road_congestion =
  rc_RoadID :: int
  rc_From :: int
  rc_To :: int
  rc_Congestion :: int
  rc_AvgCongestion :: f64
  rc_Occupancy :: int
  rc_OnEmergencyRoute :: bool

definition road_report :: "engine \<Rightarrow> road_state \<Rightarrow> road_congestion" where
  "road_report e rs =
     \<lparr>rc_RoadID = r_ID (rs_road rs), rc_From = r_From (rs_road rs), rc_To = r_To (rs_road rs),
      rc_Congestion = rs_congestion rs, rc_AvgCongestion = meanInts (rb_Items (rs_history rs)),
      rc_Occupancy = rs_occupancy rs, rc_OnEmergencyRoute = (r_ID (rs_road rs) \<in> e_roadOnCorr e)\<rparr>"

text \<open>All roads by falling average, and the first five; \<open>order\<close> enumerates the road map.\<close>

definition Congestion :: "int list \<Rightarrow> engine \<Rightarrow> road_congestion list \<times> road_congestion list" where
  "Congestion order e =
     (let roads = map (road_report e) (range_values order (e_roadByID e));
          roads = sort_slice (\<lambda>a b. rc_AvgCongestion b < rc_AvgCongestion a) roads;
          n = (if length roads < 5 then length roads else 5)
      in (roads, take n roads))"

section \<open>Routing\<close>

definition view_edge :: "engine \<Rightarrow> bool \<Rightarrow> edge \<Rightarrow> edge option" where
  "view_edge e avoidEmergency edge =
     (case e_Road edge of
        None \<Rightarrow> None
      | Some road \<Rightarrow>
          (case e_roadByID e (r_ID road) of
             None \<Rightarrow> None
           | Some rs \<Rightarrow>
               let r = (rs_road rs)\<lparr>r_Congestion := rs_congestion rs\<rparr>;
                   r = (if avoidEmergency \<and> r_ID road \<in> e_roadOnCorr e
                        then r\<lparr>r_Congestion := 10, r_Distance := r_Distance r * Fin 50\<rparr> else r)
               in Some \<lparr>e_Road = Some r, e_To = e_To edge\<rparr>))"

definition Neighbors :: "engine \<times> bool \<Rightarrow> int \<Rightarrow> edge list" where
  "Neighbors g node = List.map_filter (view_edge (fst g) (snd g)) (adj (e_graph (fst g)) node)"

definition view_Nodes :: "engine \<times> bool \<Rightarrow> int" where
  "view_Nodes g = NumIntersections (e_cfg (fst g))"

definition GetRoad :: "engine \<Rightarrow> int \<Rightarrow> road option" where
  "GetRoad e roadID =
     (case e_roadByID e roadID of
        None \<Rightarrow> None | Some rs \<Rightarrow> Some ((rs_road rs)\<lparr>r_Congestion := rs_congestion rs\<rparr>))"

definition route :: "engine \<Rightarrow> int \<Rightarrow> int \<Rightarrow> vehicle_type \<Rightarrow> (int list \<times> f64) outcome" where
  "route e from to kind =
     (let gr = (e, kind \<noteq> VehicleTypeEmergency)
      in case ShortestPath (view_Nodes gr) (Neighbors gr) from to of
           None \<Rightarrow> Diverges
         | Some (Inl p) \<Rightarrow> Panic p
         | Some (Inr (None, w)) \<Rightarrow> Error NoRoute
         | Some (Inr (Some path, w)) \<Rightarrow> if w = PosInf then Error NoRoute else Return (path, w))"

definition Route :: "bool \<Rightarrow> int \<Rightarrow> int \<Rightarrow> engine \<Rightarrow> (int list \<times> f64) outcome" where
  "Route ctx_done from to e =
     (if ctx_done then Error ContextDone
      else if from < 0 \<or> NumIntersections (e_cfg e) \<le> from then Error FromOutOfRange
      else if to < 0 \<or> NumIntersections (e_cfg e) \<le> to then Error ToOutOfRange
      else route e from to VehicleTypeNormal)"

text \<open>The first edge that leads to \<open>to\<close> along a road.\<close>

definition hop_road :: "engine \<Rightarrow> int \<Rightarrow> int \<Rightarrow> road option" where
  "hop_road e from to =
     (case find (\<lambda>edge. e_To edge = to \<and> e_Road edge \<noteq> None) (adj (e_graph e) from) of
        None \<Rightarrow> None | Some edge \<Rightarrow> e_Road edge)"

definition roadForHop :: "engine \<Rightarrow> int \<Rightarrow> int \<Rightarrow> (int \<times> int) option" where
  "roadForHop e from to =
     (case hop_road e from to of
        None \<Rightarrow> None
      | Some road \<Rightarrow>
          (case e_roadByID e (r_ID road) of
             None \<Rightarrow> None
           | Some rs \<Rightarrow>
               let r = (rs_road rs)\<lparr>r_Congestion := rs_congestion rs\<rparr>;
                   w = WeightMinutes r;
                   travelTicks = f64_to_int (math_Ceil w);
                   travelTicks = (if travelTicks < 1 then 1 else travelTicks)
               in Some (r_ID road, travelTicks)))"

section \<open>Registration\<close>

record register_request =
  rq_Plate :: string
  rq_From :: int
  rq_To :: int
  rq_Type :: vehicle_type

definition new_vehicle :: "register_request \<Rightarrow> int list \<Rightarrow> vehicle" where
  "new_vehicle req path =
     \<lparr>v_plate = rq_Plate req, v_kind = rq_Type req, v_to = rq_To req, v_state = AtIntersection, v_at = rq_From req,
      v_path = path, v_idx = 0, v_onRoadID = 0, v_remainingRoad = 0, v_queued = False, v_queuedGroup = NoDir,
      v_processedTick = 0\<rparr>"

definition RegisterVehicle :: "bool \<Rightarrow> register_request \<Rightarrow> engine \<Rightarrow> (int list \<times> f64) outcome \<times> engine" where
  "RegisterVehicle ctx_done req e =
     (if ctx_done then (Error ContextDone, e)
      else if rq_Plate req = '''' then (Error PlateRequired, e)
      else if rq_From req < 0 \<or> NumIntersections (e_cfg e) \<le> rq_From req then (Error FromOutOfRange, e)
      else if rq_To req < 0 \<or> NumIntersections (e_cfg e) \<le> rq_To req then (Error ToOutOfRange, e)
      else
        let req = (if rq_Type req = '''' then req\<lparr>rq_Type := VehicleTypeNormal\<rparr> else req)
        in if rq_Type req \<noteq> VehicleTypeNormal \<and> rq_Type req \<noteq> VehicleTypeEmergency
           then (Error InvalidVehicleType, e)
           else case route e (rq_From req) (rq_To req) (rq_Type req) of
                  Return (path, eta) \<Rightarrow>
                    if e_vehicles e (rq_Plate req) \<noteq> None then (Error VehicleExists, e)
                    else (Return (path, eta),
                          e\<lparr>e_vehicles := (e_vehicles e)(rq_Plate req \<mapsto> new_vehicle req path)\<rparr>)
                | Error err \<Rightarrow> (Error err, e)
                | Panic p \<Rightarrow> (Panic p, e)
                | Diverges \<Rightarrow> (Diverges, e))"

section \<open>The emergency corridor\<close>

fun hops :: "int list \<Rightarrow> (int \<times> int) list" where
  "hops (a # b # p) = (a, b) # hops (b # p)"
| "hops _ = []"

definition mark_hop :: "graph \<Rightarrow> int \<times> int \<Rightarrow> int set \<Rightarrow> int set" where
  "mark_hop g hop corr =
     (case find (\<lambda>edge. e_To edge = snd hop \<and> e_Road edge \<noteq> None) (adj g (fst hop)) of
        None \<Rightarrow> corr
      | Some edge \<Rightarrow> (case e_Road edge of None \<Rightarrow> corr | Some r \<Rightarrow> insert (r_ID r) corr))"

definition preempt_hop :: "config \<Rightarrow> int \<times> int \<Rightarrow> (int \<rightharpoonup> signal) \<Rightarrow> (int \<rightharpoonup> signal)" where
  "preempt_hop cfg hop signals =
     (case signals (fst hop) of
        None \<Rightarrow> signals
      | Some ctrl \<Rightarrow>
          if movementDirection (fst hop) (snd hop) = NS
          then signals(fst hop \<mapsto> setPreempt ctrl PhaseGreenNS (PreemptionTicks cfg))
          else signals(fst hop \<mapsto> setPreempt ctrl PhaseGreenEW (PreemptionTicks cfg)))"

definition setEmergencyCorridor :: "int list \<Rightarrow> engine \<Rightarrow> engine" where
  "setEmergencyCorridor path e =
     (if length path < 2 then e
      else e\<lparr>e_emergencyUntilTick := wrap64 (e_tickN e + PreemptionTicks (e_cfg e)),
             e_roadOnCorr := fold (mark_hop (e_graph e)) (hops path) {},
             e_signals := fold (preempt_hop (e_cfg e)) (hops path) (e_signals e)\<rparr>)"

definition DispatchEmergency :: "bool \<Rightarrow> string \<Rightarrow> int \<Rightarrow> int \<Rightarrow> engine \<Rightarrow> ((int list \<times> f64) \<times> int) outcome \<times> engine" where
  "DispatchEmergency ctx_done plate from to e =
     (if ctx_done then (Error ContextDone, e)
      else if plate = '''' then (Error PlateRequired, e)
      else case route e from to VehicleTypeEmergency of
             Return (path, eta) \<Rightarrow>
               (let e = setEmergencyCorridor path e
                in case RegisterVehicle False
                          \<lparr>rq_Plate = plate, rq_From = from, rq_To = to, rq_Type = VehicleTypeEmergency\<rparr> e of
                     (Return _, e) \<Rightarrow> (Return ((path, eta), PreemptionTicks (e_cfg e)), e)
                   | (Error err, e) \<Rightarrow> (Error err, e)
                   | (Panic p, e) \<Rightarrow> (Panic p, e)
                   | (Diverges, e) \<Rightarrow> (Diverges, e))
           | Error err \<Rightarrow> (Error err, e)
           | Panic p \<Rightarrow> (Panic p, e)
           | Diverges \<Rightarrow> (Diverges, e))"

section \<open>Queries\<close>

record vehicle_status =
  vs_Plate :: string
  vs_Type :: vehicle_type
  vs_State :: vehicle_state
  vs_At :: int
  vs_Next :: int
  vs_To :: int
  vs_OnRoadID :: int
  vs_RemainingRoadTicks :: int

definition VehicleStatus :: "bool \<Rightarrow> string \<Rightarrow> engine \<Rightarrow> vehicle_status outcome" where
  "VehicleStatus ctx_done plate e =
     (if ctx_done then Error ContextDone
      else case e_vehicles e plate of
             None \<Rightarrow> Error VehicleNotFound
           | Some v \<Rightarrow>
               Return \<lparr>vs_Plate = v_plate v, vs_Type = v_kind v, vs_State = v_state v, vs_At = v_at v,
                 vs_Next =
                   (if v_state v = OnRoad \<and> v_idx v < length (v_path v) then v_path v ! v_idx v
                    else if v_idx v + 1 < length (v_path v) then v_path v ! (v_idx v + 1)
                    else v_at v),
                 vs_To = v_to v, vs_OnRoadID = v_onRoadID v, vs_RemainingRoadTicks = v_remainingRoad v\<rparr>)"

definition SignalStatus :: "int \<Rightarrow> engine \<Rightarrow> signal_status outcome" where
  "SignalStatus i e =
     (if i < 0 \<or> NumIntersections (e_cfg e) \<le> i then Error IdOutOfRange
      else case e_signals e i of
             None \<Rightarrow> Error IntersectionNotFound
           | Some ctrl \<Rightarrow> Return ((signal_status ctrl)\<lparr>ss_IntersectionID := i\<rparr>))"

text \<open>The totals; \<open>order\<close> enumerates the vehicles.\<close>

definition engine_Stats :: "string list \<Rightarrow> engine \<Rightarrow> nat \<times> nat" where
  "engine_Stats order e =
     (let vs = range_values order (e_vehicles e)
      in (length vs, foldl (\<lambda>arrived v. if v_state v = VehicleArrived then arrived + 1 else arrived) 0 vs))"

section \<open>The vehicle state machine\<close>

definition leaveQueue :: "vehicle \<Rightarrow> vehicle" where
  "leaveQueue v = v\<lparr>v_queued := False, v_queuedGroup := NoDir\<rparr>"

text \<open>The end of a road: its occupancy falls and the vehicle stands at the next intersection.\<close>

definition road_leave :: "int \<Rightarrow> (int \<rightharpoonup> road_state) \<Rightarrow> (int \<rightharpoonup> road_state)" where
  "road_leave k roads =
     (case roads k of
        None \<Rightarrow> roads
      | Some rs \<Rightarrow> if 0 < rs_occupancy rs then roads(k \<mapsto> rs\<lparr>rs_occupancy := rs_occupancy rs - 1\<rparr>) else roads)"

definition road_enter :: "int \<Rightarrow> (int \<rightharpoonup> road_state) \<Rightarrow> (int \<rightharpoonup> road_state)" where
  "road_enter k roads =
     (case roads k of None \<Rightarrow> roads | Some rs \<Rightarrow> roads(k \<mapsto> rs\<lparr>rs_occupancy := rs_occupancy rs + 1\<rparr>))"

definition finish_road :: "vehicle \<Rightarrow> engine \<Rightarrow> go_panic + vehicle \<times> engine" where
  "finish_road v e =
     (let e = e\<lparr>e_roadByID := road_leave (v_onRoadID v) (e_roadByID e)\<rparr>
      in case at_ix (v_path v) (int (v_idx v)) of
           Inl p \<Rightarrow> Inl p
         | Inr node \<Rightarrow> Inr (leaveQueue (v\<lparr>v_onRoadID := 0, v_at := node, v_state := AtIntersection\<rparr>), e))"

text \<open>The decision at an intersection.\<close>

definition cross :: "vehicle \<Rightarrow> int \<Rightarrow> int \<Rightarrow> signal \<Rightarrow> engine \<Rightarrow> vehicle \<times> engine" where
  "cross v from to ctrl e =
     (let (v, e) = (if v_queued v
                    then (leaveQueue v, e\<lparr>e_signals := (e_signals e)(from \<mapsto> dequeue ctrl (v_queuedGroup v))\<rparr>)
                    else (v, e))
      in case roadForHop e from to of
           None \<Rightarrow> (v, e)
         | Some (roadID, travelTicks) \<Rightarrow>
             (v\<lparr>v_onRoadID := roadID, v_remainingRoad := travelTicks, v_state := OnRoad, v_idx := v_idx v + 1\<rparr>,
              e\<lparr>e_roadByID := road_enter roadID (e_roadByID e)\<rparr>))"

definition hold :: "vehicle \<Rightarrow> int \<Rightarrow> direction \<Rightarrow> signal \<Rightarrow> engine \<Rightarrow> vehicle \<times> engine" where
  "hold v from dir ctrl e =
     (let (v, e) = (if v_queued v then (v, e)
                    else (v\<lparr>v_queued := True, v_queuedGroup := dir\<rparr>,
                          e\<lparr>e_signals := (e_signals e)(from \<mapsto> enqueue ctrl dir)\<rparr>))
      in (v\<lparr>v_state := WaitingSignal\<rparr>, e))"

definition at_intersection :: "vehicle \<Rightarrow> engine \<Rightarrow> vehicle \<times> engine" where
  "at_intersection v e =
     (if v_at v = v_to v then (v\<lparr>v_state := VehicleArrived\<rparr>, e)
      else if length (v_path v) \<le> v_idx v + 1 then (v, e)
      else
        let from = v_path v ! v_idx v; to = v_path v ! (v_idx v + 1)
        in case e_signals e from of
             None \<Rightarrow> (v, e)
           | Some ctrl \<Rightarrow>
               let dir = movementDirection from to
               in if phaseAllows (sg_phase ctrl) dir then cross v from to ctrl e
                  else hold v from dir ctrl e)"

definition vehicle_step :: "vehicle \<Rightarrow> engine \<Rightarrow> go_panic + vehicle \<times> engine" where
  "vehicle_step v e =
     (case v_state v of
        VehicleArrived \<Rightarrow> Inr (v, e)
      | OnRoad \<Rightarrow>
          let v = v\<lparr>v_remainingRoad := v_remainingRoad v - 1\<rparr>
          in if 0 < v_remainingRoad v then Inr (v, e)
             else (case finish_road v e of
                     Inl p \<Rightarrow> Inl p
                   | Inr (v, e) \<Rightarrow> Inr (at_intersection v e))
      | _ \<Rightarrow> Inr (at_intersection v e))"

section \<open>The clock\<close>

text \<open>\<open>ManualClock\<close>: a step blocks (\<open>None\<close>) while the channel of 1024 ticks is full.\<close>

record manual_clock =
  mc_c :: "int list"
  mc_n :: int

definition NewManualClock :: manual_clock where
  "NewManualClock = \<lparr>mc_c = [], mc_n = 0\<rparr>"

definition clock_Step :: "manual_clock \<Rightarrow> manual_clock option" where
  "clock_Step m =
     (if length (mc_c m) < 1024 then Some \<lparr>mc_c = mc_c m @ [mc_n m + 1], mc_n = mc_n m + 1\<rparr> else None)"

section \<open>The goroutines\<close>

text \<open>
  \<open>waitTick\<close>: the caller stays blocked (\<open>None\<close>) until the tick after the last one it has
  processed was broadcast; \<open>Some None\<close> tells it to stop.
\<close>

definition waitTick :: "engine \<Rightarrow> int \<Rightarrow> int option option" where
  "waitTick e prev =
     (if e_tickClosed e then Some None
      else if e_tickN e < prev + 1 then None
      else Some (Some (prev + 1)))"

datatype goroutine = SignalLoop int | VehicleLoop string | CongestionLoop

text \<open>The engine with the last tick each goroutine has processed, and its clock.\<close>

record traffic =
  t_engine :: engine
  t_last :: "goroutine \<Rightarrow> int"
  t_clock :: manual_clock

definition start_traffic :: "engine \<Rightarrow> traffic" where
  "start_traffic e = \<lparr>t_engine = e, t_last = (\<lambda>_. 0), t_clock = NewManualClock\<rparr>"

text \<open>The body of a goroutine's loop for tick \<open>n\<close>.\<close>

definition vehicle_turn :: "string \<Rightarrow> int \<Rightarrow> engine \<Rightarrow> go_panic + engine" where
  "vehicle_turn plate n e =
     (case e_vehicles e plate of
        None \<Rightarrow> Inr e
      | Some v \<Rightarrow>
          (case vehicle_step v e of
             Inl p \<Rightarrow> Inl p
           | Inr (v, e) \<Rightarrow> Inr (e\<lparr>e_vehicles := (e_vehicles e)(plate \<mapsto> v\<lparr>v_processedTick := n\<rparr>)\<rparr>)))"

fun turn :: "goroutine \<Rightarrow> int \<Rightarrow> engine \<Rightarrow> go_panic + engine" where
  "turn (SignalLoop i) n e =
     Inr (case e_signals e i of None \<Rightarrow> e | Some s \<Rightarrow> e\<lparr>e_signals := (e_signals e)(i \<mapsto> signal_step s)\<rparr>)"
| "turn (VehicleLoop plate) n e = vehicle_turn plate n e"
| "turn CongestionLoop n e = Inr (updateCongestion n e)"

text \<open>The goroutines that have been launched.\<close>

fun launched :: "engine \<Rightarrow> goroutine \<Rightarrow> bool" where
  "launched e (SignalLoop i) \<longleftrightarrow> e_signals e i \<noteq> None"
| "launched e (VehicleLoop plate) \<longleftrightarrow> e_vehicles e plate \<noteq> None"
| "launched e CongestionLoop \<longleftrightarrow> True"

datatype traffic_action =
    ClockStep
  | DriveTick
  | Turn goroutine
  | DoRegister bool register_request
  | DoDispatch bool string int int
  | DoStop

definition run_turn :: "goroutine \<Rightarrow> traffic \<Rightarrow> go_panic + traffic" where
  "run_turn r t =
     (if \<not> launched (t_engine t) r then Inr t
      else case waitTick (t_engine t) (t_last t r) of
             Some (Some n) \<Rightarrow>
               (case turn r n (t_engine t) of
                  Inl p \<Rightarrow> Inl p
                | Inr e \<Rightarrow> Inr (t\<lparr>t_engine := e, t_last := (t_last t)(r := n)\<rparr>))
           | _ \<Rightarrow> Inr t)"

text \<open>
  One step of the whole system; a panic of a goroutine or of the caller of an operation is
  \<open>Inl\<close>.  The call of an operation is one step, although it takes and releases several locks.
\<close>

definition after_op :: "traffic \<Rightarrow> 'a outcome \<times> engine \<Rightarrow> go_panic + traffic" where
  "after_op t r = (case r of (Panic p, _) \<Rightarrow> Inl p | (_, e) \<Rightarrow> Inr (t\<lparr>t_engine := e\<rparr>))"

fun traffic_step :: "traffic_action \<Rightarrow> traffic \<Rightarrow> go_panic + traffic" where
  "traffic_step ClockStep t =
     Inr (case clock_Step (t_clock t) of None \<Rightarrow> t | Some c \<Rightarrow> t\<lparr>t_clock := c\<rparr>)"
| "traffic_step DriveTick t =
     Inr (if e_tickClosed (t_engine t) then t
          else case mc_c (t_clock t) of
                 [] \<Rightarrow> t
               | n # c \<Rightarrow> t\<lparr>t_engine := (t_engine t)\<lparr>e_tickN := n\<rparr>, t_clock := (t_clock t)\<lparr>mc_c := c\<rparr>\<rparr>)"
| "traffic_step (Turn r) t = run_turn r t"
| "traffic_step (DoRegister ctx_done req) t = after_op t (RegisterVehicle ctx_done req (t_engine t))"
| "traffic_step (DoDispatch ctx_done plate from to) t =
     after_op t (DispatchEmergency ctx_done plate from to (t_engine t))"
| "traffic_step DoStop t = Inr (t\<lparr>t_engine := (t_engine t)\<lparr>e_tickClosed := True\<rparr>\<rparr>)"

fun traffic_run :: "traffic_action list \<Rightarrow> traffic \<Rightarrow> go_panic + traffic" where
  "traffic_run [] t = Inr t"
| "traffic_run (a # as) t = (case traffic_step a t of Inl p \<Rightarrow> Inl p | Inr t \<Rightarrow> traffic_run as t)"

end
