(* ===== verification/Traffic_Signals.thy ===== *)
theory Traffic_Signals
  imports Traffic_Engine
begin

text \<open>
  The signal controllers: bounds on every phase, the green phases of both directions, and
  preemption.  A controller sees its own steps and, between them, any queue operations of
  vehicles and any preemptions by emergency dispatches.
\<close>

section \<open>Operations on one controller\<close>

datatype signal_op = SStep | SEnqueue direction | SDequeue direction | SPreempt phase int

fun signal_do :: "signal_op \<Rightarrow> signal \<Rightarrow> signal" where
  "signal_do SStep i = signal_step i"
| "signal_do (SEnqueue d) i = enqueue i d"
| "signal_do (SDequeue d) i = dequeue i d"
| "signal_do (SPreempt p t) i = setPreempt i p t"

text \<open>A dispatch asks for one of the green phases.\<close>

fun op_ok :: "signal_op \<Rightarrow> bool" where
  "op_ok (SPreempt p t) \<longleftrightarrow> p \<in> {PhaseGreenNS, PhaseGreenEW} \<and> 0 \<le> t"
| "op_ok _ \<longleftrightarrow> True"

fun is_preempt :: "signal_op \<Rightarrow> bool" where
  "is_preempt (SPreempt p t) \<longleftrightarrow> True"
| "is_preempt _ \<longleftrightarrow> False"

definition steps_in :: "signal_op list \<Rightarrow> int" where
  "steps_in ops = int (length (filter (\<lambda>x. x = SStep) ops))"

lemma steps_in_simps [simp]: "steps_in [] = 0" "steps_in (SStep # ops) = 1 + steps_in ops"
  "steps_in (SEnqueue d # ops) = steps_in ops" "steps_in (SDequeue d # ops) = steps_in ops"
  "steps_in (SPreempt p t # ops) = steps_in ops" "0 \<le> steps_in ops"
  by (simp_all add: steps_in_def)

text \<open>The states a controller passes through, the first and the last one included.\<close>

fun signal_states :: "signal_op list \<Rightarrow> signal \<Rightarrow> signal list" where
  "signal_states [] i = [i]"
| "signal_states (x # ops) i = i # signal_states ops (signal_do x i)"

definition signal_after :: "signal_op list \<Rightarrow> signal \<Rightarrow> signal" where
  "signal_after ops i = fold signal_do ops i"

lemma signal_after_simps [simp]:
  "signal_after [] i = i" "signal_after (x # ops) i = signal_after ops (signal_do x i)"
  "signal_after (ops @ ops') i = signal_after ops' (signal_after ops i)"
  by (simp_all add: signal_after_def)

lemma signal_states_append:
  "set (signal_states (ops @ ops') i) = set (signal_states ops i) \<union> set (signal_states ops' (signal_after ops i))"
  by (induction ops arbitrary: i) (auto, (metis list.set_intros(1) signal_states.elims)+)

section \<open>The invariant\<close>

text \<open>No phase lasts longer; a phase takes at least the step that ends it.\<close>

definition phase_bound :: "config \<Rightarrow> int" where
  "phase_bound cfg = max 1 (max (max (MinGreenTicks cfg) (MaxGreenTicks cfg)) (YellowTicks cfg))"

definition signal_inv :: "config \<Rightarrow> signal \<Rightarrow> bool" where
  "signal_inv cfg i \<longleftrightarrow> sg_cfg i = cfg \<and> sg_phase i \<noteq> NoPhase \<and> sg_remaining i \<le> phase_bound cfg
     \<and> (sg_preempt i \<longrightarrow> sg_preemptPhase i \<in> {PhaseGreenNS, PhaseGreenEW})"

lemma adaptive_bound: "adaptiveGreenTicks i d \<le> phase_bound (sg_cfg i)"
proof (cases "sg_queueNS i + sg_queueEW i \<le> 0")
  case True
  then show ?thesis by (simp add: adaptiveGreenTicks_def phase_bound_def Let_def)
next
  case False
  have "(if MaxGreenTicks (sg_cfg i) < x then MaxGreenTicks (sg_cfg i) else x) \<le> phase_bound (sg_cfg i)" for x
    by (auto simp: phase_bound_def max_def)
  then show ?thesis using False unfolding adaptiveGreenTicks_def Let_def by (simp only: if_False)
qed

lemma queue_op_fields [simp]:
  "sg_phase (enqueue i d) = sg_phase i" "sg_phase (dequeue i d) = sg_phase i"
  "sg_remaining (enqueue i d) = sg_remaining i" "sg_remaining (dequeue i d) = sg_remaining i"
  "sg_preempt (enqueue i d) = sg_preempt i" "sg_preempt (dequeue i d) = sg_preempt i"
  "sg_preemptPhase (enqueue i d) = sg_preemptPhase i" "sg_preemptPhase (dequeue i d) = sg_preemptPhase i"
  "sg_preemptRemain (enqueue i d) = sg_preemptRemain i" "sg_preemptRemain (dequeue i d) = sg_preemptRemain i"
  "sg_cfg (enqueue i d) = sg_cfg i" "sg_cfg (dequeue i d) = sg_cfg i"
  by (simp_all add: enqueue_def dequeue_def)

lemma signal_step_fields [simp]:
  "sg_cfg (signal_step i) = sg_cfg i" "sg_queueNS (signal_step i) = sg_queueNS i" "sg_queueEW (signal_step i) = sg_queueEW i"
  by (auto simp: signal_step_def Let_def split: phase.splits)

lemma newIntersection_inv: "signal_inv cfg (newIntersection n cfg)"
  by (simp add: signal_inv_def newIntersection_def phase_bound_def)

text \<open>A step without preemption: the phase goes on, or the next one starts.\<close>

fun next_phase :: "phase \<Rightarrow> phase" where
  "next_phase PhaseGreenNS = PhaseYellowNS"
| "next_phase PhaseYellowNS = PhaseGreenEW"
| "next_phase PhaseGreenEW = PhaseYellowEW"
| "next_phase PhaseYellowEW = PhaseGreenNS"
| "next_phase NoPhase = PhaseGreenNS"

lemma next_phase_known: "next_phase p \<noteq> NoPhase"
  by (cases p) simp_all

lemma signal_step_normal:
  assumes "signal_inv cfg i" "\<not> sg_preempt i"
  shows "1 < sg_remaining i \<Longrightarrow> signal_step i = i\<lparr>sg_remaining := sg_remaining i - 1\<rparr>"
    "sg_remaining i \<le> 1 \<Longrightarrow> sg_phase (signal_step i) = next_phase (sg_phase i) \<and> sg_remaining (signal_step i) \<le> phase_bound cfg"
    "\<not> sg_preempt (signal_step i)"
proof -
  have cfg: "sg_cfg i = cfg" "sg_phase i \<noteq> NoPhase" using assms(1) by (auto simp: signal_inv_def)
  have y: "YellowTicks cfg \<le> phase_bound cfg" by (simp add: phase_bound_def)
  have g: "adaptiveGreenTicks (i\<lparr>sg_remaining := k\<rparr>) d \<le> phase_bound cfg" for k d
    using adaptive_bound [of "i\<lparr>sg_remaining := k\<rparr>" d] cfg by simp
  show "1 < sg_remaining i \<Longrightarrow> signal_step i = i\<lparr>sg_remaining := sg_remaining i - 1\<rparr>"
    using assms(2) by (simp add: signal_step_def Let_def)
  show "sg_remaining i \<le> 1 \<Longrightarrow> sg_phase (signal_step i) = next_phase (sg_phase i) \<and> sg_remaining (signal_step i) \<le> phase_bound cfg"
    using assms(2) cfg y g by (cases "sg_phase i") (simp_all add: signal_step_def Let_def)
  show "\<not> sg_preempt (signal_step i)"
    using assms(2) by (auto simp: signal_step_def Let_def split: phase.splits)
qed

lemma signal_step_preempted:
  assumes "sg_preempt i"
  shows "sg_phase (signal_step i) = sg_preemptPhase i" "sg_remaining (signal_step i) = sg_remaining i"
    "sg_preemptRemain (signal_step i) = sg_preemptRemain i - 1" "sg_preemptPhase (signal_step i) = sg_preemptPhase i"
    "sg_preempt (signal_step i) \<longleftrightarrow> 1 < sg_preemptRemain i"
  using assms by (auto simp: signal_step_def Let_def)

lemma signal_do_inv: "signal_inv cfg i \<Longrightarrow> op_ok x \<Longrightarrow> signal_inv cfg (signal_do x i)"
proof (cases x)
  case SStep
  assume inv: "signal_inv cfg i"
  show ?thesis
  proof (cases "sg_preempt i")
    case True
    then show ?thesis using inv signal_step_preempted [OF True] SStep by (auto simp: signal_inv_def)
  next
    case False
    note N = signal_step_normal [OF inv False]
    show ?thesis
    proof (cases "1 < sg_remaining i")
      case True
      then show ?thesis using inv N(1,3) SStep by (simp add: signal_inv_def)
    next
      case False
      then show ?thesis using N(2,3) inv SStep next_phase_known by (simp add: signal_inv_def)
    qed
  qed
qed (auto simp: signal_inv_def setPreempt_def)

lemma signal_after_inv: "signal_inv cfg i \<Longrightarrow> list_all op_ok ops \<Longrightarrow> signal_inv cfg (signal_after ops i)"
  by (induction ops arbitrary: i) (simp_all add: signal_do_inv)

section \<open>Without preemption no direction starves\<close>

text \<open>A bound on the number of steps until \<open>d\<close> has green, when nothing is preempted.\<close>

fun phases_before :: "direction \<Rightarrow> phase \<Rightarrow> int" where
  "phases_before NS PhaseYellowEW = 0"
| "phases_before NS PhaseGreenEW = 1"
| "phases_before NS PhaseYellowNS = 2"
| "phases_before EW PhaseYellowNS = 0"
| "phases_before EW PhaseGreenNS = 1"
| "phases_before EW PhaseYellowEW = 2"
| "phases_before _ _ = 0"

definition until_green :: "direction \<Rightarrow> config \<Rightarrow> signal \<Rightarrow> int" where
  "until_green d cfg i = (if phaseAllows (sg_phase i) d then 0 else max 1 (sg_remaining i) + phase_bound cfg * phases_before d (sg_phase i))"

lemma phase_bound_pos: "1 \<le> phase_bound cfg"
  by (simp add: phase_bound_def)

lemma until_green_step:
  assumes inv: "signal_inv cfg i" and "\<not> sg_preempt i" "d = NS \<or> d = EW" "\<not> phaseAllows (sg_phase i) d"
  shows "until_green d cfg (signal_step i) < until_green d cfg i"
proof (cases "1 < sg_remaining i")
  case True
  then show ?thesis using signal_step_normal(1) [OF inv assms(2)] assms(4) by (simp add: until_green_def)
next
  case False
  have "sg_phase i \<noteq> NoPhase" using inv by (simp add: signal_inv_def)
  then show ?thesis using signal_step_normal(2) [OF inv assms(2)] False assms(3,4) phase_bound_pos [of cfg]
    by (cases "sg_phase i"; cases d) (auto simp: until_green_def phaseAllows_def)
qed

lemma until_green_bounds: "0 \<le> until_green d cfg i" "signal_inv cfg i \<Longrightarrow> until_green d cfg i \<le> 3 * phase_bound cfg"
  using phase_bound_pos [of cfg] by (cases d; cases "sg_phase i"; auto simp: until_green_def signal_inv_def phaseAllows_def)+

lemma green_unpreempted:
  assumes "signal_inv cfg i" "\<not> sg_preempt i" "d = NS \<or> d = EW" "until_green d cfg i \<le> steps_in ops" "\<not> list_ex is_preempt ops"
  shows "\<exists>s\<in>set (signal_states ops i). phaseAllows (sg_phase s) d"
  using assms
proof (induction ops arbitrary: i)
  case Nil
  then have "phaseAllows (sg_phase i) d" using phase_bound_pos [of cfg]
    by (cases d; cases "sg_phase i") (auto simp: until_green_def signal_inv_def split: if_splits)
  then show ?case by simp
next
  case (Cons x ops)
  have inv: "signal_inv cfg (signal_do x i)" using signal_do_inv [OF Cons.prems(1), of x] Cons.prems(5) by (cases x) simp_all
  show ?case
  proof (cases "phaseAllows (sg_phase i) d")
    case False
    have "until_green d cfg (signal_do x i) \<le> steps_in ops \<and> \<not> sg_preempt (signal_do x i)"
    proof (cases "x = SStep")
      case True
      then show ?thesis
        using until_green_step [OF Cons.prems(1-3) False] Cons.prems(4) signal_step_normal(3) [OF Cons.prems(1,2)] by simp
    next
      case x: False
      then have "until_green d cfg (signal_do x i) = until_green d cfg i \<and> \<not> sg_preempt (signal_do x i)" "steps_in (x # ops) = steps_in ops"
        using Cons.prems(2,5) by (cases x; simp add: until_green_def)+
      then show ?thesis using Cons.prems(4) by simp
    qed
    then show ?thesis using Cons.IH [OF inv _ Cons.prems(3)] Cons.prems(5) by simp
  qed simp
qed

lemma green_eventually:
  assumes "signal_inv cfg i" "d = NS \<or> d = EW" "\<not> list_ex is_preempt ops"
    "(if sg_preempt i then max 1 (sg_preemptRemain i) else 0) + 3 * phase_bound cfg \<le> steps_in ops"
  shows "\<exists>s\<in>set (signal_states ops i). phaseAllows (sg_phase s) d"
  using assms
proof (induction ops arbitrary: i)
  case Nil
  then show ?case using phase_bound_pos [of cfg] by (simp split: if_splits)
next
  case (Cons x ops)
  have inv: "signal_inv cfg (signal_do x i)" using signal_do_inv [OF Cons.prems(1), of x] Cons.prems(3) by (cases x) simp_all
  show ?case
  proof (cases "sg_preempt i")
    case False
    then have "until_green d cfg i \<le> steps_in (x # ops)"
      using until_green_bounds(2) [OF Cons.prems(1), of d] Cons.prems(4) by simp
    then show ?thesis by (rule green_unpreempted [OF Cons.prems(1) False Cons.prems(2) _ Cons.prems(3)])
  next
    case True
    have "(if sg_preempt (signal_do x i) then max 1 (sg_preemptRemain (signal_do x i)) else 0) + 3 * phase_bound cfg \<le> steps_in ops"
      using Cons.prems(3,4) True by (cases x) (simp_all add: signal_step_preempted [OF True] max_def split: if_splits)
    then show ?thesis using Cons.IH [OF inv Cons.prems(2)] Cons.prems(3) by simp
  qed
qed

section \<open>Preemption holds a phase\<close>

definition held :: "phase \<Rightarrow> signal \<Rightarrow> bool" where
  "held p i \<longleftrightarrow> sg_phase i = p \<and> (sg_preempt i \<longrightarrow> sg_preemptPhase i = p)"

lemma held_steps:
  "held p i \<Longrightarrow> sg_preempt i \<Longrightarrow> int m \<le> sg_preemptRemain i
    \<Longrightarrow> (\<forall>s\<in>set (signal_states (replicate m SStep) i). sg_phase s = p) \<and> held p (signal_after (replicate m SStep) i)"
proof (induction m arbitrary: i)
  case (Suc m)
  note P = signal_step_preempted [OF Suc.prems(2)]
  have h: "held p (signal_step i)" using Suc.prems(1,2) P by (simp add: held_def)
  show ?case
  proof (cases "m = 0")
    case True
    then show ?thesis using Suc.prems(1) h by (simp add: held_def)
  next
    case False
    then have "sg_preempt (signal_step i)" "int m \<le> sg_preemptRemain (signal_step i)" using Suc.prems(3) P by auto
    then show ?thesis using Suc.IH [OF h] Suc.prems(1) by (simp add: held_def)
  qed
qed (simp add: held_def)

lemma held_by_dispatches:
  assumes "int m \<le> t"
  shows "held p i \<Longrightarrow> \<forall>s\<in>set (signal_states (concat (replicate k (SPreempt p t # replicate m SStep))) i). sg_phase s = p"
proof (induction k arbitrary: i)
  case (Suc k)
  let ?i = "setPreempt i p t"
  have "held p ?i" "sg_preempt ?i" "int m \<le> sg_preemptRemain ?i" using Suc.prems assms by (simp_all add: held_def setPreempt_def)
  from held_steps [OF this] Suc.IH [of "signal_after (replicate m SStep) ?i"] Suc.prems
  show ?case by (auto simp: signal_states_append held_def)
qed (simp add: held_def)

text \<open>
  C28. Only preemption starves a direction.  From every state that a controller can reach by steps,
  queue operations and preemptions, within the rest of the preemption and three times the longest
  phase each of the two directions gets green, whatever the queues do, provided that no further
  preemption arrives.  With further ones it may never: a preemption takes effect in the next step, and as long as
  the same phase is preempted again every \<open>m\<close> steps, for \<open>t \<ge> m\<close> ticks each, the controller stays
  in it for ever.
\<close>

theorem starvation_only_by_preemption:
  assumes "0 \<le> MinGreenTicks cfg" "0 \<le> MaxGreenTicks cfg" "0 \<le> YellowTicks cfg"
    and "list_all op_ok before" "d = NS \<or> d = EW" "\<not> list_ex is_preempt ops"
    and "i = signal_after before (newIntersection n cfg)"
    and "(if sg_preempt i then max 1 (sg_preemptRemain i) else 0)
      + 3 * max 1 (max (max (MinGreenTicks cfg) (MaxGreenTicks cfg)) (YellowTicks cfg)) \<le> steps_in ops"
    and "p = PhaseGreenNS \<or> p = PhaseGreenEW" "int m \<le> t"
  shows "(\<exists>s\<in>set (signal_states ops i). phaseAllows (sg_phase s) d)
    \<and> (\<forall>s\<in>set (signal_states (concat (replicate k (SPreempt p t # replicate m SStep))) (signal_after [SPreempt p t, SStep] i)).
         sg_phase s = p)"
proof
  have inv: "signal_inv cfg i" using signal_after_inv [OF newIntersection_inv assms(4)] assms(7) by simp
  show "\<exists>s\<in>set (signal_states ops i). phaseAllows (sg_phase s) d"
    using green_eventually [OF inv assms(5,6)] assms(8) by (simp add: phase_bound_def)
  have "sg_preempt (setPreempt i p t)" by (simp add: setPreempt_def)
  from signal_step_preempted [OF this] have "held p (signal_after [SPreempt p t, SStep] i)"
    by (simp add: held_def) (simp add: setPreempt_def)
  from held_by_dispatches [OF assms(10) this]
  show "\<forall>s\<in>set (signal_states (concat (replicate k (SPreempt p t # replicate m SStep))) (signal_after [SPreempt p t, SStep] i)). sg_phase s = p" .
qed

theorem starvation_only_by_preemption_witness:
  "(\<exists>s\<in>set (signal_states (replicate 300 SStep) (signal_after [SPreempt PhaseGreenNS 60] (newIntersection 0 DefaultConfig))).
      phaseAllows (sg_phase s) EW)
   \<and> sg_phase (signal_after [SPreempt PhaseGreenNS 60, SStep] (signal_after [SPreempt PhaseGreenNS 60] (newIntersection 0 DefaultConfig)))
       = PhaseGreenNS"
proof -
  have s: "steps_in (replicate 300 SStep) = 300" by (simp add: steps_in_def)
  have cfg: "0 \<le> MinGreenTicks DefaultConfig" "0 \<le> MaxGreenTicks DefaultConfig" "0 \<le> YellowTicks DefaultConfig"
    "60 + 3 * max 1 (max (max (MinGreenTicks DefaultConfig) (MaxGreenTicks DefaultConfig)) (YellowTicks DefaultConfig)) \<le> 300"
    by (simp_all add: DefaultConfig_def)
  have np: "\<not> list_ex is_preempt (replicate 300 SStep)" by (simp add: list_ex_iff)
  have i: "sg_preempt (signal_after [SPreempt PhaseGreenNS 60] (newIntersection 0 DefaultConfig))"
    "sg_preemptRemain (signal_after [SPreempt PhaseGreenNS 60] (newIntersection 0 DefaultConfig)) = 60"
    by (simp_all add: setPreempt_def)
  show ?thesis
    using starvation_only_by_preemption [OF cfg(1-3), of "[SPreempt PhaseGreenNS 60]" EW "replicate 300 SStep"
        "signal_after [SPreempt PhaseGreenNS 60] (newIntersection 0 DefaultConfig)" 0 PhaseGreenNS 60 60 0]
      cfg(4) np s i by (simp del: signal_after_simps signal_do.simps)
qed

end
