(* ===== verification/Traffic_Correct.thy ===== *)
theory Traffic_Correct
  imports Traffic_Signals
begin

text \<open>
  The invariant of the simulation engine and its preservation by every operation and every
  turn of a goroutine: the road index is complete and its congestion in range, every
  vehicle follows a path along known roads and its state agrees with its position, the
  signal queues and the road occupancies count exactly the vehicles waiting and driving.
\<close>

section \<open>Counting vehicles\<close>

definition count_veh :: "('k \<rightharpoonup> 'v) \<Rightarrow> ('v \<Rightarrow> bool) \<Rightarrow> int" where
  "count_veh m P = int (card {k. \<exists>v. m k = Some v \<and> P v})"

lemma count_finite: "finite (dom m) \<Longrightarrow> finite {k. \<exists>v. m k = Some v \<and> P v}"
  by (rule finite_subset [of _ "dom m"]) auto

lemma count_nonneg [simp]: "0 \<le> count_veh m P"
  by (simp add: count_veh_def)

lemma count_empty [simp]: "count_veh Map.empty P = 0"
  by (simp add: count_veh_def)

lemma count_insert:
  assumes "finite (dom m)" "m k = None"
  shows "count_veh (m(k \<mapsto> v)) P = count_veh m P + of_bool (P v)"
proof -
  have "{q. \<exists>x. (m(k \<mapsto> v)) q = Some x \<and> P x} = {q. \<exists>x. m q = Some x \<and> P x} \<union> (if P v then {k} else {})"
    using assms(2) by auto
  then show ?thesis using count_finite [OF assms(1), of P] assms(2) by (simp add: count_veh_def)
qed

lemma count_update:
  assumes "finite (dom m)" "m k = Some w"
  shows "count_veh (m(k \<mapsto> v)) P = count_veh m P - of_bool (P w) + of_bool (P v)"
proof -
  have "m = (m(k := None))(k \<mapsto> w)" "m(k \<mapsto> v) = (m(k := None))(k \<mapsto> v)" using assms(2) by auto
  moreover have "finite (dom (m(k := None)))" using assms(1) by simp
  ultimately show ?thesis
    using count_insert [of "m(k := None)" k w P] count_insert [of "m(k := None)" k v P] by simp
qed

lemma count_pos: "finite (dom m) \<Longrightarrow> m k = Some v \<Longrightarrow> P v \<Longrightarrow> 1 \<le> count_veh m P"
  using card_gt_0_iff [of "{k. \<exists>v. m k = Some v \<and> P v}"] count_finite [of m P]
  by (auto simp: count_veh_def Suc_le_eq)

lemma count_le: "finite (dom m) \<Longrightarrow> count_veh m P \<le> int (card (dom m))"
  unfolding count_veh_def by (auto intro!: card_mono)

section \<open>Roads\<close>

text \<open>What the engine needs of a graph with \<open>n\<close> intersections.\<close>

definition road_measures :: "road \<Rightarrow> bool" where
  "road_measures r \<longleftrightarrow> 0 \<le> r_Distance r \<and> (\<exists>q. r_SpeedLimit r = Fin q)"

definition graph_ok :: "int \<Rightarrow> graph \<Rightarrow> bool" where
  "graph_ok n g \<longleftrightarrow>
     (\<forall>u. \<forall>e\<in>set (adj g u). 0 \<le> e_To e \<and> e_To e < n \<and> (\<forall>r. e_Road e = Some r \<longrightarrow> road_measures r))"

definition road_state_ok :: "int \<Rightarrow> road_state \<Rightarrow> bool" where
  "road_state_ok k rs \<longleftrightarrow>
     r_ID (rs_road rs) = k \<and> road_measures (rs_road rs)
     \<and> 1 \<le> rs_congestion rs \<and> rs_congestion rs \<le> 10
     \<and> rb_inv (rs_history rs) \<and> (\<forall>c\<in>set (rb_Items (rs_history rs)). 1 \<le> c \<and> c \<le> 10)"

definition roads_inv :: "engine \<Rightarrow> bool" where
  "roads_inv e \<longleftrightarrow>
     0 < NumIntersections (e_cfg e) \<and> graph_ok (NumIntersections (e_cfg e)) (e_graph e)
     \<and> (\<forall>u. \<forall>edge\<in>set (adj (e_graph e) u). \<forall>r. e_Road edge = Some r \<longrightarrow> e_roadByID e (r_ID r) \<noteq> None)
     \<and> (\<forall>k rs. e_roadByID e k = Some rs \<longrightarrow> road_state_ok k rs)"

lemma clamp_bounds: "1 \<le> clampCongestion v \<and> clampCongestion v \<le> 10"
  by (simp add: clampCongestion_def)

lemma rb_Items_Append_subset: "rb_inv r \<Longrightarrow> set (rb_Items (rb_Append r v)) \<subseteq> insert v (set (rb_Items r))"
  by (auto simp: rb_Items_Append dest: list.set_sel(2) split: if_splits)
    (metis empty_iff empty_set list.set_sel(2) tl_Nil)

lemma update_road_ok: "road_state_ok k rs \<Longrightarrow> road_state_ok k (update_road rs)"
  using clamp_bounds [of "2 + rs_occupancy rs div 5"] rb_Append_inv rb_Items_Append_subset
  by (fastforce simp: road_state_ok_def update_road_def Let_def)

lemma find_Some_in: "find P xs = Some x \<Longrightarrow> x \<in> set xs \<and> P x"
  by (auto simp: find_Some_iff)

text \<open>An edge of the view stands for an edge of the graph along a known road.\<close>

lemma view_edge_Some:
  "view_edge e avoid edge = Some e' \<Longrightarrow> e_To e' = e_To edge \<and> (\<exists>r rs. e_Road edge = Some r \<and> e_roadByID e (r_ID r) = Some rs
     \<and> (\<exists>r'. e_Road e' = Some r' \<and> r_SpeedLimit r' = r_SpeedLimit (rs_road rs)
          \<and> (r_Congestion r' = rs_congestion rs \<or> r_Congestion r' = 10)
          \<and> (r_Distance r' = r_Distance (rs_road rs) \<or> r_Distance r' = r_Distance (rs_road rs) * Fin 50)))"
  by (auto simp: view_edge_def Let_def split: option.splits)

lemma Neighbors_mem: "e' \<in> set (Neighbors (e, avoid) u) \<longleftrightarrow> (\<exists>edge\<in>set (adj (e_graph e) u). view_edge e avoid edge = Some e')"
  by (force simp: Neighbors_def List.map_filter_def)

lemma Neighbors_ok:
  assumes inv: "roads_inv e" and e': "e' \<in> set (Neighbors (e, avoid) u)"
  shows "edge_ok (NumIntersections (e_cfg e)) e'"
proof -
  obtain edge where edge: "edge \<in> set (adj (e_graph e) u)" "view_edge e avoid edge = Some e'"
    using e' by (auto simp: Neighbors_mem)
  obtain r rs r' where r: "e_Road edge = Some r" "e_roadByID e (r_ID r) = Some rs" "e_Road e' = Some r'" "e_To e' = e_To edge"
    "r_SpeedLimit r' = r_SpeedLimit (rs_road rs)" "r_Congestion r' = rs_congestion rs \<or> r_Congestion r' = 10"
    "r_Distance r' = r_Distance (rs_road rs) \<or> r_Distance r' = r_Distance (rs_road rs) * Fin 50"
    using view_edge_Some [OF edge(2)] by blast
  have rs: "road_state_ok (r_ID r) rs" using inv r(2) by (simp add: roads_inv_def)
  then have "road_ok r'" using r f64_times_pos [of "r_Distance (rs_road rs)" 50]
    by (auto simp: road_ok_def road_state_ok_def road_measures_def)
  then have "0 \<le> edge_weight e'" using WeightMinutes_nonneg r(3) by (simp add: edge_weight_def)
  moreover have "0 \<le> e_To edge \<and> e_To edge < NumIntersections (e_cfg e)"
    using inv edge(1) by (simp add: roads_inv_def graph_ok_def)
  ultimately show ?thesis using r by (simp add: edge_ok_def)
qed

interpretation engine_view: graph_reader view_Nodes Neighbors "\<lambda>g. roads_inv (fst g)"
proof unfold_locales
  show "roads_inv (fst g) \<Longrightarrow> 0 \<le> view_Nodes g" for g by (simp add: view_Nodes_def roads_inv_def)
  show "roads_inv (fst g) \<Longrightarrow> 0 \<le> u \<Longrightarrow> u < view_Nodes g \<Longrightarrow> e \<in> set (Neighbors g u) \<Longrightarrow> edge_ok (view_Nodes g) e" for g u e
    using Neighbors_ok [of "fst g" e "snd g" u] by (simp add: view_Nodes_def)
qed

section \<open>Paths of vehicles\<close>

definition hop_known :: "engine \<Rightarrow> int \<Rightarrow> int \<Rightarrow> bool" where
  "hop_known e a b \<longleftrightarrow> (\<exists>r. hop_road e a b = Some r \<and> e_roadByID e (r_ID r) \<noteq> None)"

lemma Neighbors_hop_known:
  assumes inv: "roads_inv e" and e': "e' \<in> set (Neighbors (e, avoid) u)" shows "hop_known e u (e_To e')"
proof -
  obtain edge where edge: "edge \<in> set (adj (e_graph e) u)" "view_edge e avoid edge = Some e'"
    using e' by (auto simp: Neighbors_mem)
  then have p: "e_To edge = e_To e' \<and> e_Road edge \<noteq> None" using view_edge_Some by fastforce
  let ?P = "\<lambda>edge. e_To edge = e_To e' \<and> e_Road edge \<noteq> None"
  obtain edge' where f: "find ?P (adj (e_graph e) u) = Some edge'"
    using edge(1) p by (cases "find ?P (adj (e_graph e) u)") (auto simp: find_None_iff)
  then obtain r where r: "e_Road edge' = Some r" "edge' \<in> set (adj (e_graph e) u)" using find_Some_in [OF f] by auto
  then have "e_roadByID e (r_ID r) \<noteq> None" using inv by (simp add: roads_inv_def)
  then show ?thesis using f r by (simp add: hop_known_def hop_road_def)
qed

lemma roadForHop_known: "roadForHop e a b \<noteq> None \<longleftrightarrow> hop_known e a b"
  by (auto simp: roadForHop_def hop_known_def Let_def split: option.splits)

lemma roadForHop_Some: "roadForHop e a b = Some (k, n) \<Longrightarrow> 1 \<le> n \<and> (\<exists>r. hop_road e a b = Some r \<and> k = r_ID r \<and> e_roadByID e k \<noteq> None)"
  by (auto simp: roadForHop_def Let_def split: option.splits)

definition path_ok :: "engine \<Rightarrow> int list \<Rightarrow> bool" where
  "path_ok e p \<longleftrightarrow> p \<noteq> [] \<and> distinct p \<and> (\<forall>x\<in>set p. 0 \<le> x \<and> x < NumIntersections (e_cfg e)) \<and> (\<forall>(a, b)\<in>set (hops p). hop_known e a b)"

lemma hops_nth: "Suc i < length p \<Longrightarrow> (p ! i, p ! Suc i) \<in> set (hops p)"
proof (induction p arbitrary: i rule: hops.induct)
  case (1 a b p)
  then show ?case by (cases i) auto
qed auto

lemma walk_hops: "walk nbrs u es v \<Longrightarrow> (a, b) \<in> set (hops (walk_nodes u es)) \<Longrightarrow> \<exists>e\<in>set (nbrs a). b = e_To e"
proof (induction es arbitrary: u)
  case (Cons e es)
  have "hops (walk_nodes u (e # es)) = (u, e_To e) # hops (walk_nodes (e_To e) es)" by (simp add: walk_nodes_def)
  then show ?case using Cons by auto
qed (simp add: walk_nodes_def)

text \<open>A computed route is a path from start to destination along known roads.\<close>

lemma route_ok:
  assumes inv: "roads_inv e" and "0 \<le> src" "src < NumIntersections (e_cfg e)" "0 \<le> dst" "dst < NumIntersections (e_cfg e)"
  shows "(\<exists>path w. route e src dst kind = Return (path, w) \<and> path_ok e path \<and> hd path = src \<and> last path = dst)
    \<or> route e src dst kind = Error NoRoute"
proof -
  let ?g = "(e, kind \<noteq> VehicleTypeEmergency)" and ?n = "NumIntersections (e_cfg e)"
  obtain res d where sp: "ShortestPath ?n (Neighbors ?g) src dst = Some (Inr (res, d))"
    "case res of None \<Rightarrow> d = PosInf | Some path \<Rightarrow> d \<noteq> PosInf
       \<and> (\<exists>es. walk (Neighbors ?g) src es dst \<and> path = walk_nodes src es \<and> distinct path \<and> walk_cost es = d)"
    using engine_view.ShortestPath_correct [of ?g src dst] assms by (auto simp: view_Nodes_def)
  show ?thesis
  proof (cases res)
    case None
    then show ?thesis using sp by (simp add: route_def view_Nodes_def)
  next
    case (Some path)
    then obtain es where es: "walk (Neighbors ?g) src es dst" "path = walk_nodes src es" "distinct path" "d \<noteq> PosInf"
      using sp(2) by auto
    have range: "x \<in> {0..<?n}" if "x \<in> set path" for x
      using engine_view.walk_nodes_in [of ?g src es dst x] es that assms by (simp add: view_Nodes_def)
    have "hop_known e a b" if h: "(a, b) \<in> set (hops path)" for a b
    proof -
      obtain e' where "e' \<in> set (Neighbors ?g a)" "b = e_To e'" using walk_hops [OF es(1)] h es(2) by blast
      then show ?thesis using Neighbors_hop_known [OF inv] by blast
    qed
    then have "path_ok e path" using range es by (auto simp: path_ok_def walk_nodes_def)
    moreover have "hd path = src" "last path = dst" using es walk_nodes_last [OF es(1)] by (auto simp: walk_nodes_def)
    ultimately show ?thesis using sp(1) Some es(4) by (simp add: route_def view_Nodes_def)
  qed
qed

section \<open>The invariant\<close>

definition vehicle_ok :: "engine \<Rightarrow> vehicle \<Rightarrow> bool" where
  "vehicle_ok e v \<longleftrightarrow>
     path_ok e (v_path v) \<and> v_idx v < length (v_path v) \<and> last (v_path v) = v_to v
     \<and> (case v_state v of
          AtIntersection \<Rightarrow> v_at v = v_path v ! v_idx v \<and> \<not> v_queued v
        | WaitingSignal \<Rightarrow> v_at v = v_path v ! v_idx v \<and> v_at v \<noteq> v_to v \<and> v_queued v
            \<and> v_queuedGroup v = movementDirection (v_path v ! v_idx v) (v_path v ! Suc (v_idx v))
        | OnRoad \<Rightarrow> 0 < v_idx v \<and> \<not> v_queued v \<and> 1 \<le> v_remainingRoad v
            \<and> (\<exists>r. hop_road e (v_path v ! (v_idx v - 1)) (v_path v ! v_idx v) = Some r \<and> v_onRoadID v = r_ID r)
        | VehicleArrived \<Rightarrow> v_at v = v_to v \<and> \<not> v_queued v)"

definition waiting :: "int \<Rightarrow> direction \<Rightarrow> vehicle \<Rightarrow> bool" where
  "waiting i d v \<longleftrightarrow> v_queued v \<and> v_queuedGroup v = d \<and> v_path v ! v_idx v = i"

definition driving :: "int \<Rightarrow> vehicle \<Rightarrow> bool" where
  "driving k v \<longleftrightarrow> v_state v = OnRoad \<and> v_onRoadID v = k"

definition queues_inv :: "engine \<Rightarrow> bool" where
  "queues_inv e \<longleftrightarrow>
     (\<forall>i. e_signals e i \<noteq> None \<longleftrightarrow> 0 \<le> i \<and> i < NumIntersections (e_cfg e))
     \<and> (\<forall>i s. e_signals e i = Some s \<longrightarrow>
          sg_queueNS s = count_veh (e_vehicles e) (waiting i NS) \<and> sg_queueEW s = count_veh (e_vehicles e) (waiting i EW))"

definition occupancy_inv :: "engine \<Rightarrow> bool" where
  "occupancy_inv e \<longleftrightarrow> (\<forall>k rs. e_roadByID e k = Some rs \<longrightarrow> rs_occupancy rs = count_veh (e_vehicles e) (driving k))"

definition engine_inv :: "engine \<Rightarrow> bool" where
  "engine_inv e \<longleftrightarrow>
     roads_inv e \<and> finite (dom (e_vehicles e))
     \<and> (\<forall>p v. e_vehicles e p = Some v \<longrightarrow> v_plate v = p \<and> vehicle_ok e v)
     \<and> queues_inv e \<and> occupancy_inv e"

lemma engine_invD:
  assumes "engine_inv e"
  shows "roads_inv e" "finite (dom (e_vehicles e))" "e_vehicles e p = Some v \<Longrightarrow> vehicle_ok e v"
    "e_vehicles e p = Some v \<Longrightarrow> v_plate v = p" "queues_inv e" "occupancy_inv e"
  using assms by (auto simp: engine_inv_def)

text \<open>What the paths of vehicles depend on.\<close>

definition same_net :: "engine \<Rightarrow> engine \<Rightarrow> bool" where
  "same_net e e' \<longleftrightarrow> e_cfg e' = e_cfg e \<and> e_graph e' = e_graph e \<and> (\<forall>k. e_roadByID e' k = None \<longleftrightarrow> e_roadByID e k = None)"

lemma same_net_hop:
  assumes "same_net e e'" shows "hop_road e' a b = hop_road e a b" "hop_known e' a b = hop_known e a b"
    "path_ok e' p = path_ok e p" "vehicle_ok e' v = vehicle_ok e v"
proof -
  show h: "hop_road e' a b = hop_road e a b" for a b using assms by (simp add: same_net_def hop_road_def)
  show k: "hop_known e' a b = hop_known e a b" for a b
    using assms h by (simp add: same_net_def hop_known_def del: not_None_eq)
  show p: "path_ok e' p = path_ok e p" for p using assms k by (simp add: path_ok_def same_net_def)
  show "vehicle_ok e' v = vehicle_ok e v" by (simp add: vehicle_ok_def p h cong: vehicle_state.case_cong)
qed

lemma same_net_roads_inv:
  "roads_inv e \<Longrightarrow> same_net e e' \<Longrightarrow> \<forall>k rs. e_roadByID e' k = Some rs \<longrightarrow> road_state_ok k rs \<Longrightarrow> roads_inv e'"
  by (simp add: roads_inv_def same_net_def del: not_None_eq)

section \<open>New\<close>

lemma index_roads_known:
  "(\<exists>edge\<in>set es. \<exists>r. e_Road edge = Some r \<and> r_ID r = k) \<or> m k \<noteq> None \<Longrightarrow> fold (index_road ring) es m k \<noteq> None"
proof (induction es arbitrary: m)
  case (Cons e es)
  have "(\<exists>edge\<in>set es. \<exists>r. e_Road edge = Some r \<and> r_ID r = k) \<or> index_road ring e m k \<noteq> None"
    using Cons.prems by (auto simp: index_road_def split: option.splits)
  then show ?case using Cons.IH by simp
qed simp

lemma index_roads_ok:
  assumes "\<forall>edge\<in>set es. \<forall>r. e_Road edge = Some r \<longrightarrow> road_measures r"
    and "\<forall>k rs. m k = Some rs \<longrightarrow> road_state_ok k rs \<and> rs_occupancy rs = 0" and "rb_inv ring" "rb_Items ring = []"
  shows "fold (index_road ring) es m k = Some rs \<Longrightarrow> road_state_ok k rs \<and> rs_occupancy rs = 0"
  using assms(1,2)
proof (induction es arbitrary: m)
  case (Cons e es)
  have "\<forall>k rs. index_road ring e m k = Some rs \<longrightarrow> road_state_ok k rs \<and> rs_occupancy rs = 0"
    using Cons.prems(2,3) assms(3,4) clamp_bounds
    by (auto simp: index_road_def road_state_ok_def split: option.splits if_splits)
  then show ?case using Cons.IH [of "index_road ring e m"] Cons.prems(1,2) by simp
qed simp

lemma New_inv:
  assumes "New order cfg (Some g) True = Return e" "graph_ok (NumIntersections cfg) g" "set order = dom (g_Adj g)"
  shows "engine_inv e \<and> e_cfg e = cfg \<and> e_graph e = g \<and> e_tickN e = 0 \<and> e_vehicles e = Map.empty \<and> \<not> e_tickClosed e"
proof -
  obtain ring where ring: "NewRingBuffer 0 (HistoryWindow cfg) = Some ring" and n: "0 < NumIntersections cfg"
    and e: "e = \<lparr>e_cfg = cfg, e_graph = g,
       e_signals = (\<lambda>i. if 0 \<le> i \<and> i < NumIntersections cfg then Some (newIntersection i cfg) else None),
       e_vehicles = Map.empty, e_roadByID = fold (index_road ring) (concat (map (adj g) order)) Map.empty,
       e_roadOnCorr = {}, e_emergencyUntilTick = 0, e_tickN = 0, e_tickClosed = False\<rparr>"
    using assms(1) by (auto simp: New_def split: if_splits option.splits)
  have ri: "rb_inv ring" "rb_Items ring = []" using NewRingBuffer_inv [OF ring] by auto
  let ?es = "concat (map (adj g) order)"
  have all: "edge \<in> set ?es" if "edge \<in> set (adj g u)" for edge u
  proof -
    have "u \<in> dom (g_Adj g)" using that by (cases "g_Adj g u") (auto simp: adj_def)
    then show ?thesis using that assms(3) by auto
  qed
  have rs: "road_state_ok k rs \<and> rs_occupancy rs = 0" if "e_roadByID e k = Some rs" for k rs
    using index_roads_ok [of ?es Map.empty ring k rs] that assms(2) ri e by (auto simp: graph_ok_def)
  have "e_roadByID e (r_ID r) \<noteq> None" if "edge \<in> set (adj g u)" "e_Road edge = Some r" for u edge r
    using index_roads_known [of ?es "r_ID r" Map.empty ring] all [OF that(1)] that(2) e by auto
  then have "roads_inv e" using n assms(2) rs by (simp add: roads_inv_def e)
  moreover have "occupancy_inv e" using rs by (simp add: occupancy_inv_def) (simp add: e)
  moreover have "queues_inv e" by (simp add: queues_inv_def e newIntersection_def)
  ultimately show ?thesis by (simp add: engine_inv_def) (simp add: e)
qed

section \<open>Ticks and the public operations\<close>

lemma engine_inv_frame:
  assumes "engine_inv e" "e_cfg e' = e_cfg e" "e_graph e' = e_graph e" "e_roadByID e' = e_roadByID e"
    "e_vehicles e' = e_vehicles e" "e_signals e' = e_signals e"
  shows "engine_inv e'"
proof -
  have net: "same_net e e'" using assms by (simp add: same_net_def)
  show ?thesis using assms(1) unfolding engine_inv_def roads_inv_def queues_inv_def occupancy_inv_def
    by (simp add: assms(2-6) same_net_hop(4) [OF net])
qed

lemma engine_inv_tick: "engine_inv e \<Longrightarrow> engine_inv (e\<lparr>e_tickN := n\<rparr>)" "engine_inv e \<Longrightarrow> engine_inv (e\<lparr>e_tickClosed := c\<rparr>)"
  by (erule engine_inv_frame; simp)+

text \<open>A change of the signals that leaves their queues alone.\<close>

lemma engine_inv_signals:
  assumes "engine_inv e" "\<And>i. rel_option (\<lambda>s s'. sg_queueNS s' = sg_queueNS s \<and> sg_queueEW s' = sg_queueEW s) (e_signals e i) (ss i)"
  shows "engine_inv (e\<lparr>e_signals := ss\<rparr>)"
proof -
  have ss: "ss i \<noteq> None \<longleftrightarrow> e_signals e i \<noteq> None"
    "ss i = Some s \<Longrightarrow> \<exists>s0. e_signals e i = Some s0 \<and> sg_queueNS s = sg_queueNS s0 \<and> sg_queueEW s = sg_queueEW s0" for i s
    using assms(2) [of i] by (auto simp: option_rel_Some1 option_rel_Some2 elim: option.rel_cases)
  have "queues_inv (e\<lparr>e_signals := ss\<rparr>)" using engine_invD(5) [OF assms(1)] ss by (fastforce simp: queues_inv_def)
  moreover have "same_net e (e\<lparr>e_signals := ss\<rparr>)" by (simp add: same_net_def)
  ultimately show ?thesis using assms(1) same_net_hop(4) [of e "e\<lparr>e_signals := ss\<rparr>"]
    by (simp add: engine_inv_def roads_inv_def occupancy_inv_def)
qed

lemma updateCongestion_inv: "engine_inv e \<Longrightarrow> engine_inv (updateCongestion n e)"
proof -
  assume inv: "engine_inv e"
  let ?e = "updateCongestion n e"
  have f: "e_vehicles ?e = e_vehicles e" "e_signals ?e = e_signals e" "e_roadByID ?e = (\<lambda>k. map_option update_road (e_roadByID e k))"
    "e_cfg ?e = e_cfg e" "e_graph ?e = e_graph e"
    by (simp_all add: updateCongestion_def Let_def)
  then have net: "same_net e ?e" by (simp add: same_net_def)
  have "\<forall>k rs. e_roadByID ?e k = Some rs \<longrightarrow> road_state_ok k rs"
    using engine_invD(1) [OF inv] update_road_ok f(3) by (auto simp: roads_inv_def)
  then have "roads_inv ?e" by (rule same_net_roads_inv [OF engine_invD(1) [OF inv] net])
  moreover have "occupancy_inv ?e" using engine_invD(6) [OF inv] f(1,3)
    by (auto simp: occupancy_inv_def update_road_def Let_def)
  moreover have "queues_inv ?e" using engine_invD(5) [OF inv] by (simp add: queues_inv_def f)
  ultimately show ?thesis using inv same_net_hop(4) [OF net] f(1) by (simp add: engine_inv_def)
qed

lemma preempt_hop_rel:
  "rel_option (\<lambda>s s'. sg_queueNS s' = sg_queueNS s \<and> sg_queueEW s' = sg_queueEW s) (ss i) (preempt_hop cfg h ss i)"
  by (auto simp: preempt_hop_def setPreempt_def option.rel_refl split: option.splits)

lemma preempt_hops_rel:
  "rel_option (\<lambda>s s'. sg_queueNS s' = sg_queueNS s \<and> sg_queueEW s' = sg_queueEW s) (ss i) (fold (preempt_hop cfg) hs ss i)"
proof (induction hs arbitrary: ss)
  case (Cons h hs)
  show ?case using preempt_hop_rel [of ss i cfg h] Cons.IH [of "preempt_hop cfg h ss"]
    by (auto simp: option_rel_Some1 option_rel_Some2 elim!: option.rel_cases)
qed (simp add: option.rel_refl)

lemma setEmergencyCorridor_inv: "engine_inv e \<Longrightarrow> engine_inv (setEmergencyCorridor path e)"
proof -
  assume inv: "engine_inv e"
  let ?e = "e\<lparr>e_emergencyUntilTick := wrap64 (e_tickN e + PreemptionTicks (e_cfg e)),
              e_roadOnCorr := fold (mark_hop (e_graph e)) (hops path) {}\<rparr>"
  have "engine_inv ?e" by (rule engine_inv_frame [OF inv]) simp_all
  then have "engine_inv (?e\<lparr>e_signals := fold (preempt_hop (e_cfg e)) (hops path) (e_signals e)\<rparr>)"
    by (rule engine_inv_signals) (simp add: preempt_hops_rel)
  then show ?thesis using inv by (simp add: setEmergencyCorridor_def)
qed

lemma RegisterVehicle_cases:
  assumes inv: "engine_inv e"
  obtains (refused) err where "RegisterVehicle c req e = (Error err, e)"
  | (accepted) path w kind where
      "RegisterVehicle c req e = (Return (path, w), e\<lparr>e_vehicles := (e_vehicles e)(rq_Plate req \<mapsto> new_vehicle (req\<lparr>rq_Type := kind\<rparr>) path)\<rparr>)"
      "path_ok e path" "hd path = rq_From req" "last path = rq_To req" "e_vehicles e (rq_Plate req) = None"
proof -
  let ?n = "NumIntersections (e_cfg e)"
  define k where "k = (if rq_Type req = '''' then VehicleTypeNormal else rq_Type req)"
  let ?req = "req\<lparr>rq_Type := k\<rparr>"
  have req: "(if rq_Type req = '''' then req\<lparr>rq_Type := VehicleTypeNormal\<rparr> else req) = ?req" by (simp add: k_def)
  have sel: "rq_Plate ?req = rq_Plate req" "rq_From ?req = rq_From req" "rq_To ?req = rq_To req" "rq_Type ?req = k" by simp_all
  show ?thesis
  proof (cases "c \<or> rq_Plate req = '''' \<or> rq_From req < 0 \<or> ?n \<le> rq_From req \<or> rq_To req < 0 \<or> ?n \<le> rq_To req
      \<or> (k \<noteq> VehicleTypeNormal \<and> k \<noteq> VehicleTypeEmergency)")
    case True
    then have "\<exists>err. RegisterVehicle c req e = (Error err, e)" unfolding RegisterVehicle_def Let_def req by auto
    then show ?thesis using refused by blast
  next
    case False
    then have r: "(\<exists>path w. route e (rq_From req) (rq_To req) k = Return (path, w) \<and> path_ok e path
        \<and> hd path = rq_From req \<and> last path = rq_To req) \<or> route e (rq_From req) (rq_To req) k = Error NoRoute"
      using route_ok [OF engine_invD(1) [OF inv]] by simp
    have unf: "RegisterVehicle c req e = (case route e (rq_From req) (rq_To req) k of
        Return (path, eta) \<Rightarrow>
          if e_vehicles e (rq_Plate req) \<noteq> None then (Error VehicleExists, e)
          else (Return (path, eta), e\<lparr>e_vehicles := (e_vehicles e)(rq_Plate req \<mapsto> new_vehicle ?req path)\<rparr>)
      | Error err \<Rightarrow> (Error err, e) | Panic p \<Rightarrow> (Panic p, e) | Diverges \<Rightarrow> (Diverges, e))"
      using False unfolding RegisterVehicle_def Let_def req sel by auto
    from r show ?thesis
    proof
      assume "route e (rq_From req) (rq_To req) k = Error NoRoute"
      then show ?thesis using refused [of NoRoute] unf by simp
    next
      assume "\<exists>path w. route e (rq_From req) (rq_To req) k = Return (path, w) \<and> path_ok e path
        \<and> hd path = rq_From req \<and> last path = rq_To req"
      then obtain path w where p: "route e (rq_From req) (rq_To req) k = Return (path, w)" "path_ok e path"
        "hd path = rq_From req" "last path = rq_To req" by blast
      show ?thesis
      proof (cases "e_vehicles e (rq_Plate req) = None")
        case True
        then show ?thesis using accepted [of path w k] unf p by simp
      next
        case False
        then show ?thesis using refused [of VehicleExists] unf p(1) by simp
      qed
    qed
  qed
qed

lemma new_vehicle_ok:
  assumes "path_ok e path" "hd path = rq_From req" "last path = rq_To req"
  shows "vehicle_ok e (new_vehicle req path)"
  using assms by (simp add: vehicle_ok_def new_vehicle_def path_ok_def hd_conv_nth)

lemma RegisterVehicle_inv:
  assumes inv: "engine_inv e" shows "engine_inv (snd (RegisterVehicle c req e))"
proof (cases rule: RegisterVehicle_cases [OF inv, of c req, case_names refused accepted])
  case (accepted path w kind)
  let ?v = "new_vehicle (req\<lparr>rq_Type := kind\<rparr>) path"
  let ?e = "e\<lparr>e_vehicles := (e_vehicles e)(rq_Plate req \<mapsto> ?v)\<rparr>"
  note D = engine_invD [OF inv]
  have net: "same_net e ?e" by (simp add: same_net_def)
  have ok: "vehicle_ok e ?v" using new_vehicle_ok [of e path "req\<lparr>rq_Type := kind\<rparr>"] accepted by simp
  have idle: "\<not> waiting i d ?v" "\<not> driving k ?v" for i d k by (simp_all add: waiting_def driving_def new_vehicle_def)
  have cnt: "count_veh ((e_vehicles e)(rq_Plate req \<mapsto> ?v)) (waiting i d) = count_veh (e_vehicles e) (waiting i d)"
    "count_veh ((e_vehicles e)(rq_Plate req \<mapsto> ?v)) (driving k) = count_veh (e_vehicles e) (driving k)" for i d k
    using count_insert [OF D(2) accepted(5)] idle by simp_all
  have "roads_inv ?e" using D(1) by (simp add: roads_inv_def)
  moreover have "queues_inv ?e" using D(5) by (simp add: queues_inv_def cnt)
  moreover have "occupancy_inv ?e" using D(6) by (simp add: occupancy_inv_def cnt)
  moreover have "v_plate v = p \<and> vehicle_ok ?e v" if "e_vehicles ?e p = Some v" for p v
    using that D(3,4) ok same_net_hop(4) [OF net] by (auto simp: new_vehicle_def split: if_splits)
  ultimately have "engine_inv ?e" using D(2) by (simp add: engine_inv_def)
  then show ?thesis using accepted(1) by simp
qed (use inv in simp)

lemma DispatchEmergency_inv: "engine_inv e \<Longrightarrow> engine_inv (snd (DispatchEmergency c plate src dst e))"
proof -
  assume inv: "engine_inv e"
  have "engine_inv (snd (RegisterVehicle False req (setEmergencyCorridor path e)))" for req path
    using RegisterVehicle_inv setEmergencyCorridor_inv inv by blast
  then show ?thesis using inv
    by (auto simp: DispatchEmergency_def Let_def split: outcome.splits prod.splits) (metis snd_conv)+
qed

section \<open>One turn of a vehicle\<close>

definition put :: "string \<Rightarrow> vehicle \<Rightarrow> engine \<Rightarrow> engine" where
  "put p v e = e\<lparr>e_vehicles := (e_vehicles e)(p \<mapsto> v)\<rparr>"

lemma put_simps [simp]:
  "e_vehicles (put p v e) = (e_vehicles e)(p \<mapsto> v)" "e_cfg (put p v e) = e_cfg e" "e_graph (put p v e) = e_graph e"
  "e_signals (put p v e) = e_signals e" "e_roadByID (put p v e) = e_roadByID e" "e_tickN (put p v e) = e_tickN e"
  "e_tickClosed (put p v e) = e_tickClosed e"
  by (simp_all add: put_def)

text \<open>
  When a vehicle changes from \<open>w\<close> to \<open>v\<close>, the counters of the queues and roads it leaves
  and enters move with it.
\<close>

definition shift_road :: "vehicle \<Rightarrow> vehicle \<Rightarrow> int \<Rightarrow> road_state \<Rightarrow> road_state" where
  "shift_road w v k rs = rs\<lparr>rs_occupancy := rs_occupancy rs - of_bool (driving k w) + of_bool (driving k v)\<rparr>"

definition shift_signal :: "vehicle \<Rightarrow> vehicle \<Rightarrow> int \<Rightarrow> signal \<Rightarrow> signal" where
  "shift_signal w v i s = s\<lparr>sg_queueNS := sg_queueNS s - of_bool (waiting i NS w) + of_bool (waiting i NS v),
     sg_queueEW := sg_queueEW s - of_bool (waiting i EW w) + of_bool (waiting i EW v)\<rparr>"

lemma put_inv:
  assumes inv: "engine_inv e" and w: "e_vehicles e p = Some w" and v: "v_plate v = p" "vehicle_ok e v"
    and e': "e_cfg e' = e_cfg e" "e_graph e' = e_graph e" "e_vehicles e' = e_vehicles e"
      "\<And>k. e_roadByID e' k = map_option (shift_road w v k) (e_roadByID e k)"
      "\<And>i. e_signals e' i = map_option (shift_signal w v i) (e_signals e i)"
  shows "engine_inv (put p v e')"
proof -
  note D = engine_invD [OF inv]
  have net: "same_net e (put p v e')" by (simp add: same_net_def e')
  have cnt: "count_veh ((e_vehicles e)(p \<mapsto> v)) P = count_veh (e_vehicles e) P - of_bool (P w) + of_bool (P v)" for P
    using count_update [OF D(2) w] .
  have "\<forall>k rs. e_roadByID (put p v e') k = Some rs \<longrightarrow> road_state_ok k rs"
    using D(1) by (auto simp: e' roads_inv_def shift_road_def road_state_ok_def)
  then have "roads_inv (put p v e')" by (rule same_net_roads_inv [OF D(1) net])
  moreover have "queues_inv (put p v e')"
    using D(5) by (auto simp: queues_inv_def e' cnt shift_signal_def)
  moreover have "occupancy_inv (put p v e')"
    using D(6) by (auto simp: occupancy_inv_def e' cnt shift_road_def)
  moreover have "v_plate x = q \<and> vehicle_ok (put p v e') x" if "e_vehicles (put p v e') q = Some x" for q x
    using that D(3,4) v same_net_hop(4) [OF net] by (auto simp: e' split: if_splits)
  ultimately show ?thesis using D(2) by (simp add: engine_inv_def e')
qed

lemma shift_same: "(\<And>k. driving k v = driving k w) \<Longrightarrow> shift_road w v k = id"
  "(\<And>i d. waiting i d v = waiting i d w) \<Longrightarrow> shift_signal w v i = id"
  by (simp_all add: shift_road_def shift_signal_def fun_eq_iff)

text \<open>A change of the vehicle that moves no counter.\<close>

lemma put_inv_quiet:
  assumes "engine_inv e" "e_vehicles e p = Some w" "v_plate v = p" "vehicle_ok e v"
    "\<And>k. driving k v = driving k w" "\<And>i d. waiting i d v = waiting i d w"
  shows "engine_inv (put p v e)"
  by (rule put_inv [OF assms(1-4)]) (simp_all add: shift_same(1) [OF assms(5)] shift_same(2) [OF assms(6)] option.map_id)

lemma road_leave_shift:
  assumes inv: "engine_inv e" and w: "e_vehicles e p = Some w" "driving k0 w" and v: "\<And>k. \<not> driving k v"
  shows "road_leave k0 (e_roadByID e) k = map_option (shift_road w v k) (e_roadByID e k)"
proof -
  have only: "driving k w \<longleftrightarrow> k = k0" for k using w(2) by (auto simp: driving_def)
  have "0 < rs_occupancy rs" if "e_roadByID e k0 = Some rs" for rs
    using count_pos [where P = "driving k0", OF engine_invD(2) [OF inv] w] engine_invD(6) [OF inv] that by (simp add: occupancy_inv_def)
  then show ?thesis using v only
    by (cases "e_roadByID e k0"; cases "e_roadByID e k") (auto simp: road_leave_def shift_road_def)
qed

lemma road_enter_shift:
  assumes w: "\<And>k. \<not> driving k w" and v: "\<And>k. driving k v \<longleftrightarrow> k = k0"
  shows "road_enter k0 roads k = map_option (shift_road w v k) (roads k)"
  using assms by (cases "roads k0"; cases "roads k") (auto simp: road_enter_def shift_road_def)

lemma enqueue_shift:
  assumes "\<And>i d. \<not> waiting i d w" "\<And>i d. waiting i d v \<longleftrightarrow> i = i0 \<and> d = d0" "d0 = NS \<or> d0 = EW" "ss i0 = Some s"
  shows "(ss(i0 \<mapsto> enqueue s d0)) i = map_option (shift_signal w v i) (ss i)"
  using assms by (cases "ss i") (auto simp: enqueue_def shift_signal_def)

lemma dequeue_shift:
  assumes inv: "engine_inv e" and w: "e_vehicles e p = Some w" "\<And>i d. waiting i d w \<longleftrightarrow> i = i0 \<and> d = d0"
    and v: "\<And>i d. \<not> waiting i d v" and d: "d0 = NS \<or> d0 = EW" and s: "e_signals e i0 = Some s"
  shows "((e_signals e)(i0 \<mapsto> dequeue s d0)) i = map_option (shift_signal w v i) (e_signals e i)"
proof -
  have "1 \<le> count_veh (e_vehicles e) (waiting i0 d0)"
    using count_pos [where P = "waiting i0 d0", OF engine_invD(2) [OF inv] w(1)] w(2) by simp
  moreover have "sg_queueNS s = count_veh (e_vehicles e) (waiting i0 NS)" "sg_queueEW s = count_veh (e_vehicles e) (waiting i0 EW)"
    using engine_invD(5) [OF inv] s by (simp_all add: queues_inv_def)
  ultimately show ?thesis using w(2) v d s by (cases "e_signals e i") (auto simp: dequeue_def shift_signal_def)
qed

text \<open>The end of a road.\<close>

lemma finish_road_inv:
  assumes inv: "engine_inv e" and w: "e_vehicles e p = Some w" "v_state w = OnRoad"
  shows "\<exists>v e'. finish_road (w\<lparr>v_remainingRoad := n\<rparr>) e = Inr (v, e') \<and> engine_inv (put p v e') \<and> v_state v = AtIntersection
    \<and> e_vehicles e' = e_vehicles e"
proof -
  let ?v = "leaveQueue (w\<lparr>v_remainingRoad := n, v_onRoadID := 0, v_at := v_path w ! v_idx w, v_state := AtIntersection\<rparr>)"
  let ?e = "e\<lparr>e_roadByID := road_leave (v_onRoadID w) (e_roadByID e)\<rparr>"
  have ok: "vehicle_ok e w" "v_plate w = p" using engine_invD(3,4) [OF inv w(1)] by auto
  then have fin: "finish_road (w\<lparr>v_remainingRoad := n\<rparr>) e = Inr (?v, ?e)"
    by (simp add: finish_road_def at_ix_def vehicle_ok_def)
  have drive: "driving (v_onRoadID w) w" "\<not> driving k ?v" for k using w(2) by (auto simp: driving_def leaveQueue_def)
  have "\<not> waiting i d w" "\<not> waiting i d ?v" for i d using ok w(2) by (auto simp: waiting_def vehicle_ok_def leaveQueue_def)
  then have sig: "shift_signal w ?v i = id" for i by (intro shift_same) simp
  have "vehicle_ok e ?v" "v_plate ?v = p" using ok w(2) by (auto simp: vehicle_ok_def leaveQueue_def)
  then have "engine_inv (put p ?v ?e)"
    using road_leave_shift [OF inv w(1) drive(1), of ?v] drive(2)
    by (intro put_inv [OF inv w(1)]) (simp_all add: sig option.map_id)
  then show ?thesis using fin by (auto simp: leaveQueue_def)
qed

text \<open>The decision at an intersection, for a vehicle that stands or waits there.\<close>

lemma hold_inv:
  assumes inv: "engine_inv e" and w: "e_vehicles e p = Some w" "v_state w = AtIntersection \<or> v_state w = WaitingSignal"
    and here: "v_at w \<noteq> v_to w" "\<not> length (v_path w) \<le> v_idx w + 1"
    and s: "e_signals e (v_path w ! v_idx w) = Some s"
    and d: "d = movementDirection (v_path w ! v_idx w) (v_path w ! (v_idx w + 1))"
    and h: "hold w (v_path w ! v_idx w) d s e = (v, e')"
  shows "engine_inv (put p v e')"
proof -
  have ok: "vehicle_ok e w" "v_plate w = p" using engine_invD(3,4) [OF inv w(1)] by auto
  have dd: "d = NS \<or> d = EW" by (simp add: d movementDirection_def)
  show ?thesis
  proof (cases "v_queued w")
    case True
    then have v: "v = w\<lparr>v_state := WaitingSignal\<rparr>" "e' = e" using h by (auto simp: hold_def)
    have "v_state w = WaitingSignal" using True w(2) ok by (auto simp: vehicle_ok_def)
    then have "v = w" using v(1) by simp
    then show ?thesis using inv w(1) v(2) by (simp add: put_def fun_upd_idem)
  next
    case False
    then have v: "v = w\<lparr>v_queued := True, v_queuedGroup := d, v_state := WaitingSignal\<rparr>"
      and e': "e' = e\<lparr>e_signals := (e_signals e)(v_path w ! v_idx w \<mapsto> enqueue s d)\<rparr>" using h by (auto simp: hold_def)
    have st: "v_state w = AtIntersection" using False w(2) ok by (auto simp: vehicle_ok_def)
    have "\<not> driving k w" "\<not> driving k v" for k using st v by (auto simp: driving_def)
    then have dr: "shift_road w v k = id" for k by (intro shift_same) simp
    have wt: "\<not> waiting i x w" "waiting i x v \<longleftrightarrow> i = v_path w ! v_idx w \<and> x = d" for i x
      using False v by (auto simp: waiting_def)
    have "vehicle_ok e v" "v_plate v = p" using ok here st d v by (auto simp: vehicle_ok_def)
    then show ?thesis
      using enqueue_shift [OF wt dd, of "e_signals e" s] s
      by (intro put_inv [OF inv w(1)]) (simp_all add: e' dr option.map_id)
  qed
qed

lemma roadForHop_signals [simp]: "roadForHop (e\<lparr>e_signals := ss\<rparr>) a b = roadForHop e a b"
  by (simp add: roadForHop_def hop_road_def cong: option.case_cong)

lemma cross_inv:
  assumes inv: "engine_inv e" and w: "e_vehicles e p = Some w" "v_state w = AtIntersection \<or> v_state w = WaitingSignal"
    and here: "\<not> length (v_path w) \<le> v_idx w + 1" and s: "e_signals e (v_path w ! v_idx w) = Some s"
    and c: "cross w (v_path w ! v_idx w) (v_path w ! (v_idx w + 1)) s e = (v, e')"
  shows "engine_inv (put p v e')" "v_state v = OnRoad"
proof -
  let ?a = "v_path w ! v_idx w" and ?b = "v_path w ! (v_idx w + 1)"
  have ok: "vehicle_ok e w" "v_plate w = p" using engine_invD(3,4) [OF inv w(1)] by auto
  have "(?a, ?b) \<in> set (hops (v_path w))" using hops_nth [of "v_idx w" "v_path w"] here by simp
  then have "hop_known e ?a ?b" using ok(1) by (auto simp: vehicle_ok_def path_ok_def)
  then obtain k t where kt: "roadForHop e ?a ?b = Some (k, t)" using roadForHop_known by fastforce
  then obtain r where r: "hop_road e ?a ?b = Some r" "k = r_ID r" "1 \<le> t" using roadForHop_Some [OF kt] by auto
  let ?v = "(leaveQueue w)\<lparr>v_onRoadID := k, v_remainingRoad := t, v_state := OnRoad, v_idx := v_idx w + 1\<rparr>"
  let ?v' = "w\<lparr>v_onRoadID := k, v_remainingRoad := t, v_state := OnRoad, v_idx := v_idx w + 1\<rparr>"
  have v: "v = (if v_queued w then ?v else ?v')"
    "e' = e\<lparr>e_signals := (if v_queued w then (e_signals e)(?a \<mapsto> dequeue s (v_queuedGroup w)) else e_signals e),
            e_roadByID := road_enter k (e_roadByID e)\<rparr>"
    using c kt by (auto simp: cross_def leaveQueue_def split: if_splits)
  show "v_state v = OnRoad" using v(1) by simp
  have vok: "vehicle_ok e v" "v_plate v = p" using ok here r v(1) by (auto simp: vehicle_ok_def leaveQueue_def)
  have dr: "\<not> driving i w" "driving i v \<longleftrightarrow> i = k" for i using w(2) v(1) by (auto simp: driving_def)
  have nw: "\<not> waiting i d v" for i d using v(1) by (auto simp: waiting_def leaveQueue_def)
  have road: "e_roadByID e' i = map_option (shift_road w v i) (e_roadByID e i)" for i
    using road_enter_shift [OF dr] v(2) by simp
  have sig: "e_signals e' i = map_option (shift_signal w v i) (e_signals e i)" for i
  proof (cases "v_queued w")
    case True
    then have "v_queuedGroup w = movementDirection ?a (v_path w ! Suc (v_idx w))" using ok w(2) by (auto simp: vehicle_ok_def)
    then have "v_queuedGroup w = NS \<or> v_queuedGroup w = EW" by (simp add: movementDirection_def)
    moreover have "waiting i d w \<longleftrightarrow> i = ?a \<and> d = v_queuedGroup w" for i d using True by (auto simp: waiting_def)
    ultimately show ?thesis using dequeue_shift [OF inv w(1) _ nw _ s, of "v_queuedGroup w" i] True v(2) by simp
  next
    case False
    then have "shift_signal w v i = id" using nw by (intro shift_same) (simp add: waiting_def)
    then show ?thesis using False v(2) by (simp add: option.map_id)
  qed
  show "engine_inv (put p v e')"
    by (rule put_inv [OF inv w(1) vok(2,1)]) (use road sig v(2) in simp_all)
qed

lemma at_intersection_inv:
  assumes inv: "engine_inv e" and w: "e_vehicles e p = Some w" "v_state w = AtIntersection \<or> v_state w = WaitingSignal"
    and step: "at_intersection w e = (v, e')"
  shows "engine_inv (put p v e')"
proof -
  have ok: "vehicle_ok e w" "v_plate w = p" using engine_invD(3,4) [OF inv w(1)] by auto
  let ?a = "v_path w ! v_idx w"
  consider (arrive) "v_at w = v_to w" | (last) "v_at w \<noteq> v_to w" "length (v_path w) \<le> v_idx w + 1"
    | (go) "v_at w \<noteq> v_to w" "\<not> length (v_path w) \<le> v_idx w + 1" by blast
  then show ?thesis
  proof cases
    case arrive
    then have v: "v = w\<lparr>v_state := VehicleArrived\<rparr>" "e' = e" using step by (auto simp: at_intersection_def)
    have "v_state w = AtIntersection" using arrive w(2) ok by (auto simp: vehicle_ok_def)
    then have "vehicle_ok e v" "v_plate v = p" "\<And>k. driving k v = driving k w" "\<And>i d. waiting i d v = waiting i d w"
      using ok arrive v by (auto simp: vehicle_ok_def driving_def waiting_def)
    then show ?thesis using put_inv_quiet [OF inv w(1)] v(2) by blast
  next
    case last
    then have "v = w" "e' = e" using step by (auto simp: at_intersection_def)
    then show ?thesis using inv w(1) by (simp add: put_def fun_upd_idem)
  next
    case go
    have "path_ok e (v_path w)" "v_idx w < length (v_path w)" using ok by (auto simp: vehicle_ok_def)
    then have "0 \<le> ?a \<and> ?a < NumIntersections (e_cfg e)" by (simp add: path_ok_def)
    then obtain s where s: "e_signals e ?a = Some s" using engine_invD(5) [OF inv] unfolding queues_inv_def by blast
    show ?thesis
    proof (cases "phaseAllows (sg_phase s) (movementDirection ?a (v_path w ! (v_idx w + 1)))")
      case True
      then have "cross w ?a (v_path w ! (v_idx w + 1)) s e = (v, e')" using step go s by (simp add: at_intersection_def Let_def)
      then show ?thesis by (rule cross_inv(1) [OF inv w go(2) s])
    next
      case False
      then have "hold w ?a (movementDirection ?a (v_path w ! (v_idx w + 1))) s e = (v, e')"
        using step go s by (simp add: at_intersection_def Let_def)
      then show ?thesis by (rule hold_inv [OF inv w go s refl])
    qed
  qed
qed

lemma at_intersection_vehicles:
  "at_intersection v (e\<lparr>e_vehicles := m\<rparr>) = map_prod id (\<lambda>e. e\<lparr>e_vehicles := m\<rparr>) (at_intersection v e)"
proof -
  have "roadForHop (e\<lparr>e_vehicles := m, e_signals := ss\<rparr>) a b = roadForHop e a b"
    "roadForHop (e\<lparr>e_vehicles := m\<rparr>) a b = roadForHop e a b" for ss a b
    by (simp_all add: roadForHop_def hop_road_def cong: option.case_cong)
  then show ?thesis by (simp add: at_intersection_def cross_def hold_def Let_def split: option.splits)
qed

lemma at_intersection_frame: "at_intersection v e = (v', e') \<Longrightarrow> e_vehicles e' = e_vehicles e"
  by (auto simp: at_intersection_def cross_def hold_def Let_def split: option.splits if_splits)

lemma vehicle_step_inv:
  assumes inv: "engine_inv e" and w: "e_vehicles e p = Some w"
  shows "\<exists>v e'. vehicle_step w e = Inr (v, e') \<and> engine_inv (put p v e')"
proof (cases "v_state w")
  case VehicleArrived
  then show ?thesis using inv w by (simp add: vehicle_step_def put_def fun_upd_idem)
next
  case OnRoad
  show ?thesis
  proof (cases "1 < v_remainingRoad w")
    case True
    let ?v = "w\<lparr>v_remainingRoad := v_remainingRoad w - 1\<rparr>"
    have "vehicle_ok e ?v" "v_plate ?v = p" "\<And>k. driving k ?v = driving k w" "\<And>i d. waiting i d ?v = waiting i d w"
      using engine_invD(3,4) [OF inv w] OnRoad True by (auto simp: vehicle_ok_def driving_def waiting_def)
    then have "engine_inv (put p ?v e)" using put_inv_quiet [OF inv w] by blast
    then show ?thesis using OnRoad True by (simp add: vehicle_step_def Let_def)
  next
    case False
    obtain v1 e1 where 1: "finish_road (w\<lparr>v_remainingRoad := v_remainingRoad w - 1\<rparr>) e = Inr (v1, e1)"
      "engine_inv (put p v1 e1)" "v_state v1 = AtIntersection" "e_vehicles e1 = e_vehicles e"
      using finish_road_inv [OF inv w OnRoad] by blast
    obtain v2 e2 where 2: "at_intersection v1 e1 = (v2, e2)" by fastforce
    then have "at_intersection v1 (put p v1 e1) = (v2, e2\<lparr>e_vehicles := (e_vehicles e1)(p \<mapsto> v1)\<rparr>)"
      by (simp add: put_def at_intersection_vehicles)
    then have "engine_inv (put p v2 (e2\<lparr>e_vehicles := (e_vehicles e1)(p \<mapsto> v1)\<rparr>))"
      using at_intersection_inv [OF 1(2)] 1(3) by simp
    moreover have "e_vehicles e2 = e_vehicles e1" using at_intersection_frame [OF 2] .
    ultimately have "engine_inv (put p v2 e2)" by (simp add: put_def)
    then show ?thesis using 1(1) 2 OnRoad False by (simp add: vehicle_step_def Let_def)
  qed
next
  case AtIntersection
  then show ?thesis using at_intersection_inv [OF inv w] by (cases "at_intersection w e") (simp add: vehicle_step_def)
next
  case WaitingSignal
  then show ?thesis using at_intersection_inv [OF inv w] by (cases "at_intersection w e") (simp add: vehicle_step_def)
qed

end
