(* ===== verification/Traffic_Props.thy ===== *)
theory Traffic_Props
  imports Traffic_Correct
begin

text \<open>
  The properties of the traffic simulation as a whole: runs of the engine with its
  goroutines, its clock and its public operations, in any interleaving.
\<close>

section \<open>Every run keeps the invariants\<close>

lemma turn_inv: "engine_inv e \<Longrightarrow> \<exists>e'. turn r n e = Inr e' \<and> engine_inv e'"
proof (cases r)
  case (SignalLoop i)
  assume inv: "engine_inv e"
  show ?thesis
  proof (cases "e_signals e i")
    case (Some s)
    have "engine_inv (e\<lparr>e_signals := (e_signals e)(i \<mapsto> signal_step s)\<rparr>)"
      by (rule engine_inv_signals [OF inv]) (use Some in \<open>auto simp: option.rel_refl\<close>)
    then show ?thesis using SignalLoop Some by simp
  qed (use inv SignalLoop in simp)
next
  case (VehicleLoop p)
  assume inv: "engine_inv e"
  show ?thesis
  proof (cases "e_vehicles e p")
    case (Some w)
    obtain v e' where step: "vehicle_step w e = Inr (v, e')" "engine_inv (put p v e')"
      using vehicle_step_inv [OF inv Some] by blast
    let ?v = "v\<lparr>v_processedTick := n\<rparr>"
    have v: "e_vehicles (put p v e') p = Some v" by simp
    have "vehicle_ok (put p v e') ?v" "v_plate ?v = p" "\<And>k. driving k ?v = driving k v" "\<And>i d. waiting i d ?v = waiting i d v"
      using engine_invD(3,4) [OF step(2) v] by (simp_all add: vehicle_ok_def driving_def waiting_def split: vehicle_state.splits)
    then have "engine_inv (put p ?v (put p v e'))" using put_inv_quiet [OF step(2) v] by blast
    moreover have "put p ?v (put p v e') = put p ?v e'" by (simp add: put_def)
    ultimately show ?thesis using VehicleLoop Some step(1) by (simp add: vehicle_turn_def put_def)
  qed (use inv VehicleLoop in \<open>simp add: vehicle_turn_def\<close>)
qed (use updateCongestion_inv in auto)

lemma run_turn_inv: "engine_inv (t_engine t) \<Longrightarrow> \<exists>t'. run_turn r t = Inr t' \<and> engine_inv (t_engine t')"
proof -
  assume inv: "engine_inv (t_engine t)"
  show ?thesis
  proof (cases "launched (t_engine t) r \<and> (\<exists>n. waitTick (t_engine t) (t_last t r) = Some (Some n))")
    case True
    then obtain n where n: "waitTick (t_engine t) (t_last t r) = Some (Some n)" by blast
    obtain e' where "turn r n (t_engine t) = Inr e'" "engine_inv e'" using turn_inv [OF inv] by blast
    then show ?thesis using True n by (simp add: run_turn_def)
  next
    case False
    then have "run_turn r t = Inr t" by (auto simp: run_turn_def split: option.splits)
    then show ?thesis using inv by simp
  qed
qed

lemma after_op_Inr: "after_op t r = Inr t' \<longleftrightarrow> (\<forall>p. fst r \<noteq> Panic p) \<and> t' = t\<lparr>t_engine := snd r\<rparr>"
  by (cases r; cases "fst r") (auto simp: after_op_def)

lemma traffic_step_inv:
  assumes "engine_inv (t_engine t)" "traffic_step a t = Inr t'"
  shows "engine_inv (t_engine t')"
proof (cases a)
  case (Turn r)
  then show ?thesis using run_turn_inv [OF assms(1), of r] assms(2) by auto
qed (use assms in \<open>auto simp: engine_inv_tick after_op_Inr RegisterVehicle_inv DispatchEmergency_inv
    split: option.splits list.splits if_splits\<close>)

lemma traffic_run_inv: "engine_inv (t_engine t) \<Longrightarrow> traffic_run as t = Inr t' \<Longrightarrow> engine_inv (t_engine t')"
proof (induction as arbitrary: t)
  case (Cons a as)
  then show ?case using traffic_step_inv [of t a] by (auto split: sum.splits)
qed simp

text \<open>A run from the state after \<open>New\<close> and \<open>Start\<close>.\<close>

definition simulates :: "int list \<Rightarrow> config \<Rightarrow> graph \<Rightarrow> traffic_action list \<Rightarrow> traffic \<Rightarrow> bool" where
  "simulates order cfg g as t \<longleftrightarrow>
     (\<exists>e. New order cfg (Some g) True = Return e \<and> traffic_run as (start_traffic e) = Inr t)"

definition setup_ok :: "int list \<Rightarrow> config \<Rightarrow> graph \<Rightarrow> bool" where
  "setup_ok order cfg g \<longleftrightarrow>
     0 < NumIntersections cfg \<and> 0 < HistoryWindow cfg \<and> graph_ok (NumIntersections cfg) g \<and> set order = dom (g_Adj g)"

lemma New_ok: "setup_ok order cfg g \<Longrightarrow> \<exists>e. New order cfg (Some g) True = Return e \<and> engine_inv e \<and> e_tickN e = 0
    \<and> e_vehicles e = Map.empty \<and> \<not> e_tickClosed e"
proof -
  assume a: "setup_ok order cfg g"
  then have "\<exists>r. NewRingBuffer (0 :: int) (HistoryWindow cfg) = Some r" by (simp add: NewRingBuffer_def setup_ok_def)
  then obtain e where "New order cfg (Some g) True = Return e" using a by (auto simp: New_def setup_ok_def)
  then show ?thesis using New_inv [of order cfg g e] a by (auto simp: setup_ok_def)
qed

lemma simulates_inv: "setup_ok order cfg g \<Longrightarrow> simulates order cfg g as t \<Longrightarrow> engine_inv (t_engine t)"
proof -
  assume a: "setup_ok order cfg g" "simulates order cfg g as t"
  then obtain e where e: "New order cfg (Some g) True = Return e" "traffic_run as (start_traffic e) = Inr t"
    by (auto simp: simulates_def)
  then have "engine_inv (t_engine (start_traffic e))" using New_ok [OF a(1)] by (simp add: start_traffic_def)
  then show ?thesis using traffic_run_inv [of "start_traffic e" as] e(2) by blast
qed

section \<open>A sample simulation\<close>

definition sample_road :: "int \<Rightarrow> int \<Rightarrow> int \<Rightarrow> road" where
  "sample_road k a b = \<lparr>r_ID = k, r_From = a, r_To = b, r_Distance = 1, r_SpeedLimit = Fin 30, r_Congestion = 1\<rparr>"

definition sample_graph :: graph where
  "sample_graph = AddEdge (NewGraph 2) 0 1 (Some (sample_road 7 0 1))"

definition sample_cfg :: config where
  "sample_cfg = DefaultConfig\<lparr>NumIntersections := 2\<rparr>"

lemma sample_setup: "setup_ok [0] sample_cfg sample_graph"
proof -
  have "g_Adj sample_graph = [0 \<mapsto> [\<lparr>e_Road = Some (sample_road 7 0 1), e_To = 1\<rparr>]]"
    by (simp add: sample_graph_def AddEdge_def NewGraph_def adj_def)
  then show ?thesis
    by (auto simp: setup_ok_def sample_cfg_def DefaultConfig_def graph_ok_def adj_def road_measures_def sample_road_def
        zero_f64_def one_f64_def)
qed

text \<open>
  C6. The counters are exact: at any time of any run, the NS and EW queue of every signal
  controller is the number of vehicles waiting at its intersection for that direction, and
  the occupancy of every road the number of vehicles driving on it; neither exceeds the
  number of vehicles.
\<close>

theorem queues_and_occupancy_exact:
  assumes "setup_ok order cfg g" "simulates order cfg g as t"
  shows "(\<forall>i s. e_signals (t_engine t) i = Some s \<longrightarrow>
      sg_queueNS s = count_veh (e_vehicles (t_engine t)) (waiting i NS)
      \<and> sg_queueEW s = count_veh (e_vehicles (t_engine t)) (waiting i EW))
    \<and> (\<forall>k rs. e_roadByID (t_engine t) k = Some rs \<longrightarrow>
      rs_occupancy rs = count_veh (e_vehicles (t_engine t)) (driving k)
      \<and> rs_occupancy rs \<le> int (card (dom (e_vehicles (t_engine t)))))"
proof -
  have inv: "engine_inv (t_engine t)" using simulates_inv [OF assms] .
  then show ?thesis using engine_invD(5,6) [OF inv] count_le [OF engine_invD(2) [OF inv]]
    by (simp add: queues_inv_def occupancy_inv_def)
qed

theorem queues_and_occupancy_exact_witness:
  "\<exists>t. simulates [0] sample_cfg sample_graph [] t \<and> (\<exists>s. e_signals (t_engine t) 0 = Some s \<and> sg_queueNS s = 0)"
proof -
  obtain e where e: "New [0] sample_cfg (Some sample_graph) True = Return e" "engine_inv e" "e_vehicles e = Map.empty"
    using New_ok [OF sample_setup] by blast
  let ?t = "start_traffic e"
  have sim: "simulates [0] sample_cfg sample_graph [] ?t" using e(1) by (simp add: simulates_def)
  have "e_cfg e = sample_cfg" using New_inv [OF e(1)] sample_setup by (simp add: setup_ok_def)
  then obtain s where s: "e_signals e 0 = Some s"
    using engine_invD(5) [OF e(2)] by (fastforce simp: queues_inv_def sample_cfg_def)
  have "sg_queueNS s = count_veh (e_vehicles (t_engine ?t)) (waiting 0 NS)"
    using queues_and_occupancy_exact [OF sample_setup sim] s by (simp add: start_traffic_def)
  then have "sg_queueNS s = 0" using e(3) by (simp add: start_traffic_def)
  then show ?thesis using sim s by (auto simp: start_traffic_def)
qed

section \<open>Ticks\<close>

definition tick_inv :: "traffic \<Rightarrow> bool" where
  "tick_inv t \<longleftrightarrow>
     (0 \<le> e_tickN (t_engine t) \<and> e_tickN (t_engine t) \<le> mc_n (t_clock t)
        \<and> mc_c (t_clock t) = [e_tickN (t_engine t) + 1..mc_n (t_clock t)])
     \<and> (\<forall>r. 0 \<le> t_last t r \<and> t_last t r \<le> e_tickN (t_engine t) \<and> (\<not> launched (t_engine t) r \<longrightarrow> t_last t r = 0))
     \<and> (\<forall>p v. e_vehicles (t_engine t) p = Some v \<longrightarrow> v_processedTick v = t_last t (VehicleLoop p))"

lemma turn_frame:
  assumes "turn r n e = Inr e'"
  shows "e_tickN e' = e_tickN e" "e_tickClosed e' = e_tickClosed e" "launched e' q = launched e q"
    "e_vehicles e' p = Some v \<Longrightarrow> v_processedTick v = (if r = VehicleLoop p then n else v_processedTick (the (e_vehicles e p)))"
proof -
  have at: "at_intersection v0 e0 = (v', e1) \<Longrightarrow> e_tickN e1 = e_tickN e0 \<and> e_tickClosed e1 = e_tickClosed e0 \<and> e_vehicles e1 = e_vehicles e0
      \<and> (e_signals e1 i = None \<longleftrightarrow> e_signals e0 i = None)" for v0 e0 v' e1 i
    by (auto simp: at_intersection_def cross_def hold_def Let_def split: option.splits if_splits)
  have vs: "e_tickN e1 = e_tickN e0 \<and> e_tickClosed e1 = e_tickClosed e0 \<and> e_vehicles e1 = e_vehicles e0
      \<and> (e_signals e1 i = None \<longleftrightarrow> e_signals e0 i = None)" if "vehicle_step v0 e0 = Inr (v', e1)" for v0 e0 v' e1 i
    using that at [of _ _ v' e1 i]
    by (fastforce simp: vehicle_step_def finish_road_def Let_def split: vehicle_state.splits if_splits sum.splits)
  have all: "e_tickN e' = e_tickN e \<and> e_tickClosed e' = e_tickClosed e \<and> (launched e' q \<longleftrightarrow> launched e q)
    \<and> (e_vehicles e' p = Some v \<longrightarrow> v_processedTick v = (if r = VehicleLoop p then n else v_processedTick (the (e_vehicles e p))))"
  proof (cases r)
    case (SignalLoop i)
    then show ?thesis using assms by (cases q) (auto split: option.splits if_splits)
  next
    case (VehicleLoop pl)
    show ?thesis
    proof (cases "e_vehicles e pl")
      case (Some w)
      then obtain v' e1 where st: "vehicle_step w e = Inr (v', e1)" and e': "e' = e1\<lparr>e_vehicles := (e_vehicles e1)(pl \<mapsto> v'\<lparr>v_processedTick := n\<rparr>)\<rparr>"
        using assms VehicleLoop by (auto simp: vehicle_turn_def split: sum.splits)
      then show ?thesis using vs [OF st] Some VehicleLoop by (cases q) auto
    qed (use assms VehicleLoop in \<open>auto simp: vehicle_turn_def\<close>)
  next
    case CongestionLoop
    then have "e' = updateCongestion n e" using assms by simp
    then show ?thesis using CongestionLoop by (cases q) (auto simp: updateCongestion_def Let_def)
  qed
  then show "e_tickN e' = e_tickN e" "e_tickClosed e' = e_tickClosed e" "launched e' q = launched e q"
    "e_vehicles e' p = Some v \<Longrightarrow> v_processedTick v = (if r = VehicleLoop p then n else v_processedTick (the (e_vehicles e p)))"
    by auto
qed

text \<open>What registrations and dispatches do to the vehicles and the tick.\<close>

definition adds_vehicles :: "engine \<Rightarrow> engine \<Rightarrow> bool" where
  "adds_vehicles e e' \<longleftrightarrow>
     e_tickN e' = e_tickN e \<and> (\<forall>i. e_signals e' i = None \<longleftrightarrow> e_signals e i = None)
     \<and> (\<forall>p v. e_vehicles e' p = Some v \<longrightarrow> e_vehicles e p = Some v \<or> (e_vehicles e p = None \<and> v_processedTick v = 0))
     \<and> (\<forall>p v. e_vehicles e p = Some v \<longrightarrow> e_vehicles e' p = Some v)"

lemma adds_vehicles_refl [simp]: "adds_vehicles e e"
  by (simp add: adds_vehicles_def)

lemma RegisterVehicle_adds: "engine_inv e \<Longrightarrow> adds_vehicles e (snd (RegisterVehicle c req e))"
  by (cases rule: RegisterVehicle_cases [of e c req]) (auto simp: adds_vehicles_def new_vehicle_def)

lemma setEmergencyCorridor_frame:
  "e_tickN (setEmergencyCorridor path e) = e_tickN e" "e_vehicles (setEmergencyCorridor path e) = e_vehicles e"
  "e_signals (setEmergencyCorridor path e) i = None \<longleftrightarrow> e_signals e i = None"
  using preempt_hops_rel [of "e_signals e" i "e_cfg e" "hops path"]
  by (auto simp: setEmergencyCorridor_def option_rel_Some1 option_rel_Some2 elim: option.rel_cases)

lemma DispatchEmergency_state:
  "snd (DispatchEmergency c plate src dst e) =
     (if c \<or> plate = '''' then e
      else case route e src dst VehicleTypeEmergency of
             Return (path, w) \<Rightarrow>
               snd (RegisterVehicle False \<lparr>rq_Plate = plate, rq_From = src, rq_To = dst, rq_Type = VehicleTypeEmergency\<rparr>
                      (setEmergencyCorridor path e))
           | _ \<Rightarrow> e)"
  by (simp add: DispatchEmergency_def Let_def split: outcome.split prod.split)

lemma DispatchEmergency_adds:
  assumes "engine_inv e" shows "adds_vehicles e (snd (DispatchEmergency c plate src dst e))"
proof -
  have "adds_vehicles e (snd (RegisterVehicle False req (setEmergencyCorridor path e)))" for req path
    using RegisterVehicle_adds [OF setEmergencyCorridor_inv [OF assms], where c = False and req = req]
    by (simp add: adds_vehicles_def setEmergencyCorridor_frame del: not_None_eq)
  then show ?thesis by (simp add: DispatchEmergency_state split: outcome.split prod.split)
qed

lemma waitTick_Some: "waitTick e k = Some (Some n) \<longleftrightarrow> \<not> e_tickClosed e \<and> k + 1 \<le> e_tickN e \<and> n = k + 1"
  by (auto simp: waitTick_def)

lemma tick_invD:
  assumes "tick_inv t"
  shows "0 \<le> e_tickN (t_engine t)" "e_tickN (t_engine t) \<le> mc_n (t_clock t)"
    "mc_c (t_clock t) = [e_tickN (t_engine t) + 1..mc_n (t_clock t)]"
    "0 \<le> t_last t r" "t_last t r \<le> e_tickN (t_engine t)" "\<not> launched (t_engine t) r \<Longrightarrow> t_last t r = 0"
    "e_vehicles (t_engine t) p = Some v \<Longrightarrow> v_processedTick v = t_last t (VehicleLoop p)"
  using assms by (auto simp: tick_inv_def)

lemma tick_inv_register:
  assumes inv: "tick_inv t" and e: "adds_vehicles (t_engine t) e"
  shows "tick_inv (t\<lparr>t_engine := e\<rparr>)"
proof -
  have launched: "launched (t_engine t) r \<Longrightarrow> launched e r" for r
    using e by (cases r) (auto simp: adds_vehicles_def simp del: not_None_eq)
  have "v_processedTick v = t_last t (VehicleLoop p)" if v: "e_vehicles e p = Some v" for p v
  proof (cases "e_vehicles (t_engine t) p")
    case None
    then have "t_last t (VehicleLoop p) = 0" using tick_invD(6) [OF inv, of "VehicleLoop p"] by simp
    moreover have "v_processedTick v = 0" using e v None unfolding adds_vehicles_def by fastforce
    ultimately show ?thesis by simp
  next
    case (Some w)
    then have "e_vehicles (t_engine t) p = Some v" using e v unfolding adds_vehicles_def by fastforce
    then show ?thesis using tick_invD(7) [OF inv] by simp
  qed
  moreover have "t_last t r = 0" if "\<not> launched e r" for r using launched tick_invD(6) [OF inv] that by blast
  moreover have "e_tickN e = e_tickN (t_engine t)" using e by (simp add: adds_vehicles_def)
  ultimately show ?thesis using tick_invD(1-5) [OF inv] by (simp add: tick_inv_def)
qed

lemma tick_inv_turn:
  assumes inv: "tick_inv t" and step: "run_turn r t = Inr t'"
  shows "tick_inv t' \<and> e_tickN (t_engine t') = e_tickN (t_engine t)
    \<and> (t_last t' = t_last t \<or> t_last t' = (t_last t)(r := t_last t r + 1))"
proof (cases "launched (t_engine t) r \<and> (\<exists>n. waitTick (t_engine t) (t_last t r) = Some (Some n))")
  case True
  then obtain n where n: "waitTick (t_engine t) (t_last t r) = Some (Some n)" by blast
  then have nn: "n = t_last t r + 1" "n \<le> e_tickN (t_engine t)" by (simp_all add: waitTick_Some)
  obtain e' where e': "turn r n (t_engine t) = Inr e'" "t' = t\<lparr>t_engine := e', t_last := (t_last t)(r := n)\<rparr>"
    using step True n by (auto simp: run_turn_def split: sum.splits)
  note F = turn_frame [OF e'(1)] and D = tick_invD [OF inv]
  have proc: "v_processedTick v = (if r = VehicleLoop p then n else t_last t (VehicleLoop p))" if v: "e_vehicles e' p = Some v" for p v
  proof -
    obtain w where "e_vehicles (t_engine t) p = Some w" using F(3) [of "VehicleLoop p"] v by auto
    then show ?thesis using F(4) [OF v] D(7) by simp
  qed
  have "0 \<le> n" using nn D(4) [of r] by simp
  then have "tick_inv t'"
    unfolding tick_inv_def e'(2) using D nn(2) True F(1,3) proc by (simp add: fun_upd_apply)
  then show ?thesis using F(1) e'(2) nn(1) by simp
next
  case False
  then have "t' = t" using step by (auto simp: run_turn_def split: option.splits)
  then show ?thesis using inv by simp
qed

lemma launched_tick [simp]: "launched (e\<lparr>e_tickN := n\<rparr>) r = launched e r" "launched (e\<lparr>e_tickClosed := c\<rparr>) r = launched e r"
  by (cases r; simp)+

lemma tick_inv_step:
  assumes inv: "tick_inv t" "engine_inv (t_engine t)" and step: "traffic_step a t = Inr t'"
  shows "tick_inv t' \<and> (t_last t' = t_last t \<or> (\<exists>r. a = Turn r \<and> t_last t' = (t_last t)(r := t_last t r + 1)))
    \<and> e_tickN (t_engine t) \<le> e_tickN (t_engine t') \<and> e_tickN (t_engine t') \<le> e_tickN (t_engine t) + 1"
proof (cases a)
  case ClockStep
  have "[e_tickN (t_engine t) + 1..mc_n (t_clock t)] @ [mc_n (t_clock t) + 1] = [e_tickN (t_engine t) + 1..mc_n (t_clock t) + 1]"
    using inv(1) upto_rec2 [of "e_tickN (t_engine t) + 1" "mc_n (t_clock t) + 1"] by (simp add: tick_inv_def)
  then show ?thesis using inv(1) step ClockStep by (auto simp: tick_inv_def clock_Step_def split: if_splits)
next
  case DriveTick
  show ?thesis
  proof (cases "e_tickClosed (t_engine t) \<or> mc_c (t_clock t) = []")
    case True
    then show ?thesis using inv(1) step DriveTick by (auto split: list.splits if_splits)
  next
    case False
    let ?n = "e_tickN (t_engine t) + 1"
    note D = tick_invD [OF inv(1)]
    have n: "?n \<le> mc_n (t_clock t)" using False D(3) by simp
    then have c: "mc_c (t_clock t) = ?n # [?n + 1..mc_n (t_clock t)]" using D(3) upto_rec1 [of ?n "mc_n (t_clock t)"] by simp
    then have t': "t' = t\<lparr>t_engine := (t_engine t)\<lparr>e_tickN := ?n\<rparr>, t_clock := (t_clock t)\<lparr>mc_c := [?n + 1..mc_n (t_clock t)]\<rparr>\<rparr>"
      using False step DriveTick by auto
    have "t_last t r \<le> ?n" for r using D(5) [of r] by simp
    then have "tick_inv t'" unfolding tick_inv_def t' using n D by simp
    then show ?thesis by (simp add: t')
  qed
next
  case (Turn r)
  then show ?thesis using tick_inv_turn [OF inv(1), of r t'] step by auto
next
  case (DoRegister c req)
  then have t': "t' = t\<lparr>t_engine := snd (RegisterVehicle c req (t_engine t))\<rparr>" using step by (simp add: after_op_Inr)
  then show ?thesis using tick_inv_register [OF inv(1)] RegisterVehicle_adds [OF inv(2), of c req] by (simp add: adds_vehicles_def)
next
  case (DoDispatch c plate src dst)
  then have t': "t' = t\<lparr>t_engine := snd (DispatchEmergency c plate src dst (t_engine t))\<rparr>" using step by (simp add: after_op_Inr)
  then show ?thesis using tick_inv_register [OF inv(1)] DispatchEmergency_adds [OF inv(2), of c plate src dst] by (simp add: adds_vehicles_def)
next
  case DoStop
  then show ?thesis using inv(1) step by (auto simp: tick_inv_def)
qed

lemma tick_inv_run:
  "tick_inv t \<Longrightarrow> engine_inv (t_engine t) \<Longrightarrow> traffic_run as t = Inr t' \<Longrightarrow> tick_inv t'"
proof (induction as arbitrary: t)
  case (Cons a as)
  obtain t1 where t1: "traffic_step a t = Inr t1" "traffic_run as t1 = Inr t'" using Cons.prems(3) by (auto split: sum.splits)
  then show ?case using Cons.IH [of t1] tick_inv_step [OF Cons.prems(1,2) t1(1)] traffic_step_inv [OF Cons.prems(2) t1(1)] by simp
qed simp

lemma simulates_tick_inv: "setup_ok order cfg g \<Longrightarrow> simulates order cfg g as t \<Longrightarrow> tick_inv t"
proof -
  assume a: "setup_ok order cfg g" "simulates order cfg g as t"
  then obtain e where e: "New order cfg (Some g) True = Return e" "traffic_run as (start_traffic e) = Inr t"
    by (auto simp: simulates_def)
  have n: "engine_inv e" "e_tickN e = 0" "e_vehicles e = Map.empty" using New_ok [OF a(1)] e(1) by auto
  then have "tick_inv (start_traffic e)" by (simp add: tick_inv_def start_traffic_def NewManualClock_def)
  then show ?thesis using tick_inv_run [of "start_traffic e" as t] e(2) n(1) by (simp add: start_traffic_def)
qed

text \<open>
  Ticks are processed in order: in every run no goroutine is ahead of the broadcast tick
  or the tick ahead of the clock, the channel holds exactly the ticks not yet broadcast, each
  vehicle's \<open>processedTick\<close> is the last tick of its goroutine, and one step of the system
  moves at most one goroutine by exactly one tick and the broadcast tick by at most one.
\<close>

theorem ticks_in_order:
  assumes "setup_ok order cfg g" "simulates order cfg g as t"
  shows "e_tickN (t_engine t) \<le> mc_n (t_clock t)
    \<and> mc_c (t_clock t) = [e_tickN (t_engine t) + 1..mc_n (t_clock t)]
    \<and> (\<forall>r. 0 \<le> t_last t r \<and> t_last t r \<le> e_tickN (t_engine t))
    \<and> (\<forall>p v. e_vehicles (t_engine t) p = Some v \<longrightarrow> v_processedTick v = t_last t (VehicleLoop p))
    \<and> (\<forall>a t'. traffic_step a t = Inr t' \<longrightarrow>
         (t_last t' = t_last t \<or> (\<exists>r. a = Turn r \<and> t_last t' = (t_last t)(r := t_last t r + 1)))
         \<and> e_tickN (t_engine t) \<le> e_tickN (t_engine t') \<and> e_tickN (t_engine t') \<le> e_tickN (t_engine t) + 1)"
  using tick_invD [OF simulates_tick_inv [OF assms]] tick_inv_step [OF simulates_tick_inv [OF assms] simulates_inv [OF assms]]
  by blast

theorem ticks_in_order_witness:
  "\<exists>t. simulates [0] sample_cfg sample_graph [ClockStep, DriveTick] t \<and> t_last t CongestionLoop \<le> e_tickN (t_engine t)"
proof -
  obtain e where e: "New [0] sample_cfg (Some sample_graph) True = Return e" using New_ok [OF sample_setup] by blast
  then obtain t where t: "simulates [0] sample_cfg sample_graph [ClockStep, DriveTick] t" by (auto simp: simulates_def)
  then show ?thesis using ticks_in_order [OF sample_setup t] by blast
qed

section \<open>Panics\<close>

definition in_range :: "engine \<Rightarrow> int \<Rightarrow> bool" where
  "in_range e i \<longleftrightarrow> 0 \<le> i \<and> i < NumIntersections (e_cfg e)"

lemma in_range_signals: "engine_inv e \<Longrightarrow> in_range e i \<longleftrightarrow> e_signals e i \<noteq> None"
  using engine_invD(5) [of e] by (simp add: queues_inv_def in_range_def del: not_None_eq)

lemma DispatchEmergency_in_range:
  assumes inv: "engine_inv e" and "in_range e src" "in_range e dst"
  shows "fst (DispatchEmergency c plate src dst e) \<noteq> Panic p \<and> fst (DispatchEmergency c plate src dst e) \<noteq> Diverges"
proof -
  have "fst (RegisterVehicle False req (setEmergencyCorridor path e)) \<noteq> Panic p
      \<and> fst (RegisterVehicle False req (setEmergencyCorridor path e)) \<noteq> Diverges" for req path
    by (cases rule: RegisterVehicle_cases [OF setEmergencyCorridor_inv [OF inv], of False req path]) simp_all
  moreover have "(\<exists>path w. route e src dst VehicleTypeEmergency = Return (path, w)) \<or> route e src dst VehicleTypeEmergency = Error NoRoute"
    using route_ok [OF engine_invD(1) [OF inv], of src dst VehicleTypeEmergency] assms by (auto simp: in_range_def)
  ultimately show ?thesis
    by (auto simp: DispatchEmergency_def Let_def split: outcome.split prod.split) (metis fst_conv)+
qed

lemma DispatchEmergency_out_of_range:
  assumes inv: "engine_inv e" and "\<not> (in_range e src \<and> in_range e dst)" "plate \<noteq> ''''"
  shows "DispatchEmergency False plate src dst e = (Panic IndexOutOfRange, e)"
proof -
  have "ShortestPath (view_Nodes (e, False)) (Neighbors (e, False)) src dst = Some (Inl IndexOutOfRange)"
    using assms(2) engine_invD(1) [OF inv]
    by (intro engine_view.ShortestPath_panics) (auto simp: view_Nodes_def in_range_def roads_inv_def)
  then have "route e src dst VehicleTypeEmergency = Panic IndexOutOfRange" by (simp add: route_def)
  then show ?thesis using assms(3) by (simp add: DispatchEmergency_def)
qed

text \<open>The calls that panic: a dispatch that gets as far as the search, with a number that is no intersection.\<close>

definition bad_dispatch :: "int \<Rightarrow> traffic_action \<Rightarrow> bool" where
  "bad_dispatch n a \<longleftrightarrow>
     (case a of
        DoDispatch ctx_done plate src dst \<Rightarrow>
          \<not> ctx_done \<and> plate \<noteq> '''' \<and> \<not> (0 \<le> src \<and> src < n \<and> 0 \<le> dst \<and> dst < n)
      | _ \<Rightarrow> False)"

lemma Dispatch_signals:
  assumes "engine_inv e" shows "e_signals (snd (DispatchEmergency c plate src dst e)) i = None \<longleftrightarrow> e_signals e i = None"
  using DispatchEmergency_adds [OF assms] by (simp add: adds_vehicles_def del: not_None_eq)

lemma traffic_step_signals:
  assumes "engine_inv (t_engine t)" "traffic_step a t = Inr t'"
  shows "e_signals (t_engine t') i = None \<longleftrightarrow> e_signals (t_engine t) i = None"
proof (cases a)
  case (Turn r)
  show ?thesis
  proof (cases "run_turn r t = Inr t")
    case False
    then obtain n e where "turn r n (t_engine t) = Inr e" "t_engine t' = e"
      using assms(2) Turn by (auto simp: run_turn_def split: option.splits if_splits sum.splits)
    then show ?thesis using turn_frame(3) [of r n "t_engine t" e "SignalLoop i"] by (simp del: not_None_eq)
  qed (use Turn assms in simp)
next
  case (DoRegister c req)
  then show ?thesis using assms RegisterVehicle_adds [OF assms(1), of c req]
    by (auto simp: adds_vehicles_def after_op_Inr simp del: not_None_eq)
next
  case (DoDispatch c plate src dst)
  then show ?thesis using assms Dispatch_signals by (auto simp: after_op_Inr simp del: not_None_eq)
qed (use assms in \<open>auto split: option.splits list.splits if_splits\<close>)

lemma traffic_step_range:
  "engine_inv (t_engine t) \<Longrightarrow> traffic_step a t = Inr t' \<Longrightarrow> in_range (t_engine t') i \<longleftrightarrow> in_range (t_engine t) i"
  by (simp add: in_range_signals traffic_step_inv traffic_step_signals del: not_None_eq)

lemma traffic_run_range:
  "engine_inv (t_engine t) \<Longrightarrow> traffic_run as t = Inr t' \<Longrightarrow> in_range (t_engine t') i \<longleftrightarrow> in_range (t_engine t) i"
proof (induction as arbitrary: t)
  case (Cons a as)
  then show ?case using traffic_step_range [of t a _ i] traffic_step_inv [of t a] by (auto split: sum.splits)
qed simp

text \<open>Exactly these calls panic.\<close>

lemma traffic_step_panics:
  assumes inv: "engine_inv (t_engine t)" and n: "\<And>i. in_range (t_engine t) i \<longleftrightarrow> 0 \<le> i \<and> i < n"
  shows "if bad_dispatch n a then traffic_step a t = Inl IndexOutOfRange else \<exists>t'. traffic_step a t = Inr t'"
proof (cases a)
  case (Turn r)
  then show ?thesis using run_turn_inv [OF inv, of r] by (auto simp: bad_dispatch_def)
next
  case (DoRegister c req)
  have "fst (RegisterVehicle c req (t_engine t)) \<noteq> Panic p" for p
    by (cases rule: RegisterVehicle_cases [OF inv, of c req]) simp_all
  then show ?thesis using DoRegister by (simp add: bad_dispatch_def after_op_Inr)
next
  case (DoDispatch c plate src dst)
  show ?thesis
  proof (cases "bad_dispatch n a")
    case True
    then have "DispatchEmergency c plate src dst (t_engine t) = (Panic IndexOutOfRange, t_engine t)"
      using DispatchEmergency_out_of_range [OF inv, of src dst plate] DoDispatch n by (auto simp: bad_dispatch_def)
    then show ?thesis using True DoDispatch by (simp add: after_op_def)
  next
    case False
    then consider "c" | "plate = ''''" | "in_range (t_engine t) src" "in_range (t_engine t) dst"
      using DoDispatch n by (auto simp: bad_dispatch_def)
    then have "fst (DispatchEmergency c plate src dst (t_engine t)) \<noteq> Panic p" for p
      using DispatchEmergency_in_range [OF inv] by cases (auto simp: DispatchEmergency_def)
    then show ?thesis using False DoDispatch by (simp add: after_op_Inr)
  qed
qed (simp_all add: bad_dispatch_def)

lemma traffic_run_panics:
  assumes "engine_inv (t_engine t)" "\<And>i. in_range (t_engine t) i \<longleftrightarrow> 0 \<le> i \<and> i < n"
  shows "if list_ex (bad_dispatch n) as then traffic_run as t = Inl IndexOutOfRange else \<exists>t'. traffic_run as t = Inr t'"
  using assms
proof (induction as arbitrary: t)
  case (Cons a as)
  show ?case
  proof (cases "bad_dispatch n a")
    case True
    then show ?thesis using traffic_step_panics [OF Cons.prems, of a] by simp
  next
    case False
    then obtain t1 where t1: "traffic_step a t = Inr t1" using traffic_step_panics [OF Cons.prems, of a] by auto
    have "in_range (t_engine t1) i \<longleftrightarrow> 0 \<le> i \<and> i < n" for i using traffic_step_range [OF Cons.prems(1) t1] Cons.prems(2) by simp
    then show ?thesis using Cons.IH [OF traffic_step_inv [OF Cons.prems(1) t1]] t1 False by simp
  qed
qed simp

text \<open>
  C7. When the simulation panics: with a valid configuration and graph the engine starts, and every
  sequence of clock steps, ticks, goroutine turns, registrations, emergency dispatches and stops runs
  through, in every order, unless one of its calls of \<open>DispatchEmergency\<close> (with a plate and before
  the context is done) names an intersection that is out of range, whose first one panics; and at any
  time every vehicle has a path of distinct intersections along known roads that ends at its
  destination, stands at an intersection of that path or drives on the road between two of them, waits
  only where it is queued, and has arrived only at its destination.
\<close>

theorem simulation_panics_exactly:
  assumes "setup_ok order cfg g"
  shows "\<exists>e. New order cfg (Some g) True = Return e
    \<and> (case traffic_run as (start_traffic e) of
         Inl p \<Rightarrow> p = IndexOutOfRange \<and> list_ex (bad_dispatch (NumIntersections cfg)) as
       | Inr t \<Rightarrow> \<not> list_ex (bad_dispatch (NumIntersections cfg)) as
           \<and> (\<forall>p v. e_vehicles (t_engine t) p = Some v \<longrightarrow> v_plate v = p \<and> vehicle_ok (t_engine t) v))"
proof -
  obtain e where e: "New order cfg (Some g) True = Return e" "engine_inv e" using New_ok [OF assms] by blast
  have "e_cfg e = cfg" using New_inv [OF e(1)] assms by (simp add: setup_ok_def)
  then have "if list_ex (bad_dispatch (NumIntersections cfg)) as then traffic_run as (start_traffic e) = Inl IndexOutOfRange
      else \<exists>t. traffic_run as (start_traffic e) = Inr t"
    using e(2) by (intro traffic_run_panics) (simp_all add: start_traffic_def in_range_def)
  moreover have "v_plate v = p \<and> vehicle_ok (t_engine t) v"
    if "traffic_run as (start_traffic e) = Inr t" "e_vehicles (t_engine t) p = Some v" for t p v
    using engine_invD(3,4) [OF traffic_run_inv [OF _ that(1)]] e(2) that(2) by (simp add: start_traffic_def)
  ultimately show ?thesis using e(1) by (auto split: sum.splits if_splits)
qed

theorem simulation_panics_exactly_witness:
  "(\<exists>e t. New [0] sample_cfg (Some sample_graph) True = Return e
      \<and> traffic_run [DoDispatch False ''A'' 0 1, ClockStep, DriveTick, Turn (VehicleLoop ''A'')] (start_traffic e) = Inr t)
   \<and> (\<exists>e. New [0] sample_cfg (Some sample_graph) True = Return e
      \<and> traffic_run [ClockStep, DoDispatch False ''A'' 0 2] (start_traffic e) = Inl IndexOutOfRange)"
proof
  let ?good = "[DoDispatch False ''A'' 0 1, ClockStep, DriveTick, Turn (VehicleLoop ''A'')]"
    and ?bad = "[ClockStep, DoDispatch False ''A'' 0 2]"
  have ok: "\<not> list_ex (bad_dispatch (NumIntersections sample_cfg)) ?good" "list_ex (bad_dispatch (NumIntersections sample_cfg)) ?bad"
    by (simp_all add: bad_dispatch_def sample_cfg_def)
  obtain e where e: "New [0] sample_cfg (Some sample_graph) True = Return e"
    "case traffic_run ?good (start_traffic e) of Inl p \<Rightarrow> False | Inr t \<Rightarrow> True"
    using simulation_panics_exactly [OF sample_setup, of ?good] ok(1) by (auto split: sum.splits)
  show "\<exists>e t. New [0] sample_cfg (Some sample_graph) True = Return e \<and> traffic_run ?good (start_traffic e) = Inr t"
    using e by (cases "traffic_run ?good (start_traffic e)") (simp, blast)
  obtain e where e: "New [0] sample_cfg (Some sample_graph) True = Return e"
    "case traffic_run ?bad (start_traffic e) of Inl p \<Rightarrow> p = IndexOutOfRange | Inr t \<Rightarrow> False"
    using simulation_panics_exactly [OF sample_setup, of ?bad] ok(2) by (auto split: sum.splits)
  show "\<exists>e. New [0] sample_cfg (Some sample_graph) True = Return e \<and> traffic_run ?bad (start_traffic e) = Inl IndexOutOfRange"
    using e by (cases "traffic_run ?bad (start_traffic e)") (simp, simp)
qed

section \<open>A new vehicle catches up\<close>

lemma run_turn_advances:
  assumes inv: "engine_inv (t_engine t)" "tick_inv t" and r: "launched (t_engine t) r" "\<not> e_tickClosed (t_engine t)"
    "t_last t r < e_tickN (t_engine t)"
  shows "\<exists>t'. run_turn r t = Inr t' \<and> t_last t' r = t_last t r + 1 \<and> e_tickN (t_engine t') = e_tickN (t_engine t)
    \<and> engine_inv (t_engine t') \<and> tick_inv t' \<and> launched (t_engine t') r \<and> \<not> e_tickClosed (t_engine t')"
proof -
  let ?n = "t_last t r + 1"
  have w: "waitTick (t_engine t) (t_last t r) = Some (Some ?n)" using r by (simp add: waitTick_def)
  obtain e' where e': "turn r ?n (t_engine t) = Inr e'" "engine_inv e'" using turn_inv [OF inv(1)] by blast
  let ?t = "t\<lparr>t_engine := e', t_last := (t_last t)(r := ?n)\<rparr>"
  have step: "run_turn r t = Inr ?t" using r(1) w e'(1) by (simp add: run_turn_def)
  then show ?thesis using turn_frame(1-3) [OF e'(1)] e'(2) tick_inv_turn [OF inv(2) step] r by simp
qed

lemma catches_up:
  assumes "engine_inv (t_engine t)" "tick_inv t" "launched (t_engine t) r" "\<not> e_tickClosed (t_engine t)"
    "t_last t r + int k \<le> e_tickN (t_engine t)"
  shows "\<exists>t'. traffic_run (replicate k (Turn r)) t = Inr t' \<and> t_last t' r = t_last t r + int k
    \<and> e_tickN (t_engine t') = e_tickN (t_engine t)"
  using assms
proof (induction k arbitrary: t)
  case (Suc k)
  then obtain t1 where t1: "run_turn r t = Inr t1" "t_last t1 r = t_last t r + 1" "e_tickN (t_engine t1) = e_tickN (t_engine t)"
    "engine_inv (t_engine t1)" "tick_inv t1" "launched (t_engine t1) r" "\<not> e_tickClosed (t_engine t1)"
    using run_turn_advances [of t r] by auto
  then show ?case using Suc.IH [of t1] Suc.prems(5) by auto
qed simp

text \<open>
  A vehicle registered while the broadcast tick is \<open>n\<close> is not driven once per tick from
  then on: its goroutine starts at tick 0 and takes up to \<open>n\<close> steps at once, with no clock
  tick between them, so that the vehicle travels in no simulated time.
\<close>

theorem new_vehicle_catches_up:
  assumes "setup_ok order cfg g" "simulates order cfg g as t" "\<not> e_tickClosed (t_engine t)"
    and reg: "RegisterVehicle c req (t_engine t) = (Return res, e')" and k: "int k \<le> e_tickN (t_engine t)"
  shows "\<exists>t'. traffic_run (DoRegister c req # replicate k (Turn (VehicleLoop (rq_Plate req)))) t = Inr t'
    \<and> t_last t' (VehicleLoop (rq_Plate req)) = int k \<and> e_tickN (t_engine t') = e_tickN (t_engine t)"
proof -
  let ?r = "VehicleLoop (rq_Plate req)"
  have inv: "engine_inv (t_engine t)" "tick_inv t" using simulates_inv simulates_tick_inv assms(1,2) by blast+
  have none: "e_vehicles (t_engine t) (rq_Plate req) = None \<and> e_vehicles e' (rq_Plate req) \<noteq> None
      \<and> e_tickClosed e' = e_tickClosed (t_engine t)"
    by (cases rule: RegisterVehicle_cases [OF inv(1), of c req]) (use reg in auto)
  have zero: "t_last t ?r = 0" using tick_invD(6) [OF inv(2), of ?r] none by simp
  let ?t = "t\<lparr>t_engine := e'\<rparr>"
  have adds: "adds_vehicles (t_engine t) e'" using RegisterVehicle_adds [OF inv(1), of c req] reg by simp
  have "engine_inv e'" using RegisterVehicle_inv [OF inv(1), of c req] reg by simp
  moreover have "tick_inv ?t" using tick_inv_register [OF inv(2) adds] .
  moreover have "e_tickN e' = e_tickN (t_engine t)" using adds by (simp add: adds_vehicles_def)
  ultimately have "\<exists>t'. traffic_run (replicate k (Turn ?r)) ?t = Inr t' \<and> t_last t' ?r = int k \<and> e_tickN (t_engine t') = e_tickN (t_engine t)"
    using catches_up [of ?t ?r k] none assms(3) zero k by simp
  then show ?thesis using reg by (simp add: after_op_def)
qed

lemma route_self:
  assumes inv: "roads_inv e" and a: "0 \<le> a" "a < NumIntersections (e_cfg e)"
  shows "\<exists>path w. route e a a kind = Return (path, w)"
proof -
  let ?g = "(e, kind \<noteq> VehicleTypeEmergency)"
  obtain res d where sp: "ShortestPath (view_Nodes ?g) (Neighbors ?g) a a = Some (Inr (res, d))"
    "\<forall>es. walk (Neighbors ?g) a es a \<longrightarrow> d \<le> walk_cost es" "res = None \<longrightarrow> d = PosInf" "res \<noteq> None \<longrightarrow> d \<noteq> PosInf"
    using engine_view.ShortestPath_correct [of ?g a a] assms by (fastforce simp: view_Nodes_def split: option.splits)
  have "d \<le> 0" using sp(2) [rule_format, of "[]"] by simp
  then have "d \<noteq> PosInf" by (auto simp: zero_f64_def)
  then show ?thesis using sp by (cases res) (auto simp: route_def)
qed

lemma sample_first_tick:
  "\<exists>t. simulates [0] sample_cfg sample_graph [ClockStep, DriveTick] t \<and> e_tickN (t_engine t) = 1
    \<and> \<not> e_tickClosed (t_engine t) \<and> e_vehicles (t_engine t) = Map.empty \<and> e_cfg (t_engine t) = sample_cfg"
proof -
  obtain e where e: "New [0] sample_cfg (Some sample_graph) True = Return e" "e_vehicles e = Map.empty" "\<not> e_tickClosed e"
    using New_ok [OF sample_setup] by blast
  have "e_cfg e = sample_cfg" using New_inv [OF e(1)] sample_setup by (simp add: setup_ok_def)
  then show ?thesis using e
    by (auto simp: simulates_def start_traffic_def clock_Step_def NewManualClock_def)
qed

theorem new_vehicle_catches_up_witness:
  "\<exists>t t'. simulates [0] sample_cfg sample_graph [ClockStep, DriveTick] t
    \<and> traffic_run [DoRegister False \<lparr>rq_Plate = ''A'', rq_From = 0, rq_To = 0, rq_Type = ''normal''\<rparr>, Turn (VehicleLoop ''A'')] t = Inr t'
    \<and> t_last t' (VehicleLoop ''A'') = 1"
proof -
  let ?req = "\<lparr>rq_Plate = ''A'', rq_From = 0, rq_To = 0, rq_Type = ''normal''\<rparr>"
  obtain t where t: "simulates [0] sample_cfg sample_graph [ClockStep, DriveTick] t" "e_tickN (t_engine t) = 1"
    "\<not> e_tickClosed (t_engine t)" "e_vehicles (t_engine t) = Map.empty" "e_cfg (t_engine t) = sample_cfg"
    using sample_first_tick by blast
  have n: "NumIntersections (e_cfg (t_engine t)) = 2" using t(5) by (simp add: sample_cfg_def)
  have inv: "roads_inv (t_engine t)" using simulates_inv [OF sample_setup t(1)] by (simp add: engine_inv_def)
  have "0 < NumIntersections (e_cfg (t_engine t))" using n by simp
  then obtain path w where "route (t_engine t) 0 0 ''normal'' = Return (path, w)" using route_self [OF inv] by blast
  then obtain r e' where "RegisterVehicle False ?req (t_engine t) = (Return r, e')"
    using n t(4) by (auto simp: RegisterVehicle_def VehicleTypeNormal_def)
  then show ?thesis using new_vehicle_catches_up [OF sample_setup t(1,3), of False ?req r e' 1] t(1,2) by auto
qed

section \<open>Routes\<close>

text \<open>
  C4. Routing is exact: in every run, for intersections in range \<open>Route\<close> returns a path of
  distinct intersections from start to destination, whose travel time over the live
  congestion and corridor penalties is its ETA and is at most that of every other walk; it
  reports that there is no route only when every walk has an infinite travel time; out of
  range intersections are refused.
\<close>

theorem route_is_shortest:
  assumes "setup_ok order cfg g" "simulates order cfg g as t"
  shows "let e = t_engine t; n = NumIntersections (e_cfg e); view = Neighbors (e, True) in
    if src < 0 \<or> n \<le> src then Route False src dst e = Error FromOutOfRange
    else if dst < 0 \<or> n \<le> dst then Route False src dst e = Error ToOutOfRange
    else (Route False src dst e = Error NoRoute \<and> (\<forall>es. walk view src es dst \<longrightarrow> walk_cost es = PosInf))
      \<or> (\<exists>es. Route False src dst e = Return (walk_nodes src es, walk_cost es) \<and> walk view src es dst
           \<and> distinct (walk_nodes src es) \<and> walk_cost es \<noteq> PosInf
           \<and> (\<forall>es'. walk view src es' dst \<longrightarrow> walk_cost es \<le> walk_cost es'))"
proof -
  let ?e = "t_engine t"
  let ?n = "NumIntersections (e_cfg ?e)" and ?g = "(?e, True)"
  have inv: "roads_inv ?e" using simulates_inv [OF assms] by (simp add: engine_inv_def)
  have kind: "VehicleTypeNormal \<noteq> VehicleTypeEmergency" by (simp add: VehicleTypeNormal_def VehicleTypeEmergency_def)
  have "(Route False src dst ?e = Error NoRoute \<and> (\<forall>es. walk (Neighbors ?g) src es dst \<longrightarrow> walk_cost es = PosInf))
      \<or> (\<exists>es. Route False src dst ?e = Return (walk_nodes src es, walk_cost es) \<and> walk (Neighbors ?g) src es dst
           \<and> distinct (walk_nodes src es) \<and> walk_cost es \<noteq> PosInf
           \<and> (\<forall>es'. walk (Neighbors ?g) src es' dst \<longrightarrow> walk_cost es \<le> walk_cost es'))"
    if r: "0 \<le> src" "src < ?n" "0 \<le> dst" "dst < ?n"
  proof -
    obtain res d where sp: "ShortestPath (view_Nodes ?g) (Neighbors ?g) src dst = Some (Inr (res, d))"
      "\<forall>es. walk (Neighbors ?g) src es dst \<longrightarrow> d \<le> walk_cost es"
      "case res of None \<Rightarrow> d = PosInf | Some path \<Rightarrow> d \<noteq> PosInf
         \<and> (\<exists>es. walk (Neighbors ?g) src es dst \<and> path = walk_nodes src es \<and> distinct path \<and> walk_cost es = d)"
      using engine_view.ShortestPath_correct [of ?g src dst] inv r by (auto simp: view_Nodes_def)
    have unf: "Route False src dst ?e = (case res of None \<Rightarrow> Error NoRoute | Some path \<Rightarrow> if d = PosInf then Error NoRoute else Return (path, d))"
      using r sp(1) kind by (simp add: Route_def route_def split: option.split)
    show ?thesis
    proof (cases res)
      case None
      have "walk_cost es = PosInf" if "walk (Neighbors ?g) src es dst" for es
        using sp(2) that sp(3) None by (cases "walk_cost es") auto
      then show ?thesis using unf None by simp
    next
      case (Some path)
      then show ?thesis using unf sp(2,3) by auto
    qed
  qed
  then show ?thesis by (auto simp: Let_def Route_def)
qed

theorem route_is_shortest_witness:
  "\<exists>t. simulates [0] sample_cfg sample_graph [] t \<and> Route False 5 0 (t_engine t) = Error FromOutOfRange"
proof -
  obtain e where e: "New [0] sample_cfg (Some sample_graph) True = Return e" using New_ok [OF sample_setup] by blast
  have sim: "simulates [0] sample_cfg sample_graph [] (start_traffic e)" using e by (simp add: simulates_def)
  have "NumIntersections (e_cfg (t_engine (start_traffic e))) = 2"
    using New_inv [OF e] sample_setup by (simp add: setup_ok_def start_traffic_def sample_cfg_def)
  then have "Route False 5 0 (t_engine (start_traffic e)) = Error FromOutOfRange"
    using route_is_shortest [OF sample_setup sim, of 5 0] by (simp add: Let_def)
  then show ?thesis using sim by blast
qed

section \<open>Emergency dispatch\<close>

lemma mark_hops:
  "fold (mark_hop (e_graph e)) hs corr = corr \<union> {r_ID r | a b r. (a, b) \<in> set hs \<and> hop_road e a b = Some r}"
proof (induction hs arbitrary: corr)
  case (Cons h hs)
  obtain a b where h: "h = (a, b)" by (cases h)
  have "mark_hop (e_graph e) h corr = corr \<union> {r_ID r | r. hop_road e a b = Some r}"
    by (auto simp: mark_hop_def hop_road_def h split: option.splits)
  then show ?case unfolding h fold.simps comp_apply Cons.IH by auto
qed simp

definition green_for :: "int \<Rightarrow> int \<Rightarrow> phase" where
  "green_for a b = (if movementDirection a b = NS then PhaseGreenNS else PhaseGreenEW)"

lemma green_for_allows: "phaseAllows (green_for a b) (movementDirection a b)"
  by (simp add: green_for_def phaseAllows_def movementDirection_def)

lemma preempt_hops_other: "a \<notin> fst ` set hs \<Longrightarrow> fold (preempt_hop cfg) hs ss a = ss a"
proof (induction hs arbitrary: ss)
  case (Cons h hs)
  then show ?case by (auto simp: preempt_hop_def split: option.splits)
qed simp

lemma preempt_hops_at:
  "distinct (map fst hs) \<Longrightarrow> (a, b) \<in> set hs \<Longrightarrow> ss a = Some s
    \<Longrightarrow> fold (preempt_hop cfg) hs ss a = Some (setPreempt s (green_for a b) (PreemptionTicks cfg))"
proof (induction hs arbitrary: ss)
  case (Cons h hs)
  show ?case
  proof (cases "h = (a, b)")
    case True
    then have "fold (preempt_hop cfg) hs (preempt_hop cfg h ss) a = preempt_hop cfg h ss a"
      using Cons.prems(1) by (intro preempt_hops_other) force
    moreover have "preempt_hop cfg h ss a = Some (setPreempt s (green_for a b) (PreemptionTicks cfg))"
      using True Cons.prems(3) by (simp add: preempt_hop_def green_for_def)
    ultimately show ?thesis by simp
  next
    case False
    then have mem: "(a, b) \<in> set hs" using Cons.prems(2) by auto
    then have "a \<in> set (map fst hs)" by force
    then have "fst h \<noteq> a" using Cons.prems(1) by auto
    note mem
    moreover have "preempt_hop cfg h ss a = Some s"
      using Cons.prems(3) \<open>fst h \<noteq> a\<close> by (auto simp: preempt_hop_def split: option.splits)
    ultimately show ?thesis using Cons.IH Cons.prems(1) by simp
  qed
qed simp

lemma map_fst_hops: "map fst (hops p) = butlast p"
  by (induction p rule: hops.induct) auto

lemma hops_starts: "(a, b) \<in> set (hops p) \<Longrightarrow> a \<in> set p"
  by (induction p rule: hops.induct) auto

text \<open>
  C37. An emergency dispatch opens the corridor: when the route exists, afterwards exactly the
  roads along the path are on the corridor, until the tick \<open>PreemptionTicks\<close> from now, and
  every controller along the path is preempted for the green phase that lets the vehicle
  through, while all other controllers are as before; the vehicle is registered on that
  path.  When the plate is taken, the call returns an error, yet the corridor is set all the
  same.
\<close>

theorem dispatch_opens_corridor:
  assumes "setup_ok order cfg g" "simulates order cfg g as t" and plate: "plate \<noteq> ''''"
    and range: "0 \<le> src" "src < NumIntersections (e_cfg (t_engine t))" "0 \<le> dst" "dst < NumIntersections (e_cfg (t_engine t))"
    and long: "src \<noteq> dst" and route: "route (t_engine t) src dst VehicleTypeEmergency = Return (path, w)"
  shows "\<exists>e'. snd (DispatchEmergency False plate src dst (t_engine t)) = e'
    \<and> e_roadOnCorr e' = {r_ID r | a b r. (a, b) \<in> set (hops path) \<and> hop_road (t_engine t) a b = Some r}
    \<and> e_emergencyUntilTick e' = wrap64 (e_tickN (t_engine t) + PreemptionTicks (e_cfg (t_engine t)))
    \<and> (\<forall>(a, b)\<in>set (hops path). \<exists>s. e_signals (t_engine t) a = Some s
         \<and> e_signals e' a = Some (setPreempt s (green_for a b) (PreemptionTicks (e_cfg (t_engine t)))))
    \<and> (\<forall>a. a \<notin> set (butlast path) \<longrightarrow> e_signals e' a = e_signals (t_engine t) a)
    \<and> (if e_vehicles (t_engine t) plate = None
       then \<exists>v. e_vehicles e' plate = Some v \<and> v_kind v = VehicleTypeEmergency \<and> v_at v = src \<and> v_to v = dst
       else fst (DispatchEmergency False plate src dst (t_engine t)) = Error VehicleExists
         \<and> e_vehicles e' = e_vehicles (t_engine t))"
proof -
  let ?e = "t_engine t"
  let ?c = "setEmergencyCorridor path ?e"
  let ?req = "\<lparr>rq_Plate = plate, rq_From = src, rq_To = dst, rq_Type = VehicleTypeEmergency\<rparr>"
  have inv: "engine_inv ?e" using simulates_inv [OF assms(1,2)] .
  have p: "path_ok ?e path" "hd path = src" "last path = dst"
    using route_ok [OF engine_invD(1) [OF inv] range, of VehicleTypeEmergency] route by auto
  then have len: "\<not> length path < 2" using long by (cases path rule: hops.cases) (auto simp: path_ok_def)
  have c: "e_signals ?c = fold (preempt_hop (e_cfg ?e)) (hops path) (e_signals ?e)"
    "e_roadOnCorr ?c = {r_ID r | a b r. (a, b) \<in> set (hops path) \<and> hop_road ?e a b = Some r}"
    "e_emergencyUntilTick ?c = wrap64 (e_tickN ?e + PreemptionTicks (e_cfg ?e))" "e_vehicles ?c = e_vehicles ?e" "e_cfg ?c = e_cfg ?e"
    using len by (simp_all add: setEmergencyCorridor_def mark_hops [of ?e])
  have emerg: "VehicleTypeEmergency \<noteq> ''''" by (simp add: VehicleTypeEmergency_def)
  have cinv: "engine_inv ?c" using setEmergencyCorridor_inv [OF inv] .
  have r2: "(\<exists>path' w'. route ?c src dst VehicleTypeEmergency = Return (path', w'))"
  proof -
    have roads: "e_roadByID ?c = e_roadByID ?e" "e_graph ?c = e_graph ?e" by (simp_all add: setEmergencyCorridor_def)
    have "view_edge ?c False = view_edge ?e False" unfolding view_edge_def roads simp_thms if_False ..
    then have "Neighbors (?c, False) = Neighbors (?e, False)" by (intro ext) (simp only: Neighbors_def fst_conv snd_conv roads)
    then have "route ?c src dst VehicleTypeEmergency = route ?e src dst VehicleTypeEmergency"
      by (simp add: route_def view_Nodes_def c(5))
    then show ?thesis using route by auto
  qed
  have reg: "RegisterVehicle False ?req ?c =
      (case route ?c src dst VehicleTypeEmergency of
         Return (path', w') \<Rightarrow>
           if e_vehicles ?c plate \<noteq> None then (Error VehicleExists, ?c)
           else (Return (path', w'), ?c\<lparr>e_vehicles := (e_vehicles ?c)(plate \<mapsto> new_vehicle ?req path')\<rparr>)
       | Error err \<Rightarrow> (Error err, ?c) | Panic p \<Rightarrow> (Panic p, ?c) | Diverges \<Rightarrow> (Diverges, ?c))"
    using plate range emerg c(5) by (simp add: RegisterVehicle_def Let_def split: outcome.split prod.split)
  let ?r = "RegisterVehicle False ?req ?c"
  have st: "snd (DispatchEmergency False plate src dst ?e) = snd ?r"
    using plate route by (simp add: DispatchEmergency_state)
  have fields: "e_signals (snd ?r) = e_signals ?c" "e_roadOnCorr (snd ?r) = e_roadOnCorr ?c"
    "e_emergencyUntilTick (snd ?r) = e_emergencyUntilTick ?c"
    using r2 unfolding reg by (auto split: if_splits)
  have sig: "\<exists>s. e_signals ?e a = Some s \<and> e_signals ?c a = Some (setPreempt s (green_for a b) (PreemptionTicks (e_cfg ?e)))"
    if h: "(a, b) \<in> set (hops path)" for a b
  proof -
    have "a \<in> set path" using hops_starts [OF h] .
    then have "0 \<le> a \<and> a < NumIntersections (e_cfg ?e)" using p(1) by (simp add: path_ok_def)
    then obtain s where s: "e_signals ?e a = Some s" using engine_invD(5) [OF inv] unfolding queues_inv_def by blast
    have "distinct (map fst (hops path))" using p(1) by (simp add: map_fst_hops path_ok_def distinct_butlast)
    then show ?thesis using preempt_hops_at [where hs = "hops path" and a = a and b = b and ss = "e_signals ?e" and s = s] h s c(1) by simp
  qed
  have other: "e_signals ?c a = e_signals ?e a" if "a \<notin> set (butlast path)" for a
    using that preempt_hops_other [of a "hops path"] c(1) by (metis list.set_map map_fst_hops)
  have veh: "if e_vehicles ?e plate = None
      then \<exists>v. e_vehicles (snd ?r) plate = Some v \<and> v_kind v = VehicleTypeEmergency \<and> v_at v = src \<and> v_to v = dst
      else fst (DispatchEmergency False plate src dst ?e) = Error VehicleExists \<and> e_vehicles (snd ?r) = e_vehicles ?e"
  proof (cases "e_vehicles ?e plate")
    case None
    then show ?thesis using r2 c(4) unfolding reg by (auto simp: new_vehicle_def)
  next
    case (Some v)
    then have "?r = (Error VehicleExists, ?c)" using r2 c(4) unfolding reg by auto
    then show ?thesis using Some plate route c(4) by (simp add: DispatchEmergency_def Let_def)
  qed
  show ?thesis
    by (intro exI [of _ "snd ?r"]) (use st fields c(2,3) sig other veh in auto)
qed

text \<open>
  \<open>DispatchEmergency\<close> does not check its arguments as \<open>RegisterVehicle\<close> does: an
  intersection number out of range makes it panic, in every state of every simulation, and
  changes nothing.
\<close>

theorem dispatch_out_of_range_panics:
  assumes "setup_ok order cfg g" "simulates order cfg g as t" "plate \<noteq> ''''"
    "src < 0 \<or> NumIntersections (e_cfg (t_engine t)) \<le> src"
  shows "DispatchEmergency False plate src dst (t_engine t) = (Panic IndexOutOfRange, t_engine t)
    \<and> fst (RegisterVehicle False \<lparr>rq_Plate = plate, rq_From = src, rq_To = dst, rq_Type = VehicleTypeEmergency\<rparr> (t_engine t))
        = Error FromOutOfRange"
proof -
  have "\<not> in_range (t_engine t) src" using assms(4) by (auto simp: in_range_def)
  then have "DispatchEmergency False plate src dst (t_engine t) = (Panic IndexOutOfRange, t_engine t)"
    using DispatchEmergency_out_of_range [OF simulates_inv [OF assms(1,2)]] assms(3) by blast
  then show ?thesis using assms(3,4) by (simp add: RegisterVehicle_def)
qed

theorem dispatch_out_of_range_panics_witness:
  "\<exists>t. simulates [0] sample_cfg sample_graph [ClockStep, DriveTick] t
    \<and> DispatchEmergency False ''A'' 2 0 (t_engine t) = (Panic IndexOutOfRange, t_engine t)"
proof -
  obtain t where t: "simulates [0] sample_cfg sample_graph [ClockStep, DriveTick] t" "e_cfg (t_engine t) = sample_cfg"
    using sample_first_tick by blast
  have "DispatchEmergency False ''A'' 2 0 (t_engine t) = (Panic IndexOutOfRange, t_engine t)"
    using dispatch_out_of_range_panics [OF sample_setup t(1), of "''A''" 2 0] t(2) by (simp add: sample_cfg_def)
  then show ?thesis using t(1) by blast
qed

lemma sample_weight: "0 + WeightMinutes (sample_road 7 0 1) \<noteq> PosInf"
proof -
  have r: "round64 0 = Fin 0" "round64 1 = Fin 1" "round64 60 = Fin 60"
    using f64_of_int_small [of 0] f64_of_int_small [of 1] f64_of_int_small [of 60] by (simp_all add: f64_of_int_def)
  have "round64 0 \<le> round64 (1 / 30)" "round64 (1 / 30) \<le> round64 1" by (simp_all add: round64_le)
  then obtain q where q: "round64 (1 / 30) = Fin q" "0 \<le> q" "q \<le> 1" using r by (cases "round64 (1 / 30)") auto
  have mult: "1 + f64_of_int (1 - 1) / Fin 10 = Fin 1" using r f64_of_int_small [of 0] by (simp add: one_f64_def)
  have "round64 0 \<le> round64 q" "round64 q \<le> round64 1" using q by (simp_all add: round64_le)
  then obtain p where p: "round64 q = Fin p" "0 \<le> p" "p \<le> 1" using r by (cases "round64 q") auto
  have "round64 (p * 60) \<le> round64 60" using p by (simp add: round64_le)
  moreover have "round64 0 \<le> round64 (p * 60)" using p by (simp add: round64_le)
  ultimately obtain x where x: "round64 (p * 60) = Fin x" using r by (cases "round64 (p * 60)") auto
  then have "round64 x = Fin x" using rep64_round64 [of "p * 60"] round64_Fin [of x] by simp
  then have "0 + round64 (p * 60) \<noteq> PosInf" using x by (simp add: zero_f64_def)
  moreover have "WeightMinutes (sample_road 7 0 1) = round64 (p * 60)"
    using q(1) p(1) mult by (simp add: WeightMinutes_def sample_road_def Let_def zero_f64_def one_f64_def)
  ultimately show ?thesis by simp
qed

lemma sample_route:
  "\<exists>t path w. simulates [0] sample_cfg sample_graph [] t \<and> NumIntersections (e_cfg (t_engine t)) = 2
     \<and> e_vehicles (t_engine t) = Map.empty \<and> route (t_engine t) 0 1 VehicleTypeEmergency = Return (path, w)"
proof -
  obtain e where e: "New [0] sample_cfg (Some sample_graph) True = Return e" "engine_inv e" "e_vehicles e = Map.empty"
    using New_ok [OF sample_setup] by blast
  have cfg: "e_cfg e = sample_cfg" "e_graph e = sample_graph" using New_inv [OF e(1)] sample_setup by (simp_all add: setup_ok_def)
  obtain ring where rs: "e_roadByID e = fold (index_road ring) (concat (map (adj sample_graph) [0])) Map.empty"
    using e(1) by (auto simp: New_def split: if_splits option.splits)
  have adj: "adj sample_graph 0 = [\<lparr>e_Road = Some (sample_road 7 0 1), e_To = 1\<rparr>]"
    by (simp add: sample_graph_def AddEdge_def NewGraph_def adj_def)
  have same: "(sample_road 7 0 1)\<lparr>r_Congestion := 1\<rparr> = sample_road 7 0 1" by (simp add: sample_road_def)
  have "e_roadByID e 7 = Some \<lparr>rs_road = sample_road 7 0 1, rs_congestion = 1, rs_occupancy = 0, rs_history = ring\<rparr>"
    unfolding rs by (simp add: adj index_road_def sample_road_def clampCongestion_def)
  moreover have "r_ID (sample_road 7 0 1) = 7" by (simp add: sample_road_def)
  ultimately have N: "Neighbors (e, False) 0 = [\<lparr>e_Road = Some (sample_road 7 0 1), e_To = 1\<rparr>]"
    by (simp add: Neighbors_def cfg adj view_edge_def same List.map_filter_simps)
  have n: "NumIntersections (e_cfg e) = 2" by (simp add: cfg sample_cfg_def)
  let ?g = "(e, False)" and ?es = "[\<lparr>e_Road = Some (sample_road 7 0 1), e_To = 1\<rparr>]"
  obtain res d where sp: "ShortestPath 2 (Neighbors ?g) 0 1 = Some (Inr (res, d))"
    "\<forall>es. walk (Neighbors ?g) 0 es 1 \<longrightarrow> d \<le> walk_cost es" "res = None \<longrightarrow> d = PosInf" "res \<noteq> None \<longrightarrow> d \<noteq> PosInf"
    using engine_view.ShortestPath_correct [of ?g 0 1] e(2) n by (fastforce simp: view_Nodes_def engine_inv_def split: option.splits)
  have "d \<le> walk_cost ?es" using sp(2) [rule_format, of ?es] N by simp
  also have "walk_cost ?es = 0 + WeightMinutes (sample_road 7 0 1)" by (simp add: walk_cost_def edge_weight_def)
  finally have "d \<noteq> PosInf" using sample_weight by (cases "0 + WeightMinutes (sample_road 7 0 1)") auto
  then obtain path where "route e 0 1 VehicleTypeEmergency = Return (path, d)"
    using sp n by (cases res) (auto simp: route_def view_Nodes_def)
  then show ?thesis using e(1,3) n by (auto simp: simulates_def start_traffic_def)
qed

theorem dispatch_opens_corridor_witness:
  "\<exists>t path v. simulates [0] sample_cfg sample_graph [] t
    \<and> e_roadOnCorr (snd (DispatchEmergency False ''A'' 0 1 (t_engine t)))
        = {r_ID r | a b r. (a, b) \<in> set (hops path) \<and> hop_road (t_engine t) a b = Some r}
    \<and> e_vehicles (snd (DispatchEmergency False ''A'' 0 1 (t_engine t))) ''A'' = Some v \<and> v_to v = 1"
proof -
  obtain t path w where t: "simulates [0] sample_cfg sample_graph [] t" "NumIntersections (e_cfg (t_engine t)) = 2"
    "e_vehicles (t_engine t) = Map.empty" "route (t_engine t) 0 1 VehicleTypeEmergency = Return (path, w)"
    using sample_route by blast
  have "e_vehicles (t_engine t) ''A'' = None" using t(3) by simp
  then show ?thesis
    using dispatch_opens_corridor [OF sample_setup t(1), of "''A''" 0 1 path w] t by auto
qed

section \<open>Congestion\<close>

text \<open>
  Congestion follows traffic: after every turn of the congestion updater the level of each
  road is two plus one for every five vehicles on it, at most ten, its history is the old
  one with this level appended (the oldest dropped when the window is full), and the
  corridor is gone exactly when its time has passed.
\<close>

theorem congestion_follows_traffic:
  assumes "setup_ok order cfg g" "simulates order cfg g as t"
    and road: "e_roadByID (t_engine t) k = Some rs"
  shows "\<exists>rs'. e_roadByID (updateCongestion n (t_engine t)) k = Some rs'
    \<and> rs_congestion rs' = min 10 (2 + count_veh (e_vehicles (t_engine t)) (driving k) div 5)
    \<and> rb_Items (rs_history rs') =
        (if rb_size (rs_history rs) < rb_cap (rs_history rs) then rb_Items (rs_history rs) else tl (rb_Items (rs_history rs)))
        @ [rs_congestion rs']
    \<and> rs_occupancy rs' = rs_occupancy rs
    \<and> e_roadOnCorr (updateCongestion n (t_engine t)) =
        (if 0 < e_emergencyUntilTick (t_engine t) \<and> e_emergencyUntilTick (t_engine t) < n then {} else e_roadOnCorr (t_engine t))"
proof -
  have inv: "engine_inv (t_engine t)" using simulates_inv [OF assms(1,2)] .
  have occ: "rs_occupancy rs = count_veh (e_vehicles (t_engine t)) (driving k)"
    using engine_invD(6) [OF inv] road by (simp add: occupancy_inv_def)
  have "rb_inv (rs_history rs)" using engine_invD(1) [OF inv] road by (simp add: roads_inv_def road_state_ok_def)
  moreover have "0 \<le> count_veh (e_vehicles (t_engine t)) (driving k) div 5" by (simp add: pos_imp_zdiv_nonneg_iff)
  ultimately show ?thesis using road occ
    by (auto simp: updateCongestion_def update_road_def Let_def clampCongestion_def rb_Items_Append)
qed

theorem congestion_follows_traffic_witness:
  "clampCongestion 2 = 2 \<and> (\<exists>t rs'. simulates [0] sample_cfg sample_graph [] t
     \<and> e_roadByID (updateCongestion 1 (t_engine t)) 7 = Some rs' \<and> rs_congestion rs' = 2)"
proof -
  obtain e where e: "New [0] sample_cfg (Some sample_graph) True = Return e" "engine_inv e" "e_vehicles e = Map.empty"
    using New_ok [OF sample_setup] by blast
  have g: "e_graph e = sample_graph" using New_inv [OF e(1)] sample_setup by (simp add: setup_ok_def)
  have "\<lparr>e_Road = Some (sample_road 7 0 1), e_To = 1\<rparr> \<in> set (adj sample_graph 0)"
    by (simp add: sample_graph_def AddEdge_def NewGraph_def adj_def)
  then have "e_roadByID e (r_ID (sample_road 7 0 1)) \<noteq> None"
    using e(2) g unfolding engine_inv_def roads_inv_def by fastforce
  then obtain rs where rs: "e_roadByID e 7 = Some rs" by (auto simp: sample_road_def)
  have sim: "simulates [0] sample_cfg sample_graph [] (start_traffic e)" using e(1) by (simp add: simulates_def)
  obtain rs' where "e_roadByID (updateCongestion 1 e) 7 = Some rs'" "rs_congestion rs' = min 10 (2 + count_veh (e_vehicles e) (driving 7) div 5)"
    using congestion_follows_traffic [OF sample_setup sim, of 7 rs 1] rs by (auto simp: start_traffic_def)
  then show ?thesis using sim e(3) by (auto simp: start_traffic_def clampCongestion_def)
qed

lemma average_not_NaN:
  assumes "\<forall>c\<in>set xs. 1 \<le> c \<and> c \<le> 10" "length xs \<le> 2 ^ 49"
  shows "meanInts xs \<noteq> NaN"
proof (cases "xs = []")
  case False
  have "sum_list xs \<le> 10 * int (length xs) \<and> 0 \<le> sum_list xs" using assms(1) by (induction xs) auto
  moreover have "int (length xs) \<le> 2 ^ 49" using assms(2) by (metis of_nat_le_iff of_nat_numeral of_nat_power)
  ultimately have "\<bar>sum_list xs\<bar> \<le> 2 ^ 53" "\<bar>int (length xs)\<bar> \<le> 2 ^ 53" by simp_all
  then show ?thesis using False by (simp add: meanInts_def f64_of_int_small)
qed (simp add: meanInts_def zero_f64_def)

lemma map_filter_the: "\<forall>k\<in>set ks. m k \<noteq> None \<Longrightarrow> List.map_filter m ks = map (\<lambda>k. the (m k)) ks"
  by (induction ks) (auto simp: List.map_filter_simps)

text \<open>
  The congestion report lists every road exactly once, with its level, its occupancy
  and the mean of its history, in order of falling average, and \<open>Top5\<close> is the head of that
  list, whatever the order in which the road map is visited (histories of at most \<open>2 ^ 49\<close>
  samples).
\<close>

theorem congestion_report_correct:
  assumes "setup_ok order cfg g" "simulates order cfg g as t" "iterates ks (e_roadByID (t_engine t))"
    and small: "\<forall>rs\<in>ran (e_roadByID (t_engine t)). rb_Len (rs_history rs) \<le> 2 ^ 49"
  shows "\<exists>roads. Congestion ks (t_engine t) = (roads, take 5 roads)
    \<and> mset roads = image_mset (\<lambda>k. road_report (t_engine t) (the (e_roadByID (t_engine t) k))) (mset ks)
    \<and> sorted_wrt (\<lambda>a b. \<not> rc_AvgCongestion a < rc_AvgCongestion b) roads
    \<and> (\<forall>r\<in>set roads. 1 \<le> rc_Congestion r \<and> rc_Congestion r \<le> 10
         \<and> rc_Occupancy r = count_veh (e_vehicles (t_engine t)) (driving (rc_RoadID r)))"
proof -
  let ?e = "t_engine t" and ?lt = "\<lambda>a b. rc_AvgCongestion b < rc_AvgCongestion a"
  have inv: "engine_inv ?e" using simulates_inv [OF assms(1,2)] .
  let ?rs = "map (road_report ?e) (range_values ks (e_roadByID ?e))"
  have vals: "range_values ks (e_roadByID ?e) = map (\<lambda>k. the (e_roadByID ?e k)) ks"
    using assms(3) unfolding range_values_def iterates_def by (intro map_filter_the) blast
  have ok: "rc_AvgCongestion r \<noteq> NaN \<and> 1 \<le> rc_Congestion r \<and> rc_Congestion r \<le> 10
      \<and> rc_Occupancy r = count_veh (e_vehicles ?e) (driving (rc_RoadID r))" if r: "r \<in> set ?rs" for r
  proof -
    obtain k rs where rs: "e_roadByID ?e k = Some rs" "r = road_report ?e rs"
      using r set_range_values [OF assms(3)] by (auto simp: ran_def)
    have "road_state_ok k rs" using engine_invD(1) [OF inv] rs(1) by (simp add: roads_inv_def)
    moreover have "rb_Len (rs_history rs) \<le> 2 ^ 49" using small rs(1) by (auto simp: ran_def)
    moreover have "rs_occupancy rs = count_veh (e_vehicles ?e) (driving k)"
      using engine_invD(6) [OF inv] rs(1) by (simp add: occupancy_inv_def)
    ultimately show ?thesis using average_not_NaN [of "rb_Items (rs_history rs)"] rs(2)
      by (simp add: road_report_def road_state_ok_def rb_Len_def rb_Items_length)
  qed
  have "sorted_wrt (\<lambda>a b. \<not> ?lt b a) (sort_slice ?lt ?rs)"
    by (rule strict_weak_order.sorted_sort_slice [OF strict_weak_order.flipped [OF f64_lt.on_key]]) (use ok in blast)
  then show ?thesis using ok vals
    by (intro exI [of _ "sort_slice ?lt ?rs"]) (auto simp: Congestion_def Let_def comp_def)
qed

theorem congestion_report_correct_witness:
  "\<exists>t ks roads. simulates [0] sample_cfg sample_graph [] t \<and> Congestion ks (t_engine t) = (roads, take 5 roads)
     \<and> sorted_wrt (\<lambda>a b. \<not> rc_AvgCongestion a < rc_AvgCongestion b) roads"
proof -
  obtain e where e: "New [0] sample_cfg (Some sample_graph) True = Return e"
    using New_ok [OF sample_setup] by blast
  then obtain ring where ring: "NewRingBuffer 0 (HistoryWindow sample_cfg) = Some ring"
    and rs: "e_roadByID e = fold (index_road ring) (concat (map (adj sample_graph) [0])) Map.empty"
    by (auto simp: New_def split: if_splits option.splits)
  have adj: "adj sample_graph 0 = [\<lparr>e_Road = Some (sample_road 7 0 1), e_To = 1\<rparr>]"
    by (simp add: sample_graph_def AddEdge_def NewGraph_def adj_def)
  have m: "e_roadByID e = [7 \<mapsto> \<lparr>rs_road = sample_road 7 0 1, rs_congestion = 1, rs_occupancy = 0, rs_history = ring\<rparr>]"
    unfolding rs by (simp add: adj index_road_def sample_road_def clampCongestion_def)
  have sim: "simulates [0] sample_cfg sample_graph [] (start_traffic e)" using e by (simp add: simulates_def)
  have "rb_Items ring = []" using NewRingBuffer_inv [OF ring] by simp
  then have "rb_size ring = 0" using rb_Items_length [of ring] by simp
  then show ?thesis using congestion_report_correct [OF sample_setup sim, of "[7]"] sim m
    by (fastforce simp: iterates_def start_traffic_def rb_Len_def)
qed

end
