(* ===== verification/Traffic_Scenario.thy ===== *)
theory Traffic_Scenario
  imports Traffic_Props
begin

text \<open>
  The scenario files of the simulation (\<open>capstone/internal/scenario/scenario.go\<close>) and how the
  command line program (\<open>capstone/cmd/cli/main.go\<close>) turns one into a running engine: the three
  road formats, the grid generator, reverse roads, validation, and the construction of the road
  graph.  What \<open>encoding/json\<close> makes of the file is the argument \<open>raw_scenario\<close>.

  Ids of generated roads count the elements of a slice, so they do not reach the end of \<open>int\<close>.
\<close>

section \<open>The document\<close>

record grid_config =
  gc_Cols :: int
  gc_Rows :: int
  gc_CellDist :: f64
  gc_Speed :: f64
  gc_Congestion :: int

record intersection =
  in_ID :: int
  in_X :: "int option"
  in_Y :: "int option"

record scen_road =
  sr_ID :: int
  sr_From :: int
  sr_To :: int
  sr_DistanceKm :: f64
  sr_SpeedKmph :: f64
  sr_Congestion :: int

record scen_vehicle =
  sv_Plate :: string
  sv_Type :: string
  sv_From :: int
  sv_To :: int

record scen_event =
  ev_Tick :: int
  ev_Type :: string
  ev_Plate :: string
  ev_From :: int
  ev_To :: int

record scenario =
  s_Name :: string
  s_TickMs :: int
  s_Bidirectional :: bool
  s_Intersections :: "intersection list"
  s_Roads :: "scen_road list"
  s_Vehicle :: scen_vehicle
  s_Events :: "scen_event list"

text \<open>
  The value of the key \<open>roads\<close>, as the two calls of \<open>json.Unmarshal\<close> decode it: as objects, as
  arrays of five numbers; \<open>None\<close> where the call fails.
\<close>

record raw_roads =
  rr_objects :: "scen_road list option"
  rr_arrays :: "(f64 \<times> f64 \<times> f64 \<times> f64 \<times> f64) list option"

record raw_scenario =
  raw_Name :: string
  raw_TickMs :: int
  raw_Bidirectional :: bool
  raw_Intersections :: "intersection list"
  raw_Roads :: "raw_roads option"
  raw_Grid :: "grid_config option"
  raw_Vehicle :: scen_vehicle
  raw_Events :: "scen_event list"

datatype scenario_error =
    Unreadable
  | BadRoads
  | TickMsRequired | IntersectionsRequired | RoadsRequired | VehiclePlateRequired | VehicleTypeRequired
  | BadVehicleType string
  | DuplicateIntersection int | CoordinatesRequired int
  | VehicleFromNotFound int | VehicleToNotFound int
  | DuplicateRoad int | RoadFromNotFound int int | RoadToNotFound int int
  | DistanceNotPositive int | SpeedNotPositive int | CongestionOutOfRange int
  | BadEventTick int | BadEventType string | EventPlateRequired | EventFromNotFound int | EventToNotFound int
  | MissingIntersection int

definition intersection_XY :: "intersection \<Rightarrow> int \<times> int \<times> bool" where
  "intersection_XY i =
     (case (in_X i, in_Y i) of (Some x, Some y) \<Rightarrow> (x, y, True) | _ \<Rightarrow> (0, 0, False))"

section \<open>The grid\<close>

definition grid_intersections :: "grid_config \<Rightarrow> intersection list" where
  "grid_intersections g =
     concat (map (\<lambda>col. map (\<lambda>row. \<lparr>in_ID = wrap64 (col * gc_Rows g + row), in_X = Some col, in_Y = Some row\<rparr>)
                          [0..gc_Rows g - 1])
              [0..gc_Cols g - 1])"

text \<open>Both directions between two neighbours, numbered from \<open>nextID\<close>.\<close>

definition grid_pair :: "grid_config \<Rightarrow> int \<times> int \<Rightarrow> scen_road list \<times> int \<Rightarrow> scen_road list \<times> int" where
  "grid_pair g = (\<lambda>(from, to) (roads, nextID).
     (roads @ [\<lparr>sr_ID = nextID, sr_From = from, sr_To = to, sr_DistanceKm = gc_CellDist g,
                sr_SpeedKmph = gc_Speed g, sr_Congestion = gc_Congestion g\<rparr>,
               \<lparr>sr_ID = nextID + 1, sr_From = to, sr_To = from, sr_DistanceKm = gc_CellDist g,
                sr_SpeedKmph = gc_Speed g, sr_Congestion = gc_Congestion g\<rparr>], nextID + 2))"

definition vertical_hops :: "grid_config \<Rightarrow> (int \<times> int) list" where
  "vertical_hops g =
     concat (map (\<lambda>col. map (\<lambda>row. let from = wrap64 (col * gc_Rows g + row) in (from, wrap64 (from + 1)))
                          [0..wrap64 (gc_Rows g - 1) - 1])
              [0..gc_Cols g - 1])"

definition horizontal_hops :: "grid_config \<Rightarrow> (int \<times> int) list" where
  "horizontal_hops g =
     concat (map (\<lambda>col. map (\<lambda>row. let from = wrap64 (col * gc_Rows g + row) in (from, wrap64 (from + gc_Rows g)))
                          [0..gc_Rows g - 1])
              [0..wrap64 (gc_Cols g - 1) - 1])"

definition generateGrid :: "grid_config \<Rightarrow> intersection list \<times> scen_road list" where
  "generateGrid g =
     (grid_intersections g, fst (fold (grid_pair g) (horizontal_hops g) (fold (grid_pair g) (vertical_hops g) ([], 1))))"

section \<open>Road lists\<close>

text \<open>The next id that no given road uses, from \<open>nextID\<close> on.\<close>

function next_free :: "int set \<Rightarrow> int \<Rightarrow> int" where
  "next_free used nextID = (if finite used \<and> nextID \<in> used then next_free used (nextID + 1) else nextID)"
  by pat_completeness auto
termination
proof (relation "measure (\<lambda>(used, n). card {x \<in> used. n \<le> x})", goal_cases)
  case (2 used n)
  then have "{x \<in> used. n + 1 \<le> x} \<subset> {x \<in> used. n \<le> x}" by force
  then show ?case using 2 by (simp add: psubset_card_mono)
qed simp

declare next_free.simps [simp del]

definition reverse_road :: "int \<Rightarrow> scen_road \<Rightarrow> scen_road" where
  "reverse_road nextID r = r\<lparr>sr_ID := nextID, sr_From := sr_To r, sr_To := sr_From r\<rparr>"

definition add_reverse :: "int set \<Rightarrow> scen_road \<Rightarrow> scen_road list \<times> int \<Rightarrow> scen_road list \<times> int" where
  "add_reverse used r = (\<lambda>(roads, nextID).
     let nextID = next_free used nextID in (roads @ [reverse_road nextID r], nextID + 1))"

definition appendBidirectional :: "scen_road list \<Rightarrow> scen_road list" where
  "appendBidirectional roads =
     fst (fold (add_reverse (sr_ID ` set roads)) roads (roads, int (length roads) + 1))"

definition compact_road :: "bool \<Rightarrow> f64 \<times> f64 \<times> f64 \<times> f64 \<times> f64 \<Rightarrow> scen_road list \<times> int \<Rightarrow> scen_road list \<times> int" where
  "compact_road bidirectional = (\<lambda>(r0, r1, r2, r3, r4) (roads, nextID).
     let r = \<lparr>sr_ID = nextID, sr_From = f64_to_int r0, sr_To = f64_to_int r1, sr_DistanceKm = r2, sr_SpeedKmph = r3,
              sr_Congestion = f64_to_int r4\<rparr>
     in if bidirectional then (roads @ [r, reverse_road (nextID + 1) r], nextID + 2) else (roads @ [r], nextID + 1))"

definition default_id :: "nat \<Rightarrow> scen_road \<Rightarrow> scen_road" where
  "default_id i r = (if sr_ID r = 0 then r\<lparr>sr_ID := int i + 1\<rparr> else r)"

definition parseRoads :: "raw_roads \<Rightarrow> bool \<Rightarrow> scenario_error + scen_road list" where
  "parseRoads raw bidirectional =
     (case rr_objects raw of
        Some roads \<Rightarrow>
          (let roads = map2 default_id [0..<length roads] roads
           in Inr (if bidirectional then appendBidirectional roads else roads))
      | None \<Rightarrow>
          (case rr_arrays raw of
             None \<Rightarrow> Inl BadRoads
           | Some rows \<Rightarrow> Inr (fst (fold (compact_road bidirectional) rows ([], 1)))))"

section \<open>Validation\<close>

definition index_intersection :: "intersection \<Rightarrow> (int \<rightharpoonup> intersection) \<Rightarrow> (int \<rightharpoonup> intersection)" where
  "index_intersection i byID = byID(in_ID i \<mapsto> i)"
fun check_intersections :: "intersection list \<Rightarrow> (int \<rightharpoonup> intersection) \<Rightarrow> scenario_error + (int \<rightharpoonup> intersection)" where
  "check_intersections [] byID = Inr byID"
| "check_intersections (i # is) byID =
     (if byID (in_ID i) \<noteq> None then Inl (DuplicateIntersection (in_ID i))
      else if in_X i = None \<or> in_Y i = None then Inl (CoordinatesRequired (in_ID i))
      else check_intersections is (index_intersection i byID))"

fun check_roads :: "(int \<rightharpoonup> intersection) \<Rightarrow> scen_road list \<Rightarrow> int set \<Rightarrow> scenario_error option" where
  "check_roads byID [] roadIDs = None"
| "check_roads byID (r # rs) roadIDs =
     (if sr_ID r \<in> roadIDs then Some (DuplicateRoad (sr_ID r))
      else if byID (sr_From r) = None then Some (RoadFromNotFound (sr_ID r) (sr_From r))
      else if byID (sr_To r) = None then Some (RoadToNotFound (sr_ID r) (sr_To r))
      else if sr_DistanceKm r \<le> 0 then Some (DistanceNotPositive (sr_ID r))
      else if sr_SpeedKmph r \<le> 0 then Some (SpeedNotPositive (sr_ID r))
      else if sr_Congestion r < 1 \<or> 10 < sr_Congestion r then Some (CongestionOutOfRange (sr_ID r))
      else check_roads byID rs (insert (sr_ID r) roadIDs))"

fun check_events :: "(int \<rightharpoonup> intersection) \<Rightarrow> scen_event list \<Rightarrow> scenario_error option" where
  "check_events byID [] = None"
| "check_events byID (ev # evs) =
     (if ev_Tick ev < 1 then Some (BadEventTick (ev_Tick ev))
      else if ev_Type ev \<noteq> ''emergency'' then Some (BadEventType (ev_Type ev))
      else if ev_Plate ev = '''' then Some EventPlateRequired
      else if byID (ev_From ev) = None then Some (EventFromNotFound (ev_From ev))
      else if byID (ev_To ev) = None then Some (EventToNotFound (ev_To ev))
      else check_events byID evs)"

definition Validate :: "scenario \<Rightarrow> scenario_error option" where
  "Validate s =
     (if s_TickMs s \<le> 0 then Some TickMsRequired
      else if s_Intersections s = [] then Some IntersectionsRequired
      else if s_Roads s = [] then Some RoadsRequired
      else if sv_Plate (s_Vehicle s) = '''' then Some VehiclePlateRequired
      else if sv_Type (s_Vehicle s) = '''' then Some VehicleTypeRequired
      else if sv_Type (s_Vehicle s) \<noteq> ''normal'' \<and> sv_Type (s_Vehicle s) \<noteq> ''emergency''
      then Some (BadVehicleType (sv_Type (s_Vehicle s)))
      else case check_intersections (s_Intersections s) Map.empty of
             Inl e \<Rightarrow> Some e
           | Inr byID \<Rightarrow>
               if byID (sv_From (s_Vehicle s)) = None then Some (VehicleFromNotFound (sv_From (s_Vehicle s)))
               else if byID (sv_To (s_Vehicle s)) = None then Some (VehicleToNotFound (sv_To (s_Vehicle s)))
               else case check_roads byID (s_Roads s) {} of
                      Some e \<Rightarrow> Some e
                    | None \<Rightarrow> check_events byID (s_Events s))"

section \<open>Loading and building\<close>

text \<open>\<open>Inl\<close> of the argument is a file that cannot be read or decoded.\<close>

definition LoadFile :: "unit + raw_scenario \<Rightarrow> scenario_error + scenario" where
  "LoadFile doc =
     (case doc of
        Inl _ \<Rightarrow> Inl Unreadable
      | Inr raw \<Rightarrow>
          (case (case raw_Grid raw of
                   Some g \<Rightarrow> Inr (generateGrid g)
                 | None \<Rightarrow>
                     (case raw_Roads raw of
                        None \<Rightarrow> Inr (raw_Intersections raw, [])
                      | Some rr \<Rightarrow>
                          (case parseRoads rr (raw_Bidirectional raw) of
                             Inl e \<Rightarrow> Inl e | Inr roads \<Rightarrow> Inr (raw_Intersections raw, roads)))) of
             Inl e \<Rightarrow> Inl e
           | Inr (intersections, roads) \<Rightarrow>
               (let s = \<lparr>s_Name = raw_Name raw, s_TickMs = raw_TickMs raw, s_Bidirectional = raw_Bidirectional raw,
                         s_Intersections = intersections, s_Roads = roads, s_Vehicle = raw_Vehicle raw,
                         s_Events = raw_Events raw\<rparr>
                in case Validate s of
                     Some e \<Rightarrow> Inl e
                   | None \<Rightarrow> Inr (s\<lparr>s_Events := sort_slice (\<lambda>a b. ev_Tick a < ev_Tick b) (s_Events s)\<rparr>))))"

definition scenario_tick :: "scenario \<Rightarrow> duration" where
  "scenario_tick s = wrap64 (s_TickMs s * 1000000)"

record built =
  bt_Graph :: graph
  bt_Intersections :: "int \<rightharpoonup> intersection"

definition model_road :: "scen_road \<Rightarrow> road" where
  "model_road r =
     \<lparr>r_ID = sr_ID r, r_From = sr_From r, r_To = sr_To r, r_Distance = sr_DistanceKm r, r_SpeedLimit = sr_SpeedKmph r,
      r_Congestion = sr_Congestion r\<rparr>"

definition Build :: "scenario \<Rightarrow> scenario_error + built" where
  "Build s =
     (let ids = sort_slice (<) (map in_ID (s_Intersections s))
      in case find (\<lambda>i. ids ! i \<noteq> int i) [0..<length ids] of
           Some i \<Rightarrow> Inl (MissingIntersection (int i))
         | None \<Rightarrow>
             Inr \<lparr>bt_Graph = fold (\<lambda>r g. AddEdge g (sr_From r) (sr_To r) (Some (model_road r))) (s_Roads s)
                                (NewGraph (int (length (s_Intersections s)))),
                  bt_Intersections = fold index_intersection (s_Intersections s) Map.empty\<rparr>)"

definition built_XY :: "built \<Rightarrow> int \<Rightarrow> int \<times> int \<times> bool" where
  "built_XY b i = (case bt_Intersections b i of None \<Rightarrow> (0, 0, False) | Some x \<Rightarrow> intersection_XY x)"

section \<open>The command line program\<close>

text \<open>
  \<open>RealClock\<close>: its goroutine makes a ticker, which panics for an interval that is not positive,
  and sends the numbered ticks on a channel of capacity one.
\<close>

record real_clock =
  rc_c :: "int list"
  rc_n :: int

definition NewRealClock :: "duration \<Rightarrow> go_panic + real_clock" where
  "NewRealClock d = (if d \<le> 0 then Inl NonPositiveInterval else Inr \<lparr>rc_c = [], rc_n = 0\<rparr>)"

definition rc_Tick :: "real_clock \<Rightarrow> real_clock option" where
  "rc_Tick r = (if length (rc_c r) < 1 then Some \<lparr>rc_c = rc_c r @ [rc_n r + 1], rc_n = rc_n r + 1\<rparr> else None)"

definition cli_config :: "scenario \<Rightarrow> built \<Rightarrow> config" where
  "cli_config s b = DefaultConfig\<lparr>NumIntersections := g_Nodes (bt_Graph b), TickDuration := scenario_tick s\<rparr>"

definition cli_request :: "scenario \<Rightarrow> register_request" where
  "cli_request s =
     \<lparr>rq_Plate = sv_Plate (s_Vehicle s), rq_From = sv_From (s_Vehicle s), rq_To = sv_To (s_Vehicle s),
      rq_Type = (if sv_Type (s_Vehicle s) = ''emergency'' then VehicleTypeEmergency else VehicleTypeNormal)\<rparr>"

text \<open>The events due at \<open>tick\<close> are dispatched in order; an error of a dispatch is only not printed.\<close>

fun fire_events :: "int \<Rightarrow> scen_event list \<Rightarrow> engine \<Rightarrow> go_panic + scen_event list \<times> engine" where
  "fire_events tick [] e = Inr ([], e)"
| "fire_events tick (ev # evs) e =
     (if ev_Tick ev \<noteq> tick then Inr (ev # evs, e)
      else if ev_Type ev \<noteq> ''emergency'' then fire_events tick evs e
      else case DispatchEmergency False (ev_Plate ev) (ev_From ev) (ev_To ev) e of
             (Panic p, e) \<Rightarrow> Inl p
           | (_, e) \<Rightarrow> fire_events tick evs e)"

text \<open>From the loaded scenario to the registered vehicle; an error ends the program with a message.\<close>

definition cli_start :: "int list \<Rightarrow> scenario \<Rightarrow> built \<Rightarrow> ((int list \<times> f64) \<times> engine) outcome" where
  "cli_start order s b =
     (let cfg = cli_config s b
      in case NewRealClock (TickDuration cfg) of
           Inl p \<Rightarrow> Panic p
         | Inr clock \<Rightarrow>
             (case New order cfg (Some (bt_Graph b)) True of
                Return e \<Rightarrow>
                  (case RegisterVehicle False (cli_request s) e of
                     (Return r, e) \<Rightarrow> Return (r, e)
                   | (Error err, e) \<Rightarrow> Error err
                   | (Panic p, e) \<Rightarrow> Panic p
                   | (Diverges, e) \<Rightarrow> Diverges)
              | Error err \<Rightarrow> Error err
              | Panic p \<Rightarrow> Panic p
              | Diverges \<Rightarrow> Diverges))"

text \<open>One iteration of the main loop, for the broadcast tick: it fails, goes on or sees the vehicle arrive.\<close>

datatype cli_next = CliFailed | CliGoOn | CliArrived

definition cli_turn :: "int \<Rightarrow> int \<Rightarrow> string \<Rightarrow> scen_event list \<Rightarrow> engine \<Rightarrow> go_panic + cli_next \<times> scen_event list \<times> engine" where
  "cli_turn maxTicks tick plate evs e =
     (if maxTicks < tick then Inr (CliFailed, evs, e)
      else case fire_events tick evs e of
             Inl p \<Rightarrow> Inl p
           | Inr (evs, e) \<Rightarrow>
               Inr (case VehicleStatus False plate e of
                      Return st \<Rightarrow> if vs_State st = VehicleArrived then CliArrived else CliGoOn
                    | _ \<Rightarrow> CliGoOn, evs, e))"

end
