(* ===== verification/Scenario_Correct.thy ===== *)
theory Scenario_Correct
  imports Traffic_Scenario
begin

text \<open>
  What loading and building a scenario guarantees: validation accepts exactly the well-formed
  scenarios, the built graph has exactly the given roads, a loaded scenario always gives a
  simulation that cannot panic, reverse roads get fresh ids, and a grid document gives the grid.
\<close>

section \<open>Validation\<close>

lemma index_at [simp]: "index_intersection i m (in_ID i) = Some i"
  and index_other: "k \<noteq> in_ID i \<Longrightarrow> index_intersection i m k = m k"
  and index_None: "index_intersection i m k = None \<longleftrightarrow> k \<noteq> in_ID i \<and> m k = None"
  and dom_index_intersection [simp]: "dom (index_intersection i m) = insert (in_ID i) (dom m)"
  by (simp_all add: index_intersection_def)

lemma check_intersections_iff:
  "check_intersections is m = Inr m' \<longleftrightarrow>
     distinct (map in_ID is) \<and> (\<forall>i\<in>set is. m (in_ID i) = None \<and> in_X i \<noteq> None \<and> in_Y i \<noteq> None)
     \<and> m' = fold index_intersection is m"
proof (induction "is" m rule: check_intersections.induct)
  case (2 i "is" m)
  show ?case
  proof (cases "m (in_ID i) = None \<and> in_X i \<noteq> None \<and> in_Y i \<noteq> None")
    case True
    have "(\<forall>j\<in>set is. index_intersection i m (in_ID j) = None \<and> P j)
      \<longleftrightarrow> in_ID i \<notin> in_ID ` set is \<and> (\<forall>j\<in>set is. m (in_ID j) = None \<and> P j)" for P
      by (auto simp: index_None image_iff)
    from this [of "\<lambda>j. in_X j \<noteq> None \<and> in_Y j \<noteq> None"] show ?thesis using 2 True by (simp; blast)
  qed auto
qed auto

definition road_valid :: "(int \<rightharpoonup> intersection) \<Rightarrow> scen_road \<Rightarrow> bool" where
  "road_valid byID r \<longleftrightarrow>
     byID (sr_From r) \<noteq> None \<and> byID (sr_To r) \<noteq> None \<and> \<not> sr_DistanceKm r \<le> 0 \<and> \<not> sr_SpeedKmph r \<le> 0
     \<and> 1 \<le> sr_Congestion r \<and> sr_Congestion r \<le> 10"

definition event_valid :: "(int \<rightharpoonup> intersection) \<Rightarrow> scen_event \<Rightarrow> bool" where
  "event_valid byID ev \<longleftrightarrow>
     1 \<le> ev_Tick ev \<and> ev_Type ev = ''emergency'' \<and> ev_Plate ev \<noteq> ''''
     \<and> byID (ev_From ev) \<noteq> None \<and> byID (ev_To ev) \<noteq> None"

lemma check_roads_iff:
  "check_roads byID rs used = None \<longleftrightarrow>
     distinct (map sr_ID rs) \<and> sr_ID ` set rs \<inter> used = {} \<and> (\<forall>r\<in>set rs. road_valid byID r)"
  by (induction byID rs used rule: check_roads.induct) (auto simp: road_valid_def)

lemma check_events_iff: "check_events byID evs = None \<longleftrightarrow> (\<forall>ev\<in>set evs. event_valid byID ev)"
  by (induction byID evs rule: check_events.induct) (auto simp: event_valid_def)

definition index_intersections :: "intersection list \<Rightarrow> (int \<rightharpoonup> intersection)" where
  "index_intersections is = fold index_intersection is Map.empty"

lemma dom_fold_index: "dom (fold index_intersection is m) = dom m \<union> in_ID ` set is"
  by (induction "is" arbitrary: m) auto

lemma dom_index [simp]: "dom (index_intersections is) = in_ID ` set is"
  by (simp add: index_intersections_def dom_fold_index)

lemma index_known [simp]: "index_intersections is k \<noteq> None \<longleftrightarrow> k \<in> in_ID ` set is"
  using dom_index [of "is"] by blast

lemma fold_index_other: "k \<notin> in_ID ` set is \<Longrightarrow> fold index_intersection is m k = m k"
  by (induction "is" arbitrary: m) (simp_all add: index_other)

lemma index_lookup: "distinct (map in_ID is) \<Longrightarrow> i \<in> set is \<Longrightarrow> index_intersections is (in_ID i) = Some i"
proof -
  have "distinct (map in_ID is) \<Longrightarrow> i \<in> set is \<Longrightarrow> fold index_intersection is m (in_ID i) = Some i" for m
  proof (induction "is" arbitrary: m)
    case (Cons x xs)
    then show ?case by (cases "i = x") (simp_all add: fold_index_other)
  qed simp
  then show "distinct (map in_ID is) \<Longrightarrow> i \<in> set is \<Longrightarrow> ?thesis" by (simp add: index_intersections_def)
qed

text \<open>What a valid scenario is.\<close>

definition scenario_valid :: "scenario \<Rightarrow> bool" where
  "scenario_valid s \<longleftrightarrow>
     (let byID = index_intersections (s_Intersections s); v = s_Vehicle s
      in 0 < s_TickMs s \<and> s_Intersections s \<noteq> [] \<and> s_Roads s \<noteq> []
         \<and> sv_Plate v \<noteq> '''' \<and> (sv_Type v = ''normal'' \<or> sv_Type v = ''emergency'')
         \<and> distinct (map in_ID (s_Intersections s)) \<and> (\<forall>i\<in>set (s_Intersections s). in_X i \<noteq> None \<and> in_Y i \<noteq> None)
         \<and> byID (sv_From v) \<noteq> None \<and> byID (sv_To v) \<noteq> None
         \<and> distinct (map sr_ID (s_Roads s)) \<and> (\<forall>r\<in>set (s_Roads s). road_valid byID r)
         \<and> (\<forall>ev\<in>set (s_Events s). event_valid byID ev))"

lemma Validate_iff: "Validate s = None \<longleftrightarrow> scenario_valid s"
proof (cases "check_intersections (s_Intersections s) Map.empty")
  case (Inl e)
  then have "\<not> (distinct (map in_ID (s_Intersections s)) \<and> (\<forall>i\<in>set (s_Intersections s). in_X i \<noteq> None \<and> in_Y i \<noteq> None))"
    using check_intersections_iff [of "s_Intersections s" Map.empty "index_intersections (s_Intersections s)"]
    by (auto simp: index_intersections_def)
  with Inl show ?thesis unfolding Validate_def scenario_valid_def Let_def by auto
next
  case (Inr m)
  then have m: "m = index_intersections (s_Intersections s)" "distinct (map in_ID (s_Intersections s))"
    "\<forall>i\<in>set (s_Intersections s). in_X i \<noteq> None \<and> in_Y i \<noteq> None"
    using check_intersections_iff [of "s_Intersections s" Map.empty m] by (auto simp: index_intersections_def)
  have r: "check_roads m (s_Roads s) {} = None \<longleftrightarrow> distinct (map sr_ID (s_Roads s)) \<and> (\<forall>r\<in>set (s_Roads s). road_valid m r)"
    by (simp add: check_roads_iff)
  show ?thesis
    unfolding Validate_def scenario_valid_def Let_def Inr m(1) [symmetric] sum.case
    using m(2,3) r by (auto simp: check_events_iff split: option.splits)
qed

section \<open>The graph\<close>

lemma adj_AddEdge: "adj (AddEdge g a b r) u = (if u = a then adj g a @ [\<lparr>e_Road = r, e_To = b\<rparr>] else adj g u)"
  by (simp add: AddEdge_def adj_def)

definition model_edge :: "scen_road \<Rightarrow> edge" where
  "model_edge r = \<lparr>e_Road = Some (model_road r), e_To = sr_To r\<rparr>"

lemma adj_fold_AddEdge:
  "adj (fold (\<lambda>r g. AddEdge g (sr_From r) (sr_To r) (Some (model_road r))) rs g) u =
     adj g u @ map model_edge (filter (\<lambda>r. sr_From r = u) rs)"
  by (induction rs arbitrary: g) (auto simp: adj_AddEdge model_edge_def)

lemma Nodes_fold_AddEdge: "g_Nodes (fold (\<lambda>r g. AddEdge g (sr_From r) (sr_To r) (Some (model_road r))) rs g) = g_Nodes g"
  by (induction rs arbitrary: g) (auto simp: AddEdge_def)

lemma nth_upto: "length xs = n \<Longrightarrow> (\<forall>i<n. xs ! i = int i) \<longleftrightarrow> xs = map int [0..<n]"
proof (rule iffI)
  assume eq: "xs = map int [0..<n]"
  show "\<forall>i<n. xs ! i = int i" by (subst eq) simp
qed (auto intro: nth_equalityI)

lemma Build_iff:
  assumes "distinct (map in_ID (s_Intersections s))"
  shows "(\<exists>b. Build s = Inr b) \<longleftrightarrow> in_ID ` set (s_Intersections s) = {0..<int (length (s_Intersections s))}"
proof -
  let ?ids = "sort_slice (<) (map in_ID (s_Intersections s))" and ?n = "length (s_Intersections s)"
  have set: "set ?ids = in_ID ` set (s_Intersections s)" by simp
  have len: "length ?ids = ?n" by simp
  have "(\<exists>b. Build s = Inr b) \<longleftrightarrow> (\<forall>i<?n. ?ids ! i = int i)"
    unfolding Build_def Let_def len by (auto split: option.split simp: find_None_iff find_Some_iff)
  also have "\<dots> \<longleftrightarrow> ?ids = map int [0..<?n]" using nth_upto [OF len] by simp
  also have "\<dots> \<longleftrightarrow> set ?ids = {0..<int ?n}"
  proof
    assume ids: "set ?ids = {0..<int ?n}"
    have "sorted_wrt (\<lambda>a b. \<not> b < a) ?ids" by (rule linorder_lt.sorted_sort_slice) simp
    then have "sorted ?ids" by (simp only: not_less)
    moreover have "set (map int [0..<?n]) = {0..<int ?n}" by (simp add: image_int_atLeastLessThan)
    moreover have "sorted (map int [0..<?n])" "distinct (map int [0..<?n])"
      by (simp_all add: distinct_map sorted_map)
    moreover have "distinct ?ids" using assms by (simp only: distinct_sort_slice)
    moreover note ids
    ultimately show "?ids = map int [0..<?n]" using sorted_distinct_set_unique [of ?ids "map int [0..<?n]"] by presburger
  next
    assume "?ids = map int [0..<?n]"
    then have "set ?ids = int ` {0..<?n}" by simp
    then show "set ?ids = {0..<int ?n}" by (simp add: image_int_atLeastLessThan)
  qed
  finally show ?thesis using set by simp
qed

lemma Build_graph:
  assumes "Build s = Inr b"
  shows "g_Nodes (bt_Graph b) = int (length (s_Intersections s))"
    "adj (bt_Graph b) u = map model_edge (filter (\<lambda>r. sr_From r = u) (s_Roads s))"
    "bt_Intersections b = index_intersections (s_Intersections s)"
    "finite (dom (g_Adj (bt_Graph b)))"
proof -
  from assms have b: "b = \<lparr>bt_Graph = fold (\<lambda>r g. AddEdge g (sr_From r) (sr_To r) (Some (model_road r))) (s_Roads s)
                                (NewGraph (int (length (s_Intersections s)))),
                  bt_Intersections = index_intersections (s_Intersections s)\<rparr>"
    by (simp add: Build_def Let_def index_intersections_def split: option.splits)
  have "finite (dom (g_Adj g)) \<Longrightarrow>
    finite (dom (g_Adj (fold (\<lambda>r g. AddEdge g (sr_From r) (sr_To r) (Some (model_road r))) rs g)))" for rs g
    by (induction rs arbitrary: g) (simp_all add: AddEdge_def)
  then show "finite (dom (g_Adj (bt_Graph b)))" by (simp add: b NewGraph_def)
  show "g_Nodes (bt_Graph b) = int (length (s_Intersections s))"
    "adj (bt_Graph b) u = map model_edge (filter (\<lambda>r. sr_From r = u) (s_Roads s))"
    "bt_Intersections b = index_intersections (s_Intersections s)"
    by (simp_all add: b Nodes_fold_AddEdge adj_fold_AddEdge NewGraph_def adj_def [of "\<lparr>g_Nodes = _, g_Adj = _\<rparr>"])
qed

section \<open>Roads of every format\<close>

text \<open>The roads between the pairs \<open>hs\<close>, numbered from \<open>n\<close>.\<close>

fun grid_roads :: "grid_config \<Rightarrow> int \<Rightarrow> (int \<times> int) list \<Rightarrow> scen_road list" where
  "grid_roads g n [] = []"
| "grid_roads g n (h # hs) = fst (grid_pair g h ([], n)) @ grid_roads g (n + 2) hs"

lemma grid_pair_append: "grid_pair g h (rs, n) = (rs @ fst (grid_pair g h ([], n)), n + 2)"
  by (simp add: grid_pair_def split: prod.split)

lemma fold_grid_pair: "fold (grid_pair g) hs (rs, n) = (rs @ grid_roads g n hs, n + 2 * int (length hs))"
proof (induction hs arbitrary: rs n)
  case (Cons h hs)
  show ?case by (simp add: grid_pair_append [of g h rs n] Cons)
qed simp

lemma generateGrid_eq: "generateGrid g = (grid_intersections g, grid_roads g 1 (vertical_hops g @ horizontal_hops g))"
proof -
  have "grid_roads g n (hs @ hs') = grid_roads g n hs @ grid_roads g (n + 2 * int (length hs)) hs'" for n hs hs'
    by (induction hs arbitrary: n) (simp_all add: algebra_simps)
  then show ?thesis by (simp add: generateGrid_def fold_grid_pair)
qed

lemma grid_roads_ids: "map sr_ID (grid_roads g n hs) = [n..n + 2 * int (length hs) - 1]"
proof (induction hs arbitrary: n)
  case (Cons h hs)
  let ?m = "n + 2 + 2 * int (length hs) - 1"
  have "[n..?m] = n # [n + 1..?m]" "[n + 1..?m] = (n + 1) # [n + 1 + 1..?m]" by (rule upto_rec1; simp)+
  moreover have "n + 2 * int (length (h # hs)) - 1 = ?m" "n + 1 + 1 = n + 2" by simp_all
  ultimately have "[n..n + 2 * int (length (h # hs)) - 1] = n # (n + 1) # [n + 2..?m]" by presburger
  then show ?case by (simp only:) (simp add: Cons grid_pair_def split: prod.split)
qed simp

definition of_grid :: "grid_config \<Rightarrow> scen_road \<Rightarrow> bool" where
  "of_grid g r \<longleftrightarrow> sr_DistanceKm r = gc_CellDist g \<and> sr_SpeedKmph r = gc_Speed g \<and> sr_Congestion r = gc_Congestion g"

lemma grid_roads_of_grid: "r \<in> set (grid_roads g n hs) \<Longrightarrow> of_grid g r"
  by (induction hs arbitrary: n) (auto simp: grid_pair_def of_grid_def split: prod.splits)

definition ends :: "scen_road \<Rightarrow> int \<times> int" where
  "ends r = (sr_From r, sr_To r)"

lemma grid_roads_ends: "mset (map ends (grid_roads g n hs)) = mset hs + mset (map prod.swap hs)"
  by (induction hs arbitrary: n) (auto simp: grid_pair_def ends_def split: prod.splits)

lemma reverse_road_sel [simp]:
  "sr_ID (reverse_road n r) = n" "ends (reverse_road n r) = prod.swap (ends r)"
  "sr_DistanceKm (reverse_road n r) = sr_DistanceKm r" "sr_SpeedKmph (reverse_road n r) = sr_SpeedKmph r"
  "sr_Congestion (reverse_road n r) = sr_Congestion r"
  by (simp_all add: reverse_road_def ends_def)

text \<open>The rows of the compact format, numbered from \<open>n\<close>.\<close>

fun compact_roads :: "bool \<Rightarrow> int \<Rightarrow> (f64 \<times> f64 \<times> f64 \<times> f64 \<times> f64) list \<Rightarrow> scen_road list" where
  "compact_roads b n [] = []"
| "compact_roads b n (x # xs) = fst (compact_road b x ([], n)) @ compact_roads b (if b then n + 2 else n + 1) xs"

lemma compact_road_append:
  "compact_road b x (rs, n) = (rs @ fst (compact_road b x ([], n)), if b then n + 2 else n + 1)"
  by (simp add: compact_road_def Let_def split: prod.split)

lemma fold_compact_road: "fst (fold (compact_road b) xs (rs, n)) = rs @ compact_roads b n xs"
proof (induction xs arbitrary: rs n)
  case (Cons x xs)
  show ?case by (simp add: compact_road_append [of b x rs n] Cons)
qed simp

text \<open>The loop that appends the reversed copies: fresh ids in increasing order.\<close>

fun reversed :: "int set \<Rightarrow> int \<Rightarrow> scen_road list \<Rightarrow> scen_road list" where
  "reversed used n [] = []"
| "reversed used n (r # rs) = reverse_road (next_free used n) r # reversed used (next_free used n + 1) rs"

lemma fold_add_reverse: "fst (fold (add_reverse used) rs (out, n)) = out @ reversed used n rs"
  by (induction rs arbitrary: out n) (simp_all add: add_reverse_def Let_def)

lemma next_free: "finite used \<Longrightarrow> n \<le> next_free used n \<and> next_free used n \<notin> used"
proof (induction used n rule: next_free.induct)
  case (1 used n)
  then show ?case by (cases "n \<in> used") (simp_all add: next_free.simps [of used n])
qed

lemma reversed_ids:
  "finite used \<Longrightarrow> distinct (map sr_ID (reversed used n rs)) \<and> (\<forall>k\<in>sr_ID ` set (reversed used n rs). n \<le> k \<and> k \<notin> used)"
proof (induction rs arbitrary: n)
  case (Cons r rs)
  let ?m = "next_free used n"
  have "n \<le> ?m" "?m \<notin> used" using next_free [OF Cons.prems] by blast+
  moreover have "distinct (map sr_ID (reversed used (?m + 1) rs))"
    "\<forall>k\<in>sr_ID ` set (reversed used (?m + 1) rs). ?m + 1 \<le> k \<and> k \<notin> used"
    using Cons by blast+
  ultimately show ?case by force
qed simp

section \<open>Operations in range do not panic\<close>

lemma fire_events_ok:
  assumes "engine_inv e" "\<forall>ev\<in>set evs. in_range e (ev_From ev) \<and> in_range e (ev_To ev)"
  shows "\<exists>rest e'. fire_events tick evs e = Inr (rest, e') \<and> engine_inv e'"
  using assms
proof (induction evs arbitrary: e)
  case (Cons ev evs)
  let ?d = "DispatchEmergency False (ev_Plate ev) (ev_From ev) (ev_To ev) e"
  have inv': "engine_inv (snd ?d)" using DispatchEmergency_inv [OF Cons.prems(1)] .
  have "in_range (snd ?d) i = in_range e i" for i
    using Dispatch_signals [OF Cons.prems(1)] in_range_signals [OF inv'] in_range_signals [OF Cons.prems(1)] by metis
  then have rest: "\<exists>rest e'. fire_events tick evs (snd ?d) = Inr (rest, e') \<and> engine_inv e'"
    "\<exists>rest e'. fire_events tick evs e = Inr (rest, e') \<and> engine_inv e'"
    using Cons inv' by simp_all
  have "fst ?d \<noteq> Panic p" for p using DispatchEmergency_in_range [OF Cons.prems(1)] Cons.prems(2) by simp
  with rest show ?case using Cons.prems(1) by (cases ?d) (auto split: outcome.split)
qed simp

section \<open>Decoded numbers\<close>

text \<open>A JSON number decodes to a finite value; \<open>encoding/json\<close> refuses one that is too large.\<close>

definition finite_number :: "f64 \<Rightarrow> bool" where
  "finite_number a \<longleftrightarrow> (case a of Fin _ \<Rightarrow> True | _ \<Rightarrow> False)"

definition json_numbers :: "raw_scenario \<Rightarrow> bool" where
  "json_numbers raw \<longleftrightarrow>
     (case raw_Grid raw of None \<Rightarrow> True | Some g \<Rightarrow> finite_number (gc_CellDist g) \<and> finite_number (gc_Speed g))
     \<and> (case raw_Roads raw of
          None \<Rightarrow> True
        | Some rr \<Rightarrow>
            list_all (\<lambda>r. finite_number (sr_DistanceKm r) \<and> finite_number (sr_SpeedKmph r))
              (case rr_objects rr of None \<Rightarrow> [] | Some rs \<Rightarrow> rs)
            \<and> list_all (\<lambda>(_, _, d, s, _). finite_number d \<and> finite_number s)
              (case rr_arrays rr of None \<Rightarrow> [] | Some xs \<Rightarrow> xs))"

definition fin_road :: "scen_road \<Rightarrow> bool" where
  "fin_road r \<longleftrightarrow> finite_number (sr_DistanceKm r) \<and> finite_number (sr_SpeedKmph r)"

lemma fin_reverse [simp]: "fin_road (reverse_road n r) = fin_road r"
  by (simp add: fin_road_def)

lemma fin_reversed: "\<forall>r\<in>set rs. fin_road r \<Longrightarrow> \<forall>r\<in>set (reversed used n rs). fin_road r"
  by (induction rs arbitrary: n) auto

lemma fin_compact:
  "list_all (\<lambda>(_, _, d, s, _). finite_number d \<and> finite_number s) xs \<Longrightarrow> \<forall>r\<in>set (compact_roads b n xs). fin_road r"
  by (induction xs arbitrary: n) (auto simp: compact_road_def Let_def, auto simp: fin_road_def reverse_road_def split: if_splits)

lemma fin_default: "\<forall>r\<in>set rs. fin_road r \<Longrightarrow> \<forall>r\<in>set (map2 default_id is rs). fin_road r"
  by (auto simp: default_id_def fin_road_def dest!: set_zip_rightD)

lemma fin_parseRoads:
  assumes "parseRoads rr b = Inr roads"
    "list_all (\<lambda>r. finite_number (sr_DistanceKm r) \<and> finite_number (sr_SpeedKmph r))
              (case rr_objects rr of None \<Rightarrow> [] | Some rs \<Rightarrow> rs)"
    "list_all (\<lambda>(_, _, d, s, _). finite_number d \<and> finite_number s) (case rr_arrays rr of None \<Rightarrow> [] | Some xs \<Rightarrow> xs)"
  shows "\<forall>r\<in>set roads. fin_road r"
proof (cases "rr_objects rr")
  case None
  then obtain xs where xs: "rr_arrays rr = Some xs" "roads = compact_roads b 1 xs"
    using assms(1) by (auto simp: parseRoads_def fold_compact_road split: option.splits)
  then show ?thesis using fin_compact [of xs b 1] assms(3) by simp
next
  case (Some rs)
  let ?rs = "map2 default_id [0..<length rs] rs"
  have rs: "\<forall>r\<in>set ?rs. fin_road r" using assms(2) Some by (intro fin_default) (simp add: fin_road_def list_all_iff)
  have "roads = (if b then ?rs @ reversed (sr_ID ` set ?rs) (int (length ?rs) + 1) ?rs else ?rs)"
    using assms(1) Some by (auto simp: parseRoads_def Let_def appendBidirectional_def fold_add_reverse)
  then show ?thesis using rs fin_reversed [OF rs] by auto
qed

lemma LoadFile_ok:
  assumes "LoadFile (Inr raw) = Inr s"
  shows "scenario_valid s" "json_numbers raw \<Longrightarrow> \<forall>r\<in>set (s_Roads s). fin_road r"
proof -
  obtain ins roads where parts:
    "(case raw_Grid raw of Some g \<Rightarrow> Inr (generateGrid g)
      | None \<Rightarrow> (case raw_Roads raw of None \<Rightarrow> Inr (raw_Intersections raw, [])
          | Some rr \<Rightarrow> (case parseRoads rr (raw_Bidirectional raw) of
               Inl e \<Rightarrow> Inl e | Inr roads \<Rightarrow> Inr (raw_Intersections raw, roads)))) = Inr (ins, roads)"
    using assms by (fastforce simp: LoadFile_def split: sum.splits)
  define s0 where "s0 = \<lparr>s_Name = raw_Name raw, s_TickMs = raw_TickMs raw, s_Bidirectional = raw_Bidirectional raw,
    s_Intersections = ins, s_Roads = roads, s_Vehicle = raw_Vehicle raw, s_Events = raw_Events raw\<rparr>"
  have s: "Validate s0 = None" "s = s0\<lparr>s_Events := sort_slice (\<lambda>a b. ev_Tick a < ev_Tick b) (s_Events s0)\<rparr>"
    using assms parts by (auto simp: LoadFile_def s0_def Let_def split: option.splits)
  show "scenario_valid s" using s Validate_iff [of s0] by (simp add: scenario_valid_def Let_def)
  assume num: "json_numbers raw"
  have "\<forall>r\<in>set roads. fin_road r"
  proof (cases "raw_Grid raw")
    case (Some g)
    then have "roads = grid_roads g 1 (vertical_hops g @ horizontal_hops g)" using parts by (simp add: generateGrid_eq)
    then show ?thesis using num Some grid_roads_of_grid by (fastforce simp: json_numbers_def of_grid_def fin_road_def)
  next
    case None
    show ?thesis
    proof (cases "raw_Roads raw")
      case (Some rr)
      then show ?thesis using num None parts fin_parseRoads [of rr "raw_Bidirectional raw" roads]
        by (auto simp: json_numbers_def split: sum.splits)
    qed (use parts None in simp)
  qed
  then show "\<forall>r\<in>set (s_Roads s). fin_road r" by (simp add: s(2) s0_def)
qed

end
