(* ===== verification/Scenario_Props.thy ===== *)
theory Scenario_Props
  imports Scenario_Correct
begin

text \<open>
  The properties of scenarios: a scenario that loads gives a simulation that runs, reverse
  roads are complete and get fresh ids, and a grid document gives the grid.
\<close>

section \<open>From a document to a running simulation\<close>

lemma scenario_setup:
  assumes load: "LoadFile (Inr raw) = Inr s" "json_numbers raw" "Build s = Inr b" and order: "set order = dom (g_Adj (bt_Graph b))"
  shows "setup_ok order (cli_config s b) (bt_Graph b)"
    "\<forall>i. index_intersections (s_Intersections s) i \<noteq> None \<longleftrightarrow> 0 \<le> i \<and> i < NumIntersections (cli_config s b)"
proof -
  have valid: "scenario_valid s" and fin: "\<forall>r\<in>set (s_Roads s). fin_road r" using LoadFile_ok [OF load(1)] load(2) by blast+
  then have dist: "distinct (map in_ID (s_Intersections s))" by (simp add: scenario_valid_def Let_def)
  have ids: "in_ID ` set (s_Intersections s) = {0..<int (length (s_Intersections s))}" using Build_iff [OF dist] load(3) by blast
  have n: "NumIntersections (cli_config s b) = int (length (s_Intersections s))"
    using Build_graph(1) [OF load(3)] by (simp add: cli_config_def)
  show known: "\<forall>i. index_intersections (s_Intersections s) i \<noteq> None \<longleftrightarrow> 0 \<le> i \<and> i < NumIntersections (cli_config s b)"
    using ids n by (simp del: not_None_eq)
  have "graph_ok (NumIntersections (cli_config s b)) (bt_Graph b)"
    unfolding graph_ok_def Build_graph(2) [OF load(3)]
  proof (intro allI ballI)
    fix u e assume "e \<in> set (map model_edge (filter (\<lambda>r. sr_From r = u) (s_Roads s)))"
    then obtain r where r: "r \<in> set (s_Roads s)" "e = model_edge r" by auto
    then have "road_valid (index_intersections (s_Intersections s)) r" using valid by (simp add: scenario_valid_def Let_def)
    then have "0 \<le> sr_To r \<and> sr_To r < NumIntersections (cli_config s b)" "\<not> sr_DistanceKm r \<le> 0"
      using known by (auto simp: road_valid_def simp del: not_None_eq index_known)
    moreover have "fin_road r" using fin r(1) by blast
    ultimately show "0 \<le> e_To e \<and> e_To e < NumIntersections (cli_config s b) \<and> (\<forall>r. e_Road e = Some r \<longrightarrow> road_measures r)"
      using r(2) by (auto simp: model_edge_def model_road_def road_measures_def fin_road_def finite_number_def zero_f64_def split: f64.splits)
  qed
  moreover have "0 < NumIntersections (cli_config s b)" using n valid by (simp add: scenario_valid_def Let_def)
  moreover have "0 < HistoryWindow (cli_config s b)" by (simp add: cli_config_def DefaultConfig_def)
  ultimately show "setup_ok order (cli_config s b) (bt_Graph b)" using order by (simp add: setup_ok_def)
qed

lemma cli_registers:
  assumes inv: "engine_inv e" and fresh: "e_vehicles e = Map.empty" and valid: "scenario_valid s"
    and range: "in_range e (sv_From (s_Vehicle s))" "in_range e (sv_To (s_Vehicle s))"
  shows "fst (RegisterVehicle False (cli_request s) e) = Error NoRoute
    \<or> (\<exists>path w. fst (RegisterVehicle False (cli_request s) e) = Return (path, w)
         \<and> hd path = sv_From (s_Vehicle s) \<and> last path = sv_To (s_Vehicle s))"
proof -
  let ?req = "cli_request s"
  have req: "rq_Plate ?req \<noteq> ''''" "rq_From ?req = sv_From (s_Vehicle s)" "rq_To ?req = sv_To (s_Vehicle s)"
    "rq_Type ?req \<noteq> ''''" "rq_Type ?req = VehicleTypeNormal \<or> rq_Type ?req = VehicleTypeEmergency"
    using valid by (auto simp: cli_request_def scenario_valid_def Let_def VehicleTypeNormal_def VehicleTypeEmergency_def)
  have "fst (RegisterVehicle False ?req e) =
      (case route e (rq_From ?req) (rq_To ?req) (rq_Type ?req) of
         Return (path, eta) \<Rightarrow> Return (path, eta) | Error err \<Rightarrow> Error err | Panic p \<Rightarrow> Panic p | Diverges \<Rightarrow> Diverges)"
    using req range fresh by (auto simp: RegisterVehicle_def Let_def in_range_def split: outcome.split)
  then show ?thesis
    using route_ok [OF engine_invD(1) [OF inv], of "rq_From ?req" "rq_To ?req" "rq_Type ?req"] range req by (auto simp: in_range_def)
qed


definition sample_raw :: "int \<Rightarrow> raw_scenario" where
  "sample_raw ms =
     \<lparr>raw_Name = ''S'', raw_TickMs = ms, raw_Bidirectional = True,
      raw_Intersections = [\<lparr>in_ID = 0, in_X = Some 0, in_Y = Some 0\<rparr>, \<lparr>in_ID = 1, in_X = Some 0, in_Y = Some 1\<rparr>],
      raw_Roads = Some \<lparr>rr_objects = Some [\<lparr>sr_ID = 3, sr_From = 0, sr_To = 1, sr_DistanceKm = 1, sr_SpeedKmph = 1, sr_Congestion = 1\<rparr>],
                        rr_arrays = None\<rparr>,
      raw_Grid = None,
      raw_Vehicle = \<lparr>sv_Plate = ''A'', sv_Type = ''normal'', sv_From = 0, sv_To = 1\<rparr>,
      raw_Events = [\<lparr>ev_Tick = 2, ev_Type = ''emergency'', ev_Plate = ''B'', ev_From = 1, ev_To = 0\<rparr>]\<rparr>"

definition sample_scenario :: "int \<Rightarrow> scenario" where
  "sample_scenario ms =
     \<lparr>s_Name = ''S'', s_TickMs = ms, s_Bidirectional = True, s_Intersections = raw_Intersections (sample_raw ms),
      s_Roads = [\<lparr>sr_ID = 3, sr_From = 0, sr_To = 1, sr_DistanceKm = 1, sr_SpeedKmph = 1, sr_Congestion = 1\<rparr>,
                 \<lparr>sr_ID = 2, sr_From = 1, sr_To = 0, sr_DistanceKm = 1, sr_SpeedKmph = 1, sr_Congestion = 1\<rparr>],
      s_Vehicle = raw_Vehicle (sample_raw ms), s_Events = raw_Events (sample_raw ms)\<rparr>"

lemma sample_loads:
  assumes "0 < ms" shows "LoadFile (Inr (sample_raw ms)) = Inr (sample_scenario ms)" "json_numbers (sample_raw ms)"
proof -
  have free: "next_free {3} 2 = 2" by (simp add: next_free.simps)
  have roads: "parseRoads \<lparr>rr_objects = Some [\<lparr>sr_ID = 3, sr_From = 0, sr_To = 1, sr_DistanceKm = 1, sr_SpeedKmph = 1, sr_Congestion = 1\<rparr>],
      rr_arrays = None\<rparr> True = Inr (s_Roads (sample_scenario ms))"
    by (simp add: parseRoads_def appendBidirectional_def add_reverse_def reverse_road_def default_id_def Let_def free
        sample_scenario_def)
  have "Validate (sample_scenario ms) = None"
    using assms by (simp add: Validate_def sample_scenario_def sample_raw_def index_intersection_def zero_f64_def one_f64_def)
  moreover have "\<lparr>s_Name = raw_Name (sample_raw ms), s_TickMs = raw_TickMs (sample_raw ms), s_Bidirectional = raw_Bidirectional (sample_raw ms),
    s_Intersections = raw_Intersections (sample_raw ms), s_Roads = s_Roads (sample_scenario ms), s_Vehicle = raw_Vehicle (sample_raw ms),
    s_Events = raw_Events (sample_raw ms)\<rparr> = (sample_scenario ms)" by (simp add: sample_scenario_def sample_raw_def)
  moreover have "(sample_scenario ms)\<lparr>s_Events := sort_slice (\<lambda>a b. ev_Tick a < ev_Tick b) (s_Events (sample_scenario ms))\<rparr> = (sample_scenario ms)"
    by (simp add: sample_scenario_def sample_raw_def)
  moreover have "raw_Grid (sample_raw ms) = None" "raw_Bidirectional (sample_raw ms)" by (simp_all add: sample_raw_def)
  moreover have "raw_Roads (sample_raw ms) = Some \<lparr>rr_objects = Some [\<lparr>sr_ID = 3, sr_From = 0, sr_To = 1, sr_DistanceKm = 1,
      sr_SpeedKmph = 1, sr_Congestion = 1\<rparr>], rr_arrays = None\<rparr>" by (simp add: sample_raw_def)
  ultimately show "LoadFile (Inr (sample_raw ms)) = Inr (sample_scenario ms)"
    using roads unfolding LoadFile_def Let_def by (simp only: sum.case option.case prod.case)
  show "json_numbers (sample_raw ms)" by (simp add: sample_raw_def json_numbers_def finite_number_def one_f64_def)
qed

lemma sample_builds: "\<exists>b. Build (sample_scenario ms) = Inr b"
proof -
  have "in_ID ` set (s_Intersections (sample_scenario ms)) = {0, 1}" by (auto simp: sample_scenario_def sample_raw_def)
  also have "{0, 1} = {0..<int (length (s_Intersections (sample_scenario ms)))}"
    by (auto simp: sample_scenario_def sample_raw_def)
  finally show ?thesis using Build_iff [of "sample_scenario ms"] by (simp add: sample_scenario_def sample_raw_def)
qed


section \<open>Reverse roads\<close>

definition road_data :: "scen_road \<Rightarrow> (int \<times> int) \<times> f64 \<times> f64 \<times> int" where
  "road_data r = (ends r, sr_DistanceKm r, sr_SpeedKmph r, sr_Congestion r)"

lemma road_data_reverse [simp]: "road_data (reverse_road n r) = map_prod prod.swap id (road_data r)"
  by (simp add: road_data_def)

lemma data_reversed: "map road_data (reversed used n rs) = map (map_prod prod.swap id \<circ> road_data) rs"
  by (induction rs arbitrary: n) simp_all

lemma data_compact:
  "mset (map road_data (compact_roads True n xs)) =
     mset (map road_data (compact_roads False m xs)) + mset (map (map_prod prod.swap id \<circ> road_data) (compact_roads False m xs))"
proof (induction xs arbitrary: n m)
  case (Cons x xs)
  have "road_data (fst (compact_road False x ([], m)) ! 0) = road_data (fst (compact_road True x ([], n)) ! 0)"
    by (cases x) (simp add: compact_road_def road_data_def ends_def Let_def)
  then show ?case using Cons [of "n + 2" "m + 1"]
    by (cases x) (simp add: compact_road_def Let_def id_def)
qed simp

lemma ids_compact:
  "distinct (map sr_ID (compact_roads b n xs)) \<and> (\<forall>k\<in>sr_ID ` set (compact_roads b n xs). n \<le> k)"
proof (induction xs arbitrary: n)
  case (Cons x xs)
  have k: "n \<le> k \<and> k < (if b then n + 2 else n + 1)" if "k \<in> sr_ID ` set (fst (compact_road b x ([], n)))" for k
    using that by (cases x) (auto simp: compact_road_def Let_def split: if_splits)
  have d: "distinct (map sr_ID (fst (compact_road b x ([], n))))" by (cases x) (simp add: compact_road_def Let_def)
  let ?m = "if b then n + 2 else n + 1" and ?r = "fst (compact_road b x ([], n))" and ?rs = "compact_roads b (if b then n + 2 else n + 1) xs"
  have IH: "distinct (map sr_ID ?rs)" "\<forall>k\<in>sr_ID ` set ?rs. ?m \<le> k" using Cons by blast+
  have "sr_ID ` set ?r \<inter> sr_ID ` set ?rs = {}" using IH(2) k by fastforce
  moreover have "\<forall>k\<in>sr_ID ` set ?r \<union> sr_ID ` set ?rs. n \<le> k" using IH(2) k by (fastforce split: if_splits)
  ultimately show ?case using d IH(1) by (simp add: image_Un)
qed simp

text \<open>
  The flag for two-way roads is complete and safe in both road formats: if the roads as
  given have distinct ids, then with the flag set the list has for every given road the road
  itself and one in the opposite direction with the same length, speed and congestion, and
  nothing else, and all ids are still distinct.
\<close>

theorem bidirectional_roads:
  assumes "parseRoads rr False = Inr given" "distinct (map sr_ID given)"
  shows "\<exists>roads. parseRoads rr True = Inr roads \<and> distinct (map sr_ID roads)
    \<and> mset (map road_data roads) = mset (map road_data given) + mset (map (map_prod prod.swap id \<circ> road_data) given)"
proof (cases "rr_objects rr")
  case None
  then obtain xs where xs: "rr_arrays rr = Some xs" "given = compact_roads False 1 xs"
    using assms(1) by (auto simp: parseRoads_def fold_compact_road split: option.splits)
  then have "parseRoads rr True = Inr (compact_roads True 1 xs)" using None by (simp add: parseRoads_def fold_compact_road)
  then show ?thesis using ids_compact [of True 1 xs] data_compact [of 1 xs 1] xs(2) by blast
next
  case (Some rs)
  then have given: "given = map2 default_id [0..<length rs] rs" using assms(1) by (simp add: parseRoads_def)
  let ?new = "reversed (sr_ID ` set given) (int (length given) + 1) given"
  have "parseRoads rr True = Inr (given @ ?new)"
    using Some by (simp add: parseRoads_def Let_def appendBidirectional_def fold_add_reverse given)
  moreover have "distinct (map sr_ID (given @ ?new))"
  proof -
    have "distinct (map sr_ID ?new)" "\<forall>k\<in>sr_ID ` set ?new. k \<notin> sr_ID ` set given"
      using reversed_ids [of "sr_ID ` set given" "int (length given) + 1" given] by blast+
    then show ?thesis using assms(2) unfolding map_append distinct_append set_map by blast
  qed
  moreover have "mset (map road_data (given @ ?new)) = mset (map road_data given) + mset (map (map_prod prod.swap id \<circ> road_data) given)"
    by (simp add: data_reversed del: mset_map map_map)
  ultimately show ?thesis by blast
qed

theorem bidirectional_roads_witness:
  "\<exists>roads. parseRoads \<lparr>rr_objects = None, rr_arrays = Some [(0, 1, 1, 1, 1)]\<rparr> True = Inr roads \<and> distinct (map sr_ID roads)"
proof -
  have "parseRoads \<lparr>rr_objects = None, rr_arrays = Some [(0, 1, 1, 1, 1)]\<rparr> False = Inr
      [\<lparr>sr_ID = 1, sr_From = f64_to_int 0, sr_To = f64_to_int 1, sr_DistanceKm = 1, sr_SpeedKmph = 1, sr_Congestion = f64_to_int 1\<rparr>]"
    by (simp add: parseRoads_def compact_road_def Let_def)
  then show ?thesis using bidirectional_roads by fastforce
qed

end
