(* ===== verification/Scenario_Grid.thy ===== *)
theory Scenario_Grid
  imports Scenario_Props
begin

text \<open>
  The grid generator: a grid document of any valid size loads and builds, and the graph is the
  grid, with one road in each direction between neighbours, and connected.
\<close>

section \<open>The grid\<close>

text \<open>The bound says that the ids of the roads, four to an intersection at most, are integers.\<close>

definition grid_ok :: "grid_config \<Rightarrow> bool" where
  "grid_ok g \<longleftrightarrow>
     1 \<le> gc_Cols g \<and> 1 \<le> gc_Rows g \<and> 2 \<le> gc_Cols g * gc_Rows g \<and> gc_Cols g * gc_Rows g \<le> 2 ^ 61
     \<and> \<not> gc_CellDist g \<le> 0 \<and> \<not> gc_Speed g \<le> 0 \<and> 1 \<le> gc_Congestion g \<and> gc_Congestion g \<le> 10"

definition cells :: "grid_config \<Rightarrow> int set" where
  "cells g = {0..<gc_Cols g * gc_Rows g}"

lemma cell_range:
  assumes "grid_ok g" "0 \<le> c" "c < gc_Cols g" "0 \<le> r" "r < gc_Rows g"
  shows "0 \<le> c * gc_Rows g + r" "c * gc_Rows g + r < gc_Cols g * gc_Rows g"
    "(c * gc_Rows g + r) div gc_Rows g = c" "(c * gc_Rows g + r) mod gc_Rows g = r"
proof -
  have "(c + 1) * gc_Rows g \<le> gc_Cols g * gc_Rows g" using assms by (intro mult_right_mono) simp_all
  then show "c * gc_Rows g + r < gc_Cols g * gc_Rows g" using assms(5) by (simp add: algebra_simps)
  show "0 \<le> c * gc_Rows g + r" using assms by simp
  show "(c * gc_Rows g + r) div gc_Rows g = c" "(c * gc_Rows g + r) mod gc_Rows g = r"
    using assms by (simp_all add: grid_ok_def)
qed

lemma cell_coords:
  assumes "grid_ok g" "a \<in> cells g"
  shows "0 \<le> a div gc_Rows g" "a div gc_Rows g < gc_Cols g" "0 \<le> a mod gc_Rows g" "a mod gc_Rows g < gc_Rows g"
    "a = a div gc_Rows g * gc_Rows g + a mod gc_Rows g"
proof -
  have R: "0 < gc_Rows g" using assms(1) by (simp add: grid_ok_def)
  have a: "0 \<le> a" "a < gc_Cols g * gc_Rows g" using assms(2) by (simp_all add: cells_def)
  show "0 \<le> a div gc_Rows g" "0 \<le> a mod gc_Rows g" "a mod gc_Rows g < gc_Rows g"
    using R a by (simp_all add: pos_imp_zdiv_nonneg_iff)
  show "a = a div gc_Rows g * gc_Rows g + a mod gc_Rows g" by (rule div_mult_mod_eq [symmetric])
  have "a div gc_Rows g * gc_Rows g < gc_Cols g * gc_Rows g"
    using div_mult_mod_eq [of a "gc_Rows g"] pos_mod_sign [OF R, of a] a(2) by linarith
  then show "a div gc_Rows g < gc_Cols g" using R by simp
qed

lemma concat_product: "concat (map (\<lambda>x. map (\<lambda>y. h x y) ys) xs) = map (\<lambda>(x, y). h x y) (List.product xs ys)"
  by (induction xs) simp_all

lemma in_int64_grid: "0 \<le> x \<Longrightarrow> x \<le> 2 ^ 61 \<Longrightarrow> wrap64 x = x"
  by (intro wrap64_id) (simp add: in_int64_def)

lemma grid_size:
  assumes "grid_ok g"
  shows "gc_Rows g \<le> 2 ^ 61" "gc_Cols g \<le> 2 ^ 61"
proof -
  have le: "1 \<le> gc_Cols g" "1 \<le> gc_Rows g" "gc_Cols g * gc_Rows g \<le> 2 ^ 61" using assms by (simp_all add: grid_ok_def)
  show "gc_Rows g \<le> 2 ^ 61" using mult_right_mono [of 1 "gc_Cols g" "gc_Rows g"] le by linarith
  show "gc_Cols g \<le> 2 ^ 61" using mult_left_mono [of 1 "gc_Rows g" "gc_Cols g"] le by linarith
qed

lemma grid_intersections_eq:
  assumes "grid_ok g"
  shows "grid_intersections g =
    map (\<lambda>(c, r). \<lparr>in_ID = c * gc_Rows g + r, in_X = Some c, in_Y = Some r\<rparr>) (List.product [0..gc_Cols g - 1] [0..gc_Rows g - 1])"
proof -
  have "wrap64 (c * gc_Rows g + r) = c * gc_Rows g + r" if "c \<in> {0..gc_Cols g - 1}" "r \<in> {0..gc_Rows g - 1}" for c r
    using cell_range [OF assms, of c r] that assms by (intro in_int64_grid) (auto simp: grid_ok_def)
  then show ?thesis unfolding grid_intersections_def concat_product by (intro map_cong) auto
qed

lemma grid_ids:
  assumes "grid_ok g"
  shows "distinct (map in_ID (grid_intersections g))" "in_ID ` set (grid_intersections g) = cells g"
proof -
  have ids: "map in_ID (grid_intersections g) = map (\<lambda>(c, r). c * gc_Rows g + r) (List.product [0..gc_Cols g - 1] [0..gc_Rows g - 1])"
    by (simp add: grid_intersections_eq [OF assms] case_prod_unfold)
  have "inj_on (\<lambda>(c, r). c * gc_Rows g + r) ({0..gc_Cols g - 1} \<times> {0..gc_Rows g - 1})"
    by (rule inj_on_inverseI [where g = "\<lambda>a. (a div gc_Rows g, a mod gc_Rows g)"]) (use cell_range(3,4) [OF assms] in auto)
  then show "distinct (map in_ID (grid_intersections g))" unfolding ids by (simp add: distinct_map distinct_product)
  have "set (map in_ID (grid_intersections g)) = cells g"
  proof (rule set_eqI)
    fix a
    have "a \<in> set (map in_ID (grid_intersections g)) \<longleftrightarrow> (\<exists>c r. 0 \<le> c \<and> c < gc_Cols g \<and> 0 \<le> r \<and> r < gc_Rows g \<and> a = c * gc_Rows g + r)"
      unfolding ids by force
    also have "\<dots> \<longleftrightarrow> a \<in> cells g"
    proof
      assume "a \<in> cells g"
      then show "\<exists>c r. 0 \<le> c \<and> c < gc_Cols g \<and> 0 \<le> r \<and> r < gc_Rows g \<and> a = c * gc_Rows g + r"
        using cell_coords [OF assms, of a] by blast
    qed (use cell_range(1,2) [OF assms] in \<open>auto simp: cells_def\<close>)
    finally show "a \<in> set (map in_ID (grid_intersections g)) \<longleftrightarrow> a \<in> cells g" .
  qed
  then show "in_ID ` set (grid_intersections g) = cells g" by simp
qed

text \<open>The neighbours above and to the right of a cell.\<close>

definition next_cell :: "grid_config \<Rightarrow> int \<Rightarrow> int \<Rightarrow> bool" where
  "next_cell g a b \<longleftrightarrow>
     a \<in> cells g \<and> b \<in> cells g
     \<and> (b div gc_Rows g = a div gc_Rows g \<and> b mod gc_Rows g = a mod gc_Rows g + 1
        \<or> b div gc_Rows g = a div gc_Rows g + 1 \<and> b mod gc_Rows g = a mod gc_Rows g)"

lemma vertical_eq:
  assumes "grid_ok g"
  shows "vertical_hops g = map (\<lambda>(c, r). (c * gc_Rows g + r, c * gc_Rows g + r + 1)) (List.product [0..gc_Cols g - 1] [0..gc_Rows g - 2])"
proof -
  have "wrap64 (gc_Rows g - 1) = gc_Rows g - 1" using grid_size [OF assms] assms by (intro in_int64_grid) (simp_all add: grid_ok_def)
  moreover have "wrap64 (c * gc_Rows g + r) = c * gc_Rows g + r \<and> wrap64 (c * gc_Rows g + r + 1) = c * gc_Rows g + r + 1"
    if "c \<in> {0..gc_Cols g - 1}" "r \<in> {0..gc_Rows g - 2}" for c r
    using cell_range [OF assms, of c r] that assms by (intro conjI in_int64_grid) (auto simp: grid_ok_def)
  ultimately show ?thesis unfolding vertical_hops_def concat_product Let_def by (intro map_cong) auto
qed

lemma horizontal_eq:
  assumes "grid_ok g"
  shows "horizontal_hops g =
    map (\<lambda>(c, r). (c * gc_Rows g + r, (c + 1) * gc_Rows g + r)) (List.product [0..gc_Cols g - 2] [0..gc_Rows g - 1])"
proof -
  have "wrap64 (gc_Cols g - 1) = gc_Cols g - 1" using grid_size [OF assms] assms by (intro in_int64_grid) (simp_all add: grid_ok_def)
  moreover have "wrap64 (c * gc_Rows g + r) = c * gc_Rows g + r
      \<and> wrap64 (c * gc_Rows g + r + gc_Rows g) = (c + 1) * gc_Rows g + r"
    if "c \<in> {0..gc_Cols g - 2}" "r \<in> {0..gc_Rows g - 1}" for c r
  proof -
    have "c * gc_Rows g + r + gc_Rows g = (c + 1) * gc_Rows g + r" by (simp add: algebra_simps)
    then show ?thesis
      using cell_range [OF assms, of c r] cell_range [OF assms, of "c + 1" r] that assms in_int64_grid
      by (auto simp: grid_ok_def)
  qed
  ultimately show ?thesis unfolding horizontal_hops_def concat_product Let_def by (intro map_cong) auto
qed

lemma vertical_set:
  assumes "grid_ok g"
  shows "(a, b) \<in> set (vertical_hops g) \<longleftrightarrow>
    a \<in> cells g \<and> b \<in> cells g \<and> b div gc_Rows g = a div gc_Rows g \<and> b mod gc_Rows g = a mod gc_Rows g + 1"
proof
  assume "(a, b) \<in> set (vertical_hops g)"
  then obtain c r where c: "0 \<le> c" "c < gc_Cols g" "0 \<le> r" "r + 1 < gc_Rows g" "a = c * gc_Rows g + r" "b = c * gc_Rows g + (r + 1)"
    by (auto simp: vertical_eq [OF assms])
  then show "a \<in> cells g \<and> b \<in> cells g \<and> b div gc_Rows g = a div gc_Rows g \<and> b mod gc_Rows g = a mod gc_Rows g + 1"
    using cell_range [OF assms, of c r] cell_range [OF assms, of c "r + 1"] by (simp only: cells_def atLeastLessThan_iff)
next
  assume *: "a \<in> cells g \<and> b \<in> cells g \<and> b div gc_Rows g = a div gc_Rows g \<and> b mod gc_Rows g = a mod gc_Rows g + 1"
  let ?c = "a div gc_Rows g" and ?r = "a mod gc_Rows g"
  have a: "a = ?c * gc_Rows g + ?r" and b: "b = ?c * gc_Rows g + ?r + 1"
    using cell_coords(5) [OF assms, of a] cell_coords(5) [OF assms, of b] * by simp_all
  have "(?c, ?r) \<in> set (List.product [0..gc_Cols g - 1] [0..gc_Rows g - 2])"
    using cell_coords [OF assms, of a] cell_coords(4) [OF assms, of b] * by auto
  then have "(?c * gc_Rows g + ?r, ?c * gc_Rows g + ?r + 1) \<in> set (vertical_hops g)"
    unfolding vertical_eq [OF assms] set_map by (rule rev_image_eqI) simp
  then show "(a, b) \<in> set (vertical_hops g)" using a b by simp
qed

lemma horizontal_set:
  assumes "grid_ok g"
  shows "(a, b) \<in> set (horizontal_hops g) \<longleftrightarrow>
    a \<in> cells g \<and> b \<in> cells g \<and> b div gc_Rows g = a div gc_Rows g + 1 \<and> b mod gc_Rows g = a mod gc_Rows g"
proof
  assume "(a, b) \<in> set (horizontal_hops g)"
  then obtain c r where c: "0 \<le> c" "c + 1 < gc_Cols g" "0 \<le> r" "r < gc_Rows g" "a = c * gc_Rows g + r" "b = (c + 1) * gc_Rows g + r"
    by (auto simp: horizontal_eq [OF assms])
  then show "a \<in> cells g \<and> b \<in> cells g \<and> b div gc_Rows g = a div gc_Rows g + 1 \<and> b mod gc_Rows g = a mod gc_Rows g"
    using cell_range [OF assms, of c r] cell_range [OF assms, of "c + 1" r] by (simp only: cells_def atLeastLessThan_iff)
next
  assume *: "a \<in> cells g \<and> b \<in> cells g \<and> b div gc_Rows g = a div gc_Rows g + 1 \<and> b mod gc_Rows g = a mod gc_Rows g"
  let ?c = "a div gc_Rows g" and ?r = "a mod gc_Rows g"
  have a: "a = ?c * gc_Rows g + ?r" and b: "b = (?c + 1) * gc_Rows g + ?r"
    using cell_coords(5) [OF assms, of a] cell_coords(5) [OF assms, of b] * by simp_all
  have "(?c, ?r) \<in> set (List.product [0..gc_Cols g - 2] [0..gc_Rows g - 1])"
    using cell_coords [OF assms, of a] cell_coords(2) [OF assms, of b] * by auto
  then have "(?c * gc_Rows g + ?r, (?c + 1) * gc_Rows g + ?r) \<in> set (horizontal_hops g)"
    unfolding horizontal_eq [OF assms] set_map by (rule rev_image_eqI) simp
  then show "(a, b) \<in> set (horizontal_hops g)" using a b by simp
qed

lemma hops_distinct:
  assumes "grid_ok g"
  shows "distinct (vertical_hops g @ horizontal_hops g)"
proof -
  have "inj_on (\<lambda>(c, r). (c * gc_Rows g + r, c * gc_Rows g + r + 1)) ({0..gc_Cols g - 1} \<times> {0..gc_Rows g - 2})"
    by (rule inj_on_inverseI [where g = "\<lambda>(a, _). (a div gc_Rows g, a mod gc_Rows g)"]) (use cell_range(3,4) [OF assms] in auto)
  then have "distinct (vertical_hops g)" unfolding vertical_eq [OF assms] by (simp add: distinct_map distinct_product)
  moreover have "inj_on (\<lambda>(c, r). (c * gc_Rows g + r, (c + 1) * gc_Rows g + r)) ({0..gc_Cols g - 2} \<times> {0..gc_Rows g - 1})"
    by (rule inj_on_inverseI [where g = "\<lambda>(a, _). (a div gc_Rows g, a mod gc_Rows g)"]) (use cell_range(3,4) [OF assms] in auto)
  then have "distinct (horizontal_hops g)" unfolding horizontal_eq [OF assms] by (simp add: distinct_map distinct_product)
  moreover have "set (vertical_hops g) \<inter> set (horizontal_hops g) = {}"
    using vertical_set [OF assms] horizontal_set [OF assms] by fastforce
  ultimately show ?thesis by simp
qed

lemma hops_set:
  assumes "grid_ok g"
  shows "(a, b) \<in> set (vertical_hops g @ horizontal_hops g) \<longleftrightarrow> next_cell g a b"
  using vertical_set [OF assms] horizontal_set [OF assms] by (auto simp: next_cell_def)

lemma next_cell_less: "grid_ok g \<Longrightarrow> next_cell g a b \<Longrightarrow> a < b"
proof -
  assume g: "grid_ok g" and n: "next_cell g a b"
  have R: "0 < gc_Rows g" using g by (simp add: grid_ok_def)
  have "b = b div gc_Rows g * gc_Rows g + b mod gc_Rows g" "a = a div gc_Rows g * gc_Rows g + a mod gc_Rows g"
    by (rule div_mult_mod_eq [symmetric])+
  moreover have "(a div gc_Rows g + 1) * gc_Rows g = a div gc_Rows g * gc_Rows g + gc_Rows g" by (simp add: algebra_simps)
  ultimately show "a < b" using n R unfolding next_cell_def by (elim conjE disjE) (metis less_add_same_cancel1 add.assoc zless_add1_eq, smt (verit))
qed

lemma swap_disjoint: "\<forall>a b. (a, b) \<in> S \<longrightarrow> (b, a) \<notin> S \<Longrightarrow> S \<inter> prod.swap ` S = {}"
  by auto

text \<open>The number of roads from one cell to another.\<close>

lemma grid_road_count:
  assumes "grid_ok g"
  shows "length (filter (\<lambda>r. ends r = (u, v)) (grid_roads g n (vertical_hops g @ horizontal_hops g))) =
    (if next_cell g u v \<or> next_cell g v u then 1 else 0)"
proof -
  let ?hs = "vertical_hops g @ horizontal_hops g"
  have "distinct (?hs @ map prod.swap ?hs)"
  proof -
    have swap: "distinct (map prod.swap xs) = distinct xs" for xs :: "(int \<times> int) list" by (auto simp: distinct_map inj_on_def)
    have "distinct (map prod.swap ?hs)" using hops_distinct [OF assms] unfolding swap .
    moreover have "(b, a) \<notin> set ?hs" if "(a, b) \<in> set ?hs" for a b
    proof
      assume "(b, a) \<in> set ?hs"
      then have "b < a" using next_cell_less [OF assms] hops_set [OF assms, of b a] by blast
      moreover have "a < b" using that next_cell_less [OF assms] hops_set [OF assms, of a b] by blast
      ultimately show False by simp
    qed
    then have "set ?hs \<inter> set (map prod.swap ?hs) = {}" unfolding set_map by (intro swap_disjoint allI impI)
    ultimately show ?thesis using hops_distinct [OF assms] unfolding distinct_append by blast
  qed
  then have "count (mset (?hs @ map prod.swap ?hs)) (u, v) = (if (u, v) \<in> set (?hs @ map prod.swap ?hs) then 1 else 0)"
    by (simp only: distinct_count_atmost_1 set_mset_mset)
  moreover have "(u, v) \<in> set (?hs @ map prod.swap ?hs) \<longleftrightarrow> next_cell g u v \<or> next_cell g v u"
  proof -
    have "(u, v) \<in> prod.swap ` set ?hs \<longleftrightarrow> (v, u) \<in> set ?hs" by force
    then show ?thesis unfolding set_append [of ?hs] set_map Un_iff hops_set [OF assms] by simp
  qed
  moreover have "length (filter (\<lambda>r. ends r = (u, v)) rs) = count (mset (map ends rs)) (u, v)" for rs
    by (induction rs) auto
  ultimately show ?thesis using grid_roads_ends [of g n ?hs] by (simp del: mset_append set_append mset_map add: mset_append [symmetric])
qed

section \<open>A grid document\<close>

definition grid_document_ok :: "grid_config \<Rightarrow> raw_scenario \<Rightarrow> bool" where
  "grid_document_ok g raw \<longleftrightarrow>
     grid_ok g \<and> raw_Grid raw = Some g \<and> 0 < raw_TickMs raw
     \<and> sv_Plate (raw_Vehicle raw) \<noteq> '''' \<and> sv_Type (raw_Vehicle raw) \<in> {''normal'', ''emergency''}
     \<and> sv_From (raw_Vehicle raw) \<in> cells g \<and> sv_To (raw_Vehicle raw) \<in> cells g
     \<and> list_all (\<lambda>ev. 1 \<le> ev_Tick ev \<and> ev_Type ev = ''emergency'' \<and> ev_Plate ev \<noteq> '''' \<and> ev_From ev \<in> cells g \<and> ev_To ev \<in> cells g)
          (raw_Events raw)"

text \<open>Two cells are neighbours when their coordinates differ by one in one direction.\<close>

definition grid_neighbours :: "grid_config \<Rightarrow> int \<Rightarrow> int \<Rightarrow> bool" where
  "grid_neighbours g u v \<longleftrightarrow>
     u \<in> cells g \<and> v \<in> cells g \<and> \<bar>u div gc_Rows g - v div gc_Rows g\<bar> + \<bar>u mod gc_Rows g - v mod gc_Rows g\<bar> = 1"

lemma grid_neighbours_iff: "grid_neighbours g u v \<longleftrightarrow> next_cell g u v \<or> next_cell g v u"
  by (auto simp: grid_neighbours_def next_cell_def)

lemma grid_connected:
  assumes g: "grid_ok g" and u: "u \<in> cells g" and v: "v \<in> cells g"
  shows "(u, v) \<in> {(a, b). grid_neighbours g a b}\<^sup>*"
proof -
  let ?E = "{(a, b). grid_neighbours g a b}"
  have step: "(c * gc_Rows g + r, c' * gc_Rows g + r') \<in> ?E"
    if "0 \<le> c" "c < gc_Cols g" "0 \<le> r" "r < gc_Rows g" "0 \<le> c'" "c' < gc_Cols g" "0 \<le> r'" "r' < gc_Rows g"
      "\<bar>c - c'\<bar> + \<bar>r - r'\<bar> = 1" for c r c' r'
    using cell_range [OF g, of c r] cell_range [OF g, of c' r'] that by (simp add: grid_neighbours_def cells_def)
  have col: "int k < gc_Cols g \<Longrightarrow> (0, int k * gc_Rows g) \<in> ?E\<^sup>*" for k
  proof (induction k)
    case (Suc k)
    then have "(int k * gc_Rows g + 0, int (Suc k) * gc_Rows g + 0) \<in> ?E" using g by (intro step) (simp_all add: grid_ok_def)
    moreover have "(0, int k * gc_Rows g + 0) \<in> ?E\<^sup>*" using Suc by simp
    ultimately have "(0, int (Suc k) * gc_Rows g + 0) \<in> ?E\<^sup>*" by (rule rtrancl.rtrancl_into_rtrancl [rotated])
    then show ?case by simp
  qed simp
  have row: "c < gc_Cols g \<Longrightarrow> 0 \<le> c \<Longrightarrow> int k < gc_Rows g \<Longrightarrow> (c * gc_Rows g, c * gc_Rows g + int k) \<in> ?E\<^sup>*" for c k
  proof (induction k)
    case (Suc k)
    then have "(c * gc_Rows g + int k, c * gc_Rows g + int (Suc k)) \<in> ?E" by (intro step) simp_all
    moreover have "(c * gc_Rows g, c * gc_Rows g + int k) \<in> ?E\<^sup>*" using Suc by simp
    ultimately show ?case by (rule rtrancl.rtrancl_into_rtrancl [rotated])
  qed simp
  have from0: "(0, w) \<in> ?E\<^sup>*" if w: "w \<in> cells g" for w
  proof -
    note C = cell_coords [OF g w]
    have "(0, int (nat (w div gc_Rows g)) * gc_Rows g) \<in> ?E\<^sup>*" using C by (intro col) simp
    moreover have "(w div gc_Rows g * gc_Rows g, w div gc_Rows g * gc_Rows g + int (nat (w mod gc_Rows g))) \<in> ?E\<^sup>*"
      using C by (intro row) simp_all
    ultimately show ?thesis using C(1,3) by (simp only: int_nat_eq if_True div_mult_mod_eq)
  qed
  have "sym ?E" by (auto simp: sym_def grid_neighbours_def)
  then have "(u, 0) \<in> ?E\<^sup>*" using from0 [OF u] by (meson sym_rtrancl symD)
  then show ?thesis using from0 [OF v] by (rule rtrancl_trans)
qed

lemma grid_roads_valid:
  assumes g: "grid_ok g"
  shows "\<forall>r\<in>set (grid_roads g 1 (vertical_hops g @ horizontal_hops g)). road_valid (index_intersections (grid_intersections g)) r"
    "grid_roads g 1 (vertical_hops g @ horizontal_hops g) \<noteq> []"
proof -
  let ?rs = "grid_roads g 1 (vertical_hops g @ horizontal_hops g)"
  have known: "index_intersections (grid_intersections g) i \<noteq> None \<longleftrightarrow> i \<in> cells g" for i
    using grid_ids(2) [OF g] by (simp del: not_None_eq)
  show "\<forall>r\<in>set ?rs. road_valid (index_intersections (grid_intersections g)) r"
  proof
    fix r assume r: "r \<in> set ?rs"
    then have "filter (\<lambda>x. ends x = (sr_From r, sr_To r)) ?rs \<noteq> []" by (auto simp: filter_empty_conv ends_def)
    then have "next_cell g (sr_From r) (sr_To r) \<or> next_cell g (sr_To r) (sr_From r)"
      using grid_road_count [OF g, of "sr_From r" "sr_To r" 1] by (auto split: if_splits)
    then have "sr_From r \<in> cells g" "sr_To r \<in> cells g" by (auto simp: next_cell_def)
    then show "road_valid (index_intersections (grid_intersections g)) r"
      using grid_roads_of_grid [OF r] g known unfolding road_valid_def of_grid_def grid_ok_def by simp
  qed
  have "0 \<in> cells g" "1 \<in> cells g" using g by (auto simp: cells_def grid_ok_def)
  then have "(0, 1) \<in> {(a, b). grid_neighbours g a b}\<^sup>*" using grid_connected [OF g] by blast
  then obtain w where "grid_neighbours g 0 w" by (auto elim: converse_rtranclE)
  then show "?rs \<noteq> []" using grid_road_count [OF g, of 0 w 1] by (auto simp: grid_neighbours_iff)
qed

text \<open>
  C30. A grid document gives the grid. For every size whose road ids fit an integer, with
  positive measures and a congestion from one to ten, the document loads and builds: there is
  one intersection per cell, numbered column by column with the cell's coordinates; between any
  two intersections there is exactly one road if their coordinates differ by one in one
  direction and none otherwise; and every intersection can be reached from every other one.
\<close>

theorem grid_builds:
  assumes "grid_document_ok g raw"
  shows "\<exists>s b. LoadFile (Inr raw) = Inr s \<and> Build s = Inr b
    \<and> g_Nodes (bt_Graph b) = gc_Cols g * gc_Rows g
    \<and> (\<forall>i\<in>cells g. built_XY b i = (i div gc_Rows g, i mod gc_Rows g, True))
    \<and> (\<forall>u v. length (filter (\<lambda>e. e_To e = v) (adj (bt_Graph b) u)) = (if grid_neighbours g u v then 1 else 0))
    \<and> (\<forall>u\<in>cells g. \<forall>v\<in>cells g. (u, v) \<in> {(a, b'). \<exists>e\<in>set (adj (bt_Graph b) a). e_To e = b'}\<^sup>*)"
proof -
  have g: "grid_ok g" using assms by (simp add: grid_document_ok_def)
  define rs where "rs = grid_roads g 1 (vertical_hops g @ horizontal_hops g)"
  define s0 where "s0 = \<lparr>s_Name = raw_Name raw, s_TickMs = raw_TickMs raw, s_Bidirectional = raw_Bidirectional raw,
    s_Intersections = grid_intersections g, s_Roads = rs, s_Vehicle = raw_Vehicle raw, s_Events = raw_Events raw\<rparr>"
  define s where "s = s0\<lparr>s_Events := sort_slice (\<lambda>a b. ev_Tick a < ev_Tick b) (s_Events s0)\<rparr>"
  have known: "index_intersections (grid_intersections g) i \<noteq> None \<longleftrightarrow> i \<in> cells g" for i
    using grid_ids(2) [OF g] by (simp del: not_None_eq)
  have coords: "\<forall>i\<in>set (grid_intersections g). in_X i \<noteq> None \<and> in_Y i \<noteq> None"
    by (auto simp: grid_intersections_eq [OF g])
  have "0 \<in> cells g" using g by (auto simp: cells_def grid_ok_def)
  then have "grid_intersections g \<noteq> []" using grid_ids(2) [OF g] by auto
  then have "scenario_valid s0"
    using assms grid_ids(1) [OF g] grid_roads_valid [OF g] coords known grid_roads_ids [of g 1 "vertical_hops g @ horizontal_hops g"]
    by (auto simp: scenario_valid_def s0_def Let_def rs_def grid_document_ok_def event_valid_def list_all_iff simp del: not_None_eq index_known)
  then have load: "LoadFile (Inr raw) = Inr s"
    using assms Validate_iff [of s0] unfolding LoadFile_def Let_def
    by (simp add: grid_document_ok_def generateGrid_eq rs_def [symmetric] s0_def [symmetric] s_def)
  have ints: "s_Intersections s = grid_intersections g" "s_Roads s = rs" by (simp_all add: s_def s0_def)
  have "int (length (grid_intersections g)) = gc_Cols g * gc_Rows g"
    using g by (simp add: grid_intersections_eq [OF g] grid_ok_def)
  then have len: "cells g = {0..<int (length (grid_intersections g))}" "int (length (grid_intersections g)) = gc_Cols g * gc_Rows g"
    by (simp_all add: cells_def)
  then obtain b where b: "Build s = Inr b" using Build_iff [of s] grid_ids [OF g] ints by auto
  have adj: "length (filter (\<lambda>e. e_To e = v) (adj (bt_Graph b) u)) = (if grid_neighbours g u v then 1 else 0)" for u v
  proof -
    have "filter (\<lambda>e. e_To e = v) (map model_edge (filter (\<lambda>r. sr_From r = u) rs)) = map model_edge (filter (\<lambda>r. ends r = (u, v)) rs)"
      by (induction rs) (auto simp: model_edge_def ends_def)
    then show ?thesis
      using grid_road_count [OF g, of u v 1] by (simp add: Build_graph(2) [OF b] ints grid_neighbours_iff rs_def)
  qed
  have edges: "(\<exists>e\<in>set (adj (bt_Graph b) u). e_To e = v) \<longleftrightarrow> grid_neighbours g u v" for u v
  proof -
    have "(\<exists>e\<in>set es. e_To e = v) \<longleftrightarrow> length (filter (\<lambda>e. e_To e = v) es) \<noteq> 0" for es :: "edge list"
      by (auto simp: filter_empty_conv)
    from this [of "adj (bt_Graph b) u"] show ?thesis unfolding adj by simp
  qed
  have "built_XY b i = (i div gc_Rows g, i mod gc_Rows g, True)" if i: "i \<in> cells g" for i
  proof -
    note C = cell_coords [OF g i]
    have "\<lparr>in_ID = i, in_X = Some (i div gc_Rows g), in_Y = Some (i mod gc_Rows g)\<rparr> \<in> set (grid_intersections g)"
      unfolding grid_intersections_eq [OF g] set_map
      by (rule image_eqI [of _ _ "(i div gc_Rows g, i mod gc_Rows g)"]) (use C in auto)
    from index_lookup [OF grid_ids(1) [OF g] this] show ?thesis
      by (simp add: built_XY_def Build_graph(3) [OF b] ints intersection_XY_def)
  qed
  then show ?thesis
    using load b Build_graph(1) [OF b] len(2) ints adj grid_connected [OF g] by (intro exI [of _ s] exI [of _ b]) (simp add: edges)
qed

definition sample_grid :: grid_config where
  "sample_grid = \<lparr>gc_Cols = 1, gc_Rows = 2, gc_CellDist = 1, gc_Speed = 1, gc_Congestion = 1\<rparr>"

theorem grid_builds_witness:
  "\<exists>s b. LoadFile (Inr ((sample_raw 10)\<lparr>raw_Grid := Some sample_grid\<rparr>)) = Inr s \<and> Build s = Inr b \<and> g_Nodes (bt_Graph b) = 2"
proof -
  have "grid_document_ok sample_grid ((sample_raw 10)\<lparr>raw_Grid := Some sample_grid\<rparr>)"
    by (simp add: grid_document_ok_def grid_ok_def sample_raw_def sample_grid_def cells_def zero_f64_def one_f64_def)
  from grid_builds [OF this] show ?thesis by (auto simp: sample_grid_def)
qed

end
