(* ===== verification/Ride_Model.thy ===== *)
theory Ride_Model
  imports Heaps Go_Float "HOL-Library.List_Lexorder" "HOL-Library.Char_ord"
begin

text \<open>
  The data of the ride-sharing service (\<open>06,07-day/project/internal\<close>): \<open>models\<close>, \<open>errors\<close>, \<open>config\<close>
  and \<open>geo\<close>.  A possibly nil pointer is an option.  \<open>math.Sqrt\<close> is the correctly rounded square
  root of IEEE 754; \<open>math.Cos\<close> is the argument \<open>cosine\<close>, of which the theorems assume at most
  \<open>cos_ok\<close>.
\<close>

section \<open>Square root and cosine\<close>

text \<open>\<open>==\<close> on \<open>float64\<close>.  Locations are compared only after they have been found valid, which
  leaves no NaN in them, so there equality is that of records.\<close>

definition f64_eq :: "f64 \<Rightarrow> f64 \<Rightarrow> bool" where
  "f64_eq a b \<longleftrightarrow> a = b \<and> a \<noteq> NaN"

text \<open>The integer square root, two binary digits at a time.\<close>

fun isqrt :: "nat \<Rightarrow> nat" where
  "isqrt n = (if n = 0 then 0 else let r = 2 * isqrt (n div 4) in if (r + 1) * (r + 1) \<le> n then r + 1 else r)"

declare isqrt.simps [simp del]

text \<open>
  The root is computed to at least 58 binary digits, with half a unit added when it is not
  exact: that is on the same side of every value halfway between two representable ones.
\<close>

definition math_Sqrt :: "f64 \<Rightarrow> f64" where
  "math_Sqrt a =
     (case a of
        NaN \<Rightarrow> NaN | NegInf \<Rightarrow> NaN | PosInf \<Rightarrow> PosInf
      | Fin q \<Rightarrow>
          if q < 0 then NaN else if q = 0 then Fin 0
          else (let e = ilog2 q div 2 - 60;
                    s = q * pow2 (- 2 * e);
                    r = int (isqrt (nat \<lfloor>s\<rfloor>));
                    m = (if of_int (r * r) = s then of_int r else of_int r + 1 / 2)
                in round64 (m * pow2 e)))"

lemma math_Sqrt_not_negative: "\<not> math_Sqrt a < 0"
proof (cases a)
  case (Fin q)
  have "0 \<le> round64 x" if "0 \<le> x" for x using f64_zero_le_round64 [OF that] .
  moreover have "\<not> x < 0" if "0 \<le> x" for x :: f64 using that by (simp add: less_f64_def)
  ultimately show ?thesis using Fin by (auto simp: math_Sqrt_def Let_def zero_f64_def)
qed (simp_all add: math_Sqrt_def zero_f64_def)

definition math_Pi :: f64 where
  "math_Pi = round64 (314159265358979323846264338327950288419716939937510582097494459 / 10 ^ 62)"

definition cos_ok :: "(f64 \<Rightarrow> f64) \<Rightarrow> bool" where
  "cos_ok cosine \<longleftrightarrow> (\<forall>q. \<exists>c. cosine (Fin q) = Fin c \<and> - 1 \<le> c \<and> c \<le> 1)"

section \<open>Models\<close>

datatype ride_error =
    ErrDriverNotFound | ErrDuplicateDriver | ErrNoDriverFound | ErrInvalidDriver | ErrInvalidLocation
  | ErrInvalidStatus | ErrInvalidStatusChange | ErrInvalidRating
  | ErrRiderNotFound | ErrDuplicateRider | ErrInvalidRider | ErrInvalidRide
  | ErrEmptyQueue | ErrInvalidRideRequest
  | ErrEmptyLinkedList | ErrInvalidLinkedListNode
  | ErrRideNotFound | ErrDuplicateRide
  | ErrRideRequestExpired | ErrNoDriverAvailable

record location =
  Lat :: f64
  Lng :: f64

type_synonym block_id = "int \<times> int"

text \<open>The status types are strings; any other string is an \<open>Other\<close>.\<close>

datatype driver_status = DriverAvailable | DriverBusy | DriverOffline | OtherDriverStatus string

datatype ride_status = RideRequested | RideAssigned | RideCompleted | RideCancelled | OtherRideStatus string

record driver =
  dr_ID :: string
  dr_Name :: string
  dr_Location :: location
  dr_Status :: driver_status
  dr_Rating :: f64
  dr_BlockID :: block_id
  dr_RideHistory :: "string list"

record rider =
  ri_ID :: string
  ri_Name :: string
  ri_Location :: location
  ri_PaymentMethod :: string
  ri_RideHistory :: "string list"

record ride_request =
  rr_ID :: string
  rr_RiderID :: string
  rr_Pickup :: location
  rr_Dropoff :: location
  rr_RequestTime :: gotime

record ride =
  rd_ID :: string
  rd_RiderID :: string
  rd_DriverID :: string
  rd_Pickup :: location
  rd_Dropoff :: location
  rd_Status :: ride_status
  rd_RequestTime :: gotime
  rd_StartTime :: gotime
  rd_EndTime :: gotime
  rd_Fare :: f64
  rd_DistanceKm :: f64

section \<open>Ids\<close>

text \<open>\<open>%06d\<close> of an unsigned number.\<close>

fun decimal :: "nat \<Rightarrow> string" where
  "decimal n = (if n < 10 then [char_of (48 + n)] else decimal (n div 10) @ [char_of (48 + n mod 10)])"

declare decimal.simps [simp del]

definition pad6 :: "nat \<Rightarrow> string" where
  "pad6 n = replicate (6 - length (decimal n)) (CHR ''0'') @ decimal n"

text \<open>An atomic increment of the counter, and the id made of its new value.\<close>

definition new_id :: "string \<Rightarrow> nat \<Rightarrow> string \<times> nat" where
  "new_id kind counter = (let n = (counter + 1) mod 2 ^ 64 in (kind @ pad6 n, n))"

definition NewDriverID :: "nat \<Rightarrow> string \<times> nat" where
  "NewDriverID = new_id ''DRV-''"

definition NewRiderID :: "nat \<Rightarrow> string \<times> nat" where
  "NewRiderID = new_id ''RDR-''"

definition NewRideID :: "nat \<Rightarrow> string \<times> nat" where
  "NewRideID = new_id ''RID-''"

definition NewRequestID :: "nat \<Rightarrow> string \<times> nat" where
  "NewRequestID = new_id ''REQ-''"

section \<open>Validation\<close>

definition IsValidLocation :: "location \<Rightarrow> bool" where
  "IsValidLocation loc \<longleftrightarrow> Fin (- 90) \<le> Lat loc \<and> Lat loc \<le> Fin 90 \<and> Fin (- 180) \<le> Lng loc \<and> Lng loc \<le> Fin 180"

fun IsValidDriverStatus :: "driver_status \<Rightarrow> bool" where
  "IsValidDriverStatus (OtherDriverStatus _) \<longleftrightarrow> False"
| "IsValidDriverStatus _ \<longleftrightarrow> True"

fun IsValidRideStatus :: "ride_status \<Rightarrow> bool" where
  "IsValidRideStatus (OtherRideStatus _) \<longleftrightarrow> False"
| "IsValidRideStatus _ \<longleftrightarrow> True"

definition blank :: "string \<Rightarrow> bool" where
  "blank s \<longleftrightarrow> TrimSpace s = ''''"

definition IsValidDriver :: "driver option \<Rightarrow> bool" where
  "IsValidDriver dp =
     (case dp of None \<Rightarrow> False
      | Some d \<Rightarrow> \<not> blank (dr_ID d) \<and> \<not> blank (dr_Name d) \<and> IsValidLocation (dr_Location d)
          \<and> IsValidDriverStatus (dr_Status d) \<and> \<not> (dr_Rating d < 0 \<or> Fin 5 < dr_Rating d))"

definition IsValidRider :: "rider option \<Rightarrow> bool" where
  "IsValidRider rp =
     (case rp of None \<Rightarrow> False
      | Some r \<Rightarrow> \<not> blank (ri_ID r) \<and> \<not> blank (ri_Name r) \<and> IsValidLocation (ri_Location r) \<and> \<not> blank (ri_PaymentMethod r))"

definition IsValidRideRequest :: "ride_request option \<Rightarrow> bool" where
  "IsValidRideRequest rp =
     (case rp of None \<Rightarrow> False
      | Some r \<Rightarrow> \<not> blank (rr_ID r) \<and> \<not> blank (rr_RiderID r) \<and> IsValidLocation (rr_Pickup r) \<and> IsValidLocation (rr_Dropoff r)
          \<and> rr_Pickup r \<noteq> rr_Dropoff r \<and> \<not> time_IsZero (rr_RequestTime r))"

definition IsValidRide :: "ride option \<Rightarrow> bool" where
  "IsValidRide rp =
     (case rp of None \<Rightarrow> False
      | Some r \<Rightarrow> \<not> blank (rd_ID r) \<and> \<not> blank (rd_RiderID r)
          \<and> \<not> (rd_Status r \<noteq> RideCancelled \<and> blank (rd_DriverID r))
          \<and> IsValidLocation (rd_Pickup r) \<and> IsValidLocation (rd_Dropoff r) \<and> rd_Pickup r \<noteq> rd_Dropoff r
          \<and> IsValidRideStatus (rd_Status r) \<and> \<not> time_IsZero (rd_RequestTime r)
          \<and> \<not> rd_Fare r < 0 \<and> \<not> rd_DistanceKm r < 0)"

section \<open>Configuration\<close>

record ride_config =
  CellSizeDegrees :: f64
  MaxPickupDistanceKm :: f64
  RequestTimeout :: duration
  BaseFare :: f64
  FarePerKm :: f64

definition ride_DefaultConfig :: ride_config where
  "ride_DefaultConfig =
     \<lparr>CellSizeDegrees = round64 (1 / 100), MaxPickupDistanceKm = Fin 5, RequestTimeout = 10 * 60 * 1000000000,
      BaseFare = Fin 50, FarePerKm = Fin 12\<rparr>"

definition NeighborRing :: "ride_config \<Rightarrow> int" where
  "NeighborRing c =
     (let cellSizeKm = CellSizeDegrees c * Fin 111 in f64_to_int (math_Ceil (MaxPickupDistanceKm c / cellSizeKm)))"

section \<open>Geometry\<close>

definition GetBlockID :: "location \<Rightarrow> f64 \<Rightarrow> block_id" where
  "GetBlockID loc cellSizeDegrees =
     (f64_to_int (math_Floor (Lat loc / cellSizeDegrees)), f64_to_int (math_Floor (Lng loc / cellSizeDegrees)))"

definition NeighborBlocks :: "block_id \<Rightarrow> int \<Rightarrow> block_id list" where
  "NeighborBlocks center ring =
     concat (map (\<lambda>latOffset. map (\<lambda>lngOffset. (wrap64 (fst center + latOffset), wrap64 (snd center + lngOffset)))
                               [wrap64 (- ring)..ring])
              [wrap64 (- ring)..ring])"

definition DistanceKm :: "(f64 \<Rightarrow> f64) \<Rightarrow> location \<Rightarrow> location \<Rightarrow> f64" where
  "DistanceKm cosine a b =
     (let dx = (Lat a - Lat b) * Fin 111;
          dy = (Lng a - Lng b) * Fin 111 * cosine (Lat a * math_Pi / Fin 180)
      in math_Sqrt (dx * dx + dy * dy))"

end
