(* ===== verification/Linked_List.thy ===== *)
theory Linked_List
  imports Ride_Model
begin

text \<open>
  The doubly linked list of the ride-sharing service
  (\<open>06,07-day/project/internal/ds/linkedlist/doubly_linked_list.go\<close>) on an explicit store of
  nodes, and its refinement: it implements a list of values with node handles.

  A node is an address; \<open>ll_next_addr\<close> is the next address the allocator hands out.  A loop along
  \<open>next\<close> that does not end, or that reads a node that was not allocated, is \<open>None\<close>.
\<close>

record 'a ll_node =
  nd_value :: 'a
  nd_prev :: "nat option"
  nd_next :: "nat option"

record 'a linked_list =
  ll_nodes :: "nat \<rightharpoonup> 'a ll_node"
  ll_next_addr :: nat
  ll_head :: "nat option"
  ll_tail :: "nat option"
  ll_length :: int

definition NewDoublyLinkedList :: "'a linked_list" where
  "NewDoublyLinkedList = \<lparr>ll_nodes = Map.empty, ll_next_addr = 0, ll_head = None, ll_tail = None, ll_length = 0\<rparr>"

definition set_prev :: "nat option \<Rightarrow> 'a ll_node \<Rightarrow> 'a ll_node" where
  "set_prev p n = n\<lparr>nd_prev := p\<rparr>"

definition set_next :: "nat option \<Rightarrow> 'a ll_node \<Rightarrow> 'a ll_node" where
  "set_next p n = n\<lparr>nd_next := p\<rparr>"

definition upd_node :: "nat \<Rightarrow> ('a ll_node \<Rightarrow> 'a ll_node) \<Rightarrow> (nat \<rightharpoonup> 'a ll_node) \<Rightarrow> (nat \<rightharpoonup> 'a ll_node)" where
  "upd_node a f m = m(a := map_option f (m a))"

text \<open>A list with a length but without a tail, on which \<open>PushBack\<close> would panic, never arises
  (\<open>rep_PushBack\<close>); the model leaves the nodes as they are.\<close>

definition PushBack :: "'a \<Rightarrow> 'a linked_list \<Rightarrow> nat \<times> 'a linked_list" where
  "PushBack value l =
     (let a = ll_next_addr l;
          l = l\<lparr>ll_nodes := (ll_nodes l)(a \<mapsto> \<lparr>nd_value = value, nd_prev = None, nd_next = None\<rparr>), ll_next_addr := a + 1\<rparr>
      in if ll_length l = 0 then (a, l\<lparr>ll_head := Some a, ll_tail := Some a, ll_length := ll_length l + 1\<rparr>)
         else (a, l\<lparr>ll_nodes := (case ll_tail l of None \<Rightarrow> ll_nodes l
                                 | Some t \<Rightarrow> upd_node t (set_next (Some a)) (upd_node a (set_prev (Some t)) (ll_nodes l))),
                    ll_tail := Some a, ll_length := ll_length l + 1\<rparr>))"

partial_function (option) containsNode :: "(nat \<rightharpoonup> 'a ll_node) \<Rightarrow> nat option \<Rightarrow> nat \<Rightarrow> bool option" where
  "containsNode m current target =
     (case current of
        None \<Rightarrow> Some False
      | Some a \<Rightarrow>
          if a = target then Some True
          else (case m a of None \<Rightarrow> None | Some n \<Rightarrow> containsNode m (nd_next n) target))"

partial_function (option) collect_values :: "(nat \<rightharpoonup> 'a ll_node) \<Rightarrow> nat option \<Rightarrow> 'a list \<Rightarrow> 'a list option" where
  "collect_values m current values =
     (case current of
        None \<Rightarrow> Some values
      | Some a \<Rightarrow> (case m a of None \<Rightarrow> None | Some n \<Rightarrow> collect_values m (nd_next n) (values @ [nd_value n])))"

definition ll_Values :: "'a linked_list \<Rightarrow> 'a list option" where
  "ll_Values l = collect_values (ll_nodes l) (ll_head l) []"

text \<open>\<open>Remove\<close>: the outer \<open>None\<close> is a loop without end or a nil dereference.\<close>

definition ll_Remove :: "nat option \<Rightarrow> 'a linked_list \<Rightarrow> ((ride_error + 'a) \<times> 'a linked_list) option" where
  "ll_Remove node l =
     (case node of
        None \<Rightarrow> Some (Inl ErrInvalidLinkedListNode, l)
      | Some a \<Rightarrow>
          if ll_length l = 0 then Some (Inl ErrEmptyLinkedList, l)
          else (case containsNode (ll_nodes l) (ll_head l) a of
             None \<Rightarrow> None
           | Some False \<Rightarrow> Some (Inl ErrInvalidLinkedListNode, l)
           | Some True \<Rightarrow>
               (case ll_nodes l a of
                  None \<Rightarrow> None
                | Some n \<Rightarrow>
                    (let l = (case nd_prev n of
                                Some p \<Rightarrow> l\<lparr>ll_nodes := upd_node p (set_next (nd_next n)) (ll_nodes l)\<rparr>
                              | None \<Rightarrow> l\<lparr>ll_head := nd_next n\<rparr>);
                         l = (case nd_next n of
                                Some s \<Rightarrow> l\<lparr>ll_nodes := upd_node s (set_prev (nd_prev n)) (ll_nodes l)\<rparr>
                              | None \<Rightarrow> l\<lparr>ll_tail := nd_prev n\<rparr>)
                     in Some (Inr (nd_value n),
                              l\<lparr>ll_nodes := upd_node a (set_prev None \<circ> set_next None) (ll_nodes l),
                                ll_length := ll_length l - 1\<rparr>)))))"

definition ll_Len :: "'a linked_list \<Rightarrow> int" where
  "ll_Len l = ll_length l"

definition ll_IsEmpty :: "'a linked_list \<Rightarrow> bool" where
  "ll_IsEmpty l \<longleftrightarrow> ll_Len l = 0"

section \<open>Refinement\<close>

definition first_addr :: "(nat \<times> 'a) list \<Rightarrow> nat option" where
  "first_addr xs = (case xs of [] \<Rightarrow> None | x # _ \<Rightarrow> Some (fst x))"

definition last_addr :: "(nat \<times> 'a) list \<Rightarrow> nat option" where
  "last_addr xs = (if xs = [] then None else Some (fst (last xs)))"

lemma addr_simps [simp]:
  "first_addr [] = None" "first_addr (x # xs) = Some (fst x)" "last_addr [] = None" "last_addr (xs @ [x]) = Some (fst x)"
  "last_addr (x # xs) = (if xs = [] then Some (fst x) else last_addr xs)" "last_addr (xs @ y # ys) = last_addr (y # ys)" "first_addr (xs @ ys) = (if xs = [] then first_addr ys else first_addr xs)"
  by (simp_all add: first_addr_def last_addr_def split: list.split)

text \<open>The list holds the values of \<open>xs\<close>, each in the node at its address.\<close>

definition ll_rep :: "'a linked_list \<Rightarrow> (nat \<times> 'a) list \<Rightarrow> bool" where
  "ll_rep l xs \<longleftrightarrow>
     distinct (map fst xs) \<and> (\<forall>a\<in>fst ` set xs. a < ll_next_addr l)
     \<and> ll_head l = first_addr xs \<and> ll_tail l = last_addr xs \<and> ll_length l = int (length xs)
     \<and> (\<forall>ys a v zs. xs = ys @ (a, v) # zs \<longrightarrow>
          ll_nodes l a = Some \<lparr>nd_value = v, nd_prev = last_addr ys, nd_next = first_addr zs\<rparr>)"

lemma ll_repD:
  assumes "ll_rep l xs"
  shows "distinct (map fst xs)" "a \<in> fst ` set xs \<Longrightarrow> a < ll_next_addr l" "ll_head l = first_addr xs" "ll_tail l = last_addr xs"
    "ll_length l = int (length xs)"
    "xs = ys @ (b, v) # zs \<Longrightarrow> ll_nodes l b = Some \<lparr>nd_value = v, nd_prev = last_addr ys, nd_next = first_addr zs\<rparr>"
  using assms by (auto simp: ll_rep_def)

lemma rep_New: "ll_rep NewDoublyLinkedList []"
  by (simp add: ll_rep_def NewDoublyLinkedList_def)

lemma containsNode_chain:
  assumes "ll_rep l xs" "xs = ys @ zs"
  shows "containsNode (ll_nodes l) (first_addr zs) a = Some (a \<in> fst ` set zs)"
  using assms(2)
proof (induction zs arbitrary: ys)
  case Nil
  then show ?case by (simp add: containsNode.simps)
next
  case (Cons z zs)
  have "ll_nodes l (fst z) = Some \<lparr>nd_value = snd z, nd_prev = last_addr ys, nd_next = first_addr zs\<rparr>"
    using ll_repD(6) [OF assms(1), of ys "fst z" "snd z" zs] Cons.prems by simp
  moreover have "containsNode (ll_nodes l) (first_addr zs) a = Some (a \<in> fst ` set zs)"
    using Cons.IH [of "ys @ [z]"] Cons.prems by simp
  ultimately show ?case by (simp add: containsNode.simps [of "ll_nodes l" "Some (fst z)"])
qed

lemma collect_values_chain:
  assumes "ll_rep l xs" "xs = ys @ zs"
  shows "collect_values (ll_nodes l) (first_addr zs) vs = Some (vs @ map snd zs)"
  using assms(2)
proof (induction zs arbitrary: ys vs)
  case Nil
  then show ?case by (simp add: collect_values.simps)
next
  case (Cons z zs)
  have "ll_nodes l (fst z) = Some \<lparr>nd_value = snd z, nd_prev = last_addr ys, nd_next = first_addr zs\<rparr>"
    using ll_repD(6) [OF assms(1), of ys "fst z" "snd z" zs] Cons.prems by simp
  moreover have "collect_values (ll_nodes l) (first_addr zs) (vs @ [snd z]) = Some ((vs @ [snd z]) @ map snd zs)"
    using Cons.IH [of "ys @ [z]"] Cons.prems by simp
  ultimately show ?case by (simp add: collect_values.simps [of "ll_nodes l" "Some (fst z)"])
qed

lemma ll_Values_rep: "ll_rep l xs \<Longrightarrow> ll_Values l = Some (map snd xs)"
  using collect_values_chain [of l xs "[]" xs "[]"] by (simp add: ll_Values_def ll_repD(3))

lemma rep_PushBack:
  assumes rep: "ll_rep l xs"
  shows "\<exists>l'. PushBack v l = (ll_next_addr l, l') \<and> ll_rep l' (xs @ [(ll_next_addr l, v)])"
proof -
  let ?a = "ll_next_addr l"
  note R = ll_repD [OF rep]
  have new: "?a \<notin> fst ` set xs" using R(2) by blast
  show ?thesis
  proof (cases xs rule: rev_cases)
    case Nil
    then show ?thesis using R(5) by (auto simp: PushBack_def Let_def ll_rep_def Cons_eq_append_conv)
  next
    case (snoc us tw)
    obtain t w where tw: "tw = (t, w)" by fastforce
    have tail: "ll_tail l = Some t" using R(4) snoc tw by simp
    have ta: "t \<noteq> ?a" using new snoc tw by auto
    define m where "m = upd_node t (set_next (Some ?a)) (upd_node ?a (set_prev (Some t))
      ((ll_nodes l)(?a \<mapsto> \<lparr>nd_value = v, nd_prev = None, nd_next = None\<rparr>)))"
    have push: "PushBack v l = (?a, l\<lparr>ll_nodes := m, ll_next_addr := ?a + 1, ll_tail := Some ?a, ll_length := ll_length l + 1\<rparr>)"
      using R(5) snoc tail by (simp add: PushBack_def Let_def m_def)
    have "m b = Some \<lparr>nd_value = u, nd_prev = last_addr ys, nd_next = first_addr zs\<rparr>" if split: "xs @ [(?a, v)] = ys @ (b, u) # zs" for ys b u zs
    proof (cases zs rule: rev_cases)
      case Nil
      then have "ys = xs" "b = ?a" "u = v" using split by auto
      then show ?thesis using Nil snoc tw ta by (simp add: m_def upd_node_def set_prev_def set_next_def)
    next
      case (snoc zs' z)
      then have xs: "xs = ys @ (b, u) # zs'" and z: "z = (?a, v)" using split by auto
      have old: "ll_nodes l b = Some \<lparr>nd_value = u, nd_prev = last_addr ys, nd_next = first_addr zs'\<rparr>" using R(6) [OF xs] .
      have ba: "b \<noteq> ?a" using new xs by auto
      show ?thesis
      proof (cases "zs' = []")
        case True
        then have "b = t" using xs \<open>xs = us @ [tw]\<close> tw by simp
        then show ?thesis using old ba True snoc z by (simp add: m_def upd_node_def set_next_def)
      next
        case False
        then have "t \<in> fst ` set zs'" using xs \<open>xs = us @ [tw]\<close> tw by (cases zs' rule: rev_cases) auto
        then have "b \<noteq> t" using R(1) xs by auto
        then show ?thesis using old ba False snoc by (simp add: m_def upd_node_def)
      qed
    qed
    moreover have "\<forall>b\<in>fst ` set (xs @ [(?a, v)]). b < ?a + 1" using R(2) by fastforce
    ultimately have "ll_rep (l\<lparr>ll_nodes := m, ll_next_addr := ?a + 1, ll_tail := Some ?a, ll_length := ll_length l + 1\<rparr>) (xs @ [(?a, v)])"
      using R(1,3,5) new snoc unfolding ll_rep_def by simp
    then show ?thesis using push by blast
  qed
qed

lemma Remove_absent:
  assumes "ll_rep l xs" "\<forall>a. node = Some a \<longrightarrow> a \<notin> fst ` set xs"
  shows "ll_Remove node l = Some (Inl (if node \<noteq> None \<and> xs = [] then ErrEmptyLinkedList else ErrInvalidLinkedListNode), l)"
  using assms containsNode_chain [OF assms(1), of "[]" xs] ll_repD(3,5) [OF assms(1)]
  by (auto simp: ll_Remove_def split: option.split)


lemma last_addr_append: "last_addr (xs @ ys) = (if ys = [] then last_addr xs else last_addr ys)"
  by (simp add: last_addr_def)

lemma addr_None [simp]: "first_addr xs = None \<longleftrightarrow> xs = []" "last_addr xs = None \<longleftrightarrow> xs = []"
  by (simp_all add: first_addr_def last_addr_def split: list.split)

lemma addr_mem: "first_addr xs = Some a \<Longrightarrow> a \<in> fst ` set xs" "last_addr xs = Some a \<Longrightarrow> a \<in> fst ` set xs"
  by (auto simp: first_addr_def last_addr_def split: list.splits if_splits)

text \<open>The nodes after the unlinking of \<open>a\<close> between \<open>ys\<close> and \<open>zs\<close>.\<close>

definition unlinked :: "nat option \<Rightarrow> nat option \<Rightarrow> nat \<Rightarrow> (nat \<rightharpoonup> 'a ll_node) \<Rightarrow> (nat \<rightharpoonup> 'a ll_node)" where
  "unlinked p s a m =
     upd_node a (set_prev None \<circ> set_next None)
       (let m = (case p of None \<Rightarrow> m | Some p \<Rightarrow> upd_node p (set_next s) m)
        in case s of None \<Rightarrow> m | Some s \<Rightarrow> upd_node s (set_prev p) m)"

lemma unlinked_at:
  assumes "b \<noteq> a" "m b = Some \<lparr>nd_value = v, nd_prev = q, nd_next = r\<rparr>"
  shows "unlinked p s a m b = Some \<lparr>nd_value = v, nd_prev = (if s = Some b then p else q), nd_next = (if p = Some b then s else r)\<rparr>"
  using assms by (auto simp: unlinked_def upd_node_def set_prev_def set_next_def Let_def split: option.split)

lemma rep_Remove:
  assumes rep: "ll_rep l xs" and xs: "xs = ys @ (a, v) # zs"
  shows "\<exists>l'. ll_Remove (Some a) l = Some (Inr v, l') \<and> ll_rep l' (ys @ zs) \<and> ll_next_addr l' = ll_next_addr l"
proof -
  note R = ll_repD [OF rep]
  let ?p = "last_addr ys" and ?s = "first_addr zs"
  let ?l = "l\<lparr>ll_nodes := unlinked ?p ?s a (ll_nodes l), ll_head := first_addr (ys @ zs), ll_tail := last_addr (ys @ zs),
              ll_length := ll_length l - 1\<rparr>"
  have node: "ll_nodes l a = Some \<lparr>nd_value = v, nd_prev = ?p, nd_next = ?s\<rparr>" using R(6) [OF xs] .
  have mem: "containsNode (ll_nodes l) (ll_head l) a = Some True"
    using containsNode_chain [OF rep, of "[]" xs a] R(3) xs by simp
  have "ll_length l \<noteq> 0" using R(5) xs by simp
  moreover have head: "ys \<noteq> [] \<Longrightarrow> ll_head l = first_addr (ys @ zs)" using R(3) xs by simp
  moreover have tail: "zs \<noteq> [] \<Longrightarrow> ll_tail l = last_addr (ys @ zs)" using R(4) xs by (simp add: last_addr_append)
  ultimately have remove: "ll_Remove (Some a) l = Some (Inr v, ?l)"
    using mem node
    by (cases ys rule: rev_cases; cases zs) (auto simp: ll_Remove_def unlinked_def Let_def last_addr_append intro!: linked_list.equality)
  have distinct: "distinct (map fst (ys @ zs))" "a \<notin> fst ` set (ys @ zs)" using R(1) xs by auto
  have "unlinked ?p ?s a (ll_nodes l) b = Some \<lparr>nd_value = u, nd_prev = last_addr us, nd_next = first_addr ws\<rparr>"
    if split: "ys @ zs = us @ (b, u) # ws" for us b u ws
  proof -
    have ba: "b \<noteq> a" using distinct(2) unfolding split by auto
    consider ws' where "ys = us @ (b, u) # ws'" "ws = ws' @ zs" | us' where "zs = us' @ (b, u) # ws" "us = ys @ us'"
    proof -
      obtain vs where "ys = us @ vs \<and> vs @ zs = (b, u) # ws \<or> ys @ vs = us \<and> zs = vs @ (b, u) # ws"
        using split unfolding append_eq_append_conv2 by blast
      then show ?thesis using that by (cases vs) auto
    qed
    then show ?thesis
    proof cases
      case 1
      have "xs = us @ (b, u) # (ws' @ (a, v) # zs)" using xs 1 by simp
      then have old: "ll_nodes l b = Some \<lparr>nd_value = u, nd_prev = last_addr us, nd_next = first_addr (ws' @ (a, v) # zs)\<rparr>" using R(6) by blast
      have s: "?s \<noteq> Some b" using addr_mem(1) [of zs b] distinct(1) 1 by auto
      have p: "?p = Some b \<longleftrightarrow> ws' = []"
        using addr_mem(2) [of ws' b] distinct(1) 1 by (auto simp: last_addr_append)
      show ?thesis using unlinked_at [where p = "?p" and s = "?s", OF ba, of "ll_nodes l", OF old] s p 1 by auto
    next
      case 2
      have "xs = (ys @ (a, v) # us') @ (b, u) # ws" using xs 2 by simp
      then have old: "ll_nodes l b = Some \<lparr>nd_value = u, nd_prev = last_addr (ys @ (a, v) # us'), nd_next = first_addr ws\<rparr>" using R(6) by blast
      have p: "?p \<noteq> Some b" using addr_mem(2) [of ys b] distinct(1) 2 by auto
      have s: "?s = Some b \<longleftrightarrow> us' = []"
        using addr_mem(1) [of us' b] distinct(1) 2 by (auto split: if_splits)
      show ?thesis using unlinked_at [where p = "?p" and s = "?s", OF ba, of "ll_nodes l", OF old] s p 2 by (auto simp: last_addr_append)
    qed
  qed
  then have "ll_rep ?l (ys @ zs)" using distinct(1) R(2,5) xs unfolding ll_rep_def by auto
  then show ?thesis using remove by (intro exI [of _ ?l]) simp
qed

end
