(* ===== verification/Ride_Stores.thy ===== *)
theory Ride_Stores
  imports Linked_List
begin

text \<open>
  The stores of the ride-sharing service (\<open>06,07-day/project/internal\<close>): drivers with the index of
  the available ones by block, riders, ride requests in a heap, active rides in a linked list with
  their nodes by id, and the history of rides.

  A pointer to a driver or rider is its id: a store enters it under its id and never removes it.
  The set of pointers in a block of the index is the set of their ids; the order in which a range
  over such a map visits it is the argument \<open>order\<close>.  Every operation runs under its store's lock
  and is one step.
\<close>

section \<open>Drivers\<close>

record driver_store =
  ds_cfg :: ride_config
  driversByID :: "string \<rightharpoonup> driver"
  availableDriversByBlock :: "block_id \<rightharpoonup> string set"

definition ds_NewMemoryStore :: "ride_config \<Rightarrow> driver_store" where
  "ds_NewMemoryStore cfg = \<lparr>ds_cfg = cfg, driversByID = Map.empty, availableDriversByBlock = Map.empty\<rparr>"

definition set_driver :: "driver \<Rightarrow> driver_store \<Rightarrow> driver_store" where
  "set_driver d s = s\<lparr>driversByID := (driversByID s)(dr_ID d \<mapsto> d)\<rparr>"

definition ds_Register :: "driver option \<Rightarrow> driver_store \<Rightarrow> ride_error option \<times> driver_store" where
  "ds_Register dp s =
     (case dp of
        None \<Rightarrow> (Some ErrInvalidDriver, s)
      | Some d \<Rightarrow>
          if \<not> IsValidDriver (Some d) then (Some ErrInvalidDriver, s)
          else if driversByID s (dr_ID d) \<noteq> None then (Some ErrDuplicateDriver, s)
          else (None, set_driver (d\<lparr>dr_Status := DriverOffline, dr_BlockID := GetBlockID (dr_Location d) (CellSizeDegrees (ds_cfg s))\<rparr>) s))"

definition ds_Get :: "string \<Rightarrow> driver_store \<Rightarrow> ride_error + driver" where
  "ds_Get driverID s =
     (if blank driverID then Inl ErrDriverNotFound
      else (case driversByID s driverID of None \<Rightarrow> Inl ErrDriverNotFound | Some d \<Rightarrow> Inr d))"

definition addAvailableDriver :: "driver \<Rightarrow> driver_store \<Rightarrow> driver_store" where
  "addAvailableDriver d s =
     (let ids = (case availableDriversByBlock s (dr_BlockID d) of None \<Rightarrow> {} | Some ids \<Rightarrow> ids)
      in s\<lparr>availableDriversByBlock := (availableDriversByBlock s)(dr_BlockID d \<mapsto> insert (dr_ID d) ids)\<rparr>)"

definition removeAvailableDriver :: "driver \<Rightarrow> driver_store \<Rightarrow> driver_store" where
  "removeAvailableDriver d s =
     (case availableDriversByBlock s (dr_BlockID d) of
        None \<Rightarrow> s
      | Some ids \<Rightarrow>
          (let ids = ids - {dr_ID d}
           in s\<lparr>availableDriversByBlock := (availableDriversByBlock s)(dr_BlockID d := if ids = {} then None else Some ids)\<rparr>))"

text \<open>The two ways a driver becomes available, and the two ways to stop being so.\<close>

definition make_available :: "driver \<Rightarrow> driver_store \<Rightarrow> driver_store" where
  "make_available d s =
     (let d = d\<lparr>dr_Status := DriverAvailable, dr_BlockID := GetBlockID (dr_Location d) (CellSizeDegrees (ds_cfg s))\<rparr>
      in addAvailableDriver d (set_driver d s))"

definition make_unavailable :: "driver_status \<Rightarrow> driver \<Rightarrow> driver_store \<Rightarrow> driver_store" where
  "make_unavailable st d s = set_driver (d\<lparr>dr_Status := st\<rparr>) (removeAvailableDriver d s)"

definition ds_GoOnline :: "string \<Rightarrow> driver_store \<Rightarrow> ride_error option \<times> driver_store" where
  "ds_GoOnline driverID s =
     (if blank driverID then (Some ErrDriverNotFound, s)
      else (case driversByID s driverID of
        None \<Rightarrow> (Some ErrDriverNotFound, s)
      | Some d \<Rightarrow>
          (case dr_Status d of
             DriverAvailable \<Rightarrow> (None, s)
           | DriverOffline \<Rightarrow> (None, make_available d s)
           | DriverBusy \<Rightarrow> (Some ErrInvalidStatusChange, s)
           | OtherDriverStatus _ \<Rightarrow> (Some ErrInvalidStatus, s))))"

definition ds_GoOffline :: "string \<Rightarrow> driver_store \<Rightarrow> ride_error option \<times> driver_store" where
  "ds_GoOffline driverID s =
     (if blank driverID then (Some ErrDriverNotFound, s)
      else (case driversByID s driverID of
        None \<Rightarrow> (Some ErrDriverNotFound, s)
      | Some d \<Rightarrow>
          (case dr_Status d of
             DriverOffline \<Rightarrow> (None, s)
           | DriverAvailable \<Rightarrow> (None, make_unavailable DriverOffline d s)
           | DriverBusy \<Rightarrow> (Some ErrInvalidStatusChange, s)
           | OtherDriverStatus _ \<Rightarrow> (Some ErrInvalidStatus, s))))"

definition ds_Assign :: "string \<Rightarrow> driver_store \<Rightarrow> ride_error option \<times> driver_store" where
  "ds_Assign driverID s =
     (if blank driverID then (Some ErrDriverNotFound, s)
      else (case driversByID s driverID of
        None \<Rightarrow> (Some ErrDriverNotFound, s)
      | Some d \<Rightarrow>
          (case dr_Status d of
             DriverBusy \<Rightarrow> (None, s)
           | DriverAvailable \<Rightarrow> (None, make_unavailable DriverBusy d s)
           | DriverOffline \<Rightarrow> (Some ErrInvalidStatusChange, s)
           | OtherDriverStatus _ \<Rightarrow> (Some ErrInvalidStatus, s))))"

definition ds_Release :: "string \<Rightarrow> driver_store \<Rightarrow> ride_error option \<times> driver_store" where
  "ds_Release driverID s =
     (if blank driverID then (Some ErrDriverNotFound, s)
      else (case driversByID s driverID of
        None \<Rightarrow> (Some ErrDriverNotFound, s)
      | Some d \<Rightarrow>
          (case dr_Status d of
             DriverAvailable \<Rightarrow> (None, s)
           | DriverBusy \<Rightarrow> (None, make_available d s)
           | DriverOffline \<Rightarrow> (Some ErrInvalidStatusChange, s)
           | OtherDriverStatus _ \<Rightarrow> (Some ErrInvalidStatus, s))))"

definition ds_UpdateLocation :: "string \<Rightarrow> location \<Rightarrow> driver_store \<Rightarrow> ride_error option \<times> driver_store" where
  "ds_UpdateLocation driverID loc s =
     (if blank driverID then (Some ErrDriverNotFound, s)
      else if \<not> IsValidLocation loc then (Some ErrInvalidLocation, s)
      else (case driversByID s driverID of
        None \<Rightarrow> (Some ErrDriverNotFound, s)
      | Some d \<Rightarrow>
          (let s = (if dr_Status d = DriverAvailable then removeAvailableDriver d s else s);
               d = d\<lparr>dr_Location := loc, dr_BlockID := GetBlockID loc (CellSizeDegrees (ds_cfg s))\<rparr>;
               s = set_driver d s
           in (None, if dr_Status d = DriverAvailable then addAvailableDriver d s else s))))"

definition ds_AddRideToHistory :: "string \<Rightarrow> string \<Rightarrow> driver_store \<Rightarrow> ride_error option \<times> driver_store" where
  "ds_AddRideToHistory driverID rideID s =
     (if blank driverID then (Some ErrDriverNotFound, s)
      else if blank rideID then (Some ErrInvalidRide, s)
      else (case driversByID s driverID of
        None \<Rightarrow> (Some ErrDriverNotFound, s)
      | Some d \<Rightarrow> (None, set_driver (d\<lparr>dr_RideHistory := dr_RideHistory d @ [rideID]\<rparr>) s)))"

subsection \<open>The nearest available drivers\<close>

text \<open>The drivers the two nested loops visit.\<close>

definition visited_drivers :: "(block_id \<Rightarrow> string list) \<Rightarrow> location \<Rightarrow> driver_store \<Rightarrow> driver list" where
  "visited_drivers order loc s =
     concat (map (\<lambda>block. List.map_filter (driversByID s) (order block))
       (NeighborBlocks (GetBlockID loc (CellSizeDegrees (ds_cfg s))) (NeighborRing (ds_cfg s))))"

definition nearest_step :: "(f64 \<Rightarrow> f64) \<Rightarrow> location \<Rightarrow> f64 \<Rightarrow> driver \<Rightarrow> (driver \<times> f64) option \<Rightarrow> (driver \<times> f64) option" where
  "nearest_step cosine loc maxDistanceKm d best =
     (let distanceKm = DistanceKm cosine loc (dr_Location d)
      in if maxDistanceKm < distanceKm then best
         else (case best of
                 None \<Rightarrow> Some (d, distanceKm)
               | Some (nearestDriver, nearestDistanceKm) \<Rightarrow>
                   if distanceKm < nearestDistanceKm \<or> (f64_eq distanceKm nearestDistanceKm \<and> dr_ID d < dr_ID nearestDriver)
                   then Some (d, distanceKm) else best))"

definition FindNearestAvailable ::
  "(f64 \<Rightarrow> f64) \<Rightarrow> (block_id \<Rightarrow> string list) \<Rightarrow> location \<Rightarrow> f64 \<Rightarrow> driver_store \<Rightarrow> ride_error + driver \<times> f64" where
  "FindNearestAvailable cosine order loc maxDistanceKm s =
     (if \<not> IsValidLocation loc then Inl ErrInvalidLocation
      else if maxDistanceKm \<le> 0 then Inl ErrNoDriverFound
      else (case fold (nearest_step cosine loc maxDistanceKm) (visited_drivers order loc s) None of
              None \<Rightarrow> Inl ErrNoDriverFound
            | Some best \<Rightarrow> Inr best))"

definition candidate_less :: "driver \<times> f64 \<Rightarrow> driver \<times> f64 \<Rightarrow> bool" where
  "candidate_less a b \<longleftrightarrow> (if f64_eq (snd a) (snd b) then dr_ID (fst a) < dr_ID (fst b) else snd a < snd b)"

definition FindNNearestAvailable ::
  "(f64 \<Rightarrow> f64) \<Rightarrow> (block_id \<Rightarrow> string list) \<Rightarrow> location \<Rightarrow> int \<Rightarrow> f64 \<Rightarrow> driver_store \<Rightarrow> ride_error + driver list" where
  "FindNNearestAvailable cosine order loc limit maxDistanceKm s =
     (if \<not> IsValidLocation loc then Inl ErrInvalidLocation
      else if limit \<le> 0 then Inr []
      else if maxDistanceKm \<le> 0 then Inl ErrNoDriverFound
      else (let candidates = filter (\<lambda>(d, distanceKm). distanceKm \<le> maxDistanceKm)
                   (map (\<lambda>d. (d, DistanceKm cosine loc (dr_Location d))) (visited_drivers order loc s))
            in if candidates = [] then Inl ErrNoDriverFound
               else (let candidates = sort_slice candidate_less candidates;
                         limit = (if int (length candidates) < limit then int (length candidates) else limit)
                     in Inr (map fst (take (nat limit) candidates)))))"

section \<open>Riders\<close>

type_synonym rider_store = "string \<rightharpoonup> rider"

definition rs_Register :: "rider option \<Rightarrow> rider_store \<Rightarrow> ride_error option \<times> rider_store" where
  "rs_Register rp s =
     (case rp of
        None \<Rightarrow> (Some ErrInvalidRider, s)
      | Some r \<Rightarrow>
          if \<not> IsValidRider (Some r) then (Some ErrInvalidRider, s)
          else if s (ri_ID r) \<noteq> None then (Some ErrDuplicateRider, s)
          else (None, s(ri_ID r \<mapsto> r)))"

definition rs_Get :: "string \<Rightarrow> rider_store \<Rightarrow> ride_error + rider" where
  "rs_Get riderID s =
     (if blank riderID then Inl ErrRiderNotFound
      else (case s riderID of None \<Rightarrow> Inl ErrRiderNotFound | Some r \<Rightarrow> Inr r))"

definition rs_UpdateLocation :: "string \<Rightarrow> location \<Rightarrow> rider_store \<Rightarrow> ride_error option \<times> rider_store" where
  "rs_UpdateLocation riderID loc s =
     (if blank riderID then (Some ErrRiderNotFound, s)
      else if \<not> IsValidLocation loc then (Some ErrInvalidLocation, s)
      else (case s riderID of
              None \<Rightarrow> (Some ErrRiderNotFound, s)
            | Some r \<Rightarrow> (None, s(riderID \<mapsto> r\<lparr>ri_Location := loc\<rparr>))))"

definition rs_AddRideToHistory :: "string \<Rightarrow> string \<Rightarrow> rider_store \<Rightarrow> ride_error option \<times> rider_store" where
  "rs_AddRideToHistory riderID rideID s =
     (if blank riderID then (Some ErrRiderNotFound, s)
      else if blank rideID then (Some ErrInvalidRide, s)
      else (case s riderID of
              None \<Rightarrow> (Some ErrRiderNotFound, s)
            | Some r \<Rightarrow> (None, s(riderID \<mapsto> r\<lparr>ri_RideHistory := ri_RideHistory r @ [rideID]\<rparr>))))"

section \<open>Requests\<close>

definition request_less :: "ride_request \<Rightarrow> ride_request \<Rightarrow> bool" where
  "request_less firstRequest secondRequest \<longleftrightarrow> rr_RequestTime firstRequest < rr_RequestTime secondRequest"

definition rq_Push :: "ride_request option \<Rightarrow> ride_request list \<Rightarrow> ride_error option \<times> ride_request list" where
  "rq_Push rp q =
     (case rp of
        None \<Rightarrow> (Some ErrInvalidRideRequest, q)
      | Some r \<Rightarrow> if IsValidRideRequest (Some r) then (None, mh_Push request_less q r) else (Some ErrInvalidRideRequest, q))"

definition rq_Peek :: "ride_request list \<Rightarrow> ride_error + ride_request" where
  "rq_Peek q = (case mh_Peek q of None \<Rightarrow> Inl ErrEmptyQueue | Some r \<Rightarrow> Inr r)"

definition rq_Pop :: "ride_request list \<Rightarrow> ride_error + ride_request \<times> ride_request list" where
  "rq_Pop q = (case mh_Pop request_less q of None \<Rightarrow> Inl ErrEmptyQueue | Some r \<Rightarrow> Inr r)"

definition rq_Snapshot :: "ride_request list \<Rightarrow> ride_request list" where
  "rq_Snapshot q = mh_Items q"

section \<open>Active rides\<close>

record ride_tracker =
  tk_list :: "ride linked_list"
  tk_nodes :: "string \<rightharpoonup> nat"

definition NewMemoryActiveRideTracker :: ride_tracker where
  "NewMemoryActiveRideTracker = \<lparr>tk_list = NewDoublyLinkedList, tk_nodes = Map.empty\<rparr>"

definition tk_Add :: "ride option \<Rightarrow> ride_tracker \<Rightarrow> ride_error option \<times> ride_tracker" where
  "tk_Add rp t =
     (case rp of
        None \<Rightarrow> (Some ErrInvalidRide, t)
      | Some r \<Rightarrow>
          if \<not> IsValidRide (Some r) then (Some ErrInvalidRide, t)
          else if tk_nodes t (rd_ID r) \<noteq> None then (Some ErrDuplicateRide, t)
          else (let (node, l) = PushBack r (tk_list t)
                in (None, t\<lparr>tk_list := l, tk_nodes := (tk_nodes t)(rd_ID r \<mapsto> node)\<rparr>)))"

text \<open>\<open>None\<close> is a panic or a loop without end in the linked list.\<close>

definition tk_Get :: "string \<Rightarrow> ride_tracker \<Rightarrow> (ride_error + ride) option" where
  "tk_Get rideID t =
     (if blank rideID then Some (Inl ErrRideNotFound)
      else (case tk_nodes t rideID of
              None \<Rightarrow> Some (Inl ErrRideNotFound)
            | Some node \<Rightarrow> map_option (Inr \<circ> nd_value) (ll_nodes (tk_list t) node)))"

definition tk_Remove :: "string \<Rightarrow> ride_tracker \<Rightarrow> ((ride_error + ride) \<times> ride_tracker) option" where
  "tk_Remove rideID t =
     (if blank rideID then Some (Inl ErrRideNotFound, t)
      else (case tk_nodes t rideID of
              None \<Rightarrow> Some (Inl ErrRideNotFound, t)
            | Some node \<Rightarrow>
                (case ll_Remove (Some node) (tk_list t) of
                   None \<Rightarrow> None
                 | Some (Inl e, l) \<Rightarrow> Some (Inl e, t\<lparr>tk_list := l\<rparr>)
                 | Some (Inr r, l) \<Rightarrow> Some (Inr r, t\<lparr>tk_list := l, tk_nodes := (tk_nodes t)(rideID := None)\<rparr>))))"

definition tk_Len :: "ride_tracker \<Rightarrow> nat" where
  "tk_Len t = card (dom (tk_nodes t))"

definition tk_List :: "ride_tracker \<Rightarrow> ride list option" where
  "tk_List t = ll_Values (tk_list t)"

section \<open>History\<close>

type_synonym history_store = "string \<rightharpoonup> ride"

definition hs_Save :: "ride option \<Rightarrow> history_store \<Rightarrow> ride_error option \<times> history_store" where
  "hs_Save rp s =
     (case rp of
        None \<Rightarrow> (Some ErrInvalidRide, s)
      | Some r \<Rightarrow>
          if \<not> IsValidRide (Some r) then (Some ErrInvalidRide, s)
          else if s (rd_ID r) \<noteq> None then (Some ErrDuplicateRide, s)
          else (None, s(rd_ID r \<mapsto> r)))"

definition hs_Get :: "string \<Rightarrow> history_store \<Rightarrow> ride_error + ride" where
  "hs_Get rideID s =
     (if blank rideID then Inl ErrRideNotFound
      else (case s rideID of None \<Rightarrow> Inl ErrRideNotFound | Some r \<Rightarrow> Inr r))"

definition hs_List :: "string list \<Rightarrow> history_store \<Rightarrow> ride list" where
  "hs_List order s = range_values order s"

definition hs_ListByDriver :: "string list \<Rightarrow> string \<Rightarrow> history_store \<Rightarrow> ride list" where
  "hs_ListByDriver order driverID s =
     (if blank driverID then [] else filter (\<lambda>r. rd_DriverID r = driverID) (range_values order s))"

end
