(* ===== verification/Ride_Dispatch.thy ===== *)
theory Ride_Dispatch
  imports Ride_Stores
begin

text \<open>
  The dispatcher of the ride-sharing service (\<open>06,07-day/project/internal/dispatch\<close>) over the
  in-memory stores that \<open>cmd/main.go\<close> gives it.  Each operation runs under the dispatcher's lock
  and is one step.  The wall clock, the cosine and the visiting order of maps are arguments.
  A time zone is a fixed offset from UTC in nanoseconds.
\<close>

section \<open>State\<close>

record dispatcher =
  dp_cfg :: ride_config
  dp_drivers :: driver_store
  dp_riders :: rider_store
  dp_queue :: "ride_request list"
  dp_active :: ride_tracker
  dp_history :: history_store
  dp_rideCounter :: nat
  dp_requestCounter :: nat

definition NewDispatcher :: "ride_config \<Rightarrow> dispatcher" where
  "NewDispatcher cfg =
     \<lparr>dp_cfg = cfg, dp_drivers = ds_NewMemoryStore cfg, dp_riders = Map.empty, dp_queue = [],
      dp_active = NewMemoryActiveRideTracker, dp_history = Map.empty, dp_rideCounter = 0, dp_requestCounter = 0\<rparr>"

definition calculateFare :: "ride_config \<Rightarrow> f64 \<Rightarrow> f64" where
  "calculateFare cfg distanceKm = BaseFare cfg + FarePerKm cfg * distanceKm"

definition isRequestExpired :: "ride_config \<Rightarrow> ride_request \<Rightarrow> gotime \<Rightarrow> bool" where
  "isRequestExpired cfg request now \<longleftrightarrow> RequestTimeout cfg < time_Sub now (rr_RequestTime request)"

section \<open>Requests\<close>

text \<open>\<open>wall\<close> is what \<open>time.Now()\<close> returns.\<close>

definition RequestRide ::
  "string \<Rightarrow> location \<Rightarrow> location \<Rightarrow> gotime \<Rightarrow> gotime \<Rightarrow> dispatcher \<Rightarrow> (ride_error + ride_request) \<times> dispatcher" where
  "RequestRide riderID pickup dropoff requestTime wall st =
     (if \<not> IsValidLocation pickup \<or> \<not> IsValidLocation dropoff then (Inl ErrInvalidLocation, st)
      else if pickup = dropoff then (Inl ErrInvalidRideRequest, st)
      else if wall < requestTime then (Inl ErrInvalidRideRequest, st)
      else (case rs_Get riderID (dp_riders st) of
              Inl e \<Rightarrow> (Inl e, st)
            | Inr _ \<Rightarrow>
                (let (i, counter) = NewRequestID (dp_requestCounter st);
                     st = st\<lparr>dp_requestCounter := counter\<rparr>;
                     request = \<lparr>rr_ID = i, rr_RiderID = riderID, rr_Pickup = pickup, rr_Dropoff = dropoff, rr_RequestTime = requestTime\<rparr>
                 in case rq_Push (Some request) (dp_queue st) of
                      (Some e, q) \<Rightarrow> (Inl e, st\<lparr>dp_queue := q\<rparr>)
                    | (None, q) \<Rightarrow> (Inr request, st\<lparr>dp_queue := q\<rparr>))))"

text \<open>A request that is too old becomes a cancelled ride.\<close>

definition cancelled_ride :: "string \<Rightarrow> ride_request \<Rightarrow> gotime \<Rightarrow> ride" where
  "cancelled_ride i expiredRequest now =
     \<lparr>rd_ID = i, rd_RiderID = rr_RiderID expiredRequest, rd_DriverID = '''', rd_Pickup = rr_Pickup expiredRequest,
      rd_Dropoff = rr_Dropoff expiredRequest, rd_Status = RideCancelled, rd_RequestTime = rr_RequestTime expiredRequest,
      rd_StartTime = zero_time, rd_EndTime = now, rd_Fare = 0, rd_DistanceKm = 0\<rparr>"

definition cancel_expired :: "gotime \<Rightarrow> dispatcher \<Rightarrow> (ride_error + ride) \<times> dispatcher" where
  "cancel_expired now st =
     (case rq_Pop (dp_queue st) of
        Inl e \<Rightarrow> (Inl e, st)
      | Inr (expiredRequest, q) \<Rightarrow>
          (let (i, counter) = NewRideID (dp_rideCounter st);
               st = st\<lparr>dp_queue := q, dp_rideCounter := counter\<rparr>
           in case hs_Save (Some (cancelled_ride i expiredRequest now)) (dp_history st) of
                (Some e, h) \<Rightarrow> (Inl e, st\<lparr>dp_history := h\<rparr>)
              | (None, h) \<Rightarrow> (Inl ErrRideRequestExpired, st\<lparr>dp_history := h\<rparr>)))"

definition assigned_ride :: "(f64 \<Rightarrow> f64) \<Rightarrow> ride_config \<Rightarrow> string \<Rightarrow> ride_request \<Rightarrow> driver \<Rightarrow> gotime \<Rightarrow> ride" where
  "assigned_ride cosine cfg i request nearestDriver now =
     (let tripDistanceKm = DistanceKm cosine (rr_Pickup request) (rr_Dropoff request)
      in \<lparr>rd_ID = i, rd_RiderID = rr_RiderID request, rd_DriverID = dr_ID nearestDriver, rd_Pickup = rr_Pickup request,
          rd_Dropoff = rr_Dropoff request, rd_Status = RideAssigned, rd_RequestTime = rr_RequestTime request,
          rd_StartTime = now, rd_EndTime = zero_time, rd_Fare = calculateFare cfg tripDistanceKm, rd_DistanceKm = tripDistanceKm\<rparr>)"

definition ProcessNextRequest ::
  "(f64 \<Rightarrow> f64) \<Rightarrow> (block_id \<Rightarrow> string list) \<Rightarrow> gotime \<Rightarrow> dispatcher \<Rightarrow> (ride_error + ride) \<times> dispatcher" where
  "ProcessNextRequest cosine order now st =
     (case rq_Peek (dp_queue st) of
        Inl e \<Rightarrow> (Inl e, st)
      | Inr request \<Rightarrow>
          if isRequestExpired (dp_cfg st) request now then cancel_expired now st
          else (case FindNearestAvailable cosine order (rr_Pickup request) (MaxPickupDistanceKm (dp_cfg st)) (dp_drivers st) of
             Inl _ \<Rightarrow> (Inl ErrNoDriverAvailable, st)
           | Inr (nearestDriver, pickupDistanceKm) \<Rightarrow>
               (case ds_Assign (dr_ID nearestDriver) (dp_drivers st) of
                  (Some e, ds) \<Rightarrow> (Inl e, st\<lparr>dp_drivers := ds\<rparr>)
                | (None, ds) \<Rightarrow>
                    (let st = st\<lparr>dp_drivers := ds\<rparr>
                     in case rq_Pop (dp_queue st) of
                          Inl e \<Rightarrow> (Inl e, st)
                        | Inr (_, q) \<Rightarrow>
                            (let (i, counter) = NewRideID (dp_rideCounter st);
                                 st = st\<lparr>dp_queue := q, dp_rideCounter := counter\<rparr>;
                                 ride = assigned_ride cosine (dp_cfg st) i request nearestDriver now
                             in case tk_Add (Some ride) (dp_active st) of
                                  (Some e, t) \<Rightarrow>
                                    (Inl e, st\<lparr>dp_active := t, dp_drivers := snd (ds_Release (dr_ID nearestDriver) (dp_drivers st))\<rparr>)
                                | (None, t) \<Rightarrow> (Inr ride, st\<lparr>dp_active := t\<rparr>))))))"

section \<open>Completion\<close>

text \<open>The releases of the error paths ignore their result.\<close>

definition release_driver :: "string \<Rightarrow> dispatcher \<Rightarrow> dispatcher" where
  "release_driver driverID st = st\<lparr>dp_drivers := snd (ds_Release driverID (dp_drivers st))\<rparr>"

definition finish_ride :: "ride \<Rightarrow> dispatcher \<Rightarrow> (ride_error + ride) \<times> dispatcher" where
  "finish_ride ride st =
     (case ds_UpdateLocation (rd_DriverID ride) (rd_Dropoff ride) (dp_drivers st) of
        (Some e, ds) \<Rightarrow> (Inl e, release_driver (rd_DriverID ride) (st\<lparr>dp_drivers := ds\<rparr>))
      | (None, ds) \<Rightarrow>
          (let st = st\<lparr>dp_drivers := ds\<rparr>
           in case ds_AddRideToHistory (rd_DriverID ride) (rd_ID ride) (dp_drivers st) of
                (Some e, ds) \<Rightarrow> (Inl e, release_driver (rd_DriverID ride) (st\<lparr>dp_drivers := ds\<rparr>))
              | (None, ds) \<Rightarrow>
                  (let st = st\<lparr>dp_drivers := ds\<rparr>
                   in case rs_AddRideToHistory (rd_RiderID ride) (rd_ID ride) (dp_riders st) of
                        (Some e, rs) \<Rightarrow> (Inl e, release_driver (rd_DriverID ride) (st\<lparr>dp_riders := rs\<rparr>))
                      | (None, rs) \<Rightarrow>
                          (let st = st\<lparr>dp_riders := rs\<rparr>
                           in case ds_Release (rd_DriverID ride) (dp_drivers st) of
                                (Some e, ds) \<Rightarrow> (Inl e, st\<lparr>dp_drivers := ds\<rparr>)
                              | (None, ds) \<Rightarrow> (Inr ride, st\<lparr>dp_drivers := ds\<rparr>)))))"

text \<open>The outer \<open>None\<close> is a panic of the linked list.\<close>

definition CompleteRide :: "string \<Rightarrow> gotime \<Rightarrow> dispatcher \<Rightarrow> ((ride_error + ride) \<times> dispatcher) option" where
  "CompleteRide rideID completedAt st =
     (case tk_Remove rideID (dp_active st) of
        None \<Rightarrow> None
      | Some (Inl e, t) \<Rightarrow> Some (Inl e, st\<lparr>dp_active := t\<rparr>)
      | Some (Inr active, t) \<Rightarrow>
          (let st = st\<lparr>dp_active := t\<rparr>;
               ride = active\<lparr>rd_Status := RideCompleted, rd_EndTime := completedAt\<rparr>
           in case hs_Save (Some ride) (dp_history st) of
                (Some e, h) \<Rightarrow>
                  Some (Inl e, st\<lparr>dp_history := h, dp_active := snd (tk_Add (Some active) (dp_active st))\<rparr>)
              | (None, h) \<Rightarrow> Some (finish_ride ride (st\<lparr>dp_history := h\<rparr>))))"

section \<open>Queries\<close>

definition FindNNearestDrivers ::
  "(f64 \<Rightarrow> f64) \<Rightarrow> (block_id \<Rightarrow> string list) \<Rightarrow> location \<Rightarrow> int \<Rightarrow> dispatcher \<Rightarrow> ride_error + driver list" where
  "FindNNearestDrivers cosine order loc limit st =
     FindNNearestAvailable cosine order loc limit (MaxPickupDistanceKm (dp_cfg st)) (dp_drivers st)"

definition driverEarningsSince :: "string list \<Rightarrow> string \<Rightarrow> gotime \<Rightarrow> dispatcher \<Rightarrow> f64" where
  "driverEarningsSince order driverID startTime st =
     fold (\<lambda>ride earnings. if rd_Status ride \<noteq> RideCompleted then earnings
                          else if rd_EndTime ride < startTime then earnings else earnings + rd_Fare ride)
       (hs_ListByDriver order driverID (dp_history st)) 0"

definition day_ns :: int where
  "day_ns = 24 * 60 * 60 * 1000000000"

text \<open>\<open>time.Date\<close> at midnight of the day of \<open>now\<close>, and its weekday, Sunday being 0.\<close>

definition startOfDay :: "int \<Rightarrow> gotime \<Rightarrow> gotime" where
  "startOfDay zone now = (now + zone) div day_ns * day_ns - zone"

definition time_Weekday :: "int \<Rightarrow> gotime \<Rightarrow> int" where
  "time_Weekday zone now = ((now + zone) div day_ns + 4) mod 7"

definition startOfWeek :: "int \<Rightarrow> gotime \<Rightarrow> gotime" where
  "startOfWeek zone now =
     (let weekdayOffset = time_Weekday zone now;
          weekdayOffset = (if weekdayOffset = 0 then 6 else weekdayOffset - 1)
      in startOfDay zone (now - weekdayOffset * day_ns))"

definition DriverEarningsToday :: "string list \<Rightarrow> int \<Rightarrow> string \<Rightarrow> gotime \<Rightarrow> dispatcher \<Rightarrow> ride_error + f64" where
  "DriverEarningsToday order zone driverID now st =
     (case ds_Get driverID (dp_drivers st) of
        Inl e \<Rightarrow> Inl e
      | Inr _ \<Rightarrow> Inr (driverEarningsSince order driverID (startOfDay zone now) st))"

definition DriverEarningsThisWeek :: "string list \<Rightarrow> int \<Rightarrow> string \<Rightarrow> gotime \<Rightarrow> dispatcher \<Rightarrow> ride_error + f64" where
  "DriverEarningsThisWeek order zone driverID now st =
     (case ds_Get driverID (dp_drivers st) of
        Inl e \<Rightarrow> Inl e
      | Inr _ \<Rightarrow> Inr (driverEarningsSince order driverID (startOfWeek zone now) st))"

definition wait_step :: "ride \<Rightarrow> duration \<times> int \<Rightarrow> duration \<times> int" where
  "wait_step ride = (\<lambda>(totalWait, completedRideCount).
     if rd_Status ride \<noteq> RideCompleted then (totalWait, completedRideCount)
     else if time_IsZero (rd_RequestTime ride) \<or> time_IsZero (rd_StartTime ride) then (totalWait, completedRideCount)
     else (let wait = time_Sub (rd_StartTime ride) (rd_RequestTime ride)
           in if wait < 0 then (totalWait, completedRideCount)
              else (wrap64 (totalWait + wait), completedRideCount + 1)))"

text \<open>The division truncates towards zero.\<close>

definition AverageWaitTime :: "string list \<Rightarrow> dispatcher \<Rightarrow> duration" where
  "AverageWaitTime order st =
     (let (totalWait, completedRideCount) = fold wait_step (hs_List order (dp_history st)) (0, 0)
      in if completedRideCount = 0 then 0
         else if 0 \<le> totalWait then totalWait div completedRideCount else - (- totalWait div completedRideCount))"

definition zone_less :: "block_id \<times> int \<Rightarrow> block_id \<times> int \<Rightarrow> bool" where
  "zone_less a b \<longleftrightarrow>
     (if snd a = snd b
      then fst (fst a) < fst (fst b) \<or> (fst (fst a) = fst (fst b) \<and> snd (fst a) < snd (fst b))
      else snd b < snd a)"

definition count_block :: "f64 \<Rightarrow> ride_request \<Rightarrow> (block_id \<rightharpoonup> int) \<Rightarrow> (block_id \<rightharpoonup> int)" where
  "count_block cell request m =
     (let block = GetBlockID (rr_Pickup request) cell in m(block \<mapsto> (case m block of None \<Rightarrow> 0 | Some n \<Rightarrow> n) + 1))"

text \<open>\<open>order\<close> visits the map of counts.\<close>

definition BusiestZones :: "((block_id \<rightharpoonup> int) \<Rightarrow> block_id list) \<Rightarrow> int \<Rightarrow> dispatcher \<Rightarrow> (block_id \<times> int) list" where
  "BusiestZones order limit st =
     (if limit \<le> 0 then []
      else (let requests = rq_Snapshot (dp_queue st)
            in if requests = [] then []
               else (let countByBlock = fold (count_block (CellSizeDegrees (dp_cfg st))) requests Map.empty;
                         zoneCounts = List.map_filter (\<lambda>b. map_option (Pair b) (countByBlock b)) (order countByBlock);
                         zoneCounts = sort_slice zone_less zoneCounts;
                         limit = (if int (length zoneCounts) < limit then int (length zoneCounts) else limit)
                     in take (nat limit) zoneCounts)))"

end
