(* ===== verification/Ride_Correct.thy ===== *)
theory Ride_Correct
  imports Ride_Dispatch
begin

text \<open>
  The invariants of the ride-sharing stores: ids are fresh, the index of available drivers is
  exact, the active rides are the list their tracker holds, and the nearest driver is the least
  one in range whatever order the maps are visited in.
\<close>

section \<open>Ids\<close>

definition dec_value :: "string \<Rightarrow> nat" where
  "dec_value s = foldl (\<lambda>v c. 10 * v + (of_char c - 48)) 0 s"

lemma decimal_value: "dec_value (decimal n) = n"
proof (induction n rule: decimal.induct)
  case (1 n)
  show ?case
  proof (cases "n < 10")
    case True
    then have "of_char (char_of (48 + n) :: char) = 48 + n" by (simp add: take_bit_eq_mod)
    then show ?thesis using True by (simp add: decimal.simps [of n] dec_value_def)
  next
    case False
    have "n mod 10 < 10" by simp
    then have "of_char (char_of (48 + n mod 10) :: char) = 48 + n mod 10" by (simp add: take_bit_eq_mod)
    then show ?thesis using False 1 by (simp add: decimal.simps [of n] dec_value_def)
  qed
qed

lemma dec_value_zeros: "dec_value (replicate k (CHR ''0'') @ s) = dec_value s"
  by (induction k) (simp_all add: dec_value_def)

lemma pad6_inj: "pad6 m = pad6 n \<Longrightarrow> m = n"
  using decimal_value dec_value_zeros by (metis pad6_def)

lemma decimal_last: "decimal n \<noteq> [] \<and> ascii_ink (last (decimal n))"
proof -
  have "ascii_ink (char_of (48 + k))" if "k < 10" for k :: nat
    using that by (simp add: ascii_ink_def take_bit_eq_mod)
  then show ?thesis by (subst (1 2) decimal.simps) simp
qed

definition ride_id :: "nat \<Rightarrow> string" where
  "ride_id n = ''RID-'' @ pad6 n"

definition request_id :: "nat \<Rightarrow> string" where
  "request_id n = ''REQ-'' @ pad6 n"

lemma ride_id_inj: "ride_id m = ride_id n \<longleftrightarrow> m = n"
  using pad6_inj by (auto simp: ride_id_def)

lemma ids_not_blank [simp]: "\<not> blank (ride_id n)" "\<not> blank (request_id n)"
proof -
  have p: "pad6 n \<noteq> [] \<and> ascii_ink (last (pad6 n))" using decimal_last [of n] by (simp add: pad6_def)
  have "TrimSpace (ride_id n) = ride_id n" using p by (intro TrimSpace_id) (simp_all add: ride_id_def ascii_ink_def)
  then show "\<not> blank (ride_id n)" by (simp add: blank_def ride_id_def)
  have "TrimSpace (request_id n) = request_id n" using p by (intro TrimSpace_id) (simp_all add: request_id_def ascii_ink_def)
  then show "\<not> blank (request_id n)" by (simp add: blank_def request_id_def)
qed

lemma blank_Nil [simp]: "blank ''''"
  by (simp add: blank_def)

lemma new_ids:
  assumes "n + 1 < 2 ^ 64"
  shows "NewRideID n = (ride_id (n + 1), n + 1)" "NewRequestID n = (request_id (n + 1), n + 1)"
  using assms by (simp_all add: NewRideID_def NewRequestID_def new_id_def ride_id_def request_id_def Let_def)

section \<open>The driver store\<close>

text \<open>The drivers that are available in a block, by the drivers themselves.\<close>

definition free_in :: "(string \<rightharpoonup> driver) \<Rightarrow> block_id \<Rightarrow> string set" where
  "free_in m b = {i. \<exists>d. m i = Some d \<and> dr_Status d = DriverAvailable \<and> dr_BlockID d = b}"

text \<open>The index that has an entry for every block with a driver.\<close>

definition index_of :: "(block_id \<Rightarrow> string set) \<Rightarrow> (block_id \<rightharpoonup> string set)" where
  "index_of A = (\<lambda>b. if A b = {} then None else Some (A b))"

definition driver_ok :: "ride_config \<Rightarrow> string \<Rightarrow> driver \<Rightarrow> bool" where
  "driver_ok cfg i d \<longleftrightarrow>
     dr_ID d = i \<and> \<not> blank i \<and> IsValidLocation (dr_Location d) \<and> IsValidDriverStatus (dr_Status d)
     \<and> dr_BlockID d = GetBlockID (dr_Location d) (CellSizeDegrees cfg)"

definition ds_inv :: "driver_store \<Rightarrow> bool" where
  "ds_inv s \<longleftrightarrow>
     finite (dom (driversByID s)) \<and> (\<forall>i d. driversByID s i = Some d \<longrightarrow> driver_ok (ds_cfg s) i d)
     \<and> availableDriversByBlock s = index_of (free_in (driversByID s))"

lemma ds_invD:
  assumes "ds_inv s"
  shows "finite (dom (driversByID s))" "driversByID s i = Some d \<Longrightarrow> driver_ok (ds_cfg s) i d"
    "availableDriversByBlock s = index_of (free_in (driversByID s))"
  using assms by (auto simp: ds_inv_def)

lemma free_in_upd:
  "free_in (m(i \<mapsto> d)) b = free_in m b - {i} \<union> (if dr_Status d = DriverAvailable \<and> dr_BlockID d = b then {i} else {})"
  by (auto simp: free_in_def)

lemma add_index:
  "availableDriversByBlock s = index_of A \<Longrightarrow>
   availableDriversByBlock (addAvailableDriver d s) = index_of (A(dr_BlockID d := insert (dr_ID d) (A (dr_BlockID d))))"
  by (rule ext) (simp add: addAvailableDriver_def index_of_def Let_def)

lemma remove_index:
  "availableDriversByBlock s = index_of A \<Longrightarrow>
   availableDriversByBlock (removeAvailableDriver d s) = index_of (A(dr_BlockID d := A (dr_BlockID d) - {dr_ID d}))"
  by (rule ext) (simp add: removeAvailableDriver_def index_of_def Let_def)

lemma index_frame [simp]:
  "driversByID (addAvailableDriver d s) = driversByID s" "driversByID (removeAvailableDriver d s) = driversByID s"
  "ds_cfg (addAvailableDriver d s) = ds_cfg s" "ds_cfg (removeAvailableDriver d s) = ds_cfg s"
  "driversByID (set_driver d s) = (driversByID s)(dr_ID d \<mapsto> d)" "ds_cfg (set_driver d s) = ds_cfg s"
  "availableDriversByBlock (set_driver d s) = availableDriversByBlock s"
  by (auto simp: addAvailableDriver_def removeAvailableDriver_def set_driver_def Let_def split: option.split)

lemma ds_invI:
  assumes "finite (dom (driversByID s))" "\<And>i d. driversByID s i = Some d \<Longrightarrow> driver_ok (ds_cfg s) i d"
    "availableDriversByBlock s = index_of (free_in (driversByID s))"
  shows "ds_inv s"
  using assms by (auto simp: ds_inv_def)

lemma New_ds_inv: "ds_inv (ds_NewMemoryStore cfg)"
  by (rule ds_invI) (auto simp: ds_NewMemoryStore_def index_of_def free_in_def)

text \<open>Every change of a driver that keeps it valid and keeps the index exact.\<close>

lemma replace_driver:
  assumes inv: "ds_inv s" and d: "driver_ok (ds_cfg s) (dr_ID d) d"
    and s': "driversByID s' = (driversByID s)(dr_ID d \<mapsto> d)" "ds_cfg s' = ds_cfg s"
      "availableDriversByBlock s' = index_of (free_in (driversByID s'))"
  shows "ds_inv s'"
proof (rule ds_invI)
  show "finite (dom (driversByID s'))" using ds_invD(1) [OF inv] s'(1) by simp
  show "driver_ok (ds_cfg s') i d'" if "driversByID s' i = Some d'" for i d'
    using that d ds_invD(2) [OF inv, of i d'] s'(1,2) by (auto split: if_splits)
qed (rule s'(3))

lemma make_available_inv:
  assumes inv: "ds_inv s" and d: "driversByID s i = Some d" "dr_Status d \<noteq> DriverAvailable"
  shows "ds_inv (make_available d s)"
    "driversByID (make_available d s) = (driversByID s)(i \<mapsto> d\<lparr>dr_Status := DriverAvailable\<rparr>)" "ds_cfg (make_available d s) = ds_cfg s"
proof -
  note D = ds_invD [OF inv]
  have ok: "driver_ok (ds_cfg s) i d" using D(2) [OF d(1)] .
  let ?d = "d\<lparr>dr_Status := DriverAvailable, dr_BlockID := GetBlockID (dr_Location d) (CellSizeDegrees (ds_cfg s))\<rparr>"
  have same: "?d = d\<lparr>dr_Status := DriverAvailable\<rparr>" using ok by (simp add: driver_ok_def)
  have id: "dr_ID ?d = i" using ok by (simp add: driver_ok_def)
  show drv: "driversByID (make_available d s) = (driversByID s)(i \<mapsto> d\<lparr>dr_Status := DriverAvailable\<rparr>)"
    and cfg: "ds_cfg (make_available d s) = ds_cfg s"
    using id same by (simp_all add: make_available_def Let_def)
  have "i \<notin> free_in (driversByID s) b" for b using d by (auto simp: free_in_def)
  then have "free_in ((driversByID s)(i \<mapsto> ?d)) =
      (free_in (driversByID s))(dr_BlockID ?d := insert i (free_in (driversByID s) (dr_BlockID ?d)))"
    by (auto simp: fun_eq_iff free_in_upd)
  then have "availableDriversByBlock (make_available d s) = index_of (free_in (driversByID (make_available d s)))"
    using add_index [of "set_driver ?d s" "free_in (driversByID s)" ?d] D(3) id by (simp add: make_available_def Let_def)
  then show "ds_inv (make_available d s)"
    using replace_driver [OF inv, of "d\<lparr>dr_Status := DriverAvailable\<rparr>" "make_available d s"] ok drv cfg by (simp add: driver_ok_def)
qed

lemma make_unavailable_inv:
  assumes inv: "ds_inv s" and d: "driversByID s i = Some d" "dr_Status d = DriverAvailable" and st: "st = DriverBusy \<or> st = DriverOffline"
  shows "ds_inv (make_unavailable st d s)"
    "driversByID (make_unavailable st d s) = (driversByID s)(i \<mapsto> d\<lparr>dr_Status := st\<rparr>)" "ds_cfg (make_unavailable st d s) = ds_cfg s"
proof -
  note D = ds_invD [OF inv]
  have ok: "driver_ok (ds_cfg s) i d" using D(2) [OF d(1)] .
  have id: "dr_ID d = i" using ok by (simp add: driver_ok_def)
  show drv: "driversByID (make_unavailable st d s) = (driversByID s)(i \<mapsto> d\<lparr>dr_Status := st\<rparr>)"
    and cfg: "ds_cfg (make_unavailable st d s) = ds_cfg s"
    using id by (simp_all add: make_unavailable_def)
  have "i \<notin> free_in (driversByID s) b" if "b \<noteq> dr_BlockID d" for b using d that by (auto simp: free_in_def)
  then have "free_in ((driversByID s)(i \<mapsto> d\<lparr>dr_Status := st\<rparr>)) =
      (free_in (driversByID s))(dr_BlockID d := free_in (driversByID s) (dr_BlockID d) - {i})"
    using st by (auto simp: fun_eq_iff free_in_upd)
  then have "availableDriversByBlock (make_unavailable st d s) = index_of (free_in (driversByID (make_unavailable st d s)))"
    using remove_index [OF D(3), of d] id by (simp add: make_unavailable_def)
  then show "ds_inv (make_unavailable st d s)"
    using replace_driver [OF inv, of "d\<lparr>dr_Status := st\<rparr>" "make_unavailable st d s"] ok drv cfg st by (auto simp: driver_ok_def)
qed

lemma ds_Register_inv: "ds_inv s \<Longrightarrow> ds_inv (snd (ds_Register dp s))"
proof (cases "dp = None \<or> \<not> IsValidDriver dp \<or> driversByID s (dr_ID (the dp)) \<noteq> None")
  case False
  assume inv: "ds_inv s"
  from False obtain d where dp: "dp = Some d" "IsValidDriver (Some d)" "driversByID s (dr_ID d) = None" by auto
  let ?d = "d\<lparr>dr_Status := DriverOffline, dr_BlockID := GetBlockID (dr_Location d) (CellSizeDegrees (ds_cfg s))\<rparr>"
  have "free_in ((driversByID s)(dr_ID d \<mapsto> ?d)) = free_in (driversByID s)"
    using dp(3) by (auto simp: fun_eq_iff free_in_upd) (auto simp: free_in_def)
  then show ?thesis
    using replace_driver [OF inv, of ?d "set_driver ?d s"] dp ds_invD(3) [OF inv]
    by (simp add: ds_Register_def driver_ok_def IsValidDriver_def)
qed (auto simp: ds_Register_def split: option.split)

lemma ds_status_inv:
  assumes "ds_inv s"
  shows "ds_inv (snd (ds_GoOnline i s))" "ds_inv (snd (ds_GoOffline i s))" "ds_inv (snd (ds_Assign i s))" "ds_inv (snd (ds_Release i s))"
  using assms make_available_inv(1) [OF assms] make_unavailable_inv(1) [OF assms]
  by (auto simp: ds_GoOnline_def ds_GoOffline_def ds_Assign_def ds_Release_def split: option.split driver_status.split)

lemma ds_UpdateLocation_eq:
  assumes inv: "ds_inv s" and i: "driversByID s i = Some d" "IsValidLocation loc"
  shows "\<exists>s'. ds_UpdateLocation i loc s = (None, s') \<and> ds_inv s' \<and> ds_cfg s' = ds_cfg s
    \<and> driversByID s' = (driversByID s)(i \<mapsto> d\<lparr>dr_Location := loc, dr_BlockID := GetBlockID loc (CellSizeDegrees (ds_cfg s))\<rparr>)"
proof -
  note D = ds_invD [OF inv]
  have ok: "driver_ok (ds_cfg s) i d" using D(2) [OF i(1)] .
  then have id: "dr_ID d = i" "\<not> blank i" by (simp_all add: driver_ok_def)
  let ?d = "d\<lparr>dr_Location := loc, dr_BlockID := GetBlockID loc (CellSizeDegrees (ds_cfg s))\<rparr>"
  define s1 where "s1 = (if dr_Status d = DriverAvailable then removeAvailableDriver d s else s)"
  define s2 where "s2 = (if dr_Status d = DriverAvailable then addAvailableDriver ?d (set_driver ?d s1) else set_driver ?d s1)"
  have upd: "ds_UpdateLocation i loc s = (None, s2)"
    using i id by (simp add: ds_UpdateLocation_def Let_def s1_def s2_def)
  have drv: "driversByID s2 = (driversByID s)(i \<mapsto> ?d)" "ds_cfg s2 = ds_cfg s"
    using id by (simp_all add: s2_def s1_def)
  have "availableDriversByBlock s2 = index_of (free_in ((driversByID s)(i \<mapsto> ?d)))"
  proof (cases "dr_Status d = DriverAvailable")
    case True
    let ?A = "free_in (driversByID s)"
    let ?B = "?A(dr_BlockID d := ?A (dr_BlockID d) - {i})"
    have other: "i \<notin> ?A b" if "b \<noteq> dr_BlockID d" for b using i(1) that by (auto simp: free_in_def)
    have "availableDriversByBlock (set_driver ?d s1) = index_of ?B"
      using remove_index [OF D(3), of d] True id by (simp add: s1_def)
    from add_index [OF this, of ?d] have "availableDriversByBlock s2 = index_of (?B(dr_BlockID ?d := insert i (?B (dr_BlockID ?d))))"
      using True id by (simp add: s2_def)
    moreover have "?B(dr_BlockID ?d := insert i (?B (dr_BlockID ?d))) = free_in ((driversByID s)(i \<mapsto> ?d))"
    proof (rule ext)
      fix b
      show "(?B(dr_BlockID ?d := insert i (?B (dr_BlockID ?d)))) b = free_in ((driversByID s)(i \<mapsto> ?d)) b"
        using True other [of b] unfolding free_in_upd by auto
    qed
    ultimately show ?thesis by simp
  next
    case False
    then have "free_in ((driversByID s)(i \<mapsto> ?d)) = free_in (driversByID s)"
      using i(1) by (auto simp: fun_eq_iff free_in_upd) (auto simp: free_in_def)
    then show ?thesis using False D(3) by (simp add: s2_def s1_def)
  qed
  then have "ds_inv s2"
    using replace_driver [OF inv, of ?d s2] ok drv i(2) id by (simp add: driver_ok_def)
  then show ?thesis using upd drv by blast
qed

lemma ds_UpdateLocation_inv: "ds_inv s \<Longrightarrow> ds_inv (snd (ds_UpdateLocation i loc s))"
proof (cases "blank i \<or> \<not> IsValidLocation loc \<or> driversByID s i = None")
  case False
  assume "ds_inv s"
  then show ?thesis using ds_UpdateLocation_eq [of s i _ loc] False by fastforce
qed (auto simp: ds_UpdateLocation_def)

lemma ds_AddRideToHistory_eq:
  assumes inv: "ds_inv s" and i: "driversByID s i = Some d" "\<not> blank k"
  shows "\<exists>s'. ds_AddRideToHistory i k s = (None, s') \<and> ds_inv s' \<and> ds_cfg s' = ds_cfg s
    \<and> driversByID s' = (driversByID s)(i \<mapsto> d\<lparr>dr_RideHistory := dr_RideHistory d @ [k]\<rparr>)"
proof -
  note D = ds_invD [OF inv]
  have ok: "driver_ok (ds_cfg s) i d" using D(2) [OF i(1)] .
  then have id: "dr_ID d = i" "\<not> blank i" by (simp_all add: driver_ok_def)
  let ?d = "d\<lparr>dr_RideHistory := dr_RideHistory d @ [k]\<rparr>"
  have "free_in ((driversByID s)(i \<mapsto> ?d)) = free_in (driversByID s)"
    using i(1) by (auto simp: fun_eq_iff free_in_upd) (auto simp: free_in_def)
  then have "ds_inv (set_driver ?d s)"
    using replace_driver [OF inv, of ?d "set_driver ?d s"] ok D(3) id by (simp add: driver_ok_def)
  then show ?thesis using i id by (simp add: ds_AddRideToHistory_def)
qed

lemma ds_Assign_eq:
  assumes "ds_inv s" "driversByID s i = Some d" "dr_Status d = DriverAvailable"
  shows "\<exists>s'. ds_Assign i s = (None, s') \<and> ds_inv s' \<and> ds_cfg s' = ds_cfg s \<and> driversByID s' = (driversByID s)(i \<mapsto> d\<lparr>dr_Status := DriverBusy\<rparr>)"
  using make_unavailable_inv [OF assms] ds_invD(2) [OF assms(1,2)] assms(2,3) by (simp add: ds_Assign_def driver_ok_def)

lemma ds_Release_eq:
  assumes "ds_inv s" "driversByID s i = Some d" "dr_Status d = DriverBusy"
  shows "\<exists>s'. ds_Release i s = (None, s') \<and> ds_inv s' \<and> ds_cfg s' = ds_cfg s \<and> driversByID s' = (driversByID s)(i \<mapsto> d\<lparr>dr_Status := DriverAvailable\<rparr>)"
  using make_available_inv [OF assms(1,2)] ds_invD(2) [OF assms(1,2)] assms(2,3) by (simp add: ds_Release_def driver_ok_def)

section \<open>Distances\<close>

definition bounded :: "int \<Rightarrow> f64 \<Rightarrow> bool" where
  "bounded n a \<longleftrightarrow> (\<exists>q. a = Fin q \<and> \<bar>q\<bar> \<le> of_int n)"

lemma bounded_round: "\<bar>x\<bar> \<le> of_int n \<Longrightarrow> n \<le> 2 ^ 53 \<Longrightarrow> bounded n (round64 x)"
proof -
  assume x: "\<bar>x\<bar> \<le> of_int n" and n: "n \<le> 2 ^ 53"
  have "0 \<le> (of_int n :: rat)" using x by linarith
  then have "0 \<le> n" by simp
  then have "round64 x \<le> Fin (of_int n)" "Fin (- of_int n) \<le> round64 x"
    using round64_le [of x "of_int n"] round64_le [of "- of_int n" x] round64_int [of n] x n by auto
  then show ?thesis by (cases "round64 x") (auto simp: bounded_def)
qed

lemma bounded_minus: "bounded m a \<Longrightarrow> bounded n b \<Longrightarrow> m + n \<le> 2 ^ 53 \<Longrightarrow> bounded (m + n) (a - b)"
proof -
  assume a: "bounded m a" "bounded n b" "m + n \<le> 2 ^ 53"
  then obtain p q where pq: "a = Fin p" "b = Fin q" "\<bar>p\<bar> \<le> of_int m" "\<bar>q\<bar> \<le> of_int n" by (auto simp: bounded_def)
  then have "\<bar>p - q\<bar> \<le> of_int (m + n)" by simp
  then have "bounded (m + n) (round64 (p - q))" using a(3) by (intro bounded_round)
  then show ?thesis using pq by (simp add: minus_f64_def)
qed

lemma bounded_times: "bounded m a \<Longrightarrow> bounded n b \<Longrightarrow> m * n \<le> 2 ^ 53 \<Longrightarrow> bounded (m * n) (a * b)"
proof -
  assume a: "bounded m a" "bounded n b" "m * n \<le> 2 ^ 53"
  then obtain p q where pq: "a = Fin p" "b = Fin q" "\<bar>p\<bar> \<le> of_int m" "\<bar>q\<bar> \<le> of_int n" by (auto simp: bounded_def)
  then have "\<bar>p\<bar> * \<bar>q\<bar> \<le> of_int m * of_int n" by (intro mult_mono) linarith+
  then have "bounded (m * n) (round64 (p * q))" using a(3) by (intro bounded_round) (simp_all add: abs_mult)
  then show ?thesis using pq by simp
qed

lemma valid_location_bounded:
  assumes "IsValidLocation loc" shows "bounded 90 (Lat loc)" "bounded 180 (Lng loc)"
  using assms by (cases "Lat loc"; cases "Lng loc"; auto simp: IsValidLocation_def bounded_def abs_le_iff)+

lemma square_nonneg: "a \<noteq> NaN \<Longrightarrow> 0 \<le> a * a" for a :: f64
  by (cases a) (auto simp: f64_zero_le_round64 signed_inf_def, simp_all add: zero_f64_def)

lemma DistanceKm_not_NaN:
  assumes "cos_ok cosine" "IsValidLocation a" "IsValidLocation b"
  shows "DistanceKm cosine a b \<noteq> NaN"
proof -
  note A = valid_location_bounded [OF assms(2)] and B = valid_location_bounded [OF assms(3)]
  have c111: "bounded 111 (Fin 111)" by (simp add: bounded_def)
  have "bounded ((90 + 90) * 111) ((Lat a - Lat b) * Fin 111)" by (intro bounded_times bounded_minus A B c111) simp_all
  then have dx: "(Lat a - Lat b) * Fin 111 \<noteq> NaN" by (auto simp: bounded_def)
  have pi4: "bounded 4 math_Pi"
    unfolding math_Pi_def by (rule bounded_round) simp_all
  have "bounded (90 * 4) (Lat a * math_Pi)" by (intro bounded_times A pi4) simp
  then obtain p where "Lat a * math_Pi = Fin p" by (auto simp: bounded_def)
  moreover have "\<bar>p / 180\<bar> \<le> of_int 2" if "\<bar>p\<bar> \<le> 360" for p :: rat using that by (simp add: abs_le_iff)
  ultimately obtain r where "Lat a * math_Pi / Fin 180 = Fin r"
    using bounded_round [of "p / 180" 2] \<open>bounded (90 * 4) (Lat a * math_Pi)\<close> by (auto simp: bounded_def)
  then obtain c where c: "cosine (Lat a * math_Pi / Fin 180) = Fin c" "\<bar>c\<bar> \<le> 1"
    using assms(1) by (fastforce simp: cos_ok_def abs_le_iff)
  have "bounded ((180 + 180) * 111 * 1) ((Lng a - Lng b) * Fin 111 * cosine (Lat a * math_Pi / Fin 180))"
    by (intro bounded_times bounded_minus A B c111) (use c in \<open>simp_all add: bounded_def\<close>)
  then have dy: "(Lng a - Lng b) * Fin 111 * cosine (Lat a * math_Pi / Fin 180) \<noteq> NaN" by (auto simp: bounded_def)
  let ?x = "(Lat a - Lat b) * Fin 111" and ?y = "(Lng a - Lng b) * Fin 111 * cosine (Lat a * math_Pi / Fin 180)"
  have nn: "0 \<le> ?x * ?x + ?y * ?y" using square_nonneg [OF dx] square_nonneg [OF dy] by (rule f64_plus_nonneg)
  have "math_Sqrt z \<noteq> NaN" if "0 \<le> z" for z
    using that by (cases z) (auto simp: math_Sqrt_def Let_def zero_f64_def)
  from this [OF nn] show ?thesis by (simp add: DistanceKm_def Let_def)
qed

section \<open>The nearest available drivers\<close>

text \<open>\<open>order\<close> visits every driver of a block's map once.\<close>

definition visits :: "(block_id \<Rightarrow> string list) \<Rightarrow> driver_store \<Rightarrow> bool" where
  "visits order s \<longleftrightarrow>
     (\<forall>b. distinct (order b) \<and> set (order b) = (case availableDriversByBlock s b of None \<Rightarrow> {} | Some ids \<Rightarrow> ids))"

text \<open>The available drivers in the blocks around a location.\<close>

definition in_reach :: "driver_store \<Rightarrow> location \<Rightarrow> driver \<Rightarrow> bool" where
  "in_reach s loc d \<longleftrightarrow>
     driversByID s (dr_ID d) = Some d \<and> dr_Status d = DriverAvailable
     \<and> dr_BlockID d \<in> set (NeighborBlocks (GetBlockID loc (CellSizeDegrees (ds_cfg s))) (NeighborRing (ds_cfg s)))"

lemma visits_free:
  assumes "ds_inv s" "visits order s"
  shows "distinct (order b)" "set (order b) = free_in (driversByID s) b"
proof -
  have "distinct (order b) \<and> set (order b) = (case index_of (free_in (driversByID s)) b of None \<Rightarrow> {} | Some ids \<Rightarrow> ids)"
    using assms(2) unfolding visits_def ds_invD(3) [OF assms(1)] by (rule spec)
  then show "distinct (order b)" "set (order b) = free_in (driversByID s) b"
    by (simp_all add: index_of_def split: if_splits)
qed

lemma visited_in_block:
  assumes "ds_inv s" "visits order s"
  shows "d \<in> set (List.map_filter (driversByID s) (order b)) \<longleftrightarrow>
    driversByID s (dr_ID d) = Some d \<and> dr_Status d = DriverAvailable \<and> dr_BlockID d = b"
proof -
  have "d \<in> set (List.map_filter (driversByID s) (order b)) \<longleftrightarrow> (\<exists>i\<in>free_in (driversByID s) b. driversByID s i = Some d)"
    by (force simp: List.map_filter_def visits_free(2) [OF assms])
  moreover have "i = dr_ID d" if "driversByID s i = Some d" for i
    using ds_invD(2) [OF assms(1) that] by (simp add: driver_ok_def)
  ultimately show ?thesis by (auto simp: free_in_def)
qed

lemma visited_set:
  assumes "ds_inv s" "visits order s"
  shows "set (visited_drivers order loc s) = {d. in_reach s loc d}"
  by (rule set_eqI) (simp add: visited_drivers_def in_reach_def visited_in_block [OF assms] conj_assoc)

interpretation candidate_order: strict_weak_order candidate_less "\<lambda>c. snd c \<noteq> NaN"
proof unfold_locales
  fix x y z :: "driver \<times> f64"
  assume n: "snd x \<noteq> NaN" "snd y \<noteq> NaN"
  then show "candidate_less x y \<Longrightarrow> \<not> candidate_less y x"
    using f64_lt.less_asym [of "snd x" "snd y"] by (auto simp: candidate_less_def f64_eq_def split: if_splits)
  assume z: "snd z \<noteq> NaN" and le: "\<not> candidate_less x y" "\<not> candidate_less y z"
  have "snd y \<le> snd x" "snd z \<le> snd y"
    using le n z f64_not_less [of "snd x" "snd y"] f64_not_less [of "snd y" "snd z"]
    by (auto simp: candidate_less_def f64_eq_def split: if_splits)
  then have "snd z \<le> snd x" by (rule f64_trans [rotated])
  moreover have "snd x = snd z \<Longrightarrow> snd x = snd y" using \<open>snd y \<le> snd x\<close> \<open>snd z \<le> snd y\<close> f64_antisym by metis
  ultimately show "\<not> candidate_less x z"
    using le n z f64_not_less [of "snd x" "snd z"] by (auto simp: candidate_less_def f64_eq_def split: if_splits)
qed

lemma f64_irrefl [simp]: "\<not> a < a" for a :: f64
  by (cases a) simp_all

text \<open>The running minimum of the search.\<close>

definition km_to :: "(f64 \<Rightarrow> f64) \<Rightarrow> location \<Rightarrow> driver \<Rightarrow> f64" where
  "km_to cosine loc d = DistanceKm cosine loc (dr_Location d)"

definition best_of :: "(driver \<Rightarrow> f64) \<Rightarrow> f64 \<Rightarrow> driver set \<Rightarrow> (driver \<times> f64) option \<Rightarrow> bool" where
  "best_of km maxKm S best \<longleftrightarrow>
     (case best of
        None \<Rightarrow> \<forall>e\<in>S. maxKm < km e
      | Some (d, k) \<Rightarrow> d \<in> S \<and> k = km d \<and> \<not> maxKm < k
          \<and> (\<forall>e\<in>S. \<not> maxKm < km e \<longrightarrow> \<not> candidate_less (e, km e) (d, km d)))"

lemma best_of_step:
  assumes best: "best_of km maxKm S best" and nan: "\<And>d. d \<in> insert x S \<Longrightarrow> km d \<noteq> NaN"
    and km: "km = km_to cosine loc"
  shows "best_of km maxKm (insert x S) (nearest_step cosine loc maxKm x best)"
proof (cases "maxKm < km x")
  case True
  then have "nearest_step cosine loc maxKm x best = best" by (simp add: nearest_step_def km km_to_def)
  then show ?thesis using best True by (auto simp: best_of_def split: option.splits)
next
  case False
  have irr: "\<not> candidate_less (x, km x) (x, km x)" by (simp add: candidate_less_def f64_eq_def)
  show ?thesis
  proof (cases best)
    case None
    then have "nearest_step cosine loc maxKm x best = Some (x, km x)" using False by (simp add: nearest_step_def km km_to_def)
    then show ?thesis using best None False irr by (auto simp: best_of_def)
  next
    case (Some b)
    obtain d where b: "b = (d, km d)" and d: "d \<in> S" "\<not> maxKm < km d"
      "\<And>e. e \<in> S \<Longrightarrow> \<not> maxKm < km e \<Longrightarrow> \<not> candidate_less (e, km e) (d, km d)"
      using best Some by (cases b) (auto simp: best_of_def)
    have step: "nearest_step cosine loc maxKm x best = (if candidate_less (x, km x) (d, km d) then Some (x, km x) else Some (d, km d))"
      using False Some b by (auto simp: nearest_step_def candidate_less_def f64_eq_def km km_to_def Let_def)
    show ?thesis
    proof (cases "candidate_less (x, km x) (d, km d)")
      case True
      have "\<not> candidate_less (e, km e) (x, km x)" if "e \<in> S" "\<not> maxKm < km e" for e
        using candidate_order.not_less_trans [of "(e, km e)" "(d, km d)" "(x, km x)"] d(3) [OF that]
          candidate_order.less_asym [of "(x, km x)" "(d, km d)"] True nan that(1) d(1) by auto
      then show ?thesis using step True False irr by (auto simp: best_of_def)
    qed (use step d in \<open>auto simp: best_of_def\<close>)
  qed
qed

lemma nearest_fold:
  assumes "km = km_to cosine loc"
  shows "best_of km maxKm S best \<Longrightarrow> (\<And>d. d \<in> set ds \<union> S \<Longrightarrow> km d \<noteq> NaN) \<Longrightarrow>
    best_of km maxKm (set ds \<union> S) (fold (nearest_step cosine loc maxKm) ds best)"
proof (induction ds arbitrary: best S)
  case (Cons x ds)
  have nan: "km d \<noteq> NaN" if "d \<in> set ds \<union> insert x S" for d using Cons.prems(2) [of d] that by auto
  have "best_of km maxKm (insert x S) (nearest_step cosine loc maxKm x best)"
    by (rule best_of_step [OF Cons.prems(1) _ assms]) (use nan in blast)
  then have "best_of km maxKm (set ds \<union> insert x S) (fold (nearest_step cosine loc maxKm) ds (nearest_step cosine loc maxKm x best))"
    by (rule Cons.IH) (use nan in blast)
  moreover have "set (x # ds) \<union> S = set ds \<union> insert x S" by auto
  ultimately show ?case by (simp only: fold.simps o_apply)
qed simp

lemma candidates_total:
  assumes "in_reach s loc d" "in_reach s loc e" "k d \<noteq> NaN" "k e \<noteq> NaN" "\<not> candidate_less (e, k e) (d, k d)"
  shows "e = d \<or> candidate_less (d, k d) (e, k e)"
proof (cases "k d = k e")
  case True
  then have "dr_ID d \<le> dr_ID e" using assms(4,5) by (simp add: candidate_less_def f64_eq_def not_less)
  then consider "dr_ID d < dr_ID e" | "dr_ID d = dr_ID e" by fastforce
  then show ?thesis
  proof cases
    case 2
    then have "Some d = Some e" using assms(1,2) unfolding in_reach_def by metis
    then show ?thesis by simp
  qed (use True assms(4) in \<open>simp add: candidate_less_def f64_eq_def\<close>)
next
  case False
  then show ?thesis
    using assms(3-5) f64_not_less [of "k e" "k d"] by (auto simp: candidate_less_def f64_eq_def le_f64_iff)
qed

text \<open>What a search for the nearest available driver may answer.\<close>

definition nearest_spec :: "(f64 \<Rightarrow> f64) \<Rightarrow> location \<Rightarrow> f64 \<Rightarrow> driver_store \<Rightarrow> ride_error + driver \<times> f64 \<Rightarrow> bool" where
  "nearest_spec cosine loc maxKm s r \<longleftrightarrow>
     (let km = km_to cosine loc; C = {d. in_reach s loc d \<and> km d \<le> maxKm}
      in case r of
           Inl e \<Rightarrow> C = {} \<and> e = ErrNoDriverFound
         | Inr (d, k) \<Rightarrow> d \<in> C \<and> k = km d \<and> (\<forall>e\<in>C. e = d \<or> candidate_less (d, km d) (e, km e)))"

lemma in_reach_not_NaN:
  assumes "ds_inv s" "cos_ok cosine" "IsValidLocation loc" "in_reach s loc d"
  shows "km_to cosine loc d \<noteq> NaN"
  using assms(4) ds_invD(2) [OF assms(1)] DistanceKm_not_NaN [OF assms(2,3)] by (auto simp: in_reach_def driver_ok_def km_to_def)

lemma FindNearest_least:
  assumes inv: "ds_inv s" and ord: "visits order s" and cos: "cos_ok cosine"
    and loc: "IsValidLocation loc" and maxKm: "0 < maxKm"
  shows "nearest_spec cosine loc maxKm s (FindNearestAvailable cosine order loc maxKm s)"
proof -
  let ?km = "km_to cosine loc"
  let ?r = "fold (nearest_step cosine loc maxKm) (visited_drivers order loc s) None"
  have nan: "?km d \<noteq> NaN" if "in_reach s loc d" for d using in_reach_not_NaN [OF inv cos loc that] .
  have set: "set (visited_drivers order loc s) = {d. in_reach s loc d}" using visited_set [OF inv ord] .
  have "best_of ?km maxKm (set (visited_drivers order loc s) \<union> {}) ?r"
    by (rule nearest_fold [OF refl]) (use nan set in \<open>simp_all add: best_of_def\<close>)
  then have fold: "best_of ?km maxKm {d. in_reach s loc d} ?r" using set by simp
  have max: "maxKm \<noteq> NaN" "\<not> maxKm \<le> 0" using maxKm by (cases maxKm; simp add: zero_f64_def)+
  have near: "?km d \<le> maxKm \<longleftrightarrow> \<not> maxKm < ?km d" if "in_reach s loc d" for d
    using f64_not_less [OF max(1) nan [OF that]] by simp
  have result: "FindNearestAvailable cosine order loc maxKm s = (case ?r of None \<Rightarrow> Inl ErrNoDriverFound | Some best \<Rightarrow> Inr best)"
    using loc max by (simp add: FindNearestAvailable_def)
  show ?thesis
  proof (cases ?r)
    case None
    then show ?thesis using fold near unfolding result nearest_spec_def by (auto simp: best_of_def)
  next
    case (Some b)
    obtain d k where b: "b = (d, k)" by fastforce
    have d: "in_reach s loc d" "k = ?km d" "\<not> maxKm < ?km d"
      "\<And>e. in_reach s loc e \<Longrightarrow> \<not> maxKm < ?km e \<Longrightarrow> \<not> candidate_less (e, ?km e) (d, ?km d)"
      using fold Some b by (auto simp: best_of_def)
    have "e = d \<or> candidate_less (d, ?km d) (e, ?km e)" if "in_reach s loc e" "\<not> maxKm < ?km e" for e
      using candidates_total [of s loc d e ?km] d that nan by blast
    then show ?thesis using Some b d near unfolding result nearest_spec_def by (auto simp: Let_def)
  qed
qed

section \<open>The nearest available drivers in order\<close>

lemma wrap64_inj:
  assumes "wrap64 (c + x) = wrap64 (c + y)" "\<bar>x - y\<bar> < 2 ^ 64"
  shows "x = y"
proof -
  have "(c + x + 2 ^ 63) mod 2 ^ 64 = (c + y + 2 ^ 63) mod 2 ^ 64" using assms(1) by (simp add: wrap64_def)
  then have "2 ^ 64 dvd (c + x + 2 ^ 63) - (c + y + 2 ^ 63)" by (rule mod_eq_dvd_iff [THEN iffD1])
  then have "2 ^ 64 dvd x - y" by (simp add: algebra_simps)
  then show ?thesis using assms(2) zdvd_imp_le [of "2 ^ 64" "\<bar>x - y\<bar>"] by (cases "x = y") auto
qed

lemma distinct_concat_map:
  "distinct bs \<Longrightarrow> \<forall>b\<in>set bs. distinct (f b) \<Longrightarrow> \<forall>b\<in>set bs. \<forall>c\<in>set bs. b \<noteq> c \<longrightarrow> set (f b) \<inter> set (f c) = {}
   \<Longrightarrow> distinct (concat (map f bs))"
  by (induction bs) auto

lemma NeighborBlocks_distinct:
  assumes "in_int64 ring"
  shows "distinct (NeighborBlocks center ring)"
proof -
  let ?os = "[wrap64 (- ring)..ring]"
  let ?row = "\<lambda>o1. map (\<lambda>o2. (wrap64 (fst center + o1), wrap64 (snd center + o2))) ?os"
  have near: "\<bar>x - y\<bar> < 2 ^ 64" if "x \<in> set ?os" "y \<in> set ?os" for x y
    using that wrap64_in_int64 [of "- ring"] assms by (auto simp: in_int64_def)
  have inj: "x = y" if "x \<in> set ?os" "y \<in> set ?os" "wrap64 (c + x) = wrap64 (c + y)" for x y c
    using wrap64_inj [OF that(3) near [OF that(1,2)]] .
  have "distinct (concat (map ?row ?os))"
  proof (rule distinct_concat_map)
    show "\<forall>b\<in>set ?os. distinct (?row b)"
      using inj by (auto simp: distinct_map inj_on_def)
    show "\<forall>b\<in>set ?os. \<forall>c\<in>set ?os. b \<noteq> c \<longrightarrow> set (?row b) \<inter> set (?row c) = {}"
    proof (intro ballI impI)
      fix b c assume bc: "b \<in> set ?os" "c \<in> set ?os" "b \<noteq> c"
      have "wrap64 (fst center + b) \<noteq> wrap64 (fst center + c)" using inj [OF bc(1,2)] bc(3) by blast
      then show "set (?row b) \<inter> set (?row c) = {}" by fastforce
    qed
  qed simp
  then show ?thesis by (simp only: NeighborBlocks_def)
qed

lemma NeighborRing_in_int64: "in_int64 (NeighborRing cfg)"
proof -
  have "in_int64 (f64_to_int a)" for a by (cases a) (simp_all add: f64_to_int_def in_int64_def Let_def)
  then show ?thesis by (simp add: NeighborRing_def Let_def)
qed

lemma visited_distinct:
  assumes inv: "ds_inv s" and ord: "visits order s"
  shows "distinct (visited_drivers order loc s)"
proof -
  have "distinct (List.map_filter (driversByID s) (order b))" for b
  proof -
    have own: "dr_ID d = i" if "driversByID s i = Some d" for i d using ds_invD(2) [OF inv that] by (simp add: driver_ok_def)
    have "inj_on (the \<circ> driversByID s) (set (filter (\<lambda>i. driversByID s i \<noteq> None) (order b)))"
    proof (rule inj_onI)
      fix i j
      assume "i \<in> set (filter (\<lambda>i. driversByID s i \<noteq> None) (order b))" "j \<in> set (filter (\<lambda>i. driversByID s i \<noteq> None) (order b))"
        "(the \<circ> driversByID s) i = (the \<circ> driversByID s) j"
      then obtain d where "driversByID s i = Some d" "driversByID s j = Some d" by auto
      then show "i = j" using own by blast
    qed
    then show ?thesis using visits_free(1) [OF assms] by (simp add: List.map_filter_def distinct_map comp_def)
  qed
  moreover have "set (List.map_filter (driversByID s) (order b)) \<inter> set (List.map_filter (driversByID s) (order c)) = {}" if "b \<noteq> c" for b c
    using that by (auto simp: visited_in_block [OF assms])
  ultimately show ?thesis
    unfolding visited_drivers_def by (intro distinct_concat_map NeighborBlocks_distinct NeighborRing_in_int64) auto
qed

context strict_weak_order
begin

text \<open>Sorting by an order that is total on the list.\<close>

lemma sort_slice_total:
  assumes "\<forall>x\<in>set xs. dom_lt x" "distinct xs" "\<And>x y. x \<in> set xs \<Longrightarrow> y \<in> set xs \<Longrightarrow> x \<noteq> y \<Longrightarrow> lt x y \<or> lt y x"
  shows "sorted_wrt lt (sort_slice lt xs)"
proof -
  let ?ys = "sort_slice lt xs"
  have srt: "sorted_wrt (\<lambda>a b. \<not> lt b a) ?ys" using sorted_sort_slice [OF assms(1)] .
  show ?thesis
    unfolding sorted_wrt_iff_nth_less
  proof (intro allI impI)
    fix i j assume ij: "i < j" "j < length ?ys"
    then have "?ys ! i \<in> set xs" "?ys ! j \<in> set xs" using nth_mem [of _ ?ys] by simp_all
    moreover have "?ys ! i \<noteq> ?ys ! j" using nth_eq_iff_index_eq [of ?ys i j] assms(2) ij by simp
    moreover have "\<not> lt (?ys ! j) (?ys ! i)" using srt ij unfolding sorted_wrt_iff_nth_less by blast
    ultimately show "lt (?ys ! i) (?ys ! j)" using assms(3) by blast
  qed
qed

lemma sorted_unique:
  "sorted_wrt lt xs \<Longrightarrow> sorted_wrt lt ys \<Longrightarrow> set xs = set ys \<Longrightarrow> \<forall>x\<in>set xs. dom_lt x \<Longrightarrow> xs = ys"
proof (induction xs arbitrary: ys)
  case (Cons x xs)
  obtain y ys' where ys: "ys = y # ys'" using Cons.prems(3) by (cases ys) auto
  have D: "dom_lt z" if "z \<in> set (x # xs) \<union> set ys" for z using that Cons.prems(3,4) by blast
  have "x = y"
  proof (rule ccontr)
    assume "x \<noteq> y"
    then have "y \<in> set xs" "x \<in> set ys'" using Cons.prems(3) ys by auto
    then have "lt x y" "lt y x" using Cons.prems(1,2) ys by auto
    then show False using less_asym [of x y] D ys by simp
  qed
  moreover have "x \<notin> set xs" "y \<notin> set ys'" using Cons.prems(1,2) ys less_irrefl D by auto
  ultimately have "set xs = set ys'" using Cons.prems(3) ys by auto
  then have "xs = ys'" using Cons.IH [of ys'] Cons.prems ys by auto
  then show ?case using ys \<open>x = y\<close> by simp
qed simp

end

text \<open>All drivers in range, the nearest first.\<close>

definition ranked :: "(f64 \<Rightarrow> f64) \<Rightarrow> location \<Rightarrow> f64 \<Rightarrow> driver_store \<Rightarrow> driver list \<Rightarrow> bool" where
  "ranked cosine loc maxKm s ds \<longleftrightarrow>
     set ds = {d. in_reach s loc d \<and> km_to cosine loc d \<le> maxKm}
     \<and> sorted_wrt (\<lambda>d e. candidate_less (d, km_to cosine loc d) (e, km_to cosine loc e)) ds"

lemma ranked_unique:
  assumes "ranked cosine loc maxKm s ds" "ranked cosine loc maxKm s es"
    and "ds_inv s" "cos_ok cosine" "IsValidLocation loc"
  shows "ds = es"
proof -
  let ?c = "\<lambda>d. (d, km_to cosine loc d)"
  have "sorted_wrt candidate_less (map ?c ds)" "sorted_wrt candidate_less (map ?c es)" "set (map ?c ds) = set (map ?c es)"
    using assms(1,2) by (simp_all add: ranked_def sorted_wrt_map)
  moreover have "\<forall>x\<in>set (map ?c ds). snd x \<noteq> NaN" using assms(1) in_reach_not_NaN [OF assms(3-5)] by (auto simp: ranked_def)
  ultimately have "map ?c ds = map ?c es" by (rule candidate_order.sorted_unique)
  then have "map fst (map ?c ds) = map fst (map ?c es)" by (rule arg_cong)
  then show ?thesis by (simp add: comp_def)
qed

lemma FindNNearest_ranked:
  assumes inv: "ds_inv s" and ord: "visits order s" and cos: "cos_ok cosine"
    and loc: "IsValidLocation loc" and maxKm: "0 < maxKm" and limit: "0 < limit"
  shows "\<exists>ds. ranked cosine loc maxKm s ds
    \<and> FindNNearestAvailable cosine order loc limit maxKm s = (if ds = [] then Inl ErrNoDriverFound else Inr (take (nat limit) ds))"
proof -
  let ?km = "km_to cosine loc"
  let ?c = "\<lambda>d. (d, ?km d)"
  let ?near = "filter (\<lambda>d. ?km d \<le> maxKm) (visited_drivers order loc s)"
  let ?ds = "map fst (sort_slice candidate_less (map ?c ?near))"
  have set: "set ?near = {d. in_reach s loc d \<and> ?km d \<le> maxKm}" using visited_set [OF inv ord] by auto
  have nan: "?km d \<noteq> NaN" if "in_reach s loc d" for d using in_reach_not_NaN [OF inv cos loc that] .
  have "map (?c \<circ> fst) (sort_slice candidate_less (map ?c ?near)) = sort_slice candidate_less (map ?c ?near)"
    by (rule map_idI) (use set_sort_slice [of candidate_less "map ?c ?near"] in \<open>auto simp: image_iff\<close>)
  then have cs: "sort_slice candidate_less (map ?c ?near) = map ?c ?ds" by (simp only: map_map)
  have sds: "set ?ds = {d. in_reach s loc d \<and> ?km d \<le> maxKm}" using set by (auto simp: image_image)
  have "distinct (map ?c ?near)" using visited_distinct [OF inv ord] by (simp add: distinct_map inj_on_def)
  then have "sorted_wrt candidate_less (sort_slice candidate_less (map ?c ?near))"
  proof (rule candidate_order.sort_slice_total [rotated])
    show "\<forall>x\<in>set (map ?c ?near). snd x \<noteq> NaN" using set nan by auto
    fix x y
    assume "x \<in> set (map ?c ?near)" "y \<in> set (map ?c ?near)" "x \<noteq> y"
    then obtain d e where "x = ?c d" "y = ?c e" "in_reach s loc d" "in_reach s loc e" "d \<noteq> e" using set by auto
    then show "candidate_less x y \<or> candidate_less y x" using candidates_total [of s loc d e ?km] nan by metis
  qed
  then have "sorted_wrt (\<lambda>d e. candidate_less (?c d) (?c e)) ?ds" by (subst (asm) cs) (simp only: sorted_wrt_map)
  then have rank: "ranked cosine loc maxKm s ?ds" using sds unfolding ranked_def by simp
  have "\<not> maxKm \<le> 0" using maxKm by (cases maxKm; simp add: zero_f64_def)
  moreover have "filter (\<lambda>(d, distanceKm). distanceKm \<le> maxKm) (map (\<lambda>d. (d, DistanceKm cosine loc (dr_Location d))) (visited_drivers order loc s))
      = map ?c ?near"
    by (simp add: filter_map comp_def km_to_def)
  ultimately have "FindNNearestAvailable cosine order loc limit maxKm s =
      (if map ?c ?near = [] then Inl ErrNoDriverFound
       else Inr (map fst (take (nat (if int (length (map ?c ?near)) < limit then int (length (map ?c ?near)) else limit))
         (sort_slice candidate_less (map ?c ?near)))))"
    using loc limit unfolding FindNNearestAvailable_def Let_def length_sort_slice by simp
  moreover have "map ?c ?near = [] \<longleftrightarrow> ?ds = []" by (simp only: length_0_conv [symmetric] length_map length_sort_slice)
  moreover have "map fst (take (nat (if int (length (map ?c ?near)) < limit then int (length (map ?c ?near)) else limit))
         (sort_slice candidate_less (map ?c ?near))) = take (nat limit) ?ds"
    using length_sort_slice [of candidate_less "map ?c ?near"] by (simp add: take_map)
  ultimately show ?thesis using rank by (intro exI [of _ ?ds]) simp
qed

text \<open>The two searches agree, whatever orders they visit the maps in.\<close>

lemma FindNearest_hd:
  assumes inv: "ds_inv s" and ord: "visits order s" and cos: "cos_ok cosine"
    and loc: "IsValidLocation loc" and maxKm: "0 < maxKm" and ds: "ranked cosine loc maxKm s ds"
  shows "FindNearestAvailable cosine order loc maxKm s = (case ds of [] \<Rightarrow> Inl ErrNoDriverFound | d # _ \<Rightarrow> Inr (d, km_to cosine loc d))"
proof -
  let ?km = "km_to cosine loc"
  have spec: "nearest_spec cosine loc maxKm s (FindNearestAvailable cosine order loc maxKm s)"
    by (rule FindNearest_least [OF inv ord cos loc maxKm])
  have set: "set ds = {d. in_reach s loc d \<and> ?km d \<le> maxKm}" using ds by (simp add: ranked_def)
  show ?thesis
  proof (cases "FindNearestAvailable cosine order loc maxKm s")
    case (Inl e)
    then show ?thesis using spec set by (cases ds) (auto simp: nearest_spec_def Let_def)
  next
    case (Inr r)
    obtain d k where r: "r = (d, k)" by fastforce
    have d: "d \<in> set ds" "k = ?km d" "\<forall>e\<in>set ds. e = d \<or> candidate_less (d, ?km d) (e, ?km e)"
      using spec Inr r set by (auto simp: nearest_spec_def Let_def)
    obtain e es where es: "ds = e # es" using d(1) by (cases ds) auto
    have "e = d"
    proof (rule ccontr)
      assume ne: "e \<noteq> d"
      then have "candidate_less (e, ?km e) (d, ?km d)" "candidate_less (d, ?km d) (e, ?km e)"
        using d ds es by (auto simp: ranked_def)
      moreover have "?km e \<noteq> NaN" "?km d \<noteq> NaN" using set es d(1) in_reach_not_NaN [OF inv cos loc] by auto
      ultimately show False using candidate_order.less_asym [of "(e, ?km e)" "(d, ?km d)"] by simp
    qed
    then show ?thesis using Inr r d(2) es by simp
  qed
qed

end
