(* ===== verification/Ride_Tracker.thy ===== *)
theory Ride_Tracker
  imports Ride_Correct
begin

text \<open>
  The tracker of active rides implements a list of rides with distinct ids: its linked list
  holds them in the order of their assignment, and its map gives the node of each.
\<close>

definition tk_rep :: "ride_tracker \<Rightarrow> ride list \<Rightarrow> bool" where
  "tk_rep t rs \<longleftrightarrow>
     (\<exists>xs. ll_rep (tk_list t) xs \<and> map snd xs = rs \<and> distinct (map rd_ID rs)
       \<and> tk_nodes t = map_of (map (\<lambda>x. (rd_ID (snd x), fst x)) xs))"

lemma nodes_None: "map_of (map (\<lambda>x. (rd_ID (snd x), fst x)) xs) i = None \<longleftrightarrow> i \<notin> rd_ID ` set (map snd xs)"
  by (auto simp: map_of_eq_None_iff image_image)

lemma nodes_split:
  assumes "distinct (map rd_ID (map snd (ys @ (a, r) # zs)))"
  shows "map_of (map (\<lambda>x. (rd_ID (snd x), fst x)) (ys @ (a, r) # zs)) (rd_ID r) = Some a"
    "(map_of (map (\<lambda>x. (rd_ID (snd x), fst x)) (ys @ (a, r) # zs)))(rd_ID r := None) =
      map_of (map (\<lambda>x. (rd_ID (snd x), fst x)) (ys @ zs))"
proof -
  have "rd_ID r \<notin> rd_ID ` set (map snd ys)" "rd_ID r \<notin> rd_ID ` set (map snd zs)" using assms by auto
  then have none: "map_of (map (\<lambda>x. (rd_ID (snd x), fst x)) ys) (rd_ID r) = None"
    "map_of (map (\<lambda>x. (rd_ID (snd x), fst x)) zs) (rd_ID r) = None"
    by (simp_all only: nodes_None not_False_eq_True)
  show "map_of (map (\<lambda>x. (rd_ID (snd x), fst x)) (ys @ (a, r) # zs)) (rd_ID r) = Some a"
    using none by (simp add: map_add_def)
  show "(map_of (map (\<lambda>x. (rd_ID (snd x), fst x)) (ys @ (a, r) # zs)))(rd_ID r := None) =
      map_of (map (\<lambda>x. (rd_ID (snd x), fst x)) (ys @ zs))"
    by (rule ext) (use none in \<open>simp add: map_add_def split: option.split\<close>)
qed

lemma tk_rep_New: "tk_rep NewMemoryActiveRideTracker []"
  using rep_New by (auto simp: tk_rep_def NewMemoryActiveRideTracker_def)

lemma tk_rep_distinct: "tk_rep t rs \<Longrightarrow> distinct (map rd_ID rs)"
  by (auto simp: tk_rep_def)

lemma tk_List_rep: "tk_rep t rs \<Longrightarrow> tk_List t = Some rs"
  using ll_Values_rep by (auto simp: tk_rep_def tk_List_def)

lemma tk_Len_rep: "tk_rep t rs \<Longrightarrow> tk_Len t = length rs"
proof -
  assume "tk_rep t rs"
  then obtain xs where xs: "map snd xs = rs" "distinct (map rd_ID rs)" "tk_nodes t = map_of (map (\<lambda>x. (rd_ID (snd x), fst x)) xs)"
    by (auto simp: tk_rep_def)
  then have "dom (tk_nodes t) = set (map rd_ID rs)" by (force simp: dom_map_of_conv_image_fst image_image)
  then show ?thesis using distinct_card [OF xs(2)] by (simp add: tk_Len_def)
qed

lemma tk_Add_rep:
  assumes rep: "tk_rep t rs" and r: "IsValidRide (Some r)" "rd_ID r \<notin> rd_ID ` set rs"
  shows "\<exists>t'. tk_Add (Some r) t = (None, t') \<and> tk_rep t' (rs @ [r])"
proof -
  obtain xs where xs: "ll_rep (tk_list t) xs" "map snd xs = rs" "distinct (map rd_ID rs)"
      "tk_nodes t = map_of (map (\<lambda>x. (rd_ID (snd x), fst x)) xs)"
    using rep by (auto simp: tk_rep_def)
  obtain l' where push: "PushBack r (tk_list t) = (ll_next_addr (tk_list t), l')" "ll_rep l' (xs @ [(ll_next_addr (tk_list t), r)])"
    using rep_PushBack [OF xs(1)] by blast
  have none: "tk_nodes t (rd_ID r) = None" using r(2) xs(2,4) nodes_None by metis
  let ?t = "t\<lparr>tk_list := l', tk_nodes := (tk_nodes t)(rd_ID r \<mapsto> ll_next_addr (tk_list t))\<rparr>"
  have "tk_Add (Some r) t = (None, ?t)" using r(1) none push(1) by (simp add: tk_Add_def)
  moreover have "tk_nodes ?t = map_of (map (\<lambda>x. (rd_ID (snd x), fst x)) (xs @ [(ll_next_addr (tk_list t), r)]))"
    by (rule ext) (use none xs(4) in \<open>simp add: map_add_def split: option.split\<close>)
  moreover have "distinct (map rd_ID (rs @ [r]))" "map snd (xs @ [(ll_next_addr (tk_list t), r)]) = rs @ [r]" using xs(2,3) r(2) by auto
  ultimately have "tk_rep ?t (rs @ [r])" using push(2) unfolding tk_rep_def by (intro exI [of _ "xs @ [(ll_next_addr (tk_list t), r)]"]) simp
  then show ?thesis using \<open>tk_Add (Some r) t = (None, ?t)\<close> by blast
qed

lemma tk_Add_duplicate:
  assumes "tk_rep t rs" "IsValidRide (Some r)" "rd_ID r \<in> rd_ID ` set rs"
  shows "tk_Add (Some r) t = (Some ErrDuplicateRide, t)"
proof -
  obtain xs where xs: "map snd xs = rs" "tk_nodes t = map_of (map (\<lambda>x. (rd_ID (snd x), fst x)) xs)"
    using assms(1) by (auto simp: tk_rep_def)
  then have "tk_nodes t (rd_ID r) \<noteq> None" using assms(3) nodes_None [of xs "rd_ID r"] by simp
  then show ?thesis using assms(2) by (simp add: tk_Add_def)
qed

lemma tk_Get_rep:
  assumes rep: "tk_rep t rs" and r: "r \<in> set rs" "\<not> blank (rd_ID r)"
  shows "tk_Get (rd_ID r) t = Some (Inr r)"
proof -
  obtain xs where xs: "ll_rep (tk_list t) xs" "map snd xs = rs" "distinct (map rd_ID rs)"
      "tk_nodes t = map_of (map (\<lambda>x. (rd_ID (snd x), fst x)) xs)"
    using rep by (auto simp: tk_rep_def)
  obtain a where "(a, r) \<in> set xs" using r(1) xs(2) by force
  then obtain ys zs where split: "xs = ys @ (a, r) # zs" by (meson split_list)
  have dis: "distinct (map rd_ID (map snd (ys @ (a, r) # zs)))" using xs(2,3) split by simp
  have "tk_nodes t (rd_ID r) = Some a" using nodes_split(1) [OF dis] unfolding xs(4) split .
  moreover have "ll_nodes (tk_list t) a = Some \<lparr>nd_value = r, nd_prev = last_addr ys, nd_next = first_addr zs\<rparr>"
    using ll_repD(6) [OF xs(1) split] .
  ultimately show ?thesis using r(2) by (simp add: tk_Get_def)
qed

lemma tk_Remove_rep:
  assumes rep: "tk_rep t rs" and r: "r \<in> set rs" "\<not> blank (rd_ID r)"
  shows "\<exists>t'. tk_Remove (rd_ID r) t = Some (Inr r, t') \<and> tk_rep t' (filter (\<lambda>s. rd_ID s \<noteq> rd_ID r) rs)"
proof -
  obtain xs where xs: "ll_rep (tk_list t) xs" "map snd xs = rs" "distinct (map rd_ID rs)"
      "tk_nodes t = map_of (map (\<lambda>x. (rd_ID (snd x), fst x)) xs)"
    using rep by (auto simp: tk_rep_def)
  obtain a where "(a, r) \<in> set xs" using r(1) xs(2) by force
  then obtain ys zs where split: "xs = ys @ (a, r) # zs" by (meson split_list)
  obtain l' where l': "ll_Remove (Some a) (tk_list t) = Some (Inr r, l')" "ll_rep l' (ys @ zs)"
    using rep_Remove [OF xs(1) split] by blast
  note nodes = nodes_split [of ys a r zs]
  have dis: "distinct (map rd_ID (map snd (ys @ (a, r) # zs)))" using xs(2,3) split by simp
  let ?t = "t\<lparr>tk_list := l', tk_nodes := (tk_nodes t)(rd_ID r := None)\<rparr>"
  have "tk_nodes t (rd_ID r) = Some a" using nodes(1) [OF dis] unfolding xs(4) split .
  then have rm: "tk_Remove (rd_ID r) t = Some (Inr r, ?t)" using l'(1) r(2) by (simp add: tk_Remove_def)
  have "filter (\<lambda>s. rd_ID s \<noteq> rd_ID r) (map snd ws) = map snd ws" if "rd_ID r \<notin> rd_ID ` set (map snd ws)" for ws :: "(nat \<times> ride) list"
    using that by (intro filter_True ballI) (metis image_eqI)
  moreover have "rd_ID r \<notin> rd_ID ` set (map snd ys)" "rd_ID r \<notin> rd_ID ` set (map snd zs)" using dis by auto
  moreover have "rs = map snd ys @ r # map snd zs" using xs(2) split by simp
  ultimately have rs': "map snd (ys @ zs) = filter (\<lambda>s. rd_ID s \<noteq> rd_ID r) rs"
    by (simp only: map_append filter_append filter.simps simp_thms if_False)
  have "tk_nodes ?t = map_of (map (\<lambda>x. (rd_ID (snd x), fst x)) (ys @ zs))" using nodes(2) [OF dis] xs(4) split by simp
  moreover have "distinct (map rd_ID (map snd (ys @ zs)))" using dis by auto
  ultimately have "tk_rep ?t (map snd (ys @ zs))" using l'(2) unfolding tk_rep_def by (intro exI [of _ "ys @ zs"]) simp
  then show ?thesis using rm rs' by auto
qed

lemma tk_Remove_absent:
  assumes "tk_rep t rs" "blank i \<or> i \<notin> rd_ID ` set rs"
  shows "tk_Remove i t = Some (Inl ErrRideNotFound, t)" "tk_Get i t = Some (Inl ErrRideNotFound)"
proof -
  obtain xs where "map snd xs = rs" "tk_nodes t = map_of (map (\<lambda>x. (rd_ID (snd x), fst x)) xs)"
    using assms(1) by (auto simp: tk_rep_def)
  then have "i \<notin> rd_ID ` set rs \<Longrightarrow> tk_nodes t i = None" using nodes_None [of xs i] by simp
  then show "tk_Remove i t = Some (Inl ErrRideNotFound, t)" "tk_Get i t = Some (Inl ErrRideNotFound)"
    using assms(2) by (auto simp: tk_Remove_def tk_Get_def)
qed

end
