(* ===== verification/Ride_Inv.thy ===== *)
theory Ride_Inv
  imports Ride_Tracker
begin

text \<open>
  The dispatcher's reachable states and their invariant: the busy drivers are exactly those of
  the active rides, one each, every ride ever made is either active or in the history, and the
  queue holds valid requests of known riders in heap order.
\<close>

section \<open>Steps\<close>

text \<open>
  What callers may do, in any order.  The stores' own \<open>Assign\<close>, \<open>Release\<close> and \<open>Save\<close> are called by
  the dispatcher alone.  A search visits the index in some order of its maps.
\<close>

inductive ride_step :: "(f64 \<Rightarrow> f64) \<Rightarrow> dispatcher \<Rightarrow> dispatcher \<Rightarrow> bool" for cosine where
  register_driver: "ride_step cosine st (st\<lparr>dp_drivers := snd (ds_Register dp (dp_drivers st))\<rparr>)"
| go_online: "ride_step cosine st (st\<lparr>dp_drivers := snd (ds_GoOnline i (dp_drivers st))\<rparr>)"
| go_offline: "ride_step cosine st (st\<lparr>dp_drivers := snd (ds_GoOffline i (dp_drivers st))\<rparr>)"
| move_driver: "ride_step cosine st (st\<lparr>dp_drivers := snd (ds_UpdateLocation i loc (dp_drivers st))\<rparr>)"
| register_rider: "ride_step cosine st (st\<lparr>dp_riders := snd (rs_Register rp (dp_riders st))\<rparr>)"
| move_rider: "ride_step cosine st (st\<lparr>dp_riders := snd (rs_UpdateLocation i loc (dp_riders st))\<rparr>)"
| request: "ride_step cosine st (snd (RequestRide i pickup dropoff t wall st))"
| process: "visits order (dp_drivers st) \<Longrightarrow> ride_step cosine st (snd (ProcessNextRequest cosine order now st))"
| complete: "CompleteRide i t st = Some (r, st') \<Longrightarrow> ride_step cosine st st'"

text \<open>The states reached before a counter of ids wraps around.\<close>

inductive ride_reachable :: "(f64 \<Rightarrow> f64) \<Rightarrow> ride_config \<Rightarrow> dispatcher \<Rightarrow> bool" for cosine cfg where
  start: "ride_reachable cosine cfg (NewDispatcher cfg)"
| step: "ride_reachable cosine cfg st \<Longrightarrow> dp_rideCounter st + 1 < 2 ^ 64 \<Longrightarrow> dp_requestCounter st + 1 < 2 ^ 64
    \<Longrightarrow> ride_step cosine st st' \<Longrightarrow> ride_reachable cosine cfg st'"

section \<open>The invariant\<close>

definition ride_cfg_ok :: "ride_config \<Rightarrow> bool" where
  "ride_cfg_ok cfg \<longleftrightarrow> 0 < MaxPickupDistanceKm cfg \<and> \<not> BaseFare cfg < 0 \<and> \<not> FarePerKm cfg < 0"

definition busy :: "driver_store \<Rightarrow> string set" where
  "busy s = {i. \<exists>d. driversByID s i = Some d \<and> dr_Status d = DriverBusy}"

interpretation request_order: strict_weak_order request_less "\<lambda>_. True"
  by unfold_locales (auto simp: request_less_def)

definition request_ok :: "rider_store \<Rightarrow> nat \<Rightarrow> ride_request \<Rightarrow> bool" where
  "request_ok riders n q \<longleftrightarrow> IsValidRideRequest (Some q) \<and> riders (rr_RiderID q) \<noteq> None \<and> rr_ID q \<in> request_id ` {1..n}"

definition active_ok :: "rider_store \<Rightarrow> ride \<Rightarrow> bool" where
  "active_ok riders r \<longleftrightarrow> IsValidRide (Some r) \<and> rd_Status r = RideAssigned \<and> riders (rd_RiderID r) \<noteq> None"

definition record_ok :: "string \<Rightarrow> ride \<Rightarrow> bool" where
  "record_ok i r \<longleftrightarrow> rd_ID r = i \<and> IsValidRide (Some r) \<and> (rd_Status r = RideCompleted \<or> rd_Status r = RideCancelled)"

definition queue_ok :: "rider_store \<Rightarrow> nat \<Rightarrow> ride_request list \<Rightarrow> bool" where
  "queue_ok riders n q \<longleftrightarrow> request_order.heap_inv q \<and> distinct (map rr_ID q) \<and> (\<forall>r\<in>set q. request_ok riders n r)"

definition rides_ok :: "nat \<Rightarrow> ride list \<Rightarrow> history_store \<Rightarrow> bool" where
  "rides_ok n rs h \<longleftrightarrow>
     distinct (map rd_ID rs) \<and> rd_ID ` set rs \<union> dom h = ride_id ` {1..n} \<and> rd_ID ` set rs \<inter> dom h = {}
     \<and> (\<forall>i r. h i = Some r \<longrightarrow> record_ok i r)"

definition ride_inv :: "ride_config \<Rightarrow> dispatcher \<Rightarrow> ride list \<Rightarrow> bool" where
  "ride_inv cfg st rs \<longleftrightarrow>
     dp_cfg st = cfg \<and> ds_cfg (dp_drivers st) = cfg \<and> ds_inv (dp_drivers st)
     \<and> (\<forall>i\<in>dom (dp_riders st). \<not> blank i)
     \<and> queue_ok (dp_riders st) (dp_requestCounter st) (dp_queue st)
     \<and> tk_rep (dp_active st) rs \<and> (\<forall>r\<in>set rs. active_ok (dp_riders st) r)
     \<and> distinct (map rd_DriverID rs) \<and> rd_DriverID ` set rs = busy (dp_drivers st)
     \<and> rides_ok (dp_rideCounter st) rs (dp_history st)"

lemma ride_invD:
  assumes "ride_inv cfg st rs"
  shows "dp_cfg st = cfg" "ds_cfg (dp_drivers st) = cfg" "ds_inv (dp_drivers st)"
    "i \<in> dom (dp_riders st) \<Longrightarrow> \<not> blank i"
    "queue_ok (dp_riders st) (dp_requestCounter st) (dp_queue st)"
    "tk_rep (dp_active st) rs" "r \<in> set rs \<Longrightarrow> active_ok (dp_riders st) r"
    "distinct (map rd_DriverID rs)" "rd_DriverID ` set rs = busy (dp_drivers st)"
    "rides_ok (dp_rideCounter st) rs (dp_history st)"
  using assms unfolding ride_inv_def by auto

lemma New_ride_inv: "ride_inv cfg (NewDispatcher cfg) []"
  using New_ds_inv tk_rep_New
  by (simp add: ride_inv_def NewDispatcher_def queue_ok_def rides_ok_def busy_def ds_NewMemoryStore_def request_order.heap_inv_def)

subsection \<open>Drivers\<close>

lemma busy_upd:
  "driversByID s' = (driversByID s)(i \<mapsto> d) \<Longrightarrow> busy s' = busy s - {i} \<union> (if dr_Status d = DriverBusy then {i} else {})"
  by (auto simp: busy_def)

lemma busy_frame:
  assumes "driversByID s' = (driversByID s)(i \<mapsto> d)" "dr_Status d = DriverBusy \<longleftrightarrow> i \<in> busy s"
  shows "busy s' = busy s"
  using busy_upd [OF assms(1)] assms(2) by auto

lemma busy_Register: "busy (snd (ds_Register dp s)) = busy s" "ds_cfg (snd (ds_Register dp s)) = ds_cfg s"
proof -
  have "busy (set_driver (d\<lparr>dr_Status := DriverOffline, dr_BlockID := b\<rparr>) s) = busy s" if "driversByID s (dr_ID d) = None" for d b
    by (rule busy_frame, simp, use that in \<open>simp add: busy_def\<close>)
  then show "busy (snd (ds_Register dp s)) = busy s" "ds_cfg (snd (ds_Register dp s)) = ds_cfg s"
    by (auto simp: ds_Register_def split: option.split)
qed

lemma busy_GoOnline:
  assumes "ds_inv s"
  shows "busy (snd (ds_GoOnline i s)) = busy s" "ds_cfg (snd (ds_GoOnline i s)) = ds_cfg s"
proof -
  have "busy (make_available d s) = busy s" "ds_cfg (make_available d s) = ds_cfg s"
    if "driversByID s i = Some d" "dr_Status d = DriverOffline" for d
    using busy_frame [OF make_available_inv(2) [OF assms that(1)]] make_available_inv(3) [OF assms that(1)] that
    by (simp_all add: busy_def)
  then show "busy (snd (ds_GoOnline i s)) = busy s" "ds_cfg (snd (ds_GoOnline i s)) = ds_cfg s"
    by (auto simp: ds_GoOnline_def split: option.split driver_status.split)
qed

lemma busy_GoOffline:
  assumes "ds_inv s"
  shows "busy (snd (ds_GoOffline i s)) = busy s" "ds_cfg (snd (ds_GoOffline i s)) = ds_cfg s"
proof -
  have "busy (make_unavailable DriverOffline d s) = busy s" "ds_cfg (make_unavailable DriverOffline d s) = ds_cfg s"
    if "driversByID s i = Some d" "dr_Status d = DriverAvailable" for d
    using busy_frame [OF make_unavailable_inv(2) [OF assms that, of DriverOffline]] make_unavailable_inv(3) [OF assms that, of DriverOffline] that
    by (simp_all add: busy_def)
  then show "busy (snd (ds_GoOffline i s)) = busy s" "ds_cfg (snd (ds_GoOffline i s)) = ds_cfg s"
    by (auto simp: ds_GoOffline_def split: option.split driver_status.split)
qed

lemma busy_UpdateLocation:
  assumes "ds_inv s"
  shows "busy (snd (ds_UpdateLocation i loc s)) = busy s" "ds_cfg (snd (ds_UpdateLocation i loc s)) = ds_cfg s"
proof -
  have "busy (snd (ds_UpdateLocation i loc s)) = busy s \<and> ds_cfg (snd (ds_UpdateLocation i loc s)) = ds_cfg s"
  proof (cases "blank i \<or> \<not> IsValidLocation loc \<or> driversByID s i = None")
    case False
    then obtain d where d: "driversByID s i = Some d" "IsValidLocation loc" by auto
    obtain s' where s': "ds_UpdateLocation i loc s = (None, s')" "ds_cfg s' = ds_cfg s"
      "driversByID s' = (driversByID s)(i \<mapsto> d\<lparr>dr_Location := loc, dr_BlockID := GetBlockID loc (CellSizeDegrees (ds_cfg s))\<rparr>)"
      using ds_UpdateLocation_eq [OF assms d] by blast
    then show ?thesis using busy_frame [OF s'(3)] d by (simp add: busy_def)
  qed (auto simp: ds_UpdateLocation_def)
  then show "busy (snd (ds_UpdateLocation i loc s)) = busy s" "ds_cfg (snd (ds_UpdateLocation i loc s)) = ds_cfg s" by simp_all
qed

lemma ride_inv_drivers:
  assumes "ride_inv cfg st rs" "ds_inv ds" "busy ds = busy (dp_drivers st)" "ds_cfg ds = ds_cfg (dp_drivers st)"
  shows "ride_inv cfg (st\<lparr>dp_drivers := ds\<rparr>) rs"
  using assms unfolding ride_inv_def by simp

subsection \<open>Riders\<close>

lemma ride_inv_riders:
  assumes "ride_inv cfg st rs" "dom (dp_riders st) \<subseteq> dom m" "\<forall>i\<in>dom m. \<not> blank i"
  shows "ride_inv cfg (st\<lparr>dp_riders := m\<rparr>) rs"
proof -
  have "m i \<noteq> None" if "dp_riders st i \<noteq> None" for i using assms(2) that by auto
  then show ?thesis using assms(1,3) unfolding ride_inv_def queue_ok_def by (auto simp: request_ok_def active_ok_def)
qed

lemma riders_step:
  assumes "\<forall>i\<in>dom m. \<not> blank i"
  shows "dom m \<subseteq> dom (snd (rs_Register rp m))" "\<forall>i\<in>dom (snd (rs_Register rp m)). \<not> blank i"
    "dom (snd (rs_UpdateLocation i loc m)) = dom m"
  using assms by (auto simp: rs_Register_def rs_UpdateLocation_def IsValidRider_def split: option.splits if_splits)

section \<open>Requests\<close>

lemma queue_ok_push:
  assumes "queue_ok riders n q" "IsValidRideRequest (Some r)" "riders (rr_RiderID r) \<noteq> None" "rr_ID r = request_id (n + 1)"
  shows "queue_ok riders (n + 1) (mh_Push request_less q r)"
proof -
  have set: "set (mh_Push request_less q r) = insert r (set q)" by (rule request_order.min_heap.push_set)
  have ms: "mset (map rr_ID (mh_Push request_less q r)) = mset (map rr_ID (r # q))"
    by (simp add: request_order.min_heap.push_mset)
  have "request_id (n + 1) \<notin> request_id ` {1..n}" by (auto simp: request_id_def dest!: pad6_inj)
  then have "rr_ID r \<notin> rr_ID ` set q" using assms(1,4) by (auto simp: queue_ok_def request_ok_def)
  then have "distinct (map rr_ID (mh_Push request_less q r))"
    using assms(1) mset_eq_imp_distinct_iff [OF ms] by (simp add: queue_ok_def)
  moreover have "request_order.heap_inv (mh_Push request_less q r)"
    using assms(1) by (intro request_order.mh_Push_inv) (simp_all add: queue_ok_def)
  moreover have "request_ok riders (n + 1) s" if "s \<in> insert r (set q)" for s
    using that assms by (auto simp: queue_ok_def request_ok_def)
  ultimately show ?thesis unfolding queue_ok_def set by blast
qed

lemma queue_ok_pop:
  assumes ok: "queue_ok riders n q" and pop: "mh_Pop request_less q = Some (r, q')"
  shows "queue_ok riders n q'" "request_ok riders n r" "mset q = add_mset r (mset q')" "\<And>s. s \<in> set q \<Longrightarrow> rr_RequestTime r \<le> rr_RequestTime s"
proof -
  have set: "set q = insert r (set q')" by (rule request_order.min_heap.pop_set [OF pop])
  show ms: "mset q = add_mset r (mset q')" by (rule mh_Pop_mset [OF pop])
  have "mset (map rr_ID q) = mset (map rr_ID (r # q'))" by (simp add: ms)
  then have "distinct (map rr_ID q')" using ok mset_eq_imp_distinct_iff [of "map rr_ID q" "map rr_ID (r # q')"] by (simp add: queue_ok_def)
  moreover have "request_order.heap_inv q'" using request_order.mh_Pop_inv [OF _ pop] ok by (simp add: queue_ok_def)
  ultimately show "queue_ok riders n q'" using ok set by (simp add: queue_ok_def)
  show "request_ok riders n r" using ok set by (simp add: queue_ok_def)
  show "rr_RequestTime r \<le> rr_RequestTime s" if "s \<in> set q" for s
    using request_order.mh_Pop_least [OF _ pop, of s] ok set that by (auto simp: queue_ok_def request_less_def)
qed

lemma queue_ok_mono: "queue_ok riders n q \<Longrightarrow> queue_ok riders (n + 1) q"
  by (force simp: queue_ok_def request_ok_def)

text \<open>The answer to a request, on every branch.\<close>

lemma RequestRide_eq:
  assumes inv: "ride_inv cfg st rs" and n: "dp_requestCounter st + 1 < 2 ^ 64"
  shows "RequestRide i p d t wall st =
    (let n = dp_requestCounter st + 1;
         q = \<lparr>rr_ID = request_id n, rr_RiderID = i, rr_Pickup = p, rr_Dropoff = d, rr_RequestTime = t\<rparr>
     in if \<not> IsValidLocation p \<or> \<not> IsValidLocation d then (Inl ErrInvalidLocation, st)
        else if p = d \<or> wall < t then (Inl ErrInvalidRideRequest, st)
        else if dp_riders st i = None then (Inl ErrRiderNotFound, st)
        else if time_IsZero t then (Inl ErrInvalidRideRequest, st\<lparr>dp_requestCounter := n\<rparr>)
        else (Inr q, st\<lparr>dp_requestCounter := n, dp_queue := mh_Push request_less (dp_queue st) q\<rparr>))"
proof -
  have "rs_Get i (dp_riders st) = (case dp_riders st i of None \<Rightarrow> Inl ErrRiderNotFound | Some r \<Rightarrow> Inr r)"
    using ride_invD(4) [OF inv, of i] by (auto simp: rs_Get_def split: option.split)
  moreover have "\<not> blank i" if "dp_riders st i \<noteq> None" using ride_invD(4) [OF inv, of i] that by blast
  ultimately show ?thesis
    using new_ids(2) [OF n] by (auto simp: RequestRide_def rq_Push_def IsValidRideRequest_def Let_def split: option.split)
qed

lemma RequestRide_inv:
  assumes inv: "ride_inv cfg st rs" and n: "dp_requestCounter st + 1 < 2 ^ 64"
  shows "ride_inv cfg (snd (RequestRide i p d t wall st)) rs"
proof -
  let ?n = "dp_requestCounter st + 1"
  let ?q = "\<lparr>rr_ID = request_id ?n, rr_RiderID = i, rr_Pickup = p, rr_Dropoff = d, rr_RequestTime = t\<rparr>"
  have zero: "ride_inv cfg (st\<lparr>dp_requestCounter := ?n\<rparr>) rs"
    using inv queue_ok_mono unfolding ride_inv_def by simp
  have "ride_inv cfg (st\<lparr>dp_requestCounter := ?n, dp_queue := mh_Push request_less (dp_queue st) ?q\<rparr>) rs"
    if c: "IsValidLocation p" "IsValidLocation d" "p \<noteq> d" "dp_riders st i \<noteq> None" "\<not> time_IsZero t"
  proof -
    have "\<not> blank i" using ride_invD(4) [OF inv, of i] c(4) by blast
    then have "IsValidRideRequest (Some ?q)" using c by (simp add: IsValidRideRequest_def)
    then have "queue_ok (dp_riders st) ?n (mh_Push request_less (dp_queue st) ?q)"
      using queue_ok_push [OF ride_invD(5) [OF inv]] c(4) by simp
    then show ?thesis using inv unfolding ride_inv_def by simp
  qed
  then show ?thesis unfolding RequestRide_eq [OF inv n] Let_def using inv zero by simp
qed

section \<open>Assignment\<close>

lemma not_negative:
  assumes "\<not> a < 0" "\<not> b < 0"
  shows "\<not> a * b < 0" "\<not> a + b < (0 :: f64)"
proof -
  have r: "\<not> round64 x < 0" if "0 \<le> x" for x using f64_zero_le_round64 [OF that] f64_not_less [of "round64 x" 0]
    by (cases "round64 x") (auto simp: zero_f64_def)
  show "\<not> a * b < 0" using assms r by (cases a; cases b) (auto simp: zero_f64_def signed_inf_def)
  show "\<not> a + b < 0" using assms r by (cases a; cases b) (auto simp: zero_f64_def)
qed

lemma assigned_ride_valid:
  assumes "ride_cfg_ok cfg" "IsValidRideRequest (Some q)" "\<not> blank i" "\<not> blank (dr_ID d)"
  shows "IsValidRide (Some (assigned_ride cosine cfg i q d now))"
proof -
  have "\<not> DistanceKm cosine a b < 0" for a b by (simp add: DistanceKm_def Let_def math_Sqrt_not_negative)
  then have "\<not> calculateFare cfg (DistanceKm cosine a b) < 0" for a b
    using assms(1) unfolding calculateFare_def ride_cfg_ok_def by (intro not_negative) simp_all
  then show ?thesis using assms(2-4) by (simp add: assigned_ride_def IsValidRide_def IsValidRideRequest_def Let_def DistanceKm_def math_Sqrt_not_negative)
qed

lemma rides_ok_add:
  assumes "rides_ok n rs h" "rd_ID r = ride_id (n + 1)"
  shows "rd_ID r \<notin> rd_ID ` set rs" "h (rd_ID r) = None" "rides_ok (n + 1) (rs @ [r]) h"
    "record_ok (rd_ID r) r \<Longrightarrow> rides_ok (n + 1) rs (h(rd_ID r \<mapsto> r))"
proof -
  have "ride_id (n + 1) \<notin> ride_id ` {1..n}" by (auto simp: ride_id_inj)
  moreover have "rd_ID ` set rs \<union> dom h = ride_id ` {1..n}" using assms(1) unfolding rides_ok_def by blast
  ultimately have new: "rd_ID r \<notin> rd_ID ` set rs \<union> dom h" using assms(2) by metis
  then show "rd_ID r \<notin> rd_ID ` set rs" "h (rd_ID r) = None" by auto
  have ids: "ride_id ` {1..n + 1} = insert (rd_ID r) (ride_id ` {1..n})"
    using assms(2) by (simp add: atLeastAtMostSuc_conv)
  show "rides_ok (n + 1) (rs @ [r]) h"
    using assms(1) new unfolding rides_ok_def ids by auto
  show "rides_ok (n + 1) rs (h(rd_ID r \<mapsto> r))" if "record_ok (rd_ID r) r"
    using assms(1) new that unfolding rides_ok_def ids by auto
qed

text \<open>The head of the queue, as \<open>Peek\<close> and \<open>Pop\<close> see it.\<close>

lemma queue_cases:
  obtains "q = []" "rq_Peek q = Inl ErrEmptyQueue" "mh_Pop request_less q = None"
  | r q' where "q \<noteq> []" "rq_Peek q = Inr r" "rq_Pop q = Inr (r, q')" "mh_Pop request_less q = Some (r, q')"
proof (cases "mh_Pop request_less q")
  case None
  then show ?thesis using that(1) by (simp add: rq_Peek_def mh_Peek_def)
next
  case (Some p)
  obtain r q' where p: "mh_Pop request_less q = Some (r, q')" using Some by (cases p) auto
  have "q \<noteq> []" "r = hd q" using request_order.mh_Pop_hd [OF p] by auto
  then have "rq_Peek q = Inr r" by (simp add: rq_Peek_def mh_Peek_def hd_conv_nth)
  then show ?thesis using that(2) \<open>q \<noteq> []\<close> p by (simp add: rq_Pop_def)
qed

text \<open>What processing the request \<open>q\<close> at the head, which leaves \<open>q'\<close>, does on each branch.\<close>

lemma Process_empty: "dp_queue st = [] \<Longrightarrow> ProcessNextRequest cosine order now st = (Inl ErrEmptyQueue, st)"
  by (simp add: ProcessNextRequest_def rq_Peek_def mh_Peek_def)

lemma Process_expired:
  assumes inv: "ride_inv cfg st rs" and n: "dp_rideCounter st + 1 < 2 ^ 64"
    and pop: "mh_Pop request_less (dp_queue st) = Some (q, q')" and old: "isRequestExpired cfg q now"
  defines "r \<equiv> cancelled_ride (ride_id (dp_rideCounter st + 1)) q now"
  defines "st' \<equiv> st\<lparr>dp_queue := q', dp_rideCounter := dp_rideCounter st + 1, dp_history := (dp_history st)(rd_ID r \<mapsto> r)\<rparr>"
  shows "ProcessNextRequest cosine order now st = (Inl ErrRideRequestExpired, st')" "ride_inv cfg st' rs"
proof -
  note I = ride_invD [OF inv]
  have peek: "rq_Peek (dp_queue st) = Inr q" "rq_Pop (dp_queue st) = Inr (q, q')"
    using pop by (cases "dp_queue st" rule: queue_cases; simp)+
  have q: "request_ok (dp_riders st) (dp_requestCounter st) q" using queue_ok_pop(2) [OF I(5) pop] .
  have r: "rd_ID r = ride_id (dp_rideCounter st + 1)" "rd_Status r = RideCancelled" by (simp_all add: r_def cancelled_ride_def)
  have valid: "IsValidRide (Some r)"
    using q by (simp add: r_def cancelled_ride_def request_ok_def IsValidRideRequest_def IsValidRide_def)
  have new: "dp_history st (rd_ID r) = None" "rides_ok (dp_rideCounter st + 1) rs ((dp_history st)(rd_ID r \<mapsto> r))"
    using rides_ok_add(2,4) [OF I(10) r(1)] valid r by (simp_all add: record_ok_def)
  have save: "hs_Save (Some r) (dp_history st) = (None, (dp_history st)(rd_ID r \<mapsto> r))" using valid new by (simp add: hs_Save_def)
  show "ProcessNextRequest cosine order now st = (Inl ErrRideRequestExpired, st')"
    using peek old save I(1) new_ids(1) [OF n] by (simp add: ProcessNextRequest_def cancel_expired_def r_def st'_def)
  show "ride_inv cfg st' rs" using inv new(2) queue_ok_pop(1) [OF I(5) pop] unfolding ride_inv_def st'_def by simp
qed

lemma Process_waiting:
  assumes "ride_inv cfg st rs" "mh_Pop request_less (dp_queue st) = Some (q, q')" "\<not> isRequestExpired cfg q now"
    "FindNearestAvailable cosine order (rr_Pickup q) (MaxPickupDistanceKm cfg) (dp_drivers st) = Inl e"
  shows "ProcessNextRequest cosine order now st = (Inl ErrNoDriverAvailable, st)"
proof -
  have "rq_Peek (dp_queue st) = Inr q" using assms(2) by (cases "dp_queue st" rule: queue_cases) simp_all
  then show ?thesis using assms(3,4) ride_invD(1) [OF assms(1)] by (simp add: ProcessNextRequest_def)
qed

text \<open>The state after the assignment of driver \<open>d\<close> to ride \<open>r\<close>.\<close>

definition assigned_state :: "dispatcher \<Rightarrow> ride_request list \<Rightarrow> driver \<Rightarrow> ride list \<Rightarrow> ride \<Rightarrow> dispatcher \<Rightarrow> bool" where
  "assigned_state st q' d rs r st' \<longleftrightarrow>
     driversByID (dp_drivers st') = (driversByID (dp_drivers st))(dr_ID d \<mapsto> d\<lparr>dr_Status := DriverBusy\<rparr>)
     \<and> tk_rep (dp_active st') (rs @ [r]) \<and> dp_queue st' = q' \<and> dp_rideCounter st' = dp_rideCounter st + 1
     \<and> dp_riders st' = dp_riders st \<and> dp_history st' = dp_history st \<and> dp_requestCounter st' = dp_requestCounter st"

lemma Process_assigned:
  assumes inv: "ride_inv cfg st rs" and cfg: "ride_cfg_ok cfg" and n: "dp_rideCounter st + 1 < 2 ^ 64"
    and pop: "mh_Pop request_less (dp_queue st) = Some (q, q')" and young: "\<not> isRequestExpired cfg q now"
    and near: "FindNearestAvailable cosine order (rr_Pickup q) (MaxPickupDistanceKm cfg) (dp_drivers st) = Inr (d, k)"
    and d: "driversByID (dp_drivers st) (dr_ID d) = Some d" "dr_Status d = DriverAvailable"
  defines "r \<equiv> assigned_ride cosine cfg (ride_id (dp_rideCounter st + 1)) q d now"
  shows "\<exists>st'. ProcessNextRequest cosine order now st = (Inr r, st') \<and> assigned_state st q' d rs r st' \<and> ride_inv cfg st' (rs @ [r])"
proof -
  note I = ride_invD [OF inv]
  have peek: "rq_Peek (dp_queue st) = Inr q" "rq_Pop (dp_queue st) = Inr (q, q')"
    using pop by (cases "dp_queue st" rule: queue_cases; simp)+
  have q: "request_ok (dp_riders st) (dp_requestCounter st) q" using queue_ok_pop(2) [OF I(5) pop] .
  have r: "rd_ID r = ride_id (dp_rideCounter st + 1)" "rd_Status r = RideAssigned" "rd_DriverID r = dr_ID d" "rd_RiderID r = rr_RiderID q"
    by (simp_all add: r_def assigned_ride_def Let_def)
  have dok: "\<not> blank (dr_ID d)" using ds_invD(2) [OF I(3) d(1)] by (simp add: driver_ok_def)
  have valid: "IsValidRide (Some r)"
    unfolding r_def using q dok by (intro assigned_ride_valid [OF cfg]) (simp_all add: request_ok_def)
  have new: "rd_ID r \<notin> rd_ID ` set rs" "rides_ok (dp_rideCounter st + 1) (rs @ [r]) (dp_history st)"
    using rides_ok_add(1,3) [OF I(10) r(1)] by simp_all
  obtain t' where add: "tk_Add (Some r) (dp_active st) = (None, t')" "tk_rep t' (rs @ [r])"
    using tk_Add_rep [OF I(6) valid new(1)] by blast
  obtain ds where ds: "ds_Assign (dr_ID d) (dp_drivers st) = (None, ds)" "ds_inv ds" "ds_cfg ds = ds_cfg (dp_drivers st)"
    "driversByID ds = (driversByID (dp_drivers st))(dr_ID d \<mapsto> d\<lparr>dr_Status := DriverBusy\<rparr>)"
    using ds_Assign_eq [OF I(3) d] by blast
  let ?st = "st\<lparr>dp_drivers := ds, dp_queue := q', dp_rideCounter := dp_rideCounter st + 1, dp_active := t'\<rparr>"
  have "ProcessNextRequest cosine order now st = (Inr r, ?st)"
    using peek young near ds(1) add(1) I(1) new_ids(1) [OF n] by (simp add: ProcessNextRequest_def r_def)
  moreover have "assigned_state st q' d rs r ?st" using ds(4) add(2) by (simp add: assigned_state_def)
  moreover have "busy ds = insert (dr_ID d) (busy (dp_drivers st))" "dr_ID d \<notin> busy (dp_drivers st)"
    using busy_upd [OF ds(4)] d by (auto simp: busy_def)
  then have "distinct (map rd_DriverID (rs @ [r]))" "rd_DriverID ` set (rs @ [r]) = busy ds"
    using I(8,9) r(3) by auto
  moreover have "active_ok (dp_riders st) s" if "s \<in> set (rs @ [r])" for s
    using that I(7) valid q r by (auto simp: active_ok_def request_ok_def)
  ultimately show ?thesis
    using inv ds(2,3) add(2) new(2) queue_ok_pop(1) [OF I(5) pop] unfolding ride_inv_def
    by (intro exI [of _ ?st]) (simp only: dispatcher.simps, simp)
qed

section \<open>Completion\<close>

lemma image_filter_key:
  assumes "inj_on f S" "inj_on g S" "r \<in> S"
  shows "f ` {s \<in> S. g s \<noteq> g r} = f ` S - {f r}"
proof -
  have "{s \<in> S. g s \<noteq> g r} = S - {r}" using assms(2,3) by (auto simp: inj_on_def)
  then show ?thesis using inj_on_image_set_diff [OF assms(1), of S "{r}"] assms(3) by simp
qed

lemma rides_ok_move:
  assumes ok: "rides_ok n rs h" and r: "r \<in> set rs" and r': "rd_ID r' = rd_ID r" "record_ok (rd_ID r) r'"
  shows "h (rd_ID r) = None" "rides_ok n (filter (\<lambda>s. rd_ID s \<noteq> rd_ID r) rs) (h(rd_ID r \<mapsto> r'))"
proof -
  let ?rs = "filter (\<lambda>s. rd_ID s \<noteq> rd_ID r) rs"
  have O: "distinct (map rd_ID rs)" "rd_ID ` set rs \<union> dom h = ride_id ` {1..n}" "rd_ID ` set rs \<inter> dom h = {}"
    "\<And>i s. h i = Some s \<Longrightarrow> record_ok i s"
    using ok by (auto simp: rides_ok_def)
  have img: "rd_ID ` set ?rs = rd_ID ` set rs - {rd_ID r}" by auto
  have "rd_ID r \<in> rd_ID ` set rs" using r by blast
  then show "h (rd_ID r) = None" using O(3) by auto
  have "rd_ID ` set ?rs \<union> dom (h(rd_ID r \<mapsto> r')) = ride_id ` {1..n}"
    using O(2) \<open>rd_ID r \<in> rd_ID ` set rs\<close> unfolding img by auto
  moreover have "rd_ID ` set ?rs \<inter> dom (h(rd_ID r \<mapsto> r')) = {}" using O(3) unfolding img by auto
  moreover have "distinct (map rd_ID ?rs)" using O(1) by (simp add: distinct_map_filter)
  moreover have "record_ok i s" if "(h(rd_ID r \<mapsto> r')) i = Some s" for i s using that O(4) r'(2) by (auto split: if_splits)
  ultimately show "rides_ok n ?rs (h(rd_ID r \<mapsto> r'))" unfolding rides_ok_def by blast
qed

text \<open>The state after ride \<open>r\<close> of driver \<open>d\<close> and rider \<open>p\<close> has been completed as \<open>r'\<close>.\<close>

definition completed_state :: "dispatcher \<Rightarrow> ride list \<Rightarrow> ride \<Rightarrow> ride \<Rightarrow> driver \<Rightarrow> rider \<Rightarrow> dispatcher \<Rightarrow> bool" where
  "completed_state st rs r r' d p st' \<longleftrightarrow>
     driversByID (dp_drivers st') = (driversByID (dp_drivers st))(rd_DriverID r \<mapsto>
       d\<lparr>dr_Location := rd_Dropoff r, dr_BlockID := GetBlockID (rd_Dropoff r) (CellSizeDegrees (dp_cfg st)),
         dr_RideHistory := dr_RideHistory d @ [rd_ID r], dr_Status := DriverAvailable\<rparr>)
     \<and> dp_riders st' = (dp_riders st)(rd_RiderID r \<mapsto> p\<lparr>ri_RideHistory := ri_RideHistory p @ [rd_ID r]\<rparr>)
     \<and> dp_history st' = (dp_history st)(rd_ID r \<mapsto> r')
     \<and> tk_rep (dp_active st') (filter (\<lambda>s. rd_ID s \<noteq> rd_ID r) rs)
     \<and> dp_queue st' = dp_queue st \<and> dp_rideCounter st' = dp_rideCounter st \<and> dp_requestCounter st' = dp_requestCounter st"

text \<open>The four updates of the stores, none of which fails.\<close>

lemma finish_ride_eq:
  assumes inv: "ds_inv (dp_drivers st)"
    and d: "driversByID (dp_drivers st) (rd_DriverID r) = Some d" "dr_Status d = DriverBusy"
    and p: "dp_riders st (rd_RiderID r) = Some p" "\<not> blank (rd_RiderID r)"
    and r: "IsValidLocation (rd_Dropoff r)" "\<not> blank (rd_ID r)"
  shows "\<exists>ds. finish_ride r st = (Inr r, st\<lparr>dp_drivers := ds,
       dp_riders := (dp_riders st)(rd_RiderID r \<mapsto> p\<lparr>ri_RideHistory := ri_RideHistory p @ [rd_ID r]\<rparr>)\<rparr>)
    \<and> ds_inv ds \<and> ds_cfg ds = ds_cfg (dp_drivers st)
    \<and> driversByID ds = (driversByID (dp_drivers st))(rd_DriverID r \<mapsto>
       d\<lparr>dr_Location := rd_Dropoff r, dr_BlockID := GetBlockID (rd_Dropoff r) (CellSizeDegrees (ds_cfg (dp_drivers st))),
         dr_RideHistory := dr_RideHistory d @ [rd_ID r], dr_Status := DriverAvailable\<rparr>)"
proof -
  let ?d1 = "d\<lparr>dr_Location := rd_Dropoff r, dr_BlockID := GetBlockID (rd_Dropoff r) (CellSizeDegrees (ds_cfg (dp_drivers st)))\<rparr>"
  let ?d2 = "?d1\<lparr>dr_RideHistory := dr_RideHistory d @ [rd_ID r]\<rparr>"
  obtain s1 where s1: "ds_UpdateLocation (rd_DriverID r) (rd_Dropoff r) (dp_drivers st) = (None, s1)" "ds_inv s1"
    "ds_cfg s1 = ds_cfg (dp_drivers st)" "driversByID s1 = (driversByID (dp_drivers st))(rd_DriverID r \<mapsto> ?d1)"
    using ds_UpdateLocation_eq [OF inv d(1) r(1)] by blast
  have "driversByID s1 (rd_DriverID r) = Some ?d1" by (simp add: s1(4))
  from ds_AddRideToHistory_eq [OF s1(2) this r(2)]
  obtain s2 where s2: "ds_AddRideToHistory (rd_DriverID r) (rd_ID r) s1 = (None, s2)" "ds_inv s2" "ds_cfg s2 = ds_cfg s1"
    "driversByID s2 = (driversByID s1)(rd_DriverID r \<mapsto> ?d2)" by auto
  have d2: "driversByID s2 (rd_DriverID r) = Some ?d2" "dr_Status ?d2 = DriverBusy" using d(2) by (simp_all add: s2(4))
  from ds_Release_eq [OF s2(2) d2]
  obtain s3 where s3: "ds_Release (rd_DriverID r) s2 = (None, s3)" "ds_inv s3" "ds_cfg s3 = ds_cfg s2"
    "driversByID s3 = (driversByID s2)(rd_DriverID r \<mapsto> ?d2\<lparr>dr_Status := DriverAvailable\<rparr>)" by auto
  have rider: "rs_AddRideToHistory (rd_RiderID r) (rd_ID r) (dp_riders st) =
      (None, (dp_riders st)(rd_RiderID r \<mapsto> p\<lparr>ri_RideHistory := ri_RideHistory p @ [rd_ID r]\<rparr>))"
    using p r(2) by (simp add: rs_AddRideToHistory_def)
  show ?thesis
    using s1 s2 s3 rider by (intro exI [of _ s3]) (simp add: finish_ride_def)
qed

lemma Complete_eq:
  fixes t :: gotime
  assumes inv: "ride_inv cfg st rs" and r: "r \<in> set rs"
  defines "r' \<equiv> r\<lparr>rd_Status := RideCompleted, rd_EndTime := t\<rparr>"
  shows "\<exists>st' d p. CompleteRide (rd_ID r) t st = Some (Inr r', st')
    \<and> driversByID (dp_drivers st) (rd_DriverID r) = Some d \<and> dr_Status d = DriverBusy
    \<and> dp_riders st (rd_RiderID r) = Some p
    \<and> completed_state st rs r r' d p st' \<and> ride_inv cfg st' (filter (\<lambda>s. rd_ID s \<noteq> rd_ID r) rs)"
proof -
  note I = ride_invD [OF inv]
  let ?rs = "filter (\<lambda>s. rd_ID s \<noteq> rd_ID r) rs"
  have act: "IsValidRide (Some r)" "dp_riders st (rd_RiderID r) \<noteq> None" using I(7) [OF r] by (simp_all add: active_ok_def)
  obtain d where d: "driversByID (dp_drivers st) (rd_DriverID r) = Some d" "dr_Status d = DriverBusy"
    using I(9) r by (auto simp: busy_def)
  obtain p where p: "dp_riders st (rd_RiderID r) = Some p" using act(2) by blast
  have blanks: "\<not> blank (rd_ID r)" "\<not> blank (rd_RiderID r)" "IsValidLocation (rd_Dropoff r)" using act(1) by (simp_all add: IsValidRide_def)
  have valid: "IsValidRide (Some r')"
    using act(1) I(7) [OF r] by (auto simp: IsValidRide_def r'_def active_ok_def)
  obtain t' where rm: "tk_Remove (rd_ID r) (dp_active st) = Some (Inr r, t')" "tk_rep t' ?rs"
    using tk_Remove_rep [OF I(6) r blanks(1)] by blast
  have r': "rd_ID r' = rd_ID r" "rd_DriverID r' = rd_DriverID r" "rd_RiderID r' = rd_RiderID r" "rd_Dropoff r' = rd_Dropoff r"
    by (simp_all add: r'_def)
  have "record_ok (rd_ID r) r'" using valid r'(1) by (simp add: record_ok_def r'_def)
  note move = rides_ok_move [OF I(10) r r'(1) this]
  have save: "hs_Save (Some r') (dp_history st) = (None, (dp_history st)(rd_ID r \<mapsto> r'))"
    using valid move(1) r'(1) by (simp add: hs_Save_def)
  let ?st1 = "st\<lparr>dp_active := t', dp_history := (dp_history st)(rd_ID r \<mapsto> r')\<rparr>"
  let ?m = "(dp_riders st)(rd_RiderID r \<mapsto> p\<lparr>ri_RideHistory := ri_RideHistory p @ [rd_ID r]\<rparr>)"
  obtain ds where ds: "finish_ride r' ?st1 = (Inr r', ?st1\<lparr>dp_drivers := ds, dp_riders := ?m\<rparr>)" "ds_inv ds" "ds_cfg ds = ds_cfg (dp_drivers st)"
    "driversByID ds = (driversByID (dp_drivers st))(rd_DriverID r \<mapsto>
       d\<lparr>dr_Location := rd_Dropoff r, dr_BlockID := GetBlockID (rd_Dropoff r) (CellSizeDegrees (ds_cfg (dp_drivers st))),
         dr_RideHistory := dr_RideHistory d @ [rd_ID r], dr_Status := DriverAvailable\<rparr>)"
    using finish_ride_eq [of ?st1 r' d p] I(3) d p blanks r' by auto
  let ?st = "?st1\<lparr>dp_drivers := ds, dp_riders := ?m\<rparr>"
  have complete: "CompleteRide (rd_ID r) t st = Some (Inr r', ?st)"
    using rm(1) save ds(1) by (simp add: CompleteRide_def Let_def r'_def [symmetric])
  have state: "completed_state st rs r r' d p ?st" using ds(4) rm(2) I(1,2) by (simp add: completed_state_def)
  have "busy ds = busy (dp_drivers st) - {rd_DriverID r}" using busy_upd [OF ds(4)] by simp
  moreover have "rd_DriverID ` set ?rs = rd_DriverID ` set rs - {rd_DriverID r}"
    using image_filter_key [of rd_DriverID "set rs" rd_ID r] I(8) tk_rep_distinct [OF I(6)] r by (simp add: distinct_map)
  ultimately have drivers: "distinct (map rd_DriverID ?rs)" "rd_DriverID ` set ?rs = busy ds"
    using I(8,9) by (simp_all add: distinct_map_filter)
  have known: "?m i = None \<longleftrightarrow> dp_riders st i = None" for i using p by simp
  then have riders: "queue_ok ?m n q = queue_ok (dp_riders st) n q" "active_ok ?m s = active_ok (dp_riders st) s" for n q s
    by (simp_all only: queue_ok_def request_ok_def active_ok_def)
  have "dom ?m = dom (dp_riders st)" using p by auto
  then have "ride_inv cfg ?st ?rs"
    using inv ds(2,3) drivers rm(2) move(2) unfolding ride_inv_def by (simp del: dom_fun_upd add: riders)
  then show ?thesis using complete state d p by blast
qed

lemma Complete_absent:
  assumes "ride_inv cfg st rs" "i \<notin> rd_ID ` set rs"
  shows "CompleteRide i t st = Some (Inl ErrRideNotFound, st)"
  using tk_Remove_absent(1) [OF ride_invD(6) [OF assms(1)]] assms(2) by (simp add: CompleteRide_def)

section \<open>Reachable states\<close>

lemma FindNearest_reach:
  assumes "ride_inv cfg st rs" "ride_cfg_ok cfg" "cos_ok cosine" "visits order (dp_drivers st)" "IsValidLocation loc"
  shows "nearest_spec cosine loc (MaxPickupDistanceKm cfg) (dp_drivers st)
    (FindNearestAvailable cosine order loc (MaxPickupDistanceKm cfg) (dp_drivers st))"
  using FindNearest_least [OF ride_invD(3) [OF assms(1)] assms(4,3,5)] assms(2) by (simp add: ride_cfg_ok_def)

lemma nearest_spec_Inr:
  assumes "nearest_spec cosine loc maxKm s (Inr (d, k))"
  shows "driversByID s (dr_ID d) = Some d" "dr_Status d = DriverAvailable"
  using assms by (simp_all add: nearest_spec_def Let_def in_reach_def)

lemma Process_inv:
  assumes inv: "ride_inv cfg st rs" and cfg: "ride_cfg_ok cfg" and cos: "cos_ok cosine" and ord: "visits order (dp_drivers st)"
    and n: "dp_rideCounter st + 1 < 2 ^ 64"
  shows "\<exists>rs'. ride_inv cfg (snd (ProcessNextRequest cosine order now st)) rs'"
proof (cases "dp_queue st" rule: queue_cases)
  case 1
  then show ?thesis using Process_empty [of st] inv by auto
next
  case (2 q q')
  show ?thesis
  proof (cases "isRequestExpired cfg q now")
    case True
    then show ?thesis using Process_expired [OF inv n 2(4)] by fastforce
  next
    case False
    have loc: "IsValidLocation (rr_Pickup q)"
      using queue_ok_pop(2) [OF ride_invD(5) [OF inv] 2(4)] by (simp add: request_ok_def IsValidRideRequest_def)
    note spec = FindNearest_reach [OF inv cfg cos ord loc]
    show ?thesis
    proof (cases "FindNearestAvailable cosine order (rr_Pickup q) (MaxPickupDistanceKm cfg) (dp_drivers st)")
      case (Inl e)
      then show ?thesis using Process_waiting [OF inv 2(4) False] inv by auto
    next
      case (Inr dk)
      obtain d k where dk: "dk = (d, k)" by fastforce
      note d = nearest_spec_Inr [OF spec [unfolded Inr dk]]
      from Process_assigned [OF inv cfg n 2(4) False Inr [unfolded dk] d]
      show ?thesis by auto
    qed
  qed
qed

lemma ride_step_inv:
  assumes inv: "ride_inv cfg st rs" and cfg: "ride_cfg_ok cfg" and cos: "cos_ok cosine"
    and n: "dp_rideCounter st + 1 < 2 ^ 64" "dp_requestCounter st + 1 < 2 ^ 64" and step: "ride_step cosine st st'"
  shows "\<exists>rs'. ride_inv cfg st' rs'"
proof -
  have D: "ds_inv (dp_drivers st)" and R: "\<forall>i\<in>dom (dp_riders st). \<not> blank i" using ride_invD(3,4) [OF inv] by auto
  show ?thesis
    using step
  proof cases
    case (complete i t r)
    show ?thesis
    proof (cases "i \<in> rd_ID ` set rs")
      case True
      then obtain s where "s \<in> set rs" "i = rd_ID s" by blast
      then show ?thesis using Complete_eq [OF inv, of s t] complete by auto
    next
      case False
      then show ?thesis using Complete_absent [OF inv False, of t] complete inv by auto
    qed
  next
    case (process order now)
    then show ?thesis using Process_inv [OF inv cfg cos _ n(1)] by blast
  next
    case (request i p d t wall)
    then show ?thesis using RequestRide_inv [OF inv n(2)] by blast
  next
    case (register_driver dp)
    then show ?thesis using ride_inv_drivers [OF inv ds_Register_inv [OF D] busy_Register] by blast
  next
    case (go_online i)
    then show ?thesis using ride_inv_drivers [OF inv ds_status_inv(1) [OF D] busy_GoOnline [OF D]] by blast
  next
    case (go_offline i)
    then show ?thesis using ride_inv_drivers [OF inv ds_status_inv(2) [OF D] busy_GoOffline [OF D]] by blast
  next
    case (move_driver i loc)
    then show ?thesis using ride_inv_drivers [OF inv ds_UpdateLocation_inv [OF D] busy_UpdateLocation [OF D]] by blast
  next
    case (register_rider rp)
    then show ?thesis using ride_inv_riders [OF inv riders_step(1,2) [OF R]] by blast
  next
    case (move_rider i loc)
    have "dom (dp_riders st) \<subseteq> dom (snd (rs_UpdateLocation i loc (dp_riders st)))"
      "\<forall>k\<in>dom (snd (rs_UpdateLocation i loc (dp_riders st))). \<not> blank k"
      using riders_step(3) [OF R, of i loc] R by simp_all
    then show ?thesis using move_rider ride_inv_riders [OF inv] by blast
  qed
qed

lemma reachable_inv: "ride_reachable cosine cfg st \<Longrightarrow> ride_cfg_ok cfg \<Longrightarrow> cos_ok cosine \<Longrightarrow> \<exists>rs. ride_inv cfg st rs"
proof (induction rule: ride_reachable.induct)
  case start
  then show ?case using New_ride_inv by blast
next
  case (step st st')
  then show ?case using ride_step_inv by blast
qed

end
