(* ===== verification/Ride_Coverage.thy ===== *)
theory Ride_Coverage
  imports Ride_Inv
begin

text \<open>
  Which drivers the searched cells cover: with the default configuration, every driver whose
  computed distance is at most 5 km, as long as the longitudes differ by less than 0.05 degrees;
  and that they do wherever the cosine of the latitude is at least 0.91.
\<close>

section \<open>Rounding errors\<close>

lemma round64_near:
  assumes "\<bar>x\<bar> \<le> 1048576"
  obtains y where "round64 x = Fin y" "\<bar>y - x\<bar> \<le> 1 / 1048576"
proof -
  define n where "n = \<lfloor>x * 1048576\<rfloor>"
  have p: "pow2 (- 20) = 1 / 1048576" by (simp add: pow2_def)
  have n: "of_int n \<le> x * 1048576" "x * 1048576 < of_int n + 1" unfolding n_def by linarith+
  have "\<bar>x * 1048576\<bar> \<le> 1048576 * 1048576" using assms by (simp add: abs_mult)
  then have "of_int n \<le> (of_int 1099511627776 :: rat)" "(of_int (- 1099511627777) :: rat) \<le> of_int n" using n by simp_all
  then have "n \<le> 1099511627776" "- 1099511627777 \<le> n" by (simp_all only: of_int_le_iff)
  then have m: "\<bar>n\<bar> \<le> 2 ^ 53" "\<bar>n + 1\<bar> \<le> 2 ^ 53" by simp_all
  have "of_int n * pow2 (- 20) \<le> x" "x \<le> of_int (n + 1) * pow2 (- 20)" using n by (simp_all add: p field_simps)
  then have "Fin (of_int n * pow2 (- 20)) \<le> round64 x" "round64 x \<le> Fin (of_int (n + 1) * pow2 (- 20))"
    using round64_le [of "of_int n * pow2 (- 20)" x] round64_le [of x "of_int (n + 1) * pow2 (- 20)"]
      round64_dyadic [OF m(1), of "- 20"] round64_dyadic [OF m(2), of "- 20"] by simp_all
  then obtain y where y: "round64 x = Fin y" "of_int n * pow2 (- 20) \<le> y" "y \<le> of_int (n + 1) * pow2 (- 20)"
    by (cases "round64 x") auto
  moreover have "of_int n * pow2 (- 20) = of_int n / 1048576" "of_int (n + 1) * pow2 (- 20) = of_int n / 1048576 + (1 / 1048576 :: rat)"
    by (simp_all add: p add_divide_distrib)
  moreover have "of_int n / 1048576 \<le> x" "x \<le> of_int n / 1048576 + 1 / 1048576" using n by (simp_all add: field_simps)
  ultimately have "y - x \<le> 1 / 1048576" "- (1 / 1048576) \<le> y - x" by linarith+
  then have "\<bar>y - x\<bar> \<le> 1 / 1048576" by linarith
  then show thesis using that y(1) by blast
qed

lemma isqrt_le: "isqrt n * isqrt n \<le> n"
proof (induction n rule: isqrt.induct)
  case (1 n)
  show ?case
  proof (cases "n = 0")
    case False
    have "4 * (isqrt (n div 4) * isqrt (n div 4)) \<le> n" using 1 [OF False] by linarith
    then show ?thesis using False by (subst (1 2) isqrt.simps) (simp add: Let_def algebra_simps)
  qed (simp add: isqrt.simps)
qed

lemma isqrt_less: "n < (isqrt n + 1) * (isqrt n + 1)"
proof (induction n rule: isqrt.induct)
  case (1 n)
  show ?case
  proof (cases "n = 0")
    case False
    let ?t = "isqrt (n div 4)"
    have "n div 4 + 1 \<le> (?t + 1) * (?t + 1)" using 1 [OF False] by linarith
    then have "n < 4 * ((?t + 1) * (?t + 1))" by linarith
    then show ?thesis using False by (subst (1 2) isqrt.simps) (simp add: Let_def algebra_simps)
  qed (simp add: isqrt.simps)
qed

lemma math_Sqrt_above_5:
  assumes "101 / 4 \<le> q" "q \<le> pow2 40"
  shows "\<not> math_Sqrt (Fin q) \<le> Fin 5"
proof -
  have q: "0 < q" using assms(1) by linarith
  define e where "e = ilog2 q div 2 - 60"
  define s where "s = q * pow2 (- 2 * e)"
  define r where "r = int (isqrt (nat \<lfloor>s\<rfloor>))"
  define m where "m = (if of_int (r * r) = s then of_int r else of_int r + 1 / 2 :: rat)"
  have sqrt: "math_Sqrt (Fin q) = round64 (m * pow2 e)"
    using q by (simp add: math_Sqrt_def Let_def e_def s_def r_def m_def)
  have "pow2 (ilog2 q) < pow2 41" using ilog2_bounds(1) [OF q] assms(2) pow2_less_iff [of 40 41] by linarith
  then have "e \<le> - 40" by (simp add: pow2_less_iff e_def)
  then have "pow2 e \<le> pow2 (- 40)" by (rule pow2_mono)
  then have e: "pow2 e \<le> 1 / 1000" by (simp add: pow2_def)
  have "0 \<le> s" using q by (simp add: s_def)
  then have "int (nat \<lfloor>s\<rfloor>) = \<lfloor>s\<rfloor>" by simp
  moreover have "int (nat \<lfloor>s\<rfloor>) < int ((isqrt (nat \<lfloor>s\<rfloor>) + 1) * (isqrt (nat \<lfloor>s\<rfloor>) + 1))" using isqrt_less by (simp only: of_nat_less_iff)
  ultimately have "\<lfloor>s\<rfloor> + 1 \<le> (r + 1) * (r + 1)" by (simp add: r_def algebra_simps)
  then have "(of_int (\<lfloor>s\<rfloor> + 1) :: rat) \<le> of_int ((r + 1) * (r + 1))" by (simp only: of_int_le_iff)
  then have sr: "s \<le> (of_int r + 1) * (of_int r + 1)" 
  proof -
    have "(of_int ((r + 1) * (r + 1)) :: rat) = (of_int r + 1) * (of_int r + 1)" by simp
    moreover have "s < of_int (\<lfloor>s\<rfloor> + 1)" by linarith
    ultimately show ?thesis using \<open>of_int (\<lfloor>s\<rfloor> + 1) \<le> of_int ((r + 1) * (r + 1))\<close> by linarith
  qed
  define t where "t = (of_int r + 1) * pow2 e"
  have "s * pow2 (2 * e) = q" using pow2_add [of "- 2 * e" "2 * e"] by (simp add: s_def)
  moreover have "s * pow2 (2 * e) \<le> (of_int r + 1) * (of_int r + 1) * pow2 (2 * e)" using sr by (intro mult_right_mono) simp_all
  moreover have "(of_int r + 1) * (of_int r + 1) * pow2 (2 * e) = t * t" using pow2_add [of e e] by (simp add: t_def algebra_simps)
  ultimately have tt: "101 / 4 \<le> t * t" using assms(1) by linarith
  have t0: "0 \<le> t" by (simp add: t_def r_def)
  have "502 / 100 \<le> t"
  proof (rule ccontr)
    assume "\<not> 502 / 100 \<le> t"
    then have "t * t \<le> 502 / 100 * (502 / 100)" using t0 by (intro mult_mono) linarith+
    then show False using tt by simp
  qed
  moreover have "t - pow2 e \<le> m * pow2 e" by (simp add: t_def m_def algebra_simps)
  ultimately have "of_int 641 * pow2 (- 7) \<le> m * pow2 e" using e by (simp add: pow2_def)
  then have "Fin (of_int 641 * pow2 (- 7)) \<le> round64 (m * pow2 e)"
    using round64_le [of "of_int 641 * pow2 (- 7)"] round64_dyadic [of 641 "- 7"] by simp
  moreover have "pow2 (- 7) = 1 / 128" by (simp add: pow2_def)
  ultimately show ?thesis unfolding sqrt by (cases "round64 (m * pow2 e)") auto
qed

section \<open>What a distance of at most 5 km means\<close>

lemma far_square:
  assumes "504 / 100 \<le> \<bar>y\<bar>" "\<bar>y\<bar> \<le> 40000"
  obtains w where "Fin y * Fin y = Fin w" "101 / 4 \<le> w" "w \<le> 1600000000"
proof -
  have p: "pow2 (- 2) = 1 / 4" by (simp add: pow2_def)
  have "504 / 100 * (504 / 100) \<le> \<bar>y\<bar> * \<bar>y\<bar>" "\<bar>y\<bar> * \<bar>y\<bar> \<le> 40000 * 40000" using assms by (intro mult_mono; simp)+
  then have yy: "of_int 101 * pow2 (- 2) \<le> y * y" "y * y \<le> of_int 1600000000" by (simp_all add: p)
  then have "Fin (of_int 101 * pow2 (- 2)) \<le> round64 (y * y)" "round64 (y * y) \<le> Fin (of_int 1600000000)"
    using round64_le [OF yy(1)] round64_le [OF yy(2)] round64_dyadic [of 101 "- 2"] round64_int [of 1600000000] by simp_all
  then show thesis using that by (cases "round64 (y * y)") (auto simp: p)
qed

lemma any_square:
  assumes "\<bar>y\<bar> \<le> 40000"
  obtains w where "Fin y * Fin y = Fin w" "0 \<le> w" "w \<le> 1600000000"
proof -
  have "\<bar>y\<bar> * \<bar>y\<bar> \<le> 40000 * 40000" using assms by (intro mult_mono) simp_all
  then have "of_int 0 \<le> y * y" "y * y \<le> of_int 1600000000" by simp_all
  from round64_int_bounds [OF this] show thesis using that by auto
qed

lemma far_is_far:
  assumes "504 / 100 \<le> \<bar>x\<bar> \<or> 504 / 100 \<le> \<bar>y\<bar>" "\<bar>x\<bar> \<le> 40000" "\<bar>y\<bar> \<le> 40000"
  shows "\<not> math_Sqrt (Fin x * Fin x + Fin y * Fin y) \<le> Fin 5"
proof -
  obtain v w where vw: "Fin x * Fin x = Fin v" "Fin y * Fin y = Fin w" "101 / 4 \<le> v + w" "v + w \<le> 3200000000"
  proof (cases "504 / 100 \<le> \<bar>x\<bar>")
    case True
    obtain v where "Fin x * Fin x = Fin v" "101 / 4 \<le> v" "v \<le> 1600000000" using far_square [OF True assms(2)] .
    moreover obtain w where "Fin y * Fin y = Fin w" "0 \<le> w" "w \<le> 1600000000" using any_square [OF assms(3)] .
    moreover have "101 / 4 \<le> v + w" "v + w \<le> 3200000000" using calculation by linarith+
    ultimately show ?thesis using that by blast
  next
    case False
    then have "504 / 100 \<le> \<bar>y\<bar>" using assms(1) by simp
    obtain w where w: "Fin y * Fin y = Fin w" "101 / 4 \<le> w" "w \<le> 1600000000" using far_square [OF \<open>504 / 100 \<le> \<bar>y\<bar>\<close> assms(3)] .
    obtain v where v: "Fin x * Fin x = Fin v" "0 \<le> v" "v \<le> 1600000000" using any_square [OF assms(2)] .
    have "101 / 4 \<le> v + w" "v + w \<le> 3200000000" using v(2,3) w(2,3) by linarith+
    then show ?thesis by (rule that [OF v(1) w(1)])
  qed
  have p: "pow2 (- 2) = 1 / 4" by (simp add: pow2_def)
  have vw': "of_int 101 * pow2 (- 2) \<le> v + w" "v + w \<le> of_int 3200000000" using vw(3,4) by (simp_all add: p)
  then have "Fin (of_int 101 * pow2 (- 2)) \<le> round64 (v + w)" "round64 (v + w) \<le> Fin (of_int 3200000000)"
    using round64_le [OF vw'(1)] round64_le [OF vw'(2)] round64_dyadic [of 101 "- 2"] round64_int [of 3200000000] by simp_all
  then obtain q where q: "round64 (v + w) = Fin q" "101 / 4 \<le> q" "q \<le> 3200000000" by (cases "round64 (v + w)") (auto simp: p)
  have "q \<le> pow2 40" using q(3) by (simp add: pow2_def)
  then show ?thesis using math_Sqrt_above_5 [OF q(2)] q(1) vw by simp
qed

text \<open>The difference of two coordinates in km, as computed.\<close>

lemma km_diff:
  assumes "\<bar>p - q\<bar> \<le> 360"
  obtains x where "(Fin p - Fin q) * Fin 111 = Fin x" "\<bar>x - (p - q) * 111\<bar> \<le> 112 / 1048576" "\<bar>x\<bar> \<le> 39999"
proof -
  obtain d where d: "round64 (p - q) = Fin d" "\<bar>d - (p - q)\<bar> \<le> 1 / 1048576" 
  proof (rule round64_near [of "p - q"])
    show "\<bar>p - q\<bar> \<le> 1048576" using assms by linarith
  qed
  have "\<bar>d\<bar> \<le> 361" using d(2) assms by linarith
  then have "\<bar>d * 111\<bar> \<le> 1048576" by linarith
  then obtain x where x: "round64 (d * 111) = Fin x" "\<bar>x - d * 111\<bar> \<le> 1 / 1048576" by (rule round64_near)
  define e where "e = 1 / (1048576 :: rat)"
  have e: "d - (p - q) \<le> e" "- (d - (p - q)) \<le> e" "x - d * 111 \<le> e" "- (x - d * 111) \<le> e"
    using abs_le_D1 [OF d(2)] abs_le_D2 [OF d(2)] abs_le_D1 [OF x(2)] abs_le_D2 [OF x(2)] by (simp_all add: e_def)
  have "\<bar>x - (p - q) * 111\<bar> \<le> 112 * e" using e by (simp add: abs_le_iff algebra_simps)
  then have "\<bar>x - (p - q) * 111\<bar> \<le> 112 / 1048576" by (simp add: e_def)
  moreover have "(Fin p - Fin q) * Fin 111 = Fin x" using d(1) x(1) by (simp add: minus_f64_def)
  moreover have "\<bar>(p - q) * 111\<bar> \<le> 39960" using assms by (simp add: abs_mult)
  then have "\<bar>x\<bar> \<le> 39999"
    using \<open>\<bar>x - (p - q) * 111\<bar> \<le> 112 / 1048576\<close> abs_triangle_ineq2 [of x "(p - q) * 111"] by linarith
  ultimately show thesis using that by blast
qed

definition lat_apart :: "location \<Rightarrow> location \<Rightarrow> rat" where
  "lat_apart a b = (case (Lat a, Lat b) of (Fin p, Fin q) \<Rightarrow> \<bar>p - q\<bar> | _ \<Rightarrow> 0)"

definition lng_apart :: "location \<Rightarrow> location \<Rightarrow> rat" where
  "lng_apart a b = (case (Lng a, Lng b) of (Fin p, Fin q) \<Rightarrow> \<bar>p - q\<bar> | _ \<Rightarrow> 0)"

lemma five_km:
  assumes cos: "cos_ok cosine" and loc: "IsValidLocation a" "IsValidLocation b" and km: "DistanceKm cosine a b \<le> Fin 5"
  shows "lat_apart a b \<le> 4999 / 100000"
    "Fin (91 / 100) \<le> cosine (Lat a * math_Pi / Fin 180) \<Longrightarrow> lng_apart a b \<le> 4999 / 100000"
proof -
  note A = valid_location_bounded [OF loc(1)] and B = valid_location_bounded [OF loc(2)]
  obtain p1 p2 l1 l2 where pl: "Lat a = Fin p1" "Lat b = Fin p2" "Lng a = Fin l1" "Lng b = Fin l2"
    "\<bar>p1 - p2\<bar> \<le> 360" "\<bar>l1 - l2\<bar> \<le> 360" using A B by (auto simp: bounded_def)
  obtain x where x: "(Fin p1 - Fin p2) * Fin 111 = Fin x" "\<bar>x - (p1 - p2) * 111\<bar> \<le> 112 / 1048576" "\<bar>x\<bar> \<le> 39999"
    using km_diff [OF pl(5)] .
  obtain z where z: "(Fin l1 - Fin l2) * Fin 111 = Fin z" "\<bar>z - (l1 - l2) * 111\<bar> \<le> 112 / 1048576" "\<bar>z\<bar> \<le> 39999"
    using km_diff [OF pl(6)] .
  have pi4: "bounded 4 math_Pi" unfolding math_Pi_def by (rule bounded_round) simp_all
  have "bounded (90 * 4) (Lat a * math_Pi)" by (intro bounded_times A pi4) simp
  then obtain r where r: "Lat a * math_Pi = Fin r" "\<bar>r\<bar> \<le> 360" by (auto simp: bounded_def)
  have "\<bar>r / 180\<bar> \<le> of_int 2" using r(2) by (simp add: abs_le_iff)
  then obtain r2 where "Lat a * math_Pi / Fin 180 = Fin r2" using bounded_round [of "r / 180" 2] r(1) by (auto simp: bounded_def)
  then obtain c where c: "cosine (Lat a * math_Pi / Fin 180) = Fin c" "\<bar>c\<bar> \<le> 1" using cos by (fastforce simp: cos_ok_def abs_le_iff)
  have zc: "\<bar>z * c\<bar> \<le> 39999" using mult_mono [OF z(3) c(2)] by (simp add: abs_mult)
  then have "\<bar>z * c\<bar> \<le> 1048576" by linarith
  then obtain y where y: "round64 (z * c) = Fin y" "\<bar>y - z * c\<bar> \<le> 1 / 1048576" by (rule round64_near)
  have y4: "\<bar>y\<bar> \<le> 40000" using y(2) zc by linarith
  have "DistanceKm cosine a b = math_Sqrt (Fin x * Fin x + Fin y * Fin y)"
    unfolding DistanceKm_def Let_def c(1) pl(1-4) x(1) z(1) using y(1) pl(1) c(1) by simp
  then have near: "\<bar>x\<bar> < 504 / 100" "\<bar>y\<bar> < 504 / 100" using far_is_far [of x y] km x(3) y4 by force+
  show "lat_apart a b \<le> 4999 / 100000" 
  proof -
    have "\<bar>p1 - p2\<bar> \<le> 4999 / 100000"
    proof -
      have "\<bar>(p1 - p2) * 111\<bar> \<le> 505 / 100" using near(1) x(2) abs_triangle_ineq2 [of "(p1 - p2) * 111" x]
        unfolding abs_minus_commute [of "(p1 - p2) * 111"] by linarith
      then have "\<bar>p1 - p2\<bar> * \<bar>111\<bar> \<le> 505 / 100" by (simp only: abs_mult)
      then show ?thesis by simp
    qed
    then show ?thesis using pl(1,2) by (simp add: lat_apart_def)
  qed
  assume "Fin (91 / 100) \<le> cosine (Lat a * math_Pi / Fin 180)"
  then have c91: "91 / 100 \<le> c" using c(1) by simp
  have "\<bar>z\<bar> * (91 / 100) \<le> \<bar>z\<bar> * c" using c91 by (intro mult_left_mono) simp_all
  also have "\<bar>z\<bar> * c = \<bar>z * c\<bar>" using c91 by (simp add: abs_mult)
  finally have "\<bar>z\<bar> * (91 / 100) < 504001 / 100000" using near(2) y(2) by linarith
  then have "\<bar>z\<bar> < 55385 / 10000" by simp
  then show "lng_apart a b \<le> 4999 / 100000" 
  proof -
    have "\<bar>l1 - l2\<bar> \<le> 4999 / 100000"
    proof -
      have "\<bar>(l1 - l2) * 111\<bar> \<le> 554 / 100" using \<open>\<bar>z\<bar> < 55385 / 10000\<close> z(2) abs_triangle_ineq2 [of "(l1 - l2) * 111" z]
        unfolding abs_minus_commute [of "(l1 - l2) * 111"] by linarith
      then have "\<bar>l1 - l2\<bar> * \<bar>111\<bar> \<le> 554 / 100" by (simp only: abs_mult)
      then show ?thesis by simp
    qed
    then show ?thesis using pl(3,4) by (simp add: lng_apart_def)
  qed
qed

section \<open>The cells searched\<close>

lemma cell_bounds: "\<exists>q. CellSizeDegrees ride_DefaultConfig = Fin q \<and> 9999 / 1000000 \<le> q \<and> q \<le> 10001 / 1000000"
proof -
  have p: "pow2 (- 30) = 1 / 1073741824" by (simp add: pow2_def)
  have "round64 (of_int 10737418 * pow2 (- 30)) \<le> round64 (1 / 100)" "round64 (1 / 100) \<le> round64 (of_int 10737419 * pow2 (- 30))"
    by (simp_all add: round64_le p)
  then have "Fin (10737418 / 1073741824) \<le> round64 (1 / 100)" "round64 (1 / 100) \<le> Fin (10737419 / 1073741824)"
    using round64_dyadic [of 10737418 "- 30"] round64_dyadic [of 10737419 "- 30"] by (simp_all add: p)
  then show ?thesis by (cases "round64 (1 / 100)") (auto simp: ride_DefaultConfig_def)
qed

lemma ring_5: "NeighborRing ride_DefaultConfig = 5"
proof -
  obtain q where q: "CellSizeDegrees ride_DefaultConfig = Fin q" "9999 / 1000000 \<le> q" "q \<le> 10001 / 1000000" using cell_bounds by blast
  obtain k where k: "round64 (q * 111) = Fin k" "\<bar>k - q * 111\<bar> \<le> 1 / 1048576"
  proof (rule round64_near [of "q * 111"])
    show "\<bar>q * 111\<bar> \<le> 1048576" using q(2,3) by linarith
  qed
  have kb: "110 / 100 \<le> k" "k \<le> 112 / 100" using k(2) q(2,3) by linarith+
  then have b: "446 / 100 \<le> 5 / k" "5 / k \<le> 456 / 100" by (simp_all add: field_simps)
  obtain r where r: "round64 (5 / k) = Fin r" "\<bar>r - 5 / k\<bar> \<le> 1 / 1048576"
  proof (rule round64_near [of "5 / k"])
    show "\<bar>5 / k\<bar> \<le> 1048576" using b by linarith
  qed
  have "4 < r" "r \<le> 5" using r(2) b by linarith+
  then have c: "\<lceil>r\<rceil> = 5" by (simp add: ceiling_unique)
  show ?thesis
    using q(1) k(1) r(1) c kb by (simp add: NeighborRing_def ride_DefaultConfig_def math_Ceil_def f64_to_int_def in_int64_def Let_def)
qed

text \<open>The cell number of a coordinate, and how far apart those of two near coordinates are.\<close>

lemma cell_number:
  assumes "\<bar>p\<bar> \<le> 180" "9999 / 1000000 \<le> q" "q \<le> 10001 / 1000000"
  obtains k where "f64_to_int (math_Floor (Fin p / Fin q)) = \<lfloor>k\<rfloor>" "\<bar>k - p / q\<bar> \<le> 1 / 1048576" "\<bar>k\<bar> \<le> 20000"
proof -
  have "\<bar>p\<bar> \<le> 19000 * q" using assms(1,2) by linarith
  then have pq: "\<bar>p / q\<bar> \<le> 19000" using assms(2) by (simp add: abs_divide field_simps)
  obtain k where k: "round64 (p / q) = Fin k" "\<bar>k - p / q\<bar> \<le> 1 / 1048576"
  proof (rule round64_near [of "p / q"])
    show "\<bar>p / q\<bar> \<le> 1048576" using pq by linarith
  qed
  have k2: "\<bar>k\<bar> \<le> 20000" using k(2) pq by linarith
  then have "in_int64 \<lfloor>k\<rfloor>" "0 \<le> \<lfloor>k\<rfloor> \<longleftrightarrow> 0 \<le> k" by (simp_all add: in_int64_def) linarith+
  then have "f64_to_int (math_Floor (Fin p / Fin q)) = \<lfloor>k\<rfloor>" using k(1) assms(2) by (simp add: math_Floor_def f64_to_int_def Let_def)
  then show thesis using that k(2) k2 by blast
qed

lemma near_cells:
  assumes "\<bar>p1\<bar> \<le> 180" "\<bar>p2\<bar> \<le> 180" "9999 / 1000000 \<le> q" "q \<le> 10001 / 1000000" "\<bar>p1 - p2\<bar> \<le> 4999 / 100000"
  defines "n \<equiv> \<lambda>p. f64_to_int (math_Floor (Fin p / Fin q))"
  shows "\<bar>n p2 - n p1\<bar> \<le> 5" "\<bar>n p1\<bar> \<le> 20001"
proof -
  obtain k1 where k1: "n p1 = \<lfloor>k1\<rfloor>" "\<bar>k1 - p1 / q\<bar> \<le> 1 / 1048576" "\<bar>k1\<bar> \<le> 20000"
    unfolding n_def using cell_number [OF assms(1,3,4)] .
  obtain k2 where k2: "n p2 = \<lfloor>k2\<rfloor>" "\<bar>k2 - p2 / q\<bar> \<le> 1 / 1048576" "\<bar>k2\<bar> \<le> 20000"
    unfolding n_def using cell_number [OF assms(2,3,4)] .
  have "\<bar>p1 - p2\<bar> \<le> 49996 / 10000 * q" using assms(3,5) by linarith
  then have "\<bar>(p1 - p2) / q\<bar> \<le> 49996 / 10000" using assms(3) by (simp add: abs_divide field_simps)
  then have "\<bar>p1 / q - p2 / q\<bar> \<le> 49996 / 10000" by (simp only: diff_divide_distrib)
  then have "\<bar>k1 - k2\<bar> < 5" using k1(2) k2(2) by linarith
  then have "k1 < k2 + of_int 5" "k2 < k1 + of_int 5" by (simp_all add: abs_less_iff)
  then have "\<lfloor>k1\<rfloor> \<le> \<lfloor>k2\<rfloor> + 5" "\<lfloor>k2\<rfloor> \<le> \<lfloor>k1\<rfloor> + 5" by linarith+
  then show "\<bar>n p2 - n p1\<bar> \<le> 5" using k1(1) k2(1) by linarith
  show "\<bar>n p1\<bar> \<le> 20001" using k1(1,3) by linarith
qed

lemma in_NeighborBlocks:
  assumes "\<bar>fst b - fst c\<bar> \<le> ring" "\<bar>snd b - snd c\<bar> \<le> ring" "\<bar>fst c\<bar> \<le> 20001" "\<bar>snd c\<bar> \<le> 20001" "ring \<le> 1000"
  shows "b \<in> set (NeighborBlocks c ring)"
proof -
  let ?i = "fst b - fst c" and ?j = "snd b - snd c"
  have w: "wrap64 (- ring) = - ring" using assms(1,5) by (intro wrap64_id) (simp add: in_int64_def)
  have b: "wrap64 (fst c + ?i) = fst b" "wrap64 (snd c + ?j) = snd b"
  proof -
    have "\<bar>fst b\<bar> \<le> 30000" "\<bar>snd b\<bar> \<le> 30000" using assms by linarith+
    then have "in_int64 (fst b)" "in_int64 (snd b)" by (simp_all add: in_int64_def abs_le_iff)
    then show "wrap64 (fst c + ?i) = fst b" "wrap64 (snd c + ?j) = snd b" by (simp_all add: wrap64_id)
  qed
  let ?row = "\<lambda>i. map (\<lambda>j. (wrap64 (fst c + i), wrap64 (snd c + j))) [- ring..ring]"
  have "(wrap64 (fst c + ?i), wrap64 (snd c + ?j)) \<in> set (?row ?i)" "?row ?i \<in> set (map ?row [- ring..ring])"
  proof -
    have ij: "?i \<in> set [- ring..ring]" "?j \<in> set [- ring..ring]" using assms(1,2) by (simp_all add: abs_le_iff)
    show "(wrap64 (fst c + ?i), wrap64 (snd c + ?j)) \<in> set (?row ?i)" unfolding set_map by (rule image_eqI [OF refl ij(2)])
    show "?row ?i \<in> set (map ?row [- ring..ring])" unfolding set_map by (rule image_eqI [OF refl ij(1)])
  qed
  then show ?thesis unfolding NeighborBlocks_def w set_concat b by (metis UN_I prod.collapse)
qed

text \<open>
  With the default configuration every available driver whose distance is computed as at most 5 km
  is in a searched cell, if the longitudes differ by at most 0.04999 degrees, and so if the cosine
  of the latitude of the pickup is at least 0.91.
\<close>

theorem default_covers:
  assumes "ds_inv s" "ds_cfg s = ride_DefaultConfig" "cos_ok cosine" "IsValidLocation loc"
    and d: "driversByID s (dr_ID d) = Some d" "dr_Status d = DriverAvailable" "km_to cosine loc d \<le> Fin 5"
    and lng: "Fin (91 / 100) \<le> cosine (Lat loc * math_Pi / Fin 180) \<or> lng_apart loc (dr_Location d) \<le> 4999 / 100000"
  shows "in_reach s loc d"
proof -
  have D: "IsValidLocation (dr_Location d)" "dr_BlockID d = GetBlockID (dr_Location d) (CellSizeDegrees ride_DefaultConfig)"
    using ds_invD(2) [OF assms(1) d(1)] assms(2) by (simp_all add: driver_ok_def)
  have km: "DistanceKm cosine loc (dr_Location d) \<le> Fin 5" using d(3) by (simp add: km_to_def)
  have apart: "lat_apart loc (dr_Location d) \<le> 4999 / 100000" "lng_apart loc (dr_Location d) \<le> 4999 / 100000"
    using five_km [OF assms(3,4) D(1) km] lng by auto
  obtain p1 p2 l1 l2 where pl: "Lat loc = Fin p1" "Lat (dr_Location d) = Fin p2" "Lng loc = Fin l1" "Lng (dr_Location d) = Fin l2"
    and b: "\<bar>p1\<bar> \<le> 180" "\<bar>p2\<bar> \<le> 180" "\<bar>l1\<bar> \<le> 180" "\<bar>l2\<bar> \<le> 180"
    using valid_location_bounded [OF assms(4)] valid_location_bounded [OF D(1)] by (auto simp: bounded_def)
  obtain q where q: "CellSizeDegrees ride_DefaultConfig = Fin q" "9999 / 1000000 \<le> q" "q \<le> 10001 / 1000000" using cell_bounds by blast
  have "\<bar>p1 - p2\<bar> \<le> 4999 / 100000" "\<bar>l1 - l2\<bar> \<le> 4999 / 100000" using apart pl by (simp_all add: lat_apart_def lng_apart_def)
  then show ?thesis
    unfolding in_reach_def assms(2) D(2) ring_5
    using d(1,2) near_cells [OF b(1,2) q(2,3)] near_cells [OF b(3,4) q(2,3)]
    by (auto simp: GetBlockID_def pl q(1) intro!: in_NeighborBlocks)
qed

text \<open>
  The available drivers within the 5 km of the default configuration, in terms of distances only:
  all of them where a degree of longitude is at least 0.91 times as long as at the equator (up to
  about 24 degrees of latitude), and further away from the equator those whose longitude differs by
  less than 0.05 degrees.  And what it means for an answer to be the nearest of them.
\<close>

definition pickup_range :: "(f64 \<Rightarrow> f64) \<Rightarrow> location \<Rightarrow> driver_store \<Rightarrow> driver set" where
  "pickup_range cosine loc s =
     {d. driversByID s (dr_ID d) = Some d \<and> dr_Status d = DriverAvailable \<and> km_to cosine loc d \<le> Fin 5
       \<and> (Fin (91 / 100) \<le> cosine (Lat loc * math_Pi / Fin 180) \<or> lng_apart loc (dr_Location d) \<le> 4999 / 100000)}"

definition nearest_by_distance :: "(f64 \<Rightarrow> f64) \<Rightarrow> location \<Rightarrow> driver_store \<Rightarrow> ride_error + driver \<times> f64 \<Rightarrow> bool" where
  "nearest_by_distance cosine loc s r \<longleftrightarrow>
     (case r of
        Inl _ \<Rightarrow> pickup_range cosine loc s = {}
      | Inr (d, k) \<Rightarrow>
          driversByID s (dr_ID d) = Some d \<and> dr_Status d = DriverAvailable \<and> k = km_to cosine loc d \<and> k \<le> Fin 5
          \<and> (\<forall>e\<in>pickup_range cosine loc s. e = d \<or> k < km_to cosine loc e
               \<or> f64_eq k (km_to cosine loc e) \<and> dr_ID d < dr_ID e))"

lemma nearest_in_range:
  assumes "ds_inv s" "ds_cfg s = ride_DefaultConfig" "cos_ok cosine" "IsValidLocation loc"
    and "nearest_spec cosine loc (Fin 5) s r"
  shows "nearest_by_distance cosine loc s r"
proof -
  have "in_reach s loc e" "km_to cosine loc e \<le> Fin 5" if "e \<in> pickup_range cosine loc s" for e
    using default_covers [OF assms(1-4), of e] that by (simp_all add: pickup_range_def)
  then show ?thesis
    using assms(5)
    by (fastforce simp: nearest_spec_def nearest_by_distance_def Let_def in_reach_def candidate_less_def
        split: sum.splits prod.splits if_splits)
qed

end
