(* ===== verification/Ride_Props.thy ===== *)
theory Ride_Props
  imports Ride_Coverage
begin

text \<open>
  The properties of the ride-sharing service: the consistency of every reachable state, what
  processing a request and completing a ride do, the agreement of the two searches for near
  drivers, and the drivers that the search cells miss far from the equator.
\<close>

section \<open>A sample run\<close>

text \<open>A driver and a rider are registered, the driver goes online and the rider asks for a ride.\<close>

definition sample_driver :: driver where
  "sample_driver =
     \<lparr>dr_ID = ''DRV-000001'', dr_Name = ''Amit'', dr_Location = \<lparr>Lat = Fin 19, Lng = Fin 72\<rparr>, dr_Status = DriverOffline,
      dr_Rating = Fin 4, dr_BlockID = (0, 0), dr_RideHistory = []\<rparr>"

definition sample_rider :: rider where
  "sample_rider =
     \<lparr>ri_ID = ''RDR-000001'', ri_Name = ''Jainam'', ri_Location = \<lparr>Lat = Fin 19, Lng = Fin 72\<rparr>, ri_PaymentMethod = ''UPI'',
      ri_RideHistory = []\<rparr>"

definition sample_online :: dispatcher where
  "sample_online =
     (let st = NewDispatcher ride_DefaultConfig;
          st = st\<lparr>dp_drivers := snd (ds_Register (Some sample_driver) (dp_drivers st))\<rparr>;
          st = st\<lparr>dp_drivers := snd (ds_GoOnline ''DRV-000001'' (dp_drivers st))\<rparr>
      in st\<lparr>dp_riders := snd (rs_Register (Some sample_rider) (dp_riders st))\<rparr>)"

definition sample_dispatcher :: dispatcher where
  "sample_dispatcher =
     snd (RequestRide ''RDR-000001'' \<lparr>Lat = Fin 19, Lng = Fin 72\<rparr> \<lparr>Lat = Fin 20, Lng = Fin 72\<rparr> 5 5 sample_online)"

lemma not_blank: "s \<noteq> [] \<Longrightarrow> ascii_ink (hd s) \<Longrightarrow> ascii_ink (last s) \<Longrightarrow> \<not> blank s"
  using TrimSpace_id by (simp add: blank_def)

lemma ride_DefaultConfig_ok: "ride_cfg_ok ride_DefaultConfig"
  by (simp add: ride_cfg_ok_def ride_DefaultConfig_def zero_f64_def)

lemma cos_ok_const: "- 1 \<le> c \<Longrightarrow> c \<le> 1 \<Longrightarrow> cos_ok (\<lambda>_. Fin c)"
  by (simp add: cos_ok_def)

lemma sample_online_reachable: "ride_reachable cosine ride_DefaultConfig sample_online"
proof -
  let ?st0 = "NewDispatcher ride_DefaultConfig"
  have c: "dp_rideCounter ?st0 = 0" "dp_requestCounter ?st0 = 0" by (simp_all add: NewDispatcher_def)
  let ?st1 = "?st0\<lparr>dp_drivers := snd (ds_Register (Some sample_driver) (dp_drivers ?st0))\<rparr>"
  have 1: "ride_reachable cosine ride_DefaultConfig ?st1"
    by (rule ride_reachable.step [OF ride_reachable.start _ _ ride_step.register_driver]) (simp_all add: c)
  let ?st2 = "?st1\<lparr>dp_drivers := snd (ds_GoOnline ''DRV-000001'' (dp_drivers ?st1))\<rparr>"
  have 2: "ride_reachable cosine ride_DefaultConfig ?st2"
    by (rule ride_reachable.step [OF 1 _ _ ride_step.go_online]) (simp_all add: c)
  show ?thesis unfolding sample_online_def Let_def
    by (rule ride_reachable.step [OF 2 _ _ ride_step.register_rider]) (simp_all add: c)
qed

lemma sample_online_state:
  "dp_rideCounter sample_online = 0" "dp_requestCounter sample_online = 0" "dp_queue sample_online = []"
  "dp_riders sample_online ''RDR-000001'' = Some sample_rider" "dp_cfg sample_online = ride_DefaultConfig"
proof -
  have "IsValidRider (Some sample_rider)"
    by (simp add: IsValidRider_def sample_rider_def not_blank ascii_ink_def IsValidLocation_def)
  then show "dp_riders sample_online ''RDR-000001'' = Some sample_rider"
    by (simp add: sample_online_def NewDispatcher_def rs_Register_def) (simp add: sample_rider_def)
qed (simp_all add: sample_online_def NewDispatcher_def)

lemma sample_reachable: "ride_reachable cosine ride_DefaultConfig sample_dispatcher"
  unfolding sample_dispatcher_def
  by (rule ride_reachable.step [OF sample_online_reachable _ _ ride_step.request]) (simp_all add: sample_online_state)

definition sample_request :: ride_request where
  "sample_request =
     \<lparr>rr_ID = request_id 1, rr_RiderID = ''RDR-000001'', rr_Pickup = \<lparr>Lat = Fin 19, Lng = Fin 72\<rparr>,
      rr_Dropoff = \<lparr>Lat = Fin 20, Lng = Fin 72\<rparr>, rr_RequestTime = 5\<rparr>"

lemma sample_state:
  "sample_dispatcher = sample_online\<lparr>dp_requestCounter := 1, dp_queue := [sample_request]\<rparr>"
proof -
  obtain rs where inv: "ride_inv ride_DefaultConfig sample_online rs"
    using reachable_inv [OF sample_online_reachable ride_DefaultConfig_ok cos_ok_const [of 1]] by auto
  have "dp_requestCounter sample_online + 1 < 2 ^ 64" by (simp add: sample_online_state)
  note eq = RequestRide_eq [OF inv this]
  have "mh_Push request_less [] q = [q]" for q
    by (simp add: mh_Push_def) (subst mh_heapifyUp_unfold, simp)
  then show ?thesis unfolding sample_dispatcher_def eq Let_def
    by (simp add: sample_online_state IsValidLocation_def time_IsZero_def zero_time_def sample_request_def)
qed

text \<open>Every store's index can be visited in some order.\<close>

definition some_order :: "driver_store \<Rightarrow> block_id \<Rightarrow> string list" where
  "some_order s b = (case availableDriversByBlock s b of None \<Rightarrow> [] | Some ids \<Rightarrow> sorted_list_of_set ids)"

lemma visits_some_order: "ds_inv s \<Longrightarrow> visits (some_order s) s"
proof -
  assume inv: "ds_inv s"
  have "finite ids" if "availableDriversByBlock s b = Some ids" for b ids
  proof -
    have "ids \<subseteq> dom (driversByID s)" using that ds_invD(3) [OF inv] by (auto simp: index_of_def free_in_def split: if_splits)
    then show ?thesis using ds_invD(1) [OF inv] by (rule finite_subset)
  qed
  then show ?thesis by (auto simp: visits_def some_order_def split: option.split)
qed

lemma sample_driver_state:
  "driversByID (dp_drivers sample_online) = [''DRV-000001'' \<mapsto>
     sample_driver\<lparr>dr_Status := DriverAvailable, dr_BlockID := GetBlockID \<lparr>Lat = Fin 19, Lng = Fin 72\<rparr> (CellSizeDegrees ride_DefaultConfig)\<rparr>]"
proof -
  let ?d = "sample_driver\<lparr>dr_Status := DriverOffline, dr_BlockID := GetBlockID \<lparr>Lat = Fin 19, Lng = Fin 72\<rparr> (CellSizeDegrees ride_DefaultConfig)\<rparr>"
  let ?s0 = "ds_NewMemoryStore ride_DefaultConfig"
  have id: "dr_ID sample_driver = ''DRV-000001''" "dr_Location sample_driver = \<lparr>Lat = Fin 19, Lng = Fin 72\<rparr>" by (simp_all add: sample_driver_def)
  have "IsValidDriver (Some sample_driver)"
    by (simp add: IsValidDriver_def sample_driver_def not_blank ascii_ink_def IsValidLocation_def zero_f64_def)
  then have reg: "snd (ds_Register (Some sample_driver) ?s0) = set_driver ?d ?s0"
    using id by (simp add: ds_Register_def ds_NewMemoryStore_def)
  have s0: "driversByID ?s0 = Map.empty" "ds_cfg ?s0 = ride_DefaultConfig" by (simp_all add: ds_NewMemoryStore_def)
  have "\<not> blank ''DRV-000001''" by (simp add: not_blank ascii_ink_def)
  then have "snd (ds_GoOnline ''DRV-000001'' (set_driver ?d ?s0)) = make_available ?d (set_driver ?d ?s0)"
    using id by (simp add: ds_GoOnline_def)
  moreover have "driversByID (make_available ?d (set_driver ?d ?s0)) = [''DRV-000001'' \<mapsto> ?d\<lparr>dr_Status := DriverAvailable\<rparr>]"
    using id s0 by (simp add: make_available_def Let_def) (simp add: sample_driver_def)
  ultimately have "driversByID (dp_drivers sample_online) = [''DRV-000001'' \<mapsto> ?d\<lparr>dr_Status := DriverAvailable\<rparr>]"
    unfolding sample_online_def NewDispatcher_def by (simp only: reg dispatcher.simps Let_def)
  then show ?thesis by (simp add: sample_driver_def)
qed

lemma sample_inv: "\<exists>rs. ride_inv ride_DefaultConfig sample_dispatcher rs"
  using reachable_inv [OF sample_reachable ride_DefaultConfig_ok cos_ok_const [of 1]] by auto

lemma sample_visits: "visits (some_order (dp_drivers sample_dispatcher)) (dp_drivers sample_dispatcher)"
  using sample_inv ride_invD(3) by (blast intro: visits_some_order)

text \<open>A driver at the very place of the pickup is in reach.\<close>

lemma in_int64_block: "in_int64 (f64_to_int a)"
  by (cases a) (simp_all add: f64_to_int_def in_int64_def Let_def)

lemma own_block:
  assumes "0 \<le> ring" "in_int64 ring"
  shows "GetBlockID loc cell \<in> set (NeighborBlocks (GetBlockID loc cell) ring)"
proof -
  have w: "wrap64 (- ring) = - ring" using assms by (intro wrap64_id) (simp add: in_int64_def)
  have b: "wrap64 (f64_to_int a + 0) = f64_to_int a" for a using wrap64_id [OF in_int64_block] by simp
  have z: "0 \<in> set [- ring..ring]" using assms by simp
  let ?c = "GetBlockID loc cell"
  have "(wrap64 (fst ?c + 0), wrap64 (snd ?c + 0)) \<in> set (map (\<lambda>lngOffset. (wrap64 (fst ?c + 0), wrap64 (snd ?c + lngOffset))) [- ring..ring])"
    unfolding set_map using z by (rule image_eqI [OF refl])
  moreover have "(map (\<lambda>lngOffset. (wrap64 (fst ?c + 0), wrap64 (snd ?c + lngOffset))) [- ring..ring]) \<in>
      set (map (\<lambda>latOffset. map (\<lambda>lngOffset. (wrap64 (fst ?c + latOffset), wrap64 (snd ?c + lngOffset))) [- ring..ring]) [- ring..ring])"
    unfolding set_map using z by (rule image_eqI [OF refl])
  ultimately have "(wrap64 (fst ?c + 0), wrap64 (snd ?c + 0)) \<in> set (NeighborBlocks ?c ring)"
    unfolding NeighborBlocks_def w set_concat by blast
  moreover have "?c = (fst ?c, snd ?c)" "fst ?c = f64_to_int (math_Floor (Lat loc / cell))" "snd ?c = f64_to_int (math_Floor (Lng loc / cell))"
    by (simp_all add: GetBlockID_def)
  ultimately show ?thesis using b by metis
qed

section \<open>Consistency\<close>

text \<open>
  C9. Every reachable state of the service is consistent: the active rides have distinct ids and
  distinct drivers, and their drivers are exactly the busy ones; every ride ever made is either
  active or in the history and no ride is both; the index holds exactly the available drivers, each
  in the block of its location; and completing a ride never panics.
\<close>

theorem rides_stay_consistent:
  assumes "ride_reachable cosine cfg st" "ride_cfg_ok cfg" "cos_ok cosine"
  shows "\<exists>rs. tk_List (dp_active st) = Some rs \<and> tk_Len (dp_active st) = length rs
    \<and> distinct (map rd_ID rs) \<and> distinct (map rd_DriverID rs)
    \<and> rd_DriverID ` set rs = {i. \<exists>d. driversByID (dp_drivers st) i = Some d \<and> dr_Status d = DriverBusy}
    \<and> rd_ID ` set rs \<union> dom (dp_history st) = ride_id ` {1..dp_rideCounter st}
    \<and> rd_ID ` set rs \<inter> dom (dp_history st) = {}
    \<and> (\<forall>b. availableDriversByBlock (dp_drivers st) b =
         (let ids = {i. \<exists>d. driversByID (dp_drivers st) i = Some d \<and> dr_Status d = DriverAvailable
                      \<and> GetBlockID (dr_Location d) (CellSizeDegrees cfg) = b}
          in if ids = {} then None else Some ids))
    \<and> (\<forall>i t. CompleteRide i t st \<noteq> None)"
proof -
  obtain rs where inv: "ride_inv cfg st rs" using reachable_inv [OF assms] by blast
  note I = ride_invD [OF inv]
  have free: "free_in (driversByID (dp_drivers st)) b = {i. \<exists>d. driversByID (dp_drivers st) i = Some d \<and> dr_Status d = DriverAvailable
      \<and> GetBlockID (dr_Location d) (CellSizeDegrees cfg) = b}" for b
    using ds_invD(2) [OF I(3)] I(2) by (auto simp: free_in_def driver_ok_def)
  have "\<forall>b. availableDriversByBlock (dp_drivers st) b = (let ids = free_in (driversByID (dp_drivers st)) b in if ids = {} then None else Some ids)"
    using ds_invD(3) [OF I(3)] by (simp add: index_of_def Let_def)
  moreover have "CompleteRide i t st \<noteq> None" for i t
    using Complete_eq [OF inv] Complete_absent [OF inv, of i t] by (cases "i \<in> rd_ID ` set rs") force+
  ultimately show ?thesis
    using tk_List_rep [OF I(6)] tk_Len_rep [OF I(6)] I(8-10) unfolding free rides_ok_def busy_def
    by (intro exI [of _ rs]) blast
qed

theorem rides_stay_consistent_witness:
  "\<exists>rs. tk_List (dp_active sample_dispatcher) = Some rs \<and> distinct (map rd_DriverID rs)"
  using rides_stay_consistent [OF sample_reachable ride_DefaultConfig_ok cos_ok_const [of 1]] by auto

section \<open>Processing a request\<close>

text \<open>
  C8. Processing takes a request with the least request time.  One that is too old becomes a
  cancelled ride in the history; with no available driver in range nothing changes; otherwise the
  ride goes to the nearest such driver, the one with the least id among equally near ones, who
  becomes busy, and is the last of the active rides.  No other error occurs.  In range are the
  available drivers of the searched cells within the distance limit; with the default configuration
  these include every available driver within 5 km of the pickup where the cosine of the latitude
  is at least 0.91, and elsewhere those whose longitude differs by at most 0.04999 degrees.  (Others
  may be missed there, as \<open>search_misses_northern_driver\<close> below shows.)
\<close>

theorem process_next_correct:
  assumes "ride_reachable cosine cfg st" "ride_cfg_ok cfg" "cos_ok cosine"
    and "dp_rideCounter st + 1 < 2 ^ 64" "visits order (dp_drivers st)" "dp_queue st \<noteq> []"
  shows "\<exists>rs q q'. tk_List (dp_active st) = Some rs \<and> mset (dp_queue st) = add_mset q (mset q')
    \<and> (\<forall>s\<in>set (dp_queue st). rr_RequestTime q \<le> rr_RequestTime s)
    \<and> (let i = ride_id (dp_rideCounter st + 1)
       in if isRequestExpired cfg q now
          then ProcessNextRequest cosine order now st =
            (Inl ErrRideRequestExpired,
             st\<lparr>dp_queue := q', dp_rideCounter := dp_rideCounter st + 1, dp_history := (dp_history st)(i \<mapsto> cancelled_ride i q now)\<rparr>)
          else \<exists>found. nearest_spec cosine (rr_Pickup q) (MaxPickupDistanceKm cfg) (dp_drivers st) found
            \<and> (cfg = ride_DefaultConfig \<longrightarrow> nearest_by_distance cosine (rr_Pickup q) (dp_drivers st) found)
            \<and> (case found of
                 Inl _ \<Rightarrow> ProcessNextRequest cosine order now st = (Inl ErrNoDriverAvailable, st)
               | Inr (d, _) \<Rightarrow>
                   (\<exists>st'. ProcessNextRequest cosine order now st = (Inr (assigned_ride cosine cfg i q d now), st')
                      \<and> assigned_state st q' d rs (assigned_ride cosine cfg i q d now) st')))"
proof -
  obtain rs where inv: "ride_inv cfg st rs" using reachable_inv [OF assms(1-3)] by blast
  obtain q q' where pop: "mh_Pop request_less (dp_queue st) = Some (q, q')"
    using assms(6) by (cases "dp_queue st" rule: queue_cases) simp_all
  note Q = queue_ok_pop [OF ride_invD(5) [OF inv] pop]
  have loc: "IsValidLocation (rr_Pickup q)" using Q(2) by (simp add: request_ok_def IsValidRideRequest_def)
  define found where "found = FindNearestAvailable cosine order (rr_Pickup q) (MaxPickupDistanceKm cfg) (dp_drivers st)"
  have spec: "nearest_spec cosine (rr_Pickup q) (MaxPickupDistanceKm cfg) (dp_drivers st) found"
    unfolding found_def by (rule FindNearest_reach [OF inv assms(2,3,5) loc])
  have near: "nearest_by_distance cosine (rr_Pickup q) (dp_drivers st) found" if "cfg = ride_DefaultConfig"
    using nearest_in_range [OF ride_invD(3) [OF inv] _ assms(3) loc] ride_invD(2) [OF inv] spec that
    by (simp add: ride_DefaultConfig_def)
  define i where "i = ride_id (dp_rideCounter st + 1)"
  have "if isRequestExpired cfg q now
          then ProcessNextRequest cosine order now st =
            (Inl ErrRideRequestExpired,
             st\<lparr>dp_queue := q', dp_rideCounter := dp_rideCounter st + 1, dp_history := (dp_history st)(i \<mapsto> cancelled_ride i q now)\<rparr>)
          else (case found of
                 Inl _ \<Rightarrow> ProcessNextRequest cosine order now st = (Inl ErrNoDriverAvailable, st)
               | Inr (d, _) \<Rightarrow>
                   (\<exists>st'. ProcessNextRequest cosine order now st = (Inr (assigned_ride cosine cfg i q d now), st')
                      \<and> assigned_state st q' d rs (assigned_ride cosine cfg i q d now) st'))"
  proof (cases "isRequestExpired cfg q now")
    case True
    have "rd_ID (cancelled_ride i q now) = i" by (simp add: cancelled_ride_def)
    then show ?thesis using Process_expired(1) [OF inv assms(4) pop True] True by (simp add: i_def)
  next
    case False
    show ?thesis
    proof (cases found)
      case (Inl e)
      then show ?thesis using Process_waiting [OF inv pop False] False by (simp add: found_def)
    next
      case (Inr dk)
      obtain d k where dk: "dk = (d, k)" by fastforce
      note d = nearest_spec_Inr [OF spec [unfolded Inr dk]]
      have "FindNearestAvailable cosine order (rr_Pickup q) (MaxPickupDistanceKm cfg) (dp_drivers st) = Inr (d, k)"
        using Inr dk by (simp add: found_def)
      from Process_assigned [OF inv assms(2,4) pop False this d] show ?thesis using Inr dk False by (auto simp: i_def)
    qed
  qed
  then show ?thesis
    unfolding Let_def i_def [symmetric]
    using tk_List_rep [OF ride_invD(6) [OF inv]] Q(3,4) spec near by (intro exI [of _ rs] exI [of _ q] exI [of _ q']) auto
qed

lemma sample_in_reach:
  "in_reach (dp_drivers sample_dispatcher) \<lparr>Lat = Fin 19, Lng = Fin 72\<rparr> d \<longleftrightarrow> driversByID (dp_drivers sample_online) ''DRV-000001'' = Some d"
proof -
  have s: "dp_drivers sample_dispatcher = dp_drivers sample_online" by (simp add: sample_state)
  obtain rs where inv: "ride_inv ride_DefaultConfig sample_dispatcher rs" using sample_inv by blast
  have cfg: "ds_cfg (dp_drivers sample_online) = ride_DefaultConfig" using ride_invD(2) [OF inv] s by simp
  have own: "GetBlockID \<lparr>Lat = Fin 19, Lng = Fin 72\<rparr> cell \<in> set (NeighborBlocks (GetBlockID \<lparr>Lat = Fin 19, Lng = Fin 72\<rparr> cell) (NeighborRing ride_DefaultConfig))" for cell
    by (rule own_block) (simp_all add: ring_5 in_int64_def)
  have "dr_ID sample_driver = ''DRV-000001''" by (simp add: sample_driver_def)
  then show ?thesis
    unfolding in_reach_def s cfg sample_driver_state using own by auto
qed

lemma sample_distance:
  "driversByID (dp_drivers sample_online) ''DRV-000001'' = Some d \<Longrightarrow> km_to (\<lambda>_. Fin 1) \<lparr>Lat = Fin 19, Lng = Fin 72\<rparr> d \<le> Fin 5"
proof -
  assume "driversByID (dp_drivers sample_online) ''DRV-000001'' = Some d"
  then have "dr_Location d = \<lparr>Lat = Fin 19, Lng = Fin 72\<rparr>" by (auto simp: sample_driver_state sample_driver_def)
  moreover have "round64 0 = Fin 0" using round64_int [of 0] by simp
  ultimately show ?thesis by (simp add: km_to_def DistanceKm_def minus_f64_def math_Sqrt_def Let_def)
qed

theorem process_next_correct_witness:
  "\<exists>r st'. ProcessNextRequest (\<lambda>_. Fin 1) (some_order (dp_drivers sample_dispatcher)) 6 sample_dispatcher = (Inr r, st')
     \<and> rd_ID r = ride_id 1 \<and> rd_DriverID r = ''DRV-000001''"
proof -
  let ?cosine = "\<lambda>_. Fin 1 :: f64"
  have n: "dp_rideCounter sample_dispatcher + 1 < 2 ^ 64" "dp_queue sample_dispatcher \<noteq> []"
    by (simp_all add: sample_state sample_online_state)
  have cos: "cos_ok ?cosine" using cos_ok_const [of 1] by simp
  obtain rs q q' where Q: "mset (dp_queue sample_dispatcher) = add_mset q (mset q')"
    and out: "let i = ride_id (dp_rideCounter sample_dispatcher + 1)
       in if isRequestExpired ride_DefaultConfig q 6
          then ProcessNextRequest ?cosine (some_order (dp_drivers sample_dispatcher)) 6 sample_dispatcher =
            (Inl ErrRideRequestExpired,
             sample_dispatcher\<lparr>dp_queue := q', dp_rideCounter := dp_rideCounter sample_dispatcher + 1,
               dp_history := (dp_history sample_dispatcher)(i \<mapsto> cancelled_ride i q 6)\<rparr>)
          else \<exists>found. nearest_spec ?cosine (rr_Pickup q) (MaxPickupDistanceKm ride_DefaultConfig) (dp_drivers sample_dispatcher) found
            \<and> nearest_by_distance ?cosine (rr_Pickup q) (dp_drivers sample_dispatcher) found
            \<and> (case found of
                 Inl _ \<Rightarrow> ProcessNextRequest ?cosine (some_order (dp_drivers sample_dispatcher)) 6 sample_dispatcher
                   = (Inl ErrNoDriverAvailable, sample_dispatcher)
               | Inr (d, _) \<Rightarrow>
                   (\<exists>st'. ProcessNextRequest ?cosine (some_order (dp_drivers sample_dispatcher)) 6 sample_dispatcher
                        = (Inr (assigned_ride ?cosine ride_DefaultConfig i q d 6), st')
                      \<and> assigned_state sample_dispatcher q' d rs (assigned_ride ?cosine ride_DefaultConfig i q d 6) st'))"
    using process_next_correct [OF sample_reachable ride_DefaultConfig_ok cos n(1) sample_visits n(2), of 6]
    unfolding simp_thms by (elim exE conjE, intro that) assumption+
  have q: "q = sample_request" using Q by (simp add: sample_state)
  have young: "\<not> isRequestExpired ride_DefaultConfig q 6"
    by (simp add: q isRequestExpired_def ride_DefaultConfig_def sample_request_def time_Sub_def)
  obtain d0 where d0: "driversByID (dp_drivers sample_online) ''DRV-000001'' = Some d0" by (simp add: sample_driver_state)
  have pickup: "rr_Pickup q = \<lparr>Lat = Fin 19, Lng = Fin 72\<rparr>" "MaxPickupDistanceKm ride_DefaultConfig = Fin 5"
    "dp_rideCounter sample_dispatcher + 1 = 1"
    by (simp_all add: q sample_request_def ride_DefaultConfig_def sample_state sample_online_state)
  have ids: "rd_ID (assigned_ride c cfg i q d t) = i" "rd_DriverID (assigned_ride c cfg i q d t) = dr_ID d" for c cfg i d t
    by (simp_all add: assigned_ride_def Let_def)
  obtain found where found: "nearest_spec ?cosine \<lparr>Lat = Fin 19, Lng = Fin 72\<rparr> (Fin 5) (dp_drivers sample_dispatcher) found"
    "\<And>d k. found = Inr (d, k) \<Longrightarrow> \<exists>st'. ProcessNextRequest ?cosine (some_order (dp_drivers sample_dispatcher)) 6 sample_dispatcher
       = (Inr (assigned_ride ?cosine ride_DefaultConfig (ride_id 1) q d 6), st')"
    using out unfolding Let_def pickup if_not_P [OF young]
    by (elim exE conjE, intro that) (assumption, auto)
  show ?thesis
  proof (cases found)
    case (Inl e)
    then show ?thesis using found(1) sample_in_reach [of d0] d0 sample_distance [OF d0] by (simp add: nearest_spec_def Let_def)
  next
    case (Inr dk)
    obtain d k where dk: "dk = (d, k)" by fastforce
    then have "driversByID (dp_drivers sample_online) ''DRV-000001'' = Some d"
      using found(1) Inr sample_in_reach [of d] by (simp add: nearest_spec_def Let_def)
    then have "dr_ID d = ''DRV-000001''" by (auto simp: sample_driver_state sample_driver_def)
    then show ?thesis using found(2) [of d k] Inr dk ids by metis
  qed
qed

section \<open>Completing a ride\<close>

text \<open>
  C10. Completing an active ride always succeeds: the ride moves from the active ones to the history
  as completed, its driver becomes available at the drop-off location in that location's block,
  and its id is appended to the histories of the driver and the rider; nothing else changes.  For
  any other id the result is that the ride is not found, and nothing changes.
\<close>

theorem complete_ride_correct:
  assumes "ride_reachable cosine cfg st" "ride_cfg_ok cfg" "cos_ok cosine"
  shows "\<exists>rs. tk_List (dp_active st) = Some rs
    \<and> (i \<notin> rd_ID ` set rs \<longrightarrow> CompleteRide i t st = Some (Inl ErrRideNotFound, st))
    \<and> (\<forall>r\<in>set rs. \<exists>st' d p.
         CompleteRide (rd_ID r) t st = Some (Inr (r\<lparr>rd_Status := RideCompleted, rd_EndTime := t\<rparr>), st')
         \<and> driversByID (dp_drivers st) (rd_DriverID r) = Some d \<and> dp_riders st (rd_RiderID r) = Some p
         \<and> completed_state st rs r (r\<lparr>rd_Status := RideCompleted, rd_EndTime := t\<rparr>) d p st')"
proof -
  obtain rs where inv: "ride_inv cfg st rs" using reachable_inv [OF assms] by blast
  show ?thesis
    using tk_List_rep [OF ride_invD(6) [OF inv]] Complete_absent [OF inv] Complete_eq [OF inv]
    by (intro exI [of _ rs]) blast
qed

text \<open>The sample run goes on: the driver is assigned.\<close>

definition sample_assigned :: dispatcher where
  "sample_assigned = snd (ProcessNextRequest (\<lambda>_. Fin 1) (some_order (dp_drivers sample_dispatcher)) 6 sample_dispatcher)"

lemma sample_assigned_reachable: "ride_reachable (\<lambda>_. Fin 1) ride_DefaultConfig sample_assigned"
  unfolding sample_assigned_def
  by (rule ride_reachable.step [OF sample_reachable _ _ ride_step.process [OF sample_visits]])
    (simp_all add: sample_state sample_online_state)

lemma sample_assigned_rides: "\<exists>r. tk_List (dp_active sample_assigned) = Some [r] \<and> rd_ID r = ride_id 1"
proof -
  let ?order = "some_order (dp_drivers sample_dispatcher)" and ?loc = "\<lparr>Lat = Fin 19, Lng = Fin 72\<rparr>"
  obtain rs where inv: "ride_inv ride_DefaultConfig sample_dispatcher rs" using sample_inv by blast
  have "tk_List (dp_active sample_dispatcher) = Some []"
    using tk_List_rep [OF tk_rep_New] by (simp add: sample_state sample_online_def NewDispatcher_def)
  then have rs: "rs = []" using tk_List_rep [OF ride_invD(6) [OF inv]] by simp
  have m: "MaxPickupDistanceKm ride_DefaultConfig = Fin 5" by (simp add: ride_DefaultConfig_def)
  have spec: "nearest_spec (\<lambda>_. Fin 1) ?loc (Fin 5) (dp_drivers sample_dispatcher)
      (FindNearestAvailable (\<lambda>_. Fin 1) ?order ?loc (Fin 5) (dp_drivers sample_dispatcher))"
    unfolding m [symmetric] by (rule FindNearest_reach [OF inv ride_DefaultConfig_ok cos_ok_const sample_visits]) (simp_all add: IsValidLocation_def)
  obtain d0 where d0: "driversByID (dp_drivers sample_online) ''DRV-000001'' = Some d0" by (simp add: sample_driver_state)
  have "FindNearestAvailable (\<lambda>_. Fin 1) ?order ?loc (Fin 5) (dp_drivers sample_dispatcher) \<noteq> Inl e" for e
    using spec sample_in_reach [of d0] d0 sample_distance [OF d0] by (auto simp: nearest_spec_def Let_def)
  then obtain d k where near: "FindNearestAvailable (\<lambda>_. Fin 1) ?order ?loc (Fin 5) (dp_drivers sample_dispatcher) = Inr (d, k)"
    by (metis obj_sumE surj_pair)
  note d = nearest_spec_Inr [OF spec [unfolded near]]
  have "mh_Pop request_less (dp_queue sample_dispatcher) = Some (sample_request, [])"
    by (simp add: sample_state mh_Pop_def)
  moreover have "\<not> isRequestExpired ride_DefaultConfig sample_request 6"
    by (simp add: isRequestExpired_def ride_DefaultConfig_def sample_request_def time_Sub_def)
  moreover have "rr_Pickup sample_request = ?loc" "dp_rideCounter sample_dispatcher = 0"
    by (simp_all add: sample_request_def sample_state sample_online_state)
  ultimately obtain st' r where "ProcessNextRequest (\<lambda>_. Fin 1) ?order 6 sample_dispatcher = (Inr r, st')"
      "assigned_state sample_dispatcher [] d rs r st'" "rd_ID r = ride_id 1"
    using Process_assigned [OF inv ride_DefaultConfig_ok, of sample_request "[]" 6 "\<lambda>_. Fin 1" ?order d k] near d m
    by (auto simp: assigned_ride_def Let_def)
  then show ?thesis using tk_List_rep rs by (auto simp: sample_assigned_def assigned_state_def)
qed

theorem complete_ride_correct_witness:
  "\<exists>r st'. CompleteRide (ride_id 1) 7 sample_assigned = Some (Inr r, st') \<and> rd_Status r = RideCompleted"
proof -
  obtain r where r: "tk_List (dp_active sample_assigned) = Some [r]" "rd_ID r = ride_id 1" using sample_assigned_rides by blast
  then show ?thesis
    using complete_ride_correct [OF sample_assigned_reachable ride_DefaultConfig_ok cos_ok_const [of 1], of "ride_id 1" 7] by auto
qed

section \<open>Near drivers\<close>

text \<open>
  C23. The two searches agree and do not depend on the orders in which they visit the maps: the
  drivers in range form a list, the nearest first and the least id first among equally near ones,
  of which the search for the nearest driver returns the first and the search for several a prefix.
\<close>

theorem nearest_searches_agree:
  assumes "ride_reachable cosine cfg st" "ride_cfg_ok cfg" "cos_ok cosine" "IsValidLocation loc" "0 < limit"
  shows "\<exists>ds. ranked cosine loc (MaxPickupDistanceKm cfg) (dp_drivers st) ds
    \<and> (\<forall>order. visits order (dp_drivers st) \<longrightarrow>
         FindNearestAvailable cosine order loc (MaxPickupDistanceKm cfg) (dp_drivers st) =
           (case ds of [] \<Rightarrow> Inl ErrNoDriverFound | d # _ \<Rightarrow> Inr (d, km_to cosine loc d))
         \<and> FindNNearestDrivers cosine order loc limit st =
           (if ds = [] then Inl ErrNoDriverFound else Inr (take (nat limit) ds)))"
proof -
  obtain rs where inv: "ride_inv cfg st rs" using reachable_inv [OF assms(1-3)] by blast
  note I = ride_invD [OF inv]
  have max: "0 < MaxPickupDistanceKm cfg" using assms(2) by (simp add: ride_cfg_ok_def)
  note many = FindNNearest_ranked [OF I(3) _ assms(3,4) max assms(5)]
  obtain ds where ds: "ranked cosine loc (MaxPickupDistanceKm cfg) (dp_drivers st) ds"
    using many [OF visits_some_order [OF I(3)]] by blast
  have "FindNNearestDrivers cosine order loc limit st = (if ds = [] then Inl ErrNoDriverFound else Inr (take (nat limit) ds))"
    if ord: "visits order (dp_drivers st)" for order
    using many [OF ord] ranked_unique [OF _ ds I(3) assms(3,4)] I(1) by (auto simp: FindNNearestDrivers_def)
  then show ?thesis using FindNearest_hd [OF I(3) _ assms(3,4) max ds] ds by blast
qed

theorem nearest_searches_agree_witness:
  "\<exists>ds. ranked (\<lambda>_. Fin 1) \<lparr>Lat = Fin 19, Lng = Fin 72\<rparr> (Fin 5) (dp_drivers sample_dispatcher) ds
    \<and> FindNNearestDrivers (\<lambda>_. Fin 1) (some_order (dp_drivers sample_dispatcher)) \<lparr>Lat = Fin 19, Lng = Fin 72\<rparr> 1 sample_dispatcher = Inr (take 1 ds)"
proof -
  have m: "MaxPickupDistanceKm ride_DefaultConfig = Fin 5" by (simp add: ride_DefaultConfig_def)
  obtain ds where ds: "ranked (\<lambda>_. Fin 1) \<lparr>Lat = Fin 19, Lng = Fin 72\<rparr> (Fin 5) (dp_drivers sample_dispatcher) ds"
    "FindNNearestDrivers (\<lambda>_. Fin 1) (some_order (dp_drivers sample_dispatcher)) \<lparr>Lat = Fin 19, Lng = Fin 72\<rparr> 1 sample_dispatcher =
      (if ds = [] then Inl ErrNoDriverFound else Inr (take (nat 1) ds))"
    using nearest_searches_agree [OF sample_reachable ride_DefaultConfig_ok cos_ok_const [of 1], of "\<lparr>Lat = Fin 19, Lng = Fin 72\<rparr>" 1]
      sample_visits unfolding m by (auto simp: IsValidLocation_def)
  obtain d0 where d0: "driversByID (dp_drivers sample_online) ''DRV-000001'' = Some d0" by (simp add: sample_driver_state)
  have "d0 \<in> set ds" using ds(1) sample_in_reach [of d0] d0 sample_distance [OF d0] by (simp add: ranked_def)
  then show ?thesis using ds by (intro exI [of _ ds]) auto
qed

section \<open>Drivers the cells miss\<close>

lemma math_Sqrt_le:
  assumes "0 \<le> q" "q \<le> of_int (n * n)" "0 < n" "n \<le> 2 ^ 53"
  shows "math_Sqrt (Fin q) \<le> Fin (of_int n)"
proof (cases "q = 0")
  case True
  then show ?thesis using assms(3) by (simp add: math_Sqrt_def)
next
  case False
  then have q: "0 < q" using assms(1) by simp
  define e where "e = ilog2 q div 2 - 60"
  define s where "s = q * pow2 (- 2 * e)"
  define r where "r = int (isqrt (nat \<lfloor>s\<rfloor>))"
  define m where "m = (if of_int (r * r) = s then of_int r else of_int r + 1 / 2 :: rat)"
  have sqrt: "math_Sqrt (Fin q) = round64 (m * pow2 e)"
    using q by (simp add: math_Sqrt_def Let_def e_def s_def r_def m_def)
  have "n * n \<le> 2 ^ 53 * 2 ^ 53" using assms(3,4) by (intro mult_mono) simp_all
  then have "n * n \<le> 2 ^ 106" by simp
  then have "of_int (n * n) \<le> (of_int (2 ^ 106) :: rat)" by (simp only: of_int_le_iff)
  also have "\<dots> = pow2 106" by (simp add: pow2_def)
  finally have "pow2 (ilog2 q) < pow2 107" using ilog2_bounds(1) [OF q] assms(2) pow2_less_iff [of 106 107] by linarith
  then have e: "0 \<le> - e" by (simp add: pow2_less_iff e_def)
  obtain k where k: "pow2 (- e) = of_int k" using pow2_int [OF e] by blast
  have kk: "pow2 (- 2 * e) = of_int (k * k)" using pow2_add [of "- e" "- e"] k by simp
  have k1: "of_int k * pow2 e = 1" using pow2_add [of "- e" e] k by simp
  have k0: "0 < k" using pow2_pos [of "- e"] k by simp
  have s0: "0 \<le> s" using q by (simp add: s_def)
  have "int (nat \<lfloor>s\<rfloor>) = \<lfloor>s\<rfloor>" using s0 by simp
  moreover have "int (isqrt (nat \<lfloor>s\<rfloor>) * isqrt (nat \<lfloor>s\<rfloor>)) \<le> int (nat \<lfloor>s\<rfloor>)" using isqrt_le by (simp only: of_nat_le_iff)
  then have "r * r \<le> int (nat \<lfloor>s\<rfloor>)" by (simp only: r_def of_nat_mult)
  ultimately have rs: "of_int (r * r) \<le> s" using le_floor_iff by fastforce
  have "s \<le> of_int (n * n) * of_int (k * k)" unfolding s_def kk using assms(2) by (intro mult_right_mono) simp_all
  then have sn: "s \<le> of_int ((n * k) * (n * k))" by (simp add: algebra_simps)
  have nk: "0 < n * k" "0 \<le> r" using assms(3) k0 by (simp_all add: r_def)
  have "of_int (r * r) \<le> (of_int ((n * k) * (n * k)) :: rat)" using rs sn by linarith
  then have "r * r \<le> (n * k) * (n * k)" by (simp only: of_int_le_iff)
  then have "r\<^sup>2 \<le> (n * k)\<^sup>2" by (simp only: power2_eq_square)
  then have rn: "r \<le> n * k" by (rule power2_le_imp_le) (use nk in linarith)
  have "m \<le> of_int (n * k)"
  proof (cases "of_int (r * r) = s")
    case True
    then have "m = of_int r" by (simp add: m_def)
    then show ?thesis using rn by (simp only: of_int_le_iff)
  next
    case False
    have "r \<noteq> n * k" using False rs sn by auto
    then have "r + 1 \<le> n * k" using rn by linarith
    then have "(of_int (r + 1) :: rat) \<le> of_int (n * k)" by (simp only: of_int_le_iff)
    then show ?thesis using False by (simp add: m_def)
  qed
  then have "m * pow2 e \<le> of_int (n * k) * pow2 e" by (intro mult_right_mono) simp_all
  also have "\<dots> = of_int n" using k1 by simp
  finally have "round64 (m * pow2 e) \<le> round64 (of_int n)" by (rule round64_le)
  then have "round64 (m * pow2 e) \<le> Fin (of_int n)" using round64_int [of n] assms(3,4) by simp
  then show ?thesis by (simp only: sqrt)
qed

text \<open>A driver at sixty and a half degrees north, 0.078 degrees of longitude from the pickup.\<close>

definition north_driver :: driver where
  "north_driver = sample_driver\<lparr>dr_Location := \<lparr>Lat = Fin (121 / 2), Lng = Fin (1317 / 64)\<rparr>\<rparr>"

definition north_pickup :: location where
  "north_pickup = \<lparr>Lat = Fin (121 / 2), Lng = Fin (41 / 2)\<rparr>"

definition north_store :: driver_store where
  "north_store = snd (ds_GoOnline ''DRV-000001'' (snd (ds_Register (Some north_driver) (ds_NewMemoryStore ride_DefaultConfig))))"

lemma north_store_inv: "ds_inv north_store"
  unfolding north_store_def by (intro ds_status_inv ds_Register_inv New_ds_inv)

lemma north_store_drivers:
  "\<exists>d. driversByID north_store = [''DRV-000001'' \<mapsto> d] \<and> dr_Status d = DriverAvailable \<and> dr_ID d = ''DRV-000001''
     \<and> dr_Location d = dr_Location north_driver \<and> dr_BlockID d = GetBlockID (dr_Location north_driver) (CellSizeDegrees ride_DefaultConfig)"
  "ds_cfg north_store = ride_DefaultConfig"
proof -
  let ?d = "north_driver\<lparr>dr_Status := DriverOffline, dr_BlockID := GetBlockID (dr_Location north_driver) (CellSizeDegrees ride_DefaultConfig)\<rparr>"
  let ?s0 = "ds_NewMemoryStore ride_DefaultConfig"
  have id: "dr_ID north_driver = ''DRV-000001''" by (simp add: north_driver_def sample_driver_def)
  have s0: "driversByID ?s0 = Map.empty" "ds_cfg ?s0 = ride_DefaultConfig" by (simp_all add: ds_NewMemoryStore_def)
  have "IsValidDriver (Some north_driver)"
    by (simp add: IsValidDriver_def north_driver_def sample_driver_def not_blank ascii_ink_def IsValidLocation_def zero_f64_def)
  then have reg: "snd (ds_Register (Some north_driver) ?s0) = set_driver ?d ?s0"
    using id s0 by (simp add: ds_Register_def)
  have "\<not> blank ''DRV-000001''" by (simp add: not_blank ascii_ink_def)
  then have store: "north_store = make_available ?d (set_driver ?d ?s0)"
    using id by (simp add: north_store_def reg ds_GoOnline_def)
  show "ds_cfg north_store = ride_DefaultConfig" using s0 by (simp add: store make_available_def Let_def)
  show "\<exists>d. driversByID north_store = [''DRV-000001'' \<mapsto> d] \<and> dr_Status d = DriverAvailable \<and> dr_ID d = ''DRV-000001''
     \<and> dr_Location d = dr_Location north_driver \<and> dr_BlockID d = GetBlockID (dr_Location north_driver) (CellSizeDegrees ride_DefaultConfig)"
    using id s0 by (intro exI [of _ "?d\<lparr>dr_Status := DriverAvailable\<rparr>"]) (simp add: store make_available_def Let_def north_driver_def sample_driver_def)
qed

lemma north_distance:
  assumes "cosine (Fin (121 / 2) * math_Pi / Fin 180) = Fin c" "\<bar>c\<bar> \<le> 51 / 100" "dr_Location d = dr_Location north_driver"
  shows "km_to cosine north_pickup d \<le> Fin 5"
proof -
  have p: "pow2 (- 6) = 1 / 64" by (simp add: pow2_def)
  have diff: "round64 (- (5 / 64)) = Fin (- (5 / 64))" "round64 (- (555 / 64)) = Fin (- (555 / 64))" "round64 0 = Fin 0"
    using round64_dyadic [of "- 5" "- 6"] round64_dyadic [of "- 555" "- 6"] round64_int [of 0] by (simp_all add: p)
  let ?y = "round64 (- (555 / 64) * c)"
  have "\<bar>- (555 / 64) * c\<bar> \<le> of_int 5" using assms(2) by (simp add: abs_mult)
  then have y: "bounded 5 ?y" by (intro bounded_round) simp_all
  then have "bounded (5 * 5) (?y * ?y)" by (intro bounded_times) simp_all
  then obtain w where w: "?y * ?y = Fin w" "\<bar>w\<bar> \<le> 25" by (auto simp: bounded_def)
  have "?y \<noteq> NaN" using y by (auto simp: bounded_def)
  from square_nonneg [OF this] have "0 \<le> w" using w(1) by (simp add: zero_f64_def)
  then have "of_int 0 \<le> w" "w \<le> of_int 25" using w(2) by simp_all
  from round64_int_bounds [OF this] obtain v where v: "round64 w = Fin v" "0 \<le> v" "v \<le> 25" by auto
  have "km_to cosine north_pickup d = math_Sqrt (Fin v)"
    using assms(1,3) diff w(1) v(1)
    by (simp add: km_to_def DistanceKm_def north_pickup_def north_driver_def minus_f64_def Let_def)
  then show ?thesis using math_Sqrt_le [of v 5] v by simp
qed

lemma floor_div_bounds:
  assumes q: "9999 / 1000000 \<le> q" "q \<le> 10001 / 1000000" and a: "of_int m * q \<le> x" "x \<le> of_int n * q" "0 \<le> m" "n \<le> 2 ^ 53"
  shows "m \<le> f64_to_int (math_Floor (Fin x / Fin q))" "f64_to_int (math_Floor (Fin x / Fin q)) \<le> n"
proof -
  have q0: "0 < q" using q(1) by linarith
  then have "of_int m \<le> x / q" "x / q \<le> of_int n" using a by (simp_all add: field_simps)
  from round64_int_bounds [OF this a(3,4)] obtain k where k: "round64 (x / q) = Fin k" "of_int m \<le> k" "k \<le> of_int n" by blast
  have "m \<le> \<lfloor>k\<rfloor>" "\<lfloor>k\<rfloor> \<le> n" using k(2,3) by linarith+
  moreover have "in_int64 j" if "m \<le> j" "j \<le> n" for j using that a(3,4) by (simp add: in_int64_def)
  then have "in_int64 \<lfloor>k\<rfloor>" using \<open>m \<le> \<lfloor>k\<rfloor>\<close> \<open>\<lfloor>k\<rfloor> \<le> n\<close> by blast
  moreover have "0 \<le> k" using k(2) a(3) by linarith
  ultimately show "m \<le> f64_to_int (math_Floor (Fin x / Fin q))" "f64_to_int (math_Floor (Fin x / Fin q)) \<le> n"
    using q0 k(1) by (simp_all add: math_Floor_def f64_to_int_def Let_def)
qed

lemma north_out_of_reach: "\<not> in_reach north_store north_pickup d"
proof
  assume "in_reach north_store north_pickup d"
  let ?cell = "CellSizeDegrees ride_DefaultConfig" and ?ring = "NeighborRing ride_DefaultConfig"
  obtain q where q: "?cell = Fin q" "9999 / 1000000 \<le> q" "q \<le> 10001 / 1000000" using cell_bounds by blast
  have "dr_BlockID d = GetBlockID (dr_Location north_driver) ?cell"
    using \<open>in_reach north_store north_pickup d\<close> north_store_drivers(1) by (auto simp: in_reach_def split: if_splits)
  then have near: "GetBlockID (dr_Location north_driver) ?cell \<in> set (NeighborBlocks (GetBlockID north_pickup ?cell) ?ring)"
    using \<open>in_reach north_store north_pickup d\<close> north_store_drivers(2) by (simp add: in_reach_def)
  let ?b = "snd (GetBlockID (dr_Location north_driver) ?cell)" and ?c = "snd (GetBlockID north_pickup ?cell)"
  have w: "wrap64 (- ?ring) = - ?ring" by (simp add: ring_5 wrap64_id in_int64_def)
  obtain k where k: "?b = wrap64 (?c + k)" "- ?ring \<le> k" "k \<le> ?ring"
    using near unfolding NeighborBlocks_def w by auto
  have b: "2057 \<le> ?b" "?b \<le> 2100"
    using floor_div_bounds [OF q(2,3), of 2057 "1317 / 64" 2100] q by (simp_all add: GetBlockID_def north_driver_def)
  have c: "2000 \<le> ?c" "?c \<le> 2051"
    using floor_div_bounds [OF q(2,3), of 2000 "41 / 2" 2051] q by (simp_all add: GetBlockID_def north_pickup_def)
  have "wrap64 (?c + k) = ?c + k" using c k(2,3) ring_5 by (intro wrap64_id) (simp add: in_int64_def)
  then show False using k b c ring_5 by linarith
qed

text \<open>
  The cells to search are computed as if a degree of longitude were 111 km long everywhere,
  while distances use the cosine of the latitude.  With the default configuration and the only
  driver at 60.5 degrees north, less than 5 km from the pickup and available, the search answers
  that there is no driver.
\<close>

theorem search_misses_northern_driver:
  assumes "cos_ok cosine" "cosine (Fin (121 / 2) * math_Pi / Fin 180) = Fin c" "\<bar>c\<bar> \<le> 51 / 100" "visits order north_store"
  shows "(\<exists>d. driversByID north_store ''DRV-000001'' = Some d \<and> dr_Status d = DriverAvailable
       \<and> DistanceKm cosine north_pickup (dr_Location d) \<le> MaxPickupDistanceKm ride_DefaultConfig)
    \<and> FindNearestAvailable cosine order north_pickup (MaxPickupDistanceKm ride_DefaultConfig) north_store = Inl ErrNoDriverFound"
proof -
  have m: "MaxPickupDistanceKm ride_DefaultConfig = Fin 5" by (simp add: ride_DefaultConfig_def)
  have "IsValidLocation north_pickup" by (simp add: IsValidLocation_def north_pickup_def)
  then have "nearest_spec cosine north_pickup (Fin 5) north_store (FindNearestAvailable cosine order north_pickup (Fin 5) north_store)"
    using FindNearest_least [OF north_store_inv assms(4,1)] by (simp add: zero_f64_def)
  then have "FindNearestAvailable cosine order north_pickup (Fin 5) north_store = Inl ErrNoDriverFound"
    using north_out_of_reach by (auto simp: nearest_spec_def Let_def split: sum.splits prod.splits)
  moreover obtain d where "driversByID north_store = [''DRV-000001'' \<mapsto> d]" "dr_Status d = DriverAvailable" "dr_Location d = dr_Location north_driver"
    using north_store_drivers(1) by blast
  ultimately show ?thesis using north_distance [where cosine = cosine and c = c and d = d] assms(2,3) by (simp add: m km_to_def)
qed

theorem search_misses_northern_driver_witness:
  "FindNearestAvailable (\<lambda>_. Fin (1 / 2)) (some_order north_store) north_pickup (MaxPickupDistanceKm ride_DefaultConfig) north_store
     = Inl ErrNoDriverFound"
  using search_misses_northern_driver [of "\<lambda>_. Fin (1 / 2)" "1 / 2" "some_order north_store"]
    cos_ok_const [of "1 / 2"] visits_some_order [OF north_store_inv] by simp

section \<open>Busy zones\<close>

lemma count_blocks:
  "fold (count_block cell) rs m b =
     (let n = int (length (filter (\<lambda>r. GetBlockID (rr_Pickup r) cell = b) rs))
      in case m b of None \<Rightarrow> if n = 0 then None else Some n | Some k \<Rightarrow> Some (k + n))"
proof (induction rs arbitrary: m)
  case (Cons r rs)
  show ?case unfolding fold.simps o_apply Cons.IH
    by (auto simp: count_block_def Let_def split: option.splits)
qed (simp split: option.splits)

interpretation zone_order: strict_weak_order zone_less "\<lambda>_. True"
  by unfold_locales (auto simp: zone_less_def split: if_splits)

text \<open>The number of waiting requests in a block.\<close>

definition waiting_in :: "dispatcher \<Rightarrow> block_id \<Rightarrow> int" where
  "waiting_in st b = int (length (filter (\<lambda>r. GetBlockID (rr_Pickup r) (CellSizeDegrees (dp_cfg st)) = b) (dp_queue st)))"

text \<open>
  The busiest zones are the blocks with waiting requests, each once with their number, the
  fullest first and by their coordinates among equally full ones, cut off at the limit; the order in
  which the map of counts is visited does not matter.
\<close>

theorem busiest_zones_correct:
  assumes "0 < limit"
  shows "\<exists>zs. set zs = {(b, waiting_in st b) | b. 0 < waiting_in st b} \<and> sorted_wrt zone_less zs
    \<and> (\<forall>order. (\<forall>m. finite (dom m) \<longrightarrow> iterates (order m) m) \<longrightarrow> BusiestZones order limit st = take (nat limit) zs)"
proof -
  let ?m = "fold (count_block (CellSizeDegrees (dp_cfg st))) (dp_queue st) Map.empty"
  let ?zs = "\<lambda>ks. sort_slice zone_less (List.map_filter (\<lambda>b. map_option (Pair b) (?m b)) ks)"
  have m: "?m b = (if waiting_in st b = 0 then None else Some (waiting_in st b))" for b
    by (simp add: count_blocks waiting_in_def Let_def)
  have "dom ?m \<subseteq> (\<lambda>r. GetBlockID (rr_Pickup r) (CellSizeDegrees (dp_cfg st))) ` set (dp_queue st)"
  proof
    fix b assume "b \<in> dom ?m"
    then have "0 \<noteq> length (filter (\<lambda>r. GetBlockID (rr_Pickup r) (CellSizeDegrees (dp_cfg st)) = b) (dp_queue st))"
      unfolding domIff m waiting_in_def by auto
    then show "b \<in> (\<lambda>r. GetBlockID (rr_Pickup r) (CellSizeDegrees (dp_cfg st))) ` set (dp_queue st)"
      by (auto simp: filter_empty_conv)
  qed
  then have fin: "finite (dom ?m)" by (rule finite_subset) simp
  have zs: "set (?zs ks) = {(b, waiting_in st b) | b. 0 < waiting_in st b}" "sorted_wrt zone_less (?zs ks)" if ks: "iterates ks ?m" for ks
  proof -
    have pos: "0 \<le> waiting_in st b" for b by (simp add: waiting_in_def)
    have mf: "List.map_filter (\<lambda>b. map_option (Pair b) (?m b)) ks = map (\<lambda>b. (b, waiting_in st b)) ks"
    proof -
      have "\<forall>b\<in>set ks. ?m b = Some (waiting_in st b)" using iterates_mem [OF ks] unfolding m by (auto split: if_splits)
      then show ?thesis by (induction ks) (simp_all add: List.map_filter_simps)
    qed
    have dom: "set ks = {b. 0 < waiting_in st b}" using iterates_mem [OF ks] pos unfolding m by (auto simp: less_le split: if_splits)
    show "set (?zs ks) = {(b, waiting_in st b) | b. 0 < waiting_in st b}" unfolding set_sort_slice mf using dom by auto
    show "sorted_wrt zone_less (?zs ks)"
      unfolding mf
    proof (rule zone_order.sort_slice_total)
      show "distinct (map (\<lambda>b. (b, waiting_in st b)) ks)" using ks by (simp add: iterates_def distinct_map inj_on_def)
    qed (auto simp: zone_less_def)
  qed
  obtain ks where ks: "iterates ks ?m" using finite_distinct_list [OF fin] by (auto simp: iterates_def)
  have same: "?zs ks' = ?zs ks" if "iterates ks' ?m" for ks'
    by (rule zone_order.sorted_unique) (simp_all only: zs [OF that] zs [OF ks] simp_thms ball_triv)
  have "BusiestZones order limit st = take (nat limit) (?zs ks)" if "\<forall>m. finite (dom m) \<longrightarrow> iterates (order m) m" for order
  proof (cases "dp_queue st = []")
    case True
    then have "?zs ks = []" using ks by (simp add: iterates_def List.map_filter_simps)
    then show ?thesis using True assms by (simp add: BusiestZones_def rq_Snapshot_def mh_Items_def)
  next
    case False
    have cut: "take (nat (if int (length xs) < limit then int (length xs) else limit)) xs = take (nat limit) xs" for xs :: "(block_id \<times> int) list"
      by simp
    have "BusiestZones order limit st = take (nat limit) (?zs (order ?m))"
      using False assms unfolding BusiestZones_def rq_Snapshot_def mh_Items_def Let_def cut by simp
    also have "?zs (order ?m) = ?zs ks" using same fin that by blast
    finally show ?thesis .
  qed
  then show ?thesis using zs [OF ks] by blast
qed

theorem busiest_zones_correct_witness:
  "\<exists>zs. set zs = {(b, waiting_in sample_dispatcher b) | b. 0 < waiting_in sample_dispatcher b} \<and> sorted_wrt zone_less zs"
  using busiest_zones_correct [of 1 sample_dispatcher] by auto

end
