(* ===== verification/Expr_Eval.thy ===== *)
theory Expr_Eval
  imports Go_Strconv
begin

text \<open>
  The expression evaluator (\<open>08-day/exp-evaluator/internal\<close>): the tokenizer, the conversion to
  postfix notation, the stack machine and the bracket check.

  An error is a value of \<open>eval_error\<close>; the texts that \<open>fmt.Errorf\<close> puts around an error are left out,
  as \<open>errors.Is\<close> and \<open>errors.As\<close> look through them.  An outer \<open>None\<close> is a panic.  \<open>math.Pow\<close> is the
  argument \<open>pow\<close>; the sign of a zero, which \<open>f64\<close> does not have, could only matter to it.
\<close>

section \<open>Stack\<close>

text \<open>The slice of items; the top is its last element.\<close>

type_synonym 'a stack = "'a list"

definition st_Push :: "'a stack \<Rightarrow> 'a \<Rightarrow> 'a stack" where
  "st_Push items val = items @ [val]"

definition st_Pop :: "'a stack \<Rightarrow> ('a \<times> 'a stack) option" where
  "st_Pop items = (if length items = 0 then None else Some (items ! (length items - 1), take (length items - 1) items))"

definition st_Peek :: "'a stack \<Rightarrow> 'a option" where
  "st_Peek items = (if length items = 0 then None else Some (items ! (length items - 1)))"

text \<open>\<open>None\<close> is the panic.\<close>

definition st_MustPeek :: "'a stack \<Rightarrow> 'a option" where
  "st_MustPeek items = (if length items = 0 then None else Some (items ! (length items - 1)))"

definition st_MustPop :: "'a stack \<Rightarrow> ('a \<times> 'a stack) option" where
  "st_MustPop items = (if length items = 0 then None else Some (items ! (length items - 1), take (length items - 1) items))"

definition st_Size :: "'a stack \<Rightarrow> nat" where
  "st_Size items = length items"

definition st_IsEmpty :: "'a stack \<Rightarrow> bool" where
  "st_IsEmpty items \<longleftrightarrow> length items = 0"

lemma stack_simps [simp]:
  "st_Push xs x = xs @ [x]" "st_Pop xs = (if xs = [] then None else Some (last xs, butlast xs))"
  "st_MustPeek xs = (if xs = [] then None else Some (last xs))" "st_MustPop xs = (if xs = [] then None else Some (last xs, butlast xs))"
  "st_Size xs = length xs" "st_IsEmpty xs \<longleftrightarrow> xs = []"
  by (simp_all add: st_Push_def st_Pop_def st_MustPeek_def st_MustPop_def st_Size_def st_IsEmpty_def last_conv_nth butlast_conv_take)

lemma st_MustPop_length: "st_MustPop st = Some (x, st') \<Longrightarrow> length st' < length st"
  by (auto simp: st_MustPop_def split: if_splits)

section \<open>Tokens\<close>

datatype token_type = TokenNumber | TokenOperator | TokenLeftParen | TokenRightParen

datatype assoc = LeftAssoc | RightAssoc

record op_meta =
  Precedence :: int
  op_Assoc :: assoc

definition ops :: "char \<rightharpoonup> op_meta" where
  "ops = [CHR ''+'' \<mapsto> \<lparr>Precedence = 1, op_Assoc = LeftAssoc\<rparr>, CHR ''-'' \<mapsto> \<lparr>Precedence = 1, op_Assoc = LeftAssoc\<rparr>,
     CHR ''*'' \<mapsto> \<lparr>Precedence = 2, op_Assoc = LeftAssoc\<rparr>, CHR ''/'' \<mapsto> \<lparr>Precedence = 2, op_Assoc = LeftAssoc\<rparr>,
     CHR ''^'' \<mapsto> \<lparr>Precedence = 3, op_Assoc = RightAssoc\<rparr>]"

definition IsOperator :: "char \<Rightarrow> bool" where
  "IsOperator r \<longleftrightarrow> ops r \<noteq> None"

text \<open>A missing key gives the zero value.\<close>

definition OpPrecedence :: "char \<Rightarrow> int" where
  "OpPrecedence r = (case ops r of None \<Rightarrow> 0 | Some m \<Rightarrow> Precedence m)"

definition OpAssoc :: "char \<Rightarrow> assoc" where
  "OpAssoc r = (case ops r of None \<Rightarrow> LeftAssoc | Some m \<Rightarrow> op_Assoc m)"

record token =
  tok_Type :: token_type
  tok_Value :: f64
  tok_Op :: char
  tok_Pos :: nat

text \<open>The zero rune of a token without an operator.\<close>

definition no_op :: char where
  "no_op = CHR 0x00"

definition number_token :: "f64 \<Rightarrow> nat \<Rightarrow> token" where
  "number_token v i = \<lparr>tok_Type = TokenNumber, tok_Value = v, tok_Op = no_op, tok_Pos = i\<rparr>"

definition operator_token :: "char \<Rightarrow> nat \<Rightarrow> token" where
  "operator_token c i = \<lparr>tok_Type = TokenOperator, tok_Value = 0, tok_Op = c, tok_Pos = i\<rparr>"

definition paren_token :: "token_type \<Rightarrow> nat \<Rightarrow> token" where
  "paren_token t i = \<lparr>tok_Type = t, tok_Value = 0, tok_Op = no_op, tok_Pos = i\<rparr>"

text \<open>The message of a syntax error, by what it quotes.\<close>

datatype syntax_message = MultiplePoints string | CannotParse string | UnexpectedCharacter char

datatype eval_error =
    ErrEmptyExpression
  | ErrDivisionByZero nat
  | ErrMissingOperand char nat
  | ErrMissingOperator nat
  | UnknownOperator char
  | SyntaxError string nat syntax_message
  | MismatchError "char option" int "char option" int
  | InternalError

section \<open>Tokenizer\<close>

definition number_char :: "char \<Rightarrow> bool" where
  "number_char c \<longleftrightarrow> is_digit c \<or> c = CHR ''.''"

text \<open>The literal that starts at \<open>i\<close>.\<close>

definition literal_at :: "string \<Rightarrow> nat \<Rightarrow> string" where
  "literal_at expr i = takeWhile number_char (drop i expr)"

function tokenize_loop :: "string \<Rightarrow> nat \<Rightarrow> token list \<Rightarrow> eval_error + token list" where
  "tokenize_loop expr i tokens =
     (if length expr \<le> i then Inr tokens
      else (let ch = expr ! i
       in if ch = CHR '' '' \<or> ch = CHR 0x0A \<or> ch = CHR 0x09 then tokenize_loop expr (i + 1) tokens
          else if is_digit ch \<or> ch = CHR ''.'' then
            (let lit = literal_at expr i
             in if 1 < length (filter (\<lambda>c. c = CHR ''.'') lit) then Inl (SyntaxError expr i (MultiplePoints lit))
                else (case ParseFloat lit of
                        None \<Rightarrow> Inl (SyntaxError expr i (CannotParse lit))
                      | Some num \<Rightarrow> tokenize_loop expr (i + length lit) (tokens @ [number_token num i])))
          else if IsOperator ch then tokenize_loop expr (i + 1) (tokens @ [operator_token ch i])
          else if ch = CHR ''('' then tokenize_loop expr (i + 1) (tokens @ [paren_token TokenLeftParen i])
          else if ch = CHR '')'' then tokenize_loop expr (i + 1) (tokens @ [paren_token TokenRightParen i])
          else Inl (SyntaxError '''' 0 (UnexpectedCharacter ch))))"
  by pat_completeness auto
termination
proof (relation "measure (\<lambda>(expr, i, _). length expr - i)")
  fix expr i tokens ch lit num
  assume a: "\<not> length expr \<le> i" "ch = expr ! i" "is_digit ch \<or> ch = CHR ''.''" "lit = literal_at expr i"
  have "drop i expr = ch # drop (i + 1) expr" using a(1,2) by (simp add: Cons_nth_drop_Suc)
  then have "0 < length lit" using a(3,4) by (simp add: literal_at_def number_char_def)
  then show "((expr, i + length lit, tokens @ [number_token num i]), expr, i, tokens) \<in> measure (\<lambda>(expr, i, _). length expr - i)"
    using a(1) by (simp add: diff_less_mono2 del: length_greater_0_conv)
qed auto

declare tokenize_loop.simps [simp del]

definition expr_Tokenize :: "string \<Rightarrow> eval_error + token list" where
  "expr_Tokenize expr =
     (if TrimSpace expr = '''' then Inl ErrEmptyExpression
      else (case tokenize_loop expr 0 [] of
              Inl e \<Rightarrow> Inl e
            | Inr tokens \<Rightarrow> if length tokens = 0 then Inl ErrEmptyExpression else Inr tokens))"

section \<open>Conversion to postfix notation\<close>

definition should_pop :: "token \<Rightarrow> token \<Rightarrow> bool" where
  "should_pop upper tok =
     (let topPrec = OpPrecedence (tok_Op upper); curPrec = OpPrecedence (tok_Op tok); curAssoc = OpAssoc (tok_Op tok)
      in curPrec < topPrec \<or> (topPrec = curPrec \<and> curAssoc = LeftAssoc))"

text \<open>The loop of an operator: moves operators to the output while they bind tighter.\<close>

function pop_operators :: "token \<Rightarrow> token stack \<Rightarrow> token list \<Rightarrow> (token stack \<times> token list) option" where
  "pop_operators tok st output =
     (if st_IsEmpty st then Some (st, output)
      else (case st_MustPeek st of
              None \<Rightarrow> None
            | Some upper \<Rightarrow>
                if tok_Type upper \<noteq> TokenOperator then Some (st, output)
                else if \<not> should_pop upper tok then Some (st, output)
                else (case st_MustPop st of
                        None \<Rightarrow> None
                      | Some (x, st') \<Rightarrow> pop_operators tok st' (output @ [x]))))"
  by pat_completeness auto
termination
  by (relation "measure (\<lambda>(_, st, _). length st)") (auto dest: st_MustPop_length)

text \<open>The loop of a right parenthesis: whether a left one was found, the stack and the output.\<close>

function pop_to_paren :: "token stack \<Rightarrow> token list \<Rightarrow> (bool \<times> token stack \<times> token list) option" where
  "pop_to_paren st output =
     (if st_IsEmpty st then Some (False, st, output)
      else (case st_MustPop st of
              None \<Rightarrow> None
            | Some (upper, st') \<Rightarrow>
                if tok_Type upper = TokenLeftParen then Some (True, st', output) else pop_to_paren st' (output @ [upper])))"
  by pat_completeness auto
termination
  by (relation "measure (\<lambda>(st, _). length st)") (auto dest: st_MustPop_length)

function drain_operators :: "token stack \<Rightarrow> token list \<Rightarrow> (eval_error + token list) option" where
  "drain_operators st output =
     (if st_IsEmpty st then Some (Inr output)
      else (case st_MustPop st of
              None \<Rightarrow> None
            | Some (upper, st') \<Rightarrow>
                if tok_Type upper = TokenLeftParen then Some (Inl (MismatchError (Some (CHR ''('')) (int (tok_Pos upper)) None (- 1)))
                else drain_operators st' (output @ [upper])))"
  by pat_completeness auto
termination
  by (relation "measure (\<lambda>(st, _). length st)") (auto dest: st_MustPop_length)

declare pop_operators.simps [simp del] pop_to_paren.simps [simp del] drain_operators.simps [simp del]

definition postfix_step :: "token \<Rightarrow> token stack \<Rightarrow> token list \<Rightarrow> (eval_error + token stack \<times> token list) option" where
  "postfix_step tok st output =
     (case tok_Type tok of
        TokenNumber \<Rightarrow> Some (Inr (st, output @ [tok]))
      | TokenOperator \<Rightarrow> map_option (\<lambda>(st, output). Inr (st_Push st tok, output)) (pop_operators tok st output)
      | TokenLeftParen \<Rightarrow> Some (Inr (st_Push st tok, output))
      | TokenRightParen \<Rightarrow>
          map_option (\<lambda>(foundLeft, st, output).
            if foundLeft then Inr (st, output) else Inl (MismatchError None (- 1) (Some (CHR '')'')) (int (tok_Pos tok))))
            (pop_to_paren st output))"

fun postfix_loop :: "token list \<Rightarrow> token stack \<Rightarrow> token list \<Rightarrow> (eval_error + token stack \<times> token list) option" where
  "postfix_loop [] st output = Some (Inr (st, output))"
| "postfix_loop (tok # tokens) st output =
     (case postfix_step tok st output of
        None \<Rightarrow> None
      | Some (Inl e) \<Rightarrow> Some (Inl e)
      | Some (Inr (st', output')) \<Rightarrow> postfix_loop tokens st' output')"

definition InfixToPostfix :: "token list \<Rightarrow> (eval_error + token list) option" where
  "InfixToPostfix tokens =
     (case postfix_loop tokens [] [] of
        None \<Rightarrow> None
      | Some (Inl e) \<Rightarrow> Some (Inl e)
      | Some (Inr (st, output)) \<Rightarrow> drain_operators st output)"

section \<open>Evaluation\<close>

definition apply_op :: "(f64 \<Rightarrow> f64 \<Rightarrow> f64) \<Rightarrow> token \<Rightarrow> f64 \<Rightarrow> f64 \<Rightarrow> eval_error + f64" where
  "apply_op pow tok left right =
     (if tok_Op tok = CHR ''+'' then Inr (left + right)
      else if tok_Op tok = CHR ''-'' then Inr (left - right)
      else if tok_Op tok = CHR ''*'' then Inr (left * right)
      else if tok_Op tok = CHR ''/'' then (if right = 0 then Inl (ErrDivisionByZero (tok_Pos tok)) else Inr (left / right))
      else if tok_Op tok = CHR ''^'' then Inr (pow left right)
      else Inl (UnknownOperator (tok_Op tok)))"

text \<open>One token; \<open>None\<close> is a panic.\<close>

definition eval_step :: "(f64 \<Rightarrow> f64 \<Rightarrow> f64) \<Rightarrow> token \<Rightarrow> f64 stack \<Rightarrow> (eval_error + f64 stack) option" where
  "eval_step pow tok operands =
     (case tok_Type tok of
        TokenNumber \<Rightarrow> Some (Inr (st_Push operands (tok_Value tok)))
      | TokenOperator \<Rightarrow>
          if st_Size operands < 2 then Some (Inl (ErrMissingOperand (tok_Op tok) (tok_Pos tok)))
          else (case st_MustPop operands of
                  None \<Rightarrow> None
                | Some (right, operands) \<Rightarrow>
                    (case st_MustPop operands of
                       None \<Rightarrow> None
                     | Some (left, operands) \<Rightarrow>
                         (case apply_op pow tok left right of
                            Inl e \<Rightarrow> Some (Inl e)
                          | Inr v \<Rightarrow> Some (Inr (st_Push operands v)))))
      | _ \<Rightarrow> Some (Inr operands))"

fun eval_loop :: "(f64 \<Rightarrow> f64 \<Rightarrow> f64) \<Rightarrow> token list \<Rightarrow> f64 stack \<Rightarrow> (eval_error + f64 stack) option" where
  "eval_loop pow [] operands = Some (Inr operands)"
| "eval_loop pow (tok # tokens) operands =
     (case eval_step pow tok operands of
        None \<Rightarrow> None
      | Some (Inl e) \<Rightarrow> Some (Inl e)
      | Some (Inr operands') \<Rightarrow> eval_loop pow tokens operands')"

text \<open>The deferred recovery turns a panic into an error.\<close>

definition EvaluatePostFix :: "(f64 \<Rightarrow> f64 \<Rightarrow> f64) \<Rightarrow> token list \<Rightarrow> eval_error + f64" where
  "EvaluatePostFix pow tokens =
     (case eval_loop pow tokens [] of
        None \<Rightarrow> Inl InternalError
      | Some (Inl e) \<Rightarrow> Inl e
      | Some (Inr operands) \<Rightarrow>
          if st_Size operands \<noteq> 1 then Inl (ErrMissingOperator (st_Size operands))
          else (case st_MustPop operands of None \<Rightarrow> Inl InternalError | Some (v, _) \<Rightarrow> Inr v))"

definition Evaluate :: "(f64 \<Rightarrow> f64 \<Rightarrow> f64) \<Rightarrow> string \<Rightarrow> (eval_error + f64) option" where
  "Evaluate pow expr =
     (case expr_Tokenize expr of
        Inl e \<Rightarrow> Some (Inl e)
      | Inr tokens \<Rightarrow>
          (case InfixToPostfix tokens of
             None \<Rightarrow> None
           | Some (Inl e) \<Rightarrow> Some (Inl e)
           | Some (Inr postfix) \<Rightarrow> Some (EvaluatePostFix pow postfix)))"

section \<open>Brackets\<close>

text \<open>
  The range over the string visits runes at their byte positions.  A byte of a longer rune is never
  a bracket, so visiting bytes is the same.
\<close>

definition bracket_pairs :: "char \<rightharpoonup> char" where
  "bracket_pairs = [CHR '')'' \<mapsto> CHR ''('', CHR '']'' \<mapsto> CHR ''['', CHR ''}'' \<mapsto> CHR ''{'', CHR ''>'' \<mapsto> CHR ''<'']"

definition is_open :: "char \<Rightarrow> bool" where
  "is_open ch \<longleftrightarrow> ch = CHR ''('' \<or> ch = CHR ''['' \<or> ch = CHR ''{''"

fun bracket_loop :: "string \<Rightarrow> nat \<Rightarrow> (char \<times> nat) stack \<Rightarrow> eval_error + (char \<times> nat) stack" where
  "bracket_loop [] pos st = Inr st"
| "bracket_loop (ch # rest) pos st =
     (if is_open ch then bracket_loop rest (pos + 1) (st_Push st (ch, pos))
      else (case bracket_pairs ch of
              None \<Rightarrow> bracket_loop rest (pos + 1) st
            | Some expected \<Rightarrow>
                (case st_Pop st of
                   None \<Rightarrow> Inl (MismatchError None (- 1) (Some ch) (int pos))
                 | Some ((r, p), st') \<Rightarrow>
                     if r \<noteq> expected then Inl (MismatchError (Some r) (int p) (Some ch) (int pos))
                     else bracket_loop rest (pos + 1) st')))"

definition BracketMatch :: "string \<Rightarrow> eval_error option" where
  "BracketMatch expr =
     (case bracket_loop expr 0 [] of
        Inl e \<Rightarrow> Some e
      | Inr st \<Rightarrow>
          (case st_Pop st of
             None \<Rightarrow> None
           | Some ((r, p), _) \<Rightarrow> Some (MismatchError (Some r) (int p) None (- 1))))"

end
