(* ===== verification/Expr_Correct.thy ===== *)
theory Expr_Correct
  imports Expr_Eval
begin

text \<open>
  Correctness of the expression evaluator: a text laid out from the lexemes of an expression is
  evaluated to the value of the expression, nothing panics, and the bracket check accepts exactly
  the balanced texts.
\<close>

section \<open>Expressions\<close>

text \<open>The operands and operators of an expression are the tokens that stand for them.\<close>

datatype expr = Lit token | Bin token expr expr

fun postorder :: "expr \<Rightarrow> token list" where
  "postorder (Lit t) = [t]"
| "postorder (Bin t a b) = postorder a @ postorder b @ [t]"

text \<open>Operands are evaluated from left to right; the first error is the result.\<close>

fun eval_expr :: "(f64 \<Rightarrow> f64 \<Rightarrow> f64) \<Rightarrow> expr \<Rightarrow> eval_error + f64" where
  "eval_expr pow (Lit t) = Inr (tok_Value t)"
| "eval_expr pow (Bin t a b) =
     (case eval_expr pow a of
        Inl e \<Rightarrow> Inl e
      | Inr x \<Rightarrow> (case eval_expr pow b of Inl e \<Rightarrow> Inl e | Inr y \<Rightarrow> apply_op pow t x y))"

text \<open>
  The grammar: \<open>renders k e ts\<close> says that \<open>ts\<close> is a way to write \<open>e\<close> where an operator must bind at
  least as tightly as level \<open>k\<close>.  The operands of a left-associative operator of level \<open>p\<close> are at the
  levels \<open>p\<close> and \<open>p + 1\<close>, those of a right-associative one at \<open>p + 1\<close> and \<open>p\<close>; parentheses may stand
  around any operand.
\<close>

inductive renders :: "int \<Rightarrow> expr \<Rightarrow> token list \<Rightarrow> bool" where
  literal: "tok_Type t = TokenNumber \<Longrightarrow> renders k (Lit t) [t]"
| parens: "renders 1 e ts \<Longrightarrow> tok_Type l = TokenLeftParen \<Longrightarrow> tok_Type r = TokenRightParen \<Longrightarrow> renders k e (l # ts @ [r])"
| left_assoc: "tok_Type t = TokenOperator \<Longrightarrow> OpAssoc (tok_Op t) = LeftAssoc \<Longrightarrow> IsOperator (tok_Op t) \<Longrightarrow> OpPrecedence (tok_Op t) = p
    \<Longrightarrow> k \<le> p \<Longrightarrow> renders p a xs \<Longrightarrow> renders (p + 1) b ys \<Longrightarrow> renders k (Bin t a b) (xs @ t # ys)"
| right_assoc: "tok_Type t = TokenOperator \<Longrightarrow> OpAssoc (tok_Op t) = RightAssoc \<Longrightarrow> OpPrecedence (tok_Op t) = p
    \<Longrightarrow> k \<le> p \<Longrightarrow> renders (p + 1) a xs \<Longrightarrow> renders p b ys \<Longrightarrow> renders k (Bin t a b) (xs @ t # ys)"

lemma op_table:
  "OpPrecedence c \<le> 3" "IsOperator c \<Longrightarrow> OpAssoc c = LeftAssoc \<Longrightarrow> 1 \<le> OpPrecedence c \<and> OpPrecedence c \<le> 2"
  "OpAssoc c = RightAssoc \<Longrightarrow> OpPrecedence c = 3"
  by (auto simp: OpPrecedence_def OpAssoc_def IsOperator_def ops_def split: if_splits)

section \<open>The stack machine\<close>

fun expr_tokens_ok :: "expr \<Rightarrow> bool" where
  "expr_tokens_ok (Lit t) \<longleftrightarrow> tok_Type t = TokenNumber"
| "expr_tokens_ok (Bin t a b) \<longleftrightarrow> tok_Type t = TokenOperator \<and> expr_tokens_ok a \<and> expr_tokens_ok b"

lemma renders_tokens_ok: "renders k e ts \<Longrightarrow> expr_tokens_ok e"
  by (induction rule: renders.induct) auto

lemma eval_loop_postorder:
  "expr_tokens_ok e \<Longrightarrow> eval_loop pow (postorder e @ rest) st =
     (case eval_expr pow e of Inl er \<Rightarrow> Some (Inl er) | Inr v \<Rightarrow> eval_loop pow rest (st @ [v]))"
proof (induction e arbitrary: st rest)
  case (Lit t)
  then show ?case by (simp add: eval_step_def)
next
  case (Bin t a b)
  then show ?case by (auto simp: eval_step_def butlast_append split: sum.split)
qed

lemma EvaluatePostFix_postorder: "expr_tokens_ok e \<Longrightarrow> EvaluatePostFix pow (postorder e) = eval_expr pow e"
  using eval_loop_postorder [of e pow "[]" "[]"]
  by (simp add: EvaluatePostFix_def split: sum.split)

section \<open>The conversion\<close>

lemma pop_stop:
  assumes "st = [] \<or> tok_Type (last st) \<noteq> TokenOperator \<or> \<not> should_pop (last st) t"
  shows "pop_operators t st out = Some (st, out)"
  using assms by (subst pop_operators.simps) auto

lemma pop_all:
  "\<forall>x\<in>set xs. tok_Type x = TokenOperator \<and> should_pop x t \<Longrightarrow> pop_operators t (st @ xs) out = pop_operators t st (out @ rev xs)"
proof (induction xs arbitrary: out rule: rev_induct)
  case (snoc x xs)
  have "pop_operators t ((st @ xs) @ [x]) out = pop_operators t (st @ xs) (out @ [x])"
    by (subst pop_operators.simps) (use snoc.prems in \<open>simp add: butlast_append\<close>)
  then show ?case using snoc by simp
qed simp

lemma pop_to_left:
  "\<forall>x\<in>set xs. tok_Type x = TokenOperator \<Longrightarrow> tok_Type l = TokenLeftParen \<Longrightarrow>
   pop_to_paren (st @ l # xs) out = Some (True, st, out @ rev xs)"
proof (induction xs arbitrary: out rule: rev_induct)
  case Nil
  then show ?case by (subst pop_to_paren.simps) simp
next
  case (snoc x xs)
  have "pop_to_paren ((st @ l # xs) @ [x]) out = pop_to_paren (st @ l # xs) (out @ [x])"
    by (subst pop_to_paren.simps) (use snoc.prems in \<open>simp add: butlast_append\<close>)
  then show ?case using snoc by simp
qed

lemma drain_all: "\<forall>x\<in>set xs. tok_Type x = TokenOperator \<Longrightarrow> drain_operators xs out = Some (Inr (out @ rev xs))"
proof (induction xs arbitrary: out rule: rev_induct)
  case (snoc x xs)
  then show ?case by (subst drain_operators.simps) simp
qed (subst drain_operators.simps, simp)

text \<open>No operator of level \<open>k\<close> or above pops the top of the stack.\<close>

definition guarded :: "token list \<Rightarrow> int \<Rightarrow> bool" where
  "guarded st k \<longleftrightarrow> (st \<noteq> [] \<and> tok_Type (last st) = TokenOperator \<longrightarrow> OpPrecedence (tok_Op (last st)) < k \<or> 3 \<le> k)"

lemma guarded_pop:
  assumes "guarded st k" "k \<le> OpPrecedence (tok_Op t)" "IsOperator (tok_Op t) \<or> OpAssoc (tok_Op t) = RightAssoc"
  shows "pop_operators t st out = Some (st, out)"
proof (rule pop_stop)
  show "st = [] \<or> tok_Type (last st) \<noteq> TokenOperator \<or> \<not> should_pop (last st) t"
  proof (cases "OpAssoc (tok_Op t)")
    case LeftAssoc
    then show ?thesis using assms op_table(2) [of "tok_Op t"] by (fastforce simp: guarded_def should_pop_def Let_def)
  next
    case RightAssoc
    then show ?thesis using assms op_table(1) [of "tok_Op (last st)"] op_table(3) [of "tok_Op t"] by (auto simp: should_pop_def Let_def)
  qed
qed

definition pending :: "int \<Rightarrow> token list \<Rightarrow> bool" where
  "pending k xs \<longleftrightarrow> (\<forall>x\<in>set xs. tok_Type x = TokenOperator \<and> k \<le> OpPrecedence (tok_Op x))"

lemma postfix_loop_renders:
  "renders k e ts \<Longrightarrow> guarded st k \<Longrightarrow>
   \<exists>xs ys. (\<forall>rest. postfix_loop (ts @ rest) st out = postfix_loop rest (st @ xs) (out @ ys))
     \<and> ys @ rev xs = postorder e \<and> pending k xs"
proof (induction arbitrary: st out rule: renders.induct)
  case (literal t k)
  then show ?case by (intro exI [of _ "[]"] exI [of _ "[t]"]) (simp add: postfix_step_def pending_def)
next
  case (parens e ts l r k)
  have "guarded (st @ [l]) 1" using parens.hyps(2) by (simp add: guarded_def)
  then obtain xs ys where IH: "\<And>rest. postfix_loop (ts @ rest) (st @ [l]) out = postfix_loop rest (st @ l # xs) (out @ ys)"
    "ys @ rev xs = postorder e" "pending 1 xs"
    using parens.IH [of "st @ [l]" out] by auto
  have "pop_to_paren (st @ l # xs) (out @ ys) = Some (True, st, out @ ys @ rev xs)"
    using pop_to_left [of xs l st "out @ ys"] IH(3) parens.hyps(2) by (simp add: pending_def)
  then show ?case
    using parens.hyps IH(1,2) by (intro exI [of _ "[]"] exI [of _ "ys @ rev xs"]) (simp add: postfix_step_def pending_def)
next
  case (left_assoc t p k a as b bs)
  have p: "1 \<le> p" "p \<le> 2" using op_table(2) left_assoc.hyps by auto
  have gp: "guarded st p" using left_assoc.prems left_assoc.hyps(5) p by (auto simp: guarded_def)
  obtain xs ys where A: "\<And>rest. postfix_loop (as @ rest) st out = postfix_loop rest (st @ xs) (out @ ys)"
    "ys @ rev xs = postorder a" "pending p xs"
    using left_assoc.IH(1) [OF gp, of out] by blast
  have "\<forall>x\<in>set xs. tok_Type x = TokenOperator \<and> should_pop x t"
    using A(3) left_assoc.hyps(2,4) by (auto simp: pending_def should_pop_def Let_def)
  then have "pop_operators t (st @ xs) (out @ ys) = pop_operators t st (out @ ys @ rev xs)" using pop_all [of xs t st "out @ ys"] by simp
  also have "\<dots> = Some (st, out @ ys @ rev xs)" using guarded_pop [OF gp] left_assoc.hyps(3,4) by simp
  finally have pop: "pop_operators t (st @ xs) (out @ ys) = Some (st, out @ ys @ rev xs)" .
  have "guarded (st @ [t]) (p + 1)" using left_assoc.hyps(4) by (simp add: guarded_def)
  then obtain us vs where B: "\<And>rest. postfix_loop (bs @ rest) (st @ [t]) (out @ ys @ rev xs) = postfix_loop rest (st @ t # us) (out @ ys @ rev xs @ vs)"
    "vs @ rev us = postorder b" "pending (p + 1) us"
    using left_assoc.IH(2) [of "st @ [t]" "out @ ys @ rev xs"] by auto
  have "postfix_loop ((as @ t # bs) @ rest) st out = postfix_loop rest (st @ t # us) (out @ ys @ rev xs @ vs)" for rest
    using A(1) [of "t # bs @ rest"] pop B(1) [of rest] left_assoc.hyps(1) by (simp add: postfix_step_def)
  moreover have "(ys @ rev xs @ vs) @ rev (t # us) = postorder (Bin t a b)"
    using A(2) B(2) by (metis append.assoc postorder.simps(2) rev.simps(2))
  moreover have "pending k (t # us)" using B(3) left_assoc.hyps(1,4,5) by (auto simp: pending_def)
  ultimately show ?case by (intro exI [of _ "t # us"] exI [of _ "ys @ rev xs @ vs"]) simp
next
  case (right_assoc t p k a as b bs)
  have p: "p = 3" using op_table(3) right_assoc.hyps by auto
  have gp: "guarded st p" using p by (simp add: guarded_def)
  have gp4: "guarded st (p + 1)" using p by (simp add: guarded_def)
  obtain xs ys where A: "\<And>rest. postfix_loop (as @ rest) st out = postfix_loop rest (st @ xs) (out @ ys)"
    "ys @ rev xs = postorder a" "pending (p + 1) xs"
    using right_assoc.IH(1) [OF gp4, of out] by blast
  have none: "xs = []"
  proof (rule ccontr)
    assume "xs \<noteq> []"
    then have "p + 1 \<le> OpPrecedence (tok_Op (hd xs))" using A(3) by (cases xs) (auto simp: pending_def)
    then show False using op_table(1) [of "tok_Op (hd xs)"] p by simp
  qed
  have pop: "pop_operators t st (out @ ys) = Some (st, out @ ys)" using guarded_pop [OF gp] right_assoc.hyps(2,3) by simp
  have "guarded (st @ [t]) p" using p by (simp add: guarded_def)
  then obtain us vs where B: "\<And>rest. postfix_loop (bs @ rest) (st @ [t]) (out @ ys) = postfix_loop rest (st @ t # us) (out @ ys @ vs)"
    "vs @ rev us = postorder b" "pending p us"
    using right_assoc.IH(2) [of "st @ [t]" "out @ ys"] by auto
  have "postfix_loop ((as @ t # bs) @ rest) st out = postfix_loop rest (st @ t # us) (out @ ys @ vs)" for rest
    using A(1) [of "t # bs @ rest"] none pop B(1) [of rest] right_assoc.hyps(1) by (simp add: postfix_step_def)
  moreover have "(ys @ vs) @ rev (t # us) = postorder (Bin t a b)"
    using A(2) B(2) none by (metis append.assoc append_Nil2 postorder.simps(2) rev.simps(1,2))
  moreover have "pending k (t # us)" using B(3) right_assoc.hyps(1,3,4) by (auto simp: pending_def)
  ultimately show ?case by (intro exI [of _ "t # us"] exI [of _ "ys @ vs"]) simp
qed

lemma InfixToPostfix_renders: "renders 1 e ts \<Longrightarrow> InfixToPostfix ts = Some (Inr (postorder e))"
proof -
  assume r: "renders 1 e ts"
  obtain xs ys where l: "\<And>rest. postfix_loop (ts @ rest) [] [] = postfix_loop rest xs ys"
    and o: "ys @ rev xs = postorder e" and p: "pending 1 xs"
    using postfix_loop_renders [OF r, of "[]" "[]"] by (auto simp: guarded_def)
  have "drain_operators xs ys = Some (Inr (ys @ rev xs))" using drain_all p by (simp add: pending_def)
  then show ?thesis using l [of "[]"] o by (simp add: InfixToPostfix_def)
qed

section \<open>No panics\<close>

lemma pop_operators_total: "\<exists>r. pop_operators t st out = Some r"
  by (induction t st out rule: pop_operators.induct) (subst pop_operators.simps, auto)

lemma pop_to_paren_total: "\<exists>r. pop_to_paren st out = Some r"
  by (induction st out rule: pop_to_paren.induct) (subst pop_to_paren.simps, auto)

lemma drain_operators_total: "\<exists>r. drain_operators st out = Some r"
  by (induction st out rule: drain_operators.induct) (subst drain_operators.simps, auto)

lemma postfix_loop_total: "\<exists>r. postfix_loop ts st out = Some r"
proof (induction ts arbitrary: st out)
  case (Cons t ts)
  have "\<exists>r. postfix_step t st out = Some r"
    using pop_operators_total [of t st out] pop_to_paren_total [of st out] by (auto simp: postfix_step_def split: token_type.split)
  then show ?case using Cons by (auto split: sum.split)
qed simp

lemma InfixToPostfix_total: "InfixToPostfix ts \<noteq> None"
  using postfix_loop_total [of ts "[]" "[]"] drain_operators_total by (auto simp: InfixToPostfix_def split: sum.split)

lemma eval_loop_total: "\<exists>r. eval_loop pow ts st = Some r \<and> r \<noteq> Inl InternalError"
proof (induction ts arbitrary: st)
  case (Cons t ts)
  have "\<exists>r. eval_step pow t st = Some r \<and> r \<noteq> Inl InternalError"
  proof (cases "length st < 2")
    case False
    then obtain us x y where "st = us @ [x, y]"
      by (cases st rule: rev_cases; cases "butlast st" rule: rev_cases) auto
    then show ?thesis by (auto simp: eval_step_def apply_op_def butlast_append split: token_type.split)
  qed (auto simp: eval_step_def split: token_type.split)
  then show ?case using Cons by (auto split: sum.split)
qed simp

lemma EvaluatePostFix_no_panic: "EvaluatePostFix pow ts \<noteq> Inl InternalError"
  using eval_loop_total [of pow ts "[]"] by (auto simp: EvaluatePostFix_def split: sum.splits if_splits)

section \<open>The tokenizer\<close>

definition gap_char :: "char \<Rightarrow> bool" where
  "gap_char c \<longleftrightarrow> c = CHR '' '' \<or> c = CHR 0x0A \<or> c = CHR 0x09"

text \<open>The words of the language: number literals, operators and parentheses.\<close>

definition number_word :: "string \<Rightarrow> bool" where
  "number_word w \<longleftrightarrow> w \<noteq> [] \<and> list_all number_char w \<and> length (filter (\<lambda>c. c = CHR ''.'') w) \<le> 1 \<and> ParseFloat w \<noteq> None"

definition symbol_char :: "char \<Rightarrow> bool" where
  "symbol_char c \<longleftrightarrow> IsOperator c \<or> c = CHR ''('' \<or> c = CHR '')''"

definition word_ok :: "string \<Rightarrow> bool" where
  "word_ok w \<longleftrightarrow> number_word w \<or> (length w = 1 \<and> symbol_char (hd w))"

definition word_token :: "string \<Rightarrow> nat \<Rightarrow> token" where
  "word_token w i =
     (if number_word w then number_token (the (ParseFloat w)) i
      else if IsOperator (hd w) then operator_token (hd w) i
      else paren_token (if hd w = CHR ''('' then TokenLeftParen else TokenRightParen) i)"

text \<open>A text as its words, each after a gap of blanks; two numbers in a row need one.\<close>

type_synonym layout = "(string \<times> string) list"

definition layout_text :: "layout \<Rightarrow> string" where
  "layout_text ls = concat (map (\<lambda>(g, w). g @ w) ls)"

fun layout_ok :: "bool \<Rightarrow> layout \<Rightarrow> bool" where
  "layout_ok after_number [] \<longleftrightarrow> True"
| "layout_ok after_number ((g, w) # ls) \<longleftrightarrow>
     list_all gap_char g \<and> word_ok w \<and> (after_number \<and> number_word w \<longrightarrow> g \<noteq> []) \<and> layout_ok (number_word w) ls"

fun tokens_at :: "nat \<Rightarrow> layout \<Rightarrow> token list" where
  "tokens_at i [] = []"
| "tokens_at i ((g, w) # ls) = word_token w (i + length g) # tokens_at (i + length g + length w) ls"

lemma layout_text_simps [simp]: "layout_text [] = []" "layout_text ((g, w) # ls) = g @ w @ layout_text ls"
  by (simp_all add: layout_text_def)

lemma symbol_chars: "symbol_char c \<longleftrightarrow> c \<in> {CHR ''+'', CHR ''-'', CHR ''*'', CHR ''/'', CHR ''^'', CHR ''('', CHR '')''}"
  by (auto simp: symbol_char_def IsOperator_def ops_def split: if_splits)

lemma not_number_char: "gap_char c \<or> symbol_char c \<Longrightarrow> \<not> number_char c"
  by (auto simp: symbol_chars gap_char_def number_char_def is_digit_def byte_def)

lemma not_gap: "number_char c \<or> symbol_char c \<Longrightarrow> \<not> gap_char c"
  by (auto simp: symbol_chars gap_char_def number_char_def is_digit_def byte_def)

lemma tokenize_gap: "list_all gap_char g \<Longrightarrow> tokenize_loop (u @ g @ s) (length u) ts = tokenize_loop (u @ g @ s) (length u + length g) ts"
proof (induction g arbitrary: u)
  case (Cons c g)
  have "tokenize_loop (u @ (c # g) @ s) (length u) ts = tokenize_loop (u @ (c # g) @ s) (length u + 1) ts"
    by (subst tokenize_loop.simps) (use Cons.prems in \<open>simp add: nth_append gap_char_def\<close>)
  also have "\<dots> = tokenize_loop ((u @ [c]) @ g @ s) (length (u @ [c])) ts" by simp
  also have "\<dots> = tokenize_loop ((u @ [c]) @ g @ s) (length (u @ [c]) + length g) ts" using Cons by (intro Cons.IH) simp
  finally show ?case by simp
qed simp

lemma tokenize_number:
  assumes w: "number_word w" and s: "s = [] \<or> \<not> number_char (hd s)"
  shows "tokenize_loop (u @ w @ s) (length u) ts = tokenize_loop (u @ w @ s) (length u + length w) (ts @ [word_token w (length u)])"
proof -
  have w': "w \<noteq> []" "\<forall>c\<in>set w. number_char c" "length (filter (\<lambda>c. c = CHR ''.'') w) \<le> 1" "ParseFloat w \<noteq> None"
    using w by (auto simp: number_word_def list_all_iff)
  have "takeWhile number_char (w @ s) = w" using w'(2) s by (cases s) (simp_all add: takeWhile_append2)
  then have lit: "literal_at (u @ w @ s) (length u) = w" by (simp add: literal_at_def)
  have c: "(u @ w @ s) ! length u = hd w" using w'(1) by (simp add: nth_append hd_conv_nth)
  have num: "number_char (hd w)" using w'(1,2) by simp
  have "\<not> gap_char (hd w)" using not_gap num by blast
  then show ?thesis
    by (subst tokenize_loop.simps)
      (use w' num w in \<open>auto simp: c lit gap_char_def number_char_def word_token_def Let_def split: option.split\<close>)
qed

lemma tokenize_symbol:
  assumes "symbol_char c"
  shows "tokenize_loop (u @ c # s) (length u) ts = tokenize_loop (u @ c # s) (length u + 1) (ts @ [word_token [c] (length u)])"
proof -
  have c: "\<not> gap_char c" "\<not> number_char c" using not_gap not_number_char assms by blast+
  then have "\<not> number_word [c]" by (simp add: number_word_def)
  then show ?thesis
    by (subst tokenize_loop.simps)
      (use c assms in \<open>auto simp: nth_append gap_char_def number_char_def symbol_char_def word_token_def Let_def\<close>)
qed

lemma after_number:
  "layout_ok True ls \<Longrightarrow> list_all gap_char g \<Longrightarrow> layout_text ls @ g = [] \<or> \<not> number_char (hd (layout_text ls @ g))"
proof (cases ls)
  case (Cons l ls')
  obtain g' w where l: "l = (g', w)" by fastforce
  assume a: "layout_ok True ls" "list_all gap_char g"
  show ?thesis
  proof (cases g')
    case Nil
    then have "length w = 1" "symbol_char (hd w)" using a Cons l by (auto simp: word_ok_def)
    then show ?thesis using Nil Cons l not_number_char by (cases w) auto
  next
    case (Cons c g'')
    then show ?thesis using a \<open>ls = l # ls'\<close> l not_number_char by auto
  qed
qed (cases g; auto simp: not_number_char)

lemma tokenize_layout:
  "layout_ok b ls \<Longrightarrow> list_all gap_char g \<Longrightarrow>
   tokenize_loop (u @ layout_text ls @ g) (length u) ts = Inr (ts @ tokens_at (length u) ls)"
proof (induction ls arbitrary: u ts b)
  case Nil
  have "tokenize_loop (u @ g) (length u) ts = tokenize_loop (u @ g) (length u + length g) ts" using tokenize_gap [of g u "[]"] Nil by simp
  also have "\<dots> = Inr ts" by (subst tokenize_loop.simps) simp
  finally show ?case by simp
next
  case (Cons l ls)
  obtain h w where l: "l = (h, w)" by fastforce
  have ok: "list_all gap_char h" "word_ok w" "layout_ok (number_word w) ls" using Cons.prems(1) l by auto
  let ?s = "layout_text ls @ g" and ?u = "u @ h"
  have "tokenize_loop (u @ h @ w @ ?s) (length u) ts = tokenize_loop (?u @ w @ ?s) (length ?u) ts"
    using tokenize_gap [OF ok(1), of u "w @ ?s" ts] by simp
  also have "\<dots> = tokenize_loop (?u @ w @ ?s) (length ?u + length w) (ts @ [word_token w (length ?u)])"
  proof (cases "number_word w")
    case True
    then have "?s = [] \<or> \<not> number_char (hd ?s)" using after_number [of ls g] ok(3) Cons.prems(2) by simp
    then show ?thesis using tokenize_number [OF True, of ?s ?u ts] by blast
  next
    case False
    then obtain c where "w = [c]" "symbol_char c" using ok(2) by (cases w) (auto simp: word_ok_def)
    then show ?thesis using tokenize_symbol [of c ?u ?s] by simp
  qed
  also have "\<dots> = tokenize_loop ((?u @ w) @ layout_text ls @ g) (length (?u @ w)) (ts @ [word_token w (length ?u)])" by (simp add: add.assoc)
  also have "\<dots> = Inr ((ts @ [word_token w (length ?u)]) @ tokens_at (length (?u @ w)) ls)"
    by (rule Cons.IH [OF ok(3) Cons.prems(2)])
  finally show ?case using l by (simp add: add.assoc)
qed

lemma trim_left_keeps_ink:
  "\<forall>r\<in>set rs. \<forall>c\<in>set r. \<not> ascii_ink c \<Longrightarrow> filter ascii_ink (trim_left rs s) = filter ascii_ink s"
proof (induction rs s rule: trim_left.induct)
  case (1 rs s)
  show ?case
  proof (cases "drop_space rs s")
    case (Some t)
    then obtain r where r: "r \<in> set rs" "prefix r s" "t = drop (length r) s"
      by (auto simp: drop_space_def find_Some_iff intro: nth_mem split: option.splits if_splits)
    then have "s = r @ t" by (auto simp: prefix_def)
    moreover have "filter ascii_ink r = []" using 1(2) r(1) by (simp add: filter_empty_conv)
    ultimately show ?thesis using Some 1 by (subst trim_left.simps) simp
  qed (subst trim_left.simps, simp)
qed

lemma TrimSpace_ink: "c \<in> set s \<Longrightarrow> ascii_ink c \<Longrightarrow> TrimSpace s \<noteq> []"
proof -
  assume c: "c \<in> set s" "ascii_ink c"
  have runes: "\<forall>r\<in>set space_runes. \<forall>c\<in>set r. \<not> ascii_ink c"
    by (auto simp: space_runes_def bytes_def ascii_ink_def)
  then have "filter ascii_ink (TrimSpace s) = filter ascii_ink s"
    unfolding TrimSpace_def rev_filter [symmetric] by (subst trim_left_keeps_ink; simp add: rev_filter [symmetric] trim_left_keeps_ink)
  moreover have "filter ascii_ink s \<noteq> []" using c by (auto simp: filter_empty_conv)
  ultimately show "TrimSpace s \<noteq> []" by auto
qed

lemma expr_Tokenize_layout:
  assumes "layout_ok False ls" "list_all gap_char g" "ls \<noteq> []"
  shows "expr_Tokenize (layout_text ls @ g) = Inr (tokens_at 0 ls)"
proof -
  obtain h w ls' where ls: "ls = (h, w) # ls'" using assms(3) by (cases ls) auto
  have "w \<noteq> []" "number_char (hd w) \<or> symbol_char (hd w)" using assms(1) ls by (cases w; auto simp: word_ok_def number_word_def)+
  moreover have "ascii_ink c" if "number_char c \<or> symbol_char c" for c
    using that by (auto simp: symbol_chars number_char_def is_digit_def byte_def ascii_ink_def)
  ultimately have "TrimSpace (layout_text ls @ g) \<noteq> []" using ls by (intro TrimSpace_ink [of "hd w"]) auto
  moreover have "tokens_at 0 ls \<noteq> []" by (simp add: ls)
  ultimately show ?thesis
    using tokenize_layout [OF assms(1,2), of "[]" "[]"] by (simp add: expr_Tokenize_def)
qed

section \<open>Brackets\<close>

inductive balanced :: "string \<Rightarrow> bool" where
  nil: "balanced []"
| other: "\<not> is_open c \<Longrightarrow> bracket_pairs c = None \<Longrightarrow> balanced s \<Longrightarrow> balanced (c # s)"
| nest: "is_open b \<Longrightarrow> bracket_pairs c = Some b \<Longrightarrow> balanced s \<Longrightarrow> balanced t \<Longrightarrow> balanced (b # s @ c # t)"

lemma close_not_open: "bracket_pairs c = Some b \<Longrightarrow> \<not> is_open c"
  by (auto simp: bracket_pairs_def is_open_def split: if_splits)

lemma bracket_loop_balanced: "balanced s \<Longrightarrow> bracket_loop (s @ rest) pos st = bracket_loop rest (pos + length s) st"
proof (induction arbitrary: pos st rest rule: balanced.induct)
  case (nest b c s t)
  then show ?case using close_not_open [OF nest.hyps(2)] by (simp add: add.assoc)
qed simp_all

text \<open>The texts that close the open brackets of a stack.\<close>

fun closes :: "char list \<Rightarrow> string \<Rightarrow> bool" where
  "closes [] s \<longleftrightarrow> balanced s"
| "closes (b # bs) s \<longleftrightarrow> (\<exists>u c t. s = u @ c # t \<and> balanced u \<and> bracket_pairs c = Some b \<and> closes bs t)"

lemma closes_other: "\<not> is_open c \<Longrightarrow> bracket_pairs c = None \<Longrightarrow> closes bs s \<Longrightarrow> closes bs (c # s)"
proof (cases bs)
  case (Cons b bs')
  assume a: "\<not> is_open c" "bracket_pairs c = None" "closes bs s"
  then obtain u d t where "s = u @ d # t" "balanced u" "bracket_pairs d = Some b" "closes bs' t" using Cons by auto
  then have "c # s = (c # u) @ d # t" "balanced (c # u)" "bracket_pairs d = Some b" "closes bs' t" using a balanced.other by auto
  then show ?thesis unfolding Cons closes.simps by blast
qed (auto intro: balanced.other)

lemma closes_open:
  assumes b: "is_open b" and c: "closes (b # bs) s"
  shows "closes bs (b # s)"
proof -
  obtain u d t where s: "s = u @ d # t" "balanced u" "bracket_pairs d = Some b" "closes bs t" using c by auto
  show ?thesis
  proof (cases bs)
    case Nil
    then show ?thesis using s balanced.nest [OF b s(3,2), of t] by simp
  next
    case (Cons b' bs')
    then obtain u' d' t' where t: "t = u' @ d' # t'" "balanced u'" "bracket_pairs d' = Some b'" "closes bs' t'" using s(4) by auto
    have "balanced (b # u @ d # u')" by (rule balanced.nest [OF b s(3,2) t(2)])
    then show ?thesis using s(1) t Cons by (auto intro!: exI [of _ "b # u @ d # u'"])
  qed
qed

lemma bracket_loop_closes: "bracket_loop s pos st = Inr [] \<Longrightarrow> closes (map fst (rev st)) s"
proof (induction s arbitrary: pos st)
  case Nil
  then show ?case by (auto intro: balanced.nil)
next
  case (Cons c s)
  show ?case
  proof (cases "is_open c")
    case True
    then have "closes (c # map fst (rev st)) s" using Cons.IH [of "pos + 1" "st @ [(c, pos)]"] Cons.prems by simp
    then show ?thesis using closes_open True by blast
  next
    case False
    show ?thesis
    proof (cases "bracket_pairs c")
      case None
      then show ?thesis using False Cons closes_other by simp
    next
      case (Some b)
      obtain st' p where st: "st = st' @ [(b, p)]" "bracket_loop s (pos + 1) st' = Inr []"
        using Cons.prems False Some by (cases st rule: rev_cases) (auto split: if_splits prod.splits)
      then have "closes (map fst (rev st')) s" using Cons.IH by blast
      then show ?thesis using st(1) Some balanced.nil by (auto intro!: exI [of _ "[]"])
    qed
  qed
qed

lemma balanced_no_angle: "balanced s \<Longrightarrow> CHR ''>'' \<notin> set s"
  by (induction rule: balanced.induct) (auto simp: is_open_def bracket_pairs_def split: if_splits)

section \<open>Properties\<close>

text \<open>
  C5. A text laid out from the words of an expression, with any blanks between them and any
  parentheses around operands, is evaluated to the value of the expression: multiplication binds
  tighter than addition, exponentiation tightest, operators of equal precedence group to the left and
  exponentiation to the right, operands are evaluated from left to right, and a division by zero is
  the error with the position of its operator.
\<close>

theorem evaluate_correct:
  assumes "layout_ok False ls" "list_all gap_char g" "renders 1 e (tokens_at 0 ls)"
  shows "Evaluate pow (layout_text ls @ g) = Some (eval_expr pow e)"
proof -
  have "tokens_at 0 ls \<noteq> []" using assms(3) by (cases rule: renders.cases) auto
  then have "ls \<noteq> []" by auto
  then have "expr_Tokenize (layout_text ls @ g) = Inr (tokens_at 0 ls)" by (rule expr_Tokenize_layout [OF assms(1,2)])
  then show ?thesis
    using InfixToPostfix_renders [OF assms(3)] EvaluatePostFix_postorder [OF renders_tokens_ok [OF assms(3)]]
    by (simp add: Evaluate_def)
qed

text \<open>The digits, for the sample texts.\<close>

lemma parse_digits:
  "ParseFloat ''2'' = Some (Fin 2)" "ParseFloat ''3'' = Some (Fin 3)" "ParseFloat ''4'' = Some (Fin 4)" "ParseFloat ''7'' = Some (Fin 7)"
  using round64_int [of 2] round64_int [of 3] round64_int [of 4] round64_int [of 7]
  by (simp_all add: ParseFloat_def special_float_def read_float_def take_sign_def has_hex_prefix_def mantissa_digit_def
      is_digit_def byte_def to_lower_def digit_value_def scale_def)

definition sample_layout :: layout where
  "sample_layout = [('''', ''2''), ('' '', ''+''), ('' '', ''3''), ('''', ''*''), ('''', ''('' ), ('''', ''4''), ('''', ''-''), ('''', ''7''), ('''', '')'')]"

theorem evaluate_correct_witness:
  "Evaluate (\<lambda>_ _. 0) ''2 + 3*(4-7) '' = Some (Inr (Fin (- 7)))"
proof -
  let ?op = "\<lambda>c i. operator_token c i" and ?n = "\<lambda>q i. number_token (Fin q) i"
  let ?e = "Bin (?op (CHR ''+'') 2) (Lit (?n 2 0)) (Bin (?op (CHR ''*'') 5) (Lit (?n 3 4)) (Bin (?op (CHR ''-'') 8) (Lit (?n 4 7)) (Lit (?n 7 9))))"
  have d: "number_word ''2''" "number_word ''3''" "number_word ''4''" "number_word ''7''"
    by (simp_all add: number_word_def number_char_def is_digit_def byte_def parse_digits)
  have s: "\<not> number_word ''+''" "\<not> number_word ''*''" "\<not> number_word ''-''" "\<not> number_word ''(''" "\<not> number_word '')''"
    by (simp_all add: number_word_def number_char_def is_digit_def byte_def)
  have ok: "layout_ok False sample_layout"
    by (simp add: sample_layout_def word_ok_def d s symbol_chars gap_char_def)
  have ts: "tokens_at 0 sample_layout =
      [?n 2 0] @ ?op (CHR ''+'') 2 # [?n 3 4] @ ?op (CHR ''*'') 5 #
      (paren_token TokenLeftParen 6 # ([?n 4 7] @ ?op (CHR ''-'') 8 # [?n 7 9]) @ [paren_token TokenRightParen 10])"
    by (simp add: sample_layout_def word_token_def d s parse_digits IsOperator_def ops_def eval_nat_numeral)
  have prec: "OpPrecedence (CHR ''+'') = 1" "OpPrecedence (CHR ''-'') = 1" "OpPrecedence (CHR ''*'') = 2"
    "OpAssoc (CHR ''+'') = LeftAssoc" "OpAssoc (CHR ''-'') = LeftAssoc" "OpAssoc (CHR ''*'') = LeftAssoc"
    "IsOperator (CHR ''+'')" "IsOperator (CHR ''-'')" "IsOperator (CHR ''*'')"
    by (simp_all add: OpPrecedence_def OpAssoc_def IsOperator_def ops_def)
  have lit: "renders k (Lit (?n q i)) [?n q i]" for k q i by (rule renders.literal) (simp add: number_token_def)
  have sub: "renders 1 (Bin (?op (CHR ''-'') 8) (Lit (?n 4 7)) (Lit (?n 7 9))) ([?n 4 7] @ ?op (CHR ''-'') 8 # [?n 7 9])"
    by (intro renders.left_assoc [where p = 1] lit) (simp_all add: operator_token_def prec)
  have "renders 3 (Bin (?op (CHR ''-'') 8) (Lit (?n 4 7)) (Lit (?n 7 9)))
      (paren_token TokenLeftParen 6 # ([?n 4 7] @ ?op (CHR ''-'') 8 # [?n 7 9]) @ [paren_token TokenRightParen 10])"
    by (rule renders.parens [OF sub]) (simp_all add: paren_token_def)
  then have m: "renders 2 (Bin (?op (CHR ''*'') 5) (Lit (?n 3 4)) (Bin (?op (CHR ''-'') 8) (Lit (?n 4 7)) (Lit (?n 7 9))))
      ([?n 3 4] @ ?op (CHR ''*'') 5 # (paren_token TokenLeftParen 6 # ([?n 4 7] @ ?op (CHR ''-'') 8 # [?n 7 9]) @ [paren_token TokenRightParen 10]))"
    by (intro renders.left_assoc [where p = 2] lit) (simp_all add: operator_token_def prec)
  have "renders 1 ?e (tokens_at 0 sample_layout)"
    unfolding ts by (rule renders.left_assoc [where p = 1]) (simp_all add: operator_token_def prec lit m [unfolded operator_token_def, simplified])
  from evaluate_correct [OF ok _ this, of "'' ''"]
  have "Evaluate (\<lambda>_ _. 0) (layout_text sample_layout @ '' '') = Some (eval_expr (\<lambda>_ _. 0) ?e)" by (simp add: gap_char_def)
  moreover have "eval_expr (\<lambda>_ _. 0) ?e = Inr (Fin (- 7))"
    using round64_int [of 3] round64_int [of 9] round64_int [of 7]
    by (simp add: apply_op_def operator_token_def number_token_def minus_f64_def)
  ultimately show ?thesis by (simp add: sample_layout_def)
qed

text \<open>
  Evaluation never panics: the conversion only pops and peeks at stacks that are not empty, and
  the recovery in the stack machine never has anything to recover from.
\<close>

theorem evaluate_never_panics:
  "Evaluate pow s \<noteq> None \<and> Evaluate pow s \<noteq> Some (Inl InternalError) \<and> EvaluatePostFix pow ts \<noteq> Inl InternalError"
proof -
  have tok: "tokenize_loop s i us \<noteq> Inl InternalError" for i us
    by (induction s i us rule: tokenize_loop.induct) (subst tokenize_loop.simps, auto simp: Let_def split: option.splits)
  have drain: "drain_operators st out \<noteq> Some (Inl InternalError)" for st out
    by (induction st out rule: drain_operators.induct) (subst drain_operators.simps, auto)
  have loop: "postfix_loop ts st out \<noteq> Some (Inl InternalError)" for ts st out
    by (induction ts arbitrary: st out)
      (auto simp: postfix_step_def split: token_type.splits option.splits sum.splits prod.splits if_splits)
  have "InfixToPostfix ts \<noteq> Some (Inl InternalError)" for ts
    using drain loop by (auto simp: InfixToPostfix_def split: option.splits sum.splits)
  moreover have "expr_Tokenize s \<noteq> Inl InternalError" using tok by (auto simp: expr_Tokenize_def split: sum.splits if_splits)
  ultimately show ?thesis
    using InfixToPostfix_total EvaluatePostFix_no_panic
    by (auto simp: Evaluate_def split: sum.splits option.splits) (metis option.distinct(1))
qed

text \<open>
  The conversion does not look at where operands and operators stand, so texts that are no
  expressions are evaluated: \<open>2 3 +\<close>, already in postfix notation, to 5, and \<open>()7\<close> to 7.
\<close>

theorem malformed_texts_accepted:
  "Evaluate pow ''2 3 +'' = Some (Inr (Fin 5)) \<and> Evaluate pow ''()7'' = Some (Inr (Fin 7))"
proof -
  let ?l = "[('''', ''2''), ('' '', ''3''), ('' '', ''+'')]" and ?m = "[('''', ''(''), ('''', '')''), ('''', ''7'')]"
  have d: "number_word ''2''" "number_word ''3''" "number_word ''7''"
    by (simp_all add: number_word_def number_char_def is_digit_def byte_def parse_digits)
  have s: "\<not> number_word ''+''" "\<not> number_word ''(''" "\<not> number_word '')''"
    by (simp_all add: number_word_def number_char_def is_digit_def byte_def)
  have "expr_Tokenize (layout_text ?l @ []) = Inr (tokens_at 0 ?l)" "expr_Tokenize (layout_text ?m @ []) = Inr (tokens_at 0 ?m)"
    by (intro expr_Tokenize_layout; simp add: word_ok_def d s symbol_chars gap_char_def)+
  then have "expr_Tokenize ''2 3 +'' = Inr [number_token (Fin 2) 0, number_token (Fin 3) 2, operator_token (CHR ''+'') 4]"
    "expr_Tokenize ''()7'' = Inr [paren_token TokenLeftParen 0, paren_token TokenRightParen 1, number_token (Fin 7) 2]"
    by (simp_all add: word_token_def d s parse_digits IsOperator_def ops_def eval_nat_numeral)
  then show ?thesis
    using round64_int [of 5]
    by (simp add: Evaluate_def InfixToPostfix_def postfix_step_def number_token_def operator_token_def paren_token_def
        pop_operators.simps pop_to_paren.simps drain_operators.simps EvaluatePostFix_def eval_step_def apply_op_def)
qed

text \<open>
  The bracket check accepts a text exactly when its round, square and curly brackets are
  properly nested, and it has no closing angle bracket, for which no opening one counts.
\<close>

theorem bracket_match_correct: "BracketMatch s = None \<longleftrightarrow> balanced s"
proof
  assume "BracketMatch s = None"
  then have "bracket_loop s 0 [] = Inr []" by (auto simp: BracketMatch_def split: sum.splits if_splits prod.splits)
  then show "balanced s" using bracket_loop_closes [of s 0 "[]"] by simp
next
  assume "balanced s"
  then have "bracket_loop s 0 [] = Inr []" using bracket_loop_balanced [of s "[]" 0 "[]"] by simp
  then show "BracketMatch s = None" by (simp add: BracketMatch_def)
qed

lemma bracket_match_angle: "CHR ''>'' \<in> set s \<Longrightarrow> BracketMatch s \<noteq> None"
  using balanced_no_angle bracket_loop_closes [of s 0 "[]"] by (auto simp: BracketMatch_def split: sum.splits if_splits prod.splits)

end
