(* ===== verification/Spell_Trie.thy ===== *)
theory Spell_Trie
  imports Go_Prelude "HOL-Library.Finite_Map" "HOL-Library.List_Lexorder"
begin

text \<open>
  The trie of the spell checker (\<open>11-day/spellchecker/trie/trie.go\<close>).

  A string is valid UTF-8 and is written as the list of its runes; comparing such strings by bytes
  and by runes is the same.  A node is changed in place and belongs to one parent, so an operation
  gives the new node.  The iteration over the children of the node that is reached by \<open>path\<close> visits
  the runes \<open>ord path\<close>.
\<close>

section \<open>Model\<close>

type_synonym rune = int
type_synonym runes = "rune list"

datatype tr_node = Node (IsWord: bool) (Frequency: int) (Children: "(rune, tr_node) fmap")

record suggestion =
  sg_Word :: runes
  sg_Frequency :: int

definition NewTrie :: tr_node where
  "NewTrie = Node False 0 fmempty"

text \<open>The loop of \<open>Insert\<close>: walks the runes, adding nodes where there are none.\<close>

fun insert_at :: "tr_node \<Rightarrow> runes \<Rightarrow> int \<Rightarrow> tr_node" where
  "insert_at (Node w f ch) [] frequency = Node True (wrap64 (f + frequency)) ch"
| "insert_at (Node w f ch) (r # rs) frequency =
     (let cur = (case fmlookup ch r of None \<Rightarrow> Node False 0 fmempty | Some n \<Rightarrow> n)
      in Node w f (fmupd r (insert_at cur rs frequency) ch))"

definition tr_Insert :: "tr_node \<Rightarrow> runes \<Rightarrow> int \<Rightarrow> tr_node" where
  "tr_Insert t word frequency = (if word = [] then t else insert_at t word frequency)"

text \<open>The loop that the lookups share.\<close>

fun tr_walk :: "tr_node \<Rightarrow> runes \<Rightarrow> tr_node option" where
  "tr_walk t [] = Some t"
| "tr_walk t (r # rs) = (case fmlookup (Children t) r of None \<Rightarrow> None | Some n \<Rightarrow> tr_walk n rs)"

definition tr_Search :: "tr_node \<Rightarrow> runes \<Rightarrow> bool" where
  "tr_Search t word =
     (if word = [] then False else case tr_walk t word of None \<Rightarrow> False | Some cur \<Rightarrow> IsWord cur)"

definition tr_StartsWith :: "tr_node \<Rightarrow> runes \<Rightarrow> bool" where
  "tr_StartsWith t pre = (if pre = [] then False else case tr_walk t pre of None \<Rightarrow> False | Some cur \<Rightarrow> True)"

definition tr_Frequency :: "tr_node \<Rightarrow> runes \<Rightarrow> int" where
  "tr_Frequency t word =
     (if word = [] then 0
      else case tr_walk t word of None \<Rightarrow> 0 | Some cur \<Rightarrow> if \<not> IsWord cur then 0 else Frequency cur)"

definition findNode :: "tr_node \<Rightarrow> runes \<Rightarrow> tr_node option" where
  "findNode t pre = (if pre = [] then None else tr_walk t pre)"

text \<open>Whether the parent prunes the node, whether a word was deleted, and the changed node.\<close>

fun deleteWord :: "tr_node \<Rightarrow> runes \<Rightarrow> bool \<times> bool \<times> tr_node" where
  "deleteWord (Node w f ch) [] =
     (if \<not> w then (False, False, Node w f ch) else (fcard (fmdom ch) = 0, True, Node False 0 ch))"
| "deleteWord (Node w f ch) (r # rs) =
     (case fmlookup ch r of
        None \<Rightarrow> (False, False, Node w f ch)
      | Some child \<Rightarrow>
          (let (childShouldPrune, deleted, child') = deleteWord child rs;
               ch' = (if childShouldPrune then fmdrop r ch else fmupd r child' ch)
           in (\<not> w \<and> fcard (fmdom ch') = 0, deleted, Node w f ch')))"

definition tr_Delete :: "tr_node \<Rightarrow> runes \<Rightarrow> bool \<times> tr_node" where
  "tr_Delete t word = (if word = [] then (False, t) else let (_, deleted, t') = deleteWord t word in (deleted, t'))"

definition betterSuggestion :: "suggestion \<Rightarrow> suggestion \<Rightarrow> bool" where
  "betterSuggestion l r \<longleftrightarrow>
     (if sg_Frequency l = sg_Frequency r then sg_Word l < sg_Word r else sg_Frequency r < sg_Frequency l)"

definition insertTopSuggestion :: "suggestion list \<Rightarrow> suggestion \<Rightarrow> int \<Rightarrow> suggestion list" where
  "insertTopSuggestion xs candidate limit =
     (let insertAt = length (takeWhile (\<lambda>s. \<not> betterSuggestion candidate s) xs)
      in if insertAt = length xs then (if int (length xs) < limit then xs @ [candidate] else xs)
         else (let xs' = take insertAt xs @ candidate # drop insertAt xs
               in if limit < int (length xs') then take (nat limit) xs' else xs'))"

text \<open>The height of a node, by which the walks over the whole trie end.\<close>

primrec height :: "tr_node \<Rightarrow> nat" where
  "height (Node w f ch) = Suc (Max (insert 0 (fset (fmran (fmmap height ch)))))"

lemma height_child: "fmlookup ch r = Some n \<Longrightarrow> height n < height (Node w f ch)"
proof -
  assume "fmlookup ch r = Some n"
  then have "height n |\<in>| fmran (fmmap height ch)" by (intro fmranI [of _ r]) simp
  then show ?thesis by (simp add: less_Suc_eq_le)
qed

function collectWords :: "(runes \<Rightarrow> runes) \<Rightarrow> tr_node \<Rightarrow> runes \<Rightarrow> suggestion list \<Rightarrow> suggestion list" where
  "collectWords ord (Node w f ch) currentWord results =
     fold (\<lambda>r results. case fmlookup ch r of None \<Rightarrow> results | Some child \<Rightarrow> collectWords ord child (currentWord @ [r]) results)
       (ord currentWord)
       (if w then results @ [\<lparr>sg_Word = currentWord, sg_Frequency = f\<rparr>] else results)"
  by pat_completeness auto
termination
  by (relation "measure (\<lambda>(_, n, _). height n)") (auto simp del: height.simps intro: height_child)

function collectTopWords :: "(runes \<Rightarrow> runes) \<Rightarrow> tr_node \<Rightarrow> runes \<Rightarrow> suggestion list \<Rightarrow> int \<Rightarrow> suggestion list" where
  "collectTopWords ord (Node w f ch) currentWord results limit =
     fold (\<lambda>r results. case fmlookup ch r of None \<Rightarrow> results | Some child \<Rightarrow> collectTopWords ord child (currentWord @ [r]) results limit)
       (ord currentWord)
       (if w then insertTopSuggestion results \<lparr>sg_Word = currentWord, sg_Frequency = f\<rparr> limit else results)"
  by pat_completeness auto
termination
  by (relation "measure (\<lambda>(_, n, _). height n)") (auto simp del: height.simps intro: height_child)

definition tr_AutoComplete :: "(runes \<Rightarrow> runes) \<Rightarrow> tr_node \<Rightarrow> runes \<Rightarrow> int \<Rightarrow> suggestion list" where
  "tr_AutoComplete ord t pre limit =
     (if pre = [] \<or> limit \<le> 0 then []
      else case findNode t pre of None \<Rightarrow> [] | Some n \<Rightarrow> collectTopWords ord n pre [] limit)"

declare collectWords.simps [simp del] collectTopWords.simps [simp del]

end
