(* ===== verification/Trie_Correct.thy ===== *)
theory Trie_Correct
  imports Spell_Trie
begin

text \<open>
  The trie implements a map from words to frequencies, has no branch without a word, and its
  completion is the head of the sorted list of all completions.
\<close>

section \<open>The words of a trie\<close>

definition words :: "tr_node \<Rightarrow> runes \<rightharpoonup> int" where
  "words t w = (case tr_walk t w of None \<Rightarrow> None | Some n \<Rightarrow> if IsWord n then Some (Frequency n) else None)"

lemma words_Node [simp]:
  "words (Node w f ch) [] = (if w then Some f else None)"
  "words (Node w f ch) (r # rs) = (case fmlookup ch r of None \<Rightarrow> None | Some n \<Rightarrow> words n rs)"
  by (auto simp: words_def split: option.split)

lemma words_empty: "words (Node False f fmempty) = Map.empty"
proof
  fix w show "words (Node False f fmempty) w = None" by (cases w) auto
qed

lemma walk_append: "tr_walk t (p @ s) = (case tr_walk t p of None \<Rightarrow> None | Some n \<Rightarrow> tr_walk n s)"
  by (induction p arbitrary: t) (auto split: option.split)

lemma words_append: "words t (p @ s) = (case tr_walk t p of None \<Rightarrow> None | Some n \<Rightarrow> words n s)"
  by (auto simp: words_def walk_append split: option.split)

lemma fmdom_empty_iff [simp]: "fmdom m = {||} \<longleftrightarrow> m = fmempty"
  by (metis fmdom_empty fmdom_notD fmap_ext fmempty_lookup fempty_iff)

text \<open>Every branch leads to a word, and a node that is no word has no frequency.\<close>

inductive live :: "tr_node \<Rightarrow> bool" where
  live: "(\<And>r n. fmlookup ch r = Some n \<Longrightarrow> live n) \<Longrightarrow> w \<or> ch \<noteq> fmempty \<Longrightarrow> w \<or> f = 0 \<Longrightarrow> live (Node w f ch)"

inductive_simps live_Node: "live (Node w f ch)"

text \<open>The root is no word and may have no children.\<close>

definition trie_ok :: "tr_node \<Rightarrow> bool" where
  "trie_ok t \<longleftrightarrow> \<not> IsWord t \<and> Frequency t = 0 \<and> (\<forall>r n. fmlookup (Children t) r = Some n \<longrightarrow> live n)"

lemma live_has_word: "live t \<Longrightarrow> \<exists>s. words t s \<noteq> None"
proof (induction rule: live.induct)
  case (live ch w f)
  show ?case
  proof (cases w)
    case True
    then have "words (Node w f ch) [] \<noteq> None" by simp
    then show ?thesis by blast
  next
    case False
    then have "ch \<noteq> fmempty" using live.hyps by blast
    then obtain r n where rn: "fmlookup ch r = Some n"
      by (metis fmap_ext fmempty_lookup not_Some_eq)
    then obtain s where "words n s \<noteq> None" using live by blast
    then have "words (Node w f ch) (r # s) \<noteq> None" using rn by simp
    then show ?thesis by blast
  qed
qed

lemma live_walk: "live t \<Longrightarrow> tr_walk t p = Some n \<Longrightarrow> live n"
proof (induction p arbitrary: t)
  case (Cons r p)
  then show ?case by (cases t) (auto simp: live_Node split: option.splits)
qed simp

lemma trie_ok_walk: "trie_ok t \<Longrightarrow> p \<noteq> [] \<Longrightarrow> tr_walk t p = Some n \<Longrightarrow> live n"
  by (cases p) (auto simp: trie_ok_def split: option.splits intro: live_walk)

lemma trie_ok_root: "trie_ok t \<Longrightarrow> words t [] = None"
  by (cases t) (simp add: trie_ok_def)

section \<open>Insertion\<close>

definition bump :: "int option \<Rightarrow> int \<Rightarrow> int option" where
  "bump old f = Some (wrap64 ((case old of None \<Rightarrow> 0 | Some g \<Rightarrow> g) + f))"

lemma insert_at_words:
  "live t \<or> t = Node False 0 fmempty \<Longrightarrow> words (insert_at t w f) = (words t)(w := bump (words t w) f)"
proof (induction t w f rule: insert_at.induct)
  case (1 b g ch f)
  show ?case
  proof
    fix v show "words (insert_at (Node b g ch) [] f) v = ((words (Node b g ch))([] := bump (words (Node b g ch) []) f)) v"
      using 1 by (cases v) (auto simp: bump_def live_Node)
  qed
next
  case (2 b g ch r rs f)
  let ?c = "case fmlookup ch r of None \<Rightarrow> Node False 0 fmempty | Some n \<Rightarrow> n"
  have IH: "words (insert_at ?c rs f) = (words ?c)(rs := bump (words ?c rs) f)"
    using 2 by (intro 2(1)) (auto simp: live_Node split: option.split)
  show ?case
  proof
    fix v show "words (insert_at (Node b g ch) (r # rs) f) v = ((words (Node b g ch))(r # rs := bump (words (Node b g ch) (r # rs)) f)) v"
      using IH by (cases v) (auto simp: words_empty Let_def split: option.split)
  qed
qed

lemma insert_at_live: "live t \<or> t = Node False 0 fmempty \<Longrightarrow> live (insert_at t w f)"
proof (induction t w f rule: insert_at.induct)
  case (1 b g ch f)
  then show ?case by (auto simp: live_Node)
next
  case (2 b g ch r rs f)
  let ?c = "case fmlookup ch r of None \<Rightarrow> Node False 0 fmempty | Some n \<Rightarrow> n"
  have "live (insert_at ?c rs f)"
    using 2 by (intro 2(1)) (auto simp: live_Node split: option.split)
  then show ?case using 2(2) by (auto simp: live_Node Let_def)
qed

lemma tr_Insert_ok: "trie_ok t \<Longrightarrow> trie_ok (tr_Insert t w f)"
proof (cases w)
  case (Cons r rs)
  assume ok: "trie_ok t"
  let ?c = "case fmlookup (Children t) r of None \<Rightarrow> Node False 0 fmempty | Some n \<Rightarrow> n"
  have "live (insert_at ?c rs f)" using ok by (intro insert_at_live) (auto simp: trie_ok_def split: option.split)
  then show ?thesis using ok Cons by (cases t) (auto simp: tr_Insert_def trie_ok_def Let_def)
qed (simp add: tr_Insert_def)

lemma tr_Insert_words: "trie_ok t \<Longrightarrow> w \<noteq> [] \<Longrightarrow> words (tr_Insert t w f) = (words t)(w := bump (words t w) f)"
proof (cases w)
  case (Cons r rs)
  assume ok: "trie_ok t"
  obtain b g ch where t: "t = Node b g ch" by (cases t)
  let ?c = "case fmlookup ch r of None \<Rightarrow> Node False 0 fmempty | Some n \<Rightarrow> n"
  have IH: "words (insert_at ?c rs f) = (words ?c)(rs := bump (words ?c rs) f)"
    using ok t by (intro insert_at_words) (auto simp: trie_ok_def split: option.split)
  show ?thesis
  proof
    fix v show "words (tr_Insert t w f) v = ((words t)(w := bump (words t w) f)) v"
      using IH t Cons by (cases v) (auto simp: tr_Insert_def words_empty Let_def split: option.split)
  qed
qed simp

section \<open>Deletion\<close>

lemma words_child_deleted:
  assumes "fmlookup ch r = Some c" "words c' = (words c)(rs := None)" "p \<Longrightarrow> words c' = Map.empty"
  shows "words (Node b g (if p then fmdrop r ch else fmupd r c' ch)) = (words (Node b g ch))(r # rs := None)"
proof
  fix v
  have gone: "words c x = None" if p "x \<noteq> rs" for x
    using assms(2) assms(3) [OF that(1)] that(2) by (metis fun_upd_other)
  show "words (Node b g (if p then fmdrop r ch else fmupd r c' ch)) v = ((words (Node b g ch))(r # rs := None)) v"
    using assms(1,2) gone by (cases v) (auto split: option.split)
qed

lemma deleteWord_words:
  "deleteWord t w = (prune, del, t') \<Longrightarrow> live t \<Longrightarrow>
     del = (words t w \<noteq> None) \<and> words t' = (words t)(w := None) \<and> (prune \<longrightarrow> words t' = Map.empty) \<and> (\<not> prune \<longrightarrow> live t')"
proof (induction t w arbitrary: prune del t' rule: deleteWord.induct)
  case (1 b g ch)
  show ?case
  proof (cases b)
    case False
    then show ?thesis using 1 by (auto simp: fun_upd_idem)
  next
    case True
    have "words (Node False 0 ch) = (words (Node True g ch))([] := None)"
    proof
      fix v show "words (Node False 0 ch) v = ((words (Node True g ch))([] := None)) v" by (cases v) auto
    qed
    then show ?thesis using 1 True by (auto simp: live_Node words_empty fun_upd_def)
  qed
next
  case (2 b g ch r rs)
  show ?case
  proof (cases "fmlookup ch r")
    case None
    then show ?thesis using 2 by (auto simp: fun_upd_idem)
  next
    case (Some c)
    obtain p d c' where del: "deleteWord c rs = (p, d, c')" by (metis prod_cases3)
    let ?ch = "if p then fmdrop r ch else fmupd r c' ch"
    have IH: "d = (words c rs \<noteq> None)" "words c' = (words c)(rs := None)" "p \<longrightarrow> words c' = Map.empty" "\<not> p \<longrightarrow> live c'"
      using 2(1) [OF Some del] 2(3) Some by (auto simp: live_Node)
    have t': "t' = Node b g ?ch" "del = d" "prune \<longleftrightarrow> \<not> b \<and> fcard (fmdom ?ch) = 0"
      using 2(2) Some del by (auto simp: Let_def)
    have w: "words t' = (words (Node b g ch))(r # rs := None)"
      unfolding t'(1) using IH(3) by (intro words_child_deleted [OF Some IH(2)]) simp
    have "live t'" if "\<not> prune"
      using that t' 2(3) IH Some by (auto simp: live_Node split: if_splits)
    moreover have "words t' = Map.empty" if "prune"
      using that t' by (simp add: words_empty)
    ultimately show ?thesis using w t' IH(1) Some by simp
  qed
qed


lemma deleteWord_root:
  assumes "trie_ok t" "w \<noteq> []"
  shows "words (snd (snd (deleteWord t w))) = (words t)(w := None)"
proof -
  obtain r rs b g ch where w: "w = r # rs" "t = Node b g ch" using assms(2) by (cases w; cases t) auto
  show ?thesis
  proof (cases "fmlookup ch r")
    case None
    then show ?thesis using w by (auto simp: fun_upd_idem)
  next
    case (Some c)
    obtain p d c' where del: "deleteWord c rs = (p, d, c')" by (metis prod_cases3)
    have "live c" using assms(1) w Some by (auto simp: trie_ok_def)
    from deleteWord_words [OF del this] have d: "words c' = (words c)(rs := None)" "p \<Longrightarrow> words c' = Map.empty" by blast+
    have "snd (snd (deleteWord t w)) = Node b g (if p then fmdrop r ch else fmupd r c' ch)"
      using w Some del by (simp add: Let_def)
    then show ?thesis using words_child_deleted [OF Some d, where b = b and g = g] w by metis
  qed
qed

lemma tr_Delete_correct:
  assumes ok: "trie_ok t"
  shows "trie_ok (snd (tr_Delete t w))" "fst (tr_Delete t w) = (words t w \<noteq> None)"
    "words (snd (tr_Delete t w)) = (words t)(w := None)"
proof -
  have *: "trie_ok (snd (tr_Delete t w)) \<and> fst (tr_Delete t w) = (words t w \<noteq> None)"
  proof (cases w)
    case Nil
    then show ?thesis using ok trie_ok_root [OF ok] by (simp add: tr_Delete_def)
  next
    case (Cons r rs)
    obtain b g ch where t: "t = Node b g ch" by (cases t)
    show ?thesis
    proof (cases "fmlookup ch r")
      case None
      then show ?thesis using Cons t ok by (simp add: tr_Delete_def)
    next
      case (Some c)
      obtain p d c' where del: "deleteWord c rs = (p, d, c')" by (metis prod_cases3)
      have "live c" using ok t Some by (auto simp: trie_ok_def)
      from deleteWord_words [OF del this] show ?thesis
        using Cons t Some del ok by (auto simp: tr_Delete_def trie_ok_def Let_def split: if_splits)
    qed
  qed
  then show "trie_ok (snd (tr_Delete t w))" "fst (tr_Delete t w) = (words t w \<noteq> None)" by simp_all
  show "words (snd (tr_Delete t w)) = (words t)(w := None)"
    using deleteWord_root [OF ok, of w] trie_ok_root [OF ok] by (auto simp: tr_Delete_def fun_upd_idem split: prod.splits)
qed

section \<open>Lookups\<close>

lemma NewTrie_ok: "trie_ok NewTrie" by (simp add: NewTrie_def trie_ok_def)

lemma words_NewTrie: "words NewTrie = Map.empty" by (simp add: NewTrie_def words_empty)

lemma tr_Search_words: "trie_ok t \<Longrightarrow> tr_Search t w \<longleftrightarrow> words t w \<noteq> None"
  using trie_ok_root by (auto simp: tr_Search_def words_def split: option.split)

lemma tr_Frequency_words: "trie_ok t \<Longrightarrow> tr_Frequency t w = (case words t w of None \<Rightarrow> 0 | Some f \<Rightarrow> f)"
  using trie_ok_root by (auto simp: tr_Frequency_def words_def split: option.split)

lemma tr_StartsWith_words: "trie_ok t \<Longrightarrow> tr_StartsWith t p \<longleftrightarrow> p \<noteq> [] \<and> (\<exists>s. words t (p @ s) \<noteq> None)"
proof (cases "p = [] \<or> tr_walk t p = None")
  case True
  then show ?thesis by (auto simp: tr_StartsWith_def words_append)
next
  case False
  assume "trie_ok t"
  then obtain n where "tr_walk t p = Some n" "live n" using trie_ok_walk False by blast
  then show ?thesis using False live_has_word by (auto simp: tr_StartsWith_def words_append)
qed


section \<open>Ordered insertion\<close>

text \<open>Inserts before the first element that comes later.\<close>

definition insert_before :: "('a \<Rightarrow> 'a \<Rightarrow> bool) \<Rightarrow> 'a \<Rightarrow> 'a list \<Rightarrow> 'a list" where
  "insert_before lt x xs = takeWhile (\<lambda>y. \<not> lt x y) xs @ x # dropWhile (\<lambda>y. \<not> lt x y) xs"

lemma set_insert_before [simp]: "set (insert_before lt x xs) = insert x (set xs)"
  unfolding insert_before_def set_append list.set
  by (metis Un_insert_right set_append takeWhile_dropWhile_id)

lemma sorted_insert_before:
  assumes "transp lt" "sorted_wrt lt xs" "\<And>y. y \<in> set xs \<Longrightarrow> lt x y \<or> lt y x"
  shows "sorted_wrt lt (insert_before lt x xs)"
  using assms(2,3)
proof (induction xs)
  case (Cons y xs)
  show ?case
  proof (cases "lt x y")
    case True
    then have "\<forall>z\<in>set xs. lt x z" using Cons.prems(1) assms(1) by (auto elim: transpE)
    then show ?thesis using True Cons.prems(1) by (simp add: insert_before_def)
  next
    case False
    have "sorted_wrt lt (insert_before lt x xs)" using Cons by simp
    moreover have "\<forall>z\<in>set (insert_before lt x xs). lt y z" using False Cons.prems by auto
    ultimately show ?thesis using False by (simp add: insert_before_def)
  qed
qed (simp add: insert_before_def)

lemma sorted_fold_insert_before:
  assumes "transp lt" "sorted_wrt (\<lambda>x y. lt x y \<or> lt y x) ys" "sorted_wrt lt xs" "\<And>x y. x \<in> set ys \<Longrightarrow> y \<in> set xs \<Longrightarrow> lt x y \<or> lt y x"
  shows "sorted_wrt lt (fold (insert_before lt) ys xs) \<and> set (fold (insert_before lt) ys xs) = set ys \<union> set xs"
  using assms(2-4)
proof (induction ys arbitrary: xs)
  case (Cons y ys)
  have "sorted_wrt lt (insert_before lt y xs)" using Cons.prems by (intro sorted_insert_before assms(1)) auto
  then show ?case using Cons.IH [of "insert_before lt y xs"] Cons.prems by fastforce
qed simp

lemma takeWhile_take: "takeWhile P (take k xs) = take k (takeWhile P xs)"
  by (induction xs arbitrary: k) (auto simp: take_Cons')

text \<open>The bounded insertion keeps the first entries of the unbounded one.\<close>

lemma insertTopSuggestion_take:
  "insertTopSuggestion (take k xs) c (int k) = take k (insert_before betterSuggestion c xs)"
proof -
  let ?P = "\<lambda>s. \<not> betterSuggestion c s"
  let ?i = "length (takeWhile ?P xs)"
  have le: "?i \<le> length xs" by (rule length_takeWhile_le)
  have ins: "insert_before betterSuggestion c xs = take ?i xs @ c # drop ?i xs"
    by (simp add: insert_before_def takeWhile_eq_take [symmetric] dropWhile_eq_drop)
  have at: "length (takeWhile ?P (take k xs)) = min k ?i" by (simp add: takeWhile_take min.commute)
  show ?thesis
  proof (cases "?i < k \<and> ?i < length xs")
    case True
    then have "take k (take ?i (take k xs) @ c # drop ?i (take k xs)) = take k (take ?i xs @ c # drop ?i xs)"
      by (simp add: min_def take_Cons' drop_take)
    then show ?thesis using True unfolding insertTopSuggestion_def at Let_def ins
      by (auto simp: min_def)
  next
    case False
    then show ?thesis unfolding insertTopSuggestion_def at Let_def ins using le
      by (auto simp: min_def)
  qed
qed

section \<open>Completion\<close>

text \<open>The order of the iterations at every node at or below the one reached by \<open>cur\<close>.\<close>

definition visits :: "(runes \<Rightarrow> runes) \<Rightarrow> tr_node \<Rightarrow> runes \<Rightarrow> bool" where
  "visits ord n cur \<longleftrightarrow> (\<forall>s m. tr_walk n s = Some m \<longrightarrow> iterates (ord (cur @ s)) (fmlookup (Children m)))"

lemma visits_walk: "visits ord n cur \<Longrightarrow> tr_walk n s = Some m \<Longrightarrow> visits ord m (cur @ s)"
  by (auto simp: visits_def walk_append)

lemma visits_here: "visits ord (Node w f ch) cur \<Longrightarrow> iterates (ord cur) (fmlookup ch)"
  unfolding visits_def by (metis append_Nil2 tr_node.sel(3) tr_walk.simps(1))

lemma visits_child: "visits ord (Node w f ch) cur \<Longrightarrow> fmlookup ch r = Some c \<Longrightarrow> visits ord c (cur @ [r])"
  using visits_walk [of ord "Node w f ch" cur "[r]" c] by simp

abbreviation below :: "(runes \<Rightarrow> runes) \<Rightarrow> (rune, tr_node) fmap \<Rightarrow> runes \<Rightarrow> rune \<Rightarrow> suggestion list" where
  "below ord ch cur r \<equiv> (case fmlookup ch r of None \<Rightarrow> [] | Some c \<Rightarrow> collectWords ord c (cur @ [r]) [])"

lemma fold_appending: "(\<And>r xs. r \<in> set ks \<Longrightarrow> f r xs = xs @ g r) \<Longrightarrow> fold f ks xs = xs @ concat (map g ks)"
  by (induction ks arbitrary: xs) auto

lemma collectWords_append: "collectWords ord n cur results = results @ collectWords ord n cur []"
proof (induction ord n cur results rule: collectWords.induct)
  case (1 ord w f ch cur results)
  have eq: "(case fmlookup ch r of None \<Rightarrow> xs | Some c \<Rightarrow> collectWords ord c (cur @ [r]) xs) = xs @ below ord ch cur r"
    if "r \<in> set (ord cur)" for r xs
  proof (cases "fmlookup ch r")
    case (Some c)
    show ?thesis unfolding Some option.case by (rule 1 [OF that Some])
  qed simp
  have "fold (\<lambda>r xs. case fmlookup ch r of None \<Rightarrow> xs | Some c \<Rightarrow> collectWords ord c (cur @ [r]) xs) (ord cur) xs =
      xs @ concat (map (below ord ch cur) (ord cur))" for xs
    by (rule fold_appending) (rule eq)
  then show ?case by (simp add: collectWords.simps)
qed


lemma collectWords_Node:
  "collectWords ord (Node w f ch) cur [] =
     (if w then [\<lparr>sg_Word = cur, sg_Frequency = f\<rparr>] else []) @ concat (map (below ord ch cur) (ord cur))"
proof -
  have "(case fmlookup ch r of None \<Rightarrow> xs | Some c \<Rightarrow> collectWords ord c (cur @ [r]) xs) = xs @ below ord ch cur r" for r xs
  proof (cases "fmlookup ch r")
    case (Some c)
    show ?thesis unfolding Some option.case by (rule collectWords_append)
  qed simp
  then have "fold (\<lambda>r xs. case fmlookup ch r of None \<Rightarrow> xs | Some c \<Rightarrow> collectWords ord c (cur @ [r]) xs) (ord cur) xs =
      xs @ concat (map (below ord ch cur) (ord cur))" for xs
    by (rule fold_appending)
  then show ?thesis by (simp add: collectWords.simps)
qed

lemma fold_take_simulation:
  "(\<And>r xs. f r (take k xs) = take k (fold ins (g r) xs)) \<Longrightarrow> fold f ks (take k xs) = take k (fold ins (concat (map g ks)) xs)"
  by (induction ks arbitrary: xs) simp_all

text \<open>The bounded tr_walk is the full tr_walk followed by an ordered insertion of every word it finds.\<close>

lemma collectTopWords_take:
  "collectTopWords ord n cur (take k xs) (int k) = take k (fold (insert_before betterSuggestion) (collectWords ord n cur []) xs)"
proof (induction n arbitrary: cur xs rule: measure_induct_rule [of height])
  case (less n)
  obtain w f ch where n: "n = Node w f ch" by (cases n)
  have step: "(case fmlookup ch r of None \<Rightarrow> take k xs | Some c \<Rightarrow> collectTopWords ord c (cur @ [r]) (take k xs) (int k)) =
      take k (fold (insert_before betterSuggestion) (below ord ch cur r) xs)" for r xs
    using less [of _ "cur @ [r]" xs] height_child n by (cases "fmlookup ch r") auto
  let ?s = "\<lparr>sg_Word = cur, sg_Frequency = f\<rparr>"
  have "(if w then insertTopSuggestion (take k xs) ?s (int k) else take k xs) =
      take k (fold (insert_before betterSuggestion) (if w then [?s] else []) xs)"
    by (simp add: insertTopSuggestion_take)
  then show ?case unfolding n collectTopWords.simps collectWords_Node
    by (simp only: fold_append o_apply fold_take_simulation [OF step])
qed

lemma set_collectWords:
  "visits ord n cur \<Longrightarrow> set (collectWords ord n cur []) = {\<lparr>sg_Word = cur @ s, sg_Frequency = f\<rparr> | s f. words n s = Some f}"
proof (induction n arbitrary: cur rule: measure_induct_rule [of height])
  case (less n)
  obtain w f ch where n: "n = Node w f ch" by (cases n)
  have keys: "set (ord cur) = dom (fmlookup ch)" using visits_here less.prems unfolding n iterates_def by blast
  have child: "set (below ord ch cur r) = {\<lparr>sg_Word = cur @ r # s, sg_Frequency = g\<rparr> | s g. words n (r # s) = Some g}" for r
    using less.IH [of _ "cur @ [r]"] height_child visits_child less.prems n by (cases "fmlookup ch r") auto
  have "x \<in> set (collectWords ord n cur []) \<longleftrightarrow> (\<exists>s g. x = \<lparr>sg_Word = cur @ s, sg_Frequency = g\<rparr> \<and> words n s = Some g)" for x
  proof
    assume "x \<in> set (collectWords ord n cur [])"
    then consider "w" "x = \<lparr>sg_Word = cur, sg_Frequency = f\<rparr>" | r where "x \<in> set (below ord ch cur r)"
      unfolding n collectWords_Node by (auto split: if_splits)
    then show "\<exists>s g. x = \<lparr>sg_Word = cur @ s, sg_Frequency = g\<rparr> \<and> words n s = Some g"
    proof cases
      case 1
      then show ?thesis using n by (intro exI [of _ "[]"] exI [of _ f]) simp
    next
      case 2
      then show ?thesis using child by blast
    qed
  next
    assume "\<exists>s g. x = \<lparr>sg_Word = cur @ s, sg_Frequency = g\<rparr> \<and> words n s = Some g"
    then obtain s g where s: "x = \<lparr>sg_Word = cur @ s, sg_Frequency = g\<rparr>" "words n s = Some g" by blast
    show "x \<in> set (collectWords ord n cur [])"
    proof (cases s)
      case Nil
      then show ?thesis using s n by (simp add: collectWords_Node split: if_splits)
    next
      case (Cons r t)
      then have "x \<in> set (below ord ch cur r)" using s child by blast
      moreover have "fmlookup ch r \<noteq> None" using s(2) unfolding n Cons by (auto split: option.splits)
      then have "r \<in> set (ord cur)" unfolding keys by blast
      ultimately show ?thesis unfolding n collectWords_Node by auto
    qed
  qed
  then show ?case by blast
qed

lemma distinct_collectWords: "visits ord n cur \<Longrightarrow> distinct (map sg_Word (collectWords ord n cur []))"
proof (induction n arbitrary: cur rule: measure_induct_rule [of height])
  case (less n)
  obtain w f ch where n: "n = Node w f ch" by (cases n)
  have keys: "distinct (ord cur)" using visits_here less.prems unfolding n iterates_def by blast
  have child: "distinct (map sg_Word (below ord ch cur r))" "\<forall>v\<in>set (map sg_Word (below ord ch cur r)). \<exists>s. v = cur @ r # s" for r
  proof -
    show "distinct (map sg_Word (below ord ch cur r))"
      using less.IH [of _ "cur @ [r]"] height_child visits_child less.prems n by (cases "fmlookup ch r") auto
    show "\<forall>v\<in>set (map sg_Word (below ord ch cur r)). \<exists>s. v = cur @ r # s"
    proof (cases "fmlookup ch r")
      case (Some c)
      then show ?thesis using set_collectWords [OF visits_child [OF less.prems [unfolded n] Some]] by auto
    qed simp
  qed
  have "distinct (map sg_Word (concat (map (below ord ch cur) ks))) \<and>
      (\<forall>v\<in>set (map sg_Word (concat (map (below ord ch cur) ks))). \<exists>r s. r \<in> set ks \<and> v = cur @ r # s)" if "distinct ks" for ks
    using that
  proof (induction ks)
    case (Cons k ks)
    then show ?case using child [of k] by fastforce
  qed simp
  from this [OF keys] show ?case unfolding n collectWords_Node by fastforce
qed


lemma transp_betterSuggestion: "transp betterSuggestion"
  by (rule transpI) (auto simp: betterSuggestion_def split: if_splits)

lemma betterSuggestion_total: "sg_Word a \<noteq> sg_Word b \<Longrightarrow> betterSuggestion a b \<or> betterSuggestion b a"
  by (auto simp: betterSuggestion_def)

lemma pairwise_distinct: "distinct (map f xs) \<Longrightarrow> (\<And>a b. f a \<noteq> f b \<Longrightarrow> P a b) \<Longrightarrow> sorted_wrt P xs"
  by (induction xs) force+

text \<open>Completion is the head of the sorted list of everything below the node.\<close>

lemma collectTopWords_sorted:
  assumes "visits ord n cur"
  obtains xs where "sorted_wrt betterSuggestion xs" "set xs = set (collectWords ord n cur [])"
    "\<And>k. collectTopWords ord n cur [] (int k) = take k xs"
proof
  let ?ws = "collectWords ord n cur []"
  have "sorted_wrt (\<lambda>x y. betterSuggestion x y \<or> betterSuggestion y x) ?ws"
    using distinct_collectWords [OF assms] betterSuggestion_total by (rule pairwise_distinct)
  then show "sorted_wrt betterSuggestion (fold (insert_before betterSuggestion) ?ws [])"
    "set (fold (insert_before betterSuggestion) ?ws []) = set ?ws"
    using sorted_fold_insert_before [OF transp_betterSuggestion, of ?ws "[]"] by simp_all
  show "collectTopWords ord n cur [] (int k) = take k (fold (insert_before betterSuggestion) ?ws [])" for k
    using collectTopWords_take [of ord n cur k "[]"] by simp
qed

section \<open>Properties\<close>

datatype trie_op = OpInsert runes int | OpDelete runes

text \<open>An operation, with the outcomes of the deletions so far.\<close>

fun trie_exec :: "trie_op \<Rightarrow> tr_node \<times> bool list \<Rightarrow> tr_node \<times> bool list" where
  "trie_exec (OpInsert w f) (t, outs) = (tr_Insert t w f, outs)"
| "trie_exec (OpDelete w) (t, outs) = (let (deleted, t') = tr_Delete t w in (t', outs @ [deleted]))"

text \<open>The same on a map; the empty word is never in it.\<close>

fun map_exec :: "trie_op \<Rightarrow> (runes \<rightharpoonup> int) \<times> bool list \<Rightarrow> (runes \<rightharpoonup> int) \<times> bool list" where
  "map_exec (OpInsert w f) (m, outs) = (if w = [] then m else m(w := bump (m w) f), outs)"
| "map_exec (OpDelete w) (m, outs) = (m(w := None), outs @ [m w \<noteq> None])"

lemma trie_run_refines:
  "trie_ok t \<Longrightarrow> fold trie_exec ops (t, outs) = (t', outs') \<Longrightarrow> trie_ok t' \<and> fold map_exec ops (words t, outs) = (words t', outs')"
proof (induction ops arbitrary: t outs)
  case (Cons op ops)
  obtain u os where u: "trie_exec op (t, outs) = (u, os)" by (cases "trie_exec op (t, outs)")
  have "trie_ok u \<and> map_exec op (words t, outs) = (words u, os)"
  proof (cases op)
    case (OpInsert w f)
    then show ?thesis using u tr_Insert_ok [OF Cons.prems(1)] tr_Insert_words [OF Cons.prems(1)] by (auto simp: tr_Insert_def)
  next
    case (OpDelete w)
    then show ?thesis using u tr_Delete_correct [OF Cons.prems(1), of w] by (auto split: prod.splits)
  qed
  then show ?case using Cons.IH [of u os] Cons.prems(2) u by simp
qed simp

text \<open>
  C18. After any script of insertions and deletions the trie is the map from words to the sums of
  their frequencies: the deletions report whether the word was there, and \<open>Search\<close>, \<open>Frequency\<close> and
  \<open>StartsWith\<close> answer for the map.  Every branch of the trie leads to a word: deletion prunes.
\<close>

theorem trie_implements_map:
  "case (fold trie_exec ops (NewTrie, []), fold map_exec ops (Map.empty, [])) of ((t, outs), (m, outs')) \<Rightarrow>
     outs = outs' \<and> (\<forall>w. tr_Search t w \<longleftrightarrow> m w \<noteq> None) \<and> (\<forall>w. tr_Frequency t w = (case m w of None \<Rightarrow> 0 | Some f \<Rightarrow> f)) \<and>
     (\<forall>p. tr_StartsWith t p \<longleftrightarrow> p \<noteq> [] \<and> (\<exists>s. m (p @ s) \<noteq> None)) \<and>
     (\<forall>r n. \<not> (fmlookup (Children t) r = Some n \<and> \<not> live n))"
proof -
  obtain t outs where t: "fold trie_exec ops (NewTrie, []) = (t, outs)" by (cases "fold trie_exec ops (NewTrie, [])")
  from trie_run_refines [OF NewTrie_ok t] have "trie_ok t" "fold map_exec ops (Map.empty, []) = (words t, outs)"
    by (simp_all add: words_NewTrie)
  then show ?thesis unfolding t prod.case
    using tr_Search_words tr_Frequency_words tr_StartsWith_words by (auto simp: trie_ok_def)
qed

end
