(* ===== verification/Spell_Distance.thy ===== *)
theory Spell_Distance
  imports Spell_Trie
begin

text \<open>
  The edit distance (\<open>11-day/spellchecker/internal/distance/levenshtein.go\<close>): the table filled by
  the loops is the least number of single-rune edits.
\<close>

section \<open>Model\<close>

definition min3 :: "int \<Rightarrow> int \<Rightarrow> int \<Rightarrow> int" where
  "min3 first second third =
     (let minimum = first;
          minimum = (if second < minimum then second else minimum);
          minimum = (if third < minimum then third else minimum)
      in minimum)"

type_synonym table = "int list list"

definition set_cell :: "table \<Rightarrow> nat \<Rightarrow> nat \<Rightarrow> int \<Rightarrow> table" where
  "set_cell dp i j v = dp[i := (dp ! i)[j := v]]"

definition lev_cell :: "runes \<Rightarrow> runes \<Rightarrow> nat \<Rightarrow> nat \<Rightarrow> table \<Rightarrow> table" where
  "lev_cell firstRunes secondRunes i j dp =
     (let cost = (if firstRunes ! (i - 1) = secondRunes ! (j - 1) then 0 else 1);
          deleteCost = dp ! (i - 1) ! j + 1;
          insertCost = dp ! i ! (j - 1) + 1;
          replaceCost = dp ! (i - 1) ! (j - 1) + cost
      in set_cell dp i j (min3 deleteCost insertCost replaceCost))"

text \<open>The table with its first column and row.\<close>

definition lev_init :: "nat \<Rightarrow> nat \<Rightarrow> table" where
  "lev_init firstLen secondLen =
     (let dp = replicate (firstLen + 1) (replicate (secondLen + 1) 0);
          dp = fold (\<lambda>i dp. set_cell dp i 0 (int i)) [0..<firstLen + 1] dp
      in fold (\<lambda>j dp. set_cell dp 0 j (int j)) [0..<secondLen + 1] dp)"

definition Levenshtein :: "runes \<Rightarrow> runes \<Rightarrow> int" where
  "Levenshtein firstRunes secondRunes =
     (let firstLen = length firstRunes; secondLen = length secondRunes
      in if firstLen = 0 then int secondLen
         else if secondLen = 0 then int firstLen
         else (let dp = fold (\<lambda>i dp. fold (lev_cell firstRunes secondRunes i) [1..<secondLen + 1] dp)
                          [1..<firstLen + 1] (lev_init firstLen secondLen)
               in dp ! firstLen ! secondLen))"

section \<open>Edits\<close>

text \<open>One deletion, insertion or replacement of a rune.\<close>

inductive edit :: "'a list \<Rightarrow> 'a list \<Rightarrow> bool" where
  delete: "edit (x # xs) xs"
| insert: "edit xs (x # xs)"
| replace: "edit (x # xs) (y # xs)"
| keep: "edit xs ys \<Longrightarrow> edit (x # xs) (x # ys)"

lemma edit_append: "edit xs ys \<Longrightarrow> edit (xs @ zs) (ys @ zs)"
  by (induction rule: edit.induct) (auto intro: edit.intros)

lemma edit_prepend: "edit xs ys \<Longrightarrow> edit (zs @ xs) (zs @ ys)"
  by (induction zs) (auto intro: edit.keep)

lemma edit_rev: "edit xs ys \<Longrightarrow> edit (rev xs) (rev ys)"
proof (induction rule: edit.induct)
  case (delete x xs)
  show ?case using edit_prepend [OF edit.delete [of x "[]"], of "rev xs"] by simp
next
  case (insert xs x)
  show ?case using edit_prepend [OF edit.insert [of "[]" x], of "rev xs"] by simp
next
  case (replace x xs y)
  show ?case using edit_prepend [OF edit.replace [of x "[]" y], of "rev xs"] by simp
qed (simp add: edit_append)

text \<open>The distance by recursion.\<close>

fun led :: "'a list \<Rightarrow> 'a list \<Rightarrow> nat" where
  "led [] ys = length ys"
| "led xs [] = length xs"
| "led (x # xs) (y # ys) = min (min (led xs (y # ys) + 1) (led (x # xs) ys + 1)) (led xs ys + (if x = y then 0 else 1))"

lemma led_Nil [simp]: "led xs [] = length xs" by (cases xs) auto

lemma led_insert: "led xs (y # ys) \<le> led xs ys + 1" by (cases xs) auto

lemma led_delete: "led (x # xs) ys \<le> led xs ys + 1" by (cases ys) auto

lemma led_undelete: "led xs ys \<le> led (x # xs) ys + 1"
proof (induction ys)
  case (Cons y ys)
  then show ?case using led_insert [of xs y ys] by auto
qed simp

lemma led_replace: "led (x # xs) ys \<le> led (z # xs) ys + 1"
  by (induction ys) auto

lemma led_keep: "(\<And>ys. led xs ys \<le> led xs' ys + 1) \<Longrightarrow> led (x # xs) ys \<le> led (x # xs') ys + 1"
proof (induction ys)
  case (Cons y ys)
  have "led xs (y # ys) \<le> led xs' (y # ys) + 1" "led xs ys \<le> led xs' ys + 1" by (rule Cons.prems)+
  moreover have "led (x # xs) ys \<le> led (x # xs') ys + 1" by (rule Cons.IH [OF Cons.prems])
  ultimately show ?case by (simp add: min_def)
qed (metis led_Nil length_Cons add.commute add_Suc_right Suc_le_mono plus_1_eq_Suc)

lemma led_edit: "edit xs xs' \<Longrightarrow> led xs ys \<le> led xs' ys + 1"
proof (induction arbitrary: ys rule: edit.induct)
  case (keep xs zs x)
  show ?case by (rule led_keep) (rule keep.IH)
qed (rule led_delete led_undelete led_replace)+

lemma led_refl: "led xs xs = 0" by (induction xs) auto

lemma led_lower: "(edit ^^ k) xs ys \<Longrightarrow> led xs ys \<le> k"
proof (induction k arbitrary: xs)
  case 0
  then show ?case by (simp add: led_refl)
next
  case (Suc k)
  then obtain zs where "edit xs zs" "(edit ^^ k) zs ys" by (metis relpowp_Suc_E2)
  then show ?case using led_edit [of xs zs ys] Suc.IH [of zs] by simp
qed

lemma edits_keep: "(edit ^^ k) xs ys \<Longrightarrow> (edit ^^ k) (x # xs) (x # ys)"
proof (induction k arbitrary: ys)
  case (Suc k)
  then obtain zs where "(edit ^^ k) xs zs" "edit zs ys" by auto
  then show ?case using Suc.IH [of zs] edit.keep [of zs ys x] by auto
qed simp

lemma edits_then: "edit xs zs \<Longrightarrow> (edit ^^ k) zs ys \<Longrightarrow> (edit ^^ Suc k) xs ys"
  by (rule relpowp_Suc_I2)

lemma led_reached: "(edit ^^ led xs ys) xs ys"
proof (induction xs ys rule: led.induct)
  case (1 ys)
  show ?case
  proof (induction ys)
    case (Cons y ys)
    then have "(edit ^^ length ys) [] ys" by simp
    then have "(edit ^^ Suc (length ys)) [] (y # ys)" by (simp, intro relcomppI) (auto intro: edit.insert)
    then show ?case by simp
  qed simp
next
  case (2 x xs)
  have "(edit ^^ length zs) zs []" for zs :: "'a list"
    by (induction zs) (auto intro: edits_then edit.delete simp del: relpowp.simps(2))
  from this [of "x # xs"] show ?case by simp
next
  case (3 x xs y ys)
  consider "led (x # xs) (y # ys) = Suc (led xs (y # ys))" | "led (x # xs) (y # ys) = Suc (led (x # xs) ys)"
    | "x = y" "led (x # xs) (y # ys) = led xs ys" | "led (x # xs) (y # ys) = Suc (led xs ys)"
  proof (cases "x = y")
    case True
    then have "led (x # xs) (y # ys) \<in> {Suc (led xs (y # ys)), Suc (led (x # xs) ys), led xs ys}"
      by (simp add: min_def)
    then show ?thesis using that(1-3) True by blast
  next
    case False
    then have "led (x # xs) (y # ys) \<in> {Suc (led xs (y # ys)), Suc (led (x # xs) ys), Suc (led xs ys)}"
      by (simp add: min_def)
    then show ?thesis using that(1,2,4) by blast
  qed
  then show ?case
  proof cases
    case 1
    then show ?thesis using edits_then [OF edit.delete 3(1)] by simp
  next
    case 2
    have "(edit ^^ led (x # xs) ys) (y # x # xs) (y # ys)" by (rule edits_keep [OF 3(2)])
    then show ?thesis using 2 edits_then [OF edit.insert] by metis
  next
    case 3
    then show ?thesis using edits_keep [OF \<open>(edit ^^ led xs ys) xs ys\<close>] by simp
  next
    case 4
    then show ?thesis using edits_then [OF edit.replace edits_keep [OF 3(3)]] by metis
  qed
qed

lemma led_rev: "led (rev xs) (rev ys) = led xs ys"
proof -
  have "led (rev as) (rev bs) \<le> led as bs" for as bs :: "'a list"
  proof -
    have "(edit ^^ k) as bs \<Longrightarrow> (edit ^^ k) (rev as) (rev bs)" for k
    proof (induction k arbitrary: bs)
      case (Suc k)
      then obtain cs where "(edit ^^ k) as cs" "edit cs bs" by auto
      then show ?case using Suc.IH [of cs] edit_rev [of cs bs] by auto
    qed simp
    then show ?thesis using led_lower led_reached by blast
  qed
  from this [of xs ys] this [of "rev xs" "rev ys"] show ?thesis by simp
qed


section \<open>The table\<close>

definition shaped :: "nat \<Rightarrow> nat \<Rightarrow> table \<Rightarrow> bool" where
  "shaped m n dp \<longleftrightarrow> length dp = m + 1 \<and> (\<forall>row\<in>set dp. length row = n + 1)"

lemma shaped_row: "shaped m n dp \<Longrightarrow> i \<le> m \<Longrightarrow> length (dp ! i) = n + 1"
  by (auto simp: shaped_def)

lemma shaped_set_cell [simp]: "shaped m n dp \<Longrightarrow> i \<le> m \<Longrightarrow> shaped m n (set_cell dp i j v)"
  using set_update_subset_insert [of dp i "(dp ! i)[j := v]"] by (auto simp: shaped_def set_cell_def)

lemma set_cell_nth:
  "shaped m n dp \<Longrightarrow> i \<le> m \<Longrightarrow> j \<le> n \<Longrightarrow> i' \<le> m \<Longrightarrow> set_cell dp i j v ! i' ! j' = (if i' = i \<and> j' = j then v else dp ! i' ! j')"
  using shaped_row [of m n dp i] by (auto simp: set_cell_def shaped_def nth_list_update)

text \<open>A cell holds the distance of the prefixes that its indices name.\<close>

definition cell_ok :: "runes \<Rightarrow> runes \<Rightarrow> table \<Rightarrow> nat \<Rightarrow> nat \<Rightarrow> bool" where
  "cell_ok a b dp i j \<longleftrightarrow> dp ! i ! j = int (led (rev (take i a)) (rev (take j b)))"

lemma min3_min: "min3 x y z = min (min x y) z"
  by (simp add: min3_def Let_def)

lemma lev_cell_step:
  assumes "shaped (length a) (length b) dp" "1 \<le> i" "i \<le> length a" "1 \<le> j" "j \<le> length b"
    "cell_ok a b dp (i - 1) j" "cell_ok a b dp i (j - 1)" "cell_ok a b dp (i - 1) (j - 1)"
  shows "cell_ok a b (lev_cell a b i j dp) i j"
proof -
  obtain k l where kl: "i = Suc k" "j = Suc l" using assms(2,4) by (metis Suc_le_D One_nat_def)
  have "rev (take i a) = a ! k # rev (take k a)" "rev (take j b) = b ! l # rev (take l b)"
    using assms(3,5) kl by (simp_all add: take_Suc_conv_app_nth)
  then show ?thesis using assms kl
    by (simp add: cell_ok_def lev_cell_def Let_def set_cell_nth min3_min of_nat_min) (simp add: min_def)
qed

lemma lev_cell_frame:
  assumes "shaped (length a) (length b) dp" "i \<le> length a" "j \<le> length b"
  shows "shaped (length a) (length b) (lev_cell a b i j dp)"
    "i' \<le> length a \<Longrightarrow> (i', j') \<noteq> (i, j) \<Longrightarrow> cell_ok a b (lev_cell a b i j dp) i' j' = cell_ok a b dp i' j'"
  using assms by (auto simp: cell_ok_def lev_cell_def Let_def set_cell_nth)

text \<open>The cells filled before cell \<open>(i, j)\<close>.\<close>

definition filled :: "runes \<Rightarrow> runes \<Rightarrow> table \<Rightarrow> nat \<Rightarrow> nat \<Rightarrow> bool" where
  "filled a b dp i j \<longleftrightarrow>
     (\<forall>i' j'. i' \<le> length a \<longrightarrow> j' \<le> length b \<longrightarrow> i' = 0 \<or> j' = 0 \<or> i' < i \<or> (i' = i \<and> j' < j) \<longrightarrow> cell_ok a b dp i' j')"

lemma filledD: "filled a b dp i j \<Longrightarrow> i' \<le> length a \<Longrightarrow> j' \<le> length b \<Longrightarrow> i' = 0 \<or> j' = 0 \<or> i' < i \<or> (i' = i \<and> j' < j) \<Longrightarrow> cell_ok a b dp i' j'"
  by (auto simp: filled_def)

lemma row_filled:
  assumes "shaped (length a) (length b) dp" "filled a b dp i 1" "1 \<le> i" "i \<le> length a" "j \<le> length b"
  shows "shaped (length a) (length b) (fold (lev_cell a b i) [1..<j + 1] dp) \<and>
    filled a b (fold (lev_cell a b i) [1..<j + 1] dp) i (j + 1)"
  using assms(5)
proof (induction j)
  case 0
  then show ?case using assms by simp
next
  case (Suc j)
  let ?dp = "fold (lev_cell a b i) [1..<j + 1] dp"
  have IH: "shaped (length a) (length b) ?dp" "filled a b ?dp i (j + 1)" using Suc by simp_all
  have step: "fold (lev_cell a b i) [1..<Suc j + 1] dp = lev_cell a b i (j + 1) ?dp" by simp
  have new: "cell_ok a b (lev_cell a b i (j + 1) ?dp) i (j + 1)"
    using assms(3,4) Suc.prems by (intro lev_cell_step IH(1) filledD [OF IH(2)]) auto
  have old: "cell_ok a b (lev_cell a b i (j + 1) ?dp) i' j' = cell_ok a b ?dp i' j'" if "i' \<le> length a" "(i', j') \<noteq> (i, j + 1)" for i' j'
    using that assms(4) Suc.prems by (intro lev_cell_frame(2) IH(1)) auto
  have "filled a b (lev_cell a b i (j + 1) ?dp) i (Suc j + 1)"
    unfolding filled_def
  proof (intro allI impI)
    fix i' j' assume p: "i' \<le> length a" "j' \<le> length b" "i' = 0 \<or> j' = 0 \<or> i' < i \<or> (i' = i \<and> j' < Suc j + 1)"
    show "cell_ok a b (lev_cell a b i (j + 1) ?dp) i' j'"
    proof (cases "(i', j') = (i, j + 1)")
      case False
      then have "cell_ok a b ?dp i' j'" using p by (intro filledD [OF IH(2)]) auto
      then show ?thesis using old [OF p(1) False] by simp
    qed (use new in simp)
  qed
  moreover have "shaped (length a) (length b) (lev_cell a b i (j + 1) ?dp)"
    using assms(4) Suc.prems by (intro lev_cell_frame(1) IH(1)) auto
  ultimately show ?case unfolding step by blast
qed

lemma filled_next_row: "filled a b dp i (length b + 1) \<Longrightarrow> filled a b dp (i + 1) 1"
  unfolding filled_def
proof (intro allI impI)
  fix i' j'
  assume f: "\<forall>i' j'. i' \<le> length a \<longrightarrow> j' \<le> length b \<longrightarrow> i' = 0 \<or> j' = 0 \<or> i' < i \<or> (i' = i \<and> j' < length b + 1) \<longrightarrow> cell_ok a b dp i' j'"
    and p: "i' \<le> length a" "j' \<le> length b" "i' = 0 \<or> j' = 0 \<or> i' < i + 1 \<or> (i' = i + 1 \<and> j' < 1)"
  have "i' = 0 \<or> j' = 0 \<or> i' < i \<or> (i' = i \<and> j' < length b + 1)" using p(2,3) by linarith
  with f p(1,2) show "cell_ok a b dp i' j'" by blast
qed

lemma rows_filled:
  assumes "shaped (length a) (length b) dp" "filled a b dp 1 1" "i \<le> length a"
  shows "shaped (length a) (length b) (fold (\<lambda>i. fold (lev_cell a b i) [1..<length b + 1]) [1..<i + 1] dp) \<and>
    filled a b (fold (\<lambda>i. fold (lev_cell a b i) [1..<length b + 1]) [1..<i + 1] dp) (i + 1) 1"
  using assms(3)
proof (induction i)
  case 0
  then show ?case using assms by simp
next
  case (Suc i)
  let ?dp = "fold (\<lambda>i. fold (lev_cell a b i) [1..<length b + 1]) [1..<i + 1] dp"
  have "shaped (length a) (length b) ?dp" "filled a b ?dp (Suc i) 1" using Suc by simp_all
  from row_filled [OF this _ Suc.prems order_refl] have r:
    "shaped (length a) (length b) (fold (lev_cell a b (Suc i)) [1..<length b + 1] ?dp)"
    "filled a b (fold (lev_cell a b (Suc i)) [1..<length b + 1] ?dp) (Suc i) (length b + 1)" by simp_all
  from r(2) have "filled a b (fold (lev_cell a b (Suc i)) [1..<length b + 1] ?dp) (Suc i + 1) 1"
    by (rule filled_next_row)
  then show ?case using r(1) by simp
qed

lemma init_column:
  "i \<le> m + 1 \<Longrightarrow> shaped m n dp \<Longrightarrow>
     shaped m n (fold (\<lambda>i dp. set_cell dp i 0 (int i)) [0..<i] dp) \<and>
     (\<forall>i' \<le> m. \<forall>j'. fold (\<lambda>i dp. set_cell dp i 0 (int i)) [0..<i] dp ! i' ! j' = (if j' = 0 \<and> i' < i then int i' else dp ! i' ! j'))"
  by (induction i) (auto simp: set_cell_nth)

lemma init_row:
  "j \<le> n + 1 \<Longrightarrow> shaped m n dp \<Longrightarrow>
     shaped m n (fold (\<lambda>j dp. set_cell dp 0 j (int j)) [0..<j] dp) \<and>
     (\<forall>i' \<le> m. \<forall>j'. fold (\<lambda>j dp. set_cell dp 0 j (int j)) [0..<j] dp ! i' ! j' = (if i' = 0 \<and> j' < j then int j' else dp ! i' ! j'))"
  by (induction j) (auto simp: set_cell_nth)

lemma lev_init_filled: "shaped (length a) (length b) (lev_init (length a) (length b)) \<and> filled a b (lev_init (length a) (length b)) 1 1"
proof -
  let ?m = "length a" and ?n = "length b"
  let ?z = "replicate (?m + 1) (replicate (?n + 1) (0 :: int))"
  define C where "C = fold (\<lambda>i dp. set_cell dp i 0 (int i)) [0..<?m + 1] ?z"
  define R where "R = fold (\<lambda>j dp. set_cell dp 0 j (int j)) [0..<?n + 1] C"
  have "shaped ?m ?n ?z" by (simp add: shaped_def)
  from init_column [OF order_refl this] have c: "shaped ?m ?n C" "\<And>i j. i \<le> ?m \<Longrightarrow> C ! i ! j = (if j = 0 \<and> i < ?m + 1 then int i else ?z ! i ! j)"
    unfolding C_def by blast+
  from init_row [OF order_refl c(1)] have r: "shaped ?m ?n R" "\<And>i j. i \<le> ?m \<Longrightarrow> R ! i ! j = (if i = 0 \<and> j < ?n + 1 then int j else C ! i ! j)"
    unfolding R_def by blast+
  have "R ! i ! j = int (led (rev (take i a)) (rev (take j b)))" if "i \<le> ?m" "j \<le> ?n" "i = 0 \<or> j = 0" for i j
    using that c(2) r(2) by auto
  then have "filled a b R 1 1" by (auto simp: filled_def cell_ok_def)
  moreover have "lev_init ?m ?n = R" by (simp only: lev_init_def Let_def R_def C_def)
  ultimately show ?thesis using r(1) by simp
qed

lemma Levenshtein_led: "Levenshtein a b = int (led a b)"
proof (cases "a = [] \<or> b = []")
  case False
  let ?dp = "fold (\<lambda>i. fold (lev_cell a b i) [1..<length b + 1]) [1..<length a + 1] (lev_init (length a) (length b))"
  have "filled a b ?dp (length a + 1) 1" using rows_filled lev_init_filled by blast
  then have "cell_ok a b ?dp (length a) (length b)" by (rule filledD) auto
  then show ?thesis using False by (simp add: Levenshtein_def cell_ok_def Let_def led_rev)
qed (auto simp: Levenshtein_def Let_def)

text \<open>
  C22. The table gives the least number of deletions, insertions and replacements of single runes
  that turn the first word into the second.
\<close>

theorem levenshtein_correct:
  "Levenshtein a b = int (LEAST k. (edit ^^ k) a b)"
proof -
  have "(LEAST k. (edit ^^ k) a b) = led a b"
    by (rule Least_equality) (auto intro: led_reached led_lower)
  then show ?thesis by (simp add: Levenshtein_led)
qed

end
