(* ===== verification/Spell_Check.thy ===== *)
theory Spell_Check
  imports Trie_Correct Spell_Distance
begin

text \<open>
  The spell checker (\<open>11-day/spellchecker\<close>): the ranking tree (\<open>internal/ranking/bst.go\<close>), the
  checks (\<open>internal/spellcheck/spellcheck.go\<close>), the dictionary loader
  (\<open>internal/dictionary/loader.go\<close>) and the program that writes a report
  (\<open>cmd/spellcheck/main.go\<close>, \<open>internal/report\<close>).

  The tables of Unicode are an argument, but for the spaces.  A trie that is nil is \<open>None\<close>.
\<close>

section \<open>Unicode\<close>

record unicode =
  uni_ToLower :: "rune \<Rightarrow> rune"
  uni_IsLetter :: "rune \<Rightarrow> bool"
  uni_IsDigit :: "rune \<Rightarrow> bool"
  uni_IsMark :: "rune \<Rightarrow> bool"

definition rune_IsSpace :: "rune \<Rightarrow> bool" where
  "rune_IsSpace r \<longleftrightarrow> (9 \<le> r \<and> r \<le> 13) \<or> (0x2000 \<le> r \<and> r \<le> 0x200a)
     \<or> r \<in> {0x20, 0x85, 0xA0, 0x1680, 0x2028, 0x2029, 0x202f, 0x205f, 0x3000}"

definition runes_TrimSpace :: "runes \<Rightarrow> runes" where
  "runes_TrimSpace s = rev (dropWhile rune_IsSpace (rev (dropWhile rune_IsSpace s)))"

definition runes_ToLower :: "unicode \<Rightarrow> runes \<Rightarrow> runes" where
  "runes_ToLower u s = map (uni_ToLower u) s"

definition normalizeWord :: "unicode \<Rightarrow> runes \<Rightarrow> runes" where
  "normalizeWord u word = runes_ToLower u (runes_TrimSpace word)"

section \<open>Ranking\<close>

record rank_entry =
  rk_Word :: runes
  rk_Distance :: int
  rk_Frequency :: int

datatype bst = BstNil | BstNode bst rank_entry bst

definition ranked_less :: "rank_entry \<Rightarrow> rank_entry \<Rightarrow> bool" where
  "ranked_less first second \<longleftrightarrow>
     (if rk_Distance first \<noteq> rk_Distance second then rk_Distance first < rk_Distance second
      else if rk_Frequency first \<noteq> rk_Frequency second then rk_Frequency second < rk_Frequency first
      else rk_Word first < rk_Word second)"

fun insertNode :: "bst \<Rightarrow> rank_entry \<Rightarrow> bst" where
  "insertNode BstNil s = BstNode BstNil s BstNil"
| "insertNode (BstNode l x r) s =
     (if ranked_less s x then BstNode (insertNode l s) x r else BstNode l x (insertNode r s))"

fun bst_inOrder :: "bst \<Rightarrow> rank_entry list \<Rightarrow> int \<Rightarrow> rank_entry list" where
  "bst_inOrder BstNil results limit = results"
| "bst_inOrder (BstNode l x r) results limit =
     (if limit \<le> int (length results) then results
      else (let results = bst_inOrder l results limit
            in if limit \<le> int (length results) then results
               else bst_inOrder r (results @ [x]) limit))"

definition bst_Sorted :: "bst \<Rightarrow> int \<Rightarrow> rank_entry list" where
  "bst_Sorted tree limit = (if limit \<le> 0 \<or> tree = BstNil then [] else bst_inOrder tree [] limit)"

section \<open>Checks\<close>

text \<open>The words so far and the current word.\<close>

definition tok_flush :: "unicode \<Rightarrow> runes list \<times> runes \<Rightarrow> runes list \<times> runes" where
  "tok_flush u = (\<lambda>(ws, current). if current = [] then (ws, current) else (ws @ [runes_ToLower u current], []))"

definition word_rune :: "unicode \<Rightarrow> rune \<Rightarrow> bool" where
  "word_rune u r \<longleftrightarrow> uni_IsLetter u r \<or> uni_IsDigit u r \<or> uni_IsMark u r"

definition tok_step :: "unicode \<Rightarrow> rune \<Rightarrow> runes list \<times> runes \<Rightarrow> runes list \<times> runes" where
  "tok_step u r = (\<lambda>(ws, current). if word_rune u r then (ws, current @ [r]) else tok_flush u (ws, current))"

definition sp_Tokenize :: "unicode \<Rightarrow> runes \<Rightarrow> runes list" where
  "sp_Tokenize u s =
     (if runes_TrimSpace s = [] then [] else fst (tok_flush u (fold (tok_step u) s ([], []))))"

definition misspelled_step :: "tr_node \<Rightarrow> runes \<Rightarrow> runes set \<times> runes list \<Rightarrow> runes set \<times> runes list" where
  "misspelled_step t token = (\<lambda>(seen, misspelled).
     if token = [] then (seen, misspelled)
     else if token \<in> seen then (seen, misspelled)
     else (insert token seen, if \<not> tr_Search t token then misspelled @ [token] else misspelled))"

definition MisspelledWords :: "unicode \<Rightarrow> runes \<Rightarrow> tr_node option \<Rightarrow> runes list" where
  "MisspelledWords u s dictTrie =
     (case dictTrie of None \<Rightarrow> [] | Some t \<Rightarrow> snd (fold (misspelled_step t) (sp_Tokenize u s) ({}, [])))"

definition sp_AutoComplete :: "unicode \<Rightarrow> (runes \<Rightarrow> runes) \<Rightarrow> runes \<Rightarrow> tr_node option \<Rightarrow> int \<Rightarrow> suggestion list" where
  "sp_AutoComplete u ord pre dictTrie limit =
     (case dictTrie of None \<Rightarrow> [] | Some t \<Rightarrow> tr_AutoComplete ord t (runes_ToLower u (runes_TrimSpace pre)) limit)"

definition suggest_step :: "unicode \<Rightarrow> tr_node \<Rightarrow> runes \<Rightarrow> runes \<Rightarrow> runes set \<times> bst \<Rightarrow> runes set \<times> bst" where
  "suggest_step u t normalized dictWord = (\<lambda>(seen, rankTree).
     let candidate = runes_ToLower u (runes_TrimSpace dictWord)
     in if candidate = [] then (seen, rankTree)
        else if candidate \<in> seen then (seen, rankTree)
        else (let seen = insert candidate seen; d = Levenshtein normalized candidate
              in if 2 < d then (seen, rankTree)
                 else (seen, insertNode rankTree \<lparr>rk_Word = candidate, rk_Distance = d, rk_Frequency = tr_Frequency t candidate\<rparr>)))"

definition DidYouMean :: "unicode \<Rightarrow> runes \<Rightarrow> runes list \<Rightarrow> tr_node option \<Rightarrow> int \<Rightarrow> rank_entry list" where
  "DidYouMean u word dictWords dictTrie limit =
     (case dictTrie of
        None \<Rightarrow> []
      | Some t \<Rightarrow>
          if limit \<le> 0 then []
          else (let normalized = runes_ToLower u (runes_TrimSpace word)
                in if normalized = [] then []
                   else bst_Sorted (snd (fold (suggest_step u t normalized) dictWords ({}, BstNil))) limit))"

section \<open>Dictionary\<close>

datatype spell_error = NilTrie | OpenFailed | ScanFailed | ReadFailed

text \<open>A file that cannot be opened, or the lines that the scanner delivers and whether it fails after them.\<close>

datatype dict_file = NoFile | DictFile "runes list" bool

text \<open>One line: the trie, the words and their number.\<close>

definition load_step :: "unicode \<Rightarrow> runes \<Rightarrow> tr_node \<times> runes list \<times> int \<Rightarrow> tr_node \<times> runes list \<times> int" where
  "load_step u line = (\<lambda>(t, ws, inserted).
     let word = normalizeWord u line
     in if word = [] then (t, ws, inserted)
        else if hd word = 35 then (t, ws, inserted)
        else (tr_Insert t word 1, ws @ [word], inserted + 1))"

definition LoadWordsAndTrie :: "unicode \<Rightarrow> dict_file \<Rightarrow> tr_node option \<Rightarrow> (runes list \<times> int \<times> spell_error option) \<times> tr_node option" where
  "LoadWordsAndTrie u path dictTrie =
     (case dictTrie of
        None \<Rightarrow> (([], 0, Some NilTrie), None)
      | Some t \<Rightarrow>
          (case path of
             NoFile \<Rightarrow> (([], 0, Some OpenFailed), Some t)
           | DictFile lines failed \<Rightarrow>
               (let (t', ws, inserted) = fold (load_step u) lines (t, [], 0)
                in ((ws, inserted, if failed then Some ScanFailed else None), Some t'))))"

definition insert_line :: "unicode \<Rightarrow> runes \<Rightarrow> tr_node \<times> int \<Rightarrow> tr_node \<times> int" where
  "insert_line u line = (\<lambda>(t, inserted).
     let word = normalizeWord u line
     in if word = [] then (t, inserted)
        else if hd word = 35 then (t, inserted)
        else (tr_Insert t word 1, inserted + 1))"

definition LoadFromFile :: "unicode \<Rightarrow> dict_file \<Rightarrow> tr_node option \<Rightarrow> (int \<times> spell_error option) \<times> tr_node option" where
  "LoadFromFile u path dictTrie =
     (case dictTrie of
        None \<Rightarrow> ((0, Some NilTrie), None)
      | Some t \<Rightarrow>
          (case path of
             NoFile \<Rightarrow> ((0, Some OpenFailed), Some t)
           | DictFile lines failed \<Rightarrow>
               (let (t', inserted) = fold (insert_line u) lines (t, 0)
                in ((inserted, if failed then Some ScanFailed else None), Some t'))))"

section \<open>Report\<close>

record correction =
  co_Word :: runes
  co_Suggestions :: "rank_entry list"

record spell_report =
  sr_TotalWords :: int
  sr_MisspelledWords :: "runes list"
  sr_Corrections :: "correction list"

record json_report =
  jr_TotalWords :: int
  jr_Misspelled :: int
  jr_Corrections :: "correction list"

definition report_payload :: "spell_report \<Rightarrow> json_report" where
  "report_payload report =
     \<lparr>jr_TotalWords = sr_TotalWords report, jr_Misspelled = int (length (sr_MisspelledWords report)),
      jr_Corrections = sr_Corrections report\<rparr>"

text \<open>The run of the program up to the report that it writes; \<open>None\<close> is an input that cannot be read.\<close>

definition spell_run :: "unicode \<Rightarrow> dict_file \<Rightarrow> runes option \<Rightarrow> int \<Rightarrow> spell_error + spell_report" where
  "spell_run u dict input limit =
     (let limit = (if limit \<le> 0 then 5 else limit);
          ((dictWords, _, err), dictTrie) = LoadWordsAndTrie u dict (Some NewTrie)
      in case err of
           Some e \<Rightarrow> Inl e
         | None \<Rightarrow>
             (case input of
                None \<Rightarrow> Inl ReadFailed
              | Some inputText \<Rightarrow>
                  (let tokens = sp_Tokenize u inputText;
                       misspelled = MisspelledWords u inputText dictTrie;
                       corrections = map (\<lambda>word. \<lparr>co_Word = word, co_Suggestions = DidYouMean u word dictWords dictTrie limit\<rparr>) misspelled
                   in Inr \<lparr>sr_TotalWords = int (length tokens), sr_MisspelledWords = misspelled, sr_Corrections = corrections\<rparr>)))"

end
