(* ===== verification/Spell_Props.thy ===== *)
theory Spell_Props
  imports Spell_Check
begin

text \<open>
  The spell checker: the ranking tree sorts, the checks find exactly the words that the dictionary
  lacks, and the suggestions are the best words within two edits.
\<close>

section \<open>The interface of a dictionary\<close>

text \<open>What the checks rely on: a store of words with the sums of their frequencies.\<close>

locale dictionary =
  fixes valid :: "'d \<Rightarrow> bool"
    and contents :: "'d \<Rightarrow> runes \<rightharpoonup> int"
    and enter :: "'d \<Rightarrow> runes \<Rightarrow> int \<Rightarrow> 'd"
    and has_word :: "'d \<Rightarrow> runes \<Rightarrow> bool"
    and freq :: "'d \<Rightarrow> runes \<Rightarrow> int"
  assumes enter_valid: "valid d \<Longrightarrow> valid (enter d w f)"
    and enter_contents: "valid d \<Longrightarrow> w \<noteq> [] \<Longrightarrow> contents (enter d w f) = (contents d)(w := bump (contents d w) f)"
    and search_contents: "valid d \<Longrightarrow> has_word d w \<longleftrightarrow> contents d w \<noteq> None"
    and freq_contents: "valid d \<Longrightarrow> freq d w = (case contents d w of None \<Rightarrow> 0 | Some f \<Rightarrow> f)"
begin

abbreviation enter_all :: "runes list \<Rightarrow> 'd \<Rightarrow> 'd" where
  "enter_all ws d \<equiv> fold (\<lambda>w d. enter d w 1) ws d"

lemma enter_all_valid: "valid d \<Longrightarrow> valid (enter_all ws d)"
  by (induction ws arbitrary: d) (auto intro: enter_valid)

lemma enter_all_contents:
  "valid d \<Longrightarrow> [] \<notin> set ws \<Longrightarrow> contents d = (\<lambda>w. if w \<in> set vs then Some (wrap64 (int (count_list vs w))) else None) \<Longrightarrow>
     contents (enter_all ws d) = (\<lambda>w. if w \<in> set (vs @ ws) then Some (wrap64 (int (count_list (vs @ ws) w))) else None)"
proof (induction ws arbitrary: d vs)
  case (Cons v ws)
  have b: "bump (if v \<in> set vs then Some (wrap64 (int (count_list vs v))) else None) 1 = Some (wrap64 (int (count_list vs v) + 1))"
    by (auto simp: bump_def count_list_0_iff wrap64_def algebra_simps mod_simps)
  have "contents (enter d v 1) = (\<lambda>w. if w \<in> set (vs @ [v]) then Some (wrap64 (int (count_list (vs @ [v]) w))) else None)"
    using enter_contents [OF Cons.prems(1), of v 1] Cons.prems(2) unfolding Cons.prems(3) b by (auto simp: fun_eq_iff)
  note IH = Cons.IH [OF enter_valid [OF Cons.prems(1)] _ this]
  have "(vs @ [v]) @ ws = vs @ v # ws" by simp
  with IH Cons.prems(2) show ?case by (simp only: fold_Cons o_apply list.set insert_iff de_Morgan_disj simp_thms)
qed (simp cong: if_cong)

text \<open>Searching after loading finds exactly the words loaded.\<close>

lemma loaded:
  assumes "valid d" "contents d = Map.empty" "[] \<notin> set ws"
  shows "has_word (enter_all ws d) w \<longleftrightarrow> w \<in> set ws" "freq (enter_all ws d) w = wrap64 (int (count_list ws w))"
proof -
  have "contents (enter_all ws d) = (\<lambda>w. if w \<in> set ws then Some (wrap64 (int (count_list ws w))) else None)"
    using enter_all_contents [of d ws "[]"] assms by (simp add: fun_eq_iff)
  then show "has_word (enter_all ws d) w \<longleftrightarrow> w \<in> set ws" "freq (enter_all ws d) w = wrap64 (int (count_list ws w))"
    using search_contents [OF enter_all_valid [OF assms(1)]] freq_contents [OF enter_all_valid [OF assms(1)]]
    by (auto simp: count_list_0_iff wrap64_def)
qed

end

interpretation trie: dictionary trie_ok words tr_Insert tr_Search tr_Frequency
  by unfold_locales (auto simp: tr_Insert_ok tr_Insert_words tr_Search_words tr_Frequency_words)

section \<open>Ranking\<close>

lemma transp_ranked_less: "transp ranked_less"
  by (rule transpI) (auto simp: ranked_less_def split: if_splits)

lemma ranked_less_total: "rk_Word a \<noteq> rk_Word b \<Longrightarrow> ranked_less a b \<or> ranked_less b a"
  by (auto simp: ranked_less_def)

fun bst_list :: "bst \<Rightarrow> rank_entry list" where
  "bst_list BstNil = []"
| "bst_list (BstNode l x r) = bst_list l @ x # bst_list r"

lemma insert_before_left: "lt s x \<Longrightarrow> insert_before lt s (xs @ x # ys) = insert_before lt s xs @ x # ys"
  by (induction xs) (auto simp: insert_before_def)

lemma insert_before_right: "\<forall>y\<in>set xs. \<not> lt s y \<Longrightarrow> insert_before lt s (xs @ ys) = xs @ insert_before lt s ys"
  by (induction xs) (auto simp: insert_before_def)

lemma bst_list_insertNode: "sorted_wrt ranked_less (bst_list t) \<Longrightarrow> bst_list (insertNode t s) = insert_before ranked_less s (bst_list t)"
proof (induction t s rule: insertNode.induct)
  case (1 s)
  then show ?case by (simp add: insert_before_def)
next
  case (2 l x r s)
  then have sorted: "sorted_wrt ranked_less (bst_list l)" "sorted_wrt ranked_less (bst_list r)" "\<forall>y\<in>set (bst_list l). ranked_less y x"
    by (auto simp: sorted_wrt_append)
  show ?case
  proof (cases "ranked_less s x")
    case True
    then show ?thesis using 2(1) sorted(1) insert_before_left [of ranked_less s x] by simp
  next
    case False
    then have "\<forall>y\<in>set (bst_list l @ [x]). \<not> ranked_less s y" using sorted(3) transp_ranked_less by (auto elim: transpE)
    from insert_before_right [where lt = ranked_less and s = s and ys = "bst_list r", OF this] show ?thesis using 2(2) False sorted(2) by simp
  qed
qed

lemma bst_inOrder_take:
  "bst_inOrder t results limit = (if limit \<le> int (length results) then results else take (nat limit) (results @ bst_list t))"
proof (induction t arbitrary: results)
  case (BstNode l x r)
  then show ?case by (auto simp: Let_def take_Cons' not_le)
qed simp

lemma bst_Sorted_take: "bst_Sorted t limit = take (nat limit) (bst_list t)"
  by (auto simp: bst_Sorted_def bst_inOrder_take)


section \<open>Words of a text\<close>

text \<open>The maximal runs of elements with a property.\<close>

function word_runs :: "('a \<Rightarrow> bool) \<Rightarrow> 'a list \<Rightarrow> 'a list list" where
  "word_runs P xs =
     (case dropWhile (\<lambda>x. \<not> P x) xs of
        [] \<Rightarrow> []
      | y # ys \<Rightarrow> (y # takeWhile P ys) # word_runs P (dropWhile P ys))"
  by pat_completeness auto
termination
proof (relation "measure (\<lambda>(_, xs). length xs)")
  fix P :: "'a \<Rightarrow> bool" and xs :: "'a list" and y ys
  assume "dropWhile (\<lambda>x. \<not> P x) xs = y # ys"
  then have "length (y # ys) \<le> length xs" by (metis length_dropWhile_le)
  then have "length (dropWhile P ys) < length xs" using length_dropWhile_le [of P ys] by simp
  then show "((P, dropWhile P ys), P, xs) \<in> measure (\<lambda>(_, xs). length xs)" by simp
qed simp

declare word_runs.simps [simp del]

lemma word_runs_Nil [simp]: "word_runs P [] = []" by (simp add: word_runs.simps)

lemma word_runs_skip [simp]: "\<not> P x \<Longrightarrow> word_runs P (x # xs) = word_runs P xs"
  by (subst (1 2) word_runs.simps) simp

lemma word_runs_word: "P x \<Longrightarrow> word_runs P (x # xs) = (x # takeWhile P xs) # word_runs P (dropWhile P xs)"
  by (subst word_runs.simps) simp

lemma word_runs_none: "\<forall>x\<in>set xs. \<not> P x \<Longrightarrow> word_runs P xs = []"
  by (induction xs) auto

lemma tok_fold:
  "fst (tok_flush u (fold (tok_step u) s (ws, cur))) =
     ws @ map (runes_ToLower u)
       (if cur = [] then word_runs (word_rune u) s
        else (cur @ takeWhile (word_rune u) s) # word_runs (word_rune u) (dropWhile (word_rune u) s))"
proof (induction s arbitrary: ws cur)
  case Nil
  then show ?case by (simp add: tok_flush_def)
next
  case (Cons r s)
  show ?case
  proof (cases "word_rune u r")
    case True
    have "tok_step u r (ws, cur) = (ws, cur @ [r])" using True by (simp add: tok_step_def)
    with Cons.IH [of ws "cur @ [r]"] True show ?thesis by (auto simp: word_runs_word)
  next
    case False
    have "tok_step u r (ws, cur) = (if cur = [] then ws else ws @ [runes_ToLower u cur], [])"
      using False by (simp add: tok_step_def tok_flush_def)
    with Cons.IH [of "if cur = [] then ws else ws @ [runes_ToLower u cur]" "[]"] False show ?thesis by simp
  qed
qed

text \<open>What the checks assume of the tables of Unicode: a space is no part of a word.\<close>

definition unicode_ok :: "unicode \<Rightarrow> bool" where
  "unicode_ok u \<longleftrightarrow> (\<forall>r. \<not> (rune_IsSpace r \<and> word_rune u r))"

lemma dropWhile_all: "dropWhile P xs = [] \<longleftrightarrow> (\<forall>x\<in>set xs. P x)"
  by (induction xs) auto

lemma blank_runes: "runes_TrimSpace s = [] \<longleftrightarrow> (\<forall>x\<in>set s. rune_IsSpace x)"
proof -
  have "runes_TrimSpace s = [] \<longleftrightarrow> (\<forall>x\<in>set (dropWhile rune_IsSpace s). rune_IsSpace x)"
    by (simp add: runes_TrimSpace_def dropWhile_all)
  moreover have "(\<forall>x\<in>set (dropWhile rune_IsSpace s). rune_IsSpace x) \<longleftrightarrow> (\<forall>x\<in>set s. rune_IsSpace x)"
    by (induction s) auto
  ultimately show ?thesis by simp
qed

lemma sp_Tokenize_runs: "unicode_ok u \<Longrightarrow> sp_Tokenize u s = map (runes_ToLower u) (word_runs (word_rune u) s)"
proof (cases "runes_TrimSpace s = []")
  case True
  assume "unicode_ok u"
  then have "word_runs (word_rune u) s = []" using True by (intro word_runs_none) (auto simp: unicode_ok_def blank_runes)
  then show ?thesis using True by (simp add: sp_Tokenize_def)
next
  case False
  then show ?thesis using tok_fold [of u s "[]" "[]"] by (simp add: sp_Tokenize_def)
qed

lemma word_runs_nonempty: "w \<in> set (word_runs P xs) \<Longrightarrow> w \<noteq> []"
proof (induction P xs rule: word_runs.induct)
  case (1 P xs)
  show ?case
  proof (cases "dropWhile (\<lambda>x. \<not> P x) xs")
    case Nil
    then have "word_runs P xs = []" by (intro word_runs_none) (simp add: dropWhile_all)
    then show ?thesis using 1(2) by simp
  next
    case (Cons y ys)
    then have "word_runs P xs = (y # takeWhile P ys) # word_runs P (dropWhile P ys)" by (subst word_runs.simps) simp
    then show ?thesis using 1(1) [OF Cons] 1(2) by auto
  qed
qed

text \<open>The elements at their first occurrences.\<close>

definition firsts :: "'a list \<Rightarrow> 'a list" where
  "firsts xs = rev (remdups (rev xs))"

lemma firsts_snoc: "firsts (xs @ [x]) = (if x \<in> set xs then firsts xs else firsts xs @ [x])"
  by (simp add: firsts_def)

lemma misspelled_fold:
  "[] \<notin> set toks \<Longrightarrow> fold (misspelled_step t) toks ({}, []) = (set toks, filter (\<lambda>w. \<not> tr_Search t w) (firsts toks))"
proof (induction toks rule: rev_induct)
  case Nil
  then show ?case by (simp add: firsts_def)
next
  case (snoc x toks)
  then show ?case by (auto simp: misspelled_step_def firsts_snoc)
qed

lemma MisspelledWords_runs:
  assumes "unicode_ok u"
  shows "MisspelledWords u s (Some t) = filter (\<lambda>w. \<not> tr_Search t w) (firsts (sp_Tokenize u s))"
proof -
  have "[] \<notin> set (sp_Tokenize u s)"
    unfolding sp_Tokenize_runs [OF assms] using word_runs_nonempty by (auto simp: runes_ToLower_def)
  then show ?thesis by (simp add: MisspelledWords_def misspelled_fold)
qed


section \<open>Suggestions\<close>

text \<open>The candidates within two edits of a word.\<close>

definition near_words :: "tr_node \<Rightarrow> runes \<Rightarrow> runes set \<Rightarrow> rank_entry set" where
  "near_words t word cs =
     {\<lparr>rk_Word = c, rk_Distance = Levenshtein word c, rk_Frequency = tr_Frequency t c\<rparr> | c. c \<in> cs \<and> c \<noteq> [] \<and> Levenshtein word c \<le> 2}"

lemma suggest_fold:
  "fold (suggest_step u t n) ws ({}, BstNil) = (seen, tree) \<Longrightarrow>
     seen = {c \<in> normalizeWord u ` set ws. c \<noteq> []} \<and> sorted_wrt ranked_less (bst_list tree) \<and>
     set (bst_list tree) = near_words t n (normalizeWord u ` set ws)"
proof (induction ws arbitrary: seen tree rule: rev_induct)
  case Nil
  then show ?case by (auto simp: near_words_def)
next
  case (snoc w ws)
  obtain se tr where st: "fold (suggest_step u t n) ws ({}, BstNil) = (se, tr)" by (cases "fold (suggest_step u t n) ws ({}, BstNil)")
  note IH = snoc.IH [OF st]
  let ?c = "normalizeWord u w"
  let ?s = "\<lparr>rk_Word = ?c, rk_Distance = Levenshtein n ?c, rk_Frequency = tr_Frequency t ?c\<rparr>"
  have step: "(seen, tree) = (if ?c = [] \<or> ?c \<in> se then (se, tr) else (insert ?c se, if 2 < Levenshtein n ?c then tr else insertNode tr ?s))"
  proof -
    have "suggest_step u t n w (se, tr) = (seen, tree)" using snoc.prems st by simp
    then show ?thesis unfolding suggest_step_def normalizeWord_def by (simp add: Let_def split: if_splits)
  qed
  show ?case
  proof (cases "?c = [] \<or> ?c \<in> se")
    case True
    then show ?thesis using step IH by (auto simp: near_words_def)
  next
    case False
    have new: "ranked_less ?s y \<or> ranked_less y ?s" if "y \<in> set (bst_list tr)" for y
    proof (rule ranked_less_total)
      have "rk_Word y \<in> se" using that IH by (auto simp: near_words_def)
      then show "rk_Word ?s \<noteq> rk_Word y" using False by auto
    qed
    have ins: "bst_list (insertNode tr ?s) = insert_before ranked_less ?s (bst_list tr)"
      by (rule bst_list_insertNode) (use IH in blast)
    have "sorted_wrt ranked_less (insert_before ranked_less ?s (bst_list tr))"
      using IH new by (intro sorted_insert_before transp_ranked_less) auto
    then have "sorted_wrt ranked_less (bst_list tree)" using step False ins IH by auto
    moreover have "set (bst_list tree) = near_words t n (normalizeWord u ` set (ws @ [w]))"
    proof -
      have "set (bst_list tree) = (if 2 < Levenshtein n ?c then set (bst_list tr) else insert ?s (set (bst_list tr)))"
        using step False ins by auto
      moreover have "near_words t n (insert ?c C) = (if 2 < Levenshtein n ?c then near_words t n C else insert ?s (near_words t n C))" for C
        using False by (auto simp: near_words_def)
      ultimately show ?thesis using IH by simp
    qed
    ultimately show ?thesis using step False IH by auto
  qed
qed

section \<open>Loading\<close>

text \<open>The words of a dictionary: its lines, normalized, without blank lines and comments.\<close>

definition dict_words :: "unicode \<Rightarrow> runes list \<Rightarrow> runes list" where
  "dict_words u lines = filter (\<lambda>w. w \<noteq> [] \<and> hd w \<noteq> 35) (map (normalizeWord u) lines)"

lemma load_fold:
  "fold (load_step u) lines (t, ws, k) = (trie.enter_all (dict_words u lines) t, ws @ dict_words u lines, k + int (length (dict_words u lines)))"
  by (induction lines arbitrary: t ws k) (auto simp: load_step_def dict_words_def Let_def)

lemma insert_fold:
  "fold (insert_line u) lines (t, k) = (trie.enter_all (dict_words u lines) t, k + int (length (dict_words u lines)))"
  by (induction lines arbitrary: t k) (auto simp: insert_line_def dict_words_def Let_def)

lemma loaded_words:
  "tr_Search (trie.enter_all (dict_words u lines) NewTrie) w \<longleftrightarrow> w \<in> set (dict_words u lines)"
  "tr_Frequency (trie.enter_all (dict_words u lines) NewTrie) w = wrap64 (int (count_list (dict_words u lines) w))"
  by (rule trie.loaded [OF NewTrie_ok words_NewTrie]; simp add: dict_words_def)+

section \<open>Properties\<close>

text \<open>
  C19. \<open>DidYouMean\<close> returns the first entries of the sorted list of the normalized dictionary words
  that are at most two edits away: the closest first, then the more frequent, then in the order of
  the words, each word once.
\<close>

theorem did_you_mean_correct:
  assumes "normalizeWord u word \<noteq> []"
  shows "\<exists>xs. sorted_wrt ranked_less xs \<and> set xs = near_words t (normalizeWord u word) (normalizeWord u ` set dictWords) \<and>
    DidYouMean u word dictWords (Some t) limit = take (nat limit) xs"
proof -
  obtain seen tree where f: "fold (suggest_step u t (normalizeWord u word)) dictWords ({}, BstNil) = (seen, tree)"
    by (cases "fold (suggest_step u t (normalizeWord u word)) dictWords ({}, BstNil)")
  from suggest_fold [OF this] have "sorted_wrt ranked_less (bst_list tree)"
    "set (bst_list tree) = near_words t (normalizeWord u word) (normalizeWord u ` set dictWords)" by blast+
  moreover have "DidYouMean u word dictWords (Some t) limit = take (nat limit) (bst_list tree)"
    using assms f by (auto simp: DidYouMean_def normalizeWord_def bst_Sorted_take Let_def)
  ultimately show ?thesis by blast
qed

text \<open>The letters a to z, for the examples.\<close>

definition ascii_unicode :: unicode where
  "ascii_unicode = \<lparr>uni_ToLower = (\<lambda>r. if 65 \<le> r \<and> r \<le> 90 then r + 32 else r),
     uni_IsLetter = (\<lambda>r. (65 \<le> r \<and> r \<le> 90) \<or> (97 \<le> r \<and> r \<le> 122)), uni_IsDigit = (\<lambda>r. 48 \<le> r \<and> r \<le> 57), uni_IsMark = (\<lambda>r. False)\<rparr>"

lemma ascii_unicode_ok: "unicode_ok ascii_unicode"
  by (auto simp: unicode_ok_def word_rune_def ascii_unicode_def rune_IsSpace_def)

theorem did_you_mean_correct_witness:
  "\<exists>xs. sorted_wrt ranked_less xs \<and> set xs = near_words NewTrie [97] {[97], [98]} \<and>
    DidYouMean ascii_unicode [32, 65] [[97], [66]] (Some NewTrie) 1 = take 1 xs"
proof -
  have n: "normalizeWord ascii_unicode [32, 65] = [97]" "normalizeWord ascii_unicode ` set [[97], [66]] = {[97], [98]}"
    by (simp_all add: normalizeWord_def runes_TrimSpace_def runes_ToLower_def rune_IsSpace_def ascii_unicode_def)
  have "normalizeWord ascii_unicode [32, 65] \<noteq> []" by (simp add: n)
  from did_you_mean_correct [OF this, of NewTrie "[[97], [66]]" 1] show ?thesis unfolding n by simp
qed

text \<open>
  C20. A run of the program reports the number of words of the text and, once each in the order of
  their first occurrences, exactly the words that are no word of the dictionary, with their
  suggestions.  The frequency of a suggestion is the number of lines with the word.
\<close>

theorem spell_run_correct:
  assumes "unicode_ok u" "dictWords = dict_words u lines" "ws = map (runes_ToLower u) (word_runs (word_rune u) s)"
  shows "\<exists>t. (\<forall>w. tr_Frequency t w = wrap64 (int (count_list dictWords w))) \<and>
    spell_run u (DictFile lines False) (Some s) limit = Inr
       \<lparr>sr_TotalWords = int (length ws), sr_MisspelledWords = filter (\<lambda>w. w \<notin> set dictWords) (firsts ws),
        sr_Corrections = map (\<lambda>w. \<lparr>co_Word = w, co_Suggestions = DidYouMean u w dictWords (Some t) (if limit \<le> 0 then 5 else limit)\<rparr>)
          (filter (\<lambda>w. w \<notin> set dictWords) (firsts ws))\<rparr>"
proof (intro exI conjI allI)
  let ?t = "trie.enter_all (dict_words u lines) NewTrie"
  show "tr_Frequency ?t w = wrap64 (int (count_list dictWords w))" for w
    unfolding assms(2) by (rule loaded_words(2))
  have mis: "MisspelledWords u s (Some ?t) = filter (\<lambda>w. w \<notin> set dictWords) (firsts ws)"
    unfolding MisspelledWords_runs [OF assms(1)] loaded_words(1) sp_Tokenize_runs [OF assms(1)] assms(2,3) ..
  have load: "LoadWordsAndTrie u (DictFile lines False) (Some NewTrie) = ((dictWords, int (length dictWords), None), Some ?t)"
    by (simp add: LoadWordsAndTrie_def load_fold assms(2))
  show "spell_run u (DictFile lines False) (Some s) limit = Inr
       \<lparr>sr_TotalWords = int (length ws), sr_MisspelledWords = filter (\<lambda>w. w \<notin> set dictWords) (firsts ws),
        sr_Corrections = map (\<lambda>w. \<lparr>co_Word = w, co_Suggestions = DidYouMean u w dictWords (Some ?t) (if limit \<le> 0 then 5 else limit)\<rparr>)
          (filter (\<lambda>w. w \<notin> set dictWords) (firsts ws))\<rparr>"
    unfolding spell_run_def load by (simp add: mis sp_Tokenize_runs [OF assms(1)] assms(3) Let_def)
qed


theorem spell_run_correct_witness:
  "\<exists>t. (\<forall>w. tr_Frequency t w = wrap64 (int (count_list [[97, 98]] w))) \<and>
    spell_run ascii_unicode (DictFile [[65, 98, 32], [35, 97]] False) (Some [97, 98, 46, 65, 67]) 3 = Inr
       \<lparr>sr_TotalWords = 2, sr_MisspelledWords = [[97, 99]],
        sr_Corrections = [\<lparr>co_Word = [97, 99], co_Suggestions = DidYouMean ascii_unicode [97, 99] [[97, 98]] (Some t) 3\<rparr>]\<rparr>"
proof -
  have d: "[[97, 98]] = dict_words ascii_unicode [[65, 98, 32], [35, 97]]"
    by (simp add: dict_words_def normalizeWord_def runes_TrimSpace_def runes_ToLower_def rune_IsSpace_def ascii_unicode_def)
  have w: "[[97, 98], [97, 99]] = map (runes_ToLower ascii_unicode) (word_runs (word_rune ascii_unicode) [97, 98, 46, 65, 67])"
    by (simp add: word_runs.simps word_rune_def runes_ToLower_def ascii_unicode_def)
  from spell_run_correct [OF ascii_unicode_ok d w, of 3] show ?thesis by (simp add: firsts_def)
qed

text \<open>
  C21. The words that completion offers are the first entries of the sorted list of all words of the
  trie that begin with the prefix, the more frequent first, whatever order the iterations over the
  children take.
\<close>

theorem autocomplete_correct:
  assumes "fold trie_exec ops (NewTrie, []) = (t, outs)" "fold map_exec ops (Map.empty, []) = (m, outs')"
    "visits ord t []" "p \<noteq> []"
  shows "\<exists>xs. sorted_wrt betterSuggestion xs \<and> set xs = {\<lparr>sg_Word = p @ s, sg_Frequency = f\<rparr> | s f. m (p @ s) = Some f} \<and>
    tr_AutoComplete ord t p limit = take (nat limit) xs"
proof -
  have t: "trie_ok t" "m = words t" using trie_run_refines [OF NewTrie_ok assms(1)] assms(2) by (simp_all add: words_NewTrie)
  show ?thesis
  proof (cases "tr_walk t p")
    case None
    then have "\<And>s. m (p @ s) = None" using t by (simp add: words_append)
    then show ?thesis using None assms(4) by (intro exI [of _ "[]"]) (simp add: tr_AutoComplete_def findNode_def)
  next
    case (Some n)
    have v: "visits ord n p" using visits_walk [OF assms(3) Some] by simp
    obtain xs where xs: "sorted_wrt betterSuggestion xs" "set xs = set (collectWords ord n p [])"
      "\<And>k. collectTopWords ord n p [] (int k) = take k xs" using collectTopWords_sorted [OF v] by blast
    have "set xs = {\<lparr>sg_Word = p @ s, sg_Frequency = f\<rparr> | s f. m (p @ s) = Some f}"
      unfolding xs(2) set_collectWords [OF v] t(2) words_append Some by simp
    moreover have "tr_AutoComplete ord t p limit = take (nat limit) xs"
      using xs(3) [of "nat limit"] Some assms(4) by (auto simp: tr_AutoComplete_def findNode_def)
    ultimately show ?thesis using xs(1) by blast
  qed
qed

theorem autocomplete_correct_witness:
  "\<exists>xs. sorted_wrt betterSuggestion xs \<and> set xs = {\<lparr>sg_Word = [97] @ s, sg_Frequency = f\<rparr> | s f. [[97, 98] \<mapsto> 2] ([97] @ s) = Some f} \<and>
    tr_AutoComplete (\<lambda>p. if p = [] then [97] else if p = [97] then [98] else []) (fst (fold trie_exec [OpInsert [97, 98] 2] (NewTrie, []))) [97] 5 = take 5 xs"
proof -
  let ?o = "\<lambda>p :: runes. if p = [] then [97] else if p = [97] then [98 :: rune] else []"
  let ?n = "Node True 2 fmempty" let ?t = "Node False 0 (fmupd 97 (Node False 0 (fmupd 98 ?n fmempty)) fmempty)"
  have t: "fold trie_exec [OpInsert [97, 98] 2] (NewTrie, []) = (?t, [])"
    by (simp add: tr_Insert_def NewTrie_def wrap64_def)
  have m: "fold map_exec [OpInsert [97, 98] 2] (Map.empty, []) = ([[97, 98] \<mapsto> 2], [])"
    by (simp add: bump_def wrap64_def)
  have "visits ?o ?t []"
    unfolding visits_def
  proof (intro allI impI)
    fix s m assume "tr_walk ?t s = Some m"
    then consider "s = []" "m = ?t" | "s = [97]" "m = Node False 0 (fmupd 98 ?n fmempty)" | "s = [97, 98]" "m = ?n"
    proof (cases s rule: remdups_adj.cases)
      case (3 x y xs)
      then show ?thesis using \<open>tr_walk ?t s = Some m\<close> that(3) by (cases xs) (auto split: if_splits)
    qed (auto split: if_splits)
    then show "iterates (?o ([] @ s)) (fmlookup (Children m))" by cases (auto simp: iterates_def split: if_splits)
  qed
  from autocomplete_correct [OF t m this, of "[97]" 5] show ?thesis unfolding t by simp
qed

end
