(* ===== verification/Hash_Store.thy ===== *)
theory Hash_Store
  imports Go_Float "HOL-Library.Word" "HOL-Library.Finite_Map"
begin

text \<open>
  The stores of the DNS cache (\<open>05-day/dns-cache-resolver/internal/cache_store\<close>): a hash map with
  chains that doubles its buckets, and the wrapper of a built-in map; and the sharded map of
  \<open>08-day/project/hashmap.go\<close>, which uses the same hash.  The chains are lists: an entry is changed
  only through the bucket that holds it.
\<close>

unbundle bit_operations_syntax

section \<open>Hash\<close>

text \<open>FNV-1a on the bytes of the string; multiplication wraps around.\<close>

definition hash_byte :: "char \<Rightarrow> 64 word \<Rightarrow> 64 word" where
  "hash_byte c h = (h XOR of_char c) * 1099511628211"

definition hashString :: "string \<Rightarrow> 64 word" where
  "hashString s = fold hash_byte s 14695981039346656037"

section \<open>Hash map with chains\<close>

type_synonym 'v chain = "(string \<times> 'v) list"

record 'v custom_map =
  cm_buckets :: "'v chain list"
  cm_size :: int

definition NewCustomMapStore :: "'v custom_map" where
  "NewCustomMapStore = \<lparr>cm_buckets = replicate 8 [], cm_size = 0\<rparr>"

definition bucketIndex :: "'v custom_map \<Rightarrow> string \<Rightarrow> nat" where
  "bucketIndex s key = unat (hashString key) mod length (cm_buckets s)"

fun chain_get :: "string \<Rightarrow> 'v chain \<Rightarrow> 'v option" where
  "chain_get key [] = None"
| "chain_get key ((k, v) # rest) = (if k = key then Some v else chain_get key rest)"

definition cm_Get :: "'v custom_map \<Rightarrow> string \<Rightarrow> 'v option" where
  "cm_Get s key = chain_get key (cm_buckets s ! bucketIndex s key)"

text \<open>The chain with the entry of the key changed, if there is one.\<close>

fun chain_set :: "string \<Rightarrow> 'v \<Rightarrow> 'v chain \<Rightarrow> 'v chain option" where
  "chain_set key value [] = None"
| "chain_set key value ((k, v) # rest) =
     (if k = key then Some ((k, value) # rest) else map_option (\<lambda>c. (k, v) # c) (chain_set key value rest))"

fun chain_delete :: "string \<Rightarrow> 'v chain \<Rightarrow> 'v chain option" where
  "chain_delete key [] = None"
| "chain_delete key ((k, v) # rest) =
     (if k = key then Some rest else map_option (\<lambda>c. (k, v) # c) (chain_delete key rest))"

definition needs_resize :: "'v custom_map \<Rightarrow> bool" where
  "needs_resize s \<longleftrightarrow> Fin (3 / 4) < f64_of_int (cm_size s + 1) / f64_of_int (int (length (cm_buckets s)))"

text \<open>Sets every entry in a new table; \<open>set_entry\<close> is the call of \<open>Set\<close>.\<close>

definition cm_resize :: "('v custom_map \<Rightarrow> string \<Rightarrow> 'v \<Rightarrow> 'v custom_map option) \<Rightarrow> 'v custom_map \<Rightarrow> nat \<Rightarrow> 'v custom_map option" where
  "cm_resize set_entry s newBucketCount =
     fold (\<lambda>(k, v) acc. case acc of None \<Rightarrow> None | Some t \<Rightarrow> set_entry t k v)
       (concat (cm_buckets s)) (Some \<lparr>cm_buckets = replicate newBucketCount [], cm_size = 0\<rparr>)"

text \<open>The part of \<open>Set\<close> after the resizing.\<close>

definition cm_put :: "'v custom_map \<Rightarrow> string \<Rightarrow> 'v \<Rightarrow> 'v custom_map" where
  "cm_put s key value =
     (let idx = bucketIndex s key; ch = cm_buckets s ! idx
      in case chain_set key value ch of
           Some ch' \<Rightarrow> s\<lparr>cm_buckets := (cm_buckets s)[idx := ch']\<rparr>
         | None \<Rightarrow> s\<lparr>cm_buckets := (cm_buckets s)[idx := (key, value) # ch], cm_size := cm_size s + 1\<rparr>)"

text \<open>\<open>Set\<close> and \<open>resize\<close> call each other; the number bounds the depth, and \<open>None\<close> is a deeper recursion.\<close>

primrec cm_set_depth :: "nat \<Rightarrow> 'v custom_map \<Rightarrow> string \<Rightarrow> 'v \<Rightarrow> 'v custom_map option" where
  "cm_set_depth 0 = (\<lambda>s key value. None)"
| "cm_set_depth (Suc d) = (\<lambda>s key value.
     case (if needs_resize s then cm_resize (cm_set_depth d) s (length (cm_buckets s) * 2) else Some s) of
       None \<Rightarrow> None
     | Some s \<Rightarrow> Some (cm_put s key value))"

definition cm_Set :: "'v custom_map \<Rightarrow> string \<Rightarrow> 'v \<Rightarrow> 'v custom_map option" where
  "cm_Set = cm_set_depth 2"

definition cm_Delete :: "'v custom_map \<Rightarrow> string \<Rightarrow> bool \<times> 'v custom_map" where
  "cm_Delete s key =
     (let idx = bucketIndex s key
      in case chain_delete key (cm_buckets s ! idx) of
           None \<Rightarrow> (False, s)
         | Some ch \<Rightarrow> (True, s\<lparr>cm_buckets := (cm_buckets s)[idx := ch], cm_size := cm_size s - 1\<rparr>))"

definition cm_Len :: "'v custom_map \<Rightarrow> int" where
  "cm_Len s = cm_size s"

definition cm_Keys :: "'v custom_map \<Rightarrow> string list" where
  "cm_Keys s = concat (map (map fst) (cm_buckets s))"

section \<open>Built-in map\<close>

type_synonym 'v inbuilt_map = "(string, 'v) fmap"

definition mp_Get :: "'v inbuilt_map \<Rightarrow> string \<Rightarrow> 'v option" where
  "mp_Get m key = fmlookup m key"

definition mp_Set :: "'v inbuilt_map \<Rightarrow> string \<Rightarrow> 'v \<Rightarrow> 'v inbuilt_map" where
  "mp_Set m key val = fmupd key val m"

definition mp_Delete :: "'v inbuilt_map \<Rightarrow> string \<Rightarrow> bool \<times> 'v inbuilt_map" where
  "mp_Delete m key = (case fmlookup m key of None \<Rightarrow> (False, m) | Some v \<Rightarrow> (True, fmdrop key m))"

definition mp_Len :: "'v inbuilt_map \<Rightarrow> int" where
  "mp_Len m = int (fcard (fmdom m))"

section \<open>Sharded map\<close>

type_synonym 'v builtin_map = "(string, 'v) fmap"

definition bm_Set :: "'v builtin_map \<Rightarrow> string \<Rightarrow> 'v \<Rightarrow> 'v builtin_map" where
  "bm_Set m key value = fmupd key value m"

definition bm_Get :: "'v builtin_map \<Rightarrow> string \<Rightarrow> 'v option" where
  "bm_Get m key = fmlookup m key"

definition bm_Delete :: "'v builtin_map \<Rightarrow> string \<Rightarrow> 'v builtin_map" where
  "bm_Delete m key = fmdrop key m"

definition bm_Len :: "'v builtin_map \<Rightarrow> int" where
  "bm_Len m = int (fcard (fmdom m))"

type_synonym 'v sharded = "'v builtin_map list"

definition NewShardedBuiltinMap :: "int \<Rightarrow> 'v sharded" where
  "NewShardedBuiltinMap shardCount = (let shardCount = (if shardCount \<le> 0 then 1 else shardCount) in replicate (nat shardCount) fmempty)"

definition getShard :: "'v sharded \<Rightarrow> string \<Rightarrow> nat" where
  "getShard m key = unat (hashString key) mod length m"

definition sh_Set :: "'v sharded \<Rightarrow> string \<Rightarrow> 'v \<Rightarrow> 'v sharded" where
  "sh_Set m key value = m[getShard m key := bm_Set (m ! getShard m key) key value]"

definition sh_Get :: "'v sharded \<Rightarrow> string \<Rightarrow> 'v option" where
  "sh_Get m key = bm_Get (m ! getShard m key) key"

definition sh_Delete :: "'v sharded \<Rightarrow> string \<Rightarrow> 'v sharded" where
  "sh_Delete m key = m[getShard m key := bm_Delete (m ! getShard m key) key]"

definition sh_Len :: "'v sharded \<Rightarrow> int" where
  "sh_Len m = fold (\<lambda>shard total. total + bm_Len shard) m 0"

end
