(* ===== verification/Hash_Correct.thy ===== *)
theory Hash_Correct
  imports Hash_Store
begin

text \<open>
  The hash map with chains implements a map, its size is the number of its keys, and setting a key
  while resizing never resizes again.  So does the sharded map.
\<close>

section \<open>Chains\<close>

lemma chain_get_map_of [simp]: "chain_get key ch = map_of ch key"
  by (induction ch) auto

lemma chain_set_None: "chain_set key v ch = None \<longleftrightarrow> key \<notin> fst ` set ch"
  by (induction key v ch rule: chain_set.induct) auto

lemma chain_set_Some:
  "chain_set key v ch = Some ch' \<Longrightarrow> map fst ch' = map fst ch \<and> map_of ch' = (map_of ch)(key \<mapsto> v) \<and> key \<in> fst ` set ch"
  by (induction ch arbitrary: ch') (auto split: if_splits simp: fun_upd_twist)

lemma chain_delete_None: "chain_delete key ch = None \<longleftrightarrow> key \<notin> fst ` set ch"
  by (induction key ch rule: chain_delete.induct) auto

lemma chain_delete_Some:
  "chain_delete key ch = Some ch' \<Longrightarrow> distinct (map fst ch) \<Longrightarrow>
     distinct (map fst ch') \<and> map_of ch' = (map_of ch)(key := None) \<and> fst ` set ch' = fst ` set ch - {key} \<and>
     length ch = Suc (length ch')"
proof (induction ch arbitrary: ch')
  case (Cons p ch)
  obtain k v where p: "p = (k, v)" by (cases p)
  show ?case
  proof (cases "k = key")
    case True
    then have "ch' = ch" "map_of ch key = None" using Cons.prems p by (auto simp: map_of_eq_None_iff)
    then show ?thesis using True Cons.prems p by (auto simp: map_of_eq_None_iff)
  next
    case False
    then obtain c where "chain_delete key ch = Some c" "ch' = (k, v) # c" using Cons.prems(1) p by auto
    then show ?thesis using Cons.IH [of c] Cons.prems(2) p False by auto
  qed
qed simp

section \<open>The map of a hash map\<close>

definition cm_contents :: "'v custom_map \<Rightarrow> string \<rightharpoonup> 'v" where
  "cm_contents s key = map_of (cm_buckets s ! bucketIndex s key) key"

text \<open>Keys are in their buckets, once each, and the size is their number.\<close>

definition cm_ok :: "'v custom_map \<Rightarrow> bool" where
  "cm_ok s \<longleftrightarrow> 8 \<le> length (cm_buckets s) \<and> length (cm_buckets s) < 2 ^ 53 \<and>
     (\<forall>i < length (cm_buckets s). distinct (map fst (cm_buckets s ! i)) \<and> (\<forall>p\<in>set (cm_buckets s ! i). bucketIndex s (fst p) = i)) \<and>
     cm_size s = int (sum_list (map length (cm_buckets s)))"

lemma bucketIndex_less: "cm_ok s \<Longrightarrow> bucketIndex s key < length (cm_buckets s)"
  unfolding cm_ok_def bucketIndex_def by (intro mod_less_divisor) linarith

lemma bucketIndex_cong: "length (cm_buckets s) = length (cm_buckets t) \<Longrightarrow> bucketIndex s = bucketIndex t"
  by (simp add: bucketIndex_def fun_eq_iff)

lemma key_bucket: "cm_ok s \<Longrightarrow> i < length (cm_buckets s) \<Longrightarrow> p \<in> set (cm_buckets s ! i) \<Longrightarrow> bucketIndex s (fst p) = i"
  by (simp add: cm_ok_def)

lemma dom_contents:
  assumes ok: "cm_ok s"
  shows "dom (cm_contents s) = (\<Union>i<length (cm_buckets s). fst ` set (cm_buckets s ! i))"
proof -
  have "cm_contents s k \<noteq> None \<longleftrightarrow> k \<in> fst ` set (cm_buckets s ! bucketIndex s k)" for k
    by (simp add: cm_contents_def map_of_eq_None_iff)
  moreover have "k \<in> fst ` set (cm_buckets s ! bucketIndex s k) \<longleftrightarrow> (\<exists>i<length (cm_buckets s). k \<in> fst ` set (cm_buckets s ! i))" for k
    using key_bucket [OF ok] bucketIndex_less [OF ok] by force
  ultimately show ?thesis by (simp add: dom_def set_eq_iff Bex_def)
qed

lemma cm_size_card: "cm_ok s \<Longrightarrow> cm_size s = int (card (dom (cm_contents s))) \<and> finite (dom (cm_contents s))"
proof -
  assume ok: "cm_ok s"
  let ?A = "\<lambda>i. fst ` set (cm_buckets s ! i)"
  have "card (\<Union>i<length (cm_buckets s). ?A i) = (\<Sum>i<length (cm_buckets s). card (?A i))"
  proof (rule card_UN_disjoint; (intro ballI impI)?)
    fix i j assume "i \<in> {..<length (cm_buckets s)}" "j \<in> {..<length (cm_buckets s)}" "i \<noteq> j"
    then show "?A i \<inter> ?A j = {}" using key_bucket [OF ok, of i] key_bucket [OF ok, of j] by fastforce
  qed simp_all
  also have "\<dots> = (\<Sum>i<length (cm_buckets s). length (cm_buckets s ! i))"
  proof (intro sum.cong refl)
    fix i assume "i \<in> {..<length (cm_buckets s)}"
    then have "distinct (map fst (cm_buckets s ! i))" using ok by (simp add: cm_ok_def)
    then show "card (?A i) = length (cm_buckets s ! i)" using distinct_card by fastforce
  qed
  also have "\<dots> = sum_list (map length (cm_buckets s))"
    by (simp add: sum_list_sum_nth atLeast0LessThan)
  finally show ?thesis using ok dom_contents [OF ok] by (simp add: cm_ok_def)
qed

lemma cm_Get_contents: "cm_Get s key = cm_contents s key"
  by (simp add: cm_Get_def cm_contents_def)

lemma cm_Len_contents: "cm_ok s \<Longrightarrow> cm_Len s = int (card (dom (cm_contents s)))"
  using cm_size_card by (auto simp: cm_Len_def)

lemma cm_Keys_contents:
  assumes ok: "cm_ok s"
  shows "iterates (cm_Keys s) (cm_contents s)"
proof -
  have set: "set (cm_Keys s) = dom (cm_contents s)"
    unfolding dom_contents [OF ok] cm_Keys_def set_concat set_map image_image
    by (auto simp: set_conv_nth [of "cm_buckets s"])
  have "length (cm_Keys s) = sum_list (map length (cm_buckets s))"
    by (simp add: cm_Keys_def length_concat comp_def)
  then have "length (cm_Keys s) = card (dom (cm_contents s))" using cm_size_card [OF ok] ok by (simp add: cm_ok_def)
  then show ?thesis using set by (simp add: iterates_def card_distinct)
qed

text \<open>Replacing one bucket.\<close>

lemma cm_update_bucket:
  assumes ok: "cm_ok s" and i: "i = bucketIndex s key" and d: "distinct (map fst ch)"
    and ks: "\<forall>p\<in>set ch. bucketIndex s (fst p) = i"
    and n: "n = cm_size s + int (length ch) - int (length (cm_buckets s ! i))"
    and t: "t = s\<lparr>cm_buckets := (cm_buckets s)[i := ch], cm_size := n\<rparr>"
    and m: "map_of ch = (map_of (cm_buckets s ! i))(key := v)"
  shows "cm_ok t" "cm_contents t = (cm_contents s)(key := v)"
proof -
  have less: "i < length (cm_buckets s)" using bucketIndex_less [OF ok] i by simp
  have idx: "bucketIndex t = bucketIndex s" using t by (intro bucketIndex_cong) simp
  have "sum_list (map length ((cm_buckets s)[i := ch])) = sum_list (map length (cm_buckets s)) + length ch - length (cm_buckets s ! i)"
    using less by (simp add: map_update sum_list_update)
  moreover have "length (cm_buckets s ! i) \<le> sum_list (map length (cm_buckets s))"
    using less by (intro member_le_sum_list) auto
  ultimately show "cm_ok t"
    using ok less d ks n unfolding cm_ok_def idx by (simp add: t nth_list_update)
  show "cm_contents t = (cm_contents s)(key := v)"
  proof
    fix k show "cm_contents t k = ((cm_contents s)(key := v)) k"
      using less m i by (cases "bucketIndex s k = i") (unfold cm_contents_def idx, auto simp: t)
  qed
qed


lemma keys_subset: "\<forall>p\<in>set ch. f (fst p) = i \<Longrightarrow> fst ` set ch' \<subseteq> fst ` set ch \<Longrightarrow> \<forall>p\<in>set ch'. f (fst p) = i"
  by fastforce

section \<open>Operations\<close>

lemma cm_put_correct:
  assumes ok: "cm_ok s"
  shows "cm_ok (cm_put s key v)" "cm_contents (cm_put s key v) = (cm_contents s)(key \<mapsto> v)"
    "length (cm_buckets (cm_put s key v)) = length (cm_buckets s)"
    "cm_size (cm_put s key v) \<le> cm_size s + 1"
proof -
  let ?i = "bucketIndex s key"
  let ?ch = "cm_buckets s ! ?i"
  have less: "?i < length (cm_buckets s)" by (rule bucketIndex_less [OF ok])
  have d: "distinct (map fst ?ch)" "\<forall>p\<in>set ?ch. bucketIndex s (fst p) = ?i"
    using ok less key_bucket [OF ok less] by (auto simp: cm_ok_def)
  have "cm_ok (cm_put s key v) \<and> cm_contents (cm_put s key v) = (cm_contents s)(key \<mapsto> v)"
  proof (cases "chain_set key v ?ch")
    case None
    then have p: "cm_put s key v = s\<lparr>cm_buckets := (cm_buckets s)[?i := (key, v) # ?ch], cm_size := cm_size s + 1\<rparr>"
      by (simp add: cm_put_def Let_def)
    have "key \<notin> fst ` set ?ch" using None chain_set_None by metis
    then show ?thesis using d by (intro conjI cm_update_bucket [OF ok refl _ _ _ p]) auto
  next
    case (Some ch)
    note ch = chain_set_Some [OF Some]
    have p: "cm_put s key v = s\<lparr>cm_buckets := (cm_buckets s)[?i := ch], cm_size := cm_size s\<rparr>"
      using Some by (simp add: cm_put_def Let_def)
    have "length ch = length ?ch" using ch by (metis length_map)
    moreover have "\<forall>p\<in>set ch. bucketIndex s (fst p) = ?i" using ch by (intro keys_subset [OF d(2)]) (metis list.set_map order_refl)
    ultimately show ?thesis using d(1) ch by (intro conjI cm_update_bucket [OF ok refl _ _ _ p]) auto
  qed
  then show "cm_ok (cm_put s key v)" "cm_contents (cm_put s key v) = (cm_contents s)(key \<mapsto> v)" by blast+
  show "length (cm_buckets (cm_put s key v)) = length (cm_buckets s)" "cm_size (cm_put s key v) \<le> cm_size s + 1"
    by (auto simp: cm_put_def Let_def split: option.split)
qed

lemma cm_Delete_correct:
  assumes ok: "cm_ok s"
  shows "cm_ok (snd (cm_Delete s key))" "cm_contents (snd (cm_Delete s key)) = (cm_contents s)(key := None)"
    "fst (cm_Delete s key) = (cm_contents s key \<noteq> None)"
proof -
  let ?i = "bucketIndex s key"
  let ?ch = "cm_buckets s ! ?i"
  have less: "?i < length (cm_buckets s)" by (rule bucketIndex_less [OF ok])
  have d: "distinct (map fst ?ch)" "\<forall>p\<in>set ?ch. bucketIndex s (fst p) = ?i"
    using ok less key_bucket [OF ok less] by (auto simp: cm_ok_def)
  show "fst (cm_Delete s key) = (cm_contents s key \<noteq> None)"
    using chain_delete_None [of key ?ch] by (auto simp: cm_Delete_def Let_def cm_contents_def map_of_eq_None_iff split: option.split)
  have "cm_ok (snd (cm_Delete s key)) \<and> cm_contents (snd (cm_Delete s key)) = (cm_contents s)(key := None)"
  proof (cases "chain_delete key ?ch")
    case None
    then have "cm_contents s key = None" using chain_delete_None [of key ?ch] by (simp add: cm_contents_def map_of_eq_None_iff)
    then show ?thesis using None ok by (simp add: cm_Delete_def fun_upd_idem)
  next
    case (Some ch)
    note ch = chain_delete_Some [OF Some d(1)]
    have p: "snd (cm_Delete s key) = s\<lparr>cm_buckets := (cm_buckets s)[?i := ch], cm_size := cm_size s - 1\<rparr>"
      using Some by (simp add: cm_Delete_def Let_def)
    have "\<forall>p\<in>set ch. bucketIndex s (fst p) = ?i" using ch by (intro keys_subset [OF d(2)]) blast
    then show ?thesis using ch by (intro conjI cm_update_bucket [OF ok refl _ _ _ p]) auto
  qed
  then show "cm_ok (snd (cm_Delete s key))" "cm_contents (snd (cm_Delete s key)) = (cm_contents s)(key := None)" by blast+
qed

section \<open>Resizing\<close>

lemma f64_quotient:
  assumes "0 \<le> a" "a \<le> 2 ^ 53" "0 < b" "b \<le> 2 ^ 53"
  shows "f64_of_int a / f64_of_int b = round64 (of_int a / of_int b)"
  using assms round64_int [of a] round64_int [of b] by (simp add: f64_of_int_def)

lemma round64_load: "round64 (3 / 4) = Fin (3 / 4)"
  using round64_dyadic [of 3 "- 2"] by (simp add: pow2_def)

lemma f64_Fin_less_round: "Fin (3 / 4) < round64 x \<Longrightarrow> 3 / 4 < x"
  using round64_le [of x "3 / 4"] by (cases "x \<le> 3 / 4") (simp_all add: round64_load less_f64_def)

lemma f64_le_load: "\<not> Fin (3 / 4) < round64 x \<Longrightarrow> x < 1"
proof (rule ccontr)
  assume n: "\<not> Fin (3 / 4) < round64 x" "\<not> x < 1"
  then have "round64 1 \<le> round64 x" by (intro round64_le) simp
  moreover have "round64 1 = Fin 1" using round64_int [of 1] by simp
  ultimately show False using n(1) by (cases "round64 x") (auto simp: less_f64_def)
qed

lemma needs_resize_bounds:
  assumes "0 \<le> cm_size s" "cm_size s + 1 \<le> 2 ^ 53" "0 < length (cm_buckets s)" "length (cm_buckets s) < 2 ^ 53"
  shows "needs_resize s \<Longrightarrow> 3 * int (length (cm_buckets s)) < 4 * (cm_size s + 1)"
    "\<not> needs_resize s \<Longrightarrow> cm_size s < int (length (cm_buckets s))"
    "2 * (cm_size s + 1) \<le> int (length (cm_buckets s)) \<Longrightarrow> \<not> needs_resize s"
proof -
  let ?a = "cm_size s + 1" and ?b = "int (length (cm_buckets s))"
  have b: "0 < ?b" "?b \<le> 2 ^ 53" using assms(3,4) by simp_all
  have q: "needs_resize s \<longleftrightarrow> Fin (3 / 4) < round64 (of_int ?a / of_int ?b)"
    unfolding needs_resize_def using assms b by (subst f64_quotient) auto
  have bq: "(0 :: rat) < of_int ?b" using b(1) by simp
  show "3 * ?b < 4 * ?a" if "needs_resize s"
  proof -
    have "3 / 4 < (of_int ?a / of_int ?b :: rat)" using that f64_Fin_less_round unfolding q by blast
    then have "3 * of_int ?b < (4 * of_int ?a :: rat)" using bq by (simp add: field_simps)
    then show ?thesis by linarith
  qed
  show "cm_size s < ?b" if "\<not> needs_resize s"
  proof -
    have "(of_int ?a / of_int ?b :: rat) < 1" using that f64_le_load unfolding q by blast
    then have "(of_int ?a :: rat) < of_int ?b" using bq by (simp add: field_simps)
    then show ?thesis by linarith
  qed
  show "\<not> needs_resize s" if "2 * ?a \<le> ?b"
  proof
    assume "needs_resize s"
    then have "3 / 4 < (of_int ?a / of_int ?b :: rat)" using f64_Fin_less_round unfolding q by blast
    then have "3 * of_int ?b < (4 * of_int ?a :: rat)" using bq by (simp add: field_simps)
    then show False using that b(1) by linarith
  qed
qed


text \<open>A table of twice the size takes all entries without resizing again.\<close>

abbreviation set_all :: "('v custom_map \<Rightarrow> string \<Rightarrow> 'v \<Rightarrow> 'v custom_map option) \<Rightarrow> 'v chain \<Rightarrow> 'v custom_map option \<Rightarrow> 'v custom_map option" where
  "set_all set_entry \<equiv> fold (\<lambda>(k, v) acc. case acc of None \<Rightarrow> None | Some t \<Rightarrow> set_entry t k v)"

definition put_all :: "'v chain \<Rightarrow> 'v custom_map \<Rightarrow> 'v custom_map" where
  "put_all = fold (\<lambda>(k, v) t. cm_put t k v)"

lemma cm_size_nonneg: "cm_ok s \<Longrightarrow> 0 \<le> cm_size s"
  by (simp add: cm_ok_def)

lemma set_depth_no_resize: "\<not> needs_resize t \<Longrightarrow> cm_set_depth (Suc d) t k v = Some (cm_put t k v)"
  by simp

lemma set_all_fits:
  assumes "cm_ok t" "distinct (map fst es)" "2 * (cm_size t + int (length es)) \<le> int (length (cm_buckets t))" "fst ` set es \<inter> dom (cm_contents t) = {}"
  shows "\<exists>t'. set_all (cm_set_depth (Suc d)) es (Some t) = Some t' \<and> cm_ok t' \<and> length (cm_buckets t') = length (cm_buckets t) \<and>
    cm_contents t' = cm_contents t ++ map_of es \<and> cm_size t' \<le> cm_size t + int (length es) \<and> t' = put_all es t"
  using assms
proof (induction es arbitrary: t)
  case (Cons p es)
  obtain k v where p: "p = (k, v)" by (cases p)
  let ?t = "cm_put t k v"
  note put = cm_put_correct [OF Cons.prems(1), of k v]
  have len: "0 < length (cm_buckets t)" "length (cm_buckets t) < 2 ^ 53" using Cons.prems(1) by (auto simp: cm_ok_def)
  have "cm_size t + 1 \<le> 2 ^ 53" using Cons.prems(3) len(2) cm_size_nonneg [OF Cons.prems(1)] by simp
  then have "\<not> needs_resize t"
    using Cons.prems(3) by (intro needs_resize_bounds(3) cm_size_nonneg Cons.prems(1) len) auto
  then have step: "cm_set_depth (Suc d) t k v = Some ?t" by (rule set_depth_no_resize)
  have "fst ` set es \<inter> dom (cm_contents ?t) = {}" using Cons.prems(2,4) p unfolding put(2) by auto
  moreover have "2 * (cm_size ?t + int (length es)) \<le> int (length (cm_buckets ?t))" using Cons.prems(3) put(3,4) by simp
  moreover have "distinct (map fst es)" using Cons.prems(2) by simp
  ultimately obtain t' where t': "set_all (cm_set_depth (Suc d)) es (Some ?t) = Some t'" "cm_ok t'"
    "length (cm_buckets t') = length (cm_buckets ?t)" "cm_contents t' = cm_contents ?t ++ map_of es" "cm_size t' \<le> cm_size ?t + int (length es)" "t' = put_all es ?t"
    using Cons.IH [OF put(1)] by blast
  have "(cm_contents t)(k \<mapsto> v) ++ map_of es = cm_contents t ++ map_of (p # es)"
  proof
    have "map_of es k = None" using Cons.prems(2) p by (simp add: map_of_eq_None_iff)
    then show "((cm_contents t)(k \<mapsto> v) ++ map_of es) x = (cm_contents t ++ map_of (p # es)) x" for x
      using p by (cases "x = k") (auto simp: map_add_def split: option.split)
  qed
  then have "set_all (cm_set_depth (Suc d)) (p # es) (Some t) = Some t' \<and> cm_contents t' = cm_contents t ++ map_of (p # es)"
    using step t'(1,4) p put(2) by (simp del: cm_set_depth.simps)
  moreover have "cm_size t' \<le> cm_size t + int (length (p # es))" using t'(5) put(4) by simp
  moreover have "length (cm_buckets t') = length (cm_buckets t)" using t'(3) put(3) by simp
  moreover have "t' = put_all (p # es) t" using t'(6) p by (simp add: put_all_def)
  ultimately show ?case using t'(2) by blast
qed (simp add: put_all_def)

lemma cm_entries:
  assumes ok: "cm_ok s"
  shows "distinct (map fst (concat (cm_buckets s)))" "map_of (concat (cm_buckets s)) = cm_contents s"
    "int (length (concat (cm_buckets s))) = cm_size s"
proof -
  have "map fst (concat (cm_buckets s)) = cm_Keys s" by (simp add: cm_Keys_def map_concat)
  then show d: "distinct (map fst (concat (cm_buckets s)))" using cm_Keys_contents [OF ok] by (simp add: iterates_def)
  have eq: "map_of (concat (cm_buckets s)) k = Some v \<longleftrightarrow> cm_contents s k = Some v" for k v
  proof -
    have "map_of (concat (cm_buckets s)) k = Some v \<longleftrightarrow> (\<exists>i<length (cm_buckets s). (k, v) \<in> set (cm_buckets s ! i))"
      using d by (simp add: map_of_eq_Some_iff) (metis in_set_conv_nth)
    also have "\<dots> \<longleftrightarrow> (k, v) \<in> set (cm_buckets s ! bucketIndex s k)"
      using key_bucket [OF ok] bucketIndex_less [OF ok] by force
    also have "\<dots> \<longleftrightarrow> cm_contents s k = Some v"
      using ok bucketIndex_less [OF ok, of k] by (simp add: cm_contents_def cm_ok_def map_of_eq_Some_iff)
    finally show ?thesis .
  qed
  show "map_of (concat (cm_buckets s)) = cm_contents s"
  proof
    fix k show "map_of (concat (cm_buckets s)) k = cm_contents s k"
      using eq [of k] by (cases "cm_contents s k"; cases "map_of (concat (cm_buckets s)) k") auto
  qed
  show "int (length (concat (cm_buckets s))) = cm_size s" using ok by (simp add: cm_ok_def length_concat)
qed

lemma empty_table:
  assumes "8 \<le> n" "n < 2 ^ 53" "e = \<lparr>cm_buckets = replicate n [], cm_size = 0\<rparr>"
  shows "cm_ok e" "cm_contents e = Map.empty"
proof -
  show ok: "cm_ok e" using assms by (simp add: cm_ok_def sum_list_replicate)
  show "cm_contents e = Map.empty"
  proof
    fix k
    have "cm_buckets e ! bucketIndex e k = []" using bucketIndex_less [OF ok, of k] assms(3) by simp
    then show "cm_contents e k = None" by (simp add: cm_contents_def)
  qed
qed

text \<open>The table is never more than full.\<close>

definition cm_valid :: "'v custom_map \<Rightarrow> bool" where
  "cm_valid s \<longleftrightarrow> cm_ok s \<and> cm_size s \<le> int (length (cm_buckets s))"

lemma New_valid: "cm_valid NewCustomMapStore" "cm_contents NewCustomMapStore = Map.empty"
  using empty_table [OF _ _ NewCustomMapStore_def] by (simp_all add: cm_valid_def NewCustomMapStore_def)

text \<open>The table that a setting goes to.\<close>

definition cm_grown :: "'v custom_map \<Rightarrow> 'v custom_map" where
  "cm_grown s =
     (if needs_resize s then put_all (concat (cm_buckets s)) \<lparr>cm_buckets = replicate (2 * length (cm_buckets s)) [], cm_size = 0\<rparr>
      else s)"

lemma cm_Set_correct:
  assumes valid: "cm_valid s" and few: "card (dom (cm_contents s)) < 2 ^ 50"
  shows "\<exists>s'. cm_set_depth (Suc (Suc d)) s key v = Some s' \<and> cm_valid s' \<and> cm_contents s' = (cm_contents s)(key \<mapsto> v) \<and>
    s' = cm_put (cm_grown s) key v"
proof -
  have ok: "cm_ok s" using valid by (simp add: cm_valid_def)
  let ?n = "length (cm_buckets s)"
  have few': "cm_size s < 2 ^ 50" using cm_size_card [OF ok] few by simp
  then have b: "0 \<le> cm_size s" "cm_size s + 1 \<le> 2 ^ 53" "0 < ?n" "?n < 2 ^ 53" "8 \<le> ?n" using ok by (auto simp: cm_ok_def)
  show ?thesis
  proof (cases "needs_resize s")
    case False
    then have "cm_size s < int ?n" using needs_resize_bounds(2) b by blast
    then have "cm_valid (cm_put s key v)" using cm_put_correct [OF ok, of key v] by (simp add: cm_valid_def)
    moreover have "cm_set_depth (Suc (Suc d)) s key v = Some (cm_put s key v)" using False by (rule set_depth_no_resize)
    moreover have "cm_grown s = s" using False by (simp add: cm_grown_def)
    ultimately show ?thesis using cm_put_correct(2) [OF ok, of key v] by simp
  next
    case True
    then have "3 * int ?n < 4 * (cm_size s + 1)" using needs_resize_bounds(1) b by blast
    then have n: "2 * ?n < 2 ^ 53" "8 \<le> 2 * ?n" using few' b(5) by simp_all
    let ?e = "\<lparr>cm_buckets = replicate (2 * ?n) [], cm_size = 0\<rparr> :: 'a custom_map"
    note e = empty_table [OF n(2,1) refl]
    have "2 * (cm_size ?e + int (length (concat (cm_buckets s)))) \<le> int (length (cm_buckets ?e))"
      using cm_entries(3) [OF ok] valid by (simp add: cm_valid_def)
    moreover have "fst ` set (concat (cm_buckets s)) \<inter> dom (cm_contents ?e) = {}" unfolding e(2) by simp
    ultimately obtain t where a:
      "set_all (cm_set_depth (Suc d)) (concat (cm_buckets s)) (Some ?e) = Some t" "cm_ok t" "length (cm_buckets t) = length (cm_buckets ?e)"
      "cm_contents t = cm_contents ?e ++ map_of (concat (cm_buckets s))" "cm_size t \<le> cm_size ?e + int (length (concat (cm_buckets s)))"
      and grown: "t = put_all (concat (cm_buckets s)) ?e"
      using set_all_fits [OF e(1) cm_entries(1) [OF ok]] by blast
    have t: "set_all (cm_set_depth (Suc d)) (concat (cm_buckets s)) (Some ?e) = Some t" "cm_ok t" "length (cm_buckets t) = 2 * ?n"
      "cm_contents t = cm_contents s" "cm_size t \<le> cm_size s"
      using a cm_entries(3) [OF ok] unfolding e(2) cm_entries(2) [OF ok] by simp_all
    have "cm_resize (cm_set_depth (Suc d)) s (?n * 2) = Some t" using t(1) by (simp add: cm_resize_def mult.commute del: cm_set_depth.simps)
    then have "cm_set_depth (Suc (Suc d)) s key v = Some (cm_put t key v)"
      unfolding cm_set_depth.simps(2) [of "Suc d"] using True by (simp only: if_True option.case)
    moreover have "cm_valid (cm_put t key v)"
    proof -
      have "cm_size (cm_put t key v) \<le> 2 * int ?n"
        using cm_put_correct(4) [OF t(2), of key v] t(5) valid b(5) unfolding cm_valid_def by linarith
      then show ?thesis using cm_put_correct(1,3) [OF t(2), of key v] t(3) by (simp add: cm_valid_def)
    qed
    moreover have "cm_grown s = t" using True grown by (simp only: cm_grown_def if_True)
    ultimately show ?thesis using cm_put_correct(2) [OF t(2), of key v] t(4) by auto
  qed
qed

lemma cm_set_depth_enough:
  "cm_valid s \<Longrightarrow> card (dom (cm_contents s)) < 2 ^ 50 \<Longrightarrow> cm_set_depth (Suc (Suc d)) s key v = cm_Set s key v"
  using cm_Set_correct [of s d key v] cm_Set_correct [of s 0 key v] by (auto simp: cm_Set_def numeral_2_eq_2 simp del: cm_set_depth.simps)


section \<open>The interface of a cache store\<close>

record ('s, 'v) cache_ops =
  co_Get :: "'s \<Rightarrow> string \<Rightarrow> 'v option"
  co_Set :: "'s \<Rightarrow> string \<Rightarrow> 'v \<Rightarrow> 's option"
  co_Delete :: "'s \<Rightarrow> string \<Rightarrow> bool \<times> 's"
  co_Len :: "'s \<Rightarrow> int"
  co_Keys :: "'s \<Rightarrow> string list"

text \<open>
  A store is a map from strings, of any content below the limit of entries; \<open>Set\<close> returns.
\<close>

locale cache_store =
  fixes ops :: "('s, 'v) cache_ops"
    and valid :: "'s \<Rightarrow> bool"
    and contents :: "'s \<Rightarrow> string \<rightharpoonup> 'v"
  assumes get: "valid s \<Longrightarrow> co_Get ops s k = contents s k"
    and set: "valid s \<Longrightarrow> card (dom (contents s)) < 2 ^ 50 \<Longrightarrow> \<exists>s'. co_Set ops s k v = Some s' \<and> valid s' \<and> contents s' = (contents s)(k \<mapsto> v)"
    and delete: "valid s \<Longrightarrow> valid (snd (co_Delete ops s k)) \<and> contents (snd (co_Delete ops s k)) = (contents s)(k := None)"
    and deleted: "valid s \<Longrightarrow> fst (co_Delete ops s k) \<longleftrightarrow> contents s k \<noteq> None"
    and len: "valid s \<Longrightarrow> co_Len ops s = int (card (dom (contents s)))"
    and keys: "valid s \<Longrightarrow> iterates (co_Keys ops s) (contents s)"
begin

lemma finite_contents: "valid s \<Longrightarrow> finite (dom (contents s))"
  using keys iterates_finite by blast

text \<open>A setting adds at most one key.\<close>

lemma set_card: "valid s \<Longrightarrow> contents s' = (contents s)(k \<mapsto> v) \<Longrightarrow> card (dom (contents s')) \<le> Suc (card (dom (contents s)))"
  using finite_contents [of s] by (simp add: card_insert_if)

lemma delete_card: "valid s \<Longrightarrow> contents s' = (contents s)(k := None) \<Longrightarrow> card (dom (contents s')) \<le> card (dom (contents s))"
  using finite_contents [of s] by (simp add: card_mono)

end

definition custom_ops :: "('v custom_map, 'v) cache_ops" where
  "custom_ops = \<lparr>co_Get = cm_Get, co_Set = cm_Set, co_Delete = cm_Delete, co_Len = cm_Len, co_Keys = cm_Keys\<rparr>"

interpretation custom: cache_store custom_ops cm_valid cm_contents
proof unfold_locales
  fix s :: "'v custom_map" and k v
  assume valid: "cm_valid s"
  then have ok: "cm_ok s" by (simp add: cm_valid_def)
  show "co_Get custom_ops s k = cm_contents s k" by (simp add: custom_ops_def cm_Get_contents)
  show "card (dom (cm_contents s)) < 2 ^ 50 \<Longrightarrow>
      \<exists>s'. co_Set custom_ops s k v = Some s' \<and> cm_valid s' \<and> cm_contents s' = (cm_contents s)(k \<mapsto> v)"
    using cm_Set_correct [OF valid, of 0 k v] by (auto simp: custom_ops_def cm_Set_def numeral_2_eq_2 simp del: cm_set_depth.simps)
  have "cm_size (snd (cm_Delete s k)) \<le> cm_size s \<and> length (cm_buckets (snd (cm_Delete s k))) = length (cm_buckets s)"
    by (auto simp: cm_Delete_def Let_def split: option.split)
  then show "cm_valid (snd (co_Delete custom_ops s k)) \<and> cm_contents (snd (co_Delete custom_ops s k)) = (cm_contents s)(k := None)"
    using cm_Delete_correct [OF ok, of k] valid by (simp add: custom_ops_def cm_valid_def)
  show "fst (co_Delete custom_ops s k) \<longleftrightarrow> cm_contents s k \<noteq> None"
    using cm_Delete_correct(3) [OF ok] by (simp add: custom_ops_def)
  show "co_Len custom_ops s = int (card (dom (cm_contents s)))" using cm_Len_contents [OF ok] by (simp add: custom_ops_def)
  show "iterates (co_Keys custom_ops s) (cm_contents s)" using cm_Keys_contents [OF ok] by (simp add: custom_ops_def)
qed

text \<open>The built-in map lists its keys in any order.\<close>

definition inbuilt_ops :: "('v inbuilt_map \<Rightarrow> string list) \<Rightarrow> ('v inbuilt_map, 'v) cache_ops" where
  "inbuilt_ops keys_of =
     \<lparr>co_Get = mp_Get, co_Set = (\<lambda>m k v. Some (mp_Set m k v)), co_Delete = mp_Delete, co_Len = mp_Len, co_Keys = keys_of\<rparr>"

locale map_order =
  fixes keys_of :: "'v inbuilt_map \<Rightarrow> string list"
  assumes order: "iterates (keys_of m) (fmlookup m)"

sublocale map_order \<subseteq> cache_store "inbuilt_ops keys_of" "\<lambda>_. True" fmlookup
proof unfold_locales
  fix s :: "'v inbuilt_map" and k v
  show "co_Get (inbuilt_ops keys_of) s k = fmlookup s k" by (simp add: inbuilt_ops_def mp_Get_def)
  show "\<exists>s'. co_Set (inbuilt_ops keys_of) s k v = Some s' \<and> True \<and> fmlookup s' = (fmlookup s)(k \<mapsto> v)"
    by (auto simp: inbuilt_ops_def mp_Set_def fun_eq_iff)
  show "True \<and> fmlookup (snd (co_Delete (inbuilt_ops keys_of) s k)) = (fmlookup s)(k := None)"
    by (auto simp: inbuilt_ops_def mp_Delete_def fun_eq_iff split: option.split)
  show "fst (co_Delete (inbuilt_ops keys_of) s k) \<longleftrightarrow> fmlookup s k \<noteq> None"
    by (auto simp: inbuilt_ops_def mp_Delete_def split: option.split)
  show "co_Len (inbuilt_ops keys_of) s = int (card (dom (fmlookup s)))"
    by (simp add: inbuilt_ops_def mp_Len_def fcard.rep_eq fmdom.rep_eq)
  show "iterates (co_Keys (inbuilt_ops keys_of) s) (fmlookup s)" using order by (simp add: inbuilt_ops_def)
qed


section \<open>Scripts\<close>

datatype 'v store_call = StoreSet string 'v | StoreDelete string

text \<open>The results of the deletions and the store after the calls.\<close>

fun store_run :: "('s, 'v) cache_ops \<Rightarrow> 'v store_call list \<Rightarrow> 's \<Rightarrow> (bool list \<times> 's) option" where
  "store_run ops [] s = Some ([], s)"
| "store_run ops (StoreSet k v # cs) s = (case co_Set ops s k v of None \<Rightarrow> None | Some s' \<Rightarrow> store_run ops cs s')"
| "store_run ops (StoreDelete k # cs) s = (let (d, s') = co_Delete ops s k in map_option (\<lambda>(ds, t). (d # ds, t)) (store_run ops cs s'))"

fun map_run :: "'v store_call list \<Rightarrow> (string \<rightharpoonup> 'v) \<Rightarrow> bool list \<times> (string \<rightharpoonup> 'v)" where
  "map_run [] m = ([], m)"
| "map_run (StoreSet k v # cs) m = map_run cs (m(k \<mapsto> v))"
| "map_run (StoreDelete k # cs) m = (case map_run cs (m(k := None)) of (ds, m') \<Rightarrow> ((m k \<noteq> None) # ds, m'))"

context cache_store
begin

lemma store_run_map:
  "valid s \<Longrightarrow> card (dom (contents s)) + length cs \<le> 2 ^ 50 \<Longrightarrow> map_run cs (contents s) = (ds, m) \<Longrightarrow>
     \<exists>s'. store_run ops cs s = Some (ds, s') \<and> valid s' \<and> contents s' = m"
proof (induction cs arbitrary: s ds)
  case (Cons c cs)
  show ?case
  proof (cases c)
    case (StoreSet k v)
    have "card (dom (contents s)) < 2 ^ 50" using Cons.prems(2) by simp
    then obtain t where t: "co_Set ops s k v = Some t" "valid t" "contents t = (contents s)(k \<mapsto> v)" using set [OF Cons.prems(1)] by blast
    have "card (dom (contents t)) + length cs \<le> 2 ^ 50" using set_card [OF Cons.prems(1) t(3)] Cons.prems(2) by simp
    moreover have "map_run cs (contents t) = (ds, m)" using Cons.prems(3) StoreSet unfolding t(3) by simp
    ultimately have "\<exists>s'. store_run ops cs t = Some (ds, s') \<and> valid s' \<and> contents s' = m" using Cons.IH [OF t(2)] by blast
    then show ?thesis using t(1) StoreSet by simp
  next
    case (StoreDelete k)
    obtain d t where t: "co_Delete ops s k = (d, t)" by (cases "co_Delete ops s k")
    have c: "valid t" "contents t = (contents s)(k := None)" "d \<longleftrightarrow> contents s k \<noteq> None"
      using delete [OF Cons.prems(1), of k] deleted [OF Cons.prems(1), of k] t by simp_all
    obtain es m' where m': "map_run cs ((contents s)(k := None)) = (es, m')" by (cases "map_run cs ((contents s)(k := None))")
    then have "ds = d # es" "m = m'" using Cons.prems(3) StoreDelete c(3) by auto
    moreover have "card (dom (contents t)) + length cs \<le> 2 ^ 50" using delete_card [OF Cons.prems(1) c(2)] Cons.prems(2) by simp
    moreover have "map_run cs (contents t) = (es, m')" unfolding c(2) by (rule m')
    ultimately have "\<exists>s'. store_run ops cs t = Some (es, s') \<and> valid s' \<and> contents s' = m'"
      using Cons.IH [OF c(1), of es] by blast
    then show ?thesis using t StoreDelete \<open>ds = d # es\<close> \<open>m = m'\<close> by auto
  qed
qed simp

lemma store_run_cong:
  assumes same: "\<And>s k v. valid s \<Longrightarrow> card (dom (contents s)) < 2 ^ 50 \<Longrightarrow> co_Set ops' s k v = co_Set ops s k v"
    and "co_Delete ops' = co_Delete ops"
  shows "valid s \<Longrightarrow> card (dom (contents s)) + length cs \<le> 2 ^ 50 \<Longrightarrow> store_run ops' cs s = store_run ops cs s"
proof (induction cs arbitrary: s)
  case (Cons c cs)
  show ?case
  proof (cases c)
    case (StoreSet k v)
    have few: "card (dom (contents s)) < 2 ^ 50" using Cons.prems(2) by simp
    then obtain t where t: "co_Set ops s k v = Some t" "valid t" "contents t = (contents s)(k \<mapsto> v)" using set [OF Cons.prems(1)] by blast
    have "card (dom (contents t)) + length cs \<le> 2 ^ 50" using set_card [OF Cons.prems(1) t(3)] Cons.prems(2) by simp
    then show ?thesis using Cons.IH [OF t(2)] t(1) same [OF Cons.prems(1) few] StoreSet by simp
  next
    case (StoreDelete k)
    obtain d t where t: "co_Delete ops s k = (d, t)" by (cases "co_Delete ops s k")
    have c: "valid t" "contents t = (contents s)(k := None)" using delete [OF Cons.prems(1), of k] t by simp_all
    have "card (dom (contents t)) + length cs \<le> 2 ^ 50" using delete_card [OF Cons.prems(1) c(2)] Cons.prems(2) by simp
    then show ?thesis using Cons.IH [OF c(1)] t assms(2) StoreDelete by simp
  qed
qed simp

end

section \<open>Sharded map\<close>

lemmas bm_defs [simp] = bm_Set_def bm_Get_def bm_Delete_def bm_Len_def

lemma getShard_less: "m \<noteq> [] \<Longrightarrow> getShard m key < length m"
  by (simp add: getShard_def)

text \<open>Every key is in its shard.\<close>

definition sh_ok :: "'v sharded \<Rightarrow> bool" where
  "sh_ok m \<longleftrightarrow> m \<noteq> [] \<and> (\<forall>i<length m. \<forall>k. k |\<in>| fmdom (m ! i) \<longrightarrow> getShard m k = i)"

lemma getShard_update [simp]: "getShard (m[i := x]) = getShard m"
  by (simp add: getShard_def fun_eq_iff)

lemma sh_Len_sum: "sh_Len m = (\<Sum>i<length m. int (fcard (fmdom (m ! i))))"
proof -
  have "fold (\<lambda>shard total. total + int (fcard (fmdom shard))) xs n = n + sum_list (map (\<lambda>x. int (fcard (fmdom x))) xs)" for xs n
    by (induction xs arbitrary: n) auto
  from this [of m 0] show ?thesis by (simp add: sh_Len_def sum_list_sum_nth atLeast0LessThan)
qed

lemma sh_Len_card:
  assumes ok: "sh_ok m"
  shows "sh_Len m = int (card (dom (sh_Get m)))"
proof -
  let ?A = "\<lambda>i. fset (fmdom (m ! i))"
  have "dom (sh_Get m) = (\<Union>i<length m. ?A i)"
  proof (intro set_eqI iffI)
    fix k assume "k \<in> dom (sh_Get m)"
    then have "k \<in> ?A (getShard m k)" by (auto simp: sh_Get_def fmdomI)
    then show "k \<in> (\<Union>i<length m. ?A i)" using ok getShard_less by (auto simp: sh_ok_def)
  next
    fix k assume "k \<in> (\<Union>i<length m. ?A i)"
    then obtain i where "i < length m" "k |\<in>| fmdom (m ! i)" by auto
    then show "k \<in> dom (sh_Get m)" using ok by (auto simp: sh_Get_def sh_ok_def dom_def)
  qed
  moreover have "card (\<Union>i<length m. ?A i) = (\<Sum>i<length m. card (?A i))"
  proof (rule card_UN_disjoint; (intro ballI impI)?)
    fix i j assume "i \<in> {..<length m}" "j \<in> {..<length m}" "i \<noteq> j"
    then show "?A i \<inter> ?A j = {}" using ok by (auto simp: sh_ok_def)
  qed simp_all
  ultimately show ?thesis by (simp add: sh_Len_sum fcard.rep_eq)
qed

lemma new_sharded:
  assumes m: "m = NewShardedBuiltinMap n"
  shows "sh_ok m" "sh_Get m = Map.empty"
proof -
  have e: "m ! i = fmempty" if "i < length m" for i
    using that by (simp add: m NewShardedBuiltinMap_def Let_def split: if_splits)
  have ne: "m \<noteq> []" by (simp add: m NewShardedBuiltinMap_def Let_def)
  show "sh_ok m" using e ne by (simp add: sh_ok_def)
  show "sh_Get m = Map.empty" using e getShard_less [OF ne] by (simp add: sh_Get_def fun_eq_iff)
qed

text \<open>The sharded map is a map for any number of shards.\<close>

lemma sharded_map_correct:
  "sh_ok m \<Longrightarrow> sh_ok (sh_Set m k v) \<and> sh_Get (sh_Set m k v) = (sh_Get m)(k \<mapsto> v)"
  "sh_ok m \<Longrightarrow> sh_ok (sh_Delete m k) \<and> sh_Get (sh_Delete m k) = (sh_Get m)(k := None)"
proof -
  show "sh_ok m \<Longrightarrow> sh_ok (sh_Set m k v) \<and> sh_Get (sh_Set m k v) = (sh_Get m)(k \<mapsto> v)"
    using getShard_less [of m] by (auto simp: sh_ok_def sh_Set_def sh_Get_def nth_list_update fun_eq_iff)
  show "sh_ok m \<Longrightarrow> sh_ok (sh_Delete m k) \<and> sh_Get (sh_Delete m k) = (sh_Get m)(k := None)"
    using getShard_less [of m] by (auto simp: sh_ok_def sh_Delete_def sh_Get_def nth_list_update fun_eq_iff)
qed

section \<open>Properties\<close>

text \<open>
  C16. After any calls the hash map holds the map that the calls describe, its size is the number of
  keys, every key is listed once, and a deletion reports whether the key was there.  The nested
  calls of \<open>Set\<close> in \<open>resize\<close> never resize, so that a recursion of depth two suffices.
\<close>

theorem hash_store_correct:
  fixes d :: nat
  assumes "length cs \<le> 2 ^ 50" "map_run cs Map.empty = (ds, m)"
  shows "\<exists>s. store_run custom_ops cs NewCustomMapStore = Some (ds, s) \<and>
    store_run (custom_ops\<lparr>co_Set := cm_set_depth (Suc (Suc d))\<rparr>) cs NewCustomMapStore = Some (ds, s) \<and>
    cm_Get s = m \<and> cm_Len s = int (card (dom m)) \<and> iterates (cm_Keys s) m"
proof -
  have few: "card (dom (cm_contents (NewCustomMapStore :: 'a custom_map))) + length cs \<le> 2 ^ 50" using assms(1) by (simp add: New_valid)
  have run: "map_run cs (cm_contents NewCustomMapStore) = (ds, m)" using assms(2) by (simp add: New_valid)
  obtain s where s: "store_run custom_ops cs NewCustomMapStore = Some (ds, s)" "cm_valid s" "cm_contents s = m"
    using custom.store_run_map [OF New_valid(1) few run] by blast
  have "store_run (custom_ops\<lparr>co_Set := cm_set_depth (Suc (Suc d))\<rparr>) cs NewCustomMapStore = store_run custom_ops cs (NewCustomMapStore :: 'a custom_map)"
    by (rule custom.store_run_cong [OF _ _ New_valid(1) few]) (simp_all add: cm_set_depth_enough custom_ops_def del: cm_set_depth.simps)
  moreover have ok: "cm_ok s" using s(2) by (simp add: cm_valid_def)
  have "cm_Get s = m" using s(3) by (simp add: cm_Get_contents fun_eq_iff)
  ultimately show ?thesis using s cm_Len_contents [OF ok] cm_Keys_contents [OF ok] by auto
qed

theorem hash_store_correct_witness:
  "\<exists>s. store_run custom_ops [StoreSet ''a'' (1 :: int), StoreDelete ''b'', StoreSet ''a'' 2] NewCustomMapStore = Some ([False], s) \<and>
    store_run (custom_ops\<lparr>co_Set := cm_set_depth (Suc (Suc 5))\<rparr>) [StoreSet ''a'' 1, StoreDelete ''b'', StoreSet ''a'' 2] NewCustomMapStore = Some ([False], s) \<and>
    cm_Get s = [''a'' \<mapsto> 2] \<and> cm_Len s = int (card (dom [''a'' \<mapsto> (2 :: int)])) \<and> iterates (cm_Keys s) [''a'' \<mapsto> (2 :: int)]"
  by (rule hash_store_correct) simp_all

end
