(* ===== verification/Dns_Resolver.thy ===== *)
theory Dns_Resolver
  imports Hash_Correct
begin

text \<open>
  The caching resolver (\<open>05-day/dns-cache-resolver/internal/resolver/resolver.go\<close>), with its records
  (\<open>internal/dns_record\<close>) and the dummy upstream (\<open>internal/upstream\<close>).

  The store is given by its operations; \<open>None\<close> is an operation of the store that does not return.
  The current time and the upstream are arguments.  The ticker of \<open>StartCleanup\<close> is any sequence of
  cleanups between the other calls.
\<close>

section \<open>Records\<close>

record dns_record =
  dr_Domain :: string
  dr_IP :: string
  dr_HitCount :: int
  dr_TTL :: duration
  dr_CreatedAt :: gotime

definition rec_IsExpired :: "dns_record \<Rightarrow> gotime \<Rightarrow> bool" where
  "rec_IsExpired r now \<longleftrightarrow> dr_TTL r \<le> time_Sub now (dr_CreatedAt r)"

datatype dns_error = InvalidDomain | InvalidIP | InvalidTTL | UpstreamError string

section \<open>Upstream\<close>

text \<open>FNV-1a with 32 bits.\<close>

definition fnv32_byte :: "char \<Rightarrow> 32 word \<Rightarrow> 32 word" where
  "fnv32_byte c h = (h XOR of_char c) * 16777619"

definition fnv32 :: "string \<Rightarrow> 32 word" where
  "fnv32 s = fold fnv32_byte s 2166136261"

definition decimal_digit :: "nat \<Rightarrow> char" where
  "decimal_digit d = char_of (48 + d)"

fun decimal :: "nat \<Rightarrow> string" where
  "decimal n = (if n < 10 then [decimal_digit n] else decimal (n div 10) @ [decimal_digit (n mod 10)])"

declare decimal.simps [simp del]

definition DummyUpstream :: "string \<Rightarrow> dns_error + string" where
  "DummyUpstream domain =
     (if domain = '''' then Inl (UpstreamError ''invalid domain'')
      else Inr (''203.0.113.'' @ decimal (unat (fnv32 domain) mod 250 + 1)))"

section \<open>Wildcards\<close>

fun split_on :: "char \<Rightarrow> string \<Rightarrow> string list" where
  "split_on c [] = [[]]"
| "split_on c (x # xs) = (if x = c then [] # split_on c xs else (x # hd (split_on c xs)) # tl (split_on c xs))"

fun join_with :: "string \<Rightarrow> string list \<Rightarrow> string" where
  "join_with sep [] = []"
| "join_with sep [p] = p"
| "join_with sep (p # q # ps) = p @ sep @ join_with sep (q # ps)"

definition wildcardCandidates :: "string \<Rightarrow> string list" where
  "wildcardCandidates domain =
     (let parts = split_on (CHR ''.'') domain
      in if length parts < 3 then []
         else map (\<lambda>i. ''*.'' @ join_with ''.'' (drop i parts)) [1..<length parts - 1])"

section \<open>Resolver\<close>

record 's dns_resolver =
  rs_Store :: 's
  rs_hits :: int
  rs_misses :: int

definition NewResolver :: "'s \<Rightarrow> 's dns_resolver" where
  "NewResolver store = \<lparr>rs_Store = store, rs_hits = 0, rs_misses = 0\<rparr>"

record cache_stats =
  cs_Hits :: int
  cs_Misses :: int
  cs_TotalEntries :: int
  cs_HitRate :: f64
  cs_MissRate :: f64
  cs_MemoryEstimate :: int

definition cache_Stats :: "('s, dns_record) cache_ops \<Rightarrow> 's dns_resolver \<Rightarrow> cache_stats" where
  "cache_Stats ops r =
     (let totalLookups = wrap64 (rs_hits r + rs_misses r);
          (hitRate, missRate) =
            (if 0 < totalLookups
             then (f64_of_int (rs_hits r) / f64_of_int totalLookups, f64_of_int (rs_misses r) / f64_of_int totalLookups)
             else (0, 0));
          entries = co_Len ops (rs_Store r)
      in \<lparr>cs_Hits = rs_hits r, cs_Misses = rs_misses r, cs_TotalEntries = entries, cs_HitRate = hitRate,
          cs_MissRate = missRate, cs_MemoryEstimate = wrap64 (entries * 160)\<rparr>)"

definition lookupValidRecord :: "('s, dns_record) cache_ops \<Rightarrow> string \<Rightarrow> gotime \<Rightarrow> 's \<Rightarrow> dns_record option \<times> 's" where
  "lookupValidRecord ops domain now s =
     (case co_Get ops s domain of
        None \<Rightarrow> (None, s)
      | Some r \<Rightarrow> if rec_IsExpired r now then (None, snd (co_Delete ops s domain)) else (Some r, s))"

text \<open>The loop over the wildcards stops at the first record.\<close>

fun lookup_first :: "('s, dns_record) cache_ops \<Rightarrow> gotime \<Rightarrow> string list \<Rightarrow> 's \<Rightarrow> dns_record option \<times> 's" where
  "lookup_first ops now [] s = (None, s)"
| "lookup_first ops now (c # cs) s =
     (let (r, s') = lookupValidRecord ops c now s
      in case r of Some rec \<Rightarrow> (Some rec, s') | None \<Rightarrow> lookup_first ops now cs s')"

definition Resolve :: "('s, dns_record) cache_ops \<Rightarrow> (string \<Rightarrow> dns_error + string) \<Rightarrow> string \<Rightarrow> gotime \<Rightarrow> 's dns_resolver
    \<Rightarrow> ((dns_error + string) \<times> 's dns_resolver) option" where
  "Resolve ops upstream domain now st =
     (let (rec, s) = lookupValidRecord ops domain now (rs_Store st);
          (rec, s) = (case rec of Some r \<Rightarrow> (Some r, s) | None \<Rightarrow> lookup_first ops now (wildcardCandidates domain) s)
      in case rec of
           Some r \<Rightarrow>
             (let r = r\<lparr>dr_HitCount := wrap64 (dr_HitCount r + 1)\<rparr>
              in case co_Set ops s (dr_Domain r) r of
                   None \<Rightarrow> None
                 | Some s' \<Rightarrow> Some (Inr (dr_IP r), st\<lparr>rs_Store := s', rs_hits := wrap64 (rs_hits st + 1)\<rparr>))
         | None \<Rightarrow>
             (case upstream domain of
                Inl e \<Rightarrow> Some (Inl e, st\<lparr>rs_Store := s, rs_misses := wrap64 (rs_misses st + 1)\<rparr>)
              | Inr ipAddress \<Rightarrow>
                  (let newRecord = \<lparr>dr_Domain = domain, dr_IP = ipAddress, dr_HitCount = 0, dr_TTL = 30 * 1000000000, dr_CreatedAt = now\<rparr>
                   in case co_Set ops s (dr_Domain newRecord) newRecord of
                        None \<Rightarrow> None
                      | Some s' \<Rightarrow> Some (Inr ipAddress, st\<lparr>rs_Store := s', rs_misses := wrap64 (rs_misses st + 1)\<rparr>))))"

definition cleanup_key :: "('s, dns_record) cache_ops \<Rightarrow> gotime \<Rightarrow> string \<Rightarrow> 's \<Rightarrow> 's" where
  "cleanup_key ops now key s =
     (case co_Get ops s key of
        None \<Rightarrow> s
      | Some r \<Rightarrow> if rec_IsExpired r now then snd (co_Delete ops s key) else s)"

definition cleanupExpired :: "('s, dns_record) cache_ops \<Rightarrow> gotime \<Rightarrow> 's dns_resolver \<Rightarrow> 's dns_resolver" where
  "cleanupExpired ops now st = st\<lparr>rs_Store := fold (cleanup_key ops now) (co_Keys ops (rs_Store st)) (rs_Store st)\<rparr>"

definition AddRecord :: "('s, dns_record) cache_ops \<Rightarrow> string \<Rightarrow> string \<Rightarrow> duration \<Rightarrow> gotime \<Rightarrow> 's dns_resolver
    \<Rightarrow> (dns_error option \<times> 's dns_resolver) option" where
  "AddRecord ops domain ip ttl now st =
     (if TrimSpace domain = '''' then Some (Some InvalidDomain, st)
      else if TrimSpace ip = '''' then Some (Some InvalidIP, st)
      else if ttl \<le> 0 then Some (Some InvalidTTL, st)
      else (let r = \<lparr>dr_Domain = domain, dr_IP = ip, dr_HitCount = 0, dr_TTL = ttl, dr_CreatedAt = now\<rparr>
            in case co_Set ops (rs_Store st) domain r of
                 None \<Rightarrow> None
               | Some s' \<Rightarrow> Some (None, st\<lparr>rs_Store := s'\<rparr>)))"

end
