(* ===== verification/Dns_Props.thy ===== *)
theory Dns_Props
  imports Dns_Resolver "HOL-Library.List_Lexorder" "HOL-Library.Char_ord"
begin

text \<open>
  The resolver over any store that implements a map answers as its specification on the map says,
  and both stores implement one.
\<close>

section \<open>Wildcards\<close>

text \<open>What follows each separator.\<close>

fun after :: "char \<Rightarrow> string \<Rightarrow> string list" where
  "after c [] = []"
| "after c (x # xs) = (if x = c then xs # after c xs else after c xs)"

lemma split_on_nonempty [simp]: "split_on c s \<noteq> []"
  by (cases s) auto

lemma join_split: "join_with [c] (split_on c s) = s"
proof (induction s)
  case (Cons x s)
  obtain p ps where "split_on c s = p # ps" by (cases "split_on c s") auto
  then show ?case using Cons by (cases ps) auto
qed simp

lemma map_upt_shift:
  "map f [1..<Suc n] = map (\<lambda>i. f (Suc i)) [0..<n]" "map f [0..<Suc n] = f 0 # map (\<lambda>i. f (Suc i)) [0..<n]"
  by (induction n) auto

lemma butlast_from_to: "butlast [a..<b] = [a..<b - 1]"
  by (cases b) auto

lemma joined_tails: "map (\<lambda>i. join_with [c] (drop i (split_on c d))) [1..<length (split_on c d)] = after c d"
proof (induction d)
  case (Cons x d)
  obtain p ps where p: "split_on c d = p # ps" by (cases "split_on c d") auto
  have "map (\<lambda>i. join_with [c] (drop i (p # ps))) [1..<length (p # ps)] = map (\<lambda>i. join_with [c] (drop i ps)) [0..<length ps]"
    by (simp add: map_upt_shift del: upt_Suc One_nat_def)
  with Cons have IH: "map (\<lambda>i. join_with [c] (drop i ps)) [0..<length ps] = after c d" using p by simp
  have all: "map (\<lambda>i. join_with [c] (drop i (p # ps))) [0..<length (p # ps)] = d # after c d"
    using IH join_split [of c d] p by (simp add: map_upt_shift del: upt_Suc One_nat_def)
  show ?case
  proof (cases "x = c")
    case True
    then show ?thesis using all p by (simp add: map_upt_shift del: upt_Suc One_nat_def)
  next
    case False
    then show ?thesis using IH p by (simp add: map_upt_shift del: upt_Suc One_nat_def)
  qed
qed simp

lemma length_after: "length (after c d) = length (split_on c d) - 1"
  using arg_cong [OF joined_tails, of length c d] by simp

lemma after_filter: "butlast (after c d) = filter (\<lambda>s. c \<in> set s) (after c d)"
proof (induction d)
  case (Cons x d)
  have none: "after c d = [] \<longleftrightarrow> c \<notin> set d" by (induction d) auto
  show ?case
  proof (cases "x = c")
    case True
    then show ?thesis using Cons none by auto
  qed (use Cons in simp)
qed simp

lemma set_after: "set (after c d) = {s. \<exists>p. d = p @ c # s}"
proof (induction d)
  case (Cons x d)
  have "(\<exists>p. x # d = p @ c # s) \<longleftrightarrow> (x = c \<and> s = d) \<or> (\<exists>p. d = p @ c # s)" for s
    by (metis append_Cons append_Nil list.inject neq_Nil_conv)
  then show ?case using Cons by auto
qed simp

lemma sorted_after: "sorted_wrt (\<lambda>a b. length b < length a) (after c d) \<and> (\<forall>s\<in>set (after c d). length s < length d)"
  by (induction d) auto

lemma wildcards_after: "wildcardCandidates domain = map (\<lambda>s. ''*.'' @ s) (butlast (after (CHR ''.'') domain))"
proof -
  let ?parts = "split_on (CHR ''.'') domain"
  have "butlast (after (CHR ''.'') domain) = map (\<lambda>i. join_with ''.'' (drop i ?parts)) [1..<length ?parts - 1]"
    unfolding joined_tails [symmetric] map_butlast [symmetric] butlast_from_to ..
  then show ?thesis by (auto simp: wildcardCandidates_def Let_def)
qed

section \<open>Specification\<close>

definition rec_fresh :: "(string \<rightharpoonup> dns_record) \<Rightarrow> gotime \<Rightarrow> string \<Rightarrow> bool" where
  "rec_fresh m now c \<longleftrightarrow> (case m c of None \<Rightarrow> False | Some r \<Rightarrow> \<not> rec_IsExpired r now)"

text \<open>The first valid record under the names, and the map without the expired ones before it.\<close>

definition spec_lookup :: "(string \<rightharpoonup> dns_record) \<Rightarrow> gotime \<Rightarrow> string list \<Rightarrow> dns_record option \<times> (string \<rightharpoonup> dns_record)" where
  "spec_lookup m now cs =
     (case dropWhile (\<lambda>c. \<not> rec_fresh m now c) cs of [] \<Rightarrow> None | c # _ \<Rightarrow> m c,
      m |` (- set (takeWhile (\<lambda>c. \<not> rec_fresh m now c) cs)))"

text \<open>The answer, whether it was cached, and the map afterwards.\<close>

definition spec_resolve :: "(string \<Rightarrow> dns_error + string) \<Rightarrow> string \<Rightarrow> gotime \<Rightarrow> (string \<rightharpoonup> dns_record)
    \<Rightarrow> (dns_error + string) \<times> bool \<times> (string \<rightharpoonup> dns_record)" where
  "spec_resolve upstream domain now m =
     (case spec_lookup m now (domain # wildcardCandidates domain) of
        (Some r, m') \<Rightarrow> (Inr (dr_IP r), True, m'(dr_Domain r \<mapsto> r\<lparr>dr_HitCount := wrap64 (dr_HitCount r + 1)\<rparr>))
      | (None, m') \<Rightarrow>
          (case upstream domain of
             Inl e \<Rightarrow> (Inl e, False, m')
           | Inr ip \<Rightarrow> (Inr ip, False, m'(domain \<mapsto> \<lparr>dr_Domain = domain, dr_IP = ip, dr_HitCount = 0, dr_TTL = 30 * 1000000000, dr_CreatedAt = now\<rparr>))))"

datatype dns_call = CallResolve string gotime | CallAdd string string duration gotime | CallCleanup gotime

datatype dns_out = OutResolve "dns_error + string" | OutAdd "dns_error option" | OutCleanup

fun dns_step :: "('s, dns_record) cache_ops \<Rightarrow> (string \<Rightarrow> dns_error + string) \<Rightarrow> dns_call \<Rightarrow> 's dns_resolver \<Rightarrow> (dns_out \<times> 's dns_resolver) option" where
  "dns_step ops upstream (CallResolve domain now) st = map_option (\<lambda>(r, st). (OutResolve r, st)) (Resolve ops upstream domain now st)"
| "dns_step ops upstream (CallAdd domain ip ttl now) st = map_option (\<lambda>(e, st). (OutAdd e, st)) (AddRecord ops domain ip ttl now st)"
| "dns_step ops upstream (CallCleanup now) st = Some (OutCleanup, cleanupExpired ops now st)"

fun dns_run :: "('s, dns_record) cache_ops \<Rightarrow> (string \<Rightarrow> dns_error + string) \<Rightarrow> dns_call list \<Rightarrow> 's dns_resolver \<Rightarrow> (dns_out list \<times> 's dns_resolver) option" where
  "dns_run ops upstream [] st = Some ([], st)"
| "dns_run ops upstream (c # cs) st =
     (case dns_step ops upstream c st of
        None \<Rightarrow> None
      | Some (out, st') \<Rightarrow> map_option (\<lambda>(outs, st''). (out # outs, st'')) (dns_run ops upstream cs st'))"

text \<open>The specification on a map with the numbers of hits and misses.\<close>

fun spec_step :: "(string \<Rightarrow> dns_error + string) \<Rightarrow> dns_call \<Rightarrow> (string \<rightharpoonup> dns_record) \<times> int \<times> int \<Rightarrow> dns_out \<times> (string \<rightharpoonup> dns_record) \<times> int \<times> int" where
  "spec_step upstream (CallResolve domain now) (m, hits, misses) =
     (case spec_resolve upstream domain now m of (r, hit, m') \<Rightarrow> (OutResolve r, m', if hit then hits + 1 else hits, if hit then misses else misses + 1))"
| "spec_step upstream (CallAdd domain ip ttl now) (m, hits, misses) =
     (if TrimSpace domain = '''' then (OutAdd (Some InvalidDomain), m, hits, misses)
      else if TrimSpace ip = '''' then (OutAdd (Some InvalidIP), m, hits, misses)
      else if ttl \<le> 0 then (OutAdd (Some InvalidTTL), m, hits, misses)
      else (OutAdd None, m(domain \<mapsto> \<lparr>dr_Domain = domain, dr_IP = ip, dr_HitCount = 0, dr_TTL = ttl, dr_CreatedAt = now\<rparr>), hits, misses))"
| "spec_step upstream (CallCleanup now) (m, hits, misses) = (OutCleanup, m |` {k. rec_fresh m now k}, hits, misses)"

fun spec_run :: "(string \<Rightarrow> dns_error + string) \<Rightarrow> dns_call list \<Rightarrow> (string \<rightharpoonup> dns_record) \<times> int \<times> int \<Rightarrow> dns_out list \<times> (string \<rightharpoonup> dns_record) \<times> int \<times> int" where
  "spec_run upstream [] m = ([], m)"
| "spec_run upstream (c # cs) m = (case spec_step upstream c m of (out, m') \<Rightarrow> (case spec_run upstream cs m' of (outs, m'') \<Rightarrow> (out # outs, m'')))"


section \<open>The resolver over a store\<close>

lemma rec_fresh_delete: "\<not> rec_fresh m now c \<Longrightarrow> rec_fresh (m(c := None)) now = rec_fresh m now"
  by (auto simp: rec_fresh_def fun_eq_iff)

lemma spec_lookup_Cons:
  "spec_lookup m now (c # cs) = (if rec_fresh m now c then (m c, m) else spec_lookup (m(c := None)) now cs)"
proof (cases "rec_fresh m now c")
  case False
  let ?P = "\<lambda>c. \<not> rec_fresh m now c"
  have keep: "m |` (- insert c (set (takeWhile ?P cs))) = (m(c := None)) |` (- set (takeWhile ?P cs))"
    by (auto simp: restrict_map_def fun_eq_iff)
  have found: "(case dropWhile ?P cs of [] \<Rightarrow> None | d # _ \<Rightarrow> m d) = (case dropWhile ?P cs of [] \<Rightarrow> None | d # _ \<Rightarrow> (m(c := None)) d)"
  proof (cases "dropWhile ?P cs")
    case (Cons d ds)
    then have "rec_fresh m now d" using hd_dropWhile [of ?P cs] by simp
    then have "d \<noteq> c" using False by blast
    then show ?thesis using Cons by simp
  qed (simp only: list.case)
  have "spec_lookup m now (c # cs) = (case dropWhile ?P cs of [] \<Rightarrow> None | d # _ \<Rightarrow> m d, m |` (- insert c (set (takeWhile ?P cs))))"
    using False by (simp add: spec_lookup_def)
  also have "\<dots> = spec_lookup (m(c := None)) now cs"
    unfolding spec_lookup_def rec_fresh_delete [OF False] keep found ..
  finally show ?thesis using False by simp
qed (simp add: spec_lookup_def restrict_map_def)

locale dns_store = cache_store ops valid contents
  for ops :: "('s, dns_record) cache_ops" and valid :: "'s \<Rightarrow> bool" and contents :: "'s \<Rightarrow> string \<rightharpoonup> dns_record"
begin

lemma lookup_step:
  "valid s \<Longrightarrow> lookupValidRecord ops c now s = (r, s') \<Longrightarrow>
     valid s' \<and> (if rec_fresh (contents s) now c then r = contents s c \<and> contents s' = contents s else r = None \<and> contents s' = (contents s)(c := None))"
  using delete [of s c] get [of s c]
  by (auto simp: lookupValidRecord_def rec_fresh_def fun_upd_idem split: option.splits if_splits)

lemma lookup_first_spec:
  "valid s \<Longrightarrow> lookup_first ops now cs s = (r, s') \<Longrightarrow> valid s' \<and> (r, contents s') = spec_lookup (contents s) now cs"
proof (induction cs arbitrary: s)
  case Nil
  then show ?case by (simp add: spec_lookup_def restrict_map_def)
next
  case (Cons c cs)
  obtain q t where q: "lookupValidRecord ops c now s = (q, t)" by (cases "lookupValidRecord ops c now s")
  note step = lookup_step [OF Cons.prems(1) q]
  show ?case
  proof (cases "rec_fresh (contents s) now c")
    case True
    then obtain rec where "contents s c = Some rec" by (auto simp: rec_fresh_def split: option.splits)
    then show ?thesis using True step q Cons.prems(2) by (simp add: spec_lookup_Cons)
  next
    case False
    then have "lookup_first ops now cs t = (r, s')" using step q Cons.prems(2) by simp
    then have "valid s' \<and> (r, contents s') = spec_lookup (contents t) now cs" using Cons.IH step by blast
    moreover have "spec_lookup (contents s) now (c # cs) = spec_lookup (contents t) now cs"
      using False step unfolding spec_lookup_Cons by presburger
    ultimately show ?thesis by presburger
  qed
qed

lemma lookups_card: "valid s \<Longrightarrow> (r, m) = spec_lookup (contents s) now cs \<Longrightarrow> card (dom m) \<le> card (dom (contents s))"
  using finite_contents [of s] by (auto simp: spec_lookup_def intro!: card_mono)

text \<open>The number of entries is at most the number of calls.\<close>

lemma Resolve_spec:
  assumes "valid (rs_Store st)" "card (dom (contents (rs_Store st))) < 2 ^ 50"
    and spec: "spec_resolve upstream domain now (contents (rs_Store st)) = (r, hit, m)"
  shows "\<exists>st'. Resolve ops upstream domain now st = Some (r, st') \<and> valid (rs_Store st') \<and> contents (rs_Store st') = m \<and>
    rs_hits st' = (if hit then wrap64 (rs_hits st + 1) else rs_hits st) \<and>
    rs_misses st' = (if hit then rs_misses st else wrap64 (rs_misses st + 1)) \<and>
    card (dom m) \<le> Suc (card (dom (contents (rs_Store st))))"
proof -
  let ?s = "rs_Store st"
  obtain q t where q: "lookup_first ops now (domain # wildcardCandidates domain) ?s = (q, t)"
    by (cases "lookup_first ops now (domain # wildcardCandidates domain) ?s")
  from lookup_first_spec [OF assms(1) q] have t: "valid t" "(q, contents t) = spec_lookup (contents ?s) now (domain # wildcardCandidates domain)"
    by blast+
  note few = lookups_card [OF assms(1) t(2)]
  have look: "(let (rec, s) = lookupValidRecord ops domain now ?s in
      case rec of Some r \<Rightarrow> (Some r, s) | None \<Rightarrow> lookup_first ops now (wildcardCandidates domain) s) = (q, t)"
    using q by (auto simp: Let_def split: option.split prod.splits)
  have set: "\<exists>s'. co_Set ops t k v = Some s' \<and> valid s' \<and> contents s' = (contents t)(k \<mapsto> v) \<and> card (dom (contents s')) \<le> Suc (card (dom (contents ?s)))" for k v
  proof -
    have "card (dom (contents t)) < 2 ^ 50" using few assms(2) by linarith
    from set [OF t(1) this] obtain s' where s': "co_Set ops t k v = Some s'" "valid s'" "contents s' = (contents t)(k \<mapsto> v)" by blast
    with set_card [OF t(1) s'(3)] few show ?thesis by auto
  qed
  show ?thesis
  proof (cases q)
    case (Some rec)
    let ?r = "rec\<lparr>dr_HitCount := wrap64 (dr_HitCount rec + 1)\<rparr>"
    obtain s' where s': "co_Set ops t (dr_Domain rec) ?r = Some s'" "valid s'" "contents s' = (contents t)(dr_Domain rec \<mapsto> ?r)"
      "card (dom (contents s')) \<le> Suc (card (dom (contents ?s)))" using set by blast
    have "r = Inr (dr_IP rec)" "hit" "m = contents s'"
      using spec s'(3) Some unfolding spec_resolve_def t(2) [symmetric] by auto
    then show ?thesis using s' look Some by (auto simp: Resolve_def Let_def split: prod.splits)
  next
    case None
    show ?thesis
    proof (cases "upstream domain")
      case (Inl e)
      have "r = Inl e" "\<not> hit" "m = contents t" using spec None Inl unfolding spec_resolve_def t(2) [symmetric] by auto
      then show ?thesis using t(1) few look None Inl by (auto simp: Resolve_def Let_def split: prod.splits)
    next
      case (Inr ip)
      let ?r = "\<lparr>dr_Domain = domain, dr_IP = ip, dr_HitCount = 0, dr_TTL = 30 * 1000000000, dr_CreatedAt = now\<rparr>"
      obtain s' where s': "co_Set ops t domain ?r = Some s'" "valid s'" "contents s' = (contents t)(domain \<mapsto> ?r)"
        "card (dom (contents s')) \<le> Suc (card (dom (contents ?s)))" using set by blast
      have "r = Inr ip" "\<not> hit" "m = contents s'"
        using spec None Inr s'(3) unfolding spec_resolve_def t(2) [symmetric] by auto
      then show ?thesis using s' look None Inr by (auto simp: Resolve_def Let_def split: prod.splits)
    qed
  qed
qed

lemma cleanup_fold:
  "valid s \<Longrightarrow> valid (fold (cleanup_key ops now) ks s) \<and>
     contents (fold (cleanup_key ops now) ks s) = contents s |` {k. k \<in> set ks \<longrightarrow> rec_fresh (contents s) now k}"
proof (induction ks arbitrary: s)
  case Nil
  then show ?case by (simp add: restrict_map_def)
next
  case (Cons k ks)
  let ?s = "cleanup_key ops now k s"
  have step: "valid ?s" "contents ?s = (if rec_fresh (contents s) now k then contents s else (contents s)(k := None))"
    using Cons.prems delete [of s k] get [of s k]
    by (auto simp: cleanup_key_def rec_fresh_def fun_upd_idem split: option.split)
  have "rec_fresh (contents ?s) now = rec_fresh (contents s) now" using step(2) by (simp add: rec_fresh_delete)
  then have "contents ?s |` {j. j \<in> set ks \<longrightarrow> rec_fresh (contents ?s) now j} = contents ?s |` {j. j \<in> set ks \<longrightarrow> rec_fresh (contents s) now j}"
    by (rule ssubst) simp
  also have "\<dots> = contents s |` {j. j \<in> set (k # ks) \<longrightarrow> rec_fresh (contents s) now j}"
    unfolding step(2) by (auto simp: restrict_map_def fun_eq_iff)
  finally show ?case using Cons.IH [OF step(1)] by simp
qed

lemma cleanup_spec:
  assumes "valid (rs_Store st)"
  shows "valid (rs_Store (cleanupExpired ops now st))"
    "contents (rs_Store (cleanupExpired ops now st)) = contents (rs_Store st) |` {k. rec_fresh (contents (rs_Store st)) now k}"
proof -
  let ?s = "rs_Store st"
  have "set (co_Keys ops ?s) = dom (contents ?s)" using keys [OF assms] by (simp add: iterates_def)
  then have "contents ?s |` {k. k \<in> set (co_Keys ops ?s) \<longrightarrow> rec_fresh (contents ?s) now k} = contents ?s |` {k. rec_fresh (contents ?s) now k}"
    by (auto simp: restrict_map_def fun_eq_iff)
  then show "valid (rs_Store (cleanupExpired ops now st))"
    "contents (rs_Store (cleanupExpired ops now st)) = contents ?s |` {k. rec_fresh (contents ?s) now k}"
    using cleanup_fold [OF assms, of now "co_Keys ops ?s"] by (simp_all add: cleanupExpired_def)
qed

text \<open>The state of the resolver stands for a state of the specification; the counters do not wrap around.\<close>

definition stands_for :: "'s dns_resolver \<Rightarrow> (string \<rightharpoonup> dns_record) \<times> int \<times> int \<Rightarrow> nat \<Rightarrow> bool" where
  "stands_for st m n \<longleftrightarrow>
     valid (rs_Store st) \<and> m = (contents (rs_Store st), rs_hits st, rs_misses st) \<and>
     card (dom (contents (rs_Store st))) \<le> n \<and> 0 \<le> rs_hits st \<and> 0 \<le> rs_misses st \<and> rs_hits st + rs_misses st \<le> int n"

lemma step_spec:
  assumes "stands_for st m n" "n < 2 ^ 50" "spec_step upstream c m = (out, m')"
  shows "\<exists>st'. dns_step ops upstream c st = Some (out, st') \<and> stands_for st' m' (Suc n)"
proof -
  let ?s = "rs_Store st"
  have v: "valid ?s" "m = (contents ?s, rs_hits st, rs_misses st)" "card (dom (contents ?s)) \<le> n" "0 \<le> rs_hits st" "0 \<le> rs_misses st"
    "rs_hits st + rs_misses st \<le> int n" using assms(1) by (auto simp: stands_for_def)
  have few: "card (dom (contents ?s)) < 2 ^ 50" using v(3) assms(2) by simp
  have bound: "int n + 1 < 2 ^ 63" using assms(2) by simp
  have small: "wrap64 (rs_hits st + 1) = rs_hits st + 1" "wrap64 (rs_misses st + 1) = rs_misses st + 1"
    using v(4,5,6) bound by (intro wrap64_id; simp add: in_int64_def)+
  show ?thesis
  proof (cases c)
    case (CallResolve domain now)
    obtain r hit m1 where spec: "spec_resolve upstream domain now (contents ?s) = (r, hit, m1)"
      by (cases "spec_resolve upstream domain now (contents ?s)")
    from Resolve_spec [OF v(1) few spec] obtain st' where
      "Resolve ops upstream domain now st = Some (r, st')" "valid (rs_Store st')" "contents (rs_Store st') = m1"
      "rs_hits st' = (if hit then rs_hits st + 1 else rs_hits st)" "rs_misses st' = (if hit then rs_misses st else rs_misses st + 1)"
      "card (dom m1) \<le> Suc (card (dom (contents ?s)))" unfolding small by blast
    then show ?thesis using assms(3) spec v CallResolve by (auto simp: stands_for_def)
  next
    case (CallAdd domain ip ttl now)
    let ?r = "\<lparr>dr_Domain = domain, dr_IP = ip, dr_HitCount = 0, dr_TTL = ttl, dr_CreatedAt = now\<rparr>"
    obtain s' where s': "co_Set ops ?s domain ?r = Some s'" "valid s'" "contents s' = (contents ?s)(domain \<mapsto> ?r)"
      using set [OF v(1) few] by blast
    then have "card (dom (contents s')) \<le> Suc n" using set_card [OF v(1) s'(3)] v(3) by linarith
    then show ?thesis using assms(3) v s' CallAdd by (auto simp: AddRecord_def stands_for_def split: if_splits)
  next
    case (CallCleanup now)
    have "card (dom (contents ?s |` {k. rec_fresh (contents ?s) now k})) \<le> n"
      using v(3) finite_contents [OF v(1)] by (auto intro: order_trans [OF card_mono])
    then show ?thesis using assms(3) v CallCleanup cleanup_spec [OF v(1), of now]
      by (auto simp: stands_for_def) (simp_all add: cleanupExpired_def)
  qed
qed

lemma run_spec:
  "stands_for st m n \<Longrightarrow> n + length cs \<le> 2 ^ 50 \<Longrightarrow> spec_run upstream cs m = (outs, m') \<Longrightarrow>
     \<exists>st'. dns_run ops upstream cs st = Some (outs, st') \<and> stands_for st' m' (n + length cs)"
proof (induction cs arbitrary: st m n outs m')
  case (Cons c cs)
  obtain out m1 where one: "spec_step upstream c m = (out, m1)" by (cases "spec_step upstream c m")
  obtain os m2 where rest: "spec_run upstream cs m1 = (os, m2)" by (cases "spec_run upstream cs m1")
  have n: "n < 2 ^ 50" "Suc n + length cs \<le> 2 ^ 50" using Cons.prems(2) by simp_all
  from step_spec [OF Cons.prems(1) n(1) one] obtain st1 where st1: "dns_step ops upstream c st = Some (out, st1)" "stands_for st1 m1 (Suc n)"
    by blast
  from Cons.IH [OF st1(2) n(2) rest] obtain st2 where "dns_run ops upstream cs st1 = Some (os, st2)" "stands_for st2 m2 (Suc n + length cs)"
    by blast
  then show ?case using st1(1) one rest Cons.prems(3) by auto
qed simp

text \<open>From an empty store.\<close>

lemma new_run:
  assumes "valid s" "contents s = Map.empty" "length cs \<le> 2 ^ 50" "spec_run upstream cs (Map.empty, 0, 0) = (outs, m, hits, misses)"
  shows "\<exists>st. dns_run ops upstream cs (NewResolver s) = Some (outs, st) \<and>
    contents (rs_Store st) = m \<and> rs_hits st = hits \<and> rs_misses st = misses \<and> co_Len ops (rs_Store st) = int (card (dom m))"
proof -
  have "stands_for (NewResolver s) (Map.empty, 0, 0) 0" using assms(1,2) by (simp add: stands_for_def NewResolver_def)
  from run_spec [OF this _ assms(4)] assms(3) show ?thesis using len by (auto simp: stands_for_def)
qed

end

text \<open>The two stores.\<close>

interpretation custom_dns: dns_store custom_ops cm_valid cm_contents
  by unfold_locales

locale dns_order = map_order keys_of for keys_of :: "dns_record inbuilt_map \<Rightarrow> string list"

sublocale dns_order \<subseteq> dns_store "inbuilt_ops keys_of" "\<lambda>_. True" fmlookup
  by unfold_locales

context dns_order
begin

lemma inbuilt_run:
  assumes "length cs \<le> 2 ^ 50" "spec_run upstream cs (Map.empty, 0, 0) = (outs, m, hits, misses)"
  shows "\<exists>st. dns_run (inbuilt_ops keys_of) upstream cs (NewResolver fmempty) = Some (outs, st) \<and>
    fmlookup (rs_Store st) = m \<and> rs_hits st = hits \<and> rs_misses st = misses \<and> co_Len (inbuilt_ops keys_of) (rs_Store st) = int (card (dom m))"
  by (rule new_run [OF TrueI _ assms]) (simp add: fun_eq_iff)

end

text \<open>One order of the keys, that of the strings.\<close>

definition keys_in_order :: "dns_record inbuilt_map \<Rightarrow> string list" where
  "keys_in_order m = sorted_list_of_set (fset (fmdom m))"

interpretation sorted_dns: dns_order keys_in_order
  by unfold_locales (simp add: iterates_def keys_in_order_def fmdom.rep_eq)

section \<open>Properties\<close>

text \<open>
  C15. Whatever the calls, the resolver answers as its specification on a map of records says, over
  the hash map and, for every order in which the keys are listed, over the built-in map: a valid
  record of the domain or else of the most specific wildcard is a hit, anything else asks the
  upstream and caches its answer, and a cleanup removes exactly the expired records.
\<close>

theorem resolver_correct:
  assumes "length cs \<le> 2 ^ 50" "dns_order keys_of" "spec_run upstream cs (Map.empty, 0, 0) = (outs, m, hits, misses)"
  shows "\<exists>st st'. dns_run custom_ops upstream cs (NewResolver NewCustomMapStore) = Some (outs, st) \<and>
    dns_run (inbuilt_ops keys_of) upstream cs (NewResolver fmempty) = Some (outs, st') \<and>
    cm_contents (rs_Store st) = m \<and> fmlookup (rs_Store st') = m \<and>
    rs_hits st = hits \<and> rs_misses st = misses \<and> rs_hits st' = hits \<and> rs_misses st' = misses \<and>
    co_Len custom_ops (rs_Store st) = int (card (dom m))"
proof -
  have new: "cm_valid NewCustomMapStore" "cm_contents (NewCustomMapStore :: dns_record custom_map) = Map.empty" by (simp_all add: New_valid)
  show ?thesis
    using custom_dns.new_run [OF new assms(1,3)] dns_order.inbuilt_run [OF assms(2,1,3)] by blast
qed

theorem resolver_correct_witness:
  "\<exists>st st'. dns_run custom_ops DummyUpstream [CallAdd ''*.b.c'' ''9'' 5 0, CallResolve ''a.b.c'' 4, CallResolve ''a.b.c'' 5] (NewResolver NewCustomMapStore)
      = Some ([OutAdd None, OutResolve (Inr ''9''), OutResolve (DummyUpstream ''a.b.c'')], st) \<and>
    dns_run (inbuilt_ops keys_in_order) DummyUpstream [CallAdd ''*.b.c'' ''9'' 5 0, CallResolve ''a.b.c'' 4, CallResolve ''a.b.c'' 5] (NewResolver fmempty)
      = Some ([OutAdd None, OutResolve (Inr ''9''), OutResolve (DummyUpstream ''a.b.c'')], st') \<and> rs_hits st = 1 \<and> rs_misses st' = 1"
proof -
  let ?cs = "[CallAdd ''*.b.c'' ''9'' 5 0, CallResolve ''a.b.c'' 4, CallResolve ''a.b.c'' 5]"
  let ?outs = "[OutAdd None, OutResolve (Inr ''9''), OutResolve (DummyUpstream ''a.b.c'')]"
  have w: "wildcardCandidates ''a.b.c'' = [''*.b.c'']" by (simp add: wildcardCandidates_def upt_conv_Cons)
  have t: "TrimSpace ''*.b.c'' \<noteq> ''''" "TrimSpace ''9'' \<noteq> ''''" by code_simp+
  have "\<exists>m. spec_run DummyUpstream ?cs (Map.empty, 0, 0) = (?outs, m, 1, 1)"
  proof -
    obtain ip where "DummyUpstream ''a.b.c'' = Inr ip" by (simp add: DummyUpstream_def)
    then show ?thesis
      using t by (simp add: spec_resolve_def w spec_lookup_Cons rec_fresh_def rec_IsExpired_def time_Sub_def) (simp add: spec_lookup_def)
  qed
  then obtain m where m: "spec_run DummyUpstream ?cs (Map.empty, 0, 0) = (?outs, m, 1, 1)" by blast
  have "dns_order keys_in_order" by (rule sorted_dns.dns_order_axioms)
  from resolver_correct [OF _ this m] show ?thesis by auto
qed


text \<open>
  The wildcards of a domain are \<open>*.\<close> with each of its parent domains that has at least two
  labels, the most specific first.
\<close>

theorem wildcards_correct:
  "set (wildcardCandidates domain) = {''*.'' @ s | p s. domain = p @ ''.'' @ s \<and> CHR ''.'' \<in> set s} \<and>
    sorted_wrt (\<lambda>a b. length b < length a) (wildcardCandidates domain)"
proof -
  have w: "wildcardCandidates domain = map (\<lambda>s. ''*.'' @ s) (filter (\<lambda>s. CHR ''.'' \<in> set s) (after (CHR ''.'') domain))"
    unfolding wildcards_after after_filter ..
  have "sorted_wrt (\<lambda>a b. length b < length a) (filter (\<lambda>s. CHR ''.'' \<in> set s) (after (CHR ''.'') domain))"
    using sorted_after by (intro sorted_wrt_filter) blast
  then have "sorted_wrt (\<lambda>a b. length b < length a) (wildcardCandidates domain)" unfolding w by (simp add: sorted_wrt_map)
  moreover have "set (wildcardCandidates domain) = {''*.'' @ s | p s. domain = p @ ''.'' @ s \<and> CHR ''.'' \<in> set s}"
    unfolding w set_map set_filter set_after by auto
  ultimately show ?thesis by blast
qed

end
