(* ===== verification/Text_Editor.thy ===== *)
theory Text_Editor
  imports Go_Strconv
begin

text \<open>
  The text editor (\<open>03-day/project\<close>): the operations on a document and their reversals
  (\<open>internal/editor/operations.go\<close>), the history as a doubly linked list
  (\<open>internal/container/doubly_linked_list.go\<close>), the editor (\<open>internal/editor/editor.go\<close>) and its
  commands (\<open>internal/cli/app.go\<close>).

  A text is its bytes.  An outer \<open>None\<close> is a panic or a walk that does not end.  What is printed is
  left out.
\<close>

section \<open>Documents and operations\<close>

record text_format =
  tf_Position :: int
  tf_Length :: int
  tf_Bold :: bool
  tf_Italic :: bool

record document =
  doc_Text :: string
  doc_Formats :: "text_format list"

datatype edit_op =
    InsertOperation int string
  | DeleteOperation int int string
  | ReplaceOperation int string string
  | FormatOperation int int bool bool

datatype edit_error =
    InvalidInsertPosition int
  | InvalidDeletePosition int
  | InvalidDeleteLength int
  | DeleteOutOfBounds int int
  | InvalidReplacePosition int
  | EmptyOldText
  | ReplaceOutOfBounds int int
  | ReplaceMismatch int
  | ReverseOutOfBounds int int
  | ReverseMismatch int
  | InvalidFormatPosition int
  | InvalidFormatLength int
  | FormatOutOfBounds int int
  | NothingToUndo
  | NothingToRedo
  | UsageError string
  | NumberError string
  | UnknownCommand

text \<open>\<open>s[a:b]\<close>; \<open>None\<close> is the panic.\<close>

definition str_slice :: "string \<Rightarrow> int \<Rightarrow> int \<Rightarrow> string option" where
  "str_slice s a b = (if 0 \<le> a \<and> a \<le> b \<and> b \<le> int (length s) then Some (take (nat (b - a)) (drop (nat a) s)) else None)"

text \<open>\<open>s[:a] + new + s[b:]\<close>.\<close>

definition str_splice :: "string \<Rightarrow> int \<Rightarrow> string \<Rightarrow> int \<Rightarrow> string option" where
  "str_splice s a new b =
     (case (str_slice s 0 a, str_slice s b (int (length s))) of
        (Some x, Some y) \<Rightarrow> Some (x @ new @ y)
      | _ \<Rightarrow> None)"

definition apply_insert :: "int \<Rightarrow> string \<Rightarrow> document \<Rightarrow> (edit_error + document) option" where
  "apply_insert p s doc =
     (if p < 0 \<or> int (length (doc_Text doc)) < p then Some (Inl (InvalidInsertPosition p))
      else map_option (\<lambda>t. Inr (doc\<lparr>doc_Text := t\<rparr>)) (str_splice (doc_Text doc) p s p))"

definition reverse_insert :: "int \<Rightarrow> string \<Rightarrow> document \<Rightarrow> (edit_error + document) option" where
  "reverse_insert p s doc =
     (let stop = wrap64 (p + int (length s))
      in if p < 0 \<or> int (length (doc_Text doc)) < stop then Some (Inl (InvalidInsertPosition p))
         else map_option (\<lambda>t. Inr (doc\<lparr>doc_Text := t\<rparr>)) (str_splice (doc_Text doc) p [] stop))"

text \<open>Deletion also gives the deleted text, which the operation keeps.\<close>

definition apply_delete :: "int \<Rightarrow> int \<Rightarrow> document \<Rightarrow> (edit_error + string \<times> document) option" where
  "apply_delete p n doc =
     (if p < 0 \<or> int (length (doc_Text doc)) < p then Some (Inl (InvalidDeletePosition p))
      else if n \<le> 0 then Some (Inl (InvalidDeleteLength n))
      else (let stop = wrap64 (p + n)
            in if int (length (doc_Text doc)) < stop then Some (Inl (DeleteOutOfBounds p n))
               else (case str_slice (doc_Text doc) p stop of
                       None \<Rightarrow> None
                     | Some deleted \<Rightarrow> map_option (\<lambda>t. Inr (deleted, doc\<lparr>doc_Text := t\<rparr>)) (str_splice (doc_Text doc) p [] stop))))"

definition reverse_delete :: "int \<Rightarrow> string \<Rightarrow> document \<Rightarrow> (edit_error + document) option" where
  "reverse_delete p deleted doc =
     (if p < 0 \<or> int (length (doc_Text doc)) < p then Some (Inl (InvalidDeletePosition p))
      else map_option (\<lambda>t. Inr (doc\<lparr>doc_Text := t\<rparr>)) (str_splice (doc_Text doc) p deleted p))"

definition apply_replace :: "int \<Rightarrow> string \<Rightarrow> string \<Rightarrow> document \<Rightarrow> (edit_error + document) option" where
  "apply_replace p old new doc =
     (if p < 0 \<or> int (length (doc_Text doc)) < p then Some (Inl (InvalidReplacePosition p))
      else if old = '''' then Some (Inl EmptyOldText)
      else (let stop = wrap64 (p + int (length old))
            in if int (length (doc_Text doc)) < stop then Some (Inl (ReplaceOutOfBounds p (int (length old))))
               else (case str_slice (doc_Text doc) p stop of
                       None \<Rightarrow> None
                     | Some found \<Rightarrow>
                         if found \<noteq> old then Some (Inl (ReplaceMismatch p))
                         else map_option (\<lambda>t. Inr (doc\<lparr>doc_Text := t\<rparr>)) (str_splice (doc_Text doc) p new stop))))"

definition reverse_replace :: "int \<Rightarrow> string \<Rightarrow> string \<Rightarrow> document \<Rightarrow> (edit_error + document) option" where
  "reverse_replace p old new doc =
     (if p < 0 \<or> int (length (doc_Text doc)) < p then Some (Inl (InvalidReplacePosition p))
      else (let stop = wrap64 (p + int (length new))
            in if int (length (doc_Text doc)) < stop then Some (Inl (ReverseOutOfBounds p (int (length new))))
               else (case str_slice (doc_Text doc) p stop of
                       None \<Rightarrow> None
                     | Some found \<Rightarrow>
                         if found \<noteq> new then Some (Inl (ReverseMismatch p))
                         else map_option (\<lambda>t. Inr (doc\<lparr>doc_Text := t\<rparr>)) (str_splice (doc_Text doc) p old stop))))"

definition apply_format :: "int \<Rightarrow> int \<Rightarrow> bool \<Rightarrow> bool \<Rightarrow> document \<Rightarrow> edit_error + document" where
  "apply_format p n bold italic doc =
     (if p < 0 \<or> int (length (doc_Text doc)) < p then Inl (InvalidFormatPosition p)
      else if n \<le> 0 then Inl (InvalidFormatLength n)
      else (let stop = wrap64 (p + n)
            in if int (length (doc_Text doc)) < stop then Inl (FormatOutOfBounds p n)
               else Inr (doc\<lparr>doc_Formats := doc_Formats doc @ [\<lparr>tf_Position = p, tf_Length = n, tf_Bold = bold, tf_Italic = italic\<rparr>]\<rparr>)))"

text \<open>The last index below \<open>i\<close> with the property.\<close>

primrec last_index :: "('a \<Rightarrow> bool) \<Rightarrow> 'a list \<Rightarrow> nat \<Rightarrow> nat option" where
  "last_index P xs 0 = None"
| "last_index P xs (Suc i) = (if P (xs ! i) then Some i else last_index P xs i)"

definition reverse_format :: "int \<Rightarrow> int \<Rightarrow> bool \<Rightarrow> bool \<Rightarrow> document \<Rightarrow> document" where
  "reverse_format p n bold italic doc =
     (case last_index (\<lambda>f. tf_Position f = p \<and> tf_Length f = n \<and> tf_Bold f = bold \<and> tf_Italic f = italic)
             (doc_Formats doc) (length (doc_Formats doc)) of
        None \<Rightarrow> doc
      | Some i \<Rightarrow> doc\<lparr>doc_Formats := take i (doc_Formats doc) @ drop (i + 1) (doc_Formats doc)\<rparr>)"

text \<open>The call through the interface; an operation may change when it is applied.\<close>

fun op_Apply :: "edit_op \<Rightarrow> document \<Rightarrow> (edit_error + edit_op \<times> document) option" where
  "op_Apply (InsertOperation p s) doc = map_option (map_sum id (\<lambda>d. (InsertOperation p s, d))) (apply_insert p s doc)"
| "op_Apply (DeleteOperation p n deleted) doc = map_option (map_sum id (\<lambda>(del, d). (DeleteOperation p n del, d))) (apply_delete p n doc)"
| "op_Apply (ReplaceOperation p old new) doc = map_option (map_sum id (\<lambda>d. (ReplaceOperation p old new, d))) (apply_replace p old new doc)"
| "op_Apply (FormatOperation p n b i) doc = Some (map_sum id (\<lambda>d. (FormatOperation p n b i, d)) (apply_format p n b i doc))"

fun op_Reverse :: "edit_op \<Rightarrow> document \<Rightarrow> (edit_error + document) option" where
  "op_Reverse (InsertOperation p s) doc = reverse_insert p s doc"
| "op_Reverse (DeleteOperation p n deleted) doc = reverse_delete p deleted doc"
| "op_Reverse (ReplaceOperation p old new) doc = reverse_replace p old new doc"
| "op_Reverse (FormatOperation p n b i) doc = Some (Inr (reverse_format p n b i doc))"

section \<open>History\<close>

record op_node =
  on_Data :: edit_op
  on_Prev :: "nat option"
  on_Next :: "nat option"

text \<open>A node is an address; \<open>ol_fresh\<close> is the next one.\<close>

record op_list =
  ol_nodes :: "nat \<rightharpoonup> op_node"
  ol_fresh :: nat
  ol_Head :: "nat option"
  ol_Tail :: "nat option"
  ol_Size :: int

definition ol_Append :: "edit_op \<Rightarrow> op_list \<Rightarrow> nat \<times> op_list" where
  "ol_Append data l =
     (let a = ol_fresh l
      in case ol_Tail l of
           None \<Rightarrow>
             (a, l\<lparr>ol_nodes := (ol_nodes l)(a \<mapsto> \<lparr>on_Data = data, on_Prev = None, on_Next = None\<rparr>), ol_fresh := a + 1,
                  ol_Head := Some a, ol_Tail := Some a, ol_Size := ol_Size l + 1\<rparr>)
         | Some t \<Rightarrow>
             (a, l\<lparr>ol_nodes := ((ol_nodes l)(t := map_option (\<lambda>n. n\<lparr>on_Next := Some a\<rparr>) (ol_nodes l t)))
                       (a \<mapsto> \<lparr>on_Data = data, on_Prev = Some t, on_Next = None\<rparr>), ol_fresh := a + 1,
                  ol_Tail := Some a, ol_Size := ol_Size l + 1\<rparr>))"

definition ol_Clear :: "op_list \<Rightarrow> op_list" where
  "ol_Clear l = l\<lparr>ol_Head := None, ol_Tail := None, ol_Size := 0\<rparr>"

partial_function (option) count_after :: "(nat \<rightharpoonup> op_node) \<Rightarrow> nat option \<Rightarrow> int \<Rightarrow> int option" where
  [code]: "count_after m tmp k =
     (case tmp of
        None \<Rightarrow> Some k
      | Some a \<Rightarrow> (case m a of None \<Rightarrow> None | Some n \<Rightarrow> count_after m (on_Next n) (k + 1)))"

definition ol_RemoveAfter :: "nat option \<Rightarrow> op_list \<Rightarrow> op_list option" where
  "ol_RemoveAfter node l =
     (case node of
        None \<Rightarrow> Some (ol_Clear l)
      | Some a \<Rightarrow>
          (case ol_nodes l a of
             None \<Rightarrow> None
           | Some n \<Rightarrow>
               (case count_after (ol_nodes l) (on_Next n) 0 of
                  None \<Rightarrow> None
                | Some delNodeCount \<Rightarrow>
                    Some (l\<lparr>ol_nodes := (ol_nodes l)(a \<mapsto> n\<lparr>on_Next := None\<rparr>), ol_Tail := Some a, ol_Size := ol_Size l - delNodeCount\<rparr>))))"

section \<open>Editor\<close>

record editor =
  ed_Doc :: document
  ed_History :: op_list
  ed_Current :: "nat option"

definition NewEditor :: editor where
  "NewEditor = \<lparr>ed_Doc = \<lparr>doc_Text = [], doc_Formats = []\<rparr>,
     ed_History = \<lparr>ol_nodes = Map.empty, ol_fresh = 0, ol_Head = None, ol_Tail = None, ol_Size = 0\<rparr>, ed_Current = None\<rparr>"

text \<open>The error of a call, if any, and the editor.\<close>

definition ApplyOperation :: "edit_op \<Rightarrow> editor \<Rightarrow> (edit_error option \<times> editor) option" where
  "ApplyOperation op e =
     (case op_Apply op (ed_Doc e) of
        None \<Rightarrow> None
      | Some (Inl err) \<Rightarrow> Some (Some err, e)
      | Some (Inr (op, doc)) \<Rightarrow>
          (case (if ed_Current e \<noteq> ol_Tail (ed_History e) then ol_RemoveAfter (ed_Current e) (ed_History e) else Some (ed_History e)) of
             None \<Rightarrow> None
           | Some h \<Rightarrow> (let (a, h) = ol_Append op h in Some (None, \<lparr>ed_Doc = doc, ed_History = h, ed_Current = Some a\<rparr>))))"

definition Undo :: "editor \<Rightarrow> (edit_error option \<times> editor) option" where
  "Undo e =
     (case ed_Current e of
        None \<Rightarrow> Some (Some NothingToUndo, e)
      | Some a \<Rightarrow>
          (case ol_nodes (ed_History e) a of
             None \<Rightarrow> None
           | Some n \<Rightarrow>
               (case op_Reverse (on_Data n) (ed_Doc e) of
                  None \<Rightarrow> None
                | Some (Inl err) \<Rightarrow> Some (Some err, e)
                | Some (Inr doc) \<Rightarrow> Some (None, e\<lparr>ed_Doc := doc, ed_Current := on_Prev n\<rparr>))))"

definition Redo :: "editor \<Rightarrow> (edit_error option \<times> editor) option" where
  "Redo e =
     (case (case ed_Current e of
              None \<Rightarrow> Some (ol_Head (ed_History e))
            | Some a \<Rightarrow> map_option on_Next (ol_nodes (ed_History e) a)) of
        None \<Rightarrow> None
      | Some None \<Rightarrow> Some (Some NothingToRedo, e)
      | Some (Some a) \<Rightarrow>
          (case ol_nodes (ed_History e) a of
             None \<Rightarrow> None
           | Some n \<Rightarrow>
               (case op_Apply (on_Data n) (ed_Doc e) of
                  None \<Rightarrow> None
                | Some (Inl err) \<Rightarrow> Some (Some err, e)
                | Some (Inr (op, doc)) \<Rightarrow>
                    Some (None, e\<lparr>ed_Doc := doc, ed_Current := Some a,
                      ed_History := (ed_History e)\<lparr>ol_nodes := (ol_nodes (ed_History e))(a \<mapsto> n\<lparr>on_Data := op\<rparr>)\<rparr>\<rparr>))))"

section \<open>Commands\<close>

text \<open>\<open>strings.Fields\<close>.\<close>

definition push_word :: "string \<Rightarrow> string list \<Rightarrow> string list" where
  "push_word w ws = (if w = [] then ws else w # ws)"

function fields_from :: "string \<Rightarrow> string \<Rightarrow> string list" where
  "fields_from w [] = push_word w []"
| "fields_from w (c # cs) =
     (case drop_space space_runes (c # cs) of
        Some rest \<Rightarrow> push_word w (fields_from [] rest)
      | None \<Rightarrow> fields_from (w @ [c]) cs)"
  by pat_completeness auto
termination
  by (relation "measure (\<lambda>(_, s). length s)") (auto dest: drop_space_length)

definition str_Fields :: "string \<Rightarrow> string list" where
  "str_Fields s = fields_from [] s"

text \<open>The parts before and after the first space.\<close>

fun cut_space :: "string \<Rightarrow> (string \<times> string) option" where
  "cut_space [] = None"
| "cut_space (c # cs) = (if c = CHR '' '' then Some ([], cs) else map_option (\<lambda>(a, b). (c # a, b)) (cut_space cs))"

text \<open>\<open>strings.SplitN(line, " ", 3)\<close>.\<close>

definition split_3 :: "string \<Rightarrow> string list" where
  "split_3 s =
     (case cut_space s of
        None \<Rightarrow> [s]
      | Some (a, rest) \<Rightarrow> (case cut_space rest of None \<Rightarrow> [a, rest] | Some (b, c) \<Rightarrow> [a, b, c]))"

definition ParseBool :: "string \<Rightarrow> bool option" where
  "ParseBool s =
     (if s \<in> set [''1'', ''t'', ''T'', ''TRUE'', ''true'', ''True''] then Some True
      else if s \<in> set [''0'', ''f'', ''F'', ''FALSE'', ''false'', ''False''] then Some False
      else None)"

definition parseInt :: "string \<Rightarrow> edit_error + int" where
  "parseInt s = (case Atoi s of None \<Rightarrow> Inl (NumberError s) | Some n \<Rightarrow> Inr n)"

text \<open>Without the quotes around it, if there are any.\<close>

definition unquote :: "string \<Rightarrow> string" where
  "unquote s = (if 2 \<le> length s \<and> hd s = CHR 0x22 \<and> last s = CHR 0x22 then take (length s - 2) (drop 1 s) else s)"

definition parseInsertText :: "string \<Rightarrow> edit_error + string" where
  "parseInsertText line =
     (let parts = split_3 line
      in if length parts < 3 then Inl (UsageError ''insert'') else Inr (unquote (TrimSpace (parts ! 2))))"

definition extractQuoted :: "string \<Rightarrow> (string \<times> string) option" where
  "extractQuoted v =
     (if length v < 2 \<or> hd v \<noteq> CHR 0x22 then None
      else (let w = takeWhile (\<lambda>c. c \<noteq> CHR 0x22) (tl v)
            in if length w = length (tl v) then None else Some (w, drop (length w + 1) (tl v))))"

fun join_spaces :: "string list \<Rightarrow> string" where
  "join_spaces [] = []"
| "join_spaces [w] = w"
| "join_spaces (v # w # ws) = v @ '' '' @ join_spaces (w # ws)"

definition parseReplaceInput :: "string \<Rightarrow> edit_error + int \<times> string \<times> string" where
  "parseReplaceInput line =
     (let parts = split_3 line
      in if length parts < 3 then Inl (UsageError ''replace'')
         else (case parseInt (parts ! 1) of
                 Inl e \<Rightarrow> Inl e
               | Inr p \<Rightarrow>
                   (let args = TrimSpace (parts ! 2)
                    in if args = [] then Inl (UsageError ''replace'')
                       else if hd args = CHR 0x22 then
                         (case extractQuoted args of
                            None \<Rightarrow> Inl (UsageError ''replace'')
                          | Some (oldText, rest) \<Rightarrow>
                              (let newText = unquote (TrimSpace rest)
                               in if newText = [] then Inl (UsageError ''replace'') else Inr (p, oldText, newText)))
                       else (let parsed = str_Fields args
                             in if length parsed < 2 then Inl (UsageError ''replace'')
                                else Inr (p, parsed ! 0, join_spaces (drop 1 parsed))))))"

definition handleInsert :: "editor \<Rightarrow> string \<Rightarrow> (edit_error option \<times> editor) option" where
  "handleInsert ed line =
     (let parsed = str_Fields line
      in if length parsed < 3 then Some (Some (UsageError ''insert''), ed)
         else (case parseInt (parsed ! 1) of
                 Inl e \<Rightarrow> Some (Some e, ed)
               | Inr p \<Rightarrow>
                   (case parseInsertText line of
                      Inl e \<Rightarrow> Some (Some e, ed)
                    | Inr s \<Rightarrow> ApplyOperation (InsertOperation p s) ed)))"

definition handleDelete :: "editor \<Rightarrow> string list \<Rightarrow> (edit_error option \<times> editor) option" where
  "handleDelete ed parsed =
     (if length parsed \<noteq> 3 then Some (Some (UsageError ''delete''), ed)
      else (case parseInt (parsed ! 1) of
              Inl e \<Rightarrow> Some (Some e, ed)
            | Inr p \<Rightarrow>
                (case parseInt (parsed ! 2) of
                   Inl e \<Rightarrow> Some (Some e, ed)
                 | Inr n \<Rightarrow> ApplyOperation (DeleteOperation p n []) ed)))"

definition handleReplace :: "editor \<Rightarrow> string \<Rightarrow> (edit_error option \<times> editor) option" where
  "handleReplace ed line =
     (case parseReplaceInput line of
        Inl e \<Rightarrow> Some (Some e, ed)
      | Inr (p, oldText, newText) \<Rightarrow> ApplyOperation (ReplaceOperation p oldText newText) ed)"

definition handleFormat :: "editor \<Rightarrow> string list \<Rightarrow> (edit_error option \<times> editor) option" where
  "handleFormat ed parsed =
     (if length parsed \<noteq> 5 then Some (Some (UsageError ''format''), ed)
      else (case parseInt (parsed ! 1) of
              Inl e \<Rightarrow> Some (Some e, ed)
            | Inr p \<Rightarrow>
                (case parseInt (parsed ! 2) of
                   Inl e \<Rightarrow> Some (Some e, ed)
                 | Inr n \<Rightarrow>
                     (case ParseBool (parsed ! 3) of
                        None \<Rightarrow> Some (Some (NumberError (parsed ! 3)), ed)
                      | Some bold \<Rightarrow>
                          (case ParseBool (parsed ! 4) of
                             None \<Rightarrow> Some (Some (NumberError (parsed ! 4)), ed)
                           | Some italic \<Rightarrow> ApplyOperation (FormatOperation p n bold italic) ed)))))"

text \<open>Whether to exit, the error and the editor.\<close>

definition handleCommand :: "editor \<Rightarrow> string \<Rightarrow> (bool \<times> edit_error option \<times> editor) option" where
  "handleCommand ed line =
     (case str_Fields line of
        [] \<Rightarrow> None
      | f # fs \<Rightarrow>
          if f = ''exit'' then Some (True, None, ed)
          else if f = ''undo'' then map_option (Pair False) (Undo ed)
          else if f = ''redo'' then map_option (Pair False) (Redo ed)
          else if f \<in> set [''print'', ''history'', ''help''] then Some (False, None, ed)
          else if f = ''insert'' then map_option (Pair False) (handleInsert ed line)
          else if f = ''delete'' then map_option (Pair False) (handleDelete ed (f # fs))
          else if f = ''replace'' then map_option (Pair False) (handleReplace ed line)
          else if f = ''format'' then map_option (Pair False) (handleFormat ed (f # fs))
          else Some (False, Some UnknownCommand, ed))"

text \<open>The lines of the input, up to the exit.\<close>

fun cli_Run :: "editor \<Rightarrow> string list \<Rightarrow> editor option" where
  "cli_Run ed [] = Some ed"
| "cli_Run ed (line # lines) =
     (let line = TrimSpace line
      in if line = [] then cli_Run ed lines
         else (case handleCommand ed line of
                 None \<Rightarrow> None
               | Some (shouldExit, Some err, ed') \<Rightarrow> cli_Run ed' lines
               | Some (shouldExit, None, ed') \<Rightarrow> if shouldExit then Some ed' else cli_Run ed' lines))"

end
