(* ===== verification/Editor_Correct.thy ===== *)
theory Editor_Correct
  imports Text_Editor
begin

text \<open>
  Undoing and redoing is exact: the editor, which only keeps operations, behaves as one that keeps
  a snapshot of the document before every operation.
\<close>

section \<open>Slices\<close>

lemma str_slice_Some: "str_slice s a b = Some t \<longleftrightarrow> 0 \<le> a \<and> a \<le> b \<and> b \<le> int (length s) \<and> t = take (nat (b - a)) (drop (nat a) s)"
  by (auto simp: str_slice_def)

lemma str_splice_Some:
  "str_splice s a new b = Some t \<longleftrightarrow> 0 \<le> a \<and> a \<le> int (length s) \<and> 0 \<le> b \<and> b \<le> int (length s) \<and> t = take (nat a) s @ new @ drop (nat b) s"
  by (auto simp: str_splice_def str_slice_def split: option.splits)

section \<open>Operations and their reversals\<close>

text \<open>The bytes that an operation brings along.\<close>

fun op_bytes :: "edit_op \<Rightarrow> nat" where
  "op_bytes (InsertOperation p s) = length s"
| "op_bytes (DeleteOperation p n deleted) = 0"
| "op_bytes (ReplaceOperation p old new) = length old + length new"
| "op_bytes (FormatOperation p n b i) = 0"

lemma wrap64_small: "0 \<le> x \<Longrightarrow> x < 2 ^ 63 \<Longrightarrow> wrap64 x = x"
  by (rule wrap64_id) (simp add: in_int64_def)

lemma last_index_last: "P (last xs) \<Longrightarrow> xs \<noteq> [] \<Longrightarrow> last_index P xs (length xs) = Some (length xs - 1)"
  by (cases "length xs") (auto simp: last_conv_nth)

text \<open>Reversing an operation that was applied gives the document back, and applying it again its result.\<close>

lemma insert_exact:
  assumes "apply_insert p s d = Some (Inr d')" "length (doc_Text d) + length s < 2 ^ 62"
  shows "reverse_insert p s d' = Some (Inr d)" "length (doc_Text d') \<le> length (doc_Text d) + length s"
proof -
  have p: "0 \<le> p" "p \<le> int (length (doc_Text d))" and d': "d' = d\<lparr>doc_Text := take (nat p) (doc_Text d) @ s @ drop (nat p) (doc_Text d)\<rparr>"
    using assms(1) by (auto simp: apply_insert_def str_splice_Some split: if_splits)
  have w: "wrap64 (p + int (length s)) = p + int (length s)" using p assms(2) by (intro wrap64_small) auto
  have n: "nat (p + int (length s)) = nat p + length s" using p by linarith
  show "reverse_insert p s d' = Some (Inr d)"
    using p by (simp add: reverse_insert_def w d' str_splice_def str_slice_def n)
  show "length (doc_Text d') \<le> length (doc_Text d) + length s" using p by (simp add: d')
qed

lemma delete_exact:
  assumes "apply_delete p n d = Some (Inr (del, d'))"
  shows "reverse_delete p del d' = Some (Inr d)" "length (doc_Text d') \<le> length (doc_Text d)"
proof -
  let ?e = "wrap64 (p + n)" and ?t = "doc_Text d"
  have p: "0 \<le> p" "p \<le> ?e" "?e \<le> int (length ?t)" "del = take (nat (?e - p)) (drop (nat p) ?t)"
    "d' = d\<lparr>doc_Text := take (nat p) ?t @ drop (nat ?e) ?t\<rparr>"
    using assms by (auto simp: apply_delete_def Let_def str_splice_Some str_slice_Some split: if_splits option.splits)
  have n: "nat ?e = nat (?e - p) + nat p" using p by linarith
  have "take (nat p) ?t @ del @ drop (nat ?e) ?t = ?t"
    unfolding p(4) n by (metis append_take_drop_id drop_drop)
  then show "reverse_delete p del d' = Some (Inr d)"
    using p by (simp add: reverse_delete_def str_splice_def str_slice_def)
  show "length (doc_Text d') \<le> length ?t" using p by simp
qed

lemma replace_exact:
  assumes "apply_replace p old new d = Some (Inr d')" "length (doc_Text d) + length old + length new < 2 ^ 62"
  shows "reverse_replace p old new d' = Some (Inr d)" "length (doc_Text d') \<le> length (doc_Text d) + length new"
proof -
  let ?t = "doc_Text d"
  have p0: "0 \<le> p" "p \<le> int (length ?t)" using assms(1) by (auto simp: apply_replace_def split: if_splits)
  have w: "wrap64 (p + int (length old)) = p + int (length old)" using p0 assms(2) by (intro wrap64_small) auto
  have p: "p + int (length old) \<le> int (length ?t)" "take (length old) (drop (nat p) ?t) = old"
    "d' = d\<lparr>doc_Text := take (nat p) ?t @ new @ drop (nat (p + int (length old))) ?t\<rparr>" "old \<noteq> []"
    using assms(1) p0 by (auto simp: apply_replace_def Let_def w str_splice_Some str_slice_Some split: if_splits option.splits)
  have w': "wrap64 (p + int (length new)) = p + int (length new)" using p0 assms(2) by (intro wrap64_small) auto
  have n: "nat (p + int (length old)) = nat p + length old" "nat (p + int (length new)) = nat p + length new" using p0 by linarith+
  have "take (nat p) ?t @ old @ drop (nat p + length old) ?t = ?t"
    using p(2) by (metis append_take_drop_id drop_drop add.commute)
  then show "reverse_replace p old new d' = Some (Inr d)"
    using p0 p by (simp add: reverse_replace_def Let_def w' str_splice_def str_slice_def n)
  show "length (doc_Text d') \<le> length ?t + length new" using p0 p by simp
qed

lemma format_exact:
  assumes "apply_format p n b i d = Inr d'"
  shows "reverse_format p n b i d' = d" "doc_Text d' = doc_Text d"
proof -
  have d': "d' = d\<lparr>doc_Formats := doc_Formats d @ [\<lparr>tf_Position = p, tf_Length = n, tf_Bold = b, tf_Italic = i\<rparr>]\<rparr>"
    using assms by (auto simp: apply_format_def Let_def split: if_splits)
  show "reverse_format p n b i d' = d" by (simp add: reverse_format_def d')
  show "doc_Text d' = doc_Text d" by (simp add: d')
qed

lemma op_exact:
  assumes "op_Apply op d = Some (Inr (op', d'))" "length (doc_Text d) + op_bytes op < 2 ^ 62"
  shows "op_Reverse op' d' = Some (Inr d)" "op_Apply op' d = Some (Inr (op', d'))"
    "length (doc_Text d') \<le> length (doc_Text d) + op_bytes op" "op_bytes op' = op_bytes op"
proof -
  have "op_Reverse op' d' = Some (Inr d) \<and> op_Apply op' d = Some (Inr (op', d')) \<and>
      length (doc_Text d') \<le> length (doc_Text d) + op_bytes op \<and> op_bytes op' = op_bytes op"
  proof (cases op)
    case (InsertOperation p s)
    then obtain "apply_insert p s d = Some (Inr d')" "op' = op"
      using assms(1) by (cases "apply_insert p s d"; cases "the (apply_insert p s d)") auto
    then show ?thesis using insert_exact [of p s d d'] assms InsertOperation by simp
  next
    case (DeleteOperation p n deleted)
    then obtain del where "apply_delete p n d = Some (Inr (del, d'))" "op' = DeleteOperation p n del"
      using assms(1) by (cases "apply_delete p n d"; cases "the (apply_delete p n d)") (auto split: prod.splits)
    then show ?thesis using delete_exact [of p n d del d'] DeleteOperation by simp
  next
    case (ReplaceOperation p old new)
    then obtain "apply_replace p old new d = Some (Inr d')" "op' = op"
      using assms(1) by (cases "apply_replace p old new d"; cases "the (apply_replace p old new d)") auto
    then show ?thesis using replace_exact [of p old new d d'] assms ReplaceOperation by simp
  next
    case (FormatOperation p n b i)
    then obtain "apply_format p n b i d = Inr d'" "op' = op"
      using assms(1) by (cases "apply_format p n b i d") auto
    then show ?thesis using format_exact [of p n b i d d'] assms FormatOperation by simp
  qed
  then show "op_Reverse op' d' = Some (Inr d)" "op_Apply op' d = Some (Inr (op', d'))"
    "length (doc_Text d') \<le> length (doc_Text d) + op_bytes op" "op_bytes op' = op_bytes op" by blast+
qed

section \<open>The list of operations\<close>

text \<open>The nodes at the addresses \<open>as\<close> hold the operations \<open>ops\<close> and are linked both ways.\<close>

definition ol_rep :: "op_list \<Rightarrow> nat list \<Rightarrow> edit_op list \<Rightarrow> bool" where
  "ol_rep l as ops \<longleftrightarrow>
     length ops = length as \<and> distinct as \<and> (\<forall>a\<in>set as. a < ol_fresh l) \<and>
     (\<forall>i<length as. ol_nodes l (as ! i) = Some \<lparr>on_Data = ops ! i,
        on_Prev = (if i = 0 then None else Some (as ! (i - 1))),
        on_Next = (if Suc i < length as then Some (as ! Suc i) else None)\<rparr>) \<and>
     ol_Head l = (if as = [] then None else Some (as ! 0)) \<and>
     ol_Tail l = (if as = [] then None else Some (as ! (length as - 1))) \<and>
     ol_Size l = int (length as)"

lemma ol_rep_node:
  "ol_rep l as ops \<Longrightarrow> i < length as \<Longrightarrow> ol_nodes l (as ! i) = Some \<lparr>on_Data = ops ! i,
     on_Prev = (if i = 0 then None else Some (as ! (i - 1))), on_Next = (if Suc i < length as then Some (as ! Suc i) else None)\<rparr>"
  by (simp add: ol_rep_def)

lemma ol_rep_Append:
  assumes "ol_rep l as ops" "ol_Append op l = (a, l')"
  shows "ol_rep l' (as @ [a]) (ops @ [op])"
proof (cases "as = []")
  case True
  then show ?thesis using assms by (auto simp: ol_rep_def ol_Append_def Let_def)
next
  case False
  have a: "a = ol_fresh l" "a \<notin> set as" using assms by (auto simp: ol_rep_def ol_Append_def Let_def split: option.splits)
  have t: "ol_Tail l = Some (as ! (length as - 1))" using assms(1) False by (simp add: ol_rep_def)
  let ?t = "as ! (length as - 1)"
  have l': "l' = l\<lparr>ol_nodes := ((ol_nodes l)(?t := map_option (\<lambda>n. n\<lparr>on_Next := Some a\<rparr>) (ol_nodes l ?t)))
      (a \<mapsto> \<lparr>on_Data = op, on_Prev = Some ?t, on_Next = None\<rparr>), ol_fresh := a + 1, ol_Tail := Some a, ol_Size := ol_Size l + 1\<rparr>"
    using assms(2) t a(1) by (simp add: ol_Append_def Let_def)
  have d: "distinct as" "length ops = length as" using assms(1) by (simp_all add: ol_rep_def)
  have nodes: "ol_nodes l' ((as @ [a]) ! i) = Some \<lparr>on_Data = (ops @ [op]) ! i,
      on_Prev = (if i = 0 then None else Some ((as @ [a]) ! (i - 1))),
      on_Next = (if Suc i < length (as @ [a]) then Some ((as @ [a]) ! Suc i) else None)\<rparr>" if "i < length (as @ [a])" for i
  proof (cases "i = length as")
    case True
    then show ?thesis using False d by (simp add: l' nth_append)
  next
    case i: False
    then have less: "i < length as" using that by simp
    then have ne: "as ! i \<noteq> a" using a(2) nth_mem by blast
    show ?thesis
    proof (cases "Suc i = length as")
      case True
      then have t': "?t = as ! i" by (metis diff_Suc_1)
      have "(as @ [a]) ! (i - 1) = as ! (i - 1)" "(as @ [a]) ! i = as ! i" "(as @ [a]) ! Suc i = a" "(ops @ [op]) ! i = ops ! i"
        using less_imp_diff_less [OF less] less d True by (simp_all add: nth_append)
      then show ?thesis using ol_rep_node [OF assms(1) less] ne True unfolding l' t' by simp
    next
      case j: False
      then have "as ! i \<noteq> ?t" using d(1) less by (simp add: nth_eq_iff_index_eq)
      then show ?thesis using ol_rep_node [OF assms(1) less] ne less d j by (auto simp: l' nth_append)
    qed
  qed
  have "\<forall>x\<in>set (as @ [a]). x < ol_fresh l'" using assms(1) a(1) by (auto simp: ol_rep_def l')
  moreover have "ol_Head l' = Some (as ! 0)" "ol_Size l' = int (length as) + 1" using assms(1) False by (simp_all add: ol_rep_def l')
  ultimately show ?thesis using nodes False d a(2) unfolding ol_rep_def by (auto simp: l' nth_append)
qed

lemma count_after_rep:
  "ol_rep l as ops \<Longrightarrow> i \<le> length as \<Longrightarrow>
     count_after (ol_nodes l) (if i < length as then Some (as ! i) else None) k = Some (k + int (length as - i))"
proof (induction "length as - i" arbitrary: i k)
  case 0
  then show ?case by (subst count_after.simps) simp
next
  case (Suc n)
  then have less: "i < length as" by simp
  have "count_after (ol_nodes l) (if Suc i < length as then Some (as ! Suc i) else None) (k + 1) = Some (k + 1 + int (length as - Suc i))"
    using Suc by simp
  then show ?case using less ol_rep_node [OF Suc.prems(1) less] by (subst count_after.simps) simp
qed

lemma ol_rep_RemoveAfter:
  assumes "ol_rep l as ops" "k \<le> length as"
  shows "\<exists>l'. ol_RemoveAfter (if k = 0 then None else Some (as ! (k - 1))) l = Some l' \<and> ol_rep l' (take k as) (take k ops)"
proof (cases "k = 0")
  case True
  then show ?thesis by (simp add: ol_RemoveAfter_def ol_Clear_def ol_rep_def)
next
  case False
  then have less: "k - 1 < length as" using assms(2) by simp
  let ?a = "as ! (k - 1)"
  note n = ol_rep_node [OF assms(1) less]
  have nxt: "on_Next (the (ol_nodes l ?a)) = (if k < length as then Some (as ! k) else None)" using n False by simp
  let ?l = "l\<lparr>ol_nodes := (ol_nodes l)(?a \<mapsto> (the (ol_nodes l ?a))\<lparr>on_Next := None\<rparr>), ol_Tail := Some ?a, ol_Size := ol_Size l - int (length as - k)\<rparr>"
  have "ol_RemoveAfter (Some ?a) l = Some ?l"
    using n nxt count_after_rep [OF assms, of 0] by (simp add: ol_RemoveAfter_def)
  moreover have "ol_rep ?l (take k as) (take k ops)"
  proof -
    have d: "distinct as" "length ops = length as" using assms(1) by (simp_all add: ol_rep_def)
    have "ol_nodes ?l (take k as ! i) = Some \<lparr>on_Data = take k ops ! i, on_Prev = (if i = 0 then None else Some (take k as ! (i - 1))),
        on_Next = (if Suc i < length (take k as) then Some (take k as ! Suc i) else None)\<rparr>" if "i < length (take k as)" for i
    proof (cases "i = k - 1")
      case True
      then show ?thesis using n less False by auto
    next
      case i: False
      then have "i < length as" "Suc i < k" "as ! i \<noteq> ?a" using that d(1) less by (auto simp: nth_eq_iff_index_eq)
      then show ?thesis using ol_rep_node [OF assms(1) \<open>i < length as\<close>] assms(2) by auto
    qed
    moreover have "as \<noteq> []" "take k as \<noteq> []" using less False by auto
    moreover have "\<forall>x\<in>set (take k as). x < ol_fresh ?l" using assms(1) by (auto simp: ol_rep_def dest: in_set_takeD)
    moreover have "ol_Head ?l = Some (take k as ! 0)" "ol_Tail ?l = Some (take k as ! (length (take k as) - 1))"
      "ol_Size ?l = int (length (take k as))"
      using assms False less \<open>as \<noteq> []\<close> by (simp_all add: ol_rep_def min_def)
    ultimately show ?thesis using d unfolding ol_rep_def by (simp only: length_take distinct_take if_False) blast
  qed
  ultimately show ?thesis using False by auto
qed

section \<open>The editor with snapshots\<close>

datatype edit_call = CallApply edit_op | CallUndo | CallRedo

record snapshots =
  sn_past :: "document list"
  sn_doc :: document
  sn_future :: "document list"

definition no_snapshots :: snapshots where
  "no_snapshots = \<lparr>sn_past = [], sn_doc = \<lparr>doc_Text = [], doc_Formats = []\<rparr>, sn_future = []\<rparr>"

fun sn_call :: "edit_call \<Rightarrow> snapshots \<Rightarrow> (edit_error option \<times> snapshots) option" where
  "sn_call (CallApply op) s =
     (case op_Apply op (sn_doc s) of
        None \<Rightarrow> None
      | Some (Inl err) \<Rightarrow> Some (Some err, s)
      | Some (Inr (_, d)) \<Rightarrow> Some (None, \<lparr>sn_past = sn_doc s # sn_past s, sn_doc = d, sn_future = []\<rparr>))"
| "sn_call CallUndo s =
     (case sn_past s of
        [] \<Rightarrow> Some (Some NothingToUndo, s)
      | d # ds \<Rightarrow> Some (None, \<lparr>sn_past = ds, sn_doc = d, sn_future = sn_doc s # sn_future s\<rparr>))"
| "sn_call CallRedo s =
     (case sn_future s of
        [] \<Rightarrow> Some (Some NothingToRedo, s)
      | d # ds \<Rightarrow> Some (None, \<lparr>sn_past = sn_doc s # sn_past s, sn_doc = d, sn_future = ds\<rparr>))"

fun ed_call :: "edit_call \<Rightarrow> editor \<Rightarrow> (edit_error option \<times> editor) option" where
  "ed_call (CallApply op) e = ApplyOperation op e"
| "ed_call CallUndo e = Undo e"
| "ed_call CallRedo e = Redo e"

text \<open>What is seen of the calls: the error and the document after each; \<open>None\<close> is a panic, which ends them.\<close>

fun sn_trace :: "snapshots \<Rightarrow> edit_call list \<Rightarrow> (edit_error option \<times> document) option list" where
  "sn_trace s [] = []"
| "sn_trace s (c # cs) = (case sn_call c s of None \<Rightarrow> [None] | Some (err, s') \<Rightarrow> Some (err, sn_doc s') # sn_trace s' cs)"

fun ed_trace :: "editor \<Rightarrow> edit_call list \<Rightarrow> (edit_error option \<times> document) option list" where
  "ed_trace e [] = []"
| "ed_trace e (c # cs) = (case ed_call c e of None \<Rightarrow> [None] | Some (err, e') \<Rightarrow> Some (err, ed_Doc e') # ed_trace e' cs)"

fun call_bytes :: "edit_call \<Rightarrow> nat" where
  "call_bytes (CallApply op) = op_bytes op"
| "call_bytes CallUndo = 0"
| "call_bytes CallRedo = 0"

section \<open>The editor keeps the snapshots' steps\<close>

text \<open>\<open>docs ! i\<close> is the document before the operation \<open>ops ! i\<close>; \<open>k\<close> operations are done.\<close>

definition steps_ok :: "edit_op list \<Rightarrow> document list \<Rightarrow> bool" where
  "steps_ok ops docs \<longleftrightarrow> length docs = Suc (length ops) \<and>
     (\<forall>i<length ops. op_Reverse (ops ! i) (docs ! Suc i) = Some (Inr (docs ! i)) \<and>
        op_Apply (ops ! i) (docs ! i) = Some (Inr (ops ! i, docs ! Suc i)))"

definition ed_rep :: "editor \<Rightarrow> snapshots \<Rightarrow> nat list \<Rightarrow> edit_op list \<Rightarrow> document list \<Rightarrow> nat \<Rightarrow> bool" where
  "ed_rep e s as ops docs k \<longleftrightarrow>
     ol_rep (ed_History e) as ops \<and> steps_ok ops docs \<and> k \<le> length as \<and> ed_Doc e = docs ! k \<and>
     ed_Current e = (if k = 0 then None else Some (as ! (k - 1))) \<and>
     sn_past s = rev (take k docs) \<and> sn_doc s = docs ! k \<and> sn_future s = drop (Suc k) docs"

definition ed_rel :: "nat \<Rightarrow> editor \<Rightarrow> snapshots \<Rightarrow> bool" where
  "ed_rel N e s \<longleftrightarrow> (\<exists>as ops docs k. ed_rep e s as ops docs k \<and> (\<forall>d\<in>set docs. length (doc_Text d) \<le> N))"

lemma ed_relI: "ed_rep e s as ops docs k \<Longrightarrow> \<forall>d\<in>set docs. length (doc_Text d) \<le> N \<Longrightarrow> ed_rel N e s"
  unfolding ed_rel_def by blast

definition same_result :: "nat \<Rightarrow> (edit_error option \<times> editor) option \<Rightarrow> (edit_error option \<times> snapshots) option \<Rightarrow> bool" where
  "same_result N r r' =
     (case (r, r') of
        (None, None) \<Rightarrow> True
      | (Some (err, e), Some (err', s)) \<Rightarrow> err = err' \<and> ed_rel N e s
      | _ \<Rightarrow> False)"

lemma steps_ok_push:
  assumes "steps_ok ops docs" "k \<le> length ops" "op_Reverse op d = Some (Inr (docs ! k))" "op_Apply op (docs ! k) = Some (Inr (op, d))"
  shows "steps_ok (take k ops @ [op]) (take (Suc k) docs @ [d])"
  using assms by (auto simp: steps_ok_def nth_append less_Suc_eq)

lemma ed_rel_new: "ed_rel 0 NewEditor no_snapshots"
  unfolding ed_rel_def
  by (rule exI [of _ "[]"], rule exI [of _ "[]"], rule exI [of _ "[\<lparr>doc_Text = [], doc_Formats = []\<rparr>]"], rule exI [of _ 0])
    (simp add: ed_rep_def ol_rep_def steps_ok_def NewEditor_def no_snapshots_def)

lemma ed_rel_mono: "ed_rel N e s \<Longrightarrow> N \<le> M \<Longrightarrow> ed_rel M e s"
  unfolding ed_rel_def by (meson le_trans)

lemma ed_rep_cut:
  assumes "ed_rep e s as ops docs k"
  shows "\<exists>h. (if ed_Current e \<noteq> ol_Tail (ed_History e) then ol_RemoveAfter (ed_Current e) (ed_History e) else Some (ed_History e)) = Some h \<and>
    ol_rep h (take k as) (take k ops)"
proof (cases "k = length as")
  case True
  then show ?thesis using assms by (auto simp: ed_rep_def ol_rep_def)
next
  case False
  then have k: "k < length as" using assms by (simp add: ed_rep_def)
  have "ed_Current e \<noteq> ol_Tail (ed_History e)"
    using assms k by (auto simp: ed_rep_def ol_rep_def nth_eq_iff_index_eq)
  then show ?thesis using ol_rep_RemoveAfter [of "ed_History e" as ops k] assms by (simp add: ed_rep_def)
qed

lemma ed_rel_Apply:
  assumes "ed_rel N e s" "N + op_bytes op < 2 ^ 62"
  shows "same_result (N + op_bytes op) (ApplyOperation op e) (sn_call (CallApply op) s)"
proof -
  obtain as ops docs k where r: "ed_rep e s as ops docs k" and N: "\<forall>d\<in>set docs. length (doc_Text d) \<le> N"
    using assms(1) by (auto simp: ed_rel_def)
  have doc: "ed_Doc e = docs ! k" "sn_doc s = docs ! k" using r by (simp_all add: ed_rep_def)
  consider "op_Apply op (docs ! k) = None" | err where "op_Apply op (docs ! k) = Some (Inl err)"
    | op' d where "op_Apply op (docs ! k) = Some (Inr (op', d))"
    by (cases "op_Apply op (docs ! k)"; cases "the (op_Apply op (docs ! k))") auto
  then show ?thesis
  proof cases
    case 1
    then show ?thesis using doc by (simp add: ApplyOperation_def same_result_def)
  next
    case 2
    then show ?thesis using doc ed_rel_mono [OF assms(1)] by (simp add: ApplyOperation_def same_result_def)
  next
    case 3
    have len: "length ops = length as" "k \<le> length as" "length docs = Suc (length ops)"
      using r by (auto simp: ed_rep_def ol_rep_def steps_ok_def)
    have le: "length (doc_Text (docs ! k)) \<le> N" using N len by simp
    note ex = op_exact [OF 3 le_less_trans [OF add_le_mono1 [OF le] assms(2)]]
    obtain h where h: "(if ed_Current e \<noteq> ol_Tail (ed_History e) then ol_RemoveAfter (ed_Current e) (ed_History e) else Some (ed_History e)) = Some h"
      "ol_rep h (take k as) (take k ops)" using ed_rep_cut [OF r] by blast
    obtain a h' where h': "ol_Append op' h = (a, h')" by (cases "ol_Append op' h") auto
    let ?e = "\<lparr>ed_Doc = d, ed_History = h', ed_Current = Some a\<rparr>"
    let ?s = "\<lparr>sn_past = docs ! k # sn_past s, sn_doc = d, sn_future = []\<rparr>"
    have "ed_rep ?e ?s (take k as @ [a]) (take k ops @ [op']) (take (Suc k) docs @ [d]) (Suc k)"
      using ol_rep_Append [OF h(2) h'] steps_ok_push [of ops docs k op' d] ex r len
      by (auto simp: ed_rep_def nth_append take_Suc_conv_app_nth min_def)
    moreover have "\<forall>x\<in>set (take (Suc k) docs @ [d]). length (doc_Text x) \<le> N + op_bytes op"
      using N ex(3) le by (fastforce dest: in_set_takeD)
    ultimately have "ed_rel (N + op_bytes op) ?e ?s" by (rule ed_relI)
    moreover have "ApplyOperation op e = Some (None, ?e)" using h h' 3 doc by (simp add: ApplyOperation_def)
    ultimately show ?thesis using 3 doc by (simp add: same_result_def)
  qed
qed

lemma ed_rel_Undo:
  assumes "ed_rel N e s"
  shows "same_result N (Undo e) (sn_call CallUndo s)"
proof -
  obtain as ops docs k where r: "ed_rep e s as ops docs k" and N: "\<forall>d\<in>set docs. length (doc_Text d) \<le> N"
    using assms(1) by (auto simp: ed_rel_def)
  show ?thesis
  proof (cases k)
    case 0
    then show ?thesis using r assms by (simp add: Undo_def same_result_def ed_rep_def)
  next
    case (Suc j)
    have len: "length ops = length as" "j < length as" "length docs = Suc (length ops)"
      using r Suc by (auto simp: ed_rep_def ol_rep_def steps_ok_def)
    note n = ol_rep_node [of "ed_History e" as ops j]
    have rev: "op_Reverse (ops ! j) (docs ! Suc j) = Some (Inr (docs ! j))" using r len by (simp add: ed_rep_def steps_ok_def)
    let ?e = "e\<lparr>ed_Doc := docs ! j, ed_Current := if j = 0 then None else Some (as ! (j - 1))\<rparr>"
    let ?s = "\<lparr>sn_past = rev (take j docs), sn_doc = docs ! j, sn_future = docs ! Suc j # sn_future s\<rparr>"
    have "Undo e = Some (None, ?e)" using n rev r len Suc by (simp add: Undo_def ed_rep_def)
    moreover have "sn_call CallUndo s = Some (None, ?s)" using r len Suc by (simp add: ed_rep_def take_Suc_conv_app_nth)
    moreover have "ed_rep ?e ?s as ops docs j" using r len Suc by (auto simp: ed_rep_def Cons_nth_drop_Suc)
    ultimately show ?thesis using ed_relI [OF _ N] by (simp add: same_result_def)
  qed
qed

lemma ed_rel_Redo:
  assumes "ed_rel N e s"
  shows "same_result N (Redo e) (sn_call CallRedo s)"
proof -
  obtain as ops docs k where r: "ed_rep e s as ops docs k" and N: "\<forall>d\<in>set docs. length (doc_Text d) \<le> N"
    using assms(1) by (auto simp: ed_rel_def)
  have len: "length ops = length as" "k \<le> length as" "length docs = Suc (length ops)"
    using r by (auto simp: ed_rep_def ol_rep_def steps_ok_def)
  have rep: "ol_rep (ed_History e) as ops" using r by (simp add: ed_rep_def)
  let ?nxt = "if k < length as then Some (as ! k) else None"
  have nxt: "(case ed_Current e of None \<Rightarrow> Some (ol_Head (ed_History e)) | Some a \<Rightarrow> map_option on_Next (ol_nodes (ed_History e) a)) = Some ?nxt"
  proof (cases k)
    case 0
    then show ?thesis using r rep by (simp add: ed_rep_def ol_rep_def)
  next
    case (Suc j)
    then show ?thesis using r len ol_rep_node [OF rep, of j] by (simp add: ed_rep_def)
  qed
  show ?thesis
  proof (cases "k = length as")
    case True
    then show ?thesis using r assms nxt len by (simp add: Redo_def same_result_def ed_rep_def)
  next
    case False
    then have k: "k < length as" using len by simp
    have app: "op_Apply (ops ! k) (docs ! k) = Some (Inr (ops ! k, docs ! Suc k))" using r len k by (simp add: ed_rep_def steps_ok_def)
    note n = ol_rep_node [OF rep k]
    let ?e = "e\<lparr>ed_Doc := docs ! Suc k, ed_Current := Some (as ! k)\<rparr>"
    let ?s = "\<lparr>sn_past = docs ! k # sn_past s, sn_doc = docs ! Suc k, sn_future = drop (Suc (Suc k)) docs\<rparr>"
    have upd: "(ol_nodes (ed_History e))(as ! k \<mapsto> the (ol_nodes (ed_History e) (as ! k))) = ol_nodes (ed_History e)"
      using n by (simp add: fun_upd_idem)
    have "Redo e = Some (None, ?e)" using nxt app n r upd k by (simp add: Redo_def ed_rep_def)
    moreover have "sn_call CallRedo s = Some (None, ?s)"
      using r len k by (simp add: ed_rep_def Cons_nth_drop_Suc [symmetric])
    moreover have "ed_rep ?e ?s as ops docs (Suc k)" using r len k by (auto simp: ed_rep_def take_Suc_conv_app_nth)
    ultimately show ?thesis using ed_relI [OF _ N] by (simp add: same_result_def)
  qed
qed

lemma ed_rel_call:
  "ed_rel N e s \<Longrightarrow> N + call_bytes c < 2 ^ 62 \<Longrightarrow> same_result (N + call_bytes c) (ed_call c e) (sn_call c s)"
  by (cases c) (simp_all add: ed_rel_Apply ed_rel_Undo ed_rel_Redo del: sn_call.simps)

lemma ed_trace_rel:
  "ed_rel N e s \<Longrightarrow> N + sum_list (map call_bytes cs) < 2 ^ 62 \<Longrightarrow> ed_trace e cs = sn_trace s cs"
proof (induction cs arbitrary: N e s)
  case Nil
  then show ?case by simp
next
  case (Cons c cs)
  have "same_result (N + call_bytes c) (ed_call c e) (sn_call c s)" using ed_rel_call [OF Cons.prems(1), of c] Cons.prems(2) by simp
  moreover have "N + call_bytes c + sum_list (map call_bytes cs) < 2 ^ 62" using Cons.prems(2) by simp
  moreover have "ed_Doc e' = sn_doc s'" if "ed_rel M e' s'" for M e' s' using that by (auto simp: ed_rel_def ed_rep_def)
  ultimately show ?case using Cons.IH by (fastforce simp: same_result_def split: option.splits prod.splits)
qed

section \<open>Properties\<close>

text \<open>C11. Undo and redo are exact: for every sequence of applied operations, undos and redos whose
texts have less than \<open>2 ^ 62\<close> bytes in all, the editor, which keeps only the operations and runs
their \<open>Reverse\<close> and \<open>Apply\<close>, gives after every call the same error, the same text and the same
formats as an editor that keeps snapshots: undo goes back to the document before the last
operation, redo to the one after it, an operation that fails changes nothing, and one that succeeds
after undos drops the undone ones.\<close>

theorem undo_redo_exact:
  assumes "sum_list (map call_bytes cs) < 2 ^ 62"
  shows "ed_trace NewEditor cs = sn_trace no_snapshots cs"
  using ed_trace_rel [OF ed_rel_new, of cs] assms by simp

theorem undo_redo_exact_witness:
  "ed_trace NewEditor
     [CallApply (InsertOperation 0 ''hello''), CallApply (DeleteOperation 1 3 []), CallUndo, CallUndo, CallRedo,
      CallApply (ReplaceOperation 0 ''he'' ''J''), CallRedo, CallUndo] =
   [Some (None, \<lparr>doc_Text = ''hello'', doc_Formats = []\<rparr>), Some (None, \<lparr>doc_Text = ''ho'', doc_Formats = []\<rparr>),
    Some (None, \<lparr>doc_Text = ''hello'', doc_Formats = []\<rparr>), Some (None, \<lparr>doc_Text = [], doc_Formats = []\<rparr>),
    Some (None, \<lparr>doc_Text = ''hello'', doc_Formats = []\<rparr>), Some (None, \<lparr>doc_Text = ''Jllo'', doc_Formats = []\<rparr>),
    Some (Some NothingToRedo, \<lparr>doc_Text = ''Jllo'', doc_Formats = []\<rparr>), Some (None, \<lparr>doc_Text = ''hello'', doc_Formats = []\<rparr>)]"
  by (subst undo_redo_exact, simp, code_simp)

text \<open>C40. A deletion can crash the editor: the end of the deleted range is added in the machine's
integers, so a length close to the largest one at a positive position makes it negative, which
passes the check against the length of the text, and the slice expression panics.\<close>

theorem delete_overflow_panics:
  assumes "1 \<le> p" "p \<le> int (length (doc_Text (ed_Doc e)))" "length (doc_Text (ed_Doc e)) < 2 ^ 62"
  shows "ApplyOperation (DeleteOperation p (2 ^ 63 - 1) deleted) e = None"
proof -
  have "wrap64 (p + (2 ^ 63 - 1)) = p - 1 - 2 ^ 63"
  proof -
    have "wrap64 (p + (2 ^ 63 - 1)) = wrap64 (p - 1 - 2 ^ 63)"
      using mod_add_self2 [of "p - 1" "2 ^ 64"] by (simp add: wrap64_def)
    also have "\<dots> = p - 1 - 2 ^ 63" using assms by (intro wrap64_id) (simp add: in_int64_def)
    finally show ?thesis .
  qed
  then show ?thesis using assms by (simp add: ApplyOperation_def apply_delete_def Let_def str_slice_def)
qed

theorem delete_overflow_panics_witness:
  "ApplyOperation (DeleteOperation 1 (2 ^ 63 - 1) []) (NewEditor\<lparr>ed_Doc := \<lparr>doc_Text = ''ab'', doc_Formats = []\<rparr>\<rparr>) = None"
  by (rule delete_overflow_panics) simp_all

end
