(* ===== verification/Packet_Queues.thy ===== *)
theory Packet_Queues
  imports Go_Prelude
begin

text \<open>
  The three queues of the packet router (\<open>04-day/project/internal/queue\<close>): a slice, a linked list and a
  ring buffer that grows.  Their interface is the record \<open>queue_ops\<close> with the laws of the locale
  \<open>fifo\<close>.

  An outer \<open>None\<close> is a panic.  The zero value of the elements is an argument.
\<close>

section \<open>Interface\<close>

record ('q, 'a) queue_ops =
  qo_New :: 'q
  qo_Enqueue :: "'a \<Rightarrow> 'q \<Rightarrow> 'q option"
  qo_Dequeue :: "'q \<Rightarrow> ('a option \<times> 'q) option"
  qo_Peek :: "'q \<Rightarrow> 'a option option"
  qo_Len :: "'q \<Rightarrow> int"

locale fifo =
  fixes ops :: "('q, 'a) queue_ops" and rep :: "'q \<Rightarrow> 'a list \<Rightarrow> bool"
  assumes new_empty: "rep (qo_New ops) []"
    and enqueue_last: "rep q xs \<Longrightarrow> \<exists>q'. qo_Enqueue ops x q = Some q' \<and> rep q' (xs @ [x])"
    and dequeue_empty: "rep q [] \<Longrightarrow> \<exists>q'. qo_Dequeue ops q = Some (None, q') \<and> rep q' []"
    and dequeue_first: "rep q (x # xs) \<Longrightarrow> \<exists>q'. qo_Dequeue ops q = Some (Some x, q') \<and> rep q' xs"
    and peek_first: "rep q xs \<Longrightarrow> qo_Peek ops q = Some (case xs of [] \<Rightarrow> None | x # _ \<Rightarrow> Some x)"
    and len_length: "rep q xs \<Longrightarrow> qo_Len ops q = int (length xs)"

section \<open>Slice\<close>

record 'a slice_queue =
  sq_items :: "'a list"

definition NewSliceQueue :: "'a slice_queue" where
  "NewSliceQueue = \<lparr>sq_items = []\<rparr>"

definition sq_Enqueue :: "'a \<Rightarrow> 'a slice_queue \<Rightarrow> 'a slice_queue" where
  "sq_Enqueue v q = q\<lparr>sq_items := sq_items q @ [v]\<rparr>"

definition sq_Dequeue :: "'a slice_queue \<Rightarrow> 'a option \<times> 'a slice_queue" where
  "sq_Dequeue q = (case sq_items q of [] \<Rightarrow> (None, q) | v # rest \<Rightarrow> (Some v, q\<lparr>sq_items := rest\<rparr>))"

definition sq_Peek :: "'a slice_queue \<Rightarrow> 'a option" where
  "sq_Peek q = (case sq_items q of [] \<Rightarrow> None | v # _ \<Rightarrow> Some v)"

definition sq_Len :: "'a slice_queue \<Rightarrow> int" where
  "sq_Len q = int (length (sq_items q))"

definition slice_ops :: "('a slice_queue, 'a) queue_ops" where
  "slice_ops = \<lparr>qo_New = NewSliceQueue, qo_Enqueue = \<lambda>v q. Some (sq_Enqueue v q), qo_Dequeue = \<lambda>q. Some (sq_Dequeue q),
     qo_Peek = \<lambda>q. Some (sq_Peek q), qo_Len = sq_Len\<rparr>"

interpretation slice_fifo: fifo slice_ops "\<lambda>q xs. sq_items q = xs"
  by unfold_locales
    (auto simp: slice_ops_def NewSliceQueue_def sq_Enqueue_def sq_Dequeue_def sq_Peek_def sq_Len_def split: list.splits)

section \<open>Linked list\<close>

record 'a queue_node =
  qn_value :: 'a
  qn_next :: "nat option"

record 'a linked_queue =
  lk_nodes :: "nat \<rightharpoonup> 'a queue_node"
  lk_fresh :: nat
  lk_head :: "nat option"
  lk_tail :: "nat option"
  lk_size :: int

definition NewLinkedListQueue :: "'a linked_queue" where
  "NewLinkedListQueue = \<lparr>lk_nodes = Map.empty, lk_fresh = 0, lk_head = None, lk_tail = None, lk_size = 0\<rparr>"

definition lk_Enqueue :: "'a \<Rightarrow> 'a linked_queue \<Rightarrow> 'a linked_queue option" where
  "lk_Enqueue v q =
     (let a = lk_fresh q; nodes = (lk_nodes q)(a \<mapsto> \<lparr>qn_value = v, qn_next = None\<rparr>)
      in if lk_size q = 0 then
           Some (q\<lparr>lk_nodes := nodes, lk_fresh := a + 1, lk_head := Some a, lk_tail := Some a, lk_size := lk_size q + 1\<rparr>)
         else (case lk_tail q of
                 None \<Rightarrow> None
               | Some t \<Rightarrow>
                   (case nodes t of
                      None \<Rightarrow> None
                    | Some n \<Rightarrow>
                        Some (q\<lparr>lk_nodes := nodes(t \<mapsto> n\<lparr>qn_next := Some a\<rparr>), lk_fresh := a + 1, lk_tail := Some a,
                          lk_size := lk_size q + 1\<rparr>))))"

definition lk_Dequeue :: "'a linked_queue \<Rightarrow> ('a option \<times> 'a linked_queue) option" where
  "lk_Dequeue q =
     (case lk_head q of
        None \<Rightarrow> Some (None, q)
      | Some a \<Rightarrow>
          (case lk_nodes q a of
             None \<Rightarrow> None
           | Some delNode \<Rightarrow>
               (let n = lk_size q - 1
                in Some (Some (qn_value delNode),
                     q\<lparr>lk_head := qn_next delNode, lk_size := n, lk_tail := if n = 0 then None else lk_tail q\<rparr>))))"

definition lk_Peek :: "'a linked_queue \<Rightarrow> 'a option option" where
  "lk_Peek q =
     (case lk_head q of
        None \<Rightarrow> Some None
      | Some a \<Rightarrow> map_option (\<lambda>n. Some (qn_value n)) (lk_nodes q a))"

definition lk_Len :: "'a linked_queue \<Rightarrow> int" where
  "lk_Len q = lk_size q"

definition linked_ops :: "('a linked_queue, 'a) queue_ops" where
  "linked_ops = \<lparr>qo_New = NewLinkedListQueue, qo_Enqueue = lk_Enqueue, qo_Dequeue = lk_Dequeue, qo_Peek = lk_Peek, qo_Len = lk_Len\<rparr>"

text \<open>The nodes at the addresses \<open>as\<close> hold the values and are linked in their order.\<close>

definition lk_chain :: "'a linked_queue \<Rightarrow> nat list \<Rightarrow> 'a list \<Rightarrow> bool" where
  "lk_chain q as xs \<longleftrightarrow>
     length as = length xs \<and> distinct as \<and> (\<forall>a\<in>set as. a < lk_fresh q) \<and>
     (\<forall>i<length as. lk_nodes q (as ! i) = Some \<lparr>qn_value = xs ! i, qn_next = (if Suc i < length as then Some (as ! Suc i) else None)\<rparr>)"

definition lk_rep :: "'a linked_queue \<Rightarrow> 'a list \<Rightarrow> bool" where
  "lk_rep q xs \<longleftrightarrow>
     (\<exists>as. lk_chain q as xs \<and> lk_size q = int (length xs) \<and>
        lk_head q = (if as = [] then None else Some (hd as)) \<and> lk_tail q = (if as = [] then None else Some (last as)))"

lemma lk_rep_Enqueue:
  assumes "lk_rep q xs"
  shows "\<exists>q'. lk_Enqueue v q = Some q' \<and> lk_rep q' (xs @ [v])"
proof -
  obtain as where r: "lk_chain q as xs" "lk_size q = int (length xs)" "lk_head q = (if as = [] then None else Some (hd as))"
    "lk_tail q = (if as = [] then None else Some (last as))" using assms by (auto simp: lk_rep_def)
  let ?a = "lk_fresh q"
  have d: "distinct as" "length as = length xs" "?a \<notin> set as" using r(1) by (auto simp: lk_chain_def)
  note node = r(1) [unfolded lk_chain_def, THEN conjunct2, THEN conjunct2, THEN conjunct2, rule_format]
  show ?thesis
  proof (cases "as = []")
    case True
    then show ?thesis using r d by (simp add: lk_Enqueue_def lk_rep_def lk_chain_def Let_def exI [of _ "[?a]"])
  next
    case False
    let ?t = "last as" and ?nodes = "(lk_nodes q)(?a \<mapsto> \<lparr>qn_value = v, qn_next = None\<rparr>)"
    have t: "?t = as ! (length as - 1)" using False by (rule last_conv_nth)
    have ne: "?t \<noteq> ?a" using d(3) False last_in_set by metis
    have nt: "?nodes ?t = Some \<lparr>qn_value = xs ! (length as - 1), qn_next = None\<rparr>"
      using node [of "length as - 1"] False ne by (simp add: t)
    let ?q = "q\<lparr>lk_nodes := ?nodes(?t \<mapsto> \<lparr>qn_value = xs ! (length as - 1), qn_next = Some ?a\<rparr>), lk_fresh := ?a + 1,
      lk_tail := Some ?a, lk_size := lk_size q + 1\<rparr>"
    have "lk_Enqueue v q = Some ?q" using nt r False d(2) by (auto simp: lk_Enqueue_def Let_def)
    moreover have "lk_nodes ?q ((as @ [?a]) ! i) = Some \<lparr>qn_value = (xs @ [v]) ! i,
        qn_next = (if Suc i < length (as @ [?a]) then Some ((as @ [?a]) ! Suc i) else None)\<rparr>" if "i < length (as @ [?a])" for i
    proof (cases "i = length as")
      case True
      then show ?thesis using ne d(2) by (simp add: nth_append)
    next
      case False
      then have less: "i < length as" using that by simp
      then have na: "as ! i \<noteq> ?a" using d(3) nth_mem by metis
      show ?thesis
      proof (cases "Suc i = length as")
        case True
        then have "length as - 1 = i" by simp
        then show ?thesis using less True d(2) by (auto simp: nth_append t)
      next
        case j: False
        then have "as ! i \<noteq> ?t" unfolding t using d(1) less by (simp add: nth_eq_iff_index_eq)
        then show ?thesis using node [OF less] less na j d(2) by (auto simp: nth_append)
      qed
    qed
    moreover have "\<forall>a\<in>set (as @ [?a]). a < lk_fresh ?q" using r(1) by (auto simp: lk_chain_def)
    ultimately have "lk_Enqueue v q = Some ?q" "lk_chain ?q (as @ [?a]) (xs @ [v])" using d unfolding lk_chain_def by simp_all
    then show ?thesis using r False by (auto simp: lk_rep_def intro!: exI [of _ "as @ [?a]"])
  qed
qed

lemma lk_chain_tl:
  assumes "lk_chain q (a # as) (x # xs)"
  shows "lk_chain (q\<lparr>lk_head := h, lk_size := n, lk_tail := t\<rparr>) as xs"
proof -
  have "lk_nodes q (as ! i) = Some \<lparr>qn_value = xs ! i, qn_next = (if Suc i < length as then Some (as ! Suc i) else None)\<rparr>"
    if "i < length as" for i
    using assms [unfolded lk_chain_def, THEN conjunct2, THEN conjunct2, THEN conjunct2, rule_format, of "Suc i"] that by simp
  then show ?thesis using assms by (simp add: lk_chain_def)
qed

lemma lk_rep_Dequeue:
  assumes "lk_rep q (x # xs)"
  shows "\<exists>q'. lk_Dequeue q = Some (Some x, q') \<and> lk_rep q' xs"
proof -
  obtain bs where b: "lk_chain q bs (x # xs)" "lk_size q = int (length xs) + 1" "lk_head q = (if bs = [] then None else Some (hd bs))"
    "lk_tail q = (if bs = [] then None else Some (last bs))" using assms by (auto simp: lk_rep_def)
  then obtain a as where "bs = a # as" by (cases bs) (auto simp: lk_chain_def)
  then have r: "lk_chain q (a # as) (x # xs)" "lk_size q = int (length xs) + 1" "lk_head q = Some a" "lk_tail q = Some (last (a # as))"
    using b by simp_all
  have n: "lk_nodes q a = Some \<lparr>qn_value = x, qn_next = (if as = [] then None else Some (hd as))\<rparr>"
    using r(1) [unfolded lk_chain_def, THEN conjunct2, THEN conjunct2, THEN conjunct2, rule_format, of 0] by (simp add: hd_conv_nth)
  have len: "length as = length xs" using r(1) by (simp add: lk_chain_def)
  let ?q = "q\<lparr>lk_head := if as = [] then None else Some (hd as), lk_size := int (length xs),
    lk_tail := if xs = [] then None else Some (last (a # as))\<rparr>"
  have "lk_Dequeue q = Some (Some x, ?q)" using r n by (simp add: lk_Dequeue_def Let_def)
  moreover have "lk_rep ?q xs" using lk_chain_tl [OF r(1)] len unfolding lk_rep_def by (intro exI [of _ as]) auto
  ultimately show ?thesis by blast
qed

interpretation linked_fifo: fifo linked_ops lk_rep
proof unfold_locales
  show "lk_rep (qo_New linked_ops) []"
    by (simp add: linked_ops_def NewLinkedListQueue_def lk_rep_def lk_chain_def)
  show "\<exists>q'. qo_Enqueue linked_ops x q = Some q' \<and> lk_rep q' (xs @ [x])" if "lk_rep q xs" for q xs x
    using lk_rep_Enqueue [OF that] by (simp add: linked_ops_def)
  show "\<exists>q'. qo_Dequeue linked_ops q = Some (None, q') \<and> lk_rep q' []" if "lk_rep q []" for q
    using that by (auto simp: linked_ops_def lk_Dequeue_def lk_rep_def lk_chain_def)
  show "\<exists>q'. qo_Dequeue linked_ops q = Some (Some x, q') \<and> lk_rep q' xs" if "lk_rep q (x # xs)" for q x xs
    using lk_rep_Dequeue [OF that] by (simp add: linked_ops_def)
  show "qo_Peek linked_ops q = Some (case xs of [] \<Rightarrow> None | x # _ \<Rightarrow> Some x)" if "lk_rep q xs" for q xs
    using that by (fastforce simp: linked_ops_def lk_Peek_def lk_rep_def lk_chain_def hd_conv_nth split: list.splits)
  show "qo_Len linked_ops q = int (length xs)" if "lk_rep q xs" for q xs
    using that by (auto simp: linked_ops_def lk_Len_def lk_rep_def)
qed

section \<open>Ring buffer\<close>

record 'a ring_queue =
  rbq_items :: "'a list"
  rbq_head :: nat
  rbq_tail :: nat
  rbq_size :: nat

definition NewRingBufferQueue :: "'a \<Rightarrow> 'a ring_queue" where
  "NewRingBufferQueue zero = \<lparr>rbq_items = replicate 16 zero, rbq_head = 0, rbq_tail = 0, rbq_size = 0\<rparr>"

definition rbq_grow :: "'a \<Rightarrow> 'a ring_queue \<Rightarrow> 'a ring_queue" where
  "rbq_grow zero q =
     (let n = length (rbq_items q)
      in q\<lparr>rbq_items := map (\<lambda>i. rbq_items q ! ((rbq_head q + i) mod n)) [0..<rbq_size q] @ replicate (2 * n - rbq_size q) zero,
           rbq_head := 0, rbq_tail := rbq_size q\<rparr>)"

definition rbq_Enqueue :: "'a \<Rightarrow> 'a \<Rightarrow> 'a ring_queue \<Rightarrow> 'a ring_queue option" where
  "rbq_Enqueue zero v q =
     (let q = (if rbq_size q = length (rbq_items q) then rbq_grow zero q else q)
      in if rbq_tail q < length (rbq_items q) then
           Some (q\<lparr>rbq_items := (rbq_items q)[rbq_tail q := v], rbq_tail := (rbq_tail q + 1) mod length (rbq_items q),
             rbq_size := rbq_size q + 1\<rparr>)
         else None)"

definition rbq_Dequeue :: "'a \<Rightarrow> 'a ring_queue \<Rightarrow> ('a option \<times> 'a ring_queue) option" where
  "rbq_Dequeue zero q =
     (if rbq_size q = 0 then Some (None, q)
      else if rbq_head q < length (rbq_items q) then
        Some (Some (rbq_items q ! rbq_head q),
          q\<lparr>rbq_items := (rbq_items q)[rbq_head q := zero], rbq_head := (rbq_head q + 1) mod length (rbq_items q),
            rbq_size := rbq_size q - 1\<rparr>)
      else None)"

definition rbq_Peek :: "'a ring_queue \<Rightarrow> 'a option option" where
  "rbq_Peek q =
     (if rbq_size q = 0 then Some None
      else if rbq_head q < length (rbq_items q) then Some (Some (rbq_items q ! rbq_head q))
      else None)"

definition rbq_Len :: "'a ring_queue \<Rightarrow> int" where
  "rbq_Len q = int (rbq_size q)"

definition ring_ops :: "'a \<Rightarrow> ('a ring_queue, 'a) queue_ops" where
  "ring_ops zero = \<lparr>qo_New = NewRingBufferQueue zero, qo_Enqueue = rbq_Enqueue zero, qo_Dequeue = rbq_Dequeue zero,
     qo_Peek = rbq_Peek, qo_Len = rbq_Len\<rparr>"

definition rbq_rep :: "'a ring_queue \<Rightarrow> 'a list \<Rightarrow> bool" where
  "rbq_rep q xs \<longleftrightarrow>
     (let n = length (rbq_items q)
      in rbq_head q < n \<and> length xs \<le> n \<and> rbq_size q = length xs \<and> rbq_tail q = (rbq_head q + length xs) mod n \<and>
         (\<forall>i<length xs. rbq_items q ! ((rbq_head q + i) mod n) = xs ! i))"

lemma mod_add_inj:
  assumes "i < n" "j < n" "(h + i) mod n = (h + j) mod (n :: nat)"
  shows "i = j"
proof -
  have "(h + i) mod int n = (h + j) mod int n" using assms(3) by (metis of_nat_mod)
  then have "int i mod int n = int j mod int n" by (simp add: mod_eq_dvd_iff)
  then show ?thesis using assms(1,2) by simp
qed

lemma rbq_rep_grow:
  assumes "rbq_rep q xs"
  shows "rbq_rep (if rbq_size q = length (rbq_items q) then rbq_grow zero q else q) xs"
    and "length xs < length (rbq_items (if rbq_size q = length (rbq_items q) then rbq_grow zero q else q))"
  using assms by (auto simp: rbq_rep_def rbq_grow_def Let_def nth_append intro!: mod_less [symmetric])

lemma rbq_rep_put:
  assumes "rbq_rep q xs" "length xs < length (rbq_items q)"
  shows "rbq_rep (q\<lparr>rbq_items := (rbq_items q)[rbq_tail q := v], rbq_tail := (rbq_tail q + 1) mod length (rbq_items q),
    rbq_size := rbq_size q + 1\<rparr>) (xs @ [v])"
proof -
  let ?n = "length (rbq_items q)"
  have r: "rbq_head q < ?n" "rbq_size q = length xs" "rbq_tail q = (rbq_head q + length xs) mod ?n"
    and at: "\<And>i. i < length xs \<Longrightarrow> rbq_items q ! ((rbq_head q + i) mod ?n) = xs ! i"
    using assms(1) by (auto simp: rbq_rep_def Let_def)
  have n: "0 < ?n" using r(1) by linarith
  have "(rbq_items q)[rbq_tail q := v] ! ((rbq_head q + i) mod ?n) = (xs @ [v]) ! i" if "i < Suc (length xs)" for i
  proof (cases "i = length xs")
    case True
    then show ?thesis using r n by simp
  next
    case False
    then have "(rbq_head q + i) mod ?n \<noteq> rbq_tail q"
      using mod_add_inj [of i ?n "length xs" "rbq_head q"] that assms(2) r by auto
    then show ?thesis using at [of i] that False by (simp add: nth_append)
  qed
  then show ?thesis using r assms(2) by (simp add: rbq_rep_def Let_def mod_Suc_eq)
qed

lemma rbq_rep_take:
  assumes "rbq_rep q (x # xs)"
  shows "rbq_rep (q\<lparr>rbq_items := (rbq_items q)[rbq_head q := zero], rbq_head := (rbq_head q + 1) mod length (rbq_items q),
    rbq_size := rbq_size q - 1\<rparr>) xs"
proof -
  let ?n = "length (rbq_items q)"
  have r: "rbq_head q < ?n" "length xs < ?n" "rbq_size q = Suc (length xs)" "rbq_tail q = (rbq_head q + Suc (length xs)) mod ?n"
    and at: "\<And>i. i < Suc (length xs) \<Longrightarrow> rbq_items q ! ((rbq_head q + i) mod ?n) = (x # xs) ! i"
    using assms by (auto simp: rbq_rep_def Let_def)
  have n: "0 < ?n" using r(1) by linarith
  have "(rbq_items q)[rbq_head q := zero] ! ((Suc (rbq_head q) mod ?n + i) mod ?n) = xs ! i" if "i < length xs" for i
  proof -
    have e: "(Suc (rbq_head q) mod ?n + i) mod ?n = (rbq_head q + Suc i) mod ?n" by (simp add: mod_add_left_eq)
    have "(rbq_head q + Suc i) mod ?n \<noteq> rbq_head q"
      using mod_add_inj [of "Suc i" ?n 0 "rbq_head q"] that r n by (auto simp del: add_Suc_right)
    then show ?thesis unfolding e using at [of "Suc i"] that by simp
  qed
  then show ?thesis using r n by (simp add: rbq_rep_def Let_def mod_add_left_eq)
qed

interpretation ring_fifo: fifo "ring_ops zero" rbq_rep for zero
proof unfold_locales
  show "rbq_rep (qo_New (ring_ops zero)) []" by (simp add: ring_ops_def NewRingBufferQueue_def rbq_rep_def)
  show "\<exists>q'. qo_Enqueue (ring_ops zero) x q = Some q' \<and> rbq_rep q' (xs @ [x])" if "rbq_rep q xs" for q xs x
  proof -
    let ?q = "if rbq_size q = length (rbq_items q) then rbq_grow zero q else q"
    have "rbq_tail ?q < length (rbq_items ?q)"
      using rbq_rep_grow [OF that, of zero] unfolding rbq_rep_def Let_def by (metis less_nat_zero_code mod_less_divisor neq0_conv)
    then show ?thesis using rbq_rep_put [OF rbq_rep_grow [OF that, of zero], of x] by (simp add: ring_ops_def rbq_Enqueue_def Let_def cong: if_cong)
  qed
  show "\<exists>q'. qo_Dequeue (ring_ops zero) q = Some (None, q') \<and> rbq_rep q' []" if "rbq_rep q []" for q
    using that by (auto simp: ring_ops_def rbq_Dequeue_def rbq_rep_def Let_def)
  show "\<exists>q'. qo_Dequeue (ring_ops zero) q = Some (Some x, q') \<and> rbq_rep q' xs" if "rbq_rep q (x # xs)" for q x xs
  proof -
    have r: "rbq_head q < length (rbq_items q)" "rbq_size q \<noteq> 0" using that by (auto simp: rbq_rep_def Let_def)
    moreover have "rbq_items q ! ((rbq_head q + 0) mod length (rbq_items q)) = x"
      using that unfolding rbq_rep_def Let_def by (metis length_greater_0_conv list.discI nth_Cons_0)
    ultimately have "rbq_head q < length (rbq_items q)" "rbq_size q \<noteq> 0" "rbq_items q ! rbq_head q = x" by simp_all
    then show ?thesis using rbq_rep_take [OF that, of zero] by (simp add: ring_ops_def rbq_Dequeue_def)
  qed
  show "qo_Peek (ring_ops zero) q = Some (case xs of [] \<Rightarrow> None | x # _ \<Rightarrow> Some x)" if "rbq_rep q xs" for q xs
    using that by (force simp: ring_ops_def rbq_Peek_def rbq_rep_def Let_def split: list.splits)
  show "qo_Len (ring_ops zero) q = int (length xs)" if "rbq_rep q xs" for q xs
    using that by (simp add: ring_ops_def rbq_Len_def rbq_rep_def Let_def)
qed

end
