(* ===== verification/Packet_Router.thy ===== *)
theory Packet_Router
  imports Packet_Queues
begin

text \<open>
  The packet router (\<open>04-day/project\<close>): packets (\<open>internal/packet\<close>), the default classifier
  (\<open>internal/classifier\<close>) and the router over a queue for each priority (\<open>internal/router\<close>).

  A packet is an address of the memory, as the router changes the packets it is given; the nil
  pointer is \<open>None\<close>.  An outer \<open>None\<close> is a panic.  The classifier reads the packet that it is given,
  \<open>now\<close> is the time of the call.
\<close>

section \<open>Packets\<close>

record tcp_flags =
  fl_SYN :: bool
  fl_ACK :: bool
  fl_FIN :: bool
  fl_RST :: bool

record packet =
  pk_Payload :: string
  pk_ID :: int
  pk_TTL :: int
  pk_Priority :: int
  pk_SourceIP :: string
  pk_DestinationIP :: string
  pk_Timestamp :: int
  pk_Protocol :: string
  pk_TCPFlags :: tcp_flags
  pk_ICMPType :: string

definition HighestPriority :: int where
  "HighestPriority = 1"

definition LowestPriority :: int where
  "LowestPriority = 5"

definition PriorityLevels :: nat where
  "PriorityLevels = 5"

definition NormalizePriority :: "int \<Rightarrow> int" where
  "NormalizePriority priority =
     (if priority < HighestPriority then HighestPriority
      else if LowestPriority < priority then LowestPriority
      else priority)"

definition DefaultClassifier :: "packet option \<Rightarrow> int" where
  "DefaultClassifier p =
     (case p of
        None \<Rightarrow> LowestPriority
      | Some p \<Rightarrow>
          if pk_Protocol p = ''ICMP'' \<and> pk_ICMPType p = ''PING'' then HighestPriority
          else if pk_Protocol p = ''TCP'' \<and> fl_SYN (pk_TCPFlags p) \<and> \<not> fl_ACK (pk_TCPFlags p) then 2
          else NormalizePriority (pk_Priority p))"

section \<open>Router\<close>

datatype drop_reason = TTLExpired | NilPacket

record drop_event =
  dr_PacketID :: int
  dr_Reason :: drop_reason
  dr_Timestamp :: int
  dr_Packet :: "nat option"

record 'q router =
  rt_queues :: "'q list"
  rt_classifier :: "packet option \<Rightarrow> int"
  rt_processingDelay :: int
  rt_drops :: "drop_event list"

type_synonym packets = "nat \<Rightarrow> packet"

definition NewRouter :: "('q, nat option) queue_ops \<Rightarrow> (packet option \<Rightarrow> int) \<Rightarrow> 'q router" where
  "NewRouter ops cls =
     \<lparr>rt_queues = replicate PriorityLevels (qo_New ops), rt_classifier = cls, rt_processingDelay = 0, rt_drops = []\<rparr>"

definition logDrop :: "int \<Rightarrow> packets \<Rightarrow> nat option \<Rightarrow> drop_reason \<Rightarrow> 'q router \<Rightarrow> 'q router" where
  "logDrop now mem p reason r =
     r\<lparr>rt_drops := rt_drops r @
        [\<lparr>dr_PacketID = (case p of None \<Rightarrow> 0 | Some a \<Rightarrow> pk_ID (mem a)), dr_Reason = reason, dr_Timestamp = now, dr_Packet = p\<rparr>]\<rparr>"

definition rt_Enqueue ::
  "('q, nat option) queue_ops \<Rightarrow> int \<Rightarrow> nat option \<Rightarrow> packets \<times> 'q router \<Rightarrow> (bool \<times> packets \<times> 'q router) option" where
  "rt_Enqueue ops now p = (\<lambda>(mem, r).
     (case p of
        None \<Rightarrow> Some (False, mem, logDrop now mem None NilPacket r)
      | Some a \<Rightarrow>
          if pk_TTL (mem a) \<le> 0 then Some (False, mem, logDrop now mem p TTLExpired r)
          else (let priority = NormalizePriority (rt_classifier r (Some (mem a)));
                    mem = mem(a := (mem a)\<lparr>pk_Priority := priority\<rparr>);
                    i = nat (priority - 1)
                in if i < length (rt_queues r) then
                     map_option (\<lambda>q. (True, mem, r\<lparr>rt_queues := (rt_queues r)[i := q]\<rparr>)) (qo_Enqueue ops p (rt_queues r ! i))
                   else None)))"

text \<open>The first queue that is not empty.\<close>

fun dequeue_first :: "('q, 'a) queue_ops \<Rightarrow> 'q list \<Rightarrow> ('a option \<times> 'q list) option" where
  "dequeue_first ops [] = Some (None, [])"
| "dequeue_first ops (q # qs) =
     (case qo_Dequeue ops q of
        None \<Rightarrow> None
      | Some (Some p, q) \<Rightarrow> Some (Some p, q # qs)
      | Some (None, q) \<Rightarrow> map_option (\<lambda>(p, qs). (p, q # qs)) (dequeue_first ops qs))"

definition rt_Dequeue :: "('q, nat option) queue_ops \<Rightarrow> 'q router \<Rightarrow> (nat option option \<times> 'q router) option" where
  "rt_Dequeue ops r = map_option (\<lambda>(p, qs). (p, r\<lparr>rt_queues := qs\<rparr>)) (dequeue_first ops (rt_queues r))"

definition rt_Len :: "('q, nat option) queue_ops \<Rightarrow> 'q router \<Rightarrow> int" where
  "rt_Len ops r = sum_list (map (qo_Len ops) (rt_queues r))"

text \<open>Pairs of a priority and a length.\<close>

definition rt_Status :: "('q, nat option) queue_ops \<Rightarrow> 'q router \<Rightarrow> (int \<times> int) list" where
  "rt_Status ops r = map (\<lambda>i. (int i + 1, qo_Len ops (rt_queues r ! i))) [0..<PriorityLevels]"

text \<open>The packet, nil when it was dropped, and whether there was one.\<close>

definition rt_ProcessNext ::
  "('q, nat option) queue_ops \<Rightarrow> int \<Rightarrow> packets \<times> 'q router \<Rightarrow> (nat option \<times> bool \<times> packets \<times> 'q router) option" where
  "rt_ProcessNext ops now = (\<lambda>(mem, r).
     (case rt_Dequeue ops r of
        None \<Rightarrow> None
      | Some (None, r) \<Rightarrow> Some (None, False, mem, r)
      | Some (Some None, r) \<Rightarrow> None
      | Some (Some (Some a), r) \<Rightarrow>
          (let mem = mem(a := (mem a)\<lparr>pk_TTL := wrap64 (pk_TTL (mem a) - 1)\<rparr>)
           in if pk_TTL (mem a) \<le> 0 then Some (None, True, mem, logDrop now mem (Some a) TTLExpired r)
              else Some (Some a, True, mem, r))))"

definition SetProcessingDelay :: "int \<Rightarrow> 'q router \<Rightarrow> 'q router" where
  "SetProcessingDelay delay r = r\<lparr>rt_processingDelay := delay\<rparr>"

definition rt_Drops :: "'q router \<Rightarrow> drop_event list" where
  "rt_Drops r = rt_drops r"

end
