(* ===== verification/Router_Correct.thy ===== *)
theory Router_Correct
  imports Packet_Router
begin

text \<open>
  The router, over any queue with the laws of \<open>fifo\<close>, serves the packets by their class and, within
  a class, in the order of their arrival.
\<close>

section \<open>Specification\<close>

text \<open>A list of the packets that wait, each with its class, in the order of their arrival.\<close>

type_synonym waiting = "(int \<times> nat) list"

record wait_state =
  ws_mem :: packets
  ws_wait :: waiting
  ws_drops :: "drop_event list"

text \<open>The first packet of the best class that is there, and the others.\<close>

fun take_best :: "waiting \<Rightarrow> ((int \<times> nat) \<times> waiting) option" where
  "take_best [] = None"
| "take_best (e # es) =
     (case take_best es of
        None \<Rightarrow> Some (e, [])
      | Some (b, rest) \<Rightarrow> if fst b < fst e then Some (b, e # rest) else Some (e, es))"

datatype router_call =
    CallEnqueue int "nat option"
  | CallProcess int
  | CallDequeue
  | CallDelay int
  | CallWrite nat packet

datatype router_result = Accepted bool | Processed "nat option" bool | Dequeued "nat option option" | NoResult

definition drop_of :: "int \<Rightarrow> packets \<Rightarrow> nat option \<Rightarrow> drop_reason \<Rightarrow> drop_event" where
  "drop_of now mem p reason =
     \<lparr>dr_PacketID = (case p of None \<Rightarrow> 0 | Some a \<Rightarrow> pk_ID (mem a)), dr_Reason = reason, dr_Timestamp = now, dr_Packet = p\<rparr>"

fun spec_call :: "(packet option \<Rightarrow> int) \<Rightarrow> router_call \<Rightarrow> wait_state \<Rightarrow> router_result \<times> wait_state" where
  "spec_call cls (CallEnqueue now p) s =
     (case p of
        None \<Rightarrow> (Accepted False, s\<lparr>ws_drops := ws_drops s @ [drop_of now (ws_mem s) None NilPacket]\<rparr>)
      | Some a \<Rightarrow>
          if pk_TTL (ws_mem s a) \<le> 0 then (Accepted False, s\<lparr>ws_drops := ws_drops s @ [drop_of now (ws_mem s) p TTLExpired]\<rparr>)
          else (let c = NormalizePriority (cls (Some (ws_mem s a)))
                in (Accepted True, s\<lparr>ws_mem := (ws_mem s)(a := (ws_mem s a)\<lparr>pk_Priority := c\<rparr>), ws_wait := ws_wait s @ [(c, a)]\<rparr>)))"
| "spec_call cls (CallProcess now) s =
     (case take_best (ws_wait s) of
        None \<Rightarrow> (Processed None False, s)
      | Some ((_, a), rest) \<Rightarrow>
          (let mem = (ws_mem s)(a := (ws_mem s a)\<lparr>pk_TTL := wrap64 (pk_TTL (ws_mem s a) - 1)\<rparr>);
               s = s\<lparr>ws_mem := mem, ws_wait := rest\<rparr>
           in if pk_TTL (mem a) \<le> 0 then (Processed None True, s\<lparr>ws_drops := ws_drops s @ [drop_of now mem (Some a) TTLExpired]\<rparr>)
              else (Processed (Some a) True, s)))"
| "spec_call cls CallDequeue s =
     (case take_best (ws_wait s) of
        None \<Rightarrow> (Dequeued None, s)
      | Some ((_, a), rest) \<Rightarrow> (Dequeued (Some (Some a)), s\<lparr>ws_wait := rest\<rparr>))"
| "spec_call cls (CallDelay d) s = (NoResult, s)"
| "spec_call cls (CallWrite a p) s = (NoResult, s\<lparr>ws_mem := (ws_mem s)(a := p)\<rparr>)"

fun router_step :: "('q, nat option) queue_ops \<Rightarrow> router_call \<Rightarrow> packets \<times> 'q router \<Rightarrow> (router_result \<times> packets \<times> 'q router) option" where
  "router_step ops (CallEnqueue now p) s = map_option (\<lambda>(ok, s). (Accepted ok, s)) (rt_Enqueue ops now p s)"
| "router_step ops (CallProcess now) s = map_option (\<lambda>(p, ok, s). (Processed p ok, s)) (rt_ProcessNext ops now s)"
| "router_step ops CallDequeue s = map_option (\<lambda>(p, r). (Dequeued p, fst s, r)) (rt_Dequeue ops (snd s))"
| "router_step ops (CallDelay d) s = Some (NoResult, fst s, SetProcessingDelay d (snd s))"
| "router_step ops (CallWrite a p) s = Some (NoResult, (fst s)(a := p), snd s)"

text \<open>What is seen after a call: its result, the packets, the drops, the length and the status.\<close>

record router_view =
  vw_result :: router_result
  vw_mem :: packets
  vw_drops :: "drop_event list"
  vw_len :: int
  vw_status :: "(int \<times> int) list"

definition count_class :: "int \<Rightarrow> waiting \<Rightarrow> int" where
  "count_class c es = int (length (filter (\<lambda>e. fst e = c) es))"

fun spec_views :: "(packet option \<Rightarrow> int) \<Rightarrow> wait_state \<Rightarrow> router_call list \<Rightarrow> router_view list" where
  "spec_views cls s [] = []"
| "spec_views cls s (c # cs) =
     (let (res, s) = spec_call cls c s
      in \<lparr>vw_result = res, vw_mem = ws_mem s, vw_drops = ws_drops s, vw_len = int (length (ws_wait s)),
           vw_status = map (\<lambda>i. (i, count_class i (ws_wait s))) [1, 2, 3, 4, 5]\<rparr> # spec_views cls s cs)"

fun router_views :: "('q, nat option) queue_ops \<Rightarrow> packets \<times> 'q router \<Rightarrow> router_call list \<Rightarrow> router_view list option" where
  "router_views ops s [] = Some []"
| "router_views ops s (c # cs) =
     (case router_step ops c s of
        None \<Rightarrow> None
      | Some (res, mem, r) \<Rightarrow>
          map_option (\<lambda>vs. \<lparr>vw_result = res, vw_mem = mem, vw_drops = rt_Drops r, vw_len = rt_Len ops r, vw_status = rt_Status ops r\<rparr> # vs)
            (router_views ops (mem, r) cs))"

section \<open>The best packet\<close>

definition of_class :: "int \<Rightarrow> waiting \<Rightarrow> nat option list" where
  "of_class c es = map (\<lambda>e. Some (snd e)) (filter (\<lambda>e. fst e = c) es)"

lemma of_class_append: "of_class c (es @ [e]) = of_class c es @ (if fst e = c then [Some (snd e)] else [])"
  by (simp add: of_class_def)

lemma take_best_None: "take_best es = None \<longleftrightarrow> es = []"
  by (cases es) (auto split: option.splits)

lemma take_best_class:
  "take_best es = Some (b, rest) \<Longrightarrow>
     of_class (fst b) es = Some (snd b) # of_class (fst b) rest \<and> (\<forall>c. c \<noteq> fst b \<longrightarrow> of_class c rest = of_class c es) \<and>
     (\<forall>e\<in>set es. fst b \<le> fst e) \<and> set rest \<subseteq> set es \<and> b \<in> set es \<and> length es = Suc (length rest)"
proof (induction es arbitrary: b rest)
  case Nil
  then show ?case by simp
next
  case (Cons e es)
  show ?case
  proof (cases "take_best es")
    case None
    then show ?thesis using Cons.prems by (auto simp: take_best_None of_class_def)
  next
    case (Some br)
    then obtain b' rest' where br: "take_best es = Some (b', rest')" by (cases br) auto
    note IH = Cons.IH [OF br]
    show ?thesis
    proof (cases "fst b' < fst e")
      case True
      then have "b = b'" "rest = e # rest'" using br Cons.prems by auto
      then show ?thesis using IH True by (auto simp: of_class_def)
    next
      case False
      then have "b = e" "rest = es" using br Cons.prems by auto
      then show ?thesis using IH False by (force simp: of_class_def)
    qed
  qed
qed

lemma of_class_Nil: "of_class c es = [] \<longleftrightarrow> (\<forall>e\<in>set es. fst e \<noteq> c)"
  by (auto simp: of_class_def filter_empty_conv)

lemma length_of_class: "int (length (of_class c es)) = count_class c es"
  by (simp add: of_class_def count_class_def)

lemma classes_length:
  "\<forall>e\<in>set es. 1 \<le> fst e \<and> fst e \<le> 5 \<Longrightarrow>
     count_class 1 es + count_class 2 es + count_class 3 es + count_class 4 es + count_class 5 es = int (length es)"
proof (induction es)
  case Nil
  then show ?case by (simp add: count_class_def)
next
  case (Cons e es)
  then have "fst e = 1 \<or> fst e = 2 \<or> fst e = 3 \<or> fst e = 4 \<or> fst e = 5" by fastforce
  then show ?case using Cons by (auto simp: count_class_def)
qed

section \<open>The queues of the router\<close>

context fifo
begin

lemma dequeue_first_skip:
  "(\<And>i. i < length qs \<Longrightarrow> rep (qs ! i) (xss ! i)) \<Longrightarrow> length xss = length qs \<Longrightarrow>
     (\<And>i. i < k \<Longrightarrow> xss ! i = []) \<Longrightarrow> k < length qs \<Longrightarrow> xss ! k = x # xs \<Longrightarrow>
     \<exists>qs'. dequeue_first ops qs = Some (Some x, qs') \<and> length qs' = length qs \<and>
       (\<forall>i<length qs. rep (qs' ! i) ((xss[k := xs]) ! i))"
proof (induction qs arbitrary: xss k)
  case Nil
  then show ?case by simp
next
  case (Cons q qs)
  obtain ys yss where y: "xss = ys # yss" "length yss = length qs" using Cons.prems(2) by (cases xss) auto
  have q: "rep q ys" using Cons.prems(1) [of 0] y by simp
  have tl: "rep (qs ! i) (yss ! i)" if "i < length qs" for i using Cons.prems(1) [of "Suc i"] y that by simp
  show ?case
  proof (cases k)
    case 0
    then have "ys = x # xs" using Cons.prems(5) y by simp
    then obtain q' where "qo_Dequeue ops q = Some (Some x, q')" "rep q' xs" using dequeue_first q by blast
    then show ?thesis using tl y 0 by (auto simp: nth_Cons split: nat.splits)
  next
    case (Suc j)
    have ys: "ys = []" using Cons.prems(3) [of 0] y Suc by simp
    obtain q' where q': "qo_Dequeue ops q = Some (None, q')" "rep q' []" using dequeue_empty q ys by blast
    obtain qs' where "dequeue_first ops qs = Some (Some x, qs')" "length qs' = length qs" "\<forall>i<length qs. rep (qs' ! i) ((yss[j := xs]) ! i)"
      using Cons.IH [OF tl y(2), of j] Cons.prems(3) [of "Suc _"] Cons.prems(4,5) y Suc by auto
    then show ?thesis using q' y ys Suc by (auto simp: nth_Cons split: nat.splits)
  qed
qed

lemma dequeue_first_none:
  "(\<And>i. i < length qs \<Longrightarrow> rep (qs ! i) []) \<Longrightarrow>
     \<exists>qs'. dequeue_first ops qs = Some (None, qs') \<and> length qs' = length qs \<and> (\<forall>i<length qs. rep (qs' ! i) [])"
proof (induction qs)
  case Nil
  then show ?case by simp
next
  case (Cons q qs)
  obtain q' where q': "qo_Dequeue ops q = Some (None, q')" "rep q' []" using dequeue_empty Cons.prems [of 0] by auto
  obtain qs' where "dequeue_first ops qs = Some (None, qs')" "length qs' = length qs" "\<forall>i<length qs. rep (qs' ! i) []"
    using Cons.IH Cons.prems [of "Suc _"] by auto
  then show ?case using q' by (auto simp: nth_Cons split: nat.splits)
qed

end

section \<open>The router keeps the waiting packets\<close>

definition classes_ok :: "waiting \<Rightarrow> bool" where
  "classes_ok es \<longleftrightarrow> (\<forall>e\<in>set es. 1 \<le> fst e \<and> fst e \<le> 5)"

lemma NormalizePriority_range: "1 \<le> NormalizePriority p \<and> NormalizePriority p \<le> 5"
  by (simp add: NormalizePriority_def HighestPriority_def LowestPriority_def)

text \<open>The router over a queue of packets.\<close>

locale router_queue = fifo ops rep
  for ops :: "('q, nat option) queue_ops" and rep :: "'q \<Rightarrow> nat option list \<Rightarrow> bool"
begin

definition queues_rel :: "'q list \<Rightarrow> waiting \<Rightarrow> bool" where
  "queues_rel qs es \<longleftrightarrow> length qs = 5 \<and> (\<forall>i<5. rep (qs ! i) (of_class (int i + 1) es)) \<and> classes_ok es"

definition router_rel :: "(packet option \<Rightarrow> int) \<Rightarrow> wait_state \<Rightarrow> packets \<times> 'q router \<Rightarrow> bool" where
  "router_rel cls s t \<longleftrightarrow>
     queues_rel (rt_queues (snd t)) (ws_wait s) \<and> fst t = ws_mem s \<and> rt_drops (snd t) = ws_drops s \<and> rt_classifier (snd t) = cls"

lemma queues_rel_put:
  assumes "queues_rel qs es" "1 \<le> c" "c \<le> 5"
  shows "\<exists>q. qo_Enqueue ops (Some a) (qs ! nat (c - 1)) = Some q \<and> queues_rel (qs[nat (c - 1) := q]) (es @ [(c, a)])"
proof -
  let ?i = "nat (c - 1)"
  have i: "?i < 5" "int ?i + 1 = c" using assms(2,3) by auto
  obtain q where q: "qo_Enqueue ops (Some a) (qs ! ?i) = Some q" "rep q (of_class c es @ [Some a])"
    using enqueue_last assms(1) i unfolding queues_rel_def by metis
  have "rep (qs[?i := q] ! j) (of_class (int j + 1) (es @ [(c, a)]))" if "j < 5" for j
    using assms(1) q(2) i that by (cases "j = ?i") (auto simp: queues_rel_def of_class_append)
  then show ?thesis using q(1) assms by (auto simp: queues_rel_def classes_ok_def)
qed

lemma queues_rel_take:
  assumes "queues_rel qs es"
  shows "\<exists>qs'. case take_best es of
           None \<Rightarrow> dequeue_first ops qs = Some (None, qs') \<and> queues_rel qs' es
         | Some ((c, a), rest) \<Rightarrow> dequeue_first ops qs = Some (Some (Some a), qs') \<and> queues_rel qs' rest"
proof (cases "take_best es")
  case None
  then have "es = []" by (simp add: take_best_None)
  then show ?thesis using dequeue_first_none [of qs] assms None by (auto simp: queues_rel_def of_class_def)
next
  case (Some br)
  then obtain c a rest where b: "take_best es = Some ((c, a), rest)" by (cases br) auto
  note cl = take_best_class [OF b]
  let ?xss = "map (\<lambda>i. of_class (int i + 1) es) [0..<5]" and ?k = "nat (c - 1)"
  have c: "1 \<le> c" "c \<le> 5" using cl assms by (auto simp: queues_rel_def classes_ok_def)
  then have k: "?k < 5" "int ?k + 1 = c" by auto
  have "of_class (int i + 1) es = []" if "i < ?k" for i using cl that by (fastforce simp: of_class_Nil)
  then obtain qs' where qs': "dequeue_first ops qs = Some (Some (Some a), qs')" "length qs' = 5"
    "\<forall>i<5. rep (qs' ! i) ((?xss[?k := of_class c rest]) ! i)"
    using dequeue_first_skip [of qs ?xss ?k "Some a" "of_class c rest"] assms k cl by (auto simp: queues_rel_def)
  have "rep (qs' ! i) (of_class (int i + 1) rest)" if "i < 5" for i
    using qs'(3) [rule_format, OF that] that cl k by (cases "i = ?k") auto
  then show ?thesis using qs' b cl assms by (auto simp: queues_rel_def classes_ok_def)
qed

lemma router_rel_new: "router_rel cls \<lparr>ws_mem = mem, ws_wait = [], ws_drops = []\<rparr> (mem, NewRouter ops cls)"
  using new_empty by (simp add: router_rel_def queues_rel_def NewRouter_def PriorityLevels_def of_class_def classes_ok_def)

lemma router_rel_view:
  assumes "router_rel cls s (mem, r)"
  shows "rt_Len ops r = int (length (ws_wait s))" "rt_Status ops r = map (\<lambda>i. (i, count_class i (ws_wait s))) [1, 2, 3, 4, 5]"
proof -
  have r: "length (rt_queues r) = 5" "classes_ok (ws_wait s)" and rep: "\<And>i. i < 5 \<Longrightarrow> rep (rt_queues r ! i) (of_class (int i + 1) (ws_wait s))"
    using assms by (auto simp: router_rel_def queues_rel_def)
  have five: "[0..<5] = [0, 1, 2, 3, 4 :: nat]" by code_simp
  have len: "qo_Len ops (rt_queues r ! i) = count_class (int i + 1) (ws_wait s)" if "i < 5" for i
    using len_length [OF rep [OF that]] by (simp add: length_of_class)
  have qs: "rt_queues r = map (\<lambda>i. rt_queues r ! i) [0, 1, 2, 3, 4]" using r(1) by (metis five map_nth)
  have "rt_Len ops r = sum_list (map (qo_Len ops) (map (\<lambda>i. rt_queues r ! i) [0, 1, 2, 3, 4]))"
    unfolding rt_Len_def using qs by (rule arg_cong)
  then show "rt_Len ops r = int (length (ws_wait s))"
    using classes_length [of "ws_wait s"] r(2) len [of 0] len [of 1] len [of 2] len [of 3] len [of 4]
    by (simp add: classes_ok_def)
  show "rt_Status ops r = map (\<lambda>i. (i, count_class i (ws_wait s))) [1, 2, 3, 4, 5]"
    using len [of 0] len [of 1] len [of 2] len [of 3] len [of 4] by (simp add: rt_Status_def PriorityLevels_def five)
qed

lemma router_rel_step:
  assumes "router_rel cls s (mem, r)" "spec_call cls c s = (res, s')"
  shows "case router_step ops c (mem, r) of None \<Rightarrow> False | Some (res', mem', r') \<Rightarrow> res' = res \<and> router_rel cls s' (mem', r')"
proof (cases c)
  case (CallEnqueue now p)
  have r: "mem = ws_mem s" "rt_drops r = ws_drops s" "rt_classifier r = cls" "queues_rel (rt_queues r) (ws_wait s)"
    using assms(1) by (simp_all add: router_rel_def)
  have len: "length (rt_queues r) = 5" using r by (simp add: queues_rel_def)
  show ?thesis
  proof (cases "p = None \<or> pk_TTL (mem (the p)) \<le> 0")
    case True
    then show ?thesis using assms(2) r CallEnqueue
      by (auto simp: rt_Enqueue_def router_rel_def logDrop_def drop_of_def split: option.splits)
  next
    case False
    then obtain a where a: "p = Some a" "\<not> pk_TTL (ws_mem s a) \<le> 0" using r by auto
    let ?c = "NormalizePriority (cls (Some (ws_mem s a)))"
    have i: "nat (?c - 1) < 5" using NormalizePriority_range [of "cls (Some (ws_mem s a))"] by linarith
    obtain q where "qo_Enqueue ops (Some a) (rt_queues r ! nat (?c - 1)) = Some q"
      "queues_rel ((rt_queues r)[nat (?c - 1) := q]) (ws_wait s @ [(?c, a)])"
      using queues_rel_put [OF r(4)] NormalizePriority_range by blast
    then show ?thesis using assms(2) r a i len CallEnqueue by (auto simp: rt_Enqueue_def router_rel_def Let_def)
  qed
next
  case (CallProcess now)
  have r: "mem = ws_mem s" "rt_drops r = ws_drops s" "rt_classifier r = cls" "queues_rel (rt_queues r) (ws_wait s)"
    using assms(1) by (simp_all add: router_rel_def)
  show ?thesis using queues_rel_take [OF r(4)] assms(2) r CallProcess
    by (auto simp: rt_ProcessNext_def rt_Dequeue_def router_rel_def logDrop_def drop_of_def Let_def split: option.splits if_splits)
next
  case CallDequeue
  have r: "mem = ws_mem s" "rt_drops r = ws_drops s" "rt_classifier r = cls" "queues_rel (rt_queues r) (ws_wait s)"
    using assms(1) by (simp_all add: router_rel_def)
  show ?thesis using queues_rel_take [OF r(4)] assms(2) r CallDequeue
    by (auto simp: rt_Dequeue_def router_rel_def split: option.splits)
next
  case (CallDelay d)
  then show ?thesis using assms by (auto simp: SetProcessingDelay_def router_rel_def)
next
  case (CallWrite a p)
  then show ?thesis using assms by (auto simp: router_rel_def)
qed

lemma router_views_spec:
  "router_rel cls s (mem, r) \<Longrightarrow> router_views ops (mem, r) cs = Some (spec_views cls s cs)"
proof (induction cs arbitrary: s mem r)
  case Nil
  then show ?case by simp
next
  case (Cons c cs)
  obtain res s' where sp: "spec_call cls c s = (res, s')" by (cases "spec_call cls c s")
  obtain mem' r' where st: "router_step ops c (mem, r) = Some (res, mem', r')" "router_rel cls s' (mem', r')"
    using router_rel_step [OF Cons.prems sp] by (auto split: option.splits)
  have "mem' = ws_mem s'" "rt_drops r' = ws_drops s'" using st(2) by (simp_all add: router_rel_def)
  then show ?case using sp st(1) Cons.IH [OF st(2)] router_rel_view [OF st(2)] by (simp add: rt_Drops_def)
qed

end

interpretation slice_router: router_queue slice_ops "\<lambda>q xs. sq_items q = xs"
  by unfold_locales

interpretation linked_router: router_queue linked_ops lk_rep
  by unfold_locales

interpretation ring_router: router_queue "ring_ops None" rbq_rep
  by unfold_locales

section \<open>Properties\<close>

text \<open>C17. Whichever of the three queues it uses (slice, linked list, growing ring buffer), the router
behaves as one list of the waiting packets: a packet that is accepted joins with the class that the
classifier gives it, clamped to 1..5 and written to the packet; each call that takes a packet gets
the earliest of the best class that is waiting; its time to live is lowered by one, and a packet
whose time to live is used up is dropped, at either end, with its reason; nothing is lost or
invented, the lengths are exact, and no call panics. The caller may write to the packets at any
moment, and may enqueue one twice.\<close>

theorem router_correct:
  "router_views slice_ops (mem, NewRouter slice_ops cls) cs = Some (spec_views cls \<lparr>ws_mem = mem, ws_wait = [], ws_drops = []\<rparr> cs) \<and>
   router_views linked_ops (mem, NewRouter linked_ops cls) cs = Some (spec_views cls \<lparr>ws_mem = mem, ws_wait = [], ws_drops = []\<rparr> cs) \<and>
   router_views (ring_ops None) (mem, NewRouter (ring_ops None) cls) cs = Some (spec_views cls \<lparr>ws_mem = mem, ws_wait = [], ws_drops = []\<rparr> cs)"
  using slice_router.router_views_spec [OF slice_router.router_rel_new] linked_router.router_views_spec [OF linked_router.router_rel_new]
    ring_router.router_views_spec [OF ring_router.router_rel_new] by blast

end
