(* ===== verification/Cpu_Scheduler.thy ===== *)
theory Cpu_Scheduler
  imports Heaps Go_Float
begin

text \<open>
  The CPU scheduler (\<open>10-day/cpu-scheduler/scheduler\<close>): tasks, the heap of waiting tasks with its
  notification channel, aging, the producer, the metrics, and the two schedulers.

  A task is an address of the memory, as the schedulers and the aging change the tasks they hold;
  nothing pushes a nil task.  The goroutines are cut at their locks, channel operations and sleeps:
  what lies between two cuts is one step.  What is printed is left out.
\<close>

section \<open>Tasks\<close>

datatype task_status = StatusReady | StatusRunning | StatusCompleted | StatusStarved

record task =
  ts_PID :: int
  ts_Name :: string
  ts_Priority :: int
  ts_CPUBurst :: duration
  ts_Deadline :: gotime
  ts_ArrivalTime :: gotime
  ts_WaitTime :: duration
  ts_Status :: task_status

type_synonym tasks = "nat \<Rightarrow> task"

definition LessTask :: "task \<Rightarrow> task \<Rightarrow> bool" where
  "LessTask a b \<longleftrightarrow>
     (if ts_Priority a \<noteq> ts_Priority b then ts_Priority a < ts_Priority b
      else ts_ArrivalTime a < ts_ArrivalTime b)"

definition task_less :: "tasks \<Rightarrow> nat \<Rightarrow> nat \<Rightarrow> bool" where
  "task_less mem a b = LessTask (mem a) (mem b)"

section \<open>Metrics\<close>

record sched_metrics =
  sm_StartedAt :: gotime
  sm_FinishedAt :: gotime
  sm_CompletedTasks :: int
  sm_ContextSwitches :: int
  sm_StarvationCount :: int
  sm_WaitTimes :: "int \<Rightarrow> duration list"

definition NewSchedulerMetrics :: "gotime \<Rightarrow> sched_metrics" where
  "NewSchedulerMetrics now =
     \<lparr>sm_StartedAt = now, sm_FinishedAt = now, sm_CompletedTasks = 0, sm_ContextSwitches = 0, sm_StarvationCount = 0,
      sm_WaitTimes = (\<lambda>_. [])\<rparr>"

definition RecordContextSwitch :: "sched_metrics \<Rightarrow> sched_metrics" where
  "RecordContextSwitch m = m\<lparr>sm_ContextSwitches := sm_ContextSwitches m + 1\<rparr>"

definition RecordCompletedTask :: "sched_metrics \<Rightarrow> sched_metrics" where
  "RecordCompletedTask m = m\<lparr>sm_CompletedTasks := sm_CompletedTasks m + 1\<rparr>"

definition RecordStarvation :: "sched_metrics \<Rightarrow> sched_metrics" where
  "RecordStarvation m = m\<lparr>sm_StarvationCount := sm_StarvationCount m + 1\<rparr>"

definition RecordWait :: "int \<Rightarrow> duration \<Rightarrow> sched_metrics \<Rightarrow> sched_metrics" where
  "RecordWait priority wait m = m\<lparr>sm_WaitTimes := (sm_WaitTimes m)(priority := sm_WaitTimes m priority @ [wait])\<rparr>"

definition MarkFinished :: "gotime \<Rightarrow> sched_metrics \<Rightarrow> sched_metrics" where
  "MarkFinished now m = m\<lparr>sm_FinishedAt := now\<rparr>"

definition IsComplete :: "int \<Rightarrow> sched_metrics \<Rightarrow> bool" where
  "IsComplete totalTasks m \<longleftrightarrow> totalTasks \<le> sm_CompletedTasks m"

definition CompletedTaskCount :: "sched_metrics \<Rightarrow> int" where
  "CompletedTaskCount m = sm_CompletedTasks m"

definition averageWait :: "int \<Rightarrow> sched_metrics \<Rightarrow> duration" where
  "averageWait priority m =
     (let waits = sm_WaitTimes m priority
      in if waits = [] then 0 else dur_div (fold (\<lambda>wait total. wrap64 (total + wait)) waits 0) (int (length waits)))"

definition Throughput :: "sched_metrics \<Rightarrow> f64" where
  "Throughput m =
     (let elapsed = dur_Seconds (time_Sub (sm_FinishedAt m) (sm_StartedAt m))
      in if elapsed \<le> f64_of_int 0 then f64_of_int 0 else f64_of_int (sm_CompletedTasks m) / elapsed)"

section \<open>The heap of waiting tasks\<close>

text \<open>\<open>sth_notify\<close>: the channel, of capacity one, holds a value.\<close>

record safe_heap =
  sth_heap :: "nat list"
  sth_notify :: bool

definition NewSafeTaskHeap :: safe_heap where
  "NewSafeTaskHeap = \<lparr>sth_heap = [], sth_notify = False\<rparr>"

text \<open>The two parts of \<open>Push\<close>.\<close>

definition sth_push :: "tasks \<Rightarrow> nat \<Rightarrow> safe_heap \<Rightarrow> safe_heap" where
  "sth_push mem a q = q\<lparr>sth_heap := th_Push (task_less mem) (sth_heap q) a\<rparr>"

definition sth_signal :: "safe_heap \<Rightarrow> safe_heap" where
  "sth_signal q = q\<lparr>sth_notify := True\<rparr>"

definition sth_Pop :: "tasks \<Rightarrow> safe_heap \<Rightarrow> (nat \<times> safe_heap) option" where
  "sth_Pop mem q = map_option (\<lambda>(a, items). (a, q\<lparr>sth_heap := items\<rparr>)) (th_Pop (task_less mem) (sth_heap q))"

definition sth_Peek :: "safe_heap \<Rightarrow> nat option" where
  "sth_Peek q = th_Peek (sth_heap q)"

definition sth_Len :: "safe_heap \<Rightarrow> nat" where
  "sth_Len q = length (sth_heap q)"

definition sth_IsEmpty :: "safe_heap \<Rightarrow> bool" where
  "sth_IsEmpty q = th_IsEmpty (sth_heap q)"

lemma th_Pop_length: "th_Pop lt xs = Some (x, ys) \<Longrightarrow> length xs = Suc (length ys)"
  unfolding th_mh by (drule mh_Pop_mset) (metis size_add_mset size_mset)

definition age_task :: "task \<Rightarrow> task" where
  "age_task t = (if 1 < ts_Priority t then t\<lparr>ts_Priority := ts_Priority t - 1\<rparr> else t)"

text \<open>Pops every task; the tasks in the order in which they come.\<close>

function age_loop :: "tasks \<Rightarrow> nat list \<Rightarrow> tasks \<times> nat list" where
  "age_loop mem items =
     (case th_Pop (task_less mem) items of
        None \<Rightarrow> (mem, [])
      | Some (a, items) \<Rightarrow> (let (mem, popped) = age_loop (mem(a := age_task (mem a))) items in (mem, a # popped)))"
  by pat_completeness auto
termination
  by (relation "measure (\<lambda>(_, items). length items)") (auto dest: th_Pop_length)

declare age_loop.simps [simp del]

definition AgeWaitingTasks :: "tasks \<Rightarrow> safe_heap \<Rightarrow> tasks \<times> safe_heap" where
  "AgeWaitingTasks mem q =
     (let (mem, popped) = age_loop mem (sth_heap q)
      in (mem, q\<lparr>sth_heap := foldl (th_Push (task_less mem)) [] popped\<rparr>))"

section \<open>Producer\<close>

record task_producer =
  tp_minBurstMs :: int
  tp_maxBurstMs :: int
  tp_minSleepMs :: int
  tp_maxSleepMs :: int
  tp_priorityMax :: int

definition NewTaskProducer :: task_producer where
  "NewTaskProducer = \<lparr>tp_minBurstMs = 50, tp_maxBurstMs = 250, tp_minSleepMs = 100, tp_maxSleepMs = 400, tp_priorityMax = 10\<rparr>"

definition SetBurstRange :: "int \<Rightarrow> int \<Rightarrow> task_producer \<Rightarrow> task_producer" where
  "SetBurstRange minMs maxMs p =
     (let minMs = (if minMs < 0 then 0 else minMs); maxMs = (if maxMs < minMs then minMs else maxMs)
      in p\<lparr>tp_minBurstMs := minMs, tp_maxBurstMs := maxMs\<rparr>)"

definition SetSleepRange :: "int \<Rightarrow> int \<Rightarrow> task_producer \<Rightarrow> task_producer" where
  "SetSleepRange minMs maxMs p =
     (let minMs = (if minMs < 0 then 0 else minMs); maxMs = (if maxMs < minMs then minMs else maxMs)
      in p\<lparr>tp_minSleepMs := minMs, tp_maxSleepMs := maxMs\<rparr>)"

text \<open>\<open>rnd n\<close> is the result of \<open>rand.Intn(n)\<close>.\<close>

definition randomInRange :: "(int \<Rightarrow> int) \<Rightarrow> int \<Rightarrow> int \<Rightarrow> int" where
  "randomInRange rnd minInclusive maxInclusive =
     (if maxInclusive \<le> minInclusive then minInclusive
      else rnd (maxInclusive - minInclusive + 1) + minInclusive)"

text \<open>The task of one turn of \<open>Run\<close>; its name is an argument.\<close>

definition produce_task :: "(int \<Rightarrow> int) \<Rightarrow> (int \<Rightarrow> int) \<Rightarrow> string \<Rightarrow> task_producer \<Rightarrow> int \<Rightarrow> gotime \<Rightarrow> task" where
  "produce_task rnd rnd' name p pid now =
     \<lparr>ts_PID = pid, ts_Name = name, ts_Priority = rnd (tp_priorityMax p) + 1,
      ts_CPUBurst = wrap64 (randomInRange rnd' (tp_minBurstMs p) (tp_maxBurstMs p) * 1000000),
      ts_Deadline = now + 10 * 1000000000, ts_ArrivalTime = now, ts_WaitTime = 0, ts_Status = StatusReady\<rparr>"

section \<open>Priority scheduler\<close>

text \<open>Where the goroutine of the scheduler stands: before \<open>Pop\<close>, in the select, with a task in hand,
  in the task's sleep, returned.\<close>

datatype prio_phase = SchedPop | SchedWait | SchedTask nat | SchedSleep nat | SchedStopped

record prio_sched =
  ps_now :: gotime
  ps_mem :: tasks
  ps_fresh :: nat
  ps_queue :: safe_heap
  ps_pending :: nat \<comment> \<open>pushes that have not signalled yet\<close>
  ps_metrics :: sched_metrics
  ps_phase :: prio_phase

definition NewPriorityScheduler :: "gotime \<Rightarrow> tasks \<Rightarrow> prio_sched" where
  "NewPriorityScheduler now mem =
     \<lparr>ps_now = now, ps_mem = mem, ps_fresh = 0, ps_queue = NewSafeTaskHeap, ps_pending = 0,
      ps_metrics = NewSchedulerMetrics now, ps_phase = SchedPop\<rparr>"

definition ps_start :: "nat \<Rightarrow> prio_sched \<Rightarrow> prio_sched" where
  "ps_start a s =
     (let wait = time_Sub (ps_now s) (ts_ArrivalTime (ps_mem s a));
          task = (ps_mem s a)\<lparr>ts_WaitTime := wait\<rparr>;
          (task, m) = (if 5 * 1000000000 < wait then (task\<lparr>ts_Status := StatusStarved\<rparr>, RecordStarvation (ps_metrics s))
                       else (task, ps_metrics s));
          task = task\<lparr>ts_Status := StatusRunning\<rparr>
      in s\<lparr>ps_mem := (ps_mem s)(a := task), ps_metrics := RecordContextSwitch m, ps_phase := SchedSleep a\<rparr>)"

definition ps_finish :: "nat \<Rightarrow> prio_sched \<Rightarrow> prio_sched" where
  "ps_finish a s =
     (let task = (ps_mem s a)\<lparr>ts_Status := StatusCompleted\<rparr>
      in s\<lparr>ps_mem := (ps_mem s)(a := task),
           ps_metrics := RecordWait (ts_Priority task) (ts_WaitTime task) (RecordCompletedTask (ps_metrics s)), ps_phase := SchedPop\<rparr>)"

datatype prio_act =
    ActTick gotime
  | ActPush task
  | ActSignal
  | ActAge
  | ActRun
  | ActCancel

text \<open>The next step of the scheduler's own goroutine, with the task that it pops.\<close>

definition ps_run_step :: "prio_sched \<Rightarrow> (nat option \<times> prio_sched) option" where
  "ps_run_step s =
     (case ps_phase s of
        SchedPop \<Rightarrow>
          (case sth_Pop (ps_mem s) (ps_queue s) of
             None \<Rightarrow> Some (None, s\<lparr>ps_phase := SchedWait\<rparr>)
           | Some (a, q) \<Rightarrow> Some (Some a, s\<lparr>ps_queue := q, ps_phase := SchedTask a\<rparr>))
      | SchedWait \<Rightarrow>
          if sth_notify (ps_queue s) then Some (None, s\<lparr>ps_queue := (ps_queue s)\<lparr>sth_notify := False\<rparr>, ps_phase := SchedPop\<rparr>)
          else None
      | SchedTask a \<Rightarrow> Some (None, ps_start a s)
      | SchedSleep a \<Rightarrow> Some (None, ps_finish a s)
      | SchedStopped \<Rightarrow> None)"

text \<open>A step of the system; \<open>None\<close>: it is not possible.  The clock does not go back, and a task is
  pushed with the time and a priority of at least one, as the producer does.\<close>

fun prio_step :: "prio_act \<Rightarrow> prio_sched \<Rightarrow> (nat option \<times> prio_sched) option" where
  "prio_step (ActTick t) s = (if ps_now s \<le> t then Some (None, s\<lparr>ps_now := t\<rparr>) else None)"
| "prio_step (ActPush t) s =
     (if 1 \<le> ts_Priority t \<and> ts_Status t = StatusReady \<and> ts_ArrivalTime t = ps_now s then
        (let a = ps_fresh s; mem = (ps_mem s)(a := t)
         in Some (None, s\<lparr>ps_mem := mem, ps_fresh := a + 1, ps_queue := sth_push mem a (ps_queue s), ps_pending := ps_pending s + 1\<rparr>))
      else None)"
| "prio_step ActSignal s =
     (if 0 < ps_pending s then Some (None, s\<lparr>ps_queue := sth_signal (ps_queue s), ps_pending := ps_pending s - 1\<rparr>) else None)"
| "prio_step ActAge s =
     (let (mem, q) = AgeWaitingTasks (ps_mem s) (ps_queue s) in Some (None, s\<lparr>ps_mem := mem, ps_queue := q\<rparr>))"
| "prio_step ActRun s = ps_run_step s"
| "prio_step ActCancel s =
     (if ps_phase s = SchedWait then Some (None, s\<lparr>ps_metrics := MarkFinished (ps_now s) (ps_metrics s), ps_phase := SchedStopped\<rparr>)
      else None)"

text \<open>A run gives the tasks in the order in which they were taken.\<close>

fun prio_run :: "prio_act list \<Rightarrow> prio_sched \<Rightarrow> (nat list \<times> prio_sched) option" where
  "prio_run [] s = Some ([], s)"
| "prio_run (act # acts) s =
     (case prio_step act s of
        None \<Rightarrow> None
      | Some (p, s) \<Rightarrow>
          map_option (\<lambda>(ps, s). ((case p of None \<Rightarrow> ps | Some a \<Rightarrow> a # ps), s)) (prio_run acts s))"

section \<open>Round robin\<close>

record rr_queue =
  rrq_high :: "nat list"
  rrq_medium :: "nat list"
  rrq_low :: "nat list"

definition HighQuantum :: duration where
  "HighQuantum = 50 * 1000000"

definition MediumQuantum :: duration where
  "MediumQuantum = 100 * 1000000"

definition LowQuantum :: duration where
  "LowQuantum = 200 * 1000000"

datatype priority_class = ClassHigh | ClassMedium | ClassLow

definition PriorityClass :: "int \<Rightarrow> priority_class" where
  "PriorityClass priority =
     (if 1 \<le> priority \<and> priority \<le> 3 then ClassHigh
      else if 4 \<le> priority \<and> priority \<le> 6 then ClassMedium
      else ClassLow)"

definition NewRoundRobinQueue :: rr_queue where
  "NewRoundRobinQueue = \<lparr>rrq_high = [], rrq_medium = [], rrq_low = []\<rparr>"

definition rr_Push :: "tasks \<Rightarrow> nat \<Rightarrow> rr_queue \<Rightarrow> rr_queue" where
  "rr_Push mem a q =
     (case PriorityClass (ts_Priority (mem a)) of
        ClassHigh \<Rightarrow> q\<lparr>rrq_high := rrq_high q @ [a]\<rparr>
      | ClassMedium \<Rightarrow> q\<lparr>rrq_medium := rrq_medium q @ [a]\<rparr>
      | ClassLow \<Rightarrow> q\<lparr>rrq_low := rrq_low q @ [a]\<rparr>)"

definition rr_Pop :: "rr_queue \<Rightarrow> (nat \<times> duration \<times> rr_queue) option" where
  "rr_Pop q =
     (case rrq_high q of
        a # rest \<Rightarrow> Some (a, HighQuantum, q\<lparr>rrq_high := rest\<rparr>)
      | [] \<Rightarrow>
          (case rrq_medium q of
             a # rest \<Rightarrow> Some (a, MediumQuantum, q\<lparr>rrq_medium := rest\<rparr>)
           | [] \<Rightarrow>
               (case rrq_low q of
                  a # rest \<Rightarrow> Some (a, LowQuantum, q\<lparr>rrq_low := rest\<rparr>)
                | [] \<Rightarrow> None)))"

definition HasHighPriorityTask :: "rr_queue \<Rightarrow> bool" where
  "HasHighPriorityTask q \<longleftrightarrow> rrq_high q \<noteq> []"

definition rr_IsEmpty :: "rr_queue \<Rightarrow> bool" where
  "rr_IsEmpty q \<longleftrightarrow> rrq_high q = [] \<and> rrq_medium q = [] \<and> rrq_low q = []"

text \<open>The scheduler is between two tasks, or at the head of the loop over the chunks of a task, with
  the rest of its slice.\<close>

datatype rr_phase = RRIdle | RRTask nat duration

record rr_sched =
  rrs_mem :: tasks
  rrs_queue :: rr_queue
  rrs_metrics :: sched_metrics
  rrs_phase :: rr_phase

definition NewRoundRobinScheduler :: "gotime \<Rightarrow> tasks \<Rightarrow> rr_sched" where
  "NewRoundRobinScheduler now mem =
     \<lparr>rrs_mem = mem, rrs_queue = NewRoundRobinQueue, rrs_metrics = NewSchedulerMetrics now, rrs_phase = RRIdle\<rparr>"

definition rr_start :: "gotime \<Rightarrow> nat \<Rightarrow> duration \<Rightarrow> rr_sched \<Rightarrow> rr_sched" where
  "rr_start now a quantum s =
     (let task = rrs_mem s a;
          task = task\<lparr>ts_WaitTime := wrap64 (ts_WaitTime task + time_Sub now (ts_ArrivalTime task)), ts_Status := StatusRunning\<rparr>;
          runDuration = (if ts_CPUBurst task < quantum then ts_CPUBurst task else quantum)
      in s\<lparr>rrs_mem := (rrs_mem s)(a := task), rrs_metrics := RecordContextSwitch (rrs_metrics s), rrs_phase := RRTask a runDuration\<rparr>)"

text \<open>The task goes back to its queue.\<close>

definition rr_requeue :: "gotime \<Rightarrow> nat \<Rightarrow> rr_sched \<Rightarrow> rr_sched" where
  "rr_requeue now a s =
     (let mem = (rrs_mem s)(a := (rrs_mem s a)\<lparr>ts_Status := StatusReady, ts_ArrivalTime := now\<rparr>)
      in s\<lparr>rrs_mem := mem, rrs_queue := rr_Push mem a (rrs_queue s), rrs_phase := RRIdle\<rparr>)"

definition rr_chunk :: "gotime \<Rightarrow> nat \<Rightarrow> duration \<Rightarrow> rr_sched \<Rightarrow> rr_sched" where
  "rr_chunk now a remaining s =
     (let chunkSize = 10 * 1000000;
          sleepDuration = (if remaining < chunkSize then remaining else chunkSize);
          burst = wrap64 (ts_CPUBurst (rrs_mem s a) - sleepDuration);
          remaining = wrap64 (remaining - sleepDuration);
          s = s\<lparr>rrs_mem := (rrs_mem s)(a := (rrs_mem s a)\<lparr>ts_CPUBurst := burst\<rparr>)\<rparr>
      in if burst \<le> 0 then
           (let task = (rrs_mem s a)\<lparr>ts_CPUBurst := 0, ts_Status := StatusCompleted\<rparr>
            in s\<lparr>rrs_mem := (rrs_mem s)(a := task),
                 rrs_metrics := RecordWait (ts_Priority task) (ts_WaitTime task) (RecordCompletedTask (rrs_metrics s)),
                 rrs_phase := RRIdle\<rparr>)
         else if 4 \<le> ts_Priority (rrs_mem s a) \<and> HasHighPriorityTask (rrs_queue s) then rr_requeue now a s
         else s\<lparr>rrs_phase := RRTask a remaining\<rparr>)"

text \<open>The scheduler's next step; with an empty queue it sleeps.\<close>

definition rr_step :: "gotime \<Rightarrow> rr_sched \<Rightarrow> rr_sched" where
  "rr_step now s =
     (case rrs_phase s of
        RRIdle \<Rightarrow>
          (case rr_Pop (rrs_queue s) of
             None \<Rightarrow> s
           | Some (a, quantum, q) \<Rightarrow> rr_start now a quantum (s\<lparr>rrs_queue := q\<rparr>))
      | RRTask a remaining \<Rightarrow> if 0 < remaining then rr_chunk now a remaining s else rr_requeue now a s)"

end
