(* ===== verification/Cpu_Correct.thy ===== *)
theory Cpu_Correct
  imports Cpu_Scheduler
begin

text \<open>
  The priority scheduler: every task that is pushed is taken once, the metrics count what was done,
  no wake-up is lost, and aging keeps a task from starving.
\<close>

section \<open>The order of the tasks\<close>

interpretation task_order: strict_weak_order LessTask "\<lambda>_. True"
  by unfold_locales (auto simp: LessTask_def split: if_splits)

interpretation task_heap: strict_weak_order "task_less mem" "\<lambda>_. True" for mem
  unfolding task_less_def by (rule task_order.on_key)

definition task_heap_ok :: "tasks \<Rightarrow> nat list \<Rightarrow> bool" where
  "task_heap_ok mem items \<longleftrightarrow> task_heap.heap_inv mem items"

lemma task_heap_Nil [simp]: "task_heap_ok mem []"
  unfolding task_heap_ok_def by (rule task_heap.min_heap.invar_Nil)

lemma task_heap_push: "task_heap_ok mem items \<Longrightarrow> task_heap_ok mem (th_Push (task_less mem) items a)"
  unfolding task_heap_ok_def th_mh by (rule task_heap.min_heap.push_invar) simp_all

lemma task_heap_push_mset: "mset (th_Push (task_less mem) items a) = add_mset a (mset items)"
  unfolding th_mh by (rule task_heap.min_heap.push_mset)

lemma task_heap_push_set: "set (th_Push (task_less mem) items a) = insert a (set items)"
  unfolding th_mh by (rule task_heap.min_heap.push_set)

lemma task_heap_pop:
  assumes "th_Pop (task_less mem) items = Some (a, rest)"
  shows "mset items = add_mset a (mset rest)" and "set items = insert a (set rest)"
proof -
  show m: "mset items = add_mset a (mset rest)" using assms unfolding th_mh by (rule mh_Pop_mset)
  show "set items = insert a (set rest)" using arg_cong [OF m, of set_mset] by simp
qed

lemma task_heap_pop_ok: "task_heap_ok mem items \<Longrightarrow> th_Pop (task_less mem) items = Some (a, rest) \<Longrightarrow> task_heap_ok mem rest"
  unfolding task_heap_ok_def th_mh by (rule task_heap.min_heap.pop_invar)

lemma task_heap_pop_least:
  "task_heap_ok mem items \<Longrightarrow> th_Pop (task_less mem) items = Some (a, rest) \<Longrightarrow> b \<in> set rest \<Longrightarrow> \<not> LessTask (mem b) (mem a)"
  unfolding task_heap_ok_def th_mh by (drule task_heap.min_heap.pop_least) (auto simp: task_less_def)

lemma task_heap_pop_None: "th_Pop (task_less mem) items = None \<longleftrightarrow> items = []"
  unfolding th_mh by (rule task_heap.min_heap.pop_None)

text \<open>The heap only depends on the tasks that are in it.\<close>

lemma task_heap_cong:
  assumes "task_heap_ok mem items"
    and "\<And>a. a \<in> set items \<Longrightarrow> ts_Priority (mem' a) = ts_Priority (mem a) \<and> ts_ArrivalTime (mem' a) = ts_ArrivalTime (mem a)"
  shows "task_heap_ok mem' items"
proof -
  have "task_less mem' a b = task_less mem a b" if "a \<in> set items" "b \<in> set items" for a b
    using assms(2) that by (simp add: task_less_def LessTask_def)
  moreover have "parent_ix i < length items" if "i < length items" for i using that by (simp add: parent_ix_def)
  ultimately show ?thesis using assms(1) by (auto simp: task_heap_ok_def task_heap.heap_inv_def task_heap.heap_ordered_def)
qed

section \<open>Aging\<close>

lemma age_loop_spec:
  "distinct items \<Longrightarrow> age_loop mem items = (mem', popped) \<Longrightarrow>
     mset popped = mset items \<and> mem' = (\<lambda>a. if a \<in> set items then age_task (mem a) else mem a)"
proof (induction mem items arbitrary: mem' popped rule: age_loop.induct)
  case (1 mem items)
  show ?case
  proof (cases "th_Pop (task_less mem) items")
    case None
    then have "mem' = mem" "popped = []" "items = []"
      using "1.prems"(2) age_loop.simps [of mem items] task_heap_pop_None [of mem items] by simp_all
    then show ?thesis by simp
  next
    case (Some p)
    then obtain a rest where p: "th_Pop (task_less mem) items = Some (a, rest)" by (cases p) auto
    note m = task_heap_pop [OF p]
    have "distinct (a # rest)" using "1.prems"(1) mset_eq_imp_distinct_iff [of items "a # rest"] m(1) by simp
    then have d: "distinct rest" "a \<notin> set rest" by simp_all
    obtain popped' where rec: "age_loop (mem(a := age_task (mem a))) rest = (mem', popped')" "popped = a # popped'"
      using "1.prems"(2) unfolding age_loop.simps [of mem items] p by (simp split: prod.splits)
    have IH: "mset popped' = mset rest" "mem' = (\<lambda>b. if b \<in> set rest then age_task ((mem(a := age_task (mem a))) b) else (mem(a := age_task (mem a))) b)"
      using "1.IH" [OF p refl d(1) rec(1)] by auto
    show ?thesis using IH m d rec(2) by (auto simp: fun_eq_iff)
  qed
qed

lemma pushes_ok: "task_heap_ok mem h \<Longrightarrow> task_heap_ok mem (foldl (th_Push (task_less mem)) h xs)"
  by (induction xs arbitrary: h) (auto intro: task_heap_push)

lemma pushes_mset: "mset (foldl (th_Push (task_less mem)) h xs) = mset h + mset xs"
  by (induction xs arbitrary: h) (auto simp: task_heap_push_mset)

lemma AgeWaitingTasks_spec:
  assumes "distinct (sth_heap q)" "AgeWaitingTasks mem q = (mem', q')"
  shows "mem' = (\<lambda>a. if a \<in> set (sth_heap q) then age_task (mem a) else mem a)" "mset (sth_heap q') = mset (sth_heap q)"
    "sth_notify q' = sth_notify q" "task_heap_ok mem' (sth_heap q')"
  using assms age_loop_spec [OF assms(1), of mem]
  by (auto simp: AgeWaitingTasks_def pushes_mset intro!: pushes_ok split: prod.splits)

section \<open>Invariant of the priority scheduler\<close>

abbreviation ps_heap :: "prio_sched \<Rightarrow> nat list" where
  "ps_heap s \<equiv> sth_heap (ps_queue s)"

text \<open>The task in the scheduler's hand, those that are completed, and those that were started.\<close>

definition ps_held :: "prio_sched \<Rightarrow> nat list" where
  "ps_held s = (case ps_phase s of SchedTask a \<Rightarrow> [a] | SchedSleep a \<Rightarrow> [a] | _ \<Rightarrow> [])"

definition ps_done :: "prio_sched \<Rightarrow> nat set" where
  "ps_done s = {..<ps_fresh s} - set (ps_heap s) - set (ps_held s)"

definition ps_started :: "prio_sched \<Rightarrow> nat set" where
  "ps_started s = ps_done s \<union> (case ps_phase s of SchedSleep a \<Rightarrow> {a} | _ \<Rightarrow> {})"

definition ps_shape :: "prio_sched \<Rightarrow> bool" where
  "ps_shape s \<longleftrightarrow> task_heap_ok (ps_mem s) (ps_heap s) \<and> distinct (ps_heap s @ ps_held s) \<and>
     set (ps_heap s @ ps_held s) \<subseteq> {..<ps_fresh s}"

definition ps_tasks :: "prio_sched \<Rightarrow> bool" where
  "ps_tasks s \<longleftrightarrow>
     (\<forall>a<ps_fresh s. 1 \<le> ts_Priority (ps_mem s a) \<and> ts_ArrivalTime (ps_mem s a) \<le> ps_now s \<and>
        ts_Status (ps_mem s a) =
          (if a \<in> ps_done s then StatusCompleted else if a \<in> ps_started s then StatusRunning else StatusReady))"

definition ps_counts :: "prio_sched \<Rightarrow> bool" where
  "ps_counts s \<longleftrightarrow>
     sm_CompletedTasks (ps_metrics s) = int (card (ps_done s)) \<and>
     sm_ContextSwitches (ps_metrics s) = int (card (ps_started s)) \<and>
     sm_StarvationCount (ps_metrics s) = int (card {a \<in> ps_started s. 5 * 1000000000 < ts_WaitTime (ps_mem s a)}) \<and>
     (\<forall>p. mset (sm_WaitTimes (ps_metrics s) p) =
        image_mset (\<lambda>a. ts_WaitTime (ps_mem s a)) (mset_set {a \<in> ps_done s. ts_Priority (ps_mem s a) = p}))"

definition ps_awake :: "prio_sched \<Rightarrow> bool" where
  "ps_awake s \<longleftrightarrow> (ps_phase s = SchedWait \<and> ps_heap s \<noteq> [] \<longrightarrow> sth_notify (ps_queue s) \<or> 0 < ps_pending s)"

definition prio_inv :: "prio_sched \<Rightarrow> bool" where
  "prio_inv s \<longleftrightarrow> ps_shape s \<and> ps_tasks s \<and> ps_counts s \<and> ps_awake s"

lemma ps_done_finite [simp]: "finite (ps_done s)"
  by (simp add: ps_done_def)

lemma ps_started_finite [simp]: "finite (ps_started s)"
  by (simp add: ps_started_def split: prio_phase.split)

lemma ps_done_fresh: "a \<in> ps_done s \<Longrightarrow> a < ps_fresh s"
  by (simp add: ps_done_def)

lemma ps_started_fresh: "ps_shape s \<Longrightarrow> a \<in> ps_started s \<Longrightarrow> a < ps_fresh s \<and> a \<notin> set (ps_heap s)"
  by (auto simp: ps_started_def ps_done_def ps_shape_def ps_held_def split: prio_phase.splits)

text \<open>The counts only depend on the tasks that were started.\<close>

lemma ps_counts_cong:
  assumes "ps_counts s" "ps_done s' = ps_done s" "ps_started s' = ps_started s" "ps_metrics s' = ps_metrics s"
    and "\<And>a. a \<in> ps_started s \<Longrightarrow> ps_mem s' a = ps_mem s a"
  shows "ps_counts s'"
proof -
  have d: "ps_mem s' a = ps_mem s a" if "a \<in> ps_done s" for a using assms(5) that by (simp add: ps_started_def)
  have "{a \<in> ps_started s. 5 * 1000000000 < ts_WaitTime (ps_mem s' a)} = {a \<in> ps_started s. 5 * 1000000000 < ts_WaitTime (ps_mem s a)}"
    using assms(5) by auto
  moreover have "{a \<in> ps_done s. ts_Priority (ps_mem s' a) = p} = {a \<in> ps_done s. ts_Priority (ps_mem s a) = p}" for p
    using d by auto
  moreover have "image_mset (\<lambda>a. ts_WaitTime (ps_mem s' a)) (mset_set {a \<in> ps_done s. ts_Priority (ps_mem s a) = p}) =
      image_mset (\<lambda>a. ts_WaitTime (ps_mem s a)) (mset_set {a \<in> ps_done s. ts_Priority (ps_mem s a) = p})" for p
    by (rule image_mset_cong) (use d in auto)
  ultimately show ?thesis using assms(1-4) by (simp add: ps_counts_def)
qed

lemma prio_inv_new: "prio_inv (NewPriorityScheduler now mem)"
  by (simp add: prio_inv_def ps_shape_def ps_tasks_def ps_counts_def ps_awake_def ps_done_def ps_started_def ps_held_def
      NewPriorityScheduler_def NewSafeTaskHeap_def NewSchedulerMetrics_def)

lemma prio_inv_tick: "prio_inv s \<Longrightarrow> ps_now s \<le> t \<Longrightarrow> prio_inv (s\<lparr>ps_now := t\<rparr>)"
  by (fastforce simp: prio_inv_def ps_shape_def ps_tasks_def ps_counts_def ps_awake_def ps_done_def ps_started_def ps_held_def)

lemma prio_inv_signal: "prio_inv s \<Longrightarrow> prio_inv (s\<lparr>ps_queue := sth_signal (ps_queue s), ps_pending := n\<rparr>)"
  by (simp add: prio_inv_def ps_shape_def ps_tasks_def ps_counts_def ps_awake_def ps_done_def ps_started_def ps_held_def sth_signal_def)

lemma prio_inv_push:
  assumes "prio_inv s" "1 \<le> ts_Priority t" "ts_Status t = StatusReady" "ts_ArrivalTime t = ps_now s"
  shows "prio_inv (s\<lparr>ps_mem := (ps_mem s)(ps_fresh s := t), ps_fresh := ps_fresh s + 1,
    ps_queue := sth_push ((ps_mem s)(ps_fresh s := t)) (ps_fresh s) (ps_queue s), ps_pending := ps_pending s + 1\<rparr>)" (is "prio_inv ?s")
proof -
  let ?a = "ps_fresh s" and ?mem = "(ps_mem s)(ps_fresh s := t)"
  have inv: "ps_shape s" "ps_tasks s" "ps_counts s" using assms(1) by (simp_all add: prio_inv_def)
  have heap: "set (ps_heap ?s) = insert ?a (set (ps_heap s))" "mset (ps_heap ?s) = add_mset ?a (mset (ps_heap s))"
    by (simp_all add: sth_push_def task_heap_push_set task_heap_push_mset)
  have new: "?a \<notin> set (ps_heap s @ ps_held s)" using inv(1) by (auto simp: ps_shape_def)
  have held: "ps_held ?s = ps_held s" by (simp add: ps_held_def)
  have dn: "ps_done ?s = ps_done s" unfolding ps_done_def held heap using new by auto
  have st: "ps_started ?s = ps_started s" unfolding ps_started_def dn by simp
  have "task_heap_ok ?mem (ps_heap s)"
    using inv(1) new unfolding ps_shape_def by (elim conjE task_heap_cong) auto
  then have "task_heap_ok ?mem (ps_heap ?s)" by (simp add: sth_push_def task_heap_push)
  moreover have "distinct (ps_heap ?s @ ps_held s)"
    using inv(1) new heap mset_eq_imp_distinct_iff [of "ps_heap ?s" "?a # ps_heap s"] by (auto simp: ps_shape_def)
  ultimately have "ps_shape ?s" using inv(1) heap unfolding ps_shape_def held by auto
  moreover have "ps_tasks ?s"
    using inv(2) assms(2-4) ps_started_fresh [OF inv(1), of ?a] ps_done_fresh [of ?a s]
    unfolding ps_tasks_def dn st by (auto simp: less_Suc_eq)
  moreover have "ps_counts ?s"
    by (rule ps_counts_cong [OF inv(3) dn st]) (use ps_started_fresh [OF inv(1)] in auto)
  ultimately show ?thesis by (simp add: prio_inv_def ps_awake_def)
qed

lemma prio_inv_age:
  assumes "prio_inv s" "AgeWaitingTasks (ps_mem s) (ps_queue s) = (mem, q)"
  shows "prio_inv (s\<lparr>ps_mem := mem, ps_queue := q\<rparr>)" (is "prio_inv ?s")
proof -
  have inv: "ps_shape s" "ps_tasks s" "ps_counts s" "ps_awake s" using assms(1) by (simp_all add: prio_inv_def)
  have d: "distinct (ps_heap s)" using inv(1) by (simp add: ps_shape_def)
  note spec = AgeWaitingTasks_spec [OF d assms(2)]
  have set: "set (sth_heap q) = set (ps_heap s)" using spec(2) by (rule mset_eq_setD)
  have held: "ps_held ?s = ps_held s" by (simp add: ps_held_def)
  have dn: "ps_done ?s = ps_done s" unfolding ps_done_def held using set by simp
  have st: "ps_started ?s = ps_started s" unfolding ps_started_def dn by simp
  have "ps_shape ?s"
    using inv(1) spec(2,4) set mset_eq_imp_distinct_iff [OF spec(2)] by (auto simp: ps_shape_def held)
  moreover have "ps_tasks ?s"
    using inv(2) unfolding ps_tasks_def dn st by (auto simp: spec(1) age_task_def)
  moreover have "ps_counts ?s"
    by (rule ps_counts_cong [OF inv(3) dn st]) (use ps_started_fresh [OF inv(1)] in \<open>auto simp: spec(1)\<close>)
  moreover have "ps_awake ?s" using inv(4) spec(3) set by (auto simp: ps_awake_def)
  ultimately show ?thesis by (simp add: prio_inv_def)
qed

lemma prio_inv_pop:
  assumes "prio_inv s" "ps_phase s = SchedPop" "sth_Pop (ps_mem s) (ps_queue s) = Some (a, q)"
  shows "prio_inv (s\<lparr>ps_queue := q, ps_phase := SchedTask a\<rparr>)" (is "prio_inv ?s")
proof -
  have inv: "ps_shape s" "ps_tasks s" "ps_counts s" using assms(1) by (simp_all add: prio_inv_def)
  obtain rest where pop: "th_Pop (task_less (ps_mem s)) (ps_heap s) = Some (a, rest)" "sth_heap q = rest"
    using assms(3) by (auto simp: sth_Pop_def)
  note m = task_heap_pop [OF pop(1)]
  have "distinct (a # rest)" using inv(1) mset_eq_imp_distinct_iff [of "ps_heap s" "a # rest"] m(1) by (simp add: ps_shape_def)
  moreover have "task_heap_ok (ps_mem s) rest" using task_heap_pop_ok [OF _ pop(1)] inv(1) by (simp add: ps_shape_def)
  ultimately have "ps_shape ?s" using inv(1) m(2) assms(2) pop(2) by (auto simp: ps_shape_def ps_held_def)
  moreover have dn: "ps_done ?s = ps_done s" using m(2) pop(2) assms(2) by (auto simp: ps_done_def ps_held_def)
  moreover have st: "ps_started ?s = ps_started s" using dn assms(2) by (simp add: ps_started_def)
  moreover have "ps_tasks ?s" using inv(2) unfolding ps_tasks_def dn st by simp
  moreover have "ps_counts ?s" by (rule ps_counts_cong [OF inv(3) dn st]) simp_all
  ultimately show ?thesis by (simp add: prio_inv_def ps_awake_def)
qed

lemma prio_inv_start:
  assumes "prio_inv s" "ps_phase s = SchedTask a"
  shows "prio_inv (ps_start a s)" (is "prio_inv ?s")
proof -
  have inv: "ps_shape s" "ps_tasks s" "ps_counts s" using assms(1) by (simp_all add: prio_inv_def)
  let ?w = "time_Sub (ps_now s) (ts_ArrivalTime (ps_mem s a))"
  let ?t = "(ps_mem s a)\<lparr>ts_WaitTime := ?w, ts_Status := StatusRunning\<rparr>"
  let ?m = "if 5 * 1000000000 < ?w then RecordStarvation (ps_metrics s) else ps_metrics s"
  have s': "?s = s\<lparr>ps_mem := (ps_mem s)(a := ?t), ps_metrics := RecordContextSwitch ?m, ps_phase := SchedSleep a\<rparr>"
    by (simp add: ps_start_def Let_def)
  have a: "a < ps_fresh s" "a \<notin> set (ps_heap s)" "a \<notin> ps_done s" using inv(1) assms(2) by (auto simp: ps_shape_def ps_held_def ps_done_def)
  have held: "ps_held ?s = ps_held s" using assms(2) by (simp add: s' ps_held_def)
  have dn: "ps_done ?s = ps_done s" unfolding ps_done_def held by (simp add: s')
  have st0: "ps_started s = ps_done s" using assms(2) by (simp add: ps_started_def)
  have st: "ps_started ?s = insert a (ps_done s)" unfolding ps_started_def dn by (simp add: s')
  have "ps_shape ?s"
    using inv(1) a(2) unfolding ps_shape_def held by (auto simp: s' intro!: task_heap_cong [of "ps_mem s" "ps_heap s"])
  moreover have "ps_tasks ?s" using inv(2) a unfolding ps_tasks_def dn st st0 by (auto simp: s')
  moreover have "ps_counts ?s"
  proof -
    have "{b \<in> insert a (ps_done s). 5 * 1000000000 < ts_WaitTime (ps_mem ?s b)} =
        (if 5 * 1000000000 < ?w then insert a else id) {b \<in> ps_done s. 5 * 1000000000 < ts_WaitTime (ps_mem s b)}"
      using a(3) by (auto simp: s')
    moreover have "{b \<in> ps_done s. ts_Priority (ps_mem ?s b) = p} = {b \<in> ps_done s. ts_Priority (ps_mem s b) = p}" for p
      using a(3) by (auto simp: s')
    moreover have "image_mset (\<lambda>b. ts_WaitTime (ps_mem ?s b)) (mset_set {b \<in> ps_done s. ts_Priority (ps_mem s b) = p}) =
        image_mset (\<lambda>b. ts_WaitTime (ps_mem s b)) (mset_set {b \<in> ps_done s. ts_Priority (ps_mem s b) = p})" for p
      by (rule image_mset_cong) (use a(3) in \<open>auto simp: s'\<close>)
    moreover have "sm_CompletedTasks (ps_metrics ?s) = sm_CompletedTasks (ps_metrics s)"
      "sm_WaitTimes (ps_metrics ?s) = sm_WaitTimes (ps_metrics s)" "sm_ContextSwitches (ps_metrics ?s) = sm_ContextSwitches (ps_metrics s) + 1"
      "sm_StarvationCount (ps_metrics ?s) = sm_StarvationCount (ps_metrics s) + (if 5 * 1000000000 < ?w then 1 else 0)"
      by (simp_all add: s' RecordContextSwitch_def RecordStarvation_def)
    ultimately show ?thesis using inv(3) a(3) unfolding ps_counts_def dn st st0 by simp
  qed
  ultimately show ?thesis by (simp add: prio_inv_def ps_awake_def s')
qed

lemma prio_inv_finish:
  assumes "prio_inv s" "ps_phase s = SchedSleep a"
  shows "prio_inv (ps_finish a s)" (is "prio_inv ?s")
proof -
  have inv: "ps_shape s" "ps_tasks s" "ps_counts s" using assms(1) by (simp_all add: prio_inv_def)
  let ?t = "(ps_mem s a)\<lparr>ts_Status := StatusCompleted\<rparr>"
  have s': "?s = s\<lparr>ps_mem := (ps_mem s)(a := ?t),
      ps_metrics := RecordWait (ts_Priority (ps_mem s a)) (ts_WaitTime (ps_mem s a)) (RecordCompletedTask (ps_metrics s)), ps_phase := SchedPop\<rparr>"
    by (simp add: ps_finish_def Let_def)
  have a: "a < ps_fresh s" "a \<notin> set (ps_heap s)" "a \<notin> ps_done s" using inv(1) assms(2) by (auto simp: ps_shape_def ps_held_def ps_done_def)
  have held: "ps_held ?s = []" "ps_held s = [a]" using assms(2) by (simp_all add: s' ps_held_def)
  have dn: "ps_done ?s = insert a (ps_done s)" unfolding ps_done_def held using a by (auto simp: s')
  have st: "ps_started ?s = insert a (ps_done s)" "ps_started s = insert a (ps_done s)"
    unfolding ps_started_def dn using assms(2) by (simp_all add: s')
  have "ps_shape ?s"
    using inv(1) a(2) unfolding ps_shape_def held by (auto simp: s' intro!: task_heap_cong [of "ps_mem s" "ps_heap s"])
  moreover have "ps_tasks ?s" using inv(2) a unfolding ps_tasks_def dn st by (auto simp: s')
  moreover have "ps_counts ?s"
  proof -
    have w: "ts_WaitTime (ps_mem ?s b) = ts_WaitTime (ps_mem s b)" "ts_Priority (ps_mem ?s b) = ts_Priority (ps_mem s b)" for b
      by (simp_all add: s')
    have "{b \<in> insert a (ps_done s). ts_Priority (ps_mem s b) = p} =
        (if ts_Priority (ps_mem s a) = p then insert a else id) {b \<in> ps_done s. ts_Priority (ps_mem s b) = p}" for p by auto
    moreover have "sm_CompletedTasks (ps_metrics ?s) = sm_CompletedTasks (ps_metrics s) + 1"
      "sm_ContextSwitches (ps_metrics ?s) = sm_ContextSwitches (ps_metrics s)" "sm_StarvationCount (ps_metrics ?s) = sm_StarvationCount (ps_metrics s)"
      "sm_WaitTimes (ps_metrics ?s) p = sm_WaitTimes (ps_metrics s) p @ (if ts_Priority (ps_mem s a) = p then [ts_WaitTime (ps_mem s a)] else [])" for p
      by (auto simp: s' RecordCompletedTask_def RecordWait_def)
    ultimately show ?thesis using inv(3) a(3) unfolding ps_counts_def dn st w by simp
  qed
  ultimately show ?thesis by (simp add: prio_inv_def ps_awake_def s')
qed

text \<open>A step that leaves the tasks and the heap alone.\<close>

lemma prio_inv_frame:
  assumes "prio_inv s" "ps_mem s' = ps_mem s" "ps_fresh s' = ps_fresh s" "ps_heap s' = ps_heap s" "ps_now s' = ps_now s"
    "ps_held s' = ps_held s" "ps_started s' = ps_started s"
    "sm_CompletedTasks (ps_metrics s') = sm_CompletedTasks (ps_metrics s)" "sm_ContextSwitches (ps_metrics s') = sm_ContextSwitches (ps_metrics s)"
    "sm_StarvationCount (ps_metrics s') = sm_StarvationCount (ps_metrics s)" "sm_WaitTimes (ps_metrics s') = sm_WaitTimes (ps_metrics s)"
    "ps_awake s'"
  shows "prio_inv s'"
proof -
  have "ps_done s' = ps_done s" using assms(2-6) by (simp add: ps_done_def)
  then show ?thesis using assms by (simp add: prio_inv_def ps_shape_def ps_tasks_def ps_counts_def)
qed

lemma prio_inv_run_step:
  assumes "prio_inv s" "ps_run_step s = Some (p, s')"
  shows "prio_inv s'"
proof (cases "ps_phase s")
  case SchedPop
  show ?thesis
  proof (cases "sth_Pop (ps_mem s) (ps_queue s)")
    case None
    then have "ps_heap s = []" by (simp add: sth_Pop_def task_heap_pop_None)
    moreover have "s' = s\<lparr>ps_phase := SchedWait\<rparr>" using assms(2) SchedPop None by (simp add: ps_run_step_def)
    ultimately show ?thesis
      by (intro prio_inv_frame [OF assms(1)]) (simp_all add: ps_awake_def ps_held_def ps_started_def ps_done_def SchedPop)
  next
    case (Some aq)
    then obtain a q where "sth_Pop (ps_mem s) (ps_queue s) = Some (a, q)" by (cases aq) auto
    then show ?thesis using prio_inv_pop [OF assms(1) SchedPop] assms(2) SchedPop by (simp add: ps_run_step_def)
  qed
next
  case SchedWait
  then have "s' = s\<lparr>ps_queue := (ps_queue s)\<lparr>sth_notify := False\<rparr>, ps_phase := SchedPop\<rparr>"
    using assms(2) by (simp add: ps_run_step_def split: if_splits)
  then show ?thesis
    by (intro prio_inv_frame [OF assms(1)]) (simp_all add: ps_awake_def ps_held_def ps_started_def ps_done_def SchedWait)
next
  case (SchedTask a)
  then show ?thesis using prio_inv_start [OF assms(1)] assms(2) by (simp add: ps_run_step_def)
next
  case (SchedSleep a)
  then show ?thesis using prio_inv_finish [OF assms(1)] assms(2) by (simp add: ps_run_step_def)
next
  case SchedStopped
  then show ?thesis using assms(2) by (simp add: ps_run_step_def)
qed

lemma prio_inv_step:
  assumes "prio_inv s" "prio_step act s = Some (p, s')"
  shows "prio_inv s'"
proof (cases act)
  case (ActTick t)
  then show ?thesis using assms prio_inv_tick by (auto split: if_splits)
next
  case (ActPush t)
  then have "1 \<le> ts_Priority t" "ts_Status t = StatusReady" "ts_ArrivalTime t = ps_now s"
    "s' = s\<lparr>ps_mem := (ps_mem s)(ps_fresh s := t), ps_fresh := ps_fresh s + 1,
      ps_queue := sth_push ((ps_mem s)(ps_fresh s := t)) (ps_fresh s) (ps_queue s), ps_pending := ps_pending s + 1\<rparr>"
    using assms(2) by (simp_all add: Let_def split: if_splits)
  then show ?thesis using prio_inv_push [OF assms(1)] by simp
next
  case ActSignal
  then show ?thesis using assms prio_inv_signal by (auto split: if_splits)
next
  case ActAge
  then show ?thesis using assms prio_inv_age by (auto split: prod.splits)
next
  case ActRun
  then show ?thesis using assms prio_inv_run_step by simp
next
  case ActCancel
  then have "ps_phase s = SchedWait" "s' = s\<lparr>ps_metrics := MarkFinished (ps_now s) (ps_metrics s), ps_phase := SchedStopped\<rparr>"
    using assms(2) by (simp_all split: if_splits)
  then show ?thesis
    by (intro prio_inv_frame [OF assms(1)]) (simp_all add: ps_awake_def ps_held_def ps_started_def ps_done_def MarkFinished_def)
qed

text \<open>How a step changes the heap.\<close>

lemma prio_step_heap:
  assumes "prio_inv s" "prio_step act s = Some (p, s')"
  shows "(case p of
      None \<Rightarrow> set (ps_heap s') = set (ps_heap s) \<union> {ps_fresh s..<ps_fresh s'} \<and> ps_fresh s \<le> ps_fresh s'
    | Some a \<Rightarrow> a \<in> set (ps_heap s) \<and> set (ps_heap s') = set (ps_heap s) - {a} \<and> ps_fresh s' = ps_fresh s \<and>
        ps_mem s' = ps_mem s \<and> ps_now s' = ps_now s \<and> (\<forall>b\<in>set (ps_heap s'). \<not> LessTask (ps_mem s b) (ps_mem s a)))"
proof (cases "\<exists>a q. act = ActRun \<and> ps_phase s = SchedPop \<and> sth_Pop (ps_mem s) (ps_queue s) = Some (a, q)")
  case True
  then obtain a q where c: "act = ActRun" "ps_phase s = SchedPop" "sth_Pop (ps_mem s) (ps_queue s) = Some (a, q)" by blast
  obtain rest where pop: "th_Pop (task_less (ps_mem s)) (ps_heap s) = Some (a, rest)" "sth_heap q = rest"
    using c(3) by (auto simp: sth_Pop_def)
  have inv: "task_heap_ok (ps_mem s) (ps_heap s)" "distinct (ps_heap s)" using assms(1) by (simp_all add: prio_inv_def ps_shape_def)
  note m = task_heap_pop [OF pop(1)]
  have "distinct (a # rest)" using inv(2) mset_eq_imp_distinct_iff [of "ps_heap s" "a # rest"] m(1) by simp
  then show ?thesis using assms(2) c m(2) pop(2) task_heap_pop_least [OF inv(1) pop(1)] by (auto simp: ps_run_step_def)
next
  case False
  have d: "distinct (ps_heap s)" using assms(1) by (simp add: prio_inv_def ps_shape_def)
  have "set (ps_heap s') = set (ps_heap s)" "ps_fresh s' = ps_fresh s" if "act = ActAge"
    using assms(2) that AgeWaitingTasks_spec(2) [OF d, of "ps_mem s"] by (auto split: prod.splits dest: mset_eq_setD)
  moreover have "p = None \<and> ps_heap s' = ps_heap s \<and> ps_fresh s' = ps_fresh s" if "act = ActRun"
    using assms(2) that False
    by (auto simp: ps_run_step_def ps_start_def ps_finish_def Let_def split: prio_phase.splits option.splits if_splits prod.splits)
  ultimately show ?thesis using assms(2)
    by (cases act) (auto simp: Let_def sth_push_def sth_signal_def task_heap_push_set split: if_splits prod.splits option.splits)
qed

lemma prio_run_inv:
  "prio_inv s \<Longrightarrow> prio_run acts s = Some (ps, s') \<Longrightarrow> prio_inv s'"
proof (induction acts arbitrary: s ps)
  case Nil
  then show ?case by simp
next
  case (Cons act acts)
  then obtain p s1 qs where "prio_step act s = Some (p, s1)" "prio_run acts s1 = Some (qs, s')"
    by (auto split: option.splits prod.splits)
  then show ?case using Cons.IH prio_inv_step [OF Cons.prems(1)] by blast
qed

text \<open>\<open>ts\<close>: the tasks that were taken before.\<close>

lemma prio_run_taken:
  "prio_inv s \<Longrightarrow> prio_run acts s = Some (ps, s') \<Longrightarrow> distinct ts \<Longrightarrow> set ts = {..<ps_fresh s} - set (ps_heap s) \<Longrightarrow>
     distinct (ts @ ps) \<and> set (ts @ ps) = {..<ps_fresh s'} - set (ps_heap s')"
proof (induction acts arbitrary: s ps ts)
  case Nil
  then show ?case by simp
next
  case (Cons act acts)
  obtain p s1 qs where st: "prio_step act s = Some (p, s1)" and run: "prio_run acts s1 = Some (qs, s')"
    "ps = (case p of None \<Rightarrow> qs | Some a \<Rightarrow> a # qs)"
    using Cons.prems(2) by (auto split: option.splits prod.splits)
  note inv1 = prio_inv_step [OF Cons.prems(1) st]
  note h = prio_step_heap [OF Cons.prems(1) st]
  have sub: "set (ps_heap s) \<subseteq> {..<ps_fresh s}" using Cons.prems(1) by (auto simp: prio_inv_def ps_shape_def)
  show ?case
  proof (cases p)
    case None
    then have "set ts = {..<ps_fresh s1} - set (ps_heap s1)" using h Cons.prems(4) by auto
    then show ?thesis using Cons.IH [OF inv1 run(1) Cons.prems(3)] run(2) None by simp
  next
    case (Some a)
    then have "distinct (ts @ [a])" "set (ts @ [a]) = {..<ps_fresh s1} - set (ps_heap s1)"
      using h Cons.prems(3,4) sub by auto
    then show ?thesis using Cons.IH [OF inv1 run(1), of "ts @ [a]"] run(2) Some by simp
  qed
qed

section \<open>Aging\<close>

definition ages_in :: "prio_act list \<Rightarrow> nat" where
  "ages_in acts = length (filter (\<lambda>act. act = ActAge) acts)"

text \<open>A waiting task and what each step does to it.\<close>

lemma prio_step_waiting:
  assumes "prio_inv s" "prio_step act s = Some (p, s')" "a \<in> set (ps_heap s)" "p \<noteq> Some a"
  shows "a \<in> set (ps_heap s')" "ts_ArrivalTime (ps_mem s' a) = ts_ArrivalTime (ps_mem s a)"
    "ts_Priority (ps_mem s' a) = (if act = ActAge then max 1 (ts_Priority (ps_mem s a) - 1) else ts_Priority (ps_mem s a))"
proof -
  have sh: "ps_shape s" "distinct (ps_heap s)" "a < ps_fresh s" "1 \<le> ts_Priority (ps_mem s a)"
    using assms(1,3) by (auto simp: prio_inv_def ps_shape_def ps_tasks_def)
  show "a \<in> set (ps_heap s')" using prio_step_heap [OF assms(1,2)] assms(3,4) by (auto split: option.splits)
  have held: "a \<notin> set (ps_held s)" using sh assms(3) by (auto simp: ps_shape_def)
  have "ps_mem s' a = age_task (ps_mem s a)" if "act = ActAge"
    using assms(2,3) that AgeWaitingTasks_spec(1) [OF sh(2), of "ps_mem s"] by (auto split: prod.splits)
  moreover have "ps_mem s' a = ps_mem s a" if "act \<noteq> ActAge"
    using assms(2) that sh(3) held
    by (cases act) (auto simp: Let_def ps_run_step_def ps_start_def ps_finish_def ps_held_def
        split: if_splits prod.splits option.splits prio_phase.splits)
  ultimately show "ts_ArrivalTime (ps_mem s' a) = ts_ArrivalTime (ps_mem s a)"
    "ts_Priority (ps_mem s' a) = (if act = ActAge then max 1 (ts_Priority (ps_mem s a) - 1) else ts_Priority (ps_mem s a))"
    using sh(4) by (cases "act = ActAge"; auto simp: age_task_def)+
qed

lemma prio_run_ages:
  "prio_inv s \<Longrightarrow> prio_run acts s = Some (ps, s') \<Longrightarrow> a \<in> set (ps_heap s) \<Longrightarrow> a \<notin> set ps \<Longrightarrow>
     a \<in> set (ps_heap s') \<and> ts_ArrivalTime (ps_mem s' a) = ts_ArrivalTime (ps_mem s a) \<and>
     ts_Priority (ps_mem s' a) = max 1 (ts_Priority (ps_mem s a) - int (ages_in acts))"
proof (induction acts arbitrary: s ps)
  case Nil
  then have "a < ps_fresh s" by (auto simp: prio_inv_def ps_shape_def)
  then show ?case using Nil by (auto simp: ages_in_def prio_inv_def ps_tasks_def)
next
  case (Cons act acts)
  obtain p s1 qs where st: "prio_step act s = Some (p, s1)" and run: "prio_run acts s1 = Some (qs, s')"
    "ps = (case p of None \<Rightarrow> qs | Some a \<Rightarrow> a # qs)"
    using Cons.prems(2) by (auto split: option.splits prod.splits)
  have p: "p \<noteq> Some a" "a \<notin> set qs" using Cons.prems(4) run(2) by (auto split: option.splits)
  note w = prio_step_waiting [OF Cons.prems(1) st Cons.prems(3) p(1)]
  note IH = Cons.IH [OF prio_inv_step [OF Cons.prems(1) st] run(1) w(1) p(2)]
  then show ?case using w by (auto simp: ages_in_def)
qed

text \<open>The tasks that can still be taken before a task of the best priority.\<close>

definition ahead_of :: "prio_sched \<Rightarrow> nat \<Rightarrow> nat set" where
  "ahead_of s a = {b \<in> set (ps_heap s). b \<noteq> a \<and> ts_ArrivalTime (ps_mem s b) \<le> ts_ArrivalTime (ps_mem s a)}"

lemma ps_now_mono: "prio_step act s = Some (p, s') \<Longrightarrow> ps_now s \<le> ps_now s'"
  by (cases act) (auto simp: Let_def ps_run_step_def ps_start_def ps_finish_def split: if_splits prod.splits option.splits prio_phase.splits)

lemma prio_step_ahead:
  assumes "prio_inv s" "prio_step act s = Some (p, s')" "a \<in> set (ps_heap s)" "p \<noteq> Some a"
    "ts_Priority (ps_mem s a) = 1" "ts_ArrivalTime (ps_mem s a) < ps_now s"
  shows "card (ahead_of s' a) + (case p of None \<Rightarrow> 0 | Some _ \<Rightarrow> 1) \<le> card (ahead_of s a)"
proof (cases p)
  case None
  note w = prio_step_waiting [OF assms(1,2)]
  have "ahead_of s' a \<subseteq> ahead_of s a"
  proof
    fix b assume b: "b \<in> ahead_of s' a"
    have heap: "set (ps_heap s') = set (ps_heap s) \<union> {ps_fresh s..<ps_fresh s'}" using prio_step_heap [OF assms(1,2)] None by simp
    have "b \<in> set (ps_heap s)"
    proof (rule ccontr)
      assume "b \<notin> set (ps_heap s)"
      then have new: "ps_fresh s \<le> b" "b < ps_fresh s'" using b heap by (auto simp: ahead_of_def)
      then have "ts_ArrivalTime (ps_mem s' b) = ps_now s"
        using assms(2) None
        by (cases act) (auto simp: Let_def ps_run_step_def ps_start_def ps_finish_def less_Suc_eq
            split: if_splits prod.splits option.splits prio_phase.splits)
      then show False using b assms(6) w(2) [OF assms(3,4)] by (simp add: ahead_of_def)
    qed
    then show "b \<in> ahead_of s a" using b w(2) [of b] w(2) [of a] assms(3) None by (simp add: ahead_of_def)
  qed
  then have "card (ahead_of s' a) \<le> card (ahead_of s a)" by (intro card_mono) (simp_all add: ahead_of_def)
  then show ?thesis using None by simp
next
  case (Some c)
  have h: "c \<in> set (ps_heap s)" "set (ps_heap s') = set (ps_heap s) - {c}" "ps_mem s' = ps_mem s"
    "\<forall>b\<in>set (ps_heap s'). \<not> LessTask (ps_mem s b) (ps_mem s c)" using prio_step_heap [OF assms(1,2)] Some by auto
  have ca: "c \<noteq> a" using Some assms(4) by simp
  have "c < ps_fresh s" using assms(1) h(1) by (auto simp: prio_inv_def ps_shape_def)
  then have "1 \<le> ts_Priority (ps_mem s c)" using assms(1) by (simp add: prio_inv_def ps_tasks_def)
  moreover have "\<not> LessTask (ps_mem s a) (ps_mem s c)" using h(2,4) assms(3) ca by simp
  ultimately have "c \<in> ahead_of s a" using h(1) ca assms(5) by (auto simp: ahead_of_def LessTask_def split: if_splits)
  moreover have "ahead_of s' a = ahead_of s a - {c}" using h(2,3) by (auto simp: ahead_of_def)
  moreover have "finite (ahead_of s a)" by (simp add: ahead_of_def)
  ultimately have "card (ahead_of s' a) + 1 = card (ahead_of s a)" by (metis Suc_eq_plus1 card_Suc_Diff1)
  then show ?thesis using Some by simp
qed

lemma prio_run_ahead:
  "prio_inv s \<Longrightarrow> prio_run acts s = Some (ps, s') \<Longrightarrow> a \<in> set (ps_heap s) \<Longrightarrow> a \<notin> set ps \<Longrightarrow>
     ts_Priority (ps_mem s a) = 1 \<Longrightarrow> ts_ArrivalTime (ps_mem s a) < ps_now s \<Longrightarrow> length ps \<le> card (ahead_of s a)"
proof (induction acts arbitrary: s ps)
  case Nil
  then show ?case by simp
next
  case (Cons act acts)
  obtain p s1 qs where st: "prio_step act s = Some (p, s1)" and run: "prio_run acts s1 = Some (qs, s')"
    "ps = (case p of None \<Rightarrow> qs | Some a \<Rightarrow> a # qs)"
    using Cons.prems(2) by (auto split: option.splits prod.splits)
  have p: "p \<noteq> Some a" "a \<notin> set qs" using Cons.prems(4) run(2) by (auto split: option.splits)
  note w = prio_step_waiting [OF Cons.prems(1) st Cons.prems(3) p(1)]
  have "length qs \<le> card (ahead_of s1 a)"
    using Cons.IH [OF prio_inv_step [OF Cons.prems(1) st] run(1) w(1) p(2)] w(2,3) Cons.prems(5,6) ps_now_mono [OF st] by auto
  then show ?case using prio_step_ahead [OF Cons.prems(1) st Cons.prems(3) p(1) Cons.prems(5,6)] run(2) by (auto split: option.splits)
qed

section \<open>Properties\<close>

text \<open>Runs for the witnesses.\<close>

definition sample_task :: "int \<Rightarrow> gotime \<Rightarrow> task" where
  "sample_task p now = \<lparr>ts_PID = 1, ts_Name = ''t'', ts_Priority = p, ts_CPUBurst = 5, ts_Deadline = 0, ts_ArrivalTime = now,
     ts_WaitTime = 0, ts_Status = StatusReady\<rparr>"

definition sample_start :: prio_sched where
  "sample_start = NewPriorityScheduler 0 (\<lambda>_. sample_task 1 0)"

lemma sample_run:
  assumes "map_option f (prio_run acts s) = Some x"
  obtains taken s' where "prio_run acts s = Some (taken, s')" "f (taken, s') = x"
  using assms by auto

text \<open>C12. Whatever the interleaving of pushes, signals, agings, scheduler steps and the clock, every
task that was pushed is taken at most once and, if it is not waiting, was taken; the next task that
the scheduler would take has the best priority and, within it, the earliest arrival of all that
wait; the metrics count the completed tasks, the starts, the starts after more than five seconds of
waiting and, for each priority, exactly the waits of the tasks completed with it; and when the
scheduler has stopped with no task waiting, all tasks are completed.\<close>

theorem priority_scheduler_correct:
  assumes "prio_run acts (NewPriorityScheduler now mem) = Some (taken, s)"
  shows "distinct taken \<and> set taken = {..<ps_fresh s} - set (sth_heap (ps_queue s)) \<and>
    (case sth_Pop (ps_mem s) (ps_queue s) of
       None \<Rightarrow> sth_heap (ps_queue s) = []
     | Some (a, q) \<Rightarrow> set (sth_heap (ps_queue s)) = insert a (set (sth_heap q)) \<and> (\<forall>b\<in>set (sth_heap q). \<not> LessTask (ps_mem s b) (ps_mem s a))) \<and>
    (let completed = {a. a < ps_fresh s \<and> ts_Status (ps_mem s a) = StatusCompleted};
         started = {a. a < ps_fresh s \<and> ts_Status (ps_mem s a) \<noteq> StatusReady}
     in sm_CompletedTasks (ps_metrics s) = int (card completed) \<and>
        sm_ContextSwitches (ps_metrics s) = int (card started) \<and>
        sm_StarvationCount (ps_metrics s) = int (card {a \<in> started. 5 * 1000000000 < ts_WaitTime (ps_mem s a)}) \<and>
        (\<forall>p. mset (sm_WaitTimes (ps_metrics s) p) =
           image_mset (\<lambda>a. ts_WaitTime (ps_mem s a)) (mset_set {a \<in> completed. ts_Priority (ps_mem s a) = p})) \<and>
        (ps_phase s = SchedStopped \<and> sth_heap (ps_queue s) = [] \<longrightarrow> completed = {..<ps_fresh s}))"
proof -
  have inv: "prio_inv s" using prio_run_inv [OF prio_inv_new assms] .
  then have sh: "ps_shape s" and tk: "ps_tasks s" and ct: "ps_counts s" by (simp_all add: prio_inv_def)
  have d: "{a. a < ps_fresh s \<and> ts_Status (ps_mem s a) = StatusCompleted} = ps_done s"
    using tk ps_done_fresh by (auto simp: ps_tasks_def split: if_splits)
  have sub: "ps_done s \<subseteq> ps_started s" by (simp add: ps_started_def)
  have status: "ts_Status (ps_mem s a) = StatusReady \<longleftrightarrow> a \<notin> ps_started s" if "a < ps_fresh s" for a
    using tk that sub unfolding ps_tasks_def by (metis subsetD task_status.distinct(1,3))
  have st: "{a. a < ps_fresh s \<and> ts_Status (ps_mem s a) \<noteq> StatusReady} = ps_started s"
    using status ps_started_fresh [OF sh] by blast
  have taken: "distinct taken" "set taken = {..<ps_fresh s} - set (ps_heap s)"
    using prio_run_taken [OF prio_inv_new assms, of "[]"] by (simp_all add: NewPriorityScheduler_def NewSafeTaskHeap_def)
  have pop: "case sth_Pop (ps_mem s) (ps_queue s) of None \<Rightarrow> ps_heap s = []
     | Some (a, q) \<Rightarrow> set (ps_heap s) = insert a (set (sth_heap q)) \<and> (\<forall>b\<in>set (sth_heap q). \<not> LessTask (ps_mem s b) (ps_mem s a))"
    using sh task_heap_pop(2) [of "ps_mem s" "ps_heap s"] task_heap_pop_least [of "ps_mem s" "ps_heap s"]
    by (auto simp: sth_Pop_def ps_shape_def task_heap_pop_None split: option.splits)
  have stop: "ps_done s = {..<ps_fresh s}" if "ps_phase s = SchedStopped" "ps_heap s = []" using that by (simp add: ps_done_def ps_held_def)
  show ?thesis unfolding Let_def d st using taken pop ct stop by (simp add: ps_counts_def)
qed

theorem priority_scheduler_correct_witness:
  "\<exists>taken s. prio_run [ActPush (sample_task 5 0), ActPush (sample_task 3 0), ActTick 6000000000, ActRun, ActRun, ActRun, ActAge] sample_start = Some (taken, s) \<and>
     sm_WaitTimes (ps_metrics s) 3 = [6000000000] \<and> sm_StarvationCount (ps_metrics s) = 1 \<and> ps_fresh s = 2 \<and> sth_heap (ps_queue s) = [0] \<and>
     set taken = {..<2} - {0}"
proof -
  let ?acts = "[ActPush (sample_task 5 0), ActPush (sample_task 3 0), ActTick 6000000000, ActRun, ActRun, ActRun, ActAge]"
  have "map_option (\<lambda>(taken, s). (sm_WaitTimes (ps_metrics s) 3, sm_StarvationCount (ps_metrics s), ps_fresh s, sth_heap (ps_queue s)))
      (prio_run ?acts sample_start) = Some ([6000000000], 1, 2, [0])" by code_simp
  then obtain taken s where run: "prio_run ?acts sample_start = Some (taken, s)"
    and s: "sm_WaitTimes (ps_metrics s) 3 = [6000000000]" "sm_StarvationCount (ps_metrics s) = 1" "ps_fresh s = 2" "sth_heap (ps_queue s) = [0]"
    by (rule sample_run) auto
  show ?thesis using run s priority_scheduler_correct [OF run [unfolded sample_start_def]] by auto
qed

text \<open>C35. No wake-up is lost: when tasks wait, all pushes have signalled, and the scheduler has not
stopped, its goroutine can go on; it never sleeps in its select over a queue that is not empty.\<close>

theorem scheduler_never_sleeps_on_work:
  assumes "prio_run acts (NewPriorityScheduler now mem) = Some (taken, s)"
    and "sth_heap (ps_queue s) \<noteq> []" "ps_pending s = 0" "ps_phase s \<noteq> SchedStopped"
  shows "ps_run_step s \<noteq> None"
  using prio_run_inv [OF prio_inv_new assms(1)] assms(2-4)
  by (auto simp: prio_inv_def ps_awake_def ps_run_step_def split: prio_phase.splits option.splits)

theorem scheduler_never_sleeps_on_work_witness:
  "\<exists>taken s. prio_run [ActRun, ActPush (sample_task 3 0), ActSignal] sample_start = Some (taken, s) \<and>
     ps_phase s = SchedWait \<and> ps_run_step s \<noteq> None"
proof -
  let ?acts = "[ActRun, ActPush (sample_task 3 0), ActSignal]"
  have "map_option (\<lambda>(taken, s). (sth_heap (ps_queue s), ps_pending s, ps_phase s)) (prio_run ?acts sample_start) = Some ([0], 0, SchedWait)"
    by code_simp
  then obtain taken s where run: "prio_run ?acts sample_start = Some (taken, s)"
    and s: "sth_heap (ps_queue s) = [0]" "ps_pending s = 0" "ps_phase s = SchedWait" by (rule sample_run) auto
  show ?thesis using run s scheduler_never_sleeps_on_work [OF run [unfolded sample_start_def]] by auto
qed

text \<open>C13. Aging prevents starvation: a waiting task of priority \<open>p\<close> that has seen \<open>p - 1\<close> agings is
taken after at most as many other tasks as were waiting then with no later arrival, whatever is
pushed from then on.\<close>

theorem aging_prevents_starvation:
  assumes "prio_run acts (NewPriorityScheduler now mem) = Some (taken, s)" "a \<in> set (sth_heap (ps_queue s))"
    and "prio_run acts1 s = Some (taken1, s1)" "ts_Priority (ps_mem s a) \<le> int (length (filter (\<lambda>act. act = ActAge) acts1)) + 1"
    and "ts_ArrivalTime (ps_mem s a) < ps_now s1"
    and "prio_run acts2 s1 = Some (taken2, s2)"
    and "card {b \<in> set (sth_heap (ps_queue s1)). b \<noteq> a \<and> ts_ArrivalTime (ps_mem s1 b) \<le> ts_ArrivalTime (ps_mem s1 a)} < length taken2"
  shows "a \<in> set taken1 \<union> set taken2"
proof (rule ccontr)
  assume "a \<notin> set taken1 \<union> set taken2"
  then have n: "a \<notin> set taken1" "a \<notin> set taken2" by auto
  have inv: "prio_inv s" using prio_run_inv [OF prio_inv_new assms(1)] .
  have inv1: "prio_inv s1" using prio_run_inv [OF inv assms(3)] .
  note w = prio_run_ages [OF inv assms(3,2) n(1)]
  have "length taken2 \<le> card (ahead_of s1 a)"
    by (rule prio_run_ahead [OF inv1 assms(6) _ n(2)]) (use w assms(4,5) in \<open>simp_all add: ages_in_def\<close>)
  then show False using assms(7) by (simp add: ahead_of_def)
qed

theorem aging_prevents_starvation_witness:
  "\<exists>taken s taken1 s1 taken2 s2. prio_run [ActPush (sample_task 2 0), ActPush (sample_task 1 0)] sample_start = Some (taken, s) \<and>
     prio_run [ActAge, ActTick 1] s = Some (taken1, s1) \<and> prio_run [ActPush (sample_task 1 1), ActRun, ActRun, ActRun, ActRun] s1 = Some (taken2, s2) \<and>
     0 \<in> set taken1 \<union> set taken2"
proof -
  let ?acts = "[ActPush (sample_task 2 0), ActPush (sample_task 1 0)]" and ?acts1 = "[ActAge, ActTick 1]"
    and ?acts2 = "[ActPush (sample_task 1 1), ActRun, ActRun, ActRun, ActRun]"
  have "map_option (\<lambda>(taken, s). (sth_heap (ps_queue s), ts_Priority (ps_mem s 0), ts_ArrivalTime (ps_mem s 0),
      map_option (\<lambda>(taken1, s1). (sth_heap (ps_queue s1), map (\<lambda>b. ts_ArrivalTime (ps_mem s1 b)) [0, 1], ps_now s1,
        map_option (\<lambda>(taken2, s2). length taken2) (prio_run ?acts2 s1))) (prio_run ?acts1 s)))
      (prio_run ?acts sample_start) = Some ([1, 0], 2, 0, Some ([1, 0], [0, 0], 1, Some 2))" by code_simp
  then obtain taken s taken1 s1 taken2 s2 where run: "prio_run ?acts sample_start = Some (taken, s)" "prio_run ?acts1 s = Some (taken1, s1)"
    "prio_run ?acts2 s1 = Some (taken2, s2)"
    and s: "sth_heap (ps_queue s) = [1, 0]" "ts_Priority (ps_mem s 0) = 2" "ts_ArrivalTime (ps_mem s 0) = 0" "sth_heap (ps_queue s1) = [1, 0]"
      "ts_ArrivalTime (ps_mem s1 0) = 0" "ts_ArrivalTime (ps_mem s1 1) = 0" "ps_now s1 = 1" "length taken2 = 2"
    by (elim sample_run) (auto elim!: sample_run)
  have "{b \<in> set (sth_heap (ps_queue s1)). b \<noteq> 0 \<and> ts_ArrivalTime (ps_mem s1 b) \<le> ts_ArrivalTime (ps_mem s1 0)} = {1}" using s by auto
  then have "0 \<in> set taken1 \<union> set taken2"
    using aging_prevents_starvation [OF run(1) [unfolded sample_start_def], of 0, OF _ run(2) _ _ run(3)] s by simp
  then show ?thesis using run by blast
qed

end
