(* ===== verification/Round_Robin.thy ===== *)
theory Round_Robin
  imports Cpu_Correct
begin

text \<open>
  The round-robin scheduler completes every task whose burst is positive, and none whose burst is
  not.
\<close>

section \<open>The queues\<close>

definition rr_all :: "rr_queue \<Rightarrow> nat list" where
  "rr_all q = rrq_high q @ rrq_medium q @ rrq_low q"

lemma rr_Push_all: "mset (rr_all (rr_Push mem a q)) = add_mset a (mset (rr_all q))"
  by (simp add: rr_all_def rr_Push_def split: priority_class.splits)

lemma rr_Push_set: "set (rr_all (rr_Push mem a q)) = insert a (set (rr_all q))"
  using arg_cong [OF rr_Push_all, of set_mset] by simp

lemma rr_Pop_all:
  "case rr_Pop q of None \<Rightarrow> rr_all q = []
   | Some (a, quantum, q') \<Rightarrow> rr_all q = a # rr_all q' \<and> 0 < quantum"
  by (auto simp: rr_Pop_def rr_all_def HighQuantum_def MediumQuantum_def LowQuantum_def split: list.splits)

section \<open>Every task completes\<close>

definition rr_held :: "rr_sched \<Rightarrow> nat list" where
  "rr_held s = (case rrs_phase s of RRIdle \<Rightarrow> [] | RRTask a _ \<Rightarrow> [a])"

abbreviation rr_open :: "rr_sched \<Rightarrow> nat list" where
  "rr_open s \<equiv> rr_all (rrs_queue s) @ rr_held s"

text \<open>\<open>A\<close> are the tasks that were pushed.\<close>

definition rr_inv :: "nat set \<Rightarrow> rr_sched \<Rightarrow> bool" where
  "rr_inv A s \<longleftrightarrow>
     finite A \<and> distinct (rr_open s) \<and> set (rr_open s) \<subseteq> A \<and>
     (\<forall>a\<in>set (rr_open s). 0 < ts_CPUBurst (rrs_mem s a) \<and> ts_CPUBurst (rrs_mem s a) < 2 ^ 63) \<and>
     (\<forall>a\<in>A - set (rr_open s). ts_Status (rrs_mem s a) = StatusCompleted \<and> ts_CPUBurst (rrs_mem s a) = 0) \<and>
     sm_CompletedTasks (rrs_metrics s) = int (card (A - set (rr_open s))) \<and>
     (case rrs_phase s of RRIdle \<Rightarrow> True | RRTask a rem \<Rightarrow> 0 \<le> rem \<and> rem \<le> ts_CPUBurst (rrs_mem s a))"

definition rr_work :: "rr_sched \<Rightarrow> nat" where
  "rr_work s = sum_list (map (\<lambda>a. nat (ts_CPUBurst (rrs_mem s a))) (rr_open s))"

text \<open>What is left to do, in steps.\<close>

definition rr_measure :: "rr_sched \<Rightarrow> nat" where
  "rr_measure s =
     3 * rr_work s + (case rrs_phase s of RRIdle \<Rightarrow> 2 | RRTask a rem \<Rightarrow> if 0 < rem then 1 else 3)"

lemma work_perm: "mset xs = mset ys \<Longrightarrow> sum_list (map f xs) = sum_list (map f ys)" for f :: "'a \<Rightarrow> nat"
  by (metis mset_map sum_mset_sum_list)

lemma rr_inv_start:
  assumes "rr_inv A s" "rrs_phase s = RRIdle" "rr_Pop (rrs_queue s) = Some (a, quantum, q)"
  shows "rr_inv A (rr_start now a quantum (s\<lparr>rrs_queue := q\<rparr>)) \<and> rr_measure (rr_start now a quantum (s\<lparr>rrs_queue := q\<rparr>)) < rr_measure s"
proof -
  let ?s = "rr_start now a quantum (s\<lparr>rrs_queue := q\<rparr>)"
  let ?t = "(rrs_mem s a)\<lparr>ts_WaitTime := wrap64 (ts_WaitTime (rrs_mem s a) + time_Sub now (ts_ArrivalTime (rrs_mem s a))), ts_Status := StatusRunning\<rparr>"
  have all: "rr_all (rrs_queue s) = a # rr_all q" "0 < quantum" using rr_Pop_all [of "rrs_queue s"] assms(3) by auto
  have held: "rr_held s = []" using assms(2) by (simp add: rr_held_def)
  have s': "rrs_mem ?s = (rrs_mem s)(a := ?t)" "rrs_queue ?s = q" "sm_CompletedTasks (rrs_metrics ?s) = sm_CompletedTasks (rrs_metrics s)"
    "rrs_phase ?s = RRTask a (min (ts_CPUBurst (rrs_mem s a)) quantum)" "rr_held ?s = [a]"
    by (simp_all add: rr_start_def Let_def RecordContextSwitch_def rr_held_def min_def)
  have burst: "ts_CPUBurst (rrs_mem ?s b) = ts_CPUBurst (rrs_mem s b)" for b by (simp add: s')
  have op: "mset (rr_open ?s) = mset (rr_open s)" using all held by (simp add: s')
  have set: "set (rr_open ?s) = set (rr_open s)" using op by (rule mset_eq_setD)
  have d: "distinct (rr_open ?s) = distinct (rr_open s)" using op by (rule mset_eq_imp_distinct_iff)
  have a: "a \<in> set (rr_open s)" using all by simp
  have pos: "0 < ts_CPUBurst (rrs_mem s a)" using assms(1) a unfolding rr_inv_def by blast
  have st: "ts_Status (rrs_mem ?s b) = ts_Status (rrs_mem s b)" if "b \<in> A - set (rr_open s)" for b using that a by (auto simp: s')
  have "rr_inv A ?s"
    using assms(1) st pos all(2) unfolding rr_inv_def set d burst by (simp add: s'(3,4) burst)
  moreover have "rr_work ?s = rr_work s" unfolding rr_work_def burst by (rule work_perm [OF op])
  then have "rr_measure ?s < rr_measure s" using pos all(2) assms(2) by (simp add: rr_measure_def s'(4))
  ultimately show ?thesis ..
qed

lemma rr_requeue_eqs:
  "rrs_mem (rr_requeue now a s) = (rrs_mem s)(a := (rrs_mem s a)\<lparr>ts_Status := StatusReady, ts_ArrivalTime := now\<rparr>)"
  "rrs_metrics (rr_requeue now a s) = rrs_metrics s" "rrs_phase (rr_requeue now a s) = RRIdle"
  "mset (rr_all (rrs_queue (rr_requeue now a s))) = add_mset a (mset (rr_all (rrs_queue s)))"
  by (simp_all add: rr_requeue_def Let_def rr_Push_all)

lemma rr_inv_requeue:
  assumes "rr_inv A s" "rrs_phase s = RRTask a r"
  shows "rr_inv A (rr_requeue now a s) \<and> rr_work (rr_requeue now a s) = rr_work s \<and> rrs_phase (rr_requeue now a s) = RRIdle"
proof -
  let ?s = "rr_requeue now a s"
  have held: "rr_held s = [a]" "rr_held ?s = []" using assms(2) by (simp_all add: rr_held_def rr_requeue_eqs)
  have op: "mset (rr_open ?s) = mset (rr_open s)" using held by (simp add: rr_requeue_eqs)
  have set: "set (rr_open ?s) = set (rr_open s)" using op by (rule mset_eq_setD)
  have d: "distinct (rr_open ?s) = distinct (rr_open s)" using op by (rule mset_eq_imp_distinct_iff)
  have burst: "ts_CPUBurst (rrs_mem ?s b) = ts_CPUBurst (rrs_mem s b)" for b by (simp add: rr_requeue_eqs)
  have a: "a \<in> set (rr_open s)" using held by simp
  have st: "ts_Status (rrs_mem ?s b) = ts_Status (rrs_mem s b)" if "b \<in> A - set (rr_open s)" for b using that a by (auto simp: rr_requeue_eqs)
  have "rr_inv A ?s" using assms(1) st unfolding rr_inv_def set d burst by (simp add: rr_requeue_eqs(2,3))
  moreover have "rr_work ?s = rr_work s" unfolding rr_work_def burst by (rule work_perm [OF op])
  ultimately show ?thesis by (simp add: rr_requeue_eqs)
qed

lemma rr_inv_chunk:
  assumes "rr_inv A s" "rrs_phase s = RRTask a r" "0 < r"
  shows "rr_inv A (rr_chunk now a r s) \<and> rr_measure (rr_chunk now a r s) < rr_measure s"
proof -
  let ?c = "min r 10000000" and ?b = "ts_CPUBurst (rrs_mem s a)"
  let ?s = "s\<lparr>rrs_mem := (rrs_mem s)(a := (rrs_mem s a)\<lparr>ts_CPUBurst := ?b - ?c\<rparr>)\<rparr>"
  have held: "rr_held s = [a]" using assms(2) by (simp add: rr_held_def)
  have inv: "finite A" "distinct (rr_all (rrs_queue s) @ [a])" "set (rr_open s) \<subseteq> A" "0 < ?b" "?b < 2 ^ 63" "r \<le> ?b"
    "\<forall>b\<in>set (rr_all (rrs_queue s)). 0 < ts_CPUBurst (rrs_mem s b) \<and> ts_CPUBurst (rrs_mem s b) < 2 ^ 63"
    "\<forall>b\<in>A - set (rr_open s). ts_Status (rrs_mem s b) = StatusCompleted \<and> ts_CPUBurst (rrs_mem s b) = 0"
    "sm_CompletedTasks (rrs_metrics s) = int (card (A - set (rr_open s)))"
    using assms(1,2) held unfolding rr_inv_def by auto
  have c: "0 < ?c" "?c \<le> r" using assms(3) by auto
  have w: "wrap64 (?b - ?c) = ?b - ?c" "wrap64 (r - ?c) = r - ?c" using inv(4-6) c by (intro wrap64_id, unfold in_int64_def, linarith)+
  have work: "rr_work s = sum_list (map (\<lambda>b. nat (ts_CPUBurst (rrs_mem s b))) (rr_all (rrs_queue s))) + nat ?b"
    by (simp add: rr_work_def held)
  have m: "rr_measure s = 3 * rr_work s + 1" using assms(2,3) by (simp add: rr_measure_def)
  have fr: "map (\<lambda>b. nat (ts_CPUBurst (((rrs_mem s)(a := t)) b))) (rr_all (rrs_queue s)) =
      map (\<lambda>b. nat (ts_CPUBurst (rrs_mem s b))) (rr_all (rrs_queue s))" for t using inv(2) by auto
  have sl: "(if r < 10 * 1000000 then r else 10 * 1000000) = ?c" by (simp add: min_def)
  have unf: "rr_chunk now a r s =
      (if ?b - ?c \<le> 0 then
         ?s\<lparr>rrs_mem := (rrs_mem ?s)(a := (rrs_mem ?s a)\<lparr>ts_CPUBurst := 0, ts_Status := StatusCompleted\<rparr>),
           rrs_metrics := RecordWait (ts_Priority (rrs_mem s a)) (ts_WaitTime (rrs_mem s a)) (RecordCompletedTask (rrs_metrics s)), rrs_phase := RRIdle\<rparr>
       else if 4 \<le> ts_Priority (rrs_mem s a) \<and> HasHighPriorityTask (rrs_queue s) then rr_requeue now a ?s
       else ?s\<lparr>rrs_phase := RRTask a (r - ?c)\<rparr>)"
    unfolding rr_chunk_def Let_def sl w by simp
  show ?thesis
  proof (cases "?b - ?c \<le> 0")
    case True
    let ?u = "rr_chunk now a r s"
    have u: "rrs_mem ?u = (rrs_mem s)(a := (rrs_mem s a)\<lparr>ts_CPUBurst := 0, ts_Status := StatusCompleted\<rparr>)" "rrs_queue ?u = rrs_queue s"
      "sm_CompletedTasks (rrs_metrics ?u) = sm_CompletedTasks (rrs_metrics s) + 1" "rrs_phase ?u = RRIdle" "rr_held ?u = []"
      using True by (simp_all add: unf RecordWait_def RecordCompletedTask_def rr_held_def)
    let ?q = "set (rr_all (rrs_queue s))"
    have a: "a \<in> A" "a \<notin> ?q" "?q \<subseteq> A" "distinct (rr_all (rrs_queue s))" using inv(2,3) held by auto
    have eq: "A - ?q = insert a (A - set (rr_open s))" "a \<notin> A - set (rr_open s)" using a held by auto
    have "rr_inv A ?u"
      unfolding rr_inv_def u append_Nil2
    proof (intro conjI ballI)
      show "sm_CompletedTasks (rrs_metrics s) + 1 = int (card (A - ?q))" using inv(1,9) eq(2) unfolding eq(1) by simp
      fix b assume "b \<in> A - ?q"
      then have "b = a \<or> b \<in> A - set (rr_open s)" using eq(1) by blast
      then show "ts_Status (((rrs_mem s)(a := (rrs_mem s a)\<lparr>ts_CPUBurst := 0, ts_Status := StatusCompleted\<rparr>)) b) = StatusCompleted"
        "ts_CPUBurst (((rrs_mem s)(a := (rrs_mem s a)\<lparr>ts_CPUBurst := 0, ts_Status := StatusCompleted\<rparr>)) b) = 0"
        using inv(8) by auto
    qed (use inv(1,7) a in \<open>auto\<close>)
    moreover have "rr_work ?u + nat ?b = rr_work s" unfolding work by (simp only: rr_work_def u append_Nil2 fr)
    then have "rr_measure ?u < rr_measure s" using inv(4) unfolding m by (simp add: rr_measure_def u(4))
    ultimately show ?thesis ..
  next
    case False
    have w': "rr_work ?s + nat ?c = rr_work s"
    proof -
      have "nat (?b - ?c) + nat ?c = nat ?b" using c False by linarith
      moreover have "rr_work ?s = sum_list (map (\<lambda>b. nat (ts_CPUBurst (((rrs_mem s)(a := (rrs_mem s a)\<lparr>ts_CPUBurst := ?b - ?c\<rparr>)) b)))
          (rr_all (rrs_queue s))) + nat (?b - ?c)" by (simp add: rr_work_def rr_held_def assms(2))
      ultimately show ?thesis unfolding work fr by linarith
    qed
    have nc: "0 < nat ?c" using c by simp
    let ?t = "?s\<lparr>rrs_phase := RRTask a (r - ?c)\<rparr>"
    have ht: "rr_held ?t = [a]" by (simp add: rr_held_def)
    have "r - ?c \<le> ?b - ?c" "0 \<le> r - ?c" using inv(6) c by linarith+
    then have i: "rr_inv A ?t" using inv False c(1) unfolding rr_inv_def ht held by (auto simp del: min_less_iff_conj)
    have t: "rr_work ?t = rr_work ?s" "rrs_phase ?t = RRTask a (r - ?c)" using assms(2) by (simp_all add: rr_work_def rr_held_def)
    show ?thesis
    proof (cases "4 \<le> ts_Priority (rrs_mem s a) \<and> HasHighPriorityTask (rrs_queue s)")
      case True
      have u: "rr_chunk now a r s = rr_requeue now a ?t" unfolding unf if_not_P [OF False] if_P [OF True] by (simp add: rr_requeue_def)
      have "rr_inv A (rr_requeue now a ?t)" "rr_work (rr_requeue now a ?t) = rr_work ?s" "rrs_phase (rr_requeue now a ?t) = RRIdle"
        using rr_inv_requeue [OF i t(2)] t(1) by simp_all
      then show ?thesis unfolding u m using w' nc by (simp add: rr_measure_def)
    next
      case no: False
      have u: "rr_chunk now a r s = ?t" unfolding unf if_not_P [OF False] if_not_P [OF no] ..
      have "rr_measure ?t \<le> 3 * rr_work ?s + 3" unfolding rr_measure_def t by (simp only: rr_phase.case split: if_split) linarith
      then have "rr_measure ?t < rr_measure s" unfolding m using w' nc by linarith
      then show ?thesis unfolding u by (rule conjI [OF i])
    qed
  qed
qed

lemma rr_inv_step:
  assumes "rr_inv A s"
  shows "rr_inv A (rr_step now s)" "rr_open s \<noteq> [] \<Longrightarrow> rr_measure (rr_step now s) < rr_measure s"
    "rr_open s = [] \<Longrightarrow> rr_step now s = s"
proof -
  have "rr_inv A (rr_step now s) \<and> (rr_open s \<noteq> [] \<longrightarrow> rr_measure (rr_step now s) < rr_measure s) \<and> (rr_open s = [] \<longrightarrow> rr_step now s = s)"
  proof (cases "rrs_phase s")
    case RRIdle
    show ?thesis
    proof (cases "rr_Pop (rrs_queue s)")
      case None
      then show ?thesis using rr_Pop_all [of "rrs_queue s"] RRIdle assms by (simp add: rr_step_def rr_held_def)
    next
      case (Some p)
      then obtain a quantum q where p: "rr_Pop (rrs_queue s) = Some (a, quantum, q)" by (cases p) auto
      then show ?thesis using rr_inv_start [OF assms RRIdle p] RRIdle rr_Pop_all [of "rrs_queue s"] by (simp add: rr_step_def)
    qed
  next
    case (RRTask a r)
    show ?thesis
    proof (cases "0 < r")
      case True
      then show ?thesis using rr_inv_chunk [OF assms RRTask True] RRTask by (simp add: rr_step_def rr_held_def)
    next
      case False
      then show ?thesis using rr_inv_requeue [OF assms RRTask] RRTask by (simp add: rr_step_def rr_held_def rr_measure_def)
    qed
  qed
  then show "rr_inv A (rr_step now s)" "rr_open s \<noteq> [] \<Longrightarrow> rr_measure (rr_step now s) < rr_measure s"
    "rr_open s = [] \<Longrightarrow> rr_step now s = s" by blast+
qed

lemma rr_measure_pos: "0 < rr_measure s"
  by (simp add: rr_measure_def split: rr_phase.split)

lemma rr_run:
  "rr_inv A s \<Longrightarrow> rr_measure s \<le> Suc (length nows) \<Longrightarrow> rr_inv A (fold rr_step nows s) \<and> rr_open (fold rr_step nows s) = []"
proof (induction nows arbitrary: s)
  case Nil
  then have "rr_measure s = 1" using rr_measure_pos [of s] by simp
  then show ?case using Nil rr_inv_step(2) [OF Nil(1), of 0] rr_measure_pos [of "rr_step 0 s"] by fastforce
next
  case (Cons now nows)
  note st = rr_inv_step [OF Cons.prems(1), of now]
  show ?case
  proof (cases "rr_open s = []")
    case True
    have "fold rr_step ns s = s" for ns
      by (induction ns) (use rr_inv_step(3) [OF Cons.prems(1)] True in simp_all)
    then show ?thesis using True Cons.prems(1) st(3) by simp
  next
    case False
    then have "rr_measure (rr_step now s) \<le> Suc (length nows)" using st(2) Cons.prems(2) by simp
    then show ?thesis using Cons.IH [OF st(1)] by simp
  qed
qed

text \<open>Pushing tasks before the scheduler runs.\<close>

definition rr_load :: "tasks \<Rightarrow> nat list \<Rightarrow> rr_sched \<Rightarrow> rr_sched" where
  "rr_load mem as s = s\<lparr>rrs_mem := mem, rrs_queue := fold (rr_Push mem) as (rrs_queue s)\<rparr>"

lemma rr_Push_fold: "mset (rr_all (fold (rr_Push mem) as q)) = mset as + mset (rr_all q)"
  by (induction as arbitrary: q) (simp_all add: rr_Push_all)

lemma rr_load_inv:
  assumes "distinct as" "\<forall>a\<in>set as. 0 < ts_CPUBurst (mem a) \<and> ts_CPUBurst (mem a) < 2 ^ 63"
  shows "rr_inv (set as) (rr_load mem as (NewRoundRobinScheduler now mem0))"
    and "rr_work (rr_load mem as (NewRoundRobinScheduler now mem0)) = sum_list (map (\<lambda>a. nat (ts_CPUBurst (mem a))) as)"
proof -
  let ?s = "rr_load mem as (NewRoundRobinScheduler now mem0)"
  have s: "rrs_mem ?s = mem" "rrs_phase ?s = RRIdle" "rr_held ?s = []" "sm_CompletedTasks (rrs_metrics ?s) = 0"
    "mset (rr_all (rrs_queue ?s)) = mset as"
    by (simp_all add: rr_load_def NewRoundRobinScheduler_def rr_held_def NewSchedulerMetrics_def rr_Push_fold NewRoundRobinQueue_def rr_all_def [of "\<lparr>rrq_high = [], rrq_medium = [], rrq_low = []\<rparr>"])
  have "distinct (rr_all (rrs_queue ?s)) = distinct as" using s(5) by (rule mset_eq_imp_distinct_iff)
  moreover have "set (rr_all (rrs_queue ?s)) = set as" using s(5) by (rule mset_eq_setD)
  ultimately show "rr_inv (set as) ?s" using assms by (simp add: rr_inv_def s(1-4))
  show "rr_work ?s = sum_list (map (\<lambda>a. nat (ts_CPUBurst (mem a))) as)"
    unfolding rr_work_def s(1,3) append_Nil2 by (rule work_perm [OF s(5)])
qed

section \<open>Properties\<close>

text \<open>C14. Round robin completes: of any tasks with positive bursts that are in the queues, in whatever
classes, all are completed, each once, with nothing left of its burst, within three steps for each
nanosecond of their bursts and one more; the scheduler is idle then.\<close>

theorem round_robin_completes:
  assumes "distinct as" "\<forall>a\<in>set as. 0 < ts_CPUBurst (mem a) \<and> ts_CPUBurst (mem a) < 2 ^ 63"
    and "3 * sum_list (map (\<lambda>a. nat (ts_CPUBurst (mem a))) as) + 1 \<le> length nows"
    and "s = fold rr_step nows (rr_load mem as (NewRoundRobinScheduler now mem0))"
  shows "rr_IsEmpty (rrs_queue s) \<and> rrs_phase s = RRIdle \<and> sm_CompletedTasks (rrs_metrics s) = int (length as) \<and>
    (\<forall>a\<in>set as. ts_Status (rrs_mem s a) = StatusCompleted \<and> ts_CPUBurst (rrs_mem s a) = 0)"
proof -
  let ?s = "rr_load mem as (NewRoundRobinScheduler now mem0)"
  note load = rr_load_inv [OF assms(1,2), of now mem0]
  have "rrs_phase ?s = RRIdle" by (simp add: rr_load_def NewRoundRobinScheduler_def)
  then have "rr_measure ?s \<le> Suc (length nows)" using load(2) assms(3) by (simp add: rr_measure_def)
  then have "rr_inv (set as) s" "rr_open s = []" using rr_run [OF load(1)] assms(4) by blast+
  then show ?thesis using assms(1)
    by (auto simp: rr_inv_def rr_IsEmpty_def rr_all_def rr_held_def distinct_card split: rr_phase.splits)
qed

text \<open>C39. A task without work never completes: a task of the high class whose burst is not positive
is given an empty slice and put back, for ever, and while it is alone in its class no task of the
other classes is run.\<close>

theorem empty_burst_never_completes:
  assumes "rrs_phase s = RRIdle" "rrq_high (rrs_queue s) = [a]" "PriorityClass (ts_Priority (rrs_mem s a)) = ClassHigh"
    and "ts_CPUBurst (rrs_mem s a) \<le> 0" "ts_Status (rrs_mem s a) = StatusReady" "s' = fold rr_step nows s"
  shows "ts_Status (rrs_mem s' a) \<noteq> StatusCompleted \<and> sm_CompletedTasks (rrs_metrics s') = sm_CompletedTasks (rrs_metrics s) \<and>
    rrq_medium (rrs_queue s') = rrq_medium (rrs_queue s) \<and> rrq_low (rrs_queue s') = rrq_low (rrs_queue s) \<and>
    (\<forall>b. b \<noteq> a \<longrightarrow> rrs_mem s' b = rrs_mem s b)"
proof -
  define ok :: "rr_sched \<Rightarrow> bool" where "ok t \<longleftrightarrow>
      (rrs_phase t = RRIdle \<and> rrq_high (rrs_queue t) = [a] \<or> (\<exists>r\<le>0. rrs_phase t = RRTask a r) \<and> rrq_high (rrs_queue t) = []) \<and>
      PriorityClass (ts_Priority (rrs_mem t a)) = ClassHigh \<and> ts_CPUBurst (rrs_mem t a) \<le> 0 \<and> ts_Status (rrs_mem t a) \<noteq> StatusCompleted \<and>
      sm_CompletedTasks (rrs_metrics t) = sm_CompletedTasks (rrs_metrics s) \<and>
      rrq_medium (rrs_queue t) = rrq_medium (rrs_queue s) \<and> rrq_low (rrs_queue t) = rrq_low (rrs_queue s) \<and>
      (\<forall>b. b \<noteq> a \<longrightarrow> rrs_mem t b = rrs_mem s b)" for t
  have step: "ok (rr_step now t)" if "ok t" for now t
    using that unfolding ok_def
    by (elim conjE disjE exE)
      (auto simp: rr_step_def rr_Pop_def rr_start_def rr_requeue_def rr_Push_def RecordContextSwitch_def HighQuantum_def Let_def)
  have "ok (fold rr_step nows t)" if "ok t" for t using that by (induction nows arbitrary: t) (simp_all add: step)
  moreover have "ok s" using assms(1-5) by (simp add: ok_def)
  ultimately show ?thesis using assms(6) by (simp add: ok_def)
qed

theorem empty_burst_never_completes_witness:
  "ts_Status (rrs_mem (fold rr_step [1, 2, 3, 4, 5] (rr_load (\<lambda>a. (sample_task (if a = 0 then 1 else 9) 0)\<lparr>ts_CPUBurst := int a\<rparr>) [1, 0] (NewRoundRobinScheduler 0 (\<lambda>_. sample_task 1 0)))) 0)
     \<noteq> StatusCompleted"
proof -
  let ?s = "rr_load (\<lambda>a. (sample_task (if a = 0 then 1 else 9) 0)\<lparr>ts_CPUBurst := int a\<rparr>) [1, 0] (NewRoundRobinScheduler 0 (\<lambda>_. sample_task 1 0))"
  have "rrs_phase ?s = RRIdle" "rrq_high (rrs_queue ?s) = [0]" "PriorityClass (ts_Priority (rrs_mem ?s 0)) = ClassHigh"
    "ts_CPUBurst (rrs_mem ?s 0) \<le> 0" "ts_Status (rrs_mem ?s 0) = StatusReady"
    by code_simp+
  then show ?thesis using empty_burst_never_completes [OF _ _ _ _ _ refl, of ?s 0 "[1, 2, 3, 4, 5]"] by blast
qed

theorem round_robin_completes_witness:
  "sm_CompletedTasks (rrs_metrics (fold rr_step (replicate 40 0)
     (rr_load (\<lambda>a. sample_task (if a = 0 then 1 else 9) 0) [1, 0] (NewRoundRobinScheduler 0 (\<lambda>_. sample_task 1 0))))) = 2"
  using round_robin_completes [OF _ _ _ refl, of "[1, 0]" "\<lambda>a. sample_task (if a = 0 then 1 else 9) 0" "replicate 40 0" 0 "\<lambda>_. sample_task 1 0"]
  by (simp add: sample_task_def)

end
