(* ===== verification/Sensor_Pipeline.thy ===== *)
theory Sensor_Pipeline
  imports Go_Float
begin

text \<open>
  The sensor pipeline (\<open>09-day/iot-pipeline\<close>): the circular queue (\<open>internal/queue\<close>), the detector, the
  statistics and the alert handler, and the pipeline of goroutines and channels that \<open>cmd/iot/main.go\<close>
  builds and shuts down (\<open>internal/pipeline\<close>).

  The goroutines are cut at every access to something shared: the channels, the clock, the statistics
  behind their mutex.  Random numbers and the moments at which timers fire are arguments of the steps;
  what is done with readings and alerts is an event.
\<close>

section \<open>Circular queue\<close>

record 'a circular_queue =
  cq_data :: "'a list"
  cq_head :: nat
  cq_tail :: nat
  cq_size :: nat
  cq_cap :: nat

datatype queue_error = ErrEmptyQueue | ErrFullQueue

text \<open>\<open>make\<close> panics on a negative capacity; the slice that it makes has the length 0.\<close>

definition NewCircularQueue :: "int \<Rightarrow> 'a circular_queue option" where
  "NewCircularQueue c =
     (if c < 0 then None else Some \<lparr>cq_data = [], cq_head = 0, cq_tail = 0, cq_size = 0, cq_cap = nat c\<rparr>)"

definition cq_put :: "'a \<Rightarrow> 'a circular_queue \<Rightarrow> 'a circular_queue option" where
  "cq_put t c =
     (if cq_tail c < length (cq_data c) \<and> cq_cap c \<noteq> 0 then
        Some (c\<lparr>cq_data := (cq_data c)[cq_tail c := t], cq_tail := (cq_tail c + 1) mod cq_cap c\<rparr>)
      else None)"

definition cq_Enqueue :: "'a \<Rightarrow> 'a circular_queue \<Rightarrow> (queue_error + 'a circular_queue) option" where
  "cq_Enqueue t c =
     (if cq_size c = cq_cap c then Some (Inl ErrFullQueue)
      else map_option (\<lambda>c. Inr (c\<lparr>cq_size := cq_size c + 1\<rparr>)) (cq_put t c))"

definition cq_EnqueueOverwrite :: "'a \<Rightarrow> 'a circular_queue \<Rightarrow> 'a circular_queue option" where
  "cq_EnqueueOverwrite t c =
     map_option (\<lambda>c. if cq_size c = cq_cap c then c\<lparr>cq_head := (cq_head c + 1) mod cq_cap c\<rparr>
                     else c\<lparr>cq_size := cq_size c + 1\<rparr>) (cq_put t c)"

definition cq_Dequeue :: "'a \<Rightarrow> 'a circular_queue \<Rightarrow> (queue_error + 'a \<times> 'a circular_queue) option" where
  "cq_Dequeue zero c =
     (if cq_size c = 0 then Some (Inl ErrEmptyQueue)
      else if cq_head c < length (cq_data c) \<and> cq_cap c \<noteq> 0 then
        Some (Inr (cq_data c ! cq_head c,
          c\<lparr>cq_data := (cq_data c)[cq_head c := zero], cq_head := (cq_head c + 1) mod cq_cap c, cq_size := cq_size c - 1\<rparr>))
      else None)"

definition cq_Peek :: "'a circular_queue \<Rightarrow> (queue_error + 'a) option" where
  "cq_Peek c =
     (if cq_size c = 0 then Some (Inl ErrEmptyQueue)
      else if cq_head c < length (cq_data c) then Some (Inr (cq_data c ! cq_head c))
      else None)"

definition cq_IsFull :: "'a circular_queue \<Rightarrow> bool" where
  "cq_IsFull c \<longleftrightarrow> cq_size c = cq_cap c"

definition cq_IsEmpty :: "'a circular_queue \<Rightarrow> bool" where
  "cq_IsEmpty c \<longleftrightarrow> cq_size c = 0"

definition cq_Size :: "'a circular_queue \<Rightarrow> nat" where
  "cq_Size c = cq_size c"

definition cq_Cap :: "'a circular_queue \<Rightarrow> nat" where
  "cq_Cap c = cq_cap c"

definition cq_Len :: "'a circular_queue \<Rightarrow> nat" where
  "cq_Len c = cq_size c"

section \<open>Readings and alerts\<close>

datatype sensor_type = HumiditySensor | TemperatureSensor | MotionSensor | LightSensor | PressureSensor

datatype alert_severity = Info | Warning | Critical

record sensor_reading =
  sr_SensorID :: string
  sr_Type :: sensor_type
  sr_Value :: f64
  sr_Unit :: string
  sr_Location :: string
  sr_Timestamp :: gotime

record sensor_alert =
  al_Reading :: sensor_reading
  al_Message :: string
  al_Severity :: alert_severity
  al_Timestamp :: gotime

text \<open>\<open>zone\<close>: the offset of the local time.\<close>

definition time_Hour :: "int \<Rightarrow> gotime \<Rightarrow> int" where
  "time_Hour zone now = (now + zone) div (3600 * 1000000000) mod 24"

definition isRestrictedHour :: "int \<Rightarrow> gotime \<Rightarrow> bool" where
  "isRestrictedHour zone now \<longleftrightarrow> (let hour = time_Hour zone now in 22 \<le> hour \<or> hour < 6)"

definition DetectAnomaly :: "int \<Rightarrow> sensor_reading \<Rightarrow> gotime \<Rightarrow> sensor_alert option" where
  "DetectAnomaly zone reading now =
     (case sr_Type reading of
        TemperatureSensor \<Rightarrow>
          if f64_of_int 50 < sr_Value reading then
            Some \<lparr>al_Reading = reading, al_Message = ''temperature exceeded 50'' @ bytes [194, 176] @ ''C'', al_Severity = Critical, al_Timestamp = now\<rparr>
          else None
      | HumiditySensor \<Rightarrow>
          if f64_of_int 95 < sr_Value reading then
            Some \<lparr>al_Reading = reading, al_Message = ''humidity exceeded 95%'', al_Severity = Critical, al_Timestamp = now\<rparr>
          else None
      | MotionSensor \<Rightarrow>
          if isRestrictedHour zone now \<and> f64_of_int 0 < sr_Value reading then
            Some \<lparr>al_Reading = reading, al_Message = ''motion detected during restricted hours'', al_Severity = Warning, al_Timestamp = now\<rparr>
          else None
      | _ \<Rightarrow> None)"

section \<open>Statistics\<close>

record sensor_stats =
  ss_Count :: int
  ss_Sum :: f64
  ss_Average :: f64

record pipeline_stats =
  st_startTime :: gotime
  st_processedCount :: int
  st_totalLatency :: duration
  st_alertsBySensor :: "string \<rightharpoonup> int"
  st_sensorStats :: "string \<rightharpoonup> sensor_stats"

definition NewStats :: "gotime \<Rightarrow> pipeline_stats" where
  "NewStats now = \<lparr>st_startTime = now, st_processedCount = 0, st_totalLatency = 0, st_alertsBySensor = Map.empty, st_sensorStats = Map.empty\<rparr>"

definition zero_stats :: sensor_stats where
  "zero_stats = \<lparr>ss_Count = 0, ss_Sum = f64_of_int 0, ss_Average = f64_of_int 0\<rparr>"

text \<open>The values of a sensor, one after the other.\<close>

definition add_value :: "f64 \<Rightarrow> sensor_stats \<Rightarrow> sensor_stats" where
  "add_value value stats =
     (let n = wrap64 (ss_Count stats + 1); sum = ss_Sum stats + value
      in \<lparr>ss_Count = n, ss_Sum = sum, ss_Average = sum / f64_of_int n\<rparr>)"

definition RecordProcessed :: "string \<Rightarrow> f64 \<Rightarrow> duration \<Rightarrow> pipeline_stats \<Rightarrow> pipeline_stats" where
  "RecordProcessed sensorID value latency s =
     (let stats = (case st_sensorStats s sensorID of None \<Rightarrow> zero_stats | Some x \<Rightarrow> x)
      in s\<lparr>st_processedCount := wrap64 (st_processedCount s + 1), st_totalLatency := wrap64 (st_totalLatency s + latency),
           st_sensorStats := (st_sensorStats s)(sensorID \<mapsto> add_value value stats)\<rparr>)"

definition RecordAlert :: "string \<Rightarrow> pipeline_stats \<Rightarrow> pipeline_stats" where
  "RecordAlert sensorID s =
     s\<lparr>st_alertsBySensor := (st_alertsBySensor s)
        (sensorID \<mapsto> wrap64 ((case st_alertsBySensor s sensorID of None \<Rightarrow> 0 | Some n \<Rightarrow> n) + 1))\<rparr>"

definition ProcessedPerSecond :: "gotime \<Rightarrow> pipeline_stats \<Rightarrow> f64" where
  "ProcessedPerSecond now s =
     (let elapsed = dur_Seconds (time_Sub now (st_startTime s))
      in if elapsed = f64_of_int 0 then f64_of_int 0 else f64_of_int (st_processedCount s) / elapsed)"

definition AverageLatency :: "pipeline_stats \<Rightarrow> duration" where
  "AverageLatency s = (if st_processedCount s = 0 then 0 else dur_div (st_totalLatency s) (st_processedCount s))"

definition AlertsBySensor :: "pipeline_stats \<Rightarrow> (string \<rightharpoonup> int)" where
  "AlertsBySensor s = st_alertsBySensor s"

definition SensorStats :: "pipeline_stats \<Rightarrow> (string \<rightharpoonup> sensor_stats)" where
  "SensorStats s = st_sensorStats s"

section \<open>Sensors\<close>

record sensor_config =
  sc_ID :: string
  sc_Type :: sensor_type
  sc_Unit :: string
  sc_Location :: string
  sc_MinValue :: f64
  sc_MaxValue :: f64
  sc_MinInterval :: duration
  sc_MaxInterval :: duration

text \<open>\<open>r\<close> is the result of \<open>rand.Float64()\<close>, \<open>rnd n\<close> the one of \<open>rand.Int63n(n)\<close>.\<close>

definition generateNumber :: "f64 \<Rightarrow> f64 \<Rightarrow> f64 \<Rightarrow> f64" where
  "generateNumber r minValue maxValue =
     (if maxValue \<le> minValue then minValue else r * (maxValue - minValue) + minValue)"

definition generateInterval :: "(int \<Rightarrow> int) \<Rightarrow> duration \<Rightarrow> duration \<Rightarrow> duration" where
  "generateInterval rnd minInterval maxInterval =
     (if maxInterval \<le> minInterval then minInterval
      else (let delta = wrap64 (maxInterval - minInterval) in wrap64 (minInterval + rnd delta)))"

definition sensor_config_of :: "string \<Rightarrow> sensor_type \<Rightarrow> string \<Rightarrow> string \<Rightarrow> int \<Rightarrow> int \<Rightarrow> sensor_config" where
  "sensor_config_of i t u l lo hi =
     \<lparr>sc_ID = i, sc_Type = t, sc_Unit = u, sc_Location = l, sc_MinValue = f64_of_int lo, sc_MaxValue = f64_of_int hi,
      sc_MinInterval = 100 * 1000000, sc_MaxInterval = 500 * 1000000\<rparr>"

definition AllSensorConfigs :: "sensor_config list" where
  "AllSensorConfigs =
     [sensor_config_of ''temp-01'' TemperatureSensor ''C'' ''room-a'' 18 60,
      sensor_config_of ''temp-02'' TemperatureSensor ''C'' ''room-b'' 18 60,
      sensor_config_of ''humidity-01'' HumiditySensor ''%'' ''room-a'' 30 100,
      sensor_config_of ''humidity-02'' HumiditySensor ''%'' ''room-b'' 30 100,
      sensor_config_of ''motion-01'' MotionSensor ''state'' ''entrance'' 0 1,
      sensor_config_of ''motion-02'' MotionSensor ''state'' ''corridor'' 0 1,
      sensor_config_of ''pressure-01'' PressureSensor ''hPa'' ''outdoor'' 980 1040,
      sensor_config_of ''pressure-02'' PressureSensor ''hPa'' ''server-room'' 980 1040,
      sensor_config_of ''light-01'' LightSensor ''lux'' ''office'' 0 1000,
      sensor_config_of ''light-02'' LightSensor ''lux'' ''warehouse'' 0 1000]"

definition new_reading :: "sensor_config \<Rightarrow> f64 \<Rightarrow> gotime \<Rightarrow> sensor_reading" where
  "new_reading c r now =
     \<lparr>sr_SensorID = sc_ID c, sr_Type = sc_Type c, sr_Value = generateNumber r (sc_MinValue c) (sc_MaxValue c),
      sr_Unit = sc_Unit c, sr_Location = sc_Location c, sr_Timestamp = now\<rparr>"

section \<open>Channels\<close>

record 'a channel =
  ch_items :: "'a list"
  ch_cap :: nat
  ch_closed :: bool

definition make_chan :: "nat \<Rightarrow> 'a channel" where
  "make_chan n = \<lparr>ch_items = [], ch_cap = n, ch_closed = False\<rparr>"

definition QueueUtilization :: "'a channel \<Rightarrow> f64" where
  "QueueUtilization c =
     (if ch_cap c = 0 then f64_of_int 0
      else f64_of_int (int (length (ch_items c))) / f64_of_int (int (ch_cap c)) * f64_of_int 100)"

text \<open>The outcome of a step: it has to wait, it panics, or it is done.\<close>

datatype 'a outcome = Blocked | Panicked | Next 'a

definition chan_send :: "'a \<Rightarrow> 'a channel \<Rightarrow> 'a channel outcome" where
  "chan_send x c =
     (if ch_closed c then Panicked
      else if ch_cap c \<le> length (ch_items c) then Blocked
      else Next (c\<lparr>ch_items := ch_items c @ [x]\<rparr>))"

text \<open>The value received; \<open>None\<close>: the channel is closed and empty.\<close>

definition chan_receive :: "'a channel \<Rightarrow> ('a option \<times> 'a channel) outcome" where
  "chan_receive c =
     (case ch_items c of
        x # xs \<Rightarrow> Next (Some x, c\<lparr>ch_items := xs\<rparr>)
      | [] \<Rightarrow> if ch_closed c then Next (None, c) else Blocked)"

definition chan_close :: "'a channel \<Rightarrow> 'a channel outcome" where
  "chan_close c = (if ch_closed c then Panicked else Next (c\<lparr>ch_closed := True\<rparr>))"

section \<open>Alert handler\<close>

text \<open>Whether the alert is shown, and when each sensor's last alert was.\<close>

definition handle_alert :: "gotime \<Rightarrow> sensor_alert \<Rightarrow> (string \<rightharpoonup> gotime) \<Rightarrow> bool \<times> (string \<rightharpoonup> gotime)" where
  "handle_alert now alert lastAlertAt =
     (let sensorID = sr_SensorID (al_Reading alert)
      in case lastAlertAt sensorID of
           Some lastSeen \<Rightarrow> if time_Sub now lastSeen < 60 * 1000000000 then (False, lastAlertAt)
             else (True, lastAlertAt(sensorID \<mapsto> now))
         | None \<Rightarrow> (True, lastAlertAt(sensorID \<mapsto> now)))"

section \<open>The pipeline\<close>

text \<open>Where each goroutine stands.\<close>

datatype sensor_phase = SensorTimer | SensorSend sensor_reading | SensorDone
datatype proc_phase =
    ProcReady
  | ProcRead sensor_reading
  | ProcTimed sensor_reading gotime
  | ProcDetect sensor_reading
  | ProcAlert sensor_alert
  | ProcSent sensor_alert
  | ProcDone
datatype handler_phase = HandlerReady | HandlerAlert sensor_alert | HandlerDone
datatype main_phase = MainRun | MainSensors | MainProcessors | MainAlerts | MainDone

record pipeline =
  pl_now :: gotime
  pl_cancelled :: bool
  pl_configs :: "sensor_config list"
  pl_sensors :: "sensor_phase list"
  pl_readings :: "sensor_reading channel"
  pl_procs :: "proc_phase list"
  pl_alerts :: "sensor_alert channel"
  pl_handler :: handler_phase
  pl_lastAlert :: "string \<rightharpoonup> gotime"
  pl_stats :: pipeline_stats
  pl_main :: main_phase

definition start_pipeline :: "gotime \<Rightarrow> pipeline" where
  "start_pipeline now =
     \<lparr>pl_now = now, pl_cancelled = False, pl_configs = AllSensorConfigs,
      pl_sensors = replicate (length AllSensorConfigs) SensorTimer, pl_readings = make_chan 10,
      pl_procs = replicate 3 ProcReady, pl_alerts = make_chan 50, pl_handler = HandlerReady, pl_lastAlert = Map.empty,
      pl_stats = NewStats now, pl_main = MainRun\<rparr>"

datatype pipe_act =
    ActClock gotime
  | ActTimeout
  | ActProduce nat f64
  | ActSend nat
  | ActSensorStop nat
  | ActReceive nat
  | ActTime nat
  | ActRecord nat
  | ActDetect nat
  | ActAlert nat
  | ActCount nat
  | ActProcStop nat
  | ActTake
  | ActHandle
  | ActMain

datatype pipe_event =
    EvSent sensor_reading
  | EvReceived sensor_reading
  | EvProcessed sensor_reading gotime
  | EvChecked sensor_reading gotime
  | EvAlert sensor_alert
  | EvCounted sensor_alert
  | EvDropped sensor_alert
  | EvShown gotime sensor_alert
  | EvSuppressed gotime sensor_alert

text \<open>The timer of a sensor fires; the reading is sent in the next step.\<close>

definition sensor_produce :: "nat \<Rightarrow> f64 \<Rightarrow> pipeline \<Rightarrow> (pipe_event list \<times> pipeline) outcome" where
  "sensor_produce i r s =
     (if i < length (pl_sensors s) \<and> pl_sensors s ! i = SensorTimer then
        Next ([], s\<lparr>pl_sensors := (pl_sensors s)[i := SensorSend (new_reading (pl_configs s ! i) r (pl_now s))]\<rparr>)
      else Blocked)"

definition sensor_send :: "nat \<Rightarrow> pipeline \<Rightarrow> (pipe_event list \<times> pipeline) outcome" where
  "sensor_send i s =
     (if i < length (pl_sensors s) then
        (case pl_sensors s ! i of
           SensorSend reading \<Rightarrow>
             (case chan_send reading (pl_readings s) of
                Blocked \<Rightarrow> Blocked
              | Panicked \<Rightarrow> Panicked
              | Next c \<Rightarrow> Next ([EvSent reading], s\<lparr>pl_sensors := (pl_sensors s)[i := SensorTimer], pl_readings := c\<rparr>))
         | _ \<Rightarrow> Blocked)
      else Blocked)"

definition sensor_stop :: "nat \<Rightarrow> pipeline \<Rightarrow> (pipe_event list \<times> pipeline) outcome" where
  "sensor_stop i s =
     (if i < length (pl_sensors s) \<and> pl_sensors s ! i \<noteq> SensorDone \<and> pl_cancelled s then
        Next ([], s\<lparr>pl_sensors := (pl_sensors s)[i := SensorDone]\<rparr>)
      else Blocked)"

text \<open>
  A processor receives a reading (or finds the channel closed), reads the clock for the latency, records
  the reading, reads the clock again for the detector, and if there is an alert, sends and then counts it.
\<close>

definition proc_receive :: "nat \<Rightarrow> pipeline \<Rightarrow> (pipe_event list \<times> pipeline) outcome" where
  "proc_receive j s =
     (if j < length (pl_procs s) \<and> pl_procs s ! j = ProcReady then
        (case chan_receive (pl_readings s) of
           Blocked \<Rightarrow> Blocked
         | Panicked \<Rightarrow> Panicked
         | Next (None, c) \<Rightarrow> Next ([], s\<lparr>pl_procs := (pl_procs s)[j := ProcDone]\<rparr>)
         | Next (Some reading, c) \<Rightarrow>
             Next ([EvReceived reading], s\<lparr>pl_readings := c, pl_procs := (pl_procs s)[j := ProcRead reading]\<rparr>))
      else Blocked)"

definition proc_time :: "nat \<Rightarrow> pipeline \<Rightarrow> (pipe_event list \<times> pipeline) outcome" where
  "proc_time j s =
     (if j < length (pl_procs s) then
        (case pl_procs s ! j of
           ProcRead reading \<Rightarrow> Next ([], s\<lparr>pl_procs := (pl_procs s)[j := ProcTimed reading (pl_now s)]\<rparr>)
         | _ \<Rightarrow> Blocked)
      else Blocked)"

definition proc_record :: "nat \<Rightarrow> pipeline \<Rightarrow> (pipe_event list \<times> pipeline) outcome" where
  "proc_record j s =
     (if j < length (pl_procs s) then
        (case pl_procs s ! j of
           ProcTimed reading now \<Rightarrow>
             (let latency = time_Sub now (sr_Timestamp reading)
              in Next ([EvProcessed reading now],
                   s\<lparr>pl_stats := RecordProcessed (sr_SensorID reading) (sr_Value reading) latency (pl_stats s),
                     pl_procs := (pl_procs s)[j := ProcDetect reading]\<rparr>))
         | _ \<Rightarrow> Blocked)
      else Blocked)"

definition proc_detect :: "int \<Rightarrow> nat \<Rightarrow> pipeline \<Rightarrow> (pipe_event list \<times> pipeline) outcome" where
  "proc_detect zone j s =
     (if j < length (pl_procs s) then
        (case pl_procs s ! j of
           ProcDetect reading \<Rightarrow>
             (let phase = (case DetectAnomaly zone reading (pl_now s) of None \<Rightarrow> ProcReady | Some alert \<Rightarrow> ProcAlert alert)
              in Next ([EvChecked reading (pl_now s)], s\<lparr>pl_procs := (pl_procs s)[j := phase]\<rparr>))
         | _ \<Rightarrow> Blocked)
      else Blocked)"

definition proc_alert :: "nat \<Rightarrow> pipeline \<Rightarrow> (pipe_event list \<times> pipeline) outcome" where
  "proc_alert j s =
     (if j < length (pl_procs s) then
        (case pl_procs s ! j of
           ProcAlert alert \<Rightarrow>
             (case chan_send alert (pl_alerts s) of
                Blocked \<Rightarrow> Blocked
              | Panicked \<Rightarrow> Panicked
              | Next c \<Rightarrow>
                  Next ([EvAlert alert], s\<lparr>pl_alerts := c, pl_procs := (pl_procs s)[j := ProcSent alert]\<rparr>))
         | _ \<Rightarrow> Blocked)
      else Blocked)"

definition proc_count :: "nat \<Rightarrow> pipeline \<Rightarrow> (pipe_event list \<times> pipeline) outcome" where
  "proc_count j s =
     (if j < length (pl_procs s) then
        (case pl_procs s ! j of
           ProcSent alert \<Rightarrow>
             Next ([EvCounted alert], s\<lparr>pl_stats := RecordAlert (sr_SensorID (al_Reading alert)) (pl_stats s),
               pl_procs := (pl_procs s)[j := ProcReady]\<rparr>)
         | _ \<Rightarrow> Blocked)
      else Blocked)"

definition proc_stop :: "nat \<Rightarrow> pipeline \<Rightarrow> (pipe_event list \<times> pipeline) outcome" where
  "proc_stop j s =
     (if j < length (pl_procs s) then
        (case pl_procs s ! j of
           ProcAlert alert \<Rightarrow>
             if pl_cancelled s then Next ([EvDropped alert], s\<lparr>pl_procs := (pl_procs s)[j := ProcDone]\<rparr>) else Blocked
         | _ \<Rightarrow> Blocked)
      else Blocked)"

definition handler_take :: "pipeline \<Rightarrow> (pipe_event list \<times> pipeline) outcome" where
  "handler_take s =
     (if pl_handler s = HandlerReady then
        (case chan_receive (pl_alerts s) of
           Blocked \<Rightarrow> Blocked
         | Panicked \<Rightarrow> Panicked
         | Next (None, c) \<Rightarrow> Next ([], s\<lparr>pl_handler := HandlerDone\<rparr>)
         | Next (Some alert, c) \<Rightarrow> Next ([], s\<lparr>pl_alerts := c, pl_handler := HandlerAlert alert\<rparr>))
      else Blocked)"

definition handler_step :: "pipeline \<Rightarrow> (pipe_event list \<times> pipeline) outcome" where
  "handler_step s =
     (case pl_handler s of
        HandlerAlert alert \<Rightarrow>
          (let (shown, lastAlert) = handle_alert (pl_now s) alert (pl_lastAlert s)
           in Next ([if shown then EvShown (pl_now s) alert else EvSuppressed (pl_now s) alert],
                s\<lparr>pl_handler := HandlerReady, pl_lastAlert := lastAlert\<rparr>))
      | _ \<Rightarrow> Blocked)"

definition main_step :: "pipeline \<Rightarrow> (pipe_event list \<times> pipeline) outcome" where
  "main_step s =
     (case pl_main s of
        MainRun \<Rightarrow> if pl_cancelled s then Next ([], s\<lparr>pl_main := MainSensors\<rparr>) else Blocked
      | MainSensors \<Rightarrow>
          if list_all (\<lambda>p. p = SensorDone) (pl_sensors s) then
            (case chan_close (pl_readings s) of
               Blocked \<Rightarrow> Blocked
             | Panicked \<Rightarrow> Panicked
             | Next c \<Rightarrow> Next ([], s\<lparr>pl_readings := c, pl_main := MainProcessors\<rparr>))
          else Blocked
      | MainProcessors \<Rightarrow>
          if list_all (\<lambda>p. p = ProcDone) (pl_procs s) then
            (case chan_close (pl_alerts s) of
               Blocked \<Rightarrow> Blocked
             | Panicked \<Rightarrow> Panicked
             | Next c \<Rightarrow> Next ([], s\<lparr>pl_alerts := c, pl_main := MainAlerts\<rparr>))
          else Blocked
      | MainAlerts \<Rightarrow> if pl_handler s = HandlerDone then Next ([], s\<lparr>pl_main := MainDone\<rparr>) else Blocked
      | MainDone \<Rightarrow> Blocked)"

fun pipe_step :: "int \<Rightarrow> pipe_act \<Rightarrow> pipeline \<Rightarrow> (pipe_event list \<times> pipeline) outcome" where
  "pipe_step zone (ActClock t) s = (if pl_now s \<le> t then Next ([], s\<lparr>pl_now := t\<rparr>) else Blocked)"
| "pipe_step zone ActTimeout s = Next ([], s\<lparr>pl_cancelled := True\<rparr>)"
| "pipe_step zone (ActProduce i r) s = sensor_produce i r s"
| "pipe_step zone (ActSend i) s = sensor_send i s"
| "pipe_step zone (ActSensorStop i) s = sensor_stop i s"
| "pipe_step zone (ActReceive j) s = proc_receive j s"
| "pipe_step zone (ActTime j) s = proc_time j s"
| "pipe_step zone (ActRecord j) s = proc_record j s"
| "pipe_step zone (ActDetect j) s = proc_detect zone j s"
| "pipe_step zone (ActAlert j) s = proc_alert j s"
| "pipe_step zone (ActCount j) s = proc_count j s"
| "pipe_step zone (ActProcStop j) s = proc_stop j s"
| "pipe_step zone ActTake s = handler_take s"
| "pipe_step zone ActHandle s = handler_step s"
| "pipe_step zone ActMain s = main_step s"

text \<open>A run, with its events.\<close>

fun pipe_run :: "int \<Rightarrow> pipe_act list \<Rightarrow> pipeline \<Rightarrow> (pipe_event list \<times> pipeline) outcome" where
  "pipe_run zone [] s = Next ([], s)"
| "pipe_run zone (act # acts) s =
     (case pipe_step zone act s of
        Blocked \<Rightarrow> Blocked
      | Panicked \<Rightarrow> Panicked
      | Next (evs, s) \<Rightarrow>
          (case pipe_run zone acts s of
             Blocked \<Rightarrow> Blocked
           | Panicked \<Rightarrow> Panicked
           | Next (evs', s) \<Rightarrow> Next (evs @ evs', s)))"

end
