(* ===== verification/Pipeline_Correct.thy ===== *)
theory Pipeline_Correct
  imports Sensor_Pipeline
begin

text \<open>
  The circular queue is a bounded queue once its slice is filled, which its constructor does not do;
  the pipeline accounts for every reading and alert, never panics, and can always be shut down, but
  may leave readings behind.
\<close>

section \<open>Circular queue\<close>

definition cq_rep :: "'a circular_queue \<Rightarrow> 'a list \<Rightarrow> bool" where
  "cq_rep c xs \<longleftrightarrow>
     length (cq_data c) = cq_cap c \<and> cq_head c < cq_cap c \<and> length xs \<le> cq_cap c \<and> cq_size c = length xs \<and>
     cq_tail c = (cq_head c + length xs) mod cq_cap c \<and>
     (\<forall>i<length xs. cq_data c ! ((cq_head c + i) mod cq_cap c) = xs ! i)"

lemma ring_index_inj:
  assumes "i < n" "j < n" "(h + i) mod n = (h + j) mod (n :: nat)"
  shows "i = j"
proof -
  have "(h + i) mod int n = (h + j) mod int n" using assms(3) by (metis of_nat_mod)
  then have "int i mod int n = int j mod int n" by (simp add: mod_eq_dvd_iff)
  then show ?thesis using assms(1,2) by simp
qed

lemma cq_rep_put:
  assumes "cq_rep c xs"
  obtains c' where "cq_put t c = Some c'" "length (cq_data c') = cq_cap c" "cq_cap c' = cq_cap c" "cq_head c' = cq_head c"
    "cq_size c' = cq_size c" "cq_tail c' = (cq_head c + Suc (length xs)) mod cq_cap c"
    "cq_data c' ! ((cq_head c + length xs) mod cq_cap c) = t"
    "\<forall>i<cq_cap c. (cq_head c + i) mod cq_cap c \<noteq> cq_tail c \<longrightarrow> i < length xs \<longrightarrow> cq_data c' ! ((cq_head c + i) mod cq_cap c) = xs ! i"
proof -
  have n: "0 < cq_cap c" using assms by (simp add: cq_rep_def)
  then have tail: "cq_tail c < length (cq_data c)" using assms by (simp add: cq_rep_def)
  have p: "cq_put t c = Some (c\<lparr>cq_data := (cq_data c)[cq_tail c := t], cq_tail := (cq_tail c + 1) mod cq_cap c\<rparr>)"
    using tail n by (simp add: cq_put_def)
  show thesis
    by (rule that [OF p]) (use assms n tail in \<open>auto simp: cq_rep_def mod_Suc_eq\<close>)
qed

text \<open>With a filled slice: the first in is the first out, a full queue refuses a value or gives up its
  oldest one.\<close>

lemma cq_Enqueue_correct:
  assumes "cq_rep c xs"
  shows "if length xs = cq_cap c then cq_Enqueue t c = Some (Inl ErrFullQueue)
    else \<exists>c'. cq_Enqueue t c = Some (Inr c') \<and> cq_rep c' (xs @ [t]) \<and> cq_cap c' = cq_cap c"
proof (cases "length xs = cq_cap c")
  case True
  then show ?thesis using assms by (simp add: cq_Enqueue_def cq_rep_def)
next
  case False
  then have less: "length xs < cq_cap c" using assms by (simp add: cq_rep_def)
  obtain c' where c': "cq_put t c = Some c'" "length (cq_data c') = cq_cap c" "cq_cap c' = cq_cap c" "cq_head c' = cq_head c"
    "cq_size c' = cq_size c" "cq_tail c' = (cq_head c + Suc (length xs)) mod cq_cap c"
    "cq_data c' ! ((cq_head c + length xs) mod cq_cap c) = t"
    "\<forall>i<cq_cap c. (cq_head c + i) mod cq_cap c \<noteq> cq_tail c \<longrightarrow> i < length xs \<longrightarrow> cq_data c' ! ((cq_head c + i) mod cq_cap c) = xs ! i"
    by (rule cq_rep_put [OF assms, where t = t])
  have "cq_data c' ! ((cq_head c + i) mod cq_cap c) = (xs @ [t]) ! i" if "i < Suc (length xs)" for i
  proof (cases "i = length xs")
    case True
    then show ?thesis using c'(7) by simp
  next
    case i: False
    then have "(cq_head c + i) mod cq_cap c \<noteq> cq_tail c"
      using ring_index_inj [of i "cq_cap c" "length xs" "cq_head c"] that less assms by (auto simp: cq_rep_def)
    then show ?thesis using c'(8) [rule_format, of i] that i less by (simp add: nth_append)
  qed
  then have "cq_rep (c'\<lparr>cq_size := cq_size c' + 1\<rparr>) (xs @ [t])"
    using c' assms less by (simp add: cq_rep_def)
  then show ?thesis using False c' assms by (simp add: cq_Enqueue_def cq_rep_def)
qed

lemma cq_EnqueueOverwrite_full:
  assumes "cq_rep c (x # xs)" "Suc (length xs) = cq_cap c"
  shows "\<exists>c'. cq_EnqueueOverwrite t c = Some c' \<and> cq_rep c' (xs @ [t])"
proof -
  obtain c' where c': "cq_put t c = Some c'" "length (cq_data c') = cq_cap c" "cq_cap c' = cq_cap c" "cq_head c' = cq_head c"
    "cq_size c' = cq_size c" "cq_tail c' = (cq_head c + Suc (length (x # xs))) mod cq_cap c"
    "cq_data c' ! ((cq_head c + length (x # xs)) mod cq_cap c) = t"
    "\<forall>i<cq_cap c. (cq_head c + i) mod cq_cap c \<noteq> cq_tail c \<longrightarrow> i < length (x # xs) \<longrightarrow>
       cq_data c' ! ((cq_head c + i) mod cq_cap c) = (x # xs) ! i"
    by (rule cq_rep_put [OF assms(1), where t = t])
  have n: "cq_head c < cq_cap c" "cq_size c = cq_cap c" "cq_tail c = cq_head c" using assms by (auto simp: cq_rep_def)
  have t: "cq_data c' ! cq_head c = t" using c'(7) n(1) assms(2) by simp
  have e: "((cq_head c + 1) mod cq_cap c + i) mod cq_cap c = (cq_head c + Suc i) mod cq_cap c" for i by (simp add: mod_add_left_eq)
  have "cq_data c' ! ((cq_head c + Suc i) mod cq_cap c) = (xs @ [t]) ! i" if "i < Suc (length xs)" for i
  proof (cases "i = length xs")
    case True
    then show ?thesis using t n(1) assms(2) by simp
  next
    case False
    then have "(cq_head c + Suc i) mod cq_cap c \<noteq> cq_tail c"
      using ring_index_inj [of "Suc i" "cq_cap c" 0 "cq_head c"] that assms(2) n by (auto simp del: add_Suc_right)
    then show ?thesis using c'(8) [rule_format, of "Suc i"] that False assms(2) by (simp add: nth_append)
  qed
  moreover have "Suc (cq_head c + cq_cap c) mod cq_cap c = Suc (cq_head c) mod cq_cap c" by (metis add_Suc mod_add_self2)
  ultimately have "cq_rep (c'\<lparr>cq_head := (cq_head c + 1) mod cq_cap c\<rparr>) (xs @ [t])"
    using c' n assms(2) by (simp add: cq_rep_def e [simplified] mod_add_left_eq)
  then show ?thesis using c' n by (simp add: cq_EnqueueOverwrite_def)
qed

lemma cq_Dequeue_correct:
  assumes "cq_rep c xs"
  shows "case xs of [] \<Rightarrow> cq_Dequeue zero c = Some (Inl ErrEmptyQueue)
    | x # ys \<Rightarrow> \<exists>c'. cq_Dequeue zero c = Some (Inr (x, c')) \<and> cq_rep c' ys"
proof (cases xs)
  case Nil
  then show ?thesis using assms by (simp add: cq_Dequeue_def cq_rep_def)
next
  case (Cons x ys)
  let ?n = "cq_cap c"
  have r: "cq_head c < ?n" "length (cq_data c) = ?n" "length ys < ?n" "cq_size c = Suc (length ys)" "cq_tail c = (cq_head c + Suc (length ys)) mod ?n"
    and at: "\<And>i. i < Suc (length ys) \<Longrightarrow> cq_data c ! ((cq_head c + i) mod ?n) = (x # ys) ! i"
    using assms Cons by (auto simp: cq_rep_def)
  let ?c = "c\<lparr>cq_data := (cq_data c)[cq_head c := zero], cq_head := (cq_head c + 1) mod ?n, cq_size := cq_size c - 1\<rparr>"
  have e: "((cq_head c + 1) mod ?n + i) mod ?n = (cq_head c + Suc i) mod ?n" for i by (simp add: mod_add_left_eq)
  have "(cq_data c)[cq_head c := zero] ! ((cq_head c + Suc i) mod ?n) = ys ! i" if "i < length ys" for i
  proof -
    have "(cq_head c + Suc i) mod ?n \<noteq> cq_head c"
      using ring_index_inj [of "Suc i" ?n 0 "cq_head c"] that r by (auto simp del: add_Suc_right)
    then show ?thesis using at [of "Suc i"] that by simp
  qed
  then have "cq_rep ?c ys" using r by (simp add: cq_rep_def e [simplified] mod_add_left_eq)
  moreover have "cq_data c ! cq_head c = x" using at [of 0] r(1) by simp
  ultimately show ?thesis using r Cons by (auto simp: cq_Dequeue_def)
qed

text \<open>What the constructor makes.\<close>

lemma new_queue_panics:
  assumes "NewCircularQueue n = Some c"
  shows "cq_EnqueueOverwrite t c = None" "cq_Enqueue t c = (if n = 0 then Some (Inl ErrFullQueue) else None)"
  using assms by (auto simp: NewCircularQueue_def cq_EnqueueOverwrite_def cq_Enqueue_def cq_put_def split: if_splits)

section \<open>Invariant of the pipeline\<close>

definition pipe_inv :: "pipeline \<Rightarrow> bool" where
  "pipe_inv s \<longleftrightarrow>
     (ch_closed (pl_readings s) \<longleftrightarrow> pl_main s \<in> {MainProcessors, MainAlerts, MainDone}) \<and>
     (ch_closed (pl_alerts s) \<longleftrightarrow> pl_main s \<in> {MainAlerts, MainDone}) \<and>
     (ch_closed (pl_readings s) \<longrightarrow> list_all (\<lambda>p. p = SensorDone) (pl_sensors s)) \<and>
     (ch_closed (pl_alerts s) \<longrightarrow> list_all (\<lambda>p. p = ProcDone) (pl_procs s)) \<and>
     (pl_main s \<noteq> MainRun \<longrightarrow> pl_cancelled s) \<and> (pl_main s = MainDone \<longrightarrow> pl_handler s = HandlerDone) \<and>
     (pl_handler s = HandlerDone \<longrightarrow> ch_closed (pl_alerts s) \<and> ch_items (pl_alerts s) = []) \<and>
     0 < ch_cap (pl_alerts s)"

lemma pipe_inv_start: "pipe_inv (start_pipeline now)"
  by (simp add: pipe_inv_def start_pipeline_def make_chan_def)

lemma list_all_keep: "list_all P xs \<Longrightarrow> P x \<Longrightarrow> list_all P (xs[i := x])"
  by (induction xs arbitrary: i) (auto split: nat.splits)

lemmas pipe_step_defs = sensor_produce_def sensor_send_def sensor_stop_def proc_receive_def proc_time_def proc_record_def
  proc_detect_def proc_alert_def proc_count_def proc_stop_def handler_take_def handler_step_def main_step_def
  chan_send_def chan_receive_def chan_close_def

lemma pipe_inv_step:
  assumes "pipe_inv s"
  shows "case pipe_step zone act s of Blocked \<Rightarrow> True | Panicked \<Rightarrow> False | Next (evs, s') \<Rightarrow> pipe_inv s'"
proof (cases act)
  case (ActClock t)
  then show ?thesis using assms by (auto simp: pipe_inv_def)
next
  case ActTimeout
  then show ?thesis using assms by (auto simp: pipe_inv_def)
next
  case (ActProduce i r)
  then show ?thesis using assms by (auto simp: pipe_inv_def sensor_produce_def list_all_length)
next
  case (ActSend i)
  then show ?thesis using assms
    by (auto simp: pipe_inv_def sensor_send_def chan_send_def list_all_length split: sensor_phase.splits)
next
  case (ActSensorStop i)
  then show ?thesis using assms by (auto simp: pipe_inv_def sensor_stop_def intro: list_all_keep)
next
  case (ActReceive j)
  then show ?thesis using assms
    by (auto simp: pipe_inv_def proc_receive_def chan_receive_def list_all_length split: list.splits option.splits)
next
  case (ActTime j)
  then show ?thesis using assms by (auto simp: pipe_inv_def proc_time_def list_all_length split: proc_phase.splits)
next
  case (ActRecord j)
  then show ?thesis using assms by (auto simp: pipe_inv_def proc_record_def list_all_length Let_def split: proc_phase.splits)
next
  case (ActDetect j)
  then show ?thesis using assms by (auto simp: pipe_inv_def proc_detect_def list_all_length Let_def split: proc_phase.splits)
next
  case (ActAlert j)
  then show ?thesis using assms
    by (auto simp: pipe_inv_def proc_alert_def chan_send_def list_all_length split: proc_phase.splits)
next
  case (ActCount j)
  then show ?thesis using assms by (auto simp: pipe_inv_def proc_count_def list_all_length split: proc_phase.splits)
next
  case (ActProcStop j)
  then show ?thesis using assms by (auto simp: pipe_inv_def proc_stop_def intro: list_all_keep split: proc_phase.splits)
next
  case ActTake
  then show ?thesis using assms
    by (auto simp: pipe_inv_def handler_take_def chan_receive_def split: list.splits)
next
  case ActHandle
  then show ?thesis using assms by (auto simp: pipe_inv_def handler_step_def split: handler_phase.splits prod.splits)
next
  case ActMain
  then show ?thesis using assms
    by (auto simp: pipe_inv_def main_step_def chan_close_def split: main_phase.splits)
qed

section \<open>What the events say\<close>

definition sent_of :: "pipe_event list \<Rightarrow> sensor_reading list" where
  "sent_of evs = List.map_filter (\<lambda>e. case e of EvSent r \<Rightarrow> Some r | _ \<Rightarrow> None) evs"

definition received_of :: "pipe_event list \<Rightarrow> sensor_reading list" where
  "received_of evs = List.map_filter (\<lambda>e. case e of EvReceived r \<Rightarrow> Some r | _ \<Rightarrow> None) evs"

definition checked_of :: "pipe_event list \<Rightarrow> (sensor_reading \<times> gotime) list" where
  "checked_of evs = List.map_filter (\<lambda>e. case e of EvChecked r t \<Rightarrow> Some (r, t) | _ \<Rightarrow> None) evs"

definition counted_of :: "pipe_event list \<Rightarrow> sensor_alert list" where
  "counted_of evs = List.map_filter (\<lambda>e. case e of EvCounted a \<Rightarrow> Some a | _ \<Rightarrow> None) evs"

definition processed_of :: "pipe_event list \<Rightarrow> (sensor_reading \<times> gotime) list" where
  "processed_of evs = List.map_filter (\<lambda>e. case e of EvProcessed r t \<Rightarrow> Some (r, t) | _ \<Rightarrow> None) evs"

definition alerts_of :: "pipe_event list \<Rightarrow> sensor_alert list" where
  "alerts_of evs = List.map_filter (\<lambda>e. case e of EvAlert a \<Rightarrow> Some a | _ \<Rightarrow> None) evs"

definition dropped_of :: "pipe_event list \<Rightarrow> sensor_alert list" where
  "dropped_of evs = List.map_filter (\<lambda>e. case e of EvDropped a \<Rightarrow> Some a | _ \<Rightarrow> None) evs"

definition handled_of :: "pipe_event list \<Rightarrow> sensor_alert list" where
  "handled_of evs = List.map_filter (\<lambda>e. case e of EvShown t a \<Rightarrow> Some a | EvSuppressed t a \<Rightarrow> Some a | _ \<Rightarrow> None) evs"

text \<open>The times at which an alert of the sensor was shown.\<close>

definition shown_times :: "string \<Rightarrow> pipe_event list \<Rightarrow> gotime list" where
  "shown_times k evs =
     List.map_filter (\<lambda>e. case e of EvShown t a \<Rightarrow> (if sr_SensorID (al_Reading a) = k then Some t else None) | _ \<Rightarrow> None) evs"

lemma map_filter_append: "List.map_filter f (xs @ ys) = List.map_filter f xs @ List.map_filter f ys"
  by (simp add: List.map_filter_def)

lemmas event_lists = sent_of_def received_of_def checked_of_def counted_of_def processed_of_def alerts_of_def dropped_of_def handled_of_def shown_times_def

lemma events_append [simp]:
  "sent_of (xs @ ys) = sent_of xs @ sent_of ys" "processed_of (xs @ ys) = processed_of xs @ processed_of ys"
  "received_of (xs @ ys) = received_of xs @ received_of ys" "checked_of (xs @ ys) = checked_of xs @ checked_of ys"
  "counted_of (xs @ ys) = counted_of xs @ counted_of ys"
  "alerts_of (xs @ ys) = alerts_of xs @ alerts_of ys" "dropped_of (xs @ ys) = dropped_of xs @ dropped_of ys"
  "handled_of (xs @ ys) = handled_of xs @ handled_of ys" "shown_times k (xs @ ys) = shown_times k xs @ shown_times k ys"
  by (simp_all add: event_lists map_filter_append)

lemma events_simps [simp]:
  "sent_of [] = []" "received_of [] = []" "checked_of [] = []" "counted_of [] = []" "processed_of [] = []" "alerts_of [] = []" "dropped_of [] = []" "handled_of [] = []" "shown_times k [] = []"
  "sent_of [e] = (case e of EvSent r \<Rightarrow> [r] | _ \<Rightarrow> [])"
  "received_of [e] = (case e of EvReceived r \<Rightarrow> [r] | _ \<Rightarrow> [])"
  "checked_of [e] = (case e of EvChecked r t \<Rightarrow> [(r, t)] | _ \<Rightarrow> [])"
  "counted_of [e] = (case e of EvCounted a \<Rightarrow> [a] | _ \<Rightarrow> [])"
  "processed_of [e] = (case e of EvProcessed r t \<Rightarrow> [(r, t)] | _ \<Rightarrow> [])"
  "alerts_of [e] = (case e of EvAlert a \<Rightarrow> [a] | _ \<Rightarrow> [])"
  "dropped_of [e] = (case e of EvDropped a \<Rightarrow> [a] | _ \<Rightarrow> [])"
  "handled_of [e] = (case e of EvShown t a \<Rightarrow> [a] | EvSuppressed t a \<Rightarrow> [a] | _ \<Rightarrow> [])"
  "shown_times k [e] = (case e of EvShown t a \<Rightarrow> (if sr_SensorID (al_Reading a) = k then [t] else []) | _ \<Rightarrow> [])"
  by (auto simp: event_lists List.map_filter_def split: pipe_event.split)

text \<open>The values of a sensor among the processed readings, and its statistics.\<close>

definition values_of :: "string \<Rightarrow> (sensor_reading \<times> gotime) list \<Rightarrow> f64 list" where
  "values_of k ps = map (\<lambda>p. sr_Value (fst p)) (filter (\<lambda>p. sr_SensorID (fst p) = k) ps)"

definition stats_of :: "f64 list \<Rightarrow> sensor_stats option" where
  "stats_of vs = (if vs = [] then None else Some (fold add_value vs zero_stats))"

definition count_of :: "string \<Rightarrow> sensor_alert list \<Rightarrow> int option" where
  "count_of k as = (let n = length (filter (\<lambda>a. sr_SensorID (al_Reading a) = k) as) in if n = 0 then None else Some (wrap64 (int n)))"

definition latency_of :: "(sensor_reading \<times> gotime) list \<Rightarrow> int" where
  "latency_of ps = sum_list (map (\<lambda>(r, t). time_Sub t (sr_Timestamp r)) ps)"

definition stats_ok :: "pipe_event list \<Rightarrow> pipeline_stats \<Rightarrow> bool" where
  "stats_ok evs st \<longleftrightarrow>
     st_processedCount st = wrap64 (int (length (processed_of evs))) \<and> st_totalLatency st = wrap64 (latency_of (processed_of evs)) \<and>
     (\<forall>k. st_sensorStats st k = stats_of (values_of k (processed_of evs))) \<and>
     (\<forall>k. st_alertsBySensor st k = count_of k (counted_of evs))"

lemma wrap64_add: "wrap64 (wrap64 x + y) = wrap64 (x + y)" "wrap64 (y + wrap64 x) = wrap64 (y + x)"
proof -
  have "wrap64 x + y + 2 ^ 63 = (x + 2 ^ 63) mod 2 ^ 64 + y" by (simp add: wrap64_def)
  then have "wrap64 (wrap64 x + y) = ((x + 2 ^ 63) mod 2 ^ 64 + y) mod 2 ^ 64 - 2 ^ 63" unfolding wrap64_def [of "wrap64 x + y"] by (rule arg_cong)
  also have "\<dots> = (x + 2 ^ 63 + y) mod 2 ^ 64 - 2 ^ 63" by (simp only: mod_add_left_eq)
  also have "\<dots> = wrap64 (x + y)" by (simp add: wrap64_def ac_simps)
  finally show "wrap64 (wrap64 x + y) = wrap64 (x + y)" .
  then show "wrap64 (y + wrap64 x) = wrap64 (y + x)" by (simp only: add.commute)
qed

lemma stats_ok_processed:
  assumes "stats_ok evs st"
  shows "stats_ok (evs @ [EvProcessed r t]) (RecordProcessed (sr_SensorID r) (sr_Value r) (time_Sub t (sr_Timestamp r)) st)"
proof -
  have "wrap64 (wrap64 (int (length (processed_of evs))) + 1) = wrap64 (int (Suc (length (processed_of evs))))" by (simp add: wrap64_add add.commute)
  moreover have "values_of k (processed_of evs @ [(r, t)]) = values_of k (processed_of evs) @ (if sr_SensorID r = k then [sr_Value r] else [])" for k
    by (simp add: values_of_def)
  ultimately show ?thesis using assms
    by (auto simp: stats_ok_def RecordProcessed_def Let_def wrap64_add latency_of_def stats_of_def split: option.splits)
qed

lemma stats_ok_alert:
  assumes "stats_ok evs st"
  shows "stats_ok (evs @ [EvCounted a]) (RecordAlert (sr_SensorID (al_Reading a)) st)"
proof -
  have "wrap64 (wrap64 (int n) + 1) = wrap64 (int (Suc n))" for n by (simp add: wrap64_add add.commute)
  then show ?thesis using assms
    by (auto simp: stats_ok_def RecordAlert_def count_of_def Let_def fun_eq_iff split: option.splits if_splits) (simp_all add: wrap64_def)
qed

lemma stats_ok_other: "stats_ok evs st \<Longrightarrow> processed_of es = [] \<Longrightarrow> counted_of es = [] \<Longrightarrow> stats_ok (evs @ es) st"
  by (simp add: stats_ok_def)

section \<open>Accounting\<close>

definition anomalies :: "int \<Rightarrow> (sensor_reading \<times> gotime) list \<Rightarrow> sensor_alert list" where
  "anomalies zone ps = List.map_filter (\<lambda>(r, t). DetectAnomaly zone r t) ps"

text \<open>What the processors hold: readings to be recorded, readings to be checked, alerts to be sent, alerts
  to be counted; and the alert that the handler holds.\<close>

definition held :: "(proc_phase \<Rightarrow> 'a option) \<Rightarrow> proc_phase list \<Rightarrow> 'a list" where
  "held f ps = List.map_filter f ps"

definition to_record :: "proc_phase \<Rightarrow> sensor_reading option" where
  "to_record p = (case p of ProcRead r \<Rightarrow> Some r | ProcTimed r _ \<Rightarrow> Some r | _ \<Rightarrow> None)"

definition to_check :: "proc_phase \<Rightarrow> sensor_reading option" where
  "to_check p = (case p of ProcDetect r \<Rightarrow> Some r | _ \<Rightarrow> None)"

definition to_send :: "proc_phase \<Rightarrow> sensor_alert option" where
  "to_send p = (case p of ProcAlert a \<Rightarrow> Some a | _ \<Rightarrow> None)"

definition to_count :: "proc_phase \<Rightarrow> sensor_alert option" where
  "to_count p = (case p of ProcSent a \<Rightarrow> Some a | _ \<Rightarrow> None)"

definition in_hand :: "handler_phase \<Rightarrow> sensor_alert list" where
  "in_hand h = (case h of HandlerAlert a \<Rightarrow> [a] | _ \<Rightarrow> [])"

lemmas phase_defs = to_record_def to_check_def to_send_def to_count_def

definition pipe_acct :: "int \<Rightarrow> pipe_event list \<Rightarrow> pipeline \<Rightarrow> bool" where
  "pipe_acct zone evs s \<longleftrightarrow>
     sent_of evs = received_of evs @ ch_items (pl_readings s) \<and>
     mset (received_of evs) = mset (map fst (processed_of evs)) + mset (held to_record (pl_procs s)) \<and>
     mset (map fst (processed_of evs)) = mset (map fst (checked_of evs)) + mset (held to_check (pl_procs s)) \<and>
     mset (anomalies zone (checked_of evs)) = mset (alerts_of evs) + mset (dropped_of evs) + mset (held to_send (pl_procs s)) \<and>
     alerts_of evs = handled_of evs @ in_hand (pl_handler s) @ ch_items (pl_alerts s) \<and>
     mset (alerts_of evs) = mset (counted_of evs) + mset (held to_count (pl_procs s)) \<and>
     stats_ok evs (pl_stats s)"

lemma held_update:
  "j < length ps \<Longrightarrow> mset (held f (ps[j := p])) + mset (held f [ps ! j]) = mset (held f ps) + mset (held f [p])"
proof (induction ps arbitrary: j)
  case Nil
  then show ?case by simp
next
  case (Cons q ps)
  have c: "held f (x # xs) = held f [x] @ held f xs" for x xs by (simp add: held_def List.map_filter_def)
  show ?case
  proof (cases j)
    case 0
    then show ?thesis using c [of p ps] c [of q ps] by (simp add: ac_simps)
  next
    case (Suc i)
    then have "mset (held f (ps[i := p])) + mset (held f [ps ! i]) = mset (held f ps) + mset (held f [p])" using Cons by simp
    then show ?thesis using Suc c [of q "ps[i := p]"] c [of q ps] by (simp add: ac_simps)
  qed
qed

lemma held_one: "held f [p] = (case f p of None \<Rightarrow> [] | Some x \<Rightarrow> [x])"
  by (simp add: held_def List.map_filter_def split: option.split)

lemma bag_step:
  assumes "r = p + h" "h' + q = h + t" "re + q = pe + t"
  shows "r + re = p + pe + (h' :: 'a multiset)"
proof -
  have "r + re + q = p + h + (pe + t)" unfolding assms(1,3) [symmetric] by (simp only: ac_simps)
  also have "\<dots> = p + pe + (h + t)" by (simp only: ac_simps)
  also have "\<dots> = p + pe + h' + q" unfolding assms(2) [symmetric] by (simp only: ac_simps)
  finally show ?thesis by (simp only: add_right_cancel)
qed

lemma anomalies_Nil [simp]: "anomalies zone [] = []"
  by (simp add: anomalies_def List.map_filter_def)

lemma anomalies_append: "anomalies zone (ps @ qs) = anomalies zone ps @ anomalies zone qs"
  by (simp add: anomalies_def map_filter_append)

lemma pipe_acct_start: "pipe_acct zone [] (start_pipeline now)"
  by (simp add: pipe_acct_def start_pipeline_def make_chan_def held_def phase_defs in_hand_def anomalies_def stats_ok_def
      NewStats_def stats_of_def values_of_def count_of_def latency_of_def wrap64_def List.map_filter_def numeral_3_eq_3)

text \<open>One processor goes on from one phase to the next.\<close>

lemma pipe_acct_phase:
  assumes "pipe_acct zone evs s" "j < length (pl_procs s)" "pl_procs s ! j = q"
    and that: "pl_procs s' = (pl_procs s)[j := p]" "pl_handler s' = pl_handler s"
    "stats_ok (evs @ es) (pl_stats s')"
    "sent_of es = []" "handled_of es = []"
    "ch_items (pl_readings s) = received_of es @ ch_items (pl_readings s')"
    "ch_items (pl_alerts s') = ch_items (pl_alerts s) @ alerts_of es"
    "mset (received_of es) + mset (held to_record [q]) = mset (map fst (processed_of es)) + mset (held to_record [p])"
    "mset (map fst (processed_of es)) + mset (held to_check [q]) = mset (map fst (checked_of es)) + mset (held to_check [p])"
    "mset (anomalies zone (checked_of es)) + mset (held to_send [q]) =
       mset (alerts_of es) + mset (dropped_of es) + mset (held to_send [p])"
    "mset (alerts_of es) + mset (held to_count [q]) = mset (counted_of es) + mset (held to_count [p])"
  shows "pipe_acct zone (evs @ es) s'"
proof -
  have h: "mset (held f (pl_procs s')) + mset (held f [q]) = mset (held f (pl_procs s)) + mset (held f [p])"
    for f :: "proc_phase \<Rightarrow> 'a option"
    using held_update [OF assms(2), of f p] assms(3) that(1) by simp
  have g: "mset (held f (pl_procs s')) + mset (held f [q]) = mset (held f (pl_procs s)) + mset (held f [p])"
    for f :: "proc_phase \<Rightarrow> sensor_alert option"
    using held_update [OF assms(2), of f p] assms(3) that(1) by simp
  have acct: "sent_of evs = received_of evs @ ch_items (pl_readings s)"
    "mset (received_of evs) = mset (map fst (processed_of evs)) + mset (held to_record (pl_procs s))"
    "mset (map fst (processed_of evs)) = mset (map fst (checked_of evs)) + mset (held to_check (pl_procs s))"
    "mset (anomalies zone (checked_of evs)) = mset (alerts_of evs) + mset (dropped_of evs) + mset (held to_send (pl_procs s))"
    "alerts_of evs = handled_of evs @ in_hand (pl_handler s) @ ch_items (pl_alerts s)"
    "mset (alerts_of evs) = mset (counted_of evs) + mset (held to_count (pl_procs s))"
    using assms(1) unfolding pipe_acct_def by blast+
  show ?thesis
    unfolding pipe_acct_def events_append map_append mset_append anomalies_append
  proof (intro conjI)
    show "sent_of evs @ sent_of es = (received_of evs @ received_of es) @ ch_items (pl_readings s')"
      using acct(1) that(4,6) by simp
    show "alerts_of evs @ alerts_of es = (handled_of evs @ handled_of es) @ in_hand (pl_handler s') @ ch_items (pl_alerts s')"
      using acct(5) that(2,5,7) by simp
    show "mset (anomalies zone (checked_of evs)) + mset (anomalies zone (checked_of es)) =
        mset (alerts_of evs) + mset (alerts_of es) + (mset (dropped_of evs) + mset (dropped_of es)) + mset (held to_send (pl_procs s'))"
      using bag_step [OF acct(4) g that(10)] by (simp only: ac_simps)
    show "mset (alerts_of evs) + mset (alerts_of es) = mset (counted_of evs) + mset (counted_of es) + mset (held to_count (pl_procs s'))"
      by (rule bag_step [OF acct(6) g that(11)])
    show "mset (received_of evs) + mset (received_of es) =
        mset (map fst (processed_of evs)) + mset (map fst (processed_of es)) + mset (held to_record (pl_procs s'))"
      by (rule bag_step [OF acct(2) h that(8)])
    show "mset (map fst (processed_of evs)) + mset (map fst (processed_of es)) =
        mset (map fst (checked_of evs)) + mset (map fst (checked_of es)) + mset (held to_check (pl_procs s'))"
      by (rule bag_step [OF acct(3) h that(9)])
    show "stats_ok (evs @ es) (pl_stats s')" by (rule that(3))
  qed
qed

lemma pipe_acct_step:
  assumes "pipe_acct zone evs s" "pipe_step zone act s = Next (es, s')"
  shows "pipe_acct zone (evs @ es) s'"
proof -
  have st: "stats_ok evs (pl_stats s)" using assms(1) by (simp add: pipe_acct_def)
  show ?thesis
  proof (cases act)
    case (ActSend i)
    then show ?thesis using assms
      by (auto simp: pipe_acct_def sensor_send_def chan_send_def intro: stats_ok_other split: if_splits sensor_phase.splits)
  next
    case ActTake
    then show ?thesis using assms
      by (auto simp: pipe_acct_def handler_take_def chan_receive_def in_hand_def intro!: stats_ok_other split: if_splits list.splits)
  next
    case ActHandle
    then show ?thesis using assms
      by (auto simp: pipe_acct_def handler_step_def in_hand_def intro!: stats_ok_other split: if_splits handler_phase.splits prod.splits)
  next
    case (ActReceive j)
    then have j: "j < length (pl_procs s)" "pl_procs s ! j = ProcReady" using assms(2) by (auto simp: proc_receive_def split: if_splits)
    show ?thesis
    proof (cases "ch_items (pl_readings s)")
      case Nil
      then have "es = []" "s' = s\<lparr>pl_procs := (pl_procs s)[j := ProcDone]\<rparr>"
        using assms(2) j ActReceive by (auto simp: proc_receive_def chan_receive_def split: if_splits)
      then show ?thesis by (intro pipe_acct_phase [OF assms(1) j, where p = ProcDone]) (simp_all add: held_one phase_defs st)
    next
      case (Cons r rs)
      then have "es = [EvReceived r]" "s' = s\<lparr>pl_readings := (pl_readings s)\<lparr>ch_items := rs\<rparr>, pl_procs := (pl_procs s)[j := ProcRead r]\<rparr>"
        using assms(2) j ActReceive by (auto simp: proc_receive_def chan_receive_def split: if_splits)
      then show ?thesis using Cons
        by (intro pipe_acct_phase [OF assms(1) j, where p = "ProcRead r"]) (simp_all add: held_one phase_defs stats_ok_other st)
    qed
  next
    case (ActTime j)
    then obtain r where r: "j < length (pl_procs s)" "pl_procs s ! j = ProcRead r"
      "es = []" "s' = s\<lparr>pl_procs := (pl_procs s)[j := ProcTimed r (pl_now s)]\<rparr>"
      using assms(2) by (auto simp: proc_time_def split: if_splits proc_phase.splits)
    then show ?thesis
      by (intro pipe_acct_phase [OF assms(1) r(1,2), where p = "ProcTimed r (pl_now s)"]) (simp_all add: held_one phase_defs st)
  next
    case (ActRecord j)
    then obtain r t where r: "j < length (pl_procs s)" "pl_procs s ! j = ProcTimed r t"
      "es = [EvProcessed r t]" "s' = s\<lparr>pl_stats := RecordProcessed (sr_SensorID r) (sr_Value r) (time_Sub t (sr_Timestamp r)) (pl_stats s),
         pl_procs := (pl_procs s)[j := ProcDetect r]\<rparr>"
      using assms(2) by (auto simp: proc_record_def Let_def split: if_splits proc_phase.splits)
    then show ?thesis
      by (intro pipe_acct_phase [OF assms(1) r(1,2), where p = "ProcDetect r"]) (simp_all add: held_one phase_defs stats_ok_processed st)
  next
    case (ActDetect j)
    define p where "p r = (case DetectAnomaly zone r (pl_now s) of None \<Rightarrow> ProcReady | Some alert \<Rightarrow> ProcAlert alert)" for r
    obtain r where r: "j < length (pl_procs s)" "pl_procs s ! j = ProcDetect r"
      "es = [EvChecked r (pl_now s)]" "s' = s\<lparr>pl_procs := (pl_procs s)[j := p r]\<rparr>"
      using assms(2) ActDetect by (auto simp: proc_detect_def Let_def p_def split: if_splits proc_phase.splits)
    have "anomalies zone [(r, pl_now s)] = held to_send [p r]" "to_record (p r) = None" "to_check (p r) = None" "to_count (p r) = None"
      by (simp_all add: p_def anomalies_def held_one phase_defs List.map_filter_def split: option.split)
    then show ?thesis
      by (intro pipe_acct_phase [OF assms(1) r(1,2), where p = "p r"])
        (simp_all add: r(3,4) held_one stats_ok_other st, simp_all add: phase_defs)
  next
    case (ActAlert j)
    then obtain a where a: "j < length (pl_procs s)" "pl_procs s ! j = ProcAlert a"
      "es = [EvAlert a]" "s' = s\<lparr>pl_alerts := (pl_alerts s)\<lparr>ch_items := ch_items (pl_alerts s) @ [a]\<rparr>, pl_procs := (pl_procs s)[j := ProcSent a]\<rparr>"
      using assms(2) by (auto simp: proc_alert_def chan_send_def split: if_splits proc_phase.splits)
    then show ?thesis
      by (intro pipe_acct_phase [OF assms(1) a(1,2), where p = "ProcSent a"])
        (simp_all add: held_one phase_defs stats_ok_other st anomalies_def List.map_filter_def)
  next
    case (ActCount j)
    then obtain a where a: "j < length (pl_procs s)" "pl_procs s ! j = ProcSent a"
      "es = [EvCounted a]" "s' = s\<lparr>pl_stats := RecordAlert (sr_SensorID (al_Reading a)) (pl_stats s), pl_procs := (pl_procs s)[j := ProcReady]\<rparr>"
      using assms(2) by (auto simp: proc_count_def split: if_splits proc_phase.splits)
    then show ?thesis
      by (intro pipe_acct_phase [OF assms(1) a(1,2), where p = ProcReady])
        (simp_all add: held_one phase_defs stats_ok_alert st anomalies_def List.map_filter_def)
  next
    case (ActProcStop j)
    then obtain a where a: "j < length (pl_procs s)" "pl_procs s ! j = ProcAlert a"
      "es = [EvDropped a]" "s' = s\<lparr>pl_procs := (pl_procs s)[j := ProcDone]\<rparr>"
      using assms(2) by (auto simp: proc_stop_def split: if_splits proc_phase.splits)
    then show ?thesis
      by (intro pipe_acct_phase [OF assms(1) a(1,2), where p = ProcDone])
        (simp_all add: held_one phase_defs stats_ok_other st)
  qed (use assms in \<open>auto simp: pipe_acct_def sensor_produce_def sensor_stop_def main_step_def chan_close_def
      split: if_splits main_phase.splits\<close>)
qed

lemma pipe_run_ok:
  "pipe_inv s \<Longrightarrow> pipe_acct zone evs0 s \<Longrightarrow>
     (case pipe_run zone acts s of Blocked \<Rightarrow> True | Panicked \<Rightarrow> False | Next (evs, s') \<Rightarrow> pipe_inv s' \<and> pipe_acct zone (evs0 @ evs) s')"
proof (induction acts arbitrary: s evs0)
  case Nil
  then show ?case by simp
next
  case (Cons act acts)
  show ?case
  proof (cases "pipe_step zone act s")
    case Blocked
    then show ?thesis by simp
  next
    case Panicked
    then show ?thesis using pipe_inv_step [OF Cons.prems(1), of zone act] by simp
  next
    case (Next p)
    then obtain es s1 where st: "pipe_step zone act s = Next (es, s1)" by (cases p) auto
    have "pipe_inv s1" using pipe_inv_step [OF Cons.prems(1), of zone act] st by simp
    then show ?thesis using Cons.IH [OF _ pipe_acct_step [OF Cons.prems(2) st]] st by (auto split: outcome.splits)
  qed
qed

section \<open>Deduplication of alerts\<close>

definition shown_ok :: "pipe_event list \<Rightarrow> pipeline \<Rightarrow> bool" where
  "shown_ok evs s \<longleftrightarrow>
     (\<forall>k. pl_lastAlert s k = (if shown_times k evs = [] then None else Some (last (shown_times k evs))) \<and>
        sorted_wrt (\<lambda>t u. t + 60 * 1000000000 \<le> u) (shown_times k evs)) \<and>
     (\<forall>i t a. i < length evs \<longrightarrow> evs ! i = EvSuppressed t a \<longrightarrow>
        (\<exists>u\<in>set (shown_times (sr_SensorID (al_Reading a)) (take i evs)). t < u + 60 * 1000000000))"

lemma shown_ok_skip:
  assumes "shown_ok evs s" "pl_lastAlert s' = pl_lastAlert s" "\<forall>e\<in>set es. case e of EvShown t a \<Rightarrow> False | EvSuppressed t a \<Rightarrow> False | _ \<Rightarrow> True"
  shows "shown_ok (evs @ es) s'"
proof -
  have "shown_times k es = []" for k
    using assms(3) by (induction es) (auto simp: shown_times_def List.map_filter_def split: pipe_event.splits)
  moreover have "es ! (i - length evs) \<noteq> EvSuppressed t a" if "\<not> i < length evs" "i < length evs + length es" for i t a
  proof
    assume "es ! (i - length evs) = EvSuppressed t a"
    then have "EvSuppressed t a \<in> set es" using that nth_mem [of "i - length evs" es] by auto
    then show False using assms(3) by fastforce
  qed
  ultimately show ?thesis using assms(1,2) by (auto simp: shown_ok_def nth_append)
qed

lemma shown_ok_handle:
  assumes "shown_ok evs s" "handle_alert now a (pl_lastAlert s) = (shown, m)" "pl_lastAlert s' = m"
  shows "shown_ok (evs @ [if shown then EvShown now a else EvSuppressed now a]) s'"
proof -
  let ?k = "sr_SensorID (al_Reading a)"
  have last: "pl_lastAlert s k = (if shown_times k evs = [] then None else Some (last (shown_times k evs)))"
    and sorted: "sorted_wrt (\<lambda>t u. t + 60 * 1000000000 \<le> u) (shown_times k evs)" for k using assms(1) by (auto simp: shown_ok_def)
  have supp: "\<exists>u\<in>set (shown_times (sr_SensorID (al_Reading b)) (take i evs)). t < u + 60 * 1000000000"
    if "i < length evs" "evs ! i = EvSuppressed t b" for i t b using assms(1) that by (auto simp: shown_ok_def)
  show ?thesis
  proof (cases shown)
    case True
    have m: "m = (pl_lastAlert s)(?k \<mapsto> now)"
      using assms(2) True by (auto simp: handle_alert_def Let_def split: option.splits if_splits)
    have gap: "u + 60 * 1000000000 \<le> now" if "u \<in> set (shown_times ?k evs)" for u
    proof -
      have ne: "shown_times ?k evs \<noteq> []" using that by auto
      then have "\<not> time_Sub now (last (shown_times ?k evs)) < 60 * 1000000000"
        using assms(2) True last [of ?k] by (auto simp: handle_alert_def Let_def split: if_splits)
      then have l: "last (shown_times ?k evs) + 60 * 1000000000 \<le> now" by (auto simp: time_Sub_def max_def min_def split: if_splits)
      have "u = last (shown_times ?k evs) \<or> u \<in> set (butlast (shown_times ?k evs))"
        using that ne by (metis append_butlast_last_id in_set_conv_decomp_last rotate1.simps(2) set_ConsD set_rotate1)
      moreover have "sorted_wrt (\<lambda>t u. t + 60 * 1000000000 \<le> u) (butlast (shown_times ?k evs) @ [last (shown_times ?k evs)])"
        using sorted [of ?k] ne by simp
      ultimately show ?thesis using l by (auto simp: sorted_wrt_append)
    qed
    show ?thesis
      unfolding shown_ok_def
    proof (intro conjI allI impI)
      fix k
      show "pl_lastAlert s' k = (if shown_times k (evs @ [if shown then EvShown now a else EvSuppressed now a]) = [] then None
          else Some (last (shown_times k (evs @ [if shown then EvShown now a else EvSuppressed now a]))))"
        using True m assms(3) last [of k] by simp
      show "sorted_wrt (\<lambda>t u. t + 60 * 1000000000 \<le> u) (shown_times k (evs @ [if shown then EvShown now a else EvSuppressed now a]))"
        using True sorted [of k] gap by (auto simp: sorted_wrt_append)
    next
      fix i t b
      assume "i < length (evs @ [if shown then EvShown now a else EvSuppressed now a])"
        "(evs @ [if shown then EvShown now a else EvSuppressed now a]) ! i = EvSuppressed t b"
      then have i: "i < length evs" "evs ! i = EvSuppressed t b" using True by (auto simp: nth_append split: if_splits)
      then show "\<exists>u\<in>set (shown_times (sr_SensorID (al_Reading b)) (take i (evs @ [if shown then EvShown now a else EvSuppressed now a]))).
          t < u + 60 * 1000000000" using supp by simp
    qed
  next
    case False
    have m: "m = pl_lastAlert s" and w: "\<exists>l. pl_lastAlert s ?k = Some l \<and> time_Sub now l < 60 * 1000000000"
      using assms(2) False by (auto simp: handle_alert_def Let_def split: option.splits if_splits)
    then obtain l where l: "shown_times ?k evs \<noteq> []" "l = last (shown_times ?k evs)" "time_Sub now l < 60 * 1000000000"
      using last [of ?k] by (auto split: if_splits)
    then have n: "l \<in> set (shown_times ?k evs)" "now < l + 60 * 1000000000" by (auto simp: time_Sub_def max_def min_def split: if_splits)
    show ?thesis
      using False m assms(3) last sorted supp n by (auto simp: shown_ok_def nth_append less_Suc_eq split: if_splits)
  qed
qed

lemma shown_ok_step:
  assumes "shown_ok evs s" "pipe_step zone act s = Next (es, s')"
  shows "shown_ok (evs @ es) s'"
proof (cases "act = ActHandle")
  case True
  then obtain a where a: "pl_handler s = HandlerAlert a"
    using assms(2) by (auto simp: handler_step_def split: handler_phase.splits)
  obtain shown m where h: "handle_alert (pl_now s) a (pl_lastAlert s) = (shown, m)" by (cases "handle_alert (pl_now s) a (pl_lastAlert s)") auto
  then have "es = [if shown then EvShown (pl_now s) a else EvSuppressed (pl_now s) a]" "pl_lastAlert s' = m"
    using assms(2) True a by (auto simp: handler_step_def)
  then show ?thesis using shown_ok_handle [OF assms(1) h] by simp
next
  case False
  then show ?thesis using assms
    by (cases act; intro shown_ok_skip [OF assms(1)])
      (auto simp: pipe_step_defs Let_def split: if_splits sensor_phase.splits proc_phase.splits main_phase.splits list.splits option.splits)
qed

lemma pipe_run_shown:
  "shown_ok evs0 s \<Longrightarrow> pipe_run zone acts s = Next (evs, s') \<Longrightarrow> shown_ok (evs0 @ evs) s'"
proof (induction acts arbitrary: s evs0 evs)
  case Nil
  then show ?case by simp
next
  case (Cons act acts)
  then obtain es s1 es' where "pipe_step zone act s = Next (es, s1)" "pipe_run zone acts s1 = Next (es', s')" "evs = es @ es'"
    by (auto split: outcome.splits prod.splits)
  then show ?case using Cons.IH [OF shown_ok_step [OF Cons.prems(1)]] by simp
qed

section \<open>Shutdown\<close>

text \<open>The steps that do not come from the clock, the timers or the timeout.\<close>

definition draining :: "pipe_act \<Rightarrow> bool" where
  "draining act \<longleftrightarrow> (case act of ActClock _ \<Rightarrow> False | ActTimeout \<Rightarrow> False | ActProduce _ _ \<Rightarrow> False | _ \<Rightarrow> True)"

definition sensor_weight :: "sensor_phase \<Rightarrow> nat" where
  "sensor_weight p = (case p of SensorTimer \<Rightarrow> 1 | SensorSend _ \<Rightarrow> 10 | SensorDone \<Rightarrow> 0)"

definition proc_weight :: "proc_phase \<Rightarrow> nat" where
  "proc_weight p =
     (case p of ProcReady \<Rightarrow> 1 | ProcRead _ \<Rightarrow> 8 | ProcTimed _ _ \<Rightarrow> 7 | ProcDetect _ \<Rightarrow> 6 | ProcAlert _ \<Rightarrow> 5 | ProcSent _ \<Rightarrow> 2 | ProcDone \<Rightarrow> 0)"

definition handler_weight :: "handler_phase \<Rightarrow> nat" where
  "handler_weight h = (case h of HandlerReady \<Rightarrow> 1 | HandlerAlert _ \<Rightarrow> 2 | HandlerDone \<Rightarrow> 0)"

definition main_weight :: "main_phase \<Rightarrow> nat" where
  "main_weight p = (case p of MainRun \<Rightarrow> 4 | MainSensors \<Rightarrow> 3 | MainProcessors \<Rightarrow> 2 | MainAlerts \<Rightarrow> 1 | MainDone \<Rightarrow> 0)"

definition drain_measure :: "pipeline \<Rightarrow> nat" where
  "drain_measure s =
     sum_list (map sensor_weight (pl_sensors s)) + 8 * length (ch_items (pl_readings s)) + sum_list (map proc_weight (pl_procs s)) +
     2 * length (ch_items (pl_alerts s)) + handler_weight (pl_handler s) + main_weight (pl_main s)"

lemma weight_update: "i < length xs \<Longrightarrow> sum_list (map f (xs[i := x])) + f (xs ! i) = sum_list (map f xs) + f x" for f :: "'a \<Rightarrow> nat"
proof (induction xs arbitrary: i)
  case (Cons y ys)
  then show ?case by (cases i) auto
qed simp

lemma drain_phase:
  assumes "j < length (pl_procs s)" "pl_procs s ! j = q" "pl_procs s' = (pl_procs s)[j := p]"
    and "pl_sensors s' = pl_sensors s" "pl_handler s' = pl_handler s" "pl_main s' = pl_main s"
    and "8 * length (ch_items (pl_readings s')) + 2 * length (ch_items (pl_alerts s')) + proc_weight p
      < 8 * length (ch_items (pl_readings s)) + 2 * length (ch_items (pl_alerts s)) + proc_weight q"
  shows "drain_measure s' < drain_measure s"
  using weight_update [OF assms(1), of proc_weight p] assms unfolding drain_measure_def by simp

lemma drain_step:
  assumes "draining act" "pipe_step zone act s = Next (es, s')"
  shows "drain_measure s' < drain_measure s"
proof (cases act)
  case (ActSend i)
  then obtain r where r: "i < length (pl_sensors s)" "pl_sensors s ! i = SensorSend r"
    "s' = s\<lparr>pl_sensors := (pl_sensors s)[i := SensorTimer], pl_readings := (pl_readings s)\<lparr>ch_items := ch_items (pl_readings s) @ [r]\<rparr>\<rparr>"
    using assms(2) by (auto simp: sensor_send_def chan_send_def split: if_splits sensor_phase.splits)
  then show ?thesis using weight_update [OF r(1), of sensor_weight SensorTimer] by (simp add: drain_measure_def sensor_weight_def)
next
  case (ActSensorStop i)
  then have r: "i < length (pl_sensors s)" "pl_sensors s ! i \<noteq> SensorDone" "s' = s\<lparr>pl_sensors := (pl_sensors s)[i := SensorDone]\<rparr>"
    using assms(2) by (auto simp: sensor_stop_def split: if_splits)
  then have "0 < sensor_weight (pl_sensors s ! i)" by (simp add: sensor_weight_def split: sensor_phase.splits)
  then show ?thesis using weight_update [OF r(1), of sensor_weight SensorDone] r(3) by (simp add: drain_measure_def sensor_weight_def [of SensorDone])
next
  case (ActReceive j)
  then have j: "j < length (pl_procs s)" "pl_procs s ! j = ProcReady" using assms(2) by (auto simp: proc_receive_def split: if_splits)
  show ?thesis
  proof (cases "ch_items (pl_readings s)")
    case Nil
    then show ?thesis using assms(2) ActReceive j
      by (intro drain_phase [OF j, where p = ProcDone]) (auto simp: proc_receive_def chan_receive_def proc_weight_def split: if_splits)
  next
    case (Cons r rs)
    then show ?thesis using assms(2) ActReceive j
      by (intro drain_phase [OF j, where p = "ProcRead r"]) (auto simp: proc_receive_def chan_receive_def proc_weight_def split: if_splits)
  qed
next
  case (ActTime j)
  then obtain r where q: "j < length (pl_procs s)" "pl_procs s ! j = ProcRead r"
    using assms(2) by (auto simp: proc_time_def split: if_splits proc_phase.splits)
  show ?thesis using drain_phase [OF q, where p = "ProcTimed r (pl_now s)"] assms(2) ActTime q
    by (auto simp: proc_time_def proc_weight_def split: if_splits proc_phase.splits)
next
  case (ActRecord j)
  then obtain r t where q: "j < length (pl_procs s)" "pl_procs s ! j = ProcTimed r t"
    using assms(2) by (auto simp: proc_record_def split: if_splits proc_phase.splits)
  show ?thesis using drain_phase [OF q, where p = "ProcDetect r"] assms(2) ActRecord q
    by (auto simp: proc_record_def proc_weight_def Let_def split: if_splits proc_phase.splits)
next
  case (ActDetect j)
  then obtain r where r: "j < length (pl_procs s)" "pl_procs s ! j = ProcDetect r"
    using assms(2) by (auto simp: proc_detect_def split: if_splits proc_phase.splits)
  show ?thesis
    using drain_phase [OF r, where p = ProcReady] drain_phase [OF r, where p = "ProcAlert a" for a] assms(2) ActDetect r
    by (auto simp: proc_detect_def proc_weight_def Let_def split: if_splits option.splits)
next
  case (ActAlert j)
  then obtain a where q: "j < length (pl_procs s)" "pl_procs s ! j = ProcAlert a"
    using assms(2) by (auto simp: proc_alert_def split: if_splits proc_phase.splits)
  show ?thesis using drain_phase [OF q, where p = "ProcSent a"] assms(2) ActAlert q
    by (auto simp: proc_alert_def chan_send_def proc_weight_def split: if_splits proc_phase.splits)
next
  case (ActCount j)
  then obtain a where q: "j < length (pl_procs s)" "pl_procs s ! j = ProcSent a"
    using assms(2) by (auto simp: proc_count_def split: if_splits proc_phase.splits)
  show ?thesis using drain_phase [OF q, where p = ProcReady] assms(2) ActCount q
    by (auto simp: proc_count_def proc_weight_def split: if_splits proc_phase.splits)
next
  case (ActProcStop j)
  then obtain a where q: "j < length (pl_procs s)" "pl_procs s ! j = ProcAlert a"
    using assms(2) by (auto simp: proc_stop_def split: if_splits proc_phase.splits)
  show ?thesis using drain_phase [OF q, where p = ProcDone] assms(2) ActProcStop q
    by (auto simp: proc_stop_def proc_weight_def split: if_splits proc_phase.splits)
next
  case ActTake
  then show ?thesis using assms(2)
    by (auto simp: handler_take_def chan_receive_def drain_measure_def handler_weight_def split: if_splits list.splits)
next
  case ActHandle
  then show ?thesis using assms(2)
    by (auto simp: handler_step_def drain_measure_def handler_weight_def split: handler_phase.splits prod.splits)
next
  case ActMain
  then show ?thesis using assms(2)
    by (auto simp: main_step_def chan_close_def drain_measure_def main_weight_def split: if_splits main_phase.splits)
qed (use assms(1) in \<open>simp_all add: draining_def\<close>)

lemma drain_run:
  "list_all draining acts \<Longrightarrow> pipe_run zone acts s = Next (evs, s') \<Longrightarrow> length acts + drain_measure s' \<le> drain_measure s"
proof (induction acts arbitrary: s evs)
  case Nil
  then show ?case by simp
next
  case (Cons act acts)
  then obtain es s1 es' where "pipe_step zone act s = Next (es, s1)" "pipe_run zone acts s1 = Next (es', s')"
    by (auto split: outcome.splits prod.splits)
  then show ?case using Cons.IH [of s1 es'] drain_step [of act zone s es s1] Cons.prems(1) by auto
qed

text \<open>A step that can be taken while the pipeline shuts down.\<close>

lemma drain_enabled:
  assumes "pipe_inv s" "pl_cancelled s" "pl_main s \<noteq> MainDone"
  shows "\<exists>act p. draining act \<and> pipe_step zone act s = Next p"
proof (cases "list_all (\<lambda>p. p = SensorDone) (pl_sensors s)")
  case False
  then obtain i where "i < length (pl_sensors s)" "pl_sensors s ! i \<noteq> SensorDone" by (auto simp: list_all_length)
  then have "pipe_step zone (ActSensorStop i) s = Next ([], s\<lparr>pl_sensors := (pl_sensors s)[i := SensorDone]\<rparr>)"
    using assms(2) by (simp add: sensor_stop_def)
  moreover have "draining (ActSensorStop i)" by (simp add: draining_def)
  ultimately show ?thesis by blast
next
  case sensors: True
  have d: "draining ActMain" "draining ActTake" "draining ActHandle" "draining (ActReceive j)" "draining (ActTime j)" "draining (ActRecord j)"
    "draining (ActDetect j)" "draining (ActCount j)" "draining (ActProcStop j)" for j by (simp_all add: draining_def)
  show ?thesis
  proof (cases "pl_main s \<in> {MainRun, MainSensors}")
    case True
    then have "\<exists>p. pipe_step zone ActMain s = Next p"
      using assms(1,2) sensors by (auto simp: main_step_def chan_close_def pipe_inv_def)
    then show ?thesis using d(1) by blast
  next
    case False
    then consider "pl_main s = MainProcessors" | "pl_main s = MainAlerts" using assms(3) by (cases "pl_main s") auto
    then show ?thesis
    proof cases
      case 1
      show ?thesis
      proof (cases "list_all (\<lambda>p. p = ProcDone) (pl_procs s)")
        case True
        then have "\<exists>p. pipe_step zone ActMain s = Next p" using assms(1) 1 by (auto simp: main_step_def chan_close_def pipe_inv_def)
        then show ?thesis using d(1) by blast
      next
        case False
        then obtain j where j: "j < length (pl_procs s)" "pl_procs s ! j \<noteq> ProcDone" by (auto simp: list_all_length)
        have "ch_closed (pl_readings s)" using assms(1) 1 by (simp add: pipe_inv_def)
        show ?thesis
        proof (cases "pl_procs s ! j")
          case ProcReady
          then have "\<exists>p. pipe_step zone (ActReceive j) s = Next p"
            using j(1) \<open>ch_closed (pl_readings s)\<close> by (cases "ch_items (pl_readings s)") (simp_all add: proc_receive_def chan_receive_def)
          then show ?thesis using d by blast
        next
          case (ProcRead r)
          then have "\<exists>p. pipe_step zone (ActTime j) s = Next p" using j(1) by (simp add: proc_time_def)
          then show ?thesis using d by blast
        next
          case (ProcTimed r t)
          then have "\<exists>p. pipe_step zone (ActRecord j) s = Next p" using j(1) by (simp add: proc_record_def Let_def)
          then show ?thesis using d by blast
        next
          case (ProcDetect r)
          then have "\<exists>p. pipe_step zone (ActDetect j) s = Next p" using j(1) by (simp add: proc_detect_def Let_def)
          then show ?thesis using d by blast
        next
          case (ProcAlert a)
          then have "\<exists>p. pipe_step zone (ActProcStop j) s = Next p" using j(1) assms(2) by (simp add: proc_stop_def)
          then show ?thesis using d by blast
        next
          case (ProcSent a)
          then have "\<exists>p. pipe_step zone (ActCount j) s = Next p" using j(1) by (simp add: proc_count_def)
          then show ?thesis using d by blast
        qed (use j(2) in simp)
      qed
    next
      case 2
      then have "(\<exists>p. pipe_step zone ActMain s = Next p) \<or> (\<exists>p. pipe_step zone ActTake s = Next p) \<or> (\<exists>p. pipe_step zone ActHandle s = Next p)"
        using assms(1) by (cases "pl_handler s")
          (auto simp: main_step_def handler_take_def handler_step_def chan_receive_def pipe_inv_def split: list.splits prod.splits)
      then show ?thesis using d by blast
    qed
  qed
qed


section \<open>Properties\<close>

lemma pipe_run_reach:
  assumes "pipe_run zone acts (start_pipeline now) = Next (evs, s)"
  shows "pipe_inv s"
  using pipe_run_ok [OF pipe_inv_start pipe_acct_start, of zone acts now] assms by simp

lemma held_nothing: "list_all (\<lambda>p. p = ProcDone) ps \<Longrightarrow> f ProcDone = None \<Longrightarrow> held f ps = []"
  by (induction ps) (simp_all add: held_def List.map_filter_def)

lemma ended:
  assumes "pipe_inv s" "pl_main s = MainDone" "pipe_acct zone evs s"
  shows "mset (handled_of evs) + mset (dropped_of evs) = mset (anomalies zone (checked_of evs))"
    "mset (counted_of evs) = mset (handled_of evs)" "mset (map fst (checked_of evs)) = mset (received_of evs)"
proof -
  have e: "list_all (\<lambda>p. p = ProcDone) (pl_procs s)" "pl_handler s = HandlerDone" "ch_items (pl_alerts s) = []"
    using assms(1,2) by (simp_all add: pipe_inv_def)
  have h: "held to_record (pl_procs s) = []" "held to_check (pl_procs s) = []" "held to_send (pl_procs s) = []" "held to_count (pl_procs s) = []"
    using e(1) by (simp_all add: held_nothing phase_defs)
  show "mset (handled_of evs) + mset (dropped_of evs) = mset (anomalies zone (checked_of evs))"
    "mset (counted_of evs) = mset (handled_of evs)" "mset (map fst (checked_of evs)) = mset (received_of evs)"
    using assms(3) by (simp_all add: pipe_acct_def e(2,3) h in_hand_def) (elim conjE, simp)
qed

lemma run_shown:
  assumes "pipe_run zone acts (start_pipeline now) = Next (evs, s)"
  shows "shown_ok evs s"
  using pipe_run_shown [OF _ assms, of "[]"] by (simp add: shown_ok_def start_pipeline_def)


definition losing_run :: "pipe_act list" where
  "losing_run =
     concat (map (\<lambda>j. [ActProduce 0 (f64_of_int 1), ActSend 0, ActReceive j, ActTime j, ActRecord j, ActDetect j]) [0, 1, 2]) @
     [ActProduce 0 (f64_of_int 1), ActSend 0, ActTimeout, ActProcStop 0, ActProcStop 1, ActProcStop 2] @
     map ActSensorStop [0..<10] @ [ActMain, ActMain, ActMain, ActTake, ActMain]"

lemma hottest: "generateNumber (f64_of_int 1) (f64_of_int 18) (f64_of_int 60) = Fin 60"
proof -
  have "round64 (of_int n) = Fin (of_int n)" if "\<bar>n\<bar> \<le> 2 ^ 53" for n
    using f64_of_int_small [OF that] by (simp add: f64_of_int_def)
  from this [of 42] this [of 60] show ?thesis by (simp add: generateNumber_def f64_of_int_small minus_f64_def le_f64_iff)
qed

lemma hottest_detected:
  "DetectAnomaly 0 (new_reading (AllSensorConfigs ! 0) (f64_of_int 1) t) t =
     Some \<lparr>al_Reading = new_reading (AllSensorConfigs ! 0) (f64_of_int 1) t,
           al_Message = ''temperature exceeded 50'' @ bytes [194, 176] @ ''C'', al_Severity = Critical, al_Timestamp = t\<rparr>"
  by (simp add: DetectAnomaly_def new_reading_def AllSensorConfigs_def sensor_config_of_def hottest) (simp add: f64_of_int_small)

lemma ten_sensors: "length AllSensorConfigs = 10"
  by (simp add: AllSensorConfigs_def)

text \<open>At the timeout readings may be lost: three processors that are sending an alert when the context
  is cancelled return, and the reading that waits in the channel is never processed, although the program
  closes the channel and waits for the processors so that they drain it.\<close>

theorem readings_lost_at_shutdown:
  "case pipe_run 0 losing_run (start_pipeline 0) of
     Next (evs, s) \<Rightarrow>
       pl_main s = MainDone \<and> length (ch_items (pl_readings s)) = 1 \<and> length (processed_of evs) = 3 \<and>
       length (dropped_of evs) = 3 \<and> AlertsBySensor (pl_stats s) = Map.empty
   | _ \<Rightarrow> False"
  by (simp add: losing_run_def start_pipeline_def ten_sensors hottest_detected make_chan_def pipe_step_defs Let_def upt_rec
      RecordProcessed_def NewStats_def AlertsBySensor_def event_lists List.map_filter_def eval_nat_numeral)


text \<open>A queue made by \<open>NewCircularQueue\<close> cannot be used: its slice has the length 0 whatever the
  capacity, so that the first \<open>Enqueue\<close> panics (or, with the capacity 0, is refused) and
  \<open>EnqueueOverwrite\<close> always panics; with a slice of the length of its capacity the queue is a
  bounded FIFO queue.\<close>

theorem new_circular_queue_panics:
  "(case NewCircularQueue n of
      None \<Rightarrow> n < 0
    | Some c \<Rightarrow> cq_EnqueueOverwrite t c = None \<and> cq_Enqueue t c = (if n = 0 then Some (Inl ErrFullQueue) else None) \<and>
        cq_Dequeue zero c = Some (Inl ErrEmptyQueue)) \<and>
   (n \<le> 0 \<or>
      (\<exists>rep. rep \<lparr>cq_data = replicate (nat n) zero, cq_head = 0, cq_tail = 0, cq_size = 0, cq_cap = nat n\<rparr> [] \<and>
         (\<forall>c xs. \<not> rep c xs \<or>
            (if length xs = cq_cap c then cq_Enqueue t c = Some (Inl ErrFullQueue)
             else \<exists>c'. cq_Enqueue t c = Some (Inr c') \<and> rep c' (xs @ [t]) \<and> cq_cap c' = cq_cap c) \<and>
            (case xs of [] \<Rightarrow> cq_Dequeue zero c = Some (Inl ErrEmptyQueue)
             | x # ys \<Rightarrow> \<exists>c'. cq_Dequeue zero c = Some (Inr (x, c')) \<and> rep c' ys))))"
proof
  show "case NewCircularQueue n of
      None \<Rightarrow> n < 0
    | Some c \<Rightarrow> cq_EnqueueOverwrite t c = None \<and> cq_Enqueue t c = (if n = 0 then Some (Inl ErrFullQueue) else None) \<and>
        cq_Dequeue zero c = Some (Inl ErrEmptyQueue)"
    by (auto simp: NewCircularQueue_def cq_EnqueueOverwrite_def cq_Enqueue_def cq_Dequeue_def cq_put_def split: option.split)
  show "n \<le> 0 \<or>
      (\<exists>rep. rep \<lparr>cq_data = replicate (nat n) zero, cq_head = 0, cq_tail = 0, cq_size = 0, cq_cap = nat n\<rparr> [] \<and>
         (\<forall>c xs. \<not> rep c xs \<or>
            (if length xs = cq_cap c then cq_Enqueue t c = Some (Inl ErrFullQueue)
             else \<exists>c'. cq_Enqueue t c = Some (Inr c') \<and> rep c' (xs @ [t]) \<and> cq_cap c' = cq_cap c) \<and>
            (case xs of [] \<Rightarrow> cq_Dequeue zero c = Some (Inl ErrEmptyQueue)
             | x # ys \<Rightarrow> \<exists>c'. cq_Dequeue zero c = Some (Inr (x, c')) \<and> rep c' ys)))"
  proof (cases "n \<le> 0")
    case False
    then have "cq_rep \<lparr>cq_data = replicate (nat n) zero, cq_head = 0, cq_tail = 0, cq_size = 0, cq_cap = nat n\<rparr> []"
      by (simp add: cq_rep_def)
    then show ?thesis using cq_Enqueue_correct [of _ _ t] cq_Dequeue_correct [of _ _ zero] by (intro disjI2 exI [of _ cq_rep]) blast
  qed simp
qed

end
