(* ===== verification/Spec2Isabelle.thy ===== *)
theory Spec2Isabelle
  imports Go_Prelude Go_Float Heaps Catalog_Handlers Auction_Props Scenario_Grid Ride_Props Expr_Correct Spell_Props Dns_Props Editor_Correct Router_Correct Round_Robin Pipeline_Correct
begin

text \<open>
  Verification library of a repository of Go programs. The programs are independent of each
  other; the ones modelled here are those that carry state and algorithms of their own:

  \<^item> the product catalog (\<open>12-day/catalog\<close>): a store of products indexed by id and, through a
    generic B-tree, by price, behind an HTTP interface;
  \<^item> the auction service (\<open>13,14-day\<close>): users, items in a category tree, bids, per-item bid heaps,
    per-user bid stacks and watchers;
  \<^item> the traffic simulation (\<open>capstone\<close>): a road graph, signal controllers, vehicles, congestion,
    shortest paths and emergency corridors, driven by a clock;
  \<^item> the ride-sharing service (\<open>06,07-day/project\<close>): drivers indexed by cells of the map, riders, a
    queue of ride requests, active rides in a linked list, the history, and the dispatcher that
    moves a request through them;
  \<^item> the expression evaluator (\<open>08-day/exp-evaluator\<close>): a tokenizer, the conversion of infix to postfix
    notation, a stack machine and a bracket check;
  \<^item> the spell checker (\<open>11-day/spellchecker\<close>): a trie of words, the edit distance, a search tree that
    ranks suggestions, and the report over a text;
  \<^item> the caching DNS resolver (\<open>05-day/dns-cache-resolver\<close>) over a hash map with chains or a built-in
    map, and the sharded map of \<open>08-day/project\<close>;
  \<^item> the text editor (\<open>03-day/project\<close>): edits of a document that can be undone and redone;
  \<^item> the packet router (\<open>04-day/project\<close>): a queue for each priority, over three kinds of queues;
  \<^item> the CPU scheduler (\<open>10-day/cpu-scheduler\<close>): a priority scheduler with aging and a round-robin
    scheduler;
  \<^item> the sensor pipeline (\<open>09-day/iot-pipeline\<close>): sensors, processors and an alert handler connected by
    channels;
  \<^item> the binary heaps of three programs (\<open>06,07-day\<close>, \<open>10-day\<close>, \<open>13,14-day\<close>).

  Theories, and the code each of them models.

  \<^item> \<open>Go_Prelude\<close>, \<open>Go_Float\<close>, \<open>Go_Strconv\<close>: what the programs use of Go itself. \<open>int\<close> is a 64-bit
    integer written with \<open>wrap64\<close> where the code can overflow; \<open>float64\<close> is the type \<open>f64\<close>, whose
    finite values are rationals, with every operation rounded to nearest even by \<open>round64\<close>
    (there is no signed zero: the programs never divide by a zero whose sign matters and never
    print one); \<open>strconv.Atoi\<close> and \<open>strconv.ParseFloat\<close> are written out for decimal literals.
    \<open>sort.Slice\<close> is a stable sort. A range over a map visits the keys in an order that the
    language leaves open: the operations take it as a parameter, and the theorems hold for
    every order.
  \<^item> \<open>Heap_Order\<close>, \<open>Heaps\<close>: sift-up and sift-down over an array; \<open>min_heap.go\<close> of \<open>06,07-day\<close> and
    of \<open>10-day\<close>, \<open>heap.go\<close> of \<open>13,14-day\<close>. The locale of a priority queue over a strict weak order
    is interpreted for each of them.
  \<^item> \<open>BTree\<close>, \<open>BTree_Correct\<close>, \<open>BTree_Map\<close>: \<open>internal/btree/btree.go\<close> of the catalog; balance and
    key counts are preserved by every operation, and the tree implements a map.
  \<^item> \<open>Catalog_Store\<close>, \<open>Catalog_Handlers\<close>: \<open>internal/store/store.go\<close>, \<open>internal/models\<close>,
    \<open>internal/handlers\<close>, \<open>internal/middleware\<close> (content type and recovery) and the routes of
    \<open>cmd/server/main.go\<close>. A panic is \<open>None\<close> until the recovery middleware turns it into status 500.
    A request carries the outcome of decoding its body.
  \<^item> \<open>Category_Tree\<close>, \<open>Auction\<close>, \<open>Auction_Correct\<close>, \<open>Auction_Props\<close>: \<open>internal/ds/tree\<close>,
    \<open>internal/ds/stack\<close> and \<open>internal/auction\<close>. Each operation is one step of the state, as it runs
    under the item's lock; the reachable states are those of any sequence of operations.
  \<^item> \<open>Traffic_DS\<close>: \<open>internal/ds\<close> of the simulation. \<open>Traffic_Graph\<close>, \<open>Dijkstra_Correct\<close>:
    \<open>internal/model\<close> and \<open>internal/dijkstra\<close>, over any graph reader whose edges lead to nodes in
    range and have weights that are not negative. \<open>Traffic_Engine\<close>, \<open>Traffic_Signals\<close>,
    \<open>Traffic_Correct\<close>, \<open>Traffic_Props\<close>: \<open>internal/engine\<close> and the manual clock of \<open>internal/sim\<close>. A
    goroutine's turn (one iteration of its loop) and an operation of the interface are single
    steps, and a run is any interleaving of them with the ticks of the clock. This is coarser than
    the code: \<open>RegisterVehicle\<close> and \<open>DispatchEmergency\<close> take and release the lock of the ticks, of the
    roads, of each controller and of the vehicles one after the other, so that other turns may come
    between. A panic of a turn or of an operation is a panic of the run. The
    controllers are also run on their own, under any script of steps, queue operations and
    preemptions (\<open>Traffic_Signals\<close>). The queue and occupancy counters are integers: they are bounded by the number of
    vehicles, which the theorems prove. \<open>WaitVehicleProcessed\<close>, which only waits, is not a step.
  \<^item> \<open>Traffic_Scenario\<close>, \<open>Scenario_Correct\<close>, \<open>Scenario_Props\<close>, \<open>Scenario_Grid\<close>: \<open>internal/scenario\<close> and the
    part of \<open>cmd/cli/main.go\<close> that starts the real clock (whose ticker panics for an interval that is
    not positive) and the engine, registers the vehicle, fires the events and looks at the vehicle.
    A document is what \<open>encoding/json\<close> decodes; its numbers are finite (\<open>json_numbers\<close>).

  \<^item> \<open>Ride_Model\<close>, \<open>Linked_List\<close>, \<open>Ride_Stores\<close>, \<open>Ride_Dispatch\<close>: \<open>internal/models\<close>, \<open>errors\<close>, \<open>config\<close>,
    \<open>geo\<close>, \<open>ds/linkedlist\<close>, the stores of \<open>driver\<close>, \<open>rider\<close>, \<open>rides\<close> and \<open>ridequeue\<close>, and \<open>dispatch\<close>.
    The linked list is a store of nodes with addresses; \<open>math.Cos\<close> is an argument of which the
    theorems assume that it maps finite values into [-1, 1] (\<open>cos_ok\<close>). \<open>Ride_Correct\<close>: ids, the
    index of available drivers, distances and the two searches. \<open>Ride_Tracker\<close>: the linked list and
    its map of nodes implement a list of rides. \<open>Ride_Inv\<close>: the reachable states of the dispatcher,
    as long as no counter of ids wraps around, and their invariant. \<open>Ride_Coverage\<close>: which drivers
    the searched cells contain, in terms of distances, with the default configuration. \<open>Ride_Props\<close>:
    the properties. An operation of the dispatcher is one step; the driver store has a lock of its own, so
    that in the code a driver may go offline or move between the search and the assignment.

  \<^item> \<open>Expr_Eval\<close>, \<open>Expr_Correct\<close>: \<open>internal/evaluator\<close> and \<open>internal/stack\<close> of the expression evaluator;
    \<open>math.Pow\<close> is an argument. The grammar of expressions is the relation \<open>renders\<close> between an
    expression and its tokens, and a text is a list of words with gaps between them.
  \<^item> \<open>Spell_Trie\<close>, \<open>Trie_Correct\<close>, \<open>Spell_Distance\<close>, \<open>Spell_Check\<close>, \<open>Spell_Props\<close>: \<open>trie\<close>,
    \<open>internal/distance\<close>, \<open>internal/ranking\<close>, \<open>internal/spellcheck\<close>, \<open>internal/dictionary\<close>,
    \<open>internal/report\<close> and \<open>cmd/spellcheck\<close>. A string is the list of its runes; the letters, digits,
    marks and lower cases of Unicode are the argument \<open>unicode\<close>. What the checks rely on of the trie
    is the locale \<open>dictionary\<close>.
  \<^item> \<open>Hash_Store\<close>, \<open>Hash_Correct\<close>, \<open>Dns_Resolver\<close>, \<open>Dns_Props\<close>: \<open>internal/cache_store\<close>,
    \<open>internal/dns_record\<close>, \<open>internal/upstream\<close>, \<open>internal/resolver\<close> and \<open>08-day/project/hashmap.go\<close>. The
    interface of the stores is the record \<open>cache_ops\<close> with the laws of the locale \<open>cache_store\<close>,
    which the hash map and the built-in map satisfy; the resolver is proved against them in the
    locale \<open>dns_store\<close>.
  \<^item> \<open>Text_Editor\<close>, \<open>Editor_Correct\<close>: \<open>internal/editor\<close>, \<open>internal/container\<close> and the commands of
    \<open>internal/cli\<close>. The history is a store of nodes with addresses, as the code relinks them; the
    abstract editor keeps a snapshot of the document before every operation.
  \<^item> \<open>Packet_Queues\<close>, \<open>Packet_Router\<close>, \<open>Router_Correct\<close>: \<open>internal/queue\<close>, \<open>internal/packet\<close>,
    \<open>internal/classifier\<close> and \<open>internal/router\<close>. Packets are addresses of a memory that the caller may
    write to. The interface of the queues is the record \<open>queue_ops\<close> with the laws of the locale \<open>fifo\<close>;
    the router is proved against them in the locale \<open>router_queue\<close>, which each queue interprets.
  \<^item> \<open>Cpu_Scheduler\<close>, \<open>Cpu_Correct\<close>, \<open>Round_Robin\<close>: \<open>scheduler\<close> of the CPU scheduler. The goroutines are
    cut into steps at their locks, channel operations and sleeps, and a run is any interleaving of
    the steps; the order of tasks is an interpretation of \<open>strict_weak_order\<close>, from which the heap's
    laws follow. The producer stamps the arrival of a task just before it takes the lock; here the
    stamp and the push are one step.
  \<^item> \<open>Sensor_Pipeline\<close>, \<open>Pipeline_Correct\<close>: \<open>internal/queue\<close>, \<open>internal/pipeline\<close>, \<open>internal/models\<close> and
    \<open>cmd/iot\<close>. The goroutines are cut at every access to a channel, to the clock and to the statistics; a
    run is a list of such steps with the events it causes. A step that has to wait is \<open>Blocked\<close>.
    Random numbers and timers are arguments.

  Loops. A Go loop over a slice is a recursion over a list. The search loop of Dijkstra's
  algorithm and the walk back along its predecessors are partial functions whose termination is
  proved, as part of \<open>ShortestPath_correct\<close>; the enumeration of a category subtree is total by a
  measure that the tree's invariant provides. The walks along the linked list are partial functions
  that the representation invariant \<open>ll_rep\<close> makes end. The only fuel is the depth of
  the calls between \<open>Set\<close> and \<open>resize\<close> of the hash map, for which two is enough, as
  \<open>hash_store_correct\<close> shows.

  Not modelled: the JSON codec and HTTP transport, the \<open>/debug/\<close> route to the profiler of the catalog,
  logging and timing, the interleaving of goroutines inside what is one step here and the memory
  model, the wall clock, the command line programs' printing, running out of memory (so \<open>make\<close> with an
  enormous capacity succeeds, as for the ring of \<open>NeighborBlocks\<close> and the limits of
  \<open>AutoComplete\<close> and \<open>Sorted\<close>), and the programs listed as such in the manifest.
\<close>

end
